(* ===== verification/Prelude.thy ===== *)
theory Prelude
  imports Main "HOL-Library.Word"
begin

unbundle bit_operations_syntax

text \<open>
  Shared vocabulary of the development: the machine types of the source, the operations of
  the Rust core library that its code calls (saturating and checked arithmetic,
  \<^verbatim>\<open>Iterator::max_by_key\<close> and \<^verbatim>\<open>min_by_key\<close>, slice access and \<^verbatim>\<open>copy_from_slice\<close>,
  network byte order), and the generic lemmas about them that every component uses.

  A panic of the source is the value \<open>None\<close> of an option type; an early return is a
  branch. Durations are natural numbers of nanoseconds.
\<close>

section \<open>Machine types\<close>

type_synonym u8 = "8 word"
type_synonym u16 = "16 word"
type_synonym u32 = "32 word"
type_synonym u64 = "64 word"
type_synonym bytes = "8 word list"
type_synonym duration = nat

named_theorems codec \<open>read/write equations of the wire headers\<close>
named_theorems frame_simps \<open>which fields of the engine an operation leaves alone\<close>

section \<open>Integer operations of the core library\<close>

definition saturating_add :: "'a::len word \<Rightarrow> 'a word \<Rightarrow> 'a word" where
  "saturating_add x y = (if unat x + unat y < 2 ^ LENGTH('a) then x + y else - 1)"

definition saturating_sub :: "'a::len word \<Rightarrow> 'a word \<Rightarrow> 'a word" where
  "saturating_sub x y = (if x < y then 0 else x - y)"

definition saturating_mul :: "'a::len word \<Rightarrow> 'a word \<Rightarrow> 'a word" where
  "saturating_mul x y = (if unat x * unat y < 2 ^ LENGTH('a) then x * y else - 1)"

definition checked_mul :: "'a::len word \<Rightarrow> 'a word \<Rightarrow> 'a word option" where
  "checked_mul x y = (if unat x * unat y < 2 ^ LENGTH('a) then Some (x * y) else None)"

text \<open>\<^verbatim>\<open>u32::checked_shl\<close>: \<open>None\<close> when the shift amount is at least the bit width.\<close>

definition checked_shl :: "u32 \<Rightarrow> u32 \<Rightarrow> u32 option" where
  "checked_shl x n = (if n < 32 then Some (push_bit (unat n) x) else None)"

text \<open>
  \<^verbatim>\<open>Duration\<close> counts nanoseconds up to \<^verbatim>\<open>Duration::MAX\<close>, \<open>2^64 - 1\<close> seconds and a fraction; its sums and
  products panic past that, which is the value \<open>None\<close>.
\<close>

definition DURATION_MAX :: duration where
  "DURATION_MAX = 2 ^ 64 * 1000000000 - 1"

definition dur_add :: "duration \<Rightarrow> duration \<Rightarrow> duration option" where
  "dur_add a b = (if a + b \<le> DURATION_MAX then Some (a + b) else None)"

definition dur_mul :: "duration \<Rightarrow> nat \<Rightarrow> duration option" where
  "dur_mul a k = (if a * k \<le> DURATION_MAX then Some (a * k) else None)"

lemma unat_minus_one_word': "unat (- 1 :: 'a::len word) = 2 ^ LENGTH('a) - 1"
  by (simp add: unsigned_minus_1_eq_mask mask_eq_exp_minus_1)

lemma less_next_word: "x < x + 1 \<longleftrightarrow> x \<noteq> - 1" for x :: "'a::len word"
proof (cases "x = - 1")
  case False
  then have "1 + x \<noteq> 0" by (metis add.commute max_word_wrap)
  then have "unat (x + 1) = Suc (unat x)" by (simp add: unatSuc add.commute)
  with False show ?thesis by (simp add: word_less_nat_alt)
qed simp

lemma unat_saturating_add:
  "unat (saturating_add x y) = min (unat x + unat y) (2 ^ LENGTH('a) - 1)"
  for x y :: "'a::len word"
  by (auto simp: saturating_add_def unat_minus_one_word' unat_word_ariths)

lemma unat_saturating_sub: "unat (saturating_sub x y) = unat x - unat y"
  for x y :: "'a::len word"
  by (auto simp: saturating_sub_def word_less_nat_alt unat_sub word_le_nat_alt not_less)

lemma unat_saturating_mul:
  "unat (saturating_mul x y) = min (unat x * unat y) (2 ^ LENGTH('a) - 1)"
  for x y :: "'a::len word"
  by (auto simp: saturating_mul_def unat_minus_one_word' unat_word_ariths)

lemma saturating_sub_le: "saturating_sub x y \<le> x" for x y :: "'a::len word"
  by (simp add: word_le_nat_alt unat_saturating_sub)

lemma min_mult_absorb:
  fixes a k m :: nat
  assumes "1 \<le> k"
  shows "min (min a m * k) m = min (a * k) m"
proof (cases "a \<le> m")
  case True
  then show ?thesis by (simp add: min_absorb1)
next
  case False
  have le: "m \<le> m * k" "a \<le> a * k"
    using assms by simp_all
  have "min a m = m"
    using False by simp
  moreover have "min (m * k) m = m"
    using le(1) by (rule min_absorb2)
  moreover have "min (a * k) m = m"
    using le(2) False by (intro min_absorb2) linarith
  ultimately show ?thesis by simp
qed

section \<open>Choosing from an iterator\<close>

text \<open>
  \<^verbatim>\<open>max_by_key\<close> returns the last of several maximal elements, \<^verbatim>\<open>min_by_key\<close> the first of
  several minimal ones.
\<close>

fun max_by_key :: "('a \<Rightarrow> 'k::linorder) \<Rightarrow> 'a list \<Rightarrow> 'a option" where
  "max_by_key f [] = None"
| "max_by_key f (x # xs) =
     (case max_by_key f xs of None \<Rightarrow> Some x | Some y \<Rightarrow> Some (if f x \<le> f y then y else x))"

fun min_by_key :: "('a \<Rightarrow> 'k::linorder) \<Rightarrow> 'a list \<Rightarrow> 'a option" where
  "min_by_key f [] = None"
| "min_by_key f (x # xs) =
     (case min_by_key f xs of None \<Rightarrow> Some x | Some y \<Rightarrow> Some (if f x \<le> f y then x else y))"

lemma max_by_key_None [simp]: "max_by_key f xs = None \<longleftrightarrow> xs = []"
  by (cases xs) (auto split: option.splits)

lemma min_by_key_None [simp]: "min_by_key f xs = None \<longleftrightarrow> xs = []"
  by (cases xs) (auto split: option.splits)

lemma max_by_key_in: "max_by_key f xs = Some y \<Longrightarrow> y \<in> set xs"
  by (induction xs arbitrary: y) (auto split: option.splits if_splits)

lemma min_by_key_in: "min_by_key f xs = Some y \<Longrightarrow> y \<in> set xs"
  by (induction xs arbitrary: y) (auto split: option.splits if_splits)

lemma max_by_key_ge: "max_by_key f xs = Some y \<Longrightarrow> x \<in> set xs \<Longrightarrow> f x \<le> f y"
proof (induction xs arbitrary: y)
  case Nil
  then show ?case by simp
next
  case (Cons a xs)
  then show ?case
    by (cases "max_by_key f xs") (fastforce split: if_splits)+
qed

lemma min_by_key_le: "min_by_key f xs = Some y \<Longrightarrow> x \<in> set xs \<Longrightarrow> f y \<le> f x"
proof (induction xs arbitrary: y)
  case Nil
  then show ?case by simp
next
  case (Cons a xs)
  then show ?case
    by (cases "min_by_key f xs") (fastforce split: if_splits)+
qed

lemma max_by_key_Some: "xs \<noteq> [] \<Longrightarrow> \<exists>y. max_by_key f xs = Some y"
  by (metis max_by_key_None option.exhaust)

lemma max_by_key_singleton [simp]: "max_by_key f [x] = Some x"
  by simp

text \<open>\<^verbatim>\<open>Iterator::max\<close> and \<^verbatim>\<open>min\<close> over plain numbers.\<close>

definition iter_max :: "nat list \<Rightarrow> nat option" where
  "iter_max xs = (if xs = [] then None else Some (Max (set xs)))"

definition iter_min :: "nat list \<Rightarrow> nat option" where
  "iter_min xs = (if xs = [] then None else Some (Min (set xs)))"

section \<open>Slices and buffers\<close>

text \<open>\<^verbatim>\<open>slice.get(a..b)\<close>: \<open>None\<close> when the range is not inside the slice.\<close>

definition get_range :: "'a list \<Rightarrow> nat \<Rightarrow> nat \<Rightarrow> 'a list option" where
  "get_range xs a b = (if a \<le> b \<and> b \<le> length xs then Some (take (b - a) (drop a xs)) else None)"

text \<open>
  \<^verbatim>\<open>buf[a..a + src.len()].copy_from_slice(src)\<close>: panics (\<open>None\<close>) when the range is
  outside the buffer.
\<close>

definition copy_into :: "'a list \<Rightarrow> nat \<Rightarrow> 'a list \<Rightarrow> 'a list option" where
  "copy_into buf a src =
     (if a + length src \<le> length buf
      then Some (take a buf @ src @ drop (a + length src) buf) else None)"

lemma copy_into_Some:
  "a + length src \<le> length buf \<Longrightarrow>
     copy_into buf a src = Some (take a buf @ src @ drop (a + length src) buf)"
  by (simp add: copy_into_def)

lemma copy_into_length: "copy_into buf a src = Some buf' \<Longrightarrow> length buf' = length buf"
  by (auto simp: copy_into_def split: if_splits)

lemma copy_into_take:
  "copy_into buf a src = Some buf' \<Longrightarrow> take (a + length src) buf' = take a buf @ src"
  by (auto simp: copy_into_def split: if_splits)

text \<open>Writing the next piece behind what was already written.\<close>

lemma copy_next:
  assumes "n = length p" "n + length src \<le> length buf"
  shows "copy_into (p @ drop n buf) n src = Some ((p @ src) @ drop (n + length src) buf)"
  using assms by (simp add: copy_into_def add.commute)

lemma copy_first:
  assumes "length src \<le> length buf"
  shows "copy_into buf 0 src = Some (src @ drop (length src) buf)"
  using assms by (simp add: copy_into_def)

lemma get_range_length: "get_range xs a b = Some ys \<Longrightarrow> length ys = b - a"
  by (auto simp: get_range_def split: if_splits)

section \<open>Network byte order\<close>

definition u16_to_be :: "u16 \<Rightarrow> bytes" where
  "u16_to_be x = [ucast (drop_bit 8 x), ucast x]"

definition u16_of_be :: "u8 \<Rightarrow> u8 \<Rightarrow> u16" where
  "u16_of_be a b = push_bit 8 (ucast a) OR ucast b"

definition u32_to_be :: "u32 \<Rightarrow> bytes" where
  "u32_to_be x = [ucast (drop_bit 24 x), ucast (drop_bit 16 x), ucast (drop_bit 8 x), ucast x]"

definition u32_of_be :: "u8 \<Rightarrow> u8 \<Rightarrow> u8 \<Rightarrow> u8 \<Rightarrow> u32" where
  "u32_of_be a b c d =
     push_bit 24 (ucast a) OR push_bit 16 (ucast b) OR push_bit 8 (ucast c) OR ucast d"

lemma length_u16_to_be [simp]: "length (u16_to_be x) = 2"
  by (simp add: u16_to_be_def)

lemma length_u32_to_be [simp]: "length (u32_to_be x) = 4"
  by (simp add: u32_to_be_def)

lemma u16_be_roundtrip [simp]: "u16_of_be (ucast (drop_bit 8 x)) (ucast x) = x"
  by (rule bit_word_eqI) (auto simp: u16_of_be_def bit_simps)

lemma u32_be_roundtrip [simp]:
  "u32_of_be (ucast (drop_bit 24 x)) (ucast (drop_bit 16 x)) (ucast (drop_bit 8 x)) (ucast x) = x"
proof (rule bit_word_eqI)
  fix n assume "n < LENGTH(32)"
  then consider "n < 8" | "8 \<le> n" "n < 16" | "16 \<le> n" "n < 24" | "24 \<le> n" "n < 32"
    by fastforce
  then show "bit (u32_of_be (ucast (drop_bit 24 x)) (ucast (drop_bit 16 x))
      (ucast (drop_bit 8 x)) (ucast x)) n = bit x n"
    by cases (auto simp: u32_of_be_def bit_simps)
qed

lemma u16_to_be_of_be [simp]: "u16_to_be (u16_of_be a b) = [a, b]"
proof -
  have "(ucast (drop_bit 8 (u16_of_be a b)) :: u8) = a"
    by (rule bit_word_eqI) (auto simp: u16_of_be_def bit_simps dest: bit_imp_le_length)
  moreover have "(ucast (u16_of_be a b) :: u8) = b"
    by (rule bit_word_eqI) (auto simp: u16_of_be_def bit_simps)
  ultimately show ?thesis by (simp add: u16_to_be_def)
qed

text \<open>Eight bytes at a time; a slice of another length has no reading and is never asked for.\<close>

definition u64_to_be :: "u64 \<Rightarrow> bytes" where
  "u64_to_be x = u32_to_be (ucast (drop_bit 32 x)) @ u32_to_be (ucast x)"

fun u64_of_be :: "bytes \<Rightarrow> u64" where
  "u64_of_be [a, b, c, d, e, f, g, h] = push_bit 32 (ucast (u32_of_be a b c d)) OR ucast (u32_of_be e f g h)"
| "u64_of_be _ = 0"

lemma length_u64_to_be [simp]: "length (u64_to_be x) = 8"
  by (simp add: u64_to_be_def)

lemma u32_to_be_of_be [simp]: "u32_to_be (u32_of_be a b c d) = [a, b, c, d]"
proof -
  have "(ucast (drop_bit 24 (u32_of_be a b c d)) :: u8) = a"
    by (rule bit_word_eqI) (auto simp: u32_of_be_def bit_simps dest: bit_imp_le_length)
  moreover have "(ucast (drop_bit 16 (u32_of_be a b c d)) :: u8) = b"
    by (rule bit_word_eqI) (auto simp: u32_of_be_def bit_simps dest: bit_imp_le_length)
  moreover have "(ucast (drop_bit 8 (u32_of_be a b c d)) :: u8) = c"
    by (rule bit_word_eqI) (auto simp: u32_of_be_def bit_simps dest: bit_imp_le_length)
  moreover have "(ucast (u32_of_be a b c d) :: u8) = d"
    by (rule bit_word_eqI) (auto simp: u32_of_be_def bit_simps)
  ultimately show ?thesis by (simp add: u32_to_be_def)
qed

lemma u64_halves:
  "(ucast (drop_bit 32 (push_bit 32 (ucast (x :: u32)) OR ucast (y :: u32) :: u64)) :: u32) = x"
  "(ucast (push_bit 32 (ucast (x :: u32)) OR ucast (y :: u32) :: u64) :: u32) = y"
  by (rule bit_word_eqI, auto simp: bit_simps dest: bit_imp_le_length)+

lemma u64_be_roundtrip [simp]: "u64_of_be (u64_to_be x) = x"
proof -
  have "push_bit 32 (ucast (ucast (drop_bit 32 x) :: u32)) OR ucast (ucast x :: u32) = x"
    by (rule bit_word_eqI) (auto simp: bit_simps)
  then show ?thesis by (simp add: u64_to_be_def u32_to_be_def)
qed

lemma u64_to_be_of_be:
  assumes "length bs = 8"
  shows "u64_to_be (u64_of_be bs) = bs"
proof -
  obtain a b c d e f g h where "bs = [a, b, c, d, e, f, g, h]"
    using assms by (auto simp: length_Suc_conv numeral_eq_Suc)
  then show ?thesis unfolding u64_to_be_def by (simp only: u64_of_be.simps u64_halves u32_to_be_of_be) simp
qed

section \<open>Little-endian byte order\<close>

definition u16_to_le :: "u16 \<Rightarrow> bytes" where
  "u16_to_le x = [ucast x, ucast (drop_bit 8 x)]"

definition u16_of_le :: "u8 \<Rightarrow> u8 \<Rightarrow> u16" where
  "u16_of_le a b = u16_of_be b a"

lemma length_u16_to_le [simp]: "length (u16_to_le x) = 2"
  by (simp add: u16_to_le_def)

lemma u16_le_roundtrip [simp]: "u16_of_le (ucast x) (ucast (drop_bit 8 x)) = x"
  by (simp add: u16_of_le_def)

section \<open>Changing the first match\<close>

text \<open>\<^verbatim>\<open>iter_mut().find\<close>: change the first match.\<close>

fun update_first :: "('a \<Rightarrow> bool) \<Rightarrow> ('a \<Rightarrow> 'a) \<Rightarrow> 'a list \<Rightarrow> 'a list option" where
  "update_first Q f [] = None"
| "update_first Q f (x # xs) = (if Q x then Some (f x # xs) else map_option (Cons x) (update_first Q f xs))"

lemma update_first_None: "update_first Q f xs = None \<longleftrightarrow> (\<forall>x \<in> set xs. \<not> Q x)"
  by (induction xs) auto

lemma update_first_Some:
  "update_first Q f xs = Some ys \<Longrightarrow>
     \<exists>pre x post. xs = pre @ x # post \<and> Q x \<and> ys = pre @ f x # post \<and> (\<forall>z \<in> set pre. \<not> Q z)"
proof (induction xs arbitrary: ys)
  case (Cons a xs)
  show ?case
  proof (cases "Q a")
    case True
    with Cons.prems show ?thesis by (intro exI [of _ "[]"]) auto
  next
    case False
    with Cons obtain zs where "update_first Q f xs = Some zs" "ys = a # zs" by auto
    with Cons.IH [of zs] obtain pre x post where
      "xs = pre @ x # post" "Q x" "zs = pre @ f x # post" "\<forall>z \<in> set pre. \<not> Q z" by blast
    with False \<open>ys = a # zs\<close> show ?thesis by (intro exI [of _ "a # pre"]) auto
  qed
qed simp

text \<open>\<^verbatim>\<open>iter().position\<close>: the index of the first match.\<close>

fun position :: "('a \<Rightarrow> bool) \<Rightarrow> 'a list \<Rightarrow> nat option" where
  "position p [] = None"
| "position p (x # xs) = (if p x then Some 0 else map_option Suc (position p xs))"

lemma position_None: "position p xs = None \<longleftrightarrow> (\<forall>x\<in>set xs. \<not> p x)"
  by (induction xs) auto

lemma position_Some: "position p xs = Some i \<Longrightarrow> i < length xs \<and> p (xs ! i)"
  by (induction xs arbitrary: i) (auto split: if_splits)

section \<open>Lists of results\<close>

lemma those_Some: "those xs = Some ys \<longleftrightarrow> xs = map Some ys"
proof (induction xs arbitrary: ys)
  case (Cons x xs)
  show ?case by (cases x; cases ys) (auto simp: Cons.IH)
qed auto

lemma those_map: "those (map (\<lambda>x. if f x then Some (g x) else None) xs) = (if \<forall>x\<in>set xs. f x then Some (map g xs) else None)"
  by (induction xs) auto

end
