(* ===== verification/Heapless.thy ===== *)
theory Heapless
  imports Prelude
begin

text \<open>
  The fixed-capacity containers of the routing core. \<^verbatim>\<open>heapless::Vec\<close> and
  \<^verbatim>\<open>heapless::FnvIndexMap\<close> come from a third-party crate. The model keeps only the contents
  in iteration order: a vector is a list, an index map the list of its entries. Inserting
  into a map updates a present key in place, appends a new one, and is refused exactly when
  the key is new and the map is full. How removal reorders the survivors is not fixed
  here: it is the parameter \<open>sw\<close> (the old positions of the survivors in their new order),
  and the documented \<^verbatim>\<open>swap_remove\<close> behaviour is the hypothesis \<open>swap_remove_law\<close>.

  The locale \<open>index_map\<close> states what the routing tables rely on; \<open>heapless_map\<close> shows that
  the contract follows from the law, and \<open>documented_swap\<close> is an order that satisfies it.
\<close>

section \<open>Contents of a bounded map\<close>

type_synonym ('k, 'v) imap = "('k \<times> 'v) list"
type_synonym swap_fn = "nat \<Rightarrow> nat \<Rightarrow> nat list"

definition im_get :: "('k, 'v) imap \<Rightarrow> 'k \<Rightarrow> 'v option" where
  "im_get m k = map_of m k"

definition im_contains :: "('k, 'v) imap \<Rightarrow> 'k \<Rightarrow> bool" where
  "im_contains m k \<longleftrightarrow> im_get m k \<noteq> None"

fun im_set :: "'k \<Rightarrow> 'v \<Rightarrow> ('k, 'v) imap \<Rightarrow> ('k, 'v) imap" where
  "im_set k v [] = []"
| "im_set k v ((a, b) # m) = (if a = k then (a, v) # m else (a, b) # im_set k v m)"

definition im_insert :: "nat \<Rightarrow> 'k \<Rightarrow> 'v \<Rightarrow> ('k, 'v) imap \<Rightarrow> ('k, 'v) imap option" where
  "im_insert cap k v m =
     (if im_contains m k then Some (im_set k v m)
      else if length m < cap then Some (m @ [(k, v)]) else None)"

fun im_index :: "'k \<Rightarrow> ('k, 'v) imap \<Rightarrow> nat option" where
  "im_index k [] = None"
| "im_index k ((a, b) # m) = (if a = k then Some 0 else map_option Suc (im_index k m))"

definition swap_remove :: "swap_fn \<Rightarrow> nat \<Rightarrow> 'a list \<Rightarrow> 'a list" where
  "swap_remove sw i xs = map (nth xs) (sw (length xs) i)"

definition im_remove :: "swap_fn \<Rightarrow> 'k \<Rightarrow> ('k, 'v) imap \<Rightarrow> ('k, 'v) imap" where
  "im_remove sw k m = (case im_index k m of None \<Rightarrow> m | Some i \<Rightarrow> swap_remove sw i m)"

definition im_retain :: "('k \<Rightarrow> 'v \<Rightarrow> bool) \<Rightarrow> ('k, 'v) imap \<Rightarrow> ('k, 'v) imap" where
  "im_retain P m = filter (\<lambda>(k, v). P k v) m"

definition im_map_values :: "('v \<Rightarrow> 'v) \<Rightarrow> ('k, 'v) imap \<Rightarrow> ('k, 'v) imap" where
  "im_map_values f m = map (\<lambda>(k, v). (k, f v)) m"

definition im_keys :: "('k, 'v) imap \<Rightarrow> 'k list" where
  "im_keys m = map fst m"

definition im_ok :: "nat \<Rightarrow> ('k, 'v) imap \<Rightarrow> bool" where
  "im_ok cap m \<longleftrightarrow> distinct (im_keys m) \<and> length m \<le> cap"

text \<open>\<^verbatim>\<open>heapless::Vec::push\<close>: refused (\<open>None\<close>) when the vector is full.\<close>

definition vec_push :: "nat \<Rightarrow> 'a \<Rightarrow> 'a list \<Rightarrow> 'a list option" where
  "vec_push cap x xs = (if length xs < cap then Some (xs @ [x]) else None)"

section \<open>The removal order\<close>

definition documented_swap :: swap_fn where
  "documented_swap n i = (if Suc i = n then [0..<i] else [0..<n - 1][i := n - 1])"

definition swap_remove_law :: "swap_fn \<Rightarrow> bool" where
  "swap_remove_law sw \<longleftrightarrow> (\<forall>n i. i < n \<longrightarrow> sw n i = documented_swap n i)"

lemma documented_swap_law: "swap_remove_law documented_swap"
  by (simp add: swap_remove_law_def)

lemma mset_documented_swap:
  assumes "i < n"
  shows "distinct (documented_swap n i)" "set (documented_swap n i) = {0..<n} - {i}"
    "length (documented_swap n i) = n - 1"
proof -
  show "length (documented_swap n i) = n - 1"
    using assms by (auto simp: documented_swap_def)
  show "distinct (documented_swap n i)"
    using assms by (auto simp: documented_swap_def intro!: distinct_list_update)
  have "set ([0..<n - 1][i := n - 1]) = {0..<n} - {i}" if "Suc i < n"
    using that by (subst set_update_distinct) auto
  then show "set (documented_swap n i) = {0..<n} - {i}"
    using assms by (cases "Suc i = n") (auto simp: documented_swap_def)
qed

lemma swap_removeD:
  assumes "swap_remove_law sw" "i < length xs"
  shows "swap_remove sw i xs = map (nth xs) (documented_swap (length xs) i)"
    "length (swap_remove sw i xs) = length xs - 1"
    "set (swap_remove sw i xs) \<subseteq> set xs"
  using assms mset_documented_swap [OF assms(2)]
  by (auto simp: swap_remove_def swap_remove_law_def)

lemma swap_remove_eq:
  assumes "swap_remove_law sw" "i < length xs"
  shows "swap_remove sw i xs =
    (if Suc i = length xs then butlast xs else (butlast xs)[i := last xs])"
  using assms
  by (intro nth_equalityI)
     (auto simp: swap_removeD documented_swap_def nth_list_update nth_butlast last_conv_nth
       simp flip: length_greater_0_conv)

lemma set_swap_remove:
  assumes "swap_remove_law sw" "i < length xs" "distinct xs"
  shows "distinct (swap_remove sw i xs)" "set (swap_remove sw i xs) = set xs - {xs ! i}"
proof -
  note sw = swap_removeD(1) [OF assms(1,2)] mset_documented_swap [OF assms(2)]
  have inj: "inj_on (nth xs) {0..<length xs}"
    using assms(3) by (simp add: inj_on_def nth_eq_iff_index_eq)
  then show "distinct (swap_remove sw i xs)"
    using sw by (auto simp: distinct_map intro: inj_on_subset)
  have "nth xs ` ({0..<length xs} - {i}) = nth xs ` {0..<length xs} - nth xs ` {i}"
    using inj assms(2) by (intro inj_on_image_set_diff) auto
  also have "nth xs ` {0..<length xs} = set xs"
    by (metis list.set_map map_nth set_upt)
  finally show "set (swap_remove sw i xs) = set xs - {xs ! i}"
    using sw by simp
qed

section \<open>Facts about map contents\<close>

lemma im_keys_set [simp]: "im_keys (im_set k v m) = im_keys m"
  by (induction m rule: im_set.induct) (auto simp: im_keys_def)

lemma length_im_set [simp]: "length (im_set k v m) = length m"
  by (induction m rule: im_set.induct) auto

lemma im_get_set: "im_get (im_set k v m) = (if im_contains m k then (im_get m)(k \<mapsto> v) else im_get m)"
  by (induction m rule: im_set.induct) (auto simp: im_get_def im_contains_def fun_eq_iff)

lemma im_get_key: "im_get m k = Some v \<Longrightarrow> k \<in> set (im_keys m)"
  by (force simp: im_get_def im_keys_def dest: map_of_SomeD)

lemma im_get_in: "im_get m k = Some v \<Longrightarrow> (k, v) \<in> set m"
  by (simp add: im_get_def map_of_SomeD)

lemma im_contains_iff: "im_contains m k \<longleftrightarrow> k \<in> set (im_keys m)"
  by (simp add: im_contains_def im_get_def im_keys_def map_of_eq_None_iff)

lemma im_get_iff: "distinct (im_keys m) \<Longrightarrow> im_get m k = Some v \<longleftrightarrow> (k, v) \<in> set m"
  by (simp add: im_get_def im_keys_def)

lemma im_set_in:
  assumes "(a, b) \<in> set (im_set k v m)"
  shows "(a, b) = (k, v) \<or> (a, b) \<in> set m"
  using assms by (induction k v m rule: im_set.induct) (auto split: if_splits)

lemma im_index_Some:
  "im_index k m = Some i \<Longrightarrow> i < length m \<and> fst (m ! i) = k"
  by (induction m arbitrary: i rule: im_index.induct) (auto split: if_splits)

lemma im_index_None: "im_index k m = None \<longleftrightarrow> k \<notin> set (im_keys m)"
  by (induction m rule: im_index.induct) (auto simp: im_keys_def)

lemma im_get_unique:
  assumes "distinct (im_keys m)" "distinct (im_keys m')"
    and "\<And>k v. (k, v) \<in> set m' \<longleftrightarrow> (k, v) \<in> set m \<and> P k"
  shows "im_get m' k = (if P k then im_get m k else None)"
proof (cases "im_get m' k")
  case None
  then show ?thesis
    using assms by (metis im_get_iff not_Some_eq)
next
  case (Some v)
  then show ?thesis
    using assms by (metis im_get_iff)
qed

lemma im_keys_swap_remove:
  assumes "swap_remove_law sw" "i < length m"
  shows "im_keys (swap_remove sw i m) = swap_remove sw i (im_keys m)"
  using assms mset_documented_swap [OF assms(2)]
  by (auto simp: im_keys_def swap_remove_def swap_remove_law_def)

lemma im_remove_props:
  assumes law: "swap_remove_law sw" and d: "distinct (im_keys m)"
  shows "distinct (im_keys (im_remove sw k m))"
    "set (im_remove sw k m) = {e \<in> set m. fst e \<noteq> k}"
    "length (im_remove sw k m) = (if im_contains m k then length m - 1 else length m)"
proof -
  have "distinct (im_keys (im_remove sw k m)) \<and> set (im_remove sw k m) = {e \<in> set m. fst e \<noteq> k}
    \<and> length (im_remove sw k m) = (if im_contains m k then length m - 1 else length m)"
  proof (cases "im_index k m")
    case None
    then have "k \<notin> fst ` set m"
      by (simp add: im_index_None im_keys_def)
    then have "{e \<in> set m. fst e \<noteq> k} = set m"
      by auto
    moreover have "im_remove sw k m = m" "\<not> im_contains m k"
      using None by (simp_all add: im_remove_def im_contains_iff flip: im_index_None)
    ultimately show ?thesis
      using d by simp
  next
    case (Some i)
    then have i: "i < length m" and fi: "fst (m ! i) = k"
      by (auto dest: im_index_Some)
    have dm: "distinct m"
      using d by (simp add: im_keys_def distinct_map)
    have inj: "inj_on fst (set m)"
      using d by (simp add: im_keys_def distinct_map)
    have "set m - {m ! i} = {e \<in> set m. fst e \<noteq> k}"
      using inj i fi by (auto simp: inj_on_def)
    moreover have "im_contains m k"
      using Some im_index_None im_contains_iff by (metis option.distinct(1))
    moreover have "distinct (im_keys (swap_remove sw i m))"
      using set_swap_remove(1) [OF law, of i "im_keys m"] i d
      by (simp add: im_keys_swap_remove [OF law i]) (simp add: im_keys_def)
    ultimately show ?thesis
      using Some set_swap_remove [OF law i dm] swap_removeD(2) [OF law i]
      by (simp add: im_remove_def)
  qed
  then show "distinct (im_keys (im_remove sw k m))"
    "set (im_remove sw k m) = {e \<in> set m. fst e \<noteq> k}"
    "length (im_remove sw k m) = (if im_contains m k then length m - 1 else length m)"
    by blast+
qed

lemma im_get_remove:
  assumes "swap_remove_law sw" "distinct (im_keys m)"
  shows "im_get (im_remove sw k m) = (im_get m)(k := None)"
proof
  fix a
  have "im_get (im_remove sw k m) a = (if a \<noteq> k then im_get m a else None)"
    using im_remove_props [OF assms, of k] assms by (intro im_get_unique) auto
  then show "im_get (im_remove sw k m) a = ((im_get m)(k := None)) a"
    by simp
qed

lemma im_get_retain:
  assumes "distinct (im_keys m)"
  shows "im_get (im_retain P m) k =
    (case im_get m k of None \<Rightarrow> None | Some v \<Rightarrow> if P k v then Some v else None)"
proof -
  have d: "distinct (im_keys (im_retain P m))"
    using assms by (auto simp: im_keys_def im_retain_def distinct_map inj_on_def)
  show ?thesis
    using im_get_iff [OF d] im_get_iff [OF assms]
    by (auto simp: im_retain_def split: option.splits) (metis not_Some_eq)+
qed

lemma im_retain_ok [simp, intro]: "im_ok cap m \<Longrightarrow> im_ok cap (im_retain P m)"
  by (auto simp: im_ok_def im_keys_def im_retain_def distinct_map inj_on_def
      intro: order_trans [OF length_filter_le])

lemma im_keys_map_values [simp]: "im_keys (im_map_values f m) = im_keys m"
  by (induction m) (auto simp: im_keys_def im_map_values_def)

lemma length_im_map_values [simp]: "length (im_map_values f m) = length m"
  by (simp add: im_map_values_def)

lemma im_get_map_values: "im_get (im_map_values f m) k = map_option f (im_get m k)"
  by (induction m) (auto simp: im_get_def im_map_values_def)

lemma im_ok_map_values [simp]: "im_ok cap (im_map_values f m) = im_ok cap m"
  by (simp add: im_ok_def)

lemma im_ok_set [simp]: "im_ok cap (im_set k v m) = im_ok cap m"
  by (simp add: im_ok_def)

lemma im_ok_Nil [simp, intro]: "im_ok cap []"
  by (simp add: im_ok_def im_keys_def)

lemma im_get_Nil [simp]: "im_get [] k = None"
  by (simp add: im_get_def)

section \<open>Vectors with a key per element\<close>

text \<open>
  \<^verbatim>\<open>heapless::Vec::swap_remove\<close> puts the last element into the gap. The tables of the authenticator are
  vectors searched by a key, with at most one element per key.
\<close>

definition vec_swap_remove :: "nat \<Rightarrow> 'a list \<Rightarrow> 'a list" where
  "vec_swap_remove i xs = swap_remove documented_swap i xs"

definition vec_remove_first :: "('a \<Rightarrow> bool) \<Rightarrow> 'a list \<Rightarrow> 'a list" where
  "vec_remove_first q xs = (case position q xs of None \<Rightarrow> xs | Some i \<Rightarrow> vec_swap_remove i xs)"

lemma length_vec_swap_remove: "i < length xs \<Longrightarrow> length (vec_swap_remove i xs) = length xs - 1"
  by (simp add: vec_swap_remove_def swap_removeD(2) [OF documented_swap_law])

lemma map_vec_swap_remove: "i < length xs \<Longrightarrow> map f (vec_swap_remove i xs) = vec_swap_remove i (map f xs)"
  using mset_documented_swap [of i "length xs"] by (auto simp: vec_swap_remove_def swap_remove_def)

lemma find_keyed_iff:
  "distinct (map key xs) \<Longrightarrow> find (\<lambda>x. key x = k) xs = Some y \<longleftrightarrow> y \<in> set xs \<and> key y = k"
  by (induction xs) (auto simp: image_iff)

lemma find_keyed_in: "find (\<lambda>x. key x = k) xs = Some y \<Longrightarrow> y \<in> set xs \<and> key y = k"
  by (auto simp: find_Some_iff)

lemma find_keyed_None: "find (\<lambda>x. key x = k) xs = None \<longleftrightarrow> k \<notin> key ` set xs"
  by (auto simp: find_None_iff image_iff)

lemma find_keyed_cong:
  assumes "distinct (map key xs)" "distinct (map key ys)"
    and "\<And>x. key x = k \<Longrightarrow> x \<in> set xs \<longleftrightarrow> x \<in> set ys"
  shows "find (\<lambda>x. key x = k) xs = find (\<lambda>x. key x = k) ys"
proof (cases "find (\<lambda>x. key x = k) ys")
  case None
  then have "find (\<lambda>x. key x = k) xs = None" using assms(3) by (auto simp: find_None_iff)
  with None show ?thesis by simp
next
  case (Some y)
  then have "find (\<lambda>x. key x = k) xs = Some y" using assms by (simp add: find_keyed_iff)
  with Some show ?thesis by simp
qed

lemma vec_swap_remove_keyed:
  assumes "distinct (map key xs)" "i < length xs"
  shows "distinct (map key (vec_swap_remove i xs))" "set (vec_swap_remove i xs) = {x \<in> set xs. key x \<noteq> key (xs ! i)}"
proof -
  have "distinct xs" "inj_on key (set xs)" using assms(1) by (simp_all add: distinct_map)
  note sr = set_swap_remove [OF documented_swap_law assms(2) this(1)]
  have "set xs - {xs ! i} = {x \<in> set xs. key x \<noteq> key (xs ! i)}"
    using \<open>inj_on key (set xs)\<close> assms(2) by (auto simp: inj_on_def)
  with sr show "set (vec_swap_remove i xs) = {x \<in> set xs. key x \<noteq> key (xs ! i)}" by (simp add: vec_swap_remove_def)
  show "distinct (map key (vec_swap_remove i xs))"
    using sr \<open>inj_on key (set xs)\<close> by (auto simp: vec_swap_remove_def distinct_map intro: inj_on_subset)
qed

lemma vec_remove_first_keyed:
  assumes "distinct (map key xs)"
  shows "distinct (map key (vec_remove_first (\<lambda>x. key x = k) xs))"
    "set (vec_remove_first (\<lambda>x. key x = k) xs) = {x \<in> set xs. key x \<noteq> k}"
    "length (vec_remove_first (\<lambda>x. key x = k) xs) \<le> length xs"
proof -
  have "distinct (map key (vec_remove_first (\<lambda>x. key x = k) xs))
      \<and> set (vec_remove_first (\<lambda>x. key x = k) xs) = {x \<in> set xs. key x \<noteq> k}
      \<and> length (vec_remove_first (\<lambda>x. key x = k) xs) \<le> length xs"
  proof (cases "position (\<lambda>x. key x = k) xs")
    case None
    then have "{x \<in> set xs. key x \<noteq> k} = set xs" by (auto simp: position_None)
    with None assms show ?thesis by (simp add: vec_remove_first_def)
  next
    case (Some i)
    then have i: "i < length xs" "key (xs ! i) = k" using position_Some [OF Some] by auto
    with vec_swap_remove_keyed [OF assms i(1)] length_vec_swap_remove [OF i(1)] Some show ?thesis
      by (simp add: vec_remove_first_def)
  qed
  then show "distinct (map key (vec_remove_first (\<lambda>x. key x = k) xs))"
    "set (vec_remove_first (\<lambda>x. key x = k) xs) = {x \<in> set xs. key x \<noteq> k}"
    "length (vec_remove_first (\<lambda>x. key x = k) xs) \<le> length xs" by blast+
qed

lemma find_vec_remove_first:
  assumes "distinct (map key xs)"
  shows "find (\<lambda>x. key x = k') (vec_remove_first (\<lambda>x. key x = k) xs)
    = (if k' = k then None else find (\<lambda>x. key x = k') xs)"
proof (cases "k' = k")
  case True
  then show ?thesis using vec_remove_first_keyed(2) [OF assms] by (auto simp: find_None_iff)
next
  case False
  with vec_remove_first_keyed [OF assms] assms show ?thesis
    by (simp) (rule find_keyed_cong, auto)
qed

definition vec_ok :: "nat \<Rightarrow> ('a \<Rightarrow> 'k) \<Rightarrow> 'a list \<Rightarrow> bool" where
  "vec_ok cap key xs \<longleftrightarrow> distinct (map key xs) \<and> length xs \<le> cap"

lemma vec_ok_Nil [simp]: "vec_ok cap key []"
  by (simp add: vec_ok_def)

lemma vec_ok_filter [simp]: "vec_ok cap key xs \<Longrightarrow> vec_ok cap key (filter q xs)"
  by (auto simp: vec_ok_def distinct_map_filter intro: order_trans [OF length_filter_le])

lemma vec_ok_remove_first: "vec_ok cap key xs \<Longrightarrow> vec_ok cap key (vec_remove_first (\<lambda>x. key x = k) xs)"
  using vec_remove_first_keyed [of key xs k] by (auto simp: vec_ok_def)

lemma vec_ok_swap_remove: "vec_ok cap key xs \<Longrightarrow> i < length xs \<Longrightarrow> vec_ok cap key (vec_swap_remove i xs)"
  using vec_swap_remove_keyed(1) [of key xs i] length_vec_swap_remove [of i xs] by (auto simp: vec_ok_def)

lemma vec_ok_push: "vec_ok cap key xs \<Longrightarrow> key x \<notin> key ` set xs \<Longrightarrow> vec_push cap x xs = Some ys \<Longrightarrow> vec_ok cap key ys"
  by (auto simp: vec_ok_def vec_push_def split: if_splits)

lemma vec_ok_set: "vec_ok cap key xs \<Longrightarrow> key x \<notin> key ` set xs \<Longrightarrow> vec_ok cap key (xs[i := x])"
  by (cases "i < length xs") (auto simp: vec_ok_def map_update intro!: distinct_list_update)

lemma vec_ok_update_first:
  assumes "vec_ok cap key xs" "update_first q f xs = Some ys" "\<And>x. q x \<Longrightarrow> key (f x) = key x"
  shows "vec_ok cap key ys"
proof -
  obtain pre x post where "xs = pre @ x # post" "q x" "ys = pre @ f x # post" using update_first_Some [OF assms(2)] by blast
  with assms(1,3) show ?thesis by (auto simp: vec_ok_def)
qed

lemma update_first_absent: "update_first (\<lambda>x. key x = k) f xs = None \<longleftrightarrow> k \<notin> key ` set xs"
  by (auto simp: update_first_None)

text \<open>Replacing the element of a key: what the table holds afterwards.\<close>

lemma update_first_keyed:
  assumes "distinct (map key xs)" "update_first (\<lambda>x. key x = k) (\<lambda>_. y) xs = Some ys" "key y = k"
  shows "set ys = insert y {x \<in> set xs. key x \<noteq> k}"
proof -
  obtain pre x post where "xs = pre @ x # post" "key x = k" "ys = pre @ y # post" using update_first_Some [OF assms(2)] by blast
  with assms(1,3) show ?thesis by (auto simp: image_iff)
qed

section \<open>The contract of a bounded map\<close>

locale index_map =
  fixes get :: "'m \<Rightarrow> 'k \<Rightarrow> 'v option"
    and insert :: "'k \<Rightarrow> 'v \<Rightarrow> 'm \<Rightarrow> 'm option"
    and remove :: "'k \<Rightarrow> 'm \<Rightarrow> 'm"
    and size :: "'m \<Rightarrow> nat"
    and cap :: nat
    and invar :: "'m \<Rightarrow> bool"
  assumes cap_pos: "0 < cap"
    and insert_refused: "invar m \<Longrightarrow> insert k v m = None \<longleftrightarrow> get m k = None \<and> cap \<le> size m"
    and insert_invar: "invar m \<Longrightarrow> insert k v m = Some m' \<Longrightarrow> invar m'"
    and insert_get: "invar m \<Longrightarrow> insert k v m = Some m' \<Longrightarrow> get m' = (get m)(k \<mapsto> v)"
    and remove_invar: "invar m \<Longrightarrow> invar (remove k m)"
    and remove_get: "invar m \<Longrightarrow> get (remove k m) = (get m)(k := None)"
    and remove_size: "invar m \<Longrightarrow> get m k \<noteq> None \<Longrightarrow> size (remove k m) < size m"
    and invar_size: "invar m \<Longrightarrow> size m \<le> cap"
begin

text \<open>Making room: once a present key is removed, an insertion cannot be refused.\<close>

lemma insert_after_evict:
  assumes "invar m" "get m old \<noteq> None"
  shows "\<exists>m'. insert k v (remove old m) = Some m' \<and> invar m'
    \<and> get m' = ((get m)(old := None))(k \<mapsto> v)"
proof -
  have "size (remove old m) < cap"
    using assms remove_size invar_size by (meson order_less_le_trans)
  then have "insert k v (remove old m) \<noteq> None"
    using assms insert_refused remove_invar by (metis leD)
  then obtain m' where "insert k v (remove old m) = Some m'"
    by blast
  then show ?thesis
    using assms insert_invar insert_get remove_invar remove_get by metis
qed

lemma insert_with_room:
  assumes "invar m" "size m < cap \<or> get m k \<noteq> None"
  shows "\<exists>m'. insert k v m = Some m' \<and> invar m' \<and> get m' = (get m)(k \<mapsto> v)"
  using assms by (metis insert_get insert_invar insert_refused leD not_Some_eq)

end

locale heapless_map =
  fixes sw :: swap_fn and cap :: nat
  assumes swap_law: "swap_remove_law sw"
    and capacity_pos: "0 < cap"
begin

sublocale imap: index_map im_get "im_insert cap" "im_remove sw" length cap "im_ok cap"
proof unfold_locales
  show "0 < cap" by (rule capacity_pos)
next
  fix m :: "('k, 'v) imap" and k v
  assume ok: "im_ok cap m"
  then have d: "distinct (im_keys m)" and le: "length m \<le> cap"
    by (auto simp: im_ok_def)
  note rm = im_remove_props [OF swap_law d, of k]
  show "im_insert cap k v m = None \<longleftrightarrow> im_get m k = None \<and> cap \<le> length m"
    by (auto simp: im_insert_def im_contains_def)
  show "im_ok cap (im_remove sw k m)"
    using rm le by (auto simp: im_ok_def)
  show "im_get (im_remove sw k m) = (im_get m)(k := None)"
    by (rule im_get_remove [OF swap_law d])
  show "length m \<le> cap" by (rule le)
  show "length (im_remove sw k m) < length m" if "im_get m k \<noteq> None"
    using that rm by (cases m) (auto simp: im_contains_def)
  fix m' assume ins: "im_insert cap k v m = Some m'"
  show "im_ok cap m'"
    using ins d le
    by (auto simp: im_insert_def im_ok_def im_contains_iff split: if_splits) (simp add: im_keys_def)
  show "im_get m' = (im_get m)(k \<mapsto> v)"
    using ins
    by (auto simp: im_insert_def im_get_set split: if_splits)
       (auto simp: im_contains_def im_get_def map_add_def fun_eq_iff split: option.splits)
qed

end

interpretation documented: heapless_map documented_swap "Suc n" for n
  by unfold_locales (simp_all add: documented_swap_law)

end
