(* ===== verification/Millis.thy ===== *)
theory Millis
  imports Prelude
begin

text \<open>
  The compact monotonic instant of \<^verbatim>\<open>libs/interfaces/src/time.rs\<close>: a wrapping 32-bit count
  of milliseconds. The newtype \<^verbatim>\<open>Millis(u32)\<close> is transparent, so the model is the word
  itself. Lemmas: what the signed wrapping difference computes, and that elapsed time is
  exact for every gap below half the range, across the rollover.
\<close>

type_synonym millis = u32

definition millis_zero :: millis where
  "millis_zero = 0"

definition from_millis :: "u32 \<Rightarrow> millis" where
  "from_millis ms = ms"

text \<open>\<^verbatim>\<open>now.as_millis() as u32\<close>: whole milliseconds of a nanosecond count, wrapped to 32 bits.\<close>

definition from_duration :: "duration \<Rightarrow> millis" where
  "from_duration now = word_of_nat (now div 1000000)"

definition to_duration :: "millis \<Rightarrow> duration" where
  "to_duration m = unat m * 1000000"

definition raw :: "millis \<Rightarrow> u32" where
  "raw m = m"

definition elapsed_since :: "millis \<Rightarrow> millis \<Rightarrow> u32" where
  "elapsed_since self earlier =
     (let delta = sint (self - earlier) in if delta < 0 then 0 else self - earlier)"

definition is_at_or_after :: "millis \<Rightarrow> millis \<Rightarrow> bool" where
  "is_at_or_after self other \<longleftrightarrow> 0 \<le> sint (self - other)"

section \<open>The signed reading of a 32-bit difference\<close>

lemma sint_u32: "sint (w :: u32) = (if unat w < 2 ^ 31 then int (unat w) else int (unat w) - 2 ^ 32)"
proof -
  define k where "k = uint w"
  have k: "0 \<le> k" "k < 2 ^ 32" and kw: "int (unat w) = k"
    using uint_lt2p [of w] by (simp_all add: k_def)
  have eq: "sint w = (k + 2 ^ 31) mod 2 ^ 32 - 2 ^ 31"
    by (simp add: sint_uint signed_take_bit_eq_take_bit_shift take_bit_eq_mod k_def)
  have "(k + 2 ^ 31) mod 2 ^ 32 = (if k < 2 ^ 31 then k + 2 ^ 31 else k - 2 ^ 31)"
  proof (cases "k < 2 ^ 31")
    case True
    with k show ?thesis by (simp add: mod_pos_pos_trivial)
  next
    case False
    then have "(k + 2 ^ 31) mod 2 ^ 32 = (k + 2 ^ 31 - 2 ^ 32) mod 2 ^ 32"
      by (metis minus_mod_self2)
    with k False show ?thesis by (simp add: mod_pos_pos_trivial)
  qed
  moreover have "unat w < 2 ^ 31 \<longleftrightarrow> k < 2 ^ 31"
    using kw by (metis of_nat_less_iff of_nat_numeral of_nat_power)
  ultimately show ?thesis
    using eq kw by simp
qed

lemma elapsed_since_unat:
  "unat (elapsed_since a b) = (if unat (a - b) < 2 ^ 31 then unat (a - b) else 0)"
proof -
  have "unat (a - b) < 2 ^ 32"
    using unsigned_less [of "a - b"] by simp
  then have "int (unat (a - b)) - 2 ^ 32 < 0"
    by (metis of_nat_less_iff of_nat_numeral of_nat_power diff_less_0_iff_less)
  then show ?thesis
    by (simp add: elapsed_since_def Let_def sint_u32 del: of_nat_unat)
qed

lemma elapsed_since_bound: "unat (elapsed_since a b) < 2 ^ 31"
  by (simp add: elapsed_since_unat)

lemma elapsed_since_self [simp]: "elapsed_since a a = 0"
  by (simp add: elapsed_since_def)

lemma from_duration_diff:
  assumes "d \<le> t"
  shows "from_duration t - from_duration d = word_of_nat (t div 1000000 - d div 1000000)"
  using assms div_le_mono [OF assms, of 1000000] by (simp add: from_duration_def of_nat_diff)

text \<open>
  The elapsed reading between two instants of the driver's clock, for every gap below half
  of the range and for a clock that went backwards by less than that.
\<close>

lemma elapsed_from_duration:
  assumes "d \<le> t" "t div 1000000 - d div 1000000 < 2 ^ 31"
  shows "unat (elapsed_since (from_duration t) (from_duration d)) = t div 1000000 - d div 1000000"
proof -
  have "unat (word_of_nat (t div 1000000 - d div 1000000) :: u32) = t div 1000000 - d div 1000000"
    using assms(2) by (simp add: unat_of_nat)
  then show ?thesis
    using assms(2) by (simp add: elapsed_since_unat from_duration_diff [OF assms(1)])
qed

lemma elapsed_backwards:
  assumes "t \<le> d" "d div 1000000 - t div 1000000 \<le> 2 ^ 31"
  shows "elapsed_since (from_duration t) (from_duration d) = 0"
proof -
  define g where "g = d div 1000000 - t div 1000000"
  have "from_duration t - from_duration d = - (word_of_nat g :: u32)"
    using from_duration_diff [OF assms(1)] by (metis g_def minus_diff_eq)
  moreover have "g = 0 \<or> unat (- (word_of_nat g :: u32)) = 2 ^ 32 - g"
  proof (cases "g = 0")
    case False
    have neg: "- (word_of_nat g :: u32) = word_of_nat (2 ^ 32 - g)"
      using assms(2) by (simp add: g_def of_nat_diff)
    have "0 < g" "g \<le> 2 ^ 31"
      using False assms(2) by (simp_all add: g_def)
    have "unat (- (word_of_nat g :: u32)) = (2 ^ 32 - g) mod 2 ^ 32"
      unfolding neg by (simp only: unat_of_nat len_num1 len_bit0 len_bit1) simp
    also have "\<dots> = 2 ^ 32 - g"
      using \<open>0 < g\<close> by simp
    finally show ?thesis by simp
  qed simp
  ultimately have "unat (elapsed_since (from_duration t) (from_duration d)) = 0"
    using assms(2) by (auto simp: elapsed_since_unat g_def)
  then show ?thesis
    by (simp add: unat_eq_zero)
qed

end
