(* ===== verification/Seqno.thy ===== *)
theory Seqno
  imports Millis
begin

text \<open>
  Sequence-number admission, \<^verbatim>\<open>libs/batman/src/lib.rs\<close>: the three-arm classification of a
  wrapping 32-bit sequence number against a high-water (\<open>classify\<close>), the admission decision
  with its resynchronisation watch (\<open>admit_seqno\<close>), and the broadcast dedup entry built on
  it. The locale \<open>seqno_space\<close> holds the facts that do not depend on the band widths; it is
  interpreted for the two number spaces the code has, flooded broadcasts and OGMs.
\<close>

section \<open>Bands and verdicts\<close>

definition BROADCAST_SEQNO_WINDOW :: u32 where
  "BROADCAST_SEQNO_WINDOW = 1024"

definition BROADCAST_SEQNO_REORDER_TOLERANCE :: u32 where
  "BROADCAST_SEQNO_REORDER_TOLERANCE = 64"

definition BROADCAST_SEQNO_RESET_PROTECTION :: duration where
  "BROADCAST_SEQNO_RESET_PROTECTION = 30 * 1000000000"

definition OGM_SEQNO_WINDOW :: u32 where
  "OGM_SEQNO_WINDOW = 256"

definition OGM_SEQNO_REORDER_TOLERANCE :: u32 where
  "OGM_SEQNO_REORDER_TOLERANCE = 16"

definition OGM_SEQNO_RESET_PROTECTION :: duration where
  "OGM_SEQNO_RESET_PROTECTION = 30 * 1000000000"

datatype seqno_verdict = Advance | Duplicate | Implausible

record seqno_resync_watch =
  rw_since :: millis
  rw_seqno :: u32

text \<open>The two band widths are \<^verbatim>\<open>i32\<close> fields, held as integers.\<close>

record seqno_bands =
  sb_window :: int
  sb_reorder_tolerance :: int
  sb_reset_protection_ms :: u32

text \<open>\<^verbatim>\<open>SeqnoBands::new\<close>: the three compile-time assertions, then the conversions.\<close>

definition seqno_bands_new :: "u32 \<Rightarrow> u32 \<Rightarrow> duration \<Rightarrow> seqno_bands option" where
  "seqno_bands_new window tolerance protection =
     (if \<not> unat window < 2 ^ 31 - 1 then None
      else if \<not> unat tolerance < 2 ^ 31 - 1 then None
      else if \<not> protection div 1000000 \<le> 2 ^ 32 - 1 then None
      else Some \<lparr>sb_window = sint window, sb_reorder_tolerance = sint tolerance,
                 sb_reset_protection_ms = word_of_nat (protection div 1000000)\<rparr>)"

definition BROADCAST_BANDS :: seqno_bands where
  "BROADCAST_BANDS = \<lparr>sb_window = 1024, sb_reorder_tolerance = 64, sb_reset_protection_ms = 30000\<rparr>"

definition OGM_BANDS :: seqno_bands where
  "OGM_BANDS = \<lparr>sb_window = 256, sb_reorder_tolerance = 16, sb_reset_protection_ms = 30000\<rparr>"

definition classify :: "seqno_bands \<Rightarrow> u32 \<Rightarrow> u32 \<Rightarrow> seqno_verdict" where
  "classify b high_water seqno =
     (let ahead_by = sint (seqno - high_water) in
      if ahead_by > 0 \<and> ahead_by \<le> sb_window b then Advance
      else if ahead_by \<le> 0 \<and> ahead_by \<ge> - sb_reorder_tolerance b then Duplicate
      else Implausible)"

section \<open>Admission\<close>

datatype seqno_admission =
    Advanced
  | DuplicateOf (exact: bool)
  | Watching
  | Resynchronised (verdict: seqno_verdict)

fun advanced :: "seqno_admission \<Rightarrow> bool" where
  "advanced Advanced = True"
| "advanced (Resynchronised v) = (v = Advance)"
| "advanced _ = False"

fun high_water_written :: "seqno_admission \<Rightarrow> bool" where
  "high_water_written Advanced = True"
| "high_water_written (Resynchronised v) = True"
| "high_water_written _ = False"

definition contents_are_current :: "seqno_admission \<Rightarrow> bool" where
  "contents_are_current a \<longleftrightarrow> advanced a \<or> a = DuplicateOf True"

definition is_stale_copy :: "seqno_admission \<Rightarrow> bool" where
  "is_stale_copy a \<longleftrightarrow> a = DuplicateOf False"

definition is_resynchronised :: "seqno_admission \<Rightarrow> bool" where
  "is_resynchronised a \<longleftrightarrow> (case a of Resynchronised v \<Rightarrow> True | _ \<Rightarrow> False)"

definition is_duplicate :: "seqno_admission \<Rightarrow> bool" where
  "is_duplicate a \<longleftrightarrow> (case a of DuplicateOf e \<Rightarrow> True | _ \<Rightarrow> False)"

text \<open>
  \<^verbatim>\<open>admit_seqno\<close> updates the high-water and the watch in place; the model returns the
  admission with both.
\<close>

definition admit_seqno ::
  "seqno_bands \<Rightarrow> u32 \<Rightarrow> seqno_resync_watch option \<Rightarrow> u32 \<Rightarrow> duration \<Rightarrow>
     seqno_admission \<times> u32 \<times> seqno_resync_watch option" where
  "admit_seqno b last_seqno resync_watch seqno now =
     (case classify b last_seqno seqno of
        Advance \<Rightarrow> (Advanced, seqno, None)
      | Duplicate \<Rightarrow> (DuplicateOf (seqno = last_seqno), last_seqno, resync_watch)
      | Implausible \<Rightarrow>
          (let now_ms = from_duration now;
               watch = (case resync_watch of
                          None \<Rightarrow> \<lparr>rw_since = now_ms, rw_seqno = seqno\<rparr>
                        | Some w \<Rightarrow> w)
           in if elapsed_since now_ms (rw_since watch) < sb_reset_protection_ms b
              then (Watching, last_seqno, Some watch)
              else let v = classify b (rw_seqno watch) seqno
                   in (Resynchronised v, if v = Advance then seqno else rw_seqno watch, None)))"

record broadcast_seqno_entry =
  be_last_seqno :: u32
  be_last_updated :: millis
  be_resync_watch :: "seqno_resync_watch option"

definition bse_seeded :: "u32 \<Rightarrow> duration \<Rightarrow> broadcast_seqno_entry" where
  "bse_seeded seqno now =
     \<lparr>be_last_seqno = seqno, be_last_updated = from_duration now, be_resync_watch = None\<rparr>"

definition bse_classify :: "broadcast_seqno_entry \<Rightarrow> u32 \<Rightarrow> seqno_verdict" where
  "bse_classify e seqno = classify BROADCAST_BANDS (be_last_seqno e) seqno"

definition bse_admit ::
  "broadcast_seqno_entry \<Rightarrow> u32 \<Rightarrow> duration \<Rightarrow> seqno_admission \<times> broadcast_seqno_entry" where
  "bse_admit e seqno now =
     (case admit_seqno BROADCAST_BANDS (be_last_seqno e) (be_resync_watch e) seqno now of
        (admission, hw, w) \<Rightarrow>
          (let e = e\<lparr>be_last_seqno := hw, be_resync_watch := w\<rparr>
           in (admission,
               if high_water_written admission
               then e\<lparr>be_last_updated := from_duration now\<rparr> else e)))"

section \<open>Facts common to every number space\<close>

lemma bands_new_broadcast:
  "seqno_bands_new BROADCAST_SEQNO_WINDOW BROADCAST_SEQNO_REORDER_TOLERANCE
     BROADCAST_SEQNO_RESET_PROTECTION = Some BROADCAST_BANDS"
  by (simp add: seqno_bands_new_def BROADCAST_BANDS_def BROADCAST_SEQNO_WINDOW_def
      BROADCAST_SEQNO_REORDER_TOLERANCE_def BROADCAST_SEQNO_RESET_PROTECTION_def sint_u32)

lemma bands_new_ogm:
  "seqno_bands_new OGM_SEQNO_WINDOW OGM_SEQNO_REORDER_TOLERANCE
     OGM_SEQNO_RESET_PROTECTION = Some OGM_BANDS"
  by (simp add: seqno_bands_new_def OGM_BANDS_def OGM_SEQNO_WINDOW_def
      OGM_SEQNO_REORDER_TOLERANCE_def OGM_SEQNO_RESET_PROTECTION_def sint_u32)

lemma contents_current_not_stale: "contents_are_current a \<Longrightarrow> \<not> is_stale_copy a"
  by (auto simp: contents_are_current_def is_stale_copy_def)

lemma advanced_contents_current: "advanced a \<Longrightarrow> contents_are_current a"
  by (simp add: contents_are_current_def)

locale seqno_space =
  fixes b :: seqno_bands
  assumes window_pos: "0 < sb_window b" and window_lt: "sb_window b < 2 ^ 31 - 1"
    and tolerance_ge: "0 \<le> sb_reorder_tolerance b" and tolerance_lt: "sb_reorder_tolerance b < 2 ^ 31 - 1"
    and protection_pos: "0 < sb_reset_protection_ms b"
begin

lemma classify_Advance_iff:
  "classify b hw s = Advance \<longleftrightarrow> 0 < unat (s - hw) \<and> int (unat (s - hw)) \<le> sb_window b"
proof -
  have "unat (s - hw) < 2 ^ 32"
    using unsigned_less [of "s - hw"] by simp
  then have "int (unat (s - hw)) < 2 ^ 32"
    by (metis of_nat_less_iff of_nat_numeral of_nat_power)
  then show ?thesis
    using window_lt by (auto simp: classify_def Let_def sint_u32 simp del: of_nat_unat)
qed

lemma classify_Duplicate_iff:
  "classify b hw s = Duplicate \<longleftrightarrow> int (unat (hw - s)) \<le> sb_reorder_tolerance b"
proof -
  let ?d = "unat (s - hw)"
  have lt: "?d < 2 ^ 32"
    using unsigned_less [of "s - hw"] by simp
  have neg: "unat (hw - s) = (if ?d = 0 then 0 else 2 ^ 32 - ?d)"
    using unat_sub_if_size [of 0 "s - hw"] by (auto simp: word_size word_le_nat_alt)
  have lt': "int ?d < 2 ^ 32"
    using lt by (metis of_nat_less_iff of_nat_numeral of_nat_power)
  have "int (unat (hw - s)) = (if ?d = 0 then 0 else 2 ^ 32 - int ?d)"
    using lt by (simp add: neg of_nat_diff del: of_nat_unat)
  then show ?thesis
    using lt' tolerance_ge tolerance_lt
    by (auto simp: classify_def Let_def sint_u32 simp del: of_nat_unat)
qed

lemma classify_self [simp]: "classify b hw hw = Duplicate"
  by (simp add: classify_Duplicate_iff tolerance_ge)

lemma classify_plus:
  assumes "0 < d" "int d \<le> sb_window b"
  shows "classify b hw (hw + word_of_nat d) = Advance"
proof -
  have "d < 2 ^ 32"
    using assms(2) window_lt by simp
  then have "unat (word_of_nat d :: u32) = d"
    by (simp add: unat_of_nat)
  then show ?thesis
    using assms by (simp add: classify_Advance_iff del: of_nat_unat)
qed

text \<open>A first implausible frame only opens a watch; it never moves the high-water.\<close>

lemma admit_opens_watch:
  assumes "classify b hw s = Implausible"
  shows "admit_seqno b hw None s now =
    (Watching, hw, Some \<lparr>rw_since = from_duration now, rw_seqno = s\<rparr>)"
  using assms protection_pos by (simp add: admit_seqno_def Let_def)

lemma admit_continues_watch:
  assumes "classify b hw s = Implausible"
    and "elapsed_since (from_duration now) (rw_since w) < sb_reset_protection_ms b"
  shows "admit_seqno b hw (Some w) s now = (Watching, hw, Some w)"
  using assms by (simp add: admit_seqno_def Let_def)

lemma admit_completes_watch:
  assumes "classify b hw s = Implausible"
    and "sb_reset_protection_ms b \<le> elapsed_since (from_duration now) (rw_since w)"
  shows "admit_seqno b hw (Some w) s now =
    (Resynchronised (classify b (rw_seqno w) s),
     if classify b (rw_seqno w) s = Advance then s else rw_seqno w, None)"
  using assms by (simp add: admit_seqno_def Let_def)

lemma admit_repeat:
  assumes "admit_seqno b hw w s now = (a, hw', w')" "advanced a"
  shows "hw' = s \<and> w' = None \<and> admit_seqno b hw' w' s now' = (DuplicateOf True, s, None)"
  using assms
  by (auto simp: admit_seqno_def Let_def split: seqno_verdict.splits if_splits)

lemma admit_high_water:
  assumes "admit_seqno b hw w s now = (a, hw', w')"
  shows "hw' = hw \<or> hw' = s \<and> classify b hw s = Advance
    \<or> (\<exists>w0. w = Some w0 \<and> classify b hw s = Implausible
         \<and> (hw' = rw_seqno w0 \<or> hw' = s \<and> classify b (rw_seqno w0) s = Advance))"
  using assms protection_pos
  by (auto simp: admit_seqno_def Let_def split: seqno_verdict.splits if_splits option.splits)

lemma admit_not_written:
  assumes "admit_seqno b hw w s now = (a, hw', w')" "\<not> high_water_written a"
  shows "hw' = hw"
  using assms
  by (auto simp: admit_seqno_def Let_def split: seqno_verdict.splits if_splits)

end

text \<open>
  A whole run of frames from one originator, in arrival order: the admissions and the final
  high-water and watch.
\<close>

fun admit_run ::
  "seqno_bands \<Rightarrow> u32 \<Rightarrow> seqno_resync_watch option \<Rightarrow> (u32 \<times> duration) list \<Rightarrow>
     seqno_admission list \<times> u32 \<times> seqno_resync_watch option" where
  "admit_run b hw w [] = ([], hw, w)"
| "admit_run b hw w ((s, now) # fs) =
     (case admit_seqno b hw w s now of (a, hw', w') \<Rightarrow>
        (case admit_run b hw' w' fs of (as, hw'', w'') \<Rightarrow> (a # as, hw'', w'')))"

context seqno_space
begin

lemma admit_run_watching:
  assumes "\<forall>(s, t) \<in> set fs. classify b hw s = Implausible
    \<and> elapsed_since (from_duration t) (rw_since w) < sb_reset_protection_ms b"
  shows "admit_run b hw (Some w) fs = (replicate (length fs) Watching, hw, Some w)"
  using assms by (induction fs) (auto simp: admit_continues_watch)

lemma admit_run_append:
  "admit_run b hw w (fs @ gs) =
     (case admit_run b hw w fs of (as, hw', w') \<Rightarrow>
        (case admit_run b hw' w' gs of (as', hw'', w'') \<Rightarrow> (as @ as', hw'', w'')))"
  by (induction fs arbitrary: hw w) (auto split: prod.splits)

text \<open>
  The correction: a run of implausible numbers that lasts as long as the reset protection
  moves the high-water to the number that opened the run, or to the closing one when that
  is within the window of the opening one.
\<close>

lemma admit_run_resync:
  assumes first: "classify b hw s0 = Implausible"
    and mid: "\<forall>(s, t) \<in> set fs. classify b hw s = Implausible
      \<and> elapsed_since (from_duration t) (from_duration t0) < sb_reset_protection_ms b"
    and last: "classify b hw s1 = Implausible"
      "sb_reset_protection_ms b \<le> elapsed_since (from_duration t1) (from_duration t0)"
  shows "admit_run b hw None ((s0, t0) # fs @ [(s1, t1)]) =
    (Watching # replicate (length fs) Watching @ [Resynchronised (classify b s0 s1)],
     if classify b s0 s1 = Advance then s1 else s0, None)"
proof -
  let ?w = "\<lparr>rw_since = from_duration t0, rw_seqno = s0\<rparr>"
  have "admit_run b hw (Some ?w) fs = (replicate (length fs) Watching, hw, Some ?w)"
    using mid by (intro admit_run_watching) simp
  then show ?thesis
    using admit_completes_watch [OF last(1), where w = ?w and now = t1] last(2)
    by (simp add: admit_opens_watch [OF first] admit_run_append)
qed

end

interpretation bcast_space: seqno_space BROADCAST_BANDS
  by unfold_locales (simp_all add: BROADCAST_BANDS_def)

interpretation ogm_space: seqno_space OGM_BANDS
  by unfold_locales (simp_all add: OGM_BANDS_def)

lemma code_bands_space: "b = BROADCAST_BANDS \<or> b = OGM_BANDS \<Longrightarrow> seqno_space b"
  using bcast_space.seqno_space_axioms ogm_space.seqno_space_axioms by auto

section \<open>Properties\<close>

text \<open>
  C29. The classification is exact and wrap-correct in both number spaces: a sequence number
  advances the high-water iff it is 1 to \<open>window\<close> steps ahead of it modulo 2^32, is a
  duplicate iff it is 0 to \<open>tolerance\<close> steps behind it modulo 2^32, and is implausible in
  every other case.
\<close>

theorem classify_exact:
  assumes "b = BROADCAST_BANDS \<or> b = OGM_BANDS"
  shows "(classify b hw s = Advance \<longleftrightarrow> 0 < unat (s - hw) \<and> int (unat (s - hw)) \<le> sb_window b)
    \<and> (classify b hw s = Duplicate \<longleftrightarrow> int (unat (hw - s)) \<le> sb_reorder_tolerance b)"
  by (simp only: seqno_space.classify_Advance_iff [OF code_bands_space [OF assms]]
      seqno_space.classify_Duplicate_iff [OF code_bands_space [OF assms]] simp_thms)

theorem classify_exact_witness:
  "classify OGM_BANDS 4294967295 0 = Advance \<and> classify OGM_BANDS 5 4294967293 = Duplicate"
  using classify_exact [of OGM_BANDS 4294967295 0] classify_exact [of OGM_BANDS 5 4294967293]
  by (simp add: OGM_BANDS_def)

text \<open>
  Every wrong high-water is corrected within the reset protection. Whatever the
  recorded high-water, if an originator's broadcasts all read as implausible from time
  \<open>t0\<close> on, the first one that arrives at least 30 seconds (and less than 2^31 ms) later
  rewinds the high-water to the number that opened the run; when that frame is within the
  window ahead of the opening one it is itself admitted. No earlier frame of the run is
  admitted or moves the high-water.
\<close>

theorem broadcast_resync_bounded:
  assumes "classify BROADCAST_BANDS hw s0 = Implausible"
    and "\<forall>(s, t) \<in> set fs. classify BROADCAST_BANDS hw s = Implausible
      \<and> t0 \<le> t \<and> t div 1000000 < t0 div 1000000 + 30000"
    and "classify BROADCAST_BANDS hw s1 = Implausible"
    and "t0 div 1000000 + 30000 \<le> t1 div 1000000" "t1 div 1000000 < t0 div 1000000 + 2 ^ 31"
  shows "admit_run BROADCAST_BANDS hw None ((s0, t0) # fs @ [(s1, t1)]) =
    (Watching # replicate (length fs) Watching @ [Resynchronised (classify BROADCAST_BANDS s0 s1)],
     if classify BROADCAST_BANDS s0 s1 = Advance then s1 else s0, None)"
proof (rule bcast_space.admit_run_resync [OF assms(1) _ assms(3)])
  have le: "t0 \<le> t1"
  proof (rule ccontr)
    assume "\<not> t0 \<le> t1"
    then have "t1 div 1000000 \<le> t0 div 1000000"
      by (intro div_le_mono) simp
    with assms(4) show False by simp
  qed
  show "sb_reset_protection_ms BROADCAST_BANDS \<le> elapsed_since (from_duration t1) (from_duration t0)"
    using elapsed_from_duration [OF le] assms(4,5)
    by (simp add: BROADCAST_BANDS_def word_le_nat_alt)
  have "elapsed_since (from_duration t) (from_duration t0) < sb_reset_protection_ms BROADCAST_BANDS"
    if "(s, t) \<in> set fs" for s t
  proof -
    from that assms(2) have "t0 \<le> t" "t div 1000000 < t0 div 1000000 + 30000"
      by auto
    then show ?thesis
      using elapsed_from_duration [of t0 t] by (simp add: BROADCAST_BANDS_def word_less_nat_alt)
  qed
  then show "\<forall>(s, t) \<in> set fs. classify BROADCAST_BANDS hw s = Implausible
      \<and> elapsed_since (from_duration t) (from_duration t0) < sb_reset_protection_ms BROADCAST_BANDS"
    using assms(2) by blast
qed

theorem broadcast_resync_bounded_witness:
  "admit_run BROADCAST_BANDS 1000000 None [(1, 0), (2, 15000000000), (3, 30000000000)]
     = ([Watching, Watching, Resynchronised Advance], 3, None)"
  using broadcast_resync_bounded [of 1000000 1 "[(2, 15000000000)]" 0 3 30000000000]
  by (simp add: classify_def BROADCAST_BANDS_def sint_u32)

text \<open>
  Nobody can substitute a number of their own for the one an honest run restores: after
  any single admission the high-water is the old one, or the frame's own number judged an
  advance over the old one, or the number that opened the watched run, or the frame's number
  judged an advance over that opening number.
\<close>

theorem admit_no_substitution:
  assumes "b = BROADCAST_BANDS \<or> b = OGM_BANDS"
    and "admit_seqno b hw w s now = (a, hw', w')"
  shows "hw' = hw \<or> hw' = s \<and> classify b hw s = Advance
    \<or> (\<exists>w0. w = Some w0 \<and> classify b hw s = Implausible
         \<and> (hw' = rw_seqno w0 \<or> hw' = s \<and> classify b (rw_seqno w0) s = Advance))"
  by (rule seqno_space.admit_high_water [OF code_bands_space [OF assms(1)] assms(2)])

theorem admit_no_substitution_witness:
  "admit_seqno OGM_BANDS 56 (Some \<lparr>rw_since = 0, rw_seqno = 1\<rparr>) 3000 40000000000
     = (Resynchronised Implausible, 1, None) \<and> (1 :: u32) \<noteq> 3000"
proof -
  let ?r = "admit_seqno OGM_BANDS 56 (Some \<lparr>rw_since = 0, rw_seqno = 1\<rparr>) 3000 40000000000"
  have eq: "?r = (Resynchronised Implausible, 1, None)"
    by (simp add: admit_seqno_def classify_def OGM_BANDS_def sint_u32 Let_def from_duration_def
        elapsed_since_def)
  show ?thesis
    using admit_no_substitution [OF disjI2 [OF refl] eq] eq by simp
qed

text \<open>
  A sequence number is taken once: when an admission advances, the high-water is that
  number and no watch is open, and the same number presented again, at any later time, is
  an exact duplicate that changes nothing.
\<close>

theorem admit_once:
  assumes "b = BROADCAST_BANDS \<or> b = OGM_BANDS"
    and "admit_seqno b hw w s now = (a, hw', w')" "advanced a"
  shows "hw' = s \<and> w' = None \<and> admit_seqno b hw' w' s now' = (DuplicateOf True, s, None)"
  by (rule seqno_space.admit_repeat [OF code_bands_space [OF assms(1)] assms(2,3)])

theorem admit_once_witness:
  "admit_seqno BROADCAST_BANDS 0 None 0 7 = (DuplicateOf True, 0, None)"
proof -
  have "admit_seqno BROADCAST_BANDS 4294967295 None 0 5 = (Advanced, 0, None)"
    by (simp add: admit_seqno_def classify_def BROADCAST_BANDS_def sint_u32)
  then show ?thesis
    using admit_once [of BROADCAST_BANDS 4294967295 None 0 5 Advanced 0 None 7] by simp
qed

text \<open>
  The correction has a blind spot of half the clock range: once a watch is 2^31 ms
  (24.8 days) old, and until it is 2^32 ms old, the elapsed reading is zero, so an
  implausible number is only watched and neither the high-water nor the watch changes,
  although the run has lasted far longer than the reset protection.
\<close>

theorem watch_blind_half_range:
  assumes "b = BROADCAST_BANDS \<or> b = OGM_BANDS"
    and "classify b hw s = Implausible"
    and "2 ^ 31 \<le> age" "age < 2 ^ 32"
    and "rw_since w = from_duration t0"
  shows "admit_seqno b hw (Some w) s (t0 + age * 1000000) = (Watching, hw, Some w)"
proof -
  have "from_duration (t0 + age * 1000000) - from_duration t0 = word_of_nat age"
    using from_duration_diff [of t0 "t0 + age * 1000000"] by simp
  moreover have "unat (word_of_nat age :: u32) = age"
    using assms(4) by (simp add: unat_of_nat)
  ultimately have "unat (elapsed_since (from_duration (t0 + age * 1000000)) (from_duration t0)) = 0"
    using assms(3) by (simp add: elapsed_since_unat)
  then have "elapsed_since (from_duration (t0 + age * 1000000)) (rw_since w) = 0"
    by (simp add: assms(5) unat_eq_zero)
  moreover have "0 < sb_reset_protection_ms b"
    by (rule seqno_space.protection_pos [OF code_bands_space [OF assms(1)]])
  ultimately show ?thesis
    using assms(2) by (simp add: admit_seqno_def Let_def)
qed

theorem watch_blind_half_range_witness:
  "admit_seqno BROADCAST_BANDS 1000000 (Some \<lparr>rw_since = 0, rw_seqno = 1\<rparr>) 2
     (2 ^ 31 * 1000000) = (Watching, 1000000, Some \<lparr>rw_since = 0, rw_seqno = 1\<rparr>)"
  using watch_blind_half_range [of BROADCAST_BANDS 1000000 2 "2 ^ 31"
      "\<lparr>rw_since = 0, rw_seqno = 1\<rparr>" 0]
  by (simp add: classify_def BROADCAST_BANDS_def sint_u32 from_duration_def)

end
