(* ===== verification/Trickle.thy ===== *)
theory Trickle
  imports Prelude "HOL-Library.Monad_Syntax"
begin

text \<open>
  The adaptive broadcast timer of \<^verbatim>\<open>libs/batman/src/trickle.rs\<close>: an interval that doubles
  from \<open>i_min\<close> to \<open>i_max\<close> on every emission and falls back to \<open>i_min\<close> on an inconsistency,
  with a jittered next fire driven by a xorshift generator. The locale \<open>paced_timer\<close> is the
  contract the routing engine's timer banks rely on; it is interpreted on this timer.
\<close>

section \<open>The timer\<close>

record trickle_timer =
  tt_i_min :: duration
  tt_i_max :: duration
  tt_interval :: duration
  tt_next_fire :: duration
  tt_rng :: u32

definition fmix32 :: "u32 \<Rightarrow> u32" where
  "fmix32 h =
     (let h = h XOR drop_bit 16 h;
          h = h * 0x85ebca6b;
          h = h XOR drop_bit 13 h;
          h = h * 0xc2b2ae35
      in h XOR drop_bit 16 h)"

definition next_rand :: "trickle_timer \<Rightarrow> u32 \<times> trickle_timer" where
  "next_rand t =
     (let x = tt_rng t;
          x = x XOR push_bit 13 x;
          x = x XOR drop_bit 17 x;
          x = x XOR push_bit 5 x
      in (x, t\<lparr>tt_rng := x\<rparr>))"

text \<open>
  \<^verbatim>\<open>span.as_nanos() as u64\<close> keeps the low 64 bits; the multiply-shift runs in 128 bits and
  its result is below \<open>width\<close>.
\<close>

definition jittered :: "trickle_timer \<Rightarrow> duration \<Rightarrow> duration \<times> trickle_timer" where
  "jittered t span =
     (let span_ns = span mod 2 ^ 64;
          half = span_ns div 2;
          width = max (span_ns - half) 1
      in case next_rand t of (r, t') \<Rightarrow> (half + (unat r * width) div 2 ^ 32 mod 2 ^ 64, t'))"

definition trickle_new :: "duration \<Rightarrow> duration \<Rightarrow> duration \<Rightarrow> u32 \<Rightarrow> trickle_timer option" where
  "trickle_new i_min i_max now seed =
     (let i_min = max i_min 1;
          i_max = max i_max i_min;
          rng = fmix32 (seed XOR 0x9E3779B9);
          timer = \<lparr>tt_i_min = i_min, tt_i_max = i_max, tt_interval = i_min, tt_next_fire = now,
                   tt_rng = (if rng = 0 then 0x9E3779B9 else rng)\<rparr>
      in case jittered timer i_min of (wait, timer) \<Rightarrow>
           map_option (\<lambda>next. timer\<lparr>tt_next_fire := next\<rparr>) (dur_add now wait))"

definition on_emit :: "trickle_timer \<Rightarrow> duration \<Rightarrow> trickle_timer option" where
  "on_emit t now =
     (case jittered t (tt_interval t) of (wait, t) \<Rightarrow>
        do { next \<leftarrow> dur_add now wait;
             doubled \<leftarrow> dur_mul (tt_interval t) 2;
             Some (t\<lparr>tt_next_fire := next, tt_interval := min doubled (tt_i_max t)\<rparr>) })"

definition timer_reset :: "trickle_timer \<Rightarrow> duration \<Rightarrow> trickle_timer option" where
  "timer_reset t now =
     (let t = t\<lparr>tt_interval := tt_i_min t\<rparr> in
      do { limit \<leftarrow> dur_add now (tt_i_min t);
           if tt_next_fire t > limit
           then (case jittered t (tt_i_min t) of (wait, t) \<Rightarrow>
                   map_option (\<lambda>next. t\<lparr>tt_next_fire := next\<rparr>) (dur_add now wait))
           else Some t })"

definition time_until :: "trickle_timer \<Rightarrow> duration \<Rightarrow> duration" where
  "time_until t now = tt_next_fire t - now"

definition due :: "trickle_timer \<Rightarrow> duration \<Rightarrow> bool" where
  "due t now \<longleftrightarrow> now \<ge> tt_next_fire t"

definition trickle_ok :: "trickle_timer \<Rightarrow> bool" where
  "trickle_ok t \<longleftrightarrow> 1 \<le> tt_i_min t \<and> tt_i_min t \<le> tt_interval t \<and> tt_interval t \<le> tt_i_max t
     \<and> tt_rng t \<noteq> 0"

section \<open>What the operations return\<close>

text \<open>
  The timers the operations make where no sum of durations overflows, with the exact conditions for that.
\<close>

definition fresh_timer :: "duration \<Rightarrow> duration \<Rightarrow> duration \<Rightarrow> u32 \<Rightarrow> trickle_timer" where
  "fresh_timer i_min i_max now seed =
     (let i_min = max i_min 1;
          i_max = max i_max i_min;
          rng = fmix32 (seed XOR 0x9E3779B9);
          timer = \<lparr>tt_i_min = i_min, tt_i_max = i_max, tt_interval = i_min, tt_next_fire = now,
                   tt_rng = (if rng = 0 then 0x9E3779B9 else rng)\<rparr>
      in case jittered timer i_min of (wait, timer) \<Rightarrow> timer\<lparr>tt_next_fire := now + wait\<rparr>)"

definition timer_emitted :: "trickle_timer \<Rightarrow> duration \<Rightarrow> trickle_timer" where
  "timer_emitted t now =
     (case jittered t (tt_interval t) of (wait, t) \<Rightarrow>
        t\<lparr>tt_next_fire := now + wait, tt_interval := min (tt_interval t * 2) (tt_i_max t)\<rparr>)"

definition restarted :: "trickle_timer \<Rightarrow> duration \<Rightarrow> trickle_timer" where
  "restarted t now =
     (let t = t\<lparr>tt_interval := tt_i_min t\<rparr> in
      if tt_next_fire t > now + tt_i_min t
      then (case jittered t (tt_i_min t) of (wait, t) \<Rightarrow> t\<lparr>tt_next_fire := now + wait\<rparr>)
      else t)"

definition emit_fits :: "trickle_timer \<Rightarrow> duration \<Rightarrow> bool" where
  "emit_fits t now \<longleftrightarrow> now + fst (jittered t (tt_interval t)) \<le> DURATION_MAX \<and> tt_interval t * 2 \<le> DURATION_MAX"

definition reset_fits :: "trickle_timer \<Rightarrow> duration \<Rightarrow> bool" where
  "reset_fits t now \<longleftrightarrow> now + tt_i_min t \<le> DURATION_MAX"

definition new_fits :: "duration \<Rightarrow> duration \<Rightarrow> duration \<Rightarrow> u32 \<Rightarrow> bool" where
  "new_fits i_min i_max now seed \<longleftrightarrow> tt_next_fire (fresh_timer i_min i_max now seed) \<le> DURATION_MAX"

section \<open>The generator never sticks at zero\<close>

lemma xor_push_bit_eq_0:
  fixes x :: "'a::len word"
  assumes "x XOR push_bit n x = 0" "0 < n"
  shows "x = 0"
proof (rule bit_word_eqI)
  have eq: "bit x k \<longleftrightarrow> bit (push_bit n x) k" for k
    using assms(1) by (metis bit_0_eq bit_xor_iff bot_apply bot_bool_def)
  fix k
  have "\<not> bit x k"
  proof (induction k rule: less_induct)
    case (less k)
    show ?case
    proof
      assume "bit x k"
      then have "n \<le> k" "bit x (k - n)"
        using eq [of k] by (auto simp: bit_simps)
      then show False
        using less [of "k - n"] \<open>0 < n\<close> by simp
    qed
  qed
  then show "bit x k = bit 0 k" by simp
qed

lemma xor_drop_bit_eq_0:
  fixes x :: "'a::len word"
  assumes "x XOR drop_bit n x = 0" "0 < n"
  shows "x = 0"
proof (rule bit_word_eqI)
  have eq: "bit x k \<longleftrightarrow> bit x (n + k)" for k
    using assms(1) by (metis bit_0_eq bit_drop_bit_eq bit_xor_iff bot_apply bot_bool_def comp_apply)
  have step: "bit x k \<longleftrightarrow> bit x (m * n + k)" for m k
    by (induction m) (auto simp: eq [of "_ * n + k"] add.assoc)
  fix k
  have "LENGTH('a) \<le> LENGTH('a) * n + k"
    using \<open>0 < n\<close> by (simp add: trans_le_add1)
  then have "\<not> bit x (LENGTH('a) * n + k)"
    by (meson bit_imp_le_length not_less)
  then show "bit x k = bit 0 k"
    using step [of k "LENGTH('a)"] by simp
qed

lemma next_rand_nonzero: "tt_rng t \<noteq> 0 \<Longrightarrow> tt_rng (snd (next_rand t)) \<noteq> 0"
proof -
  define x where "x = tt_rng t"
  define y where "y = x XOR push_bit 13 x"
  define z where "z = y XOR drop_bit 17 y"
  have "tt_rng (snd (next_rand t)) = z XOR push_bit 5 z"
    unfolding next_rand_def Let_def snd_conv x_def y_def z_def by (cases t) simp
  moreover assume "tt_rng t \<noteq> 0"
  then have "y \<noteq> 0"
    using xor_push_bit_eq_0 [of x 13] unfolding x_def [symmetric] y_def by fastforce
  then have "z \<noteq> 0"
    using xor_drop_bit_eq_0 [of y 17] unfolding z_def by fastforce
  then have "z XOR push_bit 5 z \<noteq> 0"
    using xor_push_bit_eq_0 [of z 5] by fastforce
  ultimately show ?thesis by simp
qed

lemma next_rand_frame [simp]:
  "tt_i_min (snd (next_rand t)) = tt_i_min t" "tt_i_max (snd (next_rand t)) = tt_i_max t"
  "tt_interval (snd (next_rand t)) = tt_interval t"
  "tt_next_fire (snd (next_rand t)) = tt_next_fire t"
  by (simp_all add: next_rand_def Let_def)

section \<open>Jitter and invariant\<close>

lemma snd_jittered: "snd (jittered t span) = snd (next_rand t)"
  by (simp add: jittered_def Let_def case_prod_beta)

lemma jittered_frame [simp]:
  "tt_i_min (snd (jittered t span)) = tt_i_min t" "tt_i_max (snd (jittered t span)) = tt_i_max t"
  "tt_interval (snd (jittered t span)) = tt_interval t"
  "tt_next_fire (snd (jittered t span)) = tt_next_fire t"
  by (simp_all add: snd_jittered)

lemma jittered_rng [simp]: "tt_rng t \<noteq> 0 \<Longrightarrow> tt_rng (snd (jittered t span)) \<noteq> 0"
  by (simp add: snd_jittered next_rand_nonzero)

lemma scaled_lt:
  assumes "0 < width"
  shows "unat (r :: u32) * width div 2 ^ 32 < width"
proof -
  have "unat r < 2 ^ 32"
    using unsigned_less [of r] by simp
  then have "unat r * width < 2 ^ 32 * width"
    using assms by (intro mult_strict_right_mono) auto
  then show ?thesis
    by (simp add: less_mult_imp_div_less mult.commute)
qed

lemma jittered_bounds:
  assumes "0 < span" "span < 2 ^ 64"
  shows "span div 2 \<le> fst (jittered t span)" "fst (jittered t span) < span"
proof -
  define width where "width = span - span div 2"
  define sc where "sc = unat (fst (next_rand t)) * width div 2 ^ 32"
  have w: "0 < width" "width < 2 ^ 64" "max width 1 = width"
    using assms by (simp_all add: width_def)
  have lt: "sc < width"
    unfolding sc_def by (rule scaled_lt [OF w(1)])
  then have "sc mod 2 ^ 64 = sc"
    using w(2) by (intro mod_less) simp
  then have "fst (jittered t span) = span div 2 + sc"
    using assms w(3) by (simp add: jittered_def Let_def case_prod_beta sc_def flip: width_def)
  then show "span div 2 \<le> fst (jittered t span)" "fst (jittered t span) < span"
    using lt by (simp_all add: width_def)
qed

lemma jittered_le: "fst (jittered t span) \<le> span"
proof -
  define s where "s = span mod 2 ^ 64"
  define width where "width = max (s - s div 2) 1"
  define sc where "sc = unat (fst (next_rand t)) * width div 2 ^ 32"
  have "sc < width" unfolding sc_def by (rule scaled_lt) (simp add: width_def)
  moreover have "sc mod 2 ^ 64 \<le> sc" by (rule mod_less_eq_dividend)
  ultimately have "s div 2 + sc mod 2 ^ 64 \<le> s" by (auto simp: width_def max_def split: if_splits)
  moreover have "s \<le> span" by (simp add: s_def)
  moreover have "fst (jittered t span) = s div 2 + sc mod 2 ^ 64"
    by (simp add: jittered_def Let_def case_prod_beta s_def width_def sc_def)
  ultimately show ?thesis by simp
qed

lemma on_emit_eq: "on_emit t now = (if emit_fits t now then Some (timer_emitted t now) else None)"
  by (auto simp: on_emit_def emit_fits_def timer_emitted_def dur_add_def dur_mul_def case_prod_beta)

lemma timer_reset_eq: "timer_reset t now = (if reset_fits t now then Some (restarted t now) else None)"
  using jittered_le [of "t\<lparr>tt_interval := tt_i_min t\<rparr>" "tt_i_min t"]
  by (auto simp: timer_reset_def reset_fits_def restarted_def dur_add_def Let_def case_prod_beta)

lemma trickle_new_eq: "trickle_new i_min i_max now seed = (if new_fits i_min i_max now seed then Some (fresh_timer i_min i_max now seed) else None)"
  by (auto simp: trickle_new_def new_fits_def fresh_timer_def dur_add_def Let_def case_prod_beta)

lemma fits_bounds:
  "now + tt_interval t \<le> DURATION_MAX \<Longrightarrow> tt_interval t * 2 \<le> DURATION_MAX \<Longrightarrow> emit_fits t now"
  "now + max i_min 1 \<le> DURATION_MAX \<Longrightarrow> new_fits i_min i_max now seed"
  using jittered_le order_trans [OF add_left_mono]
  by (auto simp: emit_fits_def new_fits_def fresh_timer_def Let_def case_prod_beta) blast+

lemma trickle_ok_new [intro, simp]: "trickle_ok (fresh_timer i_min i_max now seed)"
  by (auto simp: fresh_timer_def Let_def case_prod_beta trickle_ok_def)

lemma trickle_ok_on_emit [intro, simp]: "trickle_ok t \<Longrightarrow> trickle_ok (timer_emitted t now)"
  by (auto simp: timer_emitted_def trickle_ok_def case_prod_beta)

lemma trickle_ok_reset [intro, simp]: "trickle_ok t \<Longrightarrow> trickle_ok (restarted t now)"
  by (auto simp: restarted_def trickle_ok_def Let_def case_prod_beta)

lemma fresh_timer_frame [simp]:
  "tt_i_min (fresh_timer i_min i_max now seed) = max i_min 1"
  "tt_i_max (fresh_timer i_min i_max now seed) = max i_max (max i_min 1)"
  "tt_interval (fresh_timer i_min i_max now seed) = max i_min 1"
  by (simp_all add: fresh_timer_def Let_def case_prod_beta)

lemma emitted_frame [simp]:
  "tt_i_min (timer_emitted t now) = tt_i_min t" "tt_i_max (timer_emitted t now) = tt_i_max t"
  "tt_interval (timer_emitted t now) = min (tt_interval t * 2) (tt_i_max t)"
  by (simp_all add: timer_emitted_def case_prod_beta)

lemma restarted_frame [simp]:
  "tt_i_min (restarted t now) = tt_i_min t" "tt_i_max (restarted t now) = tt_i_max t"
  "tt_interval (restarted t now) = tt_i_min t"
  by (simp_all add: restarted_def Let_def case_prod_beta)

lemma on_emit_wait:
  assumes "trickle_ok t" "tt_interval t < 2 ^ 64"
  shows "tt_interval t div 2 \<le> time_until (timer_emitted t now) now"
    "time_until (timer_emitted t now) now < tt_interval t"
  using assms jittered_bounds [of "tt_interval t" t]
  by (auto simp: timer_emitted_def time_until_def case_prod_beta trickle_ok_def)

lemma timer_reset_next_fire:
  assumes "trickle_ok t" "tt_i_min t < 2 ^ 64"
  shows "tt_next_fire (restarted t now) \<le> tt_next_fire t"
    "tt_next_fire (restarted t now) \<le> now + tt_i_min t"
    "tt_next_fire t \<le> now + tt_i_min t \<Longrightarrow> tt_next_fire (restarted t now) = tt_next_fire t"
  using assms jittered_bounds(2) [of "tt_i_min t" "t\<lparr>tt_interval := tt_i_min t\<rparr>"]
  by (auto simp: restarted_def Let_def case_prod_beta trickle_ok_def)

section \<open>The contract of a paced timer\<close>

text \<open>
  What the engine's timer banks rely on: an invariant every operation keeps, and that being
  due is the same as having no time left. The lemmas are about a bank of timers.
\<close>

locale paced_timer =
  fixes ok :: "'t \<Rightarrow> bool"
    and is_due :: "'t \<Rightarrow> duration \<Rightarrow> bool"
    and left :: "'t \<Rightarrow> duration \<Rightarrow> duration"
    and emit :: "'t \<Rightarrow> duration \<Rightarrow> 't option"
    and restart :: "'t \<Rightarrow> duration \<Rightarrow> 't option"
  assumes due_iff: "is_due t now \<longleftrightarrow> left t now = 0"
    and emit_ok: "ok t \<Longrightarrow> emit t now = Some t' \<Longrightarrow> ok t'"
    and restart_ok: "ok t \<Longrightarrow> restart t now = Some t' \<Longrightarrow> ok t'"
begin

lemma bank_emit_ok:
  "\<forall>t \<in> set ts. ok t \<Longrightarrow> i < length ts \<Longrightarrow> emit (ts ! i) now = Some t' \<Longrightarrow> \<forall>t \<in> set (ts[i := t']). ok t"
  using emit_ok set_update_subset_insert by (fastforce dest!: nth_mem)

lemma bank_restart_ok:
  assumes "\<forall>t \<in> set ts. ok t" "those (map (\<lambda>t. restart t now) ts) = Some ts'"
  shows "\<forall>t \<in> set ts'. ok t"
proof -
  have "map (\<lambda>t. restart t now) ts = map Some ts'" using assms(2) by (simp add: those_Some)
  then have "\<exists>u \<in> set ts. restart u now = Some t" if "t \<in> set ts'" for t using that by (metis (no_types, lifting) imageE image_set imageI)
  with assms(1) restart_ok show ?thesis by blast
qed

text \<open>The soonest deadline of a bank is zero exactly when some timer is due.\<close>

lemma soonest_zero_iff:
  "ts \<noteq> [] \<Longrightarrow> Min (set (map (\<lambda>t. left t now) ts)) = 0 \<longleftrightarrow> (\<exists>t \<in> set ts. is_due t now)"
  by (auto simp: due_iff Min_eq_iff image_iff) (metis)?

text \<open>Picking the due timer with the least time left picks a due one, if there is one.\<close>

lemma pick_due_some_iff:
  "(\<exists>r. min_by_key (\<lambda>(i, t). left t now) (filter (\<lambda>(i, t). is_due t now) its) = Some r)
     \<longleftrightarrow> (\<exists>(i, t) \<in> set its. is_due t now)"
proof
  assume "\<exists>r. min_by_key (\<lambda>(i, t). left t now) (filter (\<lambda>(i, t). is_due t now) its) = Some r"
  then show "\<exists>(i, t) \<in> set its. is_due t now"
    by (force dest!: min_by_key_in)
next
  assume "\<exists>(i, t) \<in> set its. is_due t now"
  then have "filter (\<lambda>(i, t). is_due t now) its \<noteq> []"
    by (auto simp: filter_empty_conv)
  then show "\<exists>r. min_by_key (\<lambda>(i, t). left t now) (filter (\<lambda>(i, t). is_due t now) its) = Some r"
    by (metis min_by_key_None not_None_eq)
qed

end

interpretation trickle: paced_timer trickle_ok due time_until on_emit timer_reset
  by unfold_locales (auto simp: due_def time_until_def on_emit_eq timer_reset_eq split: if_splits)

section \<open>Properties\<close>

text \<open>
  Every scheduled wait lies in the second half of the current interval, as RFC 6206
  prescribes: for an interval below 2^64 ns, an emission schedules the next fire at least
  half an interval and less than a whole interval ahead, and doubles the interval up to the
  cap.
\<close>

theorem on_emit_window:
  assumes "trickle_ok t" "tt_interval t < 2 ^ 64" "on_emit t now = Some t'"
  shows "now + tt_interval t div 2 \<le> tt_next_fire t' \<and> tt_next_fire t' < now + tt_interval t
    \<and> tt_interval t' = min (2 * tt_interval t) (tt_i_max t) \<and> trickle_ok t'"
  using assms jittered_bounds [of "tt_interval t" t]
  by (auto simp: on_emit_eq timer_emitted_def case_prod_beta trickle_ok_def split: if_splits)

theorem on_emit_window_witness:
  "\<exists>t t'. trickle_new 1000000000 64000000000 0 7 = Some t \<and> on_emit t 0 = Some t'
     \<and> 500000000 \<le> tt_next_fire t' \<and> tt_next_fire t' < 1000000000 \<and> tt_interval t' = 2000000000"
proof -
  let ?t = "fresh_timer 1000000000 64000000000 0 7"
  have "new_fits 1000000000 64000000000 0 7" "emit_fits ?t 0" by (rule fits_bounds; simp add: DURATION_MAX_def)+
  then have t: "trickle_new 1000000000 64000000000 0 7 = Some ?t" "on_emit ?t 0 = Some (timer_emitted ?t 0)"
    by (simp_all add: trickle_new_eq on_emit_eq)
  with on_emit_window [of ?t 0 "timer_emitted ?t 0"] show ?thesis by simp
qed

text \<open>
  The backoff is exactly exponential: after \<open>n\<close> consecutive emissions from a fresh
  timer, at whatever instants, the interval is \<open>i_min\<close> doubled \<open>n\<close> times, capped at
  \<open>i_max\<close> (with the bounds \<open>new\<close> normalises them to), and the timer stays well-formed, so
  its generator never sticks at zero.
\<close>

theorem backoff_exponential:
  "tt_interval (fold (\<lambda>now t. timer_emitted t now) nows (fresh_timer i_min i_max start seed)) =
     min (max i_min 1 * 2 ^ length nows) (max i_max (max i_min 1))
   \<and> trickle_ok (fold (\<lambda>now t. timer_emitted t now) nows (fresh_timer i_min i_max start seed))"
proof -
  have "tt_interval (fold (\<lambda>now t. timer_emitted t now) nows t) = min (tt_interval t * 2 ^ length nows) (tt_i_max t)
    \<and> trickle_ok (fold (\<lambda>now t. timer_emitted t now) nows t)"
    if "trickle_ok t" for t
    using that
  proof (induction nows arbitrary: t)
    case Nil
    then show ?case by (simp add: trickle_ok_def)
  next
    case (Cons a nows)
    have "min (min (tt_interval t * 2) (tt_i_max t) * 2 ^ length nows) (tt_i_max t) =
        min (tt_interval t * (2 * 2 ^ length nows)) (tt_i_max t)"
      using min_mult_absorb [of "2 ^ length nows" "tt_interval t * 2" "tt_i_max t"]
      by (simp add: mult.assoc)
    then show ?case
      using Cons by simp
  qed
  then show ?thesis by simp
qed

text \<open>
  Inconsistencies never starve an emission: a reset drops the interval to \<open>i_min\<close>, never
  moves the next fire later, leaves a fire already due within \<open>i_min\<close> where it is, and
  otherwise brings it to within \<open>i_min\<close> of now. Hence however often and whenever the timer
  is reset before its scheduled fire, it is due at that fire.
\<close>

theorem resets_never_postpone:
  assumes "trickle_ok t" "tt_i_min t < 2 ^ 64"
  shows "tt_next_fire (fold (\<lambda>now t. restarted t now) nows t) \<le> tt_next_fire t
    \<and> due (fold (\<lambda>now t. restarted t now) nows t) (tt_next_fire t)
    \<and> (nows \<noteq> [] \<longrightarrow> tt_interval (fold (\<lambda>now t. restarted t now) nows t) = tt_i_min t
         \<and> tt_next_fire (fold (\<lambda>now t. restarted t now) nows t) \<le> last nows + tt_i_min t)"
  using assms
proof (induction nows rule: rev_induct)
  case Nil
  then show ?case by (simp add: due_def)
next
  case (snoc now nows)
  let ?u = "fold (\<lambda>now t. restarted t now) nows t"
  have ok: "trickle_ok ?u \<and> tt_i_min ?u = tt_i_min t"
    using snoc.prems(1) by (induction nows rule: rev_induct) auto
  then have "tt_next_fire (restarted ?u now) \<le> tt_next_fire ?u"
    "tt_next_fire (restarted ?u now) \<le> now + tt_i_min t"
    using timer_reset_next_fire [of ?u now] snoc.prems(2) by auto
  then show ?case
    using snoc ok by (auto simp: due_def)
qed

theorem resets_never_postpone_witness:
  "let t = fresh_timer 1000000000 64000000000 0 3 in
     due (fold (\<lambda>now t. restarted t now) [0, 100000000, 200000000] t) (tt_next_fire t)"
  using resets_never_postpone [of "fresh_timer 1000000000 64000000000 0 3" "[0, 100000000, 200000000]"]
  by (simp add: Let_def)

end
