(* ===== verification/Frame.thy ===== *)
theory Frame
  imports Prelude "HOL-Library.List_Lexorder" "HOL-Library.Monad_Syntax"
begin

text \<open>
  Node addresses and link frames: \<^verbatim>\<open>libs/interfaces/src/frame.rs\<close>, \<^verbatim>\<open>engine.rs\<close> and
  \<^verbatim>\<open>wire.rs\<close>. A \<open>mac\<close> is the six bytes of the address with the derived lexicographic
  order; a frame is the Ethernet-shaped record; \<open>frame_into_buf\<close>, \<open>wire_ethertype\<close> and
  \<open>retag_ethertype\<close> are the shared carrier framing.
\<close>

section \<open>Addresses\<close>

datatype mac = Mac u8 u8 u8 u8 u8 u8

fun mac_bytes :: "mac \<Rightarrow> bytes" where
  "mac_bytes (Mac a b c d e f) = [a, b, c, d, e, f]"

fun mac_try_from :: "bytes \<Rightarrow> mac option" where
  "mac_try_from [a, b, c, d, e, f] = Some (Mac a b c d e f)"
| "mac_try_from _ = None"

definition mac_default :: mac where
  "mac_default = Mac 0 0 0 0 0 0"

definition BROADCAST :: mac where
  "BROADCAST = Mac 255 255 255 255 255 255"

fun is_multicast :: "mac \<Rightarrow> bool" where
  "is_multicast (Mac a b c d e f) \<longleftrightarrow> a AND 1 \<noteq> 0"

definition is_broadcast :: "mac \<Rightarrow> bool" where
  "is_broadcast m \<longleftrightarrow> m = BROADCAST"

fun from_ipv4_multicast :: "u8 \<Rightarrow> u8 \<Rightarrow> u8 \<Rightarrow> u8 \<Rightarrow> mac" where
  "from_ipv4_multicast o0 o1 o2 o3 = Mac 0x01 0x00 0x5e (o1 AND 0x7f) o2 o3"

lemma length_mac_bytes [simp]: "length (mac_bytes m) = 6"
  by (cases m) simp

lemma mac_bytes_inj [simp]: "mac_bytes a = mac_bytes b \<longleftrightarrow> a = b"
  by (cases a; cases b) simp

lemma mac_try_from_bytes [simp]: "mac_try_from (mac_bytes m) = Some m"
  by (cases m) simp

lemma mac_try_from_Some: "mac_try_from bs = Some m \<longleftrightarrow> bs = mac_bytes m"
  by (cases bs rule: mac_try_from.cases; cases m) auto

lemma mac_try_from_None: "mac_try_from bs = None \<longleftrightarrow> length bs \<noteq> 6"
proof
  assume "mac_try_from bs = None"
  then show "length bs \<noteq> 6"
    by (cases bs rule: mac_try_from.cases) auto
next
  assume "length bs \<noteq> 6"
  then show "mac_try_from bs = None"
    by (metis length_mac_bytes mac_try_from_Some not_Some_eq)
qed

text \<open>The order \<^verbatim>\<open>#[derive(PartialOrd, Ord)]\<close> gives a byte array: lexicographic.\<close>

instantiation mac :: linorder
begin

definition less_eq_mac :: "mac \<Rightarrow> mac \<Rightarrow> bool" where
  "less_eq_mac a b \<longleftrightarrow> mac_bytes a \<le> mac_bytes b"

definition less_mac :: "mac \<Rightarrow> mac \<Rightarrow> bool" where
  "less_mac a b \<longleftrightarrow> mac_bytes a < mac_bytes b"

instance
  by standard (auto simp: less_eq_mac_def less_mac_def dest: order_antisym)

end

section \<open>Frames and routing actions\<close>

record link_frame =
  lf_dst :: mac
  lf_src :: mac
  lf_protocol :: u16
  lf_payload :: bytes

text \<open>
  \<^verbatim>\<open>LinkFrameData\<close> and its mutable form \<^verbatim>\<open>LinkFrameDataMut\<close> (the reply scratchpad, whose
  payload is the caller's whole buffer) have the same three fields.
\<close>

record frame_data =
  fd_dst :: mac
  fd_protocol :: u16
  fd_payload :: bytes

definition scratchpad :: "bytes \<Rightarrow> frame_data" where
  "scratchpad buf = \<lparr>fd_dst = mac_default, fd_protocol = 0, fd_payload = buf\<rparr>"

datatype routing_action =
    Consumed
  | ForwardTo mac
  | DeliverLocal
  | DeliverLocalAndForward mac

text \<open>
  \<^verbatim>\<open>trait FrameSink\<close>: \<open>push\<close> takes the sink's state and a frame and returns whether it was
  accepted, with the new state. The unit sink refuses every frame.
\<close>

type_synonym 's frame_sink = "'s \<Rightarrow> frame_data \<Rightarrow> bool \<times> 's"

definition unit_sink :: "unit frame_sink" where
  "unit_sink s f = (False, s)"

section \<open>Carrier framing\<close>

definition ETH_HEADER_LEN :: nat where
  "ETH_HEADER_LEN = 14"

definition ETHERTYPE_OFFSET :: nat where
  "ETHERTYPE_OFFSET = 12"

definition frame_into_buf ::
  "mac \<Rightarrow> u16 \<Rightarrow> frame_data \<Rightarrow> bytes \<Rightarrow> (bytes \<times> nat option) option" where
  "frame_into_buf origin ethertype data buf =
     (let end = ETH_HEADER_LEN + length (fd_payload data) in
      if end > length buf then Some (buf, None)
      else do {
        buf \<leftarrow> copy_into buf 0 (mac_bytes (fd_dst data));
        buf \<leftarrow> copy_into buf 6 (mac_bytes origin);
        buf \<leftarrow> copy_into buf ETHERTYPE_OFFSET (u16_to_be ethertype);
        buf \<leftarrow> copy_into buf ETH_HEADER_LEN (fd_payload data);
        Some (buf, Some end)
      })"

definition wire_ethertype :: "bytes \<Rightarrow> u16 option" where
  "wire_ethertype buf =
     (case get_range buf ETHERTYPE_OFFSET ETH_HEADER_LEN of
        Some [a, b] \<Rightarrow> Some (u16_of_be a b)
      | _ \<Rightarrow> None)"

definition retag_ethertype :: "bytes \<Rightarrow> u16 \<Rightarrow> bytes option" where
  "retag_ethertype buf protocol = copy_into buf ETHERTYPE_OFFSET (u16_to_be protocol)"

text \<open>\<^verbatim>\<open>LinkFrame::ref_from_bytes\<close>: the packed header followed by the payload.\<close>

definition link_frame_ref_from_bytes :: "bytes \<Rightarrow> link_frame option" where
  "link_frame_ref_from_bytes bs =
     (if length bs < ETH_HEADER_LEN then None
      else do {
        dst \<leftarrow> mac_try_from (take 6 bs);
        src \<leftarrow> mac_try_from (take 6 (drop 6 bs));
        Some \<lparr>lf_dst = dst, lf_src = src, lf_protocol = u16_of_be (bs ! 12) (bs ! 13),
              lf_payload = drop ETH_HEADER_LEN bs\<rparr>
      })"

section \<open>Facts about framing\<close>

definition eth_frame :: "mac \<Rightarrow> mac \<Rightarrow> u16 \<Rightarrow> bytes \<Rightarrow> bytes" where
  "eth_frame dst src ethertype payload =
     mac_bytes dst @ mac_bytes src @ u16_to_be ethertype @ payload"

lemma frame_into_buf_eq:
  "frame_into_buf origin ty data buf =
     Some (if ETH_HEADER_LEN + length (fd_payload data) > length buf then (buf, None)
       else (eth_frame (fd_dst data) origin ty (fd_payload data)
               @ drop (ETH_HEADER_LEN + length (fd_payload data)) buf,
             Some (ETH_HEADER_LEN + length (fd_payload data))))"
proof (cases "ETH_HEADER_LEN + length (fd_payload data) > length buf")
  case True
  then show ?thesis by (simp add: frame_into_buf_def)
next
  case False
  then have "14 + length (fd_payload data) \<le> length buf"
    by (simp add: ETH_HEADER_LEN_def)
  then show ?thesis
    by (simp add: frame_into_buf_def ETH_HEADER_LEN_def ETHERTYPE_OFFSET_def copy_into_Some
        eth_frame_def Let_def add.commute)
qed

lemma length_eth_frame [simp]: "length (eth_frame d s t p) = ETH_HEADER_LEN + length p"
  by (simp add: eth_frame_def ETH_HEADER_LEN_def)

lemma wire_ethertype_eth_frame [simp]: "wire_ethertype (eth_frame d s t p) = Some t"
  by (cases d; cases s)
     (simp add: wire_ethertype_def get_range_def eth_frame_def ETH_HEADER_LEN_def
        ETHERTYPE_OFFSET_def u16_to_be_def)

lemma retag_eth_frame [simp]: "retag_ethertype (eth_frame d s t p) t' = Some (eth_frame d s t' p)"
  by (cases d; cases s)
     (simp add: retag_ethertype_def copy_into_def eth_frame_def ETHERTYPE_OFFSET_def u16_to_be_def)

lemma link_frame_of_eth_frame [simp]:
  "link_frame_ref_from_bytes (eth_frame d s t p) =
     Some \<lparr>lf_dst = d, lf_src = s, lf_protocol = t, lf_payload = p\<rparr>"
  by (cases d; cases s)
     (simp add: link_frame_ref_from_bytes_def eth_frame_def ETH_HEADER_LEN_def u16_to_be_def)

end
