(* ===== verification/Wire.thy ===== *)
theory Wire
  imports Frame
begin

text \<open>
  The on-wire packet headers of \<^verbatim>\<open>libs/batman/src/wire.rs\<close>. Every header is a packed struct
  that the code reads off the front of a payload (\<^verbatim>\<open>read_from_prefix\<close>, which fails exactly
  when the payload is shorter than the struct) and writes back as its bytes (\<^verbatim>\<open>as_bytes\<close>).
  A multi-byte field holds its value; the big-endian conversion the code does around each
  access is part of the read and write functions here.

  The locale \<open>wire_header\<close> is the contract of such a pair and is interpreted for every header.
\<close>

section \<open>Packet types\<close>

definition ETH_P_BATMAN :: u16 where
  "ETH_P_BATMAN = 0x4305"

definition BATMAN_VERSION :: u8 where
  "BATMAN_VERSION = 6"

datatype batman_packet_type =
    Ogm | Bcast | Unicast | Mcast | CertReq | CertReply | Keepalive
  | NextHopChallenge | NextHopResponse | EchoRequest | EchoReply | RenewReq | RenewReply

fun packet_type_as_u8 :: "batman_packet_type \<Rightarrow> u8" where
  "packet_type_as_u8 Ogm = 0x01"
| "packet_type_as_u8 Bcast = 0x02"
| "packet_type_as_u8 Unicast = 0x03"
| "packet_type_as_u8 Mcast = 0x04"
| "packet_type_as_u8 CertReq = 0x05"
| "packet_type_as_u8 CertReply = 0x06"
| "packet_type_as_u8 Keepalive = 0x07"
| "packet_type_as_u8 NextHopChallenge = 0x08"
| "packet_type_as_u8 NextHopResponse = 0x09"
| "packet_type_as_u8 EchoRequest = 0x0a"
| "packet_type_as_u8 EchoReply = 0x0b"
| "packet_type_as_u8 RenewReq = 0x0c"
| "packet_type_as_u8 RenewReply = 0x0d"

definition packet_type_from_u8 :: "u8 \<Rightarrow> batman_packet_type option" where
  "packet_type_from_u8 byte =
     (if byte = 0x01 then Some Ogm
      else if byte = 0x02 then Some Bcast
      else if byte = 0x03 then Some Unicast
      else if byte = 0x04 then Some Mcast
      else if byte = 0x05 then Some CertReq
      else if byte = 0x06 then Some CertReply
      else if byte = 0x07 then Some Keepalive
      else if byte = 0x08 then Some NextHopChallenge
      else if byte = 0x09 then Some NextHopResponse
      else if byte = 0x0a then Some EchoRequest
      else if byte = 0x0b then Some EchoReply
      else if byte = 0x0c then Some RenewReq
      else if byte = 0x0d then Some RenewReply
      else None)"

lemma packet_type_roundtrip [simp]: "packet_type_from_u8 (packet_type_as_u8 t) = Some t"
  by (cases t) (simp_all add: packet_type_from_u8_def)

lemma packet_type_from_u8_Some:
  "packet_type_from_u8 b = Some t \<longleftrightarrow> b = packet_type_as_u8 t"
  by (cases t) (auto simp: packet_type_from_u8_def split: if_splits)

section \<open>Fields at an offset\<close>

definition mac_at :: "bytes \<Rightarrow> nat \<Rightarrow> mac" where
  "mac_at bs i = Mac (bs ! i) (bs ! (i + 1)) (bs ! (i + 2)) (bs ! (i + 3)) (bs ! (i + 4)) (bs ! (i + 5))"

definition u16_at :: "bytes \<Rightarrow> nat \<Rightarrow> u16" where
  "u16_at bs i = u16_of_be (bs ! i) (bs ! (i + 1))"

definition u32_at :: "bytes \<Rightarrow> nat \<Rightarrow> u32" where
  "u32_at bs i = u32_of_be (bs ! i) (bs ! (i + 1)) (bs ! (i + 2)) (bs ! (i + 3))"

section \<open>Headers\<close>

record ogm_packet =
  ogm_packet_type :: u8
  ogm_version :: u8
  ogm_ttl :: u8
  ogm_flags :: u8
  ogm_seqno :: u32
  ogm_orig :: mac
  ogm_reserved :: u8
  ogm_tq :: u8
  ogm_tvlv_len :: u16

definition OGM_SIZE :: nat where
  "OGM_SIZE = 18"

definition ogm_write :: "ogm_packet \<Rightarrow> bytes" where
  "ogm_write h = [ogm_packet_type h, ogm_version h, ogm_ttl h, ogm_flags h] @ u32_to_be (ogm_seqno h)
     @ mac_bytes (ogm_orig h) @ [ogm_reserved h, ogm_tq h] @ u16_to_be (ogm_tvlv_len h)"

definition ogm_read :: "bytes \<Rightarrow> (ogm_packet \<times> bytes) option" where
  "ogm_read bs =
     (if length bs < OGM_SIZE then None
      else Some (\<lparr>ogm_packet_type = bs ! 0, ogm_version = bs ! 1, ogm_ttl = bs ! 2, ogm_flags = bs ! 3,
                  ogm_seqno = u32_at bs 4, ogm_orig = mac_at bs 8, ogm_reserved = bs ! 14,
                  ogm_tq = bs ! 15, ogm_tvlv_len = u16_at bs 16\<rparr>, drop OGM_SIZE bs))"

record tvlv_hdr =
  th_type :: u8
  th_version :: u8
  th_len :: u16

definition TVLV_HDR_LEN :: nat where
  "TVLV_HDR_LEN = 4"

definition tvlv_hdr_write :: "tvlv_hdr \<Rightarrow> bytes" where
  "tvlv_hdr_write h = [th_type h, th_version h] @ u16_to_be (th_len h)"

definition tvlv_hdr_read :: "bytes \<Rightarrow> (tvlv_hdr \<times> bytes) option" where
  "tvlv_hdr_read bs =
     (if length bs < TVLV_HDR_LEN then None
      else Some (\<lparr>th_type = bs ! 0, th_version = bs ! 1, th_len = u16_at bs 2\<rparr>, drop TVLV_HDR_LEN bs))"

record bcast_packet =
  bc_packet_type :: u8
  bc_version :: u8
  bc_ttl :: u8
  bc_seqno :: u32
  bc_orig :: mac

definition BCAST_SIZE :: nat where
  "BCAST_SIZE = 13"

definition bcast_write :: "bcast_packet \<Rightarrow> bytes" where
  "bcast_write h = [bc_packet_type h, bc_version h, bc_ttl h] @ u32_to_be (bc_seqno h)
     @ mac_bytes (bc_orig h)"

definition bcast_read :: "bytes \<Rightarrow> (bcast_packet \<times> bytes) option" where
  "bcast_read bs =
     (if length bs < BCAST_SIZE then None
      else Some (\<lparr>bc_packet_type = bs ! 0, bc_version = bs ! 1, bc_ttl = bs ! 2,
                  bc_seqno = u32_at bs 3, bc_orig = mac_at bs 7\<rparr>, drop BCAST_SIZE bs))"

text \<open>
  \<^verbatim>\<open>BatmanUnicastPacket\<close> and the four credential-control headers are five structs with the
  same four fields in the same order.
\<close>

record routed_packet =
  rp_packet_type :: u8
  rp_version :: u8
  rp_ttl :: u8
  rp_dest :: mac

type_synonym unicast_packet = routed_packet
type_synonym cert_req_packet = routed_packet
type_synonym cert_reply_packet = routed_packet
type_synonym renew_req_packet = routed_packet
type_synonym renew_reply_packet = routed_packet

definition ROUTED_SIZE :: nat where
  "ROUTED_SIZE = 9"

definition routed_write :: "routed_packet \<Rightarrow> bytes" where
  "routed_write h = [rp_packet_type h, rp_version h, rp_ttl h] @ mac_bytes (rp_dest h)"

definition routed_read :: "bytes \<Rightarrow> (routed_packet \<times> bytes) option" where
  "routed_read bs =
     (if length bs < ROUTED_SIZE then None
      else Some (\<lparr>rp_packet_type = bs ! 0, rp_version = bs ! 1, rp_ttl = bs ! 2, rp_dest = mac_at bs 3\<rparr>,
                 drop ROUTED_SIZE bs))"

record echo_packet =
  ec_packet_type :: u8
  ec_version :: u8
  ec_ttl :: u8
  ec_dest :: mac
  ec_orig :: mac
  ec_seqno :: u16
  ec_req_hops :: u8
  ec_hops :: u8

definition ECHO_SIZE :: nat where
  "ECHO_SIZE = 19"

definition echo_write :: "echo_packet \<Rightarrow> bytes" where
  "echo_write h = [ec_packet_type h, ec_version h, ec_ttl h] @ mac_bytes (ec_dest h)
     @ mac_bytes (ec_orig h) @ u16_to_be (ec_seqno h) @ [ec_req_hops h, ec_hops h]"

definition echo_read :: "bytes \<Rightarrow> (echo_packet \<times> bytes) option" where
  "echo_read bs =
     (if length bs < ECHO_SIZE then None
      else Some (\<lparr>ec_packet_type = bs ! 0, ec_version = bs ! 1, ec_ttl = bs ! 2, ec_dest = mac_at bs 3,
                  ec_orig = mac_at bs 9, ec_seqno = u16_at bs 15, ec_req_hops = bs ! 17,
                  ec_hops = bs ! 18\<rparr>, drop ECHO_SIZE bs))"

text \<open>The three minimal link-local headers: keep-alive, next-hop challenge and response.\<close>

record minimal_packet =
  mp_packet_type :: u8
  mp_version :: u8

type_synonym keepalive_packet = minimal_packet
type_synonym next_hop_challenge_packet = minimal_packet
type_synonym next_hop_response_packet = minimal_packet

definition MINIMAL_SIZE :: nat where
  "MINIMAL_SIZE = 2"

definition minimal_write :: "minimal_packet \<Rightarrow> bytes" where
  "minimal_write h = [mp_packet_type h, mp_version h]"

definition minimal_read :: "bytes \<Rightarrow> (minimal_packet \<times> bytes) option" where
  "minimal_read bs =
     (if length bs < MINIMAL_SIZE then None
      else Some (\<lparr>mp_packet_type = bs ! 0, mp_version = bs ! 1\<rparr>, drop MINIMAL_SIZE bs))"

record mcast_packet =
  mc_packet_type :: u8
  mc_version :: u8
  mc_ttl :: u8
  mc_n_dests :: u8
  mc_form :: u8

definition MCAST_HEADER_LEN :: nat where
  "MCAST_HEADER_LEN = 5"

definition mcast_hdr_write :: "mcast_packet \<Rightarrow> bytes" where
  "mcast_hdr_write h = [mc_packet_type h, mc_version h, mc_ttl h, mc_n_dests h, mc_form h]"

definition mcast_hdr_read :: "bytes \<Rightarrow> (mcast_packet \<times> bytes) option" where
  "mcast_hdr_read bs =
     (if length bs < MCAST_HEADER_LEN then None
      else Some (\<lparr>mc_packet_type = bs ! 0, mc_version = bs ! 1, mc_ttl = bs ! 2, mc_n_dests = bs ! 3,
                  mc_form = bs ! 4\<rparr>, drop MCAST_HEADER_LEN bs))"

section \<open>The contract of a header\<close>

locale wire_header =
  fixes hsize :: nat
    and enc :: "'h \<Rightarrow> bytes"
    and dec :: "bytes \<Rightarrow> ('h \<times> bytes) option"
  assumes write_length: "length (enc h) = hsize"
    and read_write: "dec (enc h @ rest) = Some (h, rest)"
    and read_short: "dec bs = None \<longleftrightarrow> length bs < hsize"
    and write_read: "dec bs = Some (h, rest) \<Longrightarrow> bs = enc h @ rest"
begin

lemma read_iff: "dec bs = Some (h, rest) \<longleftrightarrow> bs = enc h @ rest"
  using read_write write_read by blast

lemma read_rest: "dec bs = Some (h, rest) \<Longrightarrow> rest = drop hsize bs \<and> hsize \<le> length bs"
  by (auto simp: read_iff write_length)

lemma write_inj: "enc h = enc h' \<longleftrightarrow> h = h'"
  using read_write by (metis Pair_inject option.inject)

text \<open>A payload long enough for the header splits uniquely into header and rest.\<close>

lemma read_long: "hsize \<le> length bs \<Longrightarrow> \<exists>h. bs = enc h @ drop hsize bs \<and> dec bs = Some (h, drop hsize bs)"
  using read_short read_rest write_read by (metis linorder_not_less option.exhaust surj_pair)

text \<open>Rewriting a header in a buffer of the caller leaves the rest of the packet readable.\<close>

lemma read_after_copy:
  assumes "hsize + length inner \<le> length buf"
  shows "dec (take (hsize + length inner) (enc h @ inner @ drop (hsize + length inner) buf)) =
    Some (h, inner)"
  using assms by (simp add: write_length read_write)

end

lemma split_bytes:
  assumes "n \<le> length bs"
  shows "bs = map (nth bs) [0..<n] @ drop n bs"
proof -
  have "take n bs = map (nth bs) [0..<n]"
    using assms by (intro nth_equalityI) auto
  then show ?thesis
    by (metis append_take_drop_id)
qed

lemmas header_sizes =
  OGM_SIZE_def TVLV_HDR_LEN_def BCAST_SIZE_def ROUTED_SIZE_def ECHO_SIZE_def MINIMAL_SIZE_def
  MCAST_HEADER_LEN_def

lemmas field_defs = mac_at_def u16_at_def u32_at_def

lemma mac_bytes_at [simp]:
  "mac_bytes (mac_at bs i) =
     [bs ! i, bs ! (i + 1), bs ! (i + 2), bs ! (i + 3), bs ! (i + 4), bs ! (i + 5)]"
  by (simp add: mac_at_def)

lemma header_offsets [simp]:
  "[0..<2] = [0, 1::nat]" "[0..<4] = [0, 1, 2, 3::nat]" "[0..<5] = [0, 1, 2, 3, 4::nat]"
  "[0..<9] = [0, 1, 2, 3, 4, 5, 6, 7, 8::nat]"
  "[0..<13] = [0, 1, 2, 3, 4, 5, 6, 7, 8, 9, 10, 11, 12::nat]"
  "[0..<18] = [0, 1, 2, 3, 4, 5, 6, 7, 8, 9, 10, 11, 12, 13, 14, 15, 16, 17::nat]"
  "[0..<19] = [0, 1, 2, 3, 4, 5, 6, 7, 8, 9, 10, 11, 12, 13, 14, 15, 16, 17, 18::nat]"
  by code_simp+

interpretation tvlv_codec: wire_header TVLV_HDR_LEN tvlv_hdr_write tvlv_hdr_read
proof unfold_locales
  fix h rest bs
  show "length (tvlv_hdr_write h) = TVLV_HDR_LEN"
    by (simp add: tvlv_hdr_write_def header_sizes)
  show "tvlv_hdr_read (tvlv_hdr_write h @ rest) = Some (h, rest)"
    by (simp add: tvlv_hdr_read_def tvlv_hdr_write_def header_sizes field_defs u16_to_be_def u32_to_be_def)
  show "tvlv_hdr_read bs = None \<longleftrightarrow> length bs < TVLV_HDR_LEN"
    by (simp add: tvlv_hdr_read_def)
  show "tvlv_hdr_read bs = Some (h, rest) \<Longrightarrow> bs = tvlv_hdr_write h @ rest"
    using split_bytes [of 4 bs]
    by (auto simp: tvlv_hdr_read_def tvlv_hdr_write_def header_sizes u16_at_def u32_at_def split: if_splits)
qed

interpretation ogm_codec: wire_header OGM_SIZE ogm_write ogm_read
proof unfold_locales
  fix h rest bs
  show "length (ogm_write h) = OGM_SIZE"
    by (simp add: ogm_write_def header_sizes)
  show "ogm_read (ogm_write h @ rest) = Some (h, rest)"
    by (cases "ogm_orig h")
       (simp add: ogm_read_def ogm_write_def header_sizes field_defs u16_to_be_def u32_to_be_def)
  show "ogm_read bs = None \<longleftrightarrow> length bs < OGM_SIZE"
    by (simp add: ogm_read_def)
  show "ogm_read bs = Some (h, rest) \<Longrightarrow> bs = ogm_write h @ rest"
    using split_bytes [of 18 bs]
    by (auto simp: ogm_read_def ogm_write_def header_sizes u16_at_def u32_at_def split: if_splits)
qed

interpretation bcast_codec: wire_header BCAST_SIZE bcast_write bcast_read
proof unfold_locales
  fix h rest bs
  show "length (bcast_write h) = BCAST_SIZE"
    by (simp add: bcast_write_def header_sizes)
  show "bcast_read (bcast_write h @ rest) = Some (h, rest)"
    by (cases "bc_orig h")
       (simp add: bcast_read_def bcast_write_def header_sizes field_defs u16_to_be_def u32_to_be_def)
  show "bcast_read bs = None \<longleftrightarrow> length bs < BCAST_SIZE"
    by (simp add: bcast_read_def)
  show "bcast_read bs = Some (h, rest) \<Longrightarrow> bs = bcast_write h @ rest"
    using split_bytes [of 13 bs]
    by (auto simp: bcast_read_def bcast_write_def header_sizes u16_at_def u32_at_def split: if_splits)
qed

interpretation routed_codec: wire_header ROUTED_SIZE routed_write routed_read
proof unfold_locales
  fix h rest bs
  show "length (routed_write h) = ROUTED_SIZE"
    by (simp add: routed_write_def header_sizes)
  show "routed_read (routed_write h @ rest) = Some (h, rest)"
    by (cases "rp_dest h")
       (simp add: routed_read_def routed_write_def header_sizes field_defs u16_to_be_def u32_to_be_def)
  show "routed_read bs = None \<longleftrightarrow> length bs < ROUTED_SIZE"
    by (simp add: routed_read_def)
  show "routed_read bs = Some (h, rest) \<Longrightarrow> bs = routed_write h @ rest"
    using split_bytes [of 9 bs]
    by (auto simp: routed_read_def routed_write_def header_sizes u16_at_def u32_at_def split: if_splits)
qed

interpretation echo_codec: wire_header ECHO_SIZE echo_write echo_read
proof unfold_locales
  fix h rest bs
  show "length (echo_write h) = ECHO_SIZE"
    by (simp add: echo_write_def header_sizes)
  show "echo_read (echo_write h @ rest) = Some (h, rest)"
    by (cases "ec_dest h"; cases "ec_orig h")
       (simp add: echo_read_def echo_write_def header_sizes field_defs u16_to_be_def u32_to_be_def)
  show "echo_read bs = None \<longleftrightarrow> length bs < ECHO_SIZE"
    by (simp add: echo_read_def)
  show "echo_read bs = Some (h, rest) \<Longrightarrow> bs = echo_write h @ rest"
    using split_bytes [of 19 bs]
    by (auto simp: echo_read_def echo_write_def header_sizes u16_at_def u32_at_def split: if_splits)
qed

interpretation minimal_codec: wire_header MINIMAL_SIZE minimal_write minimal_read
proof unfold_locales
  fix h rest bs
  show "length (minimal_write h) = MINIMAL_SIZE"
    by (simp add: minimal_write_def header_sizes)
  show "minimal_read (minimal_write h @ rest) = Some (h, rest)"
    by (simp add: minimal_read_def minimal_write_def header_sizes field_defs u16_to_be_def u32_to_be_def)
  show "minimal_read bs = None \<longleftrightarrow> length bs < MINIMAL_SIZE"
    by (simp add: minimal_read_def)
  show "minimal_read bs = Some (h, rest) \<Longrightarrow> bs = minimal_write h @ rest"
    using split_bytes [of 2 bs]
    by (auto simp: minimal_read_def minimal_write_def header_sizes u16_at_def u32_at_def split: if_splits)
qed

interpretation mcast_codec: wire_header MCAST_HEADER_LEN mcast_hdr_write mcast_hdr_read
proof unfold_locales
  fix h rest bs
  show "length (mcast_hdr_write h) = MCAST_HEADER_LEN"
    by (simp add: mcast_hdr_write_def header_sizes)
  show "mcast_hdr_read (mcast_hdr_write h @ rest) = Some (h, rest)"
    by (simp add: mcast_hdr_read_def mcast_hdr_write_def header_sizes field_defs u16_to_be_def u32_to_be_def)
  show "mcast_hdr_read bs = None \<longleftrightarrow> length bs < MCAST_HEADER_LEN"
    by (simp add: mcast_hdr_read_def)
  show "mcast_hdr_read bs = Some (h, rest) \<Longrightarrow> bs = mcast_hdr_write h @ rest"
    using split_bytes [of 5 bs]
    by (auto simp: mcast_hdr_read_def mcast_hdr_write_def header_sizes u16_at_def u32_at_def split: if_splits)
qed

lemmas codec_lengths [simp] =
  tvlv_codec.write_length ogm_codec.write_length bcast_codec.write_length routed_codec.write_length
  echo_codec.write_length minimal_codec.write_length mcast_codec.write_length

lemmas codec_roundtrips [codec] =
  tvlv_codec.read_write ogm_codec.read_write bcast_codec.read_write routed_codec.read_write
  echo_codec.read_write minimal_codec.read_write mcast_codec.read_write

end
