(* ===== verification/Tvlv.thy ===== *)
theory Tvlv
  imports Wire
begin

text \<open>
  The TVLV region behind an OGM header (\<^verbatim>\<open>libs/batman/src/wire.rs\<close>): scanning for records
  (\<open>find_tvlv\<close>, \<open>iter_tvlv\<close>) and the per-hop rewrite of the previous-sender record
  (\<open>stamped_len\<close>, \<open>stamp_prev_sender\<close>, \<open>prev_sender\<close>). The source walks the region by a
  growing offset; the model recurses on the rest of the region behind that offset.

  The abstract view of a region is the list of its records, \<open>tvlv_parse\<close>; each routine is
  shown to compute on it.
\<close>

section \<open>Record types\<close>

datatype tvlv_type = TvMcast | TvCert | TvOgmSig | TvRevoke | TvCertFp | TvPrevSender

fun tvlv_as_u8 :: "tvlv_type \<Rightarrow> u8" where
  "tvlv_as_u8 TvMcast = 0x06"
| "tvlv_as_u8 TvCert = 0x80"
| "tvlv_as_u8 TvOgmSig = 0x81"
| "tvlv_as_u8 TvRevoke = 0x82"
| "tvlv_as_u8 TvCertFp = 0x83"
| "tvlv_as_u8 TvPrevSender = 0x84"

lemma tvlv_as_u8_inj [simp]: "tvlv_as_u8 a = tvlv_as_u8 b \<longleftrightarrow> a = b"
  by (cases a; cases b) simp_all

definition PREV_SENDER_LEN :: nat where
  "PREV_SENDER_LEN = 6"

definition PREV_SENDER_RECORD_LEN :: nat where
  "PREV_SENDER_RECORD_LEN = TVLV_HDR_LEN + PREV_SENDER_LEN"

lemma tvlv_hdr_read_length:
  "tvlv_hdr_read tail = Some (h, rest) \<Longrightarrow> length tail = 4 + length rest"
  by (auto simp: tvlv_hdr_read_def header_sizes split: if_splits)

section \<open>Scanning\<close>

function find_tvlv :: "bytes \<Rightarrow> tvlv_type \<Rightarrow> bytes option" where
  "find_tvlv tail ty =
     (case tvlv_hdr_read tail of
        None \<Rightarrow> None
      | Some (hdr, rest) \<Rightarrow>
          (let len = unat (th_len hdr) in
           if len > length rest then None
           else if th_type hdr = tvlv_as_u8 ty then Some (take len rest)
           else find_tvlv (drop len rest) ty))"
  by pat_completeness auto
termination
  by (relation "measure (\<lambda>(tail, ty). length tail)") (auto dest!: tvlv_hdr_read_length)

declare find_tvlv.simps [simp del]

text \<open>
  \<^verbatim>\<open>TvlvValues::next\<close>: the value of the next matching record and the iterator's new
  position (the rest of the region); \<open>iter_tvlv\<close> collects the iterator.
\<close>

function tvlv_values_next :: "bytes \<Rightarrow> u8 \<Rightarrow> (bytes \<times> bytes) option" where
  "tvlv_values_next tail ty =
     (case tvlv_hdr_read tail of
        None \<Rightarrow> None
      | Some (hdr, rest) \<Rightarrow>
          (let len = unat (th_len hdr) in
           if len > length rest then None
           else if th_type hdr = ty then Some (take len rest, drop len rest)
           else tvlv_values_next (drop len rest) ty))"
  by pat_completeness auto
termination
  by (relation "measure (\<lambda>(tail, ty). length tail)") (auto dest!: tvlv_hdr_read_length)

declare tvlv_values_next.simps [simp del]

lemma tvlv_values_next_shorter:
  "tvlv_values_next tail ty = Some (v, rest) \<Longrightarrow> length rest < length tail"
proof (induction tail ty arbitrary: v rest rule: tvlv_values_next.induct)
  case (1 tail ty)
  show ?case
  proof (cases "tvlv_hdr_read tail")
    case None
    with "1.prems" show ?thesis by (subst (asm) tvlv_values_next.simps) simp
  next
    case (Some p)
    obtain hdr r where p: "p = (hdr, r)" by fastforce
    note len = tvlv_hdr_read_length [OF Some [unfolded p]]
    have "unat (th_len hdr) \<le> length r"
      using "1.prems" Some p
      by (subst (asm) tvlv_values_next.simps) (simp add: Let_def split: if_splits)
    then show ?thesis
      using "1.prems" "1.IH" [OF Some p [symmetric] refl] Some p len
      by (subst (asm) tvlv_values_next.simps) (fastforce simp: Let_def split: if_splits)
  qed
qed

function iter_tvlv :: "bytes \<Rightarrow> tvlv_type \<Rightarrow> bytes list" where
  "iter_tvlv tail ty =
     (case tvlv_values_next tail (tvlv_as_u8 ty) of
        None \<Rightarrow> []
      | Some (v, rest) \<Rightarrow> v # iter_tvlv rest ty)"
  by pat_completeness auto
termination
  by (relation "measure (\<lambda>(tail, ty). length tail)") (auto dest!: tvlv_values_next_shorter)

declare iter_tvlv.simps [simp del]

section \<open>Stamping the previous sender\<close>

text \<open>The loop of \<^verbatim>\<open>stamped_len\<close>, with the bytes kept so far.\<close>

function stamped_len_loop :: "bytes \<Rightarrow> nat \<Rightarrow> nat option" where
  "stamped_len_loop tail kept =
     (case tvlv_hdr_read tail of
        None \<Rightarrow> Some kept
      | Some (hdr, rest) \<Rightarrow>
          (let len = unat (th_len hdr) in
           if len > length rest then None
           else stamped_len_loop (drop len rest)
                  (if th_type hdr \<noteq> tvlv_as_u8 TvPrevSender then kept + (TVLV_HDR_LEN + len) else kept)))"
  by pat_completeness auto
termination
  by (relation "measure (\<lambda>(tail, kept). length tail)") (auto dest!: tvlv_hdr_read_length)

declare stamped_len_loop.simps [simp del]

definition stamped_len :: "bytes \<Rightarrow> nat option" where
  "stamped_len tail = map_option (\<lambda>kept. kept + PREV_SENDER_RECORD_LEN) (stamped_len_loop tail 0)"

text \<open>
  The copying loop of \<^verbatim>\<open>stamp_prev_sender\<close>: the output buffer as far as it was written, and
  the number of bytes written, or \<open>None\<close> for an early return (a malformed tail, or a record
  that does not fit the buffer).
\<close>

definition put_slice :: "bytes \<Rightarrow> nat \<Rightarrow> bytes \<Rightarrow> bytes \<times> nat option" where
  "put_slice out written src =
     (case copy_into out written src of
        None \<Rightarrow> (out, None)
      | Some out' \<Rightarrow> (out', Some (written + length src)))"

function stamp_loop :: "bytes \<Rightarrow> bytes \<Rightarrow> nat \<Rightarrow> bytes \<times> nat option" where
  "stamp_loop tail out written =
     (case tvlv_hdr_read tail of
        None \<Rightarrow> (out, Some written)
      | Some (hdr, rest) \<Rightarrow>
          (let len = unat (th_len hdr) in
           if len > length rest then (out, None)
           else if th_type hdr \<noteq> tvlv_as_u8 TvPrevSender
           then (case put_slice out written (take (TVLV_HDR_LEN + len) tail) of
                   (out, None) \<Rightarrow> (out, None)
                 | (out, Some written) \<Rightarrow> stamp_loop (drop len rest) out written)
           else stamp_loop (drop len rest) out written))"
  by pat_completeness auto
termination
  by (relation "measure (\<lambda>(tail, out, written). length tail)") (auto dest!: tvlv_hdr_read_length)

declare stamp_loop.simps [simp del]

definition prev_sender_hdr :: tvlv_hdr where
  "prev_sender_hdr = \<lparr>th_type = tvlv_as_u8 TvPrevSender, th_version = 1,
                      th_len = word_of_nat PREV_SENDER_LEN\<rparr>"

definition stamp_prev_sender :: "bytes \<Rightarrow> bytes \<Rightarrow> mac \<Rightarrow> bytes \<times> nat option" where
  "stamp_prev_sender tail out prev =
     (case stamp_loop tail out 0 of
        (out, None) \<Rightarrow> (out, None)
      | (out, Some written) \<Rightarrow>
          (case put_slice out written (tvlv_hdr_write prev_sender_hdr) of
             (out, None) \<Rightarrow> (out, None)
           | (out, Some written) \<Rightarrow> put_slice out written (mac_bytes prev)))"

definition prev_sender :: "bytes \<Rightarrow> mac option" where
  "prev_sender tail =
     (case find_tvlv tail TvPrevSender of None \<Rightarrow> None | Some v \<Rightarrow> mac_try_from v)"

section \<open>The abstract view: a list of records\<close>

record tvlv_record =
  tr_type :: u8
  tr_version :: u8
  tr_value :: bytes

function tvlv_parse :: "bytes \<Rightarrow> tvlv_record list option" where
  "tvlv_parse tail =
     (case tvlv_hdr_read tail of
        None \<Rightarrow> Some []
      | Some (hdr, rest) \<Rightarrow>
          (if unat (th_len hdr) > length rest then None
           else map_option
                  (Cons \<lparr>tr_type = th_type hdr, tr_version = th_version hdr,
                         tr_value = take (unat (th_len hdr)) rest\<rparr>)
                  (tvlv_parse (drop (unat (th_len hdr)) rest))))"
  by pat_completeness auto
termination
  by (relation "measure length") (auto dest!: tvlv_hdr_read_length)

declare tvlv_parse.simps [simp del]

definition record_bytes :: "tvlv_record \<Rightarrow> bytes" where
  "record_bytes r =
     tvlv_hdr_write \<lparr>th_type = tr_type r, th_version = tr_version r,
                     th_len = word_of_nat (length (tr_value r))\<rparr> @ tr_value r"

definition tvlv_print :: "tvlv_record list \<Rightarrow> bytes" where
  "tvlv_print rs = concat (map record_bytes rs)"

definition record_ok :: "tvlv_record \<Rightarrow> bool" where
  "record_ok r \<longleftrightarrow> length (tr_value r) < 2 ^ 16"

definition prev_record :: "mac \<Rightarrow> tvlv_record" where
  "prev_record prev = \<lparr>tr_type = tvlv_as_u8 TvPrevSender, tr_version = 1, tr_value = mac_bytes prev\<rparr>"

text \<open>What a relay forwards: the originator's records in order, its own stamp last.\<close>

definition restamp :: "mac \<Rightarrow> tvlv_record list \<Rightarrow> tvlv_record list" where
  "restamp prev rs = filter (\<lambda>r. tr_type r \<noteq> tvlv_as_u8 TvPrevSender) rs @ [prev_record prev]"

section \<open>One step of a scan\<close>

lemma tvlv_induct [case_names short overrun step]:
  assumes "\<And>tail. tvlv_hdr_read tail = None \<Longrightarrow> P tail"
    and "\<And>tail h rest. tvlv_hdr_read tail = Some (h, rest) \<Longrightarrow> length rest < unat (th_len h) \<Longrightarrow> P tail"
    and "\<And>tail h rest. tvlv_hdr_read tail = Some (h, rest) \<Longrightarrow> unat (th_len h) \<le> length rest \<Longrightarrow>
           P (drop (unat (th_len h)) rest) \<Longrightarrow> P tail"
  shows "P tail"
proof (induction tail rule: length_induct)
  case (1 tail)
  show ?case
  proof (cases "tvlv_hdr_read tail")
    case None
    then show ?thesis by (rule assms(1))
  next
    case (Some p)
    then obtain h rest where r: "tvlv_hdr_read tail = Some (h, rest)" by (cases p) auto
    show ?thesis
    proof (cases "unat (th_len h) \<le> length rest")
      case True
      moreover have "length (drop (unat (th_len h)) rest) < length tail"
        using tvlv_hdr_read_length [OF r] by simp
      ultimately show ?thesis using assms(3) [OF r] 1 by blast
    next
      case False
      then show ?thesis using assms(2) [OF r] by simp
    qed
  qed
qed

named_theorems tvlv_step

lemma find_tvlv_step [tvlv_step]:
  "tvlv_hdr_read tail = None \<Longrightarrow> find_tvlv tail ty = None"
  "tvlv_hdr_read tail = Some (h, rest) \<Longrightarrow> length rest < unat (th_len h) \<Longrightarrow> find_tvlv tail ty = None"
  "tvlv_hdr_read tail = Some (h, rest) \<Longrightarrow> unat (th_len h) \<le> length rest \<Longrightarrow>
     find_tvlv tail ty = (if th_type h = tvlv_as_u8 ty then Some (take (unat (th_len h)) rest)
       else find_tvlv (drop (unat (th_len h)) rest) ty)"
  by (simp_all add: find_tvlv.simps [of tail ty] Let_def)

lemma tvlv_values_next_step [tvlv_step]:
  "tvlv_hdr_read tail = None \<Longrightarrow> tvlv_values_next tail b = None"
  "tvlv_hdr_read tail = Some (h, rest) \<Longrightarrow> length rest < unat (th_len h) \<Longrightarrow> tvlv_values_next tail b = None"
  "tvlv_hdr_read tail = Some (h, rest) \<Longrightarrow> unat (th_len h) \<le> length rest \<Longrightarrow>
     tvlv_values_next tail b =
       (if th_type h = b then Some (take (unat (th_len h)) rest, drop (unat (th_len h)) rest)
        else tvlv_values_next (drop (unat (th_len h)) rest) b)"
  by (simp_all add: tvlv_values_next.simps [of tail b] Let_def)

lemma stamped_len_loop_step [tvlv_step]:
  "tvlv_hdr_read tail = None \<Longrightarrow> stamped_len_loop tail n = Some n"
  "tvlv_hdr_read tail = Some (h, rest) \<Longrightarrow> length rest < unat (th_len h) \<Longrightarrow> stamped_len_loop tail n = None"
  "tvlv_hdr_read tail = Some (h, rest) \<Longrightarrow> unat (th_len h) \<le> length rest \<Longrightarrow>
     stamped_len_loop tail n = stamped_len_loop (drop (unat (th_len h)) rest)
       (if th_type h \<noteq> tvlv_as_u8 TvPrevSender then n + (TVLV_HDR_LEN + unat (th_len h)) else n)"
  by (simp_all add: stamped_len_loop.simps [of tail n] Let_def)

lemma stamp_loop_step [tvlv_step]:
  "tvlv_hdr_read tail = None \<Longrightarrow> stamp_loop tail out n = (out, Some n)"
  "tvlv_hdr_read tail = Some (h, rest) \<Longrightarrow> length rest < unat (th_len h) \<Longrightarrow>
     stamp_loop tail out n = (out, None)"
  "tvlv_hdr_read tail = Some (h, rest) \<Longrightarrow> unat (th_len h) \<le> length rest \<Longrightarrow>
     stamp_loop tail out n =
       (if th_type h \<noteq> tvlv_as_u8 TvPrevSender
        then (case put_slice out n (take (TVLV_HDR_LEN + unat (th_len h)) tail) of
                (out, None) \<Rightarrow> (out, None)
              | (out, Some n) \<Rightarrow> stamp_loop (drop (unat (th_len h)) rest) out n)
        else stamp_loop (drop (unat (th_len h)) rest) out n)"
  by (simp_all add: stamp_loop.simps [of tail out n] Let_def)

lemma tvlv_parse_step [tvlv_step]:
  "tvlv_hdr_read tail = None \<Longrightarrow> tvlv_parse tail = Some []"
  "tvlv_hdr_read tail = Some (h, rest) \<Longrightarrow> length rest < unat (th_len h) \<Longrightarrow> tvlv_parse tail = None"
  "tvlv_hdr_read tail = Some (h, rest) \<Longrightarrow> unat (th_len h) \<le> length rest \<Longrightarrow>
     tvlv_parse tail = map_option
       (Cons \<lparr>tr_type = th_type h, tr_version = th_version h, tr_value = take (unat (th_len h)) rest\<rparr>)
       (tvlv_parse (drop (unat (th_len h)) rest))"
  by (simp_all add: tvlv_parse.simps [of tail] Let_def)

section \<open>The routines compute on the list of records\<close>

lemma tvlv_print_simps [simp]:
  "tvlv_print [] = []" "tvlv_print (r # rs) = record_bytes r @ tvlv_print rs"
  "tvlv_print (rs @ rs') = tvlv_print rs @ tvlv_print rs'"
  by (simp_all add: tvlv_print_def)

lemma length_record_bytes [simp]: "length (record_bytes r) = 4 + length (tr_value r)"
  by (simp add: record_bytes_def header_sizes)

lemma record_bytes_read:
  assumes "record_ok r"
  obtains h where "tvlv_hdr_read (record_bytes r @ tail) = Some (h, tr_value r @ tail)"
    "unat (th_len h) = length (tr_value r)" "th_type h = tr_type r" "th_version h = tr_version r"
proof -
  let ?h = "\<lparr>th_type = tr_type r, th_version = tr_version r,
              th_len = word_of_nat (length (tr_value r))\<rparr> :: tvlv_hdr"
  have "tvlv_hdr_read (record_bytes r @ tail) = Some (?h, tr_value r @ tail)"
    by (simp add: record_bytes_def tvlv_codec.read_write)
  moreover have "unat (th_len ?h) = length (tr_value r)"
    using assms by (simp add: record_ok_def unat_of_nat)
  ultimately show thesis
    using that [of ?h] by simp
qed

lemma tvlv_eta:
  "\<lparr>tr_type = tr_type r, tr_version = tr_version r, tr_value = tr_value r\<rparr> = r"
  "\<lparr>th_type = th_type h, th_version = th_version h, th_len = th_len h\<rparr> = h"
  by simp_all

lemma tvlv_parse_print_append:
  assumes "\<forall>r \<in> set rs. record_ok r"
  shows "tvlv_parse (tvlv_print rs @ tail) = map_option (append rs) (tvlv_parse tail)"
  using assms
proof (induction rs)
  case Nil
  then show ?case by (cases "tvlv_parse tail") auto
next
  case (Cons r rs)
  obtain h where h: "tvlv_hdr_read (record_bytes r @ tvlv_print rs @ tail) =
      Some (h, tr_value r @ tvlv_print rs @ tail)" "unat (th_len h) = length (tr_value r)"
      "th_type h = tr_type r" "th_version h = tr_version r"
    using record_bytes_read [of r "tvlv_print rs @ tail"] Cons.prems by auto
  then have "tvlv_parse (tvlv_print (r # rs) @ tail) =
      map_option (Cons r) (tvlv_parse (tvlv_print rs @ tail))"
    using tvlv_parse_step(3) [OF h(1)] by (simp add: tvlv_eta)
  then show ?case
    using Cons by (cases "tvlv_parse tail") auto
qed

lemma tvlv_parse_Nil [simp]: "tvlv_parse [] = Some []"
  by (simp add: tvlv_parse_step tvlv_codec.read_short header_sizes)

lemma tvlv_parse_print: "\<forall>r \<in> set rs. record_ok r \<Longrightarrow> tvlv_parse (tvlv_print rs) = Some rs"
  using tvlv_parse_print_append [of rs "[]"] by simp

text \<open>A successful parse accounts for every byte but a trailing fragment.\<close>

lemma tvlv_record_take:
  assumes "tvlv_hdr_read tail = Some (h, rest)" "unat (th_len h) \<le> length rest"
  shows "take (TVLV_HDR_LEN + unat (th_len h)) tail =
      record_bytes \<lparr>tr_type = th_type h, tr_version = th_version h, tr_value = take (unat (th_len h)) rest\<rparr>"
    "drop (TVLV_HDR_LEN + unat (th_len h)) tail = drop (unat (th_len h)) rest"
proof -
  have tail: "tail = tvlv_hdr_write h @ rest"
    using assms(1) by (simp add: tvlv_codec.write_read)
  show "take (TVLV_HDR_LEN + unat (th_len h)) tail =
      record_bytes \<lparr>tr_type = th_type h, tr_version = th_version h, tr_value = take (unat (th_len h)) rest\<rparr>"
    using assms(2) by (simp add: tail record_bytes_def min_absorb2 tvlv_eta)
  show "drop (TVLV_HDR_LEN + unat (th_len h)) tail = drop (unat (th_len h)) rest"
    by (simp add: tail)
qed

lemma tvlv_parse_ok: "tvlv_parse tail = Some rs \<Longrightarrow> \<forall>r \<in> set rs. record_ok r"
proof (induction tail arbitrary: rs rule: tvlv_induct)
  case (step tail h rest)
  then show ?case
    using unsigned_less [of "th_len h"]
    by (auto simp: tvlv_parse_step record_ok_def min_def)
qed (simp_all add: tvlv_parse_step)

lemma find_tvlv_parse:
  "tvlv_parse tail = Some rs \<Longrightarrow>
     find_tvlv tail ty = map_option tr_value (find (\<lambda>r. tr_type r = tvlv_as_u8 ty) rs)"
proof (induction tail arbitrary: rs rule: tvlv_induct)
  case (step tail h rest)
  then show ?case by (auto simp: tvlv_step)
qed (simp_all add: tvlv_step)

lemma tvlv_values_next_parse:
  "tvlv_parse tail = Some rs \<Longrightarrow>
     (case tvlv_values_next tail b of
        None \<Rightarrow> filter (\<lambda>r. tr_type r = b) rs = []
      | Some (v, rest) \<Rightarrow> \<exists>rs'. tvlv_parse rest = Some rs'
          \<and> map tr_value (filter (\<lambda>r. tr_type r = b) rs) = v # map tr_value (filter (\<lambda>r. tr_type r = b) rs'))"
proof (induction tail arbitrary: rs rule: tvlv_induct)
  case (step tail h rest)
  then show ?case by (auto simp: tvlv_step split: option.splits)
qed (simp_all add: tvlv_step)

lemma iter_tvlv_parse:
  "tvlv_parse tail = Some rs \<Longrightarrow>
     iter_tvlv tail ty = map tr_value (filter (\<lambda>r. tr_type r = tvlv_as_u8 ty) rs)"
proof (induction tail ty arbitrary: rs rule: iter_tvlv.induct)
  case (1 tail ty)
  show ?case
  proof (cases "tvlv_values_next tail (tvlv_as_u8 ty)")
    case None
    with tvlv_values_next_parse [OF "1.prems", of "tvlv_as_u8 ty"] show ?thesis
      by (subst iter_tvlv.simps) simp
  next
    case (Some p)
    obtain v rest where p: "p = (v, rest)" by fastforce
    with Some tvlv_values_next_parse [OF "1.prems", of "tvlv_as_u8 ty"]
    obtain rs' where "tvlv_parse rest = Some rs'"
      "map tr_value (filter (\<lambda>r. tr_type r = tvlv_as_u8 ty) rs) =
         v # map tr_value (filter (\<lambda>r. tr_type r = tvlv_as_u8 ty) rs')"
      by auto
    with "1.IH" [OF Some p [symmetric]] Some p show ?thesis
      by (subst iter_tvlv.simps) simp
  qed
qed

lemma stamped_len_loop_parse:
  "stamped_len_loop tail n =
     map_option (\<lambda>rs. n + length (tvlv_print (filter (\<lambda>r. tr_type r \<noteq> tvlv_as_u8 TvPrevSender) rs)))
       (tvlv_parse tail)"
proof (induction tail arbitrary: n rule: tvlv_induct)
  case (step tail h rest)
  then show ?case
    by (cases "tvlv_parse (drop (unat (th_len h)) rest)") (auto simp: tvlv_step header_sizes min_def)
qed (simp_all add: tvlv_step)

lemma length_restamp:
  "length (tvlv_print (restamp prev rs)) =
     length (tvlv_print (filter (\<lambda>r. tr_type r \<noteq> tvlv_as_u8 TvPrevSender) rs)) + PREV_SENDER_RECORD_LEN"
  by (simp add: restamp_def prev_record_def PREV_SENDER_RECORD_LEN_def PREV_SENDER_LEN_def header_sizes)

lemma stamped_len_parse:
  "stamped_len tail = map_option (\<lambda>rs. length (tvlv_print (restamp prev rs))) (tvlv_parse tail)"
  unfolding stamped_len_def length_restamp
  by (cases "tvlv_parse tail") (simp_all add: stamped_len_loop_parse)

section \<open>The per-hop rewrite\<close>

lemma put_slice_eq:
  "put_slice out n src =
     (if n + length src \<le> length out then (take n out @ src @ drop (n + length src) out, Some (n + length src))
      else (out, None))"
  by (simp add: put_slice_def copy_into_def)

lemma stamp_loop_parse:
  "n \<le> length out \<Longrightarrow>
     (case tvlv_parse tail of
        None \<Rightarrow> snd (stamp_loop tail out n) = None
      | Some rs \<Rightarrow>
          (let b = tvlv_print (filter (\<lambda>r. tr_type r \<noteq> tvlv_as_u8 TvPrevSender) rs) in
           if n + length b \<le> length out
           then stamp_loop tail out n = (take n out @ b @ drop (n + length b) out, Some (n + length b))
           else snd (stamp_loop tail out n) = None))"
proof (induction tail arbitrary: out n rule: tvlv_induct)
  case (step tail h rest)
  let ?rest = "drop (unat (th_len h)) rest"
  let ?r = "\<lparr>tr_type = th_type h, tr_version = th_version h, tr_value = take (unat (th_len h)) rest\<rparr>"
  show ?case
  proof (cases "th_type h = tvlv_as_u8 TvPrevSender")
    case True
    with step show ?thesis
      by (cases "tvlv_parse ?rest") (simp_all add: tvlv_step Let_def)
  next
    case False
    define b where "b = record_bytes ?r"
    let ?m = "n + length b" and ?out = "take n out @ b @ drop (n + length b) out"
    have loop: "stamp_loop tail out n = (if ?m \<le> length out then stamp_loop ?rest ?out ?m else (out, None))"
      using False step.hyps by (simp add: tvlv_step tvlv_record_take put_slice_eq b_def)
    have parse: "tvlv_parse tail = map_option (Cons ?r) (tvlv_parse ?rest)"
      using step.hyps by (simp add: tvlv_parse_step(3))
    have keep: "tvlv_print (filter (\<lambda>r. tr_type r \<noteq> tvlv_as_u8 TvPrevSender) (?r # rs)) =
        b @ tvlv_print (filter (\<lambda>r. tr_type r \<noteq> tvlv_as_u8 TvPrevSender) rs)" for rs
      using False by (simp add: b_def)
    show ?thesis
    proof (cases "?m \<le> length out")
      case True
      then have "length ?out = length out" "take ?m ?out = take n out @ b"
        "\<And>k. drop (?m + k) ?out = drop (?m + k) out"
        by (simp_all add: ac_simps)
      with step.IH [of ?m ?out] True loop parse show ?thesis
        by (cases "tvlv_parse ?rest") (auto simp only: option.simps keep Let_def length_append add.assoc
            append.assoc if_True if_False simp_thms order.refl split: if_splits)
    next
      case False
      with loop parse show ?thesis
        by (cases "tvlv_parse ?rest") (auto simp: keep Let_def simp del: filter.simps tvlv_as_u8.simps)
    qed
  qed
qed (simp_all add: tvlv_step)

lemma prev_record_bytes: "record_bytes (prev_record prev) = tvlv_hdr_write prev_sender_hdr @ mac_bytes prev"
  by (simp add: record_bytes_def prev_record_def prev_sender_hdr_def PREV_SENDER_LEN_def)

lemma stamp_prev_sender_parse:
  "(case tvlv_parse tail of
      None \<Rightarrow> snd (stamp_prev_sender tail out prev) = None
    | Some rs \<Rightarrow>
        (let b = tvlv_print (restamp prev rs) in
         if length b \<le> length out
         then stamp_prev_sender tail out prev = (b @ drop (length b) out, Some (length b))
         else snd (stamp_prev_sender tail out prev) = None))"
proof (cases "tvlv_parse tail")
  case None
  then show ?thesis
    using stamp_loop_parse [of 0 out tail] by (auto simp: stamp_prev_sender_def split: prod.splits option.splits)
next
  case (Some rs)
  let ?b = "tvlv_print (filter (\<lambda>r. tr_type r \<noteq> tvlv_as_u8 TvPrevSender) rs)"
  show ?thesis
  proof (cases "length ?b \<le> length out")
    case True
    then have "stamp_loop tail out 0 = (?b @ drop (length ?b) out, Some (length ?b))"
      using stamp_loop_parse [of 0 out tail] Some by (simp add: Let_def)
    with Some True show ?thesis
      by (auto simp: stamp_prev_sender_def put_slice_eq Let_def restamp_def prev_record_bytes ac_simps)
  next
    case False
    then show ?thesis
      using stamp_loop_parse [of 0 out tail] Some
      by (auto simp: stamp_prev_sender_def Let_def restamp_def split: prod.splits option.splits)
  qed
qed


lemma restamp_ok: "tvlv_parse tail = Some rs \<Longrightarrow> \<forall>r \<in> set (restamp prev rs). record_ok r"
  using tvlv_parse_ok [of tail rs] by (auto simp: restamp_def record_ok_def prev_record_def)

lemma stamp_prev_sender_Some:
  assumes "stamp_prev_sender tail out prev = (out', Some n)"
  obtains rs where "tvlv_parse tail = Some rs" "take n out' = tvlv_print (restamp prev rs)"
    "n = length (tvlv_print (restamp prev rs))" "n \<le> length out" "drop n out' = drop n out"
proof (cases "tvlv_parse tail")
  case None
  with stamp_prev_sender_parse [of tail out prev] assms show thesis by simp
next
  case (Some rs)
  define b where "b = tvlv_print (restamp prev rs)"
  have "length b \<le> length out \<and> out' = b @ drop (length b) out \<and> n = length b"
    using stamp_prev_sender_parse [of tail out prev] assms Some
    by (auto simp: Let_def b_def [symmetric] split: if_splits)
  then show thesis using that [OF Some] by (simp add: b_def)
qed

lemma stamp_prev_sender_fits:
  assumes "stamped_len tail = Some n" "n \<le> length out"
  shows "\<exists>out'. stamp_prev_sender tail out prev = (out', Some n)"
  using stamp_prev_sender_parse [of tail out prev] assms
  by (auto simp: stamped_len_parse [of tail prev] Let_def)

lemma find_prev_restamp:
  "find (\<lambda>r. tr_type r = tvlv_as_u8 TvPrevSender) (restamp prev rs) = Some (prev_record prev)"
  by (induction rs) (auto simp: restamp_def prev_record_def)

lemma prev_sender_restamp:
  "\<forall>r \<in> set (restamp prev rs). record_ok r \<Longrightarrow> prev_sender (tvlv_print (restamp prev rs)) = Some prev"
  using find_tvlv_parse [OF tvlv_parse_print, of "restamp prev rs" TvPrevSender]
  by (simp only: find_prev_restamp prev_sender_def) (simp add: prev_record_def)

lemma filter_restamp:
  "ty \<noteq> TvPrevSender \<Longrightarrow>
     filter (\<lambda>r. tr_type r = tvlv_as_u8 ty) (restamp prev rs) = filter (\<lambda>r. tr_type r = tvlv_as_u8 ty) rs"
  using tvlv_as_u8_inj [of TvPrevSender ty]
  by (auto simp: restamp_def prev_record_def simp del: tvlv_as_u8.simps tvlv_as_u8_inj intro!: filter_cong)

lemma find_tvlv_next:
  "find_tvlv tail ty = map_option fst (tvlv_values_next tail (tvlv_as_u8 ty))"
  by (induction tail rule: tvlv_induct) (simp_all add: tvlv_step)

lemma tvlv_hdr_read_tail: "tvlv_hdr_read tail = Some (h, rest) \<Longrightarrow> \<exists>pre. tail = pre @ rest"
  using tvlv_codec.write_read by blast

lemma tvlv_values_next_slice:
  "tvlv_values_next tail b = Some (v, rest) \<Longrightarrow> \<exists>pre. tail = pre @ v @ rest"
proof (induction tail rule: tvlv_induct)
  case (step tail h rst)
  obtain pre where pre: "tail = pre @ rst"
    using tvlv_hdr_read_tail [OF step.hyps(1)] by blast
  show ?case
  proof (cases "th_type h = b")
    case True
    with step pre show ?thesis by (auto simp: tvlv_step)
  next
    case False
    with step obtain pre' where "drop (unat (th_len h)) rst = pre' @ v @ rest"
      by (auto simp: tvlv_step)
    then have "tail = (pre @ take (unat (th_len h)) rst @ pre') @ v @ rest"
      by (metis append.assoc append_take_drop_id pre)
    then show ?thesis by blast
  qed
qed (simp_all add: tvlv_step)

lemma iter_tvlv_slices: "list_all (\<lambda>v. \<exists>pre post. tail = pre @ v @ post) (iter_tvlv tail ty)"
proof (induction tail ty rule: iter_tvlv.induct)
  case (1 tail ty)
  show ?case
  proof (cases "tvlv_values_next tail (tvlv_as_u8 ty)")
    case None
    then show ?thesis by (simp add: iter_tvlv.simps [of tail ty])
  next
    case (Some p)
    obtain v rest where p: "p = (v, rest)" by fastforce
    then obtain pre where "tail = pre @ v @ rest"
      using tvlv_values_next_slice Some by blast
    moreover have "\<exists>pre post. tail = pre @ w @ post" if "\<exists>pre post. rest = pre @ w @ post" for w
      using that calculation by (metis append.assoc)
    moreover have "iter_tvlv tail ty = v # iter_tvlv rest ty"
      using Some p by (simp add: iter_tvlv.simps [of tail ty])
    ultimately show ?thesis
      using "1.IH" [OF Some p [symmetric]] unfolding list_all_iff by (metis set_ConsD)
  qed
qed

lemma stamp_exact:
  assumes "stamped_len tail = Some n" "n \<le> length out"
  shows "\<exists>out'. stamp_prev_sender tail out prev = (out', Some n)
    \<and> prev_sender (take n out') = Some prev
    \<and> (\<forall>ty. ty \<noteq> TvPrevSender \<longrightarrow> iter_tvlv (take n out') ty = iter_tvlv tail ty)
    \<and> iter_tvlv (take n out') TvPrevSender = [mac_bytes prev]
    \<and> drop n out' = drop n out"
proof -
  obtain out' where st: "stamp_prev_sender tail out prev = (out', Some n)"
    using stamp_prev_sender_fits [OF assms] by blast
  then obtain rs where rs: "tvlv_parse tail = Some rs" "take n out' = tvlv_print (restamp prev rs)"
      "drop n out' = drop n out"
    by (rule stamp_prev_sender_Some)
  note ok = restamp_ok [OF rs(1), of prev]
  note iter = iter_tvlv_parse [OF tvlv_parse_print [OF ok]] iter_tvlv_parse [OF rs(1)]
  have "filter (\<lambda>r. tr_type r = tvlv_as_u8 TvPrevSender) (restamp prev rs) = [prev_record prev]"
    by (simp add: restamp_def prev_record_def)
  then have "iter_tvlv (tvlv_print (restamp prev rs)) TvPrevSender = [mac_bytes prev]"
    by (simp only: iter) (simp add: prev_record_def)
  moreover have "iter_tvlv (tvlv_print (restamp prev rs)) ty = iter_tvlv tail ty" if "ty \<noteq> TvPrevSender" for ty
    using filter_restamp [OF that] by (simp only: iter)
  ultimately show ?thesis
    using st rs prev_sender_restamp [OF ok] by auto
qed

section \<open>Properties\<close>

text \<open>
  Stamping is exact. For every well-formed region and a buffer of at least
  \<open>stamped_len\<close> bytes, \<open>stamp_prev_sender\<close> succeeds and reports exactly that many bytes; the
  written region reads back with the relay as its previous sender, every other record type
  yields exactly the values it did before, and the buffer behind the region is untouched.
\<close>

theorem stamp_prev_sender_exact:
  assumes "stamped_len tail = Some n" "n \<le> length out"
  shows "\<exists>out'. stamp_prev_sender tail out prev = (out', Some n)
    \<and> prev_sender (take n out') = Some prev
    \<and> (\<forall>ty. ty \<noteq> TvPrevSender \<longrightarrow> iter_tvlv (take n out') ty = iter_tvlv tail ty)
    \<and> iter_tvlv (take n out') TvPrevSender = [mac_bytes prev]
    \<and> drop n out' = drop n out"
  using stamp_exact [OF assms] .

theorem stamp_prev_sender_exact_witness:
  "\<exists>out'. stamp_prev_sender [0x06, 1, 0, 1, 7, 0x84, 1, 0, 6, 1, 2, 3, 4, 5, 6] (replicate 20 0)
       (Mac 9 9 9 9 9 9) = (out', Some 15)
     \<and> prev_sender (take 15 out') = Some (Mac 9 9 9 9 9 9)"
proof -
  have "stamped_len [0x06, 1, 0, 1, 7, 0x84, 1, 0, 6, 1, 2, 3, 4, 5, 6] = Some 15"
    by code_simp
  from stamp_prev_sender_exact [OF this, of "replicate 20 0" "Mac 9 9 9 9 9 9"] show ?thesis by auto
qed

text \<open>
  The previous-sender record is per-hop state: re-stamping what an upstream relay stamped
  gives exactly the bytes of stamping the originator's own region, so an OGM does not grow with
  the number of hops it has been relayed.
\<close>

theorem restamp_does_not_grow:
  assumes "stamp_prev_sender tail out prev = (out1, Some n)"
    and "length out2 \<ge> n"
  shows "\<exists>out3. stamp_prev_sender (take n out1) out2 prev2 = (out3, Some n)
    \<and> take n out3 = take n (fst (stamp_prev_sender tail out2 prev2))"
proof -
  obtain rs where rs: "tvlv_parse tail = Some rs" "take n out1 = tvlv_print (restamp prev rs)"
      "n = length (tvlv_print (restamp prev rs))"
    using assms(1) by (rule stamp_prev_sender_Some)
  have twice: "restamp prev2 (restamp prev rs) = restamp prev2 rs"
    by (simp add: restamp_def prev_record_def)
  have len: "length (tvlv_print (restamp prev2 rs)) = n"
    by (simp add: rs(3) length_restamp)
  have parse: "tvlv_parse (take n out1) = Some (restamp prev rs)"
    unfolding rs(2) by (rule tvlv_parse_print [OF restamp_ok [OF rs(1)]])
  show ?thesis
    using stamp_prev_sender_parse [of "take n out1" out2 prev2] stamp_prev_sender_parse [of tail out2 prev2]
      assms(2) len
    by (simp add: rs(1) parse twice Let_def)
qed

theorem restamp_does_not_grow_witness:
  "\<exists>out1 out3. stamp_prev_sender [0x06, 1, 0, 1, 7] (replicate 20 0) (Mac 9 9 9 9 9 9) = (out1, Some 15)
     \<and> stamp_prev_sender (take 15 out1) (replicate 20 0) (Mac 8 8 8 8 8 8) = (out3, Some 15)"
proof -
  have len: "stamped_len [0x06, 1, 0, 1, 7] = Some 15"
    by code_simp
  obtain out1 where out1: "stamp_prev_sender [0x06, 1, 0, 1, 7] (replicate 20 0) (Mac 9 9 9 9 9 9) = (out1, Some 15)"
    using stamp_prev_sender_fits [OF len, of "replicate 20 0" "Mac 9 9 9 9 9 9"] by auto
  from restamp_does_not_grow [OF this, of "replicate 20 0" "Mac 8 8 8 8 8 8"] out1 show ?thesis
    by auto
qed

text \<open>
  Scanning never leaves the region, on any bytes: \<open>find_tvlv\<close> returns precisely the first
  element \<open>iter_tvlv\<close> would yield, on well-formed and malformed regions alike, and every value
  either yields is a contiguous slice of the region.
\<close>

theorem find_tvlv_first:
  "find_tvlv tail ty = (case iter_tvlv tail ty of [] \<Rightarrow> None | v # vs \<Rightarrow> Some v)
     \<and> list_all (\<lambda>v. \<exists>pre post. tail = pre @ v @ post) (iter_tvlv tail ty)"
  using find_tvlv_next [of tail ty] iter_tvlv_slices [of tail ty]
  by (simp add: iter_tvlv.simps [of tail ty] split: option.splits)

end
