(* ===== verification/Mcast_Wire.thy ===== *)
theory Mcast_Wire
  imports Wire
begin

text \<open>
  The multi-destination multicast packet of \<^verbatim>\<open>libs/batman/src/wire.rs\<close>: the form of its
  authentication trailer, the validated view \<^verbatim>\<open>McastPacketView::parse\<close> builds, and its writer
  \<^verbatim>\<open>write_mcast\<close>.
\<close>

section \<open>Lists of addresses\<close>

text \<open>
  A slice of \<^verbatim>\<open>Mac\<close> viewed over bytes: \<^verbatim>\<open><[Mac]>::ref_from_bytes\<close> succeeds exactly on a
  multiple of six bytes, and \<^verbatim>\<open>as_bytes\<close> on a slice of addresses is their concatenation.
\<close>

fun macs_of :: "bytes \<Rightarrow> mac list option" where
  "macs_of [] = Some []"
| "macs_of (a # b # c # d # e # f # rest) = map_option (Cons (Mac a b c d e f)) (macs_of rest)"
| "macs_of _ = None"

definition macs_bytes :: "mac list \<Rightarrow> bytes" where
  "macs_bytes ms = concat (map mac_bytes ms)"

lemma macs_bytes_simps [simp]:
  "macs_bytes [] = []" "macs_bytes (m # ms) = mac_bytes m @ macs_bytes ms"
  by (simp_all add: macs_bytes_def)

lemma length_macs_bytes [simp]: "length (macs_bytes ms) = 6 * length ms"
  by (induction ms) simp_all

lemma macs_of_bytes [simp, codec]: "macs_of (macs_bytes ms) = Some ms"
proof (induction ms)
  case (Cons m ms)
  then show ?case by (cases m) simp
qed simp

lemma macs_of_Some: "macs_of bs = Some ms \<Longrightarrow> bs = macs_bytes ms"
  by (induction bs arbitrary: ms rule: macs_of.induct) auto

lemma macs_of_total: "length bs = 6 * n \<Longrightarrow> \<exists>ms. macs_of bs = Some ms \<and> length ms = n"
proof (induction bs arbitrary: n rule: macs_of.induct)
  case (2 a b c d e f rest)
  then show ?case by (cases n) auto
qed (auto, presburger+)

section \<open>The packet\<close>

datatype mcast_auth_form = AuthTag | AuthSignature

fun auth_form_as_u8 :: "mcast_auth_form \<Rightarrow> u8" where
  "auth_form_as_u8 AuthTag = 1"
| "auth_form_as_u8 AuthSignature = 2"

definition auth_form_from_u8 :: "u8 \<Rightarrow> mcast_auth_form option" where
  "auth_form_from_u8 byte =
     (if byte = 1 then Some AuthTag else if byte = 2 then Some AuthSignature else None)"

lemma auth_form_roundtrip [simp]: "auth_form_from_u8 (auth_form_as_u8 f) = Some f"
  by (cases f) (simp_all add: auth_form_from_u8_def)

lemma auth_form_from_u8_Some: "auth_form_from_u8 b = Some f \<longleftrightarrow> b = auth_form_as_u8 f"
  by (cases f) (auto simp: auth_form_from_u8_def split: if_splits)

record mcast_packet_view =
  mv_header :: mcast_packet
  mv_form :: mcast_auth_form
  mv_dests :: "mac list"
  mv_inner :: bytes

definition mcast_parse :: "bytes \<Rightarrow> mcast_packet_view option" where
  "mcast_parse payload =
     do { (header, rest) \<leftarrow> mcast_hdr_read payload;
          form \<leftarrow> auth_form_from_u8 (mc_form header);
          let n = unat (mc_n_dests header);
          if n = 0 then None
          else do { let list_len = 6 * n;
                    if list_len > length rest then None
                    else do { dests \<leftarrow> macs_of (take list_len rest);
                              Some \<lparr>mv_header = header, mv_form = form, mv_dests = dests,
                                    mv_inner = drop list_len rest\<rparr> } } }"

definition write_mcast ::
    "u8 \<Rightarrow> mcast_auth_form \<Rightarrow> mac list \<Rightarrow> bytes \<Rightarrow> bytes \<Rightarrow> bytes \<times> nat option" where
  "write_mcast ttl form dests inner out =
     (if dests = [] \<or> length dests > 255 then (out, None)
      else let list_len = 6 * length dests;
               total = MCAST_HEADER_LEN + list_len + length inner
           in if total > length out then (out, None)
              else let header = \<lparr>mc_packet_type = packet_type_as_u8 Mcast, mc_version = BATMAN_VERSION,
                                 mc_ttl = ttl, mc_n_dests = word_of_nat (length dests),
                                 mc_form = auth_form_as_u8 form\<rparr>
                   in (mcast_hdr_write header @ macs_bytes dests @ inner @ drop total out, Some total))"

section \<open>What parses\<close>

lemma mcast_parse_Some:
  "mcast_parse payload = Some v \<longleftrightarrow>
     payload = mcast_hdr_write (mv_header v) @ macs_bytes (mv_dests v) @ mv_inner v
     \<and> mc_form (mv_header v) = auth_form_as_u8 (mv_form v)
     \<and> unat (mc_n_dests (mv_header v)) = length (mv_dests v)
     \<and> mv_dests v \<noteq> []"  (is "?L \<longleftrightarrow> ?R")
proof
  assume ?L
  then obtain h rest f ms where r: "mcast_hdr_read payload = Some (h, rest)"
      "auth_form_from_u8 (mc_form h) = Some f" "unat (mc_n_dests h) \<noteq> 0"
      "6 * unat (mc_n_dests h) \<le> length rest" "macs_of (take (6 * unat (mc_n_dests h)) rest) = Some ms"
      "v = \<lparr>mv_header = h, mv_form = f, mv_dests = ms, mv_inner = drop (6 * unat (mc_n_dests h)) rest\<rparr>"
    by (auto simp: mcast_parse_def Let_def split: bind_splits if_splits)
  then have "length ms = unat (mc_n_dests h)"
    using macs_of_total [of "take (6 * unat (mc_n_dests h)) rest" "unat (mc_n_dests h)"] by auto
  moreover have "rest = macs_bytes ms @ drop (6 * unat (mc_n_dests h)) rest"
    by (metis append_take_drop_id macs_of_Some r(5))
  ultimately show ?R
    using r mcast_codec.write_read [OF r(1)] by (auto simp: auth_form_from_u8_Some)
next
  assume R: ?R
  then show ?L
    by (simp add: mcast_parse_def mcast_codec.read_write Let_def)
qed

lemma mcast_parse_dests: "mcast_parse payload = Some v \<Longrightarrow> length (mv_dests v) \<in> {1..255}"
  using unsigned_less [of "mc_n_dests (mv_header v)", where 'a = nat]
  by (auto simp: mcast_parse_Some Suc_le_eq)

lemma write_mcast_Some:
  "write_mcast ttl form dests inner out = (out', Some n) \<longleftrightarrow>
     dests \<noteq> [] \<and> length dests \<le> 255 \<and> n = MCAST_HEADER_LEN + 6 * length dests + length inner
     \<and> n \<le> length out
     \<and> out' = mcast_hdr_write \<lparr>mc_packet_type = packet_type_as_u8 Mcast, mc_version = BATMAN_VERSION,
                                mc_ttl = ttl, mc_n_dests = word_of_nat (length dests),
                                mc_form = auth_form_as_u8 form\<rparr>
              @ macs_bytes dests @ inner @ drop n out"
  by (auto simp: write_mcast_def Let_def)

lemma write_mcast_None: "write_mcast ttl form dests inner out = (out', None) \<Longrightarrow> out' = out"
  by (auto simp: write_mcast_def Let_def split: if_splits)

lemma write_mcast_length: "length (fst (write_mcast ttl form dests inner out)) = length out"
  by (auto simp: write_mcast_def Let_def header_sizes)

section \<open>Properties\<close>

text \<open>
  Writing and parsing a multicast packet round-trip: whenever \<open>write_mcast\<close> succeeds, the
  bytes it wrote parse back to the same TTL, proof form, destination list and inner frame;
  and it succeeds exactly for one to 255 destinations and a buffer that holds the whole
  packet, so no destination is ever truncated away.
\<close>

theorem mcast_roundtrip:
  "(case write_mcast ttl form dests inner out of
      (out', None) \<Rightarrow> out' = out
        \<and> (dests = [] \<or> length dests > 255 \<or> length out < MCAST_HEADER_LEN + 6 * length dests + length inner)
    | (out', Some n) \<Rightarrow> length out' = length out \<and> drop n out' = drop n out \<and>
        mcast_parse (take n out') =
          Some \<lparr>mv_header = \<lparr>mc_packet_type = packet_type_as_u8 Mcast, mc_version = BATMAN_VERSION,
                               mc_ttl = ttl, mc_n_dests = word_of_nat (length dests),
                               mc_form = auth_form_as_u8 form\<rparr>,
                mv_form = form, mv_dests = dests, mv_inner = inner\<rparr>)"
proof (cases "write_mcast ttl form dests inner out")
  case (Pair out' res)
  show ?thesis
  proof (cases res)
    case None
    with Pair show ?thesis by (auto simp: write_mcast_def Let_def split: if_splits)
  next
    case (Some n)
    then have w: "write_mcast ttl form dests inner out = (out', Some n)" using Pair by simp
    moreover from w have "unat (word_of_nat (length dests) :: u8) = length dests"
      by (simp add: write_mcast_Some unat_of_nat)
    ultimately show ?thesis
      using w [unfolded write_mcast_Some]
      unfolding w prod.case option.case by (auto simp: mcast_parse_Some header_sizes)
  qed
qed

end
