(* ===== verification/Engine_State.thy ===== *)
theory Engine_State
  imports Heapless Millis Seqno Trickle Tvlv Mcast_Wire
begin

text \<open>
  The state of the routing engine (\<^verbatim>\<open>BatmanEngine\<close> in \<^verbatim>\<open>libs/batman/src/lib.rs\<close>): its
  records, its constants, the state a new engine starts in, and the well-formedness
  invariant \<open>engine_ok\<close>. The four const-generic capacities of the struct, and the removal
  order of the third-party index map, are the fields of a \<open>profile\<close>, the first argument of
  every operation that inserts into or removes from a table.
\<close>

section \<open>Constants and capacities\<close>

definition MAX_MCAST_DESTS :: nat where
  "MAX_MCAST_DESTS = 16"

definition MAX_MISSED_OGMS :: u32 where
  "MAX_MISSED_OGMS = 6"

definition MAX_MISSED_KEEPALIVES :: u32 where
  "MAX_MISSED_KEEPALIVES = 3"

definition MAX_MISSED_PROOFS :: u32 where
  "MAX_MISSED_PROOFS = 3"

definition DEFAULT_OGM_INTERVAL :: duration where
  "DEFAULT_OGM_INTERVAL = 1000000000"

definition DEFAULT_KEEPALIVE_INTERVAL :: duration where
  "DEFAULT_KEEPALIVE_INTERVAL = 5000000000"

text \<open>A day in milliseconds: the age at which a stamp is dropped before it can wrap.\<close>

definition STAMP_AGE_CEILING_MS :: u32 where
  "STAMP_AGE_CEILING_MS = 24 * 60 * 60 * 1000"

text \<open>The capacity of \<^verbatim>\<open>OriginatorRecord::paths\<close>.\<close>

definition MAX_PATHS :: nat where
  "MAX_PATHS = 4"

record profile =
  max_originators :: nat
  max_interfaces :: nat
  max_mcast_members :: nat
  max_local_mcast :: nat
  swap_order :: swap_fn

text \<open>The defaults of the three trailing parameters.\<close>

definition MAX_INTERFACES :: nat where
  "MAX_INTERFACES = 8"

definition MAX_MCAST_MEMBERS :: nat where
  "MAX_MCAST_MEMBERS = 64"

definition MAX_LOCAL_MCAST :: nat where
  "MAX_LOCAL_MCAST = 16"

definition default_profile :: "nat \<Rightarrow> swap_fn \<Rightarrow> profile" where
  "default_profile n sw =
     \<lparr>max_originators = n, max_interfaces = MAX_INTERFACES, max_mcast_members = MAX_MCAST_MEMBERS,
      max_local_mcast = MAX_LOCAL_MCAST, swap_order = sw\<rparr>"

definition profile_ok :: "profile \<Rightarrow> bool" where
  "profile_ok P \<longleftrightarrow> 0 < max_originators P \<and> swap_remove_law (swap_order P)"

lemma default_profile_ok: "0 < n \<Longrightarrow> profile_ok (default_profile n documented_swap)"
  by (simp add: profile_ok_def default_profile_def documented_swap_law)

section \<open>Records\<close>

record keepalive_stats =
  ka_last_heard :: millis
  ka_interval_estimate_ms :: u32

record neighbor_stats =
  ns_neighbor_ident :: mac
  ns_last_tq :: u8
  ns_last_seqno :: u32
  ns_last_heard :: millis
  ns_interval_estimate_ms :: u32

record originator_record =
  or_last_heard :: millis
  or_neighbor_ident :: mac
  or_best_next_hop :: "mac option"
  or_max_tq :: u8
  or_last_seqno :: u32
  or_resync_watch :: "seqno_resync_watch option"
  or_paths :: "neighbor_stats list"

record ogm_schedule_entry =
  os_iface_idx :: nat
  os_current_interval :: duration
  os_min_interval :: duration
  os_max_interval :: duration

record batman_engine =
  self_ident :: mac
  sequence_number :: u32
  broadcast_sequence_number :: u32
  originator_table :: "(mac, originator_record) imap"
  broadcast_seqno :: "(mac, broadcast_seqno_entry) imap"
  local_mcast :: "mac list"
  mcast_members :: "(mac \<times> mac) list"
  ogm_timers :: "trickle_timer list"
  keepalive :: "(mac, keepalive_stats) imap"
  proven :: "(mac, millis \<times> nat) imap"
  challenged :: "(mac, millis \<times> u32) imap"
  seqno_resyncs :: u32
  ogm_refloods_suppressed :: u32
  ogm_echoes_dropped :: u32
  ogm_tails_malformed :: u32
  broadcast_dedup_evictions :: u32
  broadcast_seqno_refusals :: u32
  proofs_swept :: u32
  require_proof :: bool
  keepalive_timers :: "trickle_timer option list"
  topology_changed :: bool
  relay_oversize_drops :: u32
  mcast_oversize_lists :: u32
  mcast_unroutable_dests :: u32
  mcast_emit_overflows :: u32

definition engine_new :: "mac \<Rightarrow> batman_engine" where
  "engine_new ident =
     \<lparr>self_ident = ident, sequence_number = 0, broadcast_sequence_number = 0,
      originator_table = [], broadcast_seqno = [], local_mcast = [], mcast_members = [],
      ogm_timers = [], keepalive = [], proven = [], challenged = [], seqno_resyncs = 0,
      ogm_refloods_suppressed = 0, ogm_echoes_dropped = 0, ogm_tails_malformed = 0,
      broadcast_dedup_evictions = 0, broadcast_seqno_refusals = 0, proofs_swept = 0,
      require_proof = False, keepalive_timers = [], topology_changed = False,
      relay_oversize_drops = 0, mcast_oversize_lists = 0, mcast_unroutable_dests = 0,
      mcast_emit_overflows = 0\<rparr>"

definition next_broadcast_seqno :: "batman_engine \<Rightarrow> u32 \<times> batman_engine" where
  "next_broadcast_seqno e =
     (let e = e\<lparr>broadcast_sequence_number := broadcast_sequence_number e + 1\<rparr>
      in (broadcast_sequence_number e, e))"

section \<open>Well-formedness\<close>

text \<open>
  The paths of a record are at most four, one per neighbour, and the record is stored under
  the address it describes. Every table is within its capacity and has distinct keys, and
  every running timer satisfies the Trickle invariant.
\<close>

definition record_paths_ok :: "originator_record \<Rightarrow> bool" where
  "record_paths_ok r \<longleftrightarrow> length (or_paths r) \<le> MAX_PATHS \<and> distinct (map ns_neighbor_ident (or_paths r))"

definition table_ok :: "(mac, originator_record) imap \<Rightarrow> bool" where
  "table_ok t \<longleftrightarrow> list_all (\<lambda>(k, r). or_neighbor_ident r = k \<and> record_paths_ok r) t"

definition engine_ok :: "profile \<Rightarrow> batman_engine \<Rightarrow> bool" where
  "engine_ok P e \<longleftrightarrow>
     im_ok (max_originators P) (originator_table e) \<and> table_ok (originator_table e)
     \<and> im_ok (max_originators P) (broadcast_seqno e)
     \<and> im_ok (max_originators P) (keepalive e)
     \<and> im_ok (max_originators P) (proven e)
     \<and> im_ok (max_originators P) (challenged e)
     \<and> length (local_mcast e) \<le> max_local_mcast P
     \<and> length (mcast_members e) \<le> max_mcast_members P
     \<and> length (ogm_timers e) \<le> max_interfaces P \<and> list_all trickle_ok (ogm_timers e)
     \<and> length (keepalive_timers e) \<le> max_interfaces P
     \<and> list_all (pred_option trickle_ok) (keepalive_timers e)"

lemma engine_new_ok [simp, intro]: "engine_ok P (engine_new ident)"
  by (simp add: engine_ok_def engine_new_def table_ok_def)

lemma table_ok_get:
  "table_ok t \<Longrightarrow> im_get t k = Some r \<Longrightarrow> or_neighbor_ident r = k \<and> record_paths_ok r"
  by (auto simp: table_ok_def list_all_iff dest!: im_get_in)

lemma table_ok_set: "table_ok t \<Longrightarrow> or_neighbor_ident r = k \<Longrightarrow> record_paths_ok r \<Longrightarrow> table_ok (im_set k r t)"
  by (auto simp: table_ok_def list_all_iff dest!: im_set_in)

lemma table_ok_retain: "table_ok t \<Longrightarrow> table_ok (im_retain Q t)"
  by (auto simp: table_ok_def list_all_iff im_retain_def)

lemma table_ok_map_values:
  "table_ok t \<Longrightarrow> (\<And>r. record_paths_ok r \<Longrightarrow> or_neighbor_ident (f r) = or_neighbor_ident r \<and> record_paths_ok (f r))
     \<Longrightarrow> table_ok (im_map_values f t)"
  by (fastforce simp: table_ok_def list_all_iff im_map_values_def)

lemma engine_tables_map: "profile_ok P \<Longrightarrow> heapless_map (swap_order P) (max_originators P)"
  by unfold_locales (auto simp: profile_ok_def)

section \<open>Insertion with eviction\<close>

text \<open>
  The eviction step the engine's four bounded tables share: on a full table the entry with
  the largest age is removed (the last such entry in iteration order, as \<^verbatim>\<open>max_by_key\<close>
  picks it) and the insertion retried.
\<close>

definition insert_evicting ::
    "swap_fn \<Rightarrow> nat \<Rightarrow> ('v \<Rightarrow> u32) \<Rightarrow> mac \<Rightarrow> 'v \<Rightarrow> (mac, 'v) imap \<Rightarrow> (mac, 'v) imap" where
  "insert_evicting sw cap age k v m =
     (case im_insert cap k v m of
        Some m' \<Rightarrow> m'
      | None \<Rightarrow>
          (case max_by_key (\<lambda>(k, v). age v) m of
             None \<Rightarrow> m
           | Some (old, _) \<Rightarrow>
               (let m = im_remove sw old m in
                case im_insert cap k v m of Some m' \<Rightarrow> m' | None \<Rightarrow> m)))"

context heapless_map
begin

lemma evicting_room:
  assumes "im_ok cap m" "length m < cap \<or> im_contains m k"
  shows "im_ok cap (insert_evicting sw cap age k v m)"
    and "im_get (insert_evicting sw cap age k v m) = (im_get m)(k \<mapsto> v)"
  using imap.insert_with_room [OF assms(1), of k v] assms(2)
  by (auto simp: insert_evicting_def im_contains_def)

lemma evicting_full:
  assumes ok: "im_ok cap m" and full: "\<not> (length m < cap \<or> im_contains m k)"
  obtains old w where "im_get m old = Some w" "\<And>i u. im_get m i = Some u \<Longrightarrow> age u \<le> age w"
    "im_ok cap (insert_evicting sw cap age k v m)"
    "im_get (insert_evicting sw cap age k v m) = ((im_get m)(old := None))(k \<mapsto> v)"
proof -
  have none: "im_insert cap k v m = None"
    using full by (simp add: im_insert_def)
  have "m \<noteq> []"
    using full capacity_pos by auto
  then obtain old w where pick: "max_by_key (\<lambda>(k, v). age v) m = Some (old, w)"
    using max_by_key_Some [of m "\<lambda>(k, v). age v"] by auto
  have d: "distinct (im_keys m)"
    using ok by (simp add: im_ok_def)
  have old: "im_get m old = Some w"
    using max_by_key_in [OF pick] by (simp add: im_get_iff [OF d])
  moreover have "age u \<le> age w" if "im_get m i = Some u" for i u
    using max_by_key_ge [OF pick im_get_in [OF that]] by simp
  moreover obtain m' where "im_insert cap k v (im_remove sw old m) = Some m'" "im_ok cap m'"
      "im_get m' = ((im_get m)(old := None))(k \<mapsto> v)"
    using imap.insert_after_evict [OF ok, of old k v] old by auto
  ultimately show thesis
    using that none pick by (simp add: insert_evicting_def)
qed

lemma evicting_ok: "im_ok cap m \<Longrightarrow> im_ok cap (insert_evicting sw cap age k v m)"
  using evicting_room(1) evicting_full by metis

lemma evicting_get: "im_ok cap m \<Longrightarrow> im_get (insert_evicting sw cap age k v m) k = Some v"
  using evicting_room(2) evicting_full by (metis fun_upd_same)

text \<open>Another key either keeps its entry or was the oldest of a full table.\<close>

lemma evicting_other:
  assumes "im_ok cap m" "j \<noteq> k"
  shows "im_get (insert_evicting sw cap age k v m) j = im_get m j
    \<or> im_get (insert_evicting sw cap age k v m) j = None \<and> cap \<le> length m
      \<and> (\<exists>w. im_get m j = Some w \<and> (\<forall>i u. im_get m i = Some u \<longrightarrow> age u \<le> age w))"
proof (cases "length m < cap \<or> im_contains m k")
  case True
  then show ?thesis using evicting_room(2) [OF assms(1) True] assms(2) by simp
next
  case False
  obtain old w where "im_get m old = Some w" "\<And>i u. im_get m i = Some u \<Longrightarrow> age u \<le> age w"
    "im_get (insert_evicting sw cap age k v m) = ((im_get m)(old := None))(k \<mapsto> v)"
    using evicting_full [OF assms(1) False, of age v] by metis
  then show ?thesis using assms(2) False by auto
qed

lemma evicting_in:
  assumes "im_ok cap m" "(j, u) \<in> set (insert_evicting sw cap age k v m)"
  shows "(j, u) = (k, v) \<or> (j, u) \<in> set m"
proof -
  have "im_get (insert_evicting sw cap age k v m) j = Some u"
    using assms evicting_ok [OF assms(1), of age k v] by (simp add: im_get_iff im_ok_def)
  then show ?thesis
    using evicting_get [OF assms(1)] evicting_other [OF assms(1), of j k age v]
    by (metis im_get_in option.distinct(1) option.inject)
qed

lemma remove_ok: "im_ok cap m \<Longrightarrow> im_ok cap (im_remove sw k m)"
  by (rule imap.remove_invar)

end

lemmas insert_evicting_ok = heapless_map.evicting_ok [OF engine_tables_map]
lemmas insert_evicting_get = heapless_map.evicting_get [OF engine_tables_map]
lemmas insert_evicting_room = heapless_map.evicting_room [OF engine_tables_map]
lemmas insert_evicting_other = heapless_map.evicting_other [OF engine_tables_map]
lemmas insert_evicting_in = heapless_map.evicting_in [OF engine_tables_map]
lemmas im_remove_ok = heapless_map.remove_ok [OF engine_tables_map]

end
