(* ===== verification/Routing.thy ===== *)
theory Routing
  imports Engine_State
begin

text \<open>
  Ageing and next-hop selection of \<^verbatim>\<open>libs/batman/src/engine.rs\<close>: when a path, a keep-alive or
  a proof is stale, the hot-path \<open>next_hop\<close> query, the cached best hop, and the periodic
  \<open>purge_stale\<close> sweep.

  The locale \<open>path_selection\<close> is the contract of "filter the usable paths and take the best":
  the hot-path query, its ungated variant and the cached recomputation all instantiate it.
\<close>

section \<open>Ageing\<close>

definition as_millis_u32 :: "duration \<Rightarrow> u32" where
  "as_millis_u32 d = word_of_nat (min (d div 1000000) (2 ^ 32 - 1))"

definition is_stale :: "millis \<Rightarrow> millis \<Rightarrow> u32 \<Rightarrow> u32 \<Rightarrow> u32 \<Rightarrow> bool" where
  "is_stale now last_heard interval_estimate_ms seed_ms max_missed =
     (let expected_ms = (if interval_estimate_ms = 0 then seed_ms else interval_estimate_ms);
          budget_ms = saturating_mul expected_ms max_missed
      in elapsed_since now last_heard > budget_ms)"

definition path_stale :: "millis \<Rightarrow> neighbor_stats \<Rightarrow> u32 \<Rightarrow> bool" where
  "path_stale now path seed_ms =
     is_stale now (ns_last_heard path) (ns_interval_estimate_ms path) seed_ms MAX_MISSED_OGMS"

definition seed_interval_ms :: "batman_engine \<Rightarrow> u32" where
  "seed_interval_ms e =
     as_millis_u32 (case iter_max (map tt_i_max (ogm_timers e)) of
                      Some d \<Rightarrow> d | None \<Rightarrow> DEFAULT_OGM_INTERVAL)"

definition keepalive_seed_interval_ms :: "batman_engine \<Rightarrow> u32" where
  "keepalive_seed_interval_ms e =
     as_millis_u32 (case iter_max (map tt_i_max (List.map_filter id (keepalive_timers e))) of
                      Some d \<Rightarrow> d | None \<Rightarrow> DEFAULT_KEEPALIVE_INTERVAL)"

definition keepalive_missed :: "batman_engine \<Rightarrow> duration \<Rightarrow> mac \<Rightarrow> bool" where
  "keepalive_missed e now neighbor =
     (case im_get (keepalive e) neighbor of
        None \<Rightarrow> False
      | Some stats \<Rightarrow> is_stale (from_duration now) (ka_last_heard stats) (ka_interval_estimate_ms stats)
                      (keepalive_seed_interval_ms e) MAX_MISSED_KEEPALIVES)"

definition effective_tq :: "batman_engine \<Rightarrow> duration \<Rightarrow> neighbor_stats \<Rightarrow> u8" where
  "effective_tq e now path =
     (if keepalive_missed e now (ns_neighbor_ident path) then 0 else ns_last_tq path)"

definition blend_interval_ms :: "u32 \<Rightarrow> u32 \<Rightarrow> u32" where
  "blend_interval_ms old_ms gap_ms =
     (if old_ms = 0 then gap_ms
      else let decayed_ms = ucast ((ucast old_ms :: u64) * 7 div 8) in max decayed_ms gap_ms)"

section \<open>The proof gate\<close>

definition proof_current :: "batman_engine \<Rightarrow> duration \<Rightarrow> mac \<Rightarrow> bool" where
  "proof_current e now neighbor =
     (if \<not> require_proof e then True
      else let seed_ms = seed_interval_ms e in
        (case im_get (proven e) neighbor of
           None \<Rightarrow> False
         | Some (stamp, _) \<Rightarrow> \<not> is_stale (from_duration now) stamp 0 seed_ms MAX_MISSED_PROOFS))"

definition proven_interface :: "batman_engine \<Rightarrow> duration \<Rightarrow> mac \<Rightarrow> nat option" where
  "proven_interface e now neighbor =
     (if \<not> require_proof e then None
      else let seed_ms = seed_interval_ms e in
        (case im_get (proven e) neighbor of
           None \<Rightarrow> None
         | Some (stamp, iface) \<Rightarrow>
             (if \<not> is_stale (from_duration now) stamp 0 seed_ms MAX_MISSED_PROOFS
              then Some iface else None)))"

definition set_require_proof :: "bool \<Rightarrow> batman_engine \<Rightarrow> batman_engine" where
  "set_require_proof require e = e\<lparr>require_proof := require\<rparr>"

section \<open>Next-hop selection\<close>

definition next_hop :: "batman_engine \<Rightarrow> duration \<Rightarrow> mac \<Rightarrow> mac option" where
  "next_hop e now destination =
     (let seed_ms = seed_interval_ms e in
      case im_get (originator_table e) destination of
        None \<Rightarrow> None
      | Some record \<Rightarrow>
          map_option ns_neighbor_ident
            (max_by_key (effective_tq e now)
              (filter (\<lambda>p. proof_current e now (ns_neighbor_ident p))
                (filter (\<lambda>p. \<not> path_stale (from_duration now) p seed_ms) (or_paths record)))))"

definition next_hop_unproven_ok :: "batman_engine \<Rightarrow> duration \<Rightarrow> mac \<Rightarrow> mac option" where
  "next_hop_unproven_ok e now destination =
     (let seed_ms = seed_interval_ms e in
      case im_get (originator_table e) destination of
        None \<Rightarrow> None
      | Some record \<Rightarrow>
          map_option ns_neighbor_ident
            (max_by_key (effective_tq e now)
              (filter (\<lambda>p. \<not> path_stale (from_duration now) p seed_ms) (or_paths record))))"

section \<open>The cached best hop\<close>

text \<open>The scan of \<^verbatim>\<open>recompute_best\<close>: a later path wins a tie.\<close>

fun recompute_best_loop ::
    "(mac \<Rightarrow> bool) \<Rightarrow> neighbor_stats list \<Rightarrow> neighbor_stats option \<Rightarrow> neighbor_stats option" where
  "recompute_best_loop selectable [] best = best"
| "recompute_best_loop selectable (p # ps) best =
     (if \<not> selectable (ns_neighbor_ident p) then recompute_best_loop selectable ps best
      else if (case best of None \<Rightarrow> True | Some b \<Rightarrow> ns_last_tq b \<le> ns_last_tq p)
      then recompute_best_loop selectable ps (Some p)
      else recompute_best_loop selectable ps best)"

definition recompute_best :: "(mac \<Rightarrow> bool) \<Rightarrow> originator_record \<Rightarrow> originator_record" where
  "recompute_best selectable record =
     (case recompute_best_loop selectable (or_paths record) None of
        Some b \<Rightarrow> record\<lparr>or_max_tq := ns_last_tq b, or_best_next_hop := Some (ns_neighbor_ident b)\<rparr>
      | None \<Rightarrow> record\<lparr>or_max_tq := 0, or_best_next_hop := None\<rparr>)"

definition recompute_all_best :: "duration \<Rightarrow> batman_engine \<Rightarrow> batman_engine" where
  "recompute_all_best now e =
     (let seed_ms = seed_interval_ms e;
          selectable = map fst (filter (\<lambda>(m, stamp, _).
            \<not> is_stale (from_duration now) stamp 0 seed_ms MAX_MISSED_PROOFS) (proven e));
          is_selectable = (\<lambda>m. \<not> require_proof e \<or> m \<in> set selectable)
      in e\<lparr>originator_table := im_map_values (recompute_best is_selectable) (originator_table e)\<rparr>)"

section \<open>The periodic sweep\<close>

definition prune_paths :: "millis \<Rightarrow> u32 \<Rightarrow> originator_record \<Rightarrow> originator_record" where
  "prune_paths now seed_ms record =
     record\<lparr>or_paths := filter (\<lambda>p. \<not> path_stale now p seed_ms) (or_paths record)\<rparr>"

definition purge_stale :: "duration \<Rightarrow> batman_engine \<Rightarrow> batman_engine" where
  "purge_stale now e =
     (let seed_ms = seed_interval_ms e;
          before = length (originator_table e);
          now_ms = from_duration now;
          pruned_path = list_ex (\<lambda>(_, r). length (or_paths (prune_paths now_ms seed_ms r)) \<noteq> length (or_paths r))
                          (originator_table e);
          e = e\<lparr>originator_table := im_map_values (prune_paths now_ms seed_ms) (originator_table e)\<rparr>;
          e = recompute_all_best now e;
          e = e\<lparr>originator_table := im_retain (\<lambda>_ r. or_paths r \<noteq> []) (originator_table e)\<rparr>;
          e = (if length (originator_table e) \<noteq> before \<or> pruned_path
               then e\<lparr>topology_changed := True\<rparr> else e);
          recent = (\<lambda>stamp. elapsed_since now_ms stamp < STAMP_AGE_CEILING_MS);
          e = e\<lparr>proven := im_retain (\<lambda>_ (stamp, _). recent stamp) (proven e)\<rparr>;
          e = e\<lparr>challenged := im_retain (\<lambda>_ (stamp, _). recent stamp) (challenged e)\<rparr>
      in e\<lparr>keepalive := im_retain (\<lambda>_ s. recent (ka_last_heard s)) (keepalive e)\<rparr>)"

section \<open>The contract of a selection\<close>

locale path_selection =
  fixes usable :: "'p \<Rightarrow> bool"
    and rank :: "'p \<Rightarrow> 'k::linorder"
    and sel :: "'p list \<Rightarrow> 'p option"
  assumes sel_usable: "sel ps = Some p \<Longrightarrow> p \<in> set ps \<and> usable p"
    and sel_best: "sel ps = Some p \<Longrightarrow> q \<in> set ps \<Longrightarrow> usable q \<Longrightarrow> rank q \<le> rank p"
    and sel_total: "q \<in> set ps \<Longrightarrow> usable q \<Longrightarrow> sel ps \<noteq> None"
begin

lemma sel_None_iff: "sel ps = None \<longleftrightarrow> (\<forall>q \<in> set ps. \<not> usable q)"
  using sel_total sel_usable by (metis not_Some_eq)

text \<open>A path ranked below some usable one is never selected.\<close>

lemma sel_not_outranked:
  "sel ps = Some p \<Longrightarrow> q \<in> set ps \<Longrightarrow> usable q \<Longrightarrow> \<not> rank p < rank q"
  using sel_best by (meson leD)

end

lemma max_by_key_selects:
  "path_selection usable rank (\<lambda>ps. max_by_key rank (filter usable ps))"
proof
  fix ps p q
  assume s: "max_by_key rank (filter usable ps) = Some p"
  show "p \<in> set ps \<and> usable p"
    using max_by_key_in [OF s] by simp
  assume "q \<in> set ps" "usable q"
  then show "rank q \<le> rank p"
    using max_by_key_ge [OF s] by simp
qed (auto simp: filter_empty_conv)

text \<open>The hand-written scan is \<^verbatim>\<open>max_by_key\<close> over the selectable paths.\<close>

lemma recompute_best_loop_fold:
  "recompute_best_loop selectable ps best =
     (case max_by_key ns_last_tq (filter (\<lambda>p. selectable (ns_neighbor_ident p)) ps) of
        None \<Rightarrow> best
      | Some p \<Rightarrow> (case best of None \<Rightarrow> Some p
                  | Some b \<Rightarrow> if ns_last_tq b \<le> ns_last_tq p then Some p else Some b))"
  by (induction selectable ps best rule: recompute_best_loop.induct) (auto split: option.splits)

lemma recompute_best_loop_eq:
  "recompute_best_loop selectable ps None =
     max_by_key ns_last_tq (filter (\<lambda>p. selectable (ns_neighbor_ident p)) ps)"
  by (simp add: recompute_best_loop_fold split: option.splits)

interpretation hop_query: path_selection
  "\<lambda>p. \<not> path_stale (from_duration now) p (seed_interval_ms e) \<and> proof_current e now (ns_neighbor_ident p)"
  "effective_tq e now"
  "\<lambda>ps. max_by_key (effective_tq e now)
     (filter (\<lambda>p. \<not> path_stale (from_duration now) p (seed_interval_ms e)
                  \<and> proof_current e now (ns_neighbor_ident p)) ps)"
  for e now
  by (rule max_by_key_selects)

interpretation ungated_query: path_selection
  "\<lambda>p. \<not> path_stale (from_duration now) p (seed_interval_ms e)"
  "effective_tq e now"
  "\<lambda>ps. max_by_key (effective_tq e now) (filter (\<lambda>p. \<not> path_stale (from_duration now) p (seed_interval_ms e)) ps)"
  for e now
  by (rule max_by_key_selects)

interpretation cached_best: path_selection
  "\<lambda>p. selectable (ns_neighbor_ident p)" ns_last_tq "\<lambda>ps. recompute_best_loop selectable ps None"
  for selectable
  unfolding recompute_best_loop_eq by (rule max_by_key_selects)

section \<open>Ageing arithmetic\<close>

lemma is_stale_iff:
  "is_stale now heard est seed missed \<longleftrightarrow>
     min (unat (if est = 0 then seed else est) * unat missed) (2 ^ 32 - 1) < unat (elapsed_since now heard)"
  by (simp add: is_stale_def Let_def word_less_nat_alt unat_saturating_mul)

lemma not_stale_at_stamp [simp]: "\<not> is_stale now now est seed missed"
  by (simp add: is_stale_iff)

lemma unat_blend_interval_ms:
  "unat (blend_interval_ms old gap) = (if old = 0 then unat gap else max (unat old * 7 div 8) (unat gap))"
proof -
  have old: "unat old < 2 ^ 32"
    using unsigned_less [of old, where 'a = nat] by simp
  have "unat (ucast old * 7 :: u64) = unat old * 7"
    using old by (simp add: unat_word_ariths unsigned_ucast_eq take_bit_nat_eq_self)
  then have "unat (ucast ((ucast old * 7 :: u64) div 8) :: u32) = unat old * 7 div 8"
    using old by (simp add: unat_div unsigned_ucast_eq take_bit_nat_eq_self)
  then show ?thesis
    by (simp add: blend_interval_ms_def Let_def max_def word_le_nat_alt)
qed

section \<open>What the sweep leaves\<close>

lemma proof_current_cong:
  assumes "ogm_timers e' = ogm_timers e" "require_proof e' = require_proof e"
    and "im_get (proven e') m = im_get (proven e) m"
  shows "proof_current e' now m = proof_current e now m"
  using assms by (simp add: proof_current_def seed_interval_ms_def)

definition live_proof :: "batman_engine \<Rightarrow> duration \<Rightarrow> mac \<Rightarrow> bool" where
  "live_proof e now m \<longleftrightarrow> \<not> require_proof e \<or> m \<in> set (map fst (filter (\<lambda>(m, stamp, _).
     \<not> is_stale (from_duration now) stamp 0 (seed_interval_ms e) MAX_MISSED_PROOFS) (proven e)))"

lemma live_proof_current:
  assumes d: "distinct (im_keys (proven e))"
  shows "live_proof e now m = proof_current e now m"
proof -
  have "m \<in> set (map fst (filter (\<lambda>(m, stamp, _).
        \<not> is_stale (from_duration now) stamp 0 (seed_interval_ms e) MAX_MISSED_PROOFS) (proven e))) \<longleftrightarrow>
      (\<exists>stamp i. im_get (proven e) m = Some (stamp, i)
        \<and> \<not> is_stale (from_duration now) stamp 0 (seed_interval_ms e) MAX_MISSED_PROOFS)"
    by (force simp: im_get_iff [OF d])
  then show ?thesis
    by (simp add: live_proof_def proof_current_def Let_def split: option.splits)
qed

lemma recompute_all_best_table:
  "recompute_all_best now e =
     e\<lparr>originator_table := im_map_values (recompute_best (live_proof e now)) (originator_table e)\<rparr>"
  by (simp add: recompute_all_best_def Let_def live_proof_def [abs_def])

lemma recompute_best_fields [simp]:
  "or_paths (recompute_best s r) = or_paths r"
  "or_neighbor_ident (recompute_best s r) = or_neighbor_ident r"
  "or_last_seqno (recompute_best s r) = or_last_seqno r"
  "or_last_heard (recompute_best s r) = or_last_heard r"
  "or_resync_watch (recompute_best s r) = or_resync_watch r"
  by (simp_all add: recompute_best_def split: option.splits)

lemma recompute_best_hop:
  "or_best_next_hop (recompute_best s r) =
     map_option ns_neighbor_ident (recompute_best_loop s (or_paths r) None)"
  by (simp add: recompute_best_def split: option.splits)

lemma prune_paths_fields [simp]:
  "or_paths (prune_paths now seed r) = filter (\<lambda>p. \<not> path_stale now p seed) (or_paths r)"
  "or_neighbor_ident (prune_paths now seed r) = or_neighbor_ident r"
  by (simp_all add: prune_paths_def)


lemma im_map_values_comp: "im_map_values f (im_map_values g m) = im_map_values (\<lambda>r. f (g r)) m"
  by (simp add: im_map_values_def split_beta comp_def)

lemma purge_stale_table:
  "originator_table (purge_stale now e) =
     im_retain (\<lambda>_ r. or_paths r \<noteq> [])
       (im_map_values (\<lambda>r. recompute_best (live_proof e now) (prune_paths (from_duration now) (seed_interval_ms e) r))
         (originator_table e))"
proof -
  have "live_proof (e\<lparr>originator_table := t\<rparr>) now = live_proof e now" for t
    by (simp add: live_proof_def fun_eq_iff seed_interval_ms_def)
  then show ?thesis
    by (simp add: purge_stale_def Let_def recompute_all_best_table im_map_values_comp)
qed

lemma purge_stale_stamps:
  "proven (purge_stale now e) =
     im_retain (\<lambda>_ (stamp, _). elapsed_since (from_duration now) stamp < STAMP_AGE_CEILING_MS) (proven e)"
  "challenged (purge_stale now e) =
     im_retain (\<lambda>_ (stamp, _). elapsed_since (from_duration now) stamp < STAMP_AGE_CEILING_MS) (challenged e)"
  "keepalive (purge_stale now e) =
     im_retain (\<lambda>_ s. elapsed_since (from_duration now) (ka_last_heard s) < STAMP_AGE_CEILING_MS) (keepalive e)"
  by (simp_all add: purge_stale_def Let_def recompute_all_best_table)

lemma purge_stale_frame [frame_simps]:
  "ogm_timers (purge_stale now e) = ogm_timers e"
  "keepalive_timers (purge_stale now e) = keepalive_timers e"
  "require_proof (purge_stale now e) = require_proof e"
  "self_ident (purge_stale now e) = self_ident e"
  "broadcast_seqno (purge_stale now e) = broadcast_seqno e"
  "local_mcast (purge_stale now e) = local_mcast e"
  "mcast_members (purge_stale now e) = mcast_members e"
  "sequence_number (purge_stale now e) = sequence_number e"
  by (simp_all add: purge_stale_def Let_def recompute_all_best_table)

lemma im_get_filter_map:
  "distinct (im_keys m) \<Longrightarrow>
     im_get (im_retain Q (im_map_values f m)) k =
       (case im_get m k of None \<Rightarrow> None | Some v \<Rightarrow> if Q k (f v) then Some (f v) else None)"
  by (subst im_get_retain) (auto simp: im_get_map_values split: option.splits)

lemma purge_stale_get:
  assumes "distinct (im_keys (originator_table e))"
  shows "im_get (originator_table (purge_stale now e)) k =
     (case im_get (originator_table e) k of
        None \<Rightarrow> None
      | Some r \<Rightarrow>
          (let r = recompute_best (live_proof e now) (prune_paths (from_duration now) (seed_interval_ms e) r)
           in if or_paths r \<noteq> [] then Some r else None))"
  unfolding purge_stale_table
  by (subst im_get_filter_map [OF assms]) (simp add: Let_def split: option.splits)

lemma record_paths_ok_prune:
  "record_paths_ok r \<Longrightarrow> record_paths_ok (recompute_best s (prune_paths now seed r))"
  by (auto simp: record_paths_ok_def distinct_map inj_on_def intro: order_trans [OF length_filter_le])

lemma recompute_all_best_ok: "engine_ok P e \<Longrightarrow> engine_ok P (recompute_all_best now e)"
  by (auto simp: engine_ok_def recompute_all_best_table record_paths_ok_def intro!: table_ok_map_values)

lemma purge_stale_ok: "engine_ok P e \<Longrightarrow> engine_ok P (purge_stale now e)"
  unfolding engine_ok_def purge_stale_frame purge_stale_stamps purge_stale_table
  by (auto intro!: im_retain_ok table_ok_retain table_ok_map_values record_paths_ok_prune)

text \<open>The stamps a sweep would drop: those older than the ceiling.\<close>

definition stamps_recent :: "batman_engine \<Rightarrow> duration \<Rightarrow> bool" where
  "stamps_recent e now \<longleftrightarrow>
     list_all (\<lambda>(_, stamp, _). elapsed_since (from_duration now) stamp < STAMP_AGE_CEILING_MS) (proven e)
     \<and> list_all (\<lambda>(_, s). elapsed_since (from_duration now) (ka_last_heard s) < STAMP_AGE_CEILING_MS) (keepalive e)"

lemma im_retain_all: "list_all (\<lambda>(k, v). Q k v) m \<Longrightarrow> im_retain Q m = m"
  by (auto simp: im_retain_def list_all_iff)

lemma purge_stale_recent:
  "stamps_recent e now \<Longrightarrow> proven (purge_stale now e) = proven e \<and> keepalive (purge_stale now e) = keepalive e"
  unfolding purge_stale_stamps stamps_recent_def
  by (auto intro!: im_retain_all simp: list_all_iff)

lemma purge_stale_reads:
  assumes "stamps_recent e now"
  shows "seed_interval_ms (purge_stale now e) = seed_interval_ms e"
    and "proof_current (purge_stale now e) t m = proof_current e t m"
    and "keepalive_missed (purge_stale now e) t m = keepalive_missed e t m"
    and "effective_tq (purge_stale now e) t p = effective_tq e t p"
proof -
  note r = purge_stale_recent [OF assms]
  show "seed_interval_ms (purge_stale now e) = seed_interval_ms e"
    by (simp add: seed_interval_ms_def frame_simps)
  show "proof_current (purge_stale now e) t m = proof_current e t m"
    by (rule proof_current_cong) (simp_all add: r frame_simps)
  have k: "keepalive_missed (purge_stale now e) t m = keepalive_missed e t m" for m
    by (simp add: keepalive_missed_def keepalive_seed_interval_ms_def r frame_simps split: option.splits)
  then show "keepalive_missed (purge_stale now e) t m = keepalive_missed e t m" .
  show "effective_tq (purge_stale now e) t p = effective_tq e t p"
    by (simp add: effective_tq_def k)
qed

lemma max_by_key_cong: "(\<And>x. x \<in> set xs \<Longrightarrow> f x = g x) \<Longrightarrow> max_by_key f xs = max_by_key g xs"
proof (induction xs)
  case (Cons x xs)
  then show ?case
    using max_by_key_in [of g xs] by (auto split: option.splits)
qed simp

lemma purge_stale_transparent_next:
  assumes "engine_ok P e" "stamps_recent e now"
  shows "next_hop (purge_stale now e) now d = next_hop e now d"
    and "next_hop_unproven_ok (purge_stale now e) now d = next_hop_unproven_ok e now d"
proof -
  have d: "distinct (im_keys (originator_table e))"
    using assms(1) by (simp add: engine_ok_def im_ok_def)
  have tq: "effective_tq (purge_stale now e) now = effective_tq e now"
    by (rule ext) (rule purge_stale_reads(4) [OF assms(2)])
  show "next_hop (purge_stale now e) now d = next_hop e now d"
    by (cases "im_get (originator_table e) d")
       (simp_all add: next_hop_def Let_def purge_stale_get [OF d] tq purge_stale_reads [OF assms(2)]
          filter_empty_conv)
  show "next_hop_unproven_ok (purge_stale now e) now d = next_hop_unproven_ok e now d"
    by (cases "im_get (originator_table e) d")
       (simp_all add: next_hop_unproven_ok_def Let_def purge_stale_get [OF d] tq purge_stale_reads [OF assms(2)])
qed

lemma list_ex_mono: "list_ex f xs \<Longrightarrow> (\<And>x. f x \<Longrightarrow> g x) \<Longrightarrow> list_ex g xs"
  by (auto simp: list_ex_iff)

lemma length_filter_list_ex: "list_ex f ps \<Longrightarrow> length (filter (\<lambda>p. \<not> f p) ps) \<noteq> length ps"
  using length_filter_less [of _ ps "\<lambda>p. \<not> f p"] by (fastforce simp: list_ex_iff)

section \<open>Properties\<close>

text \<open>
  C13. The forwarding decision. \<open>next_hop\<close> answers with a neighbour exactly when the destination
  is known and offers a path that is neither stale nor, where proof is required, unproven;
  and the neighbour it answers with relays such a path of the highest effective quality.
\<close>

theorem next_hop_best:
  "(case next_hop e now d of
      None \<Rightarrow> (\<forall>r. im_get (originator_table e) d = Some r \<longrightarrow>
        (\<forall>p \<in> set (or_paths r). path_stale (from_duration now) p (seed_interval_ms e)
           \<or> \<not> proof_current e now (ns_neighbor_ident p)))
    | Some n \<Rightarrow> \<exists>r p. im_get (originator_table e) d = Some r \<and> p \<in> set (or_paths r)
        \<and> ns_neighbor_ident p = n \<and> \<not> path_stale (from_duration now) p (seed_interval_ms e)
        \<and> proof_current e now n
        \<and> (\<forall>q \<in> set (or_paths r). \<not> path_stale (from_duration now) q (seed_interval_ms e) \<longrightarrow>
             proof_current e now (ns_neighbor_ident q) \<longrightarrow> effective_tq e now q \<le> effective_tq e now p))"
proof (cases "im_get (originator_table e) d")
  case None
  then show ?thesis by (simp add: next_hop_def)
next
  case (Some r)
  then have q: "next_hop e now d = map_option ns_neighbor_ident
      (max_by_key (effective_tq e now) (filter (\<lambda>p. \<not> path_stale (from_duration now) p (seed_interval_ms e)
          \<and> proof_current e now (ns_neighbor_ident p)) (or_paths r)))"
    by (simp add: next_hop_def conj_commute)
  show ?thesis
  proof (cases "next_hop e now d")
    case None
    with q have "max_by_key (effective_tq e now) (filter (\<lambda>p. \<not> path_stale (from_duration now) p (seed_interval_ms e)
          \<and> proof_current e now (ns_neighbor_ident p)) (or_paths r)) = None"
      by simp
    with None Some show ?thesis
      using hop_query.sel_None_iff [of e now "or_paths r"] by auto
  next
    case hop: (Some n)
    with q obtain p where p: "max_by_key (effective_tq e now)
        (filter (\<lambda>p. \<not> path_stale (from_duration now) p (seed_interval_ms e)
          \<and> proof_current e now (ns_neighbor_ident p)) (or_paths r)) = Some p" "ns_neighbor_ident p = n"
      unfolding q option.map_disc_iff map_option_eq_Some by blast
    from hop_query.sel_usable [OF p(1)] hop_query.sel_best [OF p(1)] p(2) Some hop show ?thesis
      by auto
  qed
qed

text \<open>
  Keep-alive deprioritisation. A neighbour that has missed its keep-alive budget is still
  chosen only when every other usable path has quality zero or is relayed by a neighbour that
  missed its budget too.
\<close>

theorem missed_keepalive_loses:
  assumes "next_hop e now d = Some n" "keepalive_missed e now n"
    and "im_get (originator_table e) d = Some r" "q \<in> set (or_paths r)"
    and "\<not> path_stale (from_duration now) q (seed_interval_ms e)"
    and "proof_current e now (ns_neighbor_ident q)"
  shows "keepalive_missed e now (ns_neighbor_ident q) \<or> ns_last_tq q = 0"
proof -
  obtain p where "max_by_key (effective_tq e now)
      (filter (\<lambda>p. \<not> path_stale (from_duration now) p (seed_interval_ms e)
        \<and> proof_current e now (ns_neighbor_ident p)) (or_paths r)) = Some p" "ns_neighbor_ident p = n"
    using assms(1,3) by (auto simp: next_hop_def conj_commute)
  from hop_query.sel_best [OF this(1) assms(4)] this(2) assms(2,5,6)
  show ?thesis by (auto simp: effective_tq_def split: if_splits)
qed

text \<open>
  After a sweep at \<open>now\<close> no record is without a path and no path is stale, every stamp left
  in the proof, challenge and keep-alive tables is younger than the one-day ceiling, and a
  record that lost a path (or was dropped) latches the topology change.
\<close>

theorem purge_stale_leaves_fresh:
  assumes "engine_ok P e"
  shows "list_all (\<lambda>(_, r). or_paths r \<noteq> []
      \<and> list_all (\<lambda>p. \<not> path_stale (from_duration now) p (seed_interval_ms e)) (or_paths r))
      (originator_table (purge_stale now e))
    \<and> list_all (\<lambda>(_, stamp, _). elapsed_since (from_duration now) stamp < STAMP_AGE_CEILING_MS)
      (proven (purge_stale now e))
    \<and> list_all (\<lambda>(_, stamp, _). elapsed_since (from_duration now) stamp < STAMP_AGE_CEILING_MS)
      (challenged (purge_stale now e))
    \<and> list_all (\<lambda>(_, s). elapsed_since (from_duration now) (ka_last_heard s) < STAMP_AGE_CEILING_MS)
      (keepalive (purge_stale now e))
    \<and> (list_ex (\<lambda>(_, r). list_ex (\<lambda>p. path_stale (from_duration now) p (seed_interval_ms e)) (or_paths r))
         (originator_table e) \<longrightarrow> topology_changed (purge_stale now e))
    \<and> engine_ok P (purge_stale now e)"
proof (intro conjI impI)
  show "topology_changed (purge_stale now e)"
    if "list_ex (\<lambda>(_, r). list_ex (\<lambda>p. path_stale (from_duration now) p (seed_interval_ms e)) (or_paths r))
         (originator_table e)"
  proof -
    have "list_ex (\<lambda>(_, r). length (filter (\<lambda>p. \<not> path_stale (from_duration now) p (seed_interval_ms e))
        (or_paths r)) \<noteq> length (or_paths r)) (originator_table e)"
      using that by (rule list_ex_mono) (simp add: split_beta length_filter_list_ex)
    then show ?thesis
      by (simp add: purge_stale_def Let_def recompute_all_best_table)
  qed
qed (use purge_stale_ok [OF assms] in \<open>auto simp: purge_stale_table purge_stale_stamps list_all_iff
        im_retain_def im_map_values_def\<close>)

text \<open>
  C35. A sweep is invisible to forwarding while the stamps are recent: as long as no proof or keep-alive stamp
  has reached the one-day ceiling, every next-hop query at the time of the sweep has the answer it had
  before. (Past the ceiling it does not: dropping a day-old keep-alive stamp makes a missed neighbour eligible again.)
\<close>

theorem purge_stale_transparent:
  assumes "engine_ok P e" "stamps_recent e now"
  shows "next_hop (purge_stale now e) now d = next_hop e now d
    \<and> next_hop_unproven_ok (purge_stale now e) now d = next_hop_unproven_ok e now d"
  using purge_stale_transparent_next [OF assms] by simp

text \<open>
  Cache and query agree. After a sweep, for every destination none of whose relays has
  missed its keep-alive budget, the cached \<open>best_next_hop\<close> is exactly what the hot-path query
  answers at that moment.
\<close>

theorem cached_hop_agrees:
  assumes "engine_ok P e" "stamps_recent e now"
    and "im_get (originator_table (purge_stale now e)) d = Some r"
    and "list_all (\<lambda>p. \<not> keepalive_missed e now (ns_neighbor_ident p)) (or_paths r)"
  shows "or_best_next_hop r = next_hop (purge_stale now e) now d"
proof -
  have d: "distinct (im_keys (originator_table e))" "distinct (im_keys (proven e))"
    using assms(1) by (simp_all add: engine_ok_def im_ok_def)
  obtain r0 where r0: "im_get (originator_table e) d = Some r0"
      "r = recompute_best (live_proof e now) (prune_paths (from_duration now) (seed_interval_ms e) r0)"
    using assms(3) by (auto simp: purge_stale_get [OF d(1)] Let_def split: option.splits if_splits)
  define ps where "ps = filter (\<lambda>p. proof_current e now (ns_neighbor_ident p))
      (filter (\<lambda>p. \<not> path_stale (from_duration now) p (seed_interval_ms e)) (or_paths r0))"
  have "max_by_key (effective_tq e now) ps = max_by_key ns_last_tq ps"
  proof (rule max_by_key_cong)
    show "effective_tq e now p = ns_last_tq p" if "p \<in> set ps" for p
      using that assms(4) by (auto simp: ps_def r0 effective_tq_def list_all_iff)
  qed
  moreover have "next_hop e now d = map_option ns_neighbor_ident (max_by_key (effective_tq e now) ps)"
    by (simp add: next_hop_def r0 ps_def)
  moreover have "or_best_next_hop r = map_option ns_neighbor_ident (max_by_key ns_last_tq ps)"
    by (simp add: r0(2) recompute_best_hop recompute_best_loop_eq live_proof_current [OF d(2)] ps_def)
  ultimately show ?thesis
    using purge_stale_transparent_next [OF assms(1,2)] by simp
qed

text \<open>
  Peak-hold cadence. Folding a gap into a path's estimate never leaves it below that gap, nor
  above the larger of the gap and the old estimate; so a neighbour whose next announcement
  comes within six times the last observed gap (Trickle at most doubles it) is not aged out.
\<close>

theorem cadence_tolerates_backoff:
  assumes "gap \<noteq> 0"
    and "ns_last_heard p = heard" "ns_interval_estimate_ms p = blend_interval_ms old gap"
    and "unat (elapsed_since now heard) \<le> 6 * unat gap"
  shows "\<not> path_stale now p seed_ms
    \<and> gap \<le> blend_interval_ms old gap \<and> blend_interval_ms old gap \<le> max old gap"
proof -
  have b: "unat gap \<le> unat (blend_interval_ms old gap)" "unat (blend_interval_ms old gap) \<le> max (unat old) (unat gap)"
    by (auto simp: unat_blend_interval_ms)
  moreover have "0 < unat gap"
    using assms(1) by (simp add: unat_gt_0)
  ultimately have "blend_interval_ms old gap \<noteq> 0"
    by (metis less_le_trans less_irrefl unsigned_0)
  moreover have "unat (elapsed_since now heard) < 2 ^ 31"
    by (rule elapsed_since_bound)
  ultimately have "\<not> path_stale now p seed_ms"
    using assms(2-4) b(1) by (simp add: path_stale_def is_stale_iff MAX_MISSED_OGMS_def)
  with b show ?thesis
    by (simp add: word_le_nat_alt max_def split: if_splits)
qed

section \<open>Witnesses\<close>

text \<open>A destination reachable over two relays, both heard a keep-alive from.\<close>

definition sample_path :: "mac \<Rightarrow> u8 \<Rightarrow> neighbor_stats" where
  "sample_path n tq = \<lparr>ns_neighbor_ident = n, ns_last_tq = tq, ns_last_seqno = 1, ns_last_heard = 0,
                       ns_interval_estimate_ms = 1000\<rparr>"

definition sample_record :: originator_record where
  "sample_record =
     \<lparr>or_last_heard = 0, or_neighbor_ident = Mac 0 0 0 0 0 9, or_best_next_hop = None, or_max_tq = 0,
      or_last_seqno = 1, or_resync_watch = None,
      or_paths = [sample_path (Mac 0 0 0 0 0 2) 200, sample_path (Mac 0 0 0 0 0 3) 100]\<rparr>"

definition sample_engine :: batman_engine where
  "sample_engine = (engine_new (Mac 0 0 0 0 0 1))
     \<lparr>originator_table := [(Mac 0 0 0 0 0 9, sample_record)],
      keepalive := [(Mac 0 0 0 0 0 2, \<lparr>ka_last_heard = 0, ka_interval_estimate_ms = 1000\<rparr>),
                    (Mac 0 0 0 0 0 3, \<lparr>ka_last_heard = 0, ka_interval_estimate_ms = 1000\<rparr>)]\<rparr>"

abbreviation sample_profile :: profile where
  "sample_profile \<equiv> default_profile 4 documented_swap"

lemmas sample_defs = sample_engine_def sample_record_def sample_path_def engine_new_def

lemma sample_engine_ok: "engine_ok sample_profile sample_engine"
  by (simp add: engine_ok_def sample_defs im_ok_def im_keys_def table_ok_def record_paths_ok_def
      default_profile_def MAX_PATHS_def)

lemmas sample_eval = sample_defs next_hop_def path_stale_def is_stale_iff elapsed_since_unat proof_current_def
  keepalive_missed_def effective_tq_def from_duration_def seed_interval_ms_def keepalive_seed_interval_ms_def
  MAX_MISSED_OGMS_def MAX_MISSED_KEEPALIVES_def im_get_def iter_max_def map_filter_simps

theorem next_hop_best_witness:
  "next_hop sample_engine 2000000000 (Mac 0 0 0 0 0 9) = Some (Mac 0 0 0 0 0 2)
     \<and> effective_tq sample_engine 2000000000 (sample_path (Mac 0 0 0 0 0 3) 100)
         \<le> effective_tq sample_engine 2000000000 (sample_path (Mac 0 0 0 0 0 2) 200)"
proof -
  have hop: "next_hop sample_engine 2000000000 (Mac 0 0 0 0 0 9) = Some (Mac 0 0 0 0 0 2)"
    by (simp add: sample_eval)
  have rec: "im_get (originator_table sample_engine) (Mac 0 0 0 0 0 9) = Some sample_record"
    by (simp add: sample_engine_def im_get_def)
  obtain p where p: "p \<in> set (or_paths sample_record)" "ns_neighbor_ident p = Mac 0 0 0 0 0 2"
      "\<forall>q \<in> set (or_paths sample_record). \<not> path_stale (from_duration 2000000000) q (seed_interval_ms sample_engine) \<longrightarrow>
        proof_current sample_engine 2000000000 (ns_neighbor_ident q) \<longrightarrow>
        effective_tq sample_engine 2000000000 q \<le> effective_tq sample_engine 2000000000 p"
    using next_hop_best [where e = sample_engine and now = 2000000000 and d = "Mac 0 0 0 0 0 9"] by (auto simp: hop rec)
  then have "p = sample_path (Mac 0 0 0 0 0 2) 200"
    by (auto simp: sample_record_def sample_path_def)
  with p(3) hop show ?thesis
    by (simp add: sample_record_def) (simp add: sample_eval)
qed

theorem missed_keepalive_loses_witness:
  "next_hop sample_engine 4000000000 (Mac 0 0 0 0 0 9) = Some (Mac 0 0 0 0 0 3)
     \<and> keepalive_missed sample_engine 4000000000 (Mac 0 0 0 0 0 2)"
proof -
  have hop: "next_hop sample_engine 4000000000 (Mac 0 0 0 0 0 9) = Some (Mac 0 0 0 0 0 3)"
    by (simp add: sample_eval)
  have "keepalive_missed sample_engine 4000000000 (Mac 0 0 0 0 0 2)
      \<or> ns_last_tq (sample_path (Mac 0 0 0 0 0 2) 200) = 0"
    using missed_keepalive_loses [OF hop, of sample_record "sample_path (Mac 0 0 0 0 0 2) 200"]
    by (simp add: sample_eval)
  with hop show ?thesis by (simp add: sample_path_def)
qed

theorem purge_stale_leaves_fresh_witness:
  "list_all (\<lambda>(_, r). or_paths r \<noteq> []) (originator_table (purge_stale 7000000000 sample_engine))
     \<and> topology_changed (purge_stale 7000000000 sample_engine)"
  using purge_stale_leaves_fresh [OF sample_engine_ok, of 7000000000]
  by (simp add: list_all_iff sample_eval split_beta)

theorem purge_stale_transparent_witness:
  "next_hop (purge_stale 4000000000 sample_engine) 4000000000 (Mac 0 0 0 0 0 9) = Some (Mac 0 0 0 0 0 3)"
proof -
  have "stamps_recent sample_engine 4000000000"
    by (simp add: stamps_recent_def sample_eval word_less_nat_alt STAMP_AGE_CEILING_MS_def)
  from purge_stale_transparent [OF sample_engine_ok this, of "Mac 0 0 0 0 0 9"]
  show ?thesis by (simp add: sample_eval)
qed

theorem cached_hop_agrees_witness:
  "\<exists>r. im_get (originator_table (purge_stale 2000000000 sample_engine)) (Mac 0 0 0 0 0 9) = Some r
     \<and> or_best_next_hop r = next_hop (purge_stale 2000000000 sample_engine) 2000000000 (Mac 0 0 0 0 0 9)"
proof -
  have d: "distinct (im_keys (originator_table sample_engine))"
    using sample_engine_ok by (simp add: engine_ok_def im_ok_def)
  obtain r where r: "im_get (originator_table (purge_stale 2000000000 sample_engine)) (Mac 0 0 0 0 0 9) = Some r"
      "or_paths r = or_paths sample_record"
    by (simp add: purge_stale_get [OF d] Let_def) (simp add: sample_eval)
  have "stamps_recent sample_engine 2000000000"
    by (simp add: stamps_recent_def sample_eval word_less_nat_alt STAMP_AGE_CEILING_MS_def)
  from cached_hop_agrees [OF sample_engine_ok this r(1)] r show ?thesis
    by (auto simp: sample_eval)
qed

theorem cadence_tolerates_backoff_witness:
  "\<not> path_stale 8000 (sample_path (Mac 0 0 0 0 0 2) 9 \<lparr>ns_last_heard := 5000,
       ns_interval_estimate_ms := blend_interval_ms 2000 1000\<rparr>) 1000"
  using cadence_tolerates_backoff [of 1000 "sample_path (Mac 0 0 0 0 0 2) 9 \<lparr>ns_last_heard := 5000,
       ns_interval_estimate_ms := blend_interval_ms 2000 1000\<rparr>" 5000 2000 8000 1000]
  by (simp add: elapsed_since_unat)

end
