(* ===== verification/Proof_Gate.thy ===== *)
theory Proof_Gate
  imports Routing
begin

text \<open>
  Next-hop proofs (\<^verbatim>\<open>libs/batman/src/engine.rs\<close>): which neighbours to challenge and when, what an
  answered challenge changes, and the three ways proof state is withdrawn (\<open>retain_proven\<close>,
  \<open>revoke_originators\<close>, \<open>reset\<close>).

  The iterator \<^verbatim>\<open>challenge_candidates\<close> returns is modelled by the list it yields; its
  \<open>seen\<close> buffer is bounded by the originator capacity and a refused push is ignored, as in the
  source.
\<close>

section \<open>Challenges\<close>

definition proof_needs_refresh :: "batman_engine \<Rightarrow> duration \<Rightarrow> mac \<Rightarrow> bool" where
  "proof_needs_refresh e now neighbor =
     (let seed_ms = seed_interval_ms e in
      case im_get (proven e) neighbor of
        None \<Rightarrow> True
      | Some (stamp, _) \<Rightarrow> is_stale (from_duration now) stamp 0 seed_ms 1)"

definition challenge_floor_ms :: "batman_engine \<Rightarrow> u32" where
  "challenge_floor_ms e =
     min (as_millis_u32 (case iter_min (map tt_i_min (ogm_timers e)) of
                           Some d \<Rightarrow> d | None \<Rightarrow> DEFAULT_OGM_INTERVAL))
         (seed_interval_ms e)"

definition challenge_backoff_ms :: "batman_engine \<Rightarrow> u32 \<Rightarrow> u32" where
  "challenge_backoff_ms e misses =
     (let cap_ms = seed_interval_ms e;
          floor_ms = challenge_floor_ms e
      in min (case checked_shl 1 misses of
                None \<Rightarrow> cap_ms
              | Some factor \<Rightarrow> (case checked_mul floor_ms factor of None \<Rightarrow> cap_ms | Some w \<Rightarrow> w))
             cap_ms)"

text \<open>The neighbours offering a path, in table order, with repetitions.\<close>

definition offered_neighbors :: "batman_engine \<Rightarrow> mac list" where
  "offered_neighbors e = concat (map (\<lambda>(_, r). map ns_neighbor_ident (or_paths r)) (originator_table e))"

definition challenge_due :: "batman_engine \<Rightarrow> duration \<Rightarrow> mac \<Rightarrow> bool" where
  "challenge_due e now m \<longleftrightarrow>
     proof_needs_refresh e now m
     \<and> \<not> (case im_get (challenged e) m of
            None \<Rightarrow> False
          | Some (stamp, misses) \<Rightarrow> elapsed_since (from_duration now) stamp < challenge_backoff_ms e misses)"

fun challenge_candidates_loop ::
    "nat \<Rightarrow> batman_engine \<Rightarrow> duration \<Rightarrow> mac list \<Rightarrow> mac list \<Rightarrow> mac list" where
  "challenge_candidates_loop cap e now [] seen = []"
| "challenge_candidates_loop cap e now (m # ms) seen =
     (if \<not> require_proof e \<or> m \<in> set seen \<or> \<not> challenge_due e now m
      then challenge_candidates_loop cap e now ms seen
      else m # challenge_candidates_loop cap e now ms
                 (case vec_push cap m seen of Some seen' \<Rightarrow> seen' | None \<Rightarrow> seen))"

definition challenge_candidates :: "profile \<Rightarrow> batman_engine \<Rightarrow> duration \<Rightarrow> mac list" where
  "challenge_candidates P e now =
     challenge_candidates_loop (max_originators P) e now (offered_neighbors e) []"

definition note_challenged :: "profile \<Rightarrow> duration \<Rightarrow> mac \<Rightarrow> batman_engine \<Rightarrow> batman_engine" where
  "note_challenged P now neighbor e =
     (let now_ms = from_duration now;
          misses = (case im_get (challenged e) neighbor of None \<Rightarrow> 0 | Some (_, n) \<Rightarrow> saturating_add n 1)
      in e\<lparr>challenged := insert_evicting (swap_order P) (max_originators P)
             (\<lambda>(t, _). elapsed_since now_ms t) neighbor (now_ms, misses) (challenged e)\<rparr>)"

definition challenge_wait :: "batman_engine \<Rightarrow> millis \<Rightarrow> mac \<Rightarrow> duration" where
  "challenge_wait e now_ms neighbor =
     (let refresh_ms = (case im_get (proven e) neighbor of
            None \<Rightarrow> 0
          | Some (stamp, _) \<Rightarrow> saturating_sub (seed_interval_ms e) (elapsed_since now_ms stamp));
          retry_ms = (case im_get (challenged e) neighbor of
            None \<Rightarrow> 0
          | Some (stamp, misses) \<Rightarrow>
              saturating_sub (challenge_backoff_ms e misses) (elapsed_since now_ms stamp))
      in unat (max refresh_ms retry_ms) * 1000000)"

fun next_challenge_loop ::
    "nat \<Rightarrow> batman_engine \<Rightarrow> millis \<Rightarrow> mac list \<Rightarrow> mac list \<Rightarrow> duration option \<Rightarrow> duration option" where
  "next_challenge_loop cap e now_ms [] seen soonest = soonest"
| "next_challenge_loop cap e now_ms (m # ms) seen soonest =
     (if m \<in> set seen then next_challenge_loop cap e now_ms ms seen soonest
      else next_challenge_loop cap e now_ms ms
             (case vec_push cap m seen of Some seen' \<Rightarrow> seen' | None \<Rightarrow> seen)
             (Some (case soonest of None \<Rightarrow> challenge_wait e now_ms m
                                  | Some s \<Rightarrow> min s (challenge_wait e now_ms m))))"

definition next_challenge_after :: "profile \<Rightarrow> batman_engine \<Rightarrow> duration \<Rightarrow> duration option" where
  "next_challenge_after P e now =
     (if \<not> require_proof e then None
      else next_challenge_loop (max_originators P) e (from_duration now) (offered_neighbors e) [] None)"

section \<open>Granting and withdrawing proofs\<close>

definition note_proven :: "profile \<Rightarrow> duration \<Rightarrow> mac \<Rightarrow> nat \<Rightarrow> batman_engine \<Rightarrow> batman_engine" where
  "note_proven P now neighbor iface e =
     (let now_ms = from_duration now;
          e = e\<lparr>proven := insert_evicting (swap_order P) (max_originators P)
                 (\<lambda>(t, _). elapsed_since now_ms t) neighbor (now_ms, iface) (proven e)\<rparr>;
          e = e\<lparr>challenged := im_remove (swap_order P) neighbor (challenged e)\<rparr>
      in recompute_all_best now e)"

definition retain_proven :: "profile \<Rightarrow> duration \<Rightarrow> (mac \<Rightarrow> bool) \<Rightarrow> batman_engine \<Rightarrow> batman_engine" where
  "retain_proven P now usable e =
     (let doomed = filter (\<lambda>m. \<not> usable m) (im_keys (proven e)) in
      if doomed = [] then e
      else let e = e\<lparr>proofs_swept := saturating_add (proofs_swept e) (word_of_nat (length doomed))\<rparr>;
               e = e\<lparr>proven := fold (im_remove (swap_order P)) doomed (proven e)\<rparr>
           in recompute_all_best now e)"

definition revoke_originator :: "profile \<Rightarrow> mac \<Rightarrow> batman_engine \<Rightarrow> batman_engine" where
  "revoke_originator P revoked_mac e =
     (let t = im_retain (\<lambda>m _. revoked_mac \<noteq> m) (originator_table e);
          t = im_map_values (\<lambda>r. r\<lparr>or_paths := filter (\<lambda>p. revoked_mac \<noteq> ns_neighbor_ident p) (or_paths r)\<rparr>) t
      in e\<lparr>originator_table := t,
           proven := im_remove (swap_order P) revoked_mac (proven e),
           challenged := im_remove (swap_order P) revoked_mac (challenged e)\<rparr>)"

definition revoke_originators :: "profile \<Rightarrow> mac list \<Rightarrow> batman_engine \<Rightarrow> batman_engine" where
  "revoke_originators P revoked e = fold (revoke_originator P) revoked e"

definition engine_reset :: "batman_engine \<Rightarrow> batman_engine" where
  "engine_reset e =
     e\<lparr>originator_table := [], broadcast_seqno := [], mcast_members := [], proven := [], challenged := []\<rparr>"

section \<open>The challenge schedule\<close>

lemma saturating_sub_eq_0 [simp]: "saturating_sub x y = 0 \<longleftrightarrow> x \<le> y" for x y :: "'a::len word"
  by (metis diff_is_0_eq unat_eq_zero unat_saturating_sub word_le_nat_alt)

lemma is_stale_one: "is_stale now heard 0 seed 1 \<longleftrightarrow> seed < elapsed_since now heard"
  using unsigned_less [of seed, where 'a = nat] by (simp add: is_stale_iff word_less_nat_alt min_def)

lemma challenge_wait_eq_0:
  "challenge_wait e t m = 0 \<longleftrightarrow>
     (case im_get (proven e) m of None \<Rightarrow> True | Some (stamp, _) \<Rightarrow> seed_interval_ms e \<le> elapsed_since t stamp)
     \<and> (case im_get (challenged e) m of None \<Rightarrow> True
        | Some (stamp, misses) \<Rightarrow> challenge_backoff_ms e misses \<le> elapsed_since t stamp)"
proof -
  have "unat (max a b) * 1000000 = 0 \<longleftrightarrow> a = 0 \<and> b = 0" for a b :: u32
    by (auto simp: max_def unat_eq_zero)
  then show ?thesis
    by (auto simp: challenge_wait_def Let_def split: option.splits)
qed

lemma challenge_due_wait: "challenge_due e now m \<Longrightarrow> challenge_wait e (from_duration now) m = 0"
  unfolding challenge_wait_eq_0
  by (auto simp: challenge_due_def proof_needs_refresh_def is_stale_one not_less split: option.splits)

lemma next_challenge_loop_le:
  "next_challenge_loop cap e t ms seen (Some s) = Some s' \<Longrightarrow> s' \<le> s"
proof (induction ms arbitrary: seen s)
  case (Cons m ms)
  then show ?case by (fastforce split: if_splits)
qed simp

lemma next_challenge_loop_Some: "\<exists>s'. next_challenge_loop cap e t ms seen (Some s) = Some s'"
  by (induction ms arbitrary: seen s) auto

lemma vec_push_seen: "set (case vec_push cap m seen of Some seen' \<Rightarrow> seen' | None \<Rightarrow> seen) \<subseteq> insert m (set seen)"
  by (auto simp: vec_push_def)

text \<open>Every offered neighbour not seen before bounds the result.\<close>

lemma next_challenge_loop_bound:
  assumes "m \<in> set ms" "m \<notin> set seen"
  shows "\<exists>s. next_challenge_loop cap e t ms seen soonest = Some s \<and> s \<le> challenge_wait e t m"
  using assms
proof (induction ms arbitrary: seen soonest)
  case (Cons a ms)
  show ?case
  proof (cases "a = m")
    case True
    let ?s = "case soonest of None \<Rightarrow> challenge_wait e t m | Some s \<Rightarrow> min s (challenge_wait e t m)"
    have "?s \<le> challenge_wait e t m" by (simp split: option.splits)
    with True Cons.prems show ?thesis
      using next_challenge_loop_Some next_challenge_loop_le by (fastforce intro: order_trans)
  next
    case False
    with Cons.prems vec_push_seen [where cap = cap and m = a and seen = seen] show ?thesis
      by (auto intro!: Cons.IH)
  qed
qed simp

lemma candidates_loop_sound:
  "m \<in> set (challenge_candidates_loop cap e now ms seen) \<Longrightarrow>
     m \<in> set ms \<and> require_proof e \<and> challenge_due e now m"
  by (induction cap e now ms seen rule: challenge_candidates_loop.induct) (auto split: if_splits)

lemma candidates_loop_complete:
  "m \<in> set ms \<Longrightarrow> m \<notin> set seen \<Longrightarrow> require_proof e \<Longrightarrow> challenge_due e now m \<Longrightarrow>
     m \<in> set (challenge_candidates_loop cap e now ms seen)"
proof (induction ms arbitrary: seen)
  case (Cons a ms)
  then show ?case
    using vec_push_seen [where cap = cap and m = a and seen = seen] by (auto split: if_splits)
qed simp

text \<open>With room for every offered neighbour, \<open>seen\<close> never refuses one and none repeats.\<close>

lemma candidates_loop_distinct:
  assumes "card (set ms \<union> set seen) \<le> cap" "distinct seen"
  shows "distinct (challenge_candidates_loop cap e now ms seen)
    \<and> set (challenge_candidates_loop cap e now ms seen) \<inter> set seen = {}"
  using assms
proof (induction ms arbitrary: seen)
  case (Cons a ms)
  show ?case
  proof (cases "\<not> require_proof e \<or> a \<in> set seen \<or> \<not> challenge_due e now a")
    case True
    have "card (set ms \<union> set seen) \<le> cap"
      using Cons.prems(1) by (meson List.finite_set card_mono finite_UnI le_trans set_subset_Cons subset_refl sup_mono)
    with True Cons.IH [OF this Cons.prems(2)] show ?thesis by auto
  next
    case False
    have "card (set seen) < card (set (a # ms) \<union> set seen)"
      using False by (intro psubset_card_mono) auto
    then have "length seen < cap"
      using Cons.prems by (simp add: distinct_card)
    then have push: "vec_push cap a seen = Some (seen @ [a])"
      by (simp add: vec_push_def)
    have "card (set ms \<union> set (seen @ [a])) \<le> cap" "distinct (seen @ [a])"
      using Cons.prems False by (simp_all add: insert_commute Un_commute)
    from Cons.IH [OF this] False push show ?thesis by auto
  qed
qed simp


section \<open>Frame and invariant\<close>

lemma recompute_all_best_frame [frame_simps]:
  "proven (recompute_all_best now e) = proven e"
  "challenged (recompute_all_best now e) = challenged e"
  "keepalive (recompute_all_best now e) = keepalive e"
  "ogm_timers (recompute_all_best now e) = ogm_timers e"
  "keepalive_timers (recompute_all_best now e) = keepalive_timers e"
  "require_proof (recompute_all_best now e) = require_proof e"
  "broadcast_seqno (recompute_all_best now e) = broadcast_seqno e"
  by (simp_all add: recompute_all_best_table)

lemma recompute_all_best_reads [simp]:
  "seed_interval_ms (recompute_all_best now e) = seed_interval_ms e"
  "proof_current (recompute_all_best now e) t m = proof_current e t m"
  by (simp_all add: proof_current_def seed_interval_ms_def frame_simps)

lemma im_get_fold_remove:
  assumes "profile_ok P" "im_ok (max_originators P) m"
  shows "im_ok (max_originators P) (fold (im_remove (swap_order P)) ks m)"
    and "im_get (fold (im_remove (swap_order P)) ks m) k = (if k \<in> set ks then None else im_get m k)"
proof -
  have law: "swap_remove_law (swap_order P)"
    using assms(1) by (simp add: profile_ok_def)
  have both: "im_ok (max_originators P) (fold (im_remove (swap_order P)) ks m)
    \<and> im_get (fold (im_remove (swap_order P)) ks m) k = (if k \<in> set ks then None else im_get m k)"
    using assms(2)
  proof (induction ks arbitrary: m)
    case (Cons a ks)
    have "im_ok (max_originators P) (im_remove (swap_order P) a m)"
      by (rule im_remove_ok [OF assms(1) Cons.prems])
    from Cons.IH [OF this] show ?case
      using im_get_remove [OF law, of m a] Cons.prems by (simp add: im_ok_def)
  qed simp
  then show "im_ok (max_originators P) (fold (im_remove (swap_order P)) ks m)"
    and "im_get (fold (im_remove (swap_order P)) ks m) k = (if k \<in> set ks then None else im_get m k)"
    by simp_all
qed

lemma im_get_removed:
  assumes "profile_ok P" "im_ok (max_originators P) m"
  shows "im_get (im_remove (swap_order P) a m) k = (if k = a then None else im_get m k)"
  using im_get_fold_remove(2) [OF assms, of "[a]" k] by simp

lemma note_challenged_ok: "profile_ok P \<Longrightarrow> engine_ok P e \<Longrightarrow> engine_ok P (note_challenged P now m e)"
  by (simp add: engine_ok_def note_challenged_def Let_def insert_evicting_ok)

lemma note_proven_ok: "profile_ok P \<Longrightarrow> engine_ok P e \<Longrightarrow> engine_ok P (note_proven P now m i e)"
  unfolding note_proven_def Let_def
  by (rule recompute_all_best_ok) (simp add: engine_ok_def insert_evicting_ok im_remove_ok)

lemma retain_proven_ok: "profile_ok P \<Longrightarrow> engine_ok P e \<Longrightarrow> engine_ok P (retain_proven P now usable e)"
  unfolding retain_proven_def Let_def
  by (cases "filter (\<lambda>m. \<not> usable m) (im_keys (proven e)) = []")
     (simp_all, rule recompute_all_best_ok, simp add: engine_ok_def im_get_fold_remove)

lemma revoke_originator_ok: "profile_ok P \<Longrightarrow> engine_ok P e \<Longrightarrow> engine_ok P (revoke_originator P m e)"
  unfolding revoke_originator_def Let_def engine_ok_def
  by (auto intro!: im_remove_ok table_ok_map_values table_ok_retain
      simp: record_paths_ok_def distinct_map_filter intro: order_trans [OF length_filter_le])

lemma revoke_originators_ok: "profile_ok P \<Longrightarrow> engine_ok P e \<Longrightarrow> engine_ok P (revoke_originators P ms e)"
  unfolding revoke_originators_def
  by (induction ms arbitrary: e) (simp_all add: revoke_originator_ok)

lemma engine_reset_ok: "engine_ok P e \<Longrightarrow> engine_ok P (engine_reset e)"
  by (simp add: engine_ok_def engine_reset_def table_ok_def)

lemma next_hop_proof: "next_hop e now d = Some n \<Longrightarrow> proof_current e now n"
  by (auto simp: next_hop_def dest!: max_by_key_in split: option.splits)

lemma next_hop_path:
  "next_hop e now d = Some n \<Longrightarrow>
     \<exists>r p. im_get (originator_table e) d = Some r \<and> p \<in> set (or_paths r) \<and> ns_neighbor_ident p = n"
  by (auto simp: next_hop_def dest!: max_by_key_in split: option.splits)

lemma unat_challenge_backoff_ms:
  assumes "challenge_floor_ms e \<noteq> 0"
  shows "unat (challenge_backoff_ms e misses) =
    min (unat (challenge_floor_ms e) * 2 ^ unat misses) (unat (seed_interval_ms e))"
proof -
  have f: "1 \<le> unat (challenge_floor_ms e)"
    using assms by (simp add: Suc_le_eq unat_gt_0)
  have s: "unat (seed_interval_ms e) < 2 ^ 32"
    using unsigned_less [of "seed_interval_ms e", where 'a = nat] by simp
  show ?thesis
  proof (cases "misses < 32")
    case True
    then have m: "unat misses < 32" by (simp add: word_less_nat_alt)
    then have "(2 :: nat) ^ unat misses < 2 ^ 32" by (rule power_strict_increasing) simp
    then have "unat (word_of_nat (2 ^ unat misses) :: u32) = 2 ^ unat misses"
      by (subst unat_of_nat) simp
    then have "unat (push_bit (unat misses) (1 :: u32)) = 2 ^ unat misses"
      by simp
    with True s show ?thesis
      by (auto simp: challenge_backoff_ms_def Let_def checked_shl_def checked_mul_def min_def word_le_nat_alt
          unat_word_ariths)
  next
    case False
    then have "32 \<le> unat misses" by (simp add: word_less_nat_alt)
    then have "(2 :: nat) ^ 32 \<le> 2 ^ unat misses" by (intro power_increasing) auto
    also have "\<dots> \<le> unat (challenge_floor_ms e) * 2 ^ unat misses" using f by simp
    finally show ?thesis
      using False s by (simp add: challenge_backoff_ms_def Let_def checked_shl_def min_def)
  qed
qed


lemma retain_proven_get:
  assumes "profile_ok P" "engine_ok P e"
  shows "im_get (proven (retain_proven P now usable e)) m = (if usable m then im_get (proven e) m else None)"
proof -
  let ?doomed = "filter (\<lambda>m. \<not> usable m) (im_keys (proven e))"
  have ok: "im_ok (max_originators P) (proven e)"
    using assms(2) by (simp add: engine_ok_def)
  have "im_get (proven e) m = None" if "\<not> usable m" "m \<notin> set ?doomed"
    using that im_get_key [of "proven e" m] by (cases "im_get (proven e) m") auto
  moreover have "im_get (proven (retain_proven P now usable e)) m =
      (if m \<in> set ?doomed then None else im_get (proven e) m)"
    by (auto simp: retain_proven_def Let_def frame_simps im_get_fold_remove(2) [OF assms(1) ok]
        filter_empty_conv)
  ultimately show ?thesis by auto
qed

lemma retain_proven_require [frame_simps]: "require_proof (retain_proven P now usable e) = require_proof e"
  by (simp add: retain_proven_def Let_def frame_simps)

lemma revoke_originator_gone:
  assumes "profile_ok P" "engine_ok P e"
  shows "im_get (originator_table (revoke_originator P m e)) m = None"
    and "im_get (originator_table (revoke_originator P m e)) d = Some r \<Longrightarrow>
      \<exists>r0. im_get (originator_table e) d = Some r0 \<and> set (or_paths r) = {p \<in> set (or_paths r0). ns_neighbor_ident p \<noteq> m}"
    and "im_get (proven (revoke_originator P m e)) k = (if k = m then None else im_get (proven e) k)"
    and "im_get (challenged (revoke_originator P m e)) k = (if k = m then None else im_get (challenged e) k)"
proof -
  have ok: "im_ok (max_originators P) (proven e)" "im_ok (max_originators P) (challenged e)"
    and d: "distinct (im_keys (originator_table e))"
    using assms(2) by (simp_all add: engine_ok_def im_ok_def)
  show "im_get (originator_table (revoke_originator P m e)) m = None"
    by (simp add: revoke_originator_def Let_def im_get_map_values im_get_retain [OF d] split: option.splits)
  show "im_get (originator_table (revoke_originator P m e)) d = Some r \<Longrightarrow>
      \<exists>r0. im_get (originator_table e) d = Some r0 \<and> set (or_paths r) = {p \<in> set (or_paths r0). ns_neighbor_ident p \<noteq> m}"
    by (auto simp: revoke_originator_def Let_def im_get_map_values im_get_retain [OF d] split: option.splits if_splits)
  show "im_get (proven (revoke_originator P m e)) k = (if k = m then None else im_get (proven e) k)"
    and "im_get (challenged (revoke_originator P m e)) k = (if k = m then None else im_get (challenged e) k)"
    by (simp_all add: revoke_originator_def Let_def im_get_removed [OF assms(1)] ok)
qed

definition forgotten :: "batman_engine \<Rightarrow> mac \<Rightarrow> bool" where
  "forgotten e m \<longleftrightarrow> im_get (originator_table e) m = None \<and> im_get (proven e) m = None
     \<and> im_get (challenged e) m = None
     \<and> (\<forall>d r. im_get (originator_table e) d = Some r \<longrightarrow> m \<notin> ns_neighbor_ident ` set (or_paths r))"

lemma revoke_originator_forgotten:
  assumes "profile_ok P" "engine_ok P e"
  shows "forgotten (revoke_originator P m e) m"
    and "forgotten e k \<Longrightarrow> forgotten (revoke_originator P m e) k"
proof -
  note gone = revoke_originator_gone [OF assms]
  show "forgotten (revoke_originator P m e) m"
    using gone unfolding forgotten_def by (fastforce dest: gone(2))
  assume k: "forgotten e k"
  have "im_get (originator_table (revoke_originator P m e)) k = None"
    using gone(2) [of m k] k unfolding forgotten_def by (metis not_Some_eq)
  with k gone(3,4) show "forgotten (revoke_originator P m e) k"
    unfolding forgotten_def by (fastforce dest: gone(2))
qed

lemma revoke_originators_forgotten:
  assumes "profile_ok P" "engine_ok P e"
  shows "m \<in> set ms \<or> forgotten e m \<Longrightarrow> forgotten (revoke_originators P ms e) m"
  using assms(2)
proof (induction ms arbitrary: e)
  case (Cons a ms)
  then show ?case
    using revoke_originator_forgotten [OF assms(1) Cons.prems(2)] revoke_originator_ok [OF assms(1) Cons.prems(2)]
    by (auto simp: revoke_originators_def)
qed (simp add: revoke_originators_def)

section \<open>Properties\<close>

text \<open>
  The challenge schedule. \<open>challenge_candidates\<close> yields exactly the neighbours that offer a
  path, need a (new) proof and are past their retry backoff, and yields none of them twice when
  the offered neighbours fit its \<open>seen\<close> buffer; whenever it yields one, \<open>next_challenge_after\<close>
  reports that a challenge is due now, so a driver sleeping on it is never late.
\<close>

theorem challenge_schedule:
  "set (challenge_candidates P e now) =
     {m \<in> set (offered_neighbors e). require_proof e \<and> challenge_due e now m}
   \<and> (challenge_candidates P e now \<noteq> [] \<longrightarrow> next_challenge_after P e now = Some 0)
   \<and> (card (set (offered_neighbors e)) \<le> max_originators P \<longrightarrow> distinct (challenge_candidates P e now))"
proof (intro conjI impI)
  show set_eq: "set (challenge_candidates P e now) =
      {m \<in> set (offered_neighbors e). require_proof e \<and> challenge_due e now m}"
    unfolding challenge_candidates_def
    by (auto dest: candidates_loop_sound intro: candidates_loop_complete)
  show "distinct (challenge_candidates P e now)" if "card (set (offered_neighbors e)) \<le> max_originators P"
    using candidates_loop_distinct [of "offered_neighbors e" "[]" "max_originators P" e now] that
    by (simp add: challenge_candidates_def)
  assume "challenge_candidates P e now \<noteq> []"
  then obtain m where m: "m \<in> set (offered_neighbors e)" "require_proof e" "challenge_due e now m"
    using set_eq by (metis (mono_tags, lifting) list.set_intros(1) mem_Collect_eq neq_Nil_conv)
  then show "next_challenge_after P e now = Some 0"
    using next_challenge_loop_bound [of m "offered_neighbors e" "[]" "max_originators P" e "from_duration now" None]
    by (auto simp: next_challenge_after_def challenge_due_wait)
qed

text \<open>
  Exponential retry. With a floor of at least a millisecond, the wait after \<open>misses\<close>
  unanswered challenges is exactly the floor doubled \<open>misses\<close> times, capped at the seed
  interval, for every 32-bit miss count: it never overflows back into a short wait.
\<close>

theorem challenge_backoff_exact:
  assumes "challenge_floor_ms e \<noteq> 0"
  shows "unat (challenge_backoff_ms e misses) =
      min (unat (challenge_floor_ms e) * 2 ^ unat misses) (unat (seed_interval_ms e))
    \<and> (misses \<le> misses' \<longrightarrow> challenge_backoff_ms e misses \<le> challenge_backoff_ms e misses')"
proof -
  have "unat (challenge_floor_ms e) * 2 ^ unat misses \<le> unat (challenge_floor_ms e) * 2 ^ unat misses'"
    if "misses \<le> misses'"
    using that by (simp add: word_le_nat_alt)
  then show ?thesis
    unfolding word_le_nat_alt unat_challenge_backoff_ms [OF assms] by (meson min.mono order_refl)
qed

text \<open>
  An answered challenge. After \<open>note_proven\<close> the neighbour's proof is current and recorded with
  the interface the answer came in on, whatever the table held before; its retry backoff is gone,
  it is not a challenge candidate, and the engine is still well-formed.
\<close>

theorem note_proven_grants:
  assumes "profile_ok P" "engine_ok P e"
  shows "engine_ok P (note_proven P now n i e)
    \<and> im_get (proven (note_proven P now n i e)) n = Some (from_duration now, i)
    \<and> proof_current (note_proven P now n i e) now n
    \<and> im_get (challenged (note_proven P now n i e)) n = None
    \<and> n \<notin> set (challenge_candidates P (note_proven P now n i e) now)"
proof -
  let ?e = "note_proven P now n i e"
  have ok: "im_ok (max_originators P) (proven e)" "im_ok (max_originators P) (challenged e)"
    using assms(2) by (simp_all add: engine_ok_def)
  have p: "im_get (proven ?e) n = Some (from_duration now, i)"
    by (simp add: note_proven_def Let_def frame_simps insert_evicting_get [OF assms(1) ok(1)])
  then have "proof_current ?e now n"
    by (simp add: proof_current_def)
  moreover have "im_get (challenged ?e) n = None"
    by (simp add: note_proven_def Let_def frame_simps im_get_removed [OF assms(1) ok(2)])
  moreover have "\<not> challenge_due ?e now n"
    using p by (simp add: challenge_due_def proof_needs_refresh_def)
  ultimately show ?thesis
    using p note_proven_ok [OF assms] candidates_loop_sound by (auto simp: challenge_candidates_def)
qed

text \<open>
  Sweeping proofs. \<open>retain_proven\<close> removes exactly the proofs of neighbours whose key is not
  usable; where proof is required, no next-hop query afterwards selects such a neighbour.
\<close>

theorem retain_proven_exact:
  assumes "profile_ok P" "engine_ok P e"
  shows "im_get (proven (retain_proven P now usable e)) m = (if usable m then im_get (proven e) m else None)
    \<and> engine_ok P (retain_proven P now usable e)
    \<and> (require_proof e \<longrightarrow> next_hop (retain_proven P now usable e) t d = Some n \<longrightarrow> usable n)"
proof -
  have "usable n" if "require_proof e" "next_hop (retain_proven P now usable e) t d = Some n"
    using next_hop_proof [OF that(2)] that(1)
    by (auto simp: proof_current_def frame_simps retain_proven_get [OF assms] split: if_splits)
  then show ?thesis
    using retain_proven_get [OF assms] retain_proven_ok [OF assms] by blast
qed

text \<open>
  Revocation. After \<open>revoke_originators\<close> nothing of a revoked address is left: no record of it,
  no path through it, no proof and no challenge; no next-hop query ever answers with it.
\<close>

theorem revoked_never_selected:
  assumes "profile_ok P" "engine_ok P e" "m \<in> set revoked"
  shows "forgotten (revoke_originators P revoked e) m
    \<and> engine_ok P (revoke_originators P revoked e)
    \<and> next_hop (revoke_originators P revoked e) now d \<noteq> Some m"
proof -
  have f: "forgotten (revoke_originators P revoked e) m"
    using revoke_originators_forgotten [OF assms(1,2)] assms(3) by blast
  then have "next_hop (revoke_originators P revoked e) now d \<noteq> Some m"
    by (auto simp: forgotten_def dest!: next_hop_path)
  with f show ?thesis using revoke_originators_ok [OF assms(1,2)] by blast
qed


section \<open>Witnesses\<close>

definition gated_sample :: batman_engine where
  "gated_sample = sample_engine\<lparr>require_proof := True,
     proven := [(Mac 0 0 0 0 0 2, 0, 1), (Mac 0 0 0 0 0 3, 0, 0)]\<rparr>"

lemma gated_sample_ok: "engine_ok sample_profile gated_sample"
  using sample_engine_ok
  by (simp add: gated_sample_def engine_ok_def im_ok_def im_keys_def default_profile_def)

lemma sample_profile_ok: "profile_ok sample_profile"
  by (rule default_profile_ok) simp

lemmas gate_eval = gated_sample_def sample_eval as_millis_u32_def DEFAULT_OGM_INTERVAL_def
  offered_neighbors_def challenge_due_def proof_needs_refresh_def

theorem challenge_schedule_witness:
  "next_challenge_after sample_profile gated_sample 2000000000 = Some 0
     \<and> distinct (challenge_candidates sample_profile gated_sample 2000000000)"
proof -
  note sched = challenge_schedule [of sample_profile gated_sample 2000000000]
  have "Mac 0 0 0 0 0 2 \<in> set (challenge_candidates sample_profile gated_sample 2000000000)"
    unfolding sched [THEN conjunct1] by (simp add: gate_eval)
  then have "challenge_candidates sample_profile gated_sample 2000000000 \<noteq> []" by auto
  moreover have "card (set (offered_neighbors gated_sample)) \<le> max_originators sample_profile"
    by (simp add: gate_eval default_profile_def)
  ultimately show ?thesis using sched by blast
qed

theorem challenge_backoff_exact_witness: "unat (challenge_backoff_ms sample_engine 40) = 1000"
proof -
  have "challenge_floor_ms sample_engine = 1000" "seed_interval_ms sample_engine = 1000"
    by (simp_all add: challenge_floor_ms_def gate_eval iter_min_def)
  with challenge_backoff_exact [of sample_engine 40 40] show ?thesis by simp
qed

theorem note_proven_grants_witness:
  "proof_current (note_proven sample_profile 2000000000 (Mac 0 0 0 0 0 2) 1 gated_sample) 2000000000 (Mac 0 0 0 0 0 2)"
  using note_proven_grants [OF sample_profile_ok gated_sample_ok] by blast

theorem retain_proven_exact_witness:
  "next_hop (retain_proven sample_profile 2000000000 (\<lambda>m. m = Mac 0 0 0 0 0 3) gated_sample) 2000000000
       (Mac 0 0 0 0 0 9) \<noteq> Some (Mac 0 0 0 0 0 2)
     \<and> im_get (proven (retain_proven sample_profile 2000000000 (\<lambda>m. m = Mac 0 0 0 0 0 3) gated_sample))
         (Mac 0 0 0 0 0 3) = Some (0, 0)"
proof -
  note exact = retain_proven_exact [OF sample_profile_ok gated_sample_ok, of 2000000000 "\<lambda>m. m = Mac 0 0 0 0 0 3"]
  have "require_proof gated_sample" "im_get (proven gated_sample) (Mac 0 0 0 0 0 3) = Some (0, 0)"
    by (simp_all add: gated_sample_def im_get_def)
  moreover have "Mac 0 0 0 0 0 2 \<noteq> Mac 0 0 0 0 0 3" by simp
  ultimately show ?thesis
    using exact [of "Mac 0 0 0 0 0 3" 2000000000 "Mac 0 0 0 0 0 9" "Mac 0 0 0 0 0 2"] by (metis (full_types))
qed

theorem revoked_never_selected_witness:
  "next_hop (revoke_originators sample_profile [Mac 0 0 0 0 0 2] gated_sample) 2000000000 (Mac 0 0 0 0 0 9)
     \<noteq> Some (Mac 0 0 0 0 0 2)"
  using revoked_never_selected [OF sample_profile_ok gated_sample_ok, of "Mac 0 0 0 0 0 2" "[Mac 0 0 0 0 0 2]"]
  by simp

text \<open>
  The cached hop is not recomputed by a revocation: a record can keep naming the revoked
  neighbour as its \<open>best_next_hop\<close> until the next sweep or accepted OGM.
\<close>

definition cached_sample :: batman_engine where
  "cached_sample = sample_engine\<lparr>originator_table :=
     [(Mac 0 0 0 0 0 9, sample_record\<lparr>or_best_next_hop := Some (Mac 0 0 0 0 0 2), or_max_tq := 200\<rparr>)]\<rparr>"

lemma revocation_keeps_cached_hop:
  "\<exists>r. im_get (originator_table (revoke_originators sample_profile [Mac 0 0 0 0 0 2] cached_sample))
         (Mac 0 0 0 0 0 9) = Some r \<and> or_best_next_hop r = Some (Mac 0 0 0 0 0 2)"
  by (simp add: revoke_originators_def revoke_originator_def Let_def cached_sample_def im_retain_def
      im_map_values_def im_get_def)

text \<open>
  At an age of exactly one seed interval the schedule reports a challenge due now while no
  neighbour is a candidate: the refresh test is strict, the schedule's is not.
\<close>

lemma schedule_due_without_candidate:
  "next_challenge_after sample_profile gated_sample 1000000000 = Some 0
     \<and> challenge_candidates sample_profile gated_sample 1000000000 = []"
proof -
  have "challenge_candidates sample_profile gated_sample 1000000000 = []"
    by (simp add: challenge_candidates_def gate_eval)
  moreover have "challenge_wait gated_sample (from_duration 1000000000) (Mac 0 0 0 0 0 2) = 0"
    unfolding challenge_wait_eq_0 by (simp add: gate_eval word_le_nat_alt)
  then have "next_challenge_after sample_profile gated_sample 1000000000 = Some 0"
    using next_challenge_loop_bound [of "Mac 0 0 0 0 0 2" "offered_neighbors gated_sample" "[]"
        "max_originators sample_profile" gated_sample "from_duration 1000000000" None]
    by (auto simp: next_challenge_after_def gated_sample_def offered_neighbors_def sample_defs)
  ultimately show ?thesis by simp
qed

end
