(* ===== verification/Emission.thy ===== *)
theory Emission
  imports Proof_Gate "HOL-Library.Multiset"
begin

text \<open>
  What the engine emits and the multicast state around it (\<^verbatim>\<open>libs/batman/src/engine.rs\<close>): the
  per-interface OGM and keep-alive timer banks, the local and learned multicast groups, and
  the periodic OGM and keep-alive frames. A loop that would not end is a \<open>None\<close> of a partial
  function, and so is a slice access that would panic; both are shown not to happen.
\<close>

section \<open>Timer banks\<close>

fun jitter_seed :: "mac \<Rightarrow> nat \<Rightarrow> u32 \<Rightarrow> u32" where
  "jitter_seed (Mac a b c d e f) idx salt =
     u32_of_be f e d c XOR (word_of_nat idx * 0x01000193) XOR salt"

partial_function (option) backfill :: "nat \<Rightarrow> 'a list \<Rightarrow> nat \<Rightarrow> 'a \<Rightarrow> 'a list option" where
  "backfill cap v idx fill =
     (if length v \<le> idx
      then backfill cap (case vec_push cap fill v of Some v' \<Rightarrow> v' | None \<Rightarrow> v) idx fill
      else Some v)"

definition configure_interface_ogm ::
    "profile \<Rightarrow> nat \<Rightarrow> duration \<Rightarrow> duration \<Rightarrow> duration \<Rightarrow> batman_engine \<Rightarrow> batman_engine option" where
  "configure_interface_ogm P idx i_min i_max now e =
     (if idx \<ge> max_interfaces P then Some e
      else let seed = jitter_seed (self_ident e) idx 0 in
        do { fill \<leftarrow> trickle_new i_min i_max now seed;
             ts \<leftarrow> backfill (max_interfaces P) (ogm_timers e) idx fill;
             timer \<leftarrow> trickle_new i_min i_max now seed;
             Some (e\<lparr>ogm_timers := ts[idx := timer]\<rparr>) })"

definition configure_interface_keepalive ::
    "profile \<Rightarrow> nat \<Rightarrow> duration option \<Rightarrow> duration \<Rightarrow> batman_engine \<Rightarrow> batman_engine option" where
  "configure_interface_keepalive P idx interval now e =
     (if idx \<ge> max_interfaces P then Some e
      else let seed = jitter_seed (self_ident e) idx 0x9e3779b9 in
        do { ts \<leftarrow> backfill (max_interfaces P) (keepalive_timers e) idx None;
             timer \<leftarrow> (case interval of None \<Rightarrow> Some None | Some iv \<Rightarrow> map_option Some (trickle_new iv iv now seed));
             Some (e\<lparr>keepalive_timers := ts[idx := timer]\<rparr>) })"

text \<open>\<^verbatim>\<open>Duration::from_secs(3600)\<close>, the idle wait of an empty bank.\<close>

definition idle_wait :: duration where
  "idle_wait = 3600 * 1000000000"

definition next_broadcast_after :: "batman_engine \<Rightarrow> duration \<Rightarrow> duration" where
  "next_broadcast_after e now =
     (case iter_min (map (\<lambda>t. time_until t now) (ogm_timers e)) of Some d \<Rightarrow> d | None \<Rightarrow> idle_wait)"

definition pick_due :: "(nat \<times> trickle_timer) list \<Rightarrow> duration \<Rightarrow> nat option" where
  "pick_due its now =
     map_option fst (min_by_key (\<lambda>(i, t). time_until t now) (filter (\<lambda>(i, t). due t now) its))"

definition due_interface :: "batman_engine \<Rightarrow> duration \<Rightarrow> nat option" where
  "due_interface e now = pick_due (enumerate 0 (ogm_timers e)) now"

definition ogm_schedule :: "batman_engine \<Rightarrow> ogm_schedule_entry list" where
  "ogm_schedule e =
     map (\<lambda>(iface_idx, t). \<lparr>os_iface_idx = iface_idx, os_current_interval = tt_interval t,
                             os_min_interval = tt_i_min t, os_max_interval = tt_i_max t\<rparr>)
       (enumerate 0 (ogm_timers e))"

definition on_interface_emitted :: "nat \<Rightarrow> duration \<Rightarrow> batman_engine \<Rightarrow> batman_engine option" where
  "on_interface_emitted idx now e =
     (if idx < length (ogm_timers e)
      then map_option (\<lambda>t. e\<lparr>ogm_timers := (ogm_timers e)[idx := t]\<rparr>) (on_emit (ogm_timers e ! idx) now) else Some e)"

definition reset_ogm_timers :: "duration \<Rightarrow> batman_engine \<Rightarrow> batman_engine option" where
  "reset_ogm_timers now e = map_option (\<lambda>ts. e\<lparr>ogm_timers := ts\<rparr>) (those (map (\<lambda>t. timer_reset t now) (ogm_timers e)))"

definition next_keepalive_after :: "batman_engine \<Rightarrow> duration \<Rightarrow> duration" where
  "next_keepalive_after e now =
     (case iter_min (map (\<lambda>t. time_until t now) (List.map_filter id (keepalive_timers e))) of
        Some d \<Rightarrow> d | None \<Rightarrow> idle_wait)"

definition due_keepalive_interface :: "batman_engine \<Rightarrow> duration \<Rightarrow> nat option" where
  "due_keepalive_interface e now =
     pick_due (List.map_filter (\<lambda>(idx, t). map_option (Pair idx) t) (enumerate 0 (keepalive_timers e))) now"

definition on_keepalive_emitted :: "nat \<Rightarrow> duration \<Rightarrow> batman_engine \<Rightarrow> batman_engine option" where
  "on_keepalive_emitted idx now e =
     (if idx < length (keepalive_timers e)
      then (case keepalive_timers e ! idx of
              None \<Rightarrow> Some e
            | Some t \<Rightarrow> map_option (\<lambda>t. e\<lparr>keepalive_timers := (keepalive_timers e)[idx := Some t]\<rparr>) (on_emit t now))
      else Some e)"

definition apply_topology_change :: "duration \<Rightarrow> batman_engine \<Rightarrow> batman_engine option" where
  "apply_topology_change now e =
     (if topology_changed e then reset_ogm_timers now (e\<lparr>topology_changed := False\<rparr>) else Some e)"

section \<open>Multicast groups\<close>

text \<open>The push loop of \<^verbatim>\<open>set_local_mcast_groups\<close>: stop at the first refused push.\<close>

fun push_all :: "nat \<Rightarrow> 'a list \<Rightarrow> 'a list \<Rightarrow> 'a list" where
  "push_all cap [] xs = xs"
| "push_all cap (g # gs) xs = (case vec_push cap g xs of None \<Rightarrow> xs | Some xs' \<Rightarrow> push_all cap gs xs')"

definition set_local_mcast_groups :: "profile \<Rightarrow> duration \<Rightarrow> mac list \<Rightarrow> batman_engine \<Rightarrow> batman_engine option" where
  "set_local_mcast_groups P now groups e =
     (let before = local_mcast e;
          e = e\<lparr>local_mcast := push_all (max_local_mcast P) groups []\<rparr>
      in if local_mcast e \<noteq> before then reset_ogm_timers now e else Some e)"

definition local_mcast_groups :: "batman_engine \<Rightarrow> mac list" where
  "local_mcast_groups e = local_mcast e"

definition mcast_listeners :: "batman_engine \<Rightarrow> mac \<Rightarrow> mac list" where
  "mcast_listeners e grp = map snd (filter (\<lambda>(g, _). g = grp) (mcast_members e))"

text \<open>The whole six-byte chunks of a slice; a shorter rest is dropped.\<close>

fun mac_chunks :: "bytes \<Rightarrow> mac list" where
  "mac_chunks (a # b # c # d # e # f # rest) = Mac a b c d e f # mac_chunks rest"
| "mac_chunks _ = []"

partial_function (option) drop_members ::
    "swap_fn \<Rightarrow> mac \<Rightarrow> nat \<Rightarrow> (mac \<times> mac) list \<Rightarrow> (mac \<times> mac) list option" where
  "drop_members sw orig i ms =
     (if i < length ms
      then if snd (ms ! i) = orig then drop_members sw orig i (swap_remove sw i ms)
           else drop_members sw orig (i + 1) ms
      else Some ms)"

definition update_mcast_membership ::
    "profile \<Rightarrow> mac \<Rightarrow> link_frame \<Rightarrow> batman_engine \<Rightarrow> batman_engine option" where
  "update_mcast_membership P orig frame e =
     (let tail = (case get_range (lf_payload frame) OGM_SIZE (length (lf_payload frame)) of
                    Some t \<Rightarrow> t | None \<Rightarrow> [])
      in map_option
           (\<lambda>ms. e\<lparr>mcast_members :=
                (case find_tvlv tail TvMcast of
                   None \<Rightarrow> ms
                 | Some value \<Rightarrow> push_all (max_mcast_members P) (map (\<lambda>g. (g, orig)) (mac_chunks value)) ms)\<rparr>)
           (drop_members (swap_order P) orig 0 (mcast_members e)))"

section \<open>Frames\<close>

fun write_groups :: "mac list \<Rightarrow> nat \<Rightarrow> bytes \<Rightarrow> bytes option" where
  "write_groups [] off buf = Some buf"
| "write_groups (g # gs) off buf =
     Option.bind (copy_into buf off (mac_bytes g)) (write_groups gs (off + 6))"

definition produce_periodic_broadcast ::
    "duration \<Rightarrow> bytes \<Rightarrow> batman_engine \<Rightarrow> (bytes \<times> bytes \<times> batman_engine) option" where
  "produce_periodic_broadcast now tx_buffer e =
     do { e \<leftarrow> apply_topology_change now (purge_stale now e);
          let e = e\<lparr>sequence_number := sequence_number e + 1\<rparr>;
          let header_size = OGM_SIZE;
          let mcast_value_len = length (local_mcast e) * 6;
          let tvlv_len = (if mcast_value_len = 0 then 0 else TVLV_HDR_LEN + mcast_value_len);
          let ogm = \<lparr>ogm_packet_type = packet_type_as_u8 Ogm, ogm_version = BATMAN_VERSION, ogm_ttl = 50,
                     ogm_flags = 0, ogm_seqno = sequence_number e, ogm_orig = self_ident e,
                     ogm_reserved = 0, ogm_tq = 255, ogm_tvlv_len = word_of_nat tvlv_len\<rparr>;
          tx_buffer \<leftarrow> copy_into tx_buffer 0 (ogm_write ogm);
          tx_buffer \<leftarrow>
            (if tvlv_len > 0
             then do { tx_buffer \<leftarrow> copy_into tx_buffer header_size (tvlv_hdr_write
                         \<lparr>th_type = tvlv_as_u8 TvMcast, th_version = 1,
                          th_len = word_of_nat mcast_value_len\<rparr>);
                       write_groups (local_mcast e) (header_size + TVLV_HDR_LEN) tx_buffer }
             else Some tx_buffer);
          out \<leftarrow> get_range tx_buffer 0 (header_size + tvlv_len);
          Some (out, tx_buffer, e) }"

text \<open>The returned slice, if any, and the buffer.\<close>

definition produce_keepalive :: "bytes \<Rightarrow> bytes option \<times> bytes" where
  "produce_keepalive tx_buffer =
     (if MINIMAL_SIZE > length tx_buffer then (None, tx_buffer)
      else let pkt = minimal_write \<lparr>mp_packet_type = packet_type_as_u8 Keepalive, mp_version = BATMAN_VERSION\<rparr>;
               tx_buffer = pkt @ drop MINIMAL_SIZE tx_buffer
           in (Some (take MINIMAL_SIZE tx_buffer), tx_buffer))"

section \<open>What the timer operations return\<close>

text \<open>The engines they make where no sum of durations overflows.\<close>

definition interface_served :: "nat \<Rightarrow> duration \<Rightarrow> batman_engine \<Rightarrow> batman_engine" where
  "interface_served idx now e =
     (if idx < length (ogm_timers e)
      then e\<lparr>ogm_timers := (ogm_timers e)[idx := timer_emitted (ogm_timers e ! idx) now]\<rparr> else e)"

definition keepalive_served :: "nat \<Rightarrow> duration \<Rightarrow> batman_engine \<Rightarrow> batman_engine" where
  "keepalive_served idx now e =
     (if idx < length (keepalive_timers e)
      then (case keepalive_timers e ! idx of
              None \<Rightarrow> e
            | Some t \<Rightarrow> e\<lparr>keepalive_timers := (keepalive_timers e)[idx := Some (timer_emitted t now)]\<rparr>)
      else e)"

definition timers_restarted :: "duration \<Rightarrow> batman_engine \<Rightarrow> batman_engine" where
  "timers_restarted now e = e\<lparr>ogm_timers := map (\<lambda>t. restarted t now) (ogm_timers e)\<rparr>"

definition topology_settled :: "duration \<Rightarrow> batman_engine \<Rightarrow> batman_engine" where
  "topology_settled now e = (if topology_changed e then timers_restarted now (e\<lparr>topology_changed := False\<rparr>) else e)"

definition groups_set :: "profile \<Rightarrow> duration \<Rightarrow> mac list \<Rightarrow> batman_engine \<Rightarrow> batman_engine" where
  "groups_set P now groups e =
     (let new = push_all (max_local_mcast P) groups []
      in if new \<noteq> local_mcast e then timers_restarted now (e\<lparr>local_mcast := new\<rparr>) else e)"

definition ogm_configured :: "profile \<Rightarrow> nat \<Rightarrow> duration \<Rightarrow> duration \<Rightarrow> duration \<Rightarrow> batman_engine \<Rightarrow> batman_engine" where
  "ogm_configured P idx i_min i_max now e =
     (if idx \<ge> max_interfaces P then e
      else let t = fresh_timer i_min i_max now (jitter_seed (self_ident e) idx 0)
           in e\<lparr>ogm_timers := (ogm_timers e @ replicate (Suc idx - length (ogm_timers e)) t)[idx := t]\<rparr>)"

definition keepalive_configured :: "profile \<Rightarrow> nat \<Rightarrow> duration option \<Rightarrow> duration \<Rightarrow> batman_engine \<Rightarrow> batman_engine" where
  "keepalive_configured P idx interval now e =
     (if idx \<ge> max_interfaces P then e
      else e\<lparr>keepalive_timers := (keepalive_timers e @ replicate (Suc idx - length (keepalive_timers e)) None)
             [idx := map_option (\<lambda>iv. fresh_timer iv iv now (jitter_seed (self_ident e) idx 0x9e3779b9)) interval]\<rparr>)"

definition resets_fit :: "duration \<Rightarrow> batman_engine \<Rightarrow> bool" where
  "resets_fit now e \<longleftrightarrow> (\<forall>t \<in> set (ogm_timers e). reset_fits t now)"

lemma reset_ogm_timers_eq: "reset_ogm_timers now e = (if resets_fit now e then Some (timers_restarted now e) else None)"
  by (simp add: reset_ogm_timers_def timer_reset_eq those_map resets_fit_def timers_restarted_def)

lemma on_interface_emitted_eq:
  "on_interface_emitted idx now e =
     (if idx < length (ogm_timers e) \<longrightarrow> emit_fits (ogm_timers e ! idx) now then Some (interface_served idx now e) else None)"
  by (simp add: on_interface_emitted_def interface_served_def on_emit_eq)

lemma on_keepalive_emitted_eq:
  "on_keepalive_emitted idx now e =
     (if idx < length (keepalive_timers e) \<longrightarrow> pred_option (\<lambda>t. emit_fits t now) (keepalive_timers e ! idx)
      then Some (keepalive_served idx now e) else None)"
  by (simp add: on_keepalive_emitted_def keepalive_served_def on_emit_eq split: option.split)

lemma resets_fit_frame [simp]: "resets_fit now (e\<lparr>topology_changed := b\<rparr>) = resets_fit now e" "resets_fit now (e\<lparr>local_mcast := gs\<rparr>) = resets_fit now e"
  "resets_fit now (purge_stale n e) = resets_fit now e"
  by (simp_all add: resets_fit_def frame_simps)

lemma apply_topology_change_eq:
  "apply_topology_change now e = (if topology_changed e \<longrightarrow> resets_fit now e then Some (topology_settled now e) else None)"
  by (simp add: apply_topology_change_def topology_settled_def reset_ogm_timers_eq)

lemma set_local_mcast_groups_eq:
  "set_local_mcast_groups P now gs e =
     (if push_all (max_local_mcast P) gs [] \<noteq> local_mcast e \<longrightarrow> resets_fit now e then Some (groups_set P now gs e) else None)"
  by (auto simp: set_local_mcast_groups_def groups_set_def Let_def reset_ogm_timers_eq)

section \<open>The loops end\<close>

lemma backfill_eq: "idx < cap \<Longrightarrow> backfill cap v idx fill = Some (v @ replicate (Suc idx - length v) fill)"
proof (induction "Suc idx - length v" arbitrary: v)
  case 0
  then show ?case by (subst backfill.simps) simp
next
  case (Suc n)
  then have "length v \<le> idx" by simp
  with Suc.prems Suc.hyps(1) [of "v @ [fill]"] Suc.hyps(2) show ?case
    by (subst backfill.simps) (simp add: vec_push_def Suc_diff_le replicate_append_same [symmetric])
qed

lemma push_all_eq: "length xs \<le> cap \<Longrightarrow> push_all cap gs xs = xs @ take (cap - length xs) gs"
  by (induction gs arbitrary: xs) (auto simp: vec_push_def take_Cons' not_less)

lemma mset_swap_remove:
  assumes "swap_remove_law sw" "i < length xs"
  shows "mset (swap_remove sw i xs) = mset xs - {#xs ! i#}"
proof -
  have xs: "xs = butlast xs @ [last xs]"
    using assms(2) by (cases xs rule: rev_cases) auto
  show ?thesis
  proof (cases "Suc i = length xs")
    case True
    then have "xs ! i = last xs" using assms(2) by (metis diff_Suc_1 last_conv_nth length_0_conv nat.distinct(1))
    with True xs show ?thesis
      by (simp add: swap_remove_eq [OF assms]) (metis add_diff_cancel_right' mset.simps mset_append)
  next
    case False
    then have "xs ! i = butlast xs ! i" "i < length (butlast xs)"
      using assms(2) by (simp_all add: nth_butlast)
    moreover have "mset xs = add_mset (last xs) (mset (butlast xs))"
      by (subst xs) simp
    ultimately show ?thesis
      using False by (simp add: swap_remove_eq [OF assms] mset_update)
  qed
qed

lemma swap_remove_prefix:
  assumes "swap_remove_law sw" "i < length xs"
  shows "take i (swap_remove sw i xs) = take i xs" "length (swap_remove sw i xs) = length xs - 1"
  using assms(2) by (auto simp: swap_remove_eq [OF assms] take_butlast butlast_conv_take)

lemma drop_members_returns:
  assumes "swap_remove_law sw"
  shows "list_all (\<lambda>x. snd x \<noteq> orig) (take i ms) \<Longrightarrow>
    \<exists>ms'. drop_members sw orig i ms = Some ms' \<and> mset ms' = filter_mset (\<lambda>x. snd x \<noteq> orig) (mset ms)"
proof (induction "length ms - i" arbitrary: i ms rule: less_induct)
  case less
  show ?case
  proof (cases "i < length ms")
    case False
    with less.prems show ?thesis
      by (subst drop_members.simps) (auto simp: list_all_iff simp flip: mset_filter intro!: arg_cong [where f = mset] sym [OF filter_True])
  next
    case True
    show ?thesis
    proof (cases "snd (ms ! i) = orig")
      case drop: True
      have "length ms - Suc i < length ms - i" using True by simp
      then obtain ms' where "drop_members sw orig i (swap_remove sw i ms) = Some ms'"
          "mset ms' = filter_mset (\<lambda>x. snd x \<noteq> orig) (mset (swap_remove sw i ms))"
        using less.hyps [of "swap_remove sw i ms" i] less.prems True swap_remove_prefix [OF assms True] by auto
      moreover have "filter_mset (\<lambda>x. snd x \<noteq> orig) (mset ms - {#ms ! i#}) = filter_mset (\<lambda>x. snd x \<noteq> orig) (mset ms)"
        using drop by simp
      ultimately show ?thesis
        using True drop by (subst drop_members.simps) (simp add: mset_swap_remove [OF assms True])
    next
      case keep: False
      have "list_all (\<lambda>x. snd x \<noteq> orig) (take (Suc i) ms)"
        using less.prems True keep by (simp add: take_Suc_conv_app_nth)
      with True keep less.hyps [of ms "Suc i"] show ?thesis
        by (subst drop_members.simps) auto
    qed
  qed
qed

lemma update_mcast_membership_returns:
  assumes "profile_ok P"
  obtains ms where "drop_members (swap_order P) orig 0 (mcast_members e) = Some ms"
    "mset ms = filter_mset (\<lambda>x. snd x \<noteq> orig) (mset (mcast_members e))"
  using drop_members_returns [of "swap_order P" orig 0 "mcast_members e"] assms
  by (auto simp: profile_ok_def)

section \<open>Invariant\<close>

lemma configure_interface_ogm_eq:
  "configure_interface_ogm P idx i_min i_max now e =
     (if idx < max_interfaces P \<longrightarrow> new_fits i_min i_max now (jitter_seed (self_ident e) idx 0)
      then Some (ogm_configured P idx i_min i_max now e) else None)"
  by (simp add: configure_interface_ogm_def ogm_configured_def Let_def backfill_eq trickle_new_eq)

lemma configure_interface_keepalive_eq:
  "configure_interface_keepalive P idx interval now e =
     (if idx < max_interfaces P \<longrightarrow> pred_option (\<lambda>iv. new_fits iv iv now (jitter_seed (self_ident e) idx 0x9e3779b9)) interval
      then Some (keepalive_configured P idx interval now e) else None)"
  by (cases interval) (simp_all add: configure_interface_keepalive_def keepalive_configured_def Let_def backfill_eq trickle_new_eq)

lemmas timer_call_eqs = configure_interface_ogm_eq configure_interface_keepalive_eq on_interface_emitted_eq
  on_keepalive_emitted_eq reset_ogm_timers_eq apply_topology_change_eq set_local_mcast_groups_eq

text \<open>
  The only way a timer call of a well-formed engine panics: the clock reading plus a timer's current
  interval, or twice that interval, is past \<^verbatim>\<open>Duration::MAX\<close>.
\<close>

definition overflows :: "duration \<Rightarrow> batman_engine \<Rightarrow> bool" where
  "overflows now e \<longleftrightarrow> list_ex (\<lambda>t. DURATION_MAX < now + tt_interval t \<or> DURATION_MAX < 2 * tt_interval t)
     (ogm_timers e @ List.map_filter id (keepalive_timers e))"

lemma resets_fit_overflows:
  assumes "engine_ok P e" "\<not> overflows now e"
  shows "resets_fit now e"
proof -
  have "now + tt_i_min t \<le> DURATION_MAX" if "t \<in> set (ogm_timers e)" for t
  proof -
    have "tt_i_min t \<le> tt_interval t" using assms(1) that by (auto simp: engine_ok_def trickle_ok_def list_all_iff)
    moreover have "now + tt_interval t \<le> DURATION_MAX" using assms(2) that by (simp add: overflows_def list_ex_iff not_less)
    ultimately show ?thesis by simp
  qed
  then show ?thesis by (simp add: resets_fit_def reset_fits_def)
qed

lemma no_overflow_emit_fits:
  assumes "\<not> overflows now e"
  shows "t \<in> set (ogm_timers e) \<Longrightarrow> emit_fits t now" "Some t \<in> set (keepalive_timers e) \<Longrightarrow> emit_fits t now"
proof -
  have fits: "emit_fits t now" if "t \<in> set (ogm_timers e @ List.map_filter id (keepalive_timers e))" for t
    using assms that by (intro fits_bounds(1)) (simp_all only: overflows_def list_ex_iff not_less mult.commute bex_simps de_Morgan_disj)
  then show "t \<in> set (ogm_timers e) \<Longrightarrow> emit_fits t now" by simp
  have "Some t \<in> set (keepalive_timers e) \<Longrightarrow> t \<in> set (List.map_filter id (keepalive_timers e))"
    by (force simp: map_filter_def)
  with fits show "Some t \<in> set (keepalive_timers e) \<Longrightarrow> emit_fits t now" by simp
qed

lemma emitted_None_overflows:
  "on_interface_emitted idx now e = None \<Longrightarrow> overflows now e"
  "on_keepalive_emitted idx now e = None \<Longrightarrow> overflows now e"
proof -
  show "on_interface_emitted idx now e = None \<Longrightarrow> overflows now e"
    using no_overflow_emit_fits(1) [of now e "ogm_timers e ! idx"] by (auto simp: on_interface_emitted_eq split: if_splits)
  show "on_keepalive_emitted idx now e = None \<Longrightarrow> overflows now e"
    using no_overflow_emit_fits(2) [of now e "the (keepalive_timers e ! idx)"] nth_mem [of idx "keepalive_timers e"]
    by (cases "keepalive_timers e ! idx") (auto simp: on_keepalive_emitted_eq split: if_splits)
qed

lemma ogm_configured_ok: "engine_ok P e \<Longrightarrow> engine_ok P (ogm_configured P idx i_min i_max now e)"
  by (auto simp: ogm_configured_def Let_def engine_ok_def list_all_iff dest!: set_update_subset_insert [THEN subsetD])

lemma keepalive_configured_ok: "engine_ok P e \<Longrightarrow> engine_ok P (keepalive_configured P idx interval now e)"
  by (cases interval) (auto simp: keepalive_configured_def engine_ok_def list_all_iff pred_option_def
      dest!: set_update_subset_insert [THEN subsetD])

lemma interface_served_ok: "engine_ok P e \<Longrightarrow> engine_ok P (interface_served idx now e)"
  by (auto simp: interface_served_def engine_ok_def list_all_iff dest!: set_update_subset_insert [THEN subsetD])

lemma timers_restarted_ok: "engine_ok P e \<Longrightarrow> engine_ok P (timers_restarted now e)"
  by (auto simp: timers_restarted_def engine_ok_def list_all_iff)

lemma keepalive_served_ok: "engine_ok P e \<Longrightarrow> engine_ok P (keepalive_served idx now e)"
  by (auto simp: keepalive_served_def engine_ok_def list_all_iff pred_option_def
      dest!: set_update_subset_insert [THEN subsetD] split: option.splits) (metis nth_mem option.set_intros trickle_ok_on_emit)

lemma engine_ok_latch [simp]: "engine_ok P (e\<lparr>topology_changed := b\<rparr>) = engine_ok P e"
  by (simp add: engine_ok_def)

lemma engine_ok_seqno [simp]: "engine_ok P (e\<lparr>sequence_number := n\<rparr>) = engine_ok P e"
  by (simp add: engine_ok_def)

lemma topology_settled_ok: "engine_ok P e \<Longrightarrow> engine_ok P (topology_settled now e)"
  by (simp add: topology_settled_def timers_restarted_ok)

lemma groups_set_ok: "engine_ok P e \<Longrightarrow> engine_ok P (groups_set P now gs e)"
proof -
  assume "engine_ok P e"
  then have "engine_ok P (e\<lparr>local_mcast := push_all (max_local_mcast P) gs []\<rparr>)"
    by (simp add: engine_ok_def push_all_eq)
  with \<open>engine_ok P e\<close> show ?thesis by (simp add: groups_set_def Let_def timers_restarted_ok)
qed

lemma update_mcast_membership_ok:
  assumes "profile_ok P" "engine_ok P e"
  shows "\<exists>e'. update_mcast_membership P orig frame e = Some e' \<and> engine_ok P e'"
proof -
  obtain ms where ms: "drop_members (swap_order P) orig 0 (mcast_members e) = Some ms"
      "mset ms = filter_mset (\<lambda>x. snd x \<noteq> orig) (mset (mcast_members e))"
    by (rule update_mcast_membership_returns [OF assms(1)])
  have "length ms \<le> length (mcast_members e)"
    using ms(2) by (metis size_filter_mset_lesseq size_mset)
  with assms(2) have "length ms \<le> max_mcast_members P" by (simp add: engine_ok_def)
  with assms(2) ms(1) show ?thesis
    by (auto simp: update_mcast_membership_def Let_def engine_ok_def push_all_eq split: option.splits)
qed

section \<open>The periodic frame\<close>

definition own_tail :: "mac list \<Rightarrow> bytes" where
  "own_tail gs = (if gs = [] then []
     else tvlv_hdr_write \<lparr>th_type = tvlv_as_u8 TvMcast, th_version = 1, th_len = word_of_nat (6 * length gs)\<rparr>
          @ macs_bytes gs)"

definition own_ogm :: "batman_engine \<Rightarrow> ogm_packet" where
  "own_ogm e = \<lparr>ogm_packet_type = packet_type_as_u8 Ogm, ogm_version = BATMAN_VERSION, ogm_ttl = 50,
     ogm_flags = 0, ogm_seqno = sequence_number e + 1, ogm_orig = self_ident e, ogm_reserved = 0, ogm_tq = 255,
     ogm_tvlv_len = word_of_nat (length (own_tail (local_mcast e)))\<rparr>"

definition ticked :: "duration \<Rightarrow> batman_engine \<Rightarrow> batman_engine" where
  "ticked now e = (topology_settled now (purge_stale now e))\<lparr>sequence_number := sequence_number e + 1\<rparr>"

definition tick_fits :: "duration \<Rightarrow> batman_engine \<Rightarrow> bool" where
  "tick_fits now e \<longleftrightarrow> (topology_changed (purge_stale now e) \<longrightarrow> resets_fit now e)"

lemma write_groups_eq:
  "off + 6 * length gs \<le> length buf \<Longrightarrow>
     write_groups gs off buf = Some (take off buf @ macs_bytes gs @ drop (off + 6 * length gs) buf)"
  by (induction gs arbitrary: off buf) (auto simp: copy_into_def ac_simps)

lemma write_groups_None:
  "length buf < off + 6 * length gs \<Longrightarrow> gs \<noteq> [] \<Longrightarrow> write_groups gs off buf = None"
proof (induction gs arbitrary: off buf)
  case (Cons g gs)
  then show ?case
    by (cases "gs = []") (auto simp: copy_into_def)
qed simp

lemma length_own_tail: "length (own_tail gs) = (if length gs * 6 = 0 then 0 else TVLV_HDR_LEN + length gs * 6)"
  by (simp add: own_tail_def)

lemma topology_settled_frame [frame_simps]:
  "self_ident (topology_settled now e) = self_ident e"
  "local_mcast (topology_settled now e) = local_mcast e"
  "sequence_number (topology_settled now e) = sequence_number e"
  "originator_table (topology_settled now e) = originator_table e"
  "mcast_members (topology_settled now e) = mcast_members e"
  by (simp_all add: topology_settled_def timers_restarted_def)

lemma produce_periodic_broadcast_eq:
  "produce_periodic_broadcast now buf e =
     (let frame = ogm_write (own_ogm e) @ own_tail (local_mcast e) in
      if tick_fits now e \<and> length frame \<le> length buf
      then Some (frame, frame @ drop (length frame) buf, ticked now e) else None)"
proof (cases "tick_fits now e")
  case False
  then show ?thesis by (simp add: produce_periodic_broadcast_def apply_topology_change_eq tick_fits_def)
next
  case fits: True
  let ?gs = "local_mcast e"
  have body: "produce_periodic_broadcast now buf e =
     do { buf \<leftarrow> copy_into buf 0 (ogm_write (own_ogm e));
          buf \<leftarrow> (if length ?gs * 6 > 0
              then do { buf \<leftarrow> copy_into buf OGM_SIZE (tvlv_hdr_write \<lparr>th_type = tvlv_as_u8 TvMcast,
                          th_version = 1, th_len = word_of_nat (length ?gs * 6)\<rparr>);
                        write_groups ?gs (OGM_SIZE + TVLV_HDR_LEN) buf }
              else Some buf);
          out \<leftarrow> get_range buf 0 (OGM_SIZE + length (own_tail ?gs));
          Some (out, buf, ticked now e) }"
    using fits by (simp add: produce_periodic_broadcast_def apply_topology_change_eq tick_fits_def Let_def frame_simps
        own_ogm_def length_own_tail ticked_def)
  show ?thesis
  proof (cases "?gs = []")
    case True
    then show ?thesis
      using fits by (simp add: body own_tail_def copy_into_def get_range_def header_sizes Let_def)
  next
    case False
    define H where "H = ogm_write (own_ogm e)"
    define T where "T = tvlv_hdr_write \<lparr>th_type = tvlv_as_u8 TvMcast, th_version = 1, th_len = word_of_nat (6 * length ?gs)\<rparr>"
    have len: "length H = 18" "length T = 4"
      by (simp_all add: H_def T_def header_sizes)
    have tail: "own_tail ?gs = T @ macs_bytes ?gs"
      using False by (simp add: own_tail_def T_def)
    have body': "produce_periodic_broadcast now buf e =
       do { buf \<leftarrow> copy_into buf 0 H; buf \<leftarrow> copy_into buf 18 T; buf \<leftarrow> write_groups ?gs 22 buf;
            out \<leftarrow> get_range buf 0 (22 + 6 * length ?gs); Some (out, buf, ticked now e) }"
      using False by (simp add: body H_def T_def tail header_sizes mult.commute)
    show ?thesis
    proof (cases "22 + 6 * length ?gs \<le> length buf")
      case True
      then have "copy_into buf 0 H = Some (H @ drop 18 buf)" "copy_into (H @ drop 18 buf) 18 T = Some (H @ T @ drop 22 buf)"
        "write_groups ?gs 22 (H @ T @ drop 22 buf) = Some (H @ T @ macs_bytes ?gs @ drop (22 + 6 * length ?gs) buf)"
        by (simp_all add: copy_into_def len write_groups_eq add.commute)
      with True show ?thesis
        using fits by (simp add: body' get_range_def len tail H_def [symmetric])
    next
      case short: False
      have none: "write_groups ?gs 22 b = None" if "length b = length buf" for b
        using that short False by (intro write_groups_None) auto
      show ?thesis
        using short by (auto simp: body' tail H_def [symmetric] len Let_def none dest!: copy_into_length
            split: bind_splits)
    qed
  qed
qed

lemma ticked_ok: "engine_ok P e \<Longrightarrow> engine_ok P (ticked now e)"
  by (simp add: ticked_def topology_settled_ok purge_stale_ok)

lemma mac_chunks_bytes [simp]: "mac_chunks (macs_bytes gs) = gs"
proof (induction gs)
  case (Cons g gs)
  then show ?case by (cases g) simp
qed simp

lemma own_tail_print:
  "own_tail gs = tvlv_print (if gs = [] then []
     else [\<lparr>tr_type = tvlv_as_u8 TvMcast, tr_version = 1, tr_value = macs_bytes gs\<rparr>])"
  by (simp add: own_tail_def record_bytes_def)

lemma own_tail_parse:
  assumes "6 * length gs < 2 ^ 16"
  shows "tvlv_parse (own_tail gs) = Some (if gs = [] then []
     else [\<lparr>tr_type = tvlv_as_u8 TvMcast, tr_version = 1, tr_value = macs_bytes gs\<rparr>])"
  unfolding own_tail_print by (rule tvlv_parse_print) (use assms in \<open>simp add: record_ok_def\<close>)

lemma own_tail_find:
  "6 * length gs < 2 ^ 16 \<Longrightarrow>
     find_tvlv (own_tail gs) TvMcast = (if gs = [] then None else Some (macs_bytes gs))"
  using find_tvlv_parse [OF own_tail_parse, of gs TvMcast] by simp

section \<open>The due interface\<close>

lemma min_by_key_const: "(\<And>x. x \<in> set xs \<Longrightarrow> f x = c) \<Longrightarrow> min_by_key f xs = (case xs of [] \<Rightarrow> None | x # _ \<Rightarrow> Some x)"
proof (cases xs)
  case (Cons x ys)
  assume "\<And>x. x \<in> set xs \<Longrightarrow> f x = c"
  then show ?thesis
    using Cons min_by_key_in [of f ys] by (auto split: option.splits)
qed simp

lemma pick_due_first: "pick_due its now = (case filter (\<lambda>(i, t). due t now) its of [] \<Rightarrow> None | x # _ \<Rightarrow> Some (fst x))"
proof -
  have "min_by_key (\<lambda>(i, t). time_until t now) (filter (\<lambda>(i, t). due t now) its) =
      (case filter (\<lambda>(i, t). due t now) its of [] \<Rightarrow> None | x # _ \<Rightarrow> Some x)"
    by (rule min_by_key_const [where c = 0]) (auto simp: trickle.due_iff)
  then show ?thesis by (simp add: pick_due_def split: list.splits)
qed

lemma filter_enumerate: "map fst (filter (\<lambda>(i, t). Q t) (enumerate 0 ts)) = filter (\<lambda>i. Q (ts ! i)) [0..<length ts]"
proof (induction ts rule: rev_induct)
  case (snoc t ts)
  have "filter (\<lambda>i. Q ((ts @ [t]) ! i)) [0..<length ts] = filter (\<lambda>i. Q (ts ! i)) [0..<length ts]"
    by (rule filter_cong) (auto simp: nth_append)
  with snoc show ?case by (simp add: enumerate_append_eq)
qed simp

lemma membership_table:
  assumes "profile_ok P" "engine_ok P e"
  shows "\<exists>e'. update_mcast_membership P orig frame e = Some e' \<and> engine_ok P e'
    \<and> filter_mset (\<lambda>x. snd x \<noteq> orig) (mset (mcast_members e')) = filter_mset (\<lambda>x. snd x \<noteq> orig) (mset (mcast_members e))
    \<and> map fst (filter (\<lambda>x. snd x = orig) (mcast_members e')) =
        take (max_mcast_members P - size (filter_mset (\<lambda>x. snd x \<noteq> orig) (mset (mcast_members e))))
          (case find_tvlv (drop OGM_SIZE (lf_payload frame)) TvMcast of None \<Rightarrow> [] | Some v \<Rightarrow> mac_chunks v)"
proof -
  obtain e' where e': "update_mcast_membership P orig frame e = Some e'" "engine_ok P e'"
    using update_mcast_membership_ok [OF assms] by blast
  obtain ms where ms: "drop_members (swap_order P) orig 0 (mcast_members e) = Some ms"
      "mset ms = filter_mset (\<lambda>x. snd x \<noteq> orig) (mset (mcast_members e))"
    by (rule update_mcast_membership_returns [OF assms(1)])
  define new where "new = (case find_tvlv (drop OGM_SIZE (lf_payload frame)) TvMcast of None \<Rightarrow> [] | Some v \<Rightarrow> mac_chunks v)"
  have range: "(case get_range (lf_payload frame) OGM_SIZE (length (lf_payload frame)) of Some t \<Rightarrow> t | None \<Rightarrow> []) =
      drop OGM_SIZE (lf_payload frame)"
    by (simp add: get_range_def)
  have le: "length ms \<le> max_mcast_members P"
    using assms(2) ms(2) by (metis engine_ok_def order_trans size_filter_mset_lesseq size_mset)
  have mem: "mcast_members e' = ms @ take (max_mcast_members P - length ms) (map (\<lambda>g. (g, orig)) new)"
    using e'(1) le by (auto simp: update_mcast_membership_def Let_def range ms(1) new_def push_all_eq split: option.splits)
  have others: "list_all (\<lambda>x. snd x \<noteq> orig) ms"
    using ms(2) by (metis (mono_tags, lifting) filter_mset_eq_conv list_all_iff set_mset_mset)
  have sz: "size (filter_mset (\<lambda>x. snd x \<noteq> orig) (mset (mcast_members e))) = length ms"
    by (metis ms(2) size_mset)
  have "filter (\<lambda>x. snd x = orig) ms = []" using others by (simp add: filter_empty_conv list_all_iff)
  then have "map fst (filter (\<lambda>x. snd x = orig) (mcast_members e')) = take (max_mcast_members P - length ms) new"
    by (simp add: mem take_map filter_map comp_def)
  moreover have "filter_mset (\<lambda>x. snd x \<noteq> orig) (mset (mcast_members e')) = filter_mset (\<lambda>x. snd x \<noteq> orig) (mset ms)"
    by (simp add: mem take_map filter_mset_eq_conv flip: mset_filter)
  ultimately show ?thesis
    using e' sz ms(2) by (simp add: new_def filter_filter_mset)
qed

section \<open>Properties\<close>

text \<open>
  The periodic announcement reads back. With room in the buffer for the header and the group
  list, \<open>produce_periodic_broadcast\<close> returns a frame whose header carries this node's address,
  the next sequence number, full quality and a TVLV length equal to the bytes that follow, and
  whose multicast record decodes to exactly the local groups; it panics with less room, or when the
  clock is so late that restarting a timer overflows.
\<close>

theorem periodic_ogm_roundtrip:
  assumes "engine_ok P e" "6 * length (local_mcast e) + TVLV_HDR_LEN < 2 ^ 16"
  shows "case produce_periodic_broadcast now buf e of
      None \<Rightarrow> length buf < OGM_SIZE + length (own_tail (local_mcast e)) \<or> \<not> resets_fit now e
    | Some (frame, buf', e') \<Rightarrow>
        engine_ok P e' \<and> sequence_number e' = sequence_number e + 1 \<and> take (length frame) buf' = frame
        \<and> (case ogm_read frame of
             None \<Rightarrow> False
           | Some (h, tail) \<Rightarrow> ogm_orig h = self_ident e \<and> ogm_seqno h = sequence_number e' \<and> ogm_tq h = 255
               \<and> ogm_version h = BATMAN_VERSION \<and> packet_type_from_u8 (ogm_packet_type h) = Some Ogm
               \<and> unat (ogm_tvlv_len h) = length tail
               \<and> (case find_tvlv tail TvMcast of None \<Rightarrow> [] | Some v \<Rightarrow> mac_chunks v) = local_mcast e)"
proof (cases "tick_fits now e \<and> OGM_SIZE + length (own_tail (local_mcast e)) \<le> length buf")
  case True
  have len: "unat (word_of_nat (length (own_tail (local_mcast e))) :: u16) = length (own_tail (local_mcast e))"
    using assms(2) by (simp add: unat_of_nat own_tail_def header_sizes)
  have tail: "find_tvlv (own_tail (local_mcast e)) TvMcast =
      (if local_mcast e = [] then None else Some (macs_bytes (local_mcast e)))"
    using assms(2) by (intro own_tail_find) simp
  have "produce_periodic_broadcast now buf e = Some (ogm_write (own_ogm e) @ own_tail (local_mcast e),
      ogm_write (own_ogm e) @ own_tail (local_mcast e) @ drop (OGM_SIZE + length (own_tail (local_mcast e))) buf,
      ticked now e)"
    using True by (simp add: produce_periodic_broadcast_eq Let_def)
  moreover have "ogm_read (ogm_write (own_ogm e) @ own_tail (local_mcast e)) = Some (own_ogm e, own_tail (local_mcast e))"
    by (rule ogm_codec.read_write)
  ultimately show ?thesis
    using ticked_ok [OF assms(1)] tail len packet_type_roundtrip [of Ogm]
    by (simp add: own_ogm_def) (simp add: ticked_def)
next
  case False
  then show ?thesis by (auto simp: produce_periodic_broadcast_eq Let_def tick_fits_def)
qed

text \<open>
  An accepted membership announcement is authoritative. \<open>update_mcast_membership\<close> always
  returns; every membership of another originator is kept, and the originator's own become the
  announced groups in order, cut off only where the table is full.
\<close>

theorem membership_replaced:
  assumes "profile_ok P" "engine_ok P e"
  shows "\<exists>e'. update_mcast_membership P orig frame e = Some e' \<and> engine_ok P e'
    \<and> filter_mset (\<lambda>x. snd x \<noteq> orig) (mset (mcast_members e')) = filter_mset (\<lambda>x. snd x \<noteq> orig) (mset (mcast_members e))
    \<and> map fst (filter (\<lambda>x. snd x = orig) (mcast_members e')) =
        take (max_mcast_members P - size (filter_mset (\<lambda>x. snd x \<noteq> orig) (mset (mcast_members e))))
          (case find_tvlv (drop OGM_SIZE (lf_payload frame)) TvMcast of None \<Rightarrow> [] | Some v \<Rightarrow> mac_chunks v)"
  by (rule membership_table [OF assms])

text \<open>
  Which interface emits. \<open>due_interface\<close> names an interface exactly when some timer is due,
  which is exactly when \<open>next_broadcast_after\<close> asks for no further wait; the one it names is the
  due interface of the lowest index, whatever the deadlines of the others.
\<close>

theorem due_interface_first:
  "due_interface e now =
     (case filter (\<lambda>i. due (ogm_timers e ! i) now) [0..<length (ogm_timers e)] of [] \<Rightarrow> None | i # _ \<Rightarrow> Some i)
   \<and> (due_interface e now \<noteq> None \<longleftrightarrow> next_broadcast_after e now = 0)"
proof -
  have first: "due_interface e now =
      (case filter (\<lambda>i. due (ogm_timers e ! i) now) [0..<length (ogm_timers e)] of [] \<Rightarrow> None | i # _ \<Rightarrow> Some i)"
    using filter_enumerate [of "\<lambda>t. due t now" "ogm_timers e"]
    unfolding due_interface_def pick_due_first by (auto split: list.splits)
  have "due_interface e now \<noteq> None \<longleftrightarrow> (\<exists>t \<in> set (ogm_timers e). due t now)"
  proof -
    have "due_interface e now = None \<longleftrightarrow> filter (\<lambda>i. due (ogm_timers e ! i) now) [0..<length (ogm_timers e)] = []"
      unfolding first by (simp split: list.splits)
    then have "due_interface e now \<noteq> None \<longleftrightarrow> (\<exists>i < length (ogm_timers e). due (ogm_timers e ! i) now)"
      by (auto simp: filter_empty_conv)
    then show ?thesis by (simp only: Bex_def in_set_conv_nth) blast
  qed
  moreover have "next_broadcast_after e now = 0 \<longleftrightarrow> (\<exists>t \<in> set (ogm_timers e). due t now)"
    using trickle.soonest_zero_iff [of "ogm_timers e" now]
    by (cases "ogm_timers e = []") (simp_all add: next_broadcast_after_def iter_min_def idle_wait_def)
  ultimately show ?thesis using first by blast
qed

text \<open>
  Local joins are announced promptly and repeats are free. Setting the groups the node already
  has changes nothing at all; a changed set is what the node then announces (up to its
  capacity), with every OGM timer due within its \<open>i_min\<close>; the call panics only where a clock
  reading plus a timer's \<open>i_min\<close> overflows.
\<close>

theorem local_groups_prompt:
  assumes "engine_ok P e" "list_all (\<lambda>t. tt_i_min t < 2 ^ 64) (ogm_timers e)"
  shows "case set_local_mcast_groups P now groups e of
      None \<Rightarrow> take (max_local_mcast P) groups \<noteq> local_mcast e \<and> (\<exists>t \<in> set (ogm_timers e). DURATION_MAX < now + tt_i_min t)
    | Some e' \<Rightarrow> local_mcast e' = take (max_local_mcast P) groups
        \<and> (if take (max_local_mcast P) groups = local_mcast e then e' = e
           else list_all (\<lambda>t. tt_next_fire t \<le> now + tt_i_min t) (ogm_timers e'))"
proof -
  have "tt_next_fire (restarted t now) \<le> now + tt_i_min t" if "t \<in> set (ogm_timers e)" for t
    using that assms by (intro timer_reset_next_fire(2)) (auto simp: engine_ok_def list_all_iff)
  then show ?thesis
    by (auto simp: set_local_mcast_groups_eq groups_set_def Let_def push_all_eq timers_restarted_def list_all_iff
        resets_fit_def reset_fits_def not_le)
qed

section \<open>Witnesses\<close>

definition group_sample :: batman_engine where
  "group_sample = sample_engine\<lparr>local_mcast := [Mac 1 0 0x5e 0 0 7],
     mcast_members := [(Mac 1 0 0x5e 0 0 5, Mac 0 0 0 0 0 9), (Mac 1 0 0x5e 0 0 6, Mac 0 0 0 0 0 8)]\<rparr>"

lemma group_sample_ok: "engine_ok sample_profile group_sample"
  using sample_engine_ok
  by (simp add: group_sample_def engine_ok_def default_profile_def MAX_LOCAL_MCAST_def MAX_MCAST_MEMBERS_def)

theorem periodic_ogm_roundtrip_witness:
  "case produce_periodic_broadcast 0 (replicate 64 0) group_sample of
     None \<Rightarrow> False
   | Some (frame, buf', e') \<Rightarrow> sequence_number e' = 1
       \<and> (case ogm_read frame of None \<Rightarrow> False
          | Some (h, tail) \<Rightarrow> find_tvlv tail TvMcast \<noteq> None \<and> unat (ogm_tvlv_len h) = length tail)"
proof -
  have "6 * length (local_mcast group_sample) + TVLV_HDR_LEN < 2 ^ 16"
    "\<not> length (replicate 64 0 :: bytes) < OGM_SIZE + length (own_tail (local_mcast group_sample))"
    "local_mcast group_sample \<noteq> []" "sequence_number group_sample = 0" "resets_fit 0 group_sample"
    by (simp_all add: group_sample_def sample_defs own_tail_def header_sizes resets_fit_def)
  with periodic_ogm_roundtrip [OF group_sample_ok this(1), where now = 0 and buf = "replicate 64 0"] show ?thesis
    by (auto split: option.splits prod.splits)
qed

theorem membership_replaced_witness:
  "\<exists>e'. update_mcast_membership sample_profile (Mac 0 0 0 0 0 9)
         \<lparr>lf_dst = BROADCAST, lf_src = Mac 0 0 0 0 0 9, lf_protocol = ETH_P_BATMAN, lf_payload = []\<rparr> group_sample = Some e'
     \<and> filter (\<lambda>x. snd x = Mac 0 0 0 0 0 9) (mcast_members e') = []"
proof -
  have "find_tvlv [] TvMcast = None"
    by (simp add: find_tvlv_parse)
  with membership_replaced [OF sample_profile_ok group_sample_ok, of "Mac 0 0 0 0 0 9"
      "\<lparr>lf_dst = BROADCAST, lf_src = Mac 0 0 0 0 0 9, lf_protocol = ETH_P_BATMAN, lf_payload = []\<rparr>"]
  show ?thesis by auto
qed

theorem local_groups_prompt_witness:
  "set_local_mcast_groups sample_profile 5 [Mac 1 0 0x5e 0 0 7] group_sample = Some group_sample"
  using local_groups_prompt [OF group_sample_ok, of "[Mac 1 0 0x5e 0 0 7]" 5]
  by (simp add: group_sample_def sample_defs default_profile_def MAX_LOCAL_MCAST_def split: option.splits)

end
