(* ===== verification/Ogm_Handler.thy ===== *)
theory Ogm_Handler
  imports Emission
begin

text \<open>
  Receiving an OGM (\<^verbatim>\<open>handle_ogm\<close> in \<^verbatim>\<open>libs/batman/src/engine.rs\<close>). The handler is composed of
  its steps: find or create the originator's record, judge the sequence number, learn the
  path, select the next hop, fold in the memberships and re-flood. A result is the action, the
  caller's reply buffer and the new engine; \<open>None\<close> stands for a panic or a loop that does not
  return, and \<open>handle_ogm_returns\<close> shows that neither happens.
\<close>

section \<open>Steps\<close>

definition fresh_record :: "millis \<Rightarrow> mac \<Rightarrow> originator_record" where
  "fresh_record now_ms orig =
     \<lparr>or_last_heard = now_ms, or_neighbor_ident = orig, or_best_next_hop = None, or_max_tq = 0,
      or_last_seqno = 0, or_resync_watch = None, or_paths = []\<rparr>"

definition discover_originator :: "profile \<Rightarrow> millis \<Rightarrow> mac \<Rightarrow> batman_engine \<Rightarrow> batman_engine" where
  "discover_originator P now_ms orig e =
     (let t = originator_table e;
          t = (if length t \<ge> max_originators P
               then (case max_by_key (\<lambda>r. elapsed_since now_ms (or_last_heard r)) (map snd t) of
                       None \<Rightarrow> t
                     | Some oldest \<Rightarrow> im_remove (swap_order P) (or_neighbor_ident oldest) t)
               else t)
      in e\<lparr>originator_table :=
           (case im_insert (max_originators P) orig (fresh_record now_ms orig) t of Some t' \<Rightarrow> t' | None \<Rightarrow> t)\<rparr>)"

definition judge_seqno ::
    "bool \<Rightarrow> u32 \<Rightarrow> duration \<Rightarrow> originator_record \<Rightarrow> seqno_admission \<times> originator_record" where
  "judge_seqno is_new_orig incoming_seqno now record =
     (if is_new_orig then (Advanced, record\<lparr>or_last_seqno := incoming_seqno\<rparr>)
      else (case admit_seqno OGM_BANDS (or_last_seqno record) (or_resync_watch record) incoming_seqno now of
              (admission, hw, w) \<Rightarrow> (admission, record\<lparr>or_last_seqno := hw, or_resync_watch := w\<rparr>)))"

definition attenuated_tq :: "u8 \<Rightarrow> u8 option \<Rightarrow> u8" where
  "attenuated_tq tq local_quality =
     (let computed_tq = saturating_sub tq 10 in
      case local_quality of Some q \<Rightarrow> min computed_tq q | None \<Rightarrow> computed_tq)"

definition refresh_path :: "millis \<Rightarrow> u8 \<Rightarrow> u32 \<Rightarrow> neighbor_stats \<Rightarrow> neighbor_stats" where
  "refresh_path now_ms computed_tq incoming_seqno path =
     (let path = (if incoming_seqno > ns_last_seqno path
                  then path\<lparr>ns_interval_estimate_ms :=
                         blend_interval_ms (ns_interval_estimate_ms path) (elapsed_since now_ms (ns_last_heard path))\<rparr>
                  else path)
      in path\<lparr>ns_last_tq := computed_tq, ns_last_seqno := incoming_seqno, ns_last_heard := now_ms\<rparr>)"

text \<open>The first path of this neighbour, updated in place; or a new one while there is room.\<close>

definition learn_path ::
    "millis \<Rightarrow> mac \<Rightarrow> u8 \<Rightarrow> u32 \<Rightarrow> originator_record \<Rightarrow> originator_record" where
  "learn_path now_ms src computed_tq incoming_seqno record =
     (case update_first (\<lambda>p. ns_neighbor_ident p = src) (refresh_path now_ms computed_tq incoming_seqno)
             (or_paths record) of
        Some ps \<Rightarrow> record\<lparr>or_paths := ps\<rparr>
      | None \<Rightarrow>
          if length (or_paths record) < MAX_PATHS
          then record\<lparr>or_paths := or_paths record @
                 [\<lparr>ns_neighbor_ident = src, ns_last_tq = computed_tq, ns_last_seqno = incoming_seqno,
                   ns_last_heard = now_ms, ns_interval_estimate_ms = 0\<rparr>]\<rparr>
          else record)"

definition select_hop :: "mac \<Rightarrow> bool \<Rightarrow> u8 \<Rightarrow> originator_record \<Rightarrow> originator_record" where
  "select_hop src src_proven computed_tq record =
     (if or_best_next_hop record = Some src
      then if src_proven then record\<lparr>or_max_tq := computed_tq\<rparr>
           else record\<lparr>or_best_next_hop := None, or_max_tq := 0\<rparr>
      else if src_proven \<and> (or_best_next_hop record = None \<or> computed_tq > or_max_tq record)
      then record\<lparr>or_max_tq := computed_tq, or_best_next_hop := Some src\<rparr>
      else record)"

definition note_relay_oversize_drop :: "batman_engine \<Rightarrow> batman_engine" where
  "note_relay_oversize_drop e = e\<lparr>relay_oversize_drops := saturating_add (relay_oversize_drops e) 1\<rparr>"

definition note_tail_malformed :: "batman_engine \<Rightarrow> batman_engine" where
  "note_tail_malformed e = e\<lparr>ogm_tails_malformed := saturating_add (ogm_tails_malformed e) 1\<rparr>"

definition reflood_ogm ::
    "ogm_packet \<Rightarrow> bytes \<Rightarrow> mac \<Rightarrow> u8 \<Rightarrow> frame_data \<Rightarrow> batman_engine \<Rightarrow> frame_data \<times> batman_engine" where
  "reflood_ogm ogm ogm_tail src computed_tq reply e =
     (let outbound_ogm = ogm\<lparr>ogm_ttl := ogm_ttl ogm - 1, ogm_tq := computed_tq\<rparr>;
          size = OGM_SIZE
      in case stamped_len ogm_tail of
           None \<Rightarrow> (reply, note_tail_malformed e)
         | Some out_tvlv_len \<Rightarrow>
             (let payload = fd_payload reply;
                  (payload, stamped) =
                    (if size \<le> length payload \<and> length (drop size payload) \<ge> out_tvlv_len
                     then (case stamp_prev_sender ogm_tail (drop size payload) src of
                             (out, written) \<Rightarrow>
                               (take size payload @ out,
                                case written of
                                  None \<Rightarrow> None
                                | Some len \<Rightarrow> if len \<le> 65535 then Some (word_of_nat len :: u16) else None))
                     else (payload, None))
              in case stamped of
                   Some wire_len \<Rightarrow>
                     (\<lparr>fd_dst = BROADCAST, fd_protocol = ETH_P_BATMAN,
                       fd_payload = ogm_write (outbound_ogm\<lparr>ogm_tvlv_len := wire_len\<rparr>) @ drop size payload\<rparr>, e)
                 | None \<Rightarrow> (reply\<lparr>fd_payload := payload\<rparr>, note_relay_oversize_drop e)))"

section \<open>The handler\<close>

definition learn_ogm ::
    "profile \<Rightarrow> duration \<Rightarrow> link_frame \<Rightarrow> u8 option \<Rightarrow> ogm_packet \<Rightarrow> bytes \<Rightarrow> frame_data \<Rightarrow> batman_engine
       \<Rightarrow> (frame_data \<times> batman_engine) option" where
  "learn_ogm P now frame local_quality ogm ogm_tail reply e =
     (let now_ms = from_duration now;
          orig = ogm_orig ogm;
          incoming_seqno = ogm_seqno ogm;
          src_proven = proof_current e now (lf_src frame);
          is_new_orig = (\<not> im_contains (originator_table e) orig);
          e = (if is_new_orig then discover_originator P now_ms orig e else e)
      in case im_get (originator_table e) orig of
           None \<Rightarrow> None
         | Some record \<Rightarrow>
             (case judge_seqno is_new_orig incoming_seqno now record of
                (admission, record) \<Rightarrow>
                  (let e = (if is_resynchronised admission
                            then e\<lparr>seqno_resyncs := saturating_add (seqno_resyncs e) 1\<rparr> else e);
                       e = (if admission = Watching \<and> ogm_ttl ogm > 1
                            then e\<lparr>ogm_refloods_suppressed := saturating_add (ogm_refloods_suppressed e) 1\<rparr>
                            else e)
                   in if is_stale_copy admission
                      then Some (reply, e\<lparr>originator_table := im_set orig record (originator_table e)\<rparr>)
                      else
                        let record = (if contents_are_current admission
                                      then record\<lparr>or_last_heard := now_ms\<rparr> else record);
                            computed_tq = attenuated_tq (ogm_tq ogm) local_quality;
                            record = learn_path now_ms (lf_src frame) computed_tq incoming_seqno record;
                            record = select_hop (lf_src frame) src_proven computed_tq record;
                            e = e\<lparr>originator_table := im_set orig record (originator_table e)\<rparr>
                        in do { e \<leftarrow> (if contents_are_current admission
                                      then update_mcast_membership P orig frame e else Some e);
                                let e = (if is_new_orig then e\<lparr>topology_changed := True\<rparr> else e);
                                Some (if advanced admission \<and> ogm_ttl ogm > 1
                                      then reflood_ogm ogm ogm_tail (lf_src frame) computed_tq reply e
                                      else (reply, e)) })))"

definition handle_ogm ::
    "profile \<Rightarrow> duration \<Rightarrow> link_frame \<Rightarrow> u8 option \<Rightarrow> frame_data \<Rightarrow> batman_engine
       \<Rightarrow> (routing_action \<times> frame_data \<times> batman_engine) option" where
  "handle_ogm P now frame local_quality reply e =
     (case ogm_read (lf_payload frame) of
        None \<Rightarrow> Some (Consumed, reply, e)
      | Some (ogm, _) \<Rightarrow>
          if ogm_orig ogm = self_ident e then Some (Consumed, reply, e)
          else
            (case get_range (lf_payload frame) OGM_SIZE (OGM_SIZE + unat (ogm_tvlv_len ogm)) of
               None \<Rightarrow> Some (Consumed, reply, note_tail_malformed e)
             | Some ogm_tail \<Rightarrow>
                 if prev_sender ogm_tail = Some (self_ident e)
                 then Some (Consumed, reply, e\<lparr>ogm_echoes_dropped := saturating_add (ogm_echoes_dropped e) 1\<rparr>)
                 else do { (reply, e) \<leftarrow> learn_ogm P now frame local_quality ogm ogm_tail reply e;
                           e \<leftarrow> apply_topology_change now e;
                           Some (Consumed, reply, e) }))"

section \<open>Frame facts\<close>

lemma engine_ok_counters [simp]:
  "engine_ok P (e\<lparr>seqno_resyncs := n\<rparr>) = engine_ok P e"
  "engine_ok P (e\<lparr>ogm_refloods_suppressed := n\<rparr>) = engine_ok P e"
  "engine_ok P (e\<lparr>ogm_echoes_dropped := n\<rparr>) = engine_ok P e"
  "engine_ok P (e\<lparr>ogm_tails_malformed := n\<rparr>) = engine_ok P e"
  "engine_ok P (e\<lparr>relay_oversize_drops := n\<rparr>) = engine_ok P e"
  "engine_ok P (e\<lparr>broadcast_dedup_evictions := n\<rparr>) = engine_ok P e"
  "engine_ok P (e\<lparr>broadcast_seqno_refusals := n\<rparr>) = engine_ok P e"
  "engine_ok P (e\<lparr>mcast_oversize_lists := n\<rparr>) = engine_ok P e"
  "engine_ok P (e\<lparr>mcast_unroutable_dests := n\<rparr>) = engine_ok P e"
  "engine_ok P (e\<lparr>mcast_emit_overflows := n\<rparr>) = engine_ok P e"
  by (simp_all add: engine_ok_def)

lemma note_drops_ok [simp]:
  "engine_ok P (note_relay_oversize_drop e) = engine_ok P e"
  "engine_ok P (note_tail_malformed e) = engine_ok P e"
  by (simp_all add: note_relay_oversize_drop_def note_tail_malformed_def)

text \<open>A re-flood touches only counters.\<close>

lemma reflood_ogm_state:
  "snd (reflood_ogm ogm tail src tq reply e) \<in> {e, note_tail_malformed e, note_relay_oversize_drop e}"
  by (simp add: reflood_ogm_def Let_def split: option.splits prod.splits if_splits)

lemma note_drops_frame [frame_simps]:
  "originator_table (note_relay_oversize_drop e) = originator_table e"
  "originator_table (note_tail_malformed e) = originator_table e"
  "mcast_members (note_relay_oversize_drop e) = mcast_members e"
  "mcast_members (note_tail_malformed e) = mcast_members e"
  "proven (note_relay_oversize_drop e) = proven e"
  "proven (note_tail_malformed e) = proven e"
  "keepalive (note_relay_oversize_drop e) = keepalive e"
  "keepalive (note_tail_malformed e) = keepalive e"
  "require_proof (note_relay_oversize_drop e) = require_proof e"
  "require_proof (note_tail_malformed e) = require_proof e"
  by (simp_all add: note_relay_oversize_drop_def note_tail_malformed_def)

lemma reflood_ogm_frame [frame_simps]:
  "originator_table (snd (reflood_ogm ogm tail src tq reply e)) = originator_table e"
  "mcast_members (snd (reflood_ogm ogm tail src tq reply e)) = mcast_members e"
  "engine_ok P (snd (reflood_ogm ogm tail src tq reply e)) = engine_ok P e"
  using reflood_ogm_state [of ogm tail src tq reply e] by (auto simp: frame_simps)

section \<open>Finding the record\<close>

lemma max_by_key_map: "max_by_key f (map g xs) = map_option g (max_by_key (\<lambda>x. f (g x)) xs)"
  by (induction xs) (auto split: option.splits)

lemma discover_originator_table:
  assumes "table_ok (originator_table e)" "\<not> im_contains (originator_table e) orig"
  shows "discover_originator P now_ms orig e = e\<lparr>originator_table :=
    insert_evicting (swap_order P) (max_originators P) (\<lambda>r. elapsed_since now_ms (or_last_heard r)) orig
      (fresh_record now_ms orig) (originator_table e)\<rparr>"
proof (cases "length (originator_table e) < max_originators P")
  case True
  with assms(2) show ?thesis
    by (simp add: discover_originator_def insert_evicting_def im_insert_def)
next
  case False
  let ?t = "originator_table e"
  have ins: "im_insert (max_originators P) orig r ?t = None" for r
    using False assms(2) by (simp add: im_insert_def)
  let ?pick = "max_by_key (\<lambda>(k, r). elapsed_since now_ms (or_last_heard r)) ?t"
  have ident: "or_neighbor_ident r = k" if "?pick = Some (k, r)" for k r
    using max_by_key_in [OF that] assms(1) by (auto simp: table_ok_def list_all_iff)
  have vals: "max_by_key (\<lambda>r. elapsed_since now_ms (or_last_heard r)) (map snd ?t) = map_option snd ?pick"
    by (simp add: max_by_key_map split_def)
  show ?thesis
    using False ins ident
    by (cases "?pick") (auto simp: discover_originator_def insert_evicting_def vals Let_def split: option.split)
qed

lemma refresh_path_fields [simp]:
  "ns_neighbor_ident (refresh_path now tq seqno p) = ns_neighbor_ident p"
  "ns_last_heard (refresh_path now tq seqno p) = now"
  "ns_last_tq (refresh_path now tq seqno p) = tq"
  by (simp_all add: refresh_path_def Let_def)

lemma learn_path_fields [simp]:
  "or_neighbor_ident (learn_path now src tq seqno r) = or_neighbor_ident r"
  "or_last_seqno (learn_path now src tq seqno r) = or_last_seqno r"
  "or_resync_watch (learn_path now src tq seqno r) = or_resync_watch r"
  "or_best_next_hop (learn_path now src tq seqno r) = or_best_next_hop r"
  "or_max_tq (learn_path now src tq seqno r) = or_max_tq r"
  by (simp_all add: learn_path_def split: option.splits)

lemma select_hop_fields [simp]:
  "or_neighbor_ident (select_hop src ok tq r) = or_neighbor_ident r"
  "or_paths (select_hop src ok tq r) = or_paths r"
  "or_last_seqno (select_hop src ok tq r) = or_last_seqno r"
  "or_resync_watch (select_hop src ok tq r) = or_resync_watch r"
  by (simp_all add: select_hop_def)

lemma learn_path_ok: "record_paths_ok r \<Longrightarrow> record_paths_ok (learn_path now src tq seqno r)"
proof (cases "update_first (\<lambda>p. ns_neighbor_ident p = src) (refresh_path now tq seqno) (or_paths r)")
  case None
  assume "record_paths_ok r"
  with None [unfolded update_first_None] show ?thesis
    unfolding learn_path_def None by (auto simp: record_paths_ok_def)
next
  case (Some ps)
  assume "record_paths_ok r"
  with update_first_Some [OF Some] Some show ?thesis
    by (auto simp: learn_path_def record_paths_ok_def)
qed

text \<open>The path just heard is recorded, with the current time and the attenuated quality.\<close>

lemma learn_path_heard:
  assumes "length (or_paths r) < MAX_PATHS \<or> src \<in> ns_neighbor_ident ` set (or_paths r)"
  shows "\<exists>p \<in> set (or_paths (learn_path now src tq seqno r)).
    ns_neighbor_ident p = src \<and> ns_last_heard p = now \<and> ns_last_tq p = tq"
proof (cases "update_first (\<lambda>p. ns_neighbor_ident p = src) (refresh_path now tq seqno) (or_paths r)")
  case None
  from assms None [unfolded update_first_None] show ?thesis
    unfolding learn_path_def None by auto
next
  case (Some ps)
  then obtain pre x post where "ns_neighbor_ident x = src" "ps = pre @ refresh_path now tq seqno x # post"
    using update_first_Some [OF Some] by blast
  then show ?thesis
    unfolding learn_path_def Some by (intro bexI [of _ "refresh_path now tq seqno x"]) simp_all
qed

section \<open>The handler as a whole\<close>

lemma judge_seqno_fields:
  assumes "judge_seqno is_new seqno now r = (a, r')"
  shows "or_paths r' = or_paths r" "or_neighbor_ident r' = or_neighbor_ident r"
    "or_last_heard r' = or_last_heard r" "or_best_next_hop r' = or_best_next_hop r" "or_max_tq r' = or_max_tq r"
    "advanced a \<Longrightarrow> or_last_seqno r' = seqno"
proof -
  show "or_paths r' = or_paths r" "or_neighbor_ident r' = or_neighbor_ident r"
    "or_last_heard r' = or_last_heard r" "or_best_next_hop r' = or_best_next_hop r" "or_max_tq r' = or_max_tq r"
    using assms by (auto simp: judge_seqno_def split: if_splits prod.splits)
  show "or_last_seqno r' = seqno" if "advanced a"
  proof (cases is_new)
    case True
    with assms show ?thesis by (auto simp: judge_seqno_def)
  next
    case False
    with assms that show ?thesis
      by (auto simp: judge_seqno_def admit_seqno_def Let_def split: prod.splits seqno_verdict.splits if_splits)
  qed
qed

text \<open>The engine and record an OGM is judged against: its originator is in the table.\<close>

definition ogm_base :: "profile \<Rightarrow> duration \<Rightarrow> ogm_packet \<Rightarrow> batman_engine \<Rightarrow> batman_engine" where
  "ogm_base P now ogm e =
     (if im_contains (originator_table e) (ogm_orig ogm) then e
      else discover_originator P (from_duration now) (ogm_orig ogm) e)"

lemma ogm_base_ok:
  assumes "profile_ok P" "engine_ok P e"
  shows "engine_ok P (ogm_base P now ogm e)"
    and "\<exists>r. im_get (originator_table (ogm_base P now ogm e)) (ogm_orig ogm) = Some r"
    and "\<not> im_contains (originator_table e) (ogm_orig ogm) \<Longrightarrow>
      im_get (originator_table (ogm_base P now ogm e)) (ogm_orig ogm) = Some (fresh_record (from_duration now) (ogm_orig ogm))"
    and "\<exists>t. ogm_base P now ogm e = e\<lparr>originator_table := t\<rparr>"
proof -
  have t: "table_ok (originator_table e)" "im_ok (max_originators P) (originator_table e)"
    using assms(2) by (simp_all add: engine_ok_def)
  show g: "im_get (originator_table (ogm_base P now ogm e)) (ogm_orig ogm) = Some (fresh_record (from_duration now) (ogm_orig ogm))"
    if "\<not> im_contains (originator_table e) (ogm_orig ogm)"
    using that by (simp add: ogm_base_def discover_originator_table [OF t(1)] insert_evicting_get [OF assms(1) t(2)])
  then show "\<exists>r. im_get (originator_table (ogm_base P now ogm e)) (ogm_orig ogm) = Some r"
    by (cases "im_contains (originator_table e) (ogm_orig ogm)") (auto simp: ogm_base_def im_contains_def)
  show "\<exists>t. ogm_base P now ogm e = e\<lparr>originator_table := t\<rparr>"
    by (cases "im_contains (originator_table e) (ogm_orig ogm)")
       (auto simp: ogm_base_def discover_originator_def Let_def intro: exI [of _ "originator_table e"])
  show "engine_ok P (ogm_base P now ogm e)"
  proof (cases "im_contains (originator_table e) (ogm_orig ogm)")
    case True
    with assms(2) show ?thesis by (simp add: ogm_base_def)
  next
    case False
    let ?t = "insert_evicting (swap_order P) (max_originators P)
        (\<lambda>r. elapsed_since (from_duration now) (or_last_heard r)) (ogm_orig ogm)
        (fresh_record (from_duration now) (ogm_orig ogm)) (originator_table e)"
    have "table_ok ?t"
      using t(1) insert_evicting_in [OF assms(1) t(2)]
      by (fastforce simp: table_ok_def list_all_iff fresh_record_def record_paths_ok_def)
    with False assms(2) insert_evicting_ok [OF assms(1) t(2)] show ?thesis
      by (simp add: ogm_base_def discover_originator_table [OF t(1)] engine_ok_def)
  qed
qed

lemma reflood_reply: "fst (reflood_ogm ogm tail src tq reply e) = fst (reflood_ogm ogm tail src tq reply e')"
  by (simp add: reflood_ogm_def Let_def split: option.splits prod.splits)

definition learned_record ::
    "duration \<Rightarrow> mac \<Rightarrow> bool \<Rightarrow> u8 \<Rightarrow> u32 \<Rightarrow> seqno_admission \<Rightarrow> originator_record \<Rightarrow> originator_record" where
  "learned_record now src ok tq seqno a r =
     select_hop src ok tq (learn_path (from_duration now) src tq seqno
       (if contents_are_current a then r\<lparr>or_last_heard := from_duration now\<rparr> else r))"

lemma learned_record_fields [simp]:
  "or_neighbor_ident (learned_record now src ok tq seqno a r) = or_neighbor_ident r"
  "or_last_seqno (learned_record now src ok tq seqno a r) = or_last_seqno r"
  "or_resync_watch (learned_record now src ok tq seqno a r) = or_resync_watch r"
  by (simp_all add: learned_record_def)

lemma learned_record_ok:
  "record_paths_ok r \<Longrightarrow> record_paths_ok (learned_record now src ok tq seqno a r)"
  using learn_path_ok [of "if contents_are_current a then r\<lparr>or_last_heard := from_duration now\<rparr> else r"]
  by (simp add: learned_record_def record_paths_ok_def)

text \<open>What no OGM touches.\<close>

definition same_proofs :: "batman_engine \<Rightarrow> batman_engine \<Rightarrow> bool" where
  "same_proofs e e' \<longleftrightarrow> self_ident e' = self_ident e \<and> sequence_number e' = sequence_number e
     \<and> broadcast_sequence_number e' = broadcast_sequence_number e \<and> local_mcast e' = local_mcast e
     \<and> proven e' = proven e \<and> challenged e' = challenged e
     \<and> keepalive e' = keepalive e \<and> require_proof e' = require_proof e
     \<and> keepalive_timers e' = keepalive_timers e \<and> broadcast_seqno e' = broadcast_seqno e
     \<and> map tt_i_max (ogm_timers e') = map tt_i_max (ogm_timers e)
     \<and> map tt_i_min (ogm_timers e') = map tt_i_min (ogm_timers e)"

lemma same_proofs_refl [simp]: "same_proofs e e"
  by (simp add: same_proofs_def)

lemma same_proofs_trans: "same_proofs a b \<Longrightarrow> same_proofs b c \<Longrightarrow> same_proofs a c"
  by (simp add: same_proofs_def)

lemma same_proofs_reads:
  assumes "same_proofs e e'"
  shows "seed_interval_ms e' = seed_interval_ms e" "proof_current e' now m = proof_current e now m"
    "keepalive_missed e' now m = keepalive_missed e now m" "effective_tq e' now p = effective_tq e now p"
proof -
  show s: "seed_interval_ms e' = seed_interval_ms e"
    using assms by (simp add: same_proofs_def seed_interval_ms_def)
  show "proof_current e' now m = proof_current e now m"
    using assms s by (simp add: same_proofs_def proof_current_def)
  have "keepalive_seed_interval_ms e' = keepalive_seed_interval_ms e"
    using assms by (simp add: same_proofs_def keepalive_seed_interval_ms_def)
  then show k: "keepalive_missed e' now m = keepalive_missed e now m" for m
    using assms by (simp add: same_proofs_def keepalive_missed_def split: option.split)
  show "effective_tq e' now p = effective_tq e now p"
    by (simp add: effective_tq_def k)
qed

lemma same_proofs_resets_fit:
  assumes "same_proofs e e'"
  shows "resets_fit now e' = resets_fit now e"
proof -
  have fit: "resets_fit now x \<longleftrightarrow> (\<forall>i \<in> set (map tt_i_min (ogm_timers x)). now + i \<le> DURATION_MAX)" for x
    by (simp add: resets_fit_def reset_fits_def)
  show ?thesis using assms by (simp only: fit same_proofs_def)
qed

lemma reflood_same_proofs: "same_proofs e (snd (reflood_ogm ogm tail src tq reply e))"
  using reflood_ogm_state [of ogm tail src tq reply e]
  by (auto simp: same_proofs_def note_tail_malformed_def note_relay_oversize_drop_def)

lemma reflood_resyncs: "seqno_resyncs (snd (reflood_ogm ogm tail src tq reply e)) = seqno_resyncs e"
  using reflood_ogm_state [of ogm tail src tq reply e] by (auto simp: note_tail_malformed_def note_relay_oversize_drop_def)

lemma apply_topology_same_proofs: "same_proofs e (topology_settled now e)"
  by (simp add: same_proofs_def topology_settled_def timers_restarted_def)

lemma topology_settled_resyncs [simp]: "seqno_resyncs (topology_settled now e) = seqno_resyncs e"
  by (simp add: topology_settled_def timers_restarted_def)

lemma update_mcast_frame:
  "update_mcast_membership P orig frame e = Some e' \<Longrightarrow> \<exists>ms. e' = e\<lparr>mcast_members := ms\<rparr>"
  by (auto simp: update_mcast_membership_def Let_def)

lemma update_mcast_cong:
  "mcast_members e = mcast_members e0 \<Longrightarrow>
     map_option mcast_members (update_mcast_membership P orig frame e) =
     map_option mcast_members (update_mcast_membership P orig frame e0)"
  by (simp add: update_mcast_membership_def Let_def option.map_comp comp_def)

lemma engine_ok_put:
  assumes "engine_ok P e" "or_neighbor_ident r = k" "record_paths_ok r"
  shows "engine_ok P (e\<lparr>originator_table := im_set k r (originator_table e)\<rparr>)"
  using assms by (simp add: engine_ok_def table_ok_set)

text \<open>The counters of a judged sequence number.\<close>

definition count_admission :: "seqno_admission \<Rightarrow> ogm_packet \<Rightarrow> batman_engine \<Rightarrow> batman_engine" where
  "count_admission a ogm e =
     (let e = (if is_resynchronised a then e\<lparr>seqno_resyncs := saturating_add (seqno_resyncs e) 1\<rparr> else e)
      in if a = Watching \<and> ogm_ttl ogm > 1
         then e\<lparr>ogm_refloods_suppressed := saturating_add (ogm_refloods_suppressed e) 1\<rparr> else e)"

lemma count_admission_frame [simp]:
  "originator_table (count_admission a ogm e) = originator_table e"
  "mcast_members (count_admission a ogm e) = mcast_members e"
  "engine_ok P (count_admission a ogm e) = engine_ok P e"
  "same_proofs e0 (count_admission a ogm e) = same_proofs e0 e"
  "seqno_resyncs (count_admission a ogm e) =
     (if is_resynchronised a then saturating_add (seqno_resyncs e) 1 else seqno_resyncs e)"
  by (simp_all add: count_admission_def Let_def same_proofs_def)

lemma learn_ogm_unfold:
  assumes "im_get (originator_table (ogm_base P now ogm e)) (ogm_orig ogm) = Some r"
    and "judge_seqno (\<not> im_contains (originator_table e) (ogm_orig ogm)) (ogm_seqno ogm) now r = (a, r1)"
  shows "learn_ogm P now frame q ogm tail reply e =
    (let e2 = count_admission a ogm (ogm_base P now ogm e);
         tq = attenuated_tq (ogm_tq ogm) q;
         put = (\<lambda>r. e2\<lparr>originator_table := im_set (ogm_orig ogm) r (originator_table e2)\<rparr>)
     in if is_stale_copy a then Some (reply, put r1)
        else do { e4 \<leftarrow> (if contents_are_current a
                         then update_mcast_membership P (ogm_orig ogm) frame
                           (put (learned_record now (lf_src frame) (proof_current e now (lf_src frame)) tq (ogm_seqno ogm) a r1))
                         else Some (put (learned_record now (lf_src frame) (proof_current e now (lf_src frame)) tq (ogm_seqno ogm) a r1)));
                  let e5 = (if \<not> im_contains (originator_table e) (ogm_orig ogm) then e4\<lparr>topology_changed := True\<rparr> else e4);
                  Some (if advanced a \<and> ogm_ttl ogm > 1
                        then reflood_ogm ogm tail (lf_src frame) tq reply e5 else (reply, e5)) })"
proof -
  have base: "(if \<not> im_contains (originator_table e) (ogm_orig ogm)
      then discover_originator P (from_duration now) (ogm_orig ogm) e else e) = ogm_base P now ogm e"
    by (simp add: ogm_base_def)
  show ?thesis
    unfolding learn_ogm_def Let_def base assms option.case prod.case learned_record_def count_admission_def
    by (rule refl)
qed


lemma membership_step:
  assumes "profile_ok P" "engine_ok P y" "same_proofs e y" "mcast_members y = mcast_members e"
  obtains e4 where "(if current then update_mcast_membership P orig frame y else Some y) = Some e4"
    "engine_ok P e4" "same_proofs e e4" "originator_table e4 = originator_table y" "seqno_resyncs e4 = seqno_resyncs y"
    "if current
     then \<exists>e1. update_mcast_membership P orig frame e = Some e1 \<and> mcast_members e4 = mcast_members e1
     else mcast_members e4 = mcast_members e"
proof (cases current)
  case True
  obtain e4 where u: "update_mcast_membership P orig frame y = Some e4" "engine_ok P e4"
    using update_mcast_membership_ok [OF assms(1,2)] by blast
  moreover from update_mcast_frame [OF u(1)] assms(3)
  have "same_proofs e e4" "originator_table e4 = originator_table y" "seqno_resyncs e4 = seqno_resyncs y"
    by (auto simp: same_proofs_def)
  moreover have "\<exists>e1. update_mcast_membership P orig frame e = Some e1 \<and> mcast_members e4 = mcast_members e1"
    using update_mcast_cong [OF assms(4), of P orig frame] u(1)
    by (cases "update_mcast_membership P orig frame e") auto
  ultimately show thesis using that True by simp
qed (use that assms in simp)

lemma learn_ogm_result:
  fixes P now frame q ogm tail reply e
  assumes "profile_ok P" "engine_ok P e"
  defines "base \<equiv> ogm_base P now ogm e"
  defines "tq \<equiv> attenuated_tq (ogm_tq ogm) q"
  obtains r a r1 e' where
    "im_get (originator_table base) (ogm_orig ogm) = Some r"
    "judge_seqno (\<not> im_contains (originator_table e) (ogm_orig ogm)) (ogm_seqno ogm) now r = (a, r1)"
    "learn_ogm P now frame q ogm tail reply e =
       Some (if \<not> is_stale_copy a \<and> advanced a \<and> ogm_ttl ogm > 1
             then fst (reflood_ogm ogm tail (lf_src frame) tq reply e) else reply, e')"
    "engine_ok P e'" "same_proofs e e'"
    "originator_table e' = im_set (ogm_orig ogm)
       (if is_stale_copy a then r1
        else learned_record now (lf_src frame) (proof_current e now (lf_src frame)) tq (ogm_seqno ogm) a r1)
       (originator_table base)"
    "if \<not> is_stale_copy a \<and> contents_are_current a
     then \<exists>e1. update_mcast_membership P (ogm_orig ogm) frame e = Some e1 \<and> mcast_members e' = mcast_members e1
     else mcast_members e' = mcast_members e"
    "seqno_resyncs e' = (if is_resynchronised a then saturating_add (seqno_resyncs e) 1 else seqno_resyncs e)"
proof -
  obtain r where r: "im_get (originator_table base) (ogm_orig ogm) = Some r"
    using ogm_base_ok(2) [OF assms(1,2)] unfolding base_def by blast
  obtain a r1 where j: "judge_seqno (\<not> im_contains (originator_table e) (ogm_orig ogm)) (ogm_seqno ogm) now r = (a, r1)"
    by fastforce
  note unf = learn_ogm_unfold [OF r [unfolded base_def] j, folded base_def, of frame q tail reply]
  have ok: "engine_ok P base" "same_proofs e base" "mcast_members base = mcast_members e"
      "seqno_resyncs base = seqno_resyncs e"
    using ogm_base_ok(1,4) [OF assms(1,2), of now ogm] unfolding base_def by (auto simp: same_proofs_def)
  have r_ok: "or_neighbor_ident r = ogm_orig ogm" "record_paths_ok r"
    using ok(1) r by (auto simp: engine_ok_def dest!: table_ok_get)
  have r1_ok: "or_neighbor_ident r1 = ogm_orig ogm" "record_paths_ok r1"
    using judge_seqno_fields [OF j] r_ok by (simp_all add: record_paths_ok_def)
  define e2 where "e2 = count_admission a ogm base"
  define put where "put = (\<lambda>r. e2\<lparr>originator_table := im_set (ogm_orig ogm) r (originator_table e2)\<rparr>)"
  define k where "k = (if is_resynchronised a then saturating_add (seqno_resyncs e) 1 else seqno_resyncs e)"
  have e2: "engine_ok P e2" "same_proofs e e2" "mcast_members e2 = mcast_members e" "originator_table e2 = originator_table base"
      "seqno_resyncs e2 = k"
    using ok by (simp_all add: e2_def k_def)
  have put: "engine_ok P (put x)" "same_proofs e (put x)" "mcast_members (put x) = mcast_members e"
      "originator_table (put x) = im_set (ogm_orig ogm) x (originator_table base)" "seqno_resyncs (put x) = k"
    if "or_neighbor_ident x = ogm_orig ogm" "record_paths_ok x" for x
    using e2 engine_ok_put [OF e2(1) that] by (simp_all add: put_def same_proofs_def)
  show thesis
  proof (cases "is_stale_copy a")
    case True
    then show thesis
      using that [OF r j, of "put r1"] put [OF r1_ok] by (simp add: unf e2_def [symmetric] put_def k_def)
  next
    case False
    define x where "x = learned_record now (lf_src frame) (proof_current e now (lf_src frame)) tq (ogm_seqno ogm) a r1"
    have x: "or_neighbor_ident x = ogm_orig ogm" "record_paths_ok x"
      using r1_ok by (simp_all add: x_def learned_record_ok)
    obtain e4 where e4: "(if contents_are_current a then update_mcast_membership P (ogm_orig ogm) frame (put x) else Some (put x)) = Some e4"
        "engine_ok P e4" "same_proofs e e4" "originator_table e4 = originator_table (put x)"
        "seqno_resyncs e4 = seqno_resyncs (put x)"
        "if contents_are_current a
         then \<exists>e1. update_mcast_membership P (ogm_orig ogm) frame e = Some e1 \<and> mcast_members e4 = mcast_members e1
         else mcast_members e4 = mcast_members e"
      by (rule membership_step [OF assms(1) put(1-3) [OF x]])
    define e5 where "e5 = (if \<not> im_contains (originator_table e) (ogm_orig ogm) then e4\<lparr>topology_changed := True\<rparr> else e4)"
    have e5: "engine_ok P e5" "same_proofs e e5" "originator_table e5 = im_set (ogm_orig ogm) x (originator_table base)"
        "mcast_members e5 = mcast_members e4" "seqno_resyncs e5 = k"
      using e4(2-5) put(4,5) [OF x] by (auto simp: e5_def same_proofs_def)
    define res where "res = (if advanced a \<and> ogm_ttl ogm > 1
        then reflood_ogm ogm tail (lf_src frame) tq reply e5 else (reply, e5))"
    have "learn_ogm P now frame q ogm tail reply e = Option.bind
        (if contents_are_current a then update_mcast_membership P (ogm_orig ogm) frame (put x) else Some (put x))
        (\<lambda>e4. let e5 = (if \<not> im_contains (originator_table e) (ogm_orig ogm) then e4\<lparr>topology_changed := True\<rparr> else e4)
          in Some (if advanced a \<and> ogm_ttl ogm > 1 then reflood_ogm ogm tail (lf_src frame) tq reply e5 else (reply, e5)))"
      by (simp only: unf False if_False put_def x_def e2_def tq_def Let_def)
    then have "learn_ogm P now frame q ogm tail reply e = Some res"
      unfolding e4(1) by (simp add: e5_def res_def Let_def)
    moreover have "fst res = (if advanced a \<and> ogm_ttl ogm > 1 then fst (reflood_ogm ogm tail (lf_src frame) tq reply e) else reply)"
      using reflood_reply by (auto simp: res_def)
    ultimately have "learn_ogm P now frame q ogm tail reply e =
       Some (if \<not> is_stale_copy a \<and> advanced a \<and> ogm_ttl ogm > 1
             then fst (reflood_ogm ogm tail (lf_src frame) tq reply e) else reply, snd res)"
      using False by (cases res) simp
    moreover have "engine_ok P (snd res)" "same_proofs e (snd res)" "originator_table (snd res) = originator_table e5"
        "mcast_members (snd res) = mcast_members e5" "seqno_resyncs (snd res) = seqno_resyncs e5"
      using e5 same_proofs_trans [OF e5(2) reflood_same_proofs] reflood_resyncs by (simp_all add: res_def frame_simps)
    ultimately show thesis
      using False e4(6) e5(3-5) by (intro that [OF r j, of "snd res"]) (simp_all add: x_def k_def)
  qed
qed


section \<open>The outgoing frame\<close>

lemma reflood_ogm_reply:
  assumes "fst (reflood_ogm ogm tail src tq reply e) = reply'"
  shows "fd_dst reply' = fd_dst reply \<and> fd_protocol reply' = fd_protocol reply
      \<and> length (fd_payload reply') = length (fd_payload reply)
    \<or> (\<exists>n out'. stamped_len tail = Some n \<and> OGM_SIZE + n \<le> length (fd_payload reply) \<and> n \<le> 65535
        \<and> stamp_prev_sender tail (drop OGM_SIZE (fd_payload reply)) src = (out', Some n)
        \<and> length out' = length (fd_payload reply) - OGM_SIZE
        \<and> reply' = \<lparr>fd_dst = BROADCAST, fd_protocol = ETH_P_BATMAN,
            fd_payload = ogm_write (ogm\<lparr>ogm_ttl := ogm_ttl ogm - 1, ogm_tq := tq, ogm_tvlv_len := word_of_nat n\<rparr>) @ out'\<rparr>)"
proof (cases "\<exists>n. stamped_len tail = Some n \<and> OGM_SIZE + n \<le> length (fd_payload reply)")
  case False
  with assms show ?thesis
    by (auto simp: reflood_ogm_def Let_def split: option.splits if_splits)
next
  case True
  then obtain n where n: "stamped_len tail = Some n" "OGM_SIZE + n \<le> length (fd_payload reply)" by blast
  have fit: "n \<le> length (drop OGM_SIZE (fd_payload reply))"
    using n(2) by simp
  obtain out' where out': "stamp_prev_sender tail (drop OGM_SIZE (fd_payload reply)) src = (out', Some n)"
    using stamp_prev_sender_fits [OF n(1) fit] by blast
  have len: "length out' = length (fd_payload reply) - OGM_SIZE"
    using stamp_prev_sender_Some [OF out'] by (metis append_take_drop_id length_append length_drop length_take min.absorb2)
  show ?thesis
    using assms n out' len by (auto simp: reflood_ogm_def Let_def split: if_splits)
qed

lemma handle_ogm_result:
  assumes "profile_ok P" "engine_ok P e"
  obtains "handle_ogm P now frame q reply e = None" "\<not> resets_fit now e"
  | reply' e' where "handle_ogm P now frame q reply e = Some (Consumed, reply', e')" "engine_ok P e'"
    "same_proofs e e'" "length (fd_payload reply') = length (fd_payload reply)"
proof -
  have "handle_ogm P now frame q reply e = None \<and> \<not> resets_fit now e
    \<or> (\<exists>reply' e'. handle_ogm P now frame q reply e = Some (Consumed, reply', e') \<and> engine_ok P e'
      \<and> same_proofs e e' \<and> length (fd_payload reply') = length (fd_payload reply))"
  proof (cases "ogm_read (lf_payload frame)")
    case None
    then show ?thesis using assms by (simp add: handle_ogm_def)
  next
    case (Some p)
    then obtain ogm rest where ogm: "ogm_read (lf_payload frame) = Some (ogm, rest)" by (cases p) auto
    have "\<exists>reply' e'. learn_ogm P now frame q ogm tail reply e = Some (reply', e') \<and> engine_ok P e'
        \<and> same_proofs e e' \<and> length (fd_payload reply') = length (fd_payload reply)" for tail
    proof -
      obtain a e' where l: "learn_ogm P now frame q ogm tail reply e =
         Some (if \<not> is_stale_copy a \<and> advanced a \<and> ogm_ttl ogm > 1
               then fst (reflood_ogm ogm tail (lf_src frame) (attenuated_tq (ogm_tq ogm) q) reply e) else reply, e')"
         "engine_ok P e'" "same_proofs e e'"
        by (rule learn_ogm_result [OF assms])
      have "length (fd_payload (fst (reflood_ogm ogm tail (lf_src frame) (attenuated_tq (ogm_tq ogm) q) reply e))) =
          length (fd_payload reply)"
        using reflood_ogm_reply [OF refl, of ogm tail "lf_src frame" "attenuated_tq (ogm_tq ogm) q" reply e] by auto
      with l show ?thesis by auto
    qed
    then obtain reply' e' where l: "learn_ogm P now frame q ogm (take (unat (ogm_tvlv_len ogm)) (drop OGM_SIZE (lf_payload frame))) reply e = Some (reply', e')"
        "engine_ok P e'" "same_proofs e e'" "length (fd_payload reply') = length (fd_payload reply)"
      by blast
    have same: "same_proofs e (topology_settled now e')" "same_proofs e (note_tail_malformed e)"
        "same_proofs e (e\<lparr>ogm_echoes_dropped := n\<rparr>)" for n
      using same_proofs_trans [OF l(3) apply_topology_same_proofs] by (auto simp: same_proofs_def note_tail_malformed_def)
    show ?thesis
      using same topology_settled_ok [OF l(2)] l(1,4) same_proofs_resets_fit [OF l(3)] assms(2)
      by (simp add: handle_ogm_def ogm get_range_def apply_topology_change_eq)
  qed
  then show thesis by (elim disjE exE conjE) (rule that; assumption)+
qed


text \<open>An OGM that reaches the learning steps.\<close>

definition ogm_accepted :: "batman_engine \<Rightarrow> link_frame \<Rightarrow> ogm_packet \<Rightarrow> bytes \<Rightarrow> bool" where
  "ogm_accepted e frame ogm tail \<longleftrightarrow>
     (\<exists>rest. ogm_read (lf_payload frame) = Some (ogm, rest)
        \<and> unat (ogm_tvlv_len ogm) \<le> length rest \<and> tail = take (unat (ogm_tvlv_len ogm)) rest)
     \<and> ogm_orig ogm \<noteq> self_ident e \<and> prev_sender tail \<noteq> Some (self_ident e)"

lemma ogm_tail_range:
  assumes "ogm_read payload = Some (ogm, rest)"
  shows "get_range payload OGM_SIZE (OGM_SIZE + n) = (if n \<le> length rest then Some (take n rest) else None)"
proof -
  have "payload = ogm_write ogm @ rest" by (rule ogm_codec.write_read [OF assms])
  then show ?thesis by (simp add: get_range_def)
qed

lemma handle_ogm_accepted:
  assumes "ogm_accepted e frame ogm tail"
  shows "handle_ogm P now frame q reply e =
    do { (reply, e) \<leftarrow> learn_ogm P now frame q ogm tail reply e;
         if topology_changed e \<longrightarrow> resets_fit now e then Some (Consumed, reply, topology_settled now e) else None }"
proof -
  have "handle_ogm P now frame q reply e = do { (reply, e) \<leftarrow> learn_ogm P now frame q ogm tail reply e;
      e \<leftarrow> apply_topology_change now e; Some (Consumed, reply, e) }"
    using assms by (auto simp: ogm_accepted_def handle_ogm_def ogm_tail_range)
  also have "\<dots> = do { (reply, e) \<leftarrow> learn_ogm P now frame q ogm tail reply e;
      if topology_changed e \<longrightarrow> resets_fit now e then Some (Consumed, reply, topology_settled now e) else None }"
    by (rule bind_option_cong [OF refl]) (simp add: apply_topology_change_eq split: prod.split)
  finally show ?thesis .
qed

lemma handle_ogm_refused:
  assumes "\<nexists>ogm tail. ogm_accepted e frame ogm tail"
  shows "\<exists>e'. handle_ogm P now frame q reply e = Some (Consumed, reply, e') \<and> originator_table e' = originator_table e
    \<and> mcast_members e' = mcast_members e \<and> ogm_timers e' = ogm_timers e"
  using assms
  by (auto simp: ogm_accepted_def handle_ogm_def ogm_tail_range note_tail_malformed_def split: option.splits if_splits)

lemma judge_again:
  "judge_seqno False (or_last_seqno r) now r = (DuplicateOf True, r)"
proof -
  have "classify OGM_BANDS (or_last_seqno r) (or_last_seqno r) = Duplicate"
    by (simp add: classify_def OGM_BANDS_def)
  then show ?thesis by (simp add: judge_seqno_def admit_seqno_def)
qed

lemma im_get_put: "im_get t k = Some r0 \<Longrightarrow> im_get (im_set k r t) k = Some r"
  by (simp add: im_get_set im_contains_def)

text \<open>After a re-flood the originator's high-water is the forwarded sequence number.\<close>

lemma reflooded_high_water:
  assumes "profile_ok P" "engine_ok P e" "ogm_accepted e frame ogm tail"
    and "handle_ogm P now frame q reply e = Some (act, reply', e')"
    and "fd_protocol reply \<noteq> ETH_P_BATMAN" "fd_protocol reply' = ETH_P_BATMAN"
  obtains r where "im_get (originator_table e') (ogm_orig ogm) = Some r" "or_last_seqno r = ogm_seqno ogm"
proof -
  obtain r a r1 e1 where l: "im_get (originator_table (ogm_base P now ogm e)) (ogm_orig ogm) = Some r"
      "judge_seqno (\<not> im_contains (originator_table e) (ogm_orig ogm)) (ogm_seqno ogm) now r = (a, r1)"
      "learn_ogm P now frame q ogm tail reply e =
       Some (if \<not> is_stale_copy a \<and> advanced a \<and> ogm_ttl ogm > 1
             then fst (reflood_ogm ogm tail (lf_src frame) (attenuated_tq (ogm_tq ogm) q) reply e) else reply, e1)"
      "originator_table e1 = im_set (ogm_orig ogm)
       (if is_stale_copy a then r1
        else learned_record now (lf_src frame) (proof_current e now (lf_src frame)) (attenuated_tq (ogm_tq ogm) q)
          (ogm_seqno ogm) a r1)
       (originator_table (ogm_base P now ogm e))"
    by (rule learn_ogm_result [OF assms(1,2)])
  have res: "advanced a" "e' = topology_settled now e1"
    using assms(4-6) l(3) unfolding handle_ogm_accepted [OF assms(3)] by (auto split: if_splits)
  have "or_last_seqno r1 = ogm_seqno ogm"
    by (rule judge_seqno_fields(6) [OF l(2) res(1)])
  then show thesis
    using that im_get_put [OF l(1)] l(4) res(2) by (simp add: frame_simps)
qed

lemma fresh_ogm_flood:
  assumes "profile_ok P" "engine_ok P e" "ogm_accepted e frame ogm tail" "1 < ogm_ttl ogm"
    and "stamped_len tail = Some n" "OGM_SIZE + n \<le> length (fd_payload reply)" "n \<le> 65535"
    and "case im_get (originator_table e) (ogm_orig ogm) of
        None \<Rightarrow> True | Some r \<Rightarrow> classify OGM_BANDS (or_last_seqno r) (ogm_seqno ogm) = Advance"
    and "resets_fit now e"
  shows "\<exists>reply' e'. handle_ogm P now frame q reply e = Some (Consumed, reply', e')
    \<and> fd_protocol reply' = ETH_P_BATMAN \<and> fd_dst reply' = BROADCAST"
proof -
  obtain r a r1 e1 where l: "im_get (originator_table (ogm_base P now ogm e)) (ogm_orig ogm) = Some r"
      "judge_seqno (\<not> im_contains (originator_table e) (ogm_orig ogm)) (ogm_seqno ogm) now r = (a, r1)"
      "learn_ogm P now frame q ogm tail reply e =
       Some (if \<not> is_stale_copy a \<and> advanced a \<and> ogm_ttl ogm > 1
             then fst (reflood_ogm ogm tail (lf_src frame) (attenuated_tq (ogm_tq ogm) q) reply e) else reply, e1)"
      "same_proofs e e1"
    by (rule learn_ogm_result [OF assms(1,2)])
  have "a = Advanced"
  proof (cases "im_contains (originator_table e) (ogm_orig ogm)")
    case True
    with l(1) have "im_get (originator_table e) (ogm_orig ogm) = Some r" by (simp add: ogm_base_def)
    with assms(8) l(2) True show ?thesis by (auto simp: judge_seqno_def admit_seqno_def)
  qed (use l(2) in \<open>simp add: judge_seqno_def\<close>)
  moreover have fit: "n \<le> length (drop OGM_SIZE (fd_payload reply))" "OGM_SIZE \<le> length (fd_payload reply)"
    using assms(6) by simp_all
  obtain out' where "stamp_prev_sender tail (drop OGM_SIZE (fd_payload reply)) (lf_src frame) = (out', Some n)"
    using stamp_prev_sender_fits [OF assms(5) fit(1)] by blast
  then have "fd_protocol (fst (reflood_ogm ogm tail (lf_src frame) tq reply e)) = ETH_P_BATMAN"
      "fd_dst (fst (reflood_ogm ogm tail (lf_src frame) tq reply e)) = BROADCAST" for tq
    using fit assms(5,7) by (simp_all add: reflood_ogm_def Let_def)
  ultimately show ?thesis
    using l(3) assms(4,9) same_proofs_resets_fit [OF l(4)] by (simp add: handle_ogm_accepted [OF assms(3)] is_stale_copy_def)
qed

lemma first_ogm_learned:
  assumes "profile_ok P" "engine_ok P e" "ogm_accepted e frame ogm tail"
    and "proof_current e now (lf_src frame)" "\<not> im_contains (originator_table e) (ogm_orig ogm)" "resets_fit now e"
  shows "\<exists>reply' e' r. handle_ogm P now frame q reply e = Some (Consumed, reply', e') \<and> engine_ok P e'
    \<and> next_hop e' now (ogm_orig ogm) = Some (lf_src frame)
    \<and> im_get (originator_table e') (ogm_orig ogm) = Some r \<and> or_best_next_hop r = Some (lf_src frame)
    \<and> or_max_tq r = attenuated_tq (ogm_tq ogm) q \<and> or_last_seqno r = ogm_seqno ogm
    \<and> (\<exists>e1. update_mcast_membership P (ogm_orig ogm) frame e = Some e1 \<and> mcast_members e' = mcast_members e1)"
proof -
  define tq where "tq = attenuated_tq (ogm_tq ogm) q"
  obtain r a r1 e1 where l: "im_get (originator_table (ogm_base P now ogm e)) (ogm_orig ogm) = Some r"
      "judge_seqno (\<not> im_contains (originator_table e) (ogm_orig ogm)) (ogm_seqno ogm) now r = (a, r1)"
      "learn_ogm P now frame q ogm tail reply e =
       Some (if \<not> is_stale_copy a \<and> advanced a \<and> ogm_ttl ogm > 1
             then fst (reflood_ogm ogm tail (lf_src frame) tq reply e) else reply, e1)"
      "engine_ok P e1" "same_proofs e e1"
      "originator_table e1 = im_set (ogm_orig ogm)
       (if is_stale_copy a then r1
        else learned_record now (lf_src frame) (proof_current e now (lf_src frame)) tq (ogm_seqno ogm) a r1)
       (originator_table (ogm_base P now ogm e))"
      "if \<not> is_stale_copy a \<and> contents_are_current a
       then \<exists>e0. update_mcast_membership P (ogm_orig ogm) frame e = Some e0 \<and> mcast_members e1 = mcast_members e0
       else mcast_members e1 = mcast_members e"
    unfolding tq_def by (rule learn_ogm_result [OF assms(1,2)])
  have "r = fresh_record (from_duration now) (ogm_orig ogm)"
    using l(1) ogm_base_ok(3) [OF assms(1,2,5), of now] by simp
  then have a: "a = Advanced" "r1 = r\<lparr>or_last_seqno := ogm_seqno ogm\<rparr>" "or_paths r = []" "or_best_next_hop r = None"
    using l(2) assms(5) by (auto simp: judge_seqno_def fresh_record_def)
  define x where "x = learned_record now (lf_src frame) True tq (ogm_seqno ogm) Advanced r1"
  have x: "or_paths x = [\<lparr>ns_neighbor_ident = lf_src frame, ns_last_tq = tq, ns_last_seqno = ogm_seqno ogm,
                   ns_last_heard = from_duration now, ns_interval_estimate_ms = 0\<rparr>]"
      "or_best_next_hop x = Some (lf_src frame)" "or_max_tq x = tq" "or_last_seqno x = ogm_seqno ogm"
    using a by (auto simp: x_def learned_record_def select_hop_def learn_path_def contents_are_current_def MAX_PATHS_def)
  have tab: "im_get (originator_table e1) (ogm_orig ogm) = Some x"
    using l(6) assms(4) a(1) im_get_put [OF l(1)] by (simp add: x_def is_stale_copy_def)
  define e2 where "e2 = topology_settled now e1"
  have e2: "same_proofs e e2" "im_get (originator_table e2) (ogm_orig ogm) = Some x" "engine_ok P e2"
    using same_proofs_trans [OF l(5) apply_topology_same_proofs] tab topology_settled_ok [OF l(4)]
    by (simp_all add: e2_def frame_simps)
  then have "next_hop e2 now (ogm_orig ogm) = Some (lf_src frame)"
    using assms(4) x(1) same_proofs_reads(2) [OF e2(1)] by (simp add: next_hop_def path_stale_def)
  moreover have "\<exists>e0. update_mcast_membership P (ogm_orig ogm) frame e = Some e0 \<and> mcast_members e2 = mcast_members e0"
    using l(7) a(1) by (simp add: e2_def frame_simps is_stale_copy_def contents_are_current_def)
  ultimately show ?thesis
    using e2 x l(3) assms(6) same_proofs_resets_fit [OF l(5)] by (simp add: handle_ogm_accepted [OF assms(3)] e2_def tq_def)
qed

lemma attenuated_tq_unat:
  "unat (attenuated_tq tq q) = (case q of None \<Rightarrow> unat tq - 10 | Some l \<Rightarrow> min (unat tq - 10) (unat l))"
proof -
  have "unat (saturating_sub tq 10) = unat tq - 10"
    by (auto simp: saturating_sub_def unat_sub word_less_nat_alt not_less word_le_nat_alt)
  then show ?thesis
    by (auto simp: attenuated_tq_def Let_def min_def word_le_nat_alt split: option.split)
qed

lemma reflooded_fields:
  assumes "profile_ok P" "engine_ok P e" "ogm_read (lf_payload frame) = Some (ogm, rest)"
    and "handle_ogm P now frame q reply e = Some (act, reply', e')"
    and "fd_protocol reply \<noteq> ETH_P_BATMAN" "fd_protocol reply' = ETH_P_BATMAN"
  shows "\<exists>n rest'. ogm_read (fd_payload reply') = Some (ogm\<lparr>ogm_ttl := ogm_ttl ogm - 1,
        ogm_tq := attenuated_tq (ogm_tq ogm) q, ogm_tvlv_len := n\<rparr>, rest')
    \<and> fd_dst reply' = BROADCAST \<and> 1 < ogm_ttl ogm \<and> unat n \<le> length rest'
    \<and> prev_sender (take (unat n) rest') = Some (lf_src frame)
    \<and> (\<exists>rs. tvlv_parse (take (unat (ogm_tvlv_len ogm)) rest) = Some rs
        \<and> take (unat n) rest' = tvlv_print (restamp (lf_src frame) rs)
        \<and> tvlv_parse (take (unat n) rest') = Some (restamp (lf_src frame) rs))"
proof -
  define tail where "tail = take (unat (ogm_tvlv_len ogm)) rest"
  define tq where "tq = attenuated_tq (ogm_tq ogm) q"
  have "\<exists>ogm tail. ogm_accepted e frame ogm tail"
    using handle_ogm_refused [of e frame P now q reply] assms(4-6) by auto
  then have acc: "ogm_accepted e frame ogm tail"
    using assms(3) by (auto simp: ogm_accepted_def tail_def)
  obtain a e1 where l: "learn_ogm P now frame q ogm tail reply e =
       Some (if \<not> is_stale_copy a \<and> advanced a \<and> ogm_ttl ogm > 1
             then fst (reflood_ogm ogm tail (lf_src frame) tq reply e) else reply, e1)"
    unfolding tq_def by (rule learn_ogm_result [OF assms(1,2)])
  then have fl: "1 < ogm_ttl ogm" "fst (reflood_ogm ogm tail (lf_src frame) tq reply e) = reply'"
    using assms(4-6) unfolding handle_ogm_accepted [OF acc] by (auto split: if_splits)
  then obtain n out' where o: "stamped_len tail = Some n" "n \<le> 65535" "OGM_SIZE + n \<le> length (fd_payload reply)"
      "stamp_prev_sender tail (drop OGM_SIZE (fd_payload reply)) (lf_src frame) = (out', Some n)"
      "length out' = length (fd_payload reply) - OGM_SIZE"
      "reply' = \<lparr>fd_dst = BROADCAST, fd_protocol = ETH_P_BATMAN,
            fd_payload = ogm_write (ogm\<lparr>ogm_ttl := ogm_ttl ogm - 1, ogm_tq := tq, ogm_tvlv_len := word_of_nat n\<rparr>) @ out'\<rparr>"
    using reflood_ogm_reply [OF fl(2)] assms(5,6) by auto
  have n: "unat (word_of_nat n :: u16) = n"
    using o(2) by (simp add: unat_of_nat)
  have "n \<le> length (drop OGM_SIZE (fd_payload reply))" using o(3) by simp
  from stamp_exact [OF o(1) this, of "lf_src frame"] o(4)
  have "prev_sender (take n out') = Some (lf_src frame)" by auto
  moreover obtain rs where "tvlv_parse tail = Some rs" "take n out' = tvlv_print (restamp (lf_src frame) rs)"
    using stamp_prev_sender_Some [OF o(4)] by metis
  moreover from this have "tvlv_parse (take n out') = Some (restamp (lf_src frame) rs)"
    using tvlv_parse_print [OF restamp_ok] by metis
  ultimately have st: "prev_sender (take n out') = Some (lf_src frame)"
      "\<exists>rs. tvlv_parse tail = Some rs \<and> take n out' = tvlv_print (restamp (lf_src frame) rs)
        \<and> tvlv_parse (take n out') = Some (restamp (lf_src frame) rs)"
    by blast+
  have "ogm_read (fd_payload reply') =
      Some (ogm\<lparr>ogm_ttl := ogm_ttl ogm - 1, ogm_tq := tq, ogm_tvlv_len := word_of_nat n\<rparr>, out')"
    by (simp add: o(6) ogm_codec.read_write)
  with st n o fl(1) show ?thesis
    by (intro exI [of _ "word_of_nat n"] exI [of _ out']) (simp add: tq_def tail_def)
qed

text \<open>A reply is either left unaddressed or claimed for the mesh protocol.\<close>

lemma handle_ogm_protocol:
  assumes "profile_ok P" "engine_ok P e" "handle_ogm P now frame q reply e = Some (act, reply', e')"
  shows "fd_protocol reply' = fd_protocol reply \<or> fd_protocol reply' = ETH_P_BATMAN"
proof (cases "\<exists>ogm tail. ogm_accepted e frame ogm tail")
  case False
  then show ?thesis using handle_ogm_refused [of e frame P now q reply] assms(3) by auto
next
  case True
  then obtain ogm tail where acc: "ogm_accepted e frame ogm tail" by blast
  obtain a e1 where "learn_ogm P now frame q ogm tail reply e =
       Some (if \<not> is_stale_copy a \<and> advanced a \<and> ogm_ttl ogm > 1
             then fst (reflood_ogm ogm tail (lf_src frame) (attenuated_tq (ogm_tq ogm) q) reply e) else reply, e1)"
    by (rule learn_ogm_result [OF assms(1,2)])
  then show ?thesis
    using assms(3) reflood_ogm_reply [OF refl, of ogm tail "lf_src frame" "attenuated_tq (ogm_tq ogm) q" reply e]
    by (auto simp: handle_ogm_accepted [OF acc] split: if_splits)
qed

section \<open>Properties\<close>

text \<open>
  An OGM that is malformed, over-claims its TVLV length, originates here, or comes back
  stamped as our own re-flood teaches nothing: routes, memberships and timers are untouched and
  nothing is forwarded.
\<close>

theorem refused_ogm_teaches_nothing:
  assumes "ogm_read (lf_payload frame) = None
    \<or> (\<exists>ogm rest. ogm_read (lf_payload frame) = Some (ogm, rest)
        \<and> (ogm_orig ogm = self_ident e \<or> length rest < unat (ogm_tvlv_len ogm)
            \<or> prev_sender (take (unat (ogm_tvlv_len ogm)) rest) = Some (self_ident e)))"
  shows "\<exists>e'. handle_ogm P now frame q reply e = Some (Consumed, reply, e')
    \<and> originator_table e' = originator_table e \<and> mcast_members e' = mcast_members e \<and> ogm_timers e' = ogm_timers e"
  by (rule handle_ogm_refused) (use assms in \<open>auto simp: ogm_accepted_def\<close>)

text \<open>
  C31. What a relay forwards. A re-flooded OGM goes to the broadcast address with one hop less, a
  quality ten lower (not below zero) and no better than the measured link, and otherwise the originator's
  header; its TVLV length counts the bytes that follow. That region is, byte for byte, the received
  records in their order, each with its type byte, version and value whatever the type, except that the
  previous-sender records are left out and one naming the neighbour it was heard from comes last.
\<close>

theorem ogm_reflood_exact:
  assumes "profile_ok P" "engine_ok P e" "ogm_read (lf_payload frame) = Some (ogm, rest)"
    and "handle_ogm P now frame q reply e = Some (act, reply', e')"
    and "fd_protocol reply \<noteq> ETH_P_BATMAN" "fd_protocol reply' = ETH_P_BATMAN"
  shows "\<exists>n tq rest' rs. ogm_read (fd_payload reply') =
        Some (ogm\<lparr>ogm_ttl := ogm_ttl ogm - 1, ogm_tq := tq, ogm_tvlv_len := n\<rparr>, rest')
    \<and> unat tq = (case q of None \<Rightarrow> unat (ogm_tq ogm) - 10 | Some l \<Rightarrow> min (unat (ogm_tq ogm) - 10) (unat l))
    \<and> fd_dst reply' = BROADCAST \<and> 1 < ogm_ttl ogm \<and> unat n \<le> length rest'
    \<and> tvlv_parse (take (unat (ogm_tvlv_len ogm)) rest) = Some rs
    \<and> take (unat n) rest' = concat (map
        (\<lambda>r. tvlv_hdr_write \<lparr>th_type = tr_type r, th_version = tr_version r, th_len = word_of_nat (length (tr_value r))\<rparr>
             @ tr_value r)
        (filter (\<lambda>r. tr_type r \<noteq> tvlv_as_u8 TvPrevSender) rs
         @ [\<lparr>tr_type = tvlv_as_u8 TvPrevSender, tr_version = 1, tr_value = mac_bytes (lf_src frame)\<rparr>]))"
proof -
  have print: "tvlv_print xs = concat (map (\<lambda>r. tvlv_hdr_write \<lparr>th_type = tr_type r, th_version = tr_version r,
      th_len = word_of_nat (length (tr_value r))\<rparr> @ tr_value r) xs)" for xs
    by (induction xs) (simp_all add: record_bytes_def)
  show ?thesis
    using reflooded_fields [OF assms] attenuated_tq_unat [of "ogm_tq ogm" q]
    unfolding print restamp_def prev_record_def by blast
qed

text \<open>
  Discovery. The first accepted OGM of an originator, relayed by a neighbour whose proof is
  current (always so where no proof is required), makes that neighbour the next hop to it at
  once: the hot-path query and the cached hop agree on it.
\<close>

theorem ogm_discovers_route:
  assumes "profile_ok P" "engine_ok P e" "ogm_accepted e frame ogm tail"
    and "proof_current e now (lf_src frame)" "\<not> im_contains (originator_table e) (ogm_orig ogm)" "resets_fit now e"
  shows "\<exists>reply' e' r. handle_ogm P now frame q reply e = Some (Consumed, reply', e') \<and> engine_ok P e'
    \<and> next_hop e' now (ogm_orig ogm) = Some (lf_src frame)
    \<and> im_get (originator_table e') (ogm_orig ogm) = Some r \<and> or_best_next_hop r = Some (lf_src frame)
    \<and> or_max_tq r = attenuated_tq (ogm_tq ogm) q \<and> or_last_seqno r = ogm_seqno ogm"
  using first_ogm_learned [OF assms, of q reply] by blast

text \<open>
  Floods make progress. An accepted OGM with hops left whose number is new to this node (its
  originator unknown, or the number ahead of the high-water by at most the window) is re-flooded
  whenever the stamped copy fits the reply buffer and its length the 16-bit field.
\<close>

theorem fresh_ogm_reflooded:
  assumes "profile_ok P" "engine_ok P e" "ogm_accepted e frame ogm tail" "1 < ogm_ttl ogm"
    and "stamped_len tail = Some n" "OGM_SIZE + n \<le> length (fd_payload reply)" "n \<le> 65535"
    and "case im_get (originator_table e) (ogm_orig ogm) of
        None \<Rightarrow> True | Some r \<Rightarrow> classify OGM_BANDS (or_last_seqno r) (ogm_seqno ogm) = Advance"
    and "resets_fit now e"
  shows "\<exists>reply' e'. handle_ogm P now frame q reply e = Some (Consumed, reply', e')
    \<and> fd_protocol reply' = ETH_P_BATMAN \<and> fd_dst reply' = BROADCAST"
  by (rule fresh_ogm_flood [OF assms])

section \<open>Witnesses\<close>

definition sample_ogm :: ogm_packet where
  "sample_ogm = \<lparr>ogm_packet_type = packet_type_as_u8 Ogm, ogm_version = BATMAN_VERSION, ogm_ttl = 50, ogm_flags = 0,
     ogm_seqno = 7, ogm_orig = Mac 0 0 0 0 0 9, ogm_reserved = 0, ogm_tq = 255, ogm_tvlv_len = 0\<rparr>"

definition sample_frame :: "mac \<Rightarrow> bytes \<Rightarrow> link_frame" where
  "sample_frame src payload = \<lparr>lf_dst = BROADCAST, lf_src = src, lf_protocol = ETH_P_BATMAN, lf_payload = payload\<rparr>"

abbreviation sample_node :: batman_engine where
  "sample_node \<equiv> engine_new (Mac 0 0 0 0 0 1)"

abbreviation sample_rx :: link_frame where
  "sample_rx \<equiv> sample_frame (Mac 0 0 0 0 0 2) (ogm_write sample_ogm)"

lemma prev_sender_Nil [simp]: "prev_sender [] = None"
  by (simp add: prev_sender_def find_tvlv_parse)

lemma sample_rx_read: "ogm_read (lf_payload sample_rx) = Some (sample_ogm, [])"
  using ogm_codec.read_write [of sample_ogm "[]"] by (simp add: sample_frame_def)

lemma sample_rx_accepted: "ogm_accepted sample_node sample_rx sample_ogm []"
  by (simp add: ogm_accepted_def sample_rx_read) (simp add: sample_ogm_def engine_new_def)

lemma stamped_len_Nil: "stamped_len [] = Some 10"
  using stamped_len_parse [of "[]"] by (simp add: restamp_def prev_record_def)

lemma resets_fit_new [simp]: "resets_fit now (engine_new m)"
  by (simp add: resets_fit_def engine_new_def)

lemma sample_rx_flooded:
  obtains reply' e' where "handle_ogm sample_profile 0 sample_rx None (scratchpad (replicate 64 0)) sample_node =
    Some (Consumed, reply', e')" "fd_protocol reply' = ETH_P_BATMAN"
proof -
  have "\<exists>reply' e'. handle_ogm sample_profile 0 sample_rx None (scratchpad (replicate 64 0)) sample_node =
    Some (Consumed, reply', e') \<and> fd_protocol reply' = ETH_P_BATMAN \<and> fd_dst reply' = BROADCAST"
    by (rule fresh_ogm_flood [OF sample_profile_ok engine_new_ok sample_rx_accepted _ stamped_len_Nil])
       (simp_all add: sample_ogm_def scratchpad_def header_sizes, simp add: engine_new_def)
  with that show thesis by blast
qed


theorem refused_ogm_teaches_nothing_witness:
  "\<exists>e'. handle_ogm sample_profile 0 (sample_frame (Mac 0 0 0 0 0 2) [1, 6]) None (scratchpad []) sample_node =
       Some (Consumed, scratchpad [], e') \<and> originator_table e' = []"
  using refused_ogm_teaches_nothing [of "sample_frame (Mac 0 0 0 0 0 2) [1, 6]" sample_node sample_profile 0 None "scratchpad []"]
  by (simp add: sample_frame_def ogm_codec.read_short header_sizes) (auto simp: engine_new_def)

theorem fresh_ogm_reflooded_witness:
  "\<exists>reply' e'. handle_ogm sample_profile 0 sample_rx None (scratchpad (replicate 64 0)) sample_node =
      Some (Consumed, reply', e') \<and> fd_dst reply' = BROADCAST"
proof -
  have "im_get (originator_table sample_node) m = None" for m by (simp add: engine_new_def)
  then show ?thesis
    using fresh_ogm_reflooded [OF sample_profile_ok engine_new_ok sample_rx_accepted _ stamped_len_Nil,
        of "scratchpad (replicate 64 0)" 0 None]
    by (auto simp: sample_ogm_def scratchpad_def header_sizes)
qed

theorem ogm_reflood_exact_witness:
  "\<exists>reply' e' h rest'. handle_ogm sample_profile 0 sample_rx None (scratchpad (replicate 64 0)) sample_node =
      Some (Consumed, reply', e') \<and> ogm_read (fd_payload reply') = Some (h, rest') \<and> ogm_ttl h = 49 \<and> ogm_tq h = 245"
proof -
  obtain reply' e' where f: "handle_ogm sample_profile 0 sample_rx None (scratchpad (replicate 64 0)) sample_node =
    Some (Consumed, reply', e')" "fd_protocol reply' = ETH_P_BATMAN"
    by (rule sample_rx_flooded)
  have "fd_protocol (scratchpad (replicate 64 0)) \<noteq> ETH_P_BATMAN"
    by (simp add: scratchpad_def ETH_P_BATMAN_def)
  from ogm_reflood_exact [OF sample_profile_ok engine_new_ok sample_rx_read f(1) this f(2)]
  obtain n tq rest' where o: "ogm_read (fd_payload reply') = Some (sample_ogm\<lparr>ogm_ttl := ogm_ttl sample_ogm - 1,
      ogm_tq := tq, ogm_tvlv_len := n\<rparr>, rest')" "unat tq = unat (ogm_tq sample_ogm) - 10"
    unfolding option.case by blast
  have tq: "tq = 245" using o(2) by (simp only: word_unat_eq_iff) (simp add: sample_ogm_def)
  let ?h = "sample_ogm\<lparr>ogm_ttl := ogm_ttl sample_ogm - 1, ogm_tq := tq, ogm_tvlv_len := n\<rparr>"
  have "ogm_ttl ?h = 49 \<and> ogm_tq ?h = 245" by (simp add: tq sample_ogm_def)
  with f(1) o(1) show ?thesis by blast
qed

theorem ogm_discovers_route_witness:
  "\<exists>reply' e'. handle_ogm sample_profile 0 sample_rx None (scratchpad (replicate 64 0)) sample_node =
      Some (Consumed, reply', e') \<and> next_hop e' 0 (Mac 0 0 0 0 0 9) = Some (Mac 0 0 0 0 0 2)"
proof -
  have "proof_current sample_node 0 (lf_src sample_rx)" "\<not> im_contains (originator_table sample_node) (ogm_orig sample_ogm)"
    by (simp_all add: proof_current_def engine_new_def im_contains_def)
  from ogm_discovers_route [OF sample_profile_ok engine_new_ok sample_rx_accepted this resets_fit_new, of None "scratchpad (replicate 64 0)"]
  show ?thesis by (auto simp: sample_ogm_def sample_frame_def)
qed

text \<open>
  With all four path slots taken, a fifth neighbour of better quality becomes the cached next
  hop although no path through it is stored, so the hot-path query cannot choose it.
\<close>

lemma fifth_neighbor_cached_without_path:
  assumes "length (or_paths r) = MAX_PATHS" "src \<notin> ns_neighbor_ident ` set (or_paths r)"
    and "or_best_next_hop r = Some b" "or_max_tq r < tq" "b \<noteq> src"
  shows "or_best_next_hop (learned_record now src True tq seqno a r) = Some src
    \<and> src \<notin> ns_neighbor_ident ` set (or_paths (learned_record now src True tq seqno a r))"
proof -
  have "update_first (\<lambda>p. ns_neighbor_ident p = src) f (or_paths r) = None" for f
    using assms(2) by (auto simp: update_first_None)
  with assms show ?thesis by (simp add: learned_record_def learn_path_def select_hop_def)
qed

end
