(* ===== verification/Data_Plane.thy ===== *)
theory Data_Plane
  imports Ogm_Handler
begin

text \<open>
  The receive handlers of data and control packets other than OGMs
  (\<^verbatim>\<open>libs/batman/src/engine.rs\<close>): keep-alives, flooded broadcasts, the three relays (unicast,
  credential control, echo), multi-destination multicast, and the dispatcher \<open>handle_rx\<close>.

  The relay shape is the contract \<open>relayed_header\<close>: a header codec with a destination and a
  TTL that one hop decrements. It is interpreted for the unicast header, the credential
  headers and the echo header.
\<close>

section \<open>Keep-alives\<close>

definition note_keepalive :: "profile \<Rightarrow> duration \<Rightarrow> mac \<Rightarrow> batman_engine \<Rightarrow> batman_engine" where
  "note_keepalive P now neighbor e =
     (let now_ms = from_duration now in
      case im_get (keepalive e) neighbor of
        Some stats \<Rightarrow>
          (let gap_ms = elapsed_since now_ms (ka_last_heard stats) in
           e\<lparr>keepalive := im_set neighbor
                \<lparr>ka_last_heard = now_ms,
                 ka_interval_estimate_ms = blend_interval_ms (ka_interval_estimate_ms stats) gap_ms\<rparr>
                (keepalive e)\<rparr>)
      | None \<Rightarrow>
          (let m = keepalive e;
               m = (if length m \<ge> max_originators P
                    then (case max_by_key (\<lambda>(_, s). elapsed_since now_ms (ka_last_heard s)) m of
                            None \<Rightarrow> m
                          | Some (oldest, _) \<Rightarrow> im_remove (swap_order P) oldest m)
                    else m)
           in e\<lparr>keepalive :=
                (case im_insert (max_originators P) neighbor
                        \<lparr>ka_last_heard = now_ms, ka_interval_estimate_ms = 0\<rparr> m of
                   Some m' \<Rightarrow> m' | None \<Rightarrow> m)\<rparr>))"

definition handle_keepalive ::
    "profile \<Rightarrow> duration \<Rightarrow> link_frame \<Rightarrow> batman_engine \<Rightarrow> routing_action \<times> batman_engine" where
  "handle_keepalive P now frame e =
     (case minimal_read (lf_payload frame) of
        None \<Rightarrow> (Consumed, e)
      | Some _ \<Rightarrow>
          (Consumed,
           if lf_src frame \<noteq> self_ident e \<and> im_contains (originator_table e) (lf_src frame)
           then note_keepalive P now (lf_src frame) e else e))"

section \<open>Flooded broadcasts\<close>

text \<open>The de-duplication step: the new engine, or an early drop.\<close>

definition admit_broadcast ::
    "profile \<Rightarrow> duration \<Rightarrow> mac \<Rightarrow> u32 \<Rightarrow> batman_engine \<Rightarrow> bool \<times> batman_engine" where
  "admit_broadcast P now orig incoming_seqno e =
     (case im_get (broadcast_seqno e) orig of
        Some entry \<Rightarrow>
          (case bse_admit entry incoming_seqno now of (admission, entry) \<Rightarrow>
             (let e = e\<lparr>broadcast_seqno := im_set orig entry (broadcast_seqno e)\<rparr>;
                  e = (if is_resynchronised admission
                       then e\<lparr>seqno_resyncs := saturating_add (seqno_resyncs e) 1\<rparr> else e)
              in if advanced admission then (True, e)
                 else (False, if \<not> is_duplicate admission
                              then e\<lparr>broadcast_seqno_refusals := saturating_add (broadcast_seqno_refusals e) 1\<rparr>
                              else e)))
      | None \<Rightarrow>
          (let e = (if length (broadcast_seqno e) \<ge> max_originators P
                    then (case max_by_key (\<lambda>(_, b). elapsed_since (from_duration now) (be_last_updated b))
                                (broadcast_seqno e) of
                            None \<Rightarrow> e
                          | Some (evicted, _) \<Rightarrow>
                              e\<lparr>broadcast_seqno := im_remove (swap_order P) evicted (broadcast_seqno e),
                                broadcast_dedup_evictions := saturating_add (broadcast_dedup_evictions e) 1\<rparr>)
                    else e)
           in case im_insert (max_originators P) orig (bse_seeded incoming_seqno now) (broadcast_seqno e) of
                None \<Rightarrow> (False, e)
              | Some m \<Rightarrow> (True, e\<lparr>broadcast_seqno := m\<rparr>)))"

text \<open>
  The step every relay ends with: header and inner payload into the reply buffer if they fit,
  an oversize drop otherwise.
\<close>

definition relay_into ::
    "bytes \<Rightarrow> bytes \<Rightarrow> mac \<Rightarrow> frame_data \<Rightarrow> batman_engine \<Rightarrow> frame_data \<times> batman_engine" where
  "relay_into hdr inner next reply e =
     (let total = length hdr + length inner in
      if total \<le> length (fd_payload reply)
      then (\<lparr>fd_dst = next, fd_protocol = ETH_P_BATMAN, fd_payload = hdr @ inner @ drop total (fd_payload reply)\<rparr>, e)
      else (reply, note_relay_oversize_drop e))"

definition handle_broadcast ::
    "profile \<Rightarrow> duration \<Rightarrow> link_frame \<Rightarrow> frame_data \<Rightarrow> batman_engine
       \<Rightarrow> routing_action \<times> frame_data \<times> batman_engine" where
  "handle_broadcast P now frame reply e =
     (case bcast_read (lf_payload frame) of
        None \<Rightarrow> (Consumed, reply, e)
      | Some (bcast, inner) \<Rightarrow>
          if bc_orig bcast = self_ident e then (Consumed, reply, e)
          else
            (case admit_broadcast P now (bc_orig bcast) (bc_seqno bcast) e of
               (False, e) \<Rightarrow> (Consumed, reply, e)
             | (True, e) \<Rightarrow>
                 if bc_ttl bcast \<le> 1 then (DeliverLocal, reply, e)
                 else (case relay_into (bcast_write (bcast\<lparr>bc_ttl := bc_ttl bcast - 1\<rparr>)) inner BROADCAST reply e of
                         (reply, e) \<Rightarrow> (DeliverLocalAndForward BROADCAST, reply, e))))"

section \<open>Relays\<close>

definition handle_unicast ::
    "duration \<Rightarrow> link_frame \<Rightarrow> frame_data \<Rightarrow> batman_engine \<Rightarrow> routing_action \<times> frame_data \<times> batman_engine" where
  "handle_unicast now frame reply e =
     (case routed_read (lf_payload frame) of
        None \<Rightarrow> (Consumed, reply, e)
      | Some (unicast_hdr, inner) \<Rightarrow>
          (let dst = rp_dest unicast_hdr in
           if dst = self_ident e then (DeliverLocal, reply, e)
           else if rp_ttl unicast_hdr \<le> 1 then (Consumed, reply, e)
           else (case next_hop e now dst of
                   None \<Rightarrow> (Consumed, reply, e)
                 | Some next \<Rightarrow>
                     (let updated_hdr = unicast_hdr\<lparr>rp_ttl := rp_ttl unicast_hdr - 1\<rparr>
                      in (Consumed, relay_into (routed_write updated_hdr) inner next reply e)))))"

text \<open>
  \<^verbatim>\<open>handle_credential_control<H>\<close>, with the operations of the trait \<^verbatim>\<open>CredentialControlHeader\<close>
  as arguments, and the one implementation its macro gives the four headers.
\<close>

definition handle_credential_control ::
    "(bytes \<Rightarrow> ('h \<times> bytes) option) \<Rightarrow> ('h \<Rightarrow> bytes) \<Rightarrow> ('h \<Rightarrow> mac) \<Rightarrow> ('h \<Rightarrow> u8) \<Rightarrow> ('h \<Rightarrow> 'h) \<Rightarrow>
       duration \<Rightarrow> link_frame \<Rightarrow> frame_data \<Rightarrow> batman_engine \<Rightarrow> routing_action \<times> frame_data \<times> batman_engine" where
  "handle_credential_control read_from_prefix as_bytes dest ttl decrement_ttl now frame reply e =
     (case read_from_prefix (lf_payload frame) of
        None \<Rightarrow> (Consumed, reply, e)
      | Some (hdr, inner) \<Rightarrow>
          (let dst = dest hdr in
           if dst = self_ident e then (DeliverLocal, reply, e)
           else if ttl hdr \<le> 1 then (Consumed, reply, e)
           else (case next_hop e now dst of
                   None \<Rightarrow> (Consumed, reply, e)
                 | Some next \<Rightarrow>
                     (let updated_hdr = decrement_ttl hdr
                      in (Consumed, relay_into (as_bytes updated_hdr) inner next reply e)))))"

definition decrement_ttl :: "routed_packet \<Rightarrow> routed_packet" where
  "decrement_ttl h = h\<lparr>rp_ttl := rp_ttl h - 1\<rparr>"

definition handle_credential ::
    "duration \<Rightarrow> link_frame \<Rightarrow> frame_data \<Rightarrow> batman_engine \<Rightarrow> routing_action \<times> frame_data \<times> batman_engine" where
  "handle_credential = handle_credential_control routed_read routed_write rp_dest rp_ttl decrement_ttl"

definition handle_echo ::
    "duration \<Rightarrow> link_frame \<Rightarrow> frame_data \<Rightarrow> batman_engine \<Rightarrow> routing_action \<times> frame_data \<times> batman_engine" where
  "handle_echo now frame reply e =
     (case echo_read (lf_payload frame) of
        None \<Rightarrow> (Consumed, reply, e)
      | Some (hdr, inner) \<Rightarrow>
          (let dst = ec_dest hdr in
           if dst = self_ident e then (DeliverLocal, reply, e)
           else if ec_ttl hdr \<le> 1 then (Consumed, reply, e)
           else (case next_hop e now dst of
                   None \<Rightarrow> (Consumed, reply, e)
                 | Some next \<Rightarrow>
                     (let updated_hdr = hdr\<lparr>ec_ttl := ec_ttl hdr - 1, ec_hops := saturating_add (ec_hops hdr) 1\<rparr>
                      in (Consumed, relay_into (echo_write updated_hdr) inner next reply e)))))"

definition route_by_dest :: "duration \<Rightarrow> link_frame \<Rightarrow> batman_engine \<Rightarrow> routing_action" where
  "route_by_dest now frame e =
     (if lf_dst frame = self_ident e then DeliverLocal
      else (case next_hop e now (lf_dst frame) of Some next \<Rightarrow> ForwardTo next | None \<Rightarrow> Consumed))"

section \<open>Multicast\<close>

fun mcast_route_loop ::
    "duration \<Rightarrow> mac list \<Rightarrow> (mac \<times> mac) list \<Rightarrow> batman_engine \<Rightarrow> (mac \<times> mac) list \<times> batman_engine" where
  "mcast_route_loop now [] routed e = (routed, e)"
| "mcast_route_loop now (dest # dests) routed e =
     (if dest = self_ident e then mcast_route_loop now dests routed e
      else case next_hop e now dest of
             None \<Rightarrow> mcast_route_loop now dests routed
                       (e\<lparr>mcast_unroutable_dests := saturating_add (mcast_unroutable_dests e) 1\<rparr>)
           | Some next \<Rightarrow>
               mcast_route_loop now dests
                 (case vec_push MAX_MCAST_DESTS (next, dest) routed of Some r \<Rightarrow> r | None \<Rightarrow> routed) e)"

definition mcast_group :: "(mac \<times> mac) list \<Rightarrow> mac \<Rightarrow> mac list" where
  "mcast_group routed next = push_all MAX_MCAST_DESTS (map snd (filter (\<lambda>(n, _). n = next) routed)) []"

fun mcast_emit_loop ::
    "'s frame_sink \<Rightarrow> u8 \<Rightarrow> bytes \<Rightarrow> (mac \<times> mac) list \<Rightarrow> (mac \<times> mac) list \<Rightarrow> mac list
       \<Rightarrow> bytes \<Rightarrow> 's \<Rightarrow> batman_engine \<Rightarrow> bytes \<times> 's \<times> batman_engine" where
  "mcast_emit_loop push ttl inner routed [] done_hops scratch s e = (scratch, s, e)"
| "mcast_emit_loop push ttl inner routed ((next, d) # todo) done_hops scratch s e =
     (if next \<in> set done_hops then mcast_emit_loop push ttl inner routed todo done_hops scratch s e
      else
        let done_hops = (case vec_push MAX_MCAST_DESTS next done_hops of Some x \<Rightarrow> x | None \<Rightarrow> done_hops);
            grp = mcast_group routed next
        in case write_mcast (ttl - 1) AuthTag grp inner scratch of
             (scratch, None) \<Rightarrow>
               mcast_emit_loop push ttl inner routed todo done_hops scratch s (note_relay_oversize_drop e)
           | (scratch, Some len) \<Rightarrow>
               (case push s \<lparr>fd_dst = next, fd_protocol = ETH_P_BATMAN, fd_payload = take len scratch\<rparr> of
                  (pushed, s) \<Rightarrow>
                    mcast_emit_loop push ttl inner routed todo done_hops scratch s
                      (if pushed then e
                       else e\<lparr>mcast_emit_overflows := saturating_add (mcast_emit_overflows e) 1\<rparr>)))"

definition handle_mcast ::
    "'s frame_sink \<Rightarrow> duration \<Rightarrow> link_frame \<Rightarrow> 's \<Rightarrow> bytes \<Rightarrow> batman_engine
       \<Rightarrow> routing_action \<times> bytes \<times> 's \<times> batman_engine" where
  "handle_mcast push now frame s scratch e =
     (case mcast_parse (lf_payload frame) of
        None \<Rightarrow> (Consumed, scratch, s, e)
      | Some view \<Rightarrow>
          if length (mv_dests view) > MAX_MCAST_DESTS
          then (Consumed, scratch, s, e\<lparr>mcast_oversize_lists := saturating_add (mcast_oversize_lists e) 1\<rparr>)
          else
            let deliver = (self_ident e \<in> set (mv_dests view));
                act = (if deliver then DeliverLocal else Consumed)
            in if mv_form view = AuthSignature then (act, scratch, s, e)
               else if mc_ttl (mv_header view) > 1
               then (case mcast_route_loop now (mv_dests view) [] e of
                       (routed, e) \<Rightarrow>
                         (act, mcast_emit_loop push (mc_ttl (mv_header view)) (mv_inner view) routed routed [] scratch s e))
               else (act, scratch, s, e))"

section \<open>The dispatcher\<close>

text \<open>\<open>None\<close> stands for a panic or a loop that does not return.\<close>

definition handle_rx ::
    "profile \<Rightarrow> 's frame_sink \<Rightarrow> duration \<Rightarrow> link_frame \<Rightarrow> u8 option \<Rightarrow> frame_data \<Rightarrow> 's \<Rightarrow> batman_engine
       \<Rightarrow> (routing_action \<times> frame_data \<times> 's \<times> batman_engine) option" where
  "handle_rx P push now frame local_quality reply s e =
     (let payload = lf_payload frame;
          plain = (\<lambda>(act, reply, e). Some (act, reply, s, e))
      in if lf_protocol frame \<noteq> ETH_P_BATMAN \<or> length payload < 2 then Some (Consumed, reply, s, e)
         else if payload ! 1 \<noteq> BATMAN_VERSION then Some (Consumed, reply, s, e)
         else case packet_type_from_u8 (payload ! 0) of
           Some Ogm \<Rightarrow> Option.bind (handle_ogm P now frame local_quality reply e) plain
         | Some Bcast \<Rightarrow> plain (handle_broadcast P now frame reply e)
         | Some Unicast \<Rightarrow> plain (handle_unicast now frame reply e)
         | Some Mcast \<Rightarrow>
             (case handle_mcast push now frame s (fd_payload reply) e of
                (act, scratch, s, e) \<Rightarrow> Some (act, reply\<lparr>fd_payload := scratch\<rparr>, s, e))
         | Some CertReq \<Rightarrow> plain (handle_credential now frame reply e)
         | Some CertReply \<Rightarrow> plain (handle_credential now frame reply e)
         | Some RenewReq \<Rightarrow> plain (handle_credential now frame reply e)
         | Some RenewReply \<Rightarrow> plain (handle_credential now frame reply e)
         | Some Keepalive \<Rightarrow> (case handle_keepalive P now frame e of (act, e) \<Rightarrow> Some (act, reply, s, e))
         | Some EchoRequest \<Rightarrow> plain (handle_echo now frame reply e)
         | Some EchoReply \<Rightarrow> plain (handle_echo now frame reply e)
         | Some NextHopChallenge \<Rightarrow> Some (Consumed, reply, s, e)
         | Some NextHopResponse \<Rightarrow> Some (Consumed, reply, s, e)
         | None \<Rightarrow> Some (route_by_dest now frame e, reply, s, e))"

section \<open>The contract of a relay\<close>

locale relayed_header = wire_header hsize enc dec
  for hsize :: nat and enc :: "'h \<Rightarrow> bytes" and dec :: "bytes \<Rightarrow> ('h \<times> bytes) option" +
  fixes dest :: "'h \<Rightarrow> mac" and ttl :: "'h \<Rightarrow> u8" and hop :: "'h \<Rightarrow> 'h"
  assumes hop_dest: "dest (hop h) = dest h"
    and hop_ttl: "ttl (hop h) = ttl h - 1"
begin

lemma relay_cases:
  assumes "handle_credential_control dec enc dest ttl hop now frame reply e = (act, reply', e')"
  shows "reply' = reply \<and> e' \<in> {e, note_relay_oversize_drop e}
    \<or> (\<exists>h inner next. dec (lf_payload frame) = Some (h, inner) \<and> dest h \<noteq> self_ident e \<and> 1 < ttl h
        \<and> next_hop e now (dest h) = Some next \<and> e' = e \<and> act = Consumed
        \<and> hsize + length inner \<le> length (fd_payload reply)
        \<and> reply' = \<lparr>fd_dst = next, fd_protocol = ETH_P_BATMAN,
             fd_payload = enc (hop h) @ inner @ drop (hsize + length inner) (fd_payload reply)\<rparr>)"
  using assms
  by (auto simp: handle_credential_control_def relay_into_def Let_def write_length not_le
      split: option.splits if_splits prod.splits)

lemma relay_forwards:
  assumes "dec (lf_payload frame) = Some (h, inner)" "dest h \<noteq> self_ident e" "\<not> ttl h \<le> 1"
    and "next_hop e now (dest h) = Some nh" "hsize + length inner \<le> length (fd_payload reply)"
  shows "handle_credential_control dec enc dest ttl hop now frame reply e =
    (Consumed, \<lparr>fd_dst = nh, fd_protocol = ETH_P_BATMAN,
       fd_payload = enc (hop h) @ inner @ drop (hsize + length inner) (fd_payload reply)\<rparr>, e)"
  using assms by (simp add: handle_credential_control_def relay_into_def Let_def write_length)

lemma relay_delivers:
  assumes "handle_credential_control dec enc dest ttl hop now frame reply e = (act, reply', e')"
  shows "act = DeliverLocal \<longleftrightarrow> (\<exists>h inner. dec (lf_payload frame) = Some (h, inner) \<and> dest h = self_ident e)"
  using assms
  by (auto simp: handle_credential_control_def Let_def split: option.splits if_splits prod.splits)

lemma relay_result:
  assumes "handle_credential_control dec enc dest ttl hop now frame reply e = (act, reply', e')"
    and "fd_protocol reply \<noteq> ETH_P_BATMAN" "fd_protocol reply' = ETH_P_BATMAN"
  shows "\<exists>h inner rest'. dec (lf_payload frame) = Some (h, inner)
    \<and> dec (fd_payload reply') = Some (hop h, rest') \<and> take (length inner) rest' = inner
    \<and> dest h \<noteq> self_ident e \<and> unat (ttl (hop h)) = unat (ttl h) - 1 \<and> 1 < unat (ttl h)
    \<and> next_hop e now (dest h) = Some (fd_dst reply') \<and> act = Consumed
    \<and> length (fd_payload reply') = length (fd_payload reply)"
proof -
  obtain h inner nh where r: "dec (lf_payload frame) = Some (h, inner)" "dest h \<noteq> self_ident e" "1 < ttl h"
      "next_hop e now (dest h) = Some nh" "act = Consumed" "hsize + length inner \<le> length (fd_payload reply)"
      "reply' = \<lparr>fd_dst = nh, fd_protocol = ETH_P_BATMAN,
             fd_payload = enc (hop h) @ inner @ drop (hsize + length inner) (fd_payload reply)\<rparr>"
    using relay_cases [OF assms(1)] assms(2,3) by auto
  have "unat (ttl (hop h)) = unat (ttl h) - 1" "1 < unat (ttl h)"
    using r(3) by (simp_all add: hop_ttl word_less_nat_alt unat_sub word_le_nat_alt)
  with r show ?thesis
    by (auto simp: read_write write_length)
qed

end

definition echo_hop :: "echo_packet \<Rightarrow> echo_packet" where
  "echo_hop h = h\<lparr>ec_ttl := ec_ttl h - 1, ec_hops := saturating_add (ec_hops h) 1\<rparr>"

interpretation routed_relay: relayed_header ROUTED_SIZE routed_write routed_read rp_dest rp_ttl decrement_ttl
  by unfold_locales (simp_all add: decrement_ttl_def)

interpretation echo_relay: relayed_header ECHO_SIZE echo_write echo_read ec_dest ec_ttl echo_hop
  by unfold_locales (simp_all add: echo_hop_def)

lemma handle_unicast_relay:
  "handle_unicast = handle_credential_control routed_read routed_write rp_dest rp_ttl decrement_ttl"
  unfolding fun_eq_iff handle_unicast_def handle_credential_control_def decrement_ttl_def by simp

lemma handle_echo_relay:
  "handle_echo = handle_credential_control echo_read echo_write ec_dest ec_ttl echo_hop"
  unfolding fun_eq_iff handle_echo_def handle_credential_control_def echo_hop_def by simp

section \<open>Tables\<close>

lemma note_keepalive_table:
  assumes "im_get (keepalive e) n = None"
  shows "note_keepalive P now n e = e\<lparr>keepalive :=
    insert_evicting (swap_order P) (max_originators P) (\<lambda>s. elapsed_since (from_duration now) (ka_last_heard s)) n
      \<lparr>ka_last_heard = from_duration now, ka_interval_estimate_ms = 0\<rparr> (keepalive e)\<rparr>"
  using assms
  by (cases "length (keepalive e) < max_originators P")
     (auto simp: note_keepalive_def insert_evicting_def im_insert_def im_contains_def Let_def
        split: option.splits)

lemma note_keepalive_ok: "profile_ok P \<Longrightarrow> engine_ok P e \<Longrightarrow> engine_ok P (note_keepalive P now n e)"
proof (cases "im_get (keepalive e) n")
  case None
  assume "profile_ok P" "engine_ok P e"
  then show ?thesis by (simp add: note_keepalive_table [OF None] engine_ok_def insert_evicting_ok)
next
  case (Some s)
  assume "engine_ok P e"
  with Some show ?thesis by (simp add: note_keepalive_def engine_ok_def Let_def)
qed

lemma handle_keepalive_ok:
  "profile_ok P \<Longrightarrow> engine_ok P e \<Longrightarrow> engine_ok P (snd (handle_keepalive P now frame e))"
  by (simp add: handle_keepalive_def note_keepalive_ok split: option.split)


lemma admit_broadcast_new:
  assumes "profile_ok P" "engine_ok P e" "im_get (broadcast_seqno e) orig = None"
  obtains n where "admit_broadcast P now orig seqno e = (True, e\<lparr>broadcast_seqno :=
      insert_evicting (swap_order P) (max_originators P) (\<lambda>b. elapsed_since (from_duration now) (be_last_updated b))
        orig (bse_seeded seqno now) (broadcast_seqno e), broadcast_dedup_evictions := n\<rparr>)"
proof -
  let ?m = "broadcast_seqno e" and ?age = "\<lambda>b. elapsed_since (from_duration now) (be_last_updated b)"
  let ?new = "bse_seeded seqno now"
  have ok: "im_ok (max_originators P) ?m"
    using assms(2) by (simp add: engine_ok_def)
  show thesis
  proof (cases "length ?m < max_originators P")
    case True
    with assms(3) show thesis
      using that [of "broadcast_dedup_evictions e"]
      by (simp add: admit_broadcast_def insert_evicting_def im_insert_def im_contains_def)
  next
    case False
    then have none: "im_insert (max_originators P) orig ?new ?m = None"
      using assms(3) by (simp add: im_insert_def im_contains_def)
    have "?m \<noteq> []" using False assms(1) by (auto simp: profile_ok_def)
    then obtain old b where pick: "max_by_key (\<lambda>(_, b). ?age b) ?m = Some (old, b)"
      using max_by_key_Some [of ?m "\<lambda>(_, b). ?age b"] by auto
    have "length (im_remove (swap_order P) old ?m) < max_originators P"
    proof -
      have "im_index old ?m \<noteq> None"
        using max_by_key_in [OF pick] unfolding im_index_None im_keys_def by force
      then obtain i where "im_index old ?m = Some i" "i < length ?m"
        using im_index_Some by fastforce
      then show ?thesis
        using swap_remove_prefix(2) [of "swap_order P" i ?m] assms(1) ok \<open>?m \<noteq> []\<close>
        by (cases ?m) (auto simp: im_remove_def profile_ok_def im_ok_def)
    qed
    then have "im_insert (max_originators P) orig ?new (im_remove (swap_order P) old ?m) \<noteq> None"
      by (simp add: im_insert_def)
    then obtain m' where m': "im_insert (max_originators P) orig ?new (im_remove (swap_order P) old ?m) = Some m'"
      by blast
    show thesis
      using that [of "saturating_add (broadcast_dedup_evictions e) 1"] False none pick m' assms(3)
      by (simp add: admit_broadcast_def insert_evicting_def)
  qed
qed

lemma bse_admit_advanced: "bse_admit b seqno now = (a, b') \<Longrightarrow> advanced a \<Longrightarrow> be_last_seqno b' = seqno"
  by (auto simp: bse_admit_def admit_seqno_def Let_def split: prod.splits seqno_verdict.splits if_splits)

lemma admit_broadcast_ok:
  assumes "profile_ok P" "engine_ok P e"
  shows "engine_ok P (snd (admit_broadcast P now orig seqno e))"
proof (cases "im_get (broadcast_seqno e) orig")
  case None
  obtain n where "admit_broadcast P now orig seqno e = (True, e\<lparr>broadcast_seqno :=
      insert_evicting (swap_order P) (max_originators P) (\<lambda>b. elapsed_since (from_duration now) (be_last_updated b))
        orig (bse_seeded seqno now) (broadcast_seqno e), broadcast_dedup_evictions := n\<rparr>)"
    by (rule admit_broadcast_new [OF assms None])
  with assms show ?thesis by (simp add: engine_ok_def insert_evicting_ok)
next
  case (Some b)
  with assms(2) show ?thesis
    by (simp add: admit_broadcast_def Let_def engine_ok_def split: prod.splits)
qed

lemma admit_broadcast_high_water:
  assumes "profile_ok P" "engine_ok P e" "admit_broadcast P now orig seqno e = (True, e')"
  shows "\<exists>b. im_get (broadcast_seqno e') orig = Some b \<and> be_last_seqno b = seqno"
proof (cases "im_get (broadcast_seqno e) orig")
  case None
  obtain n where adm: "admit_broadcast P now orig seqno e = (True, e\<lparr>broadcast_seqno :=
      insert_evicting (swap_order P) (max_originators P) (\<lambda>b. elapsed_since (from_duration now) (be_last_updated b))
        orig (bse_seeded seqno now) (broadcast_seqno e), broadcast_dedup_evictions := n\<rparr>)"
    by (rule admit_broadcast_new [OF assms(1,2) None])
  have "im_ok (max_originators P) (broadcast_seqno e)"
    using assms(2) by (simp add: engine_ok_def)
  note get = insert_evicting_get [OF assms(1) this]
  with adm show ?thesis
    using assms(3) by (auto simp: get) (simp add: bse_seeded_def)
next
  case (Some b)
  obtain a b' where "bse_admit b seqno now = (a, b')" by fastforce
  with Some assms(3) show ?thesis
    using bse_admit_advanced [of b seqno now a b'] im_get_put [OF Some]
    by (auto simp: admit_broadcast_def Let_def split: if_splits)
qed

lemma admit_broadcast_again:
  assumes "im_get (broadcast_seqno e) orig = Some b" "be_last_seqno b = seqno"
  shows "\<exists>e'. admit_broadcast P now orig seqno e = (False, e')"
proof -
  have "classify BROADCAST_BANDS seqno seqno = Duplicate"
    by (simp add: classify_def BROADCAST_BANDS_def)
  then show ?thesis
    using assms by (simp add: admit_broadcast_def bse_admit_def admit_seqno_def Let_def)
qed

lemma relay_into_state: "snd (relay_into hdr inner nh reply e) \<in> {e, note_relay_oversize_drop e}"
  by (simp add: relay_into_def Let_def)

lemma relay_into_ok [simp]: "engine_ok P (snd (relay_into hdr inner nh reply e)) = engine_ok P e"
  using relay_into_state [of hdr inner nh reply e] by auto

lemma relay_into_seqnos: "relay_into hdr inner nh reply e = (r, x) \<Longrightarrow> broadcast_seqno x = broadcast_seqno e"
  by (auto simp: relay_into_def Let_def note_relay_oversize_drop_def split: if_splits)

lemma relay_into_length:
  "length (fd_payload (fst (relay_into hdr inner nh reply e))) = length (fd_payload reply)"
  by (simp add: relay_into_def Let_def)


section \<open>Multicast groups\<close>

lemma next_hop_same:
  assumes "same_proofs e e'" "originator_table e' = originator_table e"
  shows "next_hop e' now d = next_hop e now d"
proof -
  have "effective_tq e' now = effective_tq e now"
    by (rule ext) (rule same_proofs_reads(4) [OF assms(1)])
  then show ?thesis
    by (simp add: next_hop_def assms(2) same_proofs_reads [OF assms(1)] split: option.split)
qed

lemma next_hop_counters [simp]:
  "next_hop (e\<lparr>mcast_unroutable_dests := n\<rparr>) now d = next_hop e now d"
  by (rule next_hop_same) (simp_all add: same_proofs_def)

definition routable :: "batman_engine \<Rightarrow> duration \<Rightarrow> mac list \<Rightarrow> (mac \<times> mac) list" where
  "routable e now ds =
     List.map_filter (\<lambda>d. if d = self_ident e then None else map_option (\<lambda>n. (n, d)) (next_hop e now d)) ds"

lemma routable_simps [simp]:
  "routable e now [] = []"
  "routable e now (d # ds) =
     (if d = self_ident e then routable e now ds
      else case next_hop e now d of None \<Rightarrow> routable e now ds | Some n \<Rightarrow> (n, d) # routable e now ds)"
  by (simp_all add: routable_def map_filter_simps split: option.split)

lemma routable_counters [simp]: "routable (e\<lparr>mcast_unroutable_dests := n\<rparr>) now ds = routable e now ds"
  unfolding routable_def next_hop_counters by simp

lemma length_routable: "length (routable e now ds) \<le> length ds"
  by (induction ds) (auto split: option.split)

lemma mset_routable:
  "mset (map snd (routable e now ds)) = mset (filter (\<lambda>d. d \<noteq> self_ident e \<and> next_hop e now d \<noteq> None) ds)"
  by (induction ds) (auto split: option.split)

lemma routable_hop: "(n, d) \<in> set (routable e now ds) \<Longrightarrow> next_hop e now d = Some n \<and> d \<in> set ds \<and> d \<noteq> self_ident e"
  by (induction ds) (auto split: option.splits if_splits)

lemma mcast_route_loop_eq:
  assumes "length routed + length ds \<le> MAX_MCAST_DESTS"
  shows "\<exists>n. mcast_route_loop now ds routed e = (routed @ routable e now ds, e\<lparr>mcast_unroutable_dests := n\<rparr>)"
  using assms
proof (induction ds arbitrary: routed e)
  case Nil
  then show ?case by (auto intro: exI [of _ "mcast_unroutable_dests e"])
next
  case (Cons d ds)
  show ?case
  proof (cases "d = self_ident e \<or> next_hop e now d = None")
    case True
    with Cons.prems Cons.IH [of routed e]
      Cons.IH [of routed "e\<lparr>mcast_unroutable_dests := saturating_add (mcast_unroutable_dests e) 1\<rparr>"]
    show ?thesis by auto
  next
    case False
    then obtain n where "next_hop e now d = Some n" "d \<noteq> self_ident e" by auto
    with Cons.prems Cons.IH [of "routed @ [(n, d)]" e] show ?thesis by (auto simp: vec_push_def)
  qed
qed

fun fresh_hops :: "(mac \<times> mac) list \<Rightarrow> mac list \<Rightarrow> mac list" where
  "fresh_hops [] seen = []"
| "fresh_hops ((n, d) # todo) seen =
     (if n \<in> set seen then fresh_hops todo seen else n # fresh_hops todo (seen @ [n]))"

lemma fresh_hops_set: "distinct (fresh_hops todo seen) \<and> set (fresh_hops todo seen) = fst ` set todo - set seen"
  by (induction todo seen rule: fresh_hops.induct) auto

lemma mcast_group_eq:
  "length routed \<le> MAX_MCAST_DESTS \<Longrightarrow> mcast_group routed n = map snd (filter (\<lambda>(m, _). m = n) routed)"
  by (simp add: mcast_group_def push_all_eq order_trans [OF length_filter_le])

lemma mcast_groups_partition:
  "distinct hops \<Longrightarrow>
     mset (concat (map (\<lambda>n. map snd (filter (\<lambda>(m, _). m = n) routed)) hops)) =
     image_mset snd (filter_mset (\<lambda>x. fst x \<in> set hops) (mset routed))"
proof (induction hops)
  case (Cons n hops)
  have "filter_mset (\<lambda>x. fst x \<in> set (n # hops)) (mset routed) =
      filter_mset (\<lambda>x. fst x = n) (mset routed) + filter_mset (\<lambda>x. fst x \<in> set hops) (mset routed)"
    using Cons.prems by (induction routed) auto
  with Cons show ?case by (simp add: split_beta)
qed simp

definition mcast_bytes :: "u8 \<Rightarrow> mac list \<Rightarrow> bytes \<Rightarrow> bytes" where
  "mcast_bytes ttl dests inner =
     mcast_hdr_write \<lparr>mc_packet_type = packet_type_as_u8 Mcast, mc_version = BATMAN_VERSION, mc_ttl = ttl,
                      mc_n_dests = word_of_nat (length dests), mc_form = auth_form_as_u8 AuthTag\<rparr>
     @ macs_bytes dests @ inner"

definition record_sink :: "frame_data list frame_sink" where
  "record_sink s f = (True, s @ [f])"

lemma write_mcast_bytes:
  assumes "dests \<noteq> []" "length dests \<le> MAX_MCAST_DESTS"
    and "MCAST_HEADER_LEN + 6 * length dests + length inner \<le> length out"
  obtains out' n where "write_mcast ttl AuthTag dests inner out = (out', Some n)" "take n out' = mcast_bytes ttl dests inner"
    "length out' = length out"
proof -
  obtain out' n where w: "write_mcast ttl AuthTag dests inner out = (out', Some n)"
    using assms by (auto simp: write_mcast_def Let_def MAX_MCAST_DESTS_def)
  moreover have "length out' = length out"
    using write_mcast_length [of ttl AuthTag dests inner out] w by simp
  ultimately show thesis
    using that by (auto simp: write_mcast_Some mcast_bytes_def)
qed

lemma mcast_emit_loop_eq:
  assumes "length routed \<le> MAX_MCAST_DESTS" "set todo \<subseteq> set routed" "distinct seen" "set seen \<subseteq> fst ` set routed"
    and "MCAST_HEADER_LEN + 6 * length routed + length inner \<le> length scratch"
  shows "\<exists>scratch'. mcast_emit_loop record_sink ttl inner routed todo seen scratch s e =
    (scratch', s @ map (\<lambda>n. \<lparr>fd_dst = n, fd_protocol = ETH_P_BATMAN,
       fd_payload = mcast_bytes (ttl - 1) (mcast_group routed n) inner\<rparr>) (fresh_hops todo seen), e)"
  using assms(2-5)
proof (induction todo arbitrary: seen scratch s)
  case (Cons x todo)
  obtain n d where x: "x = (n, d)" by fastforce
  show ?case
  proof (cases "n \<in> set seen")
    case True
    with Cons x show ?thesis by auto
  next
    case False
    have nin: "n \<in> fst ` set routed" using Cons.prems(1) x by force
    have "card (set seen) < card (fst ` set routed)"
      using False nin Cons.prems(3) by (intro psubset_card_mono) auto
    also have "\<dots> \<le> length routed" by (metis card_image_le card_length finite_set le_trans)
    finally have push: "vec_push MAX_MCAST_DESTS n seen = Some (seen @ [n])"
      using assms(1) Cons.prems(2) by (simp add: vec_push_def distinct_card)
    have grp: "mcast_group routed n \<noteq> []" "length (mcast_group routed n) \<le> length routed"
      using nin by (auto simp: mcast_group_eq [OF assms(1)] filter_empty_conv)
    obtain sc' k where w: "write_mcast (ttl - 1) AuthTag (mcast_group routed n) inner scratch = (sc', Some k)"
        "take k sc' = mcast_bytes (ttl - 1) (mcast_group routed n) inner" "length sc' = length scratch"
      using write_mcast_bytes [OF grp(1), of inner scratch "ttl - 1"] grp(2) assms(1) Cons.prems(4) by auto
    have step: "mcast_emit_loop record_sink ttl inner routed (x # todo) seen scratch s e =
        mcast_emit_loop record_sink ttl inner routed todo (seen @ [n]) sc'
          (s @ [\<lparr>fd_dst = n, fd_protocol = ETH_P_BATMAN, fd_payload = mcast_bytes (ttl - 1) (mcast_group routed n) inner\<rparr>]) e"
      using False push w(1,2) by (simp add: x record_sink_def [of s])
    show ?thesis
      unfolding step using Cons.prems False nin w(3)
        Cons.IH [of "seen @ [n]" sc' "s @ [\<lparr>fd_dst = n, fd_protocol = ETH_P_BATMAN,
          fd_payload = mcast_bytes (ttl - 1) (mcast_group routed n) inner\<rparr>]"]
      by (simp add: x)
  qed
qed simp


lemma mcast_bytes_parse:
  assumes "dests \<noteq> []" "length dests \<le> MAX_MCAST_DESTS"
  shows "mcast_parse (mcast_bytes ttl dests inner) =
    Some \<lparr>mv_header = \<lparr>mc_packet_type = packet_type_as_u8 Mcast, mc_version = BATMAN_VERSION, mc_ttl = ttl,
                      mc_n_dests = word_of_nat (length dests), mc_form = auth_form_as_u8 AuthTag\<rparr>,
          mv_form = AuthTag, mv_dests = dests, mv_inner = inner\<rparr>"
  using assms unfolding mcast_parse_Some
  by (simp add: mcast_bytes_def unat_of_nat MAX_MCAST_DESTS_def)

definition frame_dests :: "frame_data \<Rightarrow> mac list" where
  "frame_dests f = (case mcast_parse (fd_payload f) of None \<Rightarrow> [] | Some v \<Rightarrow> mv_dests v)"

section \<open>The invariant across a frame\<close>

lemma counters_ok_mcast_emit:
  "engine_ok P (snd (snd (mcast_emit_loop push ttl inner routed todo seen scratch s e))) = engine_ok P e
   \<and> length (fst (mcast_emit_loop push ttl inner routed todo seen scratch s e)) = length scratch"
proof (induction push ttl inner routed todo seen scratch s e rule: mcast_emit_loop.induct)
  case (2 push ttl inner routed nh d todo seen scratch s e)
  have len: "length sc' = length scratch" if "write_mcast (ttl - 1) AuthTag grp inner scratch = (sc', x)" for grp sc' x
    using write_mcast_length [of "ttl - 1" AuthTag grp inner scratch] that by simp
  show ?case
    using "2.IH"(1) "2.IH"(2) [OF _ refl refl] "2.IH"(3) [OF _ refl refl]
    by (auto simp: Let_def len split: prod.split option.split)
qed simp

lemma mcast_route_loop_ok:
  "engine_ok P (snd (mcast_route_loop now ds routed e)) = engine_ok P e"
  by (induction now ds routed e rule: mcast_route_loop.induct) (auto split: option.split)

lemma handle_mcast_ok:
  "engine_ok P e \<Longrightarrow> engine_ok P (snd (snd (snd (handle_mcast push now frame s scratch e))))"
  "length (fst (snd (handle_mcast push now frame s scratch e))) = length scratch"
  by (simp_all add: handle_mcast_def Let_def case_prod_beta counters_ok_mcast_emit mcast_route_loop_ok
      split: option.split)


lemma handle_relay_ok:
  "engine_ok P e \<Longrightarrow> engine_ok P (snd (snd (handle_credential_control dec enc dst ttl hop now frame reply e)))"
  "length (fd_payload (fst (snd (handle_credential_control dec enc dst ttl hop now frame reply e)))) =
     length (fd_payload reply)"
  by (simp_all add: handle_credential_control_def Let_def relay_into_length case_prod_beta split: option.split)

lemma relay_tuple:
  assumes "engine_ok P e"
  shows "\<exists>a r x. handle_credential_control dec enc dst ttl hop now frame reply e = (a, r, x) \<and> engine_ok P x
      \<and> length (fd_payload r) = length (fd_payload reply)"
  using handle_relay_ok(1) [OF assms, of dec enc dst ttl hop now frame reply]
    handle_relay_ok(2) [of dec enc dst ttl hop now frame reply e]
  by (cases "handle_credential_control dec enc dst ttl hop now frame reply e") auto

lemma handle_broadcast_ok:
  "profile_ok P \<Longrightarrow> engine_ok P e \<Longrightarrow> engine_ok P (snd (snd (handle_broadcast P now frame reply e)))"
  "length (fd_payload (fst (snd (handle_broadcast P now frame reply e)))) = length (fd_payload reply)"
  using admit_broadcast_ok [of P e now]
  by (auto simp: handle_broadcast_def relay_into_length case_prod_beta split: option.split bool.split)

lemma handle_rx_returns:
  assumes "profile_ok P" "engine_ok P e"
  shows "case handle_rx P push now frame q reply s e of
      None \<Rightarrow> \<not> resets_fit now e
    | Some (act, reply', s', e') \<Rightarrow> engine_ok P e' \<and> length (fd_payload reply') = length (fd_payload reply)"
proof -
  have ogm: "case handle_ogm P now frame q reply e of None \<Rightarrow> \<not> resets_fit now e
      | Some (act, reply', e') \<Rightarrow> engine_ok P e' \<and> length (fd_payload reply') = length (fd_payload reply)"
    by (rule handle_ogm_result [OF assms, of now frame q reply]) auto
  obtain ba br be where b: "handle_broadcast P now frame reply e = (ba, br, be)" "engine_ok P be"
      "length (fd_payload br) = length (fd_payload reply)"
    using handle_broadcast_ok(1) [OF assms, of now frame reply] handle_broadcast_ok(2) [of P now frame reply e]
    by (cases "handle_broadcast P now frame reply e") auto
  obtain ua ur ux where u: "handle_credential now frame reply e = (ua, ur, ux)" "engine_ok P ux"
      "length (fd_payload ur) = length (fd_payload reply)"
    unfolding handle_credential_def by (metis relay_tuple [OF assms(2)])
  obtain ea er ex where ec: "handle_echo now frame reply e = (ea, er, ex)" "engine_ok P ex"
      "length (fd_payload er) = length (fd_payload reply)"
    unfolding handle_echo_relay by (metis relay_tuple [OF assms(2)])
  obtain ma msc ms me where m: "handle_mcast push now frame s (fd_payload reply) e = (ma, msc, ms, me)" "engine_ok P me"
      "length msc = length (fd_payload reply)"
    using handle_mcast_ok(1) [OF assms(2), of push now frame s "fd_payload reply"]
      handle_mcast_ok(2) [of push now frame s "fd_payload reply" e]
    by (cases "handle_mcast push now frame s (fd_payload reply) e") auto
  obtain ka ke where k: "handle_keepalive P now frame e = (ka, ke)" "engine_ok P ke"
    using handle_keepalive_ok [OF assms, of now frame] by (cases "handle_keepalive P now frame e") auto
  have un: "handle_unicast now frame reply e = (ua, ur, ux)"
    using u(1) by (simp add: handle_unicast_relay handle_credential_def)
  show ?thesis
  proof (cases "lf_protocol frame \<noteq> ETH_P_BATMAN \<or> length (lf_payload frame) < 2 \<or> lf_payload frame ! 1 \<noteq> BATMAN_VERSION")
    case True
    with assms(2) show ?thesis by (auto simp: handle_rx_def Let_def)
  next
    case False
    then show ?thesis
      using assms(2) ogm b u un ec m k
      by (simp add: handle_rx_def Let_def split: option.splits prod.splits batman_packet_type.split)
  qed
qed


section \<open>Properties\<close>

text \<open>
  Receiving a frame does not fail. For any well-formed engine, any frame, any reply buffer and
  any sink, \<open>handle_rx\<close> returns: no endless loop, no table overrun, and a panic only where the clock
  reading plus a timer's \<open>i_min\<close> is past \<^verbatim>\<open>Duration::MAX\<close>; the engine is
  well-formed afterwards and the reply buffer keeps its length.
\<close>

theorem handle_rx_total:
  assumes "profile_ok P" "engine_ok P e"
  shows "case handle_rx P push now frame q reply s e of
      None \<Rightarrow> \<exists>t \<in> set (ogm_timers e). DURATION_MAX < now + tt_i_min t
    | Some (act, reply', s', e') \<Rightarrow> engine_ok P e' \<and> length (fd_payload reply') = length (fd_payload reply)"
  using handle_rx_returns [OF assms, where push = push and now = now and frame = frame and q = q and reply = reply and s = s]
  by (auto simp: resets_fit_def reset_fits_def not_le split: option.splits)

theorem handle_rx_total_witness:
  "\<exists>act reply' s' e'. handle_rx sample_profile unit_sink 0 sample_rx None (scratchpad (replicate 64 0)) () sample_node
     = Some (act, reply', s', e') \<and> engine_ok sample_profile e'"
proof -
  have "ogm_timers sample_node = []" by (simp add: engine_new_def)
  with handle_rx_total [OF sample_profile_ok engine_new_ok [of sample_profile "Mac 0 0 0 0 0 1"], where push = unit_sink and now = 0 and frame = sample_rx and q = None and reply = "scratchpad (replicate 64 0)"]
  show ?thesis by (auto split: option.splits)
qed

text \<open>
  The version gate. A frame of another protocol, too short for a sub-type and a version, or of
  another version changes nothing whatever its bytes say; nor does a next-hop proof packet, which
  the engine never routes.
\<close>

theorem foreign_frames_inert:
  assumes "lf_protocol frame \<noteq> ETH_P_BATMAN \<or> length (lf_payload frame) < 2
      \<or> lf_payload frame ! 1 \<noteq> BATMAN_VERSION
      \<or> lf_payload frame ! 0 = packet_type_as_u8 NextHopChallenge
      \<or> lf_payload frame ! 0 = packet_type_as_u8 NextHopResponse"
  shows "handle_rx P push now frame q reply s e = Some (Consumed, reply, s, e)"
  using assms packet_type_roundtrip [of NextHopChallenge] packet_type_roundtrip [of NextHopResponse]
  by (auto simp: handle_rx_def Let_def)

theorem foreign_frames_inert_witness:
  "handle_rx sample_profile unit_sink 0 (sample_frame (Mac 0 0 0 0 0 2) [1, 5, 0]) None (scratchpad []) () sample_node
     = Some (Consumed, scratchpad [], (), sample_node)"
  using foreign_frames_inert [of "sample_frame (Mac 0 0 0 0 0 2) [1, 5, 0]"]
  by (simp add: sample_frame_def BATMAN_VERSION_def)

text \<open>
  A unicast is relayed exactly one hop further or not at all. If a reply was written, it is
  addressed to the current next hop of the packet's destination, carries the same destination and
  payload and a TTL one smaller, and the old TTL was at least two; the packet is delivered
  locally exactly when it is addressed to this node.
\<close>

theorem unicast_relay_exact:
  assumes "handle_unicast now frame reply e = (act, reply', e')" "fd_protocol reply \<noteq> ETH_P_BATMAN"
  shows "(act = DeliverLocal \<longleftrightarrow>
        (\<exists>h inner. routed_read (lf_payload frame) = Some (h, inner) \<and> rp_dest h = self_ident e))
    \<and> (fd_protocol reply' = ETH_P_BATMAN \<longrightarrow>
        (\<exists>h inner h' rest'. routed_read (lf_payload frame) = Some (h, inner)
          \<and> routed_read (fd_payload reply') = Some (h', rest') \<and> take (length inner) rest' = inner
          \<and> rp_dest h' = rp_dest h \<and> rp_dest h \<noteq> self_ident e
          \<and> 1 < unat (rp_ttl h) \<and> unat (rp_ttl h') = unat (rp_ttl h) - 1
          \<and> next_hop e now (rp_dest h) = Some (fd_dst reply')))"
proof -
  note h = assms(1) [unfolded handle_unicast_relay]
  show ?thesis
    using routed_relay.relay_delivers [OF h] routed_relay.relay_result [OF h assms(2)] routed_relay.hop_dest
    by (metis (no_types, lifting))
qed

text \<open>
  Echo probes count their hops. A relayed probe has a TTL one smaller and a hop count one
  larger (it cannot saturate before the TTL expires), with addresses, sequence number and padding
  unchanged.
\<close>

theorem echo_relay_counts:
  assumes "handle_echo now frame reply e = (act, reply', e')" "fd_protocol reply \<noteq> ETH_P_BATMAN"
    and "fd_protocol reply' = ETH_P_BATMAN"
  shows "\<exists>h inner h' rest'. echo_read (lf_payload frame) = Some (h, inner)
    \<and> echo_read (fd_payload reply') = Some (h', rest') \<and> take (length inner) rest' = inner
    \<and> h' = h\<lparr>ec_ttl := ec_ttl h - 1, ec_hops := saturating_add (ec_hops h) 1\<rparr>
    \<and> unat (ec_hops h') = min (unat (ec_hops h) + 1) 255
    \<and> unat (ec_ttl h') = unat (ec_ttl h) - 1 \<and> 1 < unat (ec_ttl h)
    \<and> next_hop e now (ec_dest h) = Some (fd_dst reply')"
proof -
  note h = assms(1) [unfolded handle_echo_relay]
  from echo_relay.relay_result [OF h assms(2,3)] show ?thesis
    by (auto simp: echo_hop_def unat_saturating_add)
qed

text \<open>
  C32. Multicast forwarding is a partition. A tagged frame with hops left, routed into an accepting
  sink with room to build its frames, is split into one frame per next hop: the destination lists
  of the frames together are exactly the routable destinations other than this node, each frame
  names only destinations whose next hop it is sent to, the TTL drops by one and the inner frame
  is unchanged; it is delivered locally exactly when this node is named.
\<close>

theorem mcast_partition:
  assumes "mcast_parse (lf_payload frame) = Some v" "length (mv_dests v) \<le> MAX_MCAST_DESTS"
    and "mv_form v = AuthTag" "1 < mc_ttl (mv_header v)"
    and "MCAST_HEADER_LEN + 6 * length (mv_dests v) + length (mv_inner v) \<le> length scratch"
    and "handle_mcast record_sink now frame [] scratch e = (act, scratch', fs, e')"
  shows "mset (concat (map frame_dests fs)) =
      mset (filter (\<lambda>d. d \<noteq> self_ident e \<and> next_hop e now d \<noteq> None) (mv_dests v))
    \<and> distinct (map fd_dst fs)
    \<and> list_all (\<lambda>f. (\<exists>v'. mcast_parse (fd_payload f) = Some v' \<and> mv_inner v' = mv_inner v
          \<and> mv_form v' = AuthTag \<and> mc_ttl (mv_header v') = mc_ttl (mv_header v) - 1)
        \<and> list_all (\<lambda>d. next_hop e now d = Some (fd_dst f)) (frame_dests f)) fs
    \<and> (act = DeliverLocal \<longleftrightarrow> self_ident e \<in> set (mv_dests v))"
proof -
  let ?routed = "routable e now (mv_dests v)" and ?ttl = "mc_ttl (mv_header v) - 1"
  let ?frame = "\<lambda>n. \<lparr>fd_dst = n, fd_protocol = ETH_P_BATMAN, fd_payload = mcast_bytes ?ttl (mcast_group ?routed n) (mv_inner v)\<rparr>"
  have len: "length ?routed \<le> MAX_MCAST_DESTS"
    using assms(2) length_routable order_trans by blast
  have room: "MCAST_HEADER_LEN + 6 * length ?routed + length (mv_inner v) \<le> length scratch"
    using assms(5) length_routable [of e now "mv_dests v"] by simp
  obtain k where route: "mcast_route_loop now (mv_dests v) [] e = (?routed, e\<lparr>mcast_unroutable_dests := k\<rparr>)"
    using mcast_route_loop_eq [of "[]" "mv_dests v" now e] assms(2) by auto
  have fs: "fs = map ?frame (fresh_hops ?routed [])"
    using assms(1-4,6) mcast_emit_loop_eq [OF len subset_refl _ _ room, of "[]" "mc_ttl (mv_header v)" "[]" "e\<lparr>mcast_unroutable_dests := k\<rparr>"]
    by (auto simp: handle_mcast_def route)
  have hops: "distinct (fresh_hops ?routed [])" "set (fresh_hops ?routed []) = fst ` set ?routed"
    using fresh_hops_set [of ?routed "[]"] by auto
  have grp: "mcast_group ?routed n \<noteq> []" "length (mcast_group ?routed n) \<le> MAX_MCAST_DESTS"
      if "n \<in> set (fresh_hops ?routed [])" for n
    using that hops(2) len by (auto simp: mcast_group_eq [OF len] filter_empty_conv intro: order_trans [OF length_filter_le])
  have dests: "frame_dests (?frame n) = mcast_group ?routed n" if "n \<in> set (fresh_hops ?routed [])" for n
    using mcast_bytes_parse [OF grp [OF that]] by (simp add: frame_dests_def)
  have "concat (map frame_dests fs) = concat (map (\<lambda>n. map snd (filter (\<lambda>(m, _). m = n) ?routed)) (fresh_hops ?routed []))"
    unfolding fs using dests by (simp add: mcast_group_eq [OF len] cong: map_cong)
  moreover have "filter_mset (\<lambda>x. fst x \<in> fst ` set ?routed) (mset ?routed) = mset ?routed"
    by (simp add: filter_mset_eq_conv)
  ultimately have "mset (concat (map frame_dests fs)) = mset (map snd ?routed)"
    using mcast_groups_partition [OF hops(1), of ?routed] hops(2) by simp
  note part = this [unfolded mset_routable]
  have "act = DeliverLocal \<longleftrightarrow> self_ident e \<in> set (mv_dests v)"
    using assms(1-4,6) by (auto simp: handle_mcast_def Let_def split: prod.splits if_splits)
  moreover have "list_all (\<lambda>d. next_hop e now d = Some n) (mcast_group ?routed n)" for n
    by (auto simp: mcast_group_eq [OF len] list_all_iff dest: routable_hop)
  then have "list_all (\<lambda>f. (\<exists>v'. mcast_parse (fd_payload f) = Some v' \<and> mv_inner v' = mv_inner v
          \<and> mv_form v' = AuthTag \<and> mc_ttl (mv_header v') = ?ttl)
        \<and> list_all (\<lambda>d. next_hop e now d = Some (fd_dst f)) (frame_dests f)) fs"
    using mcast_bytes_parse [OF grp] dests by (simp add: fs list_all_iff)
  moreover have "distinct (map fd_dst fs)"
    using hops(1) by (simp add: fs comp_def)
  ultimately show ?thesis using part by blast
qed

text \<open>
  Multicast containment. A frame that does not parse, names more than sixteen destinations,
  carries the fan-out signature form or has no hop left is never forwarded: no frame reaches the
  sink, whatever the sink is, and no route state changes.
\<close>

theorem mcast_contained:
  assumes "case mcast_parse (lf_payload frame) of None \<Rightarrow> True
    | Some v \<Rightarrow> length (mv_dests v) > MAX_MCAST_DESTS \<or> mv_form v = AuthSignature \<or> mc_ttl (mv_header v) \<le> 1"
  shows "\<exists>act e'. handle_mcast push now frame s scratch e = (act, scratch, s, e')
    \<and> originator_table e' = originator_table e
    \<and> (act = DeliverLocal \<longrightarrow> (\<exists>v. mcast_parse (lf_payload frame) = Some v \<and> self_ident e \<in> set (mv_dests v)))"
  using assms by (auto simp: handle_mcast_def Let_def split: option.splits)

text \<open>
  Broadcast de-duplication. Right after a broadcast was delivered or re-flooded, any other frame
  with the same originator and sequence number is consumed with the reply buffer untouched.
\<close>

theorem broadcast_once:
  assumes "profile_ok P" "engine_ok P e" "handle_broadcast P now frame reply e = (act, reply', e')" "act \<noteq> Consumed"
    and "bcast_read (lf_payload frame) = Some (b, inner)" "bcast_read (lf_payload frame2) = Some (b2, inner2)"
    and "bc_orig b2 = bc_orig b" "bc_seqno b2 = bc_seqno b"
  shows "\<exists>e''. handle_broadcast P now2 frame2 reply2 e' = (Consumed, reply2, e'')"
proof -
  obtain e1 where e1: "admit_broadcast P now (bc_orig b) (bc_seqno b) e = (True, e1)" "broadcast_seqno e' = broadcast_seqno e1"
    using assms(3-5)
    by (auto simp: handle_broadcast_def dest: relay_into_seqnos split: if_splits prod.splits bool.splits)
  then obtain x where x: "im_get (broadcast_seqno e') (bc_orig b2) = Some x" "be_last_seqno x = bc_seqno b2"
    using admit_broadcast_high_water [OF assms(1,2)] assms(7,8) by metis
  obtain e2 where "admit_broadcast P now2 (bc_orig b2) (bc_seqno b2) e' = (False, e2)"
    using admit_broadcast_again [OF x] by blast
  then show ?thesis
    using assms(6) by (simp add: handle_broadcast_def)
qed


text \<open>
  A newcomer's broadcast is never refused. The first broadcast of an originator this node has no
  entry for is delivered, even into a full table; with hops left and room in the reply it is also
  re-flooded, one hop shorter and with the payload unchanged.
\<close>

theorem broadcast_first_contact:
  assumes "profile_ok P" "engine_ok P e" "bcast_read (lf_payload frame) = Some (b, inner)"
    and "bc_orig b \<noteq> self_ident e" "im_get (broadcast_seqno e) (bc_orig b) = None"
    and "handle_broadcast P now frame reply e = (act, reply', e')"
  shows "engine_ok P e' \<and> act = (if bc_ttl b \<le> 1 then DeliverLocal else DeliverLocalAndForward BROADCAST)
    \<and> (1 < bc_ttl b \<longrightarrow> BCAST_SIZE + length inner \<le> length (fd_payload reply) \<longrightarrow>
        fd_dst reply' = BROADCAST \<and> fd_protocol reply' = ETH_P_BATMAN
        \<and> (\<exists>rest. bcast_read (fd_payload reply') = Some (b\<lparr>bc_ttl := bc_ttl b - 1\<rparr>, rest) \<and> take (length inner) rest = inner))"
proof -
  obtain e1 where adm: "admit_broadcast P now (bc_orig b) (bc_seqno b) e = (True, e1)"
    using admit_broadcast_new [OF assms(1,2,5)] by metis
  have len: "length (bcast_write h) = BCAST_SIZE" for h by (rule bcast_codec.write_length)
  have ok: "engine_ok P e'"
    using handle_broadcast_ok(1) [OF assms(1,2), of now frame reply] assms(6) by simp
  show ?thesis
  proof (cases "bc_ttl b \<le> 1")
    case True
    then show ?thesis using assms(3,4,6) adm ok by (auto simp: handle_broadcast_def)
  next
    case False
    then obtain r x where r: "relay_into (bcast_write (b\<lparr>bc_ttl := bc_ttl b - 1\<rparr>)) inner BROADCAST reply e1 = (r, x)"
        "act = DeliverLocalAndForward BROADCAST" "reply' = r"
      using assms(3,4,6) adm by (auto simp: handle_broadcast_def split: prod.splits)
    then show ?thesis
      using False ok by (auto simp: relay_into_def Let_def len bcast_codec.read_write split: if_splits)
  qed
qed

text \<open>
  Keep-alives vouch only for known neighbours. One from a sender that is not in the originator
  table leaves the engine unchanged; one from a known neighbour makes it count as alive at that
  moment; nothing is ever forwarded or delivered.
\<close>

theorem keepalive_gate:
  assumes "profile_ok P" "engine_ok P e" "handle_keepalive P now frame e = (act, e')"
  shows "act = Consumed \<and> engine_ok P e'
    \<and> (\<not> im_contains (originator_table e) (lf_src frame) \<longrightarrow> e' = e)
    \<and> (im_contains (originator_table e) (lf_src frame) \<and> lf_src frame \<noteq> self_ident e \<and> 2 \<le> length (lf_payload frame) \<longrightarrow>
        (\<exists>s. im_get (keepalive e') (lf_src frame) = Some s \<and> ka_last_heard s = from_duration now)
        \<and> \<not> keepalive_missed e' now (lf_src frame))"
proof -
  have ok: "im_ok (max_originators P) (keepalive e)"
    using assms(2) by (simp add: engine_ok_def)
  have heard: "\<exists>s. im_get (keepalive (note_keepalive P now n e)) n = Some s \<and> ka_last_heard s = from_duration now" for n
  proof (cases "im_get (keepalive e) n")
    case None
    then show ?thesis by (simp add: note_keepalive_table insert_evicting_get [OF assms(1) ok])
  next
    case (Some s)
    then show ?thesis by (simp add: note_keepalive_def Let_def im_get_put)
  qed
  have "\<not> keepalive_missed (note_keepalive P now n e) now n" for n
  proof -
    obtain s where "im_get (keepalive (note_keepalive P now n e)) n = Some s" "ka_last_heard s = from_duration now"
      using heard by blast
    then show ?thesis by (simp add: keepalive_missed_def)
  qed
  with heard show ?thesis
    using assms(3) handle_keepalive_ok [OF assms(1,2), of now frame] minimal_codec.read_short [of "lf_payload frame"]
    by (auto simp: handle_keepalive_def header_sizes split: option.splits if_splits)
qed


section \<open>Witnesses\<close>

definition sample_routed :: routed_packet where
  "sample_routed = \<lparr>rp_packet_type = packet_type_as_u8 Unicast, rp_version = BATMAN_VERSION, rp_ttl = 50,
     rp_dest = Mac 0 0 0 0 0 9\<rparr>"

definition sample_echo :: echo_packet where
  "sample_echo = \<lparr>ec_packet_type = packet_type_as_u8 EchoRequest, ec_version = BATMAN_VERSION, ec_ttl = 50,
     ec_dest = Mac 0 0 0 0 0 9, ec_orig = Mac 0 0 0 0 0 7, ec_seqno = 3, ec_req_hops = 0, ec_hops = 4\<rparr>"

definition sample_bcast :: bcast_packet where
  "sample_bcast = \<lparr>bc_packet_type = packet_type_as_u8 Bcast, bc_version = BATMAN_VERSION, bc_ttl = 50, bc_seqno = 8,
     bc_orig = Mac 0 0 0 0 0 9\<rparr>"

definition sample_keepalive :: keepalive_packet where
  "sample_keepalive = \<lparr>mp_packet_type = packet_type_as_u8 Keepalive, mp_version = BATMAN_VERSION\<rparr>"

lemma sample_ttl [simp]: "\<not> (50 :: u8) \<le> 1"
  by (simp add: word_le_nat_alt)

lemma sample_route: "next_hop sample_engine 2000000000 (Mac 0 0 0 0 0 9) = Some (Mac 0 0 0 0 0 2)"
  by (simp add: sample_eval)

lemma sample_ident: "self_ident sample_engine = Mac 0 0 0 0 0 1"
  by (simp add: sample_defs)

theorem unicast_relay_exact_witness:
  "\<exists>reply' h' rest'. handle_unicast 2000000000 (sample_frame (Mac 0 0 0 0 0 7) (routed_write sample_routed @ [42]))
       (scratchpad (replicate 32 0)) sample_engine = (Consumed, reply', sample_engine)
     \<and> routed_read (fd_payload reply') = Some (h', rest') \<and> unat (rp_ttl h') = 49 \<and> take 1 rest' = [42]"
proof -
  let ?f = "sample_frame (Mac 0 0 0 0 0 7) (routed_write sample_routed @ [42])"
  have read: "routed_read (lf_payload ?f) = Some (sample_routed, [42])"
    by (simp add: sample_frame_def routed_codec.read_write)
  obtain reply' where r: "handle_unicast 2000000000 ?f (scratchpad (replicate 32 0)) sample_engine = (Consumed, reply', sample_engine)"
      "fd_protocol reply' = ETH_P_BATMAN"
    using routed_relay.relay_forwards [OF read, where e = sample_engine and now = 2000000000 and nh = "Mac 0 0 0 0 0 2" and reply = "scratchpad (replicate 32 0)"]
    by (simp add: handle_unicast_relay sample_routed_def sample_route sample_ident scratchpad_def header_sizes)
  have "fd_protocol (scratchpad (replicate 32 0)) \<noteq> ETH_P_BATMAN"
    by (simp add: scratchpad_def ETH_P_BATMAN_def)
  from unicast_relay_exact [OF r(1) this] r read show ?thesis
    by (auto simp: sample_routed_def)
qed

theorem echo_relay_counts_witness:
  "\<exists>reply' h' rest'. handle_echo 2000000000 (sample_frame (Mac 0 0 0 0 0 7) (echo_write sample_echo @ [42]))
       (scratchpad (replicate 32 0)) sample_engine = (Consumed, reply', sample_engine)
     \<and> echo_read (fd_payload reply') = Some (h', rest') \<and> unat (ec_hops h') = 5"
proof -
  let ?f = "sample_frame (Mac 0 0 0 0 0 7) (echo_write sample_echo @ [42])"
  have read: "echo_read (lf_payload ?f) = Some (sample_echo, [42])"
    by (simp add: sample_frame_def echo_codec.read_write)
  obtain reply' where r: "handle_echo 2000000000 ?f (scratchpad (replicate 32 0)) sample_engine = (Consumed, reply', sample_engine)"
      "fd_protocol reply' = ETH_P_BATMAN"
    using echo_relay.relay_forwards [OF read, where e = sample_engine and now = 2000000000 and nh = "Mac 0 0 0 0 0 2" and reply = "scratchpad (replicate 32 0)"]
    by (simp add: handle_echo_relay sample_echo_def sample_route sample_ident scratchpad_def header_sizes)
  have "fd_protocol (scratchpad (replicate 32 0)) \<noteq> ETH_P_BATMAN"
    by (simp add: scratchpad_def ETH_P_BATMAN_def)
  then obtain h' rest' where h: "echo_read (fd_payload reply') = Some (h', rest')"
      "unat (ec_hops h') = min (unat (ec_hops sample_echo) + 1) 255"
    using echo_relay_counts [OF r(1) _ r(2)] read by auto
  then have "unat (ec_hops h') = 5" by (simp add: sample_echo_def)
  with h(1) r(1) show ?thesis by blast
qed

definition sample_mcast :: mcast_packet_view where
  "sample_mcast = \<lparr>mv_header = \<lparr>mc_packet_type = packet_type_as_u8 Mcast, mc_version = BATMAN_VERSION, mc_ttl = 50,
      mc_n_dests = 2, mc_form = auth_form_as_u8 AuthTag\<rparr>, mv_form = AuthTag,
      mv_dests = [Mac 0 0 0 0 0 1, Mac 0 0 0 0 0 9], mv_inner = [42]\<rparr>"

lemma sample_mcast_parse:
  "mcast_parse (mcast_hdr_write (mv_header sample_mcast) @ macs_bytes (mv_dests sample_mcast) @ [42]) = Some sample_mcast"
  unfolding mcast_parse_Some by (simp add: sample_mcast_def)

theorem mcast_partition_witness:
  "\<exists>act scratch' fs e'. handle_mcast record_sink 2000000000
       (sample_frame (Mac 0 0 0 0 0 7)
         (mcast_hdr_write (mv_header sample_mcast) @ macs_bytes (mv_dests sample_mcast) @ [42]))
       [] (replicate 32 0) sample_engine = (act, scratch', fs, e')
     \<and> act = DeliverLocal \<and> concat (map frame_dests fs) = [Mac 0 0 0 0 0 9]"
proof -
  let ?f = "sample_frame (Mac 0 0 0 0 0 7)
      (mcast_hdr_write (mv_header sample_mcast) @ macs_bytes (mv_dests sample_mcast) @ [42])"
  obtain act scratch' fs e' where r: "handle_mcast record_sink 2000000000 ?f [] (replicate 32 0) sample_engine = (act, scratch', fs, e')"
    by (cases "handle_mcast record_sink 2000000000 ?f [] (replicate 32 0) sample_engine") auto
  have "mcast_parse (lf_payload ?f) = Some sample_mcast"
    using sample_mcast_parse by (simp add: sample_frame_def)
  from mcast_partition [OF this _ _ _ _ r] r show ?thesis
    by (simp add: sample_mcast_def MAX_MCAST_DESTS_def header_sizes sample_ident sample_route)
qed

theorem mcast_contained_witness:
  "\<exists>act e'. handle_mcast unit_sink 0 (sample_frame (Mac 0 0 0 0 0 7) [4, 6, 50]) () [] sample_engine = (act, [], (), e')"
proof -
  have "mcast_parse [4, 6, 50] = None"
    using mcast_codec.read_short [of "[4, 6, 50]"] by (simp add: mcast_parse_def header_sizes)
  then show ?thesis
    using mcast_contained [of "sample_frame (Mac 0 0 0 0 0 7) [4, 6, 50]" unit_sink 0 "()" "[]" sample_engine]
    by (auto simp: sample_frame_def)
qed

lemma sample_bcast_read:
  "bcast_read (lf_payload (sample_frame src (bcast_write sample_bcast @ [42]))) = Some (sample_bcast, [42])"
  by (simp add: sample_frame_def bcast_codec.read_write)

theorem broadcast_first_contact_witness:
  "\<exists>reply' e'. handle_broadcast sample_profile 0 (sample_frame (Mac 0 0 0 0 0 2) (bcast_write sample_bcast @ [42]))
       (scratchpad (replicate 32 0)) sample_node = (DeliverLocalAndForward BROADCAST, reply', e')
     \<and> fd_dst reply' = BROADCAST"
proof -
  let ?f = "sample_frame (Mac 0 0 0 0 0 2) (bcast_write sample_bcast @ [42])"
  obtain act reply' e' where r: "handle_broadcast sample_profile 0 ?f (scratchpad (replicate 32 0)) sample_node = (act, reply', e')"
    by (cases "handle_broadcast sample_profile 0 ?f (scratchpad (replicate 32 0)) sample_node") auto
  from broadcast_first_contact [OF sample_profile_ok engine_new_ok sample_bcast_read _ _ r] r show ?thesis
    by (simp add: sample_bcast_def engine_new_def scratchpad_def header_sizes)
qed

theorem broadcast_once_witness:
  "\<exists>reply' e' e''. handle_broadcast sample_profile 0 (sample_frame (Mac 0 0 0 0 0 2) (bcast_write sample_bcast @ [42]))
       (scratchpad (replicate 32 0)) sample_node = (DeliverLocalAndForward BROADCAST, reply', e')
     \<and> handle_broadcast sample_profile 5000000 (sample_frame (Mac 0 0 0 0 0 3) (bcast_write sample_bcast @ [42]))
       (scratchpad []) e' = (Consumed, scratchpad [], e'')"
proof -
  let ?f = "sample_frame (Mac 0 0 0 0 0 2) (bcast_write sample_bcast @ [42])"
  have "im_get (broadcast_seqno sample_node) (bc_orig sample_bcast) = None" "bc_orig sample_bcast \<noteq> self_ident sample_node"
    by (simp_all add: sample_bcast_def engine_new_def)
  then obtain e1 where adm: "admit_broadcast sample_profile 0 (bc_orig sample_bcast) (bc_seqno sample_bcast) sample_node = (True, e1)"
    using admit_broadcast_new [OF sample_profile_ok engine_new_ok] by metis
  obtain act reply' e' where r: "handle_broadcast sample_profile 0 ?f (scratchpad (replicate 32 0)) sample_node = (act, reply', e')"
    by (cases "handle_broadcast sample_profile 0 ?f (scratchpad (replicate 32 0)) sample_node") auto
  have act: "act = DeliverLocalAndForward BROADCAST"
    using r adm \<open>bc_orig sample_bcast \<noteq> _\<close>
    by (simp add: handle_broadcast_def sample_bcast_read split: prod.splits) (simp add: sample_bcast_def)
  show ?thesis
    using broadcast_once [OF sample_profile_ok engine_new_ok r _ sample_bcast_read sample_bcast_read refl refl] r act
    by blast
qed

theorem keepalive_gate_witness:
  "\<exists>e'. handle_keepalive sample_profile 5000000000 (sample_frame (Mac 0 0 0 0 0 9) (minimal_write sample_keepalive))
       sample_engine = (Consumed, e')
     \<and> \<not> keepalive_missed e' 5000000000 (Mac 0 0 0 0 0 9)"
proof -
  let ?f = "sample_frame (Mac 0 0 0 0 0 9) (minimal_write sample_keepalive)"
  obtain act e' where r: "handle_keepalive sample_profile 5000000000 ?f sample_engine = (act, e')"
    by (cases "handle_keepalive sample_profile 5000000000 ?f sample_engine") auto
  from keepalive_gate [OF sample_profile_ok sample_engine_ok this] r show ?thesis
    by (simp add: sample_frame_def sample_ident minimal_codec.write_length header_sizes)
       (simp add: sample_defs im_contains_def im_get_def)
qed

end
