(* ===== verification/Lifecycle.thy ===== *)
theory Lifecycle
  imports Data_Plane
begin

text \<open>
  The engine over its whole life. Every public operation of \<open>BatmanEngine\<close> that changes state is
  one \<open>engine_call\<close>; \<open>perform\<close> runs a call and \<open>perform_all\<close> a sequence of them in the order
  the driver makes them, with \<open>None\<close> for a panic. \<open>reachable\<close> is the step relation's closure
  from \<open>engine_new\<close>. The lemmas say what a call leaves alone, which the properties of the
  root theory use by rule induction.
\<close>

section \<open>Calls\<close>

datatype engine_call =
    Receive "frame_data list frame_sink" duration link_frame "u8 option" frame_data
  | ProducePeriodic duration bytes
  | PurgeStale duration
  | ConfigureOgm nat duration duration duration
  | ConfigureKeepalive nat "duration option" duration
  | OgmEmitted nat duration
  | KeepaliveEmitted nat duration
  | ResetOgmTimers duration
  | SetLocalGroups duration "mac list"
  | NextBroadcastSeqno
  | SetRequireProof bool
  | NoteProven duration mac nat
  | NoteChallenged duration mac
  | RetainProven duration "mac \<Rightarrow> bool"
  | RevokeOriginators "mac list"
  | ResetEngine

fun perform :: "profile \<Rightarrow> engine_call \<Rightarrow> batman_engine \<Rightarrow> batman_engine option" where
  "perform P (Receive push now frame q reply) e =
     map_option (\<lambda>(_, _, _, e). e) (handle_rx P push now frame q reply [] e)"
| "perform P (ProducePeriodic now buf) e =
     map_option (\<lambda>(_, _, e). e) (produce_periodic_broadcast now buf e)"
| "perform P (PurgeStale now) e = Some (purge_stale now e)"
| "perform P (ConfigureOgm idx i_min i_max now) e = configure_interface_ogm P idx i_min i_max now e"
| "perform P (ConfigureKeepalive idx interval now) e = configure_interface_keepalive P idx interval now e"
| "perform P (OgmEmitted idx now) e = on_interface_emitted idx now e"
| "perform P (KeepaliveEmitted idx now) e = on_keepalive_emitted idx now e"
| "perform P (ResetOgmTimers now) e = reset_ogm_timers now e"
| "perform P (SetLocalGroups now groups) e = set_local_mcast_groups P now groups e"
| "perform P NextBroadcastSeqno e = Some (snd (next_broadcast_seqno e))"
| "perform P (SetRequireProof b) e = Some (set_require_proof b e)"
| "perform P (NoteProven now m iface) e = Some (note_proven P now m iface e)"
| "perform P (NoteChallenged now m) e = Some (note_challenged P now m e)"
| "perform P (RetainProven now usable) e = Some (retain_proven P now usable e)"
| "perform P (RevokeOriginators ms) e = Some (revoke_originators P ms e)"
| "perform P ResetEngine e = Some (engine_reset e)"

fun perform_all :: "profile \<Rightarrow> engine_call list \<Rightarrow> batman_engine \<Rightarrow> batman_engine option" where
  "perform_all P [] e = Some e"
| "perform_all P (c # cs) e = Option.bind (perform P c e) (perform_all P cs)"

inductive reachable :: "profile \<Rightarrow> mac \<Rightarrow> batman_engine \<Rightarrow> bool" for P ident where
  new: "reachable P ident (engine_new ident)"
| call: "reachable P ident e \<Longrightarrow> perform P c e = Some e' \<Longrightarrow> reachable P ident e'"

inductive_cases reachableE: "reachable P ident e"

text \<open>
  Where a call's clock reading is past what \<^verbatim>\<open>Duration\<close> can add to an interval: one of the timers' current
  intervals, or the interval being configured.
\<close>

fun past_duration_max :: "engine_call \<Rightarrow> batman_engine \<Rightarrow> bool" where
  "past_duration_max (Receive push now frame q reply) e = overflows now e"
| "past_duration_max (ProducePeriodic now buf) e = overflows now e"
| "past_duration_max (ConfigureOgm idx i_min i_max now) e \<longleftrightarrow> DURATION_MAX < now + max i_min 1"
| "past_duration_max (ConfigureKeepalive idx interval now) e \<longleftrightarrow>
     (case interval of None \<Rightarrow> False | Some iv \<Rightarrow> DURATION_MAX < now + max iv 1)"
| "past_duration_max (OgmEmitted idx now) e = overflows now e"
| "past_duration_max (KeepaliveEmitted idx now) e = overflows now e"
| "past_duration_max (ResetOgmTimers now) e = overflows now e"
| "past_duration_max (SetLocalGroups now groups) e = overflows now e"
| "past_duration_max _ e = False"

fun is_announcement :: "engine_call \<Rightarrow> bool" where
  "is_announcement (ProducePeriodic _ _) = True"
| "is_announcement _ = False"

section \<open>Well-formedness\<close>

lemma engine_ok_own_seqno [simp]: "engine_ok P (e\<lparr>broadcast_sequence_number := n\<rparr>) = engine_ok P e"
  by (simp add: engine_ok_def)

lemma engine_ok_require [simp]: "engine_ok P (e\<lparr>require_proof := b\<rparr>) = engine_ok P e"
  by (simp add: engine_ok_def)

lemmas call_ok = purge_stale_ok interface_served_ok keepalive_served_ok timers_restarted_ok ogm_configured_ok
  keepalive_configured_ok groups_set_ok note_proven_ok note_challenged_ok retain_proven_ok revoke_originators_ok engine_reset_ok

lemma perform_ok:
  assumes "profile_ok P" "engine_ok P e"
  shows "case perform P c e of
      None \<Rightarrow> (\<exists>now buf. c = ProducePeriodic now buf \<and> length buf < OGM_SIZE + length (own_tail (local_mcast e)))
        \<or> past_duration_max c e
    | Some e' \<Rightarrow> engine_ok P e'"
proof -
  note fit = resets_fit_overflows [OF assms(2)]
  show ?thesis
  proof (cases c)
    case (Receive push now frame q reply)
    then show ?thesis
      using handle_rx_returns [OF assms, where push = push and now = now and frame = frame and q = q and reply = reply and s = "[]"]
        fit [of now] by (auto split: option.splits)
  next
    case (ProducePeriodic now buf)
    then show ?thesis
      using ticked_ok [OF assms(2)] fit [of now] by (auto simp: produce_periodic_broadcast_eq Let_def tick_fits_def)
  next
    case (ConfigureOgm idx i_min i_max now)
    then show ?thesis
      using fits_bounds(2) [of now i_min i_max "jitter_seed (self_ident e) idx 0"] assms by (auto simp: configure_interface_ogm_eq call_ok simp flip: not_le)
  next
    case (ConfigureKeepalive idx interval now)
    then show ?thesis
      using fits_bounds(2) [of now "the interval" "the interval" "jitter_seed (self_ident e) idx 0x9e3779b9"] assms
      by (cases interval) (auto simp: configure_interface_keepalive_eq call_ok simp flip: not_le)
  next
    case (OgmEmitted idx now)
    then show ?thesis
      using emitted_None_overflows(1) [of idx now e] assms by (auto simp: on_interface_emitted_eq call_ok)
  next
    case (KeepaliveEmitted idx now)
    then show ?thesis
      using emitted_None_overflows(2) [of idx now e] assms by (auto simp: on_keepalive_emitted_eq call_ok)
  next
    case (ResetOgmTimers now)
    then show ?thesis using fit [of now] assms by (auto simp: reset_ogm_timers_eq call_ok)
  next
    case (SetLocalGroups now groups)
    then show ?thesis using fit [of now] assms by (auto simp: set_local_mcast_groups_eq call_ok)
  qed (use assms in \<open>simp_all add: call_ok set_require_proof_def next_broadcast_seqno_def Let_def\<close>)
qed

lemma reachable_ok: "reachable P ident e \<Longrightarrow> profile_ok P \<Longrightarrow> engine_ok P e"
proof (induction rule: reachable.induct)
  case (call e c e')
  then show ?case using perform_ok [of P e c] by simp
qed simp

section \<open>What a call leaves alone\<close>

text \<open>
  The node's own identity and counters are unchanged, and the node has not learned a route to
  itself.
\<close>

definition own_kept :: "batman_engine \<Rightarrow> batman_engine \<Rightarrow> bool" where
  "own_kept e e' \<longleftrightarrow> self_ident e' = self_ident e \<and> sequence_number e' = sequence_number e
     \<and> (self_ident e \<in> set (im_keys (originator_table e')) \<longrightarrow> self_ident e \<in> set (im_keys (originator_table e)))"

lemma own_kept_refl [simp]: "own_kept e e"
  by (simp add: own_kept_def)

lemma own_kept_trans: "own_kept a b \<Longrightarrow> own_kept b c \<Longrightarrow> own_kept a c"
  by (simp add: own_kept_def)

lemma own_kept_table:
  "self_ident e' = self_ident e \<Longrightarrow> sequence_number e' = sequence_number e \<Longrightarrow>
     originator_table e' = originator_table e \<Longrightarrow> own_kept e e'"
  by (simp add: own_kept_def)

lemma im_keys_Nil [simp]: "im_keys [] = []"
  by (simp add: im_keys_def)

lemma im_keys_retain: "set (im_keys (im_retain Q m)) \<subseteq> set (im_keys m)"
  by (auto simp: im_keys_def im_retain_def)

lemma own_kept_recompute [simp]: "own_kept e (recompute_all_best now e)"
  by (simp add: own_kept_def recompute_all_best_table)

lemma own_kept_purge: "own_kept e (purge_stale now e)"
  using im_keys_retain by (fastforce simp: own_kept_def frame_simps purge_stale_table)

lemma own_kept_topology: "own_kept e (topology_settled now e)"
  by (rule own_kept_table) (simp_all add: frame_simps)

lemma own_kept_revoke: "own_kept e (revoke_originators P ms e)"
proof (induction ms arbitrary: e)
  case (Cons m ms)
  have "own_kept e (revoke_originator P m e)"
    using im_keys_retain by (fastforce simp: own_kept_def revoke_originator_def Let_def)
  then show ?case using Cons by (auto simp: revoke_originators_def intro: own_kept_trans)
qed (simp add: revoke_originators_def)

text \<open>Every handler but the OGM one leaves the originator table alone.\<close>

definition table_kept :: "batman_engine \<Rightarrow> batman_engine \<Rightarrow> bool" where
  "table_kept e e' \<longleftrightarrow> self_ident e' = self_ident e \<and> sequence_number e' = sequence_number e
     \<and> originator_table e' = originator_table e"

lemma table_kept_refl [simp]: "table_kept e e"
  by (simp add: table_kept_def)

lemma table_kept_trans: "table_kept a b \<Longrightarrow> table_kept b c \<Longrightarrow> table_kept a c"
  by (simp add: table_kept_def)

lemma table_kept_own: "table_kept e e' \<Longrightarrow> own_kept e e'"
  by (simp add: table_kept_def own_kept_def)

lemma table_kept_admit: "table_kept e (snd (admit_broadcast P now orig seqno e))"
  by (simp add: table_kept_def admit_broadcast_def Let_def split: option.splits prod.splits)

lemma table_kept_relay_into: "table_kept e (snd (relay_into hdr inner nh reply e))"
  by (simp add: table_kept_def relay_into_def Let_def note_relay_oversize_drop_def)

lemma table_kept_relay: "table_kept e (snd (snd (handle_credential_control dec enc dst ttl hop now frame reply e)))"
  by (simp add: handle_credential_control_def Let_def table_kept_relay_into split: option.split prod.split)

lemma table_kept_broadcast: "table_kept e (snd (snd (handle_broadcast P now frame reply e)))"
  using table_kept_admit [of e P now] table_kept_relay_into
  by (fastforce simp: handle_broadcast_def case_prod_beta split: option.split bool.split intro: table_kept_trans)

lemma table_kept_keepalive: "table_kept e (snd (handle_keepalive P now frame e))"
  by (simp add: table_kept_def handle_keepalive_def note_keepalive_def Let_def split: option.split)

lemma table_kept_counters [simp]:
  "table_kept e (e'\<lparr>mcast_emit_overflows := n\<rparr>) = table_kept e e'"
  "table_kept e (e'\<lparr>mcast_unroutable_dests := n\<rparr>) = table_kept e e'"
  "table_kept e (e'\<lparr>mcast_oversize_lists := n\<rparr>) = table_kept e e'"
  "table_kept e (note_relay_oversize_drop e') = table_kept e e'"
  by (simp_all add: table_kept_def note_relay_oversize_drop_def)

lemma table_kept_emit:
  "table_kept e0 e \<Longrightarrow> table_kept e0 (snd (snd (mcast_emit_loop push ttl inner routed todo seen scratch s e)))"
proof (induction push ttl inner routed todo seen scratch s e rule: mcast_emit_loop.induct)
  case (2 push ttl inner routed nh d todo seen scratch s e)
  show ?case
    using "2.IH"(1) "2.IH"(2) [OF _ refl refl] "2.IH"(3) [OF _ refl refl] "2.prems"
    by (auto simp: Let_def split: prod.split option.split)
qed simp

lemma table_kept_route: "table_kept e0 e \<Longrightarrow> table_kept e0 (snd (mcast_route_loop now ds routed e))"
  by (induction now ds routed e rule: mcast_route_loop.induct) (auto split: option.split)

lemma table_kept_mcast: "table_kept e (snd (snd (snd (handle_mcast push now frame s scratch e))))"
  by (simp add: handle_mcast_def Let_def case_prod_beta table_kept_emit table_kept_route split: option.split)

lemma own_kept_ogm:
  assumes "profile_ok P" "engine_ok P e" "handle_ogm P now frame q reply e = Some (act, reply', e')"
  shows "own_kept e e'"
proof -
  have same: "same_proofs e e'"
    by (rule handle_ogm_result [OF assms(1,2), of now frame q reply]) (use assms(3) in auto)
  show ?thesis
  proof (cases "\<exists>ogm tail. ogm_accepted e frame ogm tail")
    case False
    then show ?thesis
      using handle_ogm_refused [of e frame P now q reply] assms(3) same
      by (auto simp: own_kept_def same_proofs_def)
  next
    case True
    then obtain ogm tail where acc: "ogm_accepted e frame ogm tail" by blast
    obtain x reply1 e1 where l: "learn_ogm P now frame q ogm tail reply e = Some (reply1, e1)"
        "originator_table e1 = im_set (ogm_orig ogm) x (originator_table (ogm_base P now ogm e))"
      by (rule learn_ogm_result [OF assms(1,2)])
    have t: "table_ok (originator_table e)" "im_ok (max_originators P) (originator_table e)"
      using assms(2) by (simp_all add: engine_ok_def)
    have "set (im_keys (originator_table (ogm_base P now ogm e))) \<subseteq> insert (ogm_orig ogm) (set (im_keys (originator_table e)))"
    proof (cases "im_contains (originator_table e) (ogm_orig ogm)")
      case False
      show ?thesis
        by (auto simp: ogm_base_def False discover_originator_table [OF t(1) False] im_keys_def
            dest!: insert_evicting_in [OF assms(1) t(2)])
    qed (auto simp: ogm_base_def)
    moreover have "ogm_orig ogm \<noteq> self_ident e" using acc by (simp add: ogm_accepted_def)
    moreover have "originator_table e' = originator_table e1"
      using assms(3) l(1) by (auto simp: handle_ogm_accepted [OF acc] frame_simps split: if_splits)
    ultimately show ?thesis
      using same l(2) by (auto simp: own_kept_def same_proofs_def)
  qed
qed

lemma rx_table_kept:
  assumes "handle_rx P push now frame q reply s e = Some (act, reply', s', e')"
  shows "table_kept e e' \<or> handle_ogm P now frame q reply e = Some (act, reply', e')"
proof -
  have un: "table_kept e x" if "handle_unicast now frame reply e = (a, r, x)" for a r x
    using table_kept_relay that unfolding handle_unicast_relay by (metis snd_conv)
  have ec: "table_kept e x" if "handle_echo now frame reply e = (a, r, x)" for a r x
    using table_kept_relay that unfolding handle_echo_relay by (metis snd_conv)
  have cr: "table_kept e x" if "handle_credential now frame reply e = (a, r, x)" for a r x
    using table_kept_relay that unfolding handle_credential_def by (metis snd_conv)
  have br: "table_kept e x" if "handle_broadcast P now frame reply e = (a, r, x)" for a r x
    using table_kept_broadcast [of e P now frame reply] that by simp
  have ka: "table_kept e x" if "handle_keepalive P now frame e = (a, x)" for a x
    using table_kept_keepalive [of e P now frame] that by simp
  have mc: "table_kept e x" if "handle_mcast push now frame s (fd_payload reply) e = (a, r, t, x)" for a r t x
    using table_kept_mcast [of e push now frame s "fd_payload reply"] that by simp
  show ?thesis
    using assms un ec cr br ka mc
    by (auto simp: handle_rx_def Let_def
        split: if_splits option.splits batman_packet_type.splits prod.splits bind_splits)
qed

lemma own_kept_rx:
  assumes "profile_ok P" "engine_ok P e" "handle_rx P push now frame q reply s e = Some (act, reply', s', e')"
  shows "own_kept e e'"
  using rx_table_kept [OF assms(3)] table_kept_own own_kept_ogm [OF assms(1,2)] by blast

lemma perform_own:
  assumes "profile_ok P" "engine_ok P e" "perform P c e = Some e'"
  shows "own_kept e (e'\<lparr>sequence_number := sequence_number e\<rparr>)"
    and "sequence_number e' = (if is_announcement c then sequence_number e + 1 else sequence_number e)"
proof -
  have "own_kept e (e'\<lparr>sequence_number := sequence_number e\<rparr>)
    \<and> sequence_number e' = (if is_announcement c then sequence_number e + 1 else sequence_number e)"
  proof (cases "is_announcement c")
    case True
    then obtain now buf where "c = ProducePeriodic now buf" by (cases c) auto
    moreover have "own_kept e (topology_settled now (purge_stale now e))"
      using own_kept_purge own_kept_topology by (rule own_kept_trans)
    ultimately show ?thesis
      using assms(3) by (auto simp: produce_periodic_broadcast_eq Let_def ticked_def own_kept_def split: if_splits)
  next
    case False
    have "own_kept e e'"
    proof (cases c)
      case (Receive push now frame q reply)
      then show ?thesis using assms(3) own_kept_rx [OF assms(1,2)] by auto
    next
      case (RevokeOriginators ms)
      then show ?thesis using assms(3) own_kept_revoke by auto
    next
      case (PurgeStale now)
      then show ?thesis using assms(3) own_kept_purge by auto
    qed (use assms(3) False in \<open>auto simp: own_kept_def configure_interface_ogm_def configure_interface_keepalive_def
      on_interface_emitted_def on_keepalive_emitted_def reset_ogm_timers_def set_local_mcast_groups_eq groups_set_def timers_restarted_def
      next_broadcast_seqno_def set_require_proof_def note_proven_def note_challenged_def retain_proven_def
      engine_reset_def recompute_all_best_table Let_def split: if_splits option.splits bind_splits\<close>)
    with False show ?thesis by (simp add: own_kept_def)
  qed
  then show "own_kept e (e'\<lparr>sequence_number := sequence_number e\<rparr>)"
    "sequence_number e' = (if is_announcement c then sequence_number e + 1 else sequence_number e)" by simp_all
qed

lemma reachable_own:
  assumes "reachable P ident e" "profile_ok P"
  shows "self_ident e = ident \<and> ident \<notin> set (im_keys (originator_table e))"
  using assms
proof (induction rule: reachable.induct)
  case (call e c e')
  then show ?case
    using perform_own(1) [of P e c e'] reachable_ok by (auto simp: own_kept_def)
qed (simp add: engine_new_def im_keys_def)

lemma perform_all_seqno:
  assumes "profile_ok P" "engine_ok P e" "perform_all P cs e = Some e'"
  shows "engine_ok P e' \<and> self_ident e' = self_ident e
    \<and> sequence_number e' = sequence_number e + word_of_nat (length (filter is_announcement cs))"
  using assms(2,3)
proof (induction cs arbitrary: e)
  case (Cons c cs)
  then obtain e1 where e1: "perform P c e = Some e1" "perform_all P cs e1 = Some e'"
    by (auto split: bind_splits)
  have "engine_ok P e1"
    using perform_ok [OF assms(1) Cons.prems(1), of c] e1(1) by simp
  with Cons.IH [OF _ e1(2)] perform_own [OF assms(1) Cons.prems(1) e1(1)] show ?case
    by (auto simp: own_kept_def)
qed simp

section \<open>High-waters\<close>

text \<open>
  Only an OGM of an originator moves its high-water: forward by at most the window, or wherever a
  completed resynchronisation puts it, which the counter shows.
\<close>

definition high_water_step :: "mac \<Rightarrow> batman_engine \<Rightarrow> batman_engine \<Rightarrow> bool" where
  "high_water_step m e e' \<longleftrightarrow> (\<forall>r r'. im_get (originator_table e) m = Some r \<longrightarrow> im_get (originator_table e') m = Some r' \<longrightarrow>
     or_last_seqno r' = or_last_seqno r \<or> classify OGM_BANDS (or_last_seqno r) (or_last_seqno r') = Advance
     \<or> seqno_resyncs e' = saturating_add (seqno_resyncs e) 1)"

definition seqnos_kept :: "batman_engine \<Rightarrow> batman_engine \<Rightarrow> bool" where
  "seqnos_kept e e' \<longleftrightarrow> (\<forall>m r'. im_get (originator_table e') m = Some r' \<longrightarrow>
     (\<exists>r. im_get (originator_table e) m = Some r \<and> or_last_seqno r = or_last_seqno r'))"

lemma seqnos_kept_trans: "seqnos_kept a b \<Longrightarrow> seqnos_kept b c \<Longrightarrow> seqnos_kept a c"
  by (force simp: seqnos_kept_def)

lemma seqnos_kept_step: "seqnos_kept e e' \<Longrightarrow> high_water_step m e e'"
  by (force simp: seqnos_kept_def high_water_step_def)

lemma seqnos_kept_same: "originator_table e' = originator_table e \<Longrightarrow> seqnos_kept e e'"
  by (simp add: seqnos_kept_def)

lemma seqnos_kept_recompute:
  "originator_table e' = im_map_values (recompute_best sel) (originator_table e) \<Longrightarrow> seqnos_kept e e'"
  by (auto simp: seqnos_kept_def im_get_map_values recompute_best_def Let_def split: option.splits)

lemma seqnos_kept_purge: "engine_ok P e \<Longrightarrow> seqnos_kept e (purge_stale now e)"
  by (auto simp: seqnos_kept_def purge_stale_table engine_ok_def im_ok_def im_get_filter_map prune_paths_def
      recompute_best_def Let_def split: option.splits if_splits)

lemma seqnos_kept_revoke:
  assumes "profile_ok P"
  shows "engine_ok P e \<Longrightarrow> seqnos_kept e (revoke_originators P ms e)"
proof (induction ms arbitrary: e)
  case (Cons m ms)
  have "distinct (im_keys (originator_table e))" using Cons.prems by (simp add: engine_ok_def im_ok_def)
  then have "seqnos_kept e (revoke_originator P m e)"
    by (auto simp: seqnos_kept_def revoke_originator_def Let_def im_get_map_values im_get_retain split: option.splits if_splits)
  with Cons.IH [OF revoke_originator_ok [OF assms Cons.prems, of m]] show ?case
    by (simp add: revoke_originators_def) (rule seqnos_kept_trans)
qed (simp add: revoke_originators_def seqnos_kept_same)

lemma ogm_base_get:
  assumes "profile_ok P" "engine_ok P e" "m \<noteq> ogm_orig ogm"
    and "im_get (originator_table (ogm_base P now ogm e)) m = Some r"
  shows "im_get (originator_table e) m = Some r"
proof (cases "im_contains (originator_table e) (ogm_orig ogm)")
  case False
  have t: "table_ok (originator_table e)" "im_ok (max_originators P) (originator_table e)" "distinct (im_keys (originator_table e))"
    using assms(2) by (simp_all add: engine_ok_def im_ok_def)
  have "(m, r) \<in> set (originator_table (ogm_base P now ogm e))" using assms(4) by (rule im_get_in)
  then have "(m, r) \<in> set (originator_table e)"
    using assms(3) by (auto simp: ogm_base_def False discover_originator_table [OF t(1) False] dest!: insert_evicting_in [OF assms(1) t(2)])
  with t(3) show ?thesis by (simp add: im_get_iff)
qed (use assms(4) in \<open>simp add: ogm_base_def\<close>)

lemma handle_ogm_high_water:
  assumes "profile_ok P" "engine_ok P e" "handle_ogm P now frame q reply e = Some (act, reply', e')"
  shows "high_water_step m e e'"
proof (cases "\<exists>ogm tail. ogm_accepted e frame ogm tail")
  case False
  then show ?thesis
    using handle_ogm_refused [of e frame P now q reply] assms(3) by (auto intro!: seqnos_kept_step seqnos_kept_same)
next
  case True
  then obtain ogm tail where acc: "ogm_accepted e frame ogm tail" by blast
  obtain r a r1 reply1 e1 where l: "im_get (originator_table (ogm_base P now ogm e)) (ogm_orig ogm) = Some r"
      "judge_seqno (\<not> im_contains (originator_table e) (ogm_orig ogm)) (ogm_seqno ogm) now r = (a, r1)"
      "learn_ogm P now frame q ogm tail reply e = Some (reply1, e1)"
      "originator_table e1 = im_set (ogm_orig ogm)
       (if is_stale_copy a then r1
        else learned_record now (lf_src frame) (proof_current e now (lf_src frame)) (attenuated_tq (ogm_tq ogm) q)
          (ogm_seqno ogm) a r1)
       (originator_table (ogm_base P now ogm e))"
      "seqno_resyncs e1 = (if is_resynchronised a then saturating_add (seqno_resyncs e) 1 else seqno_resyncs e)"
    by (rule learn_ogm_result [OF assms(1,2), of now ogm frame q tail reply]) blast
  obtain x where x: "originator_table e1 = im_set (ogm_orig ogm) x (originator_table (ogm_base P now ogm e))"
      "or_last_seqno x = or_last_seqno r1"
    using l(4) learned_record_fields(2) by (metis (full_types))
  have e': "e' = topology_settled now e1"
    using assms(3) l(3) by (auto simp: handle_ogm_accepted [OF acc] split: if_splits)
  have tab: "im_get (originator_table e') m =
      (if m = ogm_orig ogm then Some x else im_get (originator_table (ogm_base P now ogm e)) m)"
    using l(1) x(1) by (simp add: e' frame_simps im_get_set im_contains_def)
  show ?thesis
  proof (cases "m = ogm_orig ogm")
    case False
    then show ?thesis
      using tab ogm_base_get [OF assms(1,2) False, of now] by (auto simp: high_water_step_def)
  next
    case True
    have "or_last_seqno r1 = or_last_seqno r0 \<or> classify OGM_BANDS (or_last_seqno r0) (or_last_seqno r1) = Advance
        \<or> is_resynchronised a" if r0: "im_get (originator_table e) m = Some r0" for r0
    proof -
      have "r = r0" "judge_seqno False (ogm_seqno ogm) now r = (a, r1)"
        using l(1,2) r0 True by (simp_all add: ogm_base_def im_contains_def)
      then show ?thesis
        by (auto simp: judge_seqno_def admit_seqno_def Let_def is_resynchronised_def split: seqno_verdict.splits if_splits)
    qed
    with l(5) x(2) tab True show ?thesis by (auto simp: high_water_step_def e')
  qed
qed

lemma perform_high_water:
  assumes "profile_ok P" "engine_ok P e" "perform P c e = Some e'"
  shows "high_water_step m e e'"
proof (cases c)
  case (Receive push now frame q reply)
  then obtain act reply' s' where "handle_rx P push now frame q reply [] e = Some (act, reply', s', e')"
    using assms(3) by auto
  from rx_table_kept [OF this] show ?thesis
    using handle_ogm_high_water [OF assms(1,2)] seqnos_kept_step [OF seqnos_kept_same] unfolding table_kept_def by blast
next
  case (ProducePeriodic now buf)
  then have "e' = ticked now e" using assms(3) by (auto simp: produce_periodic_broadcast_eq Let_def split: if_splits)
  then show ?thesis
    using seqnos_kept_trans [OF seqnos_kept_purge [OF assms(2), of now] seqnos_kept_same, of e']
    by (intro seqnos_kept_step) (simp add: ticked_def frame_simps)
next
  case (PurgeStale now)
  then show ?thesis using assms(3) seqnos_kept_purge [OF assms(2)] by (auto intro: seqnos_kept_step)
next
  case (RevokeOriginators ms)
  then show ?thesis using assms(3) seqnos_kept_revoke [OF assms(1,2)] by (auto intro: seqnos_kept_step)
next
  case (NoteProven now n iface)
  then have "e' = note_proven P now n iface e" using assms(3) by simp
  then show ?thesis
    by (intro seqnos_kept_step seqnos_kept_recompute) (simp add: note_proven_def Let_def recompute_all_best_table)
next
  case (RetainProven now usable)
  then have "e' = retain_proven P now usable e" using assms(3) by simp
  then have "originator_table e' = originator_table e \<or>
      originator_table e' = im_map_values (recompute_best (live_proof (e\<lparr>proofs_swept := proofs_swept e', proven := proven e'\<rparr>) now))
        (originator_table e)"
    by (auto simp: retain_proven_def Let_def recompute_all_best_table)
  then show ?thesis using seqnos_kept_same seqnos_kept_recompute seqnos_kept_step by blast
qed (use assms(3) in \<open>auto simp: timer_call_eqs ogm_configured_def keepalive_configured_def interface_served_def
  keepalive_served_def timers_restarted_def groups_set_def next_broadcast_seqno_def set_require_proof_def
  note_challenged_def engine_reset_def Let_def seqnos_kept_def intro!: seqnos_kept_step split: if_splits option.splits\<close>)

text \<open>
  A run of calls in which the node keeps its record of \<open>m\<close> (it is not evicted, purged, revoked or reset
  away) and resynchronises no sequence space.
\<close>

fun perform_holding :: "profile \<Rightarrow> mac \<Rightarrow> engine_call list \<Rightarrow> batman_engine \<Rightarrow> batman_engine option" where
  "perform_holding P m [] e = Some e"
| "perform_holding P m (c # cs) e =
     do { e' \<leftarrow> perform P c e;
          if im_contains (originator_table e') m \<and> seqno_resyncs e' = seqno_resyncs e
          then perform_holding P m cs e' else None }"

lemma saturating_add_1_eq: "x < - 1 \<Longrightarrow> saturating_add x 1 = x + 1" for x :: u32
proof -
  assume "x < - 1"
  then have "unat x < 2 ^ 32 - 1" by (simp add: word_less_nat_alt unat_minus_one_word')
  then show ?thesis by (simp add: saturating_add_def)
qed

lemma saturating_add_1_neq: "x < - 1 \<Longrightarrow> saturating_add x 1 \<noteq> x" for x :: u32
  by (simp add: saturating_add_1_eq)

lemma unat_diff_triangle: "unat (c - a) \<le> unat (c - b) + unat (b - a)" for a b c :: u32
proof -
  have "unat ((c - b) + (b - a)) \<le> unat (c - b) + unat (b - a)"
    by (simp only: unat_word_ariths(1) mod_less_eq_dividend)
  then show ?thesis by simp
qed

lemma ogm_advance_near:
  assumes "classify OGM_BANDS hw s = Advance"
  shows "0 < unat (s - hw) \<and> unat (s - hw) \<le> 256"
proof -
  have "sb_window OGM_BANDS = 256" by (simp add: OGM_BANDS_def)
  with assms show ?thesis
    by (simp add: ogm_space.classify_Advance_iff del: of_nat_unat)
qed

lemma holding_high_water:
  assumes "profile_ok P"
  shows "engine_ok P e \<Longrightarrow> perform_holding P m cs e = Some e' \<Longrightarrow> seqno_resyncs e < - 1 \<Longrightarrow>
    im_get (originator_table e) m = Some r \<Longrightarrow>
    engine_ok P e' \<and> seqno_resyncs e' = seqno_resyncs e
    \<and> (\<exists>r'. im_get (originator_table e') m = Some r'
         \<and> unat (or_last_seqno r' - or_last_seqno r) \<le> 256 * length cs)"
proof (induction cs arbitrary: e r)
  case (Cons c cs)
  then obtain e1 where e1: "perform P c e = Some e1" "perform_holding P m cs e1 = Some e'"
      "im_contains (originator_table e1) m" "seqno_resyncs e1 = seqno_resyncs e"
    by (auto split: bind_splits if_splits)
  have ok: "engine_ok P e1" using perform_ok [OF assms Cons.prems(1), of c] e1(1) by simp
  obtain r1 where r1: "im_get (originator_table e1) m = Some r1" using e1(3) by (auto simp: im_contains_def)
  have "seqno_resyncs e1 \<noteq> saturating_add (seqno_resyncs e) 1"
    using Cons.prems(3) e1(4) saturating_add_1_neq by metis
  then have step: "or_last_seqno r1 = or_last_seqno r \<or> classify OGM_BANDS (or_last_seqno r) (or_last_seqno r1) = Advance"
    using perform_high_water [OF assms Cons.prems(1) e1(1), of m] Cons.prems(4) r1 by (auto simp: high_water_step_def)
  then have near: "unat (or_last_seqno r1 - or_last_seqno r) \<le> 256"
    using ogm_advance_near by fastforce
  obtain r' where r': "engine_ok P e'" "seqno_resyncs e' = seqno_resyncs e1" "im_get (originator_table e') m = Some r'"
      "unat (or_last_seqno r' - or_last_seqno r1) \<le> 256 * length cs"
    using Cons.IH [OF ok e1(2) _ r1] Cons.prems(3) e1(4) by auto
  have "unat (or_last_seqno r' - or_last_seqno r) \<le> 256 * length (c # cs)"
    using unat_diff_triangle [of "or_last_seqno r'" "or_last_seqno r" "or_last_seqno r1"] near r'(4) by simp
  with r' e1(4) show ?case by auto
qed simp

lemma passed_not_advance:
  assumes "unat (hw - s) \<le> 2 ^ 32 - 512"
  shows "classify OGM_BANDS hw s \<noteq> Advance"
proof
  assume "classify OGM_BANDS hw s = Advance"
  then have a: "0 < unat (s - hw)" "unat (s - hw) \<le> 256"
    using ogm_advance_near by blast+
  have "unat (hw - s) = 2 ^ 32 - unat (s - hw)"
    using a(1) unat_sub_if_size [of 0 "s - hw"] by (auto simp: word_size word_le_nat_alt)
  with a(2) assms show False by simp
qed

text \<open>
  C30. A node forwards a sequence number once for as long as it remembers it. After re-flooding an OGM the
  node re-floods no other copy of the same originator and number, from whichever neighbour and with
  whatever header otherwise, throughout any run of up to sixteen million engine calls in which it keeps its record of
  the originator and completes no resynchronisation (the counter is not saturated); the copy itself is
  forwarded only if it completes one. The handler panics only where the clock overflows.
\<close>

theorem ogm_reflooded_once:
  assumes "profile_ok P" "engine_ok P e" "ogm_read (lf_payload frame) = Some (ogm, rest)"
    and "handle_ogm P now frame q reply e = Some (act, reply', e')"
    and "fd_protocol reply \<noteq> ETH_P_BATMAN" "fd_protocol reply' = ETH_P_BATMAN"
    and "perform_holding P (ogm_orig ogm) cs e' = Some e2" "length cs \<le> 16000000" "seqno_resyncs e' < - 1"
    and "ogm_read (lf_payload frame2) = Some (ogm2, rest2)"
    and "ogm_orig ogm2 = ogm_orig ogm" "ogm_seqno ogm2 = ogm_seqno ogm"
  shows "case handle_ogm P now2 frame2 q2 reply2 e2 of
      None \<Rightarrow> overflows now2 e2
    | Some (act2, reply3, e3) \<Rightarrow> reply3 = reply2 \<or> seqno_resyncs e3 = seqno_resyncs e2 + 1"
proof -
  have "\<exists>ogm tail. ogm_accepted e frame ogm tail"
    using handle_ogm_refused [of e frame P now q reply] assms(4-6) by auto
  then obtain tail where acc: "ogm_accepted e frame ogm tail"
    using assms(3) by (auto simp: ogm_accepted_def)
  obtain r where r: "im_get (originator_table e') (ogm_orig ogm) = Some r" "or_last_seqno r = ogm_seqno ogm"
    by (rule reflooded_high_water [OF assms(1,2) acc assms(4-6)])
  have "engine_ok P e'"
    by (rule handle_ogm_result [OF assms(1,2), of now frame q reply]) (use assms(4) in auto)
  from holding_high_water [OF assms(1) this assms(7,9) r(1)]
  obtain r2 where e2: "engine_ok P e2" "seqno_resyncs e2 < - 1" "im_get (originator_table e2) (ogm_orig ogm) = Some r2"
      "unat (or_last_seqno r2 - ogm_seqno ogm) \<le> 256 * length cs"
    using assms(9) r(2) by auto
  have "unat (or_last_seqno r2 - ogm_seqno ogm) \<le> 2 ^ 32 - 512" using e2(4) assms(8) by simp
  note behind = passed_not_advance [OF this]
  show ?thesis
  proof (cases "\<exists>ogm tail. ogm_accepted e2 frame2 ogm tail")
    case False
    then show ?thesis using handle_ogm_refused [of e2 frame2 P now2 q2 reply2] by auto
  next
    case True
    then obtain tail2 where acc2: "ogm_accepted e2 frame2 ogm2 tail2"
      using assms(10) by (auto simp: ogm_accepted_def)
    obtain r3 a r1 e1 where l: "im_get (originator_table (ogm_base P now2 ogm2 e2)) (ogm_orig ogm2) = Some r3"
        "judge_seqno (\<not> im_contains (originator_table e2) (ogm_orig ogm2)) (ogm_seqno ogm2) now2 r3 = (a, r1)"
        "learn_ogm P now2 frame2 q2 ogm2 tail2 reply2 e2 =
         Some (if \<not> is_stale_copy a \<and> advanced a \<and> ogm_ttl ogm2 > 1
               then fst (reflood_ogm ogm2 tail2 (lf_src frame2) (attenuated_tq (ogm_tq ogm2) q2) reply2 e2) else reply2, e1)"
        "same_proofs e2 e1"
        "seqno_resyncs e1 = (if is_resynchronised a then saturating_add (seqno_resyncs e2) 1 else seqno_resyncs e2)"
      by (rule learn_ogm_result [OF assms(1) e2(1)])
    have "r3 = r2" "judge_seqno False (ogm_seqno ogm) now2 r2 = (a, r1)"
      using l(1,2) e2(3) assms(11,12) by (simp_all add: ogm_base_def im_contains_def)
    then have "advanced a \<Longrightarrow> is_resynchronised a"
      using behind by (auto simp: judge_seqno_def admit_seqno_def Let_def is_resynchronised_def
          split: seqno_verdict.splits if_splits)
    moreover have "saturating_add (seqno_resyncs e2) 1 = seqno_resyncs e2 + 1"
      using e2(2) by (rule saturating_add_1_eq)
    moreover have "resets_fit now2 e1" if "\<not> overflows now2 e2"
      using resets_fit_overflows [OF e2(1) that] same_proofs_resets_fit [OF l(4)] by simp
    ultimately show ?thesis
      using l(3,5) by (auto simp: handle_ogm_accepted [OF acc2])
  qed
qed

lemma handle_ogm_resyncs:
  assumes "profile_ok P" "engine_ok P e" "handle_ogm P now frame q reply e = Some (act, reply', e')"
    and "ogm_accepted e frame ogm tail"
  shows "seqno_resyncs e' \<in> {seqno_resyncs e, saturating_add (seqno_resyncs e) 1}"
proof -
  obtain a reply1 e1 where "learn_ogm P now frame q ogm tail reply e = Some (reply1, e1)"
      "seqno_resyncs e1 = (if is_resynchronised a then saturating_add (seqno_resyncs e) 1 else seqno_resyncs e)"
    by (rule learn_ogm_result [OF assms(1,2), of now ogm frame q tail reply]) blast
  then show ?thesis using assms(3) by (auto simp: handle_ogm_accepted [OF assms(4)] split: if_splits)
qed

theorem ogm_reflooded_once_witness:
  "\<exists>reply' e' e2. handle_ogm sample_profile 0 sample_rx None (scratchpad (replicate 64 0)) sample_node =
      Some (Consumed, reply', e')
    \<and> perform_holding sample_profile (ogm_orig sample_ogm) [NextBroadcastSeqno, SetRequireProof True] e' = Some e2
    \<and> (case handle_ogm sample_profile 0 (sample_frame (Mac 0 0 0 0 0 3) (ogm_write sample_ogm)) None
          (scratchpad (replicate 64 0)) e2 of
         None \<Rightarrow> overflows 0 e2
       | Some (act, reply3, e3) \<Rightarrow> reply3 = scratchpad (replicate 64 0) \<or> seqno_resyncs e3 = seqno_resyncs e2 + 1)"
proof -
  obtain reply' e' where f: "handle_ogm sample_profile 0 sample_rx None (scratchpad (replicate 64 0)) sample_node =
    Some (Consumed, reply', e')" "fd_protocol reply' = ETH_P_BATMAN"
    by (rule sample_rx_flooded)
  have p: "fd_protocol (scratchpad (replicate 64 0)) \<noteq> ETH_P_BATMAN"
    by (simp add: scratchpad_def ETH_P_BATMAN_def)
  obtain r where "im_get (originator_table e') (ogm_orig sample_ogm) = Some r"
    by (rule reflooded_high_water [OF sample_profile_ok engine_new_ok sample_rx_accepted f(1) p f(2)])
  then obtain e2 where run: "perform_holding sample_profile (ogm_orig sample_ogm) [NextBroadcastSeqno, SetRequireProof True] e' = Some e2"
    by (simp add: im_contains_def next_broadcast_seqno_def set_require_proof_def Let_def)
  have "seqno_resyncs sample_node = 0" by (simp add: engine_new_def)
  then have n: "seqno_resyncs e' < - 1"
    using handle_ogm_resyncs [OF sample_profile_ok engine_new_ok f(1) sample_rx_accepted] by (auto simp: saturating_add_def word_less_nat_alt unat_minus_one_word')
  have "ogm_read (lf_payload (sample_frame (Mac 0 0 0 0 0 3) (ogm_write sample_ogm))) = Some (sample_ogm, [])"
    using sample_rx_read by (simp add: sample_frame_def)
  from ogm_reflooded_once [OF sample_profile_ok engine_new_ok sample_rx_read f(1) p f(2) run _ n this refl refl,
      where ?now2.0 = 0 and ?q2.0 = None and ?reply2.0 = "scratchpad (replicate 64 0)"] f(1) run
  show ?thesis by fastforce
qed

end
