(* ===== verification/Mesh.thy ===== *)
theory Mesh
  imports Lifecycle
begin

text \<open>
  Several nodes together. The step between two engines is the router's: it hands a received
  frame and a zeroed reply header to the engine and transmits what the engine left in the reply,
  trimmed to the frame's end (\<^verbatim>\<open>reply_ogm_wire_len\<close> and the \<open>Consumed\<close> arm of the receive path in
  \<^verbatim>\<open>libs/wayfinder/src/lib.rs\<close>, for a router with no authenticator attached). The link adapter
  puts the sender's own address in front (\<open>sent_by\<close>).

  \<open>typed_relay\<close> extends the relay contract by the packet type byte the trimming looks at. Its
  lemmas describe one hop by an equation and a chain of hops by induction over the nodes.
\<close>

section \<open>Forwarding the reply\<close>

definition reply_ogm_wire_len :: "frame_data \<Rightarrow> nat option" where
  "reply_ogm_wire_len reply =
     (case ogm_read (fd_payload reply) of
        None \<Rightarrow> None
      | Some (ogm, _) \<Rightarrow>
          if ogm_packet_type ogm \<noteq> packet_type_as_u8 Ogm then None
          else let total = OGM_SIZE + unat (ogm_tvlv_len ogm)
               in if total \<le> length (fd_payload reply) then Some total else None)"

text \<open>The packet type of a received frame, and whether its link carries data.\<close>

definition consumed_forward :: "batman_packet_type option \<Rightarrow> bool \<Rightarrow> link_frame \<Rightarrow> frame_data \<Rightarrow> frame_data option" where
  "consumed_forward packet_type tx_data frame reply =
     (if fd_protocol reply \<noteq> 0
      then if packet_type = Some Ogm \<and> \<not> tx_data then None
           else let len = (case reply_ogm_wire_len reply of
                             Some n \<Rightarrow> n
                           | None \<Rightarrow> min (length (lf_payload frame)) (length (fd_payload reply)))
                in Some \<lparr>fd_dst = fd_dst reply, fd_protocol = fd_protocol reply,
                         fd_payload = take len (fd_payload reply)\<rparr>
      else None)"

definition frame_packet_type :: "link_frame \<Rightarrow> batman_packet_type option" where
  "frame_packet_type frame =
     (if lf_protocol frame = ETH_P_BATMAN
      then (case lf_payload frame of [] \<Rightarrow> None | t # _ \<Rightarrow> packet_type_from_u8 t) else None)"

definition sent_by :: "mac \<Rightarrow> frame_data \<Rightarrow> link_frame" where
  "sent_by src f = \<lparr>lf_dst = fd_dst f, lf_src = src, lf_protocol = fd_protocol f, lf_payload = fd_payload f\<rparr>"

type_synonym relay_handler =
  "duration \<Rightarrow> link_frame \<Rightarrow> frame_data \<Rightarrow> batman_engine \<Rightarrow> routing_action \<times> frame_data \<times> batman_engine"

definition relay_hop :: "relay_handler \<Rightarrow> duration \<Rightarrow> bytes \<Rightarrow> batman_engine \<Rightarrow> link_frame \<Rightarrow> link_frame option" where
  "relay_hop handle now buf e frame =
     (case handle now frame (scratchpad buf) e of
        (Consumed, reply, _) \<Rightarrow>
          map_option (sent_by (self_ident e)) (consumed_forward (frame_packet_type frame) True frame reply)
      | _ \<Rightarrow> None)"

text \<open>The nodes a packet visits: the time, the transmit buffer and the engine of each.\<close>

type_synonym node = "duration \<times> bytes \<times> batman_engine"

fun relay_chain :: "relay_handler \<Rightarrow> node list \<Rightarrow> link_frame \<Rightarrow> link_frame option" where
  "relay_chain handle [] frame = Some frame"
| "relay_chain handle ((now, buf, e) # nodes) frame =
     Option.bind (relay_hop handle now buf e frame) (relay_chain handle nodes)"

text \<open>Each node's next hop towards \<open>d\<close> is the node after it, the last one's is \<open>d\<close> itself.\<close>

fun on_route :: "mac \<Rightarrow> nat \<Rightarrow> node list \<Rightarrow> bool" where
  "on_route d len [] = True"
| "on_route d len ((now, buf, e) # nodes) =
     (self_ident e \<noteq> d \<and> len \<le> length buf
      \<and> next_hop e now d = Some (case nodes of [] \<Rightarrow> d | (_, _, e') # _ \<Rightarrow> self_ident e')
      \<and> on_route d len nodes)"

section \<open>One hop and a chain of hops\<close>

lemma ogm_read_type: "ogm_read bs = Some (ogm, rest) \<Longrightarrow> ogm_packet_type ogm = bs ! 0"
  by (drule ogm_codec.write_read) (simp add: ogm_write_def)

locale typed_relay = relayed_header hsize enc dec dest ttl hop
  for hsize :: nat and enc :: "'h \<Rightarrow> bytes" and dec :: "bytes \<Rightarrow> ('h \<times> bytes) option"
    and dest :: "'h \<Rightarrow> mac" and ttl :: "'h \<Rightarrow> u8" and hop :: "'h \<Rightarrow> 'h" +
  fixes ptype :: "'h \<Rightarrow> u8" and handle :: relay_handler
  assumes type_first: "(enc h @ bs) ! 0 = ptype h"
    and hop_type: "ptype (hop h) = ptype h"
    and handles: "handle = handle_credential_control dec enc dest ttl hop"
begin

lemma hop_eq:
  assumes "ptype h \<noteq> packet_type_as_u8 Ogm" "lf_payload frame = enc h @ inner"
  shows "relay_hop handle now buf e frame =
    (if dest h \<noteq> self_ident e \<and> 1 < ttl h \<and> hsize + length inner \<le> length buf
     then map_option (\<lambda>nh. \<lparr>lf_dst = nh, lf_src = self_ident e, lf_protocol = ETH_P_BATMAN,
            lf_payload = enc (hop h) @ inner\<rparr>) (next_hop e now (dest h))
     else None)"
proof -
  have trim: "reply_ogm_wire_len \<lparr>fd_dst = nh, fd_protocol = ETH_P_BATMAN, fd_payload = enc (hop h) @ bs\<rparr> = None" for nh bs
    using assms(1)
    by (auto simp: reply_ogm_wire_len_def type_first hop_type split: option.split dest!: ogm_read_type)
  have "ETH_P_BATMAN \<noteq> 0" by (simp add: ETH_P_BATMAN_def)
  with assms trim show ?thesis
    by (auto simp: relay_hop_def handles handle_credential_control_def read_write Let_def relay_into_def write_length
        consumed_forward_def sent_by_def scratchpad_def note_relay_oversize_drop_def not_le split: option.split)
qed

lemma chain_ttl:
  assumes "ptype h \<noteq> packet_type_as_u8 Ogm" "lf_payload frame = enc h @ inner"
    and "relay_chain handle nodes frame = Some frame'"
  shows "lf_payload frame' = enc ((hop ^^ length nodes) h) @ inner
    \<and> unat (ttl ((hop ^^ length nodes) h)) = unat (ttl h) - length nodes
    \<and> (nodes \<noteq> [] \<longrightarrow> length nodes < unat (ttl h))"
  using assms
proof (induction nodes arbitrary: frame h)
  case (Cons node nodes)
  obtain now buf e where node: "node = (now, buf, e)" by (cases node)
  obtain f1 where f1: "relay_hop handle now buf e frame = Some f1" "relay_chain handle nodes f1 = Some frame'"
    using Cons.prems(3) by (auto simp: node split: bind_splits)
  then have live: "1 < ttl h" "lf_payload f1 = enc (hop h) @ inner"
    by (auto simp: hop_eq [OF Cons.prems(1,2)] split: if_splits)
  have "ptype (hop h) \<noteq> packet_type_as_u8 Ogm" using Cons.prems(1) by (simp add: hop_type)
  note IH = Cons.IH [OF this live(2) f1(2)]
  have t: "unat (ttl (hop h)) = unat (ttl h) - 1" "1 < unat (ttl h)"
    using live(1) by (simp_all add: hop_ttl word_less_nat_alt unat_sub word_le_nat_alt)
  have "(hop ^^ Suc (length nodes)) h = (hop ^^ length nodes) (hop h)"
    by (simp add: funpow_swap1)
  with IH t show ?case by auto
qed simp

lemma funpow_dest: "dest ((hop ^^ n) h) = dest h"
  by (induction n) (simp_all add: hop_dest)

lemma chain_delivers:
  assumes "ptype h \<noteq> packet_type_as_u8 Ogm" "lf_payload frame = enc h @ inner" "dest h = d"
    and "on_route d (hsize + length inner) nodes" "length nodes < unat (ttl h)"
  shows "\<exists>frame'. relay_chain handle nodes frame = Some frame' \<and> lf_payload frame' = enc ((hop ^^ length nodes) h) @ inner
    \<and> (nodes \<noteq> [] \<longrightarrow> lf_dst frame' = d \<and> lf_src frame' = self_ident (snd (snd (last nodes))))"
  using assms
proof (induction nodes arbitrary: frame h)
  case (Cons node nodes)
  obtain now buf e where node: "node = (now, buf, e)" by (cases node)
  let ?nh = "case nodes of [] \<Rightarrow> d | (_, _, e') # _ \<Rightarrow> self_ident e'"
  define f1 where "f1 = \<lparr>lf_dst = ?nh, lf_src = self_ident e, lf_protocol = ETH_P_BATMAN, lf_payload = enc (hop h) @ inner\<rparr>"
  have ttl: "1 < ttl h" "length nodes < unat (ttl (hop h))"
    using Cons.prems(5) by (auto simp: hop_ttl word_less_nat_alt unat_sub word_le_nat_alt)
  have f1: "relay_hop handle now buf e frame = Some f1"
    using Cons.prems(3,4) ttl(1) by (auto simp: hop_eq [OF Cons.prems(1,2)] node f1_def)
  have "ptype (hop h) \<noteq> packet_type_as_u8 Ogm" "lf_payload f1 = enc (hop h) @ inner" "dest (hop h) = d"
      "on_route d (hsize + length inner) nodes"
    using Cons.prems by (auto simp: hop_type hop_dest node f1_def)
  note IH = Cons.IH [OF this ttl(2)]
  have "(hop ^^ Suc (length nodes)) h = (hop ^^ length nodes) (hop h)"
    by (simp add: funpow_swap1)
  moreover have "relay_chain handle (node # nodes) frame = relay_chain handle nodes f1"
    using f1 by (simp add: node)
  ultimately show ?case
    using IH by (cases nodes) (auto simp: f1_def node)
qed simp

text \<open>The destination hands the packet up and transmits nothing.\<close>

lemma delivered_at:
  "lf_payload frame = enc h @ inner \<Longrightarrow> dest h = self_ident e \<Longrightarrow> handle now frame reply e = (DeliverLocal, reply, e)"
  by (simp add: handles handle_credential_control_def read_write Let_def)

end

interpretation unicast_relay: typed_relay ROUTED_SIZE routed_write routed_read rp_dest rp_ttl decrement_ttl rp_packet_type handle_unicast
  by unfold_locales (simp_all add: routed_write_def decrement_ttl_def handle_unicast_relay)

interpretation credential_relay: typed_relay ROUTED_SIZE routed_write routed_read rp_dest rp_ttl decrement_ttl rp_packet_type handle_credential
  by unfold_locales (simp_all add: routed_write_def decrement_ttl_def handle_credential_def)

interpretation probe_relay: typed_relay ECHO_SIZE echo_write echo_read ec_dest ec_ttl echo_hop ec_packet_type handle_echo
  by unfold_locales (simp_all add: echo_write_def echo_hop_def handle_echo_relay)

end
