(* ===== verification/Link.thy ===== *)
theory Link
  imports Frame
begin

text \<open>
  What link drivers and the router exchange besides frames: the errors and the physical-layer
  measurements of \<^verbatim>\<open>libs/interfaces/src/link.rs\<close>. A measurement keeps its machine width;
  signed ones are words read with \<^term>\<open>sint\<close>.
\<close>

datatype link_error =
    Io | TransmitFailed | NotPresent | ReceiveFailed | BufferFull | InvalidPacket | MalformedFrame

record link_metrics =
  lm_rssi_dbm :: "16 word option"
  lm_snr_db :: "8 word option"
  lm_quality :: "u8 option"

definition link_metrics_default :: link_metrics where
  "link_metrics_default = \<lparr>lm_rssi_dbm = None, lm_snr_db = None, lm_quality = None\<rparr>"

end
