(* ===== verification/Fragment.thy ===== *)
theory Fragment
  imports Link Heapless
begin

text \<open>
  Fragmentation and reassembly for small-MTU media, \<^verbatim>\<open>libs/wayfinder-link-utils/src\<close>: the
  two-byte fragment header, the bounded reassembly table and the cutting of a frame. The const
  parameters of the generic code are the fields of \<open>frag_profile\<close>; \<open>None\<close> is a panic (an
  index out of bounds, an overflowing shift or addition, a failed \<^verbatim>\<open>debug_assert\<close>).

  The reassembly table is shown to refine \<open>collect\<close>, which only remembers which indices of
  each message have arrived: whatever the order, the duplication and the interleaving of the
  fragments, a frame is handed over exactly when its last index arrives, and unchanged.
\<close>

section \<open>The fragment header\<close>

definition FRAG_HDR_LEN :: nat where
  "FRAG_HDR_LEN = 2"

definition MAX_FRAGMENTS :: nat where
  "MAX_FRAGMENTS = 15"

definition pack_header :: "u8 \<Rightarrow> nat \<Rightarrow> nat \<Rightarrow> bytes option" where
  "pack_header msg_id index count =
     (if \<not> (1 \<le> count \<and> count \<le> MAX_FRAGMENTS) \<or> \<not> index < count then None
      else Some [msg_id, push_bit 4 (word_of_nat index) OR word_of_nat count])"

record 'a frag_key =
  fk_addr :: 'a
  fk_msg_id :: u8

record frag_header =
  fh_msg_id :: u8
  fh_index :: u8
  fh_count :: u8

definition parse_fragment :: "bytes \<Rightarrow> (frag_header \<times> bytes) option" where
  "parse_fragment bs =
     (if length bs < FRAG_HDR_LEN then None
      else let msg_id = bs ! 0; index = drop_bit 4 (bs ! 1); count = bs ! 1 AND 0x0F in
           if count = 0 \<or> index \<ge> count then None
           else Some (\<lparr>fh_msg_id = msg_id, fh_index = index, fh_count = count\<rparr>, drop FRAG_HDR_LEN bs))"

section \<open>The reassembly table\<close>

record frag_profile =
  fp_max_reassemblies :: nat
  fp_frag_payload :: nat
  fp_max_reassembled_len :: nat

record 'a reassembly =
  re_key :: "'a frag_key"
  re_count :: u8
  re_have :: u16
  re_len :: nat
  re_buf :: bytes
  re_metrics :: link_metrics

definition reassembly_new :: "frag_profile \<Rightarrow> 'a frag_key \<Rightarrow> u8 \<Rightarrow> 'a reassembly" where
  "reassembly_new P key count =
     \<lparr>re_key = key, re_count = count, re_have = 0, re_len = 0,
      re_buf = replicate (fp_max_reassembled_len P) 0, re_metrics = link_metrics_default\<rparr>"

text \<open>\<^verbatim>\<open>1u16 << n\<close> panics for a shift of the width or more.\<close>

definition shl_u16_one :: "u8 \<Rightarrow> u16 option" where
  "shl_u16_one n = (if n < 16 then Some (push_bit (unat n) 1) else None)"

definition is_complete :: "'a reassembly \<Rightarrow> bool option" where
  "is_complete e = do { full \<leftarrow> shl_u16_one (re_count e);
                        let full_mask = full - 1;
                        Some (re_have e AND full_mask = full_mask) }"

text \<open>The table is the vector of its entries, oldest first; \<open>reassembler_ok\<close> is what \<^verbatim>\<open>new\<close> asserts.\<close>

type_synonym 'a reassembler = "'a reassembly list"

definition reassembler_ok :: "frag_profile \<Rightarrow> bool" where
  "reassembler_ok P \<longleftrightarrow> 0 < fp_max_reassemblies P
     \<and> fp_max_reassembled_len P \<le> MAX_FRAGMENTS * fp_frag_payload P
     \<and> fp_frag_payload P \<le> fp_max_reassembled_len P"

definition reassembler_new :: "'a reassembler" where
  "reassembler_new = []"

definition vec_remove :: "nat \<Rightarrow> 'a list \<Rightarrow> ('a \<times> 'a list) option" where
  "vec_remove i xs = (if i < length xs then Some (xs ! i, take i xs @ drop (Suc i) xs) else None)"

definition div_ceil :: "nat \<Rightarrow> nat \<Rightarrow> nat option" where
  "div_ceil a b = (if b = 0 then None else Some ((a + b - 1) div b))"

text \<open>The slot of a fragment: its entry, reset when the count differs, or a new last entry.\<close>

definition reassembly_slot :: "frag_profile \<Rightarrow> 'a frag_key \<Rightarrow> u8 \<Rightarrow> 'a reassembler \<Rightarrow> (nat \<times> 'a reassembler) option" where
  "reassembly_slot P key count es =
     (case position (\<lambda>e. re_key e = key) es of
        Some i \<Rightarrow> if re_count (es ! i) = count then Some (i, es) else Some (i, es[i := reassembly_new P key count])
      | None \<Rightarrow>
          do { es \<leftarrow> (if length es = fp_max_reassemblies P then map_option snd (vec_remove 0 es) else Some es);
               es \<leftarrow> vec_push (fp_max_reassemblies P) (reassembly_new P key count) es;
               Some (length es - 1, es) })"

text \<open>Storing one fragment in its entry; a repeated index only refreshes the metrics.\<close>

definition reassembly_store :: "nat \<Rightarrow> u16 \<Rightarrow> bytes \<Rightarrow> link_metrics \<Rightarrow> 'a reassembly \<Rightarrow> 'a reassembly option" where
  "reassembly_store off b body metrics e =
     do { e \<leftarrow> (if re_have e AND b = 0
                then do { buf \<leftarrow> copy_into (re_buf e) off body;
                          Some (e\<lparr>re_buf := buf, re_have := re_have e OR b, re_len := max (re_len e) (off + length body)\<rparr>) }
                else Some e);
          Some (e\<lparr>re_metrics := metrics\<rparr>) }"

definition accept :: "frag_profile \<Rightarrow> 'a frag_key \<Rightarrow> frag_header \<Rightarrow> bytes \<Rightarrow> link_metrics \<Rightarrow> bytes \<Rightarrow> 'a reassembler
    \<Rightarrow> ((nat \<times> link_metrics) option \<times> bytes \<times> 'a reassembler) option" where
  "accept P key hdr body metrics out es =
     (let off = unat (fh_index hdr) * fp_frag_payload P in
      if fh_index hdr = - 1 then None
      else let is_final = (fh_index hdr + 1 = fh_count hdr) in
      if fh_count hdr = 0 \<or> fh_index hdr \<ge> fh_count hdr then Some (None, out, es)
      else do {
        limit \<leftarrow> div_ceil (fp_max_reassembled_len P) (fp_frag_payload P);
        if unat (fh_count hdr) > limit
           \<or> length body > fp_frag_payload P
           \<or> (\<not> is_final \<and> length body \<noteq> fp_frag_payload P)
           \<or> off + length body > fp_max_reassembled_len P
        then Some (None, out, es)
        else do {
          (slot, es) \<leftarrow> reassembly_slot P key (fh_count hdr) es;
          b \<leftarrow> shl_u16_one (fh_index hdr);
          entry \<leftarrow> reassembly_store off b body metrics (es ! slot);
          complete \<leftarrow> is_complete entry;
          if complete
          then do { (entry, es) \<leftarrow> vec_remove slot (es[slot := entry]);
                    content \<leftarrow> get_range (re_buf entry) 0 (re_len entry);
                    out \<leftarrow> copy_into out 0 content;
                    Some (Some (re_len entry, re_metrics entry), out, es) }
          else Some (None, out, es[slot := entry]) } })"

section \<open>Cutting a frame\<close>

definition LINK_HEADER_LEN :: nat where
  "LINK_HEADER_LEN = 14"

fun short_address_of :: "mac \<Rightarrow> u16" where
  "short_address_of (Mac a b c d e f) = u16_of_be e f"

definition decode_frame :: "bytes \<Rightarrow> link_error + link_frame" where
  "decode_frame bs = (case link_frame_ref_from_bytes bs of Some f \<Rightarrow> Inr f | None \<Rightarrow> Inl MalformedFrame)"

definition MAX_PAYLOAD_LEN :: "frag_profile \<Rightarrow> nat" where
  "MAX_PAYLOAD_LEN P = fp_max_reassembled_len P - LINK_HEADER_LEN"

definition assemble_frame :: "frag_profile \<Rightarrow> mac \<Rightarrow> frame_data \<Rightarrow> bytes \<Rightarrow> ((link_error + nat) \<times> bytes) option" where
  "assemble_frame P origin data out =
     (if length (fd_payload data) > MAX_PAYLOAD_LEN P then Some (Inl BufferFull, out)
      else let total = LINK_HEADER_LEN + length (fd_payload data) in
      if length out < total then Some (Inl BufferFull, out)
      else do { out \<leftarrow> copy_into out 0 (mac_bytes (fd_dst data));
                out \<leftarrow> copy_into out 6 (mac_bytes origin);
                out \<leftarrow> copy_into out 12 (u16_to_be (fd_protocol data));
                out \<leftarrow> copy_into out 14 (fd_payload data);
                Some (Inr total, out) })"

definition fragment_count :: "frag_profile \<Rightarrow> nat \<Rightarrow> (link_error + nat) option" where
  "fragment_count P frame_len =
     do { n \<leftarrow> div_ceil frame_len (fp_frag_payload P);
          let count = max n 1;
          Some (if count > MAX_FRAGMENTS then Inl BufferFull else Inr count) }"

definition fragment_body :: "frag_profile \<Rightarrow> bytes \<Rightarrow> nat \<Rightarrow> nat \<Rightarrow> (link_error + bytes) option" where
  "fragment_body P frame index count =
     (if \<not> (1 \<le> count \<and> count \<le> MAX_FRAGMENTS) \<or> index \<ge> count then Some (Inl InvalidPacket)
      else do {
        r \<leftarrow> fragment_count P (length frame);
        case r of
          Inl err \<Rightarrow> Some (Inl err)
        | Inr n \<Rightarrow>
            if count \<noteq> n then Some (Inl InvalidPacket)
            else let start = index * fp_frag_payload P;
                     end = min (start + fp_frag_payload P) (length frame)
                 in map_option Inr (get_range frame start end) })"

section \<open>The header on the wire\<close>

lemma nibbles:
  fixes i c :: nat
  assumes "i < 16" "c < 16"
  shows "drop_bit 4 (push_bit 4 (word_of_nat i) OR word_of_nat c :: u8) = word_of_nat i"
    and "(push_bit 4 (word_of_nat i) OR word_of_nat c :: u8) AND 0x0F = word_of_nat c"
proof -
  have m: "(0x0F :: u8) = mask 4" by (simp add: mask_eq_exp_minus_1)
  have b: "bit (word_of_nat n :: u8) k \<longleftrightarrow> k < 4 \<and> bit n k" if "n < 16" for n k :: nat
  proof (cases "k < 4")
    case False
    have "(16 :: nat) \<le> 2 ^ k" using False power_increasing [of 4 k "2 :: nat"] by simp
    then have "\<not> bit n k" using that by (simp add: bit_iff_odd)
    then show ?thesis using False by (simp add: bit_simps)
  qed (simp add: bit_simps)
  show "drop_bit 4 (push_bit 4 (word_of_nat i) OR word_of_nat c :: u8) = word_of_nat i"
  proof (rule bit_word_eqI)
    fix k
    show "bit (drop_bit 4 (push_bit 4 (word_of_nat i) OR word_of_nat c :: u8)) k = bit (word_of_nat i :: u8) k"
      using b [OF assms(1), of k] b [OF assms(2), of "4 + k"]
      by (simp add: bit_drop_bit_eq bit_or_iff bit_push_bit_iff)
  qed
  show "(push_bit 4 (word_of_nat i) OR word_of_nat c :: u8) AND 0x0F = word_of_nat c"
  proof (rule bit_word_eqI)
    fix k
    show "bit ((push_bit 4 (word_of_nat i) OR word_of_nat c :: u8) AND 0x0F) k = bit (word_of_nat c :: u8) k"
      using b [OF assms(1), of "k - 4"] b [OF assms(2), of k]
      by (auto simp: m bit_and_iff bit_mask_iff bit_or_iff bit_push_bit_iff)
  qed
qed

definition arrival_header :: "u8 \<Rightarrow> nat \<Rightarrow> nat \<Rightarrow> frag_header" where
  "arrival_header m i c = \<lparr>fh_msg_id = m, fh_index = word_of_nat i, fh_count = word_of_nat c\<rparr>"

lemma parse_pack:
  assumes "i < c" "c \<le> MAX_FRAGMENTS"
  shows "\<exists>h. pack_header m i c = Some h \<and> length h = FRAG_HDR_LEN
    \<and> parse_fragment (h @ body) = Some (arrival_header m i c, body)"
proof -
  have c: "i < 16" "c < 16" using assms by (auto simp: MAX_FRAGMENTS_def)
  then have "(word_of_nat c :: u8) \<noteq> 0" "\<not> (word_of_nat c :: u8) \<le> word_of_nat i"
    using assms by (auto simp: word_eq_iff_unsigned word_le_nat_alt unat_of_nat simp flip: unat_eq_zero)
  then show ?thesis
    using assms nibbles [OF c] by (simp add: pack_header_def parse_fragment_def FRAG_HDR_LEN_def arrival_header_def)
qed

section \<open>The fragments of a frame\<close>

definition frag_ok :: "frag_profile \<Rightarrow> bool" where
  "frag_ok P \<longleftrightarrow> reassembler_ok P \<and> 0 < fp_frag_payload P"

definition nfrags :: "frag_profile \<Rightarrow> bytes \<Rightarrow> nat" where
  "nfrags P fr = max ((length fr + fp_frag_payload P - 1) div fp_frag_payload P) 1"

definition frag :: "frag_profile \<Rightarrow> bytes \<Rightarrow> nat \<Rightarrow> bytes" where
  "frag P fr i = take (fp_frag_payload P) (drop (i * fp_frag_payload P) fr)"

lemma ceil_less:
  fixes a b :: nat
  assumes "0 < b"
  shows "i < (a + b - 1) div b \<longleftrightarrow> i * b < a"
proof -
  have "i < (a + b - 1) div b \<longleftrightarrow> (i + 1) * b \<le> a + b - 1"
    using assms by (metis Suc_eq_plus1 Suc_le_eq less_eq_div_iff_mult_less_eq)
  then show ?thesis using assms by (auto simp: algebra_simps)
qed

lemma nfrags_less:
  assumes "frag_ok P"
  shows "i < nfrags P fr \<longleftrightarrow> i = 0 \<or> i * fp_frag_payload P < length fr"
  using ceil_less [of "fp_frag_payload P" i "length fr"] assms by (auto simp: nfrags_def frag_ok_def less_max_iff_disj)

lemma nfrags_pos: "0 < nfrags P fr"
  by (simp add: nfrags_def)

lemma nfrags_limit:
  assumes "frag_ok P" "length fr \<le> fp_max_reassembled_len P"
  shows "div_ceil (fp_max_reassembled_len P) (fp_frag_payload P)
      = Some ((fp_max_reassembled_len P + fp_frag_payload P - 1) div fp_frag_payload P)"
    and "nfrags P fr \<le> (fp_max_reassembled_len P + fp_frag_payload P - 1) div fp_frag_payload P"
    and "nfrags P fr \<le> MAX_FRAGMENTS"
proof -
  have F: "0 < fp_frag_payload P" "fp_frag_payload P \<le> fp_max_reassembled_len P"
      "fp_max_reassembled_len P \<le> MAX_FRAGMENTS * fp_frag_payload P"
    using assms(1) by (auto simp: frag_ok_def reassembler_ok_def)
  show "div_ceil (fp_max_reassembled_len P) (fp_frag_payload P)
      = Some ((fp_max_reassembled_len P + fp_frag_payload P - 1) div fp_frag_payload P)"
    using F by (simp add: div_ceil_def)
  have "1 \<le> (fp_max_reassembled_len P + fp_frag_payload P - 1) div fp_frag_payload P"
    using ceil_less [OF F(1), of 0 "fp_max_reassembled_len P"] F by linarith
  then show "nfrags P fr \<le> (fp_max_reassembled_len P + fp_frag_payload P - 1) div fp_frag_payload P"
    unfolding nfrags_def using assms(2) by (intro max.boundedI div_le_mono) auto
  moreover have "\<not> MAX_FRAGMENTS < (fp_max_reassembled_len P + fp_frag_payload P - 1) div fp_frag_payload P"
    using ceil_less [OF F(1), of MAX_FRAGMENTS] F(3) by simp
  ultimately show "nfrags P fr \<le> MAX_FRAGMENTS" by linarith
qed

lemma frag_end:
  assumes "frag_ok P" "i < nfrags P fr"
  shows "i * fp_frag_payload P + length (frag P fr i) \<le> length fr"
    and "i = nfrags P fr - 1 \<Longrightarrow> i * fp_frag_payload P + length (frag P fr i) = length fr"
    and "i \<noteq> nfrags P fr - 1 \<Longrightarrow> length (frag P fr i) = fp_frag_payload P"
    and "length (frag P fr i) \<le> fp_frag_payload P"
proof -
  let ?F = "fp_frag_payload P"
  have s: "i * ?F \<le> length fr" using nfrags_less [OF assms(1), of i fr] assms(2) by auto
  have l: "length (frag P fr i) = min ?F (length fr - i * ?F)" by (simp add: frag_def min.commute)
  show "i * ?F + length (frag P fr i) \<le> length fr" using s l by simp
  show "length (frag P fr i) \<le> ?F" using l by simp
  show "i * ?F + length (frag P fr i) = length fr" if "i = nfrags P fr - 1"
  proof -
    have "\<not> Suc i < nfrags P fr" using that by simp
    then have "length fr \<le> Suc i * ?F" using nfrags_less [OF assms(1), of "Suc i" fr] by simp
    then show ?thesis using s l by simp
  qed
  show "length (frag P fr i) = ?F" if "i \<noteq> nfrags P fr - 1"
  proof -
    have "Suc i < nfrags P fr" using that assms(2) by simp
    then have "Suc i * ?F < length fr" using nfrags_less [OF assms(1), of "Suc i" fr] by simp
    then show ?thesis using l by simp
  qed
qed

lemma fragment_count_nfrags:
  assumes "frag_ok P" "length fr \<le> fp_max_reassembled_len P"
  shows "fragment_count P (length fr) = Some (Inr (nfrags P fr))"
  using assms nfrags_limit(3) [OF assms] by (simp add: fragment_count_def div_ceil_def nfrags_def frag_ok_def Let_def not_less)

lemma fragment_body_frag:
  assumes "frag_ok P" "length fr \<le> fp_max_reassembled_len P" "i < nfrags P fr"
  shows "fragment_body P fr i (nfrags P fr) = Some (Inr (frag P fr i))"
proof -
  let ?F = "fp_frag_payload P"
  have "i * ?F \<le> length fr" using frag_end(1) [OF assms(1,3)] by simp
  then have "get_range fr (i * ?F) (min (i * ?F + ?F) (length fr)) = Some (frag P fr i)"
    by (auto simp: get_range_def frag_def min_def)
  then show ?thesis
    using assms(3) nfrags_limit(3) [OF assms(1,2)] fragment_count_nfrags [OF assms(1,2)]
    by (simp add: fragment_body_def Let_def)
qed

text \<open>The bytes that are cut: \<open>assemble_frame\<close> into a buffer of the largest size.\<close>

definition assembled :: "frag_profile \<Rightarrow> mac \<times> frame_data \<Rightarrow> bytes" where
  "assembled P = (\<lambda>(origin, data).
     case assemble_frame P origin data (replicate (fp_max_reassembled_len P) 0) of
       Some (Inr n, out) \<Rightarrow> take n out
     | _ \<Rightarrow> [])"

lemma assembled_eq:
  assumes "14 \<le> fp_max_reassembled_len P" "length (fd_payload data) \<le> MAX_PAYLOAD_LEN P"
  shows "assembled P (origin, data) = eth_frame (fd_dst data) origin (fd_protocol data) (fd_payload data)"
proof -
  have l: "14 + length (fd_payload data) \<le> fp_max_reassembled_len P"
    using assms by (simp add: MAX_PAYLOAD_LEN_def LINK_HEADER_LEN_def)
  then have "assemble_frame P origin data (replicate (fp_max_reassembled_len P) 0) =
     Some (Inr (14 + length (fd_payload data)), eth_frame (fd_dst data) origin (fd_protocol data) (fd_payload data)
        @ replicate (fp_max_reassembled_len P - 14 - length (fd_payload data)) 0)"
    using assms(2) by (simp add: assemble_frame_def LINK_HEADER_LEN_def copy_into_def eth_frame_def Let_def)
  moreover have "length (eth_frame (fd_dst data) origin (fd_protocol data) (fd_payload data)) = 14 + length (fd_payload data)"
    by (simp add: ETH_HEADER_LEN_def)
  ultimately show ?thesis by (simp add: assembled_def)
qed

lemma assembled_decodes:
  assumes "14 \<le> fp_max_reassembled_len P" "length (fd_payload data) \<le> MAX_PAYLOAD_LEN P"
  shows "length (assembled P (origin, data)) \<le> fp_max_reassembled_len P"
    and "decode_frame (assembled P (origin, data)) =
      Inr \<lparr>lf_dst = fd_dst data, lf_src = origin, lf_protocol = fd_protocol data, lf_payload = fd_payload data\<rparr>"
  using assembled_eq [OF assms, of origin] assms
  by (simp_all add: decode_frame_def ETH_HEADER_LEN_def MAX_PAYLOAD_LEN_def LINK_HEADER_LEN_def)

section \<open>One entry of the table\<close>

text \<open>
  The entry of a message of which the indices \<open>S\<close> have arrived: the bits of \<^verbatim>\<open>have\<close>, the bytes
  of the buffer at those indices, and the length once the last fragment is there.
\<close>

definition entry_ok :: "frag_profile \<Rightarrow> bytes \<Rightarrow> nat set \<Rightarrow> 'a reassembly \<Rightarrow> bool" where
  "entry_ok P fr S e \<longleftrightarrow> re_count e = word_of_nat (nfrags P fr) \<and> (\<forall>i<16. bit (re_have e) i \<longleftrightarrow> i \<in> S)
     \<and> S \<subseteq> {0..<nfrags P fr} \<and> length (re_buf e) = fp_max_reassembled_len P
     \<and> (\<forall>j<length fr. j div fp_frag_payload P \<in> S \<longrightarrow> re_buf e ! j = fr ! j)
     \<and> re_len e \<le> length fr \<and> (nfrags P fr - 1 \<in> S \<longrightarrow> re_len e = length fr)"

lemma entry_ok_new: "entry_ok P fr {} (reassembly_new P k (word_of_nat (nfrags P fr)))"
  by (simp add: entry_ok_def reassembly_new_def)

lemma frag_ok_pos: "frag_ok P \<Longrightarrow> 0 < fp_frag_payload P"
  by (simp add: frag_ok_def)

lemma store_buffer:
  assumes F: "0 < fp_frag_payload P" and len: "length buf = m" "length fr \<le> m" and i: "i * fp_frag_payload P + length (frag P fr i) \<le> length fr"
    and old: "\<forall>j<length fr. j div fp_frag_payload P \<in> S \<longrightarrow> buf ! j = fr ! j"
    and fin: "length (frag P fr i) = fp_frag_payload P \<or> i * fp_frag_payload P + length (frag P fr i) = length fr"
  shows "\<exists>buf'. copy_into buf (i * fp_frag_payload P) (frag P fr i) = Some buf' \<and> length buf' = m
    \<and> (\<forall>j<length fr. j div fp_frag_payload P \<in> insert i S \<longrightarrow> buf' ! j = fr ! j)"
proof -
  let ?o = "i * fp_frag_payload P"
  let ?b = "take ?o buf @ frag P fr i @ drop (?o + length (frag P fr i)) buf"
  have c: "copy_into buf ?o (frag P fr i) = Some ?b" using i len by (intro copy_into_Some) simp
  have "?b ! j = fr ! j" if j: "j < length fr" "j div fp_frag_payload P \<in> insert i S" for j
  proof (cases "?o \<le> j \<and> j < ?o + length (frag P fr i)")
    case True
    then have "\<not> j < ?o" "j - ?o < length (frag P fr i)" by linarith+
    then have "?b ! j = frag P fr i ! (j - ?o)" using i len by (simp add: nth_append min_def)
    also have "\<dots> = fr ! j" using True i by (auto simp: frag_def)
    finally show ?thesis .
  next
    case False
    have "j div fp_frag_payload P \<noteq> i"
    proof
      assume "j div fp_frag_payload P = i"
      then have "?o \<le> j" "j < ?o + fp_frag_payload P"
        using dividend_less_div_times [OF F, of j] by (auto simp: add.commute)
      then show False using False fin j(1) by auto
    qed
    then show ?thesis using old j False i len by (auto simp: nth_append min_def)
  qed
  then show ?thesis using c copy_into_length [OF c] len by auto
qed

lemma store_ok:
  assumes "frag_ok P" "length fr \<le> fp_max_reassembled_len P" "i < nfrags P fr" "entry_ok P fr S e"
  shows "\<exists>e'. reassembly_store (i * fp_frag_payload P) (push_bit i 1) (frag P fr i) m e = Some e'
    \<and> entry_ok P fr (insert i S) e' \<and> re_metrics e' = m \<and> re_key e' = re_key e"
proof -
  note F = frag_ok_pos [OF assms(1)]
  have i16: "i < 16" using nfrags_limit(3) [OF assms(1,2)] assms(3) by (simp add: MAX_FRAGMENTS_def)
  show ?thesis
  proof (cases "i \<in> S")
    case True
    then have "re_have e AND push_bit i 1 \<noteq> 0" using assms(4) i16 by (simp add: and_exp_eq_0_iff_not_bit entry_ok_def)
    then show ?thesis using assms(4) True by (simp add: reassembly_store_def entry_ok_def insert_absorb)
  next
    case False
    then have h: "re_have e AND push_bit i 1 = 0" using assms(4) i16 by (simp add: and_exp_eq_0_iff_not_bit entry_ok_def)
    obtain buf where buf: "copy_into (re_buf e) (i * fp_frag_payload P) (frag P fr i) = Some buf"
        "length buf = fp_max_reassembled_len P"
        "\<forall>j<length fr. j div fp_frag_payload P \<in> insert i S \<longrightarrow> buf ! j = fr ! j"
      using store_buffer [OF F, of "re_buf e" "fp_max_reassembled_len P" fr i S] assms frag_end [OF assms(1,3)]
      by (auto simp: entry_ok_def)
    have bits: "\<forall>j<16. bit (re_have e OR push_bit i 1) j \<longleftrightarrow> j \<in> insert i S"
      using assms(4) i16 by (auto simp: entry_ok_def bit_simps)
    show ?thesis
      using h buf bits assms(3,4) frag_end(1,2) [OF assms(1,3)]
      by (auto simp: reassembly_store_def entry_ok_def)
  qed
qed

lemma is_complete_iff:
  assumes "frag_ok P" "length fr \<le> fp_max_reassembled_len P" "entry_ok P fr S e"
  shows "is_complete e = Some (S = {0..<nfrags P fr})"
proof -
  let ?n = "nfrags P fr"
  have n: "?n < 16" using nfrags_limit(3) [OF assms(1,2)] by (simp add: MAX_FRAGMENTS_def)
  have c: "unat (re_count e) = ?n" using assms(3) n by (simp add: entry_ok_def unat_of_nat)
  then have "re_count e < 16" using n by (simp add: word_less_nat_alt)
  moreover have "push_bit ?n 1 - 1 = (mask ?n :: u16)" by (simp add: mask_eq_exp_minus_1 push_bit_eq_mult)
  moreover have "re_have e AND mask ?n = mask ?n \<longleftrightarrow> S = {0..<?n}"
  proof -
    have "re_have e AND mask ?n = mask ?n \<longleftrightarrow> (\<forall>i<?n. bit (re_have e) i)"
      using n by (auto simp: bit_eq_iff bit_simps dest: order_less_trans)
    then show ?thesis using assms(3) n by (auto simp: entry_ok_def)
  qed
  ultimately show ?thesis using c by (simp add: is_complete_def shl_u16_one_def)
qed

lemma complete_content:
  assumes "frag_ok P" "length fr \<le> fp_max_reassembled_len P" "entry_ok P fr {0..<nfrags P fr} e"
  shows "re_len e = length fr" "get_range (re_buf e) 0 (re_len e) = Some fr"
proof -
  show l: "re_len e = length fr" using assms(3) nfrags_pos [of P fr] by (auto simp: entry_ok_def)
  have "j div fp_frag_payload P < nfrags P fr" if "j < length fr" for j
  proof -
    have "j div fp_frag_payload P * fp_frag_payload P < length fr"
      using that by (meson div_times_less_eq_dividend order_le_less_trans)
    then show ?thesis using nfrags_less [OF assms(1)] by blast
  qed
  then have "take (length fr) (re_buf e) = fr"
    using assms(2,3) by (intro nth_equalityI) (auto simp: entry_ok_def)
  then show "get_range (re_buf e) 0 (re_len e) = Some fr" using assms(2,3) l by (simp add: get_range_def entry_ok_def)
qed

section \<open>The table\<close>

text \<open>\<open>tab\<close>: the indices \<open>got k\<close> of message \<open>k\<close> have arrived, and its entry says so.\<close>

definition tab :: "frag_profile \<Rightarrow> ('a frag_key \<Rightarrow> bytes) \<Rightarrow> ('a frag_key \<Rightarrow> nat set) \<Rightarrow> 'a reassembler \<Rightarrow> bool" where
  "tab P msg got es \<longleftrightarrow> distinct (map re_key es) \<and> (\<forall>k. got k \<noteq> {} \<longleftrightarrow> k \<in> re_key ` set es)
     \<and> (\<forall>e\<in>set es. entry_ok P (msg (re_key e)) (got (re_key e)) e)"

text \<open>
  With room for every key in use, the slot of a fragment is found or appended, and nothing is
  evicted: the other entries are the same.
\<close>

lemma slot_ok:
  assumes "tab P msg got es" "finite K" "k \<in> K" "{k. got k \<noteq> {}} \<subseteq> K" "card K \<le> fp_max_reassemblies P"
  shows "\<exists>i es'. reassembly_slot P k (word_of_nat (nfrags P (msg k))) es = Some (i, es') \<and> i < length es'
    \<and> re_key (es' ! i) = k \<and> entry_ok P (msg k) (got k) (es' ! i) \<and> distinct (map re_key es')
    \<and> set es' \<subseteq> insert (es' ! i) (set es) \<and> set es \<subseteq> set es'"
proof (cases "position (\<lambda>e. re_key e = k) es")
  case (Some i)
  then have i: "i < length es" "re_key (es ! i) = k" using position_Some [OF Some] by auto
  then have ok: "entry_ok P (msg k) (got k) (es ! i)" using assms(1) nth_mem [OF i(1)] by (force simp: tab_def)
  then have "re_count (es ! i) = word_of_nat (nfrags P (msg k))" by (simp add: entry_ok_def)
  then show ?thesis using Some i ok assms(1) by (auto simp: reassembly_slot_def tab_def)
next
  case None
  let ?e = "reassembly_new P k (word_of_nat (nfrags P (msg k)))"
  have nk: "k \<notin> re_key ` set es" using None by (auto simp: position_None)
  then have g: "got k = {}" using assms(1) by (auto simp: tab_def)
  have "re_key ` set es \<subseteq> K - {k}" using assms(1,4) nk by (auto simp: tab_def)
  then have "card (re_key ` set es) \<le> card (K - {k})" using assms(2) by (intro card_mono) auto
  moreover have "card (re_key ` set es) = length es" using assms(1) distinct_card [of "map re_key es"] by (simp add: tab_def)
  moreover have "card (K - {k}) < card K" using assms(2,3) by (rule card_Diff1_less)
  ultimately have "length es < fp_max_reassemblies P" using assms(5) by linarith
  then have "reassembly_slot P k (word_of_nat (nfrags P (msg k))) es = Some (length es, es @ [?e])"
    using None by (simp add: reassembly_slot_def vec_push_def)
  moreover have "re_key ?e = k" "entry_ok P (msg k) (got k) ?e" using g entry_ok_new by (simp_all add: reassembly_new_def)
  ultimately show ?thesis using assms(1) nk by (auto simp: tab_def nth_append)
qed

lemma distinct_keys_at:
  assumes "distinct (map f xs)" "i < length xs" "x \<in> set xs" "f x = f (xs ! i)"
  shows "x = xs ! i"
  using assms by (metis distinct_map inj_onD nth_mem)

lemma tab_store:
  assumes "tab P msg got es" "i < length es'" "re_key (es' ! i) = k" "distinct (map re_key es')"
    and "set es' \<subseteq> insert (es' ! i) (set es)" "set es \<subseteq> set es'"
    and "entry_ok P (msg k) S e" "re_key e = k" "S \<noteq> {}"
  shows "tab P msg (got(k := S)) (es'[i := e])"
proof -
  have m: "map re_key (es'[i := e]) = map re_key es'"
    using assms(2,3,8) by (metis list_update_id map_update nth_map)
  have o: "x \<in> set es" if "x \<in> set es'" "re_key x \<noteq> k" for x using that assms(3,5) by auto
  have keys: "re_key ` set (es'[i := e]) = insert k (re_key ` set es)"
  proof -
    have "re_key ` set (es'[i := e]) = re_key ` set es'" using arg_cong [OF m, of set] by simp
    moreover have "set es' = insert (es' ! i) (set es)" using assms(5,6) nth_mem [OF assms(2)] by blast
    ultimately show ?thesis using assms(3) by simp
  qed
  have "entry_ok P (msg (re_key x)) ((got(k := S)) (re_key x)) x" if x: "x \<in> set (es'[i := e])" for x
  proof (cases "x = e")
    case True
    then show ?thesis using assms(7,8) by simp
  next
    case False
    then obtain j where j: "j < length es'" "j \<noteq> i" "x = es' ! j"
    proof -
      obtain j where "j < length es'" "x = es'[i := e] ! j" using x by (auto simp: in_set_conv_nth)
      then show thesis using that [of j] False by (cases "j = i") simp_all
    qed
    then have "re_key x \<noteq> k" using assms(2-4) by (auto simp: distinct_conv_nth)
    then show ?thesis using o [of x] j assms(1) by (simp add: tab_def)
  qed
  then show ?thesis using assms(1,4,9) m keys by (auto simp: tab_def)
qed

lemma tab_remove:
  assumes "tab P msg got es" "i < length es'" "re_key (es' ! i) = k" "distinct (map re_key es')"
    and "set es' \<subseteq> insert (es' ! i) (set es)" "set es \<subseteq> set es'"
  shows "tab P msg (got(k := {})) (take i es' @ drop (Suc i) es')"
proof -
  have s: "es' = take i es' @ es' ! i # drop (Suc i) es'" by (rule id_take_nth_drop [OF assms(2)])
  let ?r = "take i es' @ drop (Suc i) es'"
  have d: "distinct (map re_key ?r)" "k \<notin> re_key ` set ?r"
    using assms(3,4) by (subst (asm) (2) s; force)+
  have set: "set es' = insert (es' ! i) (set ?r)" by (subst s) auto
  have ne: "re_key x \<noteq> k" if "x \<in> set ?r" for x using d(2) that by (metis image_eqI)
  have "set ?r = {x \<in> set es. re_key x \<noteq> k}"
  proof
    show "set ?r \<subseteq> {x \<in> set es. re_key x \<noteq> k}" using assms(3,5) ne set by blast
    show "{x \<in> set es. re_key x \<noteq> k} \<subseteq> set ?r" using assms(3,6) set by auto
  qed
  then show ?thesis using assms(1) d by (auto simp: tab_def)
qed

text \<open>One conforming fragment: the table follows the set of indices.\<close>

lemma accept_ok:
  assumes P: "frag_ok P" and len: "length (msg k) \<le> fp_max_reassembled_len P" and i: "i < nfrags P (msg k)"
    and t: "tab P msg got es" and K: "finite K" "k \<in> K" "{k. got k \<noteq> {}} \<subseteq> K" "card K \<le> fp_max_reassemblies P"
    and out: "fp_max_reassembled_len P \<le> length out"
  shows "\<exists>es'. accept P k (arrival_header (fk_msg_id k) i (nfrags P (msg k))) (frag P (msg k) i) m out es =
      Some (if insert i (got k) = {0..<nfrags P (msg k)}
            then (Some (length (msg k), m), msg k @ drop (length (msg k)) out, es')
            else (None, out, es'))
    \<and> tab P msg (got(k := if insert i (got k) = {0..<nfrags P (msg k)} then {} else insert i (got k))) es'"
proof -
  let ?fr = "msg k" and ?F = "fp_frag_payload P"
  let ?n = "nfrags P ?fr"
  let ?h = "arrival_header (fk_msg_id k) i ?n"
  note lim = nfrags_limit [OF P len]
  have n16: "?n < 16" "i < 16" using lim(3) i by (auto simp: MAX_FRAGMENTS_def)
  have h: "unat (fh_index ?h) = i" "unat (fh_count ?h) = ?n" using n16 by (simp_all add: arrival_header_def unat_of_nat)
  have hne: "fh_index ?h \<noteq> - 1" "fh_count ?h \<noteq> 0" "\<not> fh_index ?h \<ge> fh_count ?h" "fh_index ?h < 16"
    using n16 i h by (auto simp: word_le_nat_alt word_less_nat_alt unat_minus_one_word' dest!: arg_cong [of _ _ unat])
  have fin: "fh_index ?h + 1 = fh_count ?h \<longleftrightarrow> i = ?n - 1"
  proof -
    have "unat (fh_index ?h + 1) = i + 1" using n16 h by (simp add: unat_word_ariths)
    then show ?thesis using i h(2) by (auto simp: word_unat_eq_iff)
  qed
  note fe = frag_end [OF P i]
  have guard: "\<not> (unat (fh_count ?h) > (fp_max_reassembled_len P + ?F - 1) div ?F \<or> length (frag P ?fr i) > ?F
      \<or> (fh_index ?h + 1 \<noteq> fh_count ?h \<and> length (frag P ?fr i) \<noteq> ?F)
      \<or> i * ?F + length (frag P ?fr i) > fp_max_reassembled_len P)"
    using fe len lim(2) h fin by auto
  obtain j es1 where s: "reassembly_slot P k (word_of_nat ?n) es = Some (j, es1)" "j < length es1" "re_key (es1 ! j) = k"
      "entry_ok P ?fr (got k) (es1 ! j)" "distinct (map re_key es1)" "set es1 \<subseteq> insert (es1 ! j) (set es)" "set es \<subseteq> set es1"
    using slot_ok [OF t K] by metis
  obtain e where e: "reassembly_store (i * ?F) (push_bit i 1) (frag P ?fr i) m (es1 ! j) = Some e"
      "entry_ok P ?fr (insert i (got k)) e" "re_metrics e = m" "re_key e = k"
    using store_ok [OF P len i s(4)] s(3) by metis
  have c: "is_complete e = Some (insert i (got k) = {0..<?n})" by (rule is_complete_iff [OF P len e(2)])
  have a: "accept P k ?h (frag P ?fr i) m out es =
      (if insert i (got k) = {0..<?n}
       then do { (entry, es) \<leftarrow> vec_remove j (es1[j := e]);
                 content \<leftarrow> get_range (re_buf entry) 0 (re_len entry);
                 out \<leftarrow> copy_into out 0 content;
                 Some (Some (re_len entry, re_metrics entry), out, es) }
       else Some (None, out, es1[j := e]))"
    using hne h guard lim(1) s(1) e(1) c
    by (simp add: accept_def shl_u16_one_def arrival_header_def [of _ _ ?n] del: de_Morgan_disj)
  show ?thesis
  proof (cases "insert i (got k) = {0..<?n}")
    case True
    then have cc: "re_len e = length ?fr" "get_range (re_buf e) 0 (re_len e) = Some ?fr"
      using complete_content [OF P len] e(2) by simp_all
    let ?es = "take j es1 @ drop (Suc j) es1"
    have "vec_remove j (es1[j := e]) = Some (e, ?es)" using s(2) by (simp add: vec_remove_def)
    moreover have "copy_into out 0 ?fr = Some (?fr @ drop (length ?fr) out)" using out len by (simp add: copy_into_def)
    ultimately have "accept P k ?h (frag P ?fr i) m out es = Some (Some (length ?fr, m), ?fr @ drop (length ?fr) out, ?es)"
      using a True cc e(3) by simp
    moreover have "tab P msg (got(k := {})) ?es" by (rule tab_remove [OF t s(2,3,5-7)])
    ultimately show ?thesis using True by simp
  next
    case False
    then show ?thesis using a tab_store [OF t s(2,3,5-7) e(2,4)] by simp
  qed
qed

section \<open>Any order, any duplication, any interleaving\<close>

text \<open>What the table is for: \<open>True\<close> where the last missing index of a message arrives.\<close>

fun collect :: "('k \<Rightarrow> nat) \<Rightarrow> ('k \<Rightarrow> nat set) \<Rightarrow> ('k \<times> nat) list \<Rightarrow> bool list" where
  "collect n got [] = []"
| "collect n got ((k, i) # as) =
     (let full = (insert i (got k) = {0..<n k})
      in full # collect n (got(k := if full then {} else insert i (got k))) as)"

text \<open>A sequence of received fragments, with the frames handed over.\<close>

fun feed :: "frag_profile \<Rightarrow> ('a frag_key \<times> frag_header \<times> bytes \<times> link_metrics) list \<Rightarrow> bytes \<Rightarrow> 'a reassembler
    \<Rightarrow> ((bytes \<times> link_metrics) option list \<times> 'a reassembler) option" where
  "feed P [] out es = Some ([], es)"
| "feed P ((k, hdr, body, m) # as) out es =
     do { (r, out, es) \<leftarrow> accept P k hdr body m out es;
          (rs, es) \<leftarrow> feed P as out es;
          Some (map_option (\<lambda>(n, m). (take n out, m)) r # rs, es) }"

definition fragment_of :: "frag_profile \<Rightarrow> ('a frag_key \<Rightarrow> bytes) \<Rightarrow> 'a frag_key \<times> nat \<times> link_metrics
    \<Rightarrow> 'a frag_key \<times> frag_header \<times> bytes \<times> link_metrics" where
  "fragment_of P msg = (\<lambda>(k, i, m). (k, arrival_header (fk_msg_id k) i (nfrags P (msg k)), frag P (msg k) i, m))"

definition handed_over :: "('a frag_key \<Rightarrow> bytes) \<Rightarrow> 'a frag_key \<times> nat \<times> link_metrics \<Rightarrow> bool \<Rightarrow> (bytes \<times> link_metrics) option" where
  "handed_over msg = (\<lambda>(k, i, m) done. if done then Some (msg k, m) else None)"

lemma feed_collect:
  assumes "frag_ok P" "tab P msg got es" "finite K" "{k. got k \<noteq> {}} \<subseteq> K" "card K \<le> fp_max_reassemblies P"
    and "fp_max_reassembled_len P \<le> length out"
    and "\<forall>(k, i, m)\<in>set as. k \<in> K \<and> length (msg k) \<le> fp_max_reassembled_len P \<and> i < nfrags P (msg k)"
  shows "\<exists>es'. feed P (map (fragment_of P msg) as) out es =
    Some (map2 (handed_over msg) as (collect (\<lambda>k. nfrags P (msg k)) got (map (\<lambda>(k, i, m). (k, i)) as)), es')"
  using assms(2,4,6,7)
proof (induction as arbitrary: got es out)
  case Nil
  then show ?case by simp
next
  case (Cons a as)
  obtain k i m where a: "a = (k, i, m)" by (cases a)
  have k: "k \<in> K" "length (msg k) \<le> fp_max_reassembled_len P" "i < nfrags P (msg k)" using Cons.prems(4) a by auto
  let ?full = "insert i (got k) = {0..<nfrags P (msg k)}"
  let ?got = "got(k := if ?full then {} else insert i (got k))"
  obtain es' where es': "accept P k (arrival_header (fk_msg_id k) i (nfrags P (msg k))) (frag P (msg k) i) m out es =
      Some (if ?full then (Some (length (msg k), m), msg k @ drop (length (msg k)) out, es') else (None, out, es'))"
      "tab P msg ?got es'"
    using accept_ok [OF assms(1) k(2,3) Cons.prems(1) assms(3) k(1) Cons.prems(2) assms(5) Cons.prems(3)] by metis
  have K: "{k. ?got k \<noteq> {}} \<subseteq> K" using Cons.prems(2) k(1) by auto
  have o: "fp_max_reassembled_len P \<le> length (msg k @ drop (length (msg k)) out)" using Cons.prems(3) k(2) by simp
  have r: "\<forall>(k, i, m)\<in>set as. k \<in> K \<and> length (msg k) \<le> fp_max_reassembled_len P \<and> i < nfrags P (msg k)"
    using Cons.prems(4) by simp
  show ?case
  proof -
    let ?out = "if ?full then msg k @ drop (length (msg k)) out else out"
    have "fp_max_reassembled_len P \<le> length ?out" using o Cons.prems(3) by simp
    then have "\<exists>es2. feed P (map (fragment_of P msg) as) ?out es' =
      Some (map2 (handed_over msg) as (collect (\<lambda>k. nfrags P (msg k)) ?got (map (\<lambda>(k, i, m). (k, i)) as)), es2)"
      by (rule Cons.IH [OF es'(2) K _ r])
    then show ?thesis
      using es'(1) by (cases ?full) (auto simp: a fragment_of_def handed_over_def Let_def)
  qed
qed

lemma collect_delivers:
  assumes "{0..<n k} \<subseteq> got k \<union> {i. (k, i) \<in> set as}" "got k \<noteq> {0..<n k}" "got k \<subseteq> {0..<n k}"
    and "\<forall>(k, i)\<in>set as. i < n k"
  shows "\<exists>j<length as. fst (as ! j) = k \<and> collect n got as ! j"
  using assms
proof (induction as arbitrary: got)
  case Nil
  then show ?case by auto
next
  case (Cons a as)
  obtain k' i where a: "a = (k', i)" by (cases a)
  let ?full = "insert i (got k') = {0..<n k'}"
  let ?got = "got(k' := if ?full then {} else insert i (got k'))"
  show ?case
  proof (cases "?full \<and> k' = k")
    case True
    then show ?thesis using a by (intro exI [of _ 0]) (auto simp: Let_def)
  next
    case False
    have "\<exists>j<length as. fst (as ! j) = k \<and> collect n ?got as ! j"
      using False Cons.prems a by (intro Cons.IH) (auto split: if_splits)
    then obtain j where "j < length as" "fst (as ! j) = k" "collect n ?got as ! j" by blast
    then show ?thesis using a by (intro exI [of _ "Suc j"]) (simp add: Let_def)
  qed
qed

lemma length_collect [simp]: "length (collect n got as) = length as"
  by (induction as arbitrary: got) (auto simp: Let_def)

section \<open>Any input\<close>

text \<open>The invariant of the table, whatever the air brings.\<close>

definition table_ok :: "frag_profile \<Rightarrow> 'a reassembler \<Rightarrow> bool" where
  "table_ok P es \<longleftrightarrow> length es \<le> fp_max_reassemblies P \<and> distinct (map re_key es)
     \<and> (\<forall>e\<in>set es. length (re_buf e) = fp_max_reassembled_len P \<and> re_len e \<le> fp_max_reassembled_len P \<and> re_count e < 16)"

lemma table_ok_update:
  assumes "table_ok P es" "i < length es" "re_key e = re_key (es ! i)"
    and "length (re_buf e) = fp_max_reassembled_len P" "re_len e \<le> fp_max_reassembled_len P" "re_count e < 16"
  shows "table_ok P (es[i := e])"
proof -
  have "map re_key (es[i := e]) = map re_key es" using assms(2,3) by (metis list_update_id map_update nth_map)
  then show ?thesis using assms by (auto simp: table_ok_def dest!: set_update_subset_insert [THEN subsetD])
qed

lemma table_ok_remove: "table_ok P es \<Longrightarrow> table_ok P (take i es @ drop (Suc i) es)"
  by (auto simp: table_ok_def take_map [symmetric] drop_map [symmetric] set_take_disj_set_drop_if_distinct
      dest: in_set_takeD in_set_dropD)

lemma slot_total:
  assumes "table_ok P es" "0 < fp_max_reassemblies P" "c < 16"
  shows "\<exists>i es'. reassembly_slot P k c es = Some (i, es') \<and> i < length es' \<and> table_ok P es' \<and> re_count (es' ! i) = c"
proof (cases "position (\<lambda>e. re_key e = k) es")
  case (Some i)
  then have i: "i < length es" "re_key (es ! i) = k" using position_Some [OF Some] by auto
  then show ?thesis
    using Some assms table_ok_update [OF assms(1) i(1), of "reassembly_new P k c"]
    by (auto simp: reassembly_slot_def reassembly_new_def)
next
  case None
  let ?es = "if length es = fp_max_reassemblies P then drop 1 es else es"
  have "length ?es < fp_max_reassemblies P" using assms(1,2) by (auto simp: table_ok_def)
  moreover have "(if length es = fp_max_reassemblies P then map_option snd (vec_remove 0 es) else Some es) = Some ?es"
    using assms(2) by (simp add: vec_remove_def)
  ultimately have "reassembly_slot P k c es = Some (length ?es, ?es @ [reassembly_new P k c])"
    using None by (simp add: reassembly_slot_def vec_push_def)
  moreover have "table_ok P (?es @ [reassembly_new P k c])"
    using None assms \<open>length ?es < _\<close>
    by (auto simp: table_ok_def position_None reassembly_new_def drop_map [symmetric] simp del: drop_Suc dest: in_set_dropD)
  ultimately show ?thesis by (auto simp: reassembly_new_def nth_append)
qed

lemma store_total:
  assumes "length (re_buf e) = fp_max_reassembled_len P" "re_len e \<le> fp_max_reassembled_len P"
    and "off + length body \<le> fp_max_reassembled_len P"
  shows "\<exists>e'. reassembly_store off b body m e = Some e' \<and> re_key e' = re_key e \<and> re_count e' = re_count e
    \<and> length (re_buf e') = fp_max_reassembled_len P \<and> re_len e' \<le> fp_max_reassembled_len P"
  using assms by (auto simp: reassembly_store_def copy_into_Some)

lemma accept_returns:
  assumes "frag_ok P" "table_ok P es" "fp_max_reassembled_len P \<le> length out" "fh_index hdr \<noteq> - 1"
  shows "\<exists>r out' es'. accept P k hdr body m out es = Some (r, out', es') \<and> table_ok P es' \<and> length out' = length out"
proof -
  let ?limit = "(fp_max_reassembled_len P + fp_frag_payload P - 1) div fp_frag_payload P"
  have lim: "div_ceil (fp_max_reassembled_len P) (fp_frag_payload P) = Some ?limit" "?limit < 16"
  proof -
    show "div_ceil (fp_max_reassembled_len P) (fp_frag_payload P) = Some ?limit" using nfrags_limit(1) [OF assms(1), of "[]"] by simp
    have "\<not> MAX_FRAGMENTS < ?limit"
      using ceil_less [of "fp_frag_payload P" MAX_FRAGMENTS "fp_max_reassembled_len P"] assms(1)
      by (simp add: frag_ok_def reassembler_ok_def)
    then show "?limit < 16" by (simp add: MAX_FRAGMENTS_def)
  qed
  let ?off = "unat (fh_index hdr) * fp_frag_payload P"
  show ?thesis
  proof (cases "fh_count hdr = 0 \<or> fh_index hdr \<ge> fh_count hdr \<or> unat (fh_count hdr) > ?limit \<or> length body > fp_frag_payload P
      \<or> (fh_index hdr + 1 \<noteq> fh_count hdr \<and> length body \<noteq> fp_frag_payload P) \<or> ?off + length body > fp_max_reassembled_len P")
    case True
    then have "accept P k hdr body m out es = Some (None, out, es)"
      using assms(4) lim(1) by (auto simp: accept_def Let_def)
    then show ?thesis using assms(2) by blast
  next
    case False
    have c: "fh_count hdr < 16" "fh_index hdr < 16"
      using False lim(2) by (auto simp: word_less_nat_alt word_le_nat_alt)
    obtain i es1 where s: "reassembly_slot P k (fh_count hdr) es = Some (i, es1)" "i < length es1" "table_ok P es1"
        "re_count (es1 ! i) = fh_count hdr"
      using slot_total [OF assms(2) _ c(1), of k] assms(1) by (auto simp: frag_ok_def reassembler_ok_def)
    obtain e where e: "reassembly_store ?off (push_bit (unat (fh_index hdr)) 1) body m (es1 ! i) = Some e"
        "re_key e = re_key (es1 ! i)" "re_count e = re_count (es1 ! i)"
        "length (re_buf e) = fp_max_reassembled_len P" "re_len e \<le> fp_max_reassembled_len P"
      using store_total [of "es1 ! i" P ?off body] s(2,3) False nth_mem [OF s(2)] unfolding table_ok_def by (metis not_less)
    have t: "table_ok P (es1[i := e])" using table_ok_update [OF s(3,2) e(2,4,5)] e(3) s(4) c(1) by simp
    obtain b where b: "is_complete e = Some b" using e(3) s(4) c(1) by (simp add: is_complete_def shl_u16_one_def Let_def)
    have "accept P k hdr body m out es =
       (if b then Some (Some (re_len e, re_metrics e), take (re_len e) (re_buf e) @ drop (re_len e) out, take i es1 @ drop (Suc i) es1)
        else Some (None, out, es1[i := e]))"
      using False assms(3,4) lim(1) s(1,2) e(1,4,5) b c
      by (cases "fh_index hdr + 1 = fh_count hdr")
         (simp_all add: accept_def shl_u16_one_def vec_remove_def get_range_def copy_into_def)
    then show ?thesis
      using t table_ok_remove [OF s(3), of i] assms(3) e(4,5) by (cases b) auto
  qed
qed

lemma all_fragments_delivered:
  assumes "frag_ok P" "fp_max_reassembled_len P \<le> length out"
    and "finite K" "card K \<le> fp_max_reassemblies P"
    and "\<forall>(k, i, m)\<in>set as. k \<in> K \<and> length (msg k) \<le> fp_max_reassembled_len P \<and> i < nfrags P (msg k)"
    and "\<forall>i<nfrags P (msg k). \<exists>m. (k, i, m) \<in> set as"
  shows "\<exists>rs es m. feed P (map (fragment_of P msg) as) out reassembler_new = Some (rs, es) \<and> Some (msg k, m) \<in> set rs"
proof -
  let ?ki = "map (\<lambda>(k, i, m). (k, i)) as"
  obtain es where f: "feed P (map (fragment_of P msg) as) out reassembler_new =
    Some (map2 (handed_over msg) as (collect (\<lambda>k. nfrags P (msg k)) (\<lambda>_. {}) ?ki), es)"
    using assms(1-5) feed_collect [of P msg "\<lambda>_. {}" reassembler_new K out as] by (auto simp: tab_def reassembler_new_def)
  have "\<exists>j<length ?ki. fst (?ki ! j) = k \<and> collect (\<lambda>k. nfrags P (msg k)) (\<lambda>_. {}) ?ki ! j"
    using assms(5,6) nfrags_pos [of P "msg k"] by (intro collect_delivers) force+
  then obtain j where j: "j < length as" "fst (as ! j) = k" "collect (\<lambda>k. nfrags P (msg k)) (\<lambda>_. {}) ?ki ! j"
    by (auto simp: case_prod_beta)
  then have "map2 (handed_over msg) as (collect (\<lambda>k. nfrags P (msg k)) (\<lambda>_. {}) ?ki) ! j = Some (msg k, snd (snd (as ! j)))"
    by (simp add: handed_over_def case_prod_beta)
  then have "Some (msg k, snd (snd (as ! j))) \<in> set (map2 (handed_over msg) as (collect (\<lambda>k. nfrags P (msg k)) (\<lambda>_. {}) ?ki))"
    using j(1) nth_mem [of j "map2 (handed_over msg) as (collect (\<lambda>k. nfrags P (msg k)) (\<lambda>_. {}) ?ki)"] by simp
  then show ?thesis using f by blast
qed

section \<open>Properties\<close>

text \<open>
  C37. The reassembly table refines the collection of indices: while at most
  \<^verbatim>\<open>MAX_REASSEMBLIES\<close> messages are in flight, feeding the fragments of any frames that fit, in
  any order, with any repetition and however the messages are interleaved, never panics and
  hands over, at exactly the arrivals that complete a message, exactly the frame that was cut,
  with the metrics of the completing fragment.
\<close>

theorem reassembly_exact:
  assumes "frag_ok P" "fp_max_reassembled_len P \<le> length out"
    and "finite K" "card K \<le> fp_max_reassemblies P"
    and "\<forall>(k, i, m)\<in>set as. k \<in> K \<and> length (msg k) \<le> fp_max_reassembled_len P \<and> i < nfrags P (msg k)"
  shows "\<exists>es. feed P (map (fragment_of P msg) as) out reassembler_new =
    Some (map2 (handed_over msg) as (collect (\<lambda>k. nfrags P (msg k)) (\<lambda>_. {}) (map (\<lambda>(k, i, m). (k, i)) as)), es)"
  using assms by (intro feed_collect [where K = K]) (auto simp: tab_def reassembler_new_def)

text \<open>
  Every message whose fragments all arrive, at least once and in any order among those of at
  most \<^verbatim>\<open>MAX_REASSEMBLIES\<close> messages, is handed over unchanged.
\<close>

theorem reassembly_delivers:
  assumes "frag_ok P" "fp_max_reassembled_len P \<le> length out"
    and "finite K" "card K \<le> fp_max_reassemblies P"
    and "\<forall>(k, i, m)\<in>set as. k \<in> K \<and> length (msg k) \<le> fp_max_reassembled_len P \<and> i < nfrags P (msg k)"
    and "\<forall>i<nfrags P (msg k). \<exists>m. (k, i, m) \<in> set as"
  shows "\<exists>rs es m. feed P (map (fragment_of P msg) as) out reassembler_new = Some (rs, es) \<and> Some (msg k, m) \<in> set rs"
  using assms by (rule all_fragments_delivered)

text \<open>
  Nothing that arrives can panic the reassembler or break its table: for every byte string
  that parses as a fragment, \<^verbatim>\<open>accept\<close> returns, keeps at most \<^verbatim>\<open>MAX_REASSEMBLIES\<close> entries with
  distinct keys and full-size buffers, and leaves the caller's buffer at its length.
\<close>

theorem any_fragment_safe:
  assumes "frag_ok P" "table_ok P es" "fp_max_reassembled_len P \<le> length out"
    and "parse_fragment bs = Some (hdr, body)"
  shows "\<exists>r out' es'. accept P k hdr body m out es = Some (r, out', es') \<and> table_ok P es' \<and> length out' = length out"
proof (rule accept_returns [OF assms(1-3)])
  have "fh_index hdr = drop_bit 4 (bs ! 1)" using assms(4) by (auto simp: parse_fragment_def Let_def split: if_splits)
  then have "\<not> bit (fh_index hdr) 7" by (auto simp: bit_drop_bit_eq dest: bit_imp_le_length)
  then show "fh_index hdr \<noteq> - 1" by auto
qed

section \<open>Examples\<close>

definition tiny_frags :: frag_profile where
  "tiny_frags = \<lparr>fp_max_reassemblies = 2, fp_frag_payload = 2, fp_max_reassembled_len = 5\<rparr>"

definition key_a :: "u16 frag_key" where "key_a = \<lparr>fk_addr = 1, fk_msg_id = 9\<rparr>"
definition key_b :: "u16 frag_key" where "key_b = \<lparr>fk_addr = 2, fk_msg_id = 9\<rparr>"

definition sample_msg :: "u16 frag_key \<Rightarrow> bytes" where
  "sample_msg k = (if k = key_a then [10, 20, 30] else [7])"

definition sample_arrivals :: "(u16 frag_key \<times> nat \<times> link_metrics) list" where
  "sample_arrivals = map (\<lambda>(k, i). (k, i, link_metrics_default)) [(key_a, 1), (key_b, 0), (key_a, 1), (key_a, 0)]"

lemma tiny_frags_ok: "frag_ok tiny_frags"
  by (simp add: frag_ok_def reassembler_ok_def tiny_frags_def MAX_FRAGMENTS_def)

lemma sample_keys: "key_a \<noteq> key_b" "key_b \<noteq> key_a"
  by (simp_all add: key_a_def key_b_def)

lemma sample_fits:
  "\<forall>(k, i, m)\<in>set sample_arrivals. k \<in> {key_a, key_b} \<and> length (sample_msg k) \<le> fp_max_reassembled_len tiny_frags
    \<and> i < nfrags tiny_frags (sample_msg k)"
  using sample_keys by (simp add: sample_arrivals_def sample_msg_def tiny_frags_def nfrags_def)

theorem reassembly_exact_witness:
  "\<exists>es. feed tiny_frags (map (fragment_of tiny_frags sample_msg) sample_arrivals) (replicate 5 0) reassembler_new =
     Some ([None, Some ([7], link_metrics_default), None, Some ([10, 20, 30], link_metrics_default)], es)"
proof -
  have c: "{0..<Suc (Suc 0)} = {0, Suc 0}" "{0..<Suc 0} = {0}" by auto
  have "map2 (handed_over sample_msg) sample_arrivals
      (collect (\<lambda>k. nfrags tiny_frags (sample_msg k)) (\<lambda>_. {}) (map (\<lambda>(k, i, m). (k, i)) sample_arrivals))
     = [None, Some ([7], link_metrics_default), None, Some ([10, 20, 30], link_metrics_default)]"
    using sample_keys by (simp add: sample_arrivals_def handed_over_def sample_msg_def nfrags_def tiny_frags_def c insert_eq_iff Let_def)
  then show ?thesis
    using reassembly_exact [OF tiny_frags_ok _ _ _ sample_fits, of "replicate 5 0"] by (simp add: tiny_frags_def sample_keys)
qed

theorem reassembly_delivers_witness:
  "\<exists>rs es m. feed tiny_frags (map (fragment_of tiny_frags sample_msg) sample_arrivals) (replicate 5 0) reassembler_new = Some (rs, es)
     \<and> Some ([10, 20, 30], m) \<in> set rs"
proof -
  have "\<forall>i<nfrags tiny_frags (sample_msg key_a). \<exists>m. (key_a, i, m) \<in> set sample_arrivals"
    by (auto simp: nfrags_def tiny_frags_def sample_msg_def sample_arrivals_def sample_keys less_Suc_eq)
  moreover have "sample_msg key_a = [10, 20, 30]" by (simp add: sample_msg_def)
  ultimately show ?thesis
    using reassembly_delivers [OF tiny_frags_ok _ _ _ sample_fits, of "replicate 5 0" key_a]
    by (simp add: tiny_frags_def sample_keys)
qed

theorem any_fragment_safe_witness:
  "\<exists>r out' es'. accept tiny_frags key_a (arrival_header 3 1 2) [1, 2] link_metrics_default (replicate 5 0) reassembler_new = Some (r, out', es')
     \<and> table_ok tiny_frags es' \<and> length out' = 5"
proof -
  obtain h where "parse_fragment (h @ [1, 2]) = Some (arrival_header 3 1 2, [1, 2])"
    using parse_pack [of 1 2 3 "[1, 2]"] by (auto simp: MAX_FRAGMENTS_def)
  then show ?thesis
    using any_fragment_safe [OF tiny_frags_ok, of reassembler_new "replicate 5 0"]
    by (simp add: table_ok_def reassembler_new_def tiny_frags_def)
qed

end
