(* ===== verification/Radio_Media.thy ===== *)
theory Radio_Media
  imports Fragment
begin

text \<open>
  The two packet media built on the shared fragmentation: raw LoRa
  (\<^verbatim>\<open>libs/lora-link/src/lib.rs\<close>) and IEEE 802.15.4 (\<^verbatim>\<open>libs/ieee802154/src/lib.rs\<close>). Each adds
  its own header to a fragment and builds the reassembly key from it.

  The contract \<open>fragment_medium\<close> asks of a medium that what it puts on the air decodes to the
  fragment that was cut, and that it hands a decoded packet to the shared reassembler under the
  sender's address. Delivery of whole frames follows once, and is inherited by both media.
\<close>

section \<open>Delivery over a fragmenting medium\<close>

text \<open>A sequence of received packets, with the frames handed over.\<close>

fun feed_air :: "(bytes \<Rightarrow> link_metrics \<Rightarrow> bytes \<Rightarrow> 'a reassembler \<Rightarrow> ((nat \<times> link_metrics) option \<times> bytes \<times> 'a reassembler) option)
    \<Rightarrow> (bytes \<times> link_metrics) list \<Rightarrow> bytes \<Rightarrow> 'a reassembler
    \<Rightarrow> ((bytes \<times> link_metrics) option list \<times> 'a reassembler) option" where
  "feed_air acc [] out es = Some ([], es)"
| "feed_air acc ((p, m) # ps) out es =
     do { (r, out, es) \<leftarrow> acc p m out es;
          (rs, es) \<leftarrow> feed_air acc ps out es;
          Some (map_option (\<lambda>(n, m). (take n out, m)) r # rs, es) }"

text \<open>What is on the air: one packet per transmitted fragment.\<close>

definition on_air :: "('x \<Rightarrow> 'a frag_key \<Rightarrow> bytes \<Rightarrow> nat \<Rightarrow> bytes option) \<Rightarrow> ('a frag_key \<Rightarrow> bytes)
    \<Rightarrow> ('x \<times> 'a frag_key \<times> nat \<times> link_metrics) list \<Rightarrow> (bytes \<times> link_metrics) list" where
  "on_air packet msg txs = map (\<lambda>(x, k, i, m). (the (packet x k (msg k) i), m)) txs"

locale fragment_medium =
  fixes P :: frag_profile
    and packet :: "'x \<Rightarrow> 'a frag_key \<Rightarrow> bytes \<Rightarrow> nat \<Rightarrow> bytes option"
    and decode :: "bytes \<Rightarrow> ('a \<times> frag_header \<times> bytes) option"
    and acc :: "bytes \<Rightarrow> link_metrics \<Rightarrow> bytes \<Rightarrow> 'a reassembler \<Rightarrow> ((nat \<times> link_metrics) option \<times> bytes \<times> 'a reassembler) option"
  assumes profile: "frag_ok P"
    and packet_decodes: "length fr \<le> fp_max_reassembled_len P \<Longrightarrow> i < nfrags P fr \<Longrightarrow>
      \<exists>p. packet x k fr i = Some p \<and> decode p = Some (fk_addr k, arrival_header (fk_msg_id k) i (nfrags P fr), frag P fr i)"
    and acc_decodes: "acc p m out es =
      (case decode p of
         None \<Rightarrow> Some (None, out, es)
       | Some (a, hdr, body) \<Rightarrow> accept P \<lparr>fk_addr = a, fk_msg_id = fh_msg_id hdr\<rparr> hdr body m out es)"
begin

lemma feed_air_feed:
  assumes "\<forall>(x, k, i, m)\<in>set txs. length (msg k) \<le> fp_max_reassembled_len P \<and> i < nfrags P (msg k)"
  shows "feed_air acc (on_air packet msg txs) out es
    = feed P (map (fragment_of P msg) (map snd txs)) out es"
  using assms
proof (induction txs arbitrary: out es)
  case (Cons t txs)
  obtain x k i m where t: "t = (x, k, i, m)" by (metis prod_cases4)
  obtain p where p: "packet x k (msg k) i = Some p"
      "decode p = Some (fk_addr k, arrival_header (fk_msg_id k) i (nfrags P (msg k)), frag P (msg k) i)"
    using packet_decodes [of "msg k" i x k] Cons.prems t by auto
  have "acc p m out es = accept P k (arrival_header (fk_msg_id k) i (nfrags P (msg k))) (frag P (msg k) i) m out es"
    using p(2) by (cases k) (simp add: acc_decodes arrival_header_def)
  moreover have "feed_air acc (on_air packet msg txs) out es
      = feed P (map (fragment_of P msg) (map snd txs)) out es" for out es
    using Cons.prems by (intro Cons.IH) simp
  ultimately show ?case by (simp add: t p(1) fragment_of_def on_air_def)
qed (simp add: on_air_def)

text \<open>Every frame whose packets all arrive is handed over unchanged.\<close>

lemma air_delivers:
  assumes "fp_max_reassembled_len P \<le> length out" "finite K" "card K \<le> fp_max_reassemblies P"
    and "\<forall>(x, k, i, m)\<in>set txs. k \<in> K \<and> length (msg k) \<le> fp_max_reassembled_len P \<and> i < nfrags P (msg k)"
    and "\<forall>i<nfrags P (msg k). \<exists>x m. (x, k, i, m) \<in> set txs"
  shows "\<exists>rs es m. feed_air acc (on_air packet msg txs) out reassembler_new = Some (rs, es)
    \<and> Some (msg k, m) \<in> set rs"
proof -
  have all: "\<forall>i<nfrags P (msg k). \<exists>m. (k, i, m) \<in> set (map snd txs)"
    using assms(5) by (simp add: image_iff) (metis snd_conv)
  have fits: "\<forall>(k, i, m)\<in>set (map snd txs). k \<in> K \<and> length (msg k) \<le> fp_max_reassembled_len P \<and> i < nfrags P (msg k)"
    using assms(4) by auto
  have "feed_air acc (on_air packet msg txs) out reassembler_new = feed P (map (fragment_of P msg) (map snd txs)) out reassembler_new"
    using assms(4) by (intro feed_air_feed) auto
  then show ?thesis
    using all_fragments_delivered [OF profile assms(1-3) fits all] by (simp del: map_map)
qed

text \<open>The same for the link frames the router sends: the receiver decodes the frame that was sent.\<close>

lemma frame_delivered:
  assumes "14 \<le> fp_max_reassembled_len P" "fp_max_reassembled_len P \<le> length out" "finite K" "card K \<le> fp_max_reassemblies P"
    and "\<forall>k\<in>K. length (fd_payload (snd (sent k))) \<le> MAX_PAYLOAD_LEN P"
    and "\<forall>(x, k, i, m)\<in>set txs. k \<in> K \<and> i < nfrags P (assembled P (sent k))"
    and "k \<in> K" "\<forall>i<nfrags P (assembled P (sent k)). \<exists>x m. (x, k, i, m) \<in> set txs"
  shows "\<exists>rs es bs m. feed_air acc (on_air packet (\<lambda>k. assembled P (sent k)) txs) out reassembler_new = Some (rs, es)
    \<and> Some (bs, m) \<in> set rs \<and> decode_frame bs = Inr \<lparr>lf_dst = fd_dst (snd (sent k)), lf_src = fst (sent k),
        lf_protocol = fd_protocol (snd (sent k)), lf_payload = fd_payload (snd (sent k))\<rparr>"
proof -
  note dec = assembled_decodes [OF assms(1), of "snd (sent k)" "fst (sent k)" for k, simplified]
  have "\<forall>(x, k, i, m)\<in>set txs. k \<in> K \<and> length (assembled P (sent k)) \<le> fp_max_reassembled_len P \<and> i < nfrags P (assembled P (sent k))"
    using assms(5,6) dec(1) by fastforce
  from air_delivers [OF assms(2-4), of txs "\<lambda>k. assembled P (sent k)", OF this assms(8)]
  show ?thesis using dec(2) [of k] assms(5,7) by blast
qed

end

section \<open>Raw LoRa\<close>

definition LORA_MAX_FRAME_LEN :: nat where
  "LORA_MAX_FRAME_LEN = 255"

definition LORA_HEADER_LEN :: nat where
  "LORA_HEADER_LEN = 1 + 2"

definition LORA_FRAG_PAYLOAD :: nat where
  "LORA_FRAG_PAYLOAD = LORA_MAX_FRAME_LEN - LORA_HEADER_LEN - FRAG_HDR_LEN"

definition LORA_MAX_REASSEMBLED_LEN :: nat where
  "LORA_MAX_REASSEMBLED_LEN = 512"

definition LORA_MAX_REASSEMBLIES :: nat where
  "LORA_MAX_REASSEMBLIES = 4"

definition lora_profile :: frag_profile where
  "lora_profile = \<lparr>fp_max_reassemblies = LORA_MAX_REASSEMBLIES, fp_frag_payload = LORA_FRAG_PAYLOAD,
     fp_max_reassembled_len = LORA_MAX_REASSEMBLED_LEN\<rparr>"

record lora_fragment_spec =
  lo_msg_id :: u8
  lo_index :: nat
  lo_count :: nat

definition lora_assemble_frame :: "mac \<Rightarrow> frame_data \<Rightarrow> bytes \<Rightarrow> ((link_error + nat) \<times> bytes) option" where
  "lora_assemble_frame = assemble_frame lora_profile"

definition lora_fragment_count :: "nat \<Rightarrow> (link_error + nat) option" where
  "lora_fragment_count = fragment_count lora_profile"

definition lora_build_fragment :: "u8 \<Rightarrow> u16 \<Rightarrow> bytes \<Rightarrow> lora_fragment_spec \<Rightarrow> bytes \<Rightarrow> ((link_error + nat) \<times> bytes) option" where
  "lora_build_fragment net_id src_id frame spec out =
     do { r \<leftarrow> fragment_body lora_profile frame (lo_index spec) (lo_count spec);
          case r of
            Inl err \<Rightarrow> Some (Inl err, out)
          | Inr chunk \<Rightarrow>
              let total = LORA_HEADER_LEN + FRAG_HDR_LEN + length chunk in
              if length out < total then Some (Inl BufferFull, out)
              else do { out \<leftarrow> copy_into out 0 [net_id];
                        out \<leftarrow> copy_into out 1 (u16_to_be src_id);
                        hdr \<leftarrow> pack_header (lo_msg_id spec) (lo_index spec) (lo_count spec);
                        out \<leftarrow> copy_into out LORA_HEADER_LEN hdr;
                        out \<leftarrow> copy_into out (LORA_HEADER_LEN + FRAG_HDR_LEN) chunk;
                        Some (Inr total, out) } }"

definition lora_decode_fragment :: "u8 \<Rightarrow> bytes \<Rightarrow> link_error + (u16 \<times> frag_header \<times> bytes)" where
  "lora_decode_fragment net_id buf =
     (if length buf < LORA_HEADER_LEN + FRAG_HDR_LEN \<or> buf ! 0 \<noteq> net_id then Inl MalformedFrame
      else let src_id = u16_of_be (buf ! 1) (buf ! 2) in
           case parse_fragment (drop LORA_HEADER_LEN buf) of
             None \<Rightarrow> Inl MalformedFrame
           | Some (hdr, body) \<Rightarrow> Inr (src_id, hdr, body))"

definition lora_accept_fragment :: "u8 \<Rightarrow> bytes \<Rightarrow> link_metrics \<Rightarrow> bytes \<Rightarrow> u16 reassembler
    \<Rightarrow> ((nat \<times> link_metrics) option \<times> bytes \<times> u16 reassembler) option" where
  "lora_accept_fragment net_id buf metrics out es =
     (case lora_decode_fragment net_id buf of
        Inl _ \<Rightarrow> Some (None, out, es)
      | Inr (src_id, hdr, body) \<Rightarrow>
          accept lora_profile \<lparr>fk_addr = src_id, fk_msg_id = fh_msg_id hdr\<rparr> hdr body metrics out es)"

text \<open>The packet of a fragment: what \<open>lora_build_fragment\<close> writes into a full-size buffer.\<close>

definition lora_packet :: "u8 \<Rightarrow> u16 frag_key \<Rightarrow> bytes \<Rightarrow> nat \<Rightarrow> bytes option" where
  "lora_packet net_id k frame i =
     (case lora_fragment_count (length frame) of
        Some (Inr count) \<Rightarrow>
          (case lora_build_fragment net_id (fk_addr k) frame \<lparr>lo_msg_id = fk_msg_id k, lo_index = i, lo_count = count\<rparr>
                  (replicate LORA_MAX_FRAME_LEN 0) of
             Some (Inr n, out) \<Rightarrow> Some (take n out)
           | _ \<Rightarrow> None)
      | _ \<Rightarrow> None)"

lemma take_exact: "length p = n \<Longrightarrow> take n (p @ q) = p"
  by auto

lemmas lora_sizes = lora_profile_def LORA_MAX_REASSEMBLIES_def LORA_FRAG_PAYLOAD_def LORA_MAX_REASSEMBLED_LEN_def
  LORA_MAX_FRAME_LEN_def LORA_HEADER_LEN_def FRAG_HDR_LEN_def

lemma lora_profile_ok: "frag_ok lora_profile"
  by (simp add: frag_ok_def reassembler_ok_def lora_sizes MAX_FRAGMENTS_def)

lemma lora_packet_decodes:
  assumes "length fr \<le> fp_max_reassembled_len lora_profile" "i < nfrags lora_profile fr"
  shows "\<exists>p. lora_packet net_id k fr i = Some p \<and> length p \<le> LORA_MAX_FRAME_LEN
    \<and> lora_decode_fragment net_id p = Inr (fk_addr k, arrival_header (fk_msg_id k) i (nfrags lora_profile fr), frag lora_profile fr i)"
proof -
  let ?n = "nfrags lora_profile fr" and ?b = "frag lora_profile fr i"
  note fb = fragment_body_frag [OF lora_profile_ok assms] and fc = fragment_count_nfrags [OF lora_profile_ok assms(1)]
  have n: "?n \<le> MAX_FRAGMENTS" by (rule nfrags_limit(3) [OF lora_profile_ok assms(1)])
  have b: "length ?b \<le> 250" using frag_end(4) [OF lora_profile_ok assms(2)] by (simp add: lora_sizes)
  obtain h where h: "pack_header (fk_msg_id k) i ?n = Some h" "length h = FRAG_HDR_LEN"
      "parse_fragment (h @ ?b) = Some (arrival_header (fk_msg_id k) i ?n, ?b)"
    using parse_pack [OF assms(2) n] by blast
  let ?p = "[net_id] @ u16_to_be (fk_addr k) @ h @ ?b"
  have "lora_build_fragment net_id (fk_addr k) fr \<lparr>lo_msg_id = fk_msg_id k, lo_index = i, lo_count = ?n\<rparr> (replicate LORA_MAX_FRAME_LEN 0)
      = Some (Inr (5 + length ?b), ?p @ replicate (250 - length ?b) 0)"
    using fb h(1,2) b by (simp add: lora_build_fragment_def copy_into_def lora_sizes Let_def)
  moreover have "take (5 + length ?b) (?p @ replicate (250 - length ?b) 0) = ?p"
    using h(2) by (intro take_exact) (simp add: FRAG_HDR_LEN_def)
  ultimately have "lora_packet net_id k fr i = Some ?p"
    using fc by (simp add: lora_packet_def lora_fragment_count_def del: append_assoc append.simps)
  moreover have "lora_decode_fragment net_id ?p = Inr (fk_addr k, arrival_header (fk_msg_id k) i ?n, ?b)"
    using h(2,3) by (simp add: lora_decode_fragment_def lora_sizes u16_to_be_def)
  ultimately show ?thesis using b h(2) by (auto simp: lora_sizes)
qed

interpretation lora: fragment_medium lora_profile "\<lambda>_. lora_packet net_id"
  "\<lambda>p. case lora_decode_fragment net_id p of Inl _ \<Rightarrow> None | Inr r \<Rightarrow> Some r" "lora_accept_fragment net_id" for net_id
proof unfold_locales
  show "frag_ok lora_profile" by (rule lora_profile_ok)
next
  fix fr i k
  assume "length fr \<le> fp_max_reassembled_len lora_profile" "i < nfrags lora_profile fr"
  from lora_packet_decodes [OF this, of net_id k]
  show "\<exists>p. lora_packet net_id k fr i = Some p
    \<and> (case lora_decode_fragment net_id p of Inl _ \<Rightarrow> None | Inr r \<Rightarrow> Some r)
        = Some (fk_addr k, arrival_header (fk_msg_id k) i (nfrags lora_profile fr), frag lora_profile fr i)"
    by auto
qed (simp add: lora_accept_fragment_def split: sum.split)

section \<open>IEEE 802.15.4\<close>

definition FRAME_TYPE_DATA :: u16 where
  "FRAME_TYPE_DATA = 1"

definition PAN_ID_COMPRESSION :: u16 where
  "PAN_ID_COMPRESSION = push_bit 6 1"

definition DEST_ADDR_MODE_SHORT :: u16 where
  "DEST_ADDR_MODE_SHORT = push_bit 10 2"

definition SRC_ADDR_MODE_SHORT :: u16 where
  "SRC_ADDR_MODE_SHORT = push_bit 14 2"

definition FRAME_CONTROL :: u16 where
  "FRAME_CONTROL = FRAME_TYPE_DATA OR PAN_ID_COMPRESSION OR DEST_ADDR_MODE_SHORT OR SRC_ADDR_MODE_SHORT"

definition BROADCAST_ADDR :: u16 where
  "BROADCAST_ADDR = 0xffff"

record ieee802154_header =
  ih_frame_control :: u16
  ih_seq :: u8
  ih_dest_pan_id :: u16
  ih_dest_addr :: u16
  ih_src_addr :: u16

text \<open>The packed little-endian layout, nine bytes.\<close>

definition ieee_header_write :: "ieee802154_header \<Rightarrow> bytes" where
  "ieee_header_write h = u16_to_le (ih_frame_control h) @ [ih_seq h] @ u16_to_le (ih_dest_pan_id h)
     @ u16_to_le (ih_dest_addr h) @ u16_to_le (ih_src_addr h)"

fun ieee_header_read :: "bytes \<Rightarrow> (ieee802154_header \<times> bytes) option" where
  "ieee_header_read (a # b # c # d # e # f # g # h # i # rest) =
     Some (\<lparr>ih_frame_control = u16_of_le a b, ih_seq = c, ih_dest_pan_id = u16_of_le d e,
            ih_dest_addr = u16_of_le f g, ih_src_addr = u16_of_le h i\<rparr>, rest)"
| "ieee_header_read _ = None"

definition IEEE_HEADER_LEN :: nat where
  "IEEE_HEADER_LEN = 9"

definition MAX_PHY_PACKET_SIZE :: nat where
  "MAX_PHY_PACKET_SIZE = 127"

definition FCS_LEN :: nat where
  "FCS_LEN = 2"

definition IEEE_MAX_FRAME_LEN :: nat where
  "IEEE_MAX_FRAME_LEN = MAX_PHY_PACKET_SIZE - FCS_LEN"

definition IEEE_FRAG_PAYLOAD :: nat where
  "IEEE_FRAG_PAYLOAD = IEEE_MAX_FRAME_LEN - IEEE_HEADER_LEN - FRAG_HDR_LEN"

definition IEEE_MAX_REASSEMBLED_LEN :: nat where
  "IEEE_MAX_REASSEMBLED_LEN = 512"

definition IEEE_MAX_REASSEMBLIES :: nat where
  "IEEE_MAX_REASSEMBLIES = 4"

definition ieee_profile :: frag_profile where
  "ieee_profile = \<lparr>fp_max_reassemblies = IEEE_MAX_REASSEMBLIES, fp_frag_payload = IEEE_FRAG_PAYLOAD,
     fp_max_reassembled_len = IEEE_MAX_REASSEMBLED_LEN\<rparr>"

record ieee_fragment_spec =
  is_seq :: u8
  is_src_addr :: u16
  is_msg_id :: u8
  is_index :: nat
  is_count :: nat

definition ieee_assemble_frame :: "mac \<Rightarrow> frame_data \<Rightarrow> bytes \<Rightarrow> ((link_error + nat) \<times> bytes) option" where
  "ieee_assemble_frame = assemble_frame ieee_profile"

definition ieee_fragment_count :: "nat \<Rightarrow> (link_error + nat) option" where
  "ieee_fragment_count = fragment_count ieee_profile"

definition ieee_build_fragment :: "bytes \<Rightarrow> ieee_fragment_spec \<Rightarrow> bytes \<Rightarrow> ((link_error + nat) \<times> bytes) option" where
  "ieee_build_fragment frame spec out =
     do { r \<leftarrow> fragment_body ieee_profile frame (is_index spec) (is_count spec);
          case r of
            Inl err \<Rightarrow> Some (Inl err, out)
          | Inr chunk \<Rightarrow>
              let total = IEEE_HEADER_LEN + FRAG_HDR_LEN + length chunk in
              if length out < total then Some (Inl BufferFull, out)
              else let header = \<lparr>ih_frame_control = FRAME_CONTROL, ih_seq = is_seq spec, ih_dest_pan_id = BROADCAST_ADDR,
                                 ih_dest_addr = BROADCAST_ADDR, ih_src_addr = is_src_addr spec\<rparr>
                   in do { out \<leftarrow> copy_into out 0 (ieee_header_write header);
                           hdr \<leftarrow> pack_header (is_msg_id spec) (is_index spec) (is_count spec);
                           out \<leftarrow> copy_into out IEEE_HEADER_LEN hdr;
                           out \<leftarrow> copy_into out (IEEE_HEADER_LEN + FRAG_HDR_LEN) chunk;
                           Some (Inr total, out) } }"

definition ieee_decode_fragment :: "bytes \<Rightarrow> link_error + (u16 \<times> frag_header \<times> bytes)" where
  "ieee_decode_fragment buf =
     (if length buf < IEEE_HEADER_LEN + FRAG_HDR_LEN then Inl MalformedFrame
      else case ieee_header_read buf of
        None \<Rightarrow> Inl MalformedFrame
      | Some (header, rest) \<Rightarrow>
          if ih_frame_control header \<noteq> FRAME_CONTROL \<or> ih_dest_pan_id header \<noteq> BROADCAST_ADDR
             \<or> ih_dest_addr header \<noteq> BROADCAST_ADDR
          then Inl MalformedFrame
          else case parse_fragment rest of
            None \<Rightarrow> Inl MalformedFrame
          | Some (hdr, body) \<Rightarrow> Inr (ih_src_addr header, hdr, body))"

definition ieee_accept_fragment :: "bytes \<Rightarrow> link_metrics \<Rightarrow> bytes \<Rightarrow> u16 reassembler
    \<Rightarrow> ((nat \<times> link_metrics) option \<times> bytes \<times> u16 reassembler) option" where
  "ieee_accept_fragment buf metrics out es =
     (case ieee_decode_fragment buf of
        Inl _ \<Rightarrow> Some (None, out, es)
      | Inr (src_addr, hdr, body) \<Rightarrow>
          accept ieee_profile \<lparr>fk_addr = src_addr, fk_msg_id = fh_msg_id hdr\<rparr> hdr body metrics out es)"

definition ieee_packet :: "u8 \<Rightarrow> u16 frag_key \<Rightarrow> bytes \<Rightarrow> nat \<Rightarrow> bytes option" where
  "ieee_packet seq k frame i =
     (case ieee_fragment_count (length frame) of
        Some (Inr count) \<Rightarrow>
          (case ieee_build_fragment frame \<lparr>is_seq = seq, is_src_addr = fk_addr k, is_msg_id = fk_msg_id k,
                  is_index = i, is_count = count\<rparr> (replicate IEEE_MAX_FRAME_LEN 0) of
             Some (Inr n, out) \<Rightarrow> Some (take n out)
           | _ \<Rightarrow> None)
      | _ \<Rightarrow> None)"

lemmas ieee_sizes = ieee_profile_def IEEE_MAX_REASSEMBLIES_def IEEE_FRAG_PAYLOAD_def IEEE_MAX_REASSEMBLED_LEN_def
  IEEE_MAX_FRAME_LEN_def IEEE_HEADER_LEN_def FRAG_HDR_LEN_def MAX_PHY_PACKET_SIZE_def FCS_LEN_def

lemma ieee_profile_ok: "frag_ok ieee_profile"
  by (simp add: frag_ok_def reassembler_ok_def ieee_sizes MAX_FRAGMENTS_def)

lemma FRAME_CONTROL_value: "FRAME_CONTROL = 0x8841"
  by (simp add: FRAME_CONTROL_def FRAME_TYPE_DATA_def PAN_ID_COMPRESSION_def DEST_ADDR_MODE_SHORT_def SRC_ADDR_MODE_SHORT_def)

lemma length_ieee_header [simp]: "length (ieee_header_write h) = IEEE_HEADER_LEN"
  by (simp add: ieee_header_write_def IEEE_HEADER_LEN_def)

lemma ieee_header_read_write [simp]: "ieee_header_read (ieee_header_write h @ rest) = Some (h, rest)"
  by (cases h) (simp add: ieee_header_write_def u16_to_le_def)

lemma ieee_packet_decodes:
  assumes "length fr \<le> fp_max_reassembled_len ieee_profile" "i < nfrags ieee_profile fr"
  shows "\<exists>p. ieee_packet seq k fr i = Some p \<and> length p \<le> IEEE_MAX_FRAME_LEN
    \<and> ieee_decode_fragment p = Inr (fk_addr k, arrival_header (fk_msg_id k) i (nfrags ieee_profile fr), frag ieee_profile fr i)"
proof -
  let ?n = "nfrags ieee_profile fr" and ?b = "frag ieee_profile fr i"
  let ?w = "ieee_header_write \<lparr>ih_frame_control = FRAME_CONTROL, ih_seq = seq, ih_dest_pan_id = BROADCAST_ADDR,
    ih_dest_addr = BROADCAST_ADDR, ih_src_addr = fk_addr k\<rparr>"
  note fb = fragment_body_frag [OF ieee_profile_ok assms] and fc = fragment_count_nfrags [OF ieee_profile_ok assms(1)]
  have n: "?n \<le> MAX_FRAGMENTS" by (rule nfrags_limit(3) [OF ieee_profile_ok assms(1)])
  have b: "length ?b \<le> 114" using frag_end(4) [OF ieee_profile_ok assms(2)] by (simp add: ieee_sizes)
  obtain h where h: "pack_header (fk_msg_id k) i ?n = Some h" "length h = FRAG_HDR_LEN"
      "parse_fragment (h @ ?b) = Some (arrival_header (fk_msg_id k) i ?n, ?b)"
    using parse_pack [OF assms(2) n] by blast
  let ?p = "?w @ h @ ?b"
  have "ieee_build_fragment fr \<lparr>is_seq = seq, is_src_addr = fk_addr k, is_msg_id = fk_msg_id k, is_index = i, is_count = ?n\<rparr>
      (replicate IEEE_MAX_FRAME_LEN 0) = Some (Inr (11 + length ?b), ?p @ replicate (114 - length ?b) 0)"
    using fb h(1,2) b by (simp add: ieee_build_fragment_def copy_into_def ieee_sizes Let_def)
  moreover have "take (11 + length ?b) (?p @ replicate (114 - length ?b) 0) = ?p"
    using h(2) by (intro take_exact) (simp add: FRAG_HDR_LEN_def IEEE_HEADER_LEN_def)
  ultimately have "ieee_packet seq k fr i = Some ?p"
    using fc by (simp add: ieee_packet_def ieee_fragment_count_def del: append_assoc)
  moreover have "ieee_decode_fragment ?p = Inr (fk_addr k, arrival_header (fk_msg_id k) i ?n, ?b)"
    using h(2,3) by (simp add: ieee_decode_fragment_def ieee_sizes)
  ultimately show ?thesis using b h(2) by (auto simp: ieee_sizes)
qed

interpretation ieee: fragment_medium ieee_profile ieee_packet
  "\<lambda>p. case ieee_decode_fragment p of Inl _ \<Rightarrow> None | Inr r \<Rightarrow> Some r" ieee_accept_fragment
proof unfold_locales
  show "frag_ok ieee_profile" by (rule ieee_profile_ok)
next
  fix fr i seq k
  assume "length fr \<le> fp_max_reassembled_len ieee_profile" "i < nfrags ieee_profile fr"
  from ieee_packet_decodes [OF this, of seq k]
  show "\<exists>p. ieee_packet seq k fr i = Some p
    \<and> (case ieee_decode_fragment p of Inl _ \<Rightarrow> None | Inr r \<Rightarrow> Some r)
        = Some (fk_addr k, arrival_header (fk_msg_id k) i (nfrags ieee_profile fr), frag ieee_profile fr i)"
    by auto
qed (simp add: ieee_accept_fragment_def split: sum.split)

section \<open>Properties\<close>

text \<open>
  Over raw LoRa, up to four frames in flight from different senders or under different message
  ids, their packets received in any order, repeated and interleaved: every frame all of whose
  packets arrive is handed over and decodes to the frame that was sent, and
  nothing panics.
\<close>

theorem lora_frame_delivered:
  assumes "LORA_MAX_REASSEMBLED_LEN \<le> length out" "finite K" "card K \<le> LORA_MAX_REASSEMBLIES"
    and "\<forall>k\<in>K. length (fd_payload (snd (sent k))) \<le> MAX_PAYLOAD_LEN lora_profile"
    and "\<forall>(x, k, i, m)\<in>set txs. k \<in> K \<and> i < nfrags lora_profile (assembled lora_profile (sent k))"
    and "k \<in> K" "\<forall>i<nfrags lora_profile (assembled lora_profile (sent k)). \<exists>x m. (x, k, i, m) \<in> set txs"
  shows "\<exists>rs es bs m. feed_air (lora_accept_fragment net_id)
        (on_air (\<lambda>_. lora_packet net_id) (\<lambda>k. assembled lora_profile (sent k)) txs) out reassembler_new = Some (rs, es)
    \<and> Some (bs, m) \<in> set rs \<and> decode_frame bs = Inr \<lparr>lf_dst = fd_dst (snd (sent k)), lf_src = fst (sent k),
        lf_protocol = fd_protocol (snd (sent k)), lf_payload = fd_payload (snd (sent k))\<rparr>"
  using assms by (intro lora.frame_delivered) (auto simp: lora_sizes)

text \<open>
  The same over IEEE 802.15.4, with its 114-byte fragments and whatever MAC sequence numbers
  the packets carry.
\<close>

theorem ieee_frame_delivered:
  assumes "IEEE_MAX_REASSEMBLED_LEN \<le> length out" "finite K" "card K \<le> IEEE_MAX_REASSEMBLIES"
    and "\<forall>k\<in>K. length (fd_payload (snd (sent k))) \<le> MAX_PAYLOAD_LEN ieee_profile"
    and "\<forall>(seq, k, i, m)\<in>set txs. k \<in> K \<and> i < nfrags ieee_profile (assembled ieee_profile (sent k))"
    and "k \<in> K" "\<forall>i<nfrags ieee_profile (assembled ieee_profile (sent k)). \<exists>seq m. (seq, k, i, m) \<in> set txs"
  shows "\<exists>rs es bs m. feed_air ieee_accept_fragment
        (on_air ieee_packet (\<lambda>k. assembled ieee_profile (sent k)) txs) out reassembler_new = Some (rs, es)
    \<and> Some (bs, m) \<in> set rs \<and> decode_frame bs = Inr \<lparr>lf_dst = fd_dst (snd (sent k)), lf_src = fst (sent k),
        lf_protocol = fd_protocol (snd (sent k)), lf_payload = fd_payload (snd (sent k))\<rparr>"
  using assms by (intro ieee.frame_delivered) (auto simp: ieee_sizes)

definition sample_sent :: "u16 frag_key \<Rightarrow> mac \<times> frame_data" where
  "sample_sent k = (Mac 2 0 0 0 0 1, \<lparr>fd_dst = BROADCAST, fd_protocol = 0x4305, fd_payload = replicate 130 7\<rparr>)"

lemma sample_assembled:
  "length (assembled lora_profile (sample_sent k)) = 144" "length (assembled ieee_profile (sample_sent k)) = 144"
  by (simp_all add: sample_sent_def assembled_eq lora_sizes ieee_sizes MAX_PAYLOAD_LEN_def LINK_HEADER_LEN_def ETH_HEADER_LEN_def)

theorem lora_frame_delivered_witness:
  "\<exists>rs es bs m. feed_air (lora_accept_fragment 5)
        (on_air (\<lambda>_. lora_packet 5) (\<lambda>k. assembled lora_profile (sample_sent k)) [((), key_a, 0, link_metrics_default)])
        (replicate 512 0) reassembler_new = Some (rs, es)
    \<and> Some (bs, m) \<in> set rs \<and> decode_frame bs = Inr \<lparr>lf_dst = BROADCAST, lf_src = Mac 2 0 0 0 0 1,
        lf_protocol = 0x4305, lf_payload = replicate 130 7\<rparr>"
proof -
  have n: "nfrags lora_profile (assembled lora_profile (sample_sent key_a)) = 1"
    by (simp add: nfrags_def sample_assembled) (simp add: lora_sizes)
  show ?thesis
    using lora_frame_delivered [of "replicate 512 0" "{key_a}" sample_sent "[((), key_a, 0, link_metrics_default)]" key_a 5]
    by (simp add: n LORA_MAX_REASSEMBLED_LEN_def LORA_MAX_REASSEMBLIES_def)
       (simp add: sample_sent_def lora_sizes MAX_PAYLOAD_LEN_def LINK_HEADER_LEN_def)
qed

theorem ieee_frame_delivered_witness:
  "\<exists>rs es bs m. feed_air ieee_accept_fragment
        (on_air ieee_packet (\<lambda>k. assembled ieee_profile (sample_sent k)) [(8, key_a, 1, link_metrics_default), (9, key_a, 0, link_metrics_default)])
        (replicate 512 0) reassembler_new = Some (rs, es)
    \<and> Some (bs, m) \<in> set rs \<and> decode_frame bs = Inr \<lparr>lf_dst = BROADCAST, lf_src = Mac 2 0 0 0 0 1,
        lf_protocol = 0x4305, lf_payload = replicate 130 7\<rparr>"
proof -
  let ?txs = "[(8, key_a, 1, link_metrics_default), (9, key_a, 0, link_metrics_default)]"
  have n: "nfrags ieee_profile (assembled ieee_profile (sample_sent key_a)) = 2"
    by (simp add: nfrags_def sample_assembled) (simp add: ieee_sizes)
  have "\<forall>i<(2 :: nat). \<exists>seq m. (seq, key_a, i, m) \<in> set ?txs" by (auto simp: less_2_cases_iff)
  then show ?thesis
    using ieee_frame_delivered [of "replicate 512 0" "{key_a}" sample_sent ?txs key_a] n
    by (simp add: IEEE_MAX_REASSEMBLED_LEN_def IEEE_MAX_REASSEMBLIES_def)
       (simp add: sample_sent_def ieee_sizes MAX_PAYLOAD_LEN_def LINK_HEADER_LEN_def)
qed

end
