(* ===== verification/Ble.thy ===== *)
theory Ble
  imports Fragment
begin

text \<open>
  The mesh over BLE advertising, \<^verbatim>\<open>libs/blue/src\<close>: the advertising-data framing (\<^verbatim>\<open>ad.rs\<close>), the
  two on-air formats (\<^verbatim>\<open>mode.rs\<close>), the fragments with their mode tag and embedded origin
  (\<^verbatim>\<open>frame.rs\<close>) and the link over an injected advertiser (\<^verbatim>\<open>generic_link.rs\<close>). The advertiser is
  a parameter with its own state; the queue of observed reports is the list of reports that
  arrive before the sink is dropped. \<open>None\<close> is a panic.
\<close>

section \<open>Advertising data\<close>

definition AD_TYPE_MANUFACTURER_SPECIFIC :: u8 where
  "AD_TYPE_MANUFACTURER_SPECIFIC = 0xFF"

definition MESH_COMPANY_ID :: u16 where
  "MESH_COMPANY_ID = 0xFFFF"

definition AD_HDR_LEN :: nat where
  "AD_HDR_LEN = 4"

definition MAX_FRAGMENT_LEN :: nat where
  "MAX_FRAGMENT_LEN = 255 - (AD_HDR_LEN - 1)"

definition MAX_LEGACY_ADV_DATA_LEN :: nat where
  "MAX_LEGACY_ADV_DATA_LEN = 31"

definition MAX_LEGACY_FRAGMENT_LEN :: nat where
  "MAX_LEGACY_FRAGMENT_LEN = MAX_LEGACY_ADV_DATA_LEN - AD_HDR_LEN"

definition MAX_EXTENDED_ADV_DATA_LEN :: nat where
  "MAX_EXTENDED_ADV_DATA_LEN = 244"

definition MAX_EXTENDED_FRAGMENT_LEN :: nat where
  "MAX_EXTENDED_FRAGMENT_LEN = MAX_EXTENDED_ADV_DATA_LEN - AD_HDR_LEN"

definition build_ad_structure :: "bytes \<Rightarrow> bytes \<Rightarrow> (nat option \<times> bytes) option" where
  "build_ad_structure fragment out =
     (if length fragment > MAX_FRAGMENT_LEN then Some (None, out)
      else let total = AD_HDR_LEN + length fragment in
      if length out < total then Some (None, out)
      else do { out \<leftarrow> copy_into out 0 [word_of_nat (AD_HDR_LEN - 1 + length fragment)];
                out \<leftarrow> copy_into out 1 [AD_TYPE_MANUFACTURER_SPECIFIC];
                out \<leftarrow> copy_into out 2 (u16_to_le MESH_COMPANY_ID);
                out \<leftarrow> copy_into out 4 fragment;
                Some (Some total, out) })"

definition is_mesh_data :: "u8 \<Rightarrow> bytes \<Rightarrow> bool" where
  "is_mesh_data ad_type data \<longleftrightarrow> ad_type = AD_TYPE_MANUFACTURER_SPECIFIC \<and> length data \<ge> 2
     \<and> u16_of_le (data ! 0) (data ! 1) = MESH_COMPANY_ID"

text \<open>The scan; the position grows by at least two bytes per structure.\<close>

function find_from :: "bytes \<Rightarrow> nat \<Rightarrow> bytes option" where
  "find_from adv pos =
     (if \<not> pos < length adv then None
      else let len = unat (adv ! pos) in
      if len = 0 then None
      else let struct_end = pos + 1 + len in
      if struct_end > length adv then None
      else let ad_type = adv ! (pos + 1); data = take (struct_end - (pos + 2)) (drop (pos + 2) adv) in
      if is_mesh_data ad_type data then Some (drop 2 data)
      else find_from adv struct_end)"
  by pat_completeness auto

termination
  by (relation "measure (\<lambda>(adv, pos). length adv - pos)") auto

declare find_from.simps [simp del]

definition find_mesh_fragment :: "bytes \<Rightarrow> bytes option" where
  "find_mesh_fragment adv = find_from adv 0"

section \<open>Formats\<close>

datatype ble_adv_format = Legacy | Extended

definition ORIGIN_LEN :: nat where
  "ORIGIN_LEN = 6"

definition MODE_TAG_LEN :: nat where
  "MODE_TAG_LEN = 1"

definition FRAG_PAYLOAD_LEGACY :: nat where
  "FRAG_PAYLOAD_LEGACY = MAX_LEGACY_FRAGMENT_LEN - MODE_TAG_LEN - FRAG_HDR_LEN - ORIGIN_LEN"

definition FRAG_PAYLOAD_EXTENDED :: nat where
  "FRAG_PAYLOAD_EXTENDED = MAX_EXTENDED_FRAGMENT_LEN - MODE_TAG_LEN - FRAG_HDR_LEN - ORIGIN_LEN"

definition MAX_FRAGMENT_BYTES :: nat where
  "MAX_FRAGMENT_BYTES = MODE_TAG_LEN + FRAG_HDR_LEN + ORIGIN_LEN + FRAG_PAYLOAD_EXTENDED"

fun format_tag :: "ble_adv_format \<Rightarrow> u8" where
  "format_tag Legacy = 0"
| "format_tag Extended = 1"

definition format_from_tag :: "u8 \<Rightarrow> ble_adv_format option" where
  "format_from_tag t = (if t = 0 then Some Legacy else if t = 1 then Some Extended else None)"

fun frag_payload :: "ble_adv_format \<Rightarrow> nat" where
  "frag_payload Legacy = FRAG_PAYLOAD_LEGACY"
| "frag_payload Extended = FRAG_PAYLOAD_EXTENDED"

fun max_adv_data_len :: "ble_adv_format \<Rightarrow> nat" where
  "max_adv_data_len Legacy = MAX_LEGACY_ADV_DATA_LEN"
| "max_adv_data_len Extended = MAX_EXTENDED_ADV_DATA_LEN"

datatype ble_send_mode = SendLegacy | SendExtended | SendBoth

fun formats :: "ble_send_mode \<Rightarrow> ble_adv_format list" where
  "formats SendLegacy = [Legacy]"
| "formats SendExtended = [Extended]"
| "formats SendBoth = [Legacy, Extended]"

section \<open>Fragments\<close>

definition BLE_MAX_REASSEMBLED_LEN :: nat where
  "BLE_MAX_REASSEMBLED_LEN = 270"

definition BLE_MAX_REASSEMBLIES :: nat where
  "BLE_MAX_REASSEMBLIES = 4"

text \<open>The const parameters of the two reassemblers.\<close>

definition ble_profile :: "ble_adv_format \<Rightarrow> frag_profile" where
  "ble_profile f = \<lparr>fp_max_reassemblies = BLE_MAX_REASSEMBLIES, fp_frag_payload = frag_payload f,
     fp_max_reassembled_len = BLE_MAX_REASSEMBLED_LEN\<rparr>"

definition BLE_HEADER_LEN :: nat where
  "BLE_HEADER_LEN = 14"

definition ble_assemble_frame :: "mac \<Rightarrow> frame_data \<Rightarrow> (link_error + bytes \<times> nat) option" where
  "ble_assemble_frame origin data =
     (let frame_len = BLE_HEADER_LEN + length (fd_payload data) in
      if frame_len > BLE_MAX_REASSEMBLED_LEN then Some (Inl BufferFull)
      else do { frame \<leftarrow> copy_into (replicate BLE_MAX_REASSEMBLED_LEN 0) 0 (mac_bytes (fd_dst data));
                frame \<leftarrow> copy_into frame 6 (mac_bytes origin);
                frame \<leftarrow> copy_into frame 12 (u16_to_be (fd_protocol data));
                frame \<leftarrow> copy_into frame 14 (fd_payload data);
                Some (Inr (frame, frame_len)) })"

record ble_fragment_spec =
  bs_origin :: mac
  bs_msg_id :: u8
  bs_index :: nat
  bs_count :: nat
  bs_format :: ble_adv_format

definition ble_fragment_count :: "nat \<Rightarrow> ble_adv_format \<Rightarrow> (link_error + nat) option" where
  "ble_fragment_count frame_len format =
     do { count \<leftarrow> div_ceil frame_len (frag_payload format);
          Some (if count > MAX_FRAGMENTS then Inl BufferFull else Inr count) }"

definition ble_build_fragment :: "bytes \<Rightarrow> ble_fragment_spec \<Rightarrow> bytes \<Rightarrow> ((link_error + nat) \<times> bytes) option" where
  "ble_build_fragment frame spec out =
     (let budget = frag_payload (bs_format spec);
          start = bs_index spec * budget;
          end = min (start + budget) (length frame) in
      if start > end then Some (Inl BufferFull, out)
      else do { out \<leftarrow> copy_into out 0 [format_tag (bs_format spec)];
                hdr \<leftarrow> pack_header (bs_msg_id spec) (bs_index spec) (bs_count spec);
                out \<leftarrow> copy_into out MODE_TAG_LEN hdr;
                out \<leftarrow> copy_into out (MODE_TAG_LEN + FRAG_HDR_LEN) (mac_bytes (bs_origin spec));
                chunk \<leftarrow> get_range frame start end;
                out \<leftarrow> copy_into out (MODE_TAG_LEN + FRAG_HDR_LEN + ORIGIN_LEN) chunk;
                Some (Inr (MODE_TAG_LEN + FRAG_HDR_LEN + ORIGIN_LEN + (end - start)), out) })"

definition parse_fragment_with_origin :: "bytes \<Rightarrow> (ble_adv_format \<times> frag_header \<times> mac \<times> bytes) option" where
  "parse_fragment_with_origin bs =
     (case bs of
        [] \<Rightarrow> None
      | tag # rest \<Rightarrow>
          do { format \<leftarrow> format_from_tag tag;
               (hdr, rest) \<leftarrow> parse_fragment rest;
               if length rest < ORIGIN_LEN then None
               else do { origin \<leftarrow> mac_try_from (take ORIGIN_LEN rest);
                         Some (format, hdr, origin, drop ORIGIN_LEN rest) } })"

definition build_fragment_ad :: "bytes \<Rightarrow> ble_fragment_spec \<Rightarrow> bytes \<Rightarrow> ((link_error + nat) \<times> bytes) option" where
  "build_fragment_ad frame spec out =
     do { (r, fragment) \<leftarrow> ble_build_fragment frame spec (replicate MAX_FRAGMENT_BYTES 0);
          case r of
            Inl err \<Rightarrow> Some (Inl err, out)
          | Inr n \<Rightarrow>
              do { fragment \<leftarrow> get_range fragment 0 n;
                   (w, out) \<leftarrow> build_ad_structure fragment out;
                   case w of
                     None \<Rightarrow> Some (Inl BufferFull, out)
                   | Some written \<Rightarrow>
                       if written > max_adv_data_len (bs_format spec) then Some (Inl BufferFull, out)
                       else Some (Inr written, out) } }"

text \<open>An observed report; the advertiser address is kept for diagnostics only and left out.\<close>

record raw_report =
  rr_rssi :: "16 word option"
  rr_len :: u8
  rr_data :: bytes

definition raw_report_new :: "16 word option \<Rightarrow> bytes \<Rightarrow> raw_report option" where
  "raw_report_new rssi fragment =
     (let n = min (length fragment) MAX_FRAGMENT_BYTES in
      do { data \<leftarrow> copy_into (replicate MAX_FRAGMENT_BYTES 0) 0 (take n fragment);
           Some \<lparr>rr_rssi = rssi, rr_len = word_of_nat n, rr_data = data\<rparr> })"

section \<open>The link\<close>

type_synonym 's advertiser = "'s \<Rightarrow> ble_adv_format \<Rightarrow> bytes \<Rightarrow> link_error option \<times> 's"

record ble_link =
  bl_send_mode :: ble_send_mode
  bl_msg_id_ctr :: u8
  bl_legacy :: "mac reassembler"
  bl_extended :: "mac reassembler"
  bl_tx_fragment :: bytes
  bl_rx_frame :: bytes

definition ble_link_new :: "ble_send_mode \<Rightarrow> ble_link" where
  "ble_link_new send_mode =
     \<lparr>bl_send_mode = send_mode, bl_msg_id_ctr = 0, bl_legacy = reassembler_new, bl_extended = reassembler_new,
      bl_tx_fragment = replicate MAX_FRAGMENT_BYTES 0, bl_rx_frame = replicate BLE_MAX_REASSEMBLED_LEN 0\<rparr>"

definition next_msg_id :: "ble_link \<Rightarrow> u8 \<times> ble_link" where
  "next_msg_id l = (bl_msg_id_ctr l, l\<lparr>bl_msg_id_ctr := bl_msg_id_ctr l + 1\<rparr>)"

text \<open>
  One format's pass over the indices still to send: \<open>Inl\<close> is a build error, which ends the whole
  send; \<open>Inr (Some e)\<close> an advertise failure, which abandons the format.
\<close>

fun send_indices :: "'s advertiser \<Rightarrow> bytes \<Rightarrow> mac \<Rightarrow> u8 \<Rightarrow> nat \<Rightarrow> ble_adv_format \<Rightarrow> nat list \<Rightarrow> 's \<times> ble_link
    \<Rightarrow> ((link_error + link_error option) \<times> 's \<times> ble_link) option" where
  "send_indices adv frame origin msg_id count format [] (s, l) = Some (Inr None, s, l)"
| "send_indices adv frame origin msg_id count format (index # rest) (s, l) =
     do { (r, tx) \<leftarrow> ble_build_fragment frame \<lparr>bs_origin = origin, bs_msg_id = msg_id, bs_index = index,
                        bs_count = count, bs_format = format\<rparr> (bl_tx_fragment l);
          let l = l\<lparr>bl_tx_fragment := tx\<rparr>;
          case r of
            Inl err \<Rightarrow> Some (Inl err, s, l)
          | Inr n \<Rightarrow>
              do { fragment \<leftarrow> get_range tx 0 n;
                   case adv s format fragment of
                     (Some e, s) \<Rightarrow> Some (Inr (Some e), s, l)
                   | (None, s) \<Rightarrow> send_indices adv frame origin msg_id count format rest (s, l) } }"

fun send_formats :: "'s advertiser \<Rightarrow> bytes \<Rightarrow> mac \<Rightarrow> u8 \<Rightarrow> ble_adv_format list \<Rightarrow> bool \<Rightarrow> link_error option \<Rightarrow> 's \<times> ble_link
    \<Rightarrow> ((link_error + bool \<times> link_error option) \<times> 's \<times> ble_link) option" where
  "send_formats adv frame origin msg_id [] delivered first_err (s, l) = Some (Inr (delivered, first_err), s, l)"
| "send_formats adv frame origin msg_id (format # rest) delivered first_err (s, l) =
     do { c \<leftarrow> ble_fragment_count (length frame) format;
          case c of
            Inl err \<Rightarrow> Some (Inl err, s, l)
          | Inr count \<Rightarrow>
              do { (r, s, l) \<leftarrow> send_indices adv frame origin msg_id count format [0..<count] (s, l);
                   case r of
                     Inl err \<Rightarrow> Some (Inl err, s, l)
                   | Inr (Some e) \<Rightarrow>
                       send_formats adv frame origin msg_id rest delivered
                         (case first_err of None \<Rightarrow> Some e | Some e0 \<Rightarrow> Some e0) (s, l)
                   | Inr None \<Rightarrow> send_formats adv frame origin msg_id rest True first_err (s, l) } }"

definition ble_send :: "'s advertiser \<Rightarrow> mac \<Rightarrow> frame_data \<Rightarrow> 's \<times> ble_link \<Rightarrow> ((link_error + nat) \<times> 's \<times> ble_link) option" where
  "ble_send adv origin data sl =
     (case sl of (s, l) \<Rightarrow>
      do { a \<leftarrow> ble_assemble_frame origin data;
           case a of
             Inl err \<Rightarrow> Some (Inl err, s, l)
           | Inr (frame_bytes, frame_len) \<Rightarrow>
               (case next_msg_id l of (msg_id, l) \<Rightarrow>
                do { frame \<leftarrow> get_range frame_bytes 0 frame_len;
                     (r, s, l) \<leftarrow> send_formats adv frame origin msg_id (formats (bl_send_mode l)) False None (s, l);
                     case r of
                       Inl err \<Rightarrow> Some (Inl err, s, l)
                     | Inr (delivered, first_err) \<Rightarrow>
                         if delivered then Some (Inr frame_len, s, l)
                         else case first_err of Some e \<Rightarrow> Some (Inl e, s, l) | None \<Rightarrow> None }) })"

text \<open>One turn of the receive loop: the frame completed by a report, if any.\<close>

definition ble_report :: "raw_report \<Rightarrow> ble_link \<Rightarrow> ((nat \<times> link_metrics) option \<times> ble_link) option" where
  "ble_report report l =
     do { bs \<leftarrow> get_range (rr_data report) 0 (unat (rr_len report));
          case parse_fragment_with_origin bs of
            None \<Rightarrow> Some (None, l)
          | Some (format, hdr, origin, body) \<Rightarrow>
              let key = \<lparr>fk_addr = origin, fk_msg_id = fh_msg_id hdr\<rparr>;
                  metrics = \<lparr>lm_rssi_dbm = rr_rssi report, lm_snr_db = None, lm_quality = None\<rparr> in
              (case format of
                 Legacy \<Rightarrow>
                   do { (r, rx, es) \<leftarrow> accept (ble_profile Legacy) key hdr body metrics (bl_rx_frame l) (bl_legacy l);
                        Some (r, l\<lparr>bl_legacy := es, bl_rx_frame := rx\<rparr>) }
               | Extended \<Rightarrow>
                   do { (r, rx, es) \<leftarrow> accept (ble_profile Extended) key hdr body metrics (bl_rx_frame l) (bl_extended l);
                        Some (r, l\<lparr>bl_extended := es, bl_rx_frame := rx\<rparr>) }) }"

text \<open>The receive loop over the queue; an empty one means that the sink is gone.\<close>

fun ble_recv :: "raw_report list \<Rightarrow> ble_link \<Rightarrow> ((link_error + link_frame \<times> link_metrics) \<times> raw_report list \<times> ble_link) option" where
  "ble_recv [] l = Some (Inl ReceiveFailed, [], l)"
| "ble_recv (report # rest) l =
     do { (completed, l) \<leftarrow> ble_report report l;
          case completed of
            None \<Rightarrow> ble_recv rest l
          | Some (len, metrics) \<Rightarrow>
              do { bs \<leftarrow> get_range (bl_rx_frame l) 0 len;
                   Some (case link_frame_ref_from_bytes bs of
                           None \<Rightarrow> (Inl MalformedFrame, rest, l)
                         | Some frame \<Rightarrow> (Inr (frame, metrics), rest, l)) } }"

section \<open>Facts about the framing\<close>

lemmas ble_sizes = AD_HDR_LEN_def MAX_FRAGMENT_LEN_def MAX_LEGACY_ADV_DATA_LEN_def MAX_LEGACY_FRAGMENT_LEN_def
  MAX_EXTENDED_ADV_DATA_LEN_def MAX_EXTENDED_FRAGMENT_LEN_def ORIGIN_LEN_def MODE_TAG_LEN_def FRAG_PAYLOAD_LEGACY_def
  FRAG_PAYLOAD_EXTENDED_def MAX_FRAGMENT_BYTES_def BLE_MAX_REASSEMBLED_LEN_def BLE_MAX_REASSEMBLIES_def BLE_HEADER_LEN_def
  FRAG_HDR_LEN_def

text \<open>One advertising-data structure, and ours.\<close>

definition ad_structure :: "u8 \<times> bytes \<Rightarrow> bytes" where
  "ad_structure = (\<lambda>(ty, data). word_of_nat (length data + 1) # ty # data)"

definition mesh_structure :: "bytes \<Rightarrow> bytes" where
  "mesh_structure fragment = ad_structure (AD_TYPE_MANUFACTURER_SPECIFIC, u16_to_le MESH_COMPANY_ID @ fragment)"

definition foreign_structure :: "u8 \<times> bytes \<Rightarrow> bool" where
  "foreign_structure = (\<lambda>(ty, data). length data < 255 \<and> \<not> is_mesh_data ty data)"

lemma build_ad_structure_bytes:
  assumes "length fragment \<le> MAX_FRAGMENT_LEN" "AD_HDR_LEN + length fragment \<le> length out"
  shows "build_ad_structure fragment out =
    Some (Some (AD_HDR_LEN + length fragment), mesh_structure fragment @ drop (AD_HDR_LEN + length fragment) out)"
proof -
  let ?a = "[word_of_nat (AD_HDR_LEN - 1 + length fragment)]" and ?b = "[AD_TYPE_MANUFACTURER_SPECIFIC]"
    and ?c = "u16_to_le MESH_COMPANY_ID"
  have l: "4 + length fragment \<le> length out" using assms(2) by (simp add: AD_HDR_LEN_def)
  have "copy_into out 0 ?a = Some (?a @ drop 1 out)" using l by (subst copy_first) auto
  moreover have "copy_into (?a @ drop 1 out) 1 ?b = Some ((?a @ ?b) @ drop 2 out)" using l by (subst copy_next) (auto simp: numeral_2_eq_2)
  moreover have "copy_into ((?a @ ?b) @ drop 2 out) 2 ?c = Some ((?a @ ?b @ ?c) @ drop 4 out)" using l by (subst copy_next) auto
  moreover have "copy_into ((?a @ ?b @ ?c) @ drop 4 out) 4 fragment = Some ((?a @ ?b @ ?c @ fragment) @ drop (4 + length fragment) out)"
    using l by (subst copy_next) auto
  moreover have "mesh_structure fragment = ?a @ ?b @ ?c @ fragment"
    by (simp add: mesh_structure_def ad_structure_def AD_HDR_LEN_def)
  ultimately show ?thesis
    using assms by (simp add: build_ad_structure_def Let_def AD_HDR_LEN_def del: append.simps append_assoc)
qed

lemma find_from_shift: "find_from (xs @ ys) (length xs + p) = find_from ys p"
proof (induction ys p rule: find_from.induct)
  case (1 adv pos)
  show ?case
    using 1 by (subst (1 2) find_from.simps) (simp add: Let_def nth_append add.assoc)
qed

lemma find_from_structure:
  assumes "length data < 255"
  shows "find_from (ad_structure (ty, data) @ rest) 0 =
    (if is_mesh_data ty data then Some (drop 2 data) else find_from rest 0)"
proof -
  have "unat (word_of_nat (length data + 1) :: u8) = Suc (length data)"
    using assms unat_of_nat [where 'a = 8, of "length data + 1"] by simp
  moreover have "find_from (ad_structure (ty, data) @ rest) (length (ad_structure (ty, data)) + 0) = find_from rest 0"
    by (rule find_from_shift)
  ultimately show ?thesis
    by (subst find_from.simps) (simp add: ad_structure_def Let_def)
qed

lemma find_behind_foreign:
  assumes "\<forall>f\<in>set fs. foreign_structure f" "length fragment \<le> MAX_FRAGMENT_LEN"
  shows "find_mesh_fragment (concat (map ad_structure fs) @ mesh_structure fragment @ rest) = Some fragment"
proof -
  have "find_from (concat (map ad_structure fs) @ ys) 0 = find_from ys 0" for ys
    using assms(1) by (induction fs) (auto simp: foreign_structure_def find_from_structure)
  moreover have "find_from (mesh_structure fragment @ rest) 0 = Some fragment"
    using assms(2) unfolding mesh_structure_def
    by (subst find_from_structure) (simp_all add: ble_sizes u16_to_le_def is_mesh_data_def)
  ultimately show ?thesis by (simp add: find_mesh_fragment_def)
qed

section \<open>Fragments on the air\<close>

lemma ble_profile_ok: "frag_ok (ble_profile f)"
  by (cases f) (simp_all add: frag_ok_def reassembler_ok_def ble_profile_def ble_sizes MAX_FRAGMENTS_def)

definition ble_packet :: "ble_adv_format \<Rightarrow> mac frag_key \<Rightarrow> bytes \<Rightarrow> nat \<Rightarrow> bytes" where
  "ble_packet f k fr i = format_tag f # the (pack_header (fk_msg_id k) i (nfrags (ble_profile f) fr))
     @ mac_bytes (fk_addr k) @ frag (ble_profile f) fr i"

lemma format_from_tag_tag [simp]: "format_from_tag (format_tag f) = Some f"
  by (cases f) (simp_all add: format_from_tag_def)

lemma ble_fits: "length fr \<le> BLE_MAX_REASSEMBLED_LEN \<Longrightarrow> length fr \<le> fp_max_reassembled_len (ble_profile f)"
  by (simp add: ble_profile_def)

lemma frag_payload_bound: "frag_payload f \<le> 231"
  by (cases f) (simp_all add: ble_sizes)

lemma ble_count:
  assumes "length fr \<le> BLE_MAX_REASSEMBLED_LEN" "fr \<noteq> []"
  shows "ble_fragment_count (length fr) f = Some (Inr (nfrags (ble_profile f) fr))"
proof -
  have F: "0 < frag_payload f" using frag_ok_pos [OF ble_profile_ok] by (simp add: ble_profile_def)
  then have "1 \<le> (length fr + frag_payload f - 1) div frag_payload f"
    using ceil_less [OF F, of 0 "length fr"] assms(2) by (simp add: Suc_le_eq)
  then show ?thesis
    using F nfrags_limit(3) [OF ble_profile_ok ble_fits [OF assms(1)], of f]
    by (simp add: ble_fragment_count_def div_ceil_def nfrags_def ble_profile_def max_absorb1)
qed

lemma ble_build:
  assumes "length fr \<le> BLE_MAX_REASSEMBLED_LEN" "i < nfrags (ble_profile f) fr" "length out = MAX_FRAGMENT_BYTES"
  shows "ble_build_fragment fr \<lparr>bs_origin = fk_addr k, bs_msg_id = fk_msg_id k, bs_index = i,
      bs_count = nfrags (ble_profile f) fr, bs_format = f\<rparr> out
      = Some (Inr (length (ble_packet f k fr i)), ble_packet f k fr i @ drop (length (ble_packet f k fr i)) out)"
    and "length (ble_packet f k fr i) \<le> MAX_FRAGMENT_BYTES"
    and "parse_fragment_with_origin (ble_packet f k fr i)
      = Some (f, arrival_header (fk_msg_id k) i (nfrags (ble_profile f) fr), fk_addr k, frag (ble_profile f) fr i)"
proof -
  let ?P = "ble_profile f"
  let ?n = "nfrags ?P fr" and ?F = "frag_payload f"
  note P = ble_profile_ok [of f] and fits = ble_fits [OF assms(1), of f]
  obtain h where h: "pack_header (fk_msg_id k) i ?n = Some h" "length h = FRAG_HDR_LEN"
      "parse_fragment (h @ mac_bytes (fk_addr k) @ frag ?P fr i) = Some (arrival_header (fk_msg_id k) i ?n, mac_bytes (fk_addr k) @ frag ?P fr i)"
    using parse_pack [OF assms(2) nfrags_limit(3) [OF P fits]] by blast
  have fe: "i * ?F + length (frag ?P fr i) \<le> length fr" "length (frag ?P fr i) \<le> ?F"
    using frag_end(1,4) [OF P assms(2)] by (simp_all add: ble_profile_def)
  let ?t = "[format_tag f]" and ?m = "mac_bytes (fk_addr k)" and ?b = "frag ?P fr i"
  have e: "min (i * ?F + ?F) (length fr) = i * ?F + length ?b"
    using fe(1) by (simp add: frag_def ble_profile_def)
  have l: "9 + length ?b \<le> length out" using fe(2) frag_payload_bound [of f] assms(3) by (simp add: ble_sizes)
  have "get_range fr (i * ?F) (i * ?F + length ?b) = Some ?b"
    using fe(1) by (simp add: get_range_def) (simp add: frag_def ble_profile_def min_def)
  moreover have "copy_into out 0 ?t = Some (?t @ drop 1 out)" using l by (subst copy_first) auto
  moreover have "copy_into (?t @ drop 1 out) 1 h = Some ((?t @ h) @ drop 3 out)"
    using l h(2) by (subst copy_next) (auto simp: FRAG_HDR_LEN_def numeral_3_eq_3)
  moreover have "copy_into ((?t @ h) @ drop 3 out) 3 ?m = Some ((?t @ h @ ?m) @ drop 9 out)"
    using l h(2) by (subst copy_next) (auto simp: FRAG_HDR_LEN_def)
  moreover have "copy_into ((?t @ h @ ?m) @ drop 9 out) 9 ?b = Some ((?t @ h @ ?m @ ?b) @ drop (9 + length ?b) out)"
    using l h(2) by (subst copy_next) (auto simp: FRAG_HDR_LEN_def)
  moreover have "ble_packet f k fr i = ?t @ h @ ?m @ ?b" "length (ble_packet f k fr i) = 9 + length ?b"
    using h(1,2) by (simp_all add: ble_packet_def FRAG_HDR_LEN_def)
  ultimately show "ble_build_fragment fr \<lparr>bs_origin = fk_addr k, bs_msg_id = fk_msg_id k, bs_index = i, bs_count = ?n, bs_format = f\<rparr> out
      = Some (Inr (length (ble_packet f k fr i)), ble_packet f k fr i @ drop (length (ble_packet f k fr i)) out)"
    using h(1) e by (simp add: ble_build_fragment_def Let_def MODE_TAG_LEN_def FRAG_HDR_LEN_def ORIGIN_LEN_def numeral_3_eq_3
        del: append.simps append_assoc)
  show "length (ble_packet f k fr i) \<le> MAX_FRAGMENT_BYTES"
    using fe(2) h(1,2) frag_payload_bound [of f] by (simp add: ble_packet_def ble_sizes)
  show "parse_fragment_with_origin (ble_packet f k fr i)
      = Some (f, arrival_header (fk_msg_id k) i ?n, fk_addr k, frag ?P fr i)"
    using h by (simp add: parse_fragment_with_origin_def ble_packet_def ORIGIN_LEN_def)
qed

section \<open>Sending\<close>

text \<open>An advertiser that refuses whole formats and records the rest.\<close>

definition recorder :: "(ble_adv_format \<Rightarrow> link_error option) \<Rightarrow> (ble_adv_format \<times> bytes) list advertiser" where
  "recorder refuse s f b = (case refuse f of Some e \<Rightarrow> (Some e, s) | None \<Rightarrow> (None, s @ [(f, b)]))"

definition format_packets :: "mac frag_key \<Rightarrow> bytes \<Rightarrow> ble_adv_format \<Rightarrow> (ble_adv_format \<times> bytes) list" where
  "format_packets k fr f = map (\<lambda>i. (f, ble_packet f k fr i)) [0..<nfrags (ble_profile f) fr]"

definition tx_ready :: "ble_link \<Rightarrow> bool" where
  "tx_ready l \<longleftrightarrow> length (bl_tx_fragment l) = MAX_FRAGMENT_BYTES"

definition same_but_tx :: "ble_link \<Rightarrow> ble_link \<Rightarrow> bool" where
  "same_but_tx l l' \<longleftrightarrow> tx_ready l' \<and> l' = l\<lparr>bl_tx_fragment := bl_tx_fragment l'\<rparr>"

lemma send_step:
  assumes "length fr \<le> BLE_MAX_REASSEMBLED_LEN" "i < nfrags (ble_profile f) fr" "tx_ready l"
  shows "\<exists>l'. same_but_tx l l' \<and>
    send_indices adv fr (fk_addr k) (fk_msg_id k) (nfrags (ble_profile f) fr) f (i # rest) (s, l) =
      (case adv s f (ble_packet f k fr i) of
         (Some e, s) \<Rightarrow> Some (Inr (Some e), s, l')
       | (None, s) \<Rightarrow> send_indices adv fr (fk_addr k) (fk_msg_id k) (nfrags (ble_profile f) fr) f rest (s, l'))"
proof -
  let ?p = "ble_packet f k fr i"
  let ?tx = "?p @ drop (length ?p) (bl_tx_fragment l)"
  note b = ble_build [OF assms(1,2), of "bl_tx_fragment l" k]
  have t: "length (bl_tx_fragment l) = MAX_FRAGMENT_BYTES" using assms(3) by (simp add: tx_ready_def)
  have "get_range ?tx 0 (length ?p) = Some ?p" by (simp add: get_range_def)
  moreover have "same_but_tx l (l\<lparr>bl_tx_fragment := ?tx\<rparr>)" using t b(2) by (simp add: same_but_tx_def tx_ready_def)
  ultimately show ?thesis
    using b(1) [OF t] by (intro exI [of _ "l\<lparr>bl_tx_fragment := ?tx\<rparr>"]) (simp add: Let_def)
qed

lemma same_but_tx_trans: "same_but_tx l l1 \<Longrightarrow> same_but_tx l1 l2 \<Longrightarrow> same_but_tx l l2"
  by (cases l; cases l1; cases l2) (auto simp: same_but_tx_def)

lemma send_indices_recorded:
  assumes "length fr \<le> BLE_MAX_REASSEMBLED_LEN" "refuse f = None" "tx_ready l"
    and "\<forall>i\<in>set idx. i < nfrags (ble_profile f) fr"
  shows "\<exists>l'. same_but_tx l l' \<and>
    send_indices (recorder refuse) fr (fk_addr k) (fk_msg_id k) (nfrags (ble_profile f) fr) f idx (s, l)
      = Some (Inr None, s @ map (\<lambda>i. (f, ble_packet f k fr i)) idx, l')"
  using assms(3,4)
proof (induction idx arbitrary: s l)
  case Nil
  then show ?case by (auto simp: same_but_tx_def)
next
  case (Cons i idx)
  obtain l1 where l1: "same_but_tx l l1"
    "send_indices (recorder refuse) fr (fk_addr k) (fk_msg_id k) (nfrags (ble_profile f) fr) f (i # idx) (s, l)
      = send_indices (recorder refuse) fr (fk_addr k) (fk_msg_id k) (nfrags (ble_profile f) fr) f idx (s @ [(f, ble_packet f k fr i)], l1)"
    using send_step [where adv = "recorder refuse" and k = k and rest = idx and s = s and i = i and f = f, OF assms(1) _ Cons.prems(1)] Cons.prems(2) assms(2)
    by (auto simp: recorder_def)
  have "tx_ready l1" using l1(1) by (simp add: same_but_tx_def)
  from Cons.IH [OF this, of "s @ [(f, ble_packet f k fr i)]"] Cons.prems(2) obtain l2 where l2: "same_but_tx l1 l2"
    "send_indices (recorder refuse) fr (fk_addr k) (fk_msg_id k) (nfrags (ble_profile f) fr) f idx (s @ [(f, ble_packet f k fr i)], l1)
      = Some (Inr None, (s @ [(f, ble_packet f k fr i)]) @ map (\<lambda>i. (f, ble_packet f k fr i)) idx, l2)"
    by auto
  show ?case using same_but_tx_trans [OF l1(1) l2(1)] l1(2) l2(2) by auto
qed

lemma send_indices_refused:
  fixes k :: "mac frag_key"
  assumes "length fr \<le> BLE_MAX_REASSEMBLED_LEN" "refuse f = Some e" "tx_ready l"
  shows "\<exists>l'. same_but_tx l l' \<and>
    send_indices (recorder refuse) fr (fk_addr k) (fk_msg_id k) (nfrags (ble_profile f) fr) f [0..<nfrags (ble_profile f) fr] (s, l)
      = Some (Inr (Some e), s, l')"
proof -
  have "[0..<nfrags (ble_profile f) fr] = 0 # [Suc 0..<nfrags (ble_profile f) fr]"
    using nfrags_pos by (metis upt_conv_Cons)
  then show ?thesis
    using send_step [where adv = "recorder refuse" and k = k and s = s and f = f and i = 0
          and rest = "[Suc 0..<nfrags (ble_profile f) fr]", OF assms(1) nfrags_pos assms(3)] assms(2)
    by (auto simp: recorder_def)
qed

fun first_refusal :: "(ble_adv_format \<Rightarrow> link_error option) \<Rightarrow> ble_adv_format list \<Rightarrow> link_error option" where
  "first_refusal refuse [] = None"
| "first_refusal refuse (f # fs) = (case refuse f of Some e \<Rightarrow> Some e | None \<Rightarrow> first_refusal refuse fs)"

definition accepted :: "(ble_adv_format \<Rightarrow> link_error option) \<Rightarrow> ble_adv_format list \<Rightarrow> ble_adv_format list" where
  "accepted refuse fs = filter (\<lambda>f. refuse f = None) fs"

lemma send_formats_recorded:
  assumes "length fr \<le> BLE_MAX_REASSEMBLED_LEN" "fr \<noteq> []" "tx_ready l"
  shows "\<exists>l'. same_but_tx l l' \<and>
    send_formats (recorder refuse) fr (fk_addr k) (fk_msg_id k) fs d err (s, l)
      = Some (Inr (d \<or> accepted refuse fs \<noteq> [], case err of Some e \<Rightarrow> Some e | None \<Rightarrow> first_refusal refuse fs),
          s @ concat (map (format_packets k fr) (accepted refuse fs)), l')"
  using assms(3)
proof (induction fs arbitrary: d err s l)
  case Nil
  then show ?case by (auto simp: same_but_tx_def accepted_def split: option.split)
next
  case (Cons f fs)
  note c = ble_count [OF assms(1,2), of f]
  show ?case
  proof (cases "refuse f")
    case None
    obtain l1 where l1: "same_but_tx l l1"
      "send_indices (recorder refuse) fr (fk_addr k) (fk_msg_id k) (nfrags (ble_profile f) fr) f [0..<nfrags (ble_profile f) fr] (s, l)
        = Some (Inr None, s @ format_packets k fr f, l1)"
      using send_indices_recorded [where refuse = refuse and f = f and k = k and s = s and idx = "[0..<nfrags (ble_profile f) fr]",
          OF assms(1) None Cons.prems] by (auto simp: format_packets_def)
    have "tx_ready l1" using l1(1) by (simp add: same_but_tx_def)
    from Cons.IH [OF this, of True err "s @ format_packets k fr f"] show ?thesis
      using None c l1 same_but_tx_trans [OF l1(1)] by (auto simp: accepted_def split: option.splits)
  next
    case (Some e)
    obtain l1 where l1: "same_but_tx l l1"
      "send_indices (recorder refuse) fr (fk_addr k) (fk_msg_id k) (nfrags (ble_profile f) fr) f [0..<nfrags (ble_profile f) fr] (s, l)
        = Some (Inr (Some e), s, l1)"
      using send_indices_refused [where refuse = refuse and f = f and k = k and s = s, OF assms(1) Some Cons.prems] by blast
    have "tx_ready l1" using l1(1) by (simp add: same_but_tx_def)
    from Cons.IH [OF this, of d "case err of None \<Rightarrow> Some e | Some e0 \<Rightarrow> Some e0" s] show ?thesis
      using Some c l1 same_but_tx_trans [OF l1(1)] by (auto simp: accepted_def split: option.splits)
  qed
qed

section \<open>Receiving\<close>

definition ble_table :: "ble_adv_format \<Rightarrow> ble_link \<Rightarrow> mac reassembler" where
  "ble_table f l = (case f of Legacy \<Rightarrow> bl_legacy l | Extended \<Rightarrow> bl_extended l)"

definition report_of :: "16 word option \<Rightarrow> bytes \<Rightarrow> raw_report" where
  "report_of rssi p = the (raw_report_new rssi p)"

definition ble_metrics :: "16 word option \<Rightarrow> link_metrics" where
  "ble_metrics rssi = \<lparr>lm_rssi_dbm = rssi, lm_snr_db = None, lm_quality = None\<rparr>"

lemma report_bytes:
  assumes "length p \<le> MAX_FRAGMENT_BYTES"
  shows "raw_report_new rssi p = Some (report_of rssi p)"
    and "get_range (rr_data (report_of rssi p)) 0 (unat (rr_len (report_of rssi p))) = Some p"
    and "rr_rssi (report_of rssi p) = rssi"
proof -
  have l: "length p \<le> 240" using assms by (simp add: ble_sizes)
  have r: "raw_report_new rssi p = Some \<lparr>rr_rssi = rssi, rr_len = word_of_nat (length p), rr_data = p @ replicate (240 - length p) 0\<rparr>"
    using l by (simp add: raw_report_new_def ble_sizes copy_into_def Let_def min_absorb1)
  moreover have "unat (word_of_nat (length p) :: u8) = length p" using l by (simp add: unat_of_nat)
  ultimately show "raw_report_new rssi p = Some (report_of rssi p)"
    "get_range (rr_data (report_of rssi p)) 0 (unat (rr_len (report_of rssi p))) = Some p"
    "rr_rssi (report_of rssi p) = rssi"
    using l by (simp_all add: report_of_def get_range_def)
qed

lemma arrival_msg_id [simp]: "fh_msg_id (arrival_header m i n) = m"
  by (simp add: arrival_header_def)

text \<open>
  A stream of messages, numbered; two of them may carry the same key when the message identifier
  has come round. The table holds the open ones, which must have different keys.
\<close>

definition stream_tab :: "frag_profile \<Rightarrow> (nat \<Rightarrow> bytes) \<Rightarrow> (nat \<Rightarrow> 'a frag_key) \<Rightarrow> (nat \<Rightarrow> nat set) \<Rightarrow> 'a reassembler \<Rightarrow> bool" where
  "stream_tab P fr key got es \<longleftrightarrow> (\<exists>msg gk. tab P msg gk es
     \<and> (\<forall>m. got m \<noteq> {} \<longrightarrow> msg (key m) = fr m \<and> gk (key m) = got m)
     \<and> (\<forall>k. gk k \<noteq> {} \<longrightarrow> (\<exists>m. got m \<noteq> {} \<and> key m = k)))"

lemma stream_tab_empty: "stream_tab P fr key (\<lambda>_. {}) []"
  unfolding stream_tab_def by (rule exI [of _ "\<lambda>_. []"], rule exI [of _ "\<lambda>_. {}"]) (simp add: tab_def)

lemma tab_rename:
  assumes "tab P msg got es" "got k \<noteq> {} \<Longrightarrow> msg k = b"
  shows "tab P (msg(k := b)) got es"
  using assms by (auto simp: tab_def)

lemma stream_accept:
  fixes key :: "nat \<Rightarrow> 'a frag_key"
  assumes P: "frag_ok P" and len: "length (fr m) \<le> fp_max_reassembled_len P" and i: "i < nfrags P (fr m)"
    and t: "stream_tab P fr key got es" and out: "fp_max_reassembled_len P \<le> length out"
    and fin: "finite (insert m {m'. got m' \<noteq> {}})" and room: "card (insert m {m'. got m' \<noteq> {}}) \<le> fp_max_reassemblies P"
    and inj: "inj_on key (insert m {m'. got m' \<noteq> {}})"
  shows "\<exists>es'. accept P (key m) (arrival_header (fk_msg_id (key m)) i (nfrags P (fr m))) (frag P (fr m) i) mt out es =
      Some (if insert i (got m) = {0..<nfrags P (fr m)}
            then (Some (length (fr m), mt), fr m @ drop (length (fr m)) out, es')
            else (None, out, es'))
    \<and> stream_tab P fr key (got(m := if insert i (got m) = {0..<nfrags P (fr m)} then {} else insert i (got m))) es'"
proof -
  let ?O = "insert m {m'. got m' \<noteq> {}}" and ?S = "if insert i (got m) = {0..<nfrags P (fr m)} then {} else insert i (got m)"
  obtain msg gk where g: "tab P msg gk es" "\<And>m. got m \<noteq> {} \<Longrightarrow> msg (key m) = fr m \<and> gk (key m) = got m"
      "\<And>k. gk k \<noteq> {} \<Longrightarrow> \<exists>m. got m \<noteq> {} \<and> key m = k"
    using t unfolding stream_tab_def by blast
  have same: "m' = m" if "got m' \<noteq> {}" "key m' = key m" for m' using inj_onD [OF inj that(2)] that(1) by simp
  have gm: "gk (key m) = got m" using g(2,3) same by metis
  let ?msg = "msg(key m := fr m)"
  have t': "tab P ?msg gk es" using g(1,2) gm by (intro tab_rename) auto
  have sub: "{k. gk k \<noteq> {}} \<subseteq> key ` ?O" using g(3) by blast
  have c: "card (key ` ?O) \<le> fp_max_reassemblies P" using card_image_le [OF fin, of key] room by linarith
  have k: "?msg (key m) = fr m" by simp
  obtain es' where es': "accept P (key m) (arrival_header (fk_msg_id (key m)) i (nfrags P (fr m))) (frag P (fr m) i) mt out es =
      Some (if insert i (got m) = {0..<nfrags P (fr m)}
            then (Some (length (fr m), mt), fr m @ drop (length (fr m)) out, es')
            else (None, out, es'))" "tab P ?msg (gk(key m := ?S)) es'"
    using accept_ok [where msg = ?msg and k = "key m" and m = mt, OF P _ _ t' finite_imageI [OF fin] _ sub c out] len i
    unfolding k gm by blast
  have "?msg (key m') = fr m' \<and> (gk(key m := ?S)) (key m') = (got(m := ?S)) m'" if "(got(m := ?S)) m' \<noteq> {}" for m'
    using that g(2) [of m'] same [of m'] by (cases "m' = m") auto
  moreover have "\<exists>m'. (got(m := ?S)) m' \<noteq> {} \<and> key m' = k'" if "(gk(key m := ?S)) k' \<noteq> {}" for k'
  proof (cases "k' = key m")
    case True
    then show ?thesis using that by (intro exI [of _ m]) simp
  next
    case False
    then show ?thesis using that g(3) [of k'] by force
  qed
  ultimately have "stream_tab P fr key (got(m := ?S)) es'"
    unfolding stream_tab_def using es'(2) by blast
  then show ?thesis using es'(1) by blast
qed

text \<open>One report of a stream: the other format's table is left alone.\<close>

lemma ble_report_packet:
  fixes fr :: "nat \<Rightarrow> bytes" and key :: "nat \<Rightarrow> mac frag_key" and got :: "nat \<Rightarrow> nat set"
  assumes "length (fr m) \<le> BLE_MAX_REASSEMBLED_LEN" "i < nfrags (ble_profile f) (fr m)"
    and "stream_tab (ble_profile f) fr key got (ble_table f l)" "length (bl_rx_frame l) = BLE_MAX_REASSEMBLED_LEN"
    and "finite (insert m {m'. got m' \<noteq> {}})" "card (insert m {m'. got m' \<noteq> {}}) \<le> BLE_MAX_REASSEMBLIES"
    and "inj_on key (insert m {m'. got m' \<noteq> {}})"
  defines "full \<equiv> insert i (got m) = {0..<nfrags (ble_profile f) (fr m)}"
  shows "\<exists>l'. ble_report (report_of rssi (ble_packet f (key m) (fr m) i)) l =
      Some (if full then Some (length (fr m), ble_metrics rssi) else None, l')
    \<and> length (bl_rx_frame l') = BLE_MAX_REASSEMBLED_LEN \<and> (full \<longrightarrow> take (length (fr m)) (bl_rx_frame l') = fr m)
    \<and> stream_tab (ble_profile f) fr key (got(m := if full then {} else insert i (got m))) (ble_table f l')
    \<and> (\<forall>f'. f' \<noteq> f \<longrightarrow> ble_table f' l' = ble_table f' l)"
proof -
  let ?P = "ble_profile f" and ?k = "key m" and ?fr = "fr m"
  note b = ble_build(2,3) [OF assms(1,2), of "replicate MAX_FRAGMENT_BYTES 0" ?k, simplified]
  obtain es where es: "accept ?P ?k (arrival_header (fk_msg_id ?k) i (nfrags ?P ?fr)) (frag ?P ?fr i) (ble_metrics rssi) (bl_rx_frame l) (ble_table f l) =
      Some (if full then (Some (length ?fr, ble_metrics rssi), ?fr @ drop (length ?fr) (bl_rx_frame l), es)
            else (None, bl_rx_frame l, es))"
      "stream_tab ?P fr key (got(m := if full then {} else insert i (got m))) es"
    using stream_accept [where mt = "ble_metrics rssi", OF ble_profile_ok ble_fits [OF assms(1)] assms(2,3) _ assms(5) _ assms(7), of "bl_rx_frame l"] assms(4,6)
    unfolding full_def by (auto simp: ble_profile_def)
  let ?rx = "if full then ?fr @ drop (length ?fr) (bl_rx_frame l) else bl_rx_frame l"
  let ?l = "case f of Legacy \<Rightarrow> l\<lparr>bl_legacy := es, bl_rx_frame := ?rx\<rparr> | Extended \<Rightarrow> l\<lparr>bl_extended := es, bl_rx_frame := ?rx\<rparr>"
  have k: "\<lparr>fk_addr = fk_addr ?k, fk_msg_id = fk_msg_id ?k\<rparr> = ?k" by simp
  have "ble_report (report_of rssi (ble_packet f ?k ?fr i)) l = Some (if full then Some (length ?fr, ble_metrics rssi) else None, ?l)"
    using report_bytes [OF b(1), of rssi] b(2) es(1)
    by (cases f) (auto simp: ble_report_def ble_table_def ble_metrics_def [symmetric] k)
  moreover have "length (bl_rx_frame ?l) = BLE_MAX_REASSEMBLED_LEN" "bl_rx_frame ?l = ?rx" "ble_table f ?l = es"
    using assms(1,4) by (cases f; simp add: ble_table_def)+
  moreover have "\<forall>f'. f' \<noteq> f \<longrightarrow> ble_table f' ?l = ble_table f' l" by (auto simp: ble_table_def split: ble_adv_format.split)
  ultimately show ?thesis using es(2) by (intro exI [of _ ?l]) auto
qed

text \<open>Receiving until the sink is gone: every frame, or malformed frame, in the order of completion.\<close>

lemma ble_recv_shorter:
  "ble_recv reports l = Some (r, rest, l') \<Longrightarrow> r \<noteq> Inl ReceiveFailed \<Longrightarrow> length rest < length reports"
proof (induction reports arbitrary: l)
  case (Cons report reports)
  then show ?case by (fastforce simp: bind_eq_Some_conv split: option.splits prod.splits)
qed simp

function ble_recv_all :: "raw_report list \<Rightarrow> ble_link \<Rightarrow> ((link_error + link_frame \<times> link_metrics) list \<times> ble_link) option" where
  "ble_recv_all reports l =
     (case ble_recv reports l of
        None \<Rightarrow> None
      | Some (r, rest, l) \<Rightarrow> if r = Inl ReceiveFailed then Some ([], l) else map_option (apfst ((#) r)) (ble_recv_all rest l))"
  by pat_completeness auto

termination
  by (relation "measure (\<lambda>(reports, l). length reports)") (auto dest: ble_recv_shorter)

declare ble_recv_all.simps [simp del]

lemma ble_recv_all_Nil: "ble_recv_all [] l = Some ([], l)"
  by (simp add: ble_recv_all.simps)

lemma ble_recv_all_open:
  assumes "ble_report report l = Some (None, l')"
  shows "ble_recv_all (report # reports) l = ble_recv_all reports l'"
  using assms by (subst (1 2) ble_recv_all.simps) simp

lemma ble_recv_all_complete:
  assumes "ble_report report l = Some (Some (n, metrics), l')" "n \<le> length (bl_rx_frame l')"
    and "link_frame_ref_from_bytes (take n (bl_rx_frame l')) = Some frame"
  shows "ble_recv_all (report # reports) l = map_option (apfst ((#) (Inr (frame, metrics)))) (ble_recv_all reports l')"
  using assms by (subst ble_recv_all.simps) (simp add: get_range_def)

section \<open>Properties\<close>

lemma ble_assemble:
  assumes "length (fd_payload data) \<le> 256"
  shows "\<exists>bs. ble_assemble_frame origin data = Some (Inr (bs, 14 + length (fd_payload data)))
    \<and> get_range bs 0 (14 + length (fd_payload data)) = Some (eth_frame (fd_dst data) origin (fd_protocol data) (fd_payload data))"
proof -
  let ?z = "replicate 270 0 :: bytes" and ?a = "mac_bytes (fd_dst data)" and ?b = "mac_bytes origin"
    and ?c = "u16_to_be (fd_protocol data)" and ?p = "fd_payload data"
  have "copy_into ?z 0 ?a = Some (?a @ drop 6 ?z)" by (subst copy_first) auto
  moreover have "copy_into (?a @ drop 6 ?z) 6 ?b = Some ((?a @ ?b) @ drop 12 ?z)" by (subst copy_next) auto
  moreover have "copy_into ((?a @ ?b) @ drop 12 ?z) 12 ?c = Some ((?a @ ?b @ ?c) @ drop 14 ?z)" by (subst copy_next) auto
  moreover have "copy_into ((?a @ ?b @ ?c) @ drop 14 ?z) 14 ?p = Some ((?a @ ?b @ ?c @ ?p) @ drop (14 + length ?p) ?z)"
    using assms by (subst copy_next) auto
  moreover have "get_range ((?a @ ?b @ ?c @ ?p) @ drop (14 + length ?p) ?z) 0 (14 + length ?p)
      = Some (eth_frame (fd_dst data) origin (fd_protocol data) ?p)"
    using assms by (simp add: get_range_def eth_frame_def)
  ultimately show ?thesis
    using assms by (simp add: ble_assemble_frame_def Let_def ble_sizes del: append_assoc drop_replicate)
qed

lemma ble_send_recorded:
  fixes origin :: mac
  assumes "length (fd_payload data) \<le> 256" "tx_ready l"
  defines "fr \<equiv> eth_frame (fd_dst data) origin (fd_protocol data) (fd_payload data)"
  shows "\<exists>l'. bl_msg_id_ctr l' = bl_msg_id_ctr l + 1 \<and> bl_send_mode l' = bl_send_mode l \<and> tx_ready l' \<and>
    ble_send (recorder refuse) origin data (s, l) =
      Some (case accepted refuse (formats (bl_send_mode l)) of
              [] \<Rightarrow> Inl (the (first_refusal refuse (formats (bl_send_mode l))))
            | _ \<Rightarrow> Inr (14 + length (fd_payload data)),
          s @ concat (map (format_packets \<lparr>fk_addr = origin, fk_msg_id = bl_msg_id_ctr l\<rparr> fr) (accepted refuse (formats (bl_send_mode l)))), l')"
proof -
  let ?k = "\<lparr>fk_addr = origin, fk_msg_id = bl_msg_id_ctr l\<rparr>" and ?fs = "formats (bl_send_mode l)"
  let ?l = "l\<lparr>bl_msg_id_ctr := bl_msg_id_ctr l + 1\<rparr>"
  obtain bs where bs: "ble_assemble_frame origin data = Some (Inr (bs, 14 + length (fd_payload data)))"
      "get_range bs 0 (14 + length (fd_payload data)) = Some fr"
    using ble_assemble [OF assms(1)] unfolding fr_def by blast
  have len: "length fr = 14 + length (fd_payload data)" by (simp add: fr_def ETH_HEADER_LEN_def)
  then have fits: "length fr \<le> BLE_MAX_REASSEMBLED_LEN" "fr \<noteq> []" using assms(1) by (auto simp: ble_sizes)
  have "tx_ready ?l" using assms(2) by (simp add: tx_ready_def)
  from send_formats_recorded [OF fits this, of refuse ?k ?fs False None s] obtain l' where l': "same_but_tx ?l l'"
      "send_formats (recorder refuse) fr origin (bl_msg_id_ctr l) ?fs False None (s, ?l)
        = Some (Inr (accepted refuse ?fs \<noteq> [], first_refusal refuse ?fs), s @ concat (map (format_packets ?k fr) (accepted refuse ?fs)), l')"
    by auto
  have "accepted refuse fs = [] \<Longrightarrow> fs \<noteq> [] \<Longrightarrow> \<exists>e. first_refusal refuse fs = Some e" for fs
    by (cases fs) (auto simp: accepted_def split: option.splits if_splits)
  moreover have "?fs \<noteq> []" by (cases "bl_send_mode l") simp_all
  ultimately have "accepted refuse ?fs = [] \<Longrightarrow> \<exists>e. first_refusal refuse ?fs = Some e" by blast
  moreover have "bl_msg_id_ctr l' = bl_msg_id_ctr l + 1 \<and> bl_send_mode l' = bl_send_mode l \<and> tx_ready l'"
    using l'(1) by (cases l; cases l') (auto simp: same_but_tx_def)
  ultimately show ?thesis
    using bs l'(2) by (intro exI [of _ l']) (auto simp: ble_send_def next_msg_id_def split: list.split option.split)
qed

text \<open>
  A fragment wrapped in this mesh's advertising structure is found again by the scan, behind
  any well-formed foreign structures and whatever follows it.
\<close>

theorem mesh_fragment_found:
  assumes "length fragment \<le> MAX_FRAGMENT_LEN" "AD_HDR_LEN + length fragment \<le> length out"
    and "\<forall>f\<in>set foreign. foreign_structure f"
  shows "\<exists>n out'. build_ad_structure fragment out = Some (Some n, out')
    \<and> find_mesh_fragment (concat (map ad_structure foreign) @ take n out' @ rest) = Some fragment"
proof -
  have "length (mesh_structure fragment) = AD_HDR_LEN + length fragment"
    by (simp add: mesh_structure_def ad_structure_def AD_HDR_LEN_def)
  then show ?thesis
    using build_ad_structure_bytes [OF assms(1,2)] find_behind_foreign [OF assms(3,1), of rest] by simp
qed

text \<open>
  A send succeeds exactly when some configured format is not refused by the controller; then
  the air carries, format by format, every fragment of the frame in every accepted format and
  nothing of the refused ones. When every format is refused the first refusal is reported. Under
  the mode that sends both, a controller without extended advertising thus loses nothing.
\<close>

theorem ble_send_outcome:
  assumes "length (fd_payload data) \<le> 256" "tx_ready l"
  shows "\<exists>l'. ble_send (recorder refuse) origin data (s, l) =
      Some (case accepted refuse (formats (bl_send_mode l)) of
              [] \<Rightarrow> Inl (the (first_refusal refuse (formats (bl_send_mode l))))
            | _ \<Rightarrow> Inr (14 + length (fd_payload data)),
          s @ concat (map (format_packets \<lparr>fk_addr = origin, fk_msg_id = bl_msg_id_ctr l\<rparr>
                (eth_frame (fd_dst data) origin (fd_protocol data) (fd_payload data)))
              (accepted refuse (formats (bl_send_mode l)))), l')
    \<and> bl_msg_id_ctr l' = bl_msg_id_ctr l + 1"
  using ble_send_recorded [where origin = origin and refuse = refuse and s = s, OF assms] by blast

section \<open>A stream of frames\<close>

text \<open>
  The frames \<open>datas\<close> sent one after another, numbered from zero: their bytes, their keys (the
  identifier of the first one is \<open>id0\<close>, and the counter wraps), the number of fragments in each
  format and the fragments themselves.
\<close>

definition stream_frame :: "mac \<Rightarrow> frame_data list \<Rightarrow> nat \<Rightarrow> bytes" where
  "stream_frame origin datas m =
     eth_frame (fd_dst (datas ! m)) origin (fd_protocol (datas ! m)) (fd_payload (datas ! m))"

definition stream_key :: "mac \<Rightarrow> u8 \<Rightarrow> nat \<Rightarrow> mac frag_key" where
  "stream_key origin id0 m = \<lparr>fk_addr = origin, fk_msg_id = id0 + word_of_nat m\<rparr>"

definition stream_count :: "mac \<Rightarrow> frame_data list \<Rightarrow> ble_adv_format \<times> nat \<Rightarrow> nat" where
  "stream_count origin datas = (\<lambda>(f, m). nfrags (ble_profile f) (stream_frame origin datas m))"

definition stream_packet :: "mac \<Rightarrow> u8 \<Rightarrow> frame_data list \<Rightarrow> ble_adv_format \<times> nat \<Rightarrow> nat \<Rightarrow> bytes" where
  "stream_packet origin id0 datas = (\<lambda>(f, m) i. ble_packet f (stream_key origin id0 m) (stream_frame origin datas m) i)"

fun ble_send_all :: "'s advertiser \<Rightarrow> mac \<Rightarrow> frame_data list \<Rightarrow> 's \<times> ble_link \<Rightarrow> ((link_error + nat) list \<times> 's \<times> ble_link) option" where
  "ble_send_all adv origin [] sl = Some ([], sl)"
| "ble_send_all adv origin (data # datas) sl =
     do { (r, sl) \<leftarrow> ble_send adv origin data sl;
          (rs, sl) \<leftarrow> ble_send_all adv origin datas sl;
          Some (r # rs, sl) }"

lemma stream_shift:
  "stream_packet origin id0 (d # datas) (f, Suc m) i = stream_packet origin (id0 + 1) datas (f, m) i"
  "stream_count origin (d # datas) (f, Suc m) = stream_count origin datas (f, m)"
  by (simp_all add: stream_packet_def stream_count_def stream_key_def stream_frame_def ac_simps)

lemma upt_shift: "[0..<length (d # ds)] = 0 # map Suc [0..<length ds]"
  by (simp add: map_Suc_upt upt_conv_Cons del: upt_Suc)

lemma ble_send_all_recorded:
  fixes origin :: mac
  assumes "\<forall>d\<in>set datas. length (fd_payload d) \<le> 256" "tx_ready l" "accepted refuse (formats (bl_send_mode l)) \<noteq> []"
  shows "\<exists>l'. ble_send_all (recorder refuse) origin datas (s, l) =
    Some (map (\<lambda>d. Inr (14 + length (fd_payload d))) datas,
      s @ concat (map (\<lambda>m. concat (map (\<lambda>f. map (\<lambda>i. (f, stream_packet origin (bl_msg_id_ctr l) datas (f, m) i))
              [0..< stream_count origin datas (f, m)]) (accepted refuse (formats (bl_send_mode l))))) [0..<length datas]), l')"
  using assms
proof (induction datas arbitrary: s l)
  case (Cons d datas)
  let ?fs = "accepted refuse (formats (bl_send_mode l))"
  let ?k = "\<lparr>fk_addr = origin, fk_msg_id = bl_msg_id_ctr l\<rparr>"
  let ?s = "s @ concat (map (format_packets ?k (eth_frame (fd_dst d) origin (fd_protocol d) (fd_payload d))) ?fs)"
  have d: "length (fd_payload d) \<le> 256" using Cons.prems(1) by simp
  obtain l1 where l1: "bl_msg_id_ctr l1 = bl_msg_id_ctr l + 1" "bl_send_mode l1 = bl_send_mode l" "tx_ready l1"
      "ble_send (recorder refuse) origin d (s, l) = Some (Inr (14 + length (fd_payload d)), ?s, l1)"
    using ble_send_recorded [where origin = origin and refuse = refuse and s = s, OF d Cons.prems(2)] Cons.prems(3)
    by (auto split: list.splits)
  have p: "format_packets ?k (eth_frame (fd_dst d) origin (fd_protocol d) (fd_payload d)) =
      (\<lambda>f. map (\<lambda>i. (f, stream_packet origin (bl_msg_id_ctr l) (d # datas) (f, 0) i)) [0..< stream_count origin (d # datas) (f, 0)])"
    by (simp add: fun_eq_iff format_packets_def stream_packet_def stream_count_def stream_key_def stream_frame_def)
  obtain l2 where l2: "ble_send_all (recorder refuse) origin datas (?s, l1) =
    Some (map (\<lambda>d. Inr (14 + length (fd_payload d))) datas,
      ?s @ concat (map (\<lambda>m. concat (map (\<lambda>f. map (\<lambda>i. (f, stream_packet origin (bl_msg_id_ctr l + 1) datas (f, m) i))
              [0..< stream_count origin datas (f, m)]) ?fs)) [0..<length datas]), l2)"
    using Cons.IH [where s = ?s, OF _ l1(3)] Cons.prems(1,3) l1(1,2) by auto
  show ?case
    unfolding upt_shift using l1(4) l2 by (simp add: p stream_shift comp_def del: upt_Suc)
qed simp

text \<open>
  The arrivals are fragments of the stream with the strength of their report, in any order and
  any number of times. A frame of which some fragments are here and some missing is open. The
  receiver's table of a format is not overcommitted when there are at most as many open frames as
  it has entries, and no two of them 256 apart.
\<close>

fun not_overcommitted :: "nat \<Rightarrow> (ble_adv_format \<times> nat \<Rightarrow> nat) \<Rightarrow> (ble_adv_format \<times> nat \<Rightarrow> nat set)
    \<Rightarrow> ((ble_adv_format \<times> nat) \<times> nat) list \<Rightarrow> bool" where
  "not_overcommitted N n got [] = True"
| "not_overcommitted N n got (((f, m), i) # as) =
     (let open_frames = filter (\<lambda>m'. m' = m \<or> got (f, m') \<noteq> {}) [0..<N]; S = insert i (got (f, m)) in
      length open_frames \<le> BLE_MAX_REASSEMBLIES \<and> distinct (map (\<lambda>m. m mod 256) open_frames)
      \<and> not_overcommitted N n (got((f, m) := if S = {0..<n (f, m)} then {} else S)) as)"

definition sent_frame :: "mac \<Rightarrow> frame_data \<Rightarrow> link_frame" where
  "sent_frame origin d = \<lparr>lf_dst = fd_dst d, lf_src = origin, lf_protocol = fd_protocol d, lf_payload = fd_payload d\<rparr>"

text \<open>What is received: the frame of every arrival that is the last missing one of its frame.\<close>

definition stream_received :: "mac \<Rightarrow> frame_data list \<Rightarrow> (ble_adv_format \<times> nat \<Rightarrow> nat set)
    \<Rightarrow> ((ble_adv_format \<times> nat) \<times> nat \<times> 16 word option) list \<Rightarrow> (link_error + link_frame \<times> link_metrics) list" where
  "stream_received origin datas got arrived =
     concat (map2 (\<lambda>((f, m), i, rssi) done. if done then [Inr (sent_frame origin (datas ! m), ble_metrics rssi)] else [])
       arrived (collect (stream_count origin datas) got (map (\<lambda>(a, i, rssi). (a, i)) arrived)))"

lemma stream_key_inj:
  assumes "distinct (map (\<lambda>m. m mod 256) ms)"
  shows "inj_on (stream_key origin id0) (set ms)"
proof (rule inj_onI)
  fix x y assume "x \<in> set ms" "y \<in> set ms" "stream_key origin id0 x = stream_key origin id0 y"
  moreover from this have "(word_of_nat x :: u8) = word_of_nat y" by (simp add: stream_key_def)
  then have "x mod 256 = y mod 256" by (simp add: word_of_nat_eq_iff take_bit_eq_mod)
  ultimately show "x = y" using assms by (auto simp: distinct_map dest: inj_onD)
qed

definition stream_state :: "mac \<Rightarrow> u8 \<Rightarrow> frame_data list \<Rightarrow> (ble_adv_format \<times> nat \<Rightarrow> nat set) \<Rightarrow> ble_link \<Rightarrow> bool" where
  "stream_state origin id0 datas got r \<longleftrightarrow> length (bl_rx_frame r) = BLE_MAX_REASSEMBLED_LEN
     \<and> (\<forall>f. stream_tab (ble_profile f) (stream_frame origin datas) (stream_key origin id0) (\<lambda>m. got (f, m)) (ble_table f r)
          \<and> (\<forall>m. got (f, m) \<noteq> {} \<longrightarrow> m < length datas))"

lemma stream_step:
  assumes "stream_state origin id0 datas got r" "m < length datas" "length (fd_payload (datas ! m)) \<le> 256"
    and "i < stream_count origin datas (f, m)"
    and "length (filter (\<lambda>m'. m' = m \<or> got (f, m') \<noteq> {}) [0..<length datas]) \<le> BLE_MAX_REASSEMBLIES"
    and "distinct (map (\<lambda>m. m mod 256) (filter (\<lambda>m'. m' = m \<or> got (f, m') \<noteq> {}) [0..<length datas]))"
  defines "full \<equiv> insert i (got (f, m)) = {0..< stream_count origin datas (f, m)}"
  shows "\<exists>r'. stream_state origin id0 datas (got((f, m) := if full then {} else insert i (got (f, m)))) r'
    \<and> ble_recv_all (report_of rssi (stream_packet origin id0 datas (f, m) i) # reports) r =
      map_option (apfst ((@) (if full then [Inr (sent_frame origin (datas ! m), ble_metrics rssi)] else []))) (ble_recv_all reports r')"
proof -
  let ?fr = "stream_frame origin datas" and ?key = "stream_key origin id0" and ?got = "\<lambda>m. got (f, m)"
  let ?open = "filter (\<lambda>m'. m' = m \<or> got (f, m') \<noteq> {}) [0..<length datas]" and ?n = "length (?fr m)"
  have s: "length (bl_rx_frame r) = BLE_MAX_REASSEMBLED_LEN" "\<And>f m. got (f, m) \<noteq> {} \<Longrightarrow> m < length datas"
      "\<And>f. stream_tab (ble_profile f) ?fr ?key (\<lambda>m. got (f, m)) (ble_table f r)"
    using assms(1) unfolding stream_state_def by auto
  have o: "insert m {m'. ?got m' \<noteq> {}} = set ?open" using s(2) [of f] assms(2) by auto
  have n: "?n \<le> BLE_MAX_REASSEMBLED_LEN" using assms(3) by (simp add: stream_frame_def ble_sizes ETH_HEADER_LEN_def)
  have c: "stream_count origin datas (f, m) = nfrags (ble_profile f) (?fr m)" by (simp add: stream_count_def)
  have "card (set ?open) \<le> BLE_MAX_REASSEMBLIES" using assms(5) card_length [of ?open] by linarith
  with ble_report_packet [where rssi = rssi and got = ?got, OF n assms(4) [unfolded c] s(3) s(1)] stream_key_inj [OF assms(6)]
  obtain r' where r': "ble_report (report_of rssi (stream_packet origin id0 datas (f, m) i)) r =
      Some (if full then Some (?n, ble_metrics rssi) else None, r')"
    "length (bl_rx_frame r') = BLE_MAX_REASSEMBLED_LEN" "full \<longrightarrow> take ?n (bl_rx_frame r') = ?fr m"
    "stream_tab (ble_profile f) ?fr ?key (?got(m := if full then {} else insert i (got (f, m)))) (ble_table f r')"
    "\<forall>f'. f' \<noteq> f \<longrightarrow> ble_table f' r' = ble_table f' r"
    unfolding o full_def c stream_packet_def by auto
  have upd: "(\<lambda>m'. (got((f, m) := S)) (f', m')) = (if f' = f then ?got(m := S) else (\<lambda>m'. got (f', m')))" for f' S
    by (auto simp: fun_eq_iff)
  have "m' < length datas" if "(got((f, m) := S)) (f', m') \<noteq> {}" for f' m' S
    using that s(2) assms(2) by (auto split: if_splits)
  then have "stream_state origin id0 datas (got((f, m) := if full then {} else insert i (got (f, m)))) r'"
    unfolding stream_state_def upd using r'(2,4,5) s(3) by (auto simp del: fun_upd_apply)
  moreover have "link_frame_ref_from_bytes (?fr m) = Some (sent_frame origin (datas ! m))"
    by (simp add: stream_frame_def sent_frame_def)
  then have "ble_recv_all (report_of rssi (stream_packet origin id0 datas (f, m) i) # reports) r =
      map_option (apfst ((@) (if full then [Inr (sent_frame origin (datas ! m), ble_metrics rssi)] else []))) (ble_recv_all reports r')"
    using r'(1,2,3) n ble_recv_all_open ble_recv_all_complete by (cases full) (auto simp: apfst_def map_prod_def option.map_id)
  ultimately show ?thesis by blast
qed

lemma stream_received_exact:
  assumes "stream_state origin id0 datas got r" "\<forall>d\<in>set datas. length (fd_payload d) \<le> 256"
    and "\<forall>((f, m), i, rssi)\<in>set arrived. m < length datas \<and> i < stream_count origin datas (f, m)"
    and "not_overcommitted (length datas) (stream_count origin datas) got (map (\<lambda>(a, i, rssi). (a, i)) arrived)"
  shows "\<exists>r'. ble_recv_all (map (\<lambda>(a, i, rssi). report_of rssi (stream_packet origin id0 datas a i)) arrived) r =
    Some (stream_received origin datas got arrived, r')"
  using assms(1,3,4)
proof (induction arrived arbitrary: got r)
  case Nil
  then show ?case by (simp add: stream_received_def ble_recv_all_Nil)
next
  case (Cons a arrived)
  obtain f m i rssi where a: "a = ((f, m), i, rssi)" by (cases a) auto
  let ?full = "insert i (got (f, m)) = {0..< stream_count origin datas (f, m)}"
  let ?got = "got((f, m) := if ?full then {} else insert i (got (f, m)))"
  have m: "m < length datas" "i < stream_count origin datas (f, m)" "length (fd_payload (datas ! m)) \<le> 256"
    using Cons.prems(2) assms(2) a by auto
  have w: "length (filter (\<lambda>m'. m' = m \<or> got (f, m') \<noteq> {}) [0..<length datas]) \<le> BLE_MAX_REASSEMBLIES"
      "distinct (map (\<lambda>m. m mod 256) (filter (\<lambda>m'. m' = m \<or> got (f, m') \<noteq> {}) [0..<length datas]))"
      "not_overcommitted (length datas) (stream_count origin datas) ?got (map (\<lambda>(a, i, rssi). (a, i)) arrived)"
    using Cons.prems(3) unfolding a by (auto simp only: list.map prod.case not_overcommitted.simps Let_def)
  obtain r1 where r1: "stream_state origin id0 datas ?got r1"
    "ble_recv_all (map (\<lambda>(a, i, rssi). report_of rssi (stream_packet origin id0 datas a i)) (a # arrived)) r =
      map_option (apfst ((@) (if ?full then [Inr (sent_frame origin (datas ! m), ble_metrics rssi)] else [])))
        (ble_recv_all (map (\<lambda>(a, i, rssi). report_of rssi (stream_packet origin id0 datas a i)) arrived) r1)"
    using stream_step [where rssi = rssi, OF Cons.prems(1) m(1,3,2) w(1,2)] unfolding a by auto
  have "stream_received origin datas got (a # arrived) =
      (if ?full then [Inr (sent_frame origin (datas ! m), ble_metrics rssi)] else []) @ stream_received origin datas ?got arrived"
    by (simp add: stream_received_def a Let_def)
  moreover obtain r' where "ble_recv_all (map (\<lambda>(a, i, rssi). report_of rssi (stream_packet origin id0 datas a i)) arrived) r1 =
      Some (stream_received origin datas ?got arrived, r')"
  proof -
    have "\<forall>((f, m), i, rssi)\<in>set arrived. m < length datas \<and> i < stream_count origin datas (f, m)" using Cons.prems(2) by simp
    from Cons.IH [OF r1(1) this w(3)] show thesis using that by blast
  qed
  ultimately show ?case unfolding r1(2) by simp
qed

lemma stream_received_complete:
  assumes "\<forall>((f, m), i, rssi)\<in>set arrived. m < length datas \<and> i < stream_count origin datas (f, m)"
    and "\<forall>i < stream_count origin datas (f, m). \<exists>rssi. ((f, m), i, rssi) \<in> set arrived"
  shows "\<exists>rssi. Inr (sent_frame origin (datas ! m), ble_metrics rssi) \<in> set (stream_received origin datas (\<lambda>_. {}) arrived)"
proof -
  let ?as = "map (\<lambda>(a, i, rssi). (a, i)) arrived" and ?n = "stream_count origin datas"
  let ?c = "collect ?n (\<lambda>_. {}) ?as"
  have "0 < ?n (f, m)" by (simp add: stream_count_def nfrags_pos)
  then obtain j where j: "j < length arrived" "fst (?as ! j) = (f, m)" "?c ! j"
    using collect_delivers [where as = ?as and n = ?n and got = "\<lambda>_. {}" and k = "(f, m)"] assms by force
  obtain i rssi where aj: "arrived ! j = ((f, m), i, rssi)" using j(1,2) by (cases "arrived ! j") auto
  have "(arrived ! j, ?c ! j) \<in> set (zip arrived ?c)" using j(1) by (auto simp: set_zip)
  then have "Inr (sent_frame origin (datas ! m), ble_metrics rssi) \<in> set (stream_received origin datas (\<lambda>_. {}) arrived)"
    using aj j(3) unfolding stream_received_def by force
  then show ?thesis by blast
qed

text \<open>Without losses the receiver is never overcommitted, however long the stream.\<close>

lemma in_order_frame:
  assumes "m < N" "j \<le> n (f, m)" "not_overcommitted N n (\<lambda>_. {}) rest"
  shows "j < n (f, m) \<Longrightarrow> not_overcommitted N n ((\<lambda>_. {})((f, m) := {0..<j})) (map (Pair (f, m)) [j..<n (f, m)] @ rest)"
  using assms(2)
proof (induction "n (f, m) - j" arbitrary: j)
  case (Suc d)
  have o: "filter (\<lambda>m'. m' = m \<or> ((\<lambda>_. {})((f, m) := {0..<j})) (f, m') \<noteq> {}) [0..<N] = [m]"
  proof -
    have "filter (\<lambda>m'. m' = m \<or> ((\<lambda>_. {})((f, m) := {0..<j})) (f, m') \<noteq> {}) [0..<N] = filter (\<lambda>m'. m' = m) [0..<N]"
      by (rule filter_cong) auto
    also have "\<dots> = [m]" using assms(1) by (induction N) auto
    finally show ?thesis .
  qed
  have S: "insert j {0..<j} = {0..<Suc j}" "{0..<Suc j} = {0..<n (f, m)} \<longleftrightarrow> Suc j = n (f, m)" using Suc.prems by auto
  show ?case
  proof (cases "Suc j = n (f, m)")
    case True
    then show ?thesis using Suc.prems o S assms(3)
      by (simp add: upt_conv_Cons BLE_MAX_REASSEMBLIES_def fun_upd_idem)
  next
    case False
    then have "not_overcommitted N n ((\<lambda>_. {})((f, m) := {0..<Suc j})) (map (Pair (f, m)) [Suc j..<n (f, m)] @ rest)"
      using Suc by auto
    then show ?thesis using Suc.prems False o S by (simp add: upt_conv_Cons BLE_MAX_REASSEMBLIES_def)
  qed
qed simp

lemma lossless_not_overcommitted:
  assumes "\<forall>a. 0 < n a" "\<forall>(f, m)\<in>set ams. m < N"
  shows "not_overcommitted N n (\<lambda>_. {}) (concat (map (\<lambda>a. map (Pair a) [0..<n a]) ams))"
  using assms(2)
proof (induction ams)
  case (Cons a ams)
  obtain f m where a: "a = (f, m)" by (cases a)
  have "not_overcommitted N n ((\<lambda>_. {})((f, m) := {0..<0})) (map (Pair (f, m)) [0..<n (f, m)]
      @ concat (map (\<lambda>a. map (Pair a) [0..<n a]) ams))"
    using Cons a assms(1) by (intro in_order_frame) auto
  then show ?case by (simp add: a fun_upd_idem)
qed simp

text \<open>
  C38. What a node sends is what its neighbour receives. Whatever frames of at most 256 bytes a
  link sends one after another, however many, and whatever formats the controller refuses as long
  as it leaves one: every send succeeds and the air carries each frame's fragments, in every
  accepted format, under the next message identifier. Whichever of these fragments arrive (any
  may be lost, repeated, delayed behind those of later frames), a receiver with nothing pending
  that keeps receiving returns one frame for each arrival that completes a frame in its format,
  in that order, and nothing else: exactly a frame that was sent, with the strength of that
  report; so a frame all of whose fragments of some format arrive is received. This needs that
  the losses do not overcommit the receiver: at most four frames of a format are partly received
  at any time, and no two of them 256 sends apart.
\<close>

theorem ble_send_received:
  assumes "\<forall>d\<in>set datas. length (fd_payload d) \<le> 256" "tx_ready l" "accepted refuse (formats (bl_send_mode l)) \<noteq> []"
    and "\<forall>((f, m), i, rssi)\<in>set arrived. f \<in> set (accepted refuse (formats (bl_send_mode l))) \<and> m < length datas
        \<and> i < stream_count origin datas (f, m)"
    and "not_overcommitted (length datas) (stream_count origin datas) (\<lambda>_. {}) (map (\<lambda>(a, i, rssi). (a, i)) arrived)"
    and "bl_legacy r = reassembler_new" "bl_extended r = reassembler_new" "length (bl_rx_frame r) = BLE_MAX_REASSEMBLED_LEN"
  shows "(\<exists>l'. ble_send_all (recorder refuse) origin datas ([], l) =
      Some (map (\<lambda>d. Inr (14 + length (fd_payload d))) datas,
        concat (map (\<lambda>m. concat (map (\<lambda>f. map (\<lambda>i. (f, stream_packet origin (bl_msg_id_ctr l) datas (f, m) i))
                [0..< stream_count origin datas (f, m)]) (accepted refuse (formats (bl_send_mode l))))) [0..<length datas]), l'))
    \<and> (\<exists>r'. ble_recv_all (map (\<lambda>(a, i, rssi). report_of rssi (stream_packet origin (bl_msg_id_ctr l) datas a i)) arrived) r =
        Some (stream_received origin datas (\<lambda>_. {}) arrived, r'))
    \<and> (\<forall>m f. (\<forall>i < stream_count origin datas (f, m). \<exists>rssi. ((f, m), i, rssi) \<in> set arrived) \<longrightarrow>
        (\<exists>rssi. Inr (sent_frame origin (datas ! m), ble_metrics rssi) \<in> set (stream_received origin datas (\<lambda>_. {}) arrived)))"
proof (intro conjI)
  show "\<exists>l'. ble_send_all (recorder refuse) origin datas ([], l) =
      Some (map (\<lambda>d. Inr (14 + length (fd_payload d))) datas,
        concat (map (\<lambda>m. concat (map (\<lambda>f. map (\<lambda>i. (f, stream_packet origin (bl_msg_id_ctr l) datas (f, m) i))
                [0..< stream_count origin datas (f, m)]) (accepted refuse (formats (bl_send_mode l))))) [0..<length datas]), l')"
    using ble_send_all_recorded [where s = "[]" and origin = origin, OF assms(1-3)] by simp
  have a: "\<forall>((f, m), i, rssi)\<in>set arrived. m < length datas \<and> i < stream_count origin datas (f, m)" using assms(4) by auto
  have "stream_state origin (bl_msg_id_ctr l) datas (\<lambda>_. {}) r"
    using assms(6-8) stream_tab_empty
    by (auto simp: stream_state_def ble_table_def reassembler_new_def split: ble_adv_format.split)
  then show "\<exists>r'. ble_recv_all (map (\<lambda>(a, i, rssi). report_of rssi (stream_packet origin (bl_msg_id_ctr l) datas a i)) arrived) r =
        Some (stream_received origin datas (\<lambda>_. {}) arrived, r')"
    by (rule stream_received_exact [OF _ assms(1) a assms(5)])
  show "\<forall>m f. (\<forall>i < stream_count origin datas (f, m). \<exists>rssi. ((f, m), i, rssi) \<in> set arrived) \<longrightarrow>
        (\<exists>rssi. Inr (sent_frame origin (datas ! m), ble_metrics rssi) \<in> set (stream_received origin datas (\<lambda>_. {}) arrived))"
    using stream_received_complete [OF a] by blast
qed

section \<open>Examples\<close>

definition no_extended :: "ble_adv_format \<Rightarrow> link_error option" where
  "no_extended f = (if f = Extended then Some TransmitFailed else None)"

definition sample_ble_data :: frame_data where
  "sample_ble_data = \<lparr>fd_dst = BROADCAST, fd_protocol = 0x4305, fd_payload = replicate 40 7\<rparr>"

theorem mesh_fragment_found_witness:
  "\<exists>n out'. build_ad_structure [1, 2, 3] (replicate 31 0) = Some (Some n, out')
    \<and> find_mesh_fragment (concat (map ad_structure [(1, [6])]) @ take n out' @ [0]) = Some [1, 2, 3]"
  by (rule mesh_fragment_found)
     (simp_all add: ble_sizes foreign_structure_def is_mesh_data_def AD_TYPE_MANUFACTURER_SPECIFIC_def)

theorem ble_send_outcome_witness:
  "\<exists>sent l'. ble_send (recorder no_extended) (Mac 2 0 0 0 0 1) sample_ble_data ([], ble_link_new SendBoth) = Some (Inr 54, sent, l')
    \<and> length sent = 3"
proof -
  have "tx_ready (ble_link_new SendBoth)" by (simp add: tx_ready_def ble_link_new_def)
  moreover have "length (fd_payload sample_ble_data) \<le> 256" by (simp add: sample_ble_data_def)
  moreover have "accepted no_extended (formats SendBoth) = [Legacy]" by (simp add: accepted_def no_extended_def)
  moreover have "length (format_packets k (eth_frame d s t (replicate 40 x)) Legacy) = 3" for k d s t x
    by (simp add: format_packets_def nfrags_def ble_profile_def ble_sizes ETH_HEADER_LEN_def)
  ultimately show ?thesis
    using ble_send_outcome [of sample_ble_data "ble_link_new SendBoth" no_extended "Mac 2 0 0 0 0 1" "[]"]
    by (auto simp: ble_link_new_def sample_ble_data_def)
qed

text \<open>
  Two frames sent by a node whose identifier counter is about to wrap; the middle fragment of the
  first one is lost at first and comes again after the second frame.
\<close>

definition wrapping_ble_link :: ble_link where
  "wrapping_ble_link = (ble_link_new SendBoth)\<lparr>bl_msg_id_ctr := 255\<rparr>"

definition late_arrivals :: "((ble_adv_format \<times> nat) \<times> nat \<times> 16 word option) list" where
  "late_arrivals = [((Legacy, 0), 0, None), ((Legacy, 0), 2, None), ((Legacy, 1), 1, None), ((Legacy, 1), 0, None),
     ((Legacy, 1), 0, None), ((Legacy, 1), 2, Some 5), ((Legacy, 0), 1, Some 9)]"

theorem ble_send_received_witness:
  "\<exists>l' sent r'. ble_send_all (recorder no_extended) (Mac 2 0 0 0 0 1) [sample_ble_data, sample_ble_data\<lparr>fd_payload := replicate 40 8\<rparr>]
      ([], wrapping_ble_link) = Some ([Inr 54, Inr 54], sent, l') \<and> length sent = 6
    \<and> ble_recv_all (map (\<lambda>(a, i, rssi). report_of rssi (stream_packet (Mac 2 0 0 0 0 1) 255
          [sample_ble_data, sample_ble_data\<lparr>fd_payload := replicate 40 8\<rparr>] a i)) late_arrivals) (ble_link_new SendLegacy) =
        Some ([Inr (sent_frame (Mac 2 0 0 0 0 1) (sample_ble_data\<lparr>fd_payload := replicate 40 8\<rparr>), ble_metrics (Some 5)),
               Inr (sent_frame (Mac 2 0 0 0 0 1) sample_ble_data, ble_metrics (Some 9))], r')"
proof -
  let ?ds = "[sample_ble_data, sample_ble_data\<lparr>fd_payload := replicate 40 8\<rparr>]" and ?o = "Mac 2 0 0 0 0 1"
  have c: "stream_count ?o ?ds (Legacy, 0) = 3" "stream_count ?o ?ds (Legacy, Suc 0) = 3"
    by (simp_all add: stream_count_def stream_frame_def nfrags_def ble_profile_def ble_sizes ETH_HEADER_LEN_def sample_ble_data_def)
  have "2 \<notin> {0, Suc 0}" "Suc 0 \<notin> {0, 2}" by simp_all
  then have "{0, Suc 0} \<noteq> {0, Suc 0, 2}" "{0, 2} \<noteq> {0, Suc 0, 2}" by blast+
  moreover have "{0..<3} = {0, 1, 2 :: nat}" by auto
  ultimately have s: "{0..<3} = {0, 1, 2 :: nat}" "{0, Suc 0} \<noteq> {0, Suc 0, 2}" "{0, 2} \<noteq> {0, Suc 0, 2}" by simp_all
  have n: "not_overcommitted 2 (stream_count ?o ?ds) (\<lambda>_. {}) (map (\<lambda>(a, i, rssi). (a, i)) late_arrivals)"
    by (simp add: late_arrivals_def c s BLE_MAX_REASSEMBLIES_def upt_rec insert_commute Let_def)
  have f: "accepted no_extended (formats (bl_send_mode wrapping_ble_link)) = [Legacy]"
    by (simp add: accepted_def no_extended_def wrapping_ble_link_def ble_link_new_def)
  have t: "tx_ready wrapping_ble_link" "bl_msg_id_ctr wrapping_ble_link = 255"
    by (simp_all add: tx_ready_def wrapping_ble_link_def ble_link_new_def)
  have a: "\<forall>((f, m), i, rssi)\<in>set late_arrivals. f \<in> set [Legacy] \<and> m < length ?ds \<and> i < stream_count ?o ?ds (f, m)"
    by (simp add: late_arrivals_def c)
  have r: "stream_received ?o ?ds (\<lambda>_. {}) late_arrivals =
      [Inr (sent_frame ?o (?ds ! 1), ble_metrics (Some 5)), Inr (sent_frame ?o (?ds ! 0), ble_metrics (Some 9))]"
    by (simp add: stream_received_def late_arrivals_def c s insert_commute Let_def)
  have p: "length (fd_payload sample_ble_data) = 40" by (simp add: sample_ble_data_def)
  have l: "length ?ds = 2" "[0..<2] = [0, 1 :: nat]" "[0..<3] = [0, 1, 2 :: nat]" by (simp_all add: upt_rec)
  have g: "bl_legacy (ble_link_new SendLegacy) = reassembler_new" "bl_extended (ble_link_new SendLegacy) = reassembler_new"
      "length (bl_rx_frame (ble_link_new SendLegacy)) = BLE_MAX_REASSEMBLED_LEN"
    by (simp_all add: ble_link_new_def)
  have d: "\<forall>d\<in>set ?ds. length (fd_payload d) \<le> 256" using p by simp
  have ne: "[Legacy] \<noteq> []" by simp
  note received = ble_send_received [where datas = ?ds and l = wrapping_ble_link and refuse = no_extended and arrived = late_arrivals
        and origin = ?o and r = "ble_link_new SendLegacy", unfolded f t(2) l(1), OF d t(1) ne a [unfolded l(1)] n g]
  then show ?thesis by (auto simp: l c r p simp del: ble_send_all.simps)
qed

end
