(* ===== verification/Auth_Time.thy ===== *)
theory Auth_Time
  imports Prelude
begin

text \<open>
  What a verifier knows about the time (\<^verbatim>\<open>libs/wayfinder-auth/src/clock.rs\<close>): the posture
  \<open>clocked\<close> with the three questions certificate and revocation checks ask of it, and the anchored
  wall clock of a board without a real-time clock. Unix seconds are 64-bit words, the monotonic clock
  is a duration.

  The verdict on a host's own clock (\<^verbatim>\<open>libs/wayfinder-clock-trust\<close>) is here too.

  The lemmas order postures by what they know: a posture \<open>informs\<close> a true time when it claims nothing
  false about it, what an informed posture proves is true, and the wall clock only ever produces
  informed, non-decreasing postures.
\<close>

section \<open>Postures\<close>

definition MIN_PLAUSIBLE_UNIX :: u64 where
  "MIN_PLAUSIBLE_UNIX = 1735689600"

datatype clocked = At u64 | AtLeast u64 | Unknown

definition from_unix :: "u64 \<Rightarrow> clocked" where
  "from_unix secs = (if secs < MIN_PLAUSIBLE_UNIX then Unknown else At secs)"

fun proves_past :: "clocked \<Rightarrow> u64 \<Rightarrow> bool" where
  "proves_past (At t) instant \<longleftrightarrow> t > instant"
| "proves_past (AtLeast t) instant \<longleftrightarrow> t > instant"
| "proves_past Unknown instant \<longleftrightarrow> False"

fun proves_before :: "clocked \<Rightarrow> u64 \<Rightarrow> bool" where
  "proves_before (At t) instant \<longleftrightarrow> t < instant"
| "proves_before (AtLeast t) instant \<longleftrightarrow> False"
| "proves_before Unknown instant \<longleftrightarrow> False"

fun proves_reached :: "clocked \<Rightarrow> u64 \<Rightarrow> bool" where
  "proves_reached (At t) instant \<longleftrightarrow> t \<ge> instant"
| "proves_reached (AtLeast t) instant \<longleftrightarrow> t \<ge> instant"
| "proves_reached Unknown instant \<longleftrightarrow> False"

fun judges_windows :: "clocked \<Rightarrow> bool" where
  "judges_windows Unknown \<longleftrightarrow> False"
| "judges_windows _ \<longleftrightarrow> True"

fun clock_reading :: "clocked \<Rightarrow> u64 option" where
  "clock_reading (At t) = Some t"
| "clock_reading (AtLeast t) = Some t"
| "clock_reading Unknown = None"

definition unix_or_zero :: "clocked \<Rightarrow> u64" where
  "unix_or_zero c = (case clock_reading c of Some t \<Rightarrow> t | None \<Rightarrow> 0)"

section \<open>The anchored wall clock\<close>

record wall_clock =
  wc_anchor :: "(u64 \<times> duration) option"

definition wall_clock_new :: wall_clock where
  "wall_clock_new = \<lparr>wc_anchor = None\<rparr>"

text \<open>\<^verbatim>\<open>Duration::as_secs\<close> is a 64-bit count; a duration that fits \<^verbatim>\<open>Duration\<close> has one.\<close>

definition as_secs :: "duration \<Rightarrow> u64" where
  "as_secs d = word_of_nat (d div 1000000000)"

definition wc_estimate :: "duration \<Rightarrow> wall_clock \<Rightarrow> u64 option" where
  "wc_estimate now w =
     (case wc_anchor w of None \<Rightarrow> None | Some (unix, at) \<Rightarrow> Some (saturating_add unix (as_secs (now - at))))"

definition wc_posture :: "duration \<Rightarrow> wall_clock \<Rightarrow> clocked" where
  "wc_posture now w = (case wc_estimate now w of Some secs \<Rightarrow> AtLeast secs | None \<Rightarrow> Unknown)"

definition anchor_clock :: "u64 \<Rightarrow> duration \<Rightarrow> wall_clock \<Rightarrow> bool \<times> wall_clock" where
  "anchor_clock unix now w =
     (if unix < MIN_PLAUSIBLE_UNIX then (False, w)
      else if (case wc_estimate now w of Some current \<Rightarrow> unix \<le> current | None \<Rightarrow> False) then (False, w)
      else (True, w\<lparr>wc_anchor := Some (unix, now)\<rparr>))"

text \<open>The verified certificate enters only through its start, \<open>cert_not_before\<close>.\<close>

definition install_anchor :: "u64 \<Rightarrow> u64 \<Rightarrow> duration \<Rightarrow> wall_clock \<Rightarrow> bool \<times> wall_clock" where
  "install_anchor installer_unix cert_not_before now w = anchor_clock (max installer_unix cert_not_before) now w"

section \<open>Whether the host's clock is trusted\<close>

text \<open>
  The verdict of \<^verbatim>\<open>libs/wayfinder-clock-trust\<close>. What \<^verbatim>\<open>ntp_adjtime\<close> answers is an argument: nothing on a
  platform without it, otherwise an error number or the return value with the status word and the
  signed error bound.
\<close>

definition DEFAULT_MAX_CLOCK_ERROR_US :: u64 where
  "DEFAULT_MAX_CLOCK_ERROR_US = 5000000"

datatype clock_trust = Ntp u64 | Assume | Never

definition clock_trust_default :: clock_trust where
  "clock_trust_default = Ntp DEFAULT_MAX_CLOCK_ERROR_US"

definition from_settings :: "bool \<Rightarrow> u64 option \<Rightarrow> clock_trust" where
  "from_settings require_time_sync max_clock_error_us =
     (if require_time_sync
      then Ntp (case max_clock_error_us of Some b \<Rightarrow> b | None \<Rightarrow> DEFAULT_MAX_CLOCK_ERROR_US)
      else Assume)"

datatype clock_sync =
    Synchronized u64
  | Unsynchronized
  | ErrorTooLarge u64 u64
  | Unreadable "32 word"
  | Unsupported

fun is_trusted :: "clock_sync \<Rightarrow> bool" where
  "is_trusted (Synchronized _) \<longleftrightarrow> True"
| "is_trusted Unsupported \<longleftrightarrow> True"
| "is_trusted _ \<longleftrightarrow> False"

definition classify_sync :: "32 word \<Rightarrow> 32 word \<Rightarrow> 64 word \<Rightarrow> u64 \<Rightarrow> clock_sync" where
  "classify_sync ret status maxerror_us bound_us =
     (if ret = 5 \<or> status AND 0x0040 \<noteq> 0 then Unsynchronized
      else if sint maxerror_us < 0 then Unsynchronized
      else if maxerror_us > bound_us then ErrorTooLarge maxerror_us bound_us
      else Synchronized maxerror_us)"

record ntp_answer =
  na_ret :: "32 word"
  na_status :: "32 word"
  na_maxerror :: "64 word"
  na_errno :: "32 word"

definition read_host :: "ntp_answer option \<Rightarrow> u64 \<Rightarrow> clock_sync" where
  "read_host host bound_us =
     (case host of
        None \<Rightarrow> Unsupported
      | Some a \<Rightarrow> if sint (na_ret a) < 0 then Unreadable (na_errno a)
                  else classify_sync (na_ret a) (na_status a) (na_maxerror a) bound_us)"

fun clock_read :: "ntp_answer option \<Rightarrow> clock_trust \<Rightarrow> clock_sync" where
  "clock_read host Assume = Unsupported"
| "clock_read host Never = Unsynchronized"
| "clock_read host (Ntp max_error_us) = read_host host max_error_us"

lemma trusted_iff:
  "is_trusted (clock_read (Some a) (Ntp bound)) \<longleftrightarrow>
     sint (na_ret a) \<ge> 0 \<and> na_ret a \<noteq> 5 \<and> na_status a AND 0x0040 = 0 \<and> sint (na_maxerror a) \<ge> 0 \<and> na_maxerror a \<le> bound"
  by (auto simp: read_host_def classify_sync_def not_less)

section \<open>What a posture knows\<close>

fun informs :: "clocked \<Rightarrow> u64 \<Rightarrow> bool" where
  "informs (At t) true \<longleftrightarrow> t = true"
| "informs (AtLeast f) true \<longleftrightarrow> f \<le> true"
| "informs Unknown true \<longleftrightarrow> True"

lemma informs_sound:
  assumes "informs c t"
  shows "proves_past c i \<Longrightarrow> i < t" "proves_before c i \<Longrightarrow> t < i" "proves_reached c i \<Longrightarrow> i \<le> t"
  using assms by (cases c; fastforce)+

text \<open>True time is \<open>base\<close> plus the monotonic clock, in whole seconds, below the 64-bit bound.\<close>

definition true_unix :: "nat \<Rightarrow> duration \<Rightarrow> nat" where
  "true_unix base now = (base + now) div 1000000000"

definition clock_sound :: "nat \<Rightarrow> duration \<Rightarrow> wall_clock \<Rightarrow> bool" where
  "clock_sound base now w \<longleftrightarrow>
     (case wc_anchor w of None \<Rightarrow> True | Some (unix, at) \<Rightarrow> at \<le> now \<and> unat unix \<le> true_unix base at)"

lemma div_add_floor: "a div k + b div k \<le> (a + b) div (k :: nat)"
  by (metis div_add1_eq le_add1)

lemma unat_as_secs: "d div 1000000000 < 2 ^ 64 \<Longrightarrow> unat (as_secs d) = d div 1000000000"
  by (simp add: as_secs_def unat_of_nat)

lemma true_unix_mono: "a \<le> b \<Longrightarrow> true_unix base a \<le> true_unix base b"
  by (simp add: true_unix_def div_le_mono)

text \<open>The estimate never runs ahead, and never falls.\<close>

lemma estimate_behind:
  assumes "clock_sound base now w" "now \<le> later" "true_unix base later < 2 ^ 64" "wc_estimate later w = Some e"
  shows "unat e \<le> true_unix base later"
proof -
  obtain unix at where w: "wc_anchor w = Some (unix, at)" "e = saturating_add unix (as_secs (later - at))"
    using assms(4) by (auto simp: wc_estimate_def split: option.splits)
  have s: "at \<le> later" "unat unix \<le> (base + at) div 1000000000"
    using assms(1,2) w(1) by (auto simp: clock_sound_def true_unix_def)
  have "(base + at) div 1000000000 + (later - at) div 1000000000 \<le> true_unix base later"
    using div_add_floor [of "base + at" 1000000000 "later - at"] s(1) by (simp add: true_unix_def)
  moreover from this have "unat (as_secs (later - at)) = (later - at) div 1000000000"
    using assms(3) by (intro unat_as_secs) linarith
  ultimately have "unat unix + unat (as_secs (later - at)) \<le> true_unix base later" using s(2) by linarith
  then show ?thesis unfolding w(2) unat_saturating_add by (rule min.coboundedI1)
qed

lemma estimate_mono:
  assumes "clock_sound base now w" "now \<le> later" "true_unix base later < 2 ^ 64" "wc_estimate now w = Some e" "wc_estimate later w = Some e'"
  shows "e \<le> e'"
proof -
  obtain unix at where w: "wc_anchor w = Some (unix, at)" "e = saturating_add unix (as_secs (now - at))"
      "e' = saturating_add unix (as_secs (later - at))"
    using assms(4,5) by (auto simp: wc_estimate_def split: option.splits)
  have at: "at \<le> now" using assms(1) w(1) by (simp add: clock_sound_def)
  have "(later - at) div 1000000000 \<le> true_unix base later" by (simp add: true_unix_def div_le_mono)
  moreover have "(now - at) div 1000000000 \<le> (later - at) div 1000000000" using assms(2) by (simp add: div_le_mono)
  ultimately have "unat (as_secs (now - at)) \<le> unat (as_secs (later - at))"
    using assms(3) by (simp add: unat_as_secs)
  then show ?thesis using w(2,3) by (simp add: word_le_nat_alt unat_saturating_add)
qed

lemma estimate_not_lowered:
  assumes "wc_estimate now w = Some e"
  shows "\<exists>e'. wc_estimate now (snd (anchor_clock unix now w)) = Some e' \<and> e \<le> e'"
proof -
  have "as_secs 0 = 0" by (simp add: as_secs_def)
  moreover have "saturating_add unix 0 = unix"
    using unsigned_less [of unix, where ?'a = nat] by (simp add: saturating_add_def)
  ultimately show ?thesis using assms by (auto simp: anchor_clock_def wc_estimate_def not_le split: if_splits)
qed

lemma anchor_sound:
  assumes "clock_sound base now w" "now \<le> at" "unat unix \<le> true_unix base at"
  shows "clock_sound base at (snd (anchor_clock unix at w))"
  using assms by (auto simp: clock_sound_def anchor_clock_def split: option.splits)

text \<open>A board's life: anchors handed to it, each at a monotonic instant, none ahead of the true time.\<close>

fun anchor_all :: "(duration \<times> u64) list \<Rightarrow> wall_clock \<Rightarrow> wall_clock" where
  "anchor_all [] w = w"
| "anchor_all ((at, unix) # es) w = anchor_all es (snd (anchor_clock unix at w))"

fun honest :: "nat \<Rightarrow> duration \<Rightarrow> (duration \<times> u64) list \<Rightarrow> duration \<Rightarrow> bool" where
  "honest base now [] later \<longleftrightarrow> now \<le> later"
| "honest base now ((at, unix) # es) later \<longleftrightarrow> now \<le> at \<and> unat unix \<le> true_unix base at \<and> honest base at es later"

lemma anchor_all_sound: "clock_sound base now w \<Longrightarrow> honest base now es later \<Longrightarrow> clock_sound base later (anchor_all es w)"
proof (induction es arbitrary: now w)
  case Nil
  then show ?case by (auto simp: clock_sound_def split: option.splits)
next
  case (Cons e es)
  obtain at unix where e: "e = (at, unix)" by (cases e)
  then have "clock_sound base at (snd (anchor_clock unix at w))" using Cons.prems by (intro anchor_sound) auto
  then show ?case using Cons e by simp
qed

lemma wall_clock_behind:
  assumes "honest base 0 es later" "true_unix base later < 2 ^ 64"
  defines "w \<equiv> anchor_all es wall_clock_new"
  shows "informs (wc_posture later w) (word_of_nat (true_unix base later))"
    and "wc_estimate later w = Some e \<Longrightarrow> \<exists>e'. wc_estimate later (snd (anchor_clock unix later w)) = Some e' \<and> e \<le> e'"
proof -
  have s: "clock_sound base later w"
    unfolding w_def by (rule anchor_all_sound [OF _ assms(1)]) (simp add: clock_sound_def wall_clock_new_def)
  have "unat (word_of_nat (true_unix base later) :: u64) = true_unix base later" using assms(2) by (simp add: unat_of_nat)
  then show "informs (wc_posture later w) (word_of_nat (true_unix base later))"
    using estimate_behind [OF s order_refl assms(2)] by (auto simp: wc_posture_def word_le_nat_alt split: option.splits)
qed (rule estimate_not_lowered)

text \<open>
  A board's clock is a floor. Whatever honest anchors a board received, at any later instant the
  posture it hands to verification claims nothing false about the true time; and no anchor, honest or
  not, ever lowers the current estimate.
\<close>

theorem wall_clock_floor:
  assumes "honest base 0 es later" "true_unix base later < 2 ^ 64" "w = anchor_all es wall_clock_new"
  shows "informs (wc_posture later w) (word_of_nat (true_unix base later))
    \<and> (\<forall>e unix. wc_estimate later w = Some e \<longrightarrow>
         (\<exists>e'. wc_estimate later (snd (anchor_clock unix later w)) = Some e' \<and> e \<le> e'))"
  using wall_clock_behind [OF assms(1,2)] unfolding assms(3) by blast

theorem wall_clock_floor_witness:
  "informs (wc_posture 9000000000 (anchor_all [(1000000000, 1735689601), (2000000000, 1735689600)] wall_clock_new)) 1735689609"
proof -
  have "honest 1735689600000000000 0 [(1000000000, 1735689601), (2000000000, 1735689600)] 9000000000"
    by (simp add: true_unix_def)
  from wall_clock_floor [OF this _ refl] show ?thesis by (simp add: true_unix_def)
qed

end
