(* ===== verification/Cert.thy ===== *)
theory Cert
  imports Wire Auth_Time
begin

text \<open>
  Cryptographic identity and membership (\<^verbatim>\<open>libs/wayfinder-auth/src\<close>: \<^verbatim>\<open>error.rs\<close>, \<^verbatim>\<open>key.rs\<close>, \<^verbatim>\<open>mac.rs\<close>,
  \<^verbatim>\<open>cert.rs\<close>, \<^verbatim>\<open>revoke.rs\<close>, \<^verbatim>\<open>pairwise.rs\<close>, \<^verbatim>\<open>authority.rs\<close>). The curves and the hash are third-party code: the
  record \<open>crypto\<close> collects the functions the source calls, and \<open>crypto_ok\<close> what their documentation
  promises (output lengths, that a signature verifies under its key, that key agreement commutes).
  A fixed-size array is a byte list, and \<open>cert_ok\<close> and \<open>revocation_ok\<close> state the sizes.
\<close>

section \<open>The cryptographic library\<close>

text \<open>
  \<open>cr_ed_public\<close> and \<open>cr_ed_sign\<close> take the signing seed; \<open>cr_ed_key\<close> is the success of
  \<^verbatim>\<open>VerifyingKey::from_bytes\<close>; \<open>cr_dh\<close> and \<open>cr_contributory\<close> are the two faces of an X25519 shared secret.
\<close>

record crypto =
  cr_blake2s :: "bytes \<Rightarrow> bytes"
  cr_ed_public :: "bytes \<Rightarrow> bytes"
  cr_ed_sign :: "bytes \<Rightarrow> bytes \<Rightarrow> bytes"
  cr_ed_key :: "bytes \<Rightarrow> bool"
  cr_ed_verify_strict :: "bytes \<Rightarrow> bytes \<Rightarrow> bytes \<Rightarrow> bool"
  cr_x_public :: "bytes \<Rightarrow> bytes"
  cr_dh :: "bytes \<Rightarrow> bytes \<Rightarrow> bytes"
  cr_contributory :: "bytes \<Rightarrow> bytes \<Rightarrow> bool"

definition crypto_ok :: "crypto \<Rightarrow> bool" where
  "crypto_ok C \<longleftrightarrow> (\<forall>m. length (cr_blake2s C m) = 32) \<and> (\<forall>k. length (cr_ed_public C k) = 32)
     \<and> (\<forall>k m. length (cr_ed_sign C k m) = 64) \<and> (\<forall>k. length (cr_x_public C k) = 32)
     \<and> (\<forall>k. cr_ed_key C (cr_ed_public C k)) \<and> (\<forall>k m. cr_ed_verify_strict C (cr_ed_public C k) m (cr_ed_sign C k m))
     \<and> (\<forall>a b. cr_dh C a (cr_x_public C b) = cr_dh C b (cr_x_public C a))
     \<and> (\<forall>a b. cr_contributory C a (cr_x_public C b))"

definition ascii :: "string \<Rightarrow> bytes" where
  "ascii s = map of_char s"

lemma length_ascii [simp]: "length (ascii s) = length s"
  by (simp add: ascii_def)

datatype auth_error =
    Malformed | BadVersion | WrongMesh | BadSignature | Expired | NotYetValid | Revoked
  | ReservedAddress | MacKeyMismatch | NoRevocationInstant | NonContributoryKey

section \<open>Keys\<close>

definition X25519_DERIVE_LABEL :: bytes where
  "X25519_DERIVE_LABEL = ascii ''wayfinder-x25519-v1''"

record keypair =
  kp_signing :: bytes
  kp_x_secret :: bytes

definition SEED_LEN :: nat where
  "SEED_LEN = 32"

definition keypair_from_seed :: "crypto \<Rightarrow> bytes \<Rightarrow> keypair" where
  "keypair_from_seed C seed = \<lparr>kp_signing = seed, kp_x_secret = cr_blake2s C (X25519_DERIVE_LABEL @ seed)\<rparr>"

definition ed_pubkey :: "crypto \<Rightarrow> keypair \<Rightarrow> bytes" where
  "ed_pubkey C k = cr_ed_public C (kp_signing k)"

definition x_pubkey :: "crypto \<Rightarrow> keypair \<Rightarrow> bytes" where
  "x_pubkey C k = cr_x_public C (kp_x_secret k)"

definition MAC_DERIVE_LABEL :: bytes where
  "MAC_DERIVE_LABEL = ascii ''wayfinder-mac-v1''"

fun force_locally_administered_unicast :: "mac \<Rightarrow> mac" where
  "force_locally_administered_unicast (Mac a b c d e f) = Mac ((a AND 0xFE) OR 0x02) b c d e f"

definition derive_mac :: "crypto \<Rightarrow> bytes \<Rightarrow> mac" where
  "derive_mac C ed = force_locally_administered_unicast (mac_at (cr_blake2s C (MAC_DERIVE_LABEL @ ed)) 0)"

definition derived_mac :: "crypto \<Rightarrow> keypair \<Rightarrow> mac" where
  "derived_mac C k = derive_mac C (ed_pubkey C k)"

definition sign :: "crypto \<Rightarrow> keypair \<Rightarrow> bytes \<Rightarrow> bytes" where
  "sign C k msg = cr_ed_sign C (kp_signing k) msg"

definition pairwise_key :: "crypto \<Rightarrow> keypair \<Rightarrow> bytes \<Rightarrow> auth_error + bytes" where
  "pairwise_key C k peer_x_pubkey =
     (if \<not> cr_contributory C (kp_x_secret k) peer_x_pubkey then Inl NonContributoryKey
      else Inr (cr_blake2s C (ascii ''wayfinder-pairwise-v1'' @ cr_dh C (kp_x_secret k) peer_x_pubkey)))"

definition verify_signature :: "crypto \<Rightarrow> bytes \<Rightarrow> bytes \<Rightarrow> bytes \<Rightarrow> bool" where
  "verify_signature C ed msg signature \<longleftrightarrow> cr_ed_key C ed \<and> cr_ed_verify_strict C ed msg signature"

definition validate_x25519_pubkey :: "crypto \<Rightarrow> bytes \<Rightarrow> auth_error + unit" where
  "validate_x25519_pubkey C x =
     (if cr_contributory C (replicate 32 1) x then Inr () else Inl NonContributoryKey)"

section \<open>Frame tags\<close>

definition TAG_LEN :: nat where
  "TAG_LEN = 16"

definition frame_tag :: "crypto \<Rightarrow> bytes \<Rightarrow> u64 \<Rightarrow> bytes \<Rightarrow> bytes \<Rightarrow> bytes" where
  "frame_tag C key counter context frame =
     take TAG_LEN (cr_blake2s C (ascii ''wayfinder-tag-v2'' @ key @ u64_to_be counter
       @ u32_to_be (word_of_nat (length context)) @ context @ frame))"

definition fanout_digest :: "crypto \<Rightarrow> u64 \<Rightarrow> bytes \<Rightarrow> bytes" where
  "fanout_digest C counter frame = cr_blake2s C (ascii ''wf-mcast-fanout-digest-v1'' @ u64_to_be counter @ frame)"

definition verify_frame_tag :: "crypto \<Rightarrow> bytes \<Rightarrow> u64 \<Rightarrow> bytes \<Rightarrow> bytes \<Rightarrow> bytes \<Rightarrow> bool" where
  "verify_frame_tag C key counter context frame tag \<longleftrightarrow> frame_tag C key counter context frame = tag"

section \<open>Certificates\<close>

definition CERT_VERSION :: u8 where "CERT_VERSION = 1"
definition CERT_FLAG_ADMIN :: u8 where "CERT_FLAG_ADMIN = 0x01"
definition CERT_FLAG_USER :: u8 where "CERT_FLAG_USER = 0x02"
definition CERT_FLAG_VIEWER :: u8 where "CERT_FLAG_VIEWER = 0x04"
definition CERT_FLAG_MEMBER :: u8 where "CERT_FLAG_MEMBER = 0x08"
definition CERT_RENEWAL_FRACTION :: u64 where "CERT_RENEWAL_FRACTION = 4"

definition CERT_FINGERPRINT_LABEL :: bytes where
  "CERT_FINGERPRINT_LABEL = ascii ''wayfinder-certfp-v1''"

record membership_cert =
  ct_version :: u8
  ct_flags :: u8
  ct_mesh_id :: u32
  ct_node_mac :: mac
  ct_ed_pubkey :: bytes
  ct_x_pubkey :: bytes
  ct_not_before :: u64
  ct_not_after :: u64
  ct_signature :: bytes

definition CERT_LEN :: nat where
  "CERT_LEN = 156"

definition cert_body :: "membership_cert \<Rightarrow> bytes" where
  "cert_body c = [ct_version c, ct_flags c] @ u32_to_be (ct_mesh_id c) @ mac_bytes (ct_node_mac c) @ ct_ed_pubkey c
     @ ct_x_pubkey c @ u64_to_be (ct_not_before c) @ u64_to_be (ct_not_after c)"

definition cert_write :: "membership_cert \<Rightarrow> bytes" where
  "cert_write c = cert_body c @ ct_signature c"

definition cert_read :: "bytes \<Rightarrow> (membership_cert \<times> bytes) option" where
  "cert_read bs =
     (if length bs < CERT_LEN then None
      else Some (\<lparr>ct_version = bs ! 0, ct_flags = bs ! 1, ct_mesh_id = u32_at bs 2, ct_node_mac = mac_at bs 6,
                  ct_ed_pubkey = take 32 (drop 12 bs), ct_x_pubkey = take 32 (drop 44 bs),
                  ct_not_before = u64_of_be (take 8 (drop 76 bs)), ct_not_after = u64_of_be (take 8 (drop 84 bs)),
                  ct_signature = take 64 (drop 92 bs)\<rparr>, drop CERT_LEN bs))"

definition cert_from_bytes :: "bytes \<Rightarrow> membership_cert option" where
  "cert_from_bytes bs = map_option fst (cert_read bs)"

definition signed_body :: "membership_cert \<Rightarrow> bytes" where
  "signed_body c = take (CERT_LEN - 64) (cert_write c)"

definition fingerprint :: "crypto \<Rightarrow> membership_cert \<Rightarrow> bytes" where
  "fingerprint C c = take 8 (cr_blake2s C (CERT_FINGERPRINT_LABEL @ cert_write c))"

definition renew_from :: "membership_cert \<Rightarrow> u64" where
  "renew_from c =
     (let window = saturating_sub (ct_not_after c) (ct_not_before c)
      in saturating_sub (ct_not_after c) (window div CERT_RENEWAL_FRACTION))"

definition cert_expired :: "u64 \<Rightarrow> membership_cert \<Rightarrow> bool" where
  "cert_expired now_unix c \<longleftrightarrow> now_unix > ct_not_after c"

definition due_renewal :: "u64 \<Rightarrow> membership_cert \<Rightarrow> bool" where
  "due_renewal now_unix c \<longleftrightarrow> \<not> cert_expired now_unix c \<and> now_unix \<ge> renew_from c"

record trust_anchor =
  ta_mesh_id :: u32
  ta_root_pubkey :: bytes

record verified_cert =
  vc_mac :: mac
  vc_ed_pubkey :: bytes
  vc_x_pubkey :: bytes
  vc_not_before :: u64
  vc_not_after :: u64
  vc_admin :: bool
  vc_viewer :: bool
  vc_user :: bool
  vc_member :: bool

fun is_reserved_mac :: "mac \<Rightarrow> bool" where
  "is_reserved_mac (Mac a b c d e f) \<longleftrightarrow> a AND 0x01 \<noteq> 0 \<or> Mac a b c d e f = Mac 0 0 0 0 0 0"

definition ANCHOR_LEN :: nat where
  "ANCHOR_LEN = 4 + 32"

definition anchor_to_bytes :: "trust_anchor \<Rightarrow> bytes" where
  "anchor_to_bytes a = u32_to_be (ta_mesh_id a) @ ta_root_pubkey a"

definition anchor_from_bytes :: "bytes \<Rightarrow> trust_anchor option" where
  "anchor_from_bytes bs =
     (if length bs < ANCHOR_LEN then None
      else Some \<lparr>ta_mesh_id = u32_at bs 0, ta_root_pubkey = take 32 (drop 4 bs)\<rparr>)"

definition verified_facts :: "membership_cert \<Rightarrow> verified_cert" where
  "verified_facts c = \<lparr>vc_mac = ct_node_mac c, vc_ed_pubkey = ct_ed_pubkey c, vc_x_pubkey = ct_x_pubkey c,
     vc_not_before = ct_not_before c, vc_not_after = ct_not_after c, vc_admin = (ct_flags c AND CERT_FLAG_ADMIN \<noteq> 0),
     vc_viewer = (ct_flags c AND CERT_FLAG_VIEWER \<noteq> 0), vc_user = (ct_flags c AND CERT_FLAG_USER \<noteq> 0),
     vc_member = (ct_flags c AND CERT_FLAG_MEMBER \<noteq> 0)\<rparr>"

definition verify_cert :: "crypto \<Rightarrow> trust_anchor \<Rightarrow> membership_cert \<Rightarrow> clocked \<Rightarrow> auth_error + verified_cert" where
  "verify_cert C a cert now =
     (if ct_version cert \<noteq> CERT_VERSION then Inl BadVersion
      else if ct_mesh_id cert \<noteq> ta_mesh_id a then Inl WrongMesh
      else if \<not> verify_signature C (ta_root_pubkey a) (signed_body cert) (ct_signature cert) then Inl BadSignature
      else if is_reserved_mac (ct_node_mac cert) then Inl ReservedAddress
      else if derive_mac C (ct_ed_pubkey cert) \<noteq> ct_node_mac cert then Inl MacKeyMismatch
      else if proves_before now (ct_not_before cert) then Inl NotYetValid
      else if proves_past now (ct_not_after cert) then Inl Expired
      else Inr (verified_facts cert))"

section \<open>Revocation records\<close>

definition REVOKE_VERSION :: u8 where "REVOKE_VERSION = 2"

record revocation_record =
  rv_version :: u8
  rv_flags :: u8
  rv_mesh_id :: u32
  rv_node_mac :: mac
  rv_not_before :: u64
  rv_not_after :: u64
  rv_signature :: bytes

definition REVOKE_LEN :: nat where
  "REVOKE_LEN = 92"

definition revocation_write :: "revocation_record \<Rightarrow> bytes" where
  "revocation_write r = [rv_version r, rv_flags r] @ u32_to_be (rv_mesh_id r) @ mac_bytes (rv_node_mac r)
     @ u64_to_be (rv_not_before r) @ u64_to_be (rv_not_after r) @ rv_signature r"

definition revocation_read :: "bytes \<Rightarrow> (revocation_record \<times> bytes) option" where
  "revocation_read bs =
     (if length bs < REVOKE_LEN then None
      else Some (\<lparr>rv_version = bs ! 0, rv_flags = bs ! 1, rv_mesh_id = u32_at bs 2, rv_node_mac = mac_at bs 6,
                  rv_not_before = u64_of_be (take 8 (drop 12 bs)), rv_not_after = u64_of_be (take 8 (drop 20 bs)),
                  rv_signature = take 64 (drop 28 bs)\<rparr>, drop REVOKE_LEN bs))"

definition revocation_from_bytes :: "bytes \<Rightarrow> revocation_record option" where
  "revocation_from_bytes bs = map_option fst (revocation_read bs)"

definition revocation_signed_body :: "revocation_record \<Rightarrow> bytes" where
  "revocation_signed_body r = take (REVOKE_LEN - 64) (revocation_write r)"

definition names_cert :: "mac \<Rightarrow> u64 \<Rightarrow> revocation_record \<Rightarrow> bool" where
  "names_cert node_mac cert_not_before r \<longleftrightarrow> rv_node_mac r = node_mac \<and> cert_not_before \<le> rv_not_before r"

definition cancels_cert_for :: "mac \<Rightarrow> u64 \<Rightarrow> u64 \<Rightarrow> revocation_record \<Rightarrow> bool" where
  "cancels_cert_for node_mac cert_not_before now_unix r \<longleftrightarrow>
     names_cert node_mac cert_not_before r \<and> rv_not_before r \<le> now_unix \<and> now_unix < rv_not_after r"

definition cancels :: "verified_cert \<Rightarrow> u64 \<Rightarrow> revocation_record \<Rightarrow> bool" where
  "cancels cert now_unix r = cancels_cert_for (vc_mac cert) (vc_not_before cert) now_unix r"

definition cancels_under :: "verified_cert \<Rightarrow> clocked \<Rightarrow> revocation_record \<Rightarrow> bool" where
  "cancels_under cert now r =
     (if \<not> names_cert (vc_mac cert) (vc_not_before cert) r then False
      else case now of
             At t \<Rightarrow> rv_not_before r \<le> t \<and> t < rv_not_after r
           | AtLeast _ \<Rightarrow> \<not> proves_reached now (rv_not_after r)
           | Unknown \<Rightarrow> \<not> proves_reached now (rv_not_after r))"

definition verify_revocation :: "crypto \<Rightarrow> trust_anchor \<Rightarrow> revocation_record \<Rightarrow> u64 \<Rightarrow> auth_error + mac" where
  "verify_revocation C a record now_unix =
     (if rv_version record \<noteq> REVOKE_VERSION then Inl BadVersion
      else if rv_mesh_id record \<noteq> ta_mesh_id a then Inl WrongMesh
      else if rv_not_before record = 0 then Inl NoRevocationInstant
      else if \<not> verify_signature C (ta_root_pubkey a) (revocation_signed_body record) (rv_signature record) then Inl BadSignature
      else if rv_not_after record \<le> now_unix then Inl Expired
      else Inr (rv_node_mac record))"

section \<open>The authority\<close>

record authority =
  au_root :: keypair
  au_mesh_id :: u32

definition authority_from_seed :: "crypto \<Rightarrow> bytes \<Rightarrow> u32 \<Rightarrow> authority" where
  "authority_from_seed C seed mesh_id = \<lparr>au_root = keypair_from_seed C seed, au_mesh_id = mesh_id\<rparr>"

definition trust_anchor_of :: "crypto \<Rightarrow> authority \<Rightarrow> trust_anchor" where
  "trust_anchor_of C a = \<lparr>ta_mesh_id = au_mesh_id a, ta_root_pubkey = ed_pubkey C (au_root a)\<rparr>"

definition issue_with_flags :: "crypto \<Rightarrow> authority \<Rightarrow> mac \<Rightarrow> bytes \<Rightarrow> bytes \<Rightarrow> u64 \<Rightarrow> u64 \<Rightarrow> u8 \<Rightarrow> membership_cert" where
  "issue_with_flags C a mac ed x not_before not_after flags =
     (let cert = \<lparr>ct_version = CERT_VERSION, ct_flags = flags, ct_mesh_id = au_mesh_id a, ct_node_mac = mac,
                  ct_ed_pubkey = ed, ct_x_pubkey = x, ct_not_before = not_before, ct_not_after = not_after,
                  ct_signature = replicate 64 0\<rparr>
      in cert\<lparr>ct_signature := sign C (au_root a) (signed_body cert)\<rparr>)"

definition issue_cert :: "crypto \<Rightarrow> authority \<Rightarrow> mac \<Rightarrow> bytes \<Rightarrow> bytes \<Rightarrow> u64 \<Rightarrow> u64 \<Rightarrow> membership_cert" where
  "issue_cert C a mac ed x not_before not_after = issue_with_flags C a mac ed x not_before not_after CERT_FLAG_MEMBER"

definition issue_user_cert :: "crypto \<Rightarrow> authority \<Rightarrow> mac \<Rightarrow> bytes \<Rightarrow> bytes \<Rightarrow> u64 \<Rightarrow> u64 \<Rightarrow> bool \<Rightarrow> membership_cert" where
  "issue_user_cert C a mac ed x not_before not_after admin =
     issue_with_flags C a mac ed x not_before not_after
       (CERT_FLAG_USER OR (if admin then CERT_FLAG_ADMIN else CERT_FLAG_VIEWER))"

definition revoke :: "crypto \<Rightarrow> authority \<Rightarrow> mac \<Rightarrow> u64 \<Rightarrow> u64 \<Rightarrow> revocation_record" where
  "revoke C a mac not_before not_after =
     (let record = \<lparr>rv_version = REVOKE_VERSION, rv_flags = 0, rv_mesh_id = au_mesh_id a, rv_node_mac = mac,
                    rv_not_before = not_before, rv_not_after = not_after, rv_signature = replicate 64 0\<rparr>
      in record\<lparr>rv_signature := sign C (au_root a) (revocation_signed_body record)\<rparr>)"

section \<open>Layouts\<close>

definition cert_ok :: "membership_cert \<Rightarrow> bool" where
  "cert_ok c \<longleftrightarrow> length (ct_ed_pubkey c) = 32 \<and> length (ct_x_pubkey c) = 32 \<and> length (ct_signature c) = 64"

definition revocation_ok :: "revocation_record \<Rightarrow> bool" where
  "revocation_ok r \<longleftrightarrow> length (rv_signature r) = 64"

lemma cert_write_length: "cert_ok c \<Longrightarrow> length (cert_write c) = CERT_LEN"
  by (simp add: cert_ok_def cert_write_def cert_body_def CERT_LEN_def)

lemma signed_body_eq: "cert_ok c \<Longrightarrow> signed_body c = cert_body c"
  by (simp add: cert_ok_def signed_body_def cert_write_def cert_body_def CERT_LEN_def)

lemma revocation_write_length: "revocation_ok r \<Longrightarrow> length (revocation_write r) = REVOKE_LEN"
  by (simp add: revocation_ok_def revocation_write_def REVOKE_LEN_def)

lemma u32_at_be: "u32_at (a # b # u32_to_be x @ rest) 2 = x"
  by (simp add: u32_at_def u32_to_be_def)

lemma mac_at_bytes: "mac_at (a # b # u32_to_be x @ mac_bytes m @ rest) 6 = m"
  by (cases m) (simp add: mac_at_def u32_to_be_def)

lemma cert_read_write: "cert_ok c \<Longrightarrow> cert_read (cert_write c @ rest) = Some (c, rest)"
  using cert_write_length [of c]
  by (simp add: cert_read_def CERT_LEN_def)
    (simp add: cert_write_def cert_body_def cert_ok_def u32_at_be mac_at_bytes)

lemma revocation_read_write: "revocation_ok r \<Longrightarrow> revocation_read (revocation_write r @ rest) = Some (r, rest)"
  using revocation_write_length [of r]
  by (simp add: revocation_read_def REVOKE_LEN_def)
    (simp add: revocation_write_def revocation_ok_def u32_at_be mac_at_bytes)

lemma take_drop_join: "take n (drop i bs) @ drop (i + n) bs = drop i bs"
  by (metis add.commute append_take_drop_id drop_drop)

lemma first_twelve:
  assumes "12 \<le> length bs"
  shows "[bs ! 0, bs ! 1] @ u32_to_be (u32_at bs 2) @ mac_bytes (mac_at bs 6) @ drop 12 bs = bs"
proof -
  have "map (nth bs) [0..<12] @ drop 12 bs = bs" using split_bytes [OF assms] by simp
  then show ?thesis by (simp add: u32_at_def upt_rec numeral_eq_Suc)
qed

lemma cert_write_read:
  assumes "cert_read bs = Some (c, rest)"
  shows "bs = cert_write c @ rest \<and> cert_ok c"
proof -
  have l: "156 \<le> length bs" using assms by (auto simp: cert_read_def CERT_LEN_def split: if_splits)
  have j: "take 32 (drop 12 bs) @ drop 44 bs = drop 12 bs" "take 32 (drop 44 bs) @ drop 76 bs = drop 44 bs"
    "take 8 (drop 76 bs) @ drop 84 bs = drop 76 bs" "take 8 (drop 84 bs) @ drop 92 bs = drop 84 bs"
    "take 64 (drop 92 bs) @ drop 156 bs = drop 92 bs"
    using take_drop_join [of 32 12 bs] take_drop_join [of 32 44 bs] take_drop_join [of 8 76 bs] take_drop_join [of 8 84 bs]
      take_drop_join [of 64 92 bs] by simp_all
  have "cert_write c @ rest = [bs ! 0, bs ! 1] @ u32_to_be (u32_at bs 2) @ mac_bytes (mac_at bs 6) @ drop 12 bs"
    using assms l j by (auto simp: cert_read_def CERT_LEN_def cert_write_def cert_body_def u64_to_be_of_be simp del: mac_bytes_at)
  then have "bs = cert_write c @ rest" using first_twelve [of bs] l by (simp del: mac_bytes_at)
  moreover have "cert_ok c" using assms l by (auto simp: cert_read_def cert_ok_def CERT_LEN_def)
  ultimately show ?thesis ..
qed

lemma cert_read_short: "cert_read bs = None \<longleftrightarrow> length bs < CERT_LEN"
  by (simp add: cert_read_def)

lemma anchor_roundtrip: "length (ta_root_pubkey a) = 32 \<Longrightarrow> anchor_from_bytes (anchor_to_bytes a @ rest) = Some a"
  by (simp add: anchor_from_bytes_def anchor_to_bytes_def ANCHOR_LEN_def u32_at_def u32_to_be_def)

section \<open>Facts about the library functions\<close>

lemma sign_verifies: "crypto_ok C \<Longrightarrow> verify_signature C (ed_pubkey C k) m (sign C k m)"
  by (simp add: crypto_ok_def verify_signature_def ed_pubkey_def sign_def)

lemma pairwise_key_agrees:
  assumes "crypto_ok C"
  shows "pairwise_key C a (x_pubkey C b) = pairwise_key C b (x_pubkey C a)" "\<exists>key. pairwise_key C a (x_pubkey C b) = Inr key"
  using assms by (simp_all add: crypto_ok_def pairwise_key_def x_pubkey_def)

lemma length_frame_tag [simp]: "crypto_ok C \<Longrightarrow> length (frame_tag C k n ctx f) = TAG_LEN"
  by (simp add: crypto_ok_def frame_tag_def TAG_LEN_def)

lemma length_sign [simp]: "crypto_ok C \<Longrightarrow> length (sign C k m) = 64"
  by (simp add: crypto_ok_def sign_def)

lemma length_pubkeys [simp]: "crypto_ok C \<Longrightarrow> length (ed_pubkey C k) = 32" "crypto_ok C \<Longrightarrow> length (x_pubkey C k) = 32"
  by (simp_all add: crypto_ok_def ed_pubkey_def x_pubkey_def)

lemma forced_bits: "((a AND 0xFE) OR 0x02) AND 0x01 = (0 :: u8)" "(a AND 0xFE) OR 0x02 \<noteq> (0 :: u8)"
proof -
  show "((a AND 0xFE) OR 0x02) AND 0x01 = (0 :: u8)"
    by (simp add: bit.conj_disj_distrib2 and.assoc)
  have "bit ((a AND 0xFE) OR 0x02 :: u8) 1" by (simp add: bit_simps)
  then show "(a AND 0xFE) OR 0x02 \<noteq> (0 :: u8)" by (metis bit_0_eq bot_apply bot_bool_def)
qed

lemma derive_mac_not_reserved: "\<not> is_reserved_mac (derive_mac C ed)"
  by (simp add: derive_mac_def mac_at_def forced_bits)

section \<open>Properties\<close>

lemma flag_bits:
  "CERT_FLAG_MEMBER \<noteq> 0" "CERT_FLAG_MEMBER AND CERT_FLAG_ADMIN = 0"
  "CERT_FLAG_MEMBER AND CERT_FLAG_VIEWER = 0" "CERT_FLAG_MEMBER AND CERT_FLAG_USER = 0"
  by (simp_all add: CERT_FLAG_MEMBER_def CERT_FLAG_ADMIN_def CERT_FLAG_VIEWER_def CERT_FLAG_USER_def)

lemma issued_ok:
  assumes "crypto_ok C" "length ed = 32" "length x = 32"
  shows "cert_ok (issue_with_flags C a m ed x nb na fl)"
    and "signed_body (issue_with_flags C a m ed x nb na fl)
      = signed_body \<lparr>ct_version = CERT_VERSION, ct_flags = fl, ct_mesh_id = au_mesh_id a, ct_node_mac = m,
          ct_ed_pubkey = ed, ct_x_pubkey = x, ct_not_before = nb, ct_not_after = na, ct_signature = replicate 64 0\<rparr>"
  using assms by (simp_all add: issue_with_flags_def Let_def cert_ok_def signed_body_eq) (simp add: cert_body_def)

lemma issued_cert_accepted:
  fixes C a k nb na
  defines "cert \<equiv> issue_cert C a (derived_mac C k) (ed_pubkey C k) (x_pubkey C k) nb na"
  assumes "crypto_ok C"
  shows "cert_from_bytes (cert_write cert @ rest) = Some cert"
    and "informs now t \<Longrightarrow> nb \<le> t \<Longrightarrow> t \<le> na \<Longrightarrow>
      verify_cert C (trust_anchor_of C a) cert now = Inr \<lparr>vc_mac = derived_mac C k, vc_ed_pubkey = ed_pubkey C k,
        vc_x_pubkey = x_pubkey C k, vc_not_before = nb, vc_not_after = na, vc_admin = False, vc_viewer = False,
        vc_user = False, vc_member = True\<rparr>"
    and "ta_mesh_id b \<noteq> au_mesh_id a \<Longrightarrow> verify_cert C b cert now = Inl WrongMesh"
proof -
  have ok: "cert_ok cert" using assms by (simp add: issue_cert_def issued_ok)
  then show "cert_from_bytes (cert_write cert @ rest) = Some cert" by (simp add: cert_from_bytes_def cert_read_write)
  have sig: "verify_signature C (ed_pubkey C (au_root a)) (signed_body cert) (ct_signature cert)"
    using assms(2) issued_ok(2) [OF assms(2)] sign_verifies
    by (simp add: cert_def issue_cert_def) (simp add: issue_with_flags_def Let_def sign_verifies)
  have fields: "ct_version cert = CERT_VERSION" "ct_mesh_id cert = au_mesh_id a" "ct_node_mac cert = derived_mac C k"
      "ct_ed_pubkey cert = ed_pubkey C k" "ct_not_before cert = nb" "ct_not_after cert = na" "ct_x_pubkey cert = x_pubkey C k"
      "ct_flags cert = CERT_FLAG_MEMBER"
    by (simp_all add: cert_def issue_cert_def issue_with_flags_def Let_def)
  show "ta_mesh_id b \<noteq> au_mesh_id a \<Longrightarrow> verify_cert C b cert now = Inl WrongMesh"
    using fields by (simp add: verify_cert_def)
  assume "informs now t" "nb \<le> t" "t \<le> na"
  then have "\<not> proves_before now nb" "\<not> proves_past now na" using informs_sound [of now t] by fastforce+
  then show "verify_cert C (trust_anchor_of C a) cert now = Inr \<lparr>vc_mac = derived_mac C k, vc_ed_pubkey = ed_pubkey C k,
      vc_x_pubkey = x_pubkey C k, vc_not_before = nb, vc_not_after = na, vc_admin = False, vc_viewer = False,
      vc_user = False, vc_member = True\<rparr>"
    using sig fields by (simp add: verify_cert_def trust_anchor_of_def derived_mac_def derive_mac_not_reserved verified_facts_def flag_bits)
qed

text \<open>
  What the authority issues is what a member accepts. A certificate issued for a node's derived
  address reads back from any bytes it was written to, and under every clock posture that claims
  nothing false about the time it verifies throughout its window against the authority's anchor, as a
  member without management capability; an anchor of another mesh refuses it.
\<close>

theorem issued_cert_verifies:
  assumes "crypto_ok C"
    and "cert = issue_cert C a (derived_mac C k) (ed_pubkey C k) (x_pubkey C k) nb na"
  shows "cert_from_bytes (cert_write cert @ rest) = Some cert
    \<and> (\<forall>now t. informs now t \<longrightarrow> nb \<le> t \<longrightarrow> t \<le> na \<longrightarrow>
      verify_cert C (trust_anchor_of C a) cert now = Inr \<lparr>vc_mac = derived_mac C k, vc_ed_pubkey = ed_pubkey C k,
        vc_x_pubkey = x_pubkey C k, vc_not_before = nb, vc_not_after = na, vc_admin = False, vc_viewer = False,
        vc_user = False, vc_member = True\<rparr>)
    \<and> (\<forall>b now. ta_mesh_id b \<noteq> au_mesh_id a \<longrightarrow> verify_cert C b cert now = Inl WrongMesh)"
  using issued_cert_accepted [OF assms(1)] unfolding assms(2) by blast

text \<open>A library for examples: keys are their own public keys, a signature repeats a digest.\<close>

definition toy_crypto :: crypto where
  "toy_crypto =
     \<lparr>cr_blake2s = (\<lambda>m. take 32 (rev m @ replicate 32 0)),
      cr_ed_public = (\<lambda>k. take 32 (k @ replicate 32 0)),
      cr_ed_sign = (\<lambda>k m. take 32 (k @ replicate 32 0) @ take 32 (m @ replicate 32 0)),
      cr_ed_key = (\<lambda>pk. True),
      cr_ed_verify_strict = (\<lambda>pk m s. s = pk @ take 32 (m @ replicate 32 0)),
      cr_x_public = (\<lambda>a. take 32 (a @ replicate 32 0)),
      cr_dh = (\<lambda>a b. map2 (XOR) (take 32 (a @ replicate 32 0)) (take 32 (b @ replicate 32 0))),
      cr_contributory = (\<lambda>a b. True)\<rparr>"

lemma map2_xor_commute: "map2 (XOR) xs ys = map2 (XOR) ys (xs :: bytes)"
  by (induction xs ys rule: list_induct2') (auto simp: xor.commute)

lemma toy_crypto_ok: "crypto_ok toy_crypto"
  by (simp add: crypto_ok_def toy_crypto_def map2_xor_commute min_def)

theorem issued_cert_verifies_witness:
  "let a = authority_from_seed toy_crypto [1] 7; k = keypair_from_seed toy_crypto [2];
       cert = issue_cert toy_crypto a (derived_mac toy_crypto k) (ed_pubkey toy_crypto k) (x_pubkey toy_crypto k) 100 200
   in cert_from_bytes (cert_write cert) = Some cert
      \<and> map_sum id vc_member (verify_cert toy_crypto (trust_anchor_of toy_crypto a) cert (AtLeast 150)) = Inr True
      \<and> verify_cert toy_crypto \<lparr>ta_mesh_id = 8, ta_root_pubkey = []\<rparr> cert Unknown = Inl WrongMesh"
proof -
  let ?a = "authority_from_seed toy_crypto [1] 7" and ?k = "keypair_from_seed toy_crypto [2]"
  note v = issued_cert_verifies [OF toy_crypto_ok refl, where a = ?a and k = ?k and nb = 100 and na = 200 and rest = "[]"]
  show ?thesis
    using v [THEN conjunct1] v [THEN conjunct2, THEN conjunct1, rule_format, where now = "AtLeast 150" and t = 160]
      v [THEN conjunct2, THEN conjunct2, rule_format, where b = "\<lparr>ta_mesh_id = 8, ta_root_pubkey = []\<rparr>" and now = Unknown]
    by (simp add: Let_def) (simp add: authority_from_seed_def)
qed

lemma posture_sound:
  assumes "informs now t"
  shows "verify_cert C a cert (At t) = Inr v \<Longrightarrow> verify_cert C a cert now = Inr v"
    and "verify_cert C a cert now = Inl e \<Longrightarrow> \<exists>e'. verify_cert C a cert (At t) = Inl e'"
    and "cancels v t r \<Longrightarrow> cancels_under v now r"
    and "rv_not_before r < vc_not_before v \<Longrightarrow> \<not> cancels_under v now r"
proof -
  show acc: "verify_cert C a cert (At t) = Inr v \<Longrightarrow> verify_cert C a cert now = Inr v" for v
    using informs_sound(1,2) [OF assms] by (auto simp: verify_cert_def split: if_splits)
  show "verify_cert C a cert now = Inl e \<Longrightarrow> \<exists>e'. verify_cert C a cert (At t) = Inl e'"
    using acc by (cases "verify_cert C a cert (At t)") auto
  show "cancels v t r \<Longrightarrow> cancels_under v now r"
    using assms by (cases now) (auto simp: cancels_def cancels_under_def cancels_cert_for_def)
  show "rv_not_before r < vc_not_before v \<Longrightarrow> \<not> cancels_under v now r"
    by (simp add: cancels_under_def names_cert_def not_le)
qed

text \<open>
  C40. Signature always, window when known. For a clock posture that claims nothing false about the true
  time, whatever an exact clock accepts is accepted, a certificate is refused only if an exact clock
  refuses it too, and a certificate an exact clock sees cancelled by a revocation record is seen
  cancelled as well; a certificate issued after the revocation instant is cancelled under no posture.
\<close>

theorem posture_safe:
  assumes "informs now t"
  shows "(\<forall>v. verify_cert C a cert (At t) = Inr v \<longrightarrow> verify_cert C a cert now = Inr v)
    \<and> (\<forall>e. verify_cert C a cert now = Inl e \<longrightarrow> (\<exists>e'. verify_cert C a cert (At t) = Inl e'))
    \<and> (\<forall>v r. cancels v t r \<longrightarrow> cancels_under v now r)
    \<and> (\<forall>v r. rv_not_before r < vc_not_before v \<longrightarrow> \<not> cancels_under v now r)"
  using posture_sound [OF assms] by blast

theorem posture_safe_witness:
  "cancels_under \<lparr>vc_mac = Mac 2 0 0 0 0 1, vc_ed_pubkey = [], vc_x_pubkey = [], vc_not_before = 100, vc_not_after = 900,
      vc_admin = False, vc_viewer = False, vc_user = False, vc_member = True\<rparr> (AtLeast 120)
     (revoke toy_crypto (authority_from_seed toy_crypto [1] 7) (Mac 2 0 0 0 0 1) 150 900)"
proof -
  let ?v = "\<lparr>vc_mac = Mac 2 0 0 0 0 1, vc_ed_pubkey = [], vc_x_pubkey = [], vc_not_before = 100, vc_not_after = 900,
      vc_admin = False, vc_viewer = False, vc_user = False, vc_member = True\<rparr>"
  have "cancels ?v 200 (revoke toy_crypto (authority_from_seed toy_crypto [1] 7) (Mac 2 0 0 0 0 1) 150 900)"
    by (simp add: cancels_def cancels_cert_for_def names_cert_def revoke_def Let_def)
  then show ?thesis using posture_safe [of "AtLeast 120" 200] by simp
qed

end
