(* ===== verification/Auth_State.thy ===== *)
theory Auth_State
  imports Cert Heapless
begin

text \<open>
  The state of a node's authenticator (\<^verbatim>\<open>libs/wayfinder/src/auth/mod.rs\<close>): its credential, what it knows of
  the time, the neighbours whose keys it verified, the replay counters, the revocations it enforces, and
  the bookkeeping of the certificate and renewal exchanges. The const-generic capacities are the fields of
  \<open>auth_profile\<close>. The two send-rate estimators (floating-point gauges) and the scratch buffer for signed
  messages are left out: no decision reads the first, and the second only bounds the length of a signed
  message.
\<close>

section \<open>Constants\<close>

definition OGM_HDR :: nat where "OGM_HDR = OGM_SIZE"
definition SEQNO_OFF :: nat where "SEQNO_OFF = 4"
definition ORIG_OFF :: nat where "ORIG_OFF = 8"
definition TVLV_LEN_OFF :: nat where "TVLV_LEN_OFF = OGM_HDR - 2"
definition SIG_LEN :: nat where "SIG_LEN = 64"
definition SIG_DOMAIN :: bytes where "SIG_DOMAIN = ascii ''wf-ogm-sig-v1''"
definition KEEPALIVE_SIG_DOMAIN :: bytes where "KEEPALIVE_SIG_DOMAIN = ascii ''wf-keepalive-sig-v1''"
definition FANOUT_SIG_DOMAIN :: bytes where "FANOUT_SIG_DOMAIN = ascii ''wf-mcast-fanout-sig-v1''"
definition KEEPALIVE_COUNTER_TAG :: u64 where "KEEPALIVE_COUNTER_TAG = 2 ^ 63"
definition KEEPALIVE_TRAILER_LEN :: nat where "KEEPALIVE_TRAILER_LEN = 8 + SIG_LEN"
definition DIRECTED_TRAILER_LEN :: nat where "DIRECTED_TRAILER_LEN = 8 + TAG_LEN"
definition FANOUT_TRAILER_LEN :: nat where "FANOUT_TRAILER_LEN = 8 + SIG_LEN"

definition MAX_TRAILER_LEN :: nat where
  "MAX_TRAILER_LEN = (if DIRECTED_TRAILER_LEN < FANOUT_TRAILER_LEN then FANOUT_TRAILER_LEN else DIRECTED_TRAILER_LEN)"

definition MAX_REVOKED :: nat where "MAX_REVOKED = 32"
definition MAX_NEIGHBOR_KEYS :: nat where "MAX_NEIGHBOR_KEYS = 64"
definition CHALLENGE_NONCE_LEN :: nat where "CHALLENGE_NONCE_LEN = TAG_LEN"
definition MAX_IN_PROGRESS_PROOF :: nat where "MAX_IN_PROGRESS_PROOF = 16"
definition NONCE_PRF_DOMAIN :: bytes where "NONCE_PRF_DOMAIN = ascii ''wf-nexthop-nonce-v1''"
definition CHALLENGE_RESP_DOMAIN :: bytes where "CHALLENGE_RESP_DOMAIN = ascii ''wf-nexthop-resp-v1''"
definition REVOKE_FLOOD_BUDGET :: u8 where "REVOKE_FLOOD_BUDGET = 6"
definition MAX_REVOKE_PER_OGM :: nat where "MAX_REVOKE_PER_OGM = 4"
definition MAX_IN_FLIGHT_CERT_REQUESTS :: nat where "MAX_IN_FLIGHT_CERT_REQUESTS = 16"
definition CERT_REQUEST_RETRY :: duration where "CERT_REQUEST_RETRY = 5 * 1000000000"
definition MAX_CERT_REQUEST_ATTEMPTS :: u8 where "MAX_CERT_REQUEST_ATTEMPTS = 6"
definition CERT_REQ_SIG_DOMAIN :: bytes where "CERT_REQ_SIG_DOMAIN = ascii ''wf-certreq-sig-v1''"
definition RENEW_REQ_SIG_DOMAIN :: bytes where "RENEW_REQ_SIG_DOMAIN = ascii ''wf-renewreq-sig-v1''"
definition RENEW_NONCE_PRF_DOMAIN :: bytes where "RENEW_NONCE_PRF_DOMAIN = ascii ''wf-renew-nonce-v1''"
definition RENEWAL_NONCE_LEN :: nat where "RENEWAL_NONCE_LEN = TAG_LEN"
definition RENEWAL_POLL_INTERVAL :: duration where "RENEWAL_POLL_INTERVAL = 15 * 60 * 1000000000"
definition OUTSTANDING_RENEWAL_TTL :: duration where "OUTSTANDING_RENEWAL_TTL = RENEWAL_POLL_INTERVAL * 2"
definition RENEW_REQ_RATE_LIMIT :: duration where "RENEW_REQ_RATE_LIMIT = 60 * 1000000000"
definition MAX_PENDING_REPLIES :: nat where "MAX_PENDING_REPLIES = 16"
definition PENDING_REPLY_TTL :: duration where "PENDING_REPLY_TTL = 30 * 1000000000"
definition CERT_REQ_RATE_LIMIT :: duration where "CERT_REQ_RATE_LIMIT = 2 * 1000000000"
definition SIGN_SCRATCH_LEN :: nat where "SIGN_SCRATCH_LEN = 256"

section \<open>Data\<close>

record pending_reply =
  pr_requester :: mac
  pr_parked :: duration

record in_flight_cert_request =
  if_orig :: mac
  if_fp :: bytes
  if_first_hop :: mac
  if_attempts :: u8
  if_next_attempt :: duration

datatype cached = Stored | RefusedLiveIdentity

datatype counter_verdict = CounterAccepted | CounterStale | CounterNoSlot

record neighbor_keys =
  nk_cert :: verified_cert
  nk_pairwise_key :: bytes
  nk_raw_cert :: membership_cert
  nk_last_ogm :: "(bytes \<times> bytes) option"

record outstanding_challenge =
  oc_neighbor :: mac
  oc_nonce :: bytes
  oc_issued_seq :: u64

record verified_renewal =
  vr_mac :: mac
  vr_ed_pubkey :: bytes
  vr_x_pubkey :: bytes

datatype ogm_verdict = Verified | Rejected | NeedCert mac bytes

record known_revocation =
  kr_record :: revocation_record
  kr_floods_left :: u8

record auth_profile =
  ap_neighbor_keys :: nat
  ap_revoked :: nat
  ap_in_flight :: nat
  ap_pending_replies :: nat

definition default_auth_profile :: auth_profile where
  "default_auth_profile = \<lparr>ap_neighbor_keys = MAX_NEIGHBOR_KEYS, ap_revoked = MAX_REVOKED,
     ap_in_flight = MAX_IN_FLIGHT_CERT_REQUESTS, ap_pending_replies = MAX_PENDING_REPLIES\<rparr>"

record ogm_auth =
  oa_keypair :: keypair
  oa_cert :: membership_cert
  oa_anchor :: trust_anchor
  oa_wall :: clocked
  oa_now :: duration
  oa_revocations :: "known_revocation list"
  oa_neighbors :: "neighbor_keys list"
  oa_send_counter :: u64
  oa_recv_counters :: "(mac, u64) imap"
  oa_self_revocation :: "revocation_record option"
  oa_trickle_reset_hint :: bool
  oa_key_generation :: u32
  oa_in_flight :: "in_flight_cert_request list"
  oa_pending_replies :: "pending_reply list"
  oa_cert_req_rate :: "(mac, duration) imap"
  oa_renewal_authority :: "mac option"
  oa_outstanding_renewal :: "duration option"
  oa_renew_req_rate :: "(mac, duration) imap"
  oa_pending_renewed_cert :: "membership_cert option"
  oa_renewal_requests_sent :: u64
  oa_renewal_replies_accepted :: u64
  oa_next_renewal_poll :: duration
  oa_pending_renewal :: "verified_renewal option"
  oa_challenge_counter :: u64
  oa_in_progress :: "outstanding_challenge list"
  oa_restart_candidate :: "(mac \<times> u64) option"
  oa_ogm_crypto_ops :: u64
  oa_unjudged_admissions :: u32

abbreviation nk_mac :: "neighbor_keys \<Rightarrow> mac" where
  "nk_mac n \<equiv> vc_mac (nk_cert n)"

abbreviation kr_mac :: "known_revocation \<Rightarrow> mac" where
  "kr_mac r \<equiv> rv_node_mac (kr_record r)"

definition with_capacities :: "keypair \<Rightarrow> membership_cert \<Rightarrow> trust_anchor \<Rightarrow> ogm_auth" where
  "with_capacities k cert anchor =
     \<lparr>oa_keypair = k, oa_cert = cert, oa_anchor = anchor, oa_wall = Unknown, oa_now = 0, oa_revocations = [],
      oa_neighbors = [], oa_send_counter = 0, oa_recv_counters = [], oa_self_revocation = None,
      oa_trickle_reset_hint = False, oa_key_generation = 0, oa_in_flight = [], oa_pending_replies = [],
      oa_cert_req_rate = [], oa_renewal_authority = None, oa_outstanding_renewal = None, oa_renew_req_rate = [],
      oa_pending_renewed_cert = None, oa_renewal_requests_sent = 0, oa_renewal_replies_accepted = 0,
      oa_next_renewal_poll = 0, oa_pending_renewal = None, oa_challenge_counter = 0, oa_in_progress = [],
      oa_restart_candidate = None, oa_ogm_crypto_ops = 0, oa_unjudged_admissions = 0\<rparr>"

definition take_trickle_reset_hint :: "ogm_auth \<Rightarrow> bool \<times> ogm_auth" where
  "take_trickle_reset_hint s = (oa_trickle_reset_hint s, s\<lparr>oa_trickle_reset_hint := False\<rparr>)"

section \<open>The passage of time\<close>

definition reclaim_bookkeeping :: "ogm_auth \<Rightarrow> ogm_auth" where
  "reclaim_bookkeeping s =
     (let now = oa_now s;
          s = s\<lparr>oa_pending_replies := filter (\<lambda>p. now - pr_parked p < PENDING_REPLY_TTL) (oa_pending_replies s)\<rparr>;
          s = s\<lparr>oa_in_flight := filter (\<lambda>r. if_attempts r < MAX_CERT_REQUEST_ATTEMPTS) (oa_in_flight s)\<rparr>
      in case oa_outstanding_renewal s of
           Some asked \<Rightarrow> if OUTSTANDING_RENEWAL_TTL \<le> now - asked then s\<lparr>oa_outstanding_renewal := None\<rparr> else s
         | None \<Rightarrow> s)"

text \<open>The loop over the revocations: the element swapped into a gap is judged next.\<close>

function drop_from :: "('a \<Rightarrow> bool) \<Rightarrow> nat \<Rightarrow> 'a list \<Rightarrow> 'a list" where
  "drop_from gone i xs =
     (if i < length xs
      then if gone (xs ! i) then drop_from gone i (vec_swap_remove i xs) else drop_from gone (Suc i) xs
      else xs)"
  by pat_completeness auto
termination
  by (relation "measure (\<lambda>(gone, i, xs). length xs - i)") (auto simp: length_vec_swap_remove)

declare drop_from.simps [simp del]

definition prune_expired :: "ogm_auth \<Rightarrow> ogm_auth" where
  "prune_expired s =
     (if \<not> judges_windows (oa_wall s) then s
      else let now = unix_or_zero (oa_wall s)
           in s\<lparr>oa_revocations := drop_from (\<lambda>r. rv_not_after (kr_record r) \<le> now) 0 (oa_revocations s)\<rparr>)"

definition evict_expired_neighbors :: "ogm_auth \<Rightarrow> ogm_auth" where
  "evict_expired_neighbors s =
     (if \<not> judges_windows (oa_wall s) then s
      else let kept = filter (\<lambda>n. \<not> proves_past (oa_wall s) (vc_not_after (nk_cert n))) (oa_neighbors s);
               changed = (length kept \<noteq> length (oa_neighbors s));
               s = s\<lparr>oa_neighbors := kept\<rparr>
           in if changed then s\<lparr>oa_key_generation := oa_key_generation s + 1\<rparr> else s)"

definition set_time :: "duration \<Rightarrow> clocked \<Rightarrow> ogm_auth \<Rightarrow> ogm_auth" where
  "set_time now wall s =
     evict_expired_neighbors (prune_expired (reclaim_bookkeeping (s\<lparr>oa_now := now, oa_wall := wall\<rparr>)))"

section \<open>What pruning keeps\<close>

lemma take_vec_swap_remove: "i < length xs \<Longrightarrow> take i (vec_swap_remove i xs) = take i xs"
  by (simp add: vec_swap_remove_def swap_remove_eq [OF documented_swap_law] take_butlast butlast_conv_take)

lemma drop_from_keyed:
  assumes "distinct (map key xs)" "\<forall>x\<in>set (take i xs). \<not> gone x"
  shows "distinct (map key (drop_from gone i xs)) \<and> set (drop_from gone i xs) = {x \<in> set xs. \<not> gone x}
    \<and> length (drop_from gone i xs) \<le> length xs"
  using assms
proof (induction gone i xs rule: drop_from.induct)
  case (1 gone i xs)
  note unfold = drop_from.simps [of gone i xs]
  consider (removed) "i < length xs" "gone (xs ! i)" | (kept) "i < length xs" "\<not> gone (xs ! i)" | (over) "length xs \<le> i"
    by linarith
  then show ?case
  proof cases
    case removed
    note r = vec_swap_remove_keyed [OF "1.prems"(1) removed(1)]
    have "x = xs ! i" if "x \<in> set xs" "key x = key (xs ! i)" for x
      using that "1.prems"(1) removed(1) by (meson distinct_map inj_onD nth_mem)
    then have "{x \<in> set (vec_swap_remove i xs). \<not> gone x} = {x \<in> set xs. \<not> gone x}"
      unfolding r(2) using removed(2) by blast
    moreover have "drop_from gone i xs = drop_from gone i (vec_swap_remove i xs)" using removed unfold by simp
    moreover have "\<forall>x\<in>set (take i (vec_swap_remove i xs)). \<not> gone x"
      using "1.prems"(2) removed(1) by (simp add: take_vec_swap_remove)
    ultimately show ?thesis
      using "1.IH"(1) [OF removed r(1)] length_vec_swap_remove [OF removed(1)] by auto
  next
    case kept
    have "\<forall>x\<in>set (take (Suc i) xs). \<not> gone x" using "1.prems"(2) kept by (auto simp: take_Suc_conv_app_nth)
    moreover have "drop_from gone i xs = drop_from gone (Suc i) xs" using kept unfold by simp
    ultimately show ?thesis using "1.IH"(2) [OF kept "1.prems"(1)] by simp
  next
    case over
    then have "drop_from gone i xs = xs" "take i xs = xs" using unfold by simp_all
    then show ?thesis using "1.prems" by auto
  qed
qed

lemmas drop_from_start = drop_from_keyed [where i = 0, simplified]

lemma vec_ok_drop_from:
  assumes "vec_ok cap key xs"
  shows "vec_ok cap key (drop_from gone 0 xs)" "set (drop_from gone 0 xs) = {x \<in> set xs. \<not> gone x}"
  using assms drop_from_start [of key xs gone] by (auto simp: vec_ok_def)

end
