(* ===== verification/Pairwise.thy ===== *)
theory Pairwise
  imports Auth_State
begin

text \<open>
  The neighbour key cache and the data-plane authenticator (\<^verbatim>\<open>libs/wayfinder/src/auth/pairwise.rs\<close>): tags on
  directed frames, signatures on fan-out frames, and the replay counters both ride. A trailer the caller
  lends is an argument, and the result holds it as written.
\<close>

section \<open>The neighbour key cache\<close>

definition live_neighbor :: "mac \<Rightarrow> ogm_auth \<Rightarrow> neighbor_keys option" where
  "live_neighbor m s =
     find (\<lambda>n. nk_mac n = m \<and> \<not> proves_past (oa_wall s) (vc_not_after (nk_cert n))) (oa_neighbors s)"

definition evict_neighbor :: "mac \<Rightarrow> ogm_auth \<Rightarrow> ogm_auth" where
  "evict_neighbor m s =
     (let s = (case position (\<lambda>n. nk_mac n = m) (oa_neighbors s) of
                 Some i \<Rightarrow> s\<lparr>oa_neighbors := vec_swap_remove i (oa_neighbors s),
                             oa_key_generation := oa_key_generation s + 1\<rparr>
               | None \<Rightarrow> s);
          s = s\<lparr>oa_recv_counters := im_remove documented_swap m (oa_recv_counters s)\<rparr>
      in case oa_restart_candidate s of
           Some (c, _) \<Rightarrow> if c = m then s\<lparr>oa_restart_candidate := None\<rparr> else s
         | None \<Rightarrow> s)"

definition neighbor_cert :: "crypto \<Rightarrow> mac \<Rightarrow> ogm_auth \<Rightarrow> (membership_cert \<times> bytes) option" where
  "neighbor_cert C m s = map_option (\<lambda>n. (nk_raw_cert n, fingerprint C (nk_raw_cert n))) (live_neighbor m s)"

definition has_live_key :: "mac \<Rightarrow> ogm_auth \<Rightarrow> bool" where
  "has_live_key m s \<longleftrightarrow> live_neighbor m s \<noteq> None"

definition neighbor_x_pubkey :: "mac \<Rightarrow> ogm_auth \<Rightarrow> bytes option" where
  "neighbor_x_pubkey m s = map_option (\<lambda>n. vc_x_pubkey (nk_cert n)) (live_neighbor m s)"

definition identity_conflict :: "mac \<Rightarrow> bytes \<Rightarrow> ogm_auth \<Rightarrow> bool" where
  "identity_conflict m ed s \<longleftrightarrow>
     judges_windows (oa_wall s)
     \<and> list_ex (\<lambda>n. nk_mac n = m \<and> \<not> proves_past (oa_wall s) (vc_not_after (nk_cert n))
                    \<and> vc_ed_pubkey (nk_cert n) \<noteq> ed) (oa_neighbors s)"

definition cache_neighbor :: "auth_profile \<Rightarrow> neighbor_keys \<Rightarrow> ogm_auth \<Rightarrow> cached \<times> ogm_auth" where
  "cache_neighbor P keys s =
     (if identity_conflict (nk_mac keys) (vc_ed_pubkey (nk_cert keys)) s then (RefusedLiveIdentity, s)
      else
        let s = (if \<not> judges_windows (oa_wall s)
                 then s\<lparr>oa_unjudged_admissions := saturating_add (oa_unjudged_admissions s) 1\<rparr> else s)
        in (Stored,
            case update_first (\<lambda>n. nk_mac n = nk_mac keys) (\<lambda>_. keys) (oa_neighbors s) of
              Some ns \<Rightarrow> s\<lparr>oa_neighbors := ns\<rparr>
            | None \<Rightarrow>
                (case vec_push (ap_neighbor_keys P) keys (oa_neighbors s) of
                   Some ns \<Rightarrow> s\<lparr>oa_neighbors := ns\<rparr>
                 | None \<Rightarrow>
                     (case oa_neighbors s of
                        [] \<Rightarrow> s
                      | _ # rest \<Rightarrow> s\<lparr>oa_neighbors := keys # rest, oa_key_generation := oa_key_generation s + 1\<rparr>))))"

section \<open>Replay counters\<close>

definition next_send_counter :: "ogm_auth \<Rightarrow> (u64 \<times> ogm_auth) option" where
  "next_send_counter s =
     (if oa_send_counter s = - 1 then None
      else let s = s\<lparr>oa_send_counter := oa_send_counter s + 1\<rparr> in Some (oa_send_counter s, s))"

definition accept_recv_counter :: "auth_profile \<Rightarrow> mac \<Rightarrow> u64 \<Rightarrow> ogm_auth \<Rightarrow> counter_verdict \<times> ogm_auth" where
  "accept_recv_counter P src counter s =
     (case im_get (oa_recv_counters s) src of
        Some high \<Rightarrow>
          if counter \<le> high then (CounterStale, s)
          else (CounterAccepted, s\<lparr>oa_recv_counters := im_set src counter (oa_recv_counters s)\<rparr>)
      | None \<Rightarrow>
          (case vec_push (ap_neighbor_keys P) (src, counter) (oa_recv_counters s) of
             Some cs \<Rightarrow> (CounterAccepted, s\<lparr>oa_recv_counters := cs\<rparr>)
           | None \<Rightarrow> (CounterNoSlot, s)))"

definition anchor_recv_counter :: "auth_profile \<Rightarrow> mac \<Rightarrow> u64 \<Rightarrow> ogm_auth \<Rightarrow> bool \<times> ogm_auth" where
  "anchor_recv_counter P src counter s =
     (if im_contains (oa_recv_counters s) src
      then (True, s\<lparr>oa_recv_counters := im_set src counter (oa_recv_counters s)\<rparr>)
      else case vec_push (ap_neighbor_keys P) (src, counter) (oa_recv_counters s) of
             Some cs \<Rightarrow> (True, s\<lparr>oa_recv_counters := cs\<rparr>)
           | None \<Rightarrow> (False, s))"

section \<open>Directed frames\<close>

definition write_trailer :: "u64 \<Rightarrow> bytes \<Rightarrow> bytes \<Rightarrow> bytes" where
  "write_trailer counter proof trailer = u64_to_be counter @ proof @ drop (8 + length proof) trailer"

definition tag_directed :: "crypto \<Rightarrow> mac \<Rightarrow> bytes \<Rightarrow> bytes \<Rightarrow> ogm_auth \<Rightarrow> (nat \<times> bytes) option \<times> ogm_auth" where
  "tag_directed C dst frame trailer s =
     (if length trailer < DIRECTED_TRAILER_LEN then (None, s)
      else case live_neighbor dst s of
             None \<Rightarrow> (None, s)
           | Some n \<Rightarrow>
               (case next_send_counter s of
                  None \<Rightarrow> (None, s)
                | Some (counter, s) \<Rightarrow>
                    let tag = frame_tag C (nk_pairwise_key n) counter (mac_bytes (ct_node_mac (oa_cert s))) frame
                    in (Some (DIRECTED_TRAILER_LEN, write_trailer counter tag trailer), s)))"

definition verify_directed_tag :: "crypto \<Rightarrow> mac \<Rightarrow> bytes \<Rightarrow> bytes \<Rightarrow> ogm_auth \<Rightarrow> u64 option" where
  "verify_directed_tag C src frame trailer s =
     (if length trailer \<noteq> DIRECTED_TRAILER_LEN then None
      else case live_neighbor src s of
             None \<Rightarrow> None
           | Some n \<Rightarrow>
               let counter = u64_of_be (take 8 trailer); tag = drop 8 trailer
               in if verify_frame_tag C (nk_pairwise_key n) counter (mac_bytes src) frame tag then Some counter else None)"

definition verify_directed :: "crypto \<Rightarrow> auth_profile \<Rightarrow> mac \<Rightarrow> bytes \<Rightarrow> bytes \<Rightarrow> ogm_auth \<Rightarrow> bool \<times> ogm_auth" where
  "verify_directed C P src frame trailer s =
     (case verify_directed_tag C src frame trailer s of
        None \<Rightarrow> (False, s)
      | Some counter \<Rightarrow>
          (case accept_recv_counter P src counter s of
             (CounterAccepted, s) \<Rightarrow> (True, s)
           | (CounterStale, s) \<Rightarrow> (False, s)
           | (CounterNoSlot, s) \<Rightarrow> (False, s)))"

definition verify_directed_nonce_fresh ::
    "crypto \<Rightarrow> auth_profile \<Rightarrow> mac \<Rightarrow> bytes \<Rightarrow> bytes \<Rightarrow> ogm_auth \<Rightarrow> bool \<times> ogm_auth" where
  "verify_directed_nonce_fresh C P src frame trailer s =
     (if frame = [] \<or> hd frame \<noteq> packet_type_as_u8 NextHopResponse then verify_directed C P src frame trailer s
      else case verify_directed_tag C src frame trailer s of
             None \<Rightarrow> (False, s)
           | Some counter \<Rightarrow>
               (case accept_recv_counter P src counter s of
                  (CounterAccepted, s) \<Rightarrow> (True, s\<lparr>oa_restart_candidate := None\<rparr>)
                | (CounterStale, s) \<Rightarrow>
                    if list_ex (\<lambda>c. oc_neighbor c = src) (oa_in_progress s)
                    then (True, s\<lparr>oa_restart_candidate := Some (src, counter)\<rparr>)
                    else (False, s\<lparr>oa_restart_candidate := None\<rparr>)
                | (CounterNoSlot, s) \<Rightarrow> (False, s)))"

section \<open>Fan-out frames\<close>

definition fanout_message :: "crypto \<Rightarrow> u64 \<Rightarrow> bytes \<Rightarrow> bytes" where
  "fanout_message C counter frame = FANOUT_SIG_DOMAIN @ fanout_digest C counter frame"

definition sign_fanout :: "crypto \<Rightarrow> bytes \<Rightarrow> bytes \<Rightarrow> ogm_auth \<Rightarrow> (nat \<times> bytes) option \<times> ogm_auth" where
  "sign_fanout C frame trailer s =
     (if length trailer < FANOUT_TRAILER_LEN then (None, s)
      else case next_send_counter s of
             None \<Rightarrow> (None, s)
           | Some (counter, s) \<Rightarrow>
               let sig = sign C (oa_keypair s) (fanout_message C counter frame)
               in (Some (FANOUT_TRAILER_LEN, write_trailer counter sig trailer), s))"

definition verify_fanout :: "crypto \<Rightarrow> auth_profile \<Rightarrow> mac \<Rightarrow> bytes \<Rightarrow> bytes \<Rightarrow> ogm_auth \<Rightarrow> bool \<times> ogm_auth" where
  "verify_fanout C P src frame trailer s =
     (if length trailer \<noteq> FANOUT_TRAILER_LEN then (False, s)
      else case live_neighbor src s of
             None \<Rightarrow> (False, s)
           | Some n \<Rightarrow>
               let counter = u64_of_be (take 8 trailer); sig = drop 8 trailer
               in if \<not> verify_signature C (vc_ed_pubkey (nk_cert n)) (fanout_message C counter frame) sig then (False, s)
                  else case accept_recv_counter P src counter s of
                         (v, s) \<Rightarrow> (v = CounterAccepted, s))"

section \<open>Well-formed tables\<close>

text \<open>
  Every table keeps one row per address within its capacity; a pending restart claim is behind the
  counter held for its neighbour.
\<close>

fun claim_ok :: "(mac, u64) imap \<Rightarrow> (mac \<times> u64) option \<Rightarrow> bool" where
  "claim_ok counters None = True"
| "claim_ok counters (Some (m, c)) = (case im_get counters m of None \<Rightarrow> False | Some h \<Rightarrow> c \<le> h)"

definition tables_ok :: "auth_profile \<Rightarrow> ogm_auth \<Rightarrow> bool" where
  "tables_ok P s \<longleftrightarrow> vec_ok (ap_neighbor_keys P) nk_mac (oa_neighbors s)
     \<and> im_ok (ap_neighbor_keys P) (oa_recv_counters s)
     \<and> vec_ok (ap_revoked P) kr_mac (oa_revocations s)
     \<and> vec_ok MAX_IN_PROGRESS_PROOF oc_neighbor (oa_in_progress s)
     \<and> vec_ok (ap_in_flight P) if_orig (oa_in_flight s)
     \<and> vec_ok (ap_pending_replies P) pr_requester (oa_pending_replies s)
     \<and> im_ok (ap_neighbor_keys P) (oa_cert_req_rate s) \<and> im_ok (ap_neighbor_keys P) (oa_renew_req_rate s)
     \<and> claim_ok (oa_recv_counters s) (oa_restart_candidate s)"

lemma tables_okD:
  assumes "tables_ok P s"
  shows "vec_ok (ap_neighbor_keys P) nk_mac (oa_neighbors s)" "distinct (map nk_mac (oa_neighbors s))"
    "im_ok (ap_neighbor_keys P) (oa_recv_counters s)" "distinct (im_keys (oa_recv_counters s))"
    "vec_ok (ap_revoked P) kr_mac (oa_revocations s)" "distinct (map kr_mac (oa_revocations s))"
    "vec_ok MAX_IN_PROGRESS_PROOF oc_neighbor (oa_in_progress s)" "distinct (map oc_neighbor (oa_in_progress s))"
    "vec_ok (ap_in_flight P) if_orig (oa_in_flight s)" "vec_ok (ap_pending_replies P) pr_requester (oa_pending_replies s)"
    "im_ok (ap_neighbor_keys P) (oa_cert_req_rate s)" "im_ok (ap_neighbor_keys P) (oa_renew_req_rate s)"
  using assms by (auto simp: tables_ok_def vec_ok_def im_ok_def)

lemma tables_ok_candidate:
  assumes "tables_ok P s" "oa_restart_candidate s = Some (m, c)"
  obtains h where "im_get (oa_recv_counters s) m = Some h" "c \<le> h"
  using assms by (auto simp: tables_ok_def split: option.splits)

lemma with_capacities_ok [simp]: "tables_ok P (with_capacities k cert anchor)"
  by (simp add: tables_ok_def with_capacities_def)

lemma live_neighbor_iff:
  assumes "distinct (map nk_mac (oa_neighbors s))"
  shows "live_neighbor m s = Some n \<longleftrightarrow>
    n \<in> set (oa_neighbors s) \<and> nk_mac n = m \<and> \<not> proves_past (oa_wall s) (vc_not_after (nk_cert n))"
proof -
  have "find (\<lambda>n. nk_mac n = m \<and> q n) ns = Some n \<longleftrightarrow> n \<in> set ns \<and> nk_mac n = m \<and> q n"
    if "distinct (map nk_mac ns)" for q and ns :: "neighbor_keys list"
    using that by (induction ns) (auto simp: image_iff)
  then show ?thesis using assms by (simp add: live_neighbor_def)
qed

lemma live_neighbor_in:
  "live_neighbor m s = Some n \<Longrightarrow> n \<in> set (oa_neighbors s) \<and> nk_mac n = m \<and> \<not> proves_past (oa_wall s) (vc_not_after (nk_cert n))"
  unfolding live_neighbor_def by (auto simp: find_Some_iff)

section \<open>Caching and evicting\<close>

lemma cache_neighbor_cases:
  assumes "vec_ok (ap_neighbor_keys P) nk_mac (oa_neighbors s)"
  obtains (refused) "cache_neighbor P k s = (RefusedLiveIdentity, s)"
      "identity_conflict (nk_mac k) (vc_ed_pubkey (nk_cert k)) s"
  | (stored) ns g u where "cache_neighbor P k s
        = (Stored, s\<lparr>oa_neighbors := ns, oa_key_generation := g, oa_unjudged_admissions := u\<rparr>)"
      "\<not> identity_conflict (nk_mac k) (vc_ed_pubkey (nk_cert k)) s"
      "vec_ok (ap_neighbor_keys P) nk_mac ns" "set ns \<subseteq> insert k (set (oa_neighbors s))"
      "0 < ap_neighbor_keys P \<longrightarrow> k \<in> set ns"
      "\<forall>n\<in>set (oa_neighbors s). nk_mac n = nk_mac k \<or> n \<in> set ns \<or> length (oa_neighbors s) = ap_neighbor_keys P"
proof (cases "identity_conflict (nk_mac k) (vc_ed_pubkey (nk_cert k)) s")
  case True
  then show thesis using refused by (simp add: cache_neighbor_def)
next
  case False
  define u where "u = (if judges_windows (oa_wall s) then oa_unjudged_admissions s
    else saturating_add (oa_unjudged_admissions s) 1)"
  have s1: "(if \<not> judges_windows (oa_wall s)
      then s\<lparr>oa_unjudged_admissions := saturating_add (oa_unjudged_admissions s) 1\<rparr> else s) = s\<lparr>oa_unjudged_admissions := u\<rparr>"
    by (simp add: u_def)
  note unfolded = cache_neighbor_def [of P k s, unfolded s1 Let_def] False
  show thesis
  proof (cases "update_first (\<lambda>n. nk_mac n = nk_mac k) (\<lambda>_. k) (oa_neighbors s)")
    case (Some ns)
    have "set ns = insert k {n \<in> set (oa_neighbors s). nk_mac n \<noteq> nk_mac k}"
      using update_first_keyed [OF _ Some] assms by (simp add: vec_ok_def)
    then show thesis
      using stored [where ns = ns and g = "oa_key_generation s" and u = u] Some unfolded vec_ok_update_first [OF assms Some] by auto
  next
    case None
    then have new: "nk_mac k \<notin> nk_mac ` set (oa_neighbors s)" by (simp add: update_first_absent)
    show thesis
    proof (cases "vec_push (ap_neighbor_keys P) k (oa_neighbors s)")
      case (Some ns)
      then have "ns = oa_neighbors s @ [k]" by (simp add: vec_push_def split: if_splits)
      then show thesis
        using stored [where ns = ns and g = "oa_key_generation s" and u = u] Some None unfolded vec_ok_push [OF assms new Some] by auto
    next
      case full: None
      then have len: "length (oa_neighbors s) = ap_neighbor_keys P"
        using assms by (auto simp: vec_push_def vec_ok_def split: if_splits)
      show thesis
      proof (cases "oa_neighbors s")
        case Nil
        then show thesis using stored [where ns = "[]" and g = "oa_key_generation s" and u = u] full None unfolded len by simp
      next
        case (Cons a rest)
        have "vec_ok (ap_neighbor_keys P) nk_mac (k # rest)" using vec_ok_set [OF assms new, of 0] Cons by simp
        then show thesis
          using stored [where ns = "k # rest" and g = "oa_key_generation s + 1" and u = u] full None unfolded len Cons by auto
      qed
    qed
  qed
qed

lemma evict_neighbor_cases:
  obtains g c where "evict_neighbor m s = s\<lparr>oa_neighbors := vec_remove_first (\<lambda>n. nk_mac n = m) (oa_neighbors s),
      oa_key_generation := g, oa_recv_counters := im_remove documented_swap m (oa_recv_counters s),
      oa_restart_candidate := c\<rparr>"
    "c = (case oa_restart_candidate s of Some (a, h) \<Rightarrow> if a = m then None else Some (a, h) | None \<Rightarrow> None)"
proof -
  define c where "c = (case oa_restart_candidate s of Some (a, h) \<Rightarrow> if a = m then None else Some (a, h) | None \<Rightarrow> None)"
  define g where "g = (if nk_mac ` set (oa_neighbors s) \<inter> {m} = {} then oa_key_generation s else oa_key_generation s + 1)"
  have "evict_neighbor m s = s\<lparr>oa_neighbors := vec_remove_first (\<lambda>n. nk_mac n = m) (oa_neighbors s),
      oa_key_generation := g, oa_recv_counters := im_remove documented_swap m (oa_recv_counters s), oa_restart_candidate := c\<rparr>"
  proof (cases "position (\<lambda>n. nk_mac n = m) (oa_neighbors s)")
    case None
    then have "g = oa_key_generation s" by (auto simp: g_def position_None)
    with None show ?thesis
      by (cases "oa_restart_candidate s") (auto simp: evict_neighbor_def Let_def c_def vec_remove_first_def)
  next
    case (Some i)
    from position_Some [OF this] have "m \<in> nk_mac ` set (oa_neighbors s)" by auto
    then have "g = oa_key_generation s + 1" by (auto simp: g_def)
    with Some show ?thesis
      by (cases "oa_restart_candidate s") (auto simp: evict_neighbor_def Let_def c_def vec_remove_first_def)
  qed
  then show thesis using that c_def by blast
qed

lemma im_ok_remove: "im_ok cap m \<Longrightarrow> im_ok cap (im_remove documented_swap k m)"
  using im_remove_props [OF documented_swap_law, of m k] by (auto simp: im_ok_def)

lemma evict_neighbor_tables [simp]: "tables_ok P s \<Longrightarrow> tables_ok P (evict_neighbor m s)"
proof -
  assume ok: "tables_ok P s"
  obtain g c where e: "evict_neighbor m s = s\<lparr>oa_neighbors := vec_remove_first (\<lambda>n. nk_mac n = m) (oa_neighbors s),
      oa_key_generation := g, oa_recv_counters := im_remove documented_swap m (oa_recv_counters s), oa_restart_candidate := c\<rparr>"
    and c: "c = (case oa_restart_candidate s of Some (a, h) \<Rightarrow> if a = m then None else Some (a, h) | None \<Rightarrow> None)"
    by (rule evict_neighbor_cases)
  have "claim_ok (im_remove documented_swap m (oa_recv_counters s)) c"
    using ok tables_okD(4) [OF ok]
    by (auto simp: c tables_ok_def im_get_remove [OF documented_swap_law] split: option.splits)
  then show ?thesis
    using ok unfolding e by (auto simp: tables_ok_def vec_ok_remove_first im_ok_remove)
qed

section \<open>The replay guard\<close>

text \<open>
  What the verifiers rely on: a guard takes a counter only above the one it holds for the source, then
  holds it, and changes nothing when it refuses.
\<close>

locale replay_guard =
  fixes high :: "'s \<Rightarrow> 'k \<Rightarrow> 'c::linorder option"
    and accept :: "'k \<Rightarrow> 'c \<Rightarrow> 's \<Rightarrow> bool \<times> 's"
    and invar :: "'s \<Rightarrow> bool"
  assumes accept_taken: "invar s \<Longrightarrow> accept k c s = (True, s') \<Longrightarrow>
      invar s' \<and> high s' = (high s)(k \<mapsto> c) \<and> (\<forall>h. high s k = Some h \<longrightarrow> h < c)"
    and accept_refused: "accept k c s = (False, s') \<Longrightarrow> s' = s"
begin

lemma refused_behind:
  assumes "invar s" "high s k = Some h" "c \<le> h"
  shows "accept k c s = (False, s)"
proof (cases "accept k c s")
  case (Pair b s')
  have "\<not> b" using accept_taken [OF assms(1), of k c s'] assms(2,3) Pair by auto
  with Pair accept_refused [of k c s s'] show ?thesis by simp
qed

lemma high_advances:
  assumes "invar s" "accept k c s = (b, s')"
  shows "invar s' \<and> (\<forall>m h. high s m = Some h \<longrightarrow> (\<exists>h'. high s' m = Some h' \<and> h \<le> h'))"
proof (cases b)
  case True
  with accept_taken assms have "invar s'" "high s' = (high s)(k \<mapsto> c)" "\<forall>h. high s k = Some h \<longrightarrow> h < c" by auto
  then show ?thesis by (auto intro: less_imp_le)
next
  case False
  with accept_refused assms have "s' = s" by auto
  with assms(1) show ?thesis by auto
qed

end

lemma accept_recv_counter_cases:
  assumes "im_ok (ap_neighbor_keys P) (oa_recv_counters s)"
  obtains (accepted) rc where "accept_recv_counter P src c s = (CounterAccepted, s\<lparr>oa_recv_counters := rc\<rparr>)"
      "im_ok (ap_neighbor_keys P) rc" "im_get rc = (im_get (oa_recv_counters s))(src \<mapsto> c)"
      "\<forall>h. im_get (oa_recv_counters s) src = Some h \<longrightarrow> h < c"
  | (stale) h where "accept_recv_counter P src c s = (CounterStale, s)" "im_get (oa_recv_counters s) src = Some h" "c \<le> h"
  | (no_slot) "accept_recv_counter P src c s = (CounterNoSlot, s)" "im_get (oa_recv_counters s) src = None"
      "length (oa_recv_counters s) = ap_neighbor_keys P"
proof (cases "im_get (oa_recv_counters s) src")
  case (Some h)
  show thesis
  proof (cases "c \<le> h")
    case True
    then show thesis using stale Some by (simp add: accept_recv_counter_def)
  next
    case False
    then show thesis
      using accepted [of "im_set src c (oa_recv_counters s)"] Some assms
      by (simp add: accept_recv_counter_def im_get_set im_contains_def not_le)
  qed
next
  case None
  show thesis
  proof (cases "length (oa_recv_counters s) < ap_neighbor_keys P")
    case True
    have "im_get (oa_recv_counters s @ [(src, c)]) = (im_get (oa_recv_counters s))(src \<mapsto> c)"
      using None by (auto simp: im_get_def fun_eq_iff map_add_def split: option.splits)
    moreover have "src \<notin> fst ` set (oa_recv_counters s)" using None by (simp add: im_get_def map_of_eq_None_iff)
    then have "im_ok (ap_neighbor_keys P) (oa_recv_counters s @ [(src, c)])"
      using assms True by (simp add: im_ok_def im_keys_def)
    ultimately show thesis
      using accepted [of "oa_recv_counters s @ [(src, c)]"] None True by (simp add: accept_recv_counter_def vec_push_def)
  next
    case False
    then show thesis using no_slot None assms by (simp add: accept_recv_counter_def vec_push_def im_ok_def)
  qed
qed

lemma claim_ok_advance:
  "claim_ok m cand \<Longrightarrow> \<forall>h. im_get m k = Some h \<longrightarrow> h < c \<Longrightarrow> im_get rc = (im_get m)(k \<mapsto> c) \<Longrightarrow> claim_ok rc cand"
  by (cases "(m, cand)" rule: claim_ok.cases) (auto split: option.splits)

lemma accept_recv_counter_tables:
  assumes "tables_ok P s" "accept_recv_counter P src c s = (v, s')"
  shows "tables_ok P s'"
  using tables_okD(3) [OF assms(1)]
proof (cases rule: accept_recv_counter_cases [where src = src and c = c])
  case (accepted rc)
  with assms claim_ok_advance [OF _ accepted(4,3)] show ?thesis by (auto simp: tables_ok_def)
qed (use assms in auto)

definition guard_accept :: "auth_profile \<Rightarrow> mac \<Rightarrow> u64 \<Rightarrow> ogm_auth \<Rightarrow> bool \<times> ogm_auth" where
  "guard_accept P src c s = (case accept_recv_counter P src c s of (v, s) \<Rightarrow> (v = CounterAccepted, s))"

interpretation recv_guard: replay_guard "\<lambda>s. im_get (oa_recv_counters s)" "guard_accept P" "tables_ok P" for P
proof unfold_locales
  fix s k c s'
  assume ok: "tables_ok P s" and acc: "guard_accept P k c s = (True, s')"
  obtain v where v: "accept_recv_counter P k c s = (v, s')" "v = CounterAccepted"
    using acc by (auto simp: guard_accept_def split: prod.splits)
  with accept_recv_counter_tables [OF ok] have "tables_ok P s'" by blast
  with accept_recv_counter_cases [OF tables_okD(3) [OF ok], of k c] v
  show "tables_ok P s' \<and> im_get (oa_recv_counters s') = (im_get (oa_recv_counters s))(k \<mapsto> c)
      \<and> (\<forall>h. im_get (oa_recv_counters s) k = Some h \<longrightarrow> h < c)"
    by cases auto
next
  fix s k c s'
  assume "guard_accept P k c s = (False, s')"
  then show "s' = s"
    by (auto simp: guard_accept_def accept_recv_counter_def split: prod.splits option.splits if_splits)
qed

lemma guard_accept_shape: "guard_accept P src c s = (b, s') \<Longrightarrow> s' = s\<lparr>oa_recv_counters := oa_recv_counters s'\<rparr>"
  by (auto simp: guard_accept_def accept_recv_counter_def split: prod.splits option.splits if_splits)

text \<open>Each verifier is a check of the sender's proof in front of the guard.\<close>

definition directed_counter :: "bytes \<Rightarrow> u64" where
  "directed_counter trailer = u64_of_be (take 8 trailer)"

lemma verify_directed_guard:
  "verify_directed C P src frame trailer s =
     (if verify_directed_tag C src frame trailer s = None then (False, s)
      else guard_accept P src (directed_counter trailer) s)"
  by (auto simp: verify_directed_def verify_directed_tag_def guard_accept_def directed_counter_def Let_def
      split: option.splits prod.splits counter_verdict.splits)

lemma verify_fanout_guard:
  "verify_fanout C P src frame trailer s =
     (if length trailer = FANOUT_TRAILER_LEN \<and> (\<exists>n. live_neighbor src s = Some n \<and>
           verify_signature C (vc_ed_pubkey (nk_cert n)) (fanout_message C (directed_counter trailer) frame) (drop 8 trailer))
      then guard_accept P src (directed_counter trailer) s else (False, s))"
  by (auto simp: verify_fanout_def guard_accept_def directed_counter_def Let_def split: option.splits)

section \<open>Sending and receiving\<close>

lemma next_send_counter_Some:
  "next_send_counter s = Some (c, s') \<longleftrightarrow>
     oa_send_counter s < oa_send_counter s' \<and> c = oa_send_counter s' \<and> s' = s\<lparr>oa_send_counter := oa_send_counter s + 1\<rparr>"
proof -
  have "oa_send_counter s < oa_send_counter s + 1 \<longleftrightarrow> oa_send_counter s \<noteq> - 1"
    by (simp add: less_next_word)
  then show ?thesis by (auto simp: next_send_counter_def Let_def)
qed

end
