(* ===== verification/Revocation.thy ===== *)
theory Revocation
  imports Pairwise Tvlv "HOL-Library.Product_Lexorder"
begin

text \<open>
  Revocation at a node (\<^verbatim>\<open>libs/wayfinder/src/auth/revocation.rs\<close>): ingesting signed records, shunning
  their subjects, and the revocation of the node itself, held for the router to act on.
\<close>

section \<open>Operations\<close>

definition take_self_revoked :: "ogm_auth \<Rightarrow> revocation_record option \<times> ogm_auth" where
  "take_self_revoked s =
     (case oa_self_revocation s of
        None \<Rightarrow> (None, s)
      | Some record \<Rightarrow>
          if \<not> judges_windows (oa_wall s) then (None, s)
          else let now = unix_or_zero (oa_wall s)
               in if rv_not_after record \<le> now then (None, s\<lparr>oa_self_revocation := None\<rparr>)
                  else if now < rv_not_before record then (None, s)
                  else (Some record, s\<lparr>oa_self_revocation := None\<rparr>))"

text \<open>A revocation of this node itself is latched, unless it only cancels a superseded certificate.\<close>

definition latch_self_revocation :: "revocation_record \<Rightarrow> ogm_auth \<Rightarrow> ogm_auth" where
  "latch_self_revocation record s =
     (if \<not> cancels_cert_for (ct_node_mac (oa_cert s)) (ct_not_before (oa_cert s)) (rv_not_before record) record then s
      else let known = (case oa_self_revocation s of
                          Some held \<Rightarrow> rv_not_before record \<le> rv_not_before held
                        | None \<Rightarrow> False)
           in if known then s else s\<lparr>oa_self_revocation := Some record\<rparr>)"

text \<open>A new record takes a free slot, or that of an expired or else the most quiescent one.\<close>

definition admit_revocation :: "auth_profile \<Rightarrow> revocation_record \<Rightarrow> ogm_auth \<Rightarrow> ogm_auth" where
  "admit_revocation P record s =
     (let known = \<lparr>kr_record = record, kr_floods_left = REVOKE_FLOOD_BUDGET\<rparr>
      in case vec_push (ap_revoked P) known (oa_revocations s) of
           Some rs \<Rightarrow> s\<lparr>oa_revocations := rs\<rparr>
         | None \<Rightarrow>
             let now = unix_or_zero (oa_wall s)
             in case min_by_key (\<lambda>(_, r). (now < rv_not_after (kr_record r), kr_floods_left r)) (enumerate 0 (oa_revocations s)) of
                  Some (i, _) \<Rightarrow> s\<lparr>oa_revocations := (oa_revocations s)[i := known]\<rparr>
                | None \<Rightarrow> s)"

definition ingest_revocation :: "crypto \<Rightarrow> auth_profile \<Rightarrow> revocation_record \<Rightarrow> ogm_auth \<Rightarrow> bool \<times> ogm_auth" where
  "ingest_revocation C P record s =
     (case verify_revocation C (oa_anchor s) record (unix_or_zero (oa_wall s)) of
        Inl e \<Rightarrow> (False, s)
      | Inr m \<Rightarrow>
          if m = ct_node_mac (oa_cert s) then (False, latch_self_revocation record s)
          else case find (\<lambda>r. kr_mac r = m) (oa_revocations s) of
                 Some slot \<Rightarrow>
                   if rv_not_before record \<le> rv_not_before (kr_record slot) then (False, s)
                   else let superseding = \<lparr>kr_record = record, kr_floods_left = REVOKE_FLOOD_BUDGET\<rparr>;
                            s = (case update_first (\<lambda>r. kr_mac r = m) (\<lambda>_. superseding) (oa_revocations s) of
                                   Some rs \<Rightarrow> s\<lparr>oa_revocations := rs\<rparr>
                                 | None \<Rightarrow> s);
                            s = evict_neighbor m s
                        in (True, s\<lparr>oa_trickle_reset_hint := True\<rparr>)
               | None \<Rightarrow>
                   let s = admit_revocation P record s;
                       s = evict_neighbor m s
                   in (True, s\<lparr>oa_trickle_reset_hint := True\<rparr>))"

definition is_revoked :: "verified_cert \<Rightarrow> ogm_auth \<Rightarrow> bool" where
  "is_revoked cert s \<longleftrightarrow> list_ex (\<lambda>r. cancels_under cert (oa_wall s) (kr_record r)) (oa_revocations s)"

definition revoked_macs :: "ogm_auth \<Rightarrow> mac list" where
  "revoked_macs s = map kr_mac (oa_revocations s)"

definition is_shunned :: "mac \<Rightarrow> ogm_auth \<Rightarrow> bool" where
  "is_shunned m s \<longleftrightarrow>
     list_ex (\<lambda>r. case find (\<lambda>n. nk_mac n = m) (oa_neighbors s) of
                    None \<Rightarrow> True
                  | Some n \<Rightarrow> cancels_under (nk_cert n) (oa_wall s) (kr_record r))
       (filter (\<lambda>r. kr_mac r = m) (oa_revocations s))"

definition macs_to_purge :: "ogm_auth \<Rightarrow> mac list" where
  "macs_to_purge s = filter (\<lambda>m. is_shunned m s) (map kr_mac (oa_revocations s))"

definition revocation_not_after :: "mac \<Rightarrow> ogm_auth \<Rightarrow> u64 option" where
  "revocation_not_after m s =
     map_option (\<lambda>r. rv_not_after (kr_record r)) (find (\<lambda>r. kr_mac r = m) (oa_revocations s))"

fun ingest_values :: "crypto \<Rightarrow> auth_profile \<Rightarrow> bytes list \<Rightarrow> ogm_auth \<Rightarrow> ogm_auth" where
  "ingest_values C P [] s = s"
| "ingest_values C P (v # vs) s =
     ingest_values C P vs
       (case revocation_read v of Some (rec, _) \<Rightarrow> snd (ingest_revocation C P rec s) | None \<Rightarrow> s)"

definition ingest_revocations_from_tail :: "crypto \<Rightarrow> auth_profile \<Rightarrow> bytes \<Rightarrow> ogm_auth \<Rightarrow> ogm_auth" where
  "ingest_revocations_from_tail C P tail s = ingest_values C P (iter_tvlv tail TvRevoke) s"

end
