(* ===== verification/Ogm_Envelope.thy ===== *)
theory Ogm_Envelope
  imports Revocation "HOL-Library.Monad_Syntax"
begin

text \<open>
  The OGM and keep-alive envelope (\<^verbatim>\<open>libs/wayfinder/src/auth/ogm.rs\<close>): the certificate, signature and
  revocation records a node attaches to its own announcements, and the verification every incoming one is
  gated on. A signed message has to fit the scratch buffer of the source. Buffers the caller lends are
  arguments and results; the result \<open>None\<close> of \<open>augment_ogm_with_cert_record\<close> is the panic of a slice out of
  range.
\<close>

section \<open>Signed messages\<close>

definition fits_scratch :: "bytes \<Rightarrow> bytes option" where
  "fits_scratch m = (if length m \<le> SIGN_SCRATCH_LEN then Some m else None)"

definition signed_message :: "mac \<Rightarrow> bytes \<Rightarrow> bytes \<Rightarrow> bytes option" where
  "signed_message orig seqno cert_bytes = fits_scratch (SIG_DOMAIN @ mac_bytes orig @ seqno @ cert_bytes)"

definition keepalive_signed_message :: "mac \<Rightarrow> bytes \<Rightarrow> bytes option" where
  "keepalive_signed_message src counter = fits_scratch (KEEPALIVE_SIG_DOMAIN @ mac_bytes src @ counter)"

section \<open>Announcing\<close>

definition write_tvlv :: "bytes \<Rightarrow> nat \<Rightarrow> tvlv_type \<Rightarrow> bytes \<Rightarrow> (bytes \<times> nat) option" where
  "write_tvlv buf off ty v =
     do {
       buf \<leftarrow> copy_into buf off (tvlv_hdr_write \<lparr>th_type = tvlv_as_u8 ty, th_version = 1, th_len = word_of_nat (length v)\<rparr>);
       let vstart = off + TVLV_HDR_LEN;
       buf \<leftarrow> copy_into buf vstart v;
       Some (buf, vstart + length v)
     }"

definition checked_add_u16 :: "u16 \<Rightarrow> nat \<Rightarrow> u16 option" where
  "checked_add_u16 a n = (if unat a + n < 2 ^ 16 then Some (a + word_of_nat n) else None)"

text \<open>The loop that attaches revocations: the set afterwards, the buffer, the offset and the length field.\<close>

fun attach_revocations ::
    "known_revocation list \<Rightarrow> nat \<Rightarrow> bytes \<Rightarrow> nat \<Rightarrow> u16 \<Rightarrow> (known_revocation list \<times> bytes \<times> nat \<times> u16) option" where
  "attach_revocations [] attached buf off tvlv_len = Some ([], buf, off, tvlv_len)"
| "attach_revocations (kr # rest) attached buf off tvlv_len =
     (if MAX_REVOKE_PER_OGM \<le> attached then Some (kr # rest, buf, off, tvlv_len)
      else if kr_floods_left kr = 0
      then map_option (\<lambda>(rs, r). (kr # rs, r)) (attach_revocations rest attached buf off tvlv_len)
      else if length buf < off + (TVLV_HDR_LEN + REVOKE_LEN) then Some (kr # rest, buf, off, tvlv_len)
      else case checked_add_u16 tvlv_len (TVLV_HDR_LEN + REVOKE_LEN) of
             None \<Rightarrow> Some (kr # rest, buf, off, tvlv_len)
           | Some next_tvlv_len \<Rightarrow>
               do {
                 (buf, off) \<leftarrow> write_tvlv buf off TvRevoke (revocation_write (kr_record kr));
                 (rs, r) \<leftarrow> attach_revocations rest (attached + 1) buf off next_tvlv_len;
                 Some (kr\<lparr>kr_floods_left := kr_floods_left kr - 1\<rparr> # rs, r)
               })"

text \<open>Writing the certificate, signature and revocation records behind the announcement.\<close>

definition append_auth_records ::
    "known_revocation list \<Rightarrow> bytes \<Rightarrow> nat \<Rightarrow> tvlv_type \<Rightarrow> bytes \<Rightarrow> bytes \<Rightarrow> u16 \<Rightarrow> (known_revocation list \<times> nat \<times> bytes) option" where
  "append_auth_records revocations buf len record_type record_value signature tvlv_len =
     do {
       (buf, off) \<leftarrow> write_tvlv buf len record_type record_value;
       (buf, off) \<leftarrow> write_tvlv buf off TvOgmSig signature;
       (rs, buf, off, tvlv_len) \<leftarrow> attach_revocations revocations 0 buf off tvlv_len;
       buf \<leftarrow> copy_into buf TVLV_LEN_OFF (u16_to_be tvlv_len);
       Some (rs, off, buf)
     }"

definition augment_ogm_with_cert_record ::
    "crypto \<Rightarrow> bool \<Rightarrow> bytes \<Rightarrow> nat \<Rightarrow> ogm_auth \<Rightarrow> ((nat \<times> bytes) option \<times> ogm_auth) option" where
  "augment_ogm_with_cert_record C lazy buf len s =
     (if len < OGM_HDR then Some (None, s)
      else if length buf < ORIG_OFF + 6 then None
      else
        let cert = oa_cert s; cert_bytes = cert_write cert;
            record_type = (if lazy then TvCertFp else TvCert);
            record_value = (if lazy then fingerprint C cert else cert_bytes);
            orig = mac_at buf ORIG_OFF; seqno = take 4 (drop SEQNO_OFF buf)
        in case signed_message orig seqno cert_bytes of
             None \<Rightarrow> Some (None, s)
           | Some msg \<Rightarrow>
               let signature = sign C (oa_keypair s) msg;
                   added = (TVLV_HDR_LEN + length record_value) + (TVLV_HDR_LEN + SIG_LEN)
               in if length buf < len + added then Some (None, s)
                  else case checked_add_u16 (u16_at buf TVLV_LEN_OFF) added of
                         None \<Rightarrow> Some (None, s)
                       | Some tvlv_len \<Rightarrow>
                           map_option (\<lambda>(rs, off, buf). (Some (off, buf), s\<lparr>oa_revocations := rs\<rparr>))
                             (append_auth_records (oa_revocations s) buf len record_type record_value signature tvlv_len))"

definition augment_ogm :: "crypto \<Rightarrow> bytes \<Rightarrow> nat \<Rightarrow> ogm_auth \<Rightarrow> ((nat \<times> bytes) option \<times> ogm_auth) option" where
  "augment_ogm C buf len s = augment_ogm_with_cert_record C False buf len s"

definition augment_ogm_lazy :: "crypto \<Rightarrow> bytes \<Rightarrow> nat \<Rightarrow> ogm_auth \<Rightarrow> ((nat \<times> bytes) option \<times> ogm_auth) option" where
  "augment_ogm_lazy C buf len s = augment_ogm_with_cert_record C True buf len s"

section \<open>Verifying announcements\<close>

text \<open>The certificate bytes an OGM is checked against: carried, or cached under the fingerprint it names.\<close>

definition resolve_cert_bytes :: "crypto \<Rightarrow> bytes \<Rightarrow> mac \<Rightarrow> ogm_auth \<Rightarrow> ogm_verdict + bytes" where
  "resolve_cert_bytes C tail orig s =
     (case find_tvlv tail TvCert of
        Some cb \<Rightarrow> Inr cb
      | None \<Rightarrow>
          (case find_tvlv tail TvCertFp of
             None \<Rightarrow> Inl Rejected
           | Some fp \<Rightarrow>
               if length fp \<noteq> 8 then Inl Rejected
               else case neighbor_cert C orig s of
                      None \<Rightarrow> Inl (NeedCert orig fp)
                    | Some (cached, cached_fp) \<Rightarrow>
                        if cached_fp = fp then Inr (cert_write cached) else Inl (NeedCert orig fp)))"

definition crypto_op :: "ogm_auth \<Rightarrow> ogm_auth" where
  "crypto_op s = s\<lparr>oa_ogm_crypto_ops := oa_ogm_crypto_ops s + 1\<rparr>"

text \<open>The certificate's facts and the pairwise key, from the cache or computed; and whether this very
  signature was checked before.\<close>

definition judge_cert ::
    "crypto \<Rightarrow> mac \<Rightarrow> bytes \<Rightarrow> membership_cert \<Rightarrow> bytes \<Rightarrow> bytes \<Rightarrow> ogm_auth \<Rightarrow> (verified_cert \<times> bytes \<times> bool) option \<times> ogm_auth" where
  "judge_cert C orig cert_bytes cert seqno signature s =
     (case find (\<lambda>n. nk_mac n = orig \<and> cert_write (nk_raw_cert n) = cert_bytes) (oa_neighbors s) of
        Some known \<Rightarrow>
          if proves_before (oa_wall s) (ct_not_before (nk_raw_cert known))
             \<or> proves_past (oa_wall s) (ct_not_after (nk_raw_cert known)) then (None, s)
          else (Some (nk_cert known, nk_pairwise_key known, nk_last_ogm known = Some (seqno, signature)), s)
      | None \<Rightarrow>
          let s = crypto_op s
          in case verify_cert C (oa_anchor s) cert (oa_wall s) of
               Inl _ \<Rightarrow> (None, s)
             | Inr verified \<Rightarrow>
                 let s = crypto_op s
                 in case pairwise_key C (oa_keypair s) (vc_x_pubkey verified) of
                      Inl _ \<Rightarrow> (None, s)
                    | Inr key \<Rightarrow> (Some (verified, key, False), s))"

definition check_ogm_signature ::
    "crypto \<Rightarrow> bytes \<Rightarrow> mac \<Rightarrow> bytes \<Rightarrow> bytes \<Rightarrow> bytes \<Rightarrow> ogm_auth \<Rightarrow> bool \<times> ogm_auth" where
  "check_ogm_signature C ed orig seqno cert_bytes signature s =
     (case signed_message orig seqno cert_bytes of
        None \<Rightarrow> (False, s)
      | Some msg \<Rightarrow> (verify_signature C ed msg signature, crypto_op s))"

definition verify_ogm :: "crypto \<Rightarrow> auth_profile \<Rightarrow> bytes \<Rightarrow> ogm_auth \<Rightarrow> ogm_verdict \<times> ogm_auth" where
  "verify_ogm C P payload s =
     (if length payload < OGM_HDR then (Rejected, s)
      else let tail = drop OGM_HDR payload
           in case find_tvlv tail TvOgmSig of
                None \<Rightarrow> (Rejected, s)
              | Some signature \<Rightarrow>
                  if length signature \<noteq> SIG_LEN then (Rejected, s)
                  else let orig = mac_at payload ORIG_OFF
                       in case resolve_cert_bytes C tail orig s of
                            Inl verdict \<Rightarrow> (verdict, s)
                          | Inr cert_bytes \<Rightarrow>
                              (case cert_read cert_bytes of
                                 None \<Rightarrow> (Rejected, s)
                               | Some (cert, _) \<Rightarrow>
                                   let seqno = take 4 (drop SEQNO_OFF payload)
                                   in case judge_cert C orig cert_bytes cert seqno signature s of
                                        (None, s) \<Rightarrow> (Rejected, s)
                                      | (Some (verified, key, checked), s) \<Rightarrow>
                                          if vc_mac verified \<noteq> orig then (Rejected, s)
                                          else if is_revoked verified s then (Rejected, s)
                                          else case (if checked then (True, s)
                                                     else check_ogm_signature C (vc_ed_pubkey verified) orig seqno cert_bytes signature s) of
                                                 (False, s) \<Rightarrow> (Rejected, s)
                                               | (True, s) \<Rightarrow>
                                                   let s = snd (cache_neighbor P \<lparr>nk_cert = verified, nk_pairwise_key = key,
                                                                  nk_raw_cert = cert, nk_last_ogm = Some (seqno, signature)\<rparr> s)
                                                   in (Verified, ingest_revocations_from_tail C P tail s)))"

section \<open>Keep-alives\<close>

definition augment_keepalive :: "crypto \<Rightarrow> bytes \<Rightarrow> nat \<Rightarrow> ogm_auth \<Rightarrow> (nat \<times> bytes) option \<times> ogm_auth" where
  "augment_keepalive C buf len s =
     (let new_len = len + KEEPALIVE_TRAILER_LEN
      in if length buf < new_len then (None, s)
         else case next_send_counter s of
                None \<Rightarrow> (None, s)
              | Some (count, s) \<Rightarrow>
                  let counter = u64_to_be (count OR KEEPALIVE_COUNTER_TAG)
                  in case keepalive_signed_message (ct_node_mac (oa_cert s)) counter of
                       None \<Rightarrow> (None, s)
                     | Some msg \<Rightarrow>
                         (Some (new_len, take len buf @ counter @ sign C (oa_keypair s) msg @ drop new_len buf), s))"

definition verify_keepalive :: "crypto \<Rightarrow> auth_profile \<Rightarrow> mac \<Rightarrow> bytes \<Rightarrow> ogm_auth \<Rightarrow> bool \<times> ogm_auth" where
  "verify_keepalive C P src payload s =
     (if length payload < KEEPALIVE_TRAILER_LEN then (False, s)
      else
        let trailer = drop (length payload - KEEPALIVE_TRAILER_LEN) payload;
            counter_bytes = take 8 trailer; tagged = u64_of_be counter_bytes
        in if tagged AND KEEPALIVE_COUNTER_TAG = 0 then (False, s)
           else
             let counter = tagged AND NOT KEEPALIVE_COUNTER_TAG
             in case find (\<lambda>n. nk_mac n = src) (oa_neighbors s) of
                  None \<Rightarrow> (False, s)
                | Some n \<Rightarrow>
                    if proves_past (oa_wall s) (vc_not_after (nk_cert n)) then (False, s)
                    else if is_revoked (nk_cert n) s then (False, s)
                    else if \<not> (case keepalive_signed_message src counter_bytes of
                                 Some msg \<Rightarrow> verify_signature C (vc_ed_pubkey (nk_cert n)) msg (drop 8 trailer)
                               | None \<Rightarrow> False) then (False, s)
                    else case accept_recv_counter P src counter s of (v, s) \<Rightarrow> (v = CounterAccepted, s))"

text \<open>The tag on a keep-alive counter comes off again.\<close>

lemma tagged_counter:
  assumes "c < KEEPALIVE_COUNTER_TAG"
  shows "(c OR KEEPALIVE_COUNTER_TAG) AND KEEPALIVE_COUNTER_TAG \<noteq> 0" "(c OR KEEPALIVE_COUNTER_TAG) AND NOT KEEPALIVE_COUNTER_TAG = c"
proof -
  have "(c OR KEEPALIVE_COUNTER_TAG) AND KEEPALIVE_COUNTER_TAG = KEEPALIVE_COUNTER_TAG"
    by (rule bit_word_eqI) (auto simp: bit_simps)
  then show "(c OR KEEPALIVE_COUNTER_TAG) AND KEEPALIVE_COUNTER_TAG \<noteq> 0" by (simp add: KEEPALIVE_COUNTER_TAG_def)
  have "NOT KEEPALIVE_COUNTER_TAG = mask 63" by (simp add: KEEPALIVE_COUNTER_TAG_def mask_eq_exp_minus_1)
  moreover have "unat c < 2 ^ 63" using assms by (simp add: KEEPALIVE_COUNTER_TAG_def word_less_nat_alt)
  then have "take_bit 63 c = c" by (simp add: word_unat_eq_iff unsigned_take_bit_eq take_bit_nat_eq_self)
  ultimately have "c AND NOT KEEPALIVE_COUNTER_TAG = c" by (simp add: take_bit_eq_mask)
  then show "(c OR KEEPALIVE_COUNTER_TAG) AND NOT KEEPALIVE_COUNTER_TAG = c" by (simp add: bit.conj_disj_distrib2)
qed

end
