(* ===== verification/Cert_Fetch.thy ===== *)
theory Cert_Fetch
  imports Ogm_Envelope
begin

text \<open>
  Lazy certificate distribution (\<^verbatim>\<open>libs/wayfinder/src/auth/distribution.rs\<close>): the request and reply that
  resolve a fingerprint a node cannot match. Routes are asked through the parameter \<open>unproven_ok\<close>, the
  proof-agnostic question of \<^verbatim>\<open>Paths\<close>. The send-rate gauges are not part of the state.
\<close>

section \<open>Asking\<close>

definition cert_req_message :: "mac \<Rightarrow> mac \<Rightarrow> bytes" where
  "cert_req_message orig requester = CERT_REQ_SIG_DOMAIN @ mac_bytes orig @ mac_bytes requester"

text \<open>Whether a request for this originator may go out now, with the retry bookkeeping.\<close>

definition track_request :: "auth_profile \<Rightarrow> mac \<Rightarrow> bytes \<Rightarrow> mac \<Rightarrow> ogm_auth \<Rightarrow> bool \<times> ogm_auth" where
  "track_request P orig fp first_hop s =
     (case find (\<lambda>r. if_orig r = orig) (oa_in_flight s) of
        Some existing \<Rightarrow>
          let existing = (if if_fp existing \<noteq> fp
                          then existing\<lparr>if_fp := fp, if_attempts := 0, if_next_attempt := 0\<rparr> else existing);
              allowed = (if_next_attempt existing \<le> oa_now s \<and> if_attempts existing < MAX_CERT_REQUEST_ATTEMPTS);
              existing = (if allowed then existing\<lparr>if_attempts := if_attempts existing + 1,
                            if_next_attempt := oa_now s + CERT_REQUEST_RETRY, if_first_hop := first_hop\<rparr> else existing)
          in (allowed, case update_first (\<lambda>r. if_orig r = orig) (\<lambda>_. existing) (oa_in_flight s) of
                         Some rs \<Rightarrow> s\<lparr>oa_in_flight := rs\<rparr>
                       | None \<Rightarrow> s)
      | None \<Rightarrow>
          let entry = \<lparr>if_orig = orig, if_fp = fp, if_first_hop = first_hop, if_attempts = 1,
                       if_next_attempt = oa_now s + CERT_REQUEST_RETRY\<rparr>
          in case vec_push (ap_in_flight P) entry (oa_in_flight s) of
               Some rs \<Rightarrow> (True, s\<lparr>oa_in_flight := rs\<rparr>)
             | None \<Rightarrow> (False, s))"

definition build_cert_request ::
    "crypto \<Rightarrow> auth_profile \<Rightarrow> mac \<Rightarrow> bytes \<Rightarrow> mac \<Rightarrow> bytes \<Rightarrow> ogm_auth \<Rightarrow> (nat \<times> bytes) option \<times> ogm_auth" where
  "build_cert_request C P orig fp first_hop buf s =
     (case track_request P orig fp first_hop s of
        (False, s) \<Rightarrow> (None, s)
      | (True, s) \<Rightarrow>
          let signature = sign C (oa_keypair s) (cert_req_message orig (ct_node_mac (oa_cert s)));
              cert_bytes = cert_write (oa_cert s); total = length cert_bytes + length signature
          in if length buf < total then (None, s)
             else (Some (total, cert_bytes @ signature @ drop total buf), s))"

definition build_cert_req_frame ::
    "crypto \<Rightarrow> auth_profile \<Rightarrow> mac \<Rightarrow> bytes \<Rightarrow> mac \<Rightarrow> bytes \<Rightarrow> ogm_auth \<Rightarrow> frame_data option \<times> ogm_auth" where
  "build_cert_req_frame C P orig fp first_hop tx_buf s =
     (if length tx_buf < ROUTED_SIZE then (None, s)
      else case build_cert_request C P orig fp first_hop (drop ROUTED_SIZE tx_buf) s of
             (None, s) \<Rightarrow> (None, s)
           | (Some (body_len, body), s) \<Rightarrow>
               (Some \<lparr>fd_dst = first_hop, fd_protocol = ETH_P_BATMAN,
                  fd_payload = routed_write \<lparr>rp_packet_type = packet_type_as_u8 CertReq, rp_version = BATMAN_VERSION,
                    rp_ttl = 50, rp_dest = orig\<rparr> @ take body_len body\<rparr>, s))"

definition ingest_cert_reply :: "crypto \<Rightarrow> auth_profile \<Rightarrow> bytes \<Rightarrow> ogm_auth \<Rightarrow> bool \<times> ogm_auth" where
  "ingest_cert_reply C P body s =
     (case cert_read body of
        None \<Rightarrow> (False, s)
      | Some (cert, _) \<Rightarrow>
          (case verify_cert C (oa_anchor s) cert (oa_wall s) of
             Inl _ \<Rightarrow> (False, s)
           | Inr verified \<Rightarrow>
               (case position (\<lambda>r. if_orig r = vc_mac verified) (oa_in_flight s) of
                  None \<Rightarrow> (False, s)
                | Some pos \<Rightarrow>
                    (case pairwise_key C (oa_keypair s) (vc_x_pubkey verified) of
                       Inl _ \<Rightarrow> (False, s)
                     | Inr key \<Rightarrow>
                         (case cache_neighbor P \<lparr>nk_cert = verified, nk_pairwise_key = key, nk_raw_cert = cert, nk_last_ogm = None\<rparr> s of
                            (RefusedLiveIdentity, s) \<Rightarrow> (False, s)
                          | (Stored, s) \<Rightarrow> (True, s\<lparr>oa_in_flight := vec_swap_remove pos (oa_in_flight s)\<rparr>))))))"

section \<open>Answering\<close>

text \<open>The rate limit of both exchanges: one table of last instants, evicting its first row when full.\<close>

definition rate_limited :: "nat \<Rightarrow> duration \<Rightarrow> duration \<Rightarrow> mac \<Rightarrow> (mac, duration) imap \<Rightarrow> (mac, duration) imap option" where
  "rate_limited cap limit now requester rates =
     (case im_get rates requester of
        Some at \<Rightarrow> if now - at < limit then None else Some (im_set requester now rates)
      | None \<Rightarrow>
          (case vec_push cap (requester, now) rates of
             Some rates \<Rightarrow> Some rates
           | None \<Rightarrow> Some (case rates of [] \<Rightarrow> [] | _ # rest \<Rightarrow> (requester, now) # rest)))"

definition accept_cert_request_rate :: "auth_profile \<Rightarrow> mac \<Rightarrow> ogm_auth \<Rightarrow> bool \<times> ogm_auth" where
  "accept_cert_request_rate P requester s =
     (case rate_limited (ap_neighbor_keys P) CERT_REQ_RATE_LIMIT (oa_now s) requester (oa_cert_req_rate s) of
        None \<Rightarrow> (False, s)
      | Some rates \<Rightarrow> (True, s\<lparr>oa_cert_req_rate := rates\<rparr>))"

definition verify_cert_request :: "crypto \<Rightarrow> auth_profile \<Rightarrow> bytes \<Rightarrow> ogm_auth \<Rightarrow> mac option \<times> ogm_auth" where
  "verify_cert_request C P body s =
     (if length body \<noteq> CERT_LEN + SIG_LEN then (None, s)
      else case cert_read (take CERT_LEN body) of
             None \<Rightarrow> (None, s)
           | Some (cert, _) \<Rightarrow>
               (case verify_cert C (oa_anchor s) cert (oa_wall s) of
                  Inl _ \<Rightarrow> (None, s)
                | Inr verified \<Rightarrow>
                    let requester = vc_mac verified
                    in if is_revoked verified s then (None, s)
                       else if \<not> verify_signature C (vc_ed_pubkey verified)
                                  (cert_req_message (ct_node_mac (oa_cert s)) requester) (drop CERT_LEN body) then (None, s)
                       else if identity_conflict requester (vc_ed_pubkey verified) s then (None, s)
                       else case accept_cert_request_rate P requester s of
                              (False, s) \<Rightarrow> (None, s)
                            | (True, s) \<Rightarrow>
                                (case pairwise_key C (oa_keypair s) (vc_x_pubkey verified) of
                                   Inl _ \<Rightarrow> (None, s)
                                 | Inr key \<Rightarrow>
                                     (Some requester,
                                      snd (cache_neighbor P \<lparr>nk_cert = verified, nk_pairwise_key = key,
                                             nk_raw_cert = cert, nk_last_ogm = None\<rparr> s)))))"

definition has_pending_reply :: "mac \<Rightarrow> ogm_auth \<Rightarrow> bool" where
  "has_pending_reply requester s \<longleftrightarrow> list_ex (\<lambda>p. pr_requester p = requester) (oa_pending_replies s)"

definition park_pending_reply :: "auth_profile \<Rightarrow> mac \<Rightarrow> ogm_auth \<Rightarrow> ogm_auth" where
  "park_pending_reply P requester s =
     (case update_first (\<lambda>p. pr_requester p = requester) (\<lambda>p. p\<lparr>pr_parked := oa_now s\<rparr>) (oa_pending_replies s) of
        Some ps \<Rightarrow> s\<lparr>oa_pending_replies := ps\<rparr>
      | None \<Rightarrow>
          let entry = \<lparr>pr_requester = requester, pr_parked = oa_now s\<rparr>
          in case vec_push (ap_pending_replies P) entry (oa_pending_replies s) of
               Some ps \<Rightarrow> s\<lparr>oa_pending_replies := ps\<rparr>
             | None \<Rightarrow> (case oa_pending_replies s of
                          [] \<Rightarrow> s
                        | _ # rest \<Rightarrow> s\<lparr>oa_pending_replies := entry # rest\<rparr>))"

definition clear_pending_reply :: "mac \<Rightarrow> ogm_auth \<Rightarrow> ogm_auth" where
  "clear_pending_reply requester s =
     s\<lparr>oa_pending_replies := vec_remove_first (\<lambda>p. pr_requester p = requester) (oa_pending_replies s)\<rparr>"

definition cert_reply_bytes :: "mac \<Rightarrow> ogm_auth \<Rightarrow> bytes" where
  "cert_reply_bytes requester s =
     routed_write \<lparr>rp_packet_type = packet_type_as_u8 CertReply, rp_version = BATMAN_VERSION, rp_ttl = 50, rp_dest = requester\<rparr>
     @ cert_write (oa_cert s)"

definition answer_cert_request ::
    "crypto \<Rightarrow> auth_profile \<Rightarrow> (mac \<Rightarrow> mac option) \<Rightarrow> bytes \<Rightarrow> frame_data \<Rightarrow> ogm_auth
       \<Rightarrow> (mac \<times> nat) option \<times> frame_data \<times> ogm_auth" where
  "answer_cert_request C P unproven_ok body reply s =
     (case verify_cert_request C P body s of
        (None, s) \<Rightarrow> (None, reply, s)
      | (Some requester, s) \<Rightarrow>
          let out = cert_reply_bytes requester s; total = length out
          in case unproven_ok requester of
               Some hop \<Rightarrow>
                 if total \<le> length (fd_payload reply)
                 then (Some (hop, total), reply\<lparr>fd_payload := out @ drop total (fd_payload reply)\<rparr>, s)
                 else (None, reply, park_pending_reply P requester s)
             | None \<Rightarrow> (None, reply, park_pending_reply P requester s))"

definition flush_pending_cert_reply ::
    "(mac \<Rightarrow> mac option) \<Rightarrow> mac \<Rightarrow> frame_data \<Rightarrow> ogm_auth \<Rightarrow> (mac \<times> nat) option \<times> frame_data \<times> ogm_auth" where
  "flush_pending_cert_reply unproven_ok orig reply s =
     (if \<not> has_pending_reply orig s then (None, reply, s)
      else case unproven_ok orig of
             None \<Rightarrow> (None, reply, s)
           | Some hop \<Rightarrow>
               let out = cert_reply_bytes orig s; total = length out
               in if length (fd_payload reply) < total then (None, reply, s)
                  else (Some (hop, total),
                        reply\<lparr>fd_payload := out @ drop total (fd_payload reply), fd_dst := hop, fd_protocol := ETH_P_BATMAN\<rparr>,
                        clear_pending_reply orig s))"

end
