(* ===== verification/Challenge.thy ===== *)
theory Challenge
  imports Pairwise
begin

text \<open>
  Next-hop proof (\<^verbatim>\<open>libs/wayfinder/src/auth/proof.rs\<close>): the challenge and response by which a candidate next
  hop shows that it holds the key its certificate names. The key of the nonce generator is the node's key
  agreement with itself; a library that refuses it makes the source panic, which is the result \<open>None\<close> of
  the operations that draw a nonce.
\<close>

section \<open>Operations\<close>

definition nonce_prf_key :: "crypto \<Rightarrow> ogm_auth \<Rightarrow> bytes option" where
  "nonce_prf_key C s =
     (case pairwise_key C (oa_keypair s) (x_pubkey C (oa_keypair s)) of Inr key \<Rightarrow> Some key | Inl _ \<Rightarrow> None)"

definition resp_context :: "mac \<Rightarrow> bytes" where
  "resp_context responder = CHALLENGE_RESP_DOMAIN @ mac_bytes responder"

text \<open>A new challenge replaces the neighbour's outstanding one; a full table gives up the oldest.\<close>

definition record_challenge :: "outstanding_challenge \<Rightarrow> ogm_auth \<Rightarrow> ogm_auth option" where
  "record_challenge entry s =
     (case update_first (\<lambda>c. oc_neighbor c = oc_neighbor entry) (\<lambda>_. entry) (oa_in_progress s) of
        Some cs \<Rightarrow> Some (s\<lparr>oa_in_progress := cs\<rparr>)
      | None \<Rightarrow>
          (case vec_push MAX_IN_PROGRESS_PROOF entry (oa_in_progress s) of
             Some cs \<Rightarrow> Some (s\<lparr>oa_in_progress := cs\<rparr>)
           | None \<Rightarrow>
               (case min_by_key (\<lambda>(_, c). oc_issued_seq c) (enumerate 0 (oa_in_progress s)) of
                  Some (oldest, _) \<Rightarrow> Some (s\<lparr>oa_in_progress := (oa_in_progress s)[oldest := entry]\<rparr>)
                | None \<Rightarrow> None)))"

definition issue_challenge :: "crypto \<Rightarrow> mac \<Rightarrow> ogm_auth \<Rightarrow> (bytes option \<times> ogm_auth) option" where
  "issue_challenge C neighbor s =
     (if live_neighbor neighbor s = None then Some (None, s)
      else if oa_challenge_counter s = - 1 then Some (None, s)
      else let seq = oa_challenge_counter s + 1; s = s\<lparr>oa_challenge_counter := seq\<rparr>
           in case nonce_prf_key C s of
                None \<Rightarrow> None
              | Some key \<Rightarrow>
                  let nonce = frame_tag C key seq NONCE_PRF_DOMAIN (mac_bytes neighbor);
                      entry = \<lparr>oc_neighbor = neighbor, oc_nonce = nonce, oc_issued_seq = seq\<rparr>
                  in case record_challenge entry s of
                       Some s \<Rightarrow> Some (Some nonce, s)
                     | None \<Rightarrow> Some (None, s))"

definition answer_challenge :: "crypto \<Rightarrow> mac \<Rightarrow> bytes \<Rightarrow> ogm_auth \<Rightarrow> bytes option" where
  "answer_challenge C challenger nonce s =
     (if length nonce \<noteq> CHALLENGE_NONCE_LEN then None
      else case live_neighbor challenger s of
             None \<Rightarrow> None
           | Some n \<Rightarrow> Some (frame_tag C (nk_pairwise_key n) 0 (resp_context (ct_node_mac (oa_cert s))) nonce))"

definition verify_challenge_response ::
    "crypto \<Rightarrow> auth_profile \<Rightarrow> mac \<Rightarrow> bytes \<Rightarrow> ogm_auth \<Rightarrow> bool \<times> ogm_auth" where
  "verify_challenge_response C P neighbor tag s =
     (let claim = oa_restart_candidate s; s = s\<lparr>oa_restart_candidate := None\<rparr>
      in if length tag \<noteq> TAG_LEN then (False, s)
         else case position (\<lambda>c. oc_neighbor c = neighbor) (oa_in_progress s) of
                None \<Rightarrow> (False, s)
              | Some idx \<Rightarrow>
                  let nonce = oc_nonce (oa_in_progress s ! idx)
                  in case live_neighbor neighbor s of
                       None \<Rightarrow> (False, s)
                     | Some n \<Rightarrow>
                         if \<not> verify_frame_tag C (nk_pairwise_key n) 0 (resp_context neighbor) nonce tag then (False, s)
                         else let s = s\<lparr>oa_in_progress := vec_swap_remove idx (oa_in_progress s)\<rparr>
                              in case claim of
                                   Some (m, counter) \<Rightarrow>
                                     if m = neighbor then (True, snd (anchor_recv_counter P neighbor counter s)) else (True, s)
                                 | None \<Rightarrow> (True, s))"

text \<open>The frames themselves; the buffer the caller lends only has to be long enough.\<close>

definition build_challenge_frame :: "crypto \<Rightarrow> mac \<Rightarrow> nat \<Rightarrow> ogm_auth \<Rightarrow> (frame_data option \<times> ogm_auth) option" where
  "build_challenge_frame C target tx_len s =
     (case issue_challenge C target s of
        None \<Rightarrow> None
      | Some (None, s) \<Rightarrow> Some (None, s)
      | Some (Some nonce, s) \<Rightarrow>
          if tx_len < MINIMAL_SIZE + length nonce then Some (None, s)
          else Some (Some \<lparr>fd_dst = target, fd_protocol = ETH_P_BATMAN,
                 fd_payload = minimal_write \<lparr>mp_packet_type = packet_type_as_u8 NextHopChallenge, mp_version = BATMAN_VERSION\<rparr> @ nonce\<rparr>, s))"

definition answer_challenge_frame :: "crypto \<Rightarrow> mac \<Rightarrow> bytes \<Rightarrow> nat \<Rightarrow> ogm_auth \<Rightarrow> frame_data option" where
  "answer_challenge_frame C src body tx_len s =
     (case answer_challenge C src body s of
        None \<Rightarrow> None
      | Some tag \<Rightarrow>
          if tx_len < MINIMAL_SIZE + length tag then None
          else Some \<lparr>fd_dst = src, fd_protocol = ETH_P_BATMAN,
                 fd_payload = minimal_write \<lparr>mp_packet_type = packet_type_as_u8 NextHopResponse, mp_version = BATMAN_VERSION\<rparr> @ tag\<rparr>)"

end
