(* ===== verification/Renewal.thy ===== *)
theory Renewal
  imports Cert_Fetch Challenge
begin

text \<open>
  Membership renewal over the mesh (\<^verbatim>\<open>libs/wayfinder/src/auth/renewal.rs\<close>): the exchange by which a node
  without an IP stack renews its own certificate. Routes are asked through the parameter \<open>hop\<close>, the
  proof-gated question of \<^verbatim>\<open>Paths\<close>. Alarms have no effect on state and are left out.
\<close>

definition set_renewal_authority :: "crypto \<Rightarrow> bytes option \<Rightarrow> ogm_auth \<Rightarrow> ogm_auth" where
  "set_renewal_authority C provider_key s = s\<lparr>oa_renewal_authority := map_option (derive_mac C) provider_key\<rparr>"

definition renewal_due :: "ogm_auth \<Rightarrow> bool" where
  "renewal_due s = proves_past (oa_wall s) (renew_from (oa_cert s))"

definition renewal_signed_message :: "mac \<Rightarrow> mac \<Rightarrow> bytes \<Rightarrow> bytes" where
  "renewal_signed_message authority requester nonce =
     RENEW_REQ_SIG_DOMAIN @ mac_bytes authority @ mac_bytes requester @ nonce"

text \<open>The body, its buffer after it was written; the outer \<open>None\<close> is the panic of \<open>nonce_prf_key\<close>.\<close>

definition build_renewal_request :: "crypto \<Rightarrow> bytes \<Rightarrow> ogm_auth \<Rightarrow> ((nat \<times> bytes) option \<times> ogm_auth) option" where
  "build_renewal_request C buf s =
     (case oa_renewal_authority s of
        None \<Rightarrow> Some (None, s)
      | Some ca \<Rightarrow>
          if oa_challenge_counter s = - 1 then Some (None, s)
          else
            let seq = oa_challenge_counter s + 1; s = s\<lparr>oa_challenge_counter := seq\<rparr>
            in case nonce_prf_key C s of
                 None \<Rightarrow> None
               | Some key \<Rightarrow>
                   let nonce = frame_tag C key seq RENEW_NONCE_PRF_DOMAIN (mac_bytes ca);
                       signature = sign C (oa_keypair s) (renewal_signed_message ca (ct_node_mac (oa_cert s)) nonce);
                       cert_bytes = cert_write (oa_cert s);
                       total = length cert_bytes + RENEWAL_NONCE_LEN + length signature
                   in if length buf < total then Some (None, s)
                      else Some (Some (total, cert_bytes @ nonce @ signature @ drop total buf),
                                 s\<lparr>oa_outstanding_renewal := Some (oa_now s),
                                   oa_renewal_requests_sent := saturating_add (oa_renewal_requests_sent s) 1\<rparr>))"

definition accept_renewal_request_rate :: "auth_profile \<Rightarrow> mac \<Rightarrow> ogm_auth \<Rightarrow> bool \<times> ogm_auth" where
  "accept_renewal_request_rate P requester s =
     (case rate_limited (ap_neighbor_keys P) RENEW_REQ_RATE_LIMIT (oa_now s) requester (oa_renew_req_rate s) of
        None \<Rightarrow> (False, s)
      | Some rates \<Rightarrow> (True, s\<lparr>oa_renew_req_rate := rates\<rparr>))"

definition verify_renewal_request :: "crypto \<Rightarrow> auth_profile \<Rightarrow> bytes \<Rightarrow> ogm_auth \<Rightarrow> verified_renewal option \<times> ogm_auth" where
  "verify_renewal_request C P body s =
     (if length body \<noteq> CERT_LEN + RENEWAL_NONCE_LEN + SIG_LEN then (None, s)
      else case cert_read (take CERT_LEN body) of
             None \<Rightarrow> (None, s)
           | Some (cert, _) \<Rightarrow>
               (case verify_cert C (oa_anchor s) cert (oa_wall s) of
                  Inl _ \<Rightarrow> (None, s)
                | Inr verified \<Rightarrow>
                    let requester = vc_mac verified;
                        nonce = take RENEWAL_NONCE_LEN (drop CERT_LEN body);
                        sig = drop (CERT_LEN + RENEWAL_NONCE_LEN) body
                    in if is_revoked verified s then (None, s)
                       else if \<not> verify_signature C (vc_ed_pubkey verified)
                                  (renewal_signed_message (ct_node_mac (oa_cert s)) requester nonce) sig then (None, s)
                       else if identity_conflict requester (vc_ed_pubkey verified) s then (None, s)
                       else case accept_renewal_request_rate P requester s of
                              (False, s) \<Rightarrow> (None, s)
                            | (True, s) \<Rightarrow>
                                (Some \<lparr>vr_mac = requester, vr_ed_pubkey = vc_ed_pubkey verified,
                                       vr_x_pubkey = vc_x_pubkey verified\<rparr>, s)))"

definition ingest_renew_reply :: "crypto \<Rightarrow> bytes \<Rightarrow> ogm_auth \<Rightarrow> bool \<times> ogm_auth" where
  "ingest_renew_reply C body s =
     (case cert_read body of
        None \<Rightarrow> (False, s)
      | Some (cert, _) \<Rightarrow>
          let outstanding = (case oa_outstanding_renewal s of
                               Some asked \<Rightarrow> oa_now s - asked < OUTSTANDING_RENEWAL_TTL
                             | None \<Rightarrow> False)
          in if \<not> outstanding then (False, s)
             else case verify_cert C (oa_anchor s) cert (oa_wall s) of
                    Inl _ \<Rightarrow> (False, s)
                  | Inr verified \<Rightarrow>
                      if vc_mac verified \<noteq> ct_node_mac (oa_cert s) \<or> vc_ed_pubkey verified \<noteq> ct_ed_pubkey (oa_cert s)
                      then (False, s)
                      else if ct_not_after cert \<le> ct_not_after (oa_cert s) \<or> ct_not_before cert < ct_not_before (oa_cert s)
                      then (False, s)
                      else (True, s\<lparr>oa_cert := cert, oa_outstanding_renewal := None, oa_pending_renewed_cert := Some cert,
                                    oa_renewal_replies_accepted := saturating_add (oa_renewal_replies_accepted s) 1\<rparr>))"

definition take_renewed_cert :: "ogm_auth \<Rightarrow> membership_cert option \<times> ogm_auth" where
  "take_renewed_cert s = (oa_pending_renewed_cert s, s\<lparr>oa_pending_renewed_cert := None\<rparr>)"

definition handle_renew_req :: "crypto \<Rightarrow> auth_profile \<Rightarrow> bytes \<Rightarrow> ogm_auth \<Rightarrow> ogm_auth" where
  "handle_renew_req C P body s =
     (case verify_renewal_request C P body s of
        (None, s) \<Rightarrow> s
      | (Some verified, s) \<Rightarrow> s\<lparr>oa_pending_renewal := Some verified\<rparr>)"

definition take_renewal_request :: "ogm_auth \<Rightarrow> verified_renewal option \<times> ogm_auth" where
  "take_renewal_request s = (oa_pending_renewal s, s\<lparr>oa_pending_renewal := None\<rparr>)"

definition poll_renewal ::
    "crypto \<Rightarrow> duration \<Rightarrow> (mac \<Rightarrow> mac option) \<Rightarrow> bytes \<Rightarrow> ogm_auth \<Rightarrow> (frame_data option \<times> ogm_auth) option" where
  "poll_renewal C now hop tx_buf s =
     (if now < oa_next_renewal_poll s then Some (None, s)
      else
        let s = s\<lparr>oa_next_renewal_poll := now + RENEWAL_POLL_INTERVAL\<rparr>
        in if \<not> renewal_due s then Some (None, s)
           else case oa_renewal_authority s of
                  None \<Rightarrow> Some (None, s)
                | Some ca \<Rightarrow>
                    (case hop ca of
                       None \<Rightarrow> Some (None, s)
                     | Some nh \<Rightarrow>
                         if length tx_buf < ROUTED_SIZE then Some (None, s)
                         else case build_renewal_request C (drop ROUTED_SIZE tx_buf) s of
                                None \<Rightarrow> None
                              | Some (None, s) \<Rightarrow> Some (None, s)
                              | Some (Some (body_len, body), s) \<Rightarrow>
                                  Some (Some \<lparr>fd_dst = nh, fd_protocol = ETH_P_BATMAN,
                                    fd_payload = routed_write \<lparr>rp_packet_type = packet_type_as_u8 RenewReq,
                                      rp_version = BATMAN_VERSION, rp_ttl = 50, rp_dest = ca\<rparr> @ take body_len body\<rparr>, s)))"

definition next_renewal_after :: "duration \<Rightarrow> ogm_auth \<Rightarrow> duration option" where
  "next_renewal_after now s = (case oa_renewal_authority s of None \<Rightarrow> None | Some _ \<Rightarrow> Some (oa_next_renewal_poll s - now))"

definition send_renew_reply :: "(mac \<Rightarrow> mac option) \<Rightarrow> mac \<Rightarrow> membership_cert \<Rightarrow> nat \<Rightarrow> frame_data option" where
  "send_renew_reply hop requester cert tx_len =
     (case hop requester of
        None \<Rightarrow> None
      | Some nh \<Rightarrow>
          let out = routed_write \<lparr>rp_packet_type = packet_type_as_u8 RenewReply, rp_version = BATMAN_VERSION,
                      rp_ttl = 50, rp_dest = requester\<rparr> @ cert_write cert
          in if tx_len < length out then None
             else Some \<lparr>fd_dst = nh, fd_protocol = ETH_P_BATMAN, fd_payload = out\<rparr>)"

end
