(* ===== verification/Auth_Trust.thy ===== *)
theory Auth_Trust
  imports Renewal
begin

text \<open>
  What the authenticator may rely on between calls. Every cached neighbour was vouched for by the mesh root,
  under the key this node derived from its certificate, and a remembered announcement signature was checked;
  every revocation held is signed by the root and names another node; the node's own certificate is
  root-signed and names the key it holds. Each operation keeps this.
\<close>

section \<open>The invariant\<close>

definition memo_ok :: "crypto \<Rightarrow> neighbor_keys \<Rightarrow> bool" where
  "memo_ok C n \<longleftrightarrow> (\<forall>q sig. nk_last_ogm n = Some (q, sig) \<longrightarrow>
     (\<exists>pad m. signed_message (nk_mac n) q (cert_write (nk_raw_cert n) @ pad) = Some m
            \<and> verify_signature C (vc_ed_pubkey (nk_cert n)) m sig))"

definition vouched :: "crypto \<Rightarrow> trust_anchor \<Rightarrow> keypair \<Rightarrow> neighbor_keys \<Rightarrow> bool" where
  "vouched C a k n \<longleftrightarrow> verify_cert C a (nk_raw_cert n) Unknown = Inr (nk_cert n)
     \<and> pairwise_key C k (vc_x_pubkey (nk_cert n)) = Inr (nk_pairwise_key n) \<and> cert_ok (nk_raw_cert n) \<and> memo_ok C n"

definition held_ok :: "crypto \<Rightarrow> trust_anchor \<Rightarrow> mac \<Rightarrow> known_revocation \<Rightarrow> bool" where
  "held_ok C a own r \<longleftrightarrow> verify_revocation C a (kr_record r) 0 = Inr (kr_mac r) \<and> kr_mac r \<noteq> own
     \<and> kr_floods_left r \<le> REVOKE_FLOOD_BUDGET \<and> revocation_ok (kr_record r)"

definition latched_ok :: "crypto \<Rightarrow> trust_anchor \<Rightarrow> mac \<Rightarrow> revocation_record option \<Rightarrow> bool" where
  "latched_ok C a own r \<longleftrightarrow> (\<forall>x. r = Some x \<longrightarrow> verify_revocation C a x 0 = Inr own)"

definition member :: "crypto \<Rightarrow> keypair \<Rightarrow> membership_cert \<Rightarrow> trust_anchor \<Rightarrow> bool" where
  "member C k cert a \<longleftrightarrow> ct_ed_pubkey cert = ed_pubkey C k \<and> cert_ok cert
     \<and> (\<exists>v. verify_cert C a cert Unknown = Inr v)"

definition auth_ok :: "crypto \<Rightarrow> auth_profile \<Rightarrow> ogm_auth \<Rightarrow> bool" where
  "auth_ok C P s \<longleftrightarrow> tables_ok P s \<and> member C (oa_keypair s) (oa_cert s) (oa_anchor s)
     \<and> (\<forall>n\<in>set (oa_neighbors s). vouched C (oa_anchor s) (oa_keypair s) n)
     \<and> (\<forall>r\<in>set (oa_revocations s). held_ok C (oa_anchor s) (ct_node_mac (oa_cert s)) r)
     \<and> latched_ok C (oa_anchor s) (ct_node_mac (oa_cert s)) (oa_self_revocation s)"

lemma auth_okD:
  assumes "auth_ok C P s"
  shows "tables_ok P s" "member C (oa_keypair s) (oa_cert s) (oa_anchor s)"
    "n \<in> set (oa_neighbors s) \<Longrightarrow> vouched C (oa_anchor s) (oa_keypair s) n"
    "r \<in> set (oa_revocations s) \<Longrightarrow> held_ok C (oa_anchor s) (ct_node_mac (oa_cert s)) r"
    "latched_ok C (oa_anchor s) (ct_node_mac (oa_cert s)) (oa_self_revocation s)"
  using assms by (auto simp: auth_ok_def)

lemma verify_cert_Inr:
  "verify_cert C a cert now = Inr v \<longleftrightarrow> verify_cert C a cert Unknown = Inr v
     \<and> \<not> proves_before now (ct_not_before cert) \<and> \<not> proves_past now (ct_not_after cert)"
  by (auto simp: verify_cert_def split: if_splits)

lemma verify_cert_facts:
  assumes "verify_cert C a cert now = Inr v"
  shows "v = verified_facts cert" "vc_mac v = ct_node_mac cert" "vc_ed_pubkey v = ct_ed_pubkey cert"
    "derive_mac C (ct_ed_pubkey cert) = ct_node_mac cert" "ct_mesh_id cert = ta_mesh_id a"
    "verify_signature C (ta_root_pubkey a) (signed_body cert) (ct_signature cert)"
  using assms by (auto simp: verify_cert_def verified_facts_def split: if_splits)

lemma verify_revocation_Inr:
  assumes "verify_revocation C a r now = Inr m"
  shows "m = rv_node_mac r" "verify_revocation C a r 0 = Inr m" "now < rv_not_after r" "rv_not_before r \<noteq> 0"
  using assms by (auto simp: verify_revocation_def not_le split: if_splits)

text \<open>Fields the invariant does not read.\<close>

lemma tables_ok_other [simp]:
  "tables_ok P (s\<lparr>oa_keypair := a1\<rparr>) = tables_ok P s" "tables_ok P (s\<lparr>oa_cert := a2\<rparr>) = tables_ok P s"
  "tables_ok P (s\<lparr>oa_wall := a3\<rparr>) = tables_ok P s" "tables_ok P (s\<lparr>oa_now := a4\<rparr>) = tables_ok P s"
  "tables_ok P (s\<lparr>oa_send_counter := a5\<rparr>) = tables_ok P s" "tables_ok P (s\<lparr>oa_self_revocation := a6\<rparr>) = tables_ok P s"
  "tables_ok P (s\<lparr>oa_trickle_reset_hint := a7\<rparr>) = tables_ok P s" "tables_ok P (s\<lparr>oa_key_generation := a8\<rparr>) = tables_ok P s"
  "tables_ok P (s\<lparr>oa_renewal_authority := a9\<rparr>) = tables_ok P s" "tables_ok P (s\<lparr>oa_outstanding_renewal := b1\<rparr>) = tables_ok P s"
  "tables_ok P (s\<lparr>oa_pending_renewed_cert := b2\<rparr>) = tables_ok P s" "tables_ok P (s\<lparr>oa_renewal_requests_sent := b3\<rparr>) = tables_ok P s"
  "tables_ok P (s\<lparr>oa_renewal_replies_accepted := b4\<rparr>) = tables_ok P s" "tables_ok P (s\<lparr>oa_next_renewal_poll := b5\<rparr>) = tables_ok P s"
  "tables_ok P (s\<lparr>oa_pending_renewal := b6\<rparr>) = tables_ok P s" "tables_ok P (s\<lparr>oa_challenge_counter := b7\<rparr>) = tables_ok P s"
  "tables_ok P (s\<lparr>oa_ogm_crypto_ops := b8\<rparr>) = tables_ok P s" "tables_ok P (s\<lparr>oa_unjudged_admissions := b9\<rparr>) = tables_ok P s"
  by (simp_all add: tables_ok_def)

lemma auth_ok_other [simp]:
  "auth_ok C P (s\<lparr>oa_wall := a3\<rparr>) = auth_ok C P s" "auth_ok C P (s\<lparr>oa_now := a4\<rparr>) = auth_ok C P s"
  "auth_ok C P (s\<lparr>oa_send_counter := a5\<rparr>) = auth_ok C P s"
  "auth_ok C P (s\<lparr>oa_trickle_reset_hint := a7\<rparr>) = auth_ok C P s" "auth_ok C P (s\<lparr>oa_key_generation := a8\<rparr>) = auth_ok C P s"
  "auth_ok C P (s\<lparr>oa_renewal_authority := a9\<rparr>) = auth_ok C P s" "auth_ok C P (s\<lparr>oa_outstanding_renewal := b1\<rparr>) = auth_ok C P s"
  "auth_ok C P (s\<lparr>oa_pending_renewed_cert := b2\<rparr>) = auth_ok C P s" "auth_ok C P (s\<lparr>oa_renewal_requests_sent := b3\<rparr>) = auth_ok C P s"
  "auth_ok C P (s\<lparr>oa_renewal_replies_accepted := b4\<rparr>) = auth_ok C P s" "auth_ok C P (s\<lparr>oa_next_renewal_poll := b5\<rparr>) = auth_ok C P s"
  "auth_ok C P (s\<lparr>oa_pending_renewal := b6\<rparr>) = auth_ok C P s" "auth_ok C P (s\<lparr>oa_challenge_counter := b7\<rparr>) = auth_ok C P s"
  "auth_ok C P (s\<lparr>oa_ogm_crypto_ops := b8\<rparr>) = auth_ok C P s" "auth_ok C P (s\<lparr>oa_unjudged_admissions := b9\<rparr>) = auth_ok C P s"
  by (simp_all add: auth_ok_def)

text \<open>Fields the invariant reads, replaced one at a time.\<close>

lemma auth_ok_parts:
  assumes "auth_ok C P s"
  shows "tables_ok P (s\<lparr>oa_recv_counters := rc\<rparr>) \<Longrightarrow> auth_ok C P (s\<lparr>oa_recv_counters := rc\<rparr>)"
    "tables_ok P (s\<lparr>oa_restart_candidate := rs\<rparr>) \<Longrightarrow> auth_ok C P (s\<lparr>oa_restart_candidate := rs\<rparr>)"
    "vec_ok MAX_IN_PROGRESS_PROOF oc_neighbor ip \<Longrightarrow> auth_ok C P (s\<lparr>oa_in_progress := ip\<rparr>)"
    "vec_ok (ap_in_flight P) if_orig fl \<Longrightarrow> auth_ok C P (s\<lparr>oa_in_flight := fl\<rparr>)"
    "vec_ok (ap_pending_replies P) pr_requester pr \<Longrightarrow> auth_ok C P (s\<lparr>oa_pending_replies := pr\<rparr>)"
    "im_ok (ap_neighbor_keys P) rt \<Longrightarrow> auth_ok C P (s\<lparr>oa_cert_req_rate := rt\<rparr>)"
    "im_ok (ap_neighbor_keys P) rt \<Longrightarrow> auth_ok C P (s\<lparr>oa_renew_req_rate := rt\<rparr>)"
    "vec_ok (ap_revoked P) kr_mac rv \<Longrightarrow> (\<And>r. r \<in> set rv \<Longrightarrow> held_ok C (oa_anchor s) (ct_node_mac (oa_cert s)) r)
       \<Longrightarrow> auth_ok C P (s\<lparr>oa_revocations := rv\<rparr>)"
    "vec_ok (ap_neighbor_keys P) nk_mac ns \<Longrightarrow> (\<And>n. n \<in> set ns \<Longrightarrow> vouched C (oa_anchor s) (oa_keypair s) n)
       \<Longrightarrow> auth_ok C P (s\<lparr>oa_neighbors := ns\<rparr>)"
    "latched_ok C (oa_anchor s) (ct_node_mac (oa_cert s)) lr \<Longrightarrow> auth_ok C P (s\<lparr>oa_self_revocation := lr\<rparr>)"
  using assms by (auto simp: auth_ok_def tables_ok_def)

lemma auth_ok_no_claim [simp]: "auth_ok C P s \<Longrightarrow> auth_ok C P (s\<lparr>oa_restart_candidate := None\<rparr>)"
  by (auto simp: auth_ok_def tables_ok_def)

lemma with_capacities_auth_ok: "member C k cert a \<Longrightarrow> auth_ok C P (with_capacities k cert a)"
  by (simp add: auth_ok_def latched_ok_def) (simp add: with_capacities_def)

section \<open>Cache, guard and clock\<close>

lemma cache_neighbor_auth_ok:
  assumes "auth_ok C P s" "vouched C (oa_anchor s) (oa_keypair s) k"
  shows "auth_ok C P (snd (cache_neighbor P k s))"
  using tables_okD(1) [OF auth_okD(1) [OF assms(1)]]
proof (cases rule: cache_neighbor_cases [where k = k])
  case (stored ns g u)
  then have "auth_ok C P (s\<lparr>oa_neighbors := ns\<rparr>)"
    using assms auth_okD(3) [OF assms(1)] by (intro auth_ok_parts(9) [OF assms(1)]) auto
  with stored(1) show ?thesis by simp
qed (use assms in simp)

lemma evict_neighbor_auth_ok [simp]: "auth_ok C P s \<Longrightarrow> auth_ok C P (evict_neighbor m s)"
proof -
  assume ok: "auth_ok C P s"
  have t: "tables_ok P (evict_neighbor m s)" using auth_okD(1) [OF ok] by simp
  obtain g c where e: "evict_neighbor m s = s\<lparr>oa_neighbors := vec_remove_first (\<lambda>n. nk_mac n = m) (oa_neighbors s),
      oa_key_generation := g, oa_recv_counters := im_remove documented_swap m (oa_recv_counters s), oa_restart_candidate := c\<rparr>"
    by (rule evict_neighbor_cases)
  have "set (vec_remove_first (\<lambda>n. nk_mac n = m) (oa_neighbors s)) \<subseteq> set (oa_neighbors s)"
    using vec_remove_first_keyed(2) [OF tables_okD(2) [OF auth_okD(1) [OF ok]]] by auto
  with ok t show ?thesis unfolding auth_ok_def by (auto simp: e)
qed

lemma guard_accept_auth_ok:
  assumes "auth_ok C P s" "guard_accept P src c s = (b, s')"
  shows "auth_ok C P s'"
proof -
  have t: "tables_ok P s'" using recv_guard.high_advances [OF auth_okD(1) [OF assms(1)] assms(2)] by blast
  from t auth_ok_parts(1) [OF assms(1), of "oa_recv_counters s'"] show ?thesis
    unfolding guard_accept_shape [OF assms(2), symmetric] by blast
qed

lemma set_time_auth_ok [simp]: "auth_ok C P s \<Longrightarrow> auth_ok C P (set_time now wall s)"
proof -
  assume ok: "auth_ok C P s"
  note tab = tables_okD [OF auth_okD(1) [OF ok]]
  have 1: "auth_ok C P (reclaim_bookkeeping (s\<lparr>oa_now := now, oa_wall := wall\<rparr>))"
    using ok tab(9,10) auth_ok_parts(4,5) [of C P]
    by (auto simp: reclaim_bookkeeping_def Let_def split: option.splits)
  have 2: "auth_ok C P (prune_expired t)" if "auth_ok C P t" for t
    using that vec_ok_drop_from [OF tables_okD(5) [OF auth_okD(1) [OF that]]] auth_okD(4) [OF that]
    by (auto simp: prune_expired_def Let_def intro!: auth_ok_parts(8) [OF that])
  have 3: "auth_ok C P (evict_expired_neighbors t)" if "auth_ok C P t" for t
    using that tables_okD(1) [OF auth_okD(1) [OF that]] auth_okD(3) [OF that]
    by (auto simp: evict_expired_neighbors_def Let_def intro!: auth_ok_parts(9) [OF that])
  show ?thesis unfolding set_time_def by (intro 1 2 3)
qed

section \<open>Frames\<close>

lemma send_auth_ok [simp]:
  assumes "auth_ok C P s"
  shows "auth_ok C P (snd (tag_directed C' dst frame trailer s))" "auth_ok C P (snd (sign_fanout C' frame trailer s))"
    "auth_ok C P (snd (augment_keepalive C' buf len s))"
  using assms
  by (auto simp: tag_directed_def sign_fanout_def augment_keepalive_def next_send_counter_def Let_def split: option.splits)

lemma verify_directed_auth_ok [simp]: "auth_ok C P s \<Longrightarrow> auth_ok C P (snd (verify_directed C' P src frame trailer s))"
  using guard_accept_auth_ok [of C P s src "directed_counter trailer"]
  by (cases "guard_accept P src (directed_counter trailer) s") (auto simp: verify_directed_guard)

lemma verify_fanout_auth_ok [simp]: "auth_ok C P s \<Longrightarrow> auth_ok C P (snd (verify_fanout C' P src frame trailer s))"
  using guard_accept_auth_ok [of C P s src "directed_counter trailer"]
  by (cases "guard_accept P src (directed_counter trailer) s") (auto simp: verify_fanout_guard)

lemma verify_keepalive_guard:
  obtains (refused) "verify_keepalive C P src payload s = (False, s)"
  | (guarded) n msg where "KEEPALIVE_TRAILER_LEN \<le> length payload" "n \<in> set (oa_neighbors s)" "nk_mac n = src"
      "\<not> proves_past (oa_wall s) (vc_not_after (nk_cert n))" "\<not> is_revoked (nk_cert n) s"
      "keepalive_signed_message src (take 8 (drop (length payload - KEEPALIVE_TRAILER_LEN) payload)) = Some msg"
      "verify_signature C (vc_ed_pubkey (nk_cert n)) msg (drop 8 (drop (length payload - KEEPALIVE_TRAILER_LEN) payload))"
      "verify_keepalive C P src payload s = guard_accept P src
         (directed_counter (drop (length payload - KEEPALIVE_TRAILER_LEN) payload) AND NOT KEEPALIVE_COUNTER_TAG) s"
proof -
  let ?t = "drop (length payload - KEEPALIVE_TRAILER_LEN) payload"
  show thesis
  proof (cases "verify_keepalive C P src payload s = (False, s)")
    case False
    then obtain n msg where g: "KEEPALIVE_TRAILER_LEN \<le> length payload" "find (\<lambda>n. nk_mac n = src) (oa_neighbors s) = Some n"
      "\<not> proves_past (oa_wall s) (vc_not_after (nk_cert n))" "\<not> is_revoked (nk_cert n) s"
      "keepalive_signed_message src (take 8 ?t) = Some msg" "verify_signature C (vc_ed_pubkey (nk_cert n)) msg (drop 8 ?t)"
      "directed_counter ?t AND KEEPALIVE_COUNTER_TAG \<noteq> 0"
      unfolding verify_keepalive_def Let_def directed_counter_def
      by (auto simp: Let_def split: if_splits option.splits)
    from g have "verify_keepalive C P src payload s
        = guard_accept P src (directed_counter ?t AND NOT KEEPALIVE_COUNTER_TAG) s"
      by (simp add: verify_keepalive_def Let_def directed_counter_def guard_accept_def)
    with guarded g find_keyed_in [OF g(2)] show thesis by blast
  qed (use refused in simp)
qed

lemma verify_keepalive_auth_ok [simp]: "auth_ok C P s \<Longrightarrow> auth_ok C P (snd (verify_keepalive C' P src payload s))"
proof (cases rule: verify_keepalive_guard [where C = C' and P = P and src = src and payload = payload and s = s])
  case (guarded n msg)
  then show "auth_ok C P s \<Longrightarrow> ?thesis" by (metis guard_accept_auth_ok prod.collapse)
qed simp

lemma verify_nonce_fresh_auth_ok [simp]:
  assumes "auth_ok C P s"
  shows "auth_ok C P (snd (verify_directed_nonce_fresh C' P src frame trailer s))"
proof (cases "frame = [] \<or> hd frame \<noteq> packet_type_as_u8 NextHopResponse")
  case False
  show ?thesis
  proof (cases "verify_directed_tag C' src frame trailer s")
    case (Some c)
    note tok = auth_okD(1) [OF assms]
    from tables_okD(3) [OF tok] show ?thesis
    proof (cases rule: accept_recv_counter_cases [where src = src and c = c])
      case (accepted rc)
      then have "auth_ok C P (s\<lparr>oa_recv_counters := rc\<rparr>)"
        using accept_recv_counter_tables [OF tok accepted(1)] by (intro auth_ok_parts(1) [OF assms])
      from auth_ok_no_claim [OF this] False Some accepted(1) show ?thesis by (simp add: verify_directed_nonce_fresh_def)
    next
      case (stale h)
      have "tables_ok P (s\<lparr>oa_restart_candidate := Some (src, c)\<rparr>)" "tables_ok P (s\<lparr>oa_restart_candidate := None\<rparr>)"
        using tok stale by (simp_all add: tables_ok_def)
      with False Some stale auth_ok_parts(2) [OF assms] show ?thesis by (auto simp: verify_directed_nonce_fresh_def)
    next
      case no_slot
      with False Some assms show ?thesis by (auto simp: verify_directed_nonce_fresh_def)
    qed
  qed (use False assms in \<open>auto simp: verify_directed_nonce_fresh_def\<close>)
qed (use assms in \<open>simp add: verify_directed_nonce_fresh_def\<close>)

section \<open>Revocations\<close>

lemma latch_auth_ok:
  assumes "auth_ok C P s" "verify_revocation C (oa_anchor s) rc now = Inr m" "m = ct_node_mac (oa_cert s)"
  shows "auth_ok C P (latch_self_revocation rc s)"
proof -
  have "latched_ok C (oa_anchor s) (ct_node_mac (oa_cert s)) (Some rc)"
    using verify_revocation_Inr(2) [OF assms(2)] assms(3) by (simp add: latched_ok_def)
  then show ?thesis
    using assms(1) auth_ok_parts(10) [OF assms(1)] by (auto simp: latch_self_revocation_def Let_def)
qed

lemma admit_revocation_cases:
  assumes "vec_ok (ap_revoked P) kr_mac (oa_revocations s)" "rv_node_mac rc \<notin> kr_mac ` set (oa_revocations s)"
  obtains rs where "admit_revocation P rc s = s\<lparr>oa_revocations := rs\<rparr>" "vec_ok (ap_revoked P) kr_mac rs"
    "set rs \<subseteq> insert \<lparr>kr_record = rc, kr_floods_left = REVOKE_FLOOD_BUDGET\<rparr> (set (oa_revocations s))"
    "0 < ap_revoked P \<longrightarrow> \<lparr>kr_record = rc, kr_floods_left = REVOKE_FLOOD_BUDGET\<rparr> \<in> set rs"
    "length (oa_revocations s) < ap_revoked P \<longrightarrow> set (oa_revocations s) \<subseteq> set rs"
proof -
  define k where "k = \<lparr>kr_record = rc, kr_floods_left = REVOKE_FLOOD_BUDGET\<rparr>"
  have new: "kr_mac k \<notin> kr_mac ` set (oa_revocations s)" using assms(2) by (simp add: k_def)
  show thesis
  proof (cases "vec_push (ap_revoked P) k (oa_revocations s)")
    case (Some rs)
    then have "rs = oa_revocations s @ [k]" by (simp add: vec_push_def split: if_splits)
    then show thesis
      using that [of rs] Some vec_ok_push [OF assms(1) new Some] by (auto simp: admit_revocation_def k_def Let_def)
  next
    case None
    then have full: "\<not> length (oa_revocations s) < ap_revoked P" by (simp add: vec_push_def split: if_splits)
    show thesis
    proof (cases "min_by_key (\<lambda>(_, r). (unix_or_zero (oa_wall s) < rv_not_after (kr_record r), kr_floods_left r)) (enumerate 0 (oa_revocations s))")
      case e: None
      then have "oa_revocations s = []" by (simp add: enumerate_eq_zip)
      then show thesis
        using that [of "[]"] None e full by (simp add: admit_revocation_def k_def Let_def)
    next
      case (Some p)
      obtain i r where p: "p = (i, r)" by fastforce
      with min_by_key_in [OF Some] have i: "i < length (oa_revocations s)" by (simp add: in_set_enumerate_eq)
      have "set ((oa_revocations s)[i := k]) \<subseteq> insert k (set (oa_revocations s))" by (rule set_update_subset_insert)
      moreover have "k \<in> set ((oa_revocations s)[i := k])" using i by (simp add: set_update_memI)
      ultimately show thesis
        using that [of "(oa_revocations s)[i := k]"] None Some p full vec_ok_set [OF assms(1) new, of i]
        by (simp add: admit_revocation_def k_def Let_def)
    qed
  qed
qed

text \<open>The three outcomes of ingesting a record.\<close>

lemma ingest_revocation_cases:
  assumes "vec_ok (ap_revoked P) kr_mac (oa_revocations s)"
  obtains (refused) "ingest_revocation C P rc s = (False, s)"
      "\<forall>m. verify_revocation C (oa_anchor s) rc (unix_or_zero (oa_wall s)) = Inr m \<longrightarrow> m \<noteq> ct_node_mac (oa_cert s)
         \<and> (\<exists>r\<in>set (oa_revocations s). kr_mac r = m \<and> rv_not_before rc \<le> rv_not_before (kr_record r))"
  | (selfish) "ingest_revocation C P rc s = (False, latch_self_revocation rc s)"
      "verify_revocation C (oa_anchor s) rc (unix_or_zero (oa_wall s)) = Inr (ct_node_mac (oa_cert s))"
  | (learned) rs where "ingest_revocation C P rc s
        = (True, (evict_neighbor (rv_node_mac rc) (s\<lparr>oa_revocations := rs\<rparr>))\<lparr>oa_trickle_reset_hint := True\<rparr>)"
      "verify_revocation C (oa_anchor s) rc (unix_or_zero (oa_wall s)) = Inr (rv_node_mac rc)"
      "rv_node_mac rc \<noteq> ct_node_mac (oa_cert s)" "vec_ok (ap_revoked P) kr_mac rs"
      "set rs \<subseteq> insert \<lparr>kr_record = rc, kr_floods_left = REVOKE_FLOOD_BUDGET\<rparr> (set (oa_revocations s))"
      "0 < ap_revoked P \<longrightarrow> \<lparr>kr_record = rc, kr_floods_left = REVOKE_FLOOD_BUDGET\<rparr> \<in> set rs"
      "rv_node_mac rc \<in> kr_mac ` set (oa_revocations s) \<or> length (oa_revocations s) < ap_revoked P
         \<longrightarrow> {r \<in> set (oa_revocations s). kr_mac r \<noteq> rv_node_mac rc} \<subseteq> set rs"
      "\<forall>r\<in>set (oa_revocations s). kr_mac r = rv_node_mac rc \<longrightarrow> rv_not_before (kr_record r) < rv_not_before rc"
proof (cases "verify_revocation C (oa_anchor s) rc (unix_or_zero (oa_wall s))")
  case (Inl e)
  then show thesis using refused by (simp add: ingest_revocation_def)
next
  case (Inr m)
  note m = verify_revocation_Inr(1) [OF Inr]
  define k where "k = \<lparr>kr_record = rc, kr_floods_left = REVOKE_FLOOD_BUDGET\<rparr>"
  show thesis
  proof (cases "m = ct_node_mac (oa_cert s)")
    case True
    with Inr show thesis using selfish by (simp add: ingest_revocation_def)
  next
    case other: False
    show thesis
    proof (cases "find (\<lambda>r. kr_mac r = m) (oa_revocations s)")
      case (Some slot)
      then have slot: "slot \<in> set (oa_revocations s)" "kr_mac slot = m" by (auto simp: find_Some_iff)
      show thesis
      proof (cases "rv_not_before rc \<le> rv_not_before (kr_record slot)")
        case True
        with Inr other Some slot show thesis by (intro refused) (auto simp: ingest_revocation_def)
      next
        case False
        have d: "distinct (map kr_mac (oa_revocations s))" using assms by (simp add: vec_ok_def)
        obtain rs where rs: "update_first (\<lambda>r. kr_mac r = m) (\<lambda>_. k) (oa_revocations s) = Some rs"
          using slot by (cases "update_first (\<lambda>r. kr_mac r = m) (\<lambda>_. k) (oa_revocations s)") (auto simp: update_first_None)
        have set: "set rs = insert k {r \<in> set (oa_revocations s). kr_mac r \<noteq> m}"
          using update_first_keyed [OF d rs] m by (simp add: k_def)
        have unique: "r = slot" if "r \<in> set (oa_revocations s)" "kr_mac r = m" for r
          using that slot d by (metis distinct_map inj_onD)
        show thesis
        proof (rule learned [of rs])
          show "ingest_revocation C P rc s
              = (True, (evict_neighbor (rv_node_mac rc) (s\<lparr>oa_revocations := rs\<rparr>))\<lparr>oa_trickle_reset_hint := True\<rparr>)"
            using Inr other Some rs False m by (simp add: ingest_revocation_def Let_def k_def)
          show "vec_ok (ap_revoked P) kr_mac rs" using vec_ok_update_first [OF assms rs] m by (simp add: k_def)
          show "\<forall>r\<in>set (oa_revocations s). kr_mac r = rv_node_mac rc \<longrightarrow> rv_not_before (kr_record r) < rv_not_before rc"
            using unique False m by (auto simp: not_le)
        qed (use Inr other set m in \<open>auto simp: k_def\<close>)
      qed
    next
      case None
      then have new: "rv_node_mac rc \<notin> kr_mac ` set (oa_revocations s)" using m by (auto simp: find_None_iff)
      obtain rs where rs: "admit_revocation P rc s = s\<lparr>oa_revocations := rs\<rparr>" "vec_ok (ap_revoked P) kr_mac rs"
        "set rs \<subseteq> insert k (set (oa_revocations s))" "0 < ap_revoked P \<longrightarrow> k \<in> set rs"
        "length (oa_revocations s) < ap_revoked P \<longrightarrow> set (oa_revocations s) \<subseteq> set rs"
        unfolding k_def by (rule admit_revocation_cases [OF assms new])
      have "\<forall>r\<in>set (oa_revocations s). kr_mac r \<noteq> rv_node_mac rc" using new by force
      with rs show thesis
        using Inr other None m new k_def by (intro learned [of rs]) (auto simp: ingest_revocation_def Let_def)
    qed
  qed
qed

lemma ingest_revocation_auth_ok [simp]:
  assumes "auth_ok C P s" "revocation_ok rc"
  shows "auth_ok C P (snd (ingest_revocation C P rc s))"
  using tables_okD(5) [OF auth_okD(1) [OF assms(1)]]
proof (cases rule: ingest_revocation_cases [where C = C and rc = rc])
  case selfish
  with latch_auth_ok [OF assms(1) selfish(2)] show ?thesis by simp
next
  case (learned rs)
  have "held_ok C (oa_anchor s) (ct_node_mac (oa_cert s)) r" if "r \<in> set rs" for r
    using that learned(3,5) verify_revocation_Inr(2) [OF learned(2)] auth_okD(4) [OF assms(1), of r] assms(2)
    by (auto simp: held_ok_def)
  with learned auth_ok_parts(8) [OF assms(1) learned(4)] show ?thesis by simp
qed (use assms in simp)

lemma revocation_read_ok: "revocation_read bs = Some (r, rest) \<Longrightarrow> revocation_ok r"
  by (auto simp: revocation_read_def revocation_ok_def REVOKE_LEN_def split: if_splits)

lemma ingest_values_auth_ok [simp]: "auth_ok C P s \<Longrightarrow> auth_ok C P (ingest_values C P vs s)"
  by (induction C P vs s rule: ingest_values.induct) (auto split: option.splits simp: revocation_read_ok)

lemma ingest_tail_auth_ok [simp]: "auth_ok C P s \<Longrightarrow> auth_ok C P (ingest_revocations_from_tail C P tail s)"
  by (simp add: ingest_revocations_from_tail_def)

lemma take_self_revoked_auth_ok [simp]: "auth_ok C P s \<Longrightarrow> auth_ok C P (snd (take_self_revoked s))"
  by (auto simp: take_self_revoked_def Let_def latched_ok_def split: option.splits intro!: auth_ok_parts(10))

section \<open>Challenges\<close>

lemma record_challenge_cases:
  assumes "vec_ok MAX_IN_PROGRESS_PROOF oc_neighbor (oa_in_progress s)"
  obtains cs where "record_challenge entry s = Some (s\<lparr>oa_in_progress := cs\<rparr>)" "vec_ok MAX_IN_PROGRESS_PROOF oc_neighbor cs"
    "entry \<in> set cs" "set cs \<subseteq> insert entry (set (oa_in_progress s))"
proof (cases "update_first (\<lambda>c. oc_neighbor c = oc_neighbor entry) (\<lambda>_. entry) (oa_in_progress s)")
  case (Some cs)
  have "set cs = insert entry {c \<in> set (oa_in_progress s). oc_neighbor c \<noteq> oc_neighbor entry}"
    using update_first_keyed [OF _ Some] assms by (simp add: vec_ok_def)
  with Some vec_ok_update_first [OF assms Some] that [of cs] show thesis by (auto simp: record_challenge_def)
next
  case None
  then have new: "oc_neighbor entry \<notin> oc_neighbor ` set (oa_in_progress s)" by (simp add: update_first_absent)
  show thesis
  proof (cases "vec_push MAX_IN_PROGRESS_PROOF entry (oa_in_progress s)")
    case (Some cs)
    then have "cs = oa_in_progress s @ [entry]" by (simp add: vec_push_def split: if_splits)
    with Some None vec_ok_push [OF assms new Some] that [of cs] show thesis by (auto simp: record_challenge_def)
  next
    case full: None
    then have "oa_in_progress s \<noteq> []" by (auto simp: vec_push_def MAX_IN_PROGRESS_PROOF_def)
    then obtain i c where m: "min_by_key (\<lambda>(_, c). oc_issued_seq c) (enumerate 0 (oa_in_progress s)) = Some (i, c)"
      by (cases "min_by_key (\<lambda>(_, c). oc_issued_seq c) (enumerate 0 (oa_in_progress s))") (auto simp: enumerate_eq_zip)
    then have i: "i < length (oa_in_progress s)" using min_by_key_in [OF m] by (simp add: in_set_enumerate_eq)
    have "set ((oa_in_progress s)[i := entry]) \<subseteq> insert entry (set (oa_in_progress s))" by (rule set_update_subset_insert)
    moreover have "entry \<in> set ((oa_in_progress s)[i := entry])" using i by (simp add: set_update_memI)
    ultimately show thesis
      using that [of "(oa_in_progress s)[i := entry]"] None full m vec_ok_set [OF assms new, of i]
      by (simp add: record_challenge_def)
  qed
qed

text \<open>With a library that keeps its promises the nonce generator never panics.\<close>

lemma nonce_prf_key_Some:
  assumes "crypto_ok C"
  obtains key where "nonce_prf_key C s = Some key"
  using pairwise_key_agrees(2) [OF assms, of "oa_keypair s" "oa_keypair s"] by (auto simp: nonce_prf_key_def)

lemma issue_challenge_cases:
  assumes "crypto_ok C" "vec_ok MAX_IN_PROGRESS_PROOF oc_neighbor (oa_in_progress s)"
  obtains (refused) "issue_challenge C m s = Some (None, s)" "live_neighbor m s = None \<or> oa_challenge_counter s = - 1"
  | (issued) key entry cs where "live_neighbor m s \<noteq> None" "nonce_prf_key C s = Some key"
      "entry = \<lparr>oc_neighbor = m, oc_nonce = frame_tag C key (oa_challenge_counter s + 1) NONCE_PRF_DOMAIN (mac_bytes m),
         oc_issued_seq = oa_challenge_counter s + 1\<rparr>"
      "issue_challenge C m s = Some (Some (oc_nonce entry), s\<lparr>oa_challenge_counter := oa_challenge_counter s + 1, oa_in_progress := cs\<rparr>)"
      "vec_ok MAX_IN_PROGRESS_PROOF oc_neighbor cs" "entry \<in> set cs" "set cs \<subseteq> insert entry (set (oa_in_progress s))"
      "oa_challenge_counter s < oa_challenge_counter s + 1"
proof (cases "live_neighbor m s = None \<or> oa_challenge_counter s = - 1")
  case True
  then show thesis using refused by (auto simp: issue_challenge_def)
next
  case False
  obtain key where key: "nonce_prf_key C s = Some key" by (rule nonce_prf_key_Some [OF assms(1)])
  then have key': "nonce_prf_key C (s\<lparr>oa_challenge_counter := c\<rparr>) = Some key" for c by (simp add: nonce_prf_key_def)
  define entry where "entry = \<lparr>oc_neighbor = m,
    oc_nonce = frame_tag C key (oa_challenge_counter s + 1) NONCE_PRF_DOMAIN (mac_bytes m), oc_issued_seq = oa_challenge_counter s + 1\<rparr>"
  let ?s = "s\<lparr>oa_challenge_counter := oa_challenge_counter s + 1\<rparr>"
  obtain cs where cs: "record_challenge entry ?s = Some (?s\<lparr>oa_in_progress := cs\<rparr>)"
    "vec_ok MAX_IN_PROGRESS_PROOF oc_neighbor cs" "entry \<in> set cs" "set cs \<subseteq> insert entry (set (oa_in_progress s))"
    using record_challenge_cases [of ?s entry] assms(2) by auto
  have "oa_challenge_counter s < oa_challenge_counter s + 1" using False by (simp add: less_next_word)
  with False key key' cs entry_def issued [of key entry cs] show thesis by (auto simp: issue_challenge_def Let_def)
qed

lemma issue_challenge_auth_ok:
  assumes "crypto_ok C" "auth_ok C' P s"
  shows "\<exists>r s'. issue_challenge C m s = Some (r, s') \<and> auth_ok C' P s'"
  using assms(1) tables_okD(7) [OF auth_okD(1) [OF assms(2)]]
proof (cases rule: issue_challenge_cases [where m = m])
  case (issued key entry cs)
  then have "auth_ok C' P (s\<lparr>oa_challenge_counter := oa_challenge_counter s + 1, oa_in_progress := cs\<rparr>)"
    using assms(2) by (intro auth_ok_parts(3)) simp_all
  with issued(4) show ?thesis by blast
qed (use assms in auto)

lemma anchor_recv_counter_insert:
  "anchor_recv_counter P m c s = (case im_insert (ap_neighbor_keys P) m c (oa_recv_counters s) of
     Some rc \<Rightarrow> (True, s\<lparr>oa_recv_counters := rc\<rparr>) | None \<Rightarrow> (False, s))"
  by (simp add: anchor_recv_counter_def im_insert_def vec_push_def)

lemma im_insert_ok: "im_ok cap m \<Longrightarrow> im_insert cap k v m = Some m' \<Longrightarrow> im_ok cap m'"
  by (auto simp: im_insert_def im_ok_def im_contains_iff split: if_splits) (simp add: im_keys_def)

lemma anchor_recv_counter_auth_ok:
  assumes "auth_ok C P s" "oa_restart_candidate s = None"
  shows "auth_ok C P (snd (anchor_recv_counter P m c s))"
proof (cases "im_insert (ap_neighbor_keys P) m c (oa_recv_counters s)")
  case (Some rc)
  have "im_ok (ap_neighbor_keys P) rc" by (rule im_insert_ok [OF tables_okD(3) [OF auth_okD(1) [OF assms(1)]] Some])
  then have "tables_ok P (s\<lparr>oa_recv_counters := rc\<rparr>)" using auth_okD(1) [OF assms(1)] assms(2) by (simp add: tables_ok_def)
  with Some auth_ok_parts(1) [OF assms(1)] show ?thesis by (simp add: anchor_recv_counter_insert)
qed (use assms in \<open>simp add: anchor_recv_counter_insert\<close>)

lemma verify_challenge_response_auth_ok [simp]:
  assumes "auth_ok C P s"
  shows "auth_ok C P (snd (verify_challenge_response C' P m tag s))"
proof -
  let ?s = "s\<lparr>oa_restart_candidate := None\<rparr>"
  have ok: "auth_ok C P ?s" using assms by simp
  have ip: "auth_ok C P (?s\<lparr>oa_in_progress := vec_swap_remove i (oa_in_progress s)\<rparr>)" if "i < length (oa_in_progress s)" for i
    using vec_ok_swap_remove [OF tables_okD(7) [OF auth_okD(1) [OF assms]] that] by (intro auth_ok_parts(3) [OF ok])
  show ?thesis
    using ok ip anchor_recv_counter_auth_ok [OF ip]
    by (auto simp: verify_challenge_response_def Let_def dest: position_Some split: option.splits)
qed

section \<open>Announcements\<close>

lemma attach_revocations_kept:
  assumes "attach_revocations krs attached buf off l = Some (rs, r)"
  shows "map kr_record rs = map kr_record krs \<and> list_all2 (\<lambda>a b. kr_floods_left b \<le> kr_floods_left a) krs rs"
  using assms
proof (induction krs attached buf off l arbitrary: rs r rule: attach_revocations.induct)
  case (2 kr rest attached buf off l)
  have same: "list_all2 (\<lambda>a b. kr_floods_left b \<le> kr_floods_left a) xs xs" for xs by (simp add: list_all2_refl)
  have dec: "kr_floods_left kr - 1 \<le> kr_floods_left kr" if "kr_floods_left kr \<noteq> 0"
    using that by (simp add: word_le_nat_alt unat_minus_one)
  show ?case
  proof (cases "MAX_REVOKE_PER_OGM \<le> attached")
    case True
    with "2.prems" same show ?thesis by auto
  next
    case room: False
    show ?thesis
    proof (cases "kr_floods_left kr = 0")
      case True
      with room "2.prems" "2.IH"(1) show ?thesis by auto
    next
      case budget: False
      show ?thesis
      proof (cases "length buf < off + (TVLV_HDR_LEN + REVOKE_LEN) \<or> checked_add_u16 l (TVLV_HDR_LEN + REVOKE_LEN) = None")
        case True
        with room budget "2.prems" same show ?thesis by (auto split: if_splits)
      next
        case False
        then obtain l' where l': "checked_add_u16 l (TVLV_HDR_LEN + REVOKE_LEN) = Some l'" by auto
        with False room budget "2.prems" obtain buf' off' rs' where w: "write_tvlv buf off TvRevoke (revocation_write (kr_record kr)) = Some (buf', off')"
          "attach_revocations rest (attached + 1) buf' off' l' = Some (rs', r)"
          "rs = kr\<lparr>kr_floods_left := kr_floods_left kr - 1\<rparr> # rs'"
          by (auto simp: Option.bind_eq_Some_conv)
        from "2.IH"(2) [OF room budget _ l' w(1) refl w(2)] False w dec [OF budget] show ?thesis by auto
      qed
    qed
  qed
qed simp

lemma append_auth_records_kept:
  assumes "append_auth_records krs buf len ty v sig l = Some (rs, off, buf')"
  shows "map kr_record rs = map kr_record krs \<and> list_all2 (\<lambda>a b. kr_floods_left b \<le> kr_floods_left a) krs rs"
  using assms by (auto simp: append_auth_records_def Option.bind_eq_Some_conv dest!: attach_revocations_kept)

lemma augment_ogm_state:
  assumes "augment_ogm_with_cert_record C lazy buf len s = Some (r, s')"
  shows "\<exists>rs. s' = s\<lparr>oa_revocations := rs\<rparr> \<and> map kr_record rs = map kr_record (oa_revocations s)
    \<and> list_all2 (\<lambda>a b. kr_floods_left b \<le> kr_floods_left a) (oa_revocations s) rs"
proof -
  have "\<exists>rs. s = s\<lparr>oa_revocations := rs\<rparr> \<and> map kr_record rs = map kr_record (oa_revocations s)
      \<and> list_all2 (\<lambda>a b. kr_floods_left b \<le> kr_floods_left a) (oa_revocations s) rs"
    by (intro exI [of _ "oa_revocations s"]) (simp add: list_all2_refl)
  then show ?thesis
    using assms unfolding augment_ogm_with_cert_record_def Let_def
    by (auto split: if_split_asm option.split_asm dest!: append_auth_records_kept)
qed

lemma augment_ogm_auth_ok:
  assumes "auth_ok C P s" "augment_ogm_with_cert_record C' lazy buf len s = Some (r, s')"
  shows "auth_ok C P s'"
proof -
  obtain rs where s': "s' = s\<lparr>oa_revocations := rs\<rparr>" and m: "map kr_record rs = map kr_record (oa_revocations s)"
    and l: "list_all2 (\<lambda>a b. kr_floods_left b \<le> kr_floods_left a) (oa_revocations s) rs"
    using augment_ogm_state [OF assms(2)] by blast
  have macs: "map kr_mac rs = map kr_mac (oa_revocations s)"
    using arg_cong [OF m, of "map rv_node_mac"] by (simp add: comp_def)
  have held: "held_ok C (oa_anchor s) (ct_node_mac (oa_cert s)) r" if r: "r \<in> set rs" for r
  proof -
    obtain i where i: "i < length rs" "r = rs ! i" using r by (auto simp: in_set_conv_nth)
    have "length rs = length (oa_revocations s)" using list_all2_lengthD [OF l] by simp
    with i m l have "kr_record r = kr_record (oa_revocations s ! i)" "kr_floods_left r \<le> kr_floods_left (oa_revocations s ! i)"
      "oa_revocations s ! i \<in> set (oa_revocations s)"
      by (auto simp: list_all2_conv_all_nth dest: map_eq_imp_length_eq) (metis nth_map)
    with auth_okD(4) [OF assms(1)] show ?thesis by (metis (no_types, lifting) held_ok_def order_trans)
  qed
  have "vec_ok (ap_revoked P) kr_mac rs"
    using tables_okD(5) [OF auth_okD(1) [OF assms(1)]] macs arg_cong [OF m, of length] by (simp add: vec_ok_def)
  then show ?thesis unfolding s' by (rule auth_ok_parts(8) [OF assms(1) _ held])
qed

lemma judge_cert_Some:
  assumes "auth_ok C P s" "cert_read cert_bytes = Some (cert, pad)"
    and "judge_cert C orig cert_bytes cert seqno sig s = (Some (v, key, checked), s')"
  shows "\<exists>k. s' = s\<lparr>oa_ogm_crypto_ops := k\<rparr>" "verify_cert C (oa_anchor s) cert (oa_wall s) = Inr v"
    "pairwise_key C (oa_keypair s) (vc_x_pubkey v) = Inr key"
    "checked \<Longrightarrow> \<exists>p m. signed_message orig seqno (cert_write cert @ p) = Some m \<and> verify_signature C (vc_ed_pubkey v) m sig"
proof -
  have "(\<exists>k. s' = s\<lparr>oa_ogm_crypto_ops := k\<rparr>) \<and> verify_cert C (oa_anchor s) cert (oa_wall s) = Inr v
    \<and> pairwise_key C (oa_keypair s) (vc_x_pubkey v) = Inr key
    \<and> (checked \<longrightarrow> (\<exists>p m. signed_message orig seqno (cert_write cert @ p) = Some m \<and> verify_signature C (vc_ed_pubkey v) m sig))"
  proof (cases "find (\<lambda>n. nk_mac n = orig \<and> cert_write (nk_raw_cert n) = cert_bytes) (oa_neighbors s)")
    case (Some n)
    then have n: "n \<in> set (oa_neighbors s)" "nk_mac n = orig" "cert_write (nk_raw_cert n) = cert_bytes"
      by (auto simp: find_Some_iff)
    have vn: "vouched C (oa_anchor s) (oa_keypair s) n" by (rule auth_okD(3) [OF assms(1) n(1)])
    then have "cert_read (cert_write (nk_raw_cert n) @ []) = Some (nk_raw_cert n, [])" by (intro cert_read_write) (simp add: vouched_def)
    with n(3) assms(2) have cert: "cert = nk_raw_cert n" by simp
    have j: "\<not> proves_before (oa_wall s) (ct_not_before cert)" "\<not> proves_past (oa_wall s) (ct_not_after cert)"
      "v = nk_cert n" "key = nk_pairwise_key n" "checked = (nk_last_ogm n = Some (seqno, sig))" "s' = s"
      using assms(3) Some cert by (auto simp: judge_cert_def split: if_splits)
    have "\<exists>k. s = s\<lparr>oa_ogm_crypto_ops := k\<rparr>" by (intro exI [of _ "oa_ogm_crypto_ops s"]) simp
    moreover have "verify_cert C (oa_anchor s) cert (oa_wall s) = Inr v"
      using vn j(1,2,3) cert by (intro verify_cert_Inr [THEN iffD2]) (simp add: vouched_def)
    ultimately show ?thesis using j(3-) vn cert n(2) by (auto simp: vouched_def memo_ok_def)
  next
    case None
    then show ?thesis using assms(3)
      by (auto simp: judge_cert_def Let_def crypto_op_def split: sum.splits)
  qed
  then show "\<exists>k. s' = s\<lparr>oa_ogm_crypto_ops := k\<rparr>" "verify_cert C (oa_anchor s) cert (oa_wall s) = Inr v"
    "pairwise_key C (oa_keypair s) (vc_x_pubkey v) = Inr key"
    "checked \<Longrightarrow> \<exists>p m. signed_message orig seqno (cert_write cert @ p) = Some m \<and> verify_signature C (vc_ed_pubkey v) m sig"
    by blast+
qed

lemma judge_cert_state: "judge_cert C orig cb cert seqno sig s = (r, s') \<Longrightarrow> \<exists>k. s' = s\<lparr>oa_ogm_crypto_ops := k\<rparr>"
proof -
  have "\<exists>k. s = s\<lparr>oa_ogm_crypto_ops := k\<rparr>" by (intro exI [of _ "oa_ogm_crypto_ops s"]) simp
  then show "judge_cert C orig cb cert seqno sig s = (r, s') \<Longrightarrow> ?thesis"
    by (auto simp: judge_cert_def Let_def crypto_op_def split: option.splits sum.splits if_splits)
qed

text \<open>
  A verified announcement, taken apart: the certificate it was judged by, the message its signature was
  checked over (possibly with bytes behind the certificate), the keys cached for its originator.
\<close>

lemma verify_ogm_Verified:
  assumes "auth_ok C P s" "verify_ogm C P payload s = (Verified, s')"
  obtains cert pad m sig key k cb rest where "OGM_HDR \<le> length payload" "find_tvlv (drop OGM_HDR payload) TvOgmSig = Some sig"
    "verify_cert C (oa_anchor s) cert (oa_wall s) = Inr (verified_facts cert)" "cert_ok cert"
    "ct_node_mac cert = mac_at payload ORIG_OFF" "\<not> is_revoked (verified_facts cert) s"
    "signed_message (mac_at payload ORIG_OFF) (take 4 (drop SEQNO_OFF payload)) (cert_write cert @ pad) = Some m"
    "verify_signature C (ct_ed_pubkey cert) m sig" "pairwise_key C (oa_keypair s) (ct_x_pubkey cert) = Inr key"
    "s' = ingest_revocations_from_tail C P (drop OGM_HDR payload)
       (snd (cache_neighbor P \<lparr>nk_cert = verified_facts cert, nk_pairwise_key = key, nk_raw_cert = cert,
          nk_last_ogm = Some (take 4 (drop SEQNO_OFF payload), sig)\<rparr> (s\<lparr>oa_ogm_crypto_ops := k\<rparr>)))"
    "resolve_cert_bytes C (drop OGM_HDR payload) (mac_at payload ORIG_OFF) s = Inr cb" "cert_read cb = Some (cert, rest)"
    "vouched C (oa_anchor s) (oa_keypair s) \<lparr>nk_cert = verified_facts cert, nk_pairwise_key = key, nk_raw_cert = cert,
       nk_last_ogm = Some (take 4 (drop SEQNO_OFF payload), sig)\<rparr>"
proof -
  let ?tail = "drop OGM_HDR payload" and ?orig = "mac_at payload ORIG_OFF" and ?seqno = "take 4 (drop SEQNO_OFF payload)"
  have long: "OGM_HDR \<le> length payload" using assms(2) by (auto simp: verify_ogm_def split: if_splits)
  obtain sig where sig: "find_tvlv ?tail TvOgmSig = Some sig" "length sig = SIG_LEN"
    using assms(2) long by (auto simp: verify_ogm_def Let_def split: option.splits if_splits)
  obtain cb where cb: "resolve_cert_bytes C ?tail ?orig s = Inr cb"
    using assms(2) long sig
    by (cases "resolve_cert_bytes C ?tail ?orig s")
      (auto simp: verify_ogm_def Let_def resolve_cert_bytes_def split: option.splits if_splits)
  obtain cert rest where cr: "cert_read cb = Some (cert, rest)"
    using assms(2) long sig cb by (auto simp: verify_ogm_def Let_def split: option.splits)
  obtain v key checked s1 where j: "judge_cert C ?orig cb cert ?seqno sig s = (Some (v, key, checked), s1)"
    using assms(2) long sig cb cr
    by (cases "judge_cert C ?orig cb cert ?seqno sig s") (auto simp: verify_ogm_def Let_def split: option.splits)
  note judged = judge_cert_Some [OF assms(1) cr j]
  note bytes = cert_write_read [OF cr]
  have v: "v = verified_facts cert" "vc_mac v = ct_node_mac cert" "vc_ed_pubkey v = ct_ed_pubkey cert"
    using verify_cert_facts [OF judged(2)] by auto
  obtain k where s1: "s1 = s\<lparr>oa_ogm_crypto_ops := k\<rparr>" using judged(1) by blast
  obtain s2 where c: "(if checked then (True, s1) else check_ogm_signature C (vc_ed_pubkey v) ?orig ?seqno cb sig s1) = (True, s2)"
      "vc_mac v = ?orig" "\<not> is_revoked v s1" "s' = ingest_revocations_from_tail C P ?tail (snd (cache_neighbor P
        \<lparr>nk_cert = v, nk_pairwise_key = key, nk_raw_cert = cert, nk_last_ogm = Some (?seqno, sig)\<rparr> s2))"
    using assms(2) long sig cb cr j
    by (auto simp: verify_ogm_def Let_def split: if_split_asm prod.split_asm bool.split_asm)
  have "\<exists>k. s2 = s\<lparr>oa_ogm_crypto_ops := k\<rparr>"
    using c(1) s1 by (auto simp: check_ogm_signature_def crypto_op_def split: if_splits option.splits)
  then obtain k2 where s2: "s2 = s\<lparr>oa_ogm_crypto_ops := k2\<rparr>" by blast
  have "\<exists>p m. signed_message ?orig ?seqno (cert_write cert @ p) = Some m \<and> verify_signature C (ct_ed_pubkey cert) m sig"
    using judged(4) c(1) bytes v(3) by (cases checked) (auto simp: check_ogm_signature_def split: option.splits)
  then obtain p m where pm: "signed_message ?orig ?seqno (cert_write cert @ p) = Some m"
    "verify_signature C (ct_ed_pubkey cert) m sig" by blast
  have "\<not> is_revoked (verified_facts cert) s" using c(3) s1 v(1) by (simp add: is_revoked_def)
  moreover have "vc_x_pubkey v = ct_x_pubkey cert" by (simp add: v(1) verified_facts_def)
  moreover have "vouched C (oa_anchor s) (oa_keypair s) \<lparr>nk_cert = verified_facts cert, nk_pairwise_key = key, nk_raw_cert = cert,
      nk_last_ogm = Some (?seqno, sig)\<rparr>"
    using judged(2,3) bytes c(2) v pm verify_cert_Inr [THEN iffD1, OF judged(2)]
    by (auto simp: vouched_def memo_ok_def verified_facts_def)
  ultimately show thesis
    using that [of sig cert p m key k2 cb rest] long sig(1) judged(2,3) bytes c(2,4) v pm s2 cb cr by simp
qed

lemma verify_ogm_unverified:
  assumes "verify_ogm C P payload s = (r, s')" "r \<noteq> Verified"
  shows "\<exists>k. s' = s\<lparr>oa_ogm_crypto_ops := k\<rparr>"
proof -
  define Q where "Q t \<longleftrightarrow> (\<exists>k. t = s\<lparr>oa_ogm_crypto_ops := k\<rparr>)" for t
  have same: "Q s" unfolding Q_def by (intro exI [of _ "oa_ogm_crypto_ops s"]) simp
  have judge: "Q s1" if "judge_cert C orig cb cert seqno sig s = (r, s1)" for orig cb cert seqno sig r s1
    using judge_cert_state [OF that] by (simp add: Q_def)
  have check: "Q s2" if "check_ogm_signature C ed orig q cb sig s1 = (b, s2)" "Q s1" for ed orig q cb sig s1 s2 b
    using that by (auto simp: Q_def check_ogm_signature_def crypto_op_def split: option.splits)
  have "Q s'"
    using assms same unfolding verify_ogm_def Let_def
    by (auto split: if_split_asm option.split_asm sum.split_asm prod.split_asm bool.split_asm dest: judge check)
  then show ?thesis by (simp add: Q_def)
qed

lemma verify_ogm_auth_ok [simp]:
  assumes "auth_ok C P s"
  shows "auth_ok C P (snd (verify_ogm C P payload s))"
proof (cases "verify_ogm C P payload s")
  case (Pair r s')
  show ?thesis
  proof (cases "r = Verified")
    case True
    with Pair have v: "verify_ogm C P payload s = (Verified, s')" by simp
    show ?thesis
    proof (rule verify_ogm_Verified [OF assms v])
      fix cert pad m sig key k cb rest
      assume "s' = ingest_revocations_from_tail C P (drop OGM_HDR payload)
           (snd (cache_neighbor P \<lparr>nk_cert = verified_facts cert, nk_pairwise_key = key, nk_raw_cert = cert,
              nk_last_ogm = Some (take 4 (drop SEQNO_OFF payload), sig)\<rparr> (s\<lparr>oa_ogm_crypto_ops := k\<rparr>)))"
        "vouched C (oa_anchor s) (oa_keypair s) \<lparr>nk_cert = verified_facts cert, nk_pairwise_key = key, nk_raw_cert = cert,
          nk_last_ogm = Some (take 4 (drop SEQNO_OFF payload), sig)\<rparr>"
      with Pair assms cache_neighbor_auth_ok [of C P "s\<lparr>oa_ogm_crypto_ops := k\<rparr>"] show ?thesis by simp
    qed
  next
    case False
    with verify_ogm_unverified [OF Pair] Pair assms show ?thesis by auto
  qed
qed

section \<open>Certificate fetches and renewal\<close>

lemma track_request_state:
  assumes "vec_ok (ap_in_flight P) if_orig (oa_in_flight s)"
  shows "\<exists>rs. snd (track_request P orig fp hop s) = s\<lparr>oa_in_flight := rs\<rparr> \<and> vec_ok (ap_in_flight P) if_orig rs"
proof (cases "find (\<lambda>r. if_orig r = orig) (oa_in_flight s)")
  case (Some e)
  then have e: "e \<in> set (oa_in_flight s)" "if_orig e = orig" using find_keyed_in [OF Some] by auto
  have "\<exists>e'. if_orig e' = orig \<and> snd (track_request P orig fp hop s)
      = (case update_first (\<lambda>r. if_orig r = orig) (\<lambda>_. e') (oa_in_flight s) of Some rs \<Rightarrow> s\<lparr>oa_in_flight := rs\<rparr> | None \<Rightarrow> s)"
    unfolding track_request_def Some Let_def using e(2) by (simp only: option.case snd_conv) (intro exI conjI, rule_tac [2] refl, simp)
  then obtain e' where e': "if_orig e' = orig" "snd (track_request P orig fp hop s)
      = (case update_first (\<lambda>r. if_orig r = orig) (\<lambda>_. e') (oa_in_flight s) of Some rs \<Rightarrow> s\<lparr>oa_in_flight := rs\<rparr> | None \<Rightarrow> s)"
    by blast
  obtain rs where rs: "update_first (\<lambda>r. if_orig r = orig) (\<lambda>_. e') (oa_in_flight s) = Some rs"
    using e by (cases "update_first (\<lambda>r. if_orig r = orig) (\<lambda>_. e') (oa_in_flight s)") (auto simp: update_first_None)
  then have "vec_ok (ap_in_flight P) if_orig rs" using e'(1) by (intro vec_ok_update_first [OF assms rs]) simp
  with e'(2) rs show ?thesis by auto
next
  case None
  define entry where "entry = \<lparr>if_orig = orig, if_fp = fp, if_first_hop = hop, if_attempts = 1,
    if_next_attempt = oa_now s + CERT_REQUEST_RETRY\<rparr>"
  have new: "if_orig entry \<notin> if_orig ` set (oa_in_flight s)" using None by (auto simp: entry_def find_None_iff)
  show ?thesis
  proof (cases "vec_push (ap_in_flight P) entry (oa_in_flight s)")
    case (Some rs)
    with None vec_ok_push [OF assms new Some] show ?thesis by (auto simp: track_request_def entry_def Let_def)
  next
    case full: None
    with None assms show ?thesis
      by (intro exI [of _ "oa_in_flight s"]) (simp add: track_request_def entry_def [symmetric] Let_def)
  qed
qed

lemma build_cert_request_auth_ok [simp]:
  assumes "auth_ok C P s"
  shows "auth_ok C P (snd (build_cert_request C' P orig fp hop buf s))"
proof -
  have "auth_ok C P (snd (track_request P orig fp hop s))"
    using track_request_state [OF tables_okD(9) [OF auth_okD(1) [OF assms]]] auth_ok_parts(4) [OF assms] by metis
  moreover have "snd (build_cert_request C' P orig fp hop buf s) = snd (track_request P orig fp hop s)"
    by (auto simp: build_cert_request_def Let_def split: prod.splits bool.splits)
  ultimately show ?thesis by simp
qed

lemma build_cert_req_frame_auth_ok [simp]: "auth_ok C P s \<Longrightarrow> auth_ok C P (snd (build_cert_req_frame C' P orig fp hop tx s))"
  using build_cert_request_auth_ok [of C P s C' orig fp hop "drop ROUTED_SIZE tx"]
  by (auto simp: build_cert_req_frame_def split: prod.splits option.splits simp del: build_cert_request_auth_ok)

lemma vouched_without_memo:
  assumes "cert_read body = Some (cert, rest)" "verify_cert C a cert now = Inr v" "pairwise_key C k (vc_x_pubkey v) = Inr key"
  shows "vouched C a k \<lparr>nk_cert = v, nk_pairwise_key = key, nk_raw_cert = cert, nk_last_ogm = None\<rparr>"
  using cert_write_read [OF assms(1)] verify_cert_Inr [THEN iffD1, OF assms(2)] assms(3) by (simp add: vouched_def memo_ok_def)

lemma ingest_cert_reply_auth_ok [simp]:
  assumes "auth_ok C P s"
  shows "auth_ok C P (snd (ingest_cert_reply C P body s))"
proof (cases "fst (ingest_cert_reply C P body s)")
  case True
  then obtain cert rest v pos key where c: "cert_read body = Some (cert, rest)"
      "verify_cert C (oa_anchor s) cert (oa_wall s) = Inr v" "position (\<lambda>r. if_orig r = vc_mac v) (oa_in_flight s) = Some pos"
      "pairwise_key C (oa_keypair s) (vc_x_pubkey v) = Inr key"
      "fst (cache_neighbor P \<lparr>nk_cert = v, nk_pairwise_key = key, nk_raw_cert = cert, nk_last_ogm = None\<rparr> s) = Stored"
    by (auto simp: ingest_cert_reply_def split: option.splits sum.splits prod.splits cached.splits)
  define s1 where "s1 = snd (cache_neighbor P \<lparr>nk_cert = v, nk_pairwise_key = key, nk_raw_cert = cert, nk_last_ogm = None\<rparr> s)"
  have ok: "auth_ok C P s1" unfolding s1_def by (rule cache_neighbor_auth_ok [OF assms vouched_without_memo [OF c(1,2,4)]])
  have "oa_in_flight s1 = oa_in_flight s"
    using tables_okD(1) [OF auth_okD(1) [OF assms]]
    by (cases rule: cache_neighbor_cases [where k = "\<lparr>nk_cert = v, nk_pairwise_key = key, nk_raw_cert = cert, nk_last_ogm = None\<rparr>"])
      (simp_all add: s1_def)
  then have "vec_ok (ap_in_flight P) if_orig (vec_swap_remove pos (oa_in_flight s1))"
    using position_Some [OF c(3)] tables_okD(9) [OF auth_okD(1) [OF assms]] by (intro vec_ok_swap_remove) auto
  with auth_ok_parts(4) [OF ok] have "auth_ok C P (s1\<lparr>oa_in_flight := vec_swap_remove pos (oa_in_flight s1)\<rparr>)" by blast
  then show ?thesis
    using c unfolding s1_def ingest_cert_reply_def by (auto split: prod.splits cached.splits)
next
  case False
  have refused: "t = s" if "cache_neighbor P k s = (RefusedLiveIdentity, t)" for k t
    using that by (auto simp: cache_neighbor_def Let_def split: if_splits)
  from False have "snd (ingest_cert_reply C P body s) = s"
    unfolding ingest_cert_reply_def
    by (auto split: option.split_asm sum.split_asm prod.split_asm cached.split_asm option.split sum.split prod.split cached.split dest: refused)
  with assms show ?thesis by simp
qed

lemma rate_limited_ok:
  assumes "im_ok cap rates" "rate_limited cap limit now m rates = Some rates'"
  shows "im_ok cap rates'"
proof (cases "im_get rates m")
  case None
  then have "m \<notin> fst ` set rates" by (simp add: im_get_def map_of_eq_None_iff)
  with None assms show ?thesis
    by (auto simp: rate_limited_def vec_push_def im_ok_def im_keys_def split: if_splits list.splits)
qed (use assms in \<open>auto simp: rate_limited_def split: if_splits\<close>)

lemma verify_cert_request_auth_ok [simp]:
  assumes "auth_ok C P s"
  shows "auth_ok C P (snd (verify_cert_request C P body s))"
proof -
  have rate: "auth_ok C P s1" if "accept_cert_request_rate P m s = (b, s1)" for m b s1
    using that assms rate_limited_ok [OF tables_okD(11) [OF auth_okD(1) [OF assms]]] auth_ok_parts(6) [OF assms]
    by (auto simp: accept_cert_request_rate_def split: option.splits)
  have frame: "oa_anchor s1 = oa_anchor s" "oa_keypair s1 = oa_keypair s" if "accept_cert_request_rate P m s = (b, s1)" for m b s1
    using that by (auto simp: accept_cert_request_rate_def split: option.splits)
  have "auth_ok C P (snd (cache_neighbor P \<lparr>nk_cert = v, nk_pairwise_key = key, nk_raw_cert = cert, nk_last_ogm = None\<rparr> s1))"
    if "accept_cert_request_rate P m s = (b, s1)" "cert_read bs = Some (cert, rest)"
      "verify_cert C (oa_anchor s) cert (oa_wall s) = Inr v" "pairwise_key C (oa_keypair s1) (vc_x_pubkey v) = Inr key"
    for m b s1 cert rest v key bs
    using vouched_without_memo [OF that(2,3)] that(4) frame [OF that(1)]
    by (intro cache_neighbor_auth_ok rate [OF that(1)]) simp
  with rate assms show ?thesis
    unfolding verify_cert_request_def Let_def
    by (auto split: option.splits sum.splits prod.splits bool.splits)
qed

lemma park_pending_reply_auth_ok [simp]:
  assumes "auth_ok C P s"
  shows "auth_ok C P (park_pending_reply P m s)"
proof -
  note pr = tables_okD(10) [OF auth_okD(1) [OF assms]]
  define entry where "entry = \<lparr>pr_requester = m, pr_parked = oa_now s\<rparr>"
  show ?thesis
  proof (cases "update_first (\<lambda>p. pr_requester p = m) (\<lambda>p. p\<lparr>pr_parked := oa_now s\<rparr>) (oa_pending_replies s)")
    case (Some ps)
    have "vec_ok (ap_pending_replies P) pr_requester ps" by (rule vec_ok_update_first [OF pr Some]) simp
    with Some auth_ok_parts(5) [OF assms] show ?thesis by (simp add: park_pending_reply_def)
  next
    case None
    then have new: "pr_requester entry \<notin> pr_requester ` set (oa_pending_replies s)" by (simp add: entry_def update_first_absent)
    show ?thesis
    proof (cases "vec_push (ap_pending_replies P) entry (oa_pending_replies s)")
      case (Some ps)
      with None auth_ok_parts(5) [OF assms vec_ok_push [OF pr new Some]] show ?thesis
        by (simp add: park_pending_reply_def entry_def Let_def)
    next
      case full: None
      from vec_ok_set [OF pr new, of 0] None full assms auth_ok_parts(5) [OF assms] show ?thesis
        by (cases "oa_pending_replies s") (simp_all add: park_pending_reply_def entry_def Let_def)
    qed
  qed
qed

lemma clear_pending_reply_auth_ok [simp]: "auth_ok C P s \<Longrightarrow> auth_ok C P (clear_pending_reply m s)"
  unfolding clear_pending_reply_def by (intro auth_ok_parts(5) vec_ok_remove_first tables_okD(10) auth_okD(1))

lemma answer_cert_request_auth_ok [simp]:
  "auth_ok C P s \<Longrightarrow> auth_ok C P (snd (snd (answer_cert_request C P hop body reply s)))"
  using verify_cert_request_auth_ok [of C P s body]
  by (auto simp: answer_cert_request_def Let_def split: prod.splits option.splits simp del: verify_cert_request_auth_ok)

lemma flush_pending_auth_ok [simp]: "auth_ok C P s \<Longrightarrow> auth_ok C P (snd (snd (flush_pending_cert_reply hop orig reply s)))"
  by (auto simp: flush_pending_cert_reply_def Let_def split: option.splits)

lemma build_renewal_request_auth_ok:
  assumes "auth_ok C P s" "build_renewal_request C' buf s = Some (r, s')"
  shows "auth_ok C P s'"
  using assms by (auto simp: build_renewal_request_def Let_def split: option.splits if_splits)

lemma build_renewal_request_returns: "crypto_ok C \<Longrightarrow> build_renewal_request C buf s \<noteq> None"
proof -
  assume "crypto_ok C"
  then obtain key where "nonce_prf_key C (s\<lparr>oa_challenge_counter := oa_challenge_counter s + 1\<rparr>) = Some key"
    by (rule nonce_prf_key_Some)
  then show ?thesis by (simp add: build_renewal_request_def Let_def split: option.splits)
qed

lemma verify_renewal_request_state:
  "\<exists>rates. snd (verify_renewal_request C P body s) = s\<lparr>oa_renew_req_rate := rates\<rparr>
     \<and> (im_ok (ap_neighbor_keys P) (oa_renew_req_rate s) \<longrightarrow> im_ok (ap_neighbor_keys P) rates)"
proof -
  define Q where "Q t \<longleftrightarrow> (\<exists>rates. t = s\<lparr>oa_renew_req_rate := rates\<rparr>
     \<and> (im_ok (ap_neighbor_keys P) (oa_renew_req_rate s) \<longrightarrow> im_ok (ap_neighbor_keys P) rates))" for t
  have same: "Q s" unfolding Q_def by (intro exI [of _ "oa_renew_req_rate s"]) simp
  have "Q s1" if "accept_renewal_request_rate P m s = (b, s1)" for m b s1
    using that same rate_limited_ok by (auto simp: Q_def accept_renewal_request_rate_def split: option.splits)
  with same have "Q (snd (verify_renewal_request C P body s))"
    unfolding verify_renewal_request_def Let_def by (auto split: option.splits sum.splits prod.splits bool.splits)
  then show ?thesis by (simp add: Q_def)
qed

lemma handle_renew_req_auth_ok [simp]:
  assumes "auth_ok C P s"
  shows "auth_ok C P (snd (verify_renewal_request C' P body s))" "auth_ok C P (handle_renew_req C' P body s)"
proof -
  obtain rates where "snd (verify_renewal_request C' P body s) = s\<lparr>oa_renew_req_rate := rates\<rparr>"
      "im_ok (ap_neighbor_keys P) rates"
    using verify_renewal_request_state tables_okD(12) [OF auth_okD(1) [OF assms]] by blast
  with auth_ok_parts(7) [OF assms] show ok: "auth_ok C P (snd (verify_renewal_request C' P body s))" by simp
  then show "auth_ok C P (handle_renew_req C' P body s)"
    by (auto simp: handle_renew_req_def split: prod.splits option.splits)
qed

text \<open>A renewal replaces the credential only by a later one for the same identity.\<close>

lemma ingest_renew_reply_cases:
  obtains (refused) "ingest_renew_reply C body s = (False, s)"
  | (installed) cert rest v where "cert_read body = Some (cert, rest)" "verify_cert C (oa_anchor s) cert (oa_wall s) = Inr v"
      "ct_node_mac cert = ct_node_mac (oa_cert s)" "ct_ed_pubkey cert = ct_ed_pubkey (oa_cert s)"
      "ct_not_after (oa_cert s) < ct_not_after cert" "ct_not_before (oa_cert s) \<le> ct_not_before cert"
      "ingest_renew_reply C body s = (True, s\<lparr>oa_cert := cert, oa_outstanding_renewal := None, oa_pending_renewed_cert := Some cert,
         oa_renewal_replies_accepted := saturating_add (oa_renewal_replies_accepted s) 1\<rparr>)"
      "oa_outstanding_renewal s \<noteq> None"
proof (cases "fst (ingest_renew_reply C body s)")
  case True
  then obtain cert rest v where c: "cert_read body = Some (cert, rest)" "verify_cert C (oa_anchor s) cert (oa_wall s) = Inr v"
      "vc_mac v = ct_node_mac (oa_cert s)" "vc_ed_pubkey v = ct_ed_pubkey (oa_cert s)"
      "ct_not_after (oa_cert s) < ct_not_after cert" "ct_not_before (oa_cert s) \<le> ct_not_before cert" "oa_outstanding_renewal s \<noteq> None"
      "ingest_renew_reply C body s = (True, s\<lparr>oa_cert := cert, oa_outstanding_renewal := None, oa_pending_renewed_cert := Some cert,
         oa_renewal_replies_accepted := saturating_add (oa_renewal_replies_accepted s) 1\<rparr>)"
    unfolding ingest_renew_reply_def Let_def by (auto simp: not_le split: option.split_asm sum.split_asm if_split_asm)
  with installed verify_cert_facts(2,3) [OF c(2)] show thesis by metis
next
  case False
  then have "ingest_renew_reply C body s = (False, s)"
    unfolding ingest_renew_reply_def Let_def by (auto split: option.splits sum.splits)
  then show thesis by (rule refused)
qed

lemma ingest_renew_reply_auth_ok [simp]:
  assumes "auth_ok C P s"
  shows "auth_ok C P (snd (ingest_renew_reply C body s))"
proof (cases rule: ingest_renew_reply_cases [where C = C and body = body and s = s])
  case (installed cert rest v)
  have "member C (oa_keypair s) cert (oa_anchor s)"
    using auth_okD(2) [OF assms] installed(4) cert_write_read [OF installed(1)] verify_cert_Inr [THEN iffD1, OF installed(2)]
    by (auto simp: member_def)
  with assms installed(3) have "auth_ok C P (s\<lparr>oa_cert := cert\<rparr>)" by (simp add: auth_ok_def)
  with installed(7) show ?thesis by simp
qed (use assms in simp)

lemma poll_renewal_auth_ok:
  assumes "auth_ok C P s" "poll_renewal C' now hop tx s = Some (r, s')"
  shows "auth_ok C P s'"
  using assms by (auto simp: poll_renewal_def Let_def split: if_splits option.splits dest!: build_renewal_request_auth_ok [rotated])

lemma poll_renewal_returns: "crypto_ok C \<Longrightarrow> poll_renewal C now hop tx s \<noteq> None"
  using build_renewal_request_returns [of C "drop ROUTED_SIZE tx" "s\<lparr>oa_next_renewal_poll := now + RENEWAL_POLL_INTERVAL\<rparr>"]
  by (auto simp: poll_renewal_def Let_def split: option.splits)

section \<open>A mesh for examples\<close>

lemma issued_member:
  assumes "crypto_ok C" "nb \<le> na"
  shows "member C k (issue_cert C a (derived_mac C k) (ed_pubkey C k) (x_pubkey C k) nb na) (trust_anchor_of C a)"
proof -
  let ?cert = "issue_cert C a (derived_mac C k) (ed_pubkey C k) (x_pubkey C k) nb na"
  have "cert_ok ?cert" using assms by (simp add: issue_cert_def issued_ok)
  moreover have "ct_ed_pubkey ?cert = ed_pubkey C k" by (simp add: issue_cert_def issue_with_flags_def Let_def)
  moreover have "\<exists>v. verify_cert C (trust_anchor_of C a) ?cert Unknown = Inr v"
    using issued_cert_accepted(2) [OF assms(1), of Unknown nb nb na a k] assms(2) by auto
  ultimately show ?thesis by (simp add: member_def)
qed

definition demo_root :: authority where
  "demo_root = authority_from_seed toy_crypto (replicate 32 1) 7"

definition demo_key :: "u8 \<Rightarrow> keypair" where
  "demo_key n = keypair_from_seed toy_crypto (replicate 32 n)"

definition demo_cert :: "u8 \<Rightarrow> membership_cert" where
  "demo_cert n = issue_cert toy_crypto demo_root (derived_mac toy_crypto (demo_key n))
     (ed_pubkey toy_crypto (demo_key n)) (x_pubkey toy_crypto (demo_key n)) 100 200"

definition demo_node :: "u8 \<Rightarrow> ogm_auth" where
  "demo_node n = with_capacities (demo_key n) (demo_cert n) (trust_anchor_of toy_crypto demo_root)"

lemma demo_node_ok [simp]: "auth_ok toy_crypto P (demo_node n)"
  unfolding demo_node_def demo_cert_def by (intro with_capacities_auth_ok issued_member toy_crypto_ok) simp

lemma demo_mac: "derived_mac toy_crypto (demo_key n) = Mac ((n AND 0xFE) OR 0x02) n n n n n"
  by (simp add: derived_mac_def derive_mac_def ed_pubkey_def demo_key_def keypair_from_seed_def toy_crypto_def mac_at_def)

end
