(* ===== verification/Revocation_Flood.thy ===== *)
theory Revocation_Flood
  imports Auth_Trust
begin

text \<open>
  What a revocation achieves. The set of records a node holds stands for a map from addresses to the latest
  revocation instant known, which every record can only raise; so nodes that saw the same records agree,
  whatever the order. A learned record takes away the keys of its subject and refuses its announcements.
\<close>

section \<open>Knowledge that only grows\<close>

text \<open>
  The contract of a store that keeps, for every key, the greatest value it was told. Clients rely on the
  order and the repetitions of what they tell it not mattering.
\<close>

locale grow_only =
  fixes invar :: "'s \<Rightarrow> bool"
    and valid :: "'r \<Rightarrow> bool"
    and known :: "'s \<Rightarrow> 'k \<Rightarrow> 'v::linorder"
    and key :: "'r \<Rightarrow> 'k"
    and val :: "'r \<Rightarrow> 'v"
    and learn :: "'r \<Rightarrow> 's \<Rightarrow> 's"
  assumes learn_max: "invar s \<Longrightarrow> valid r \<Longrightarrow>
      invar (learn r s) \<and> known (learn r s) = (known s)(key r := max (known s (key r)) (val r))"
begin

lemma learned_all:
  assumes "invar s" "\<forall>r\<in>set rs. valid r"
  shows "invar (fold learn rs s)
    \<and> known (fold learn rs s) k = Max (insert (known s k) (val ` {r \<in> set rs. key r = k}))"
  using assms
proof (induction rs arbitrary: s)
  case (Cons r rs)
  let ?s = "learn r s"
  have l: "invar ?s" "known ?s = (known s)(key r := max (known s (key r)) (val r))"
    using learn_max Cons.prems by auto
  from Cons.IH [OF l(1)] Cons.prems
  have ih: "invar (fold learn rs ?s)" "known (fold learn rs ?s) k = Max (insert (known ?s k) (val ` {r \<in> set rs. key r = k}))"
    by auto
  show ?case
  proof (cases "key r = k")
    case True
    define A where "A = val ` {r \<in> set rs. key r = k}"
    have "finite A" by (simp add: A_def)
    then have "Max (insert (max (known s k) (val r)) A) = Max (insert (known s k) (insert (val r) A))"
      by (cases "A = {}") (simp_all add: max.assoc)
    moreover have "val ` {r' \<in> set (r # rs). key r' = k} = insert (val r) A" using True by (auto simp: A_def)
    ultimately show ?thesis using ih l(2) True by (simp add: A_def)
  next
    case False
    then have "{r' \<in> set (r # rs). key r' = k} = {r \<in> set rs. key r = k}" by auto
    with ih l(2) False show ?thesis by simp
  qed
qed simp

end

section \<open>The records held, as a map\<close>

definition instants :: "ogm_auth \<Rightarrow> mac \<Rightarrow> u64" where
  "instants s m = (case find (\<lambda>r. kr_mac r = m) (oa_revocations s) of Some r \<Rightarrow> rv_not_before (kr_record r) | None \<Rightarrow> 0)"

text \<open>A node that judges records under one anchor, clock and address, with room for every address in \<open>K\<close>.\<close>

definition enforcing ::
    "crypto \<Rightarrow> auth_profile \<Rightarrow> trust_anchor \<Rightarrow> clocked \<Rightarrow> mac \<Rightarrow> mac set \<Rightarrow> ogm_auth \<Rightarrow> bool" where
  "enforcing C P a w own K s \<longleftrightarrow> auth_ok C P s \<and> oa_anchor s = a \<and> oa_wall s = w \<and> ct_node_mac (oa_cert s) = own
     \<and> finite K \<and> card K \<le> ap_revoked P \<and> set (revoked_macs s) \<subseteq> K"

definition acceptable ::
    "crypto \<Rightarrow> trust_anchor \<Rightarrow> clocked \<Rightarrow> mac \<Rightarrow> mac set \<Rightarrow> revocation_record \<Rightarrow> bool" where
  "acceptable C a w own K r \<longleftrightarrow> verify_revocation C a r (unix_or_zero w) = Inr (rv_node_mac r)
     \<and> rv_node_mac r \<noteq> own \<and> revocation_ok r \<and> rv_node_mac r \<in> K"

lemma instants_held:
  "distinct (map kr_mac (oa_revocations s)) \<Longrightarrow> r \<in> set (oa_revocations s) \<Longrightarrow> instants s (kr_mac r) = rv_not_before (kr_record r)"
  using find_keyed_iff [of kr_mac "oa_revocations s" "kr_mac r" r] by (simp add: instants_def)

lemma instants_none: "m \<notin> kr_mac ` set (oa_revocations s) \<Longrightarrow> instants s m = 0"
  using find_keyed_None [of kr_mac m "oa_revocations s"] by (simp add: instants_def)

lemma instants_cong:
  assumes "distinct (map kr_mac (oa_revocations s))" "distinct (map kr_mac (oa_revocations t))"
    and "\<And>r. kr_mac r = m \<Longrightarrow> r \<in> set (oa_revocations s) \<longleftrightarrow> r \<in> set (oa_revocations t)"
  shows "instants s m = instants t m"
  using find_keyed_cong [OF assms] by (simp add: instants_def)

lemma revocations_evict [simp]: "oa_revocations (evict_neighbor m s) = oa_revocations s"
  "oa_anchor (evict_neighbor m s) = oa_anchor s" "oa_wall (evict_neighbor m s) = oa_wall s"
  "oa_cert (evict_neighbor m s) = oa_cert s" "oa_keypair (evict_neighbor m s) = oa_keypair s"
  by (rule evict_neighbor_cases [of m s], simp)+

lemma ingest_learns:
  assumes "enforcing C P a w own K s" "acceptable C a w own K rc"
  shows "enforcing C P a w own K (snd (ingest_revocation C P rc s))
    \<and> instants (snd (ingest_revocation C P rc s)) = (instants s)(rv_node_mac rc := max (instants s (rv_node_mac rc)) (rv_not_before rc))"
proof -
  have s: "auth_ok C P s" "oa_anchor s = a" "oa_wall s = w" "ct_node_mac (oa_cert s) = own" "finite K"
      "card K \<le> ap_revoked P" "kr_mac ` set (oa_revocations s) \<subseteq> K"
    using assms(1) by (auto simp: enforcing_def revoked_macs_def)
  have rc: "verify_revocation C (oa_anchor s) rc (unix_or_zero (oa_wall s)) = Inr (rv_node_mac rc)"
      "rv_node_mac rc \<noteq> ct_node_mac (oa_cert s)" "revocation_ok rc" "rv_node_mac rc \<in> K"
    using assms(2) s by (auto simp: acceptable_def)
  have v: "vec_ok (ap_revoked P) kr_mac (oa_revocations s)" by (rule tables_okD(5) [OF auth_okD(1) [OF s(1)]])
  then have d: "distinct (map kr_mac (oa_revocations s))" by (simp add: vec_ok_def)
  have ok: "auth_ok C P (snd (ingest_revocation C P rc s))" using s(1) rc(3) by simp
  from v show ?thesis
  proof (cases rule: ingest_revocation_cases [where C = C and rc = rc])
    case refused
    then obtain r where r: "r \<in> set (oa_revocations s)" "kr_mac r = rv_node_mac rc" "rv_not_before rc \<le> rv_not_before (kr_record r)"
      using rc(1) by blast
    with instants_held [OF d r(1)] have "(instants s)(rv_node_mac rc := max (instants s (rv_node_mac rc)) (rv_not_before rc)) = instants s"
      by (simp add: fun_upd_idem_iff max_def)
    with refused(1) assms(1) show ?thesis by simp
  next
    case selfish
    with rc show ?thesis by simp
  next
    case (learned rs)
    let ?k = "\<lparr>kr_record = rc, kr_floods_left = REVOKE_FLOOD_BUDGET\<rparr>"
    have room: "rv_node_mac rc \<in> kr_mac ` set (oa_revocations s) \<or> length (oa_revocations s) < ap_revoked P"
    proof (rule disjCI)
      assume "\<not> length (oa_revocations s) < ap_revoked P"
      then have "card K \<le> card (kr_mac ` set (oa_revocations s))" using s(6) d by (metis distinct_card length_map list.set_map not_le_imp_less order_trans nat_le_linear)
      with s(5,7) have "kr_mac ` set (oa_revocations s) = K" by (metis card_seteq)
      with rc(4) show "rv_node_mac rc \<in> kr_mac ` set (oa_revocations s)" by simp
    qed
    have pos: "0 < ap_revoked P" using rc(4) s(5,6) by (metis card_gt_0_iff empty_iff order_less_le_trans)
    have rs: "?k \<in> set rs" "{r \<in> set (oa_revocations s). kr_mac r \<noteq> rv_node_mac rc} \<subseteq> set rs" "distinct (map kr_mac rs)"
      using learned(4,6,7) pos room by (auto simp: vec_ok_def)
    define t where "t = snd (ingest_revocation C P rc s)"
    have t: "oa_revocations t = rs" "oa_anchor t = a" "oa_wall t = w" "ct_node_mac (oa_cert t) = own"
      using learned(1) s(2-4) by (simp_all add: t_def)
    have "instants t m = (if m = rv_node_mac rc then rv_not_before rc else instants s m)" for m
    proof (cases "m = rv_node_mac rc")
      case True
      then show ?thesis using instants_held [of t ?k] t rs by simp
    next
      case False
      have "r \<in> set rs \<longleftrightarrow> r \<in> set (oa_revocations s)" if "kr_mac r = m" for r
        using that False rs(2) learned(5) by auto
      with False show ?thesis using instants_cong [of t s m] t d rs(3) by simp
    qed
    moreover have "instants s (rv_node_mac rc) \<le> rv_not_before rc"
    proof (cases "rv_node_mac rc \<in> kr_mac ` set (oa_revocations s)")
      case True
      then obtain r where "r \<in> set (oa_revocations s)" "kr_mac r = rv_node_mac rc" by auto
      with learned(8) instants_held [OF d, of r] show ?thesis by auto
    qed (simp add: instants_none)
    ultimately have "instants t = (instants s)(rv_node_mac rc := max (instants s (rv_node_mac rc)) (rv_not_before rc))"
      by (auto simp: fun_eq_iff max_def)
    moreover have "set (revoked_macs t) \<subseteq> K"
      using learned(5) s(7) rc(4) by (fastforce simp: revoked_macs_def t)
    ultimately show ?thesis using ok t s(5,6) unfolding t_def [symmetric] enforcing_def by blast
  qed
qed

interpretation revocation_set: grow_only "enforcing C P a w own K" "acceptable C a w own K" instants rv_node_mac rv_not_before
    "\<lambda>r s. snd (ingest_revocation C P r s)" for C P a w own K
  by unfold_locales (rule ingest_learns)

section \<open>Properties\<close>

text \<open>
  C24. Revocation knowledge converges. Two nodes of one mesh, with clocks and capacities of their own, that
  hold the same instants and then ingest the same records, in any order and any number of times, hold the
  same instants afterwards: for every address the latest of the instant held before and those of the
  records naming it.
\<close>

theorem revocations_converge:
  assumes "enforcing C P a w own K s" "enforcing C Q a w' own' K t" "instants s = instants t" "set rs = set rs'"
    and "\<forall>r\<in>set rs. acceptable C a w own K r \<and> acceptable C a w' own' K r"
  shows "instants (fold (\<lambda>r s. snd (ingest_revocation C P r s)) rs s)
      = instants (fold (\<lambda>r s. snd (ingest_revocation C Q r s)) rs' t)
    \<and> (\<forall>m. instants (fold (\<lambda>r s. snd (ingest_revocation C P r s)) rs s) m
         = Max (insert (instants s m) (rv_not_before ` {r \<in> set rs. rv_node_mac r = m})))"
proof -
  have "instants (fold (\<lambda>r s. snd (ingest_revocation C P r s)) rs s) m
      = Max (insert (instants s m) (rv_not_before ` {r \<in> set rs. rv_node_mac r = m}))"
    "instants (fold (\<lambda>r s. snd (ingest_revocation C Q r s)) rs' t) m
      = Max (insert (instants t m) (rv_not_before ` {r \<in> set rs'. rv_node_mac r = m}))" for m
    using revocation_set.learned_all [OF assms(1)] revocation_set.learned_all [OF assms(2)] assms(4,5) by auto
  with assms(3,4) show ?thesis by (auto simp: fun_eq_iff)
qed


lemma demo_acceptable:
  assumes "own \<noteq> m" "m \<in> K" "nb \<noteq> 0" "unix_or_zero w < na"
  shows "acceptable toy_crypto (trust_anchor_of toy_crypto demo_root) w own K (revoke toy_crypto demo_root m nb na)"
proof -
  have ok: "revocation_ok (revoke toy_crypto demo_root m nb na)"
    using length_sign [OF toy_crypto_ok] by (simp add: revoke_def Let_def revocation_ok_def)
  have "revocation_signed_body (revoke toy_crypto demo_root m nb na)
      = revocation_signed_body \<lparr>rv_version = REVOKE_VERSION, rv_flags = 0, rv_mesh_id = au_mesh_id demo_root, rv_node_mac = m,
          rv_not_before = nb, rv_not_after = na, rv_signature = replicate 64 0\<rparr>"
    using length_sign [OF toy_crypto_ok]
    by (simp add: revoke_def Let_def revocation_signed_body_def revocation_write_def REVOKE_LEN_def)
  then show ?thesis
    using assms ok sign_verifies [OF toy_crypto_ok]
    by (simp add: acceptable_def verify_revocation_def trust_anchor_of_def not_le) (simp add: revoke_def Let_def)
qed

theorem revocations_converge_witness:
  "let m = Mac 2 9 9 9 9 9; old = revoke toy_crypto demo_root m 120 300; new = revoke toy_crypto demo_root m 150 300;
       P = default_auth_profile
   in instants (fold (\<lambda>r s. snd (ingest_revocation toy_crypto P r s)) [old, new] (demo_node 4)) m = 150
      \<and> instants (fold (\<lambda>r s. snd (ingest_revocation toy_crypto P r s)) [new, old, new] (set_time 5 (At 130) (demo_node 8))) m = 150"
proof -
  let ?m = "Mac 2 9 9 9 9 9" and ?P = default_auth_profile and ?a = "trust_anchor_of toy_crypto demo_root"
  let ?old = "revoke toy_crypto demo_root ?m 120 300" and ?new = "revoke toy_crypto demo_root ?m 150 300"
  have macs: "ct_node_mac (oa_cert (demo_node n)) = Mac ((n AND 0xFE) OR 0x02) n n n n n" for n
    by (simp add: demo_node_def with_capacities_def demo_cert_def issue_cert_def issue_with_flags_def Let_def demo_mac)
  have e4: "enforcing toy_crypto ?P ?a Unknown (Mac 6 4 4 4 4 4) {?m} (demo_node 4)"
    using macs [of 4] by (simp add: enforcing_def) (simp add: demo_node_def with_capacities_def revoked_macs_def default_auth_profile_def MAX_REVOKED_def)
  have e8: "enforcing toy_crypto ?P ?a (At 130) (Mac 10 8 8 8 8 8) {?m} (set_time 5 (At 130) (demo_node 8))"
    using macs [of 8]
    by (simp add: enforcing_def)
       (simp add: demo_node_def with_capacities_def revoked_macs_def default_auth_profile_def MAX_REVOKED_def set_time_def
          reclaim_bookkeeping_def prune_expired_def evict_expired_neighbors_def Let_def drop_from.simps)
  have "\<forall>r\<in>set [?old, ?new]. acceptable toy_crypto ?a Unknown (Mac 6 4 4 4 4 4) {?m} r
      \<and> acceptable toy_crypto ?a (At 130) (Mac 10 8 8 8 8 8) {?m} r"
    by (auto intro!: demo_acceptable simp: unix_or_zero_def)
  moreover have "instants (demo_node 4) = instants (set_time 5 (At 130) (demo_node 8))"
    by (simp add: fun_eq_iff instants_def demo_node_def with_capacities_def set_time_def
          reclaim_bookkeeping_def prune_expired_def evict_expired_neighbors_def Let_def drop_from.simps)
  ultimately have c: "instants (fold (\<lambda>r s. snd (ingest_revocation toy_crypto ?P r s)) [?old, ?new] (demo_node 4))
        = instants (fold (\<lambda>r s. snd (ingest_revocation toy_crypto ?P r s)) [?new, ?old, ?new] (set_time 5 (At 130) (demo_node 8)))
      \<and> (\<forall>m. instants (fold (\<lambda>r s. snd (ingest_revocation toy_crypto ?P r s)) [?old, ?new] (demo_node 4)) m
         = Max (insert (instants (demo_node 4) m) (rv_not_before ` {r \<in> set [?old, ?new]. rv_node_mac r = m})))"
    by (intro revocations_converge [OF e4 e8]) auto
  have "{r \<in> set [?old, ?new]. rv_node_mac r = ?m} = {?old, ?new}" by (auto simp: revoke_def Let_def)
  then have "Max (insert (instants (demo_node 4) ?m) (rv_not_before ` {r \<in> set [?old, ?new]. rv_node_mac r = ?m})) = 150"
    by (simp add: instants_def demo_node_def with_capacities_def) (simp add: revoke_def Let_def)
  note four = trans [OF c [THEN conjunct2, rule_format, of ?m] this]
  show ?thesis unfolding Let_def
    by (rule conjI [OF four trans [OF fun_cong [OF c [THEN conjunct1], symmetric] four]])
qed

section \<open>Enforcement\<close>

lemma learned_record:
  assumes "auth_ok C P s" "revocation_ok rc" "0 < ap_revoked P" "ingest_revocation C P rc s = (True, s')"
  shows "auth_ok C P s'" "oa_wall s' = oa_wall s" "rc \<in> kr_record ` set (oa_revocations s')"
    "rv_node_mac rc \<notin> nk_mac ` set (oa_neighbors s')" "unix_or_zero (oa_wall s) < rv_not_after rc"
proof -
  show "auth_ok C P s'" using ingest_revocation_auth_ok [OF assms(1,2)] assms(4) by simp
  have all: "oa_wall s' = oa_wall s \<and> rc \<in> kr_record ` set (oa_revocations s')
    \<and> rv_node_mac rc \<notin> nk_mac ` set (oa_neighbors s') \<and> unix_or_zero (oa_wall s) < rv_not_after rc"
    using tables_okD(5) [OF auth_okD(1) [OF assms(1)]]
  proof (cases rule: ingest_revocation_cases [where C = C and rc = rc])
    case (learned rs)
    let ?s = "s\<lparr>oa_revocations := rs\<rparr>"
    have s': "s' = (evict_neighbor (rv_node_mac rc) ?s)\<lparr>oa_trickle_reset_hint := True\<rparr>" using learned(1) assms(4) by simp
    have "distinct (map nk_mac (oa_neighbors ?s))" using tables_okD(2) [OF auth_okD(1) [OF assms(1)]] by simp
    from vec_remove_first_keyed(2) [OF this, of "rv_node_mac rc"]
    have "rv_node_mac rc \<notin> nk_mac ` set (oa_neighbors (evict_neighbor (rv_node_mac rc) ?s))"
      by (auto intro: evict_neighbor_cases [of "rv_node_mac rc" ?s])
    moreover have "rc \<in> kr_record ` set rs" using learned(6) assms(3) by force
    ultimately show ?thesis using verify_revocation_Inr(3) [OF learned(2)] by (simp add: s')
  qed (use assms(4) in auto)
  then show "oa_wall s' = oa_wall s" "rc \<in> kr_record ` set (oa_revocations s')"
    "rv_node_mac rc \<notin> nk_mac ` set (oa_neighbors s')" "unix_or_zero (oa_wall s) < rv_not_after rc"
    by blast+
qed

lemma revoked_cert_refused:
  assumes "rc \<in> kr_record ` set (oa_revocations s)" "unix_or_zero (oa_wall s) < rv_not_after rc"
    and "\<not> is_revoked v s" "vc_mac v = rv_node_mac rc" "\<forall>t. oa_wall s = At t \<longrightarrow> rv_not_before rc \<le> t"
  shows "rv_not_before rc < vc_not_before v"
proof -
  have "\<not> cancels_under v (oa_wall s) rc" using assms(1,3) by (auto simp: is_revoked_def list_ex_iff)
  then show ?thesis
    using assms(2,4,5) by (cases "oa_wall s") (auto simp: cancels_under_def names_cert_def unix_or_zero_def split: if_splits)
qed

text \<open>
  C25. A revocation is enforced at once. When a node learns a revocation record, it no longer tags frames for
  the node it names, answers its challenges or accepts directed, fan-out or keep-alive frames from it; and
  unless its exact clock is still before the revocation instant, it accepts an announcement under that
  address only with a certificate issued after that instant, carried in full.
\<close>

theorem revocation_enforced:
  assumes "auth_ok C P s" "revocation_ok rc" "0 < ap_revoked P" "ingest_revocation C P rc s = (True, s')"
  shows "fst (tag_directed C (rv_node_mac rc) frame trailer s') = None
    \<and> answer_challenge C (rv_node_mac rc) nonce s' = None
    \<and> \<not> fst (verify_directed C P (rv_node_mac rc) frame trailer s')
    \<and> \<not> fst (verify_fanout C P (rv_node_mac rc) frame trailer s')
    \<and> \<not> fst (verify_keepalive C P (rv_node_mac rc) frame s')
    \<and> (\<forall>payload. mac_at payload ORIG_OFF = rv_node_mac rc \<and> fst (verify_ogm C P payload s') = Verified
         \<and> (\<forall>t. oa_wall s = At t \<longrightarrow> rv_not_before rc \<le> t) \<longrightarrow>
         (\<exists>cb cert rest. find_tvlv (drop OGM_HDR payload) TvCert = Some cb \<and> cert_read cb = Some (cert, rest)
            \<and> rv_not_before rc < ct_not_before cert))"
proof -
  note l = learned_record [OF assms]
  have dead: "live_neighbor (rv_node_mac rc) s' = None" "find (\<lambda>n. nk_mac n = rv_node_mac rc) (oa_neighbors s') = None"
    using l(4) by (auto simp: live_neighbor_def find_None_iff image_iff)
  have "\<exists>cb cert rest. find_tvlv (drop OGM_HDR payload) TvCert = Some cb \<and> cert_read cb = Some (cert, rest)
      \<and> rv_not_before rc < ct_not_before cert"
    if orig: "mac_at payload ORIG_OFF = rv_node_mac rc" and good: "fst (verify_ogm C P payload s') = Verified"
      and past: "\<forall>t. oa_wall s = At t \<longrightarrow> rv_not_before rc \<le> t" for payload
  proof -
    obtain s'' where v: "verify_ogm C P payload s' = (Verified, s'')" using good by (metis prod.collapse)
    obtain cert cb rest where c: "ct_node_mac cert = mac_at payload ORIG_OFF" "\<not> is_revoked (verified_facts cert) s'"
        "resolve_cert_bytes C (drop OGM_HDR payload) (mac_at payload ORIG_OFF) s' = Inr cb" "cert_read cb = Some (cert, rest)"
      by (rule verify_ogm_Verified [OF l(1) v])
    have "rv_not_before rc < vc_not_before (verified_facts cert)"
      using c(1,2) orig past l(2,3,5) by (intro revoked_cert_refused [of rc s']) (simp_all add: verified_facts_def)
    moreover have "find_tvlv (drop OGM_HDR payload) TvCert = Some cb"
      using c(3) orig dead(1) by (auto simp: resolve_cert_bytes_def neighbor_cert_def split: option.splits if_splits)
    ultimately show ?thesis using c(4) by (auto simp: verified_facts_def)
  qed
  then show ?thesis
    using dead by (auto simp: tag_directed_def answer_challenge_def verify_directed_def verify_directed_tag_def
        verify_fanout_def verify_keepalive_def Let_def)
qed

theorem revocation_enforced_witness:
  "let m = Mac 2 9 9 9 9 9; s = snd (ingest_revocation toy_crypto default_auth_profile (revoke toy_crypto demo_root m 120 300) (demo_node 4))
   in fst (tag_directed toy_crypto m [1] (replicate 24 0) s) = None
      \<and> \<not> fst (verify_keepalive toy_crypto default_auth_profile m (replicate 80 255) s)"
proof -
  let ?m = "Mac 2 9 9 9 9 9" and ?P = default_auth_profile and ?a = "trust_anchor_of toy_crypto demo_root"
  let ?rc = "revoke toy_crypto demo_root ?m 120 300"
  have s: "oa_anchor (demo_node 4) = ?a" "oa_wall (demo_node 4) = Unknown" "oa_revocations (demo_node 4) = []"
      "ct_node_mac (oa_cert (demo_node 4)) = Mac 6 4 4 4 4 4"
    by (simp_all add: demo_node_def with_capacities_def demo_cert_def issue_cert_def issue_with_flags_def Let_def demo_mac)
  have m: "rv_node_mac ?rc = ?m" by (simp add: revoke_def Let_def)
  have acc: "acceptable toy_crypto ?a Unknown (Mac 6 4 4 4 4 4) {?m} ?rc"
    by (rule demo_acceptable) (simp_all add: unix_or_zero_def)
  then have "fst (ingest_revocation toy_crypto ?P ?rc (demo_node 4))"
    using s m by (simp add: ingest_revocation_def acceptable_def)
  then have learned: "ingest_revocation toy_crypto ?P ?rc (demo_node 4) = (True, snd (ingest_revocation toy_crypto ?P ?rc (demo_node 4)))"
    by (metis prod.collapse)
  have "revocation_ok ?rc" using acc by (simp add: acceptable_def)
  from revocation_enforced [OF demo_node_ok this _ learned, of "[1]" "replicate 24 0"]
    revocation_enforced [OF demo_node_ok this _ learned, of "replicate 80 255" "[]"]
  show ?thesis unfolding Let_def m by (simp add: default_auth_profile_def MAX_REVOKED_def)
qed

end
