(* ===== verification/Ogm_Exchange.thy ===== *)
theory Ogm_Exchange
  imports Revocation_Flood "HOL-Library.Sublist"
begin

text \<open>
  Announcements between two members. What a node appends to its announcement is a list of records a
  receiver reads back: the announcement of a member verifies, a fingerprint asks for the certificate it
  stands for, and the revocations that still flood are learned.
\<close>

section \<open>Layout of the appended records\<close>

definition auth_record :: "tvlv_type \<Rightarrow> bytes \<Rightarrow> tvlv_record" where
  "auth_record ty v = \<lparr>tr_type = tvlv_as_u8 ty, tr_version = 1, tr_value = v\<rparr>"

definition revoke_tvlv :: "revocation_record \<Rightarrow> tvlv_record" where
  "revoke_tvlv r = auth_record TvRevoke (revocation_write r)"

text \<open>The revocations the next announcement carries, room permitting.\<close>

definition due :: "nat \<Rightarrow> known_revocation list \<Rightarrow> revocation_record list" where
  "due attached krs = take (MAX_REVOKE_PER_OGM - attached) (map kr_record (filter (\<lambda>k. kr_floods_left k \<noteq> 0) krs))"

lemma write_tvlv_next:
  assumes "n = length p" "n + 4 + length v \<le> length buf"
  shows "write_tvlv (p @ drop n buf) n ty v
    = Some ((p @ record_bytes (auth_record ty v)) @ drop (n + 4 + length v) buf, n + 4 + length v)"
proof -
  define h where "h = tvlv_hdr_write \<lparr>th_type = tvlv_as_u8 ty, th_version = 1, th_len = word_of_nat (length v)\<rparr>"
  have len: "length h = 4" by (simp add: h_def header_sizes)
  have "copy_into (p @ drop n buf) n h = Some ((p @ h) @ drop (n + 4) buf)"
    using copy_next [OF assms(1), of h buf] assms(2) len by simp
  moreover have "copy_into ((p @ h) @ drop (n + 4) buf) (n + 4) v = Some (((p @ h) @ v) @ drop (n + 4 + length v) buf)"
    using copy_next [of "n + 4" "p @ h" v buf] assms len by simp
  ultimately show ?thesis
    by (simp add: write_tvlv_def h_def [symmetric] record_bytes_def auth_record_def TVLV_HDR_LEN_def Let_def)
qed

lemma checked_add_u16_Some: "checked_add_u16 a n = Some b \<Longrightarrow> unat b = unat a + n"
  by (auto simp: checked_add_u16_def unat_word_ariths unat_of_nat split: if_splits)

lemma length_print_revoke [simp]:
  "\<forall>r\<in>set att. revocation_ok r \<Longrightarrow> length (tvlv_print (map revoke_tvlv att)) = 96 * length att"
  by (induction att) (simp_all add: revoke_tvlv_def auth_record_def revocation_write_length REVOKE_LEN_def)

lemma attach_layout:
  assumes "\<forall>kr\<in>set krs. revocation_ok (kr_record kr)" "n = length p" "n \<le> length buf"
  shows "\<exists>rs att l'. attach_revocations krs a (p @ drop n buf) n l
      = Some (rs, (p @ tvlv_print (map revoke_tvlv att)) @ drop (n + 96 * length att) buf, n + 96 * length att, l')
    \<and> n + 96 * length att \<le> length buf \<and> unat l' = unat l + 96 * length att \<and> prefix att (due a krs)
    \<and> (n + 96 * length (due a krs) \<le> length buf \<and> unat l + 96 * length (due a krs) < 2 ^ 16 \<longrightarrow> att = due a krs)"
  using assms
proof (induction krs arbitrary: a p n l)
  case Nil
  then show ?case by (auto simp: due_def)
next
  case (Cons kr krs)
  have sizes: "TVLV_HDR_LEN + REVOKE_LEN = 96" by (simp add: TVLV_HDR_LEN_def REVOKE_LEN_def)
  consider (limit) "MAX_REVOKE_PER_OGM \<le> a" | (spent) "a < MAX_REVOKE_PER_OGM" "kr_floods_left kr = 0"
    | (full) "a < MAX_REVOKE_PER_OGM" "kr_floods_left kr \<noteq> 0" "length buf < n + 96 \<or> checked_add_u16 l 96 = None"
    | (attach) l1 where "a < MAX_REVOKE_PER_OGM" "kr_floods_left kr \<noteq> 0" "n + 96 \<le> length buf" "checked_add_u16 l 96 = Some l1"
    by (metis not_le option.exhaust)
  then show ?case
  proof cases
    case limit
    with Cons.prems show ?thesis by (intro exI [of _ "kr # krs"] exI [of _ "[]"] exI [of _ l]) (simp add: due_def)
  next
    case spent
    obtain rs att l' where ih: "attach_revocations krs a (p @ drop n buf) n l
        = Some (rs, (p @ tvlv_print (map revoke_tvlv att)) @ drop (n + 96 * length att) buf, n + 96 * length att, l')"
        "n + 96 * length att \<le> length buf" "unat l' = unat l + 96 * length att" "prefix att (due a krs)"
        "n + 96 * length (due a krs) \<le> length buf \<and> unat l + 96 * length (due a krs) < 2 ^ 16 \<longrightarrow> att = due a krs"
      using Cons.IH [of n p a l] Cons.prems by auto
    have "due a (kr # krs) = due a krs" using spent by (simp add: due_def)
    with ih spent show ?thesis by (intro exI [of _ "kr # rs"] exI [of _ att] exI [of _ l']) (simp add: not_le)
  next
    case full
    have "due a (kr # krs) \<noteq> []" using full by (simp add: due_def)
    then have "1 \<le> length (due a (kr # krs))" by (cases "due a (kr # krs)") auto
    then have "\<not> (n + 96 * length (due a (kr # krs)) \<le> length buf \<and> unat l + 96 * length (due a (kr # krs)) < 2 ^ 16)"
      using full(3) by (auto simp: checked_add_u16_def split: if_splits)
    moreover have "attach_revocations (kr # krs) a (p @ drop n buf) n l = Some (kr # krs, p @ drop n buf, n, l)"
      using full Cons.prems sizes by (cases "length buf < n + 96") auto
    ultimately show ?thesis using Cons.prems by (intro exI [of _ "kr # krs"] exI [of _ "[]"] exI [of _ l]) auto
  next
    case attach
    let ?v = "revocation_write (kr_record kr)" and ?p = "p @ record_bytes (revoke_tvlv (kr_record kr))"
    have v: "length ?v = 92" using Cons.prems(1) by (simp add: revocation_write_length REVOKE_LEN_def)
    have w: "write_tvlv (p @ drop n buf) n TvRevoke ?v = Some (?p @ drop (n + 96) buf, n + 96)"
      using write_tvlv_next [of n p ?v buf TvRevoke] Cons.prems attach(3) v by (simp add: revoke_tvlv_def add.commute)
    have p: "n + 96 = length ?p" using Cons.prems(2) v by (simp add: revoke_tvlv_def auth_record_def)
    obtain rs att l' where ih: "attach_revocations krs (a + 1) (?p @ drop (n + 96) buf) (n + 96) l1
        = Some (rs, (?p @ tvlv_print (map revoke_tvlv att)) @ drop (n + 96 + 96 * length att) buf, n + 96 + 96 * length att, l')"
        "n + 96 + 96 * length att \<le> length buf" "unat l' = unat l1 + 96 * length att" "prefix att (due (a + 1) krs)"
        "n + 96 + 96 * length (due (a + 1) krs) \<le> length buf \<and> unat l1 + 96 * length (due (a + 1) krs) < 2 ^ 16
           \<longrightarrow> att = due (a + 1) krs"
      using Cons.IH [of "n + 96" ?p "a + 1" l1] Cons.prems attach(3) p by auto
    have d: "due a (kr # krs) = kr_record kr # due (a + 1) krs" using attach(1,2) by (simp add: due_def take_Cons')
    have l1: "unat l1 = unat l + 96" by (rule checked_add_u16_Some [OF attach(4)])
    have "attach_revocations (kr # krs) a (p @ drop n buf) n l
        = Some (kr\<lparr>kr_floods_left := kr_floods_left kr - 1\<rparr> # rs, (?p @ tvlv_print (map revoke_tvlv att)) @ drop (n + 96 + 96 * length att) buf,
            n + 96 + 96 * length att, l')"
      using attach sizes w ih(1) Cons.prems by (simp add: not_le)
    then show ?thesis
      using ih(2-5) d l1
      by (intro exI [of _ "kr\<lparr>kr_floods_left := kr_floods_left kr - 1\<rparr> # rs"] exI [of _ "kr_record kr # att"] exI [of _ l'])
         (simp add: add.assoc)
  qed
qed

text \<open>The record that stands for the certificate, and what it and the signature add.\<close>

definition cert_record :: "crypto \<Rightarrow> bool \<Rightarrow> membership_cert \<Rightarrow> tvlv_record" where
  "cert_record C lazy cert = (if lazy then auth_record TvCertFp (fingerprint C cert) else auth_record TvCert (cert_write cert))"

definition added_len :: "bool \<Rightarrow> nat" where
  "added_len lazy = (if lazy then 8 else CERT_LEN) + 72"

lemma length_fingerprint [simp]: "crypto_ok C \<Longrightarrow> length (fingerprint C cert) = 8"
  by (simp add: fingerprint_def crypto_ok_def)

lemma signed_message_fits:
  assumes "cert_ok cert" "length q \<le> 4"
  shows "signed_message m q (cert_write cert) = Some (SIG_DOMAIN @ mac_bytes m @ q @ cert_write cert)"
  using assms cert_write_length [OF assms(1)]
  by (simp add: signed_message_def fits_scratch_def SIG_DOMAIN_def SIGN_SCRATCH_LEN_def CERT_LEN_def)

lemma append_layout:
  assumes "\<forall>kr\<in>set krs. revocation_ok (kr_record kr)" "OGM_HDR \<le> len" "length sig = 64"
    and "len + (length v + 72) \<le> length buf"
  shows "\<exists>rs att l'. append_auth_records krs buf len ty v sig l
      = Some (rs, len + (length v + 72) + 96 * length att, take TVLV_LEN_OFF buf @ u16_to_be l' @ drop OGM_HDR (take len buf)
          @ tvlv_print (auth_record ty v # auth_record TvOgmSig sig # map revoke_tvlv att)
          @ drop (len + (length v + 72) + 96 * length att) buf)
    \<and> unat l' = unat l + 96 * length att \<and> len + (length v + 72) + 96 * length att \<le> length buf \<and> prefix att (due 0 krs)
    \<and> (len + (length v + 72) + 96 * length (due 0 krs) \<le> length buf \<and> unat l + 96 * length (due 0 krs) < 2 ^ 16 \<longrightarrow> att = due 0 krs)"
proof -
  define p where "p = take len buf"
  define p1 where "p1 = p @ record_bytes (auth_record ty v)"
  define p2 where "p2 = p1 @ record_bytes (auth_record TvOgmSig sig)"
  have lp: "len = length p" "len + 4 + length v = length p1" "len + (length v + 72) = length p2"
    using assms by (simp_all add: p_def p1_def p2_def auth_record_def)
  have w1: "write_tvlv buf len ty v = Some (p1 @ drop (len + 4 + length v) buf, len + 4 + length v)"
    using write_tvlv_next [OF lp(1), of v buf ty] assms by (simp add: p_def p1_def)
  have w2: "write_tvlv (p1 @ drop (len + 4 + length v) buf) (len + 4 + length v) TvOgmSig sig
      = Some (p2 @ drop (len + (length v + 72)) buf, len + (length v + 72))"
    using write_tvlv_next [OF lp(2), of sig buf TvOgmSig] assms by (simp add: p2_def algebra_simps)
  obtain rs att l' where a: "attach_revocations krs 0 (p2 @ drop (len + (length v + 72)) buf) (len + (length v + 72)) l
      = Some (rs, (p2 @ tvlv_print (map revoke_tvlv att)) @ drop (len + (length v + 72) + 96 * length att) buf, len + (length v + 72) + 96 * length att, l')"
    "len + (length v + 72) + 96 * length att \<le> length buf" "unat l' = unat l + 96 * length att" "prefix att (due 0 krs)"
    "len + (length v + 72) + 96 * length (due 0 krs) \<le> length buf \<and> unat l + 96 * length (due 0 krs) < 2 ^ 16 \<longrightarrow> att = due 0 krs"
    using attach_layout [OF assms(1) lp(3), of buf 0 l] assms(4) by auto
  define rest where "rest = tvlv_print (auth_record ty v # auth_record TvOgmSig sig # map revoke_tvlv att)
      @ drop (len + (length v + 72) + 96 * length att) buf"
  have whole: "(p2 @ tvlv_print (map revoke_tvlv att)) @ drop (len + (length v + 72) + 96 * length att) buf = p @ rest"
    by (simp add: p2_def p1_def rest_def)
  have field: "copy_into (p @ rest) TVLV_LEN_OFF (u16_to_be l') = Some (take TVLV_LEN_OFF buf @ u16_to_be l' @ drop OGM_HDR p @ rest)"
  proof -
    have off: "TVLV_LEN_OFF + 2 = OGM_HDR" by (simp add: TVLV_LEN_OFF_def OGM_HDR_def OGM_SIZE_def)
    then have "TVLV_LEN_OFF \<le> len" using assms(2) by simp
    with off have "take TVLV_LEN_OFF (p @ rest) = take TVLV_LEN_OFF buf" "drop (TVLV_LEN_OFF + 2) (p @ rest) = drop OGM_HDR p @ rest"
      "TVLV_LEN_OFF + 2 \<le> length (p @ rest)"
      using assms(2,4) by (simp_all only: off) (simp_all add: p_def min_def)
    then show ?thesis by (simp add: copy_into_def)
  qed
  have "append_auth_records krs buf len ty v sig l
      = Some (rs, len + (length v + 72) + 96 * length att, take TVLV_LEN_OFF buf @ u16_to_be l' @ drop OGM_HDR p @ rest)"
    unfolding append_auth_records_def w1 w2 Option.bind.simps prod.case a(1) whole field ..
  with a(2-5) show ?thesis unfolding rest_def p_def by blast
qed

lemma augment_layout:
  fixes C lazy buf len s
  defines "n \<equiv> len + added_len lazy"
  assumes "crypto_ok C" "auth_ok C P s" "OGM_HDR \<le> len" "n \<le> length buf" "unat (u16_at buf TVLV_LEN_OFF) + added_len lazy < 2 ^ 16"
  obtains rs att l' sig where "augment_ogm_with_cert_record C lazy buf len s
      = Some (Some (n + 96 * length att, take TVLV_LEN_OFF buf @ u16_to_be l' @ drop OGM_HDR (take len buf)
          @ tvlv_print (cert_record C lazy (oa_cert s) # auth_record TvOgmSig sig # map revoke_tvlv att)
          @ drop (n + 96 * length att) buf), s\<lparr>oa_revocations := rs\<rparr>)"
    "n + 96 * length att \<le> length buf" "prefix att (due 0 (oa_revocations s))"
    "n + 96 * length (due 0 (oa_revocations s)) \<le> length buf
       \<and> unat (u16_at buf TVLV_LEN_OFF) + added_len lazy + 96 * length (due 0 (oa_revocations s)) < 2 ^ 16 \<longrightarrow> att = due 0 (oa_revocations s)"
    "sig = sign C (oa_keypair s) (SIG_DOMAIN @ mac_bytes (mac_at buf ORIG_OFF) @ take 4 (drop SEQNO_OFF buf) @ cert_write (oa_cert s))"
proof -
  define msg where "msg = SIG_DOMAIN @ mac_bytes (mac_at buf ORIG_OFF) @ take 4 (drop SEQNO_OFF buf) @ cert_write (oa_cert s)"
  define v where "v = (if lazy then fingerprint C (oa_cert s) else cert_write (oa_cert s))"
  have cok: "cert_ok (oa_cert s)" using auth_okD(2) [OF assms(3)] by (simp add: member_def)
  have rok: "\<forall>kr\<in>set (oa_revocations s). revocation_ok (kr_record kr)" using auth_okD(4) [OF assms(3)] by (auto simp: held_ok_def)
  have msg: "signed_message (mac_at buf ORIG_OFF) (take 4 (drop SEQNO_OFF buf)) (cert_write (oa_cert s)) = Some msg"
    using signed_message_fits [OF cok] by (simp add: msg_def)
  have v: "length v + 72 = added_len lazy" using assms(2) cert_write_length [OF cok] by (simp add: v_def added_len_def)
  obtain l where l: "checked_add_u16 (u16_at buf TVLV_LEN_OFF) (added_len lazy) = Some l"
    using assms(6) by (simp add: checked_add_u16_def)
  have sizes: "(TVLV_HDR_LEN + length v) + (TVLV_HDR_LEN + SIG_LEN) = added_len lazy" "\<not> length buf < ORIG_OFF + 6"
    using v assms(4,5) by (simp_all add: TVLV_HDR_LEN_def SIG_LEN_def ORIG_OFF_def OGM_HDR_def OGM_SIZE_def n_def)
  define ty where "ty = (if lazy then TvCertFp else TvCert)"
  have sig: "length (sign C (oa_keypair s) msg) = 64" using assms(2) by simp
  obtain rs att l' where a: "append_auth_records (oa_revocations s) buf len ty v (sign C (oa_keypair s) msg) l
      = Some (rs, n + 96 * length att, take TVLV_LEN_OFF buf @ u16_to_be l' @ drop OGM_HDR (take len buf)
          @ tvlv_print (auth_record ty v # auth_record TvOgmSig (sign C (oa_keypair s) msg) # map revoke_tvlv att)
          @ drop (n + 96 * length att) buf)"
    "n + 96 * length att \<le> length buf" "prefix att (due 0 (oa_revocations s))"
    "n + 96 * length (due 0 (oa_revocations s)) \<le> length buf \<and> unat l + 96 * length (due 0 (oa_revocations s)) < 2 ^ 16
       \<longrightarrow> att = due 0 (oa_revocations s)"
    using append_layout [OF rok assms(4) sig, of v buf ty l] assms(5) unfolding v n_def by metis
  have rec: "auth_record ty v = cert_record C lazy (oa_cert s)" by (simp add: cert_record_def ty_def v_def)
  have "augment_ogm_with_cert_record C lazy buf len s
      = Some (Some (n + 96 * length att, take TVLV_LEN_OFF buf @ u16_to_be l' @ drop OGM_HDR (take len buf)
          @ tvlv_print (cert_record C lazy (oa_cert s) # auth_record TvOgmSig (sign C (oa_keypair s) msg) # map revoke_tvlv att)
          @ drop (n + 96 * length att) buf), s\<lparr>oa_revocations := rs\<rparr>)"
    using assms(4,5) sizes msg l a(1) unfolding augment_ogm_with_cert_record_def Let_def
    by (simp add: v_def [symmetric] ty_def [symmetric] rec n_def)
  then show thesis
    using that a(2-4) checked_add_u16_Some [OF l] by (simp add: msg_def add.assoc)
qed

section \<open>Reading the records back\<close>

text \<open>An announcement as the engine builds it: a header naming the node, and records of its own.\<close>

definition announcement :: "mac \<Rightarrow> bytes \<Rightarrow> nat \<Rightarrow> tvlv_record list \<Rightarrow> bool" where
  "announcement own buf len rs \<longleftrightarrow> OGM_HDR \<le> len \<and> drop OGM_HDR (take len buf) = tvlv_print rs \<and> mac_at buf ORIG_OFF = own
     \<and> (\<forall>r\<in>set rs. record_ok r \<and> tr_type r \<notin> tvlv_as_u8 ` {TvCert, TvCertFp, TvOgmSig, TvRevoke})"

lemma find_tvlv_records:
  assumes "\<forall>r\<in>set rs. record_ok r"
  shows "find_tvlv (tvlv_print rs) ty = map_option tr_value (find (\<lambda>r. tr_type r = tvlv_as_u8 ty) rs)"
  using find_tvlv_parse [OF tvlv_parse_print [OF assms]] by simp

lemma find_append: "find q (xs @ ys) = (case find q xs of None \<Rightarrow> find q ys | Some x \<Rightarrow> Some x)"
  by (induction xs) auto

lemma find_own_records:
  assumes "announcement own buf len rs" "tvlv_as_u8 ty \<in> tvlv_as_u8 ` {TvCert, TvCertFp, TvOgmSig, TvRevoke}"
  shows "find (\<lambda>r. tr_type r = tvlv_as_u8 ty) (rs @ ys) = find (\<lambda>r. tr_type r = tvlv_as_u8 ty) ys"
proof -
  have "find (\<lambda>r. tr_type r = tvlv_as_u8 ty) rs = None" using assms by (auto simp: announcement_def find_None_iff)
  then show ?thesis by (simp add: find_append)
qed

lemma find_appended:
  assumes "announcement own buf len rs"
  shows "find (\<lambda>r. tr_type r = tvlv_as_u8 TvOgmSig) (rs @ cert_record C lazy cert # auth_record TvOgmSig sig # map revoke_tvlv att)
      = Some (auth_record TvOgmSig sig)"
    "find (\<lambda>r. tr_type r = tvlv_as_u8 TvCert) (rs @ cert_record C lazy cert # auth_record TvOgmSig sig # map revoke_tvlv att)
      = (if lazy then None else Some (auth_record TvCert (cert_write cert)))"
    "find (\<lambda>r. tr_type r = tvlv_as_u8 TvCertFp) (rs @ cert_record C lazy cert # auth_record TvOgmSig sig # map revoke_tvlv att)
      = (if lazy then Some (auth_record TvCertFp (fingerprint C cert)) else None)"
proof -
  have own: "tvlv_as_u8 TvOgmSig \<in> tvlv_as_u8 ` {TvCert, TvCertFp, TvOgmSig, TvRevoke}"
    "tvlv_as_u8 TvCert \<in> tvlv_as_u8 ` {TvCert, TvCertFp, TvOgmSig, TvRevoke}"
    "tvlv_as_u8 TvCertFp \<in> tvlv_as_u8 ` {TvCert, TvCertFp, TvOgmSig, TvRevoke}" by blast+
  show "find (\<lambda>r. tr_type r = tvlv_as_u8 TvOgmSig) (rs @ cert_record C lazy cert # auth_record TvOgmSig sig # map revoke_tvlv att)
      = Some (auth_record TvOgmSig sig)"
    unfolding find_own_records [OF assms own(1)] by (simp add: cert_record_def auth_record_def)
  show "find (\<lambda>r. tr_type r = tvlv_as_u8 TvCert) (rs @ cert_record C lazy cert # auth_record TvOgmSig sig # map revoke_tvlv att)
      = (if lazy then None else Some (auth_record TvCert (cert_write cert)))"
    unfolding find_own_records [OF assms own(2)] by (auto simp: cert_record_def auth_record_def find_None_iff revoke_tvlv_def)
  show "find (\<lambda>r. tr_type r = tvlv_as_u8 TvCertFp) (rs @ cert_record C lazy cert # auth_record TvOgmSig sig # map revoke_tvlv att)
      = (if lazy then Some (auth_record TvCertFp (fingerprint C cert)) else None)"
    unfolding find_own_records [OF assms own(3)] by (auto simp: cert_record_def auth_record_def find_None_iff revoke_tvlv_def)
qed

text \<open>A member's certificate over its own signature passes every check of a receiver that trusts the same root.\<close>

lemma verify_ogm_accepts:
  assumes "crypto_ok C" "auth_ok C Q r" "OGM_HDR \<le> length payload" "find_tvlv (drop OGM_HDR payload) TvOgmSig = Some sig"
    and "resolve_cert_bytes C (drop OGM_HDR payload) (mac_at payload ORIG_OFF) r = Inr (cert_write cert)"
    and "member C k cert (oa_anchor r)" "ct_node_mac cert = mac_at payload ORIG_OFF"
    and "sig = sign C k (SIG_DOMAIN @ mac_bytes (mac_at payload ORIG_OFF) @ take 4 (drop SEQNO_OFF payload) @ cert_write cert)"
    and "\<not> proves_before (oa_wall r) (ct_not_before cert)" "\<not> proves_past (oa_wall r) (ct_not_after cert)"
    and "\<not> is_revoked (verified_facts cert) r" "pairwise_key C (oa_keypair r) (ct_x_pubkey cert) = Inr key"
  shows "fst (verify_ogm C Q payload r) = Verified"
proof -
  let ?q = "take 4 (drop SEQNO_OFF payload)" and ?orig = "mac_at payload ORIG_OFF"
  have cok: "cert_ok cert" and ed: "ct_ed_pubkey cert = ed_pubkey C k" using assms(6) by (auto simp: member_def)
  obtain v where "verify_cert C (oa_anchor r) cert Unknown = Inr v" using assms(6) by (auto simp: member_def)
  with assms(9,10) have v: "verify_cert C (oa_anchor r) cert (oa_wall r) = Inr (verified_facts cert)"
    "verify_cert C (oa_anchor r) cert Unknown = Inr (verified_facts cert)"
    using verify_cert_Inr verify_cert_facts(1) by blast+
  have sig: "length sig = SIG_LEN" using assms(1,8) by (simp add: SIG_LEN_def)
  have msg: "signed_message ?orig ?q (cert_write cert) = Some (SIG_DOMAIN @ mac_bytes ?orig @ ?q @ cert_write cert)"
    by (rule signed_message_fits [OF cok]) simp
  have good: "verify_signature C (vc_ed_pubkey (verified_facts cert)) (SIG_DOMAIN @ mac_bytes ?orig @ ?q @ cert_write cert) sig"
    using sign_verifies [OF assms(1), of k] assms(8) ed by (simp add: verified_facts_def)
  have "\<exists>key' checked s1. judge_cert C ?orig (cert_write cert) cert ?q sig r = (Some (verified_facts cert, key', checked), s1)
      \<and> oa_revocations s1 = oa_revocations r \<and> oa_wall s1 = oa_wall r"
  proof (cases "find (\<lambda>n. nk_mac n = ?orig \<and> cert_write (nk_raw_cert n) = cert_write cert) (oa_neighbors r)")
    case None
    then show ?thesis using v assms(12) by (auto simp: judge_cert_def Let_def crypto_op_def verified_facts_def)
  next
    case (Some n)
    then have n: "n \<in> set (oa_neighbors r)" "cert_write (nk_raw_cert n) = cert_write cert" by (auto simp: find_Some_iff)
    with auth_okD(3) [OF assms(2)] have "vouched C (oa_anchor r) (oa_keypair r) n" by blast
    then have nv: "verify_cert C (oa_anchor r) (nk_raw_cert n) Unknown = Inr (nk_cert n)" "cert_ok (nk_raw_cert n)"
      by (auto simp: vouched_def)
    then have "nk_raw_cert n = cert"
      using cert_read_write [OF nv(2), of "[]"] cert_read_write [OF cok, of "[]"] n(2) by simp
    moreover from this nv(1) v(2) have "nk_cert n = verified_facts cert" by simp
    ultimately show ?thesis using Some assms(9,10) by (simp add: judge_cert_def)
  qed
  then obtain key' checked s1 where j: "judge_cert C ?orig (cert_write cert) cert ?q sig r = (Some (verified_facts cert, key', checked), s1)"
    "oa_revocations s1 = oa_revocations r" "oa_wall s1 = oa_wall r" by blast
  have "\<not> is_revoked (verified_facts cert) s1" "vc_mac (verified_facts cert) = ?orig"
    using assms(7,11) j(2,3) by (simp_all add: is_revoked_def) (simp add: verified_facts_def)
  moreover have "cert_read (cert_write cert) = Some (cert, [])" using cert_read_write [OF cok, of "[]"] by simp
  moreover obtain s2 where "(if checked then (True, s1)
      else check_ogm_signature C (vc_ed_pubkey (verified_facts cert)) ?orig ?q (cert_write cert) sig s1) = (True, s2)"
    using msg good by (cases checked) (simp_all add: check_ogm_signature_def)
  ultimately show ?thesis using assms(3-5) sig j(1) by (simp add: verify_ogm_def Let_def)
qed

section \<open>Announcements between members\<close>

lemma due_ok:
  assumes "auth_ok C P s" "prefix att (due 0 (oa_revocations s))"
  shows "\<forall>r\<in>set att. revocation_ok r"
proof
  fix r assume "r \<in> set att"
  with assms(2) have "r \<in> set (due 0 (oa_revocations s))" by (meson set_mono_prefix subsetD)
  then have "r \<in> kr_record ` set (oa_revocations s)" by (auto simp: due_def dest!: in_set_takeD)
  then show "revocation_ok r" using auth_okD(4) [OF assms(1)] by (auto simp: held_ok_def)
qed

lemma augmented_payload:
  assumes "announcement own buf len rs" "crypto_ok C" "auth_ok C P s" "len + added_len lazy \<le> length buf"
    and "unat (u16_at buf TVLV_LEN_OFF) + added_len lazy < 2 ^ 16"
  obtains off buf' rv att sig where "augment_ogm_with_cert_record C lazy buf len s = Some (Some (off, buf'), s\<lparr>oa_revocations := rv\<rparr>)"
    "OGM_HDR \<le> length (take off buf')"
    "drop OGM_HDR (take off buf') = tvlv_print (rs @ cert_record C lazy (oa_cert s) # auth_record TvOgmSig sig # map revoke_tvlv att)"
    "mac_at (take off buf') ORIG_OFF = own" "take 4 (drop SEQNO_OFF (take off buf')) = take 4 (drop SEQNO_OFF buf)"
    "prefix att (due 0 (oa_revocations s))" "\<forall>r\<in>set att. revocation_ok r"
    "len + added_len lazy + 96 * length (due 0 (oa_revocations s)) \<le> length buf
       \<and> unat (u16_at buf TVLV_LEN_OFF) + added_len lazy + 96 * length (due 0 (oa_revocations s)) < 2 ^ 16 \<longrightarrow> att = due 0 (oa_revocations s)"
    "sig = sign C (oa_keypair s) (SIG_DOMAIN @ mac_bytes own @ take 4 (drop SEQNO_OFF buf) @ cert_write (oa_cert s))"
proof -
  have ann: "OGM_HDR \<le> len" "drop OGM_HDR (take len buf) = tvlv_print rs" "mac_at buf ORIG_OFF = own"
    using assms(1) by (auto simp: announcement_def)
  obtain rv att l' sig where a: "augment_ogm_with_cert_record C lazy buf len s
      = Some (Some (len + added_len lazy + 96 * length att, take TVLV_LEN_OFF buf @ u16_to_be l' @ drop OGM_HDR (take len buf)
          @ tvlv_print (cert_record C lazy (oa_cert s) # auth_record TvOgmSig sig # map revoke_tvlv att)
          @ drop (len + added_len lazy + 96 * length att) buf), s\<lparr>oa_revocations := rv\<rparr>)"
    and fit: "len + added_len lazy + 96 * length att \<le> length buf" and pre: "prefix att (due 0 (oa_revocations s))"
    and all: "len + added_len lazy + 96 * length (due 0 (oa_revocations s)) \<le> length buf
       \<and> unat (u16_at buf TVLV_LEN_OFF) + added_len lazy + 96 * length (due 0 (oa_revocations s)) < 2 ^ 16 \<longrightarrow> att = due 0 (oa_revocations s)"
    and sig: "sig = sign C (oa_keypair s) (SIG_DOMAIN @ mac_bytes (mac_at buf ORIG_OFF) @ take 4 (drop SEQNO_OFF buf) @ cert_write (oa_cert s))"
    by (rule augment_layout [OF assms(2,3) ann(1) assms(4,5)])
  have rok: "\<forall>r\<in>set att. revocation_ok r" by (rule due_ok [OF assms(3) pre])
  define hdr where "hdr = take TVLV_LEN_OFF buf @ u16_to_be l'"
  define body where "body = tvlv_print (rs @ cert_record C lazy (oa_cert s) # auth_record TvOgmSig sig # map revoke_tvlv att)"
  define off where "off = len + added_len lazy + 96 * length att"
  have offs: "TVLV_LEN_OFF + 2 = OGM_HDR" "TVLV_LEN_OFF = 16" by (simp_all add: TVLV_LEN_OFF_def OGM_HDR_def OGM_SIZE_def)
  have cok: "cert_ok (oa_cert s)" using auth_okD(2) [OF assms(3)] by (simp add: member_def)
  have lh: "length hdr = OGM_HDR" using offs ann(1) fit by (simp add: hdr_def)
  have lr: "length (tvlv_print rs) = len - OGM_HDR" using fit by (simp add: ann(2) [symmetric])
  have "length (tvlv_print (cert_record C lazy (oa_cert s) # auth_record TvOgmSig sig # map revoke_tvlv att)) = added_len lazy + 96 * length att"
    using assms(2) rok cert_write_length [OF cok] sig
    by (simp add: cert_record_def auth_record_def added_len_def)
  with lr lh ann(1) have lb: "length (hdr @ body) = off" by (simp add: body_def off_def)
  define buf' where "buf' = hdr @ body @ drop off buf"
  have t: "take off buf' = hdr @ body" using lb by (simp add: buf'_def)
  have "augment_ogm_with_cert_record C lazy buf len s = Some (Some (off, buf'), s\<lparr>oa_revocations := rv\<rparr>)"
    using a by (simp add: off_def buf'_def hdr_def body_def ann(2))
  moreover have "mac_at (hdr @ body) ORIG_OFF = own" "take 4 (drop SEQNO_OFF (hdr @ body)) = take 4 (drop SEQNO_OFF buf)"
    using ann(3) offs fit ann(1)
    by (simp_all add: hdr_def mac_at_def ORIG_OFF_def SEQNO_OFF_def nth_append drop_take OGM_HDR_def OGM_SIZE_def)
  ultimately show thesis
    using that [of off buf' rv sig att] pre rok all sig lh unfolding t ann(3) by (simp add: body_def)
qed

lemma records_ok:
  assumes "announcement own buf len rs" "crypto_ok C" "cert_ok cert" "length sig = 64" "\<forall>r\<in>set att. revocation_ok r"
  shows "\<forall>r\<in>set (rs @ cert_record C lazy cert # auth_record TvOgmSig sig # map revoke_tvlv att). record_ok r"
  using assms cert_write_length [OF assms(3)]
  by (auto simp: announcement_def record_ok_def cert_record_def auth_record_def CERT_LEN_def revoke_tvlv_def
      revocation_write_length REVOKE_LEN_def)

lemma announcement_outcome:
  assumes "crypto_ok C" "auth_ok C P s" "auth_ok C Q r" "oa_anchor r = oa_anchor s"
    and "announcement (ct_node_mac (oa_cert s)) buf len rs" "len + added_len lazy \<le> length buf"
    and "unat (u16_at buf TVLV_LEN_OFF) + added_len lazy < 2 ^ 16"
    and "\<not> proves_before (oa_wall r) (ct_not_before (oa_cert s))" "\<not> proves_past (oa_wall r) (ct_not_after (oa_cert s))"
    and "\<not> is_revoked (verified_facts (oa_cert s)) r" "pairwise_key C (oa_keypair r) (ct_x_pubkey (oa_cert s)) = Inr key"
  shows "\<exists>off buf' s'. augment_ogm_with_cert_record C lazy buf len s = Some (Some (off, buf'), s')
    \<and> (\<not> lazy \<longrightarrow> fst (verify_ogm C Q (take off buf') r) = Verified)
    \<and> (lazy \<longrightarrow> (case live_neighbor (ct_node_mac (oa_cert s)) r of
          None \<Rightarrow> fst (verify_ogm C Q (take off buf') r) = NeedCert (ct_node_mac (oa_cert s)) (fingerprint C (oa_cert s))
        | Some n \<Rightarrow> (nk_raw_cert n = oa_cert s \<longrightarrow> fst (verify_ogm C Q (take off buf') r) = Verified)
            \<and> (fingerprint C (nk_raw_cert n) \<noteq> fingerprint C (oa_cert s) \<longrightarrow>
                 fst (verify_ogm C Q (take off buf') r) = NeedCert (ct_node_mac (oa_cert s)) (fingerprint C (oa_cert s)))))"
proof -
  let ?own = "ct_node_mac (oa_cert s)"
  have mem: "member C (oa_keypair s) (oa_cert s) (oa_anchor r)" using auth_okD(2) [OF assms(2)] assms(4) by simp
  then have cok: "cert_ok (oa_cert s)" by (simp add: member_def)
  obtain off buf' rv att sig where aug: "augment_ogm_with_cert_record C lazy buf len s = Some (Some (off, buf'), s\<lparr>oa_revocations := rv\<rparr>)"
    and len: "OGM_HDR \<le> length (take off buf')"
    and tail: "drop OGM_HDR (take off buf') = tvlv_print (rs @ cert_record C lazy (oa_cert s) # auth_record TvOgmSig sig # map revoke_tvlv att)"
    and own: "mac_at (take off buf') ORIG_OFF = ?own" and q: "take 4 (drop SEQNO_OFF (take off buf')) = take 4 (drop SEQNO_OFF buf)"
    and rok: "\<forall>r\<in>set att. revocation_ok r"
    and sig: "sig = sign C (oa_keypair s) (SIG_DOMAIN @ mac_bytes ?own @ take 4 (drop SEQNO_OFF buf) @ cert_write (oa_cert s))"
    by (rule augmented_payload [OF assms(5,1,2,6,7)])
  have "length sig = 64" using assms(1) sig by simp
  note records = find_tvlv_records [OF records_ok [OF assms(5,1) cok this rok, where lazy = lazy]]
  have found: "find_tvlv (drop OGM_HDR (take off buf')) TvOgmSig = Some sig"
      "find_tvlv (drop OGM_HDR (take off buf')) TvCert = (if lazy then None else Some (cert_write (oa_cert s)))"
      "lazy \<Longrightarrow> find_tvlv (drop OGM_HDR (take off buf')) TvCertFp = Some (fingerprint C (oa_cert s))"
    unfolding tail records find_appended [OF assms(5)] by (simp_all add: auth_record_def)
  have verified: "fst (verify_ogm C Q (take off buf') r) = Verified"
    if "resolve_cert_bytes C (drop OGM_HDR (take off buf')) ?own r = Inr (cert_write (oa_cert s))"
    using that sig own q
    by (intro verify_ogm_accepts [OF assms(1,3) len found(1) _ mem _ _ assms(8-11)]) simp_all
  have asks: "fst (verify_ogm C Q (take off buf') r) = NeedCert ?own (fingerprint C (oa_cert s))"
    if "resolve_cert_bytes C (drop OGM_HDR (take off buf')) ?own r = Inl (NeedCert ?own (fingerprint C (oa_cert s)))"
    using that leD [OF len] found(1) own sig assms(1) by (simp add: verify_ogm_def Let_def SIG_LEN_def)
  have resolve: "resolve_cert_bytes C (drop OGM_HDR (take off buf')) ?own r
      = (if \<not> lazy then Inr (cert_write (oa_cert s)) else case live_neighbor ?own r of
           None \<Rightarrow> Inl (NeedCert ?own (fingerprint C (oa_cert s)))
         | Some n \<Rightarrow> if fingerprint C (nk_raw_cert n) = fingerprint C (oa_cert s) then Inr (cert_write (nk_raw_cert n))
                    else Inl (NeedCert ?own (fingerprint C (oa_cert s))))"
    using found assms(1) by (auto simp: resolve_cert_bytes_def neighbor_cert_def split: option.split)
  show ?thesis
    using aug verified asks resolve by (auto split: option.split intro!: exI [of _ off] exI [of _ buf'])
qed

lemma announcement_verified:
  assumes "crypto_ok C" "auth_ok C P s" "auth_ok C Q r" "oa_anchor r = oa_anchor s"
    and "announcement (ct_node_mac (oa_cert s)) buf len rs" "len + added_len False \<le> length buf"
    and "unat (u16_at buf TVLV_LEN_OFF) + added_len False < 2 ^ 16"
    and "\<not> proves_before (oa_wall r) (ct_not_before (oa_cert s))" "\<not> proves_past (oa_wall r) (ct_not_after (oa_cert s))"
    and "\<not> is_revoked (verified_facts (oa_cert s)) r" "pairwise_key C (oa_keypair r) (ct_x_pubkey (oa_cert s)) = Inr key"
  shows "\<exists>off buf' s'. augment_ogm_with_cert_record C False buf len s = Some (Some (off, buf'), s')
    \<and> fst (verify_ogm C Q (take off buf') r) = Verified"
  using announcement_outcome [OF assms] by blast

text \<open>
  C22. A member's announcement verifies. When the buffer and the length field have room for the records a
  node appends, appending succeeds, and a node that trusts the same root, whose clock does not place the
  certificate outside its window and which holds no revocation cancelling it, accepts the result when the
  certificate is carried, or when only its fingerprint is and the certificate is cached; when the
  fingerprint matches nothing cached it asks for exactly this certificate.
\<close>

theorem announcement_verifies:
  assumes "crypto_ok C" "auth_ok C P s" "auth_ok C Q r" "oa_anchor r = oa_anchor s"
    and "announcement (ct_node_mac (oa_cert s)) buf len rs" "len + added_len lazy \<le> length buf"
    and "unat (u16_at buf TVLV_LEN_OFF) + added_len lazy < 2 ^ 16"
    and "\<not> proves_before (oa_wall r) (ct_not_before (oa_cert s))" "\<not> proves_past (oa_wall r) (ct_not_after (oa_cert s))"
    and "\<not> is_revoked (verified_facts (oa_cert s)) r" "pairwise_key C (oa_keypair r) (ct_x_pubkey (oa_cert s)) = Inr key"
  shows "\<exists>off buf' s'. augment_ogm_with_cert_record C lazy buf len s = Some (Some (off, buf'), s')
    \<and> (\<not> lazy \<longrightarrow> fst (verify_ogm C Q (take off buf') r) = Verified)
    \<and> (lazy \<longrightarrow> (case live_neighbor (ct_node_mac (oa_cert s)) r of
          None \<Rightarrow> fst (verify_ogm C Q (take off buf') r) = NeedCert (ct_node_mac (oa_cert s)) (fingerprint C (oa_cert s))
        | Some n \<Rightarrow> (nk_raw_cert n = oa_cert s \<longrightarrow> fst (verify_ogm C Q (take off buf') r) = Verified)
            \<and> (fingerprint C (nk_raw_cert n) \<noteq> fingerprint C (oa_cert s) \<longrightarrow>
                 fst (verify_ogm C Q (take off buf') r) = NeedCert (ct_node_mac (oa_cert s)) (fingerprint C (oa_cert s)))))"
  by (rule announcement_outcome [OF assms])

lemma demo_node_parts:
  "oa_anchor (demo_node n) = trust_anchor_of toy_crypto demo_root" "oa_wall (demo_node n) = Unknown" "oa_revocations (demo_node n) = []"
  "ct_node_mac (oa_cert (demo_node n)) = Mac ((n AND 0xFE) OR 0x02) n n n n n" "oa_neighbors (demo_node n) = []"
  "oa_keypair (demo_node n) = demo_key n" "oa_recv_counters (demo_node n) = []" "oa_send_counter (demo_node n) = 0"
  "ct_x_pubkey (oa_cert (demo_node n)) = x_pubkey toy_crypto (demo_key n)"
  by (simp_all add: demo_node_def with_capacities_def demo_cert_def issue_cert_def issue_with_flags_def Let_def demo_mac)

definition demo_ogm :: bytes where
  "demo_ogm = [0, 1, 50, 0, 0, 0, 0, 9] @ mac_bytes (Mac 6 4 4 4 4 4) @ [0, 255, 0, 0]"

lemma demo_announcement: "announcement (Mac 6 4 4 4 4 4) (demo_ogm @ replicate 300 0) 18 []"
  by (simp add: announcement_def demo_ogm_def OGM_HDR_def OGM_SIZE_def mac_at_def ORIG_OFF_def)

lemma demo_verified:
  obtains payload where "fst (verify_ogm toy_crypto default_auth_profile payload (demo_node 8)) = Verified"
proof -
  have field: "u16_at (demo_ogm @ replicate 300 0) TVLV_LEN_OFF = 0" "length demo_ogm = 18"
    by (simp_all add: demo_ogm_def TVLV_LEN_OFF_def OGM_HDR_def OGM_SIZE_def u16_at_def u16_of_be_def)
  obtain key where "pairwise_key toy_crypto (demo_key 8) (x_pubkey toy_crypto (demo_key 4)) = Inr key"
    by (simp add: pairwise_key_def toy_crypto_def)
  with announcement_verified [OF toy_crypto_ok demo_node_ok demo_node_ok, of 8 4 "demo_ogm @ replicate 300 0" 18 "[]"]
    demo_announcement field
  have "\<exists>payload. fst (verify_ogm toy_crypto default_auth_profile payload (demo_node 8)) = Verified"
    by (auto simp: demo_node_parts added_len_def CERT_LEN_def is_revoked_def)
  with that show thesis by blast
qed

theorem announcement_verifies_witness:
  "\<exists>off buf' s'. augment_ogm_with_cert_record toy_crypto False (demo_ogm @ replicate 300 0) 18 (demo_node 4) = Some (Some (off, buf'), s')
     \<and> fst (verify_ogm toy_crypto default_auth_profile (take off buf') (demo_node 8)) = Verified"
proof -
  have field: "u16_at (demo_ogm @ replicate 300 0) TVLV_LEN_OFF = 0"
    by (simp add: demo_ogm_def TVLV_LEN_OFF_def OGM_HDR_def OGM_SIZE_def u16_at_def u16_of_be_def)
  have len: "length demo_ogm = 18" by (simp add: demo_ogm_def)
  have "pairwise_key toy_crypto (demo_key 8) (x_pubkey toy_crypto (demo_key 4))
      = Inr (cr_blake2s toy_crypto (ascii ''wayfinder-pairwise-v1'' @ cr_dh toy_crypto (kp_x_secret (demo_key 8)) (x_pubkey toy_crypto (demo_key 4))))"
    by (simp add: pairwise_key_def toy_crypto_def)
  with announcement_verifies [OF toy_crypto_ok demo_node_ok demo_node_ok, of 8 4 "demo_ogm @ replicate 300 0" 18 "[]" False]
    demo_announcement field len
  show ?thesis by (simp add: demo_node_parts added_len_def CERT_LEN_def is_revoked_def)
qed

section \<open>Flooding a revocation\<close>

lemma ingest_values_fold:
  "\<forall>r\<in>set rs. revocation_ok r \<Longrightarrow>
     ingest_values C P (map revocation_write rs) s = fold (\<lambda>r s. snd (ingest_revocation C P r s)) rs s"
proof (induction rs arbitrary: s)
  case (Cons r rs)
  then show ?case using revocation_read_write [of r "[]"] by simp
qed simp

lemma iter_revokes:
  assumes "announcement own buf len rs" "\<forall>r\<in>set (rs @ cert_record C lazy cert # auth_record TvOgmSig sig # map revoke_tvlv att). record_ok r"
  shows "iter_tvlv (tvlv_print (rs @ cert_record C lazy cert # auth_record TvOgmSig sig # map revoke_tvlv att)) TvRevoke
    = map revocation_write att"
proof -
  have "filter (\<lambda>r. tr_type r = tvlv_as_u8 TvRevoke) rs = []" using assms(1) by (auto simp: announcement_def filter_empty_conv)
  moreover have "filter (\<lambda>r. tr_type r = tvlv_as_u8 TvRevoke) (map revoke_tvlv att) = map revoke_tvlv att"
    by (simp add: filter_id_conv revoke_tvlv_def auth_record_def)
  ultimately show ?thesis
    using iter_tvlv_parse [OF tvlv_parse_print [OF assms(2)], of TvRevoke]
    by (simp add: cert_record_def auth_record_def) (simp add: revoke_tvlv_def auth_record_def comp_def)
qed

lemma cache_neighbor_enforcing:
  assumes "enforcing C P a w own K s" "vouched C a (oa_keypair s) k"
  shows "enforcing C P a w own K (snd (cache_neighbor P k s))" "instants (snd (cache_neighbor P k s)) = instants s"
proof -
  have ok: "auth_ok C P s" and a: "oa_anchor s = a" using assms(1) by (auto simp: enforcing_def)
  have ok': "auth_ok C P (snd (cache_neighbor P k s))" using assms(2) a by (intro cache_neighbor_auth_ok [OF ok]) simp
  have "oa_revocations (snd (cache_neighbor P k s)) = oa_revocations s \<and> oa_anchor (snd (cache_neighbor P k s)) = a
      \<and> oa_wall (snd (cache_neighbor P k s)) = oa_wall s \<and> oa_cert (snd (cache_neighbor P k s)) = oa_cert s"
    using tables_okD(1) [OF auth_okD(1) [OF ok]] a by (cases rule: cache_neighbor_cases [where k = k]) simp_all
  with ok' assms(1) show "enforcing C P a w own K (snd (cache_neighbor P k s))" "instants (snd (cache_neighbor P k s)) = instants s"
    by (simp_all add: enforcing_def revoked_macs_def instants_def fun_eq_iff)
qed

lemma verify_ogm_learns:
  assumes "enforcing C Q a w own K r" "verify_ogm C Q payload r = (Verified, r')"
    and "iter_tvlv (drop OGM_HDR payload) TvRevoke = map revocation_write att" "\<forall>rc\<in>set att. acceptable C a w own K rc"
  shows "instants r' m = Max (insert (instants r m) (rv_not_before ` {rc \<in> set att. rv_node_mac rc = m}))"
proof -
  have ok: "auth_ok C Q r" and a: "oa_anchor r = a" using assms(1) by (auto simp: enforcing_def)
  obtain cert sig key k where v: "r' = ingest_revocations_from_tail C Q (drop OGM_HDR payload)
         (snd (cache_neighbor Q \<lparr>nk_cert = verified_facts cert, nk_pairwise_key = key, nk_raw_cert = cert,
            nk_last_ogm = Some (take 4 (drop SEQNO_OFF payload), sig)\<rparr> (r\<lparr>oa_ogm_crypto_ops := k\<rparr>)))"
      "vouched C (oa_anchor r) (oa_keypair r) \<lparr>nk_cert = verified_facts cert, nk_pairwise_key = key, nk_raw_cert = cert,
         nk_last_ogm = Some (take 4 (drop SEQNO_OFF payload), sig)\<rparr>"
    by (rule verify_ogm_Verified [OF ok assms(2)])
  let ?n = "\<lparr>nk_cert = verified_facts cert, nk_pairwise_key = key, nk_raw_cert = cert,
      nk_last_ogm = Some (take 4 (drop SEQNO_OFF payload), sig)\<rparr>" and ?r = "r\<lparr>oa_ogm_crypto_ops := k\<rparr>"
  have "vouched C a (oa_keypair ?r) ?n" using v(2) a by simp
  moreover have r: "enforcing C Q a w own K ?r" "instants ?r = instants r"
    using assms(1) by (simp_all add: enforcing_def revoked_macs_def instants_def fun_eq_iff)
  ultimately have e: "enforcing C Q a w own K (snd (cache_neighbor Q ?n ?r))" "instants (snd (cache_neighbor Q ?n ?r)) = instants r"
    using cache_neighbor_enforcing [of C Q a w own K ?r ?n] by auto
  have "\<forall>rc\<in>set att. revocation_ok rc" using assms(4) by (simp add: acceptable_def)
  then have "r' = fold (\<lambda>rc s. snd (ingest_revocation C Q rc s)) att (snd (cache_neighbor Q ?n ?r))"
    using v(1) assms(3) by (simp add: ingest_revocations_from_tail_def ingest_values_fold)
  with revocation_set.learned_all [OF e(1) assms(4), of m] e(2) show ?thesis by simp
qed

text \<open>
  C23. A purge floods with the next announcement. Of the revocations a member still re-advertises, the first
  four travel with its next announcement when there is room; a node that accepts the announcement, and
  accepts the records, holds for each of their subjects an instant no earlier than the record's.
\<close>

theorem revocations_flood:
  assumes "crypto_ok C" "auth_ok C P s" "enforcing C Q (oa_anchor s) w own K r"
    and "announcement (ct_node_mac (oa_cert s)) buf len rs"
    and "len + added_len False + 96 * length (due 0 (oa_revocations s)) \<le> length buf"
    and "unat (u16_at buf TVLV_LEN_OFF) + added_len False + 96 * length (due 0 (oa_revocations s)) < 2 ^ 16"
    and "\<forall>rc\<in>set (due 0 (oa_revocations s)). acceptable C (oa_anchor s) w own K rc"
    and "\<not> proves_before w (ct_not_before (oa_cert s))" "\<not> proves_past w (ct_not_after (oa_cert s))"
    and "\<not> is_revoked (verified_facts (oa_cert s)) r" "pairwise_key C (oa_keypair r) (ct_x_pubkey (oa_cert s)) = Inr key"
  shows "\<exists>off buf' s' r'. augment_ogm C buf len s = Some (Some (off, buf'), s') \<and> verify_ogm C Q (take off buf') r = (Verified, r')
    \<and> (\<forall>rc\<in>set (due 0 (oa_revocations s)). rv_not_before rc \<le> instants r' (rv_node_mac rc))"
proof -
  let ?own = "ct_node_mac (oa_cert s)" and ?due = "due 0 (oa_revocations s)"
  have r: "auth_ok C Q r" "oa_anchor r = oa_anchor s" "oa_wall r = w" using assms(3) by (auto simp: enforcing_def)
  have cok: "cert_ok (oa_cert s)" using auth_okD(2) [OF assms(2)] by (simp add: member_def)
  have room: "len + added_len False \<le> length buf" "unat (u16_at buf TVLV_LEN_OFF) + added_len False < 2 ^ 16" using assms(5,6) by auto
  obtain off buf' rv att sig where aug: "augment_ogm_with_cert_record C False buf len s = Some (Some (off, buf'), s\<lparr>oa_revocations := rv\<rparr>)"
    and tail: "drop OGM_HDR (take off buf') = tvlv_print (rs @ cert_record C False (oa_cert s) # auth_record TvOgmSig sig # map revoke_tvlv att)"
    and rok: "\<forall>r\<in>set att. revocation_ok r"
    and all: "len + added_len False + 96 * length ?due \<le> length buf
       \<and> unat (u16_at buf TVLV_LEN_OFF) + added_len False + 96 * length ?due < 2 ^ 16 \<longrightarrow> att = ?due"
    and sig: "sig = sign C (oa_keypair s) (SIG_DOMAIN @ mac_bytes ?own @ take 4 (drop SEQNO_OFF buf) @ cert_write (oa_cert s))"
    by (rule augmented_payload [OF assms(4,1,2) room])
  have att: "att = ?due" using all assms(5,6) by simp
  have "\<exists>off buf' s'. augment_ogm_with_cert_record C False buf len s = Some (Some (off, buf'), s') \<and> fst (verify_ogm C Q (take off buf') r) = Verified"
    using announcement_verified [OF assms(1,2) r(1,2) assms(4) room] assms(8-11) r(3) by blast
  then obtain r' where v: "verify_ogm C Q (take off buf') r = (Verified, r')" using aug by (metis Pair_inject option.inject prod.collapse)
  have "length sig = 64" using assms(1) sig by simp
  then have iter: "iter_tvlv (drop OGM_HDR (take off buf')) TvRevoke = map revocation_write ?due"
    unfolding tail using iter_revokes [OF assms(4) records_ok [OF assms(4,1) cok _ rok]] att by simp
  have "rv_not_before rc \<le> instants r' (rv_node_mac rc)" if "rc \<in> set ?due" for rc
    unfolding verify_ogm_learns [OF assms(3) v iter assms(7)] using that by (intro Max_ge) auto
  with aug v show ?thesis by (auto simp: augment_ogm_def)
qed

theorem revocations_flood_witness:
  "let m = Mac 2 9 9 9 9 9; rc = revoke toy_crypto demo_root m 150 300;
       s = (demo_node 4)\<lparr>oa_revocations := [\<lparr>kr_record = rc, kr_floods_left = REVOKE_FLOOD_BUDGET\<rparr>]\<rparr>
   in \<exists>off buf' s' r'. augment_ogm toy_crypto (demo_ogm @ replicate 400 0) 18 s = Some (Some (off, buf'), s')
        \<and> verify_ogm toy_crypto default_auth_profile (take off buf') (demo_node 8) = (Verified, r') \<and> 150 \<le> instants r' m"
proof -
  let ?m = "Mac 2 9 9 9 9 9" and ?P = default_auth_profile and ?a = "trust_anchor_of toy_crypto demo_root"
  let ?rc = "revoke toy_crypto demo_root ?m 150 300" and ?buf = "demo_ogm @ replicate 400 (0::u8)"
  let ?k = "\<lparr>kr_record = ?rc, kr_floods_left = REVOKE_FLOOD_BUDGET\<rparr>"
  let ?s = "(demo_node 4)\<lparr>oa_revocations := [?k]\<rparr>"
  have rc: "rv_node_mac ?rc = ?m" "rv_not_before ?rc = 150" by (simp_all add: revoke_def Let_def)
  have acc: "acceptable toy_crypto ?a Unknown own {?m} ?rc" if "own \<noteq> ?m" for own
    using that by (intro demo_acceptable) (simp_all add: unix_or_zero_def)
  have "held_ok toy_crypto ?a (Mac 6 4 4 4 4 4) ?k" using acc [of "Mac 6 4 4 4 4 4"] rc(1) by (simp add: held_ok_def acceptable_def unix_or_zero_def)
  then have s: "auth_ok toy_crypto ?P ?s"
    by (intro auth_ok_parts(8) [OF demo_node_ok]) (simp_all add: vec_ok_def demo_node_parts default_auth_profile_def MAX_REVOKED_def)
  have r: "enforcing toy_crypto ?P (oa_anchor ?s) Unknown (Mac 10 8 8 8 8 8) {?m} (demo_node 8)"
    by (simp add: enforcing_def demo_node_parts revoked_macs_def default_auth_profile_def MAX_REVOKED_def)
  have d: "due 0 (oa_revocations ?s) = [?rc]" by (simp add: due_def MAX_REVOKE_PER_OGM_def REVOKE_FLOOD_BUDGET_def)
  have ann: "announcement (ct_node_mac (oa_cert ?s)) ?buf 18 []"
    by (simp add: announcement_def demo_ogm_def OGM_HDR_def OGM_SIZE_def mac_at_def ORIG_OFF_def demo_node_parts)
  have field: "u16_at ?buf TVLV_LEN_OFF = 0" "length demo_ogm = 18"
    by (simp_all add: demo_ogm_def TVLV_LEN_OFF_def OGM_HDR_def OGM_SIZE_def u16_at_def u16_of_be_def)
  obtain key where key: "pairwise_key toy_crypto (oa_keypair (demo_node 8)) (ct_x_pubkey (oa_cert ?s)) = Inr key"
    by (simp add: pairwise_key_def toy_crypto_def)
  from revocations_flood [OF toy_crypto_ok s r ann _ _ _ _ _ _ key] acc [of "Mac 10 8 8 8 8 8"] d field rc
  show ?thesis unfolding Let_def
    by (simp add: added_len_def CERT_LEN_def is_revoked_def demo_node_parts)
qed

end
