(* ===== verification/Frame_Exchange.thy ===== *)
theory Frame_Exchange
  imports Ogm_Exchange
begin

text \<open>
  Frames between two members that hold each other's certificates: what one tags or signs the other accepts
  once; a challenge is answered, proves once, and lets a neighbour that lost its send counter in a reboot
  back onto the data plane.
\<close>

section \<open>Frames between neighbours\<close>

abbreviation own_mac :: "ogm_auth \<Rightarrow> mac" where
  "own_mac s \<equiv> ct_node_mac (oa_cert s)"

text \<open>A node that holds the current certificate of another, issued for the agreement key the other has.\<close>

definition knows :: "crypto \<Rightarrow> ogm_auth \<Rightarrow> ogm_auth \<Rightarrow> bool" where
  "knows C s r \<longleftrightarrow> (\<exists>n. live_neighbor (own_mac r) s = Some n \<and> nk_raw_cert n = oa_cert r)
     \<and> ct_x_pubkey (oa_cert r) = x_pubkey C (oa_keypair r)"

lemma knowsE:
  assumes "knows C s r" "auth_ok C P s" "auth_ok C Q r"
  obtains n where "live_neighbor (own_mac r) s = Some n" "vc_ed_pubkey (nk_cert n) = ed_pubkey C (oa_keypair r)"
    "pairwise_key C (oa_keypair s) (x_pubkey C (oa_keypair r)) = Inr (nk_pairwise_key n)" "nk_cert n = verified_facts (oa_cert r)"
proof -
  obtain n where n: "live_neighbor (own_mac r) s = Some n" "nk_raw_cert n = oa_cert r" "ct_x_pubkey (oa_cert r) = x_pubkey C (oa_keypair r)"
    using assms(1) by (auto simp: knows_def)
  with auth_okD(3) [OF assms(2)] live_neighbor_in [OF n(1)] have "vouched C (oa_anchor s) (oa_keypair s) n" by blast
  with n(2) have v: "verify_cert C (oa_anchor s) (oa_cert r) Unknown = Inr (nk_cert n)"
      "pairwise_key C (oa_keypair s) (vc_x_pubkey (nk_cert n)) = Inr (nk_pairwise_key n)"
    by (auto simp: vouched_def)
  have "nk_cert n = verified_facts (oa_cert r)" by (rule verify_cert_facts(1) [OF v(1)])
  with that n v(2) auth_okD(2) [OF assms(3)] show thesis by (auto simp: verified_facts_def member_def)
qed

lemma shared_key:
  assumes "crypto_ok C" "knows C s r" "knows C r s" "auth_ok C P s" "auth_ok C Q r"
  obtains key n n' where "live_neighbor (own_mac r) s = Some n" "nk_pairwise_key n = key"
    "live_neighbor (own_mac s) r = Some n'" "nk_pairwise_key n' = key" "vc_ed_pubkey (nk_cert n') = ed_pubkey C (oa_keypair s)"
    "nk_cert n' = verified_facts (oa_cert s)"
proof -
  obtain n where n: "live_neighbor (own_mac r) s = Some n"
      "pairwise_key C (oa_keypair s) (x_pubkey C (oa_keypair r)) = Inr (nk_pairwise_key n)"
    by (rule knowsE [OF assms(2,4,5)])
  obtain n' where n': "live_neighbor (own_mac s) r = Some n'" "vc_ed_pubkey (nk_cert n') = ed_pubkey C (oa_keypair s)"
      "pairwise_key C (oa_keypair r) (x_pubkey C (oa_keypair s)) = Inr (nk_pairwise_key n')" "nk_cert n' = verified_facts (oa_cert s)"
    by (rule knowsE [OF assms(3,5,4)])
  have "nk_pairwise_key n' = nk_pairwise_key n" using pairwise_key_agrees(1) [OF assms(1)] n(2) n'(3) by simp
  with that n n' show thesis by blast
qed

text \<open>The guard of the receiver stands behind the sender's counter and has a row for it.\<close>

definition in_step :: "auth_profile \<Rightarrow> ogm_auth \<Rightarrow> ogm_auth \<Rightarrow> bool" where
  "in_step Q s r \<longleftrightarrow> (case im_get (oa_recv_counters r) (own_mac s) of
     Some h \<Rightarrow> h \<le> oa_send_counter s | None \<Rightarrow> length (oa_recv_counters r) < ap_neighbor_keys Q)"

lemma guard_takes:
  assumes "in_step Q s r" "tables_ok Q r" "oa_send_counter s < c"
  obtains r' where "guard_accept Q (own_mac s) c r = (True, r')" "guard_accept Q (own_mac s) c r' = (False, r')"
proof -
  obtain b r' where g: "guard_accept Q (own_mac s) c r = (b, r')" by fastforce
  have b
    using tables_okD(3) [OF assms(2)]
  proof (cases rule: accept_recv_counter_cases [where src = "own_mac s" and c = c])
    case (accepted rc)
    with g show ?thesis by (simp add: guard_accept_def)
  qed (use assms in \<open>auto simp: in_step_def\<close>)
  with g have "tables_ok Q r'" "im_get (oa_recv_counters r') (own_mac s) = Some c"
    using recv_guard.accept_taken [OF assms(2), of "own_mac s" c r'] by auto
  with that g \<open>b\<close> recv_guard.refused_behind [of Q r' "own_mac s" c c] show thesis by auto
qed

lemma write_trailer_parts:
  assumes "8 + length proof \<le> length trailer"
  shows "take (8 + length proof) (write_trailer c proof trailer) = u64_to_be c @ proof"
    "directed_counter (u64_to_be c @ proof) = c"
  using assms by (simp_all add: write_trailer_def directed_counter_def)

lemma directed_once:
  assumes "crypto_ok C" "knows C s r" "knows C r s" "auth_ok C P s" "auth_ok C Q r" "in_step Q s r"
    and "oa_send_counter s \<noteq> - 1" "DIRECTED_TRAILER_LEN \<le> length trailer"
  shows "\<exists>tr s' r'. tag_directed C (own_mac r) frame trailer s = (Some (DIRECTED_TRAILER_LEN, tr), s')
    \<and> verify_directed C Q (own_mac s) frame (take DIRECTED_TRAILER_LEN tr) r = (True, r')
    \<and> \<not> fst (verify_directed C Q (own_mac s) frame (take DIRECTED_TRAILER_LEN tr) r')"
proof -
  obtain key n n' where keys: "live_neighbor (own_mac r) s = Some n" "nk_pairwise_key n = key"
      "live_neighbor (own_mac s) r = Some n'" "nk_pairwise_key n' = key"
    by (rule shared_key [OF assms(1-5)])
  let ?c = "oa_send_counter s + 1" and ?s = "s\<lparr>oa_send_counter := oa_send_counter s + 1\<rparr>"
  have next_c: "next_send_counter s = Some (?c, ?s)" "oa_send_counter s < ?c"
    using assms(7) by (simp_all add: next_send_counter_def less_next_word)
  define tag where "tag = frame_tag C key ?c (mac_bytes (own_mac s)) frame"
  have tag: "length tag = TAG_LEN" using assms(1) by (simp add: tag_def)
  then have tr: "take DIRECTED_TRAILER_LEN (write_trailer ?c tag trailer) = u64_to_be ?c @ tag"
    "directed_counter (u64_to_be ?c @ tag) = ?c"
    using write_trailer_parts [of tag trailer ?c] assms(8) by (simp_all add: DIRECTED_TRAILER_LEN_def)
  obtain r' where g: "guard_accept Q (own_mac s) ?c r = (True, r')" "guard_accept Q (own_mac s) ?c r' = (False, r')"
    by (rule guard_takes [OF assms(6) auth_okD(1) [OF assms(5)] next_c(2)])
  have "tag_directed C (own_mac r) frame trailer s = (Some (DIRECTED_TRAILER_LEN, write_trailer ?c tag trailer), ?s)"
    using assms(8) keys(1,2) next_c(1) by (simp add: tag_directed_def tag_def Let_def)
  moreover have "verify_directed_tag C (own_mac s) frame (u64_to_be ?c @ tag) r \<noteq> None"
    using keys(3,4) tag tr(2)
    by (simp add: verify_directed_tag_def DIRECTED_TRAILER_LEN_def verify_frame_tag_def tag_def Let_def)
  ultimately show ?thesis
    using g tr by (auto simp: verify_directed_guard intro!: exI [of _ r'])
qed

lemma fanout_once:
  assumes "crypto_ok C" "knows C r s" "auth_ok C P s" "auth_ok C Q r" "in_step Q s r"
    and "oa_send_counter s \<noteq> - 1" "FANOUT_TRAILER_LEN \<le> length trailer"
  shows "\<exists>tr s' r'. sign_fanout C frame trailer s = (Some (FANOUT_TRAILER_LEN, tr), s')
    \<and> verify_fanout C Q (own_mac s) frame (take FANOUT_TRAILER_LEN tr) r = (True, r')
    \<and> \<not> fst (verify_fanout C Q (own_mac s) frame (take FANOUT_TRAILER_LEN tr) r')"
proof -
  obtain n where n: "live_neighbor (own_mac s) r = Some n" "vc_ed_pubkey (nk_cert n) = ed_pubkey C (oa_keypair s)"
    by (rule knowsE [OF assms(2,4,3)])
  let ?c = "oa_send_counter s + 1" and ?s = "s\<lparr>oa_send_counter := oa_send_counter s + 1\<rparr>"
  have next_c: "next_send_counter s = Some (?c, ?s)" "oa_send_counter s < ?c"
    using assms(6) by (simp_all add: next_send_counter_def less_next_word)
  define sig where "sig = sign C (oa_keypair s) (fanout_message C ?c frame)"
  have sig: "length sig = SIG_LEN" using assms(1) by (simp add: sig_def SIG_LEN_def)
  then have tr: "take FANOUT_TRAILER_LEN (write_trailer ?c sig trailer) = u64_to_be ?c @ sig"
    "directed_counter (u64_to_be ?c @ sig) = ?c"
    using write_trailer_parts [of sig trailer ?c] assms(7) by (simp_all add: FANOUT_TRAILER_LEN_def)
  obtain r' where g: "guard_accept Q (own_mac s) ?c r = (True, r')" "guard_accept Q (own_mac s) ?c r' = (False, r')"
    by (rule guard_takes [OF assms(5) auth_okD(1) [OF assms(4)] next_c(2)])
  have "sign_fanout C frame trailer s = (Some (FANOUT_TRAILER_LEN, write_trailer ?c sig trailer), ?s)"
    using assms(7) next_c(1) by (simp add: sign_fanout_def sig_def Let_def)
  moreover have "verify_signature C (vc_ed_pubkey (nk_cert n)) (fanout_message C ?c frame) sig"
    using sign_verifies [OF assms(1)] n(2) by (simp add: sig_def)
  moreover have len: "length (u64_to_be ?c @ sig) = FANOUT_TRAILER_LEN" using sig by (simp add: FANOUT_TRAILER_LEN_def)
  ultimately have "verify_fanout C Q (own_mac s) frame (u64_to_be ?c @ sig) r = (True, r')"
    "\<not> fst (verify_fanout C Q (own_mac s) frame (u64_to_be ?c @ sig) r')"
    "sign_fanout C frame trailer s = (Some (FANOUT_TRAILER_LEN, write_trailer ?c sig trailer), ?s)"
    using g n(1) tr(2) unfolding verify_fanout_guard by auto
  then show ?thesis unfolding tr(1) [symmetric] by blast
qed

lemma keepalive_once:
  assumes "crypto_ok C" "knows C r s" "auth_ok C P s" "auth_ok C Q r" "in_step Q s r"
    and "oa_send_counter s + 1 < KEEPALIVE_COUNTER_TAG" "oa_send_counter s \<noteq> - 1" "len + KEEPALIVE_TRAILER_LEN \<le> length buf"
    and "\<not> is_revoked (verified_facts (oa_cert s)) r"
  shows "\<exists>n buf' s' r'. augment_keepalive C buf len s = (Some (n, buf'), s')
    \<and> verify_keepalive C Q (own_mac s) (take n buf') r = (True, r')
    \<and> \<not> fst (verify_keepalive C Q (own_mac s) (take n buf') r')"
proof -
  obtain n where n: "live_neighbor (own_mac s) r = Some n" "vc_ed_pubkey (nk_cert n) = ed_pubkey C (oa_keypair s)"
      "nk_cert n = verified_facts (oa_cert s)"
    by (rule knowsE [OF assms(2,4,3)])
  have live: "find (\<lambda>n. nk_mac n = own_mac s) (oa_neighbors r) = Some n" "\<not> proves_past (oa_wall r) (vc_not_after (nk_cert n))"
    using live_neighbor_in [OF n(1)] tables_okD(2) [OF auth_okD(1) [OF assms(4)]] by (simp_all add: find_keyed_iff)
  let ?c = "oa_send_counter s + 1" and ?s = "s\<lparr>oa_send_counter := oa_send_counter s + 1\<rparr>"
  have next_c: "next_send_counter s = Some (?c, ?s)" "oa_send_counter s < ?c"
    using assms(7) by (simp_all add: next_send_counter_def less_next_word)
  define cb where "cb = u64_to_be (?c OR KEEPALIVE_COUNTER_TAG)"
  define msg where "msg = KEEPALIVE_SIG_DOMAIN @ mac_bytes (own_mac s) @ cb"
  define sig where "sig = sign C (oa_keypair s) msg"
  have msg: "keepalive_signed_message (own_mac s) cb = Some msg"
    by (simp add: keepalive_signed_message_def fits_scratch_def msg_def cb_def KEEPALIVE_SIG_DOMAIN_def SIGN_SCRATCH_LEN_def)
  have len: "length cb = 8" "length sig = 64" using assms(1) by (simp_all add: cb_def sig_def)
  define buf' where "buf' = take len buf @ cb @ sig @ drop (len + KEEPALIVE_TRAILER_LEN) buf"
  have aug: "augment_keepalive C buf len s = (Some (len + KEEPALIVE_TRAILER_LEN, buf'), ?s)"
    using assms(8) next_c(1) msg by (simp add: augment_keepalive_def Let_def cb_def buf'_def sig_def)
  have pay: "take (len + KEEPALIVE_TRAILER_LEN) buf' = take len buf @ cb @ sig"
    using len assms(8) by (simp add: buf'_def KEEPALIVE_TRAILER_LEN_def SIG_LEN_def)
  obtain r' where g: "guard_accept Q (own_mac s) ?c r = (True, r')" "guard_accept Q (own_mac s) ?c r' = (False, r')"
    by (rule guard_takes [OF assms(5) auth_okD(1) [OF assms(4)] next_c(2)])
  have trailer: "drop (length (take len buf @ cb @ sig) - KEEPALIVE_TRAILER_LEN) (take len buf @ cb @ sig) = cb @ sig"
    "KEEPALIVE_TRAILER_LEN \<le> length (take len buf @ cb @ sig)"
    using len assms(8) by (simp_all add: KEEPALIVE_TRAILER_LEN_def SIG_LEN_def)
  have counter: "directed_counter (cb @ sig) = ?c OR KEEPALIVE_COUNTER_TAG" "take 8 (cb @ sig) = cb" "drop 8 (cb @ sig) = sig"
    using len by (simp_all add: directed_counter_def) (simp add: cb_def)
  have "verify_signature C (vc_ed_pubkey (nk_cert n)) msg sig" using sign_verifies [OF assms(1)] n(2) by (simp add: sig_def)
  then have "verify_keepalive C Q (own_mac s) (take len buf @ cb @ sig) r = guard_accept Q (own_mac s) ?c r"
    using trailer counter live n(3) msg assms(9) tagged_counter [OF assms(6)]
    by (simp add: verify_keepalive_def Let_def guard_accept_def directed_counter_def)
  moreover have "\<not> fst (verify_keepalive C Q (own_mac s) (take len buf @ cb @ sig) r')"
  proof (cases rule: verify_keepalive_guard [where C = C and P = Q and src = "own_mac s" and payload = "take len buf @ cb @ sig" and s = r'])
    case (guarded n' msg')
    then show ?thesis using trailer(1) counter(1) tagged_counter(2) [OF assms(6)] g(2) by simp
  qed simp
  ultimately show ?thesis using aug g(1) pay by (intro exI [of _ "len + KEEPALIVE_TRAILER_LEN"] exI [of _ buf']) simp
qed

text \<open>
  What a node authenticates, its neighbour accepts, once. Two members that hold each other's current
  certificates, the receiver's replay guard not ahead of the sender's counter: a directed frame the sender
  tags, a fan-out frame or a keep-alive it signs is accepted by the receiver, and the same bytes arriving
  again are refused.
\<close>

theorem frames_delivered_once:
  assumes "crypto_ok C" "knows C s r" "knows C r s" "auth_ok C P s" "auth_ok C Q r" "in_step Q s r"
    and "oa_send_counter s + 1 < KEEPALIVE_COUNTER_TAG" "oa_send_counter s \<noteq> - 1"
    and "MAX_TRAILER_LEN \<le> length trailer" "len + KEEPALIVE_TRAILER_LEN \<le> length buf"
    and "\<not> is_revoked (verified_facts (oa_cert s)) r"
  shows "(\<exists>tr s' r'. tag_directed C (own_mac r) frame trailer s = (Some (DIRECTED_TRAILER_LEN, tr), s')
        \<and> verify_directed C Q (own_mac s) frame (take DIRECTED_TRAILER_LEN tr) r = (True, r')
        \<and> \<not> fst (verify_directed C Q (own_mac s) frame (take DIRECTED_TRAILER_LEN tr) r'))
    \<and> (\<exists>tr s' r'. sign_fanout C frame trailer s = (Some (FANOUT_TRAILER_LEN, tr), s')
        \<and> verify_fanout C Q (own_mac s) frame (take FANOUT_TRAILER_LEN tr) r = (True, r')
        \<and> \<not> fst (verify_fanout C Q (own_mac s) frame (take FANOUT_TRAILER_LEN tr) r'))
    \<and> (\<exists>n buf' s' r'. augment_keepalive C buf len s = (Some (n, buf'), s')
        \<and> verify_keepalive C Q (own_mac s) (take n buf') r = (True, r')
        \<and> \<not> fst (verify_keepalive C Q (own_mac s) (take n buf') r'))"
proof -
  have "DIRECTED_TRAILER_LEN \<le> length trailer" "FANOUT_TRAILER_LEN \<le> length trailer"
    using assms(9) by (simp_all add: MAX_TRAILER_LEN_def split: if_splits)
  with directed_once [OF assms(1-6,8)] fanout_once [OF assms(1,3-6,8)] keepalive_once [OF assms(1,3-8,10,11)]
  show ?thesis by blast
qed

text \<open>Two example members that have met.\<close>

definition demo_peer :: "u8 \<Rightarrow> u8 \<Rightarrow> ogm_auth" where
  "demo_peer n m = (demo_node n)\<lparr>oa_neighbors := [\<lparr>nk_cert = verified_facts (demo_cert m),
     nk_pairwise_key = cr_blake2s toy_crypto (ascii ''wayfinder-pairwise-v1'' @ cr_dh toy_crypto (kp_x_secret (demo_key n)) (x_pubkey toy_crypto (demo_key m))),
     nk_raw_cert = demo_cert m, nk_last_ogm = None\<rparr>]\<rparr>"

lemma demo_cert_parts:
  "ct_x_pubkey (demo_cert m) = x_pubkey toy_crypto (demo_key m)" "ct_node_mac (demo_cert m) = Mac ((m AND 0xFE) OR 0x02) m m m m m"
  "oa_cert (demo_node m) = demo_cert m"
  by (simp_all add: demo_cert_def issue_cert_def issue_with_flags_def Let_def demo_mac demo_node_def with_capacities_def)

lemma demo_cert_verifies: "verify_cert toy_crypto (trust_anchor_of toy_crypto demo_root) (demo_cert m) Unknown = Inr (verified_facts (demo_cert m))"
proof -
  have "member toy_crypto (demo_key m) (demo_cert m) (trust_anchor_of toy_crypto demo_root)"
    unfolding demo_cert_def by (intro issued_member toy_crypto_ok) simp
  then obtain v where "verify_cert toy_crypto (trust_anchor_of toy_crypto demo_root) (demo_cert m) Unknown = Inr v"
    by (auto simp: member_def)
  with verify_cert_facts(1) [OF this] show ?thesis by simp
qed

lemma demo_peer_ok:
  assumes "0 < ap_neighbor_keys P"
  shows "auth_ok toy_crypto P (demo_peer n m)"
proof -
  have "cert_ok (demo_cert m)" using auth_okD(2) [OF demo_node_ok [of default_auth_profile m]] by (simp add: member_def demo_cert_parts)
  moreover have "vc_x_pubkey (verified_facts (demo_cert m)) = x_pubkey toy_crypto (demo_key m)"
    by (simp add: verified_facts_def demo_cert_parts)
  ultimately show ?thesis
    unfolding demo_peer_def using assms demo_cert_verifies
    by (intro auth_ok_parts(9) [OF demo_node_ok])
       (auto simp: vec_ok_def vouched_def memo_ok_def demo_node_parts pairwise_key_def toy_crypto_def)
qed

lemma demo_peer_knows: "knows toy_crypto (demo_peer n m) (demo_peer m n)"
  by (simp add: knows_def demo_peer_def live_neighbor_def demo_node_parts demo_cert_parts)
     (simp add: verified_facts_def demo_cert_parts)

lemma demo_directed:
  obtains trailer s1 where "verify_directed toy_crypto default_auth_profile (own_mac (demo_peer 4 8)) [66, 1] trailer (demo_peer 8 4) = (True, s1)"
proof -
  have ok: "auth_ok toy_crypto default_auth_profile (demo_peer n m)" for n m
    by (rule demo_peer_ok) (simp add: default_auth_profile_def MAX_NEIGHBOR_KEYS_def)
  have "in_step default_auth_profile (demo_peer 4 8) (demo_peer 8 4)" "oa_send_counter (demo_peer 4 8) = 0"
    by (simp_all add: in_step_def demo_peer_def demo_node_parts default_auth_profile_def MAX_NEIGHBOR_KEYS_def im_get_def)
  with directed_once [where s = "demo_peer 4 8" and r = "demo_peer 8 4" and trailer = "replicate 24 0" and frame = "[66, 1]",
      OF toy_crypto_ok demo_peer_knows demo_peer_knows ok ok] that
  show thesis by (auto simp: DIRECTED_TRAILER_LEN_def TAG_LEN_def)
qed

theorem frames_delivered_once_witness:
  "\<exists>tr s' r'. tag_directed toy_crypto (own_mac (demo_peer 8 4)) [66, 1] (replicate 72 0) (demo_peer 4 8) = (Some (24, tr), s')
     \<and> verify_directed toy_crypto default_auth_profile (own_mac (demo_peer 4 8)) [66, 1] (take 24 tr) (demo_peer 8 4) = (True, r')
     \<and> \<not> fst (verify_directed toy_crypto default_auth_profile (own_mac (demo_peer 4 8)) [66, 1] (take 24 tr) r')"
proof -
  let ?P = default_auth_profile
  have "0 < ap_neighbor_keys ?P" by (simp add: default_auth_profile_def MAX_NEIGHBOR_KEYS_def)
  note ok = demo_peer_ok [OF this]
  have "in_step ?P (demo_peer 4 8) (demo_peer 8 4)" "oa_send_counter (demo_peer 4 8) = 0"
    "\<not> is_revoked (verified_facts (oa_cert (demo_peer 4 8))) (demo_peer 8 4)"
    by (simp_all add: in_step_def demo_peer_def demo_node_parts is_revoked_def default_auth_profile_def MAX_NEIGHBOR_KEYS_def im_get_def)
  then show ?thesis
    using frames_delivered_once [where s = "demo_peer 4 8" and r = "demo_peer 8 4" and trailer = "replicate 72 0"
        and frame = "[66, 1]" and len = 0 and buf = "replicate 72 0", OF toy_crypto_ok demo_peer_knows demo_peer_knows ok ok]
    by (simp add: KEEPALIVE_COUNTER_TAG_def MAX_TRAILER_LEN_def DIRECTED_TRAILER_LEN_def FANOUT_TRAILER_LEN_def TAG_LEN_def SIG_LEN_def KEEPALIVE_TRAILER_LEN_def)
qed

section \<open>Next-hop proofs\<close>

lemma position_keyed:
  assumes "distinct (map key xs)" "x \<in> set xs"
  obtains i where "position (\<lambda>y. key y = key x) xs = Some i" "i < length xs" "xs ! i = x"
proof -
  obtain i where i: "position (\<lambda>y. key y = key x) xs = Some i"
    using assms(2) by (cases "position (\<lambda>y. key y = key x) xs") (auto simp: position_None)
  with position_Some [OF i] assms have "xs ! i = x" by (auto simp: distinct_map dest: inj_onD)
  with that i position_Some [OF i] show thesis by blast
qed

lemma live_neighbor_cong [simp]:
  "live_neighbor m (s\<lparr>oa_challenge_counter := a, oa_in_progress := b\<rparr>) = live_neighbor m s"
  "live_neighbor m (s\<lparr>oa_restart_candidate := c\<rparr>) = live_neighbor m s"
  by (simp_all add: live_neighbor_def)

text \<open>A challenged neighbour's answer is accepted, consumes the challenge, and redeems the restart claim.\<close>

lemma challenge_answered:
  assumes "crypto_ok C" "knows C s r" "knows C r s" "auth_ok C P s" "auth_ok C Q r" "oa_challenge_counter s \<noteq> - 1"
  obtains nonce s1 tag where "issue_challenge C (own_mac r) s = Some (Some nonce, s1)" "length nonce = CHALLENGE_NONCE_LEN"
    "answer_challenge C (own_mac s) nonce r = Some tag" "length tag = TAG_LEN" "auth_ok C P s1"
    "oa_recv_counters s1 = oa_recv_counters s" "live_neighbor m s1 = live_neighbor m s"
    "list_ex (\<lambda>c. oc_neighbor c = own_mac r) (oa_in_progress s1)" "oa_cert s1 = oa_cert s"
    "\<forall>claim. verify_challenge_response C P (own_mac r) tag (s1\<lparr>oa_restart_candidate := claim\<rparr>)
       = (True, (let t = s1\<lparr>oa_restart_candidate := None, oa_in_progress := vec_remove_first (\<lambda>c. oc_neighbor c = own_mac r) (oa_in_progress s1)\<rparr>
                in case claim of Some (m, c) \<Rightarrow> if m = own_mac r then snd (anchor_recv_counter P m c t) else t | None \<Rightarrow> t))"
proof -
  obtain key n n' where keys: "live_neighbor (own_mac r) s = Some n" "nk_pairwise_key n = key"
      "live_neighbor (own_mac s) r = Some n'" "nk_pairwise_key n' = key"
    by (rule shared_key [OF assms(1-5)])
  note tab = tables_okD [OF auth_okD(1) [OF assms(4)]]
  from assms(1) tab(7) show thesis
  proof (cases rule: issue_challenge_cases [where m = "own_mac r"])
    case refused
    with assms(6) keys(1) show thesis by simp
  next
    case (issued k entry cs)
    define s1 where "s1 = s\<lparr>oa_challenge_counter := oa_challenge_counter s + 1, oa_in_progress := cs\<rparr>"
    have ip: "oa_in_progress s1 = cs" by (simp add: s1_def)
    have e: "oc_neighbor entry = own_mac r" using issued(3) by simp
    have nonce: "length (oc_nonce entry) = CHALLENGE_NONCE_LEN" using issued(3) assms(1) by (simp add: CHALLENGE_NONCE_LEN_def)
    define tag where "tag = frame_tag C key 0 (resp_context (own_mac r)) (oc_nonce entry)"
    have d: "distinct (map oc_neighbor cs)" using issued(5) by (simp add: vec_ok_def)
    obtain i where i: "position (\<lambda>c. oc_neighbor c = own_mac r) cs = Some i" "i < length cs" "cs ! i = entry"
      using position_keyed [OF d issued(6)] e by metis
    have removed: "vec_swap_remove i cs = vec_remove_first (\<lambda>c. oc_neighbor c = own_mac r) cs"
      using i(1) by (simp add: vec_remove_first_def)
    have live: "live_neighbor m s1 = live_neighbor m s" for m by (simp add: s1_def)
    have tag: "length tag = TAG_LEN" using assms(1) by (simp add: tag_def)
    have vouch: "verify_frame_tag C (nk_pairwise_key n) 0 (resp_context (own_mac r)) (oc_nonce entry) tag"
      using keys(2) by (simp add: tag_def verify_frame_tag_def)
    have resp: "verify_challenge_response C P (own_mac r) tag (s1\<lparr>oa_restart_candidate := claim\<rparr>)
        = (True, (let t = s1\<lparr>oa_restart_candidate := None, oa_in_progress := vec_remove_first (\<lambda>c. oc_neighbor c = own_mac r) (oa_in_progress s1)\<rparr>
                in case claim of Some (m, c) \<Rightarrow> if m = own_mac r then snd (anchor_recv_counter P m c t) else t | None \<Rightarrow> t))" for claim
      using tag i keys(1) live vouch unfolding verify_challenge_response_def Let_def
      by (auto simp: ip removed split: option.split)
    have "answer_challenge C (own_mac s) (oc_nonce entry) r = Some tag"
      using nonce keys(3,4) by (simp add: answer_challenge_def tag_def)
    moreover have "auth_ok C P s1" using issue_challenge_auth_ok [OF assms(1,4), of "own_mac r"] issued(4) by (simp add: s1_def)
    moreover have "list_ex (\<lambda>c. oc_neighbor c = own_mac r) (oa_in_progress s1)" using issued(6) e by (auto simp: ip list_ex_iff)
    ultimately show thesis
      using that [of "oc_nonce entry" s1 tag] issued(4) nonce tag live resp by (simp add: s1_def)
  qed
qed

lemma response_consumed:
  assumes "vec_ok MAX_IN_PROGRESS_PROOF oc_neighbor (oa_in_progress s)"
    and "oa_in_progress t = vec_remove_first (\<lambda>c. oc_neighbor c = m) (oa_in_progress s)"
  shows "\<not> fst (verify_challenge_response C P m tag t)"
proof -
  have "set (oa_in_progress t) = {c \<in> set (oa_in_progress s). oc_neighbor c \<noteq> m}"
    using assms by (simp add: vec_ok_def vec_remove_first_keyed(2))
  then have "position (\<lambda>c. oc_neighbor c = m) (oa_in_progress t) = None" by (simp add: position_None)
  then show ?thesis by (simp add: verify_challenge_response_def Let_def)
qed

lemma anchor_moves_high:
  assumes "im_get (oa_recv_counters s) m = Some h"
  shows "im_get (oa_recv_counters (snd (anchor_recv_counter P m c s))) m = Some c"
    "oa_in_progress (snd (anchor_recv_counter P m c s)) = oa_in_progress s" "oa_cert (snd (anchor_recv_counter P m c s)) = oa_cert s"
  using assms by (simp_all add: anchor_recv_counter_def im_contains_def im_get_set)

text \<open>
  C26. A rebooted neighbour recovers. Node \<open>r\<close> lost its send counter, so that the frames it tags are behind
  what \<open>s\<close> holds and refused. When \<open>s\<close> challenges it, \<open>r\<close> answers, and the response frame, although stale,
  passes the check reserved for responses; the nonce it answers then moves the guard of \<open>s\<close> to the counter
  of that frame, after which \<open>s\<close> is in step with \<open>r\<close> again. The same response proves nothing twice.
\<close>

theorem rebooted_peer_recovers:
  assumes "crypto_ok C" "knows C s r" "knows C r s" "auth_ok C P s" "auth_ok C Q r"
    and "oa_challenge_counter s \<noteq> - 1" "oa_send_counter r \<noteq> - 1" "DIRECTED_TRAILER_LEN \<le> length trailer" "18 \<le> tx_len"
    and "im_get (oa_recv_counters s) (own_mac r) = Some h" "oa_send_counter r + 1 \<le> h"
  shows "\<exists>nonce s1 f tr r' s2 s3. issue_challenge C (own_mac r) s = Some (Some nonce, s1)
    \<and> answer_challenge_frame C (own_mac s) nonce tx_len r = Some f
    \<and> tag_directed C (own_mac s) (fd_payload f) trailer r = (Some (DIRECTED_TRAILER_LEN, tr), r')
    \<and> \<not> fst (verify_directed C P (own_mac r) (fd_payload f) (take DIRECTED_TRAILER_LEN tr) s1)
    \<and> verify_directed_nonce_fresh C P (own_mac r) (fd_payload f) (take DIRECTED_TRAILER_LEN tr) s1 = (True, s2)
    \<and> verify_challenge_response C P (own_mac r) (drop MINIMAL_SIZE (fd_payload f)) s2 = (True, s3)
    \<and> in_step P r' s3 \<and> \<not> fst (verify_challenge_response C P (own_mac r) (drop MINIMAL_SIZE (fd_payload f)) s3)"
proof -
  obtain nonce s1 tag where ch: "issue_challenge C (own_mac r) s = Some (Some nonce, s1)" "length nonce = CHALLENGE_NONCE_LEN"
      "answer_challenge C (own_mac s) nonce r = Some tag" "length tag = TAG_LEN" "auth_ok C P s1"
      "oa_recv_counters s1 = oa_recv_counters s" "live_neighbor (own_mac r) s1 = live_neighbor (own_mac r) s"
      "list_ex (\<lambda>c. oc_neighbor c = own_mac r) (oa_in_progress s1)" "oa_cert s1 = oa_cert s"
      "\<forall>claim. verify_challenge_response C P (own_mac r) tag (s1\<lparr>oa_restart_candidate := claim\<rparr>)
       = (True, (let t = s1\<lparr>oa_restart_candidate := None, oa_in_progress := vec_remove_first (\<lambda>c. oc_neighbor c = own_mac r) (oa_in_progress s1)\<rparr>
                in case claim of Some (m, c) \<Rightarrow> if m = own_mac r then snd (anchor_recv_counter P m c t) else t | None \<Rightarrow> t))"
    by (rule challenge_answered [OF assms(1-6), where m = "own_mac r"])
  obtain key n n' where keys: "live_neighbor (own_mac s) r = Some n" "nk_pairwise_key n = key"
      "live_neighbor (own_mac r) s = Some n'" "nk_pairwise_key n' = key"
    by (rule shared_key [OF assms(1,3,2,5,4)])
  let ?c = "oa_send_counter r + 1" and ?r = "r\<lparr>oa_send_counter := oa_send_counter r + 1\<rparr>"
  define f where "f = \<lparr>fd_dst = own_mac s, fd_protocol = ETH_P_BATMAN,
    fd_payload = minimal_write \<lparr>mp_packet_type = packet_type_as_u8 NextHopResponse, mp_version = BATMAN_VERSION\<rparr> @ tag\<rparr>"
  have f: "answer_challenge_frame C (own_mac s) nonce tx_len r = Some f" "drop MINIMAL_SIZE (fd_payload f) = tag"
      "fd_payload f \<noteq> []" "hd (fd_payload f) = packet_type_as_u8 NextHopResponse"
    using ch(3,4) assms(9) by (simp_all add: answer_challenge_frame_def f_def minimal_write_def MINIMAL_SIZE_def TAG_LEN_def)
  define ftag where "ftag = frame_tag C key ?c (mac_bytes (own_mac r)) (fd_payload f)"
  have tr: "take DIRECTED_TRAILER_LEN (write_trailer ?c ftag trailer) = u64_to_be ?c @ ftag"
    "directed_counter (u64_to_be ?c @ ftag) = ?c" "length (u64_to_be ?c @ ftag) = DIRECTED_TRAILER_LEN"
    using write_trailer_parts [of ftag trailer ?c] assms(1,8) by (simp_all add: ftag_def DIRECTED_TRAILER_LEN_def)
  have sent: "tag_directed C (own_mac s) (fd_payload f) trailer r = (Some (DIRECTED_TRAILER_LEN, write_trailer ?c ftag trailer), ?r)"
    using assms(7,8) keys(1,2) by (simp add: tag_directed_def next_send_counter_def ftag_def Let_def)
  have vtag: "verify_directed_tag C (own_mac r) (fd_payload f) (u64_to_be ?c @ ftag) s1 = Some ?c"
    using ch(7) keys(3,4) tr(2,3)
    by (simp add: verify_directed_tag_def verify_frame_tag_def ftag_def directed_counter_def Let_def)
  have stale: "accept_recv_counter P (own_mac r) ?c s1 = (CounterStale, s1)"
    using ch(6) assms(10,11) by (simp add: accept_recv_counter_def)
  have fresh: "verify_directed_nonce_fresh C P (own_mac r) (fd_payload f) (u64_to_be ?c @ ftag) s1
      = (True, s1\<lparr>oa_restart_candidate := Some (own_mac r, ?c)\<rparr>)"
    using f(3,4) vtag stale ch(8) by (simp add: verify_directed_nonce_fresh_def)
  define t where "t = s1\<lparr>oa_restart_candidate := None, oa_in_progress := vec_remove_first (\<lambda>c. oc_neighbor c = own_mac r) (oa_in_progress s1)\<rparr>"
  define s3 where "s3 = snd (anchor_recv_counter P (own_mac r) ?c t)"
  have resp: "verify_challenge_response C P (own_mac r) tag (s1\<lparr>oa_restart_candidate := Some (own_mac r, ?c)\<rparr>) = (True, s3)"
    using ch(10) [rule_format, of "Some (own_mac r, ?c)"] by (simp add: s3_def t_def)
  have high: "im_get (oa_recv_counters t) (own_mac r) = Some h" using ch(6) assms(10) by (simp add: t_def)
  note moved = anchor_moves_high [OF high, of P ?c]
  have "in_step P ?r s3" using moved(1) by (simp add: in_step_def s3_def)
  moreover have "\<not> fst (verify_challenge_response C P (own_mac r) tag s3)"
    using response_consumed [OF tables_okD(7) [OF auth_okD(1) [OF ch(5)]], of s3 "own_mac r"] moved(2) by (simp add: s3_def t_def)
  moreover have "\<not> fst (verify_directed C P (own_mac r) (fd_payload f) (u64_to_be ?c @ ftag) s1)"
    using vtag stale by (simp add: verify_directed_def)
  ultimately show ?thesis
    using ch(1) f(1,2) sent fresh resp tr(1)
    by (intro exI [of _ nonce] exI [of _ s1] exI [of _ f] exI [of _ "write_trailer ?c ftag trailer"] exI [of _ ?r]
        exI [of _ "s1\<lparr>oa_restart_candidate := Some (own_mac r, ?c)\<rparr>"] exI [of _ s3]) simp
qed

theorem rebooted_peer_recovers_witness:
  "let s = (demo_peer 4 8)\<lparr>oa_recv_counters := [(own_mac (demo_peer 8 4), 500)]\<rparr>
   in \<exists>nonce s1 f tr r' s2 s3. issue_challenge toy_crypto (own_mac (demo_peer 8 4)) s = Some (Some nonce, s1)
     \<and> answer_challenge_frame toy_crypto (own_mac s) nonce 18 (demo_peer 8 4) = Some f
     \<and> tag_directed toy_crypto (own_mac s) (fd_payload f) (replicate 24 0) (demo_peer 8 4) = (Some (DIRECTED_TRAILER_LEN, tr), r')
     \<and> verify_directed_nonce_fresh toy_crypto default_auth_profile (own_mac (demo_peer 8 4)) (fd_payload f) (take DIRECTED_TRAILER_LEN tr) s1 = (True, s2)
     \<and> verify_challenge_response toy_crypto default_auth_profile (own_mac (demo_peer 8 4)) (drop MINIMAL_SIZE (fd_payload f)) s2 = (True, s3)
     \<and> in_step default_auth_profile r' s3"
proof -
  let ?P = default_auth_profile
  let ?s = "(demo_peer 4 8)\<lparr>oa_recv_counters := [(own_mac (demo_peer 8 4), 500)]\<rparr>"
  have pos: "0 < ap_neighbor_keys ?P" by (simp add: default_auth_profile_def MAX_NEIGHBOR_KEYS_def)
  note ok = demo_peer_ok [OF this]
  have "tables_ok ?P ?s"
    using auth_okD(1) [OF ok, of 4 8] pos by (auto simp: tables_ok_def im_ok_def im_keys_def demo_peer_def demo_node_def with_capacities_def)
  then have s: "auth_ok toy_crypto ?P ?s" by (rule auth_ok_parts(1) [OF ok])
  have k: "knows toy_crypto ?s (demo_peer 8 4)" "knows toy_crypto (demo_peer 8 4) ?s"
    using demo_peer_knows [of 4 8] demo_peer_knows [of 8 4] by (simp_all add: knows_def live_neighbor_def)
  have "oa_challenge_counter ?s = 0" "oa_send_counter (demo_peer 8 4) = 0" "im_get (oa_recv_counters ?s) (own_mac (demo_peer 8 4)) = Some 500"
    by (simp_all add: demo_peer_def demo_node_def with_capacities_def im_get_def)
  with rebooted_peer_recovers [where s = ?s and r = "demo_peer 8 4" and trailer = "replicate 24 0" and tx_len = 18 and h = 500, OF toy_crypto_ok k s ok]
  show ?thesis unfolding Let_def by (simp add: DIRECTED_TRAILER_LEN_def TAG_LEN_def) blast
qed

end
