(* ===== verification/Cert_Exchange.thy ===== *)
theory Cert_Exchange
  imports Frame_Exchange
begin

text \<open>
  The two certificate exchanges end to end: a node that could not resolve a fingerprint asks for the
  certificate and both ends then hold each other's; a node whose certificate nears its end asks its
  authority, which verifies the request, and installs the certificate that comes back.
\<close>

section \<open>Certificates that verify\<close>

lemma member_verifies:
  assumes "member C k cert a" "\<not> proves_before w (ct_not_before cert)" "\<not> proves_past w (ct_not_after cert)"
  shows "verify_cert C a cert w = Inr (verified_facts cert)"
proof -
  obtain v where v: "verify_cert C a cert Unknown = Inr v" using assms(1) by (auto simp: member_def)
  with verify_cert_facts(1) [OF v] have "verify_cert C a cert Unknown = Inr (verified_facts cert)" by simp
  with assms(2,3) show ?thesis using verify_cert_Inr by blast
qed

lemma cached_live:
  assumes "auth_ok C P s" "0 < ap_neighbor_keys P" "\<not> proves_past (oa_wall s) (vc_not_after (nk_cert k))"
    and "\<not> identity_conflict (nk_mac k) (vc_ed_pubkey (nk_cert k)) s"
  shows "fst (cache_neighbor P k s) = Stored" "live_neighbor (nk_mac k) (snd (cache_neighbor P k s)) = Some k"
proof -
  have "fst (cache_neighbor P k s) = Stored \<and> live_neighbor (nk_mac k) (snd (cache_neighbor P k s)) = Some k"
    using tables_okD(1) [OF auth_okD(1) [OF assms(1)]]
  proof (cases rule: cache_neighbor_cases [where k = k])
    case (stored ns g u)
    then have "k \<in> set ns" "distinct (map nk_mac ns)" using assms(2) by (auto simp: vec_ok_def)
    with stored(1) assms(3) show ?thesis by (simp add: live_neighbor_iff)
  qed (use assms(4) in simp)
  then show "fst (cache_neighbor P k s) = Stored" "live_neighbor (nk_mac k) (snd (cache_neighbor P k s)) = Some k" by blast+
qed

lemma cache_frame:
  assumes "auth_ok C P s"
  shows "oa_in_flight (snd (cache_neighbor P k s)) = oa_in_flight s" "oa_cert (snd (cache_neighbor P k s)) = oa_cert s"
    "oa_keypair (snd (cache_neighbor P k s)) = oa_keypair s" "oa_wall (snd (cache_neighbor P k s)) = oa_wall s"
  using tables_okD(1) [OF auth_okD(1) [OF assms]] by (cases rule: cache_neighbor_cases [where k = k]; simp)+

section \<open>Fetching a certificate\<close>

text \<open>What the responder needs to answer a requester it trusts.\<close>

definition would_admit :: "crypto \<Rightarrow> ogm_auth \<Rightarrow> ogm_auth \<Rightarrow> bool" where
  "would_admit C r s \<longleftrightarrow> oa_anchor r = oa_anchor s \<and> \<not> proves_before (oa_wall r) (ct_not_before (oa_cert s))
     \<and> \<not> proves_past (oa_wall r) (ct_not_after (oa_cert s)) \<and> \<not> is_revoked (verified_facts (oa_cert s)) r
     \<and> \<not> identity_conflict (own_mac s) (ct_ed_pubkey (oa_cert s)) r \<and> ct_x_pubkey (oa_cert s) = x_pubkey C (oa_keypair s)"

lemma would_admitD:
  assumes "would_admit C r s" "auth_ok C P s" "crypto_ok C"
  shows "verify_cert C (oa_anchor r) (oa_cert s) (oa_wall r) = Inr (verified_facts (oa_cert s))" "cert_ok (oa_cert s)"
    "\<exists>key. pairwise_key C k (ct_x_pubkey (oa_cert s)) = Inr key"
    "vc_mac (verified_facts (oa_cert s)) = own_mac s" "vc_ed_pubkey (verified_facts (oa_cert s)) = ct_ed_pubkey (oa_cert s)"
    "vc_x_pubkey (verified_facts (oa_cert s)) = ct_x_pubkey (oa_cert s)" "vc_not_after (verified_facts (oa_cert s)) = ct_not_after (oa_cert s)"
    "ct_ed_pubkey (oa_cert s) = ed_pubkey C (oa_keypair s)"
proof -
  have m: "member C (oa_keypair s) (oa_cert s) (oa_anchor r)" using auth_okD(2) [OF assms(2)] assms(1) by (simp add: would_admit_def)
  then show "verify_cert C (oa_anchor r) (oa_cert s) (oa_wall r) = Inr (verified_facts (oa_cert s))"
    using assms(1) by (auto simp: would_admit_def intro: member_verifies)
  show "cert_ok (oa_cert s)" "ct_ed_pubkey (oa_cert s) = ed_pubkey C (oa_keypair s)" using m by (simp_all add: member_def)
  show "\<exists>key. pairwise_key C k (ct_x_pubkey (oa_cert s)) = Inr key"
    using assms(1) pairwise_key_agrees(2) [OF assms(3)] by (simp add: would_admit_def)
qed (simp_all add: verified_facts_def)

lemma request_sent:
  assumes "crypto_ok C" "auth_ok C P s" "orig \<notin> if_orig ` set (oa_in_flight s)" "length (oa_in_flight s) < ap_in_flight P"
    and "ROUTED_SIZE + CERT_LEN + SIG_LEN \<le> length tx"
  obtains f s1 where "build_cert_req_frame C P orig fp hop tx s = (Some f, s1)"
    "drop ROUTED_SIZE (fd_payload f) = cert_write (oa_cert s) @ sign C (oa_keypair s) (cert_req_message orig (own_mac s))"
    "s1 = s\<lparr>oa_in_flight := oa_in_flight s @ [\<lparr>if_orig = orig, if_fp = fp, if_first_hop = hop, if_attempts = 1,
       if_next_attempt = oa_now s + CERT_REQUEST_RETRY\<rparr>]\<rparr>" "auth_ok C P s1"
proof -
  define s1 where "s1 = s\<lparr>oa_in_flight := oa_in_flight s @ [\<lparr>if_orig = orig, if_fp = fp, if_first_hop = hop, if_attempts = 1,
       if_next_attempt = oa_now s + CERT_REQUEST_RETRY\<rparr>]\<rparr>"
  have "find (\<lambda>r. if_orig r = orig) (oa_in_flight s) = None" using assms(3) by (simp add: find_keyed_None)
  then have t: "track_request P orig fp hop s = (True, s1)"
    using assms(4) by (simp add: track_request_def vec_push_def Let_def s1_def)
  have len: "length (cert_write (oa_cert s)) = CERT_LEN" using auth_okD(2) [OF assms(2)] cert_write_length by (simp add: member_def)
  define body where "body = cert_write (oa_cert s) @ sign C (oa_keypair s) (cert_req_message orig (own_mac s))"
  have lb: "length body = CERT_LEN + SIG_LEN" using len assms(1) by (simp add: body_def SIG_LEN_def)
  have b: "build_cert_request C P orig fp hop (drop ROUTED_SIZE tx) s = (Some (CERT_LEN + SIG_LEN, body @ drop (CERT_LEN + SIG_LEN) (drop ROUTED_SIZE tx)), s1)"
    using t len assms(1,5) by (simp add: build_cert_request_def Let_def s1_def body_def SIG_LEN_def)
  have "auth_ok C P s1" using build_cert_request_auth_ok [OF assms(2), of C orig fp hop "drop ROUTED_SIZE tx"] b by simp
  then show thesis
    using that b assms(5) lb by (simp add: build_cert_req_frame_def body_def s1_def header_sizes)
qed

text \<open>Whether the rate limit lets a request from this node through.\<close>

definition rate_open :: "duration \<Rightarrow> duration \<Rightarrow> mac \<Rightarrow> (mac, duration) imap \<Rightarrow> bool" where
  "rate_open limit now m rates \<longleftrightarrow> (case im_get rates m of Some at \<Rightarrow> limit \<le> now - at | None \<Rightarrow> True)"

lemma rate_open_accepts: "rate_open limit now m rates \<Longrightarrow> \<exists>rates'. rate_limited cap limit now m rates = Some rates'"
  by (auto simp: rate_open_def rate_limited_def split: option.splits)

lemma request_verified:
  assumes "crypto_ok C" "would_admit C r s" "auth_ok C P s" "auth_ok C Q r" "0 < ap_neighbor_keys Q"
    and "rate_open CERT_REQ_RATE_LIMIT (oa_now r) (own_mac s) (oa_cert_req_rate r)"
    and "body = cert_write (oa_cert s) @ sign C (oa_keypair s) (cert_req_message (own_mac r) (own_mac s))"
  obtains r1 where "verify_cert_request C Q body r = (Some (own_mac s), r1)" "knows C r1 s" "auth_ok C Q r1"
    "oa_cert r1 = oa_cert r" "oa_keypair r1 = oa_keypair r"
proof -
  note w = would_admitD [OF assms(2,3,1)]
  obtain key where key: "pairwise_key C (oa_keypair r) (ct_x_pubkey (oa_cert s)) = Inr key" using w(3) by blast
  obtain rates where rates: "rate_limited (ap_neighbor_keys Q) CERT_REQ_RATE_LIMIT (oa_now r) (own_mac s) (oa_cert_req_rate r) = Some rates"
    using rate_open_accepts [OF assms(6)] by blast
  define r0 where "r0 = r\<lparr>oa_cert_req_rate := rates\<rparr>"
  have ok0: "auth_ok C Q r0"
    unfolding r0_def by (rule auth_ok_parts(6) [OF assms(4) rate_limited_ok [OF tables_okD(11) [OF auth_okD(1) [OF assms(4)]] rates]])
  define k where "k = \<lparr>nk_cert = verified_facts (oa_cert s), nk_pairwise_key = key, nk_raw_cert = oa_cert s, nk_last_ogm = None\<rparr>"
  define r1 where "r1 = snd (cache_neighbor Q k r0)"
  have frame: "oa_wall r0 = oa_wall r" "oa_neighbors r0 = oa_neighbors r" "oa_cert r0 = oa_cert r" "oa_keypair r0 = oa_keypair r"
    by (simp_all add: r0_def)
  have len: "length (cert_write (oa_cert s)) = CERT_LEN" by (rule cert_write_length [OF w(2)])
  have parts: "length body = CERT_LEN + SIG_LEN" "take CERT_LEN body = cert_write (oa_cert s)"
      "drop CERT_LEN body = sign C (oa_keypair s) (cert_req_message (own_mac r) (own_mac s))"
    using len assms(1,7) by (simp_all add: SIG_LEN_def)
  have "cert_read (cert_write (oa_cert s)) = Some (oa_cert s, [])" using cert_read_write [OF w(2), of "[]"] by simp
  moreover have "accept_cert_request_rate Q (own_mac s) r = (True, r0)" using rates by (simp add: accept_cert_request_rate_def r0_def)
  ultimately have v: "verify_cert_request C Q body r = (Some (own_mac s), r1)"
    using parts w assms(1,2) key by (simp add: verify_cert_request_def Let_def would_admit_def sign_verifies frame k_def r1_def)
  have "\<not> identity_conflict (nk_mac k) (vc_ed_pubkey (nk_cert k)) r0" "\<not> proves_past (oa_wall r0) (vc_not_after (nk_cert k))"
    using assms(2) w(4,5,7) by (simp_all add: k_def would_admit_def identity_conflict_def frame)
  then have "live_neighbor (own_mac s) r1 = Some k"
    using cached_live(2) [OF ok0 assms(5), of k] w(4) by (simp add: k_def r1_def)
  then have "knows C r1 s" using assms(2) by (simp add: knows_def k_def would_admit_def)
  moreover have "auth_ok C Q r1" using verify_cert_request_auth_ok [OF assms(4), of body] v by simp
  ultimately show thesis using that v cache_frame [OF ok0, of k] by (simp add: r1_def frame)
qed

lemma reply_ingested:
  assumes "crypto_ok C" "would_admit C s r" "auth_ok C P s" "auth_ok C Q r" "0 < ap_neighbor_keys P"
    and "own_mac r \<in> if_orig ` set (oa_in_flight s)"
  obtains s2 where "ingest_cert_reply C P (cert_write (oa_cert r)) s = (True, s2)" "knows C s2 r" "auth_ok C P s2"
    "own_mac r \<notin> if_orig ` set (oa_in_flight s2)" "oa_cert s2 = oa_cert s" "oa_keypair s2 = oa_keypair s"
proof -
  note w = would_admitD [OF assms(2,4,1)]
  obtain key where key: "pairwise_key C (oa_keypair s) (ct_x_pubkey (oa_cert r)) = Inr key" using w(3) by blast
  obtain e where e: "e \<in> set (oa_in_flight s)" "if_orig e = own_mac r" using assms(6) by auto
  note fl = tables_okD(9) [OF auth_okD(1) [OF assms(3)]]
  have d: "distinct (map if_orig (oa_in_flight s))" using fl by (simp add: vec_ok_def)
  obtain i where i: "position (\<lambda>q. if_orig q = own_mac r) (oa_in_flight s) = Some i" "i < length (oa_in_flight s)" "oa_in_flight s ! i = e"
    using position_keyed [OF d e(1)] e(2) by metis
  define k where "k = \<lparr>nk_cert = verified_facts (oa_cert r), nk_pairwise_key = key, nk_raw_cert = oa_cert r, nk_last_ogm = None\<rparr>"
  define s1 where "s1 = snd (cache_neighbor P k s)"
  define s2 where "s2 = s1\<lparr>oa_in_flight := vec_swap_remove i (oa_in_flight s1)\<rparr>"
  have "\<not> identity_conflict (nk_mac k) (vc_ed_pubkey (nk_cert k)) s" "\<not> proves_past (oa_wall s) (vc_not_after (nk_cert k))"
    using assms(2) w(4,5,7) by (simp_all add: k_def would_admit_def)
  note live = cached_live [OF assms(3,5) this(2,1)]
  have c: "cache_neighbor P k s = (Stored, s1)" using live(1) by (simp add: s1_def prod_eq_iff)
  have "cert_read (cert_write (oa_cert r)) = Some (oa_cert r, [])" using cert_read_write [OF w(2), of "[]"] by simp
  then have ing: "ingest_cert_reply C P (cert_write (oa_cert r)) s = (True, s2)"
    unfolding ingest_cert_reply_def using w(1,4,6) i(1) key c [unfolded k_def] by (simp add: s2_def)
  have kn: "knows C s2 r" using live(2) assms(2) w(4) by (simp add: knows_def s2_def s1_def live_neighbor_def k_def would_admit_def)
  have "set (oa_in_flight s2) = {q \<in> set (oa_in_flight s). if_orig q \<noteq> own_mac r}"
    using vec_swap_remove_keyed(2) [OF d i(2)] unfolding i(3) e(2) by (simp add: s2_def s1_def cache_frame(1) [OF assms(3)])
  then have "own_mac r \<notin> if_orig ` set (oa_in_flight s2)" by auto
  moreover have "auth_ok C P s2" using ingest_cert_reply_auth_ok [OF assms(3), of "cert_write (oa_cert r)"] ing by simp
  moreover have "oa_cert s2 = oa_cert s" "oa_keypair s2 = oa_keypair s" by (simp_all add: s2_def s1_def cache_frame(2,3) [OF assms(3)])
  ultimately show thesis using that ing kn by blast
qed

text \<open>
  C27. Fetching a certificate completes. When two members would admit each other and the requester has a
  slot for the request, the frame it builds, taken in by the originator it names, is answered with the
  originator's certificate over the route back, and the requester that ingests the reply holds the
  originator's key and has closed the request; the originator holds the requester's. Both states keep the
  authenticator's invariant.
\<close>

theorem fetch_completes:
  assumes "crypto_ok C" "auth_ok C P s" "auth_ok C Q r" "0 < ap_neighbor_keys P" "0 < ap_neighbor_keys Q"
    and "would_admit C r s" "would_admit C s r"
    and "own_mac r \<notin> if_orig ` set (oa_in_flight s)" "length (oa_in_flight s) < ap_in_flight P"
    and "rate_open CERT_REQ_RATE_LIMIT (oa_now r) (own_mac s) (oa_cert_req_rate r)"
    and "ROUTED_SIZE + CERT_LEN + SIG_LEN \<le> length tx" "route (own_mac s) = Some nh" "ROUTED_SIZE + CERT_LEN \<le> length (fd_payload reply)"
  shows "\<exists>f s1 total rep r1 s2. build_cert_req_frame C P (own_mac r) fp hop tx s = (Some f, s1)
    \<and> answer_cert_request C Q route (drop ROUTED_SIZE (fd_payload f)) reply r = (Some (nh, total), rep, r1)
    \<and> ingest_cert_reply C P (drop ROUTED_SIZE (take total (fd_payload rep))) s1 = (True, s2)
    \<and> knows C s2 r1 \<and> knows C r1 s2 \<and> own_mac r \<notin> if_orig ` set (oa_in_flight s2) \<and> auth_ok C P s2 \<and> auth_ok C Q r1"
proof -
  obtain f s1 where f: "build_cert_req_frame C P (own_mac r) fp hop tx s = (Some f, s1)"
      "drop ROUTED_SIZE (fd_payload f) = cert_write (oa_cert s) @ sign C (oa_keypair s) (cert_req_message (own_mac r) (own_mac s))"
      "s1 = s\<lparr>oa_in_flight := oa_in_flight s @ [\<lparr>if_orig = own_mac r, if_fp = fp, if_first_hop = hop, if_attempts = 1,
         if_next_attempt = oa_now s + CERT_REQUEST_RETRY\<rparr>]\<rparr>" "auth_ok C P s1"
    by (rule request_sent [OF assms(1,2,8,9,11)])
  obtain r1 where r1: "verify_cert_request C Q (drop ROUTED_SIZE (fd_payload f)) r = (Some (own_mac s), r1)" "knows C r1 s" "auth_ok C Q r1"
      "oa_cert r1 = oa_cert r" "oa_keypair r1 = oa_keypair r"
    by (rule request_verified [OF assms(1,6,2,3,5,10) f(2)])
  have "own_mac r \<in> if_orig ` set (oa_in_flight s1)" "would_admit C s1 r"
    using assms(7) by (simp_all add: f(3) would_admit_def is_revoked_def identity_conflict_def)
  from this(2,1) obtain s2 where s2: "ingest_cert_reply C P (cert_write (oa_cert r)) s1 = (True, s2)" "knows C s2 r" "auth_ok C P s2"
      "own_mac r \<notin> if_orig ` set (oa_in_flight s2)" "oa_cert s2 = oa_cert s1" "oa_keypair s2 = oa_keypair s1"
    by (rule reply_ingested [OF assms(1) _ f(4) assms(3,4)])
  have len: "length (cert_write (oa_cert r)) = CERT_LEN" using auth_okD(2) [OF assms(3)] cert_write_length by (simp add: member_def)
  let ?out = "cert_reply_bytes (own_mac s) r1"
  have out: "length ?out = ROUTED_SIZE + CERT_LEN" "drop ROUTED_SIZE ?out = cert_write (oa_cert r)"
    using len r1(4) by (simp_all add: cert_reply_bytes_def header_sizes)
  have ans: "answer_cert_request C Q route (drop ROUTED_SIZE (fd_payload f)) reply r
      = (Some (nh, length ?out), reply\<lparr>fd_payload := ?out @ drop (length ?out) (fd_payload reply)\<rparr>, r1)"
    using r1(1) assms(12,13) out(1) by (simp add: answer_cert_request_def Let_def)
  have "knows C s2 r1" "knows C r1 s2" using r1 s2 by (simp_all add: knows_def f(3))
  with f(1) ans s2 r1 out(2) show ?thesis
    by (intro exI [of _ f] exI [of _ s1] exI [of _ "length ?out"] exI [of _ "reply\<lparr>fd_payload := ?out @ drop (length ?out) (fd_payload reply)\<rparr>"]
        exI [of _ r1] exI [of _ s2]) simp
qed

lemma demo_would_admit: "would_admit toy_crypto (demo_node n) (demo_node m)"
  by (simp add: would_admit_def demo_cert_parts is_revoked_def identity_conflict_def)
    (simp add: demo_node_def with_capacities_def)

theorem fetch_completes_witness:
  "\<exists>f s1 total rep r1 s2. build_cert_req_frame toy_crypto default_auth_profile (own_mac (demo_node 8)) [1] (Mac 2 0 0 0 0 9) (replicate 300 0) (demo_node 4) = (Some f, s1)
    \<and> answer_cert_request toy_crypto default_auth_profile (\<lambda>_. Some (Mac 2 0 0 0 0 9)) (drop ROUTED_SIZE (fd_payload f))
        \<lparr>fd_dst = Mac 0 0 0 0 0 0, fd_protocol = 0, fd_payload = replicate 300 0\<rparr> (demo_node 8) = (Some (Mac 2 0 0 0 0 9, total), rep, r1)
    \<and> ingest_cert_reply toy_crypto default_auth_profile (drop ROUTED_SIZE (take total (fd_payload rep))) s1 = (True, s2)
    \<and> knows toy_crypto s2 r1 \<and> knows toy_crypto r1 s2"
proof -
  have e: "oa_in_flight (demo_node 4) = []" "oa_cert_req_rate (demo_node 8) = []" by (simp_all add: demo_node_def with_capacities_def)
  have "own_mac (demo_node 8) \<notin> if_orig ` set (oa_in_flight (demo_node 4))" "length (oa_in_flight (demo_node 4)) < ap_in_flight default_auth_profile"
    "rate_open CERT_REQ_RATE_LIMIT (oa_now (demo_node 8)) (own_mac (demo_node 4)) (oa_cert_req_rate (demo_node 8))"
    "0 < ap_neighbor_keys default_auth_profile"
    unfolding e by (simp_all add: default_auth_profile_def MAX_IN_FLIGHT_CERT_REQUESTS_def MAX_NEIGHBOR_KEYS_def rate_open_def im_get_def)
  then show ?thesis
    using fetch_completes [where s = "demo_node 4" and r = "demo_node 8" and P = default_auth_profile and Q = default_auth_profile
        and tx = "replicate 300 0" and fp = "[1]" and hop = "Mac 2 0 0 0 0 9" and route = "\<lambda>_. Some (Mac 2 0 0 0 0 9)" and nh = "Mac 2 0 0 0 0 9"
        and reply = "\<lparr>fd_dst = Mac 0 0 0 0 0 0, fd_protocol = 0, fd_payload = replicate 300 0\<rparr>",
        OF toy_crypto_ok demo_node_ok demo_node_ok _ _ demo_would_admit demo_would_admit]
    by (simp add: CERT_LEN_def SIG_LEN_def ROUTED_SIZE_def) blast
qed

section \<open>Renewing a certificate\<close>

lemma reclaim_frame:
  "oa_cert (reclaim_bookkeeping s) = oa_cert s" "oa_keypair (reclaim_bookkeeping s) = oa_keypair s"
  "oa_anchor (reclaim_bookkeeping s) = oa_anchor s" "oa_wall (reclaim_bookkeeping s) = oa_wall s" "oa_now (reclaim_bookkeeping s) = oa_now s"
  "oa_outstanding_renewal s = Some asked \<Longrightarrow> oa_now s - asked < OUTSTANDING_RENEWAL_TTL \<Longrightarrow> oa_outstanding_renewal (reclaim_bookkeeping s) = Some asked"
  by (simp_all add: reclaim_bookkeeping_def Let_def split: option.split)

lemma expiry_frame:
  assumes "s' = evict_expired_neighbors (prune_expired s)"
  shows "oa_cert s' = oa_cert s" "oa_keypair s' = oa_keypair s" "oa_anchor s' = oa_anchor s" "oa_wall s' = oa_wall s" "oa_now s' = oa_now s"
    "oa_outstanding_renewal s' = oa_outstanding_renewal s"
  by (simp_all add: assms evict_expired_neighbors_def prune_expired_def Let_def)

lemma set_time_frame:
  "oa_cert (set_time now wall s) = oa_cert s" "oa_keypair (set_time now wall s) = oa_keypair s"
  "oa_anchor (set_time now wall s) = oa_anchor s" "oa_wall (set_time now wall s) = wall" "oa_now (set_time now wall s) = now"
  "oa_outstanding_renewal s = Some asked \<Longrightarrow> now - asked < OUTSTANDING_RENEWAL_TTL \<Longrightarrow> oa_outstanding_renewal (set_time now wall s) = Some asked"
  by (simp_all add: expiry_frame [OF set_time_def] reclaim_frame)

text \<open>The request a node sends when its certificate is in its last third and it can reach its authority.\<close>

lemma renewal_asked:
  assumes "crypto_ok C" "auth_ok C P s" "oa_next_renewal_poll s \<le> now" "renewal_due s" "oa_renewal_authority s = Some ca" "hop ca = Some nh"
    and "ROUTED_SIZE + CERT_LEN + RENEWAL_NONCE_LEN + SIG_LEN \<le> length tx" "oa_challenge_counter s \<noteq> - 1"
  obtains f s1 nonce where "poll_renewal C now hop tx s = Some (Some f, s1)" "fd_dst f = nh" "length nonce = RENEWAL_NONCE_LEN"
    "drop ROUTED_SIZE (fd_payload f) = cert_write (oa_cert s) @ nonce @ sign C (oa_keypair s) (renewal_signed_message ca (own_mac s) nonce)"
    "oa_outstanding_renewal s1 = Some (oa_now s)" "oa_cert s1 = oa_cert s" "oa_keypair s1 = oa_keypair s" "oa_anchor s1 = oa_anchor s" "auth_ok C P s1"
proof -
  define s0 where "s0 = s\<lparr>oa_next_renewal_poll := now + RENEWAL_POLL_INTERVAL\<rparr>"
  define sq where "sq = s0\<lparr>oa_challenge_counter := oa_challenge_counter s0 + 1\<rparr>"
  obtain key where key: "nonce_prf_key C sq = Some key" using nonce_prf_key_Some [OF assms(1)] by blast
  define nonce where "nonce = frame_tag C key (oa_challenge_counter s0 + 1) RENEW_NONCE_PRF_DOMAIN (mac_bytes ca)"
  define s1 where "s1 = sq\<lparr>oa_outstanding_renewal := Some (oa_now s), oa_renewal_requests_sent := saturating_add (oa_renewal_requests_sent s) 1\<rparr>"
  define body where "body = cert_write (oa_cert s) @ nonce @ sign C (oa_keypair s) (renewal_signed_message ca (own_mac s) nonce)"
  have len: "length (cert_write (oa_cert s)) = CERT_LEN" using auth_okD(2) [OF assms(2)] cert_write_length by (simp add: member_def)
  have n: "length nonce = RENEWAL_NONCE_LEN" using assms(1) by (simp add: nonce_def RENEWAL_NONCE_LEN_def)
  have lb: "length body = CERT_LEN + RENEWAL_NONCE_LEN + SIG_LEN" using len n assms(1) by (simp add: body_def SIG_LEN_def)
  have frame: "oa_cert s0 = oa_cert s" "oa_keypair s0 = oa_keypair s" "oa_now s0 = oa_now s" "oa_renewal_requests_sent s0 = oa_renewal_requests_sent s"
    "oa_renewal_authority s0 = Some ca" "oa_challenge_counter s0 \<noteq> - 1" "renewal_due s0"
    using assms(4,5,8) by (simp_all add: s0_def renewal_due_def)
  have room: "\<not> length (drop ROUTED_SIZE tx) < CERT_LEN + RENEWAL_NONCE_LEN + SIG_LEN" using assms(7) by simp
  have "build_renewal_request C (drop ROUTED_SIZE tx) s0
      = Some (Some (CERT_LEN + RENEWAL_NONCE_LEN + SIG_LEN, body @ drop (length body) (drop ROUTED_SIZE tx)), s1)"
    using key len n assms(1) room frame unfolding build_renewal_request_def
    by (simp add: Let_def sq_def s1_def body_def nonce_def SIG_LEN_def add.assoc)
  then have poll: "poll_renewal C now hop tx s = Some (Some \<lparr>fd_dst = nh, fd_protocol = ETH_P_BATMAN,
      fd_payload = routed_write \<lparr>rp_packet_type = packet_type_as_u8 RenewReq, rp_version = BATMAN_VERSION, rp_ttl = 50, rp_dest = ca\<rparr> @ body\<rparr>, s1)"
    using assms(3,6,7) frame lb by (simp add: poll_renewal_def s0_def [symmetric] Let_def)
  then show thesis
    using that [of _ s1 nonce] n poll_renewal_auth_ok [OF assms(2) poll] by (simp add: body_def header_sizes s1_def sq_def frame s0_def)
qed

lemma renewal_verified:
  assumes "crypto_ok C" "would_admit C r s" "auth_ok C P s" "auth_ok C Q r" "length nonce = RENEWAL_NONCE_LEN"
    and "rate_open RENEW_REQ_RATE_LIMIT (oa_now r) (own_mac s) (oa_renew_req_rate r)"
    and "body = cert_write (oa_cert s) @ nonce @ sign C (oa_keypair s) (renewal_signed_message (own_mac r) (own_mac s) nonce)"
  shows "fst (take_renewal_request (handle_renew_req C Q body r))
    = Some \<lparr>vr_mac = own_mac s, vr_ed_pubkey = ct_ed_pubkey (oa_cert s), vr_x_pubkey = ct_x_pubkey (oa_cert s)\<rparr>"
proof -
  note w = would_admitD [OF assms(2,3,1)]
  obtain rates where rates: "rate_limited (ap_neighbor_keys Q) RENEW_REQ_RATE_LIMIT (oa_now r) (own_mac s) (oa_renew_req_rate r) = Some rates"
    using rate_open_accepts [OF assms(6)] by blast
  have len: "length (cert_write (oa_cert s)) = CERT_LEN" by (rule cert_write_length [OF w(2)])
  have parts: "length body = CERT_LEN + RENEWAL_NONCE_LEN + SIG_LEN" "take CERT_LEN body = cert_write (oa_cert s)"
      "take RENEWAL_NONCE_LEN (drop CERT_LEN body) = nonce"
      "drop (CERT_LEN + RENEWAL_NONCE_LEN) body = sign C (oa_keypair s) (renewal_signed_message (own_mac r) (own_mac s) nonce)"
    using len assms(1,5,7) by (simp_all add: SIG_LEN_def)
  have "cert_read (cert_write (oa_cert s)) = Some (oa_cert s, [])" using cert_read_write [OF w(2), of "[]"] by simp
  moreover have "accept_renewal_request_rate Q (own_mac s) r = (True, r\<lparr>oa_renew_req_rate := rates\<rparr>)"
    using rates by (simp add: accept_renewal_request_rate_def)
  ultimately show ?thesis
    using parts w assms(1,2)
    by (simp add: handle_renew_req_def verify_renewal_request_def take_renewal_request_def Let_def would_admit_def sign_verifies)
qed

text \<open>
  C28. Renewing over the mesh completes. A member whose certificate is due asks the authority it can reach;
  the request is verified there and stands for the driver to collect, with the requester's identity and
  keys; the certificate that the authority issues for them, sent back as a reply and taken in before the
  request lapses, becomes the node's credential and is handed out once to be persisted, and the node keeps
  its address, its invariant and everything it had verified.
\<close>

theorem renewal_completes:
  assumes "crypto_ok C" "auth_ok C P s" "auth_ok C Q r" "would_admit C r s" "oa_anchor s = trust_anchor_of C A"
    and "oa_next_renewal_poll s \<le> now" "renewal_due s" "oa_renewal_authority s = Some (own_mac r)" "hop (own_mac r) = Some nh"
    and "ROUTED_SIZE + CERT_LEN + RENEWAL_NONCE_LEN + SIG_LEN \<le> length tx" "oa_challenge_counter s \<noteq> - 1"
    and "rate_open RENEW_REQ_RATE_LIMIT (oa_now r) (own_mac s) (oa_renew_req_rate r)"
    and "hop' (own_mac s) = Some nh'" "ROUTED_SIZE + CERT_LEN \<le> tx_len" "t - oa_now s < OUTSTANDING_RENEWAL_TTL"
    and "ct_not_before (oa_cert s) \<le> nb" "ct_not_after (oa_cert s) < na" "nb \<le> na" "\<not> proves_before wall nb" "\<not> proves_past wall na"
  shows "\<exists>f s1 v g s2. poll_renewal C now hop tx s = Some (Some f, s1)
    \<and> fst (take_renewal_request (handle_renew_req C Q (drop ROUTED_SIZE (fd_payload f)) r)) = Some v
    \<and> (let cert = issue_cert C A (vr_mac v) (vr_ed_pubkey v) (vr_x_pubkey v) nb na
       in send_renew_reply hop' (own_mac s) cert tx_len = Some g
        \<and> ingest_renew_reply C (drop ROUTED_SIZE (fd_payload g)) (set_time t wall s1) = (True, s2)
        \<and> oa_cert s2 = cert \<and> fst (take_renewed_cert s2) = Some cert \<and> own_mac s2 = own_mac s
        \<and> oa_outstanding_renewal s2 = None \<and> auth_ok C P s2)"
proof -
  obtain f s1 nonce where f: "poll_renewal C now hop tx s = Some (Some f, s1)" "length nonce = RENEWAL_NONCE_LEN"
      "drop ROUTED_SIZE (fd_payload f) = cert_write (oa_cert s) @ nonce @ sign C (oa_keypair s) (renewal_signed_message (own_mac r) (own_mac s) nonce)"
      "oa_outstanding_renewal s1 = Some (oa_now s)" "oa_cert s1 = oa_cert s" "oa_keypair s1 = oa_keypair s" "oa_anchor s1 = oa_anchor s" "auth_ok C P s1"
    by (rule renewal_asked [where hop = hop and nh = nh, OF assms(1,2,6-11)])
  let ?v = "\<lparr>vr_mac = own_mac s, vr_ed_pubkey = ct_ed_pubkey (oa_cert s), vr_x_pubkey = ct_x_pubkey (oa_cert s)\<rparr>"
  note v = renewal_verified [OF assms(1,4,2,3) f(2) assms(12) f(3)]
  note w = would_admitD [OF assms(4,2,1)]
  define cert where "cert = issue_cert C A (own_mac s) (ct_ed_pubkey (oa_cert s)) (ct_x_pubkey (oa_cert s)) nb na"
  have "own_mac s = derived_mac C (oa_keypair s)" using verify_cert_facts(4) [OF w(1)] w(8) by (simp add: derived_mac_def)
  then have "member C (oa_keypair s) cert (oa_anchor s)"
    using issued_member [OF assms(1,18), of "oa_keypair s" A] assms(4,5) w(8) by (simp add: cert_def would_admit_def)
  note ver = member_verifies [OF this, of wall]
  have fields: "ct_not_before cert = nb" "ct_not_after cert = na" "ct_node_mac cert = own_mac s" "ct_ed_pubkey cert = ct_ed_pubkey (oa_cert s)"
    by (simp_all add: cert_def issue_cert_def issue_with_flags_def Let_def)
  have cok: "cert_ok cert" using \<open>member C (oa_keypair s) cert (oa_anchor s)\<close> by (simp add: member_def)
  let ?g = "\<lparr>fd_dst = nh', fd_protocol = ETH_P_BATMAN, fd_payload = routed_write \<lparr>rp_packet_type = packet_type_as_u8 RenewReply,
    rp_version = BATMAN_VERSION, rp_ttl = 50, rp_dest = own_mac s\<rparr> @ cert_write cert\<rparr>"
  have g: "send_renew_reply hop' (own_mac s) cert tx_len = Some ?g"
    using assms(13,14) cert_write_length [OF cok] by (simp add: send_renew_reply_def Let_def header_sizes)
  let ?st = "set_time t wall s1"
  note fr = set_time_frame(1-5) [of t wall s1] set_time_frame(6) [OF f(4) assms(15), of wall]
  have rd: "cert_read (cert_write cert) = Some (cert, [])" using cert_read_write [OF cok, of "[]"] by simp
  have vfields: "vc_mac (verified_facts cert) = own_mac s" "vc_ed_pubkey (verified_facts cert) = ct_ed_pubkey (oa_cert s)"
    using fields by (simp_all add: verified_facts_def)
  define s2 where "s2 = ?st\<lparr>oa_cert := cert, oa_outstanding_renewal := None, oa_pending_renewed_cert := Some cert,
    oa_renewal_replies_accepted := saturating_add (oa_renewal_replies_accepted ?st) 1\<rparr>"
  have ing: "ingest_renew_reply C (cert_write cert) ?st = (True, s2)"
    using rd ver fields vfields fr f(5,7) assms(15-17,19,20) by (simp add: ingest_renew_reply_def not_le not_less s2_def)
  have "auth_ok C P s2" using ingest_renew_reply_auth_ok [OF set_time_auth_ok [OF f(8)], of "cert_write cert" t wall] ing by simp
  moreover have "oa_cert s2 = cert" "fst (take_renewed_cert s2) = Some cert" "own_mac s2 = own_mac s" "oa_outstanding_renewal s2 = None"
    using fields(3) by (simp_all add: s2_def take_renewed_cert_def)
  ultimately have "poll_renewal C now hop tx s = Some (Some f, s1) \<and> fst (take_renewal_request (handle_renew_req C Q (drop ROUTED_SIZE (fd_payload f)) r)) = Some ?v
    \<and> (let cert = issue_cert C A (vr_mac ?v) (vr_ed_pubkey ?v) (vr_x_pubkey ?v) nb na
       in send_renew_reply hop' (own_mac s) cert tx_len = Some ?g
        \<and> ingest_renew_reply C (drop ROUTED_SIZE (fd_payload ?g)) ?st = (True, s2)
        \<and> oa_cert s2 = cert \<and> fst (take_renewed_cert s2) = Some cert \<and> own_mac s2 = own_mac s
        \<and> oa_outstanding_renewal s2 = None \<and> auth_ok C P s2)"
    using ing f(1) v g by (simp add: Let_def cert_def [symmetric] header_sizes)
  then show ?thesis by blast
qed

definition demo_due :: ogm_auth where
  "demo_due = (demo_node 4)\<lparr>oa_wall := At 190, oa_renewal_authority := Some (own_mac (demo_node 8))\<rparr>"

lemma demo_due_parts:
  "auth_ok toy_crypto P demo_due" "oa_anchor demo_due = trust_anchor_of toy_crypto demo_root" "oa_next_renewal_poll demo_due = 0"
  "oa_renewal_authority demo_due = Some (own_mac (demo_node 8))" "oa_challenge_counter demo_due = 0" "oa_now demo_due = 0"
  "ct_not_before (oa_cert demo_due) = 100" "ct_not_after (oa_cert demo_due) = 200"
  "would_admit toy_crypto (demo_node 8) demo_due" "renewal_due demo_due" "oa_renew_req_rate (demo_node 8) = []"
proof -
  show "auth_ok toy_crypto P demo_due"
    using demo_node_ok [of P 4] by (simp add: demo_due_def auth_ok_def tables_ok_def)
  show d: "ct_not_before (oa_cert demo_due) = 100" "ct_not_after (oa_cert demo_due) = 200"
    by (simp_all add: demo_due_def demo_cert_parts demo_cert_def issue_cert_def issue_with_flags_def Let_def)
  have "oa_wall demo_due = At 190" by (simp add: demo_due_def)
  with d show "renewal_due demo_due"
    by (simp add: renewal_due_def renew_from_def saturating_sub_def CERT_RENEWAL_FRACTION_def Let_def)
  show "would_admit toy_crypto (demo_node 8) demo_due"
    using demo_would_admit [of 8 4] by (simp add: would_admit_def demo_due_def is_revoked_def identity_conflict_def)
qed (simp_all add: demo_due_def demo_node_def with_capacities_def)

theorem renewal_completes_witness:
  "\<exists>f s1 v g s2. poll_renewal toy_crypto 0 Some (replicate 400 0) demo_due = Some (Some f, s1)
    \<and> fst (take_renewal_request (handle_renew_req toy_crypto default_auth_profile (drop ROUTED_SIZE (fd_payload f)) (demo_node 8))) = Some v
    \<and> send_renew_reply Some (own_mac demo_due) (issue_cert toy_crypto demo_root (vr_mac v) (vr_ed_pubkey v) (vr_x_pubkey v) 150 300) 400 = Some g
    \<and> ingest_renew_reply toy_crypto (drop ROUTED_SIZE (fd_payload g)) (set_time 5 (At 191) s1) = (True, s2)
    \<and> oa_cert s2 = issue_cert toy_crypto demo_root (vr_mac v) (vr_ed_pubkey v) (vr_x_pubkey v) 150 300"
proof -
  have "rate_open RENEW_REQ_RATE_LIMIT (oa_now (demo_node 8)) (own_mac demo_due) (oa_renew_req_rate (demo_node 8))"
    by (simp add: demo_due_parts(11) rate_open_def im_get_def)
  then show ?thesis
    using renewal_completes [where s = demo_due and r = "demo_node 8" and A = demo_root and now = 0 and hop = Some and hop' = Some
        and tx = "replicate 400 0" and tx_len = 400 and t = 5 and wall = "At 191" and nb = 150 and na = 300 and nh' = "own_mac demo_due"
        and nh = "own_mac (demo_node 8)" and P = default_auth_profile and Q = default_auth_profile,
        OF toy_crypto_ok demo_due_parts(1) demo_node_ok demo_due_parts(9,2)]
    by (simp add: demo_due_parts CERT_LEN_def SIG_LEN_def ROUTED_SIZE_def RENEWAL_NONCE_LEN_def TAG_LEN_def
        OUTSTANDING_RENEWAL_TTL_def RENEWAL_POLL_INTERVAL_def Let_def) blast
qed

end
