(* ===== verification/Ident_Table.thy ===== *)
theory Ident_Table
  imports Heapless "HOL-Library.Monad_Syntax"
begin

text \<open>
  The egress-interface cache of the central router, \<^verbatim>\<open>libs/wayfinder/src/routing_table.rs\<close>: a
  least-recently-used map whose order is a doubly-linked list threaded through a flat array of
  slots by 16-bit indices. Every operation returns \<open>None\<close> where the code would panic (an
  \<^verbatim>\<open>expect\<close> on a vacant slot or an index out of bounds).

  The abstract view is the list of entries, most recent first. The contract \<open>lru_cache\<close> says
  that the operations act on that view; it is interpreted for \<open>IdentTable\<close>, which is where
  the pointer manipulation is shown to be right and free of panics.
\<close>

section \<open>The table\<close>

definition NONE_IDX :: u16 where
  "NONE_IDX = 0xFFFF"

definition IDENT_TABLE_CAP :: nat where
  "IDENT_TABLE_CAP = 128"

definition IDENT_TABLE_MAX :: nat where
  "IDENT_TABLE_MAX = 100"

record 'k lru_node =
  ln_key :: 'k
  ln_iface_idx :: nat
  ln_prev :: u16
  ln_next :: u16

record 'k ident_table =
  it_nodes :: "'k lru_node option list"
  it_map :: "('k, u16) imap"
  it_head :: u16
  it_tail :: u16
  it_free_stack :: "u16 list"
  it_free_len :: u16

text \<open>The const parameters, and the removal order of the third-party map.\<close>

record ident_profile =
  ip_cap :: nat
  ip_max_live :: nat
  ip_swap :: swap_fn

definition default_ident_profile :: "swap_fn \<Rightarrow> ident_profile" where
  "default_ident_profile sw = \<lparr>ip_cap = IDENT_TABLE_CAP, ip_max_live = IDENT_TABLE_MAX, ip_swap = sw\<rparr>"

text \<open>The compile-time assertions of the table, on a 64-bit \<^verbatim>\<open>usize\<close>.\<close>

definition ident_invariants :: "ident_profile \<Rightarrow> bool" where
  "ident_invariants P \<longleftrightarrow>
     list_ex (\<lambda>n. ip_cap P = 2 ^ n) [0..<64] \<and> ip_cap P < unat NONE_IDX \<and> ip_max_live P \<le> ip_cap P"

definition ident_profile_ok :: "ident_profile \<Rightarrow> bool" where
  "ident_profile_ok P \<longleftrightarrow> ident_invariants P \<and> 0 < ip_max_live P \<and> swap_remove_law (ip_swap P)"

definition ident_new :: "ident_profile \<Rightarrow> 'k ident_table" where
  "ident_new P =
     \<lparr>it_nodes = replicate (ip_cap P) None, it_map = [], it_head = NONE_IDX, it_tail = NONE_IDX,
      it_free_stack = map word_of_nat [0..<ip_cap P], it_free_len = word_of_nat (ip_max_live P)\<rparr>"

definition ident_clear :: "ident_profile \<Rightarrow> 'k ident_table \<Rightarrow> 'k ident_table" where
  "ident_clear P t =
     t\<lparr>it_map := [], it_nodes := map (\<lambda>_. None) (it_nodes t),
       it_free_stack := map (\<lambda>(i, _). word_of_nat i) (enumerate 0 (it_free_stack t)),
       it_head := NONE_IDX, it_tail := NONE_IDX, it_free_len := word_of_nat (ip_max_live P)\<rparr>"

section \<open>The linked list\<close>

definition node_at :: "'k lru_node option list \<Rightarrow> u16 \<Rightarrow> 'k lru_node option" where
  "node_at ns i = (if unat i < length ns then ns ! unat i else None)"

definition unlink :: "u16 \<Rightarrow> 'k ident_table \<Rightarrow> 'k ident_table option" where
  "unlink idx t =
     do { node \<leftarrow> node_at (it_nodes t) idx;
          t \<leftarrow> (if ln_prev node \<noteq> NONE_IDX
                then do { prev \<leftarrow> node_at (it_nodes t) (ln_prev node);
                          Some (t\<lparr>it_nodes := (it_nodes t)[unat (ln_prev node) := Some (prev\<lparr>ln_next := ln_next node\<rparr>)]\<rparr>) }
                else Some (t\<lparr>it_head := ln_next node\<rparr>));
          if ln_next node \<noteq> NONE_IDX
          then do { nxt \<leftarrow> node_at (it_nodes t) (ln_next node);
                    Some (t\<lparr>it_nodes := (it_nodes t)[unat (ln_next node) := Some (nxt\<lparr>ln_prev := ln_prev node\<rparr>)]\<rparr>) }
          else Some (t\<lparr>it_tail := ln_prev node\<rparr>) }"

definition link_at_head :: "u16 \<Rightarrow> 'k ident_table \<Rightarrow> 'k ident_table option" where
  "link_at_head idx t =
     (let old_head = it_head t in
      do { node \<leftarrow> node_at (it_nodes t) idx;
           let t = t\<lparr>it_nodes := (it_nodes t)[unat idx := Some (node\<lparr>ln_prev := NONE_IDX, ln_next := old_head\<rparr>)]\<rparr>;
           t \<leftarrow> (if old_head \<noteq> NONE_IDX
                 then do { head_node \<leftarrow> node_at (it_nodes t) old_head;
                           Some (t\<lparr>it_nodes := (it_nodes t)[unat old_head := Some (head_node\<lparr>ln_prev := idx\<rparr>)]\<rparr>) }
                 else Some (t\<lparr>it_tail := idx\<rparr>));
           Some (t\<lparr>it_head := idx\<rparr>) })"

definition move_to_front :: "u16 \<Rightarrow> 'k ident_table \<Rightarrow> 'k ident_table option" where
  "move_to_front idx t =
     (if it_head t = idx then Some t else Option.bind (unlink idx t) (link_at_head idx))"

section \<open>Public operations\<close>

definition obtain_slot :: "ident_profile \<Rightarrow> 'k ident_table \<Rightarrow> (u16 \<times> 'k ident_table) option" where
  "obtain_slot P t =
     (if it_free_len t > 0
      then let t = t\<lparr>it_free_len := it_free_len t - 1\<rparr>
           in if unat (it_free_len t) < length (it_free_stack t)
              then Some (it_free_stack t ! unat (it_free_len t), t) else None
      else let lru_idx = it_tail t in
           do { lru \<leftarrow> node_at (it_nodes t) lru_idx;
                let t = t\<lparr>it_map := im_remove (ip_swap P) (ln_key lru) (it_map t)\<rparr>;
                t \<leftarrow> unlink lru_idx t;
                Some (lru_idx, t) })"

definition add_record :: "ident_profile \<Rightarrow> nat \<Rightarrow> 'k \<Rightarrow> 'k ident_table \<Rightarrow> 'k ident_table option" where
  "add_record P iface_idx dest t =
     (case im_get (it_map t) dest of
        Some idx \<Rightarrow>
          do { entry \<leftarrow> node_at (it_nodes t) idx;
               move_to_front idx (t\<lparr>it_nodes := (it_nodes t)[unat idx := Some (entry\<lparr>ln_iface_idx := iface_idx\<rparr>)]\<rparr>) }
      | None \<Rightarrow>
          do { (slot, t) \<leftarrow> obtain_slot P t;
               if unat slot < length (it_nodes t)
               then let t = t\<lparr>it_nodes := (it_nodes t)[unat slot := Some \<lparr>ln_key = dest, ln_iface_idx = iface_idx,
                                ln_prev = NONE_IDX, ln_next = NONE_IDX\<rparr>]\<rparr>;
                        t = t\<lparr>it_map := (case im_insert (ip_cap P) dest slot (it_map t) of Some m \<Rightarrow> m | None \<Rightarrow> it_map t)\<rparr>
                    in link_at_head slot t
               else None })"

text \<open>The result of a lookup is the outer option of the code; a panic is the outermost one.\<close>

definition get_egress_interface :: "'k \<Rightarrow> 'k ident_table \<Rightarrow> (nat option \<times> 'k ident_table) option" where
  "get_egress_interface dest t =
     (case im_get (it_map t) dest of
        None \<Rightarrow> Some (None, t)
      | Some idx \<Rightarrow>
          do { t \<leftarrow> move_to_front idx t;
               node \<leftarrow> node_at (it_nodes t) idx;
               Some (Some (ln_iface_idx node), t) })"

definition peek_egress_interface :: "'k \<Rightarrow> 'k ident_table \<Rightarrow> nat option option" where
  "peek_egress_interface dest t =
     (case im_get (it_map t) dest of
        None \<Rightarrow> Some None
      | Some idx \<Rightarrow> map_option (\<lambda>node. Some (ln_iface_idx node)) (node_at (it_nodes t) idx))"

section \<open>Segments of the list\<close>

fun dseg :: "'k lru_node option list \<Rightarrow> u16 \<Rightarrow> u16 list \<Rightarrow> u16 \<Rightarrow> bool" where
  "dseg ns p [] q = True"
| "dseg ns p (x # xs) q =
     (case node_at ns x of
        None \<Rightarrow> False
      | Some n \<Rightarrow> ln_prev n = p \<and> ln_next n = hd (xs @ [q]) \<and> dseg ns x xs q)"

lemma node_at_update:
  "node_at (ns[unat x := v]) y = (if x = y \<and> unat x < length ns then v else node_at ns y)"
  by (auto simp: node_at_def nth_list_update word_unat_eq_iff)

lemma node_at_bound: "node_at ns x = Some n \<Longrightarrow> unat x < length ns"
  by (simp add: node_at_def split: if_splits)

lemma dseg_append: "dseg ns p (as @ bs) q \<longleftrightarrow> dseg ns p as (hd (bs @ [q])) \<and> dseg ns (last (p # as)) bs q"
  by (induction as arbitrary: p) (auto simp: hd_append split: option.splits)

lemma dseg_frame: "x \<notin> set xs \<Longrightarrow> dseg (ns[unat x := v]) p xs q = dseg ns p xs q"
  by (induction xs arbitrary: p) (auto simp: node_at_update split: option.splits)

lemma dseg_occupied: "dseg ns p xs q \<Longrightarrow> x \<in> set xs \<Longrightarrow> \<exists>n. node_at ns x = Some n"
  by (induction xs arbitrary: p) (auto split: option.splits)

lemma dseg_relink_last:
  assumes "dseg ns p (as @ [y]) q" "distinct (as @ [y])" "node_at ns y = Some m"
  shows "dseg (ns[unat y := Some (m\<lparr>ln_next := q'\<rparr>)]) p (as @ [y]) q'"
  using assms node_at_bound [OF assms(3)] by (simp add: dseg_append dseg_frame node_at_update)

lemma dseg_relink_first:
  assumes "dseg ns p (z # bs) q" "z \<notin> set bs" "node_at ns z = Some m"
  shows "dseg (ns[unat z := Some (m\<lparr>ln_prev := p'\<rparr>)]) p' (z # bs) q"
  using assms node_at_bound [OF assms(3)] by (simp add: dseg_frame node_at_update)

text \<open>What an entry shows; re-linking keeps it.\<close>

definition entry_of :: "'k lru_node option list \<Rightarrow> u16 \<Rightarrow> ('k \<times> nat) option" where
  "entry_of ns x = map_option (\<lambda>n. (ln_key n, ln_iface_idx n)) (node_at ns x)"

lemma entry_of_relink [simp]:
  assumes "node_at ns y = Some m"
  shows "entry_of (ns[unat y := Some (m\<lparr>ln_next := q\<rparr>)]) = entry_of ns"
    and "entry_of (ns[unat y := Some (m\<lparr>ln_prev := q\<rparr>)]) = entry_of ns"
    and "entry_of (ns[unat y := Some (m\<lparr>ln_prev := p, ln_next := q\<rparr>)]) = entry_of ns"
  using assms by (auto simp: entry_of_def node_at_update fun_eq_iff)

text \<open>The list of slots \<open>xs\<close>, most recent first, with its two ends.\<close>

definition linked :: "'k ident_table \<Rightarrow> u16 list \<Rightarrow> bool" where
  "linked t xs \<longleftrightarrow> distinct xs \<and> NONE_IDX \<notin> set xs \<and> dseg (it_nodes t) NONE_IDX xs NONE_IDX
     \<and> it_head t = hd (xs @ [NONE_IDX]) \<and> it_tail t = last (NONE_IDX # xs)"

definition relinked :: "'k ident_table \<Rightarrow> 'k ident_table \<Rightarrow> bool" where
  "relinked t t' \<longleftrightarrow> it_map t' = it_map t \<and> it_free_stack t' = it_free_stack t \<and> it_free_len t' = it_free_len t
     \<and> length (it_nodes t') = length (it_nodes t) \<and> entry_of (it_nodes t') = entry_of (it_nodes t)"

lemma relinked_trans: "relinked t u \<Longrightarrow> relinked u v \<Longrightarrow> relinked t v"
  by (simp add: relinked_def)

lemma unlink_linked:
  assumes "linked t (as @ x # bs)"
  shows "\<exists>t'. unlink x t = Some t' \<and> linked t' (as @ bs) \<and> relinked t t'"
proof -
  let ?ns = "it_nodes t"
  have d: "distinct (as @ x # bs)" "NONE_IDX \<notin> set (as @ x # bs)"
    using assms by (simp_all add: linked_def)
  have seg: "dseg ?ns NONE_IDX as x" "dseg ?ns x bs NONE_IDX"
    using assms by (auto simp: linked_def dseg_append split: option.splits)
  obtain n where n: "node_at ?ns x = Some n" "ln_prev n = last (NONE_IDX # as)" "ln_next n = hd (bs @ [NONE_IDX])"
    using assms by (auto simp: linked_def dseg_append split: option.splits)
  obtain t1 where t1: "(if ln_prev n \<noteq> NONE_IDX
        then do { prev \<leftarrow> node_at ?ns (ln_prev n);
                  Some (t\<lparr>it_nodes := ?ns[unat (ln_prev n) := Some (prev\<lparr>ln_next := ln_next n\<rparr>)]\<rparr>) }
        else Some (t\<lparr>it_head := ln_next n\<rparr>)) = Some t1"
      "dseg (it_nodes t1) NONE_IDX as (ln_next n)" "dseg (it_nodes t1) x bs NONE_IDX"
      "it_head t1 = hd (as @ [ln_next n])" "it_tail t1 = it_tail t" "relinked t t1"
  proof (cases as rule: rev_cases)
    case Nil
    then show thesis
      using seg n that [of "t\<lparr>it_head := ln_next n\<rparr>"] by (simp add: relinked_def)
  next
    case (snoc as' y)
    then obtain m where m: "node_at ?ns y = Some m" using dseg_occupied [OF seg(1), of y] by auto
    let ?t1 = "t\<lparr>it_nodes := ?ns[unat y := Some (m\<lparr>ln_next := ln_next n\<rparr>)]\<rparr>"
    have y: "ln_prev n = y" "y \<noteq> NONE_IDX" "y \<noteq> x" "y \<notin> set bs"
      using snoc n(2) d by auto
    have "it_head t = hd (as @ [ln_next n])"
      using assms snoc by (auto simp: linked_def hd_append)
    moreover have "dseg (it_nodes ?t1) NONE_IDX as (ln_next n)"
      using dseg_relink_last [OF seg(1) [unfolded snoc] _ m, of "ln_next n"] d(1) snoc by simp
    moreover have "relinked t ?t1" using entry_of_relink(1) [OF m] by (simp add: relinked_def)
    ultimately show thesis
      using that [of ?t1] y m seg(2) by (simp add: dseg_frame)
  qed
  obtain t2 where t2: "(if ln_next n \<noteq> NONE_IDX
        then do { nxt \<leftarrow> node_at (it_nodes t1) (ln_next n);
                  Some (t1\<lparr>it_nodes := (it_nodes t1)[unat (ln_next n) := Some (nxt\<lparr>ln_prev := ln_prev n\<rparr>)]\<rparr>) }
        else Some (t1\<lparr>it_tail := ln_prev n\<rparr>)) = Some t2"
      "dseg (it_nodes t2) NONE_IDX as (ln_next n)" "dseg (it_nodes t2) (ln_prev n) bs NONE_IDX"
      "it_head t2 = it_head t1" "it_tail t2 = last (ln_prev n # bs)" "relinked t1 t2"
  proof (cases bs)
    case Nil
    then show thesis
      using t1 n that [of "t1\<lparr>it_tail := ln_prev n\<rparr>"] by (simp add: relinked_def)
  next
    case (Cons z bs')
    then obtain m where m: "node_at (it_nodes t1) z = Some m" using dseg_occupied [OF t1(3), of z] by auto
    let ?t2 = "t1\<lparr>it_nodes := (it_nodes t1)[unat z := Some (m\<lparr>ln_prev := ln_prev n\<rparr>)]\<rparr>"
    have z: "ln_next n = z" "z \<noteq> NONE_IDX" "z \<noteq> x" "z \<notin> set as" "z \<notin> set bs'"
      using Cons n(3) d by auto
    have "it_tail t1 = last (ln_prev n # bs)"
      using assms Cons t1(5) by (auto simp: linked_def)
    moreover have "dseg (it_nodes ?t2) (ln_prev n) bs NONE_IDX"
      using dseg_relink_first [OF t1(3) [unfolded Cons] z(5) m, of "ln_prev n"] Cons by simp
    moreover have "relinked t1 ?t2" using entry_of_relink(2) [OF m] by (simp add: relinked_def)
    ultimately show thesis
      using that [of ?t2] z m t1(2) by (simp add: dseg_frame)
  qed
  have "unlink x t = Some t2"
    using n(1) t1(1) t2(1) by (simp add: unlink_def)
  moreover have "linked t2 (as @ bs)"
    using d t2(2-5) t1(4) n(2,3) by (auto simp: linked_def dseg_append hd_append)
  ultimately show ?thesis using relinked_trans [OF t1(6) t2(6)] by blast
qed

lemma link_at_head_linked:
  assumes "linked t xs" "x \<notin> set xs" "x \<noteq> NONE_IDX" "node_at (it_nodes t) x = Some n"
  shows "\<exists>t'. link_at_head x t = Some t' \<and> linked t' (x # xs) \<and> relinked t t'"
proof -
  let ?n = "n\<lparr>ln_prev := NONE_IDX, ln_next := it_head t\<rparr>"
  let ?ns = "(it_nodes t)[unat x := Some ?n]"
  have b: "unat x < length (it_nodes t)" by (rule node_at_bound [OF assms(4)])
  have seg: "dseg ?ns NONE_IDX xs NONE_IDX" "node_at ?ns x = Some ?n"
    using assms(1,2) b by (simp_all add: linked_def dseg_frame node_at_update)
  have ent: "entry_of ?ns = entry_of (it_nodes t)"
    using assms(4) by (rule entry_of_relink(3))
  show ?thesis
  proof (cases xs)
    case Nil
    let ?t = "t\<lparr>it_nodes := ?ns, it_head := x, it_tail := x\<rparr>"
    have "it_head t = NONE_IDX" using Nil assms(1) by (simp add: linked_def)
    then have "link_at_head x t = Some ?t" "linked ?t (x # xs)"
      using assms(3,4) Nil seg(2) by (simp_all add: link_at_head_def Let_def linked_def)
    moreover have "relinked t ?t" using ent by (simp add: relinked_def)
    ultimately show ?thesis by blast
  next
    case (Cons z zs)
    then have z: "it_head t = z" "z \<noteq> NONE_IDX" "z \<noteq> x" "z \<notin> set zs"
      using assms(1,2) by (auto simp: linked_def)
    obtain m where m: "node_at ?ns z = Some m" using dseg_occupied [OF seg(1), of z] Cons by auto
    let ?t = "t\<lparr>it_nodes := ?ns[unat z := Some (m\<lparr>ln_prev := x\<rparr>)], it_head := x\<rparr>"
    have "link_at_head x t = Some ?t"
      using assms(4) z m by (simp add: link_at_head_def Let_def)
    moreover have "dseg (it_nodes ?t) x xs NONE_IDX"
      using dseg_relink_first [OF seg(1) [unfolded Cons] z(4) m, of x] Cons by simp
    then have "linked ?t (x # xs)"
      using assms(1-3) z seg(2) Cons by (auto simp: linked_def node_at_update)
    moreover have "relinked t ?t"
      using entry_of_relink(2) [OF m, of x] ent by (simp add: relinked_def)
    ultimately show ?thesis by blast
  qed
qed

lemma linked_occupied: "linked t xs \<Longrightarrow> x \<in> set xs \<Longrightarrow> \<exists>n. node_at (it_nodes t) x = Some n"
  using dseg_occupied by (fastforce simp: linked_def)

lemma relinked_occupied:
  assumes "relinked t t'" "node_at (it_nodes t) x = Some n"
  shows "\<exists>m. node_at (it_nodes t') x = Some m \<and> ln_key m = ln_key n \<and> ln_iface_idx m = ln_iface_idx n"
proof -
  have "entry_of (it_nodes t') x = entry_of (it_nodes t) x" using assms(1) by (simp add: relinked_def)
  then show ?thesis using assms(2) by (auto simp: entry_of_def)
qed

lemma move_to_front_linked:
  assumes "linked t (as @ x # bs)"
  shows "\<exists>t'. move_to_front x t = Some t' \<and> linked t' (x # as @ bs) \<and> relinked t t'"
proof (cases "it_head t = x")
  case True
  then have "as = []" using assms by (cases as) (auto simp: linked_def)
  with True assms show ?thesis
    by (simp add: move_to_front_def relinked_def)
next
  case False
  obtain t' where u: "unlink x t = Some t'" "linked t' (as @ bs)" "relinked t t'"
    using unlink_linked [OF assms] by blast
  obtain n where n: "node_at (it_nodes t') x = Some n"
    using linked_occupied [OF assms, of x] relinked_occupied [OF u(3)] by auto
  have "x \<notin> set (as @ bs)" "x \<noteq> NONE_IDX" using assms by (auto simp: linked_def)
  from link_at_head_linked [OF u(2) this n] show ?thesis
    using False u relinked_trans [OF u(3)] by (auto simp: move_to_front_def)
qed

section \<open>The abstract cache\<close>

text \<open>
  The cache as the list of its entries, most recent first: recording moves a destination to the
  front, dropping the last entry when a new one does not fit; a lookup moves a hit to the front.
\<close>

definition lru_drop :: "'k \<Rightarrow> ('k \<times> nat) list \<Rightarrow> ('k \<times> nat) list" where
  "lru_drop k l = filter (\<lambda>e. fst e \<noteq> k) l"

definition lru_add :: "nat \<Rightarrow> nat \<Rightarrow> 'k \<Rightarrow> ('k \<times> nat) list \<Rightarrow> ('k \<times> nat) list" where
  "lru_add n v k l =
     (k, v) # (if k \<in> fst ` set l then lru_drop k l else if length l < n then l else butlast l)"

definition lru_touch :: "'k \<Rightarrow> ('k \<times> nat) list \<Rightarrow> ('k \<times> nat) list" where
  "lru_touch k l = (case map_of l k of None \<Rightarrow> l | Some v \<Rightarrow> (k, v) # lru_drop k l)"

lemma lru_drop_absent: "k \<notin> fst ` set l \<Longrightarrow> lru_drop k l = l"
  unfolding lru_drop_def by (rule filter_True) auto

lemma lru_drop_split:
  assumes "distinct (map fst (la @ (k, v) # lb))"
  shows "lru_drop k (la @ (k, v) # lb) = la @ lb" "map_of (la @ (k, v) # lb) k = Some v"
proof -
  have "lru_drop k la = la" "lru_drop k lb = lb"
    using assms by (auto intro!: lru_drop_absent)
  then show "lru_drop k (la @ (k, v) # lb) = la @ lb" by (simp add: lru_drop_def)
  have "map_of la k = None" using assms by (auto simp: map_of_eq_None_iff)
  then show "map_of (la @ (k, v) # lb) k = Some v" by (simp add: map_add_def)
qed

section \<open>What a table holds\<close>

text \<open>
  \<open>it_core\<close>: the slots \<open>xs\<close> are linked in this order and show the entries \<open>l\<close>, the map finds
  exactly them, and the free slots are others. \<open>it_repr\<close> adds that no slot is lost.
\<close>

definition free_slots :: "'k ident_table \<Rightarrow> u16 list" where
  "free_slots t = take (unat (it_free_len t)) (it_free_stack t)"

definition it_core :: "ident_profile \<Rightarrow> 'k ident_table \<Rightarrow> u16 list \<Rightarrow> ('k \<times> nat) list \<Rightarrow> bool" where
  "it_core P t xs l \<longleftrightarrow> linked t xs \<and> map (entry_of (it_nodes t)) xs = map Some l \<and> distinct (map fst l)
     \<and> im_ok (ip_cap P) (it_map t) \<and> length (it_map t) = length l
     \<and> set (it_map t) = set (zip (map fst l) xs)
     \<and> length (it_nodes t) = ip_cap P \<and> length (it_free_stack t) = ip_cap P
     \<and> distinct (free_slots t @ xs) \<and> (\<forall>x\<in>set (free_slots t @ xs). unat x < ip_cap P)"

definition it_repr :: "ident_profile \<Rightarrow> 'k ident_table \<Rightarrow> u16 list \<Rightarrow> ('k \<times> nat) list \<Rightarrow> bool" where
  "it_repr P t xs l \<longleftrightarrow> it_core P t xs l \<and> unat (it_free_len t) + length xs = ip_max_live P"

lemma map_but:
  assumes "\<And>y. f y = (if y = x then a else g y)" "x \<notin> set xs"
  shows "map f xs = map g xs"
  using assms by (auto intro!: map_cong)

lemma it_core_length: "it_core P t xs l \<Longrightarrow> length xs = length l"
  unfolding it_core_def by (metis length_map)

lemma it_core_relinked:
  assumes "it_core P t xs l" "relinked t t'" "linked t' xs"
  shows "it_core P t' xs l"
  using assms by (simp add: it_core_def relinked_def free_slots_def)

lemma it_core_hit:
  assumes "it_core P t xs l" "im_get (it_map t) k = Some x"
  obtains as bs la lb v where "xs = as @ x # bs" "l = la @ (k, v) # lb" "length as = length la"
proof -
  have len: "length xs = length l" by (rule it_core_length [OF assms(1)])
  have "(k, x) \<in> set (zip (map fst l) xs)" using assms im_get_in [of "it_map t" k x] by (simp add: it_core_def)
  then obtain i where i: "i < length l" "fst (l ! i) = k" "xs ! i = x"
    using len by (auto simp: in_set_zip)
  show thesis
    using that [of "take i xs" "drop (Suc i) xs" "take i l" "snd (l ! i)" "drop (Suc i) l"] i len
    by (metis id_take_nth_drop length_take prod.collapse)
qed

lemma it_core_miss:
  assumes "it_core P t xs l"
  shows "im_get (it_map t) k = None \<longleftrightarrow> k \<notin> fst ` set l"
proof -
  have "fst ` set (it_map t) = set (map fst (zip (map fst l) xs))"
    using assms by (simp add: it_core_def)
  also have "\<dots> = fst ` set l" using it_core_length [OF assms] by simp
  finally show ?thesis by (simp add: im_get_def map_of_eq_None_iff)
qed

text \<open>Moving an entry to the front, in both views.\<close>

lemma it_core_permute:
  assumes "it_core P t (as @ x # bs) (la @ e # lb)" "length as = length la"
    and "relinked t t'" "linked t' (x # as @ bs)"
  shows "it_core P t' (x # as @ bs) (e # la @ lb)"
proof -
  have len: "length bs = length lb" using it_core_length [OF assms(1)] assms(2) by simp
  have "map (entry_of (it_nodes t)) as = map Some la" "map (entry_of (it_nodes t)) bs = map Some lb"
      "entry_of (it_nodes t) x = Some e"
    using assms(1,2) by (simp_all add: it_core_def append_eq_append_conv)
  moreover have "set (zip (map fst (la @ e # lb)) (as @ x # bs)) = set (zip (map fst (e # la @ lb)) (x # as @ bs))"
    using assms(2) len by auto
  ultimately show ?thesis
    using assms by (auto simp: it_core_def relinked_def free_slots_def)
qed

text \<open>Refreshing the interface of an entry touches nothing else.\<close>

lemma it_core_refresh:
  assumes "it_core P t (as @ x # bs) (la @ (k, v) # lb)" "length as = length la" "node_at (it_nodes t) x = Some n"
  shows "it_core P (t\<lparr>it_nodes := (it_nodes t)[unat x := Some (n\<lparr>ln_iface_idx := w\<rparr>)]\<rparr>) (as @ x # bs) (la @ (k, w) # lb)"
proof -
  let ?ns = "(it_nodes t)[unat x := Some (n\<lparr>ln_iface_idx := w\<rparr>)]"
  have b: "unat x < length (it_nodes t)" by (rule node_at_bound [OF assms(3)])
  have x: "x \<notin> set as" "x \<notin> set bs" using assms(1) by (auto simp: it_core_def)
  have ent: "entry_of ?ns y = (if y = x then Some (ln_key n, w) else entry_of (it_nodes t) y)" for y
    using b by (auto simp: entry_of_def node_at_update)
  have "map (entry_of (it_nodes t)) as = map Some la" "map (entry_of (it_nodes t)) bs = map Some lb"
      "entry_of (it_nodes t) x = Some (k, v)"
    using assms(1,2) by (simp_all add: it_core_def append_eq_append_conv)
  then have "map (entry_of ?ns) (as @ x # bs) = map Some (la @ (k, w) # lb)"
    using map_but [OF ent x(1)] map_but [OF ent x(2)] assms(3) by (simp add: ent [of x]) (simp add: entry_of_def)
  moreover have "linked (t\<lparr>it_nodes := ?ns\<rparr>) (as @ x # bs)"
    using assms(1,3) b x by (auto simp: it_core_def linked_def dseg_append dseg_frame node_at_update)
  ultimately show ?thesis
    using assms(1) by (auto simp: it_core_def free_slots_def)
qed

text \<open>Filling a slot that is neither listed nor free.\<close>

lemma it_core_install:
  fixes v :: nat and p q :: u16
  assumes "it_core P t xs l" "x \<notin> set (free_slots t @ xs)" "unat x < ip_cap P" "x \<noteq> NONE_IDX"
    and "k \<notin> fst ` set l" "length l < ip_cap P"
  defines "t1 \<equiv> t\<lparr>it_nodes := (it_nodes t)[unat x := Some \<lparr>ln_key = k, ln_iface_idx = v, ln_prev = p, ln_next = q\<rparr>]\<rparr>"
  shows "\<exists>m t'. im_insert (ip_cap P) k x (it_map t) = Some m \<and> link_at_head x (t1\<lparr>it_map := m\<rparr>) = Some t'
     \<and> it_core P t' (x # xs) ((k, v) # l) \<and> it_free_len t' = it_free_len t"
proof -
  let ?m = "it_map t @ [(k, x)]"
  have b: "unat x < length (it_nodes t)" using assms(1,3) by (simp add: it_core_def)
  have nk: "\<not> im_contains (it_map t) k" using it_core_miss [OF assms(1), of k] assms(5) by (simp add: im_contains_def)
  then have ins: "im_insert (ip_cap P) k x (it_map t) = Some ?m"
    using assms(1,6) by (simp add: im_insert_def it_core_def)
  have ok: "im_ok (ip_cap P) ?m"
    using assms(1,6) nk by (auto simp: it_core_def im_ok_def im_contains_iff im_keys_def)
  have lk: "linked (t1\<lparr>it_map := ?m\<rparr>) xs"
    using assms(1,2) by (auto simp: it_core_def linked_def t1_def dseg_frame)
  have nd: "node_at (it_nodes (t1\<lparr>it_map := ?m\<rparr>)) x = Some \<lparr>ln_key = k, ln_iface_idx = v, ln_prev = p, ln_next = q\<rparr>"
    using b by (simp add: t1_def node_at_update)
  obtain t' where t': "link_at_head x (t1\<lparr>it_map := ?m\<rparr>) = Some t'" "linked t' (x # xs)" "relinked (t1\<lparr>it_map := ?m\<rparr>) t'"
    using link_at_head_linked [OF lk _ assms(4) nd] assms(2) by auto
  have ent: "entry_of (it_nodes t1) y = (if y = x then Some (k, v) else entry_of (it_nodes t) y)" for y
    using b by (auto simp: t1_def entry_of_def node_at_update)
  have "map (entry_of (it_nodes t1)) (x # xs) = map Some ((k, v) # l)"
    using map_but [of "entry_of (it_nodes t1)", OF ent, of xs] assms(1,2) ent [of x]
    by (simp add: it_core_def del: map_eq_conv)
  then have "it_core P t' (x # xs) ((k, v) # l)"
    using assms(1-3,5) t'(2,3) ok by (auto simp: it_core_def relinked_def t1_def free_slots_def)
  then show ?thesis using ins t' by (auto simp: relinked_def t1_def)
qed

lemma ident_profile_bounds:
  assumes "ident_profile_ok P"
  shows "0 < ip_max_live P" "ip_max_live P \<le> ip_cap P" "ip_cap P < 2 ^ 16 - 1" "swap_remove_law (ip_swap P)"
  using assms by (simp_all add: ident_profile_ok_def ident_invariants_def NONE_IDX_def)

lemma below_cap: "ident_profile_ok P \<Longrightarrow> unat x < ip_cap P \<Longrightarrow> x \<noteq> NONE_IDX"
  using ident_profile_bounds(3) [of P] by (auto simp: NONE_IDX_def)

section \<open>The operations on the abstract cache\<close>

lemma ident_new_repr:
  assumes "ident_profile_ok P"
  shows "it_repr P (ident_new P) [] []"
proof -
  note b = ident_profile_bounds [OF assms]
  have "unat (word_of_nat (ip_max_live P) :: u16) = ip_max_live P"
    using b by (simp add: unat_of_nat take_bit_eq_mod)
  moreover have "distinct (map (word_of_nat :: nat \<Rightarrow> u16) [0..<ip_max_live P])"
    using b by (auto simp: distinct_map inj_on_def word_unat_eq_iff unat_of_nat)
  moreover have "unat (word_of_nat i :: u16) < ip_cap P" if "i < ip_max_live P" for i
    using b that by (simp add: unat_of_nat)
  ultimately show ?thesis
    using b by (auto simp: it_repr_def it_core_def ident_new_def linked_def free_slots_def take_map min_def)
qed

lemma obtain_slot_core:
  assumes "ident_profile_ok P" "it_repr P t xs l" "k \<notin> fst ` set l"
  shows "\<exists>x t1 xs1 l1. obtain_slot P t = Some (x, t1) \<and> it_core P t1 xs1 l1 \<and> x \<notin> set (free_slots t1 @ xs1)
    \<and> unat x < ip_cap P \<and> lru_add (ip_max_live P) v k l = (k, v) # l1 \<and> k \<notin> fst ` set l1
    \<and> unat (it_free_len t1) + Suc (length xs1) = ip_max_live P"
proof (cases "it_free_len t = 0")
  case False
  have core: "it_core P t xs l" and cnt: "unat (it_free_len t) + length xs = ip_max_live P"
    using assms(2) by (simp_all add: it_repr_def)
  let ?t = "t\<lparr>it_free_len := it_free_len t - 1\<rparr>"
  let ?x = "it_free_stack t ! unat (it_free_len t - 1)"
  have u: "unat (it_free_len t) = Suc (unat (it_free_len t - 1))"
    using False by (simp add: unat_minus_one unat_gt_0)
  have b: "unat (it_free_len t - 1) < length (it_free_stack t)"
    using cnt u ident_profile_bounds(2) [OF assms(1)] core by (simp add: it_core_def)
  have fs: "free_slots t = free_slots ?t @ [?x]"
    using u b by (simp add: free_slots_def take_Suc_conv_app_nth)
  have "it_core P ?t xs l"
    using core by (simp add: it_core_def linked_def fs)
  moreover have "obtain_slot P t = Some (?x, ?t)"
    using False b by (simp add: obtain_slot_def Let_def word_gt_0)
  moreover have "lru_add (ip_max_live P) v k l = (k, v) # l"
    using assms(3) cnt u it_core_length [OF core] by (simp add: lru_add_def)
  moreover have "?x \<notin> set (free_slots ?t @ xs)" "unat ?x < ip_cap P"
    using core by (auto simp: it_core_def fs)
  moreover have "unat (it_free_len ?t) + Suc (length xs) = ip_max_live P" using cnt u by simp
  ultimately show ?thesis using assms(3) by blast
next
  case True
  have core: "it_core P t xs l" and cnt: "length xs = ip_max_live P"
    using assms(2) True by (simp_all add: it_repr_def)
  then have ne: "xs \<noteq> []" "l \<noteq> []" "\<not> length l < ip_max_live P"
    using ident_profile_bounds(1) [OF assms(1)] it_core_length [OF core] by auto
  obtain as x where xs: "xs = as @ [x]" using ne(1) by (metis rev_exhaust)
  obtain la e where l: "l = la @ [e]" using ne(2) by (metis rev_exhaust)
  have len: "length as = length la" using it_core_length [OF core] xs l by simp
  have lk: "linked t (as @ [x])" and me: "map (entry_of (it_nodes t)) as = map Some la" "entry_of (it_nodes t) x = Some e"
    using core len by (simp_all add: it_core_def xs l append_eq_append_conv)
  then obtain n where n: "node_at (it_nodes t) x = Some n" "ln_key n = fst e" by (auto simp: entry_of_def)
  let ?t = "t\<lparr>it_map := im_remove (ip_swap P) (fst e) (it_map t)\<rparr>"
  obtain t1 where t1: "unlink x ?t = Some t1" "linked t1 as" "relinked ?t t1"
    using unlink_linked [of ?t as x "[]"] lk by (auto simp: linked_def)
  have d: "distinct (im_keys (it_map t))" using core by (simp add: it_core_def im_ok_def)
  note rm = im_remove_props [OF ident_profile_bounds(4) [OF assms(1)] d, of "fst e"]
  have zs: "set (it_map t) = insert (fst e, x) (set (zip (map fst la) as))"
    using core len by (simp add: it_core_def xs l)
  moreover have "(fst e, y) \<notin> set (zip (map fst la) as)" for y
    using core by (auto simp: it_core_def l dest: set_zip_leftD)
  ultimately have st: "set (it_map ?t) = set (zip (map fst la) as)" using rm(2) by auto
  have "im_contains (it_map t) (fst e)" using zs by (force simp: im_contains_iff im_keys_def)
  then have "im_ok (ip_cap P) (it_map ?t)" "length (it_map ?t) = length la"
    using rm core by (simp_all add: it_core_def im_ok_def l)
  then have "it_core P t1 as la"
    using core t1(2,3) st me(1) by (auto simp: it_core_def relinked_def free_slots_def xs l)
  moreover have "obtain_slot P t = Some (x, t1)"
    using True n lk t1(1) by (simp add: obtain_slot_def Let_def linked_def)
  moreover have "lru_add (ip_max_live P) v k l = (k, v) # la" using assms(3) ne(3) l by (simp add: lru_add_def)
  moreover have "x \<notin> set (free_slots t1 @ as)" "unat x < ip_cap P"
    using core t1(3) by (auto simp: it_core_def xs relinked_def free_slots_def)
  moreover have "unat (it_free_len t1) + Suc (length as) = ip_max_live P"
    using cnt True t1(3) by (simp add: xs relinked_def)
  moreover have "k \<notin> fst ` set la" using assms(3) l by auto
  ultimately show ?thesis by blast
qed

lemma add_record_refines:
  assumes "ident_profile_ok P" "it_repr P t xs l"
  shows "\<exists>t' xs'. add_record P v k t = Some t' \<and> it_repr P t' xs' (lru_add (ip_max_live P) v k l)"
proof (cases "im_get (it_map t) k")
  case (Some x)
  have core: "it_core P t xs l" using assms(2) by (simp add: it_repr_def)
  then obtain as bs la lb w where s: "xs = as @ x # bs" "l = la @ (k, w) # lb" "length as = length la"
    using it_core_hit [OF _ Some] by metis
  obtain n where n: "node_at (it_nodes t) x = Some n" using linked_occupied [of t xs x] core s(1) by (auto simp: it_core_def)
  let ?t = "t\<lparr>it_nodes := (it_nodes t)[unat x := Some (n\<lparr>ln_iface_idx := v\<rparr>)]\<rparr>"
  have r: "it_core P ?t (as @ x # bs) (la @ (k, v) # lb)" using it_core_refresh [OF _ s(3) n] core s by simp
  then obtain t' where t': "move_to_front x ?t = Some t'" "linked t' (x # as @ bs)" "relinked ?t t'"
    using move_to_front_linked [of ?t as x bs] by (auto simp: it_core_def)
  have "lru_add (ip_max_live P) v k l = (k, v) # la @ lb"
    using core s(2) lru_drop_split(1) [of la k w lb] by (auto simp: lru_add_def it_core_def)
  moreover have "it_core P t' (x # as @ bs) ((k, v) # la @ lb)" by (rule it_core_permute [OF r s(3) t'(3,2)])
  moreover have "add_record P v k t = Some t'" using Some n t'(1) by (simp add: add_record_def)
  moreover have "unat (it_free_len t') + length (x # as @ bs) = ip_max_live P"
    using assms(2) s(1) t'(3) by (simp add: it_repr_def relinked_def)
  ultimately show ?thesis unfolding it_repr_def by metis
next
  case None
  note b = ident_profile_bounds [OF assms(1)]
  have core: "it_core P t xs l" and cnt: "unat (it_free_len t) + length xs = ip_max_live P"
    using assms(2) by (simp_all add: it_repr_def)
  have k: "k \<notin> fst ` set l" using it_core_miss [OF core] None by simp
  obtain x t1 xs1 l1 where s: "obtain_slot P t = Some (x, t1)" "it_core P t1 xs1 l1" "x \<notin> set (free_slots t1 @ xs1)"
      "unat x < ip_cap P" "lru_add (ip_max_live P) v k l = (k, v) # l1" "k \<notin> fst ` set l1"
      "unat (it_free_len t1) + Suc (length xs1) = ip_max_live P"
    using obtain_slot_core [OF assms k] by metis
  have "length l1 < ip_cap P" using s(7) b it_core_length [OF s(2)] by linarith
  from it_core_install [OF s(2,3,4) below_cap [OF assms(1) s(4)] s(6) this, of v NONE_IDX NONE_IDX] obtain m t' where
    t': "im_insert (ip_cap P) k x (it_map t1) = Some m"
      "link_at_head x (t1\<lparr>it_nodes := (it_nodes t1)[unat x := Some \<lparr>ln_key = k, ln_iface_idx = v, ln_prev = NONE_IDX, ln_next = NONE_IDX\<rparr>], it_map := m\<rparr>) = Some t'"
      "it_core P t' (x # xs1) ((k, v) # l1)" "it_free_len t' = it_free_len t1"
    by (auto simp: Let_def)
  have "unat x < length (it_nodes t1)" using s(2,4) by (simp add: it_core_def)
  then have "add_record P v k t = Some t'"
    using None s(1) t'(1,2) by (simp add: add_record_def Let_def)
  then show ?thesis using t'(3,4) s(5,7) by (auto simp: it_repr_def)
qed

lemma it_repr_hit:
  assumes "it_core P t xs l" "im_get (it_map t) k = Some x"
  shows "\<exists>n. node_at (it_nodes t) x = Some n \<and> map_of l k = Some (ln_iface_idx n)"
proof -
  obtain as bs la lb w where s: "xs = as @ x # bs" "l = la @ (k, w) # lb" "length as = length la"
    using it_core_hit [OF assms] by metis
  then have "entry_of (it_nodes t) x = Some (k, w)"
    using assms(1) by (simp add: it_core_def append_eq_append_conv)
  moreover have "map_of l k = Some w" using lru_drop_split(2) [of la k w lb] assms(1) unfolding s(2) it_core_def by blast
  ultimately show ?thesis by (auto simp: entry_of_def)
qed

lemma get_egress_interface_refines:
  assumes "it_repr P t xs l"
  shows "\<exists>t' xs'. get_egress_interface k t = Some (map_of l k, t') \<and> it_repr P t' xs' (lru_touch k l)"
proof (cases "im_get (it_map t) k")
  case None
  then have "map_of l k = None" using it_core_miss [of P t xs l k] assms by (simp add: it_repr_def map_of_eq_None_iff)
  then show ?thesis using None assms by (auto simp: get_egress_interface_def lru_touch_def)
next
  case (Some x)
  have core: "it_core P t xs l" using assms by (simp add: it_repr_def)
  then obtain as bs la lb w where s: "xs = as @ x # bs" "l = la @ (k, w) # lb" "length as = length la"
    using it_core_hit [OF _ Some] by metis
  obtain t' where t': "move_to_front x t = Some t'" "linked t' (x # as @ bs)" "relinked t t'"
    using move_to_front_linked [of t as x bs] core s(1) by (auto simp: it_core_def)
  obtain n where n: "node_at (it_nodes t) x = Some n" "map_of l k = Some (ln_iface_idx n)"
    using it_repr_hit [OF core Some] by blast
  have "get_egress_interface k t = Some (map_of l k, t')"
    using Some t'(1) relinked_occupied [OF t'(3) n(1)] n(2) by (auto simp: get_egress_interface_def)
  moreover have "it_core P t' (x # as @ bs) ((k, w) # la @ lb)"
    using it_core_permute [OF _ s(3) t'(3,2)] core s by simp
  moreover have "lru_touch k l = (k, w) # la @ lb"
    using lru_drop_split [of la k w lb] core s(2) by (simp add: lru_touch_def it_core_def)
  moreover have "unat (it_free_len t') + length (x # as @ bs) = ip_max_live P"
    using assms s(1) t'(3) by (simp add: it_repr_def relinked_def)
  ultimately show ?thesis unfolding it_repr_def by metis
qed

lemma peek_egress_interface_refines:
  assumes "it_repr P t xs l"
  shows "peek_egress_interface k t = Some (map_of l k)"
  using assms it_core_miss [of P t xs l k] it_repr_hit [of P t xs l k]
  by (cases "im_get (it_map t) k") (auto simp: peek_egress_interface_def it_repr_def map_of_eq_None_iff eq_commute [of None])

lemma ident_clear_new:
  assumes "it_repr P t xs l"
  shows "ident_clear P t = ident_new P"
proof -
  have "length (it_nodes t) = ip_cap P" "length (it_free_stack t) = ip_cap P"
    using assms by (simp_all add: it_repr_def it_core_def)
  moreover have "map (\<lambda>(i, _). word_of_nat i :: u16) (enumerate 0 ys) = map word_of_nat [0..<length ys]" for ys :: "u16 list"
    by (rule nth_equalityI) (simp_all add: nth_enumerate_eq)
  ultimately show ?thesis by (cases t) (simp add: ident_clear_def ident_new_def map_replicate_const)
qed

section \<open>The contract of a least-recently-used cache\<close>

datatype 'k lru_op = Record nat 'k | Lookup 'k | Reset

fun op_dests :: "'k lru_op list \<Rightarrow> 'k set" where
  "op_dests [] = {}"
| "op_dests (Record v k # ops) = insert k (op_dests ops)"
| "op_dests (Lookup k # ops) = insert k (op_dests ops)"
| "op_dests (Reset # ops) = op_dests ops"

text \<open>A sequence of operations on the abstract cache, with the answers of its lookups.\<close>

fun lru_run :: "nat \<Rightarrow> 'k lru_op list \<Rightarrow> ('k \<times> nat) list \<Rightarrow> nat option list \<times> ('k \<times> nat) list" where
  "lru_run n [] l = ([], l)"
| "lru_run n (Record v k # ops) l = lru_run n ops (lru_add n v k l)"
| "lru_run n (Lookup k # ops) l = (let (rs, l') = lru_run n ops (lru_touch k l) in (map_of l k # rs, l'))"
| "lru_run n (Reset # ops) l = lru_run n ops []"

lemma finite_op_dests: "finite (op_dests ops)"
  by (induction ops rule: op_dests.induct) auto

text \<open>The same sequence on an implementation; \<open>None\<close> is a panic.\<close>

fun lru_exec :: "(nat \<Rightarrow> 'k \<Rightarrow> 't \<Rightarrow> 't option) \<Rightarrow> ('k \<Rightarrow> 't \<Rightarrow> (nat option \<times> 't) option) \<Rightarrow> ('t \<Rightarrow> 't)
    \<Rightarrow> 'k lru_op list \<Rightarrow> 't \<Rightarrow> (nat option list \<times> 't) option" where
  "lru_exec add get clear [] t = Some ([], t)"
| "lru_exec add get clear (Record v k # ops) t = do { t \<leftarrow> add v k t; lru_exec add get clear ops t }"
| "lru_exec add get clear (Lookup k # ops) t =
     do { (r, t) \<leftarrow> get k t; (rs, t) \<leftarrow> lru_exec add get clear ops t; Some (r # rs, t) }"
| "lru_exec add get clear (Reset # ops) t = lru_exec add get clear ops (clear t)"

text \<open>The destinations ahead of \<open>k\<close> are the ones that were used since.\<close>

definition ahead :: "'k \<Rightarrow> ('k \<times> nat) list \<Rightarrow> 'k list" where
  "ahead k l = map fst (takeWhile (\<lambda>e. fst e \<noteq> k) l)"

definition recent :: "nat \<Rightarrow> 'k \<Rightarrow> nat \<Rightarrow> 'k set \<Rightarrow> ('k \<times> nat) list \<Rightarrow> bool" where
  "recent n k v S l \<longleftrightarrow> map_of l k = Some v \<and> set (ahead k l) \<subseteq> S \<and> distinct (map fst l)"

lemma distinct_lru_add: "distinct (map fst l) \<Longrightarrow> distinct (map fst (lru_add n v k l))"
  by (auto simp: lru_add_def lru_drop_def distinct_map map_butlast [symmetric] distinct_butlast intro: inj_on_subset dest: in_set_butlastD)

lemma distinct_lru_touch: "distinct (map fst l) \<Longrightarrow> distinct (map fst (lru_touch k l))"
  by (auto simp: lru_touch_def lru_drop_def distinct_map intro: inj_on_subset split: option.splits)

lemma ahead_drop: "set (ahead k (lru_drop k' l)) \<subseteq> set (ahead k l)" if "k' \<noteq> k"
  using that by (induction l) (auto simp: ahead_def lru_drop_def)

lemma ahead_split: "k \<notin> fst ` set as \<Longrightarrow> ahead k (as @ (k, v) # bs) = map fst as"
  by (induction as) (auto simp: ahead_def)

lemma map_of_drop: "k' \<noteq> k \<Longrightarrow> map_of (lru_drop k' l) k = map_of l k"
  by (induction l) (auto simp: lru_drop_def)

lemma recent_front:
  assumes "recent n k v S l" "k' \<in> S" "k' \<noteq> k"
  shows "recent n k v S ((k', w) # lru_drop k' l)"
  using assms ahead_drop [OF assms(3), of l] map_of_drop [OF assms(3), of l]
  by (auto simp: recent_def ahead_def lru_drop_def distinct_map intro: inj_on_subset)

text \<open>The last entry is \<open>k\<close> only if every other one was used since; then there is room.\<close>

lemma recent_evict:
  assumes "recent n k v S l" "k' \<in> S" "k' \<noteq> k" "k' \<notin> fst ` set l" "finite S" "card S < n" "\<not> length l < n"
  shows "recent n k v S ((k', w) # butlast l)"
proof -
  have "(k, v) \<in> set l" using assms(1) by (auto simp: recent_def dest: map_of_SomeD)
  then obtain as bs where l: "l = as @ (k, v) # bs" by (meson split_list)
  then have as: "ahead k l = map fst as" "distinct (map fst l)"
    using assms(1) by (auto simp: recent_def ahead_split)
  have "bs \<noteq> []"
  proof
    assume "bs = []"
    moreover have "card (set (map fst as)) = length as" using as(2) l distinct_card [of "map fst as"] by simp
    ultimately have "length l = Suc (card (set (ahead k l)))" using as(1) l by simp
    moreover have "set (ahead k l) \<subset> S" using assms(1,2,4) l as(1) by (auto simp: recent_def)
    then have "card (set (ahead k l)) < card S" by (rule psubset_card_mono [OF assms(5)])
    ultimately show False using assms(6,7) by simp
  qed
  then have bl: "butlast l = as @ (k, v) # butlast bs" using l by (simp add: butlast_append)
  have d: "distinct (map fst (butlast l))" using as(2) by (simp add: distinct_butlast map_butlast)
  have "ahead k (butlast l) = ahead k l" "map_of (butlast l) k = Some v"
    using ahead_split [of k as v "butlast bs"] lru_drop_split(2) [of as k v "butlast bs"] d as l unfolding bl by simp_all
  moreover have "ahead k ((k', w) # butlast l) = k' # ahead k (butlast l)" using assms(3) by (simp add: ahead_def)
  moreover have "k' \<notin> fst ` set (butlast l)" using assms(4) by (auto dest: in_set_butlastD)
  ultimately show ?thesis
    using assms(1-3) d by (simp add: recent_def)
qed

lemma recent_add:
  assumes "recent n k v S l" "k' \<in> S" "k \<notin> S" "finite S" "card S < n"
  shows "recent n k v S (lru_add n w k' l)"
proof -
  have ne: "k' \<noteq> k" using assms(2,3) by auto
  show ?thesis
    using recent_front [OF assms(1,2) ne, of w] recent_evict [OF assms(1,2) ne _ assms(4,5), of w]
    by (auto simp: lru_add_def lru_drop_absent)
qed

lemma recent_touch:
  assumes "recent n k v S l" "k' \<in> insert k S" "k \<notin> S"
  shows "recent n k v S (lru_touch k' l)"
proof (cases "k' = k")
  case True
  then show ?thesis
    using assms(1) distinct_lru_touch [of l k] by (auto simp: recent_def lru_touch_def ahead_def)
next
  case False
  then show ?thesis
    using assms recent_front [OF assms(1), of k'] by (auto simp: lru_touch_def split: option.split)
qed

lemma recent_run:
  assumes "recent n k v S l" "op_dests ops \<subseteq> insert k S" "k \<notin> S" "finite S" "card S < n"
    and "Reset \<notin> set ops" "\<And>w. Record w k \<notin> set ops"
  shows "recent n k v S (snd (lru_run n ops l))"
  using assms
proof (induction n ops l rule: lru_run.induct)
  case (2 n w k' ops l)
  then show ?case using recent_add [of n k v S l k' w] by auto
next
  case (3 n k' ops l)
  then show ?case using recent_touch [of n k v S l k'] by (auto split: prod.split)
qed auto

lemma lru_run_append: "snd (lru_run n (xs @ ys) l) = snd (lru_run n ys (snd (lru_run n xs l)))"
  by (induction n xs l rule: lru_run.induct) (auto split: prod.split)

lemma distinct_lru_run: "distinct (map fst l) \<Longrightarrow> distinct (map fst (snd (lru_run n ops l)))"
  by (induction n ops l rule: lru_run.induct) (auto simp: distinct_lru_add distinct_lru_touch split: prod.split)

locale lru_cache =
  fixes cap :: nat
    and R :: "'t \<Rightarrow> ('k \<times> nat) list \<Rightarrow> bool"
    and fresh :: 't
    and add :: "nat \<Rightarrow> 'k \<Rightarrow> 't \<Rightarrow> 't option"
    and get :: "'k \<Rightarrow> 't \<Rightarrow> (nat option \<times> 't) option"
    and peek :: "'k \<Rightarrow> 't \<Rightarrow> nat option option"
    and clear :: "'t \<Rightarrow> 't"
  assumes fresh_R: "R fresh []"
    and add_R: "R t l \<Longrightarrow> \<exists>t'. add v k t = Some t' \<and> R t' (lru_add cap v k l)"
    and get_R: "R t l \<Longrightarrow> \<exists>t'. get k t = Some (map_of l k, t') \<and> R t' (lru_touch k l)"
    and peek_R: "R t l \<Longrightarrow> peek k t = Some (map_of l k)"
    and clear_R: "R t l \<Longrightarrow> R (clear t) []"
begin

lemma exec_R:
  assumes "R t l"
  shows "\<exists>t'. lru_exec add get clear ops t = Some (fst (lru_run cap ops l), t') \<and> R t' (snd (lru_run cap ops l))"
  using assms
proof (induction ops arbitrary: t l)
  case (Cons a ops)
  show ?case
  proof (cases a)
    case (Record v k)
    obtain t' where "add v k t = Some t'" "R t' (lru_add cap v k l)" using add_R [OF Cons.prems] by blast
    then show ?thesis using Cons.IH Record by simp
  next
    case (Lookup k)
    obtain t' where t': "get k t = Some (map_of l k, t')" "R t' (lru_touch k l)" using get_R [OF Cons.prems] by blast
    then show ?thesis using Cons.IH [OF t'(2)] Lookup by (auto split: prod.split)
  next
    case Reset
    then show ?thesis using Cons.IH [OF clear_R [OF Cons.prems]] by simp
  qed
qed simp

text \<open>A destination stays cached while fewer than \<open>cap\<close> others are used after it.\<close>

lemma recently_recorded_kept:
  assumes "Reset \<notin> set ops" "\<And>w. Record w k \<notin> set ops" "card (op_dests ops - {k}) < cap"
  shows "\<exists>rs t. lru_exec add get clear (before @ Record v k # ops) fresh = Some (rs, t) \<and> peek k t = Some (Some v)"
proof -
  let ?l = "snd (lru_run cap before [])"
  have "recent cap k v (op_dests ops - {k}) (lru_add cap v k ?l)"
    using distinct_lru_add [OF distinct_lru_run [of "[]"], of cap v k cap before] by (auto simp: recent_def ahead_def lru_add_def)
  then have "recent cap k v (op_dests ops - {k}) (snd (lru_run cap ops (lru_add cap v k ?l)))"
    using assms by (intro recent_run) (auto simp: finite_op_dests)
  then have "map_of (snd (lru_run cap (before @ Record v k # ops) [])) k = Some v"
    by (simp add: recent_def lru_run_append)
  then show ?thesis
    using exec_R [OF fresh_R, of "before @ Record v k # ops"] peek_R by metis
qed

end

text \<open>
  Under the profile's assertions the table meets the contract: the relation is empty for a
  profile that breaks them, and holds of the new table for one that does not.
\<close>

locale ident_table_profile =
  fixes P :: ident_profile
  assumes profile_ok: "ident_profile_ok P"
begin

sublocale table: lru_cache "ip_max_live P" "\<lambda>t l. \<exists>xs. it_repr P t xs l" "ident_new P"
  "add_record P" get_egress_interface peek_egress_interface "ident_clear P"
proof unfold_locales
  show "\<exists>xs. it_repr P (ident_new P) xs []" using ident_new_repr [OF profile_ok] by blast
next
  fix t l v k
  assume "\<exists>xs. it_repr P t xs l"
  then obtain xs where r: "it_repr P t xs l" by blast
  show "\<exists>t'. add_record P v k t = Some t' \<and> (\<exists>xs. it_repr P t' xs (lru_add (ip_max_live P) v k l))"
    using add_record_refines [OF profile_ok r] by blast
  show "\<exists>t'. get_egress_interface k t = Some (map_of l k, t') \<and> (\<exists>xs. it_repr P t' xs (lru_touch k l))"
    using get_egress_interface_refines [OF r] by blast
  show "peek_egress_interface k t = Some (map_of l k)" by (rule peek_egress_interface_refines [OF r])
  show "\<exists>xs. it_repr P (ident_clear P t) xs []" using ident_clear_new [OF r] ident_new_repr [OF profile_ok] by auto
qed

lemma every_run:
  "\<exists>t. lru_exec (add_record P) get_egress_interface (ident_clear P) ops (ident_new P)
        = Some (fst (lru_run (ip_max_live P) ops []), t)
    \<and> (\<forall>k. peek_egress_interface k t = Some (map_of (snd (lru_run (ip_max_live P) ops [])) k))"
  using table.exec_R [OF table.fresh_R, of ops] table.peek_R by metis

lemmas recent_kept = table.recently_recorded_kept

end

lemma default_ident_profile_ok: "swap_remove_law sw \<Longrightarrow> ident_profile_ok (default_ident_profile sw)"
  by (simp add: ident_profile_ok_def ident_invariants_def list_ex_iff default_ident_profile_def IDENT_TABLE_CAP_def
      IDENT_TABLE_MAX_def NONE_IDX_def)
     (rule bexI [of _ 7], simp_all)

interpretation default_table: ident_table_profile "default_ident_profile documented_swap"
  by unfold_locales (rule default_ident_profile_ok [OF documented_swap_law])

text \<open>
  C36. The array-backed table refines the abstract cache: for every sequence of records, lookups
  and resets on a new table no index or \<^verbatim>\<open>expect\<close> panics, the lookups answer what the abstract
  cache answers, and afterwards every destination reads what the abstract cache holds for it.
\<close>

theorem ident_table_refines_lru:
  assumes "ident_profile_ok P"
  shows "\<exists>t. lru_exec (add_record P) get_egress_interface (ident_clear P) ops (ident_new P)
        = Some (fst (lru_run (ip_max_live P) ops []), t)
    \<and> (\<forall>k. peek_egress_interface k t = Some (map_of (snd (lru_run (ip_max_live P) ops [])) k))"
proof -
  have "ident_table_profile P" using assms by unfold_locales
  then show ?thesis
    by (rule ident_table_profile.every_run)
qed

text \<open>
  A recorded destination keeps its interface for as long as fewer than \<^verbatim>\<open>MAX_LIVE\<close> other
  destinations are recorded or looked up after it, whatever happened before: only the least
  recently used entries are evicted.
\<close>

theorem recent_destination_kept:
  assumes "ident_profile_ok P" "Reset \<notin> set ops" "\<And>w. Record w k \<notin> set ops"
    and "card (op_dests ops - {k}) < ip_max_live P"
  shows "\<exists>rs t. lru_exec (add_record P) get_egress_interface (ident_clear P) (before @ Record v k # ops) (ident_new P)
        = Some (rs, t) \<and> peek_egress_interface k t = Some (Some v)"
proof -
  have "ident_table_profile P" using assms(1) by unfold_locales
  then show ?thesis
    using assms(2-4) by (rule ident_table_profile.recent_kept)
qed

definition tiny_profile :: ident_profile where
  "tiny_profile = \<lparr>ip_cap = 4, ip_max_live = 2, ip_swap = documented_swap\<rparr>"

lemma tiny_profile_ok: "ident_profile_ok tiny_profile"
  by (simp add: ident_profile_ok_def ident_invariants_def list_ex_iff tiny_profile_def NONE_IDX_def documented_swap_law)
     (rule bexI [of _ 2], simp_all)

theorem ident_table_refines_lru_witness:
  "\<exists>t. lru_exec (add_record tiny_profile) get_egress_interface (ident_clear tiny_profile)
       [Record 0 (1 :: nat), Record 1 2, Lookup 1, Record 2 3, Lookup 2] (ident_new tiny_profile) = Some ([Some 0, None], t)
     \<and> (\<forall>k. peek_egress_interface k t = Some (map_of [(3, 2), (1, 0)] k))"
  using ident_table_refines_lru [OF tiny_profile_ok, of "[Record 0 (1 :: nat), Record 1 2, Lookup 1, Record 2 3, Lookup 2]"]
  by (simp add: lru_add_def lru_touch_def lru_drop_def tiny_profile_def)

theorem recent_destination_kept_witness:
  "\<exists>rs t. lru_exec (add_record tiny_profile) get_egress_interface (ident_clear tiny_profile)
       ([Record 0 (1 :: nat), Record 1 2] @ Record 7 5 # [Lookup 5, Record 2 1]) (ident_new tiny_profile) = Some (rs, t)
     \<and> peek_egress_interface 5 t = Some (Some 7)"
  by (rule recent_destination_kept [OF tiny_profile_ok]) (auto simp: tiny_profile_def insert_Diff_if)

end
