(* ===== verification/Ping.thy ===== *)
theory Ping
  imports Wire
begin

text \<open>
  Reachability probing: the session of \<^verbatim>\<open>libs/wayfinder/src/ping.rs\<close> and the part of the central
  router that starts, polls, answers and cancels it (\<^verbatim>\<open>libs/wayfinder/src/lib.rs\<close>). Durations
  are natural numbers of nanoseconds; the probe clock is their count of microseconds truncated to
  32 bits. What the router knows of routes and of its lock is an argument of \<open>poll_ping\<close>.

  The lemmas show the accounting of a session (sent = received + lost + pending), that its
  statistics are those of the credited replies, that a displaced session's replies are never
  credited to its successor, and that a driver sleeping until the reported deadline finishes
  every session.
\<close>

section \<open>Constants\<close>

definition MAX_PING_PROBES :: nat where "MAX_PING_PROBES = 16"
definition MAX_PING_PAYLOAD :: u16 where "MAX_PING_PAYLOAD = 64"
definition MAX_PING_COUNT :: u16 where "MAX_PING_COUNT = 1000"
definition DEFAULT_PING_COUNT :: u16 where "DEFAULT_PING_COUNT = 5"
definition DEFAULT_PING_INTERVAL :: duration where "DEFAULT_PING_INTERVAL = 1000000000"
definition DEFAULT_PING_TIMEOUT :: duration where "DEFAULT_PING_TIMEOUT = 5 * 1000000000"
definition DEFAULT_PING_PAYLOAD :: u16 where "DEFAULT_PING_PAYLOAD = 16"
definition MAX_PING_INTERVAL :: duration where "MAX_PING_INTERVAL = 600 * 1000000000"
definition MIN_PING_INTERVAL :: duration where "MIN_PING_INTERVAL = 50 * 1000000"

section \<open>A session\<close>

record ping_config =
  pc_count :: u16
  pc_interval :: duration
  pc_timeout :: duration
  pc_payload_len :: u16

datatype probe_state = Pending | Replied | TimedOut | NoRoute

record probe_record =
  pb_seqno :: u16
  pb_sent_at_us :: u32
  pb_rtt_us :: u32
  pb_fwd_hops :: u8
  pb_rev_hops :: u8
  pb_state :: probe_state

record ping_session =
  ps_session_seq :: u32
  ps_target :: mac
  ps_requested :: u16
  ps_interval :: duration
  ps_timeout :: duration
  ps_payload_len :: u16
  ps_first_seqno :: u16
  ps_emitted :: u16
  ps_next_due :: duration
  ps_sent :: u32
  ps_received :: u32
  ps_lost :: u32
  ps_rtt_min_us :: u32
  ps_rtt_max_us :: u32
  ps_rtt_sum_us :: u64
  ps_rtt_sum_sq_us :: u64
  ps_probes :: "probe_record list"

definition us :: "duration \<Rightarrow> u32" where
  "us now = word_of_nat (now div 1000)"

definition session_new :: "u32 \<Rightarrow> mac \<Rightarrow> ping_config \<Rightarrow> u16 \<Rightarrow> duration \<Rightarrow> ping_session" where
  "session_new session_seq target config first_seqno now =
     \<lparr>ps_session_seq = session_seq, ps_target = target, ps_requested = pc_count config,
      ps_interval = pc_interval config, ps_timeout = pc_timeout config, ps_payload_len = pc_payload_len config,
      ps_first_seqno = first_seqno, ps_emitted = 0, ps_next_due = now, ps_sent = 0, ps_received = 0, ps_lost = 0,
      ps_rtt_min_us = - 1, ps_rtt_max_us = 0, ps_rtt_sum_us = 0, ps_rtt_sum_sq_us = 0, ps_probes = []\<rparr>"

definition note_payload_emitted :: "u16 \<Rightarrow> ping_session \<Rightarrow> ping_session" where
  "note_payload_emitted len s = s\<lparr>ps_payload_len := len\<rparr>"

definition rtt_min_us :: "ping_session \<Rightarrow> u32 option" where
  "rtt_min_us s = (if ps_received s > 0 then Some (ps_rtt_min_us s) else None)"

definition rtt_max_us :: "ping_session \<Rightarrow> u32 option" where
  "rtt_max_us s = (if ps_received s > 0 then Some (ps_rtt_max_us s) else None)"

definition rtt_avg_us :: "ping_session \<Rightarrow> u32 option" where
  "rtt_avg_us s = (if ps_received s > 0 then Some (ucast (ps_rtt_sum_us s div ucast (ps_received s))) else None)"

text \<open>\<^verbatim>\<open>u64::isqrt\<close>, digit by digit.\<close>

fun isqrt :: "nat \<Rightarrow> nat" where
  "isqrt n = (if n = 0 then 0
     else let r = 2 * isqrt (n div 4) in if (r + 1) * (r + 1) \<le> n then r + 1 else r)"

declare isqrt.simps [simp del]

text \<open>The product of the mean with itself would panic if it overflowed: the outer \<open>None\<close>.\<close>

definition rtt_mdev_us :: "ping_session \<Rightarrow> u32 option option" where
  "rtt_mdev_us s =
     (if ps_received s = 0 then Some None
      else let n = ucast (ps_received s);
               mean = ps_rtt_sum_us s div n;
               mean_sq = ps_rtt_sum_sq_us s div n
           in case checked_mul mean mean of
                None \<Rightarrow> None
              | Some m2 \<Rightarrow> Some (Some (word_of_nat (isqrt (unat (saturating_sub mean_sq m2))))))"

definition is_pending :: "probe_record \<Rightarrow> bool" where
  "is_pending p \<longleftrightarrow> pb_state p = Pending"

definition active :: "ping_session \<Rightarrow> bool" where
  "active s \<longleftrightarrow> ps_emitted s < ps_requested s \<or> list_ex is_pending (ps_probes s)"

definition probe_due :: "duration \<Rightarrow> ping_session \<Rightarrow> bool" where
  "probe_due now s \<longleftrightarrow> ps_emitted s < ps_requested s \<and> now \<ge> ps_next_due s"

text \<open>\<^verbatim>\<open>Duration::MAX\<close> as the neutral element of the minimum is \<open>None\<close>.\<close>

definition min_wait :: "duration option \<Rightarrow> duration \<Rightarrow> duration option" where
  "min_wait a b = Some (case a of None \<Rightarrow> b | Some x \<Rightarrow> min x b)"

definition next_due_after :: "duration \<Rightarrow> ping_session \<Rightarrow> duration option" where
  "next_due_after now s =
     (let soonest = (if ps_emitted s < ps_requested s then Some (ps_next_due s - now) else None);
          now_us = us now;
          timeout_us = (word_of_nat (ps_timeout s div 1000) :: u32)
      in fold (\<lambda>p soonest.
                 if \<not> is_pending p then soonest
                 else let elapsed = now_us - pb_sent_at_us p;
                          remaining = unat (saturating_sub timeout_us elapsed) * 1000
                      in min_wait soonest remaining) (ps_probes s) soonest)"

definition session_push :: "probe_record \<Rightarrow> ping_session \<Rightarrow> ping_session" where
  "session_push r s =
     (let s = (if length (ps_probes s) = MAX_PING_PROBES
               then (case ps_probes s of
                       [] \<Rightarrow> s
                     | evicted # rest \<Rightarrow>
                         (let s = s\<lparr>ps_probes := rest\<rparr>
                          in if is_pending evicted then s\<lparr>ps_lost := saturating_add (ps_lost s) 1\<rparr> else s))
               else s)
      in if length (ps_probes s) < MAX_PING_PROBES then s\<lparr>ps_probes := ps_probes s @ [r]\<rparr> else s)"

definition record_sent :: "duration \<Rightarrow> ping_session \<Rightarrow> (u16 \<times> ping_session) option" where
  "record_sent now s =
     (let seqno = ps_first_seqno s + ps_emitted s in
      do { next_due \<leftarrow> dur_add now (ps_interval s);
           let s = s\<lparr>ps_emitted := saturating_add (ps_emitted s) 1, ps_next_due := next_due,
                     ps_sent := saturating_add (ps_sent s) 1\<rparr>;
           Some (seqno, session_push \<lparr>pb_seqno = seqno, pb_sent_at_us = us now, pb_rtt_us = 0, pb_fwd_hops = 0,
                                      pb_rev_hops = 0, pb_state = Pending\<rparr> s) })"

definition record_no_route :: "duration \<Rightarrow> ping_session \<Rightarrow> ping_session option" where
  "record_no_route now s =
     (let seqno = ps_first_seqno s + ps_emitted s in
      do { next_due \<leftarrow> dur_add now (ps_interval s);
           let s = s\<lparr>ps_emitted := saturating_add (ps_emitted s) 1, ps_next_due := next_due,
                     ps_sent := saturating_add (ps_sent s) 1, ps_lost := saturating_add (ps_lost s) 1\<rparr>;
           Some (session_push \<lparr>pb_seqno = seqno, pb_sent_at_us = us now, pb_rtt_us = 0, pb_fwd_hops = 0,
                               pb_rev_hops = 0, pb_state = NoRoute\<rparr> s) })"

text \<open>\<^verbatim>\<open>iter_mut().find\<close>: the first matching row with what precedes and follows it.\<close>

fun find_split :: "('a \<Rightarrow> bool) \<Rightarrow> 'a list \<Rightarrow> ('a list \<times> 'a \<times> 'a list) option" where
  "find_split p [] = None"
| "find_split p (x # xs) =
     (if p x then Some ([], x, xs)
      else map_option (\<lambda>(as, y, bs). (x # as, y, bs)) (find_split p xs))"

definition record_reply :: "duration \<Rightarrow> mac \<Rightarrow> u16 \<Rightarrow> u8 \<Rightarrow> u8 \<Rightarrow> ping_session \<Rightarrow> bool \<times> ping_session" where
  "record_reply now peer seqno fwd_hops rev_hops s =
     (if peer \<noteq> ps_target s then (False, s)
      else case find_split (\<lambda>p. pb_seqno p = seqno \<and> is_pending p) (ps_probes s) of
             None \<Rightarrow> (False, s)
           | Some (as, p, bs) \<Rightarrow>
               let rtt_us = us now - pb_sent_at_us p;
                   p = p\<lparr>pb_rtt_us := rtt_us, pb_fwd_hops := fwd_hops, pb_rev_hops := rev_hops, pb_state := Replied\<rparr>
               in (True, s\<lparr>ps_probes := as @ p # bs,
                           ps_received := saturating_add (ps_received s) 1,
                           ps_rtt_min_us := min (ps_rtt_min_us s) rtt_us,
                           ps_rtt_max_us := max (ps_rtt_max_us s) rtt_us,
                           ps_rtt_sum_us := saturating_add (ps_rtt_sum_us s) (ucast rtt_us),
                           ps_rtt_sum_sq_us := saturating_add (ps_rtt_sum_sq_us s) (ucast rtt_us * ucast rtt_us)\<rparr>))"

definition time_out :: "(probe_record \<Rightarrow> bool) \<Rightarrow> ping_session \<Rightarrow> ping_session" where
  "time_out late s =
     (let newly_lost = length (filter (\<lambda>p. is_pending p \<and> late p) (ps_probes s))
      in s\<lparr>ps_probes := map (\<lambda>p. if is_pending p \<and> late p then p\<lparr>pb_state := TimedOut\<rparr> else p) (ps_probes s),
           ps_lost := saturating_add (ps_lost s) (word_of_nat newly_lost)\<rparr>)"

definition expire :: "duration \<Rightarrow> ping_session \<Rightarrow> ping_session" where
  "expire now s = time_out (\<lambda>p. us now - pb_sent_at_us p \<ge> word_of_nat (ps_timeout s div 1000)) s"

definition session_cancel :: "ping_session \<Rightarrow> ping_session" where
  "session_cancel s = time_out (\<lambda>_. True) (s\<lparr>ps_requested := ps_emitted s\<rparr>)"

section \<open>The router's side\<close>

record ping_router =
  pr_ping :: "ping_session option"
  pr_next_ping_seq :: u32
  pr_next_probe_seqno :: u16

definition ping_router_new :: ping_router where
  "ping_router_new = \<lparr>pr_ping = None, pr_next_ping_seq = 1, pr_next_probe_seqno = 0\<rparr>"

definition clamp_interval :: "duration \<Rightarrow> duration \<Rightarrow> duration" where
  "clamp_interval dflt d = (if d = 0 then dflt else max MIN_PING_INTERVAL (min d MAX_PING_INTERVAL))"

definition start_ping :: "duration \<Rightarrow> mac \<Rightarrow> u16 \<Rightarrow> duration \<Rightarrow> duration \<Rightarrow> u16 \<Rightarrow> ping_router \<Rightarrow> u32 \<times> ping_router" where
  "start_ping now target count interval timeout payload_len r =
     (let count = (if count = 0 then DEFAULT_PING_COUNT else min count MAX_PING_COUNT);
          interval = clamp_interval DEFAULT_PING_INTERVAL interval;
          timeout = clamp_interval DEFAULT_PING_TIMEOUT timeout;
          payload_len = (if payload_len = 0 then DEFAULT_PING_PAYLOAD else min payload_len MAX_PING_PAYLOAD);
          session_seq = pr_next_ping_seq r;
          first_seqno = pr_next_probe_seqno r
      in (session_seq,
          r\<lparr>pr_next_ping_seq := (if session_seq = - 1 then 1 else session_seq + 1),
            pr_next_probe_seqno := first_seqno + count,
            pr_ping := Some (session_new session_seq target
              \<lparr>pc_count = count, pc_interval = interval, pc_timeout = timeout, pc_payload_len = payload_len\<rparr>
              first_seqno now)\<rparr>))"

definition ping_session_of :: "u32 \<Rightarrow> ping_router \<Rightarrow> ping_session option" where
  "ping_session_of session_seq r =
     (case pr_ping r of Some s \<Rightarrow> if ps_session_seq s = session_seq then Some s else None | None \<Rightarrow> None)"

definition cancel_ping :: "u32 \<Rightarrow> ping_router \<Rightarrow> ping_session option \<times> ping_router" where
  "cancel_ping session_seq r =
     (case ping_session_of session_seq r of
        None \<Rightarrow> (None, r)
      | Some s \<Rightarrow> (let s = session_cancel s in (Some s, r\<lparr>pr_ping := Some s\<rparr>)))"

text \<open>
  \<^verbatim>\<open>poll_ping\<close> on the session: \<open>locked\<close> is \<^verbatim>\<open>auth_locked\<close>, \<open>hop\<close> what \<^verbatim>\<open>resolve_next_hop\<close> answers for
  the target, \<open>reserved\<close> the trailer length when authentication is on. The result is the frame to
  send, if any, with the session and the transmit buffer.
\<close>

definition poll_session :: "bool \<Rightarrow> (mac \<Rightarrow> mac option) \<Rightarrow> nat \<Rightarrow> mac \<Rightarrow> duration \<Rightarrow> bytes \<Rightarrow> ping_session
    \<Rightarrow> (frame_data option \<times> bytes \<times> ping_session) option" where
  "poll_session locked hop reserved own now tx_buf s =
     (let s = expire now s in
      if \<not> probe_due now s then Some (None, tx_buf, s)
      else if locked then map_option (\<lambda>s. (None, tx_buf, s)) (record_no_route now s)
      else case hop (ps_target s) of
        None \<Rightarrow> map_option (\<lambda>s. (None, tx_buf, s)) (record_no_route now s)
      | Some next_hop \<Rightarrow>
          let room = length tx_buf - (ECHO_SIZE + reserved);
              payload_len = min (unat (ps_payload_len s)) room;
              total = ECHO_SIZE + payload_len in
          if total > length tx_buf then map_option (\<lambda>s. (None, tx_buf, s)) (record_no_route now s)
          else (case record_sent now (note_payload_emitted (word_of_nat payload_len) s) of
                  None \<Rightarrow> None
                | Some (seqno, s) \<Rightarrow>
                    let hdr = \<lparr>ec_packet_type = packet_type_as_u8 EchoRequest, ec_version = BATMAN_VERSION, ec_ttl = 50,
                               ec_dest = ps_target s, ec_orig = own, ec_seqno = seqno, ec_req_hops = 0, ec_hops = 0\<rparr>
                    in do { tx_buf \<leftarrow> copy_into tx_buf 0 (echo_write hdr);
                            tx_buf \<leftarrow> copy_into tx_buf ECHO_SIZE (replicate payload_len 0xa5);
                            payload \<leftarrow> get_range tx_buf 0 total;
                            Some (Some \<lparr>fd_dst = next_hop, fd_protocol = ETH_P_BATMAN, fd_payload = payload\<rparr>, tx_buf, s) }))"

definition poll_ping :: "bool \<Rightarrow> (mac \<Rightarrow> mac option) \<Rightarrow> nat \<Rightarrow> mac \<Rightarrow> duration \<Rightarrow> bytes \<Rightarrow> ping_router
    \<Rightarrow> (frame_data option \<times> bytes \<times> ping_router) option" where
  "poll_ping locked hop reserved own now tx_buf r =
     (case pr_ping r of
        None \<Rightarrow> Some (None, tx_buf, r)
      | Some s \<Rightarrow>
          do { (f, tx_buf, s) \<leftarrow> poll_session locked hop reserved own now tx_buf s;
               Some (f, tx_buf, r\<lparr>pr_ping := Some s\<rparr>) })"

definition next_ping_after :: "duration \<Rightarrow> ping_router \<Rightarrow> duration option" where
  "next_ping_after now r = (case pr_ping r of None \<Rightarrow> None | Some s \<Rightarrow> next_due_after now s)"

text \<open>The answer to an echo reply that the engine delivered to this node.\<close>

definition echo_reply_received :: "duration \<Rightarrow> link_frame \<Rightarrow> ping_router \<Rightarrow> ping_router" where
  "echo_reply_received now frame r =
     (case echo_read (lf_payload frame) of
        None \<Rightarrow> r
      | Some (rsp, _) \<Rightarrow>
          (case pr_ping r of
             None \<Rightarrow> r
           | Some s \<Rightarrow>
               r\<lparr>pr_ping := Some (snd (record_reply now (ec_orig rsp) (ec_seqno rsp) (ec_req_hops rsp) (ec_hops rsp) s))\<rparr>))"

section \<open>The accounting of a session\<close>

text \<open>What a probe leaves behind, where the next deadline does not overflow.\<close>

definition sent_recorded :: "duration \<Rightarrow> ping_session \<Rightarrow> u16 \<times> ping_session" where
  "sent_recorded now s =
     (let seqno = ps_first_seqno s + ps_emitted s;
          s = s\<lparr>ps_emitted := saturating_add (ps_emitted s) 1, ps_next_due := now + ps_interval s,
                ps_sent := saturating_add (ps_sent s) 1\<rparr>
      in (seqno, session_push \<lparr>pb_seqno = seqno, pb_sent_at_us = us now, pb_rtt_us = 0, pb_fwd_hops = 0,
                               pb_rev_hops = 0, pb_state = Pending\<rparr> s))"

definition no_route_recorded :: "duration \<Rightarrow> ping_session \<Rightarrow> ping_session" where
  "no_route_recorded now s =
     (let seqno = ps_first_seqno s + ps_emitted s;
          s = s\<lparr>ps_emitted := saturating_add (ps_emitted s) 1, ps_next_due := now + ps_interval s,
                ps_sent := saturating_add (ps_sent s) 1, ps_lost := saturating_add (ps_lost s) 1\<rparr>
      in session_push \<lparr>pb_seqno = seqno, pb_sent_at_us = us now, pb_rtt_us = 0, pb_fwd_hops = 0,
                       pb_rev_hops = 0, pb_state = NoRoute\<rparr> s)"

lemma interval_kept [simp]:
  "ps_interval (expire now s) = ps_interval s" "ps_interval (note_payload_emitted n s) = ps_interval s"
  "ps_timeout (expire now s) = ps_timeout s" "ps_timeout (note_payload_emitted n s) = ps_timeout s"
  "ps_next_due (expire now s) = ps_next_due s" "ps_next_due (note_payload_emitted n s) = ps_next_due s"
  by (simp_all add: expire_def time_out_def note_payload_emitted_def Let_def)

lemma record_eq:
  "record_sent now s = (if now + ps_interval s \<le> DURATION_MAX then Some (sent_recorded now s) else None)"
  "record_no_route now s = (if now + ps_interval s \<le> DURATION_MAX then Some (no_route_recorded now s) else None)"
  by (simp_all add: record_sent_def sent_recorded_def record_no_route_def no_route_recorded_def dur_add_def Let_def)

definition pending :: "ping_session \<Rightarrow> nat" where
  "pending s = length (filter is_pending (ps_probes s))"

definition probe_numbers :: "u16 \<Rightarrow> nat \<Rightarrow> nat \<Rightarrow> u16 list" where
  "probe_numbers first a b = map (\<lambda>j. first + word_of_nat j) [a..<b]"

definition ping_ok :: "ping_session \<Rightarrow> bool" where
  "ping_ok s \<longleftrightarrow> unat (ps_sent s) = unat (ps_emitted s) \<and> unat (ps_emitted s) \<le> unat (ps_requested s)
     \<and> unat (ps_received s) + unat (ps_lost s) + pending s = unat (ps_sent s)
     \<and> length (ps_probes s) \<le> MAX_PING_PROBES \<and> length (ps_probes s) \<le> unat (ps_emitted s)
     \<and> map pb_seqno (ps_probes s)
         = probe_numbers (ps_first_seqno s) (unat (ps_emitted s) - length (ps_probes s)) (unat (ps_emitted s))"

text \<open>The statistics are those of the list \<open>rs\<close> of credited round trips, in order.\<close>

definition stats_of :: "ping_session \<Rightarrow> u32 list \<Rightarrow> bool" where
  "stats_of s rs \<longleftrightarrow> unat (ps_received s) = length rs \<and> ps_rtt_min_us s = fold min rs (- 1) \<and> ps_rtt_max_us s = fold max rs 0
     \<and> unat (ps_rtt_sum_us s) = sum_list (map unat rs)
     \<and> unat (ps_rtt_sum_sq_us s) = min (sum_list (map (\<lambda>r. unat r * unat r) rs)) (2 ^ 64 - 1)"

lemma ping_ok_new: "ping_ok (session_new q t c f now)" "stats_of (session_new q t c f now) []"
  by (simp_all add: ping_ok_def session_new_def pending_def probe_numbers_def stats_of_def)

lemma session_new_fields [simp]:
  "ps_requested (session_new q t c f now) = pc_count c" "ps_first_seqno (session_new q t c f now) = f"
  "ps_emitted (session_new q t c f now) = 0" "ps_probes (session_new q t c f now) = []"
  by (simp_all add: session_new_def)

lemma u16_bound: "unat (x :: u16) < 65536"
  using unsigned_less [of x] by simp

lemma u32_bound: "unat (x :: u32) < 4294967296"
  using unsigned_less [of x] by simp

lemma unat_ucast_u32: "unat (ucast (x :: u16) :: u32) = unat x"
proof -
  have "unat x < 2 ^ 32" using u16_bound [of x] by simp
  then show ?thesis by (simp add: unsigned_ucast_eq take_bit_nat_eq_self_iff)
qed

lemma unat_ucast_u64: "unat (ucast (x :: u32) :: u64) = unat x"
proof -
  have "unat x < 2 ^ 64" using u32_bound [of x] by simp
  then show ?thesis by (simp add: unsigned_ucast_eq take_bit_nat_eq_self_iff)
qed

lemma filter_split_pending:
  "length (filter is_pending xs) = length (filter (\<lambda>p. is_pending p \<and> late p) xs)
     + length (filter is_pending (map (\<lambda>p. if is_pending p \<and> late p then p\<lparr>pb_state := TimedOut\<rparr> else p) xs))"
  by (induction xs) (auto simp: is_pending_def)

lemma map_seqno_timed [simp]:
  "map pb_seqno (map (\<lambda>p. if q p then p\<lparr>pb_state := TimedOut\<rparr> else p) xs) = map pb_seqno xs"
  by simp

lemma time_out_fields [simp]:
  "ps_sent (time_out late s) = ps_sent s" "ps_emitted (time_out late s) = ps_emitted s"
  "ps_requested (time_out late s) = ps_requested s" "ps_received (time_out late s) = ps_received s"
  "ps_first_seqno (time_out late s) = ps_first_seqno s" "ps_next_due (time_out late s) = ps_next_due s"
  "ps_timeout (time_out late s) = ps_timeout s" "ps_interval (time_out late s) = ps_interval s"
  "ps_target (time_out late s) = ps_target s" "length (ps_probes (time_out late s)) = length (ps_probes s)"
  "ps_session_seq (time_out late s) = ps_session_seq s"
  by (simp_all add: time_out_def Let_def)

lemma time_out_pending:
  "pending s = length (filter (\<lambda>p. is_pending p \<and> late p) (ps_probes s)) + pending (time_out late s)"
  using filter_split_pending [of "ps_probes s" late] by (simp add: pending_def time_out_def Let_def)

lemma time_out_ok:
  assumes "ping_ok s"
  shows "ping_ok (time_out late s)"
proof -
  let ?n = "length (filter (\<lambda>p. is_pending p \<and> late p) (ps_probes s))"
  have n: "?n \<le> pending s" using time_out_pending [of s late] by simp
  have b: "unat (ps_lost s) + pending s < 65536"
    using assms u16_bound [of "ps_emitted s"] by (simp add: ping_ok_def)
  then have "unat (word_of_nat ?n :: u32) = ?n" using n by (simp add: unat_of_nat)
  then have "unat (ps_lost (time_out late s)) = unat (ps_lost s) + ?n"
    using b n by (simp add: time_out_def Let_def unat_saturating_add)
  moreover have "map pb_seqno (ps_probes (time_out late s)) = map pb_seqno (ps_probes s)"
    by (simp add: time_out_def Let_def)
  ultimately show ?thesis
    using assms time_out_pending [of s late] by (simp add: ping_ok_def del: map_map)
qed

lemma stats_time_out [simp]: "stats_of (time_out late s) rs = stats_of s rs"
  by (simp add: stats_of_def time_out_def Let_def)

lemma expire_ok: "ping_ok s \<Longrightarrow> ping_ok (expire now s)"
  by (simp add: expire_def time_out_ok)

lemma ping_ok_cancel_request: "ping_ok s \<Longrightarrow> ping_ok (s\<lparr>ps_requested := ps_emitted s\<rparr>)"
  by (simp add: ping_ok_def pending_def)

lemma session_cancel_ok: "ping_ok s \<Longrightarrow> ping_ok (session_cancel s)"
  unfolding session_cancel_def by (intro time_out_ok ping_ok_cancel_request)

text \<open>One more row: the counters move together.\<close>

lemma probe_numbers_snoc: "a \<le> b \<Longrightarrow> probe_numbers f a (Suc b) = probe_numbers f a b @ [f + word_of_nat b]"
  by (simp add: probe_numbers_def)

lemma probe_numbers_tl: "a < b \<Longrightarrow> tl (probe_numbers f a b) = probe_numbers f (Suc a) b"
  by (simp add: probe_numbers_def upt_conv_Cons)

lemma session_push_ok:
  assumes "ping_ok s" "ps_emitted s < ps_requested s" "pb_seqno r = ps_first_seqno s + ps_emitted s"
    and "s' = s\<lparr>ps_emitted := saturating_add (ps_emitted s) 1, ps_next_due := d, ps_sent := saturating_add (ps_sent s) 1,
      ps_lost := (if is_pending r then ps_lost s else saturating_add (ps_lost s) 1)\<rparr>"
  shows "ping_ok (session_push r s')"
proof -
  have e: "unat (ps_emitted s) < unat (ps_requested s)" using assms(2) by (simp add: word_less_nat_alt)
  have em: "unat (saturating_add (ps_emitted s) 1) = Suc (unat (ps_emitted s))"
    using e u16_bound [of "ps_requested s"] by (simp add: unat_saturating_add)
  have b: "unat (ps_sent s) < 65536" "unat (ps_lost s) < 65536"
    using assms(1) u16_bound [of "ps_emitted s"] by (auto simp: ping_ok_def)
  have sn: "unat (saturating_add (ps_sent s) 1) = Suc (unat (ps_sent s))"
      "unat (saturating_add (ps_lost s) 1) = Suc (unat (ps_lost s))"
      "unat (saturating_add (saturating_add (ps_lost s) 1) 1) = Suc (Suc (unat (ps_lost s)))"
    using b by (simp_all add: unat_saturating_add)
  have num: "map pb_seqno (ps_probes s @ [r]) = probe_numbers (ps_first_seqno s) (unat (ps_emitted s) - length (ps_probes s)) (Suc (unat (ps_emitted s)))"
    using assms(1,3) by (simp add: ping_ok_def probe_numbers_snoc)
  show ?thesis
  proof (cases "length (ps_probes s) = MAX_PING_PROBES")
    case False
    then show ?thesis
      using assms(1,4) e em sn num by (auto simp: session_push_def ping_ok_def pending_def Let_def)
  next
    case True
    then obtain v rest where v: "ps_probes s = v # rest" by (cases "ps_probes s") (auto simp: MAX_PING_PROBES_def)
    have "map pb_seqno (rest @ [r]) = tl (map pb_seqno (ps_probes s @ [r]))" by (simp add: v)
    also have "\<dots> = probe_numbers (ps_first_seqno s) (unat (ps_emitted s) - length rest) (Suc (unat (ps_emitted s)))"
    proof -
      have "Suc (length rest) \<le> unat (ps_emitted s)" using assms(1) v by (simp add: ping_ok_def)
      then show ?thesis using v unfolding num by (subst probe_numbers_tl) (simp_all add: Suc_diff_Suc)
    qed
    finally have "map pb_seqno (rest @ [r]) = probe_numbers (ps_first_seqno s) (unat (ps_emitted s) - length rest) (Suc (unat (ps_emitted s)))" .
    moreover have "unat (ps_emitted s) - length rest = Suc (unat (ps_emitted s)) - MAX_PING_PROBES" using True v by auto
    ultimately show ?thesis
      using assms(1,4) e em sn True v by (auto simp: session_push_def ping_ok_def pending_def Let_def)
  qed
qed

lemma sent_recorded_ok:
  assumes "ping_ok s" "ps_emitted s < ps_requested s"
  shows "ping_ok (snd (sent_recorded now s))" "fst (sent_recorded now s) = ps_first_seqno s + ps_emitted s"
proof -
  let ?r = "\<lparr>pb_seqno = ps_first_seqno s + ps_emitted s, pb_sent_at_us = us now, pb_rtt_us = 0, pb_fwd_hops = 0,
    pb_rev_hops = 0, pb_state = Pending\<rparr>"
  have "ping_ok (session_push ?r (s\<lparr>ps_emitted := saturating_add (ps_emitted s) 1, ps_next_due := now + ps_interval s,
      ps_sent := saturating_add (ps_sent s) 1\<rparr>))"
    by (rule session_push_ok [OF assms]) (simp_all add: is_pending_def)
  then show "ping_ok (snd (sent_recorded now s))" "fst (sent_recorded now s) = ps_first_seqno s + ps_emitted s"
    by (simp_all add: sent_recorded_def Let_def)
qed

lemma no_route_recorded_ok:
  assumes "ping_ok s" "ps_emitted s < ps_requested s"
  shows "ping_ok (no_route_recorded now s)"
proof -
  let ?r = "\<lparr>pb_seqno = ps_first_seqno s + ps_emitted s, pb_sent_at_us = us now, pb_rtt_us = 0, pb_fwd_hops = 0,
    pb_rev_hops = 0, pb_state = NoRoute\<rparr>"
  have "ping_ok (session_push ?r (s\<lparr>ps_emitted := saturating_add (ps_emitted s) 1, ps_next_due := now + ps_interval s,
      ps_sent := saturating_add (ps_sent s) 1, ps_lost := saturating_add (ps_lost s) 1\<rparr>))"
    by (rule session_push_ok [OF assms]) (simp_all add: is_pending_def)
  then show ?thesis by (simp add: no_route_recorded_def Let_def)
qed

lemma stats_push [simp]: "stats_of (session_push r s) rs = stats_of s rs"
  by (auto simp: stats_of_def session_push_def Let_def split: list.splits)

lemma stats_record [simp]:
  "stats_of (snd (sent_recorded now s)) rs = stats_of s rs" "stats_of (no_route_recorded now s) rs = stats_of s rs"
  by (simp_all add: sent_recorded_def no_route_recorded_def Let_def) (simp_all add: stats_of_def)

lemma find_split_Some: "find_split q xs = Some (as, y, bs) \<Longrightarrow> xs = as @ y # bs \<and> q y"
  by (induction xs arbitrary: as) (auto split: if_splits)

lemma record_reply_ignored:
  assumes "\<not> fst (record_reply now peer seqno f v s)"
  shows "snd (record_reply now peer seqno f v s) = s"
proof -
  have "peer \<noteq> ps_target s \<or> find_split (\<lambda>p. pb_seqno p = seqno \<and> is_pending p) (ps_probes s) = None"
    using assms by (auto simp: record_reply_def Let_def split: option.splits)
  then show ?thesis by (auto simp: record_reply_def)
qed

lemma record_reply_credited:
  assumes "fst (record_reply now peer seqno f v s)"
  obtains as p bs where "peer = ps_target s"
    "find_split (\<lambda>p. pb_seqno p = seqno \<and> is_pending p) (ps_probes s) = Some (as, p, bs)"
  using assms by (auto simp: record_reply_def split: option.splits if_splits)

lemma record_reply_ok:
  assumes "ping_ok s"
  shows "ping_ok (snd (record_reply now peer seqno f v s))"
proof (cases "fst (record_reply now peer seqno f v s)")
  case False
  then show ?thesis using assms record_reply_ignored by simp
next
  case True
  then obtain as p bs where p: "peer = ps_target s" "find_split (\<lambda>p. pb_seqno p = seqno \<and> is_pending p) (ps_probes s) = Some (as, p, bs)"
    by (rule record_reply_credited)
  then have pr: "ps_probes s = as @ p # bs" "is_pending p" using find_split_Some [OF p(2)] by auto
  have "unat (ps_received s) < 65536" using assms u16_bound [of "ps_emitted s"] by (auto simp: ping_ok_def)
  then have "unat (saturating_add (ps_received s) 1) = Suc (unat (ps_received s))" by (simp add: unat_saturating_add)
  then show ?thesis
    using assms p pr by (auto simp: record_reply_def Let_def ping_ok_def pending_def is_pending_def)
qed

lemma fold_snoc_min: "fold min (rs @ [r]) (x :: u32) = min (fold min rs x) r" "fold max (rs @ [r]) (x :: u32) = max (fold max rs x) r"
  by (simp_all add: min.commute max.commute)

lemma sum_list_u32: "sum_list (map unat (rs :: u32 list)) \<le> length rs * 4294967295"
proof (induction rs)
  case (Cons r rs)
  then show ?case using u32_bound [of r] by simp
qed simp

lemma record_reply_stats:
  assumes "ping_ok s" "stats_of s rs"
  shows "\<exists>r. stats_of (snd (record_reply now peer seqno f v s))
    (if fst (record_reply now peer seqno f v s) then rs @ [r] else rs)"
proof (cases "fst (record_reply now peer seqno f v s)")
  case False
  then show ?thesis using assms record_reply_ignored by simp
next
  case True
  then obtain as p bs where p: "peer = ps_target s" "find_split (\<lambda>p. pb_seqno p = seqno \<and> is_pending p) (ps_probes s) = Some (as, p, bs)"
    by (rule record_reply_credited)
  define r where "r = us now - pb_sent_at_us p"
  have n: "unat (ps_received s) < 65536" using assms(1) u16_bound [of "ps_emitted s"] by (auto simp: ping_ok_def)
  then have len: "length rs < 65536" using assms(2) by (simp add: stats_of_def)
  have "sum_list (map unat rs) \<le> 65536 * 4294967295" using sum_list_u32 [of rs] len by simp
  then have s1: "unat (saturating_add (ps_rtt_sum_us s) (ucast r)) = sum_list (map unat rs) + unat r"
    using assms(2) u32_bound [of r] by (simp add: stats_of_def unat_saturating_add unat_ucast_u64)
  have sq: "unat (ucast r * ucast r :: u64) = unat r * unat r"
  proof -
    have "unat r * unat r < 2 ^ 64" using mult_strict_mono [OF u32_bound u32_bound, of r r] by simp
    then show ?thesis by (simp add: unat_word_ariths unat_ucast_u64)
  qed
  have s2: "unat (saturating_add (ps_rtt_sum_sq_us s) (ucast r * ucast r))
      = min (sum_list (map (\<lambda>r. unat r * unat r) rs) + unat r * unat r) (2 ^ 64 - 1)"
    using assms(2) by (simp add: stats_of_def unat_saturating_add sq)
  have "unat (saturating_add (ps_received s) 1) = Suc (unat (ps_received s))" using n by (simp add: unat_saturating_add)
  then have "stats_of (snd (record_reply now peer seqno f v s)) (rs @ [r])"
    using assms(2) p s1 s2 by (simp add: record_reply_def Let_def stats_of_def fold_snoc_min r_def del: fold_append)
  then show ?thesis using True by auto
qed

section \<open>Polling\<close>

text \<open>A poll ages the session and then advances at most one probe.\<close>

lemma poll_session_sends:
  fixes s now buf reserved own
  defines "n \<equiv> min (unat (ps_payload_len (expire now s))) (length buf - (ECHO_SIZE + reserved))"
  defines "sn \<equiv> sent_recorded now (note_payload_emitted (word_of_nat n) (expire now s))"
  defines "body \<equiv> echo_write \<lparr>ec_packet_type = packet_type_as_u8 EchoRequest, ec_version = BATMAN_VERSION, ec_ttl = 50,
        ec_dest = ps_target (snd sn), ec_orig = own, ec_seqno = fst sn, ec_req_hops = 0, ec_hops = 0\<rparr> @ replicate n 0xa5"
  assumes "probe_due now (expire now s)" "\<not> locked" "hop (ps_target (expire now s)) = Some h" "ECHO_SIZE + n \<le> length buf"
    and "now + ps_interval s \<le> DURATION_MAX"
  shows "poll_session locked hop reserved own now buf s =
    Some (Some \<lparr>fd_dst = h, fd_protocol = ETH_P_BATMAN, fd_payload = body\<rparr>, body @ drop (ECHO_SIZE + n) buf, snd sn)"
proof -
  define hdr where "hdr = \<lparr>ec_packet_type = packet_type_as_u8 EchoRequest, ec_version = BATMAN_VERSION, ec_ttl = 50,
    ec_dest = ps_target (snd sn), ec_orig = own, ec_seqno = fst sn, ec_req_hops = 0, ec_hops = 0\<rparr>"
  have len: "length (echo_write hdr) = ECHO_SIZE" by (simp add: echo_write_def ECHO_SIZE_def)
  then have "copy_into buf 0 (echo_write hdr) = Some (echo_write hdr @ drop ECHO_SIZE buf)"
    using assms(7) by (subst copy_first) auto
  moreover have "copy_into (echo_write hdr @ drop ECHO_SIZE buf) ECHO_SIZE (replicate n 0xa5)
      = Some ((echo_write hdr @ replicate n 0xa5) @ drop (ECHO_SIZE + n) buf)"
    using assms(7) len by (subst copy_next) auto
  moreover have "get_range ((echo_write hdr @ replicate n 0xa5) @ drop (ECHO_SIZE + n) buf) 0 (ECHO_SIZE + n)
      = Some (echo_write hdr @ replicate n 0xa5)"
    using assms(7) len by (simp add: get_range_def)
  ultimately show ?thesis
    using assms(4-8) unfolding body_def
    by (simp add: poll_session_def Let_def n_def [symmetric] record_eq sn_def [symmetric] case_prod_beta) (simp add: hdr_def)
qed

lemma poll_session_cases:
  assumes "now + ps_interval s \<le> DURATION_MAX"
  obtains f buf' s' where "poll_session locked hop reserved own now buf s = Some (f, buf', s')"
    and "s' = expire now s \<and> f = None \<and> \<not> probe_due now (expire now s)
      \<or> probe_due now (expire now s) \<and> s' = no_route_recorded now (expire now s) \<and> f = None
      \<or> probe_due now (expire now s) \<and> (\<exists>n. s' = snd (sent_recorded now (note_payload_emitted n (expire now s))))"
proof -
  let ?s = "expire now s"
  define n where "n = min (unat (ps_payload_len ?s)) (length buf - (ECHO_SIZE + reserved))"
  consider "\<not> probe_due now ?s \<or> locked \<or> hop (ps_target ?s) = None"
    | h where "probe_due now ?s" "\<not> locked" "hop (ps_target ?s) = Some h" "ECHO_SIZE + n > length buf"
    | h where "probe_due now ?s" "\<not> locked" "hop (ps_target ?s) = Some h" "ECHO_SIZE + n \<le> length buf"
    by fastforce
  then show thesis
  proof cases
    case 1
    then show thesis by (cases "probe_due now ?s") (use assms in \<open>auto simp: poll_session_def Let_def record_eq intro: that\<close>)
  next
    case 2
    then show thesis using assms by (intro that) (auto simp: poll_session_def Let_def n_def [symmetric] record_eq)
  next
    case 3
    show thesis by (rule that [OF poll_session_sends [where hop = hop and h = h and reserved = reserved, OF 3(1-3) 3(4) [unfolded n_def] assms]]) (use 3 in auto)
  qed
qed

lemma poll_session_None: "poll_session locked hop reserved own now buf s = None \<Longrightarrow> DURATION_MAX < now + ps_interval s"
  using poll_session_cases [of now s locked hop reserved own buf] by (metis not_le option.distinct(1))

lemma poll_session_result:
  assumes "poll_session locked hop reserved own now buf s = Some (f, buf', s')"
  shows "s' = expire now s \<and> f = None \<and> \<not> probe_due now (expire now s)
      \<or> probe_due now (expire now s) \<and> s' = no_route_recorded now (expire now s) \<and> f = None
      \<or> probe_due now (expire now s) \<and> (\<exists>n. s' = snd (sent_recorded now (note_payload_emitted n (expire now s))))"
proof (cases "probe_due now (expire now s)")
  case True
  with assms have "now + ps_interval s \<le> DURATION_MAX"
    by (auto simp: poll_session_def Let_def record_eq split: if_splits option.splits)
  then show ?thesis by (rule poll_session_cases [where locked = locked and hop = hop and reserved = reserved and own = own and buf = buf]) (use assms in auto)
next
  case False
  with assms show ?thesis by (simp add: poll_session_def Let_def)
qed

definition work :: "ping_session \<Rightarrow> nat" where
  "work s = 2 * (unat (ps_requested s) - unat (ps_emitted s)) + pending s"

lemma work_time_out: "work (time_out late s) \<le> work s"
  using time_out_pending [of s late] by (simp add: work_def)

lemma note_payload_fields [simp]:
  "ping_ok (note_payload_emitted n s) = ping_ok s" "stats_of (note_payload_emitted n s) rs = stats_of s rs"
  "work (note_payload_emitted n s) = work s" "ps_emitted (note_payload_emitted n s) = ps_emitted s"
  "ps_requested (note_payload_emitted n s) = ps_requested s"
  by (simp_all add: note_payload_emitted_def ping_ok_def stats_of_def work_def pending_def)

lemma session_push_fields [simp]:
  "ps_emitted (session_push r s) = ps_emitted s" "ps_requested (session_push r s) = ps_requested s"
  by (auto simp: session_push_def Let_def split: list.splits)

lemma pending_push: "pending (session_push r s) \<le> Suc (pending s)"
  by (auto simp: session_push_def pending_def Let_def split: list.splits)

lemma work_record:
  assumes "ps_emitted s < ps_requested s"
  shows "work (snd (sent_recorded now s)) < work s" "work (no_route_recorded now s) < work s"
proof -
  have e: "unat (ps_emitted s) < unat (ps_requested s)" using assms by (simp add: word_less_nat_alt)
  then have "unat (saturating_add (ps_emitted s) 1) = Suc (unat (ps_emitted s))"
    using u16_bound [of "ps_requested s"] by (simp add: unat_saturating_add)
  moreover have "pending (snd (sent_recorded now s)) \<le> Suc (pending s)" "pending (no_route_recorded now s) \<le> Suc (pending s)"
    by (simp_all add: sent_recorded_def no_route_recorded_def Let_def, (rule order_trans [OF pending_push], simp add: pending_def)+)
  ultimately show "work (snd (sent_recorded now s)) < work s" "work (no_route_recorded now s) < work s"
    using e by (simp_all add: work_def) (simp_all add: sent_recorded_def no_route_recorded_def Let_def)
qed

lemma probe_due_emitted: "probe_due now s \<Longrightarrow> ps_emitted s < ps_requested s"
  by (simp add: probe_due_def)

lemma poll_session_ok:
  assumes "ping_ok s" "stats_of s rs" and p: "poll_session locked hop reserved own now buf s = Some (f, buf', s')"
  shows "ping_ok s' \<and> stats_of s' rs \<and> work s' \<le> work s
    \<and> (probe_due now (expire now s) \<or> work (expire now s) < work s \<longrightarrow> work s' < work s)"
proof -
  have x: "ping_ok (expire now s)" "stats_of (expire now s) rs" "work (expire now s) \<le> work s"
    using assms expire_ok work_time_out by (simp_all add: expire_def)
  have "ping_ok s' \<and> stats_of s' rs \<and> (if probe_due now (expire now s) then work s' < work (expire now s) else s' = expire now s)"
    using poll_session_result [OF p]
  proof (elim disjE conjE exE)
    assume "probe_due now (expire now s)" "s' = no_route_recorded now (expire now s)"
    then show ?thesis using x probe_due_emitted no_route_recorded_ok work_record(2) by auto
  next
    fix n
    assume d: "probe_due now (expire now s)" "s' = snd (sent_recorded now (note_payload_emitted n (expire now s)))"
    have "ps_emitted (note_payload_emitted n (expire now s)) < ps_requested (note_payload_emitted n (expire now s))"
      using probe_due_emitted [OF d(1)] by simp
    from work_record(1) [OF this, of now] sent_recorded_ok(1) [OF _ this, of now] show ?thesis using d x by simp
  qed (use x in auto)
  then show ?thesis using x(3) by (auto split: if_splits)
qed

section \<open>Deadlines\<close>

lemma fold_min_wait_Some:
  "fold (\<lambda>p a. if \<not> q p then a else min_wait a (g p)) ps a = Some d \<Longrightarrow> a = Some d \<or> (\<exists>p\<in>set ps. q p \<and> d = g p)"
proof (induction ps arbitrary: a)
  case (Cons p ps)
  show ?case
  proof (cases "q p")
    case True
    then have "min_wait a (g p) = Some d \<or> (\<exists>p\<in>set ps. q p \<and> d = g p)" using Cons by auto
    then show ?thesis using True by (auto simp: min_wait_def min_def split: option.splits if_splits)
  qed (use Cons in auto)
qed simp

lemma fold_min_wait_None:
  "fold (\<lambda>p a. if \<not> q p then a else min_wait a (g p)) ps a = None \<longleftrightarrow> a = None \<and> \<not> list_ex q ps"
proof (induction ps arbitrary: a)
  case (Cons p ps)
  then show ?case by (cases "q p") (auto simp: min_wait_def)
qed simp

lemma next_due_after_None: "next_due_after now s = None \<longleftrightarrow> \<not> active s"
  unfolding next_due_after_def active_def Let_def fold_min_wait_None by auto

lemma next_due_after_Some:
  assumes "next_due_after now s = Some d"
  shows "ps_emitted s < ps_requested s \<and> d = ps_next_due s - now
    \<or> (\<exists>p\<in>set (ps_probes s). is_pending p
         \<and> d = unat (saturating_sub (word_of_nat (ps_timeout s div 1000)) (us now - pb_sent_at_us p)) * 1000)"
  using fold_min_wait_Some [OF assms [unfolded next_due_after_def Let_def]] by (auto split: if_splits)

lemma us_later: "us (now + k * 1000) = us now + word_of_nat k"
  by (simp add: us_def)

lemma saturating_wait:
  fixes t e :: u32
  shows "t \<le> e + saturating_sub t e"
  by (simp add: saturating_sub_def not_less order_less_imp_le)

lemma late_at_deadline:
  "word_of_nat (ps_timeout s div 1000)
     \<le> us (now + unat (saturating_sub (word_of_nat (ps_timeout s div 1000)) (us now - pb_sent_at_us p)) * 1000) - pb_sent_at_us p"
proof -
  let ?t = "word_of_nat (ps_timeout s div 1000) :: u32" and ?e = "us now - pb_sent_at_us p"
  have "us (now + unat (saturating_sub ?t ?e) * 1000) - pb_sent_at_us p = ?e + saturating_sub ?t ?e"
    by (simp add: us_later)
  then show ?thesis using saturating_wait [of ?t ?e] by argo
qed

lemma time_out_work:
  assumes "p \<in> set (ps_probes s)" "is_pending p" "late p"
  shows "work (time_out late s) < work s"
proof -
  have "filter (\<lambda>p. is_pending p \<and> late p) (ps_probes s) \<noteq> []" using assms by (auto simp: filter_empty_conv)
  then show ?thesis using time_out_pending [of s late] by (simp add: work_def length_greater_0_conv [symmetric] del: length_greater_0_conv)
qed

lemma deadline_progress:
  assumes "next_due_after now s = Some d"
  shows "probe_due (now + d) (expire (now + d) s) \<or> work (expire (now + d) s) < work s"
  using next_due_after_Some [OF assms]
proof (elim disjE bexE conjE)
  assume "ps_emitted s < ps_requested s" "d = ps_next_due s - now"
  then have "probe_due (now + d) (expire (now + d) s)" by (simp add: probe_due_def expire_def)
  then show ?thesis ..
next
  fix p
  assume p: "p \<in> set (ps_probes s)" "is_pending p"
    and d: "d = unat (saturating_sub (word_of_nat (ps_timeout s div 1000)) (us now - pb_sent_at_us p)) * 1000"
  have "work (expire (now + d) s) < work s" unfolding expire_def d by (rule time_out_work [OF p late_at_deadline])
  then show ?thesis ..
qed

text \<open>A reply is either ignored or settles one pending probe.\<close>

lemma record_reply_work:
  "snd (record_reply now peer seqno f v s) = s \<or> work (snd (record_reply now peer seqno f v s)) < work s"
proof (cases "fst (record_reply now peer seqno f v s)")
  case False
  then show ?thesis using record_reply_ignored by simp
next
  case True
  then obtain as p bs where p: "peer = ps_target s" "find_split (\<lambda>p. pb_seqno p = seqno \<and> is_pending p) (ps_probes s) = Some (as, p, bs)"
    by (rule record_reply_credited)
  then have "ps_probes s = as @ p # bs" "is_pending p" using find_split_Some [OF p(2)] by auto
  then show ?thesis using p by (simp add: record_reply_def Let_def work_def pending_def is_pending_def)
qed

section \<open>Sequences of router events\<close>

datatype ping_event =
    Start duration mac u16 duration duration u16
  | Cancel u32
  | Reply duration link_frame
  | Poll bool "mac \<Rightarrow> mac option" nat mac duration bytes

fun ping_step :: "ping_event \<Rightarrow> ping_router \<Rightarrow> ping_router option" where
  "ping_step (Start now target count interval timeout len) r = Some (snd (start_ping now target count interval timeout len r))"
| "ping_step (Cancel h) r = Some (snd (cancel_ping h r))"
| "ping_step (Reply now frame) r = Some (echo_reply_received now frame r)"
| "ping_step (Poll locked hop reserved own now buf) r =
     map_option (snd \<circ> snd) (poll_ping locked hop reserved own now buf r)"

fun ping_steps :: "ping_event list \<Rightarrow> ping_router \<Rightarrow> ping_router option" where
  "ping_steps [] r = Some r"
| "ping_steps (e # es) r = Option.bind (ping_step e r) (ping_steps es)"

definition is_start :: "ping_event \<Rightarrow> bool" where
  "is_start e \<longleftrightarrow> (case e of Start _ _ _ _ _ _ \<Rightarrow> True | _ \<Rightarrow> False)"

text \<open>What holds of the router: the current session is sound, its numbers precede the next block.\<close>

definition router_ok :: "ping_router \<Rightarrow> bool" where
  "router_ok r \<longleftrightarrow> pr_next_ping_seq r \<noteq> 0
     \<and> (\<forall>s. pr_ping r = Some s \<longrightarrow> ping_ok s \<and> (\<exists>rs. stats_of s rs)
          \<and> unat (ps_requested s) \<le> unat (pr_next_probe_seqno r - ps_first_seqno s)
          \<and> unat (pr_next_probe_seqno r - ps_first_seqno s) \<le> unat MAX_PING_COUNT
          \<and> ps_interval s \<le> MAX_PING_INTERVAL \<and> ps_timeout s \<le> MAX_PING_INTERVAL)"

lemma router_ok_requested: "router_ok r \<Longrightarrow> pr_ping r = Some s \<Longrightarrow> unat (ps_requested s) \<le> 1000"
  by (fastforce simp: router_ok_def MAX_PING_COUNT_def)

lemma reply_settled:
  obtains "echo_reply_received now frame r = r"
  | s peer seqno f v where "pr_ping r = Some s"
      "echo_reply_received now frame r = r\<lparr>pr_ping := Some (snd (record_reply now peer seqno f v s))\<rparr>"
proof (cases "echo_read (lf_payload frame) = None \<or> pr_ping r = None")
  case True
  then show thesis by (intro that(1)) (auto simp: echo_reply_received_def split: option.splits)
next
  case False
  then obtain h rest s where "echo_read (lf_payload frame) = Some (h, rest)" "pr_ping r = Some s" by auto
  then show thesis by (intro that(2)) (auto simp: echo_reply_received_def)
qed

lemma session_push_kept [simp]:
  "ps_first_seqno (session_push r s) = ps_first_seqno s" "ps_target (session_push r s) = ps_target s"
  "ps_session_seq (session_push r s) = ps_session_seq s" "ps_interval (session_push r s) = ps_interval s"
  "ps_timeout (session_push r s) = ps_timeout s" "ps_next_due (session_push r s) = ps_next_due s"
  by (auto simp: session_push_def Let_def split: list.splits)

text \<open>The parts of a session that never change but through cancellation, which lowers the request.\<close>

definition session_kept :: "ping_session \<Rightarrow> ping_session \<Rightarrow> bool" where
  "session_kept s s' \<longleftrightarrow> ps_first_seqno s' = ps_first_seqno s \<and> ps_target s' = ps_target s
     \<and> ps_session_seq s' = ps_session_seq s \<and> ps_requested s' \<le> ps_requested s
     \<and> ps_interval s' = ps_interval s \<and> ps_timeout s' = ps_timeout s"

lemma session_kept_refl [simp]: "session_kept s s"
  by (simp add: session_kept_def)

lemma session_kept_trans: "session_kept a b \<Longrightarrow> session_kept b c \<Longrightarrow> session_kept a c"
  by (auto simp: session_kept_def)

lemma session_kept_ops:
  "session_kept s (expire now s)" "session_kept s (no_route_recorded now s)" "session_kept s (note_payload_emitted n s)"
  "session_kept s (snd (sent_recorded now s))" "session_kept s (snd (record_reply now peer seqno f v s))"
  by (simp_all add: session_kept_def expire_def no_route_recorded_def note_payload_emitted_def sent_recorded_def Let_def)
    (cases "fst (record_reply now peer seqno f v s)", auto simp: record_reply_ignored elim!: record_reply_credited, simp_all add: record_reply_def Let_def)

lemma session_kept_cancel: "ping_ok s \<Longrightarrow> session_kept s (session_cancel s)"
  by (simp add: session_kept_def session_cancel_def ping_ok_def word_le_nat_alt)

lemma poll_session_kept:
  assumes "poll_session locked hop reserved own now buf s = Some (f, buf', s')"
  shows "session_kept s s'"
proof -
  have "session_kept s (no_route_recorded now (expire now s))"
    "session_kept s (snd (sent_recorded now (note_payload_emitted n (expire now s))))" for n
    using session_kept_trans [OF session_kept_ops(1) session_kept_ops(2)]
      session_kept_trans [OF session_kept_trans [OF session_kept_ops(1) session_kept_ops(3)] session_kept_ops(4)] by simp_all
  then show ?thesis using poll_session_result [OF assms] session_kept_ops(1) by auto
qed

definition router_kept :: "ping_router \<Rightarrow> ping_router \<Rightarrow> bool" where
  "router_kept r r' \<longleftrightarrow> pr_next_ping_seq r' = pr_next_ping_seq r \<and> pr_next_probe_seqno r' = pr_next_probe_seqno r
     \<and> rel_option session_kept (pr_ping r) (pr_ping r')"

lemma router_kept_refl [simp]: "router_kept r r"
  by (simp add: router_kept_def option.rel_refl)

lemma router_kept_trans: "router_kept a b \<Longrightarrow> router_kept b c \<Longrightarrow> router_kept a c"
  by (auto simp: router_kept_def option_rel_Some1 option_rel_Some2 elim!: option.rel_cases intro: session_kept_trans)

text \<open>Replacing the session by a sound successor keeps the router sound.\<close>

lemma router_update:
  assumes "router_ok r" "pr_ping r = Some s" "session_kept s s'" "ping_ok s'" "stats_of s' rs"
  shows "router_ok (r\<lparr>pr_ping := Some s'\<rparr>)" "router_kept r (r\<lparr>pr_ping := Some s'\<rparr>)"
  using assms by (auto simp: router_ok_def router_kept_def session_kept_def word_le_nat_alt)

lemma session_cancel_stats [simp]: "stats_of (session_cancel s) rs = stats_of s rs"
  by (simp add: session_cancel_def) (simp add: stats_of_def)

lemma cancel_ping_step:
  assumes "router_ok r"
  shows "router_ok (snd (cancel_ping h r)) \<and> router_kept r (snd (cancel_ping h r))"
proof (cases "ping_session_of h r")
  case None
  then show ?thesis using assms by (simp add: cancel_ping_def)
next
  case (Some s)
  then have s: "pr_ping r = Some s" by (auto simp: ping_session_of_def split: option.splits if_splits)
  then obtain rs where "ping_ok s" "stats_of s rs" using assms by (auto simp: router_ok_def)
  then show ?thesis
    using router_update [OF assms s session_kept_cancel session_cancel_ok] Some by (simp add: cancel_ping_def Let_def)
qed

lemma reply_step:
  assumes "router_ok r"
  shows "router_ok (echo_reply_received now frame r) \<and> router_kept r (echo_reply_received now frame r)"
proof (rule reply_settled [of now frame r])
  fix s peer seqno f v
  assume s: "pr_ping r = Some s"
    and e: "echo_reply_received now frame r = r\<lparr>pr_ping := Some (snd (record_reply now peer seqno f v s))\<rparr>"
  obtain rs where rs: "ping_ok s" "stats_of s rs" using assms s by (auto simp: router_ok_def)
  then obtain rs' where "stats_of (snd (record_reply now peer seqno f v s)) rs'" using record_reply_stats by blast
  then show ?thesis
    unfolding e using router_update [OF assms s session_kept_ops(5) record_reply_ok [OF rs(1)]] by simp
qed (simp add: assms)

text \<open>A poll panics only at the far end of the clock, where the next deadline does not fit a \<^verbatim>\<open>Duration\<close>.\<close>

definition clock_spent :: "duration \<Rightarrow> bool" where
  "clock_spent now \<longleftrightarrow> DURATION_MAX < now + MAX_PING_INTERVAL"

lemma poll_step:
  assumes "router_ok r"
  shows "case poll_ping locked hop reserved own now buf r of
      None \<Rightarrow> clock_spent now | Some (f, buf', r') \<Rightarrow> router_ok r' \<and> router_kept r r'"
proof (cases "pr_ping r")
  case None
  then show ?thesis using assms by (simp add: poll_ping_def)
next
  case (Some s)
  then obtain rs where s: "ping_ok s" "stats_of s rs" "ps_interval s \<le> MAX_PING_INTERVAL" using assms by (auto simp: router_ok_def)
  show ?thesis
  proof (cases "poll_session locked hop reserved own now buf s")
    case None
    with poll_session_None [OF None] s(3) Some show ?thesis by (simp add: poll_ping_def clock_spent_def)
  next
    case p: (Some x)
    obtain f buf' s' where x: "x = (f, buf', s')" by (cases x)
    note q = p [unfolded x]
    from poll_session_ok [OF s(1,2) q] have "ping_ok s'" "stats_of s' rs" by simp_all
    from router_update [OF assms Some poll_session_kept [OF q] this] Some q show ?thesis by (simp add: poll_ping_def)
  qed
qed

lemma clamp_interval_le: "clamp_interval DEFAULT_PING_INTERVAL d \<le> MAX_PING_INTERVAL" "clamp_interval DEFAULT_PING_TIMEOUT d \<le> MAX_PING_INTERVAL"
  by (simp_all add: clamp_interval_def DEFAULT_PING_INTERVAL_def DEFAULT_PING_TIMEOUT_def MAX_PING_INTERVAL_def MIN_PING_INTERVAL_def)

lemma start_step:
  assumes "router_ok r"
  shows "router_ok (snd (start_ping now target count interval timeout len r))"
proof -
  have "unat (if count = 0 then DEFAULT_PING_COUNT else min count MAX_PING_COUNT) \<le> unat MAX_PING_COUNT"
    by (simp add: min_def DEFAULT_PING_COUNT_def MAX_PING_COUNT_def word_le_nat_alt)
  moreover have "pr_next_ping_seq r + 1 \<noteq> 0" if "pr_next_ping_seq r \<noteq> - 1"
    using that by (metis add_eq_0_iff2)
  moreover have "ps_interval (session_new q m c f now) = pc_interval c" "ps_timeout (session_new q m c f now) = pc_timeout c" for q m c f
    by (simp_all add: session_new_def)
  ultimately show ?thesis
    using assms by (auto simp: router_ok_def start_ping_def Let_def ping_ok_new clamp_interval_le intro: ping_ok_new)
qed

definition late_poll :: "ping_event \<Rightarrow> bool" where
  "late_poll e \<longleftrightarrow> (case e of Poll _ _ _ _ now _ \<Rightarrow> clock_spent now | _ \<Rightarrow> False)"

lemma ping_step_ok:
  assumes "router_ok r"
  shows "case ping_step e r of None \<Rightarrow> late_poll e | Some r' \<Rightarrow> router_ok r' \<and> (\<not> is_start e \<longrightarrow> router_kept r r')"
proof (cases e)
  case (Poll locked hop reserved own now buf)
  then show ?thesis using poll_step [OF assms, where locked = locked and hop = hop and reserved = reserved and own = own and now = now and buf = buf] by (auto simp: late_poll_def split: option.splits)
qed (use assms in \<open>auto simp: start_step cancel_ping_step reply_step is_start_def\<close>)

lemma ping_steps_ok:
  assumes "router_ok r"
  shows "case ping_steps es r of
      None \<Rightarrow> list_ex late_poll es | Some r' \<Rightarrow> router_ok r' \<and> (\<not> list_ex is_start es \<longrightarrow> router_kept r r')"
  using assms
proof (induction es arbitrary: r)
  case (Cons e es)
  show ?case
  proof (cases "ping_step e r")
    case None
    with ping_step_ok [OF Cons.prems, of e] show ?thesis by simp
  next
    case (Some m)
    with ping_step_ok [OF Cons.prems, of e] have m: "router_ok m" "\<not> is_start e \<longrightarrow> router_kept r m" by simp_all
    with Some Cons.IH [OF m(1)] show ?thesis by (auto intro: router_kept_trans split: option.splits)
  qed
qed simp

lemma router_ok_new: "router_ok ping_router_new"
  by (simp add: router_ok_def ping_router_new_def)

section \<open>The reported statistics\<close>

lemma isqrt_bounds: "isqrt n * isqrt n \<le> n \<and> n < (isqrt n + 1) * (isqrt n + 1)"
proof (induction n rule: isqrt.induct)
  case (1 n)
  show ?case
  proof (cases "n = 0")
    case True
    then show ?thesis by (simp add: isqrt.simps [of 0])
  next
    case False
    define k where "k = isqrt (n div 4)"
    have "k * k \<le> n div 4" "n div 4 < (k + 1) * (k + 1)" using 1 False by (simp_all add: k_def)
    then have "4 * (k * k) \<le> n" "n < 4 * ((k + 1) * (k + 1))" by linarith+
    then show ?thesis by (subst (1 2 3 4) isqrt.simps) (auto simp: Let_def k_def [symmetric] algebra_simps)
  qed
qed

lemma fold_min_Min: "fold min rs (- 1 :: u32) = Min (insert (- 1) (set rs))" "fold max rs (0 :: u32) = Max (insert 0 (set rs))"
  using Min.set_eq_fold [of "- 1" rs] Max.set_eq_fold [of 0 rs] by simp_all

lemma stats_extrema:
  assumes "stats_of s rs" "rs \<noteq> []"
  shows "ps_rtt_min_us s = Min (set rs)" "ps_rtt_max_us s = Max (set rs)"
  using assms by (auto simp: stats_of_def fold_min_Min)

lemma sum_list_between:
  assumes "\<And>r. r \<in> set rs \<Longrightarrow> a \<le> f r \<and> f r \<le> (b :: nat)"
  shows "length rs * a \<le> sum_list (map f rs) \<and> sum_list (map f rs) \<le> length rs * b"
  using assms by (induction rs) (auto simp: add_mono)

lemma stats_mean:
  assumes "ping_ok s" "stats_of s rs" "rs \<noteq> []"
  shows "unat (ps_rtt_sum_us s div ucast (ps_received s)) = sum_list (map unat rs) div length rs"
    and "unat (Min (set rs)) \<le> sum_list (map unat rs) div length rs"
    and "sum_list (map unat rs) div length rs \<le> unat (Max (set rs))"
proof -
  have "unat (Min (set rs)) \<le> unat r \<and> unat r \<le> unat (Max (set rs))" if "r \<in> set rs" for r
    using that by (simp add: word_le_nat_alt [symmetric])
  then have b: "length rs * unat (Min (set rs)) \<le> sum_list (map unat rs)" "sum_list (map unat rs) \<le> length rs * unat (Max (set rs))"
    using sum_list_between [of rs _ unat] by blast+
  show "unat (ps_rtt_sum_us s div ucast (ps_received s)) = sum_list (map unat rs) div length rs"
    using assms by (simp add: unat_div unat_ucast_u64 stats_of_def)
  show "unat (Min (set rs)) \<le> sum_list (map unat rs) div length rs"
    using b(1) assms(3) by (simp add: less_eq_div_iff_mult_less_eq mult.commute)
  show "sum_list (map unat rs) div length rs \<le> unat (Max (set rs))"
    using div_le_mono [OF b(2), of "length rs"] assms(3) by simp
qed

lemma mean_square_fits:
  assumes "ping_ok s" "stats_of s rs" "rs \<noteq> []"
  defines "mean \<equiv> ps_rtt_sum_us s div ucast (ps_received s)"
  shows "checked_mul mean mean = Some (mean * mean)" "unat (mean * mean) = unat mean * unat mean"
proof -
  have "unat mean < 4294967296" using stats_mean(1,3) [OF assms(1-3)] u32_bound [of "Max (set rs)"] unfolding mean_def by linarith
  then have "unat mean * unat mean < 4294967296 * 4294967296" by (intro mult_strict_mono) auto
  then show "checked_mul mean mean = Some (mean * mean)" "unat (mean * mean) = unat mean * unat mean"
    by (simp_all add: checked_mul_def unat_word_ariths)
qed

lemma saturated_div_fits:
  fixes w :: u64
  assumes "unat w < 2 ^ 64"
  shows "isqrt (unat w) < 4294967296"
proof (rule ccontr)
  assume "\<not> ?thesis"
  then have "4294967296 * 4294967296 \<le> isqrt (unat w) * isqrt (unat w)" by (intro mult_mono) auto
  also have "\<dots> \<le> unat w" using isqrt_bounds by blast
  finally show False using assms by simp
qed

lemma mdev_value:
  assumes "ping_ok s" "stats_of s rs" "rs \<noteq> []"
  shows "\<exists>d. rtt_mdev_us s = Some (Some d)
    \<and> unat d = isqrt (min (sum_list (map (\<lambda>r. unat r * unat r) rs)) (2 ^ 64 - 1) div length rs
                  - (sum_list (map unat rs) div length rs) * (sum_list (map unat rs) div length rs))"
proof -
  let ?mean = "ps_rtt_sum_us s div ucast (ps_received s)" and ?sq = "ps_rtt_sum_sq_us s div ucast (ps_received s)"
  let ?w = "saturating_sub ?sq (?mean * ?mean)"
  have "unat ?w < 2 ^ 64" using unsigned_less [of ?w] by simp
  then have f: "isqrt (unat ?w) < 4294967296" by (rule saturated_div_fits)
  have r: "ps_received s \<noteq> 0" using assms(2,3) by (auto simp: stats_of_def)
  have "rtt_mdev_us s = Some (Some (word_of_nat (isqrt (unat ?w))))"
    using mean_square_fits(1) [OF assms] r by (simp add: rtt_mdev_us_def Let_def)
  moreover have "unat (word_of_nat (isqrt (unat ?w)) :: u32) = isqrt (unat ?w)" using f by (simp add: unat_of_nat)
  moreover have "unat ?sq = min (sum_list (map (\<lambda>r. unat r * unat r) rs)) (2 ^ 64 - 1) div length rs"
    using assms(2) by (simp add: unat_div unat_ucast_u64 stats_of_def)
  ultimately show ?thesis
    using mean_square_fits(2) [OF assms] stats_mean(1) [OF assms] by (simp add: unat_saturating_sub)
qed

section \<open>Properties of probing\<close>

text \<open>
  C39. Accounting of probes. Every sequence of starts, cancellations, replies and polls, with any
  arguments, runs from the router's initial state without a panic, unless a poll's clock is so close to the end
  of \<^verbatim>\<open>Duration\<close> that the longest probe interval no longer fits; and in the session it leaves every
  probe sent is either answered, lost or still pending, exactly once each; at most the requested number
  was sent, that is at most 1000; at most sixteen rows are kept, and they are the latest probes with
  their consecutive numbers.
\<close>

theorem ping_accounting:
  "case ping_steps es ping_router_new of
     None \<Rightarrow> list_ex late_poll es
   | Some r \<Rightarrow>
     (case pr_ping r of None \<Rightarrow> True
      | Some s \<Rightarrow> unat (ps_sent s) = unat (ps_received s) + unat (ps_lost s) + pending s
          \<and> unat (ps_sent s) = unat (ps_emitted s) \<and> unat (ps_emitted s) \<le> unat (ps_requested s) \<and> unat (ps_requested s) \<le> 1000
          \<and> length (ps_probes s) \<le> 16
          \<and> map pb_seqno (ps_probes s)
              = probe_numbers (ps_first_seqno s) (unat (ps_emitted s) - length (ps_probes s)) (unat (ps_emitted s)))"
proof (cases "ping_steps es ping_router_new")
  case None
  with ping_steps_ok [OF router_ok_new, of es] show ?thesis by simp
next
  case (Some r)
  with ping_steps_ok [OF router_ok_new, of es] have "router_ok r" by simp
  with Some router_ok_requested [OF this] show ?thesis
    by (auto simp: router_ok_def ping_ok_def MAX_PING_PROBES_def split: option.splits)
qed

text \<open>
  Statistics of a session. In every session reached, the reported minimum, maximum, mean and
  deviation are those of one list of credited round trips: nothing is reported before the first reply;
  afterwards the minimum and maximum are exact, the mean lies between them, and the deviation is the
  integer square root of the mean square (its sum capped at the largest 64-bit value) less the squared
  mean, computed without a panic.
\<close>

theorem ping_statistics:
  assumes "ping_steps es ping_router_new = Some r" "pr_ping r = Some s"
  shows "\<exists>rs. length rs = unat (ps_received s) \<and>
    (if rs = [] then rtt_min_us s = None \<and> rtt_max_us s = None \<and> rtt_avg_us s = None \<and> rtt_mdev_us s = Some None
     else rtt_min_us s = Some (Min (set rs)) \<and> rtt_max_us s = Some (Max (set rs))
       \<and> (\<exists>m d. rtt_avg_us s = Some m \<and> unat m = sum_list (map unat rs) div length rs \<and> Min (set rs) \<le> m \<and> m \<le> Max (set rs)
            \<and> rtt_mdev_us s = Some (Some d)
            \<and> unat d = isqrt (min (sum_list (map (\<lambda>r. unat r * unat r) rs)) (2 ^ 64 - 1) div length rs - unat m * unat m)))"
proof -
  obtain rs where ok: "ping_ok s" "stats_of s rs"
    using ping_steps_ok [OF router_ok_new, of es] assms by (auto simp: router_ok_def split: option.splits)
  show ?thesis
  proof (cases "rs = []")
    case True
    then have "ps_received s = 0" using ok(2) by (simp add: stats_of_def unat_eq_0)
    then show ?thesis using True
      by (intro exI [of _ "[]"]) (simp add: rtt_min_us_def rtt_max_us_def rtt_avg_us_def rtt_mdev_us_def)
  next
    case False
    let ?m = "ucast (ps_rtt_sum_us s div ucast (ps_received s)) :: u32"
    have n: "ps_received s > 0" using ok(2) False by (auto simp: stats_of_def word_gt_0)
    have "unat (ps_rtt_sum_us s div ucast (ps_received s)) < 4294967296"
      using stats_mean(1,3) [OF ok False] u32_bound [of "Max (set rs)"] by linarith
    then have m: "unat ?m = sum_list (map unat rs) div length rs"
      using stats_mean(1) [OF ok False] by (simp add: unsigned_ucast_eq take_bit_nat_eq_self_iff)
    show ?thesis
      using ok(2) False n m stats_mean(2,3) [OF ok False] stats_extrema [OF ok(2) False] mdev_value [OF ok False]
      by (intro exI [of _ rs]) (auto simp: rtt_min_us_def rtt_max_us_def rtt_avg_us_def word_le_nat_alt stats_of_def)
  qed
qed

definition ping_self :: mac where "ping_self = Mac 2 0 0 0 0 7"
definition ping_peer :: mac where "ping_peer = Mac 2 0 0 0 0 9"

definition sample_reply :: "u16 \<Rightarrow> link_frame" where
  "sample_reply n = \<lparr>lf_dst = ping_self, lf_src = Mac 2 0 0 0 0 5, lf_protocol = ETH_P_BATMAN,
     lf_payload = echo_write \<lparr>ec_packet_type = packet_type_as_u8 EchoReply, ec_version = BATMAN_VERSION, ec_ttl = 50,
       ec_dest = ping_self, ec_orig = ping_peer, ec_seqno = n, ec_req_hops = 2, ec_hops = 3\<rparr>\<rparr>"

definition sample_events :: "ping_event list" where
  "sample_events = [Start 0 ping_peer 2 0 0 0, Poll False (\<lambda>_. Some (Mac 2 0 0 0 0 5)) 0 ping_self 1000 (replicate 64 0),
     Reply 41000 (sample_reply 0)]"

lemma echo_read_write: "echo_read (echo_write h) = Some (h, [])"
  using echo_codec.read_write [of h "[]"] by simp

lemma sample_run: "Option.bind (Option.bind (ping_steps sample_events ping_router_new) pr_ping) rtt_avg_us = Some 40"
proof -
  let ?s = "session_new 1 ping_peer \<lparr>pc_count = 2, pc_interval = 1000000000, pc_timeout = 5000000000, pc_payload_len = 16\<rparr> 0 0"
  let ?r = "\<lparr>pr_ping = Some ?s, pr_next_ping_seq = 2, pr_next_probe_seqno = 2\<rparr>"
  let ?t = "snd (sent_recorded 1000 (note_payload_emitted 16 ?s))"
  have p1: "ping_step (Start 0 ping_peer 2 0 0 0) ping_router_new = Some ?r"
    by (simp add: start_ping_def ping_router_new_def Let_def clamp_interval_def DEFAULT_PING_INTERVAL_def
        DEFAULT_PING_TIMEOUT_def DEFAULT_PING_PAYLOAD_def MAX_PING_COUNT_def min_def)
  have "expire 1000 ?s = ?s" by (simp add: expire_def time_out_def session_new_def saturating_add_def)
  then have p2: "ping_step (Poll False (\<lambda>_. Some (Mac 2 0 0 0 0 5)) 0 ping_self 1000 (replicate 64 0)) ?r
      = Some (?r\<lparr>pr_ping := Some ?t\<rparr>)"
    using poll_session_sends [where now = 1000 and s = ?s and buf = "replicate 64 0" and reserved = 0 and locked = False
      and hop = "\<lambda>_. Some (Mac 2 0 0 0 0 5)" and own = ping_self]
    by (simp add: poll_ping_def ECHO_SIZE_def probe_due_def DURATION_MAX_def session_new_def)
  have tt: "?t = ?s\<lparr>ps_payload_len := 16, ps_emitted := 1, ps_next_due := 1000001000, ps_sent := 1,
      ps_probes := [\<lparr>pb_seqno = 0, pb_sent_at_us = 1, pb_rtt_us = 0, pb_fwd_hops = 0, pb_rev_hops = 0, pb_state = Pending\<rparr>]\<rparr>"
    by (simp add: sent_recorded_def note_payload_emitted_def session_push_def MAX_PING_PROBES_def saturating_add_def us_def
        session_new_def Let_def)
  have "ping_steps sample_events ping_router_new
      = Some (echo_reply_received 41000 (sample_reply 0) (?r\<lparr>pr_ping := Some ?t\<rparr>))"
    by (simp add: sample_events_def p1 p2 del: ping_step.simps(1,4))
  then show ?thesis
    unfolding tt by (simp add: echo_reply_received_def sample_reply_def echo_read_write)
      (simp add: session_new_def record_reply_def is_pending_def us_def rtt_avg_us_def saturating_add_def Let_def)
qed

theorem ping_statistics_witness:
  "\<exists>r s. ping_steps sample_events ping_router_new = Some r \<and> pr_ping r = Some s \<and> rtt_avg_us s = Some 40 \<and>
    (\<exists>rs. length rs = unat (ps_received s) \<and> rs \<noteq> [] \<and> rtt_min_us s = Some (Min (set rs)) \<and> rtt_max_us s = Some (Max (set rs)))"
proof -
  obtain r s where rs: "ping_steps sample_events ping_router_new = Some r" "pr_ping r = Some s" "rtt_avg_us s = Some 40"
    using sample_run by (auto simp: bind_eq_Some_conv)
  then show ?thesis using ping_statistics [OF rs(1,2)] by (auto split: if_splits)
qed

section \<open>Sessions end\<close>

text \<open>
  One turn of a driver: it sleeps until the deadline the router reports, the replies of \<open>dt_replies\<close>
  arrive meanwhile, and it polls. The environment of each turn is arbitrary.
\<close>

record drive_turn =
  dt_replies :: "(duration \<times> link_frame) list"
  dt_locked :: bool
  dt_hop :: "mac \<Rightarrow> mac option"
  dt_reserved :: nat
  dt_own :: mac
  dt_buf :: bytes

fun drive :: "drive_turn list \<Rightarrow> duration \<times> ping_router \<Rightarrow> (duration \<times> ping_router) option" where
  "drive [] x = Some x"
| "drive (t # ts) (now, r) =
     (case next_ping_after now r of
        None \<Rightarrow> Some (now, r)
      | Some d \<Rightarrow>
          do { let r = fold (\<lambda>(at, frame). echo_reply_received at frame) (dt_replies t) r;
               (f, buf, r) \<leftarrow> poll_ping (dt_locked t) (dt_hop t) (dt_reserved t) (dt_own t) (now + d) (dt_buf t) r;
               drive ts (now + d, r) })"

definition router_work :: "ping_router \<Rightarrow> nat" where
  "router_work r = (case pr_ping r of None \<Rightarrow> 0 | Some s \<Rightarrow> work s)"

lemma reply_work:
  "echo_reply_received now frame r = r \<or> router_work (echo_reply_received now frame r) < router_work r"
proof (rule reply_settled [of now frame r])
  fix s peer seqno f v
  assume "pr_ping r = Some s" "echo_reply_received now frame r = r\<lparr>pr_ping := Some (snd (record_reply now peer seqno f v s))\<rparr>"
  then show ?thesis using record_reply_work [of now peer seqno f v s] by (auto simp: router_work_def)
qed simp

lemma replies_work:
  "router_ok r \<Longrightarrow>
   router_ok (fold (\<lambda>(at, frame). echo_reply_received at frame) xs r)
   \<and> router_kept r (fold (\<lambda>(at, frame). echo_reply_received at frame) xs r)
   \<and> (fold (\<lambda>(at, frame). echo_reply_received at frame) xs r = r
      \<or> router_work (fold (\<lambda>(at, frame). echo_reply_received at frame) xs r) < router_work r)"
proof (induction xs arbitrary: r)
  case (Cons x xs)
  obtain at frame where x: "x = (at, frame)" by (cases x)
  let ?m = "echo_reply_received at frame r"
  show ?case
    using Cons.IH [of ?m] reply_step [OF Cons.prems, of at frame] reply_work [of at frame r] x
    by (auto intro: router_kept_trans)
qed simp

text \<open>The next probe is due within the longest interval.\<close>

definition due_by :: "duration \<Rightarrow> ping_router \<Rightarrow> bool" where
  "due_by now r \<longleftrightarrow> (\<forall>s. pr_ping r = Some s \<longrightarrow> ps_next_due s \<le> now + MAX_PING_INTERVAL)"

lemma replies_due: "due_by now (fold (\<lambda>(at, frame). echo_reply_received at frame) xs r) = due_by now r"
proof (induction xs arbitrary: r)
  case (Cons x xs)
  have "ps_next_due (snd (record_reply at m n f v s)) = ps_next_due s" for at m n f v s
    by (simp add: record_reply_def Let_def split: option.split prod.split)
  then have "due_by now (echo_reply_received at frame r) = due_by now r" for at frame
    by (auto simp: due_by_def echo_reply_received_def split: option.splits)
  with Cons show ?case by (cases x) simp
qed simp

lemma deadline_bound:
  assumes "router_ok r" "due_by now r" "next_ping_after now r = Some d"
  shows "d \<le> MAX_PING_INTERVAL"
proof -
  obtain s where s: "pr_ping r = Some s" "next_due_after now s = Some d"
    using assms(3) by (auto simp: next_ping_after_def split: option.splits)
  have b: "ps_next_due s \<le> now + MAX_PING_INTERVAL" "ps_timeout s \<le> MAX_PING_INTERVAL"
    using assms(1,2) s(1) by (auto simp: due_by_def router_ok_def)
  have "unat (saturating_sub (word_of_nat (ps_timeout s div 1000)) w :: u32) * 1000 \<le> ps_timeout s" for w
  proof -
    have "unat (saturating_sub (word_of_nat (ps_timeout s div 1000)) w :: u32) \<le> unat (word_of_nat (ps_timeout s div 1000) :: u32)"
      by (simp add: unat_saturating_sub)
    also have "\<dots> \<le> ps_timeout s div 1000" by (simp add: unat_of_nat)
    finally show ?thesis by linarith
  qed
  with next_due_after_Some [OF s(2)] b show ?thesis by (auto intro: order_trans)
qed

lemma poll_due:
  assumes "router_ok r" "due_by now r" "poll_ping locked hop reserved own at buf r = Some (f, buf', r')" "now \<le> at"
  shows "due_by at r'"
proof (cases "pr_ping r")
  case (Some s)
  then obtain s' where s': "poll_session locked hop reserved own at buf s = Some (f, buf', s')" "r' = r\<lparr>pr_ping := Some s'\<rparr>"
    using assms(3) by (auto simp: poll_ping_def split: bind_splits)
  have "ps_next_due s \<le> at + MAX_PING_INTERVAL" "ps_interval s \<le> MAX_PING_INTERVAL"
    using assms(1,2,4) Some by (auto simp: due_by_def router_ok_def)
  with poll_session_result [OF s'(1)] s'(2) show ?thesis
    by (auto simp: due_by_def no_route_recorded_def sent_recorded_def Let_def)
qed (use assms in \<open>auto simp: poll_ping_def due_by_def\<close>)

lemma poll_progress:
  assumes "router_ok r" "next_ping_after now r = Some d" "router_ok r'" "router_kept r r'" "r' = r \<or> router_work r' < router_work r"
    and "\<not> clock_spent (now + d)"
  shows "\<exists>f buf' r2. poll_ping locked hop reserved own (now + d) buf r' = Some (f, buf', r2) \<and> router_ok r2 \<and> router_kept r r2
    \<and> router_work r2 < router_work r"
proof -
  obtain s where s: "pr_ping r = Some s" "next_due_after now s = Some d"
    using assms(2) by (auto simp: next_ping_after_def split: option.splits)
  then obtain t where t: "pr_ping r' = Some t" using assms(4) by (auto simp: router_kept_def option_rel_Some1)
  then obtain rs where rs: "ping_ok t" "stats_of t rs" using assms(3) by (auto simp: router_ok_def)
  obtain f buf' r2 where p: "poll_ping locked hop reserved own (now + d) buf r' = Some (f, buf', r2)" "router_ok r2" "router_kept r' r2"
    using poll_step [OF assms(3), where locked = locked and hop = hop and reserved = reserved and own = own and now = "now + d" and buf = buf] assms(6) by (auto split: option.splits)
  obtain t' where t': "poll_session locked hop reserved own (now + d) buf t = Some (f, buf', t')" "r2 = r'\<lparr>pr_ping := Some t'\<rparr>"
    using p(1) t by (auto simp: poll_ping_def split: bind_splits)
  have "work t' < work s"
    using assms(5) poll_session_ok [OF rs t'(1)] deadline_progress [OF s(2)] s(1) t by (auto simp: router_work_def)
  then show ?thesis using p t'(2) s(1) router_kept_trans [OF assms(4)] by (auto simp: router_work_def)
qed

lemma drive_ends:
  assumes "router_ok r" "router_work r \<le> length ts" "due_by now r" "now + (length ts + 2) * MAX_PING_INTERVAL \<le> DURATION_MAX"
  shows "\<exists>now' r'. drive ts (now, r) = Some (now', r') \<and> router_ok r' \<and> router_kept r r' \<and> next_ping_after now' r' = None"
  using assms
proof (induction ts arbitrary: now r)
  case Nil
  have "next_ping_after now r = None"
  proof (rule ccontr)
    assume "next_ping_after now r \<noteq> None"
    then obtain d where d: "next_ping_after now r = Some d" by auto
    have "\<not> clock_spent (now + d)" using deadline_bound [OF Nil.prems(1,3) d] Nil.prems(4) by (simp add: clock_spent_def)
    from poll_progress [OF Nil.prems(1) d Nil.prems(1) _ _ this] Nil.prems(2) show False by auto
  qed
  then show ?case using Nil by auto
next
  case (Cons t ts)
  show ?case
  proof (cases "next_ping_after now r")
    case None
    then show ?thesis using Cons.prems by auto
  next
    case (Some d)
    let ?r = "fold (\<lambda>(at, frame). echo_reply_received at frame) (dt_replies t) r"
    note b = deadline_bound [OF Cons.prems(1,3) Some]
    have "\<not> clock_spent (now + d)" using b Cons.prems(4) by (simp add: clock_spent_def)
    then obtain f buf' m where m: "poll_ping (dt_locked t) (dt_hop t) (dt_reserved t) (dt_own t) (now + d) (dt_buf t) ?r = Some (f, buf', m)"
      "router_ok m" "router_kept r m" "router_work m < router_work r"
      using poll_progress [OF Cons.prems(1) Some, of ?r] replies_work [OF Cons.prems(1)] by blast
    then have "router_work m \<le> length ts" using Cons.prems(2) by simp
    moreover have "due_by (now + d) m" using poll_due [OF _ _ m(1), of now] replies_work [OF Cons.prems(1)] Cons.prems(3) by (simp add: replies_due)
    moreover have "now + d + (length ts + 2) * MAX_PING_INTERVAL \<le> DURATION_MAX" using b Cons.prems(4) by simp
    ultimately show ?thesis
      using Cons.IH [OF m(2), of "now + d"] m Some by (auto intro: router_kept_trans simp: Let_def)
  qed
qed

text \<open>
  A session ends. From any router reached, start a session and let a driver repeatedly sleep until
  the deadline the router reports, take in whatever replies arrived and poll, under arbitrary routes,
  locks, buffers and replies, while the clock is far from the end of \<^verbatim>\<open>Duration\<close>: after at most twice the requested number of turns no deadline is left, no
  poll panicked, every requested probe was sent, and each was answered or counted lost.
\<close>

theorem ping_session_ends:
  assumes "ping_steps es ping_router_new = Some r0"
    and "start_ping now target count interval timeout len r0 = (h, r)"
    and "2 * unat (if count = 0 then DEFAULT_PING_COUNT else min count MAX_PING_COUNT) \<le> length turns"
    and "now + (length turns + 2) * MAX_PING_INTERVAL \<le> DURATION_MAX"
  shows "\<exists>now' r' s. drive turns (now, r) = Some (now', r') \<and> next_ping_after now' r' = None
    \<and> ping_session_of h r' = Some s \<and> \<not> active s
    \<and> ps_sent s = ucast (ps_requested s) \<and> unat (ps_received s) + unat (ps_lost s) = unat (ps_requested s)"
proof -
  have "router_ok r0" using ping_steps_ok [OF router_ok_new, of es] assms(1) by simp
  from start_step [OF this] assms(2) have ok: "router_ok r" by (metis snd_conv)
  obtain s0 where s0: "pr_ping r = Some s0" "ps_session_seq s0 = h" "work s0 = 2 * unat (ps_requested s0)"
    "ps_requested s0 = (if count = 0 then DEFAULT_PING_COUNT else min count MAX_PING_COUNT)"
    using assms(2) by (auto simp: start_ping_def Let_def work_def pending_def session_new_def)
  then have "router_work r \<le> length turns" using assms(3) by (simp add: router_work_def)
  moreover have "due_by now r" using assms(2) by (auto simp: start_ping_def Let_def due_by_def session_new_def)
  ultimately obtain now' r' where d: "drive turns (now, r) = Some (now', r')" "router_ok r'"
    "router_kept r r'" "next_ping_after now' r' = None" using drive_ends [OF ok _ _ assms(4)] by blast
  then obtain s where s: "pr_ping r' = Some s" "session_kept s0 s" using s0(1) by (auto simp: router_kept_def option_rel_Some1)
  then have i: "\<not> active s" using d(4) by (simp add: next_ping_after_def next_due_after_None)
  have pok: "ping_ok s" using d(2) s(1) by (auto simp: router_ok_def)
  have "filter is_pending (ps_probes s) = []" using i by (auto simp: active_def list_ex_iff filter_empty_conv)
  then have p: "pending s = 0" by (simp add: pending_def)
  have e: "unat (ps_emitted s) = unat (ps_requested s)" using i pok by (auto simp: active_def ping_ok_def not_less word_le_nat_alt)
  have "ps_sent s = ucast (ps_requested s)"
    using pok e unat_ucast_u32 [of "ps_requested s"] by (simp add: ping_ok_def word_unat_eq_iff)
  then show ?thesis
    using d s s0(2) i p e pok by (auto simp: ping_session_of_def session_kept_def ping_ok_def)
qed

definition silent_turn :: drive_turn where
  "silent_turn = \<lparr>dt_replies = [], dt_locked = False, dt_hop = (\<lambda>_. Some (Mac 2 0 0 0 0 5)), dt_reserved = 0,
     dt_own = ping_self, dt_buf = replicate 64 0\<rparr>"

theorem ping_session_ends_witness:
  "\<exists>now' r' s. drive (replicate 4 silent_turn) (0, snd (start_ping 0 ping_peer 2 0 0 0 ping_router_new)) = Some (now', r')
    \<and> ping_session_of 1 r' = Some s \<and> \<not> active s \<and> unat (ps_received s) + unat (ps_lost s) = unat (ps_requested s)"
proof -
  have "start_ping 0 ping_peer 2 0 0 0 ping_router_new = (1, snd (start_ping 0 ping_peer 2 0 0 0 ping_router_new))"
    by (simp add: start_ping_def Let_def ping_router_new_def)
  from ping_session_ends [of "[]", OF _ this, of "replicate 4 silent_turn"] show ?thesis
    by (auto simp: MAX_PING_COUNT_def min_def MAX_PING_INTERVAL_def DURATION_MAX_def)
qed

text \<open>Two blocks of at most 1000 consecutive probe numbers share none.\<close>

lemma probe_blocks_disjoint:
  fixes f c :: u16
  assumes "j < unat c" "unat c \<le> 1000" "i < 1000"
  shows "f + word_of_nat j \<noteq> f + c + word_of_nat i"
proof
  assume "f + word_of_nat j = f + c + word_of_nat i"
  then have "word_of_nat j = (word_of_nat (unat c + i) :: u16)" by (simp add: add.assoc)
  then have "j mod 65536 = (unat c + i) mod 65536" using word_of_nat_eq_iff [of j "unat c + i", where ?'a = 16] by (simp add: take_bit_eq_mod)
  then show False using assms by simp
qed

lemma probes_in_block:
  assumes "ping_ok s" "p \<in> set (ps_probes s)"
  obtains i where "i < unat (ps_requested s)" "pb_seqno p = ps_first_seqno s + word_of_nat i"
proof -
  have "pb_seqno p \<in> set (map pb_seqno (ps_probes s))" using assms(2) by simp
  also have "map pb_seqno (ps_probes s) = probe_numbers (ps_first_seqno s) (unat (ps_emitted s) - length (ps_probes s)) (unat (ps_emitted s))"
    using assms(1) by (simp only: ping_ok_def)
  finally show thesis using assms(1) by (auto simp: probe_numbers_def ping_ok_def intro!: that)
qed

lemma unmatched_ignored: "(\<And>p. p \<in> set xs \<Longrightarrow> \<not> q p) \<Longrightarrow> find_split q xs = None"
  by (induction xs) auto

text \<open>
  Replies to a displaced session. Starting a session displaces the current one. Whatever happened
  before and between and whatever has happened since, short of another start, a reply that carries any
  probe number of the displaced session leaves the router exactly as it was: it is never credited to the
  successor, even when both probe the same target.
\<close>

theorem displaced_replies_ignored:
  assumes "ping_steps es ping_router_new = Some r0" "pr_ping r0 = Some old"
    and "start_ping now target count interval timeout len r0 = (h, r1)"
    and "ping_steps es' r1 = Some r2" "\<not> list_ex is_start es'"
    and "echo_read (lf_payload frame) = Some (e, rest)"
    and "ec_seqno e = ps_first_seqno old + word_of_nat j" "j < unat (ps_requested old)"
  shows "echo_reply_received at frame r2 = r2"
proof -
  have ok: "router_ok r0" using ping_steps_ok [OF router_ok_new, of es] assms(1) by simp
  then have ok1: "router_ok r1" using start_step assms(3) by (metis snd_conv)
  obtain new where new: "pr_ping r1 = Some new" "ps_first_seqno new = pr_next_probe_seqno r0"
    using assms(3) by (auto simp: start_ping_def Let_def)
  have "router_ok r2 \<and> router_kept r1 r2" using ping_steps_ok [OF ok1, of es'] assms(4,5) by auto
  then obtain s where s: "pr_ping r2 = Some s" "session_kept new s" "ping_ok s" "unat (ps_requested s) \<le> 1000"
    using new(1) router_ok_requested by (fastforce simp: router_kept_def option_rel_Some1 router_ok_def)
  define c where "c = pr_next_probe_seqno r0 - ps_first_seqno old"
  have "unat c \<le> 1000" "j < unat c" using ok assms(2,8) by (auto simp: router_ok_def MAX_PING_COUNT_def c_def)
  moreover have "ps_first_seqno s = ps_first_seqno old + c" using s(2) new(2) by (simp add: session_kept_def c_def)
  ultimately have "pb_seqno p \<noteq> ec_seqno e" if "p \<in> set (ps_probes s)" for p
    using probes_in_block [OF s(3) that] probe_blocks_disjoint [of j c] s(4) assms(7) by (metis order_less_le_trans)
  then have "find_split (\<lambda>p. pb_seqno p = ec_seqno e \<and> is_pending p) (ps_probes s) = None"
    by (intro unmatched_ignored) auto
  then have "snd (record_reply at (ec_orig e) (ec_seqno e) (ec_req_hops e) (ec_hops e) s) = s"
    by (simp add: record_reply_def)
  then show ?thesis using assms(6) s(1) by (simp add: echo_reply_received_def)
qed

theorem displaced_replies_ignored_witness:
  "let r1 = snd (start_ping 0 ping_peer 2 0 0 0 ping_router_new); r2 = snd (start_ping 5000 ping_peer 3 0 0 0 r1)
   in pr_ping r1 \<noteq> None \<and> pr_ping r2 \<noteq> pr_ping r1 \<and> echo_reply_received 9000 (sample_reply 1) r2 = r2"
proof -
  let ?r1 = "snd (start_ping 0 ping_peer 2 0 0 0 ping_router_new)"
  let ?r2 = "snd (start_ping 5000 ping_peer 3 0 0 0 ?r1)"
  obtain old where old: "pr_ping ?r1 = Some old" "ps_first_seqno old = 0" "ps_requested old = 2" "ps_session_seq old = 1"
    by (simp add: start_ping_def Let_def ping_router_new_def MAX_PING_COUNT_def min_def) (simp add: session_new_def)
  have "map_option ps_session_seq (pr_ping ?r2) = Some 2" by (simp add: start_ping_def Let_def ping_router_new_def session_new_def)
  then have "pr_ping ?r2 \<noteq> pr_ping ?r1" using old(1,4) by auto
  moreover have "echo_reply_received 9000 (sample_reply 1) ?r2 = ?r2"
    by (rule displaced_replies_ignored [where es = "[Start 0 ping_peer 2 0 0 0]" and es' = "[]" and j = 1 and old = old
            and now = 5000 and target = ping_peer and count = 3 and interval = 0 and timeout = 0 and len = 0
            and h = 2 and ?r0.0 = ?r1 and ?r1.0 = ?r2 and rest = "[]"])
      (use old in \<open>simp_all add: sample_reply_def echo_read_write\<close>, simp_all add: start_ping_def Let_def ping_router_new_def)
  ultimately show ?thesis using old(1) by (simp add: Let_def)
qed

end
