(* ===== verification/Link_Quality.thy ===== *)
theory Link_Quality
  imports Link Heapless "HOL-Library.Option_ord"
begin

text \<open>
  Link-quality tracking of \<^verbatim>\<open>libs/wayfinder/src/link_quality.rs\<close>: the normalisation of driver
  measurements to 0..255 and the bounded table of smoothed estimates per neighbour and interface.
  An unmeasured link has quality \<open>None\<close>, below every measured one in the library's order on options,
  as in the source.

  The lemmas show that normalisation stays in range and is monotone in both measurements, that the
  smoothed estimate stays between its previous value and the sample and settles within three units of
  a constant signal, that the table never holds a pair twice or overruns, and that only the weakest
  record is ever displaced.
\<close>

definition LINK_QUALITY_CAPACITY :: nat where
  "LINK_QUALITY_CAPACITY = 64"

definition EWMA_SHIFT :: nat where
  "EWMA_SHIFT = 2"

record 'k link_quality_record =
  lq_neighbor :: 'k
  lq_iface_idx :: nat
  lq_ewma_quality :: "u8 option"
  lq_sample_count :: u32

type_synonym 'k link_quality_table = "'k link_quality_record list"

definition lq_new :: "'k link_quality_table" where
  "lq_new = []"

definition lq_clear :: "'k link_quality_table \<Rightarrow> 'k link_quality_table" where
  "lq_clear t = []"

definition retain_live :: "('k \<Rightarrow> bool) \<Rightarrow> 'k link_quality_table \<Rightarrow> 'k link_quality_table" where
  "retain_live is_live t = filter (\<lambda>e. is_live (lq_neighbor e)) t"

text \<open>The blend, in sixteen bits as written.\<close>

definition ewma :: "u8 \<Rightarrow> u8 \<Rightarrow> u8" where
  "ewma prev sample =
     (let alpha_denom = push_bit EWMA_SHIFT 1 :: u16
      in ucast ((ucast sample + (alpha_denom - 1) * ucast prev) div alpha_denom))"

definition fold_sample :: "u8 option \<Rightarrow> 'k link_quality_record \<Rightarrow> 'k link_quality_record" where
  "fold_sample sample e =
     (let e = e\<lparr>lq_sample_count := saturating_add (lq_sample_count e) 1\<rparr>
      in case sample of
           None \<Rightarrow> e
         | Some q \<Rightarrow> e\<lparr>lq_ewma_quality := Some (case lq_ewma_quality e of Some prev \<Rightarrow> ewma prev q | None \<Rightarrow> q)\<rparr>)"

definition is_pair :: "'k \<Rightarrow> nat \<Rightarrow> 'k link_quality_record \<Rightarrow> bool" where
  "is_pair neighbor iface_idx e \<longleftrightarrow> lq_neighbor e = neighbor \<and> lq_iface_idx e = iface_idx"

definition lq_update :: "nat \<Rightarrow> 'k \<Rightarrow> nat \<Rightarrow> u8 option \<Rightarrow> 'k link_quality_table \<Rightarrow> 'k link_quality_table" where
  "lq_update cap neighbor iface_idx sample t =
     (case update_first (is_pair neighbor iface_idx) (fold_sample sample) t of
        Some t \<Rightarrow> t
      | None \<Rightarrow>
          let new_entry = \<lparr>lq_neighbor = neighbor, lq_iface_idx = iface_idx, lq_ewma_quality = sample, lq_sample_count = 1\<rparr>
          in case vec_push cap new_entry t of
               Some t \<Rightarrow> t
             | None \<Rightarrow> (case min_by_key (\<lambda>(_, e). lq_ewma_quality e) (enumerate 0 t) of
                          None \<Rightarrow> t
                        | Some (idx, _) \<Rightarrow> t[idx := new_entry]))"

definition best_interface_for :: "'k \<Rightarrow> 'k link_quality_table \<Rightarrow> nat option" where
  "best_interface_for neighbor t =
     map_option lq_iface_idx (max_by_key lq_ewma_quality (filter (\<lambda>e. lq_neighbor e = neighbor) t))"

definition quality_for :: "'k \<Rightarrow> nat \<Rightarrow> 'k link_quality_table \<Rightarrow> u8 option" where
  "quality_for neighbor iface_idx t = Option.bind (find (is_pair neighbor iface_idx) t) lq_ewma_quality"

text \<open>The intermediate values fit their widths (\<open>normalize_widths\<close>), so they are integers here.\<close>

definition clamp_int :: "int \<Rightarrow> int \<Rightarrow> int \<Rightarrow> int" where
  "clamp_int lo hi x = max lo (min hi x)"

definition rssi_score :: "16 word \<Rightarrow> int" where
  "rssi_score rssi = clamp_int 0 70 (sint rssi + 120) * 255 div 70"

definition snr_bias :: "8 word \<Rightarrow> int" where
  "snr_bias snr = clamp_int (- 60) 60 (sint snr * 3)"

definition normalize_quality :: "link_metrics \<Rightarrow> u8 option" where
  "normalize_quality metrics =
     (case lm_quality metrics of
        Some q \<Rightarrow> Some q
      | None \<Rightarrow>
          if lm_rssi_dbm metrics = None \<and> lm_snr_db metrics = None then None
          else let rssi = (case lm_rssi_dbm metrics of Some r \<Rightarrow> r | None \<Rightarrow> - 120);
                   snr = (case lm_snr_db metrics of Some s \<Rightarrow> s | None \<Rightarrow> 0)
               in Some (word_of_int (clamp_int 0 255 (rssi_score rssi + snr_bias snr))))"

section \<open>Normalisation\<close>

lemma clamp_int_mono: "x \<le> y \<Longrightarrow> clamp_int lo hi x \<le> clamp_int lo hi y"
  by (auto simp: clamp_int_def)

lemma clamp_int_range: "lo \<le> hi \<Longrightarrow> lo \<le> clamp_int lo hi x \<and> clamp_int lo hi x \<le> hi"
  by (auto simp: clamp_int_def)

lemma normalize_widths:
  "- 32768 \<le> sint (r :: 16 word) \<and> sint r + 120 < 2 ^ 31 \<and> 0 \<le> rssi_score r \<and> rssi_score r \<le> 255"
  "- 384 \<le> sint (s :: 8 word) * 3 \<and> sint s * 3 \<le> 381 \<and> - 60 \<le> snr_bias s \<and> snr_bias s \<le> 60"
proof -
  have b: "- 32768 \<le> sint r" "sint r < 32768" "- 128 \<le> sint s" "sint s < 128"
    using sint_ge [of r] sint_lt [of r] sint_ge [of s] sint_lt [of s] by simp_all
  have "0 \<le> clamp_int 0 70 (sint r + 120)" "clamp_int 0 70 (sint r + 120) \<le> 70" by (simp_all add: clamp_int_def)
  then show "- 32768 \<le> sint r \<and> sint r + 120 < 2 ^ 31 \<and> 0 \<le> rssi_score r \<and> rssi_score r \<le> 255"
    using b by (auto simp: rssi_score_def)
  show "- 384 \<le> sint s * 3 \<and> sint s * 3 \<le> 381 \<and> - 60 \<le> snr_bias s \<and> snr_bias s \<le> 60"
    using b by (simp add: snr_bias_def clamp_int_def)
qed

lemma rssi_score_mono: "sint r \<le> sint r' \<Longrightarrow> rssi_score r \<le> rssi_score r'"
  unfolding rssi_score_def by (intro zdiv_mono1 mult_right_mono clamp_int_mono) auto

lemma snr_bias_mono: "sint s \<le> sint s' \<Longrightarrow> snr_bias s \<le> snr_bias s'"
  unfolding snr_bias_def by (intro clamp_int_mono) auto

section \<open>Smoothing\<close>

lemma u8_lt: "unat (x :: u8) < 256"
  using unsigned_less [of x] by simp

lemma unat_ucast_u8: "unat (ucast (x :: u8) :: u16) = unat x"
proof -
  have "unat x < 2 ^ 16" using u8_lt [of x] by simp
  then show ?thesis by (simp add: unsigned_ucast_eq take_bit_nat_eq_self_iff)
qed

text \<open>The sixteen-bit computation is the exact quotient.\<close>

lemma unat_ewma: "unat (ewma prev sample) = (unat sample + 3 * unat prev) div 4"
proof -
  let ?w = "(ucast sample + 3 * ucast prev) div 4 :: u16"
  have "unat (3 * ucast prev :: u16) = 3 * unat prev"
    using u8_lt [of prev] by (simp add: unat_word_ariths unat_ucast_u8)
  then have "unat (ucast sample + 3 * ucast prev :: u16) = unat sample + 3 * unat prev"
    using u8_lt [of prev] u8_lt [of sample] by (simp add: unat_word_ariths unat_ucast_u8)
  then have w: "unat ?w = (unat sample + 3 * unat prev) div 4" by (simp add: unat_div)
  have "unat ?w < 2 ^ 8" using w u8_lt [of prev] u8_lt [of sample] by simp
  then have "unat (ucast ?w :: u8) = unat ?w" by (simp add: unsigned_ucast_eq take_bit_nat_eq_self_iff)
  then show ?thesis using w by (simp add: ewma_def EWMA_SHIFT_def Let_def)
qed

lemma ewma_between: "min prev sample \<le> ewma prev sample" "ewma prev sample \<le> max prev sample"
  by (auto simp: word_le_nat_alt unat_ewma min_def max_def)

text \<open>How far a constant signal can still be away after one more sample, from below and from above.\<close>

definition gap_below :: "nat \<Rightarrow> nat" where
  "gap_below d = (3 * d + 3) div 4"

definition gap_above :: "nat \<Rightarrow> nat" where
  "gap_above d = 3 * d div 4"

fun ewma_run :: "u8 list \<Rightarrow> u8 \<Rightarrow> u8" where
  "ewma_run [] prev = prev"
| "ewma_run (q # qs) prev = ewma_run qs (ewma prev q)"

lemma ewma_run_gap:
  "unat prev \<le> unat q + d \<Longrightarrow> unat q \<le> unat prev + e \<Longrightarrow>
   unat (ewma_run (replicate n q) prev) \<le> unat q + (gap_above ^^ n) d \<and> unat q \<le> unat (ewma_run (replicate n q) prev) + (gap_below ^^ n) e"
proof (induction n arbitrary: prev d e)
  case (Suc n)
  have "unat (ewma prev q) \<le> unat q + gap_above d" "unat q \<le> unat (ewma prev q) + gap_below e"
    using Suc.prems by (simp_all add: unat_ewma gap_above_def gap_below_def)
  from Suc.IH [OF this] show ?case by (simp add: funpow_swap1)
qed simp

lemma funpow_numeral_step: "(f ^^ numeral k) x = (f ^^ pred_numeral k) (f x)"
  by (simp add: numeral_eq_Suc funpow_swap1)

lemma gaps_closed: "(gap_above ^^ 17) 255 = 0" "(gap_below ^^ 17) 255 = 3"
  by (simp_all add: gap_above_def gap_below_def funpow_numeral_step)

lemma ewma_run_append: "ewma_run (as @ bs) prev = ewma_run bs (ewma_run as prev)"
  by (induction as arbitrary: prev) auto

lemma ewma_run_stays:
  "unat q \<le> unat prev + 3 \<Longrightarrow> prev \<le> q \<Longrightarrow> unat q \<le> unat (ewma_run (replicate n q) prev) + 3 \<and> ewma_run (replicate n q) prev \<le> q"
  by (induction n arbitrary: prev) (simp_all add: unat_ewma word_le_nat_alt)

section \<open>The table\<close>

definition lq_ok :: "nat \<Rightarrow> 'k link_quality_table \<Rightarrow> bool" where
  "lq_ok cap t \<longleftrightarrow> length t \<le> cap \<and> distinct (map (\<lambda>e. (lq_neighbor e, lq_iface_idx e)) t)"

lemma fold_sample_pair [simp]: "lq_neighbor (fold_sample q e) = lq_neighbor e" "lq_iface_idx (fold_sample q e) = lq_iface_idx e"
  by (simp_all add: fold_sample_def Let_def split: option.splits)

text \<open>The weakest record a full table gives up.\<close>

lemma weakest:
  assumes "t \<noteq> []"
  obtains idx e where "min_by_key (\<lambda>(_, e). lq_ewma_quality e) (enumerate 0 t) = Some (idx, e)" "idx < length t" "t ! idx = e"
    "\<forall>x\<in>set t. lq_ewma_quality e \<le> lq_ewma_quality x"
proof -
  have "enumerate 0 t \<noteq> []" using assms by (simp add: enumerate_eq_zip)
  then obtain idx e where m: "min_by_key (\<lambda>(_, e). lq_ewma_quality e) (enumerate 0 t) = Some (idx, e)"
    using min_by_key_None by (metis option.exhaust surj_pair)
  have "(idx, e) \<in> set (enumerate 0 t)" by (rule min_by_key_in [OF m])
  then have i: "idx < length t" "t ! idx = e" by (auto simp: in_set_enumerate_eq)
  moreover have "lq_ewma_quality e \<le> lq_ewma_quality x" if x: "x \<in> set t" for x
  proof -
    obtain j where j: "j < length t" "t ! j = x" using x by (auto simp: in_set_conv_nth)
    then have "(j, x) \<in> set (enumerate 0 t)" by (simp add: in_set_enumerate_eq)
    from min_by_key_le [OF m this] show ?thesis by simp
  qed
  ultimately show thesis using m that by blast
qed

text \<open>The three outcomes of an update: refreshed, appended, or the weakest record displaced.\<close>

lemma lq_update_cases:
  assumes "0 < cap"
  obtains (refreshed) as e bs where "t = as @ e # bs" "is_pair neighbor i e"
      "lq_update cap neighbor i sample t = as @ fold_sample sample e # bs"
  | (added) "\<forall>e\<in>set t. \<not> is_pair neighbor i e" "length t < cap"
      "lq_update cap neighbor i sample t = t @ [\<lparr>lq_neighbor = neighbor, lq_iface_idx = i, lq_ewma_quality = sample, lq_sample_count = 1\<rparr>]"
  | (displaced) idx e where "\<forall>e\<in>set t. \<not> is_pair neighbor i e" "cap \<le> length t" "idx < length t" "t ! idx = e"
      "\<forall>x\<in>set t. lq_ewma_quality e \<le> lq_ewma_quality x"
      "lq_update cap neighbor i sample t
         = t[idx := \<lparr>lq_neighbor = neighbor, lq_iface_idx = i, lq_ewma_quality = sample, lq_sample_count = 1\<rparr>]"
proof (cases "update_first (is_pair neighbor i) (fold_sample sample) t")
  case (Some t')
  then obtain as e bs where "t = as @ e # bs" "t' = as @ fold_sample sample e # bs" "is_pair neighbor i e"
    using update_first_Some by blast
  then show thesis using refreshed Some by (simp add: lq_update_def)
next
  case None
  then have n: "\<forall>e\<in>set t. \<not> is_pair neighbor i e" by (simp add: update_first_None)
  show thesis
  proof (cases "length t < cap")
    case True
    then show thesis using added n None by (simp add: lq_update_def vec_push_def)
  next
    case False
    then have "t \<noteq> []" using assms by auto
    then obtain idx e where "min_by_key (\<lambda>(_, e). lq_ewma_quality e) (enumerate 0 t) = Some (idx, e)" "idx < length t" "t ! idx = e"
      "\<forall>x\<in>set t. lq_ewma_quality e \<le> lq_ewma_quality x" by (rule weakest)
    then show thesis using displaced n None False by (simp add: lq_update_def vec_push_def)
  qed
qed

lemma distinct_replace:
  assumes "distinct (map g xs)" "y \<notin> g ` set xs" "g z = y" "i < length xs"
  shows "distinct (map g (xs[i := z]))"
  using assms by (auto simp: map_update intro!: distinct_list_update)

lemma lq_update_ok:
  assumes "lq_ok cap t" "0 < cap"
  shows "lq_ok cap (lq_update cap neighbor i sample t)"
  using assms(2)
proof (cases rule: lq_update_cases [where t = t and neighbor = neighbor and i = i and sample = sample])
  case (refreshed as e bs)
  then show ?thesis using assms(1) by (simp add: lq_ok_def)
next
  case added
  then show ?thesis using assms(1) by (auto simp: lq_ok_def is_pair_def)
next
  case (displaced idx e)
  have "distinct (map (\<lambda>e. (lq_neighbor e, lq_iface_idx e))
      (t[idx := \<lparr>lq_neighbor = neighbor, lq_iface_idx = i, lq_ewma_quality = sample, lq_sample_count = 1\<rparr>]))"
    using assms(1) displaced by (intro distinct_replace [where y = "(neighbor, i)"]) (auto simp: lq_ok_def is_pair_def)
  then show ?thesis using assms(1) displaced by (simp add: lq_ok_def)
qed

text \<open>Reading a well-formed table: one record per pair.\<close>

definition lq_get :: "'k \<Rightarrow> nat \<Rightarrow> 'k link_quality_table \<Rightarrow> 'k link_quality_record option" where
  "lq_get neighbor i t = find (is_pair neighbor i) t"

lemma lq_get_iff:
  assumes "lq_ok cap t"
  shows "lq_get neighbor i t = Some e \<longleftrightarrow> e \<in> set t \<and> is_pair neighbor i e"
proof
  assume "lq_get neighbor i t = Some e"
  then show "e \<in> set t \<and> is_pair neighbor i e" by (auto simp: lq_get_def find_Some_iff)
next
  assume e: "e \<in> set t \<and> is_pair neighbor i e"
  then obtain e' where e': "lq_get neighbor i t = Some e'" by (cases "lq_get neighbor i t") (auto simp: lq_get_def find_None_iff)
  then have "e' \<in> set t" "is_pair neighbor i e'" by (auto simp: lq_get_def find_Some_iff)
  moreover have "inj_on (\<lambda>e. (lq_neighbor e, lq_iface_idx e)) (set t)" using assms by (simp add: lq_ok_def distinct_map)
  ultimately have "e' = e" using e by (auto simp: is_pair_def inj_on_def)
  then show "lq_get neighbor i t = Some e" using e' by simp
qed

lemma best_interface_for_Some:
  assumes "best_interface_for neighbor t = Some i"
  obtains e where "e \<in> set t" "is_pair neighbor i e" "\<forall>x\<in>set t. lq_neighbor x = neighbor \<longrightarrow> lq_ewma_quality x \<le> lq_ewma_quality e"
proof -
  obtain e where e: "max_by_key lq_ewma_quality (filter (\<lambda>e. lq_neighbor e = neighbor) t) = Some e" "lq_iface_idx e = i"
    using assms by (auto simp: best_interface_for_def)
  have "\<forall>x\<in>set t. lq_neighbor x = neighbor \<longrightarrow> lq_ewma_quality x \<le> lq_ewma_quality e"
    using max_by_key_ge [OF e(1)] by auto
  then show thesis using max_by_key_in [OF e(1)] e(2) by (intro that) (auto simp: is_pair_def)
qed

lemma retain_live_ok: "lq_ok cap t \<Longrightarrow> lq_ok cap (retain_live f t)"
  by (simp add: lq_ok_def retain_live_def distinct_map_filter le_trans [OF length_filter_le])

section \<open>Sequences of operations\<close>

datatype 'k lq_op = Sample 'k nat "u8 option" | Retain "'k \<Rightarrow> bool" | Wipe

fun lq_step :: "nat \<Rightarrow> 'k lq_op \<Rightarrow> 'k link_quality_table \<Rightarrow> 'k link_quality_table" where
  "lq_step cap (Sample k i q) t = lq_update cap k i q t"
| "lq_step cap (Retain f) t = retain_live f t"
| "lq_step cap Wipe t = lq_clear t"

lemma lq_step_ok: "lq_ok cap t \<Longrightarrow> 0 < cap \<Longrightarrow> lq_ok cap (lq_step cap p t)"
  by (cases p) (simp_all add: lq_update_ok retain_live_ok lq_clear_def, simp add: lq_ok_def)

lemma lq_steps_ok: "lq_ok cap t \<Longrightarrow> 0 < cap \<Longrightarrow> lq_ok cap (fold (lq_step cap) ops t)"
  by (induction ops arbitrary: t) (simp_all add: lq_step_ok)

lemma lq_new_ok: "lq_ok cap lq_new"
  by (simp add: lq_ok_def lq_new_def)

section \<open>Properties\<close>

lemma ewma_steady:
  shows "min prev q \<le> ewma prev q" "ewma prev q \<le> max prev q"
    "unat (ewma prev q) = (unat q + 3 * unat prev) div 4"
    "ewma_run (replicate (17 + n) q) prev \<le> q" "unat q \<le> unat (ewma_run (replicate (17 + n) q) prev) + 3"
proof -
  have "unat prev \<le> unat q + 255" "unat q \<le> unat prev + 255" using u8_lt [of prev] u8_lt [of q] by simp_all
  from ewma_run_gap [OF this, of 17] have "ewma_run (replicate 17 q) prev \<le> q" "unat q \<le> unat (ewma_run (replicate 17 q) prev) + 3"
    unfolding gaps_closed by (simp_all add: word_le_nat_alt)
  with ewma_run_stays have "unat q \<le> unat (ewma_run (replicate n q) (ewma_run (replicate 17 q) prev)) + 3
      \<and> ewma_run (replicate n q) (ewma_run (replicate 17 q) prev) \<le> q" by blast
  then show "ewma_run (replicate (17 + n) q) prev \<le> q" "unat q \<le> unat (ewma_run (replicate (17 + n) q) prev) + 3"
    by (simp_all only: replicate_add ewma_run_append)
qed (rule ewma_between unat_ewma)+

text \<open>
  The smoothed quality follows the signal. Each blend lies between the previous estimate and the
  sample, computed without overflow in sixteen bits; and once seventeen or more equal samples have
  arrived, whatever the estimate was before, it lies within three units below the sample and never
  above it.
\<close>

theorem ewma_settles:
  "min prev q \<le> ewma prev q \<and> ewma prev q \<le> max prev q \<and> unat (ewma prev q) = (unat q + 3 * unat prev) div 4
   \<and> ewma_run (replicate (17 + n) q) prev \<le> q \<and> unat q \<le> unat (ewma_run (replicate (17 + n) q) prev) + 3"
  by (intro conjI ewma_steady)

lemma lq_update_effect:
  fixes cap ops
  defines "t \<equiv> fold (lq_step cap) ops lq_new"
  assumes "0 < cap"
  shows "length t \<le> cap" "distinct (map (\<lambda>e. (lq_neighbor e, lq_iface_idx e)) t)"
    and "lq_get k i (lq_update cap k i q t) = Some (case lq_get k i t of
           Some e \<Rightarrow> fold_sample q e
         | None \<Rightarrow> \<lparr>lq_neighbor = k, lq_iface_idx = i, lq_ewma_quality = q, lq_sample_count = 1\<rparr>)"
    and "lq_get k' i' t = Some e \<Longrightarrow> (k', i') \<noteq> (k, i) \<Longrightarrow>
           lq_get k' i' (lq_update cap k i q t) = Some e
           \<or> length t = cap \<and> lq_get k i t = None \<and> (\<forall>x\<in>set t. lq_ewma_quality e \<le> lq_ewma_quality x)"
proof -
  have ok: "lq_ok cap t" unfolding t_def using lq_steps_ok [OF lq_new_ok] assms(2) by blast
  then show "length t \<le> cap" "distinct (map (\<lambda>e. (lq_neighbor e, lq_iface_idx e)) t)" by (simp_all add: lq_ok_def)
  note ok' = lq_update_ok [OF ok assms(2), of k i q]
  show "lq_get k i (lq_update cap k i q t) = Some (case lq_get k i t of
      Some e \<Rightarrow> fold_sample q e | None \<Rightarrow> \<lparr>lq_neighbor = k, lq_iface_idx = i, lq_ewma_quality = q, lq_sample_count = 1\<rparr>)"
    using assms(2)
  proof (cases rule: lq_update_cases [where t = t and neighbor = k and i = i and sample = q])
    case (refreshed as e bs)
    then have "lq_get k i t = Some e" unfolding lq_get_iff [OF ok] by simp
    then show ?thesis unfolding lq_get_iff [OF ok'] using refreshed by (simp add: is_pair_def)
  next
    case added
    then have "lq_get k i t = None" by (simp add: lq_get_def find_None_iff)
    then show ?thesis unfolding lq_get_iff [OF ok'] using added by (simp add: is_pair_def)
  next
    case (displaced idx e)
    then have "lq_get k i t = None" by (simp add: lq_get_def find_None_iff)
    then show ?thesis unfolding lq_get_iff [OF ok'] using displaced by (simp add: is_pair_def set_update_memI)
  qed
  assume e: "lq_get k' i' t = Some e" and ne: "(k', i') \<noteq> (k, i)"
  have e': "e \<in> set t" "is_pair k' i' e" using e by (simp_all add: lq_get_iff [OF ok])
  show "lq_get k' i' (lq_update cap k i q t) = Some e
    \<or> length t = cap \<and> lq_get k i t = None \<and> (\<forall>x\<in>set t. lq_ewma_quality e \<le> lq_ewma_quality x)"
    using assms(2)
  proof (cases rule: lq_update_cases [where t = t and neighbor = k and i = i and sample = q])
    case (refreshed as x bs)
    then have "e \<in> set as \<union> set bs" using e' ne by (auto simp: is_pair_def)
    then show ?thesis unfolding lq_get_iff [OF ok'] using refreshed e'(2) by auto
  next
    case added
    then show ?thesis unfolding lq_get_iff [OF ok'] using e' by simp
  next
    case (displaced idx x)
    show ?thesis
    proof (cases "e = x")
      case True
      then show ?thesis using displaced ok by (auto simp: lq_get_def find_None_iff lq_ok_def)
    next
      case False
      then have "e \<in> set (t[idx := \<lparr>lq_neighbor = k, lq_iface_idx = i, lq_ewma_quality = q, lq_sample_count = 1\<rparr>])"
        using e'(1) displaced(3,4) by (auto simp: in_set_conv_nth nth_list_update)
      then show ?thesis unfolding lq_get_iff [OF ok'] using e'(2) displaced(6) by simp
    qed
  qed
qed

text \<open>
  Updating the quality table. In every table reached by samples, sweeps and wipes, no pair occurs
  twice and the capacity is kept. A further sample refreshes the record of its pair, or starts it with
  the sample verbatim; every other record is kept, except that a new pair arriving at a full table
  displaces one record, and then no record was weaker than the displaced one.
\<close>

theorem link_quality_update:
  assumes "0 < cap" "t = fold (lq_step cap) ops lq_new"
  shows "length t \<le> cap \<and> distinct (map (\<lambda>e. (lq_neighbor e, lq_iface_idx e)) t)
    \<and> lq_get k i (lq_update cap k i q t) = Some (case lq_get k i t of
           Some e \<Rightarrow> fold_sample q e
         | None \<Rightarrow> \<lparr>lq_neighbor = k, lq_iface_idx = i, lq_ewma_quality = q, lq_sample_count = 1\<rparr>)
    \<and> (\<forall>k' i' e. lq_get k' i' t = Some e \<longrightarrow> (k', i') \<noteq> (k, i) \<longrightarrow>
           lq_get k' i' (lq_update cap k i q t) = Some e
           \<or> length t = cap \<and> lq_get k i t = None \<and> (\<forall>x\<in>set t. lq_ewma_quality e \<le> lq_ewma_quality x))"
  unfolding assms(2) by (intro conjI allI impI lq_update_effect [OF assms(1)])

theorem link_quality_update_witness:
  "let t = fold (lq_step 2) [Sample (1 :: nat) 0 (Some 10), Sample 2 0 None] lq_new
   in length t = 2 \<and> lq_get 3 0 (lq_update 2 3 0 (Some 7) t)
        = Some \<lparr>lq_neighbor = 3, lq_iface_idx = 0, lq_ewma_quality = Some 7, lq_sample_count = 1\<rparr>
      \<and> lq_get 1 0 (lq_update 2 3 0 (Some 7) t) = lq_get 1 0 t \<and> lq_get 2 0 (lq_update 2 3 0 (Some 7) t) = None"
proof -
  let ?ops = "[Sample (1 :: nat) 0 (Some 10), Sample 2 0 None]"
  let ?t = "fold (lq_step 2) ?ops lq_new"
  have e: "?t = [\<lparr>lq_neighbor = 1, lq_iface_idx = 0, lq_ewma_quality = Some 10, lq_sample_count = 1\<rparr>,
      \<lparr>lq_neighbor = 2, lq_iface_idx = 0, lq_ewma_quality = None, lq_sample_count = 1\<rparr>]"
    by (simp add: lq_new_def lq_update_def is_pair_def vec_push_def)
  have "lq_get 3 0 (lq_update 2 3 0 (Some 7) ?t)
      = Some \<lparr>lq_neighbor = 3, lq_iface_idx = 0, lq_ewma_quality = Some 7, lq_sample_count = 1\<rparr>"
    using link_quality_update [of 2 ?t ?ops 3 0 "Some 7"] unfolding e by (simp add: lq_get_def is_pair_def)
  moreover have "lq_get 1 0 (lq_update 2 3 0 (Some 7) ?t) = lq_get 1 0 ?t \<and> lq_get 2 0 (lq_update 2 3 0 (Some 7) ?t) = None"
    unfolding e by (simp add: lq_update_def is_pair_def vec_push_def lq_get_def)
  ultimately show ?thesis unfolding Let_def e by simp
qed

lemma best_interface_choice:
  fixes cap ops k
  defines "t \<equiv> fold (lq_step cap) ops lq_new"
  assumes "0 < cap"
  shows "best_interface_for k t = None \<longleftrightarrow> (\<forall>i. lq_get k i t = None)"
    and "best_interface_for k t = Some i \<Longrightarrow>
      \<exists>e. lq_get k i t = Some e \<and> quality_for k i t = lq_ewma_quality e
        \<and> (\<forall>j x. lq_get k j t = Some x \<longrightarrow> lq_ewma_quality x \<le> lq_ewma_quality e)"
proof -
  have ok: "lq_ok cap t" unfolding t_def using lq_steps_ok [OF lq_new_ok] assms(2) by blast
  have "best_interface_for k t = None \<longleftrightarrow> (\<forall>e\<in>set t. lq_neighbor e \<noteq> k)"
    by (simp add: best_interface_for_def filter_empty_conv)
  then show "best_interface_for k t = None \<longleftrightarrow> (\<forall>i. lq_get k i t = None)"
    by (auto simp: lq_get_def find_None_iff is_pair_def)
  assume "best_interface_for k t = Some i"
  then obtain e where e: "e \<in> set t" "is_pair k i e" "\<forall>x\<in>set t. lq_neighbor x = k \<longrightarrow> lq_ewma_quality x \<le> lq_ewma_quality e"
    by (rule best_interface_for_Some)
  then have g: "lq_get k i t = Some e" by (simp add: lq_get_iff [OF ok])
  then have "quality_for k i t = lq_ewma_quality e" by (simp add: quality_for_def lq_get_def)
  moreover have "\<forall>j x. lq_get k j t = Some x \<longrightarrow> lq_ewma_quality x \<le> lq_ewma_quality e"
    using e(3) by (auto simp: lq_get_iff [OF ok] is_pair_def)
  ultimately show "\<exists>e. lq_get k i t = Some e \<and> quality_for k i t = lq_ewma_quality e
    \<and> (\<forall>j x. lq_get k j t = Some x \<longrightarrow> lq_ewma_quality x \<le> lq_ewma_quality e)" using g by blast
qed

text \<open>
  The egress choice. In every table reached, a neighbour has a best interface exactly when it has a
  record at all, the answer names one of its records, and no other record of that neighbour has a higher
  quality; an unmeasured link never outranks a measured one.
\<close>

theorem best_interface_strongest:
  assumes "0 < cap" "t = fold (lq_step cap) ops lq_new"
  shows "(best_interface_for k t = None \<longleftrightarrow> (\<forall>i. lq_get k i t = None))
    \<and> (\<forall>i. best_interface_for k t = Some i \<longrightarrow>
      (\<exists>e. lq_get k i t = Some e \<and> quality_for k i t = lq_ewma_quality e
        \<and> (\<forall>j x. lq_get k j t = Some x \<longrightarrow> lq_ewma_quality x \<le> lq_ewma_quality e)))"
  unfolding assms(2) by (intro conjI allI impI best_interface_choice [OF assms(1)])

theorem best_interface_strongest_witness:
  "best_interface_for (1 :: nat) (fold (lq_step 4) [Sample 1 0 (Some 10), Sample 1 3 (Some 90), Sample 1 2 None] lq_new) = Some 3
   \<and> quality_for (1 :: nat) 3 (fold (lq_step 4) [Sample 1 0 (Some 10), Sample 1 3 (Some 90), Sample 1 2 None] lq_new) = Some 90"
proof -
  let ?ops = "[Sample (1 :: nat) 0 (Some 10), Sample 1 3 (Some 90), Sample 1 2 None]"
  let ?t = "fold (lq_step 4) ?ops lq_new"
  have e: "?t = [\<lparr>lq_neighbor = 1, lq_iface_idx = 0, lq_ewma_quality = Some 10, lq_sample_count = 1\<rparr>,
      \<lparr>lq_neighbor = 1, lq_iface_idx = 3, lq_ewma_quality = Some 90, lq_sample_count = 1\<rparr>,
      \<lparr>lq_neighbor = 1, lq_iface_idx = 2, lq_ewma_quality = None, lq_sample_count = 1\<rparr>]"
    by (simp add: lq_new_def lq_update_def is_pair_def vec_push_def)
  have b: "best_interface_for 1 ?t = Some 3" unfolding e by (simp add: best_interface_for_def)
  from best_interface_strongest [of 4 ?t ?ops 1] b have
    "quality_for 1 3 ?t = Some 90" unfolding e by (auto simp: lq_get_def is_pair_def)
  then show ?thesis using b by simp
qed

end
