(* ===== verification/Central_Router.thy ===== *)
theory Central_Router
  imports Mesh Ident_Table Ping Link_Quality Renewal
begin

text \<open>
  The central router (\<^verbatim>\<open>CentralRouter\<close> in \<^verbatim>\<open>libs/wayfinder/src/lib.rs\<close>, with \<^verbatim>\<open>features.rs\<close> and the
  \<^verbatim>\<open>Paths\<close> view of \<^verbatim>\<open>auth/paths.rs\<close>): the object that holds the routing engine, the egress table, the
  link-quality table, the authenticator and the probe session, and composes them on every frame, tick and
  local send. The rate estimators (floating-point gauges), log lines and alarms are left out: no decision
  reads them. The transmit buffer matters by its length alone, because the receive path zeroes it and every
  writer fills the prefix it returns.
\<close>

section \<open>Link features\<close>

record keepalive_config =
  kc_interval_ms :: u64

definition default_interval_ms :: u64 where
  "default_interval_ms = 5000"

definition kc_interval :: "keepalive_config \<Rightarrow> duration" where
  "kc_interval c = unat (kc_interval_ms c) * 1000000"

record link_features =
  lx_tx_ogm :: bool
  lx_rx_ogm :: bool
  lx_tx_data :: bool
  lx_rx_data :: bool
  lx_tx_keepalive :: "keepalive_config option"

definition link_features_default :: link_features where
  "link_features_default = \<lparr>lx_tx_ogm = True, lx_rx_ogm = True, lx_tx_data = True, lx_rx_data = True, lx_tx_keepalive = None\<rparr>"

section \<open>State\<close>

definition MCAST_FANOUT :: nat where "MCAST_FANOUT = 16"
definition MAX_INTERFACE_NAME_LEN :: nat where "MAX_INTERFACE_NAME_LEN = 16"
definition MIN_KEEPALIVE_INTERVAL :: duration where "MIN_KEEPALIVE_INTERVAL = 100 * 1000000"

datatype local_send_error = BufferTooSmall | AuthLocked | RouteUnproven

datatype mcast_plan = PlanUnicast | PlanFlood

datatype egress_interface = AllInterfaces | Interface nat

record rx_outcome =
  ro_forward :: "frame_data option"
  ro_deliver_local :: "bytes option"
  ro_pin_egress_iface :: "nat option"

definition outcome_empty :: rx_outcome where
  "outcome_empty = \<lparr>ro_forward = None, ro_deliver_local = None, ro_pin_egress_iface = None\<rparr>"

abbreviation forward_only :: "frame_data option \<Rightarrow> rx_outcome" where
  "forward_only f \<equiv> outcome_empty\<lparr>ro_forward := f\<rparr>"

text \<open>The const-generic capacities of the parts.\<close>

record router_profile =
  cp_engine :: profile
  cp_ident :: ident_profile
  cp_link_quality :: nat
  cp_auth :: auth_profile

record central_router =
  ce_batman :: batman_engine
  ce_ident_table :: "mac ident_table"
  ce_link_quality :: "mac link_quality_table"
  ce_iface_count :: nat
  ce_auth :: "ogm_auth option"
  ce_swept_key_generation :: u32
  ce_require_auth :: bool
  ce_self_revocation :: "revocation_record option"
  ce_pending_self_revocation :: "revocation_record option"
  ce_lazy_cert_distribution :: bool
  ce_oversize_drops :: u32
  ce_mcast_group_drops :: u32
  ce_mcast_unroutable_local :: u32
  ce_runtime_config_active :: bool
  ce_link_features :: "link_features list"
  ce_iface_names :: "bytes list"
  ce_ping :: ping_router

definition router_with_capacities :: "router_profile \<Rightarrow> mac \<Rightarrow> central_router" where
  "router_with_capacities P ident =
     \<lparr>ce_batman = engine_new ident, ce_ident_table = ident_new (cp_ident P), ce_link_quality = lq_new, ce_iface_count = 0,
      ce_auth = None, ce_swept_key_generation = 0, ce_require_auth = False, ce_self_revocation = None,
      ce_pending_self_revocation = None, ce_lazy_cert_distribution = False, ce_oversize_drops = 0, ce_mcast_group_drops = 0,
      ce_mcast_unroutable_local = 0, ce_runtime_config_active = False,
      ce_link_features = replicate (max_interfaces (cp_engine P)) link_features_default,
      ce_iface_names = replicate (max_interfaces (cp_engine P)) [], ce_ping = ping_router_new\<rparr>"

section \<open>Interfaces\<close>

definition touch_iface :: "router_profile \<Rightarrow> nat \<Rightarrow> central_router \<Rightarrow> central_router" where
  "touch_iface P idx r =
     (if idx < max_interfaces (cp_engine P) then r\<lparr>ce_iface_count := max (ce_iface_count r) (idx + 1)\<rparr> else r)"

text \<open>\<^verbatim>\<open>record_rx\<close> and \<^verbatim>\<open>record_tx\<close> without the gauge they feed.\<close>

definition record_rx :: "router_profile \<Rightarrow> nat \<Rightarrow> central_router \<Rightarrow> central_router" where
  "record_rx P idx r = (if idx < max_interfaces (cp_engine P) then touch_iface P idx r else r)"

definition record_tx :: "router_profile \<Rightarrow> nat \<Rightarrow> central_router \<Rightarrow> central_router" where
  "record_tx P idx r = (if idx < max_interfaces (cp_engine P) then touch_iface P idx r else r)"

definition is_char_boundary :: "bytes \<Rightarrow> nat \<Rightarrow> bool" where
  "is_char_boundary name i \<longleftrightarrow> i = 0 \<or> i = length name \<or> (i < length name \<and> name ! i AND 0xC0 \<noteq> 0x80)"

fun clip_end :: "bytes \<Rightarrow> nat \<Rightarrow> nat" where
  "clip_end name i = (if 0 < i \<and> \<not> is_char_boundary name i then clip_end name (i - 1) else i)"

declare clip_end.simps [simp del]

definition set_interface_name :: "router_profile \<Rightarrow> nat \<Rightarrow> bytes \<Rightarrow> central_router \<Rightarrow> central_router" where
  "set_interface_name P idx name r =
     (if max_interfaces (cp_engine P) \<le> idx then r
      else let end = clip_end name (min (length name) MAX_INTERFACE_NAME_LEN)
           in touch_iface P idx (r\<lparr>ce_iface_names := (ce_iface_names r)[idx := take end name]\<rparr>))"

definition interface_name :: "nat \<Rightarrow> central_router \<Rightarrow> bytes option" where
  "interface_name idx r =
     (if idx < length (ce_iface_names r) \<and> ce_iface_names r ! idx \<noteq> [] then Some (ce_iface_names r ! idx) else None)"

definition set_link_features :: "router_profile \<Rightarrow> nat \<Rightarrow> link_features \<Rightarrow> central_router \<Rightarrow> central_router" where
  "set_link_features P idx features r =
     (if idx < max_interfaces (cp_engine P)
      then touch_iface P idx (r\<lparr>ce_link_features := (ce_link_features r)[idx := features]\<rparr>) else r)"

definition link_features_of :: "nat \<Rightarrow> central_router \<Rightarrow> link_features" where
  "link_features_of idx r = (if idx < length (ce_link_features r) then ce_link_features r ! idx else link_features_default)"

definition link_may_tx :: "nat \<Rightarrow> batman_packet_type option \<Rightarrow> central_router \<Rightarrow> bool" where
  "link_may_tx idx packet_type r =
     (let f = link_features_of idx r
      in case packet_type of
           Some Ogm \<Rightarrow> lx_tx_ogm f
         | Some Bcast \<Rightarrow> lx_tx_data f
         | Some Unicast \<Rightarrow> lx_tx_data f
         | Some Mcast \<Rightarrow> lx_tx_data f
         | Some NextHopChallenge \<Rightarrow> lx_tx_data f
         | Some NextHopResponse \<Rightarrow> lx_tx_data f
         | Some EchoRequest \<Rightarrow> lx_tx_data f
         | Some EchoReply \<Rightarrow> lx_tx_data f
         | _ \<Rightarrow> True)"

definition router_configure_ogm ::
    "router_profile \<Rightarrow> nat \<Rightarrow> duration \<Rightarrow> duration \<Rightarrow> duration \<Rightarrow> central_router \<Rightarrow> central_router option" where
  "router_configure_ogm P idx i_min i_max now r =
     map_option (\<lambda>e. touch_iface P idx (r\<lparr>ce_batman := e\<rparr>))
       (configure_interface_ogm (cp_engine P) idx i_min i_max now (ce_batman r))"

definition router_configure_keepalive ::
    "router_profile \<Rightarrow> nat \<Rightarrow> duration option \<Rightarrow> duration \<Rightarrow> central_router \<Rightarrow> central_router option" where
  "router_configure_keepalive P idx interval now r =
     map_option (\<lambda>e. r\<lparr>ce_batman := e\<rparr>)
       (configure_interface_keepalive (cp_engine P) idx
          (map_option (\<lambda>iv. if iv < MIN_KEEPALIVE_INTERVAL then MIN_KEEPALIVE_INTERVAL else iv) interval) now (ce_batman r))"

definition apply_runtime_trickle_config ::
    "router_profile \<Rightarrow> nat \<Rightarrow> duration \<Rightarrow> duration \<Rightarrow> duration \<Rightarrow> central_router \<Rightarrow> (bool \<times> central_router) option" where
  "apply_runtime_trickle_config P idx i_min i_max now r =
     (if ce_iface_count r \<le> idx then Some (False, r)
      else map_option (\<lambda>r. (True, r\<lparr>ce_runtime_config_active := True\<rparr>)) (router_configure_ogm P idx i_min i_max now r))"

definition apply_runtime_link_features ::
    "router_profile \<Rightarrow> nat \<Rightarrow> link_features \<Rightarrow> duration \<Rightarrow> central_router \<Rightarrow> (bool \<times> central_router) option" where
  "apply_runtime_link_features P idx features now r =
     (if ce_iface_count r \<le> idx then Some (False, r)
      else map_option (\<lambda>r. (True, r\<lparr>ce_runtime_config_active := True\<rparr>))
             (router_configure_keepalive P idx (map_option kc_interval (lx_tx_keepalive features)) now
                (set_link_features P idx features r)))"

section \<open>Policy and credential\<close>

definition set_require_auth :: "bool \<Rightarrow> central_router \<Rightarrow> central_router" where
  "set_require_auth b r = r\<lparr>ce_require_auth := b\<rparr>"

definition apply_runtime_require_auth :: "bool \<Rightarrow> central_router \<Rightarrow> central_router" where
  "apply_runtime_require_auth b r = r\<lparr>ce_require_auth := b, ce_runtime_config_active := True\<rparr>"

definition set_lazy_cert_distribution :: "bool \<Rightarrow> central_router \<Rightarrow> central_router" where
  "set_lazy_cert_distribution b r = r\<lparr>ce_lazy_cert_distribution := b\<rparr>"

definition apply_runtime_lazy_cert_distribution :: "bool \<Rightarrow> central_router \<Rightarrow> central_router" where
  "apply_runtime_lazy_cert_distribution b r = r\<lparr>ce_lazy_cert_distribution := b, ce_runtime_config_active := True\<rparr>"

definition self_revoked :: "central_router \<Rightarrow> bool" where
  "self_revoked r \<longleftrightarrow> ce_self_revocation r \<noteq> None"

definition auth_locked :: "central_router \<Rightarrow> bool" where
  "auth_locked r \<longleftrightarrow> self_revoked r \<or> (ce_require_auth r \<and> ce_auth r = None)"

definition self_revocation_cancels :: "membership_cert \<Rightarrow> central_router \<Rightarrow> bool" where
  "self_revocation_cancels cert r =
     (case ce_self_revocation r of
        None \<Rightarrow> False
      | Some rec \<Rightarrow> cancels_cert_for (ct_node_mac cert) (ct_not_before cert) (rv_not_before rec) rec)"

definition self_revocation_not_after :: "central_router \<Rightarrow> u64 option" where
  "self_revocation_not_after r = map_option rv_not_after (ce_self_revocation r)"

definition take_self_revocation :: "central_router \<Rightarrow> revocation_record option \<times> central_router" where
  "take_self_revocation r = (ce_pending_self_revocation r, r\<lparr>ce_pending_self_revocation := None\<rparr>)"

definition note_self_revoked :: "revocation_record \<Rightarrow> central_router \<Rightarrow> central_router" where
  "note_self_revoked rec r = r\<lparr>ce_self_revocation := Some rec, ce_auth := None\<rparr>"

definition set_auth :: "router_profile \<Rightarrow> ogm_auth \<Rightarrow> central_router \<Rightarrow> central_router" where
  "set_auth P auth r =
     (let r = (if \<not> self_revocation_cancels (oa_cert auth) r then r\<lparr>ce_self_revocation := None\<rparr> else r);
          r = r\<lparr>ce_auth := Some auth\<rparr>;
          r = r\<lparr>ce_batman := engine_reset (set_require_proof True (ce_batman r))\<rparr>
      in r\<lparr>ce_ident_table := ident_clear (cp_ident P) (ce_ident_table r), ce_link_quality := lq_clear (ce_link_quality r)\<rparr>)"

definition apply_self_revocation :: "router_profile \<Rightarrow> central_router \<Rightarrow> bool \<times> central_router" where
  "apply_self_revocation P r =
     (case ce_auth r of
        None \<Rightarrow> (False, r)
      | Some auth \<Rightarrow>
          (case take_self_revoked auth of
             (None, auth) \<Rightarrow> (False, r\<lparr>ce_auth := Some auth\<rparr>)
           | (Some rec, _) \<Rightarrow>
               (True, r\<lparr>ce_auth := None, ce_self_revocation := Some rec, ce_pending_self_revocation := Some rec,
                  ce_batman := engine_reset (ce_batman r), ce_ident_table := ident_clear (cp_ident P) (ce_ident_table r),
                  ce_link_quality := lq_clear (ce_link_quality r)\<rparr>)))"

text \<open>The purge both revocation paths make when the authenticator asks for it.\<close>

definition purge_revoked :: "router_profile \<Rightarrow> duration \<Rightarrow> ogm_auth \<Rightarrow> batman_engine \<Rightarrow> batman_engine option" where
  "purge_revoked P now auth e =
     map_option (\<lambda>e. purge_stale now (revoke_originators (cp_engine P) (macs_to_purge auth) e)) (reset_ogm_timers now e)"

definition is_originator :: "batman_engine \<Rightarrow> mac \<Rightarrow> bool" where
  "is_originator e m = im_contains (originator_table e) m"

definition router_ingest_revocation ::
    "crypto \<Rightarrow> router_profile \<Rightarrow> revocation_record \<Rightarrow> duration \<Rightarrow> central_router
       \<Rightarrow> (bool \<times> central_router) option" where
  "router_ingest_revocation C P rec now r =
     (case ce_auth r of
        None \<Rightarrow> Some (False, r)
      | Some auth \<Rightarrow>
          (case ingest_revocation C (cp_auth P) rec auth of
             (newly, auth) \<Rightarrow>
               (case apply_self_revocation P (r\<lparr>ce_auth := Some auth\<rparr>) of
                  (True, r) \<Rightarrow> Some (False, r)
                | (False, r) \<Rightarrow>
                    (case ce_auth r of
                       None \<Rightarrow> Some (newly, r)
                     | Some auth \<Rightarrow>
                         (case take_trickle_reset_hint auth of
                            (hint, auth) \<Rightarrow>
                              let r = r\<lparr>ce_auth := Some auth\<rparr>
                              in if hint
                                 then map_option
                                        (\<lambda>e. let r = r\<lparr>ce_batman := e\<rparr>
                                             in (newly, r\<lparr>ce_link_quality := retain_live (is_originator (ce_batman r)) (ce_link_quality r)\<rparr>))
                                        (purge_revoked P now auth (ce_batman r))
                                 else Some (newly, r))))))"

text \<open>The two clocks move together, and proofs whose keys went with them are swept.\<close>

definition set_auth_time :: "router_profile \<Rightarrow> duration \<Rightarrow> clocked \<Rightarrow> central_router \<Rightarrow> central_router" where
  "set_auth_time P now wall r =
     (case ce_auth r of
        None \<Rightarrow> r
      | Some auth \<Rightarrow>
          let auth = set_time now wall auth; r = r\<lparr>ce_auth := Some auth\<rparr>
          in if oa_key_generation auth = ce_swept_key_generation r then r
             else r\<lparr>ce_batman := retain_proven (cp_engine P) now (\<lambda>m. has_live_key m auth) (ce_batman r),
                    ce_swept_key_generation := oa_key_generation auth\<rparr>)"

section \<open>The receive path\<close>

definition inner_offset :: "bytes \<Rightarrow> nat" where
  "inner_offset payload =
     (case (case payload of [] \<Rightarrow> None | t # _ \<Rightarrow> packet_type_from_u8 t) of
        Some Unicast \<Rightarrow> ROUTED_SIZE
      | Some Mcast \<Rightarrow> (case mcast_parse payload of
                         Some v \<Rightarrow> length payload - length (mv_inner v)
                       | None \<Rightarrow> length payload)
      | Some Bcast \<Rightarrow> BCAST_SIZE
      | Some CertReq \<Rightarrow> ROUTED_SIZE
      | Some CertReply \<Rightarrow> ROUTED_SIZE
      | Some RenewReq \<Rightarrow> ROUTED_SIZE
      | Some RenewReply \<Rightarrow> ROUTED_SIZE
      | Some EchoRequest \<Rightarrow> ECHO_SIZE
      | Some EchoReply \<Rightarrow> ECHO_SIZE
      | Some NextHopChallenge \<Rightarrow> MINIMAL_SIZE
      | Some NextHopResponse \<Rightarrow> MINIMAL_SIZE
      | _ \<Rightarrow> 0)"

text \<open>\<^verbatim>\<open>payload.get(offset..)\<close>, and the same with an empty slice for an offset past the end.\<close>

definition inner_payload :: "bytes \<Rightarrow> bytes option" where
  "inner_payload payload = (if inner_offset payload \<le> length payload then Some (drop (inner_offset payload) payload) else None)"

definition inner_body :: "bytes \<Rightarrow> bytes" where
  "inner_body payload = (case inner_payload payload of Some b \<Rightarrow> b | None \<Rightarrow> [])"

text \<open>A unicast that names another hop, and a traffic class the link does not accept.\<close>

definition overheard :: "batman_packet_type option \<Rightarrow> mac \<Rightarrow> mac \<Rightarrow> bool" where
  "overheard packet_type dst own \<longleftrightarrow>
     packet_type \<notin> {None, Some Ogm, Some Keepalive, Some Bcast} \<and> \<not> is_multicast dst \<and> dst \<noteq> own"

definition rx_gated :: "batman_packet_type option \<Rightarrow> link_features \<Rightarrow> bool" where
  "rx_gated packet_type f \<longleftrightarrow>
     (case packet_type of
        Some Ogm \<Rightarrow> \<not> lx_rx_ogm f
      | Some Bcast \<Rightarrow> \<not> lx_rx_data f
      | Some Unicast \<Rightarrow> \<not> lx_rx_data f
      | Some Mcast \<Rightarrow> \<not> lx_rx_data f
      | Some EchoRequest \<Rightarrow> \<not> lx_rx_data f
      | Some EchoReply \<Rightarrow> \<not> lx_rx_data f
      | _ \<Rightarrow> False)"

text \<open>The gates that may end the processing: the outcome they end it with, if any, and the router.\<close>

definition ogm_gate ::
    "crypto \<Rightarrow> router_profile \<Rightarrow> batman_packet_type option \<Rightarrow> link_frame \<Rightarrow> bytes \<Rightarrow> central_router \<Rightarrow> rx_outcome option \<times> central_router" where
  "ogm_gate C P packet_type frame tx_buf r =
     (case ce_auth r of
        None \<Rightarrow> (None, r)
      | Some auth \<Rightarrow>
          if packet_type \<noteq> Some Ogm then (None, r)
          else case verify_ogm C (cp_auth P) (lf_payload frame) auth of
                 (Verified, auth) \<Rightarrow> (None, r\<lparr>ce_auth := Some auth\<rparr>)
               | (Rejected, auth) \<Rightarrow> (Some outcome_empty, r\<lparr>ce_auth := Some auth\<rparr>)
               | (NeedCert orig fp, auth) \<Rightarrow>
                   (case build_cert_req_frame C (cp_auth P) orig fp (lf_src frame) tx_buf auth of
                      (f, auth) \<Rightarrow> (Some (forward_only f), r\<lparr>ce_auth := Some auth\<rparr>)))"

definition keepalive_gate ::
    "crypto \<Rightarrow> router_profile \<Rightarrow> batman_packet_type option \<Rightarrow> link_frame \<Rightarrow> central_router \<Rightarrow> rx_outcome option \<times> central_router" where
  "keepalive_gate C P packet_type frame r =
     (case ce_auth r of
        None \<Rightarrow> (None, r)
      | Some auth \<Rightarrow>
          if packet_type \<noteq> Some Keepalive then (None, r)
          else case verify_keepalive C (cp_auth P) (lf_src frame) (lf_payload frame) auth of
                 (ok, auth) \<Rightarrow> (if ok then None else Some outcome_empty, r\<lparr>ce_auth := Some auth\<rparr>))"

definition proof_gate ::
    "crypto \<Rightarrow> router_profile \<Rightarrow> duration \<Rightarrow> nat \<Rightarrow> batman_packet_type option \<Rightarrow> link_frame \<Rightarrow> nat \<Rightarrow> central_router
       \<Rightarrow> rx_outcome option \<times> central_router" where
  "proof_gate C P now iface packet_type frame tx_len r =
     (if packet_type \<notin> {Some NextHopChallenge, Some NextHopResponse} then (None, r)
      else if lf_dst frame \<noteq> self_ident (ce_batman r) then (Some outcome_empty, r)
      else if packet_type = Some NextHopChallenge
      then (Some \<lparr>ro_forward = Option.bind (ce_auth r) (answer_challenge_frame C (lf_src frame) (inner_body (lf_payload frame)) tx_len),
              ro_deliver_local = None, ro_pin_egress_iface = Some iface\<rparr>, r)
      else case ce_auth r of
             None \<Rightarrow> (Some outcome_empty, r)
           | Some auth \<Rightarrow>
               (case verify_challenge_response C (cp_auth P) (lf_src frame) (inner_body (lf_payload frame)) auth of
                  (good, auth) \<Rightarrow>
                    let r = r\<lparr>ce_auth := Some auth\<rparr>
                    in (Some outcome_empty,
                        if good then r\<lparr>ce_batman := note_proven (cp_engine P) now (lf_src frame) iface (ce_batman r)\<rparr> else r)))"

definition hint_purge :: "router_profile \<Rightarrow> duration \<Rightarrow> central_router \<Rightarrow> central_router option" where
  "hint_purge P now r =
     (case ce_auth r of
        None \<Rightarrow> Some r
      | Some auth \<Rightarrow>
          (case take_trickle_reset_hint auth of
             (hint, auth) \<Rightarrow>
               let r = r\<lparr>ce_auth := Some auth\<rparr>
               in if hint then map_option (\<lambda>e. r\<lparr>ce_batman := e\<rparr>) (purge_revoked P now auth (ce_batman r)) else Some r))"

definition resolve_next_hop :: "duration \<Rightarrow> mac \<Rightarrow> central_router \<Rightarrow> mac option" where
  "resolve_next_hop now dest r =
     (case next_hop (ce_batman r) now dest of
        Some hop \<Rightarrow> Some hop
      | None \<Rightarrow> if is_originator (ce_batman r) dest then None else Some dest)"

text \<open>The answer to a reachability probe.\<close>

definition answer_echo :: "duration \<Rightarrow> link_frame \<Rightarrow> frame_data \<Rightarrow> central_router \<Rightarrow> rx_outcome" where
  "answer_echo now frame reply r =
     (case echo_read (lf_payload frame) of
        None \<Rightarrow> outcome_empty
      | Some (req, pad) \<Rightarrow>
          let pad = take (min (length pad) (unat MAX_PING_PAYLOAD)) pad;
              total = ECHO_SIZE + length pad
          in case resolve_next_hop now (ec_orig req) r of
               None \<Rightarrow> outcome_empty
             | Some nh \<Rightarrow>
                 if length (fd_payload reply) < total then outcome_empty
                 else forward_only (Some \<lparr>fd_dst = nh, fd_protocol = ETH_P_BATMAN,
                        fd_payload = echo_write \<lparr>ec_packet_type = packet_type_as_u8 EchoReply, ec_version = BATMAN_VERSION, ec_ttl = 50,
                          ec_dest = ec_orig req, ec_orig = self_ident (ce_batman r), ec_seqno = ec_seqno req,
                          ec_req_hops = ec_hops req, ec_hops = 0\<rparr> @ pad\<rparr>))"

definition deliver_local ::
    "crypto \<Rightarrow> router_profile \<Rightarrow> duration \<Rightarrow> batman_packet_type option \<Rightarrow> link_frame \<Rightarrow> frame_data \<Rightarrow> central_router
       \<Rightarrow> rx_outcome \<times> central_router" where
  "deliver_local C P now packet_type frame reply r =
     (let body = inner_body (lf_payload frame)
      in case packet_type of
           Some RenewReply \<Rightarrow> (outcome_empty, r\<lparr>ce_auth := map_option (\<lambda>a. snd (ingest_renew_reply C body a)) (ce_auth r)\<rparr>)
         | Some RenewReq \<Rightarrow> (outcome_empty, r\<lparr>ce_auth := map_option (handle_renew_req C (cp_auth P) body) (ce_auth r)\<rparr>)
         | Some CertReply \<Rightarrow> (outcome_empty, r\<lparr>ce_auth := map_option (\<lambda>a. snd (ingest_cert_reply C (cp_auth P) body a)) (ce_auth r)\<rparr>)
         | Some CertReq \<Rightarrow>
             (case ce_auth r of
                None \<Rightarrow> (outcome_empty, r)
              | Some auth \<Rightarrow>
                  (case answer_cert_request C (cp_auth P) (next_hop_unproven_ok (ce_batman r) now) body reply auth of
                     (Some (nh, len), reply, auth) \<Rightarrow>
                       (forward_only (Some \<lparr>fd_dst = nh, fd_protocol = ETH_P_BATMAN, fd_payload = take len (fd_payload reply)\<rparr>),
                        r\<lparr>ce_auth := Some auth\<rparr>)
                   | (None, reply, auth) \<Rightarrow> (outcome_empty, r\<lparr>ce_auth := Some auth\<rparr>)))
         | Some EchoRequest \<Rightarrow> (answer_echo now frame reply r, r)
         | Some EchoReply \<Rightarrow> (outcome_empty, r\<lparr>ce_ping := echo_reply_received now frame (ce_ping r)\<rparr>)
         | _ \<Rightarrow> (outcome_empty\<lparr>ro_deliver_local := inner_payload (lf_payload frame)\<rparr>, r))"

text \<open>What the router makes of the engine's verdict.\<close>

definition route_outcome ::
    "crypto \<Rightarrow> router_profile \<Rightarrow> duration \<Rightarrow> nat \<Rightarrow> batman_packet_type option \<Rightarrow> link_frame \<Rightarrow> routing_action \<Rightarrow> frame_data
       \<Rightarrow> central_router \<Rightarrow> rx_outcome \<times> central_router" where
  "route_outcome C P now iface packet_type frame action reply r =
     (case action of
        Consumed \<Rightarrow>
          if fd_protocol reply \<noteq> 0
          then (forward_only (consumed_forward packet_type (lx_tx_data (link_features_of iface r)) frame reply), r)
          else (case (if packet_type = Some Ogm then ogm_read (lf_payload frame) else None, ce_auth r) of
                  (Some (ogm, _), Some auth) \<Rightarrow>
                    (case flush_pending_cert_reply (next_hop_unproven_ok (ce_batman r) now) (ogm_orig ogm) reply auth of
                       (out, reply, auth) \<Rightarrow>
                         (forward_only (map_option (\<lambda>(nh, len). \<lparr>fd_dst = nh, fd_protocol = ETH_P_BATMAN,
                            fd_payload = take len (fd_payload reply)\<rparr>) out), r\<lparr>ce_auth := Some auth\<rparr>))
                | _ \<Rightarrow> (outcome_empty, r))
      | ForwardTo nh \<Rightarrow>
          (forward_only (Some \<lparr>fd_dst = nh, fd_protocol = ETH_P_BATMAN,
             fd_payload = take (min (length (lf_payload frame)) (length (fd_payload reply))) (lf_payload frame)\<rparr>), r)
      | DeliverLocal \<Rightarrow> deliver_local C P now packet_type frame reply r
      | DeliverLocalAndForward _ \<Rightarrow>
          (\<lparr>ro_forward = (if fd_protocol reply \<noteq> 0
              then Some \<lparr>fd_dst = fd_dst reply, fd_protocol = fd_protocol reply,
                     fd_payload = take (min (length (lf_payload frame)) (length (fd_payload reply))) (fd_payload reply)\<rparr> else None),
            ro_deliver_local = inner_payload (lf_payload frame), ro_pin_egress_iface = None\<rparr>, r))"

definition gated :: "('r \<Rightarrow> rx_outcome option \<times> 'r) \<Rightarrow> 's \<Rightarrow> ('r \<Rightarrow> (rx_outcome \<times> 's \<times> 'r) option) \<Rightarrow> 'r \<Rightarrow> (rx_outcome \<times> 's \<times> 'r) option" where
  "gated gate s k r = (case gate r of (Some out, r) \<Rightarrow> Some (out, s, r) | (None, r) \<Rightarrow> k r)"

text \<open>The last gate, and the frame that has passed them all.\<close>

definition self_revocation_gate :: "router_profile \<Rightarrow> central_router \<Rightarrow> rx_outcome option \<times> central_router" where
  "self_revocation_gate P r = (case apply_self_revocation P r of (fired, r) \<Rightarrow> (if fired then Some outcome_empty else None, r))"

definition route_frame ::
    "crypto \<Rightarrow> router_profile \<Rightarrow> 's frame_sink \<Rightarrow> duration \<Rightarrow> nat \<Rightarrow> batman_packet_type option \<Rightarrow> link_frame \<Rightarrow> u8 option \<Rightarrow> bytes \<Rightarrow> 's
       \<Rightarrow> central_router \<Rightarrow> (rx_outcome \<times> 's \<times> central_router) option" where
  "route_frame C P push now iface packet_type frame local_quality tx_buf s r =
     (case hint_purge P now r of
        None \<Rightarrow> None
      | Some r \<Rightarrow>
          (case handle_rx (cp_engine P) push now frame local_quality (scratchpad tx_buf) s (ce_batman r) of
             None \<Rightarrow> None
           | Some (action, reply, s, e) \<Rightarrow>
               (case route_outcome C P now iface packet_type frame action reply (r\<lparr>ce_batman := e\<rparr>) of (out, r) \<Rightarrow> Some (out, s, r))))"

definition receive_batman ::
    "crypto \<Rightarrow> router_profile \<Rightarrow> 's frame_sink \<Rightarrow> duration \<Rightarrow> nat \<Rightarrow> batman_packet_type option \<Rightarrow> link_frame \<Rightarrow> u8 option \<Rightarrow> bytes \<Rightarrow> 's
       \<Rightarrow> central_router \<Rightarrow> (rx_outcome \<times> 's \<times> central_router) option" where
  "receive_batman C P push now iface packet_type frame local_quality tx_buf s r =
     (if overheard packet_type (lf_dst frame) (self_ident (ce_batman r)) then Some (outcome_empty, s, r)
      else if rx_gated packet_type (link_features_of iface r) then Some (outcome_empty, s, r)
      else
        gated (ogm_gate C P packet_type frame tx_buf) s
         (gated (keepalive_gate C P packet_type frame) s
           (gated (proof_gate C P now iface packet_type frame (length tx_buf)) s
             (gated (self_revocation_gate P) s (route_frame C P push now iface packet_type frame local_quality tx_buf s)))) r)"

definition handle_frame_with_metrics ::
    "crypto \<Rightarrow> router_profile \<Rightarrow> 's frame_sink \<Rightarrow> duration \<Rightarrow> nat \<Rightarrow> link_frame \<Rightarrow> link_metrics \<Rightarrow> bytes \<Rightarrow> 's
       \<Rightarrow> central_router \<Rightarrow> (rx_outcome \<times> 's \<times> central_router) option" where
  "handle_frame_with_metrics C P push now iface frame metrics tx_buf s r =
     (if auth_locked r then Some (outcome_empty, s, r)
      else
        let tx_buf = replicate (length tx_buf) 0;
            packet_type = frame_packet_type frame;
            shunned = (case ce_auth r of Some auth \<Rightarrow> is_shunned (lf_src frame) auth | None \<Rightarrow> False);
            r = (if shunned then r
                 else r\<lparr>ce_link_quality := lq_update (cp_link_quality P) (lf_src frame) iface (normalize_quality metrics) (ce_link_quality r)\<rparr>);
            r = record_rx P iface r;
            local_quality = quality_for (lf_src frame) iface (ce_link_quality r)
        in if shunned \<and> packet_type \<notin> {Some Ogm, Some CertReq, Some CertReply} then Some (outcome_empty, s, r)
           else case add_record (cp_ident P) iface (lf_dst frame) (ce_ident_table r) of
                  None \<Rightarrow> None
                | Some t \<Rightarrow>
                    let r = r\<lparr>ce_ident_table := t\<rparr>
                    in if lf_protocol frame = ETH_P_BATMAN
                       then receive_batman C P push now iface packet_type frame local_quality tx_buf s r
                       else Some (outcome_empty, s, r))"

definition handle_frame ::
    "crypto \<Rightarrow> router_profile \<Rightarrow> 's frame_sink \<Rightarrow> duration \<Rightarrow> nat \<Rightarrow> link_frame \<Rightarrow> bytes \<Rightarrow> 's
       \<Rightarrow> central_router \<Rightarrow> (rx_outcome \<times> 's \<times> central_router) option" where
  "handle_frame C P push now iface frame tx_buf s r =
     handle_frame_with_metrics C P push now iface frame link_metrics_default tx_buf s r"

section \<open>Emission\<close>

definition note_oversize_drop :: "central_router \<Rightarrow> central_router" where
  "note_oversize_drop r = r\<lparr>ce_oversize_drops := saturating_add (ce_oversize_drops r) 1\<rparr>"

definition record_mcast_group_drop :: "nat \<Rightarrow> central_router \<Rightarrow> central_router" where
  "record_mcast_group_drop dests r = r\<lparr>ce_mcast_group_drops := saturating_add (ce_mcast_group_drops r) (word_of_nat dests)\<rparr>"

definition augment_own :: "crypto \<Rightarrow> bytes \<Rightarrow> nat \<Rightarrow> central_router \<Rightarrow> ((nat \<times> bytes) option \<times> central_router) option" where
  "augment_own C tx_buf len r =
     (case ce_auth r of
        None \<Rightarrow> Some (Some (len, tx_buf), r)
      | Some auth \<Rightarrow>
          map_option (\<lambda>(out, auth). (out, r\<lparr>ce_auth := Some auth\<rparr>))
            (if ce_lazy_cert_distribution r then augment_ogm_lazy C tx_buf len auth else augment_ogm C tx_buf len auth))"

definition router_poll :: "crypto \<Rightarrow> router_profile \<Rightarrow> duration \<Rightarrow> bytes \<Rightarrow> central_router \<Rightarrow> (frame_data option \<times> central_router) option" where
  "router_poll C P now tx_buf r =
     (let r = snd (apply_self_revocation P r)
      in if auth_locked r then Some (None, r)
         else case produce_periodic_broadcast now tx_buf (ce_batman r) of
                None \<Rightarrow> None
              | Some (out, tx_buf, e) \<Rightarrow>
                  let r = r\<lparr>ce_batman := e\<rparr>;
                      r = r\<lparr>ce_link_quality := retain_live (is_originator e) (ce_link_quality r)\<rparr>
                  in case augment_own C tx_buf (length out) r of
                       None \<Rightarrow> None
                     | Some (None, r) \<Rightarrow> Some (None, r)
                     | Some (Some (final_len, tx_buf), r) \<Rightarrow>
                         Some (Some \<lparr>fd_dst = BROADCAST, fd_protocol = ETH_P_BATMAN, fd_payload = take final_len tx_buf\<rparr>, r))"

definition poll_keepalive :: "crypto \<Rightarrow> bytes \<Rightarrow> central_router \<Rightarrow> frame_data option \<times> central_router" where
  "poll_keepalive C tx_buf r =
     (if auth_locked r then (None, r)
      else case produce_keepalive tx_buf of
             (None, _) \<Rightarrow> (None, r)
           | (Some out, tx_buf) \<Rightarrow>
               let frame = (\<lambda>p. \<lparr>fd_dst = BROADCAST, fd_protocol = ETH_P_BATMAN, fd_payload = p\<rparr>)
               in case ce_auth r of
                    None \<Rightarrow> (Some (frame out), r)
                  | Some auth \<Rightarrow>
                      (case augment_keepalive C tx_buf (length out) auth of
                         (None, auth) \<Rightarrow> (None, r\<lparr>ce_auth := Some auth\<rparr>)
                       | (Some (final_len, tx_buf), auth) \<Rightarrow> (Some (frame (take final_len tx_buf)), r\<lparr>ce_auth := Some auth\<rparr>)))"

definition poll_challenge ::
    "crypto \<Rightarrow> router_profile \<Rightarrow> duration \<Rightarrow> bytes \<Rightarrow> central_router \<Rightarrow> ((mac \<times> frame_data) option \<times> central_router) option" where
  "poll_challenge C P now tx_buf r =
     (if auth_locked r then Some (None, r)
      else case challenge_candidates (cp_engine P) (ce_batman r) now of
             [] \<Rightarrow> Some (None, r)
           | target # _ \<Rightarrow>
               let r = r\<lparr>ce_batman := note_challenged (cp_engine P) now target (ce_batman r)\<rparr>
               in case ce_auth r of
                    None \<Rightarrow> Some (None, r)
                  | Some auth \<Rightarrow>
                      map_option (\<lambda>(f, auth). (map_option (\<lambda>f. (target, f)) f, r\<lparr>ce_auth := Some auth\<rparr>))
                        (build_challenge_frame C target (length tx_buf) auth))"

definition router_next_challenge_after :: "router_profile \<Rightarrow> duration \<Rightarrow> central_router \<Rightarrow> duration option" where
  "router_next_challenge_after P now r =
     (if auth_locked r then None else next_challenge_after (cp_engine P) (ce_batman r) now)"

definition router_poll_renewal ::
    "crypto \<Rightarrow> duration \<Rightarrow> bytes \<Rightarrow> central_router \<Rightarrow> (frame_data option \<times> central_router) option" where
  "router_poll_renewal C now tx_buf r =
     (case ce_auth r of
        None \<Rightarrow> Some (None, r)
      | Some auth \<Rightarrow>
          map_option (\<lambda>(f, auth). (f, r\<lparr>ce_auth := Some auth\<rparr>)) (poll_renewal C now (next_hop (ce_batman r) now) tx_buf auth))"

definition router_send_renew_reply :: "duration \<Rightarrow> mac \<Rightarrow> membership_cert \<Rightarrow> bytes \<Rightarrow> central_router \<Rightarrow> frame_data option" where
  "router_send_renew_reply now requester cert tx_buf r =
     (case ce_auth r of
        None \<Rightarrow> None
      | Some _ \<Rightarrow> send_renew_reply (next_hop (ce_batman r) now) requester cert (length tx_buf))"

definition router_take_renewal_request :: "central_router \<Rightarrow> verified_renewal option \<times> central_router" where
  "router_take_renewal_request r =
     (case ce_auth r of
        None \<Rightarrow> (None, r)
      | Some auth \<Rightarrow> (case take_renewal_request auth of (v, auth) \<Rightarrow> (v, r\<lparr>ce_auth := Some auth\<rparr>)))"

definition router_take_renewed_cert :: "central_router \<Rightarrow> membership_cert option \<times> central_router" where
  "router_take_renewed_cert r =
     (case ce_auth r of
        None \<Rightarrow> (None, r)
      | Some auth \<Rightarrow> (case take_renewed_cert auth of (c, auth) \<Rightarrow> (c, r\<lparr>ce_auth := Some auth\<rparr>)))"

text \<open>\<^verbatim>\<open>poll_ping\<close> with the router's own lock, routes and trailer reserve.\<close>

definition router_poll_ping :: "duration \<Rightarrow> bytes \<Rightarrow> central_router \<Rightarrow> (frame_data option \<times> central_router) option" where
  "router_poll_ping now tx_buf r =
     map_option (\<lambda>(f, _, pr). (f, r\<lparr>ce_ping := pr\<rparr>))
       (poll_ping (auth_locked r) (\<lambda>dest. resolve_next_hop now dest r) (if ce_auth r \<noteq> None then DIRECTED_TRAILER_LEN else 0)
          (self_ident (ce_batman r)) now tx_buf (ce_ping r))"

section \<open>Local sends\<close>

definition handle_local ::
    "duration \<Rightarrow> mac \<Rightarrow> bytes \<Rightarrow> bytes \<Rightarrow> central_router \<Rightarrow> (local_send_error + frame_data) \<times> central_router" where
  "handle_local now dest payload tx_buf r =
     (if auth_locked r then (Inl AuthLocked, r)
      else if dest = BROADCAST
      then (case next_broadcast_seqno (ce_batman r) of
              (seqno, e) \<Rightarrow>
                let r = r\<lparr>ce_batman := e\<rparr>;
                    header = \<lparr>bc_packet_type = packet_type_as_u8 Bcast, bc_version = BATMAN_VERSION, bc_ttl = 50,
                              bc_seqno = seqno, bc_orig = self_ident e\<rparr>
                in if length tx_buf < BCAST_SIZE + length payload then (Inl BufferTooSmall, note_oversize_drop r)
                   else (Inr \<lparr>fd_dst = BROADCAST, fd_protocol = ETH_P_BATMAN, fd_payload = bcast_write header @ payload\<rparr>, r))
      else case resolve_next_hop now dest r of
             None \<Rightarrow> (Inl RouteUnproven, r)
           | Some nh \<Rightarrow>
               let header = \<lparr>rp_packet_type = packet_type_as_u8 Unicast, rp_version = BATMAN_VERSION, rp_ttl = 50, rp_dest = dest\<rparr>
               in if length tx_buf < ROUTED_SIZE + length payload then (Inl BufferTooSmall, note_oversize_drop r)
                  else (Inr \<lparr>fd_dst = nh, fd_protocol = ETH_P_BATMAN, fd_payload = routed_write header @ payload\<rparr>, r))"

definition plan_mcast :: "mac \<Rightarrow> central_router \<Rightarrow> mcast_plan" where
  "plan_mcast grp r =
     (let count = length (mcast_listeners (ce_batman r) grp) in if 1 \<le> count \<and> count \<le> MCAST_FANOUT then PlanUnicast else PlanFlood)"

definition router_set_local_groups :: "router_profile \<Rightarrow> duration \<Rightarrow> mac list \<Rightarrow> central_router \<Rightarrow> central_router option" where
  "router_set_local_groups P now groups r =
     map_option (\<lambda>e. r\<lparr>ce_batman := e\<rparr>) (set_local_mcast_groups (cp_engine P) now groups (ce_batman r))"

text \<open>The listeners routed so far and the count of those that could not be.\<close>

fun local_route_loop ::
    "nat \<Rightarrow> mac \<Rightarrow> (mac \<Rightarrow> mac option) \<Rightarrow> mac list \<Rightarrow> (mac \<times> mac) list \<Rightarrow> u32 \<Rightarrow> (mac \<times> mac) list \<times> u32" where
  "local_route_loop n own hop [] routed lost = (routed, lost)"
| "local_route_loop n own hop (dest # dests) routed lost =
     (if dest = own then local_route_loop n own hop dests routed lost
      else case hop dest of
             None \<Rightarrow> local_route_loop n own hop dests routed (saturating_add lost 1)
           | Some nh \<Rightarrow>
               (case vec_push MAX_MCAST_DESTS (nh, dest) routed of
                  Some routed \<Rightarrow> local_route_loop n own hop dests routed lost
                | None \<Rightarrow> (routed, saturating_add lost (word_of_nat (n - length routed)))))"

fun local_emit_loop ::
    "'s frame_sink \<Rightarrow> bytes \<Rightarrow> (mac \<times> mac) list \<Rightarrow> (mac \<times> mac) list \<Rightarrow> mac list \<Rightarrow> bytes \<Rightarrow> 's \<Rightarrow> nat \<Rightarrow> central_router
       \<Rightarrow> (local_send_error + nat) \<times> 's \<times> central_router" where
  "local_emit_loop push payload routed [] done_hops tx_buf s emitted r = (Inr emitted, s, r)"
| "local_emit_loop push payload routed ((nh, _) # todo) done_hops tx_buf s emitted r =
     (if nh \<in> set done_hops then local_emit_loop push payload routed todo done_hops tx_buf s emitted r
      else
        let done_hops = (case vec_push MAX_MCAST_DESTS nh done_hops of Some x \<Rightarrow> x | None \<Rightarrow> done_hops);
            grp = mcast_group routed nh
        in case write_mcast 50 AuthTag grp payload tx_buf of
             (tx_buf, None) \<Rightarrow> (Inl BufferTooSmall, s, note_oversize_drop r)
           | (tx_buf, Some len) \<Rightarrow>
               (case push s \<lparr>fd_dst = nh, fd_protocol = ETH_P_BATMAN, fd_payload = take len tx_buf\<rparr> of
                  (True, s) \<Rightarrow> local_emit_loop push payload routed todo done_hops tx_buf s (emitted + 1) r
                | (False, s) \<Rightarrow> local_emit_loop push payload routed todo done_hops tx_buf s emitted
                    (r\<lparr>ce_mcast_group_drops := saturating_add (ce_mcast_group_drops r) (word_of_nat (length grp))\<rparr>)))"

definition handle_local_mcast ::
    "'s frame_sink \<Rightarrow> duration \<Rightarrow> mac list \<Rightarrow> bytes \<Rightarrow> bytes \<Rightarrow> 's \<Rightarrow> central_router
       \<Rightarrow> (local_send_error + unit) \<times> 's \<times> central_router" where
  "handle_local_mcast push now dests payload tx_buf s r =
     (if auth_locked r then (Inl AuthLocked, s, r)
      else if dests = [] then (Inl RouteUnproven, s, r)
      else case local_route_loop (length dests) (self_ident (ce_batman r)) (\<lambda>d. resolve_next_hop now d r) dests []
                  (ce_mcast_unroutable_local r) of
             (routed, lost) \<Rightarrow>
               let r = r\<lparr>ce_mcast_unroutable_local := lost\<rparr>
               in if routed = [] then (Inl RouteUnproven, s, r)
                  else case local_emit_loop push payload routed routed [] tx_buf s 0 r of
                         (Inl e, s, r) \<Rightarrow> (Inl e, s, r)
                       | (Inr emitted, s, r) \<Rightarrow> (if emitted = 0 then Inl RouteUnproven else Inr (), s, r))"

section \<open>Egress and views\<close>

definition egress_interface_for :: "duration \<Rightarrow> mac \<Rightarrow> central_router \<Rightarrow> (egress_interface option \<times> central_router) option" where
  "egress_interface_for now dest r =
     (if dest = BROADCAST then Some (Some AllInterfaces, r)
      else let nh = (case next_hop (ce_batman r) now dest of Some h \<Rightarrow> h | None \<Rightarrow> dest)
           in case proven_interface (ce_batman r) now nh of
                Some iface \<Rightarrow> Some (Some (Interface iface), r)
              | None \<Rightarrow>
                  (case best_interface_for nh (ce_link_quality r) of
                     Some iface \<Rightarrow> Some (Some (Interface iface), r)
                   | None \<Rightarrow>
                       map_option (\<lambda>(i, t). (map_option Interface i, r\<lparr>ce_ident_table := t\<rparr>))
                         (get_egress_interface dest (ce_ident_table r))))"

definition resolve_route :: "duration \<Rightarrow> mac \<Rightarrow> central_router \<Rightarrow> (mac \<times> egress_interface option) option" where
  "resolve_route now dest r =
     (if dest = BROADCAST then Some (BROADCAST, Some AllInterfaces)
      else case resolve_next_hop now dest r of
             None \<Rightarrow> Some (dest, None)
           | Some hop \<Rightarrow>
               (case best_interface_for hop (ce_link_quality r) of
                  Some iface \<Rightarrow> Some (hop, Some (Interface iface))
                | None \<Rightarrow> map_option (\<lambda>i. (hop, map_option Interface i)) (peek_egress_interface dest (ce_ident_table r))))"

definition neighbor_count :: "central_router \<Rightarrow> nat" where
  "neighbor_count r = length (filter (\<lambda>(_, rec). or_best_next_hop rec = Some (or_neighbor_ident rec)) (originator_table (ce_batman r)))"

record keepalive_entry =
  ke_neighbor :: mac
  ke_ms_since_last_heard :: u64
  ke_interval_estimate_ms :: u64
  ke_missed :: bool

definition keepalive_table :: "duration \<Rightarrow> central_router \<Rightarrow> keepalive_entry list" where
  "keepalive_table now r =
     map (\<lambda>(neighbor, stats). \<lparr>ke_neighbor = neighbor,
            ke_ms_since_last_heard = ucast (elapsed_since (from_duration now) (ka_last_heard stats)),
            ke_interval_estimate_ms = ucast (ka_interval_estimate_ms stats),
            ke_missed = keepalive_missed (ce_batman r) now neighbor\<rparr>)
       (keepalive (ce_batman r))"

end
