(* ===== verification/Driver_Core.thy ===== *)
theory Driver_Core
  imports Central_Router
begin

text \<open>
  The planning logic every driver shell shares (\<^verbatim>\<open>libs/wayfinder-driver-core/src/lib.rs\<close>): which proof a
  frame must carry, stripping and adding that proof around the router, merging multicast copies onto a
  shared medium, the periodic polls, and the choice of the interfaces a frame leaves on. The shell's staging
  is the sink \<open>mesh_sink\<close> over a state of its own. A scratchpad is written before it is read, so each call
  gets the shell's buffer as it is. The collector holds at most \<open>MAX_MCAST_DESTS\<close> groups, so the bounded
  vectors that are indexed by groups never refuse a push. Alarms and the gauge of untaggable frames are left out.
\<close>

section \<open>Planned frames\<close>

datatype egress = EgressAuto | EgressIface nat

record outgoing_frame =
  og_dst :: mac
  og_protocol :: u16
  og_payload :: bytes
  og_egress :: egress

record 's mesh_sink =
  ms_emit :: "'s \<Rightarrow> outgoing_frame \<Rightarrow> bool \<times> 's"
  ms_deliver_local :: "'s \<Rightarrow> bytes \<Rightarrow> 's"

definition outgoing :: "frame_data \<Rightarrow> egress \<Rightarrow> outgoing_frame" where
  "outgoing f eg = \<lparr>og_dst = fd_dst f, og_protocol = fd_protocol f, og_payload = fd_payload f, og_egress = eg\<rparr>"

section \<open>Which proof a frame carries\<close>

datatype required_proof = ProofNone | ProofTag | ProofNonceTag | ProofFanout | ProofDrop

fun proof_trailer_len :: "required_proof \<Rightarrow> nat" where
  "proof_trailer_len ProofNone = 0"
| "proof_trailer_len ProofDrop = 0"
| "proof_trailer_len ProofTag = DIRECTED_TRAILER_LEN"
| "proof_trailer_len ProofNonceTag = DIRECTED_TRAILER_LEN"
| "proof_trailer_len ProofFanout = FANOUT_TRAILER_LEN"

definition payload_type :: "bytes \<Rightarrow> batman_packet_type option" where
  "payload_type payload = (case payload of [] \<Rightarrow> None | t # _ \<Rightarrow> packet_type_from_u8 t)"

definition required_proof_of :: "bytes \<Rightarrow> required_proof" where
  "required_proof_of payload =
     (case payload_type payload of
        Some Ogm \<Rightarrow> ProofNone
      | Some Bcast \<Rightarrow> ProofNone
      | Some Keepalive \<Rightarrow> ProofNone
      | Some CertReq \<Rightarrow> ProofNone
      | Some CertReply \<Rightarrow> ProofNone
      | Some Mcast \<Rightarrow>
          (if length payload \<le> 4 then ProofDrop
           else case auth_form_from_u8 (payload ! 4) of
                  Some AuthTag \<Rightarrow> ProofTag
                | Some AuthSignature \<Rightarrow> ProofFanout
                | None \<Rightarrow> ProofDrop)
      | Some NextHopResponse \<Rightarrow> ProofNonceTag
      | _ \<Rightarrow> ProofTag)"

text \<open>The verifier the proof names, on the body and the trailer.\<close>

definition verify_proof :: "crypto \<Rightarrow> auth_profile \<Rightarrow> required_proof \<Rightarrow> mac \<Rightarrow> bytes \<Rightarrow> bytes \<Rightarrow> ogm_auth \<Rightarrow> bool \<times> ogm_auth" where
  "verify_proof C P proof src inner trailer auth =
     (case proof of
        ProofFanout \<Rightarrow> verify_fanout C P src inner trailer auth
      | ProofNonceTag \<Rightarrow> verify_directed_nonce_fresh C P src inner trailer auth
      | ProofTag \<Rightarrow> verify_directed C P src inner trailer auth
      | _ \<Rightarrow> (False, auth))"

definition strip_directed :: "crypto \<Rightarrow> router_profile \<Rightarrow> link_frame \<Rightarrow> central_router \<Rightarrow> link_frame option \<times> central_router" where
  "strip_directed C P frame r =
     (case ce_auth r of
        None \<Rightarrow> (Some frame, r)
      | Some auth \<Rightarrow>
          if lf_protocol frame \<noteq> ETH_P_BATMAN then (Some frame, r)
          else let proof = required_proof_of (lf_payload frame);
                   trailer_len = proof_trailer_len proof
               in if proof = ProofNone then (Some frame, r)
                  else if proof = ProofDrop then (None, r)
                  else if proof \<in> {ProofTag, ProofNonceTag} \<and> \<not> is_multicast (lf_dst frame) \<and> lf_dst frame \<noteq> self_ident (ce_batman r)
                  then (None, r)
                  else if length (lf_payload frame) < trailer_len then (None, r)
                  else let body_len = length (lf_payload frame) - trailer_len;
                           inner = take body_len (lf_payload frame);
                           trailer = drop body_len (lf_payload frame)
                       in case verify_proof C (cp_auth P) proof (lf_src frame) inner trailer auth of
                            (ok, auth) \<Rightarrow> (if ok then Some (frame\<lparr>lf_payload := inner\<rparr>) else None, r\<lparr>ce_auth := Some auth\<rparr>))"

text \<open>The prover the proof names, writing into the trailer.\<close>

definition prove_frame :: "crypto \<Rightarrow> required_proof \<Rightarrow> mac \<Rightarrow> bytes \<Rightarrow> bytes \<Rightarrow> ogm_auth \<Rightarrow> (nat \<times> bytes) option \<times> ogm_auth" where
  "prove_frame C proof dst frame trailer auth =
     (case proof of
        ProofFanout \<Rightarrow> sign_fanout C frame trailer auth
      | ProofTag \<Rightarrow> tag_directed C dst frame trailer auth
      | ProofNonceTag \<Rightarrow> tag_directed C dst frame trailer auth
      | _ \<Rightarrow> (None, auth))"

text \<open>
  \<open>Some (Some len, \<dots>)\<close> is the number of bytes to send, \<open>Some (None, \<dots>)\<close> an untaggable frame, and \<open>None\<close> the
  panic of slicing a body that is longer than the buffer.
\<close>

definition tag_directed_into ::
    "crypto \<Rightarrow> mac \<Rightarrow> u16 \<Rightarrow> nat \<Rightarrow> bytes \<Rightarrow> central_router \<Rightarrow> (nat option \<times> bytes \<times> central_router) option" where
  "tag_directed_into C dst protocol body_len buf r =
     (if protocol = ETH_P_BATMAN \<and> length buf < body_len then None
      else let proof = (if protocol = ETH_P_BATMAN then required_proof_of (take body_len buf) else ProofNone)
           in case ce_auth r of
                None \<Rightarrow> Some (Some body_len, buf, r)
              | Some auth \<Rightarrow>
                  if proof = ProofNone then Some (Some body_len, buf, r)
                  else if proof = ProofDrop then Some (None, buf, r)
                  else let trailer_len = proof_trailer_len proof
                       in if length buf < body_len + trailer_len then Some (None, buf, r)
                          else let frame = take body_len buf; trailer = take trailer_len (drop body_len buf)
                               in case prove_frame C proof dst frame trailer auth of
                                    (Some (_, trailer), auth) \<Rightarrow>
                                      Some (Some (body_len + trailer_len), frame @ trailer @ drop (body_len + trailer_len) buf, r\<lparr>ce_auth := Some auth\<rparr>)
                                  | (None, auth) \<Rightarrow> Some (None, buf, r\<lparr>ce_auth := Some auth\<rparr>))"

section \<open>Multicast groups\<close>

record 's mcast_collector =
  mk_sink :: 's
  mk_groups :: "(mac \<times> mac list) list"
  mk_ttl :: u8
  mk_overflowed :: bool

definition collector_new :: "'s \<Rightarrow> 's mcast_collector" where
  "collector_new s = \<lparr>mk_sink = s, mk_groups = [], mk_ttl = 0, mk_overflowed = False\<rparr>"

definition collector_push :: "'s mesh_sink \<Rightarrow> 's mcast_collector frame_sink" where
  "collector_push S c f =
     (case mcast_parse (fd_payload f) of
        None \<Rightarrow> (case ms_emit S (mk_sink c) (outgoing f EgressAuto) of (ok, s) \<Rightarrow> (ok, c\<lparr>mk_sink := s\<rparr>))
      | Some view \<Rightarrow>
          let c = c\<lparr>mk_ttl := mc_ttl (mv_header view)\<rparr>
          in if MAX_MCAST_DESTS < length (mv_dests view) then (False, c\<lparr>mk_overflowed := True\<rparr>)
             else case vec_push MAX_MCAST_DESTS (fd_dst f, mv_dests view) (mk_groups c) of
                    None \<Rightarrow> (False, c\<lparr>mk_overflowed := True\<rparr>)
                  | Some groups \<Rightarrow> (True, c\<lparr>mk_groups := groups\<rparr>))"

record fan_out =
  fo_threshold :: u8
  fo_max_frame_len :: nat

definition LINK_FRAME_HEADER_LEN :: nat where "LINK_FRAME_HEADER_LEN = 2 * 6 + 2"

definition merged_frame_fits :: "nat \<Rightarrow> bool \<Rightarrow> nat \<Rightarrow> bool" where
  "merged_frame_fits payload_len authenticated max_frame_len \<longleftrightarrow>
     LINK_FRAME_HEADER_LEN + payload_len + (if authenticated then FANOUT_TRAILER_LEN else 0) \<le> max_frame_len"

text \<open>The interface that reaches each group's next hop; anything but one interface cannot be merged.\<close>

fun resolve_ifaces :: "duration \<Rightarrow> (mac \<times> mac list) list \<Rightarrow> central_router \<Rightarrow> (nat option list \<times> central_router) option" where
  "resolve_ifaces now [] r = Some ([], r)"
| "resolve_ifaces now ((nh, _) # groups) r =
     Option.bind (egress_interface_for now nh r) (\<lambda>(eg, r).
       map_option (\<lambda>(xs, r). ((case eg of Some (Interface i) \<Rightarrow> Some i | _ \<Rightarrow> None) # xs, r)) (resolve_ifaces now groups r))"

definition terminal_group :: "mac \<times> mac list \<Rightarrow> bool" where
  "terminal_group g \<longleftrightarrow> snd g = [fst g]"

text \<open>
  The groups that a merge started at group \<open>i\<close> covers, with the interface they share and what it declares:
  \<open>None\<close> where the loop goes on without merging.
\<close>

definition collapse_peers :: "(mac \<times> mac list) list \<Rightarrow> nat option list \<Rightarrow> nat list \<Rightarrow> nat \<Rightarrow> nat list" where
  "collapse_peers groups iface_of merged idx =
     filter (\<lambda>j. iface_of ! j = Some idx \<and> terminal_group (groups ! j) \<and> j \<notin> set merged) [0..<length iface_of]"

definition collapse_candidate ::
    "(mac \<times> mac list) list \<Rightarrow> nat option list \<Rightarrow> fan_out option list \<Rightarrow> central_router \<Rightarrow> nat list \<Rightarrow> nat \<Rightarrow> (nat \<times> nat \<times> nat list) option" where
  "collapse_candidate groups iface_of fans r merged i =
     (if i \<in> set merged then None
      else case iface_of ! i of
             None \<Rightarrow> None
           | Some idx \<Rightarrow>
               (case (if idx < length fans then fans ! idx else None) of
                  None \<Rightarrow> None
                | Some fan \<Rightarrow>
                    if \<not> link_may_tx idx (Some Mcast) r then None
                    else let peers = collapse_peers groups iface_of merged idx
                         in if length peers < unat (fo_threshold fan) then None
                            else Some (idx, fo_max_frame_len fan, peers)))"

fun collapse_loop ::
    "'s mesh_sink \<Rightarrow> (mac \<times> mac list) list \<Rightarrow> nat option list \<Rightarrow> u8 \<Rightarrow> bytes \<Rightarrow> fan_out option list \<Rightarrow> central_router
       \<Rightarrow> nat list \<Rightarrow> nat list \<Rightarrow> bytes \<Rightarrow> 's \<Rightarrow> nat list \<times> bytes \<times> 's" where
  "collapse_loop S groups iface_of ttl inner fans r [] merged tx s = (merged, tx, s)"
| "collapse_loop S groups iface_of ttl inner fans r (i # is) merged tx s =
     (case collapse_candidate groups iface_of fans r merged i of
        None \<Rightarrow> collapse_loop S groups iface_of ttl inner fans r is merged tx s
      | Some (idx, max_frame_len, peers) \<Rightarrow>
          let union = concat (map (\<lambda>j. snd (groups ! j)) peers)
          in if MAX_MCAST_DESTS < length union then collapse_loop S groups iface_of ttl inner fans r is merged tx s
             else case write_mcast ttl AuthSignature union inner tx of
                    (tx, None) \<Rightarrow> collapse_loop S groups iface_of ttl inner fans r is merged tx s
                  | (tx, Some len) \<Rightarrow>
                      if \<not> merged_frame_fits len (ce_auth r \<noteq> None) max_frame_len
                      then collapse_loop S groups iface_of ttl inner fans r is merged tx s
                      else case ms_emit S s \<lparr>og_dst = BROADCAST, og_protocol = ETH_P_BATMAN, og_payload = take len tx,
                                             og_egress = EgressIface idx\<rparr> of
                             (ok, s) \<Rightarrow> collapse_loop S groups iface_of ttl inner fans r is (if ok then merged @ peers else merged) tx s)"

text \<open>What did not merge goes out as its own directed frame.\<close>

fun directed_loop ::
    "'s mesh_sink \<Rightarrow> u8 \<Rightarrow> bytes \<Rightarrow> nat list \<Rightarrow> (nat \<times> mac \<times> mac list) list \<Rightarrow> bytes \<Rightarrow> 's \<Rightarrow> central_router \<Rightarrow> 's \<times> central_router" where
  "directed_loop S ttl inner merged [] tx s r = (s, r)"
| "directed_loop S ttl inner merged ((i, nh, dests) # groups) tx s r =
     (if i \<in> set merged then directed_loop S ttl inner merged groups tx s r
      else case write_mcast ttl AuthTag dests inner tx of
             (tx, None) \<Rightarrow> directed_loop S ttl inner merged groups tx s (record_mcast_group_drop (length dests) r)
           | (tx, Some len) \<Rightarrow>
               (case ms_emit S s \<lparr>og_dst = nh, og_protocol = ETH_P_BATMAN, og_payload = take len tx, og_egress = EgressAuto\<rparr> of
                  (ok, s) \<Rightarrow> directed_loop S ttl inner merged groups tx s (if ok then r else record_mcast_group_drop (length dests) r)))"

definition flush_mcast_groups ::
    "'s mesh_sink \<Rightarrow> duration \<Rightarrow> (mac \<times> mac list) list \<Rightarrow> u8 \<Rightarrow> bytes \<Rightarrow> fan_out option list \<Rightarrow> bytes \<Rightarrow> 's \<Rightarrow> central_router
       \<Rightarrow> ('s \<times> central_router) option" where
  "flush_mcast_groups S now groups ttl inner fans tx s r =
     map_option (\<lambda>(iface_of, r).
         case collapse_loop S groups iface_of ttl inner fans r [0..<length groups] [] tx s of
           (merged, tx, s) \<Rightarrow> directed_loop S ttl inner merged (enumerate 0 groups) tx s r)
       (resolve_ifaces now groups r)"

section \<open>Receiving\<close>

definition handle_mesh_frame ::
    "crypto \<Rightarrow> router_profile \<Rightarrow> 's mesh_sink \<Rightarrow> duration \<Rightarrow> nat \<Rightarrow> link_frame \<Rightarrow> link_metrics \<Rightarrow> bytes \<Rightarrow> fan_out option list
       \<Rightarrow> 's \<Rightarrow> central_router \<Rightarrow> ('s \<times> central_router) option" where
  "handle_mesh_frame C P S now idx frame metrics tx fans s r =
     (case strip_directed C P frame r of
        (None, r) \<Rightarrow> Some (s, r)
      | (Some frame, r) \<Rightarrow>
          (case handle_frame_with_metrics C P (collector_push S) now idx frame metrics tx (collector_new s) r of
             None \<Rightarrow> None
           | Some (rx, c, r) \<Rightarrow>
               let s = mk_sink c;
                   s = (case ro_forward rx of
                          None \<Rightarrow> s
                        | Some f \<Rightarrow> snd (ms_emit S s (outgoing f (case ro_pin_egress_iface rx of Some i \<Rightarrow> EgressIface i | None \<Rightarrow> EgressAuto))));
                   s = (case ro_deliver_local rx of None \<Rightarrow> s | Some inner \<Rightarrow> ms_deliver_local S s inner)
               in if mk_groups c = [] then Some (s, r)
                  else case mcast_parse (lf_payload frame) of
                         None \<Rightarrow> Some (s, r)
                       | Some view \<Rightarrow> flush_mcast_groups S now (mk_groups c) (mk_ttl c) (mv_inner view) fans tx s r))"

definition handle_link_result ::
    "crypto \<Rightarrow> router_profile \<Rightarrow> 's mesh_sink \<Rightarrow> duration \<Rightarrow> nat \<Rightarrow> link_error + link_frame \<times> link_metrics \<Rightarrow> bytes
       \<Rightarrow> fan_out option list \<Rightarrow> 's \<Rightarrow> central_router \<Rightarrow> ('s \<times> central_router) option" where
  "handle_link_result C P S now idx result tx fans s r =
     (case result of
        Inl _ \<Rightarrow> Some (s, r)
      | Inr (frame, metrics) \<Rightarrow> handle_mesh_frame C P S now idx frame metrics tx fans s r)"

section \<open>Periodic work\<close>

definition emit_planned :: "'s mesh_sink \<Rightarrow> frame_data option \<Rightarrow> egress \<Rightarrow> 's \<Rightarrow> 's" where
  "emit_planned S f eg s = (case f of None \<Rightarrow> s | Some f \<Rightarrow> snd (ms_emit S s (outgoing f eg)))"

definition poll_one_ogm ::
    "crypto \<Rightarrow> router_profile \<Rightarrow> 's mesh_sink \<Rightarrow> duration \<Rightarrow> bytes \<Rightarrow> nat \<Rightarrow> 's \<Rightarrow> central_router \<Rightarrow> ('s \<times> central_router) option" where
  "poll_one_ogm C P S now tx idx s r =
     Option.bind (if lx_tx_ogm (link_features_of idx r) then router_poll C P now tx r else Some (None, r))
       (\<lambda>(f, r). map_option (\<lambda>e. (emit_planned S f (EgressIface idx) s, r\<lparr>ce_batman := e\<rparr>))
          (on_interface_emitted idx now (ce_batman r)))"

partial_function (option) poll_due_ogms ::
    "crypto \<Rightarrow> router_profile \<Rightarrow> 's mesh_sink \<Rightarrow> duration \<Rightarrow> bytes \<Rightarrow> 's \<Rightarrow> central_router \<Rightarrow> ('s \<times> central_router) option" where
  "poll_due_ogms C P S now tx s r =
     (case due_interface (ce_batman r) now of
        None \<Rightarrow> Some (s, r)
      | Some idx \<Rightarrow> Option.bind (poll_one_ogm C P S now tx idx s r) (\<lambda>x. poll_due_ogms C P S now tx (fst x) (snd x)))"

definition poll_one_keepalive ::
    "crypto \<Rightarrow> 's mesh_sink \<Rightarrow> duration \<Rightarrow> bytes \<Rightarrow> nat \<Rightarrow> 's \<Rightarrow> central_router \<Rightarrow> ('s \<times> central_router) option" where
  "poll_one_keepalive C S now tx idx s r =
     (case poll_keepalive C tx r of
        (f, r) \<Rightarrow> map_option (\<lambda>e. (emit_planned S f (EgressIface idx) s, r\<lparr>ce_batman := e\<rparr>))
                   (on_keepalive_emitted idx now (ce_batman r)))"

partial_function (option) poll_due_keepalives ::
    "crypto \<Rightarrow> 's mesh_sink \<Rightarrow> duration \<Rightarrow> bytes \<Rightarrow> 's \<Rightarrow> central_router \<Rightarrow> ('s \<times> central_router) option" where
  "poll_due_keepalives C S now tx s r =
     (case due_keepalive_interface (ce_batman r) now of
        None \<Rightarrow> Some (s, r)
      | Some idx \<Rightarrow> Option.bind (poll_one_keepalive C S now tx idx s r) (\<lambda>x. poll_due_keepalives C S now tx (fst x) (snd x)))"

definition challenge_everywhere :: "'s mesh_sink \<Rightarrow> frame_data \<Rightarrow> nat \<Rightarrow> central_router \<Rightarrow> 's \<Rightarrow> 's" where
  "challenge_everywhere S f ifaces r s =
     fold (\<lambda>idx s. snd (ms_emit S s (outgoing f (EgressIface idx)))) (filter (\<lambda>idx. link_may_tx idx (Some NextHopChallenge) r) [0..<ifaces]) s"

partial_function (option) poll_due_challenges ::
    "crypto \<Rightarrow> router_profile \<Rightarrow> 's mesh_sink \<Rightarrow> duration \<Rightarrow> bytes \<Rightarrow> nat \<Rightarrow> 's \<Rightarrow> central_router \<Rightarrow> ('s \<times> central_router) option" where
  "poll_due_challenges C P S now tx ifaces s r =
     Option.bind (poll_challenge C P now tx r) (\<lambda>x.
       case fst x of
         None \<Rightarrow> Some (s, snd x)
       | Some y \<Rightarrow> poll_due_challenges C P S now tx ifaces (challenge_everywhere S (snd y) ifaces (snd x) s) (snd x))"

definition poll_due_pings :: "'s mesh_sink \<Rightarrow> duration \<Rightarrow> bytes \<Rightarrow> 's \<Rightarrow> central_router \<Rightarrow> ('s \<times> central_router) option" where
  "poll_due_pings S now tx s r = map_option (\<lambda>(f, r). (emit_planned S f EgressAuto s, r)) (router_poll_ping now tx r)"

definition poll_due_renewal :: "crypto \<Rightarrow> 's mesh_sink \<Rightarrow> duration \<Rightarrow> bytes \<Rightarrow> 's \<Rightarrow> central_router \<Rightarrow> ('s \<times> central_router) option" where
  "poll_due_renewal C S now tx s r = map_option (\<lambda>(f, r). (emit_planned S f EgressAuto s, r)) (router_poll_renewal C now tx r)"

definition poll_due_all ::
    "crypto \<Rightarrow> router_profile \<Rightarrow> 's mesh_sink \<Rightarrow> duration \<Rightarrow> bytes \<Rightarrow> 's \<Rightarrow> central_router \<Rightarrow> ('s \<times> central_router) option" where
  "poll_due_all C P S now tx s r =
     Option.bind (poll_due_ogms C P S now tx s r) (\<lambda>(s, r).
       Option.bind (poll_due_keepalives C S now tx s r) (\<lambda>(s, r).
         Option.bind (poll_due_challenges C P S now tx (ce_iface_count r) s r) (\<lambda>(s, r).
           poll_due_pings S now tx s r)))"

section \<open>Interface sets\<close>

type_synonym interface_set = u32

definition SET_CAPACITY :: nat where "SET_CAPACITY = 32"

definition set_insert :: "nat \<Rightarrow> interface_set \<Rightarrow> interface_set" where
  "set_insert idx s = (if idx < SET_CAPACITY then s OR push_bit idx 1 else s)"

definition set_contains :: "interface_set \<Rightarrow> nat \<Rightarrow> bool" where
  "set_contains s idx \<longleftrightarrow> idx < SET_CAPACITY \<and> s AND push_bit idx 1 \<noteq> 0"

definition set_is_empty :: "interface_set \<Rightarrow> bool" where
  "set_is_empty s \<longleftrightarrow> s = 0"

definition trailing_zeros :: "u32 \<Rightarrow> nat" where
  "trailing_zeros w = length (takeWhile (\<lambda>i. \<not> bit w i) [0..<32])"

function set_iter :: "interface_set \<Rightarrow> nat list" where
  "set_iter bits = (if bits = 0 then [] else trailing_zeros bits # set_iter (bits AND (bits - 1)))"
  by pat_completeness auto

termination
proof (relation "measure unat")
  fix bits :: u32 assume "bits \<noteq> 0"
  then have "unat (bits - 1) < unat bits" by (simp add: unat_minus_one unat_gt_0)
  moreover have "unat (bits AND (bits - 1)) \<le> unat (bits - 1)" by (simp add: word_and_le1 flip: word_le_nat_alt)
  ultimately show "(bits AND (bits - 1), bits) \<in> measure unat" by simp
qed simp

declare set_iter.simps [simp del]

section \<open>Transmitting\<close>

record dispatch_plan =
  dp_payload :: bytes
  dp_targets :: interface_set

definition plan_targets ::
    "egress_interface option \<Rightarrow> nat \<Rightarrow> batman_packet_type option \<Rightarrow> central_router \<Rightarrow> interface_set" where
  "plan_targets eg num_interfaces pkt_type r =
     (case eg of
        Some AllInterfaces \<Rightarrow> fold set_insert (filter (\<lambda>idx. link_may_tx idx pkt_type r) [0..<num_interfaces]) 0
      | Some (Interface idx) \<Rightarrow> if idx < num_interfaces \<and> link_may_tx idx pkt_type r then set_insert idx 0 else 0
      | None \<Rightarrow> 0)"

definition plan_dispatch ::
    "crypto \<Rightarrow> duration \<Rightarrow> mac \<Rightarrow> u16 \<Rightarrow> egress \<Rightarrow> nat \<Rightarrow> bytes \<Rightarrow> nat \<Rightarrow> central_router
       \<Rightarrow> (dispatch_plan option \<times> central_router) option" where
  "plan_dispatch C now dst protocol eg body_len buf num_interfaces r =
     (case tag_directed_into C dst protocol body_len buf r of
        None \<Rightarrow> None
      | Some (None, buf, r) \<Rightarrow> Some (None, r)
      | Some (Some send_len, buf, r) \<Rightarrow>
          let pkt_type = (if protocol = ETH_P_BATMAN \<and> body_len \<le> length buf then payload_type (take body_len buf) else None)
          in case (case eg of
                     EgressIface idx \<Rightarrow> Some (if idx < num_interfaces then set_insert idx 0 else 0, r)
                   | EgressAuto \<Rightarrow> map_option (\<lambda>(e, r). (plan_targets e num_interfaces pkt_type r, r)) (egress_interface_for now dst r)) of
               None \<Rightarrow> None
             | Some (targets, r) \<Rightarrow>
                 if length buf < send_len then None
                 else Some (Some \<lparr>dp_payload = take send_len buf, dp_targets = targets\<rparr>, r))"

end
