(* ===== verification/Auth_Lifecycle.thy ===== *)
theory Auth_Lifecycle
  imports Frame_Exchange
begin

text \<open>
  The authenticator over its life: every call the router makes of it, the states the calls reach from a
  fresh enrolment, and what holds of all of them and between any two of them.
\<close>

section \<open>Calls\<close>

datatype auth_call =
    SetTime duration clocked
  | TakeTrickleResetHint
  | TagDirected mac bytes bytes
  | SignFanout bytes bytes
  | VerifyDirected mac bytes bytes
  | VerifyNonceFresh mac bytes bytes
  | VerifyFanout mac bytes bytes
  | TakeSelfRevoked
  | IngestRevocation revocation_record
  | BuildChallenge mac nat
  | VerifyResponse mac bytes
  | AugmentOgm bool bytes nat
  | VerifyOgm bytes
  | AugmentKeepalive bytes nat
  | VerifyKeepalive mac bytes
  | BuildCertReq mac bytes mac bytes
  | IngestCertReply bytes
  | AnswerCertRequest "mac \<Rightarrow> mac option" bytes frame_data
  | FlushPendingReply "mac \<Rightarrow> mac option" mac frame_data
  | SetRenewalAuthority "bytes option"
  | HandleRenewReq bytes
  | IngestRenewReply bytes
  | TakeRenewedCert
  | TakeRenewalRequest
  | PollRenewal duration "mac \<Rightarrow> mac option" bytes

text \<open>The state after a call; \<open>None\<close> is a panic.\<close>

fun auth_perform :: "crypto \<Rightarrow> auth_profile \<Rightarrow> auth_call \<Rightarrow> ogm_auth \<Rightarrow> ogm_auth option" where
  "auth_perform C P (SetTime now wall) s = Some (set_time now wall s)"
| "auth_perform C P TakeTrickleResetHint s = Some (snd (take_trickle_reset_hint s))"
| "auth_perform C P (TagDirected dst frame trailer) s = Some (snd (tag_directed C dst frame trailer s))"
| "auth_perform C P (SignFanout frame trailer) s = Some (snd (sign_fanout C frame trailer s))"
| "auth_perform C P (VerifyDirected src frame trailer) s = Some (snd (verify_directed C P src frame trailer s))"
| "auth_perform C P (VerifyNonceFresh src frame trailer) s = Some (snd (verify_directed_nonce_fresh C P src frame trailer s))"
| "auth_perform C P (VerifyFanout src frame trailer) s = Some (snd (verify_fanout C P src frame trailer s))"
| "auth_perform C P TakeSelfRevoked s = Some (snd (take_self_revoked s))"
| "auth_perform C P (IngestRevocation r) s = Some (snd (ingest_revocation C P r s))"
| "auth_perform C P (BuildChallenge m tx_len) s = map_option snd (build_challenge_frame C m tx_len s)"
| "auth_perform C P (VerifyResponse m tag) s = Some (snd (verify_challenge_response C P m tag s))"
| "auth_perform C P (AugmentOgm lazy buf len) s = map_option snd (augment_ogm_with_cert_record C lazy buf len s)"
| "auth_perform C P (VerifyOgm payload) s = Some (snd (verify_ogm C P payload s))"
| "auth_perform C P (AugmentKeepalive buf len) s = Some (snd (augment_keepalive C buf len s))"
| "auth_perform C P (VerifyKeepalive src payload) s = Some (snd (verify_keepalive C P src payload s))"
| "auth_perform C P (BuildCertReq orig fp hop tx_buf) s = Some (snd (build_cert_req_frame C P orig fp hop tx_buf s))"
| "auth_perform C P (IngestCertReply body) s = Some (snd (ingest_cert_reply C P body s))"
| "auth_perform C P (AnswerCertRequest hop body reply) s = Some (snd (snd (answer_cert_request C P hop body reply s)))"
| "auth_perform C P (FlushPendingReply hop orig reply) s = Some (snd (snd (flush_pending_cert_reply hop orig reply s)))"
| "auth_perform C P (SetRenewalAuthority key) s = Some (set_renewal_authority C key s)"
| "auth_perform C P (HandleRenewReq body) s = Some (handle_renew_req C P body s)"
| "auth_perform C P (IngestRenewReply body) s = Some (snd (ingest_renew_reply C body s))"
| "auth_perform C P TakeRenewedCert s = Some (snd (take_renewed_cert s))"
| "auth_perform C P TakeRenewalRequest s = Some (snd (take_renewal_request s))"
| "auth_perform C P (PollRenewal now hop tx_buf) s = map_option snd (poll_renewal C now hop tx_buf s)"

text \<open>What the types of the source promise of the arguments, and that the engine wrote its announcement into the buffer.\<close>

fun call_ok :: "auth_call \<Rightarrow> bool" where
  "call_ok (IngestRevocation r) = revocation_ok r"
| "call_ok (AugmentOgm lazy buf len) = (len \<le> length buf)"
| "call_ok _ = True"

fun auth_run :: "crypto \<Rightarrow> auth_profile \<Rightarrow> auth_call list \<Rightarrow> ogm_auth \<Rightarrow> ogm_auth option" where
  "auth_run C P [] s = Some s"
| "auth_run C P (call # calls) s = (case auth_perform C P call s of None \<Rightarrow> None | Some s \<Rightarrow> auth_run C P calls s)"

inductive auth_reachable :: "crypto \<Rightarrow> auth_profile \<Rightarrow> ogm_auth \<Rightarrow> bool" for C P where
  enrolled: "member C k cert a \<Longrightarrow> auth_reachable C P (with_capacities k cert a)"
| performed: "auth_reachable C P s \<Longrightarrow> call_ok call \<Longrightarrow> auth_perform C P call s = Some s' \<Longrightarrow> auth_reachable C P s'"

section \<open>The invariant holds, and nothing panics\<close>

lemma augment_no_panic:
  assumes "crypto_ok C" "auth_ok C' P s" "len \<le> length buf"
  shows "augment_ogm_with_cert_record C lazy buf len s \<noteq> None"
proof (cases "len < OGM_HDR")
  case False
  have cok: "cert_ok (oa_cert s)" using auth_okD(2) [OF assms(2)] by (simp add: member_def)
  have rok: "\<forall>kr\<in>set (oa_revocations s). revocation_ok (kr_record kr)" using auth_okD(4) [OF assms(2)] by (auto simp: held_ok_def)
  have app: "append_auth_records (oa_revocations s) buf len ty v sig l \<noteq> None"
    if "length sig = 64" "len + (length v + 72) \<le> length buf" for ty v sig l
    using append_layout [OF rok _ that, of ty l] False by auto
  have "\<not> length buf < ORIG_OFF + 6" using False assms(3) by (simp add: OGM_HDR_def OGM_SIZE_def ORIG_OFF_def)
  then show ?thesis
    using False assms(1) signed_message_fits [OF cok, of "take 4 (drop SEQNO_OFF buf)" "mac_at buf ORIG_OFF"] app
    by (cases lazy) (auto simp: augment_ogm_with_cert_record_def Let_def not_less TVLV_HDR_LEN_def SIG_LEN_def split: option.split)
qed (simp add: augment_ogm_with_cert_record_def)

lemma challenge_frame_cases:
  assumes "crypto_ok C" "auth_ok C' P s"
  shows "\<exists>f s'. build_challenge_frame C m tx_len s = Some (f, s') \<and> auth_ok C' P s'"
  using issue_challenge_auth_ok [OF assms, of m] by (auto simp: build_challenge_frame_def split: option.splits)

lemma auth_perform_ok:
  assumes "crypto_ok C" "auth_ok C P s" "call_ok call"
  shows "\<exists>s'. auth_perform C P call s = Some s' \<and> auth_ok C P s'"
proof (cases call)
  case (BuildChallenge m tx_len)
  with challenge_frame_cases [OF assms(1,2), of m tx_len] show ?thesis by auto
next
  case (AugmentOgm lazy buf len)
  with augment_no_panic [OF assms(1,2), of len buf lazy] assms(3) obtain r s'
    where "augment_ogm_with_cert_record C lazy buf len s = Some (r, s')" by auto
  with AugmentOgm augment_ogm_auth_ok [OF assms(2)] show ?thesis by auto
next
  case (PollRenewal now hop tx_buf)
  with poll_renewal_returns [OF assms(1), of now hop tx_buf s] obtain r s' where "poll_renewal C now hop tx_buf s = Some (r, s')" by auto
  with PollRenewal poll_renewal_auth_ok [OF assms(2)] show ?thesis by auto
qed (use assms in \<open>simp_all add: take_trickle_reset_hint_def set_renewal_authority_def take_renewed_cert_def take_renewal_request_def verify_ogm_auth_ok\<close>)

lemma auth_reachable_ok:
  assumes "crypto_ok C" "auth_reachable C P s"
  shows "auth_ok C P s"
  using assms(2)
proof (induction rule: auth_reachable.induct)
  case (enrolled k cert a)
  then show ?case by (simp add: with_capacities_auth_ok)
next
  case (performed s call s')
  with auth_perform_ok [OF assms(1)] show ?case by fastforce
qed

section \<open>What calls leave alone\<close>

text \<open>Most calls keep the credential and both ends of the replay counters.\<close>

definition kept :: "ogm_auth \<Rightarrow> ogm_auth \<Rightarrow> bool" where
  "kept s s' \<longleftrightarrow> oa_send_counter s' = oa_send_counter s \<and> oa_recv_counters s' = oa_recv_counters s \<and> oa_cert s' = oa_cert s
     \<and> oa_keypair s' = oa_keypair s \<and> oa_anchor s' = oa_anchor s"

lemma kept_refl [simp]: "kept s s"
  by (simp add: kept_def)

lemma kept_trans: "kept s t \<Longrightarrow> kept t u \<Longrightarrow> kept s u"
  by (simp add: kept_def)

lemma kept_other [simp]:
  "kept s (t\<lparr>oa_wall := x0\<rparr>) = kept s t" "kept s (t\<lparr>oa_now := x1\<rparr>) = kept s t"
  "kept s (t\<lparr>oa_revocations := x2\<rparr>) = kept s t" "kept s (t\<lparr>oa_neighbors := x3\<rparr>) = kept s t"
  "kept s (t\<lparr>oa_self_revocation := x4\<rparr>) = kept s t" "kept s (t\<lparr>oa_trickle_reset_hint := x5\<rparr>) = kept s t"
  "kept s (t\<lparr>oa_key_generation := x6\<rparr>) = kept s t" "kept s (t\<lparr>oa_in_flight := x7\<rparr>) = kept s t"
  "kept s (t\<lparr>oa_pending_replies := x8\<rparr>) = kept s t" "kept s (t\<lparr>oa_cert_req_rate := x9\<rparr>) = kept s t"
  "kept s (t\<lparr>oa_renewal_authority := x10\<rparr>) = kept s t" "kept s (t\<lparr>oa_outstanding_renewal := x11\<rparr>) = kept s t"
  "kept s (t\<lparr>oa_renew_req_rate := x12\<rparr>) = kept s t" "kept s (t\<lparr>oa_pending_renewed_cert := x13\<rparr>) = kept s t"
  "kept s (t\<lparr>oa_renewal_requests_sent := x14\<rparr>) = kept s t" "kept s (t\<lparr>oa_renewal_replies_accepted := x15\<rparr>) = kept s t"
  "kept s (t\<lparr>oa_next_renewal_poll := x16\<rparr>) = kept s t" "kept s (t\<lparr>oa_pending_renewal := x17\<rparr>) = kept s t"
  "kept s (t\<lparr>oa_challenge_counter := x18\<rparr>) = kept s t" "kept s (t\<lparr>oa_in_progress := x19\<rparr>) = kept s t"
  "kept s (t\<lparr>oa_restart_candidate := x20\<rparr>) = kept s t" "kept s (t\<lparr>oa_ogm_crypto_ops := x21\<rparr>) = kept s t"
  "kept s (t\<lparr>oa_unjudged_admissions := x22\<rparr>) = kept s t"
  by (simp_all add: kept_def)

named_theorems kept_calls

lemma kept_set_time [kept_calls]: "kept s (set_time now wall s)"
proof -
  have "kept t (reclaim_bookkeeping t)" "kept t (prune_expired t)" "kept t (evict_expired_neighbors t)" for t
    by (simp_all add: reclaim_bookkeeping_def prune_expired_def evict_expired_neighbors_def Let_def split: option.split)
  from kept_trans [OF this(1) kept_trans [OF this(2,3)]] have "kept (s\<lparr>oa_now := now, oa_wall := wall\<rparr>) (set_time now wall s)"
    unfolding set_time_def by (rule back_subst [of "kept _"]) simp
  then show ?thesis by (simp add: kept_def)
qed

lemma kept_cache [kept_calls]: "kept s (snd (cache_neighbor P k s))"
proof (cases "judges_windows (oa_wall s)")
  case True
  then show ?thesis by (simp add: cache_neighbor_def split: option.split list.split)
next
  case False
  then show ?thesis by (simp add: cache_neighbor_def identity_conflict_def Let_def split: option.split list.split)
qed

lemma kept_takes [kept_calls]:
  "kept s (snd (take_trickle_reset_hint s))" "kept s (snd (take_self_revoked s))" "kept s (set_renewal_authority C key s)"
  "kept s (snd (take_renewed_cert s))" "kept s (snd (take_renewal_request s))"
  by (auto simp: take_trickle_reset_hint_def take_self_revoked_def set_renewal_authority_def take_renewed_cert_def
      take_renewal_request_def Let_def split: option.split)

lemma kept_latch: "kept s (latch_self_revocation r s)"
  by (auto simp: latch_self_revocation_def Let_def)

lemma kept_challenge [kept_calls]: "build_challenge_frame C m tx_len s = Some (f, s') \<Longrightarrow> kept s s'"
  by (auto simp: build_challenge_frame_def issue_challenge_def record_challenge_def Let_def
      split: option.splits if_splits)

lemma kept_augment [kept_calls]: "augment_ogm_with_cert_record C lazy buf len s = Some (r, s') \<Longrightarrow> kept s s'"
  by (auto simp: kept_def dest!: augment_ogm_state)

lemma kept_track: "kept s (snd (track_request P orig fp hop s))"
  by (auto simp: track_request_def Let_def split: option.split)

lemma kept_cert_req [kept_calls]: "kept s (snd (build_cert_req_frame C P orig fp hop tx s))"
proof -
  have "snd (build_cert_request C P orig fp hop buf s) = snd (track_request P orig fp hop s)" for buf
    by (auto simp: build_cert_request_def Let_def split: prod.splits bool.splits)
  then have "snd (build_cert_req_frame C P orig fp hop tx s) \<in> {s, snd (track_request P orig fp hop s)}"
    by (auto simp: build_cert_req_frame_def split: prod.splits option.splits) (metis snd_conv)+
  then show ?thesis using kept_track by auto
qed

lemma kept_cert_reply [kept_calls]: "kept s (snd (ingest_cert_reply C P body s))"
proof -
  have "kept s t" if "cache_neighbor P k s = (c, t)" for k c t using kept_cache [of s P k] that by simp
  then show ?thesis
    unfolding ingest_cert_reply_def by (auto split: option.split sum.split prod.split cached.split)
qed

lemma kept_cert_request: "kept s (snd (verify_cert_request C P body s))"
proof -
  have rate: "kept s t" if "accept_cert_request_rate P m s = (b, t)" for m b t
    using that by (auto simp: accept_cert_request_rate_def split: option.splits)
  have "kept s (snd (cache_neighbor P k t))" if "accept_cert_request_rate P m s = (b, t)" for m b t k
    using kept_trans [OF rate [OF that] kept_cache] .
  with rate show ?thesis
    unfolding verify_cert_request_def Let_def by (auto split: option.split sum.split prod.split bool.split)
qed

lemma kept_replies [kept_calls]:
  "kept s (snd (snd (answer_cert_request C P hop body reply s)))" "kept s (snd (snd (flush_pending_cert_reply hop orig reply s)))"
proof -
  have "kept t (park_pending_reply P m t)" for t m
    by (auto simp: park_pending_reply_def Let_def split: option.split list.split)
  with kept_cert_request [of s C P body] show "kept s (snd (snd (answer_cert_request C P hop body reply s)))"
    by (auto simp: answer_cert_request_def Let_def split: prod.splits option.splits intro: kept_trans)
  show "kept s (snd (snd (flush_pending_cert_reply hop orig reply s)))"
    by (auto simp: flush_pending_cert_reply_def clear_pending_reply_def Let_def split: option.split)
qed

lemma kept_renewal [kept_calls]:
  "kept s (handle_renew_req C P body s)" "poll_renewal C now hop tx s = Some (r, s') \<Longrightarrow> kept s s'"
proof -
  obtain rates where "snd (verify_renewal_request C P body s) = s\<lparr>oa_renew_req_rate := rates\<rparr>"
    using verify_renewal_request_state by blast
  then have "kept s (snd (verify_renewal_request C P body s))" by (simp add: kept_def)
  then show "kept s (handle_renew_req C P body s)"
    by (auto simp: handle_renew_req_def split: prod.splits option.splits)
  have "kept t u" if "build_renewal_request C buf t = Some (r, u)" for buf t r u
    using that by (auto simp: build_renewal_request_def Let_def split: option.splits if_splits)
  then show "poll_renewal C now hop tx s = Some (r, s') \<Longrightarrow> kept s s'"
    by (fastforce simp: poll_renewal_def Let_def kept_def split: if_splits option.splits)
qed

section \<open>What calls only move forward\<close>

definition advances :: "ogm_auth \<Rightarrow> ogm_auth \<Rightarrow> bool" where
  "advances s s' \<longleftrightarrow> oa_send_counter s \<le> oa_send_counter s' \<and> oa_keypair s' = oa_keypair s \<and> oa_anchor s' = oa_anchor s
     \<and> ct_node_mac (oa_cert s') = ct_node_mac (oa_cert s) \<and> ct_ed_pubkey (oa_cert s') = ct_ed_pubkey (oa_cert s)
     \<and> (oa_cert s' = oa_cert s \<or> ct_not_after (oa_cert s) < ct_not_after (oa_cert s'))
     \<and> ct_not_before (oa_cert s) \<le> ct_not_before (oa_cert s')"

definition guarded :: "mac \<Rightarrow> ogm_auth \<Rightarrow> ogm_auth \<Rightarrow> bool" where
  "guarded src s s' \<longleftrightarrow> (\<forall>h. im_get (oa_recv_counters s) src = Some h \<longrightarrow>
     (\<exists>h'. im_get (oa_recv_counters s') src = Some h' \<and> h \<le> h'))"

lemma progress_trans: "advances s t \<Longrightarrow> advances t u \<Longrightarrow> advances s u" "guarded src s t \<Longrightarrow> guarded src t u \<Longrightarrow> guarded src s u"
  by (auto simp: advances_def) (fastforce simp: guarded_def)

lemma kept_progress: "kept s s' \<Longrightarrow> advances s s'" "kept s s' \<Longrightarrow> guarded src s s'"
  by (simp_all add: kept_def advances_def guarded_def)

text \<open>Calls that do not forget a source: they neither revoke it nor redeem a restart claim of it.\<close>

definition revokes :: "mac \<Rightarrow> bytes \<Rightarrow> bool" where
  "revokes src v = (case revocation_read v of Some (r, _) \<Rightarrow> rv_node_mac r = src | None \<Rightarrow> False)"

fun spares :: "mac \<Rightarrow> auth_call \<Rightarrow> bool" where
  "spares src (IngestRevocation r) = (rv_node_mac r \<noteq> src)"
| "spares src (VerifyOgm payload) = (\<not> list_ex (revokes src) (iter_tvlv (drop OGM_HDR payload) TvRevoke))"
| "spares src (VerifyResponse m tag) = (m \<noteq> src)"
| "spares src _ = True"

lemma guard_progress:
  assumes "tables_ok P s" "guard_accept P m c s = (b, s')"
  shows "advances s s'" "guarded src s s'"
proof -
  show "guarded src s s'" using recv_guard.high_advances [OF assms] by (auto simp: guarded_def)
  have "advances s (s\<lparr>oa_recv_counters := rc\<rparr>)" for rc by (simp add: advances_def)
  from this [of "oa_recv_counters s'"] show "advances s s'" unfolding guard_accept_shape [OF assms(2), symmetric] .
qed

lemma nonce_fresh_progress:
  assumes "tables_ok P s"
  shows "advances s (snd (verify_directed_nonce_fresh C P m frame trailer s))" "guarded src s (snd (verify_directed_nonce_fresh C P m frame trailer s))"
proof -
  have same: "advances s (t\<lparr>oa_restart_candidate := c\<rparr>) = advances s t" "guarded src s (t\<lparr>oa_restart_candidate := c\<rparr>) = guarded src s t" for t c
    by (simp_all add: advances_def guarded_def)
  have guard: "advances s t" "guarded src s t" if "accept_recv_counter P m c s = (v, t)" for c v t
    using guard_progress [OF assms, of m c "v = CounterAccepted" t] that by (simp_all add: guard_accept_def)
  have directed: "advances s (snd (verify_directed C P m frame trailer s))" "guarded src s (snd (verify_directed C P m frame trailer s))"
    using guard kept_progress [OF kept_refl [of s]]
    by (auto simp: verify_directed_def split: option.split prod.split counter_verdict.split)
  show "advances s (snd (verify_directed_nonce_fresh C P m frame trailer s))"
    using guard directed kept_progress [OF kept_refl [of s]]
    by (auto simp: verify_directed_nonce_fresh_def same split: option.split prod.split counter_verdict.split)
  show "guarded src s (snd (verify_directed_nonce_fresh C P m frame trailer s))"
    using guard directed kept_progress [OF kept_refl [of s]]
    by (auto simp: verify_directed_nonce_fresh_def same split: option.split prod.split counter_verdict.split)
qed

lemma evict_progress:
  assumes "distinct (im_keys (oa_recv_counters s))"
  shows "advances s (evict_neighbor m s)" "m \<noteq> src \<Longrightarrow> guarded src s (evict_neighbor m s)"
  by (rule evict_neighbor_cases [of m s], simp add: advances_def)
    (rule evict_neighbor_cases [of m s], simp add: guarded_def im_get_remove [OF documented_swap_law assms])

lemma ingest_progress:
  assumes "auth_ok C' P s"
  shows "advances s (snd (ingest_revocation C P r s))" "rv_node_mac r \<noteq> src \<Longrightarrow> guarded src s (snd (ingest_revocation C P r s))"
proof -
  note tab = tables_okD [OF auth_okD(1) [OF assms]]
  have "advances s (snd (ingest_revocation C P r s)) \<and> (rv_node_mac r \<noteq> src \<longrightarrow> guarded src s (snd (ingest_revocation C P r s)))"
    using tab(5)
  proof (cases rule: ingest_revocation_cases [where C = C and rc = r])
    case selfish
    then show ?thesis using kept_progress [OF kept_latch] by simp
  next
    case (learned rs)
    let ?s = "s\<lparr>oa_revocations := rs\<rparr>"
    have "advances ?s (evict_neighbor (rv_node_mac r) ?s)" "rv_node_mac r \<noteq> src \<Longrightarrow> guarded src ?s (evict_neighbor (rv_node_mac r) ?s)"
      using evict_progress [of ?s] tab(4) by simp_all
    with learned(1) show ?thesis by (simp add: advances_def guarded_def)
  qed (simp add: kept_progress)
  then show "advances s (snd (ingest_revocation C P r s))" "rv_node_mac r \<noteq> src \<Longrightarrow> guarded src s (snd (ingest_revocation C P r s))"
    by blast+
qed

lemma values_progress:
  assumes "auth_ok C P s"
  shows "advances s (ingest_values C P vs s) \<and> (\<not> list_ex (revokes src) vs \<longrightarrow> guarded src s (ingest_values C P vs s))"
  using assms
proof (induction C P vs s rule: ingest_values.induct)
  case (1 C P s)
  show ?case by (simp add: kept_progress)
next
  case (2 C P v vs s)
  define t where "t = (case revocation_read v of Some (rec, _) \<Rightarrow> snd (ingest_revocation C P rec s) | None \<Rightarrow> s)"
  have t: "auth_ok C P t" using 2(2) by (auto simp: t_def revocation_read_ok split: option.split)
  have "advances s t \<and> (\<not> revokes src v \<longrightarrow> guarded src s t)"
    using ingest_progress [OF 2(2)] kept_progress [OF kept_refl [of s]] by (auto simp: t_def revokes_def split: option.split)
  with 2(1) [folded t_def, OF t] show ?case by (auto simp: t_def [symmetric] intro: progress_trans)
qed

lemma verify_ogm_progress:
  assumes "auth_ok C P s"
  shows "advances s (snd (verify_ogm C P payload s))"
    "\<not> list_ex (revokes src) (iter_tvlv (drop OGM_HDR payload) TvRevoke) \<Longrightarrow> guarded src s (snd (verify_ogm C P payload s))"
proof -
  have "advances s (snd (verify_ogm C P payload s)) \<and> (\<not> list_ex (revokes src) (iter_tvlv (drop OGM_HDR payload) TvRevoke)
      \<longrightarrow> guarded src s (snd (verify_ogm C P payload s)))"
  proof (cases "fst (verify_ogm C P payload s) = Verified")
    case True
    then obtain s' where v: "verify_ogm C P payload s = (Verified, s')" by (metis prod.collapse)
    show ?thesis
    proof (rule verify_ogm_Verified [OF assms v])
      fix cert pad m sig key k cb rest
      define n where "n = \<lparr>nk_cert = verified_facts cert, nk_pairwise_key = key, nk_raw_cert = cert,
          nk_last_ogm = Some (take 4 (drop SEQNO_OFF payload), sig)\<rparr>"
      define t where "t = snd (cache_neighbor P n (s\<lparr>oa_ogm_crypto_ops := k\<rparr>))"
      assume s': "s' = ingest_revocations_from_tail C P (drop OGM_HDR payload)
           (snd (cache_neighbor P \<lparr>nk_cert = verified_facts cert, nk_pairwise_key = key, nk_raw_cert = cert,
              nk_last_ogm = Some (take 4 (drop SEQNO_OFF payload), sig)\<rparr> (s\<lparr>oa_ogm_crypto_ops := k\<rparr>)))"
        and "vouched C (oa_anchor s) (oa_keypair s) \<lparr>nk_cert = verified_facts cert, nk_pairwise_key = key, nk_raw_cert = cert,
          nk_last_ogm = Some (take 4 (drop SEQNO_OFF payload), sig)\<rparr>"
      then have t: "auth_ok C P t" using assms by (auto simp: t_def n_def intro!: cache_neighbor_auth_ok)
      have "kept s t" unfolding t_def by (rule kept_trans [OF _ kept_cache]) simp
      with values_progress [OF t, of "iter_tvlv (drop OGM_HDR payload) TvRevoke" src] s' v show ?thesis
        by (auto simp: ingest_revocations_from_tail_def n_def [symmetric] t_def [symmetric] intro: progress_trans kept_progress)
    qed
  next
    case False
    then obtain k where "snd (verify_ogm C P payload s) = s\<lparr>oa_ogm_crypto_ops := k\<rparr>"
      using verify_ogm_unverified [of C P payload s] by (metis prod.collapse)
    then have "kept s (snd (verify_ogm C P payload s))" by simp
    then show ?thesis by (simp add: kept_progress)
  qed
  then show "advances s (snd (verify_ogm C P payload s))"
    "\<not> list_ex (revokes src) (iter_tvlv (drop OGM_HDR payload) TvRevoke) \<Longrightarrow> guarded src s (snd (verify_ogm C P payload s))"
    by blast+
qed

lemma response_progress:
  "advances s (snd (verify_challenge_response C P m tag s))" "m \<noteq> src \<Longrightarrow> guarded src s (snd (verify_challenge_response C P m tag s))"
proof -
  have anchor: "advances t (snd (anchor_recv_counter P m c t))" "m \<noteq> src \<Longrightarrow> guarded src t (snd (anchor_recv_counter P m c t))" for t c
    by (auto simp: anchor_recv_counter_def advances_def vec_push_def split: option.split)
       (auto simp: anchor_recv_counter_def guarded_def vec_push_def im_get_set im_get_def map_add_def split: option.split)
  have step: "advances s (snd (anchor_recv_counter P m c t))" "m \<noteq> src \<Longrightarrow> guarded src s (snd (anchor_recv_counter P m c t))"
    if "kept s t" for t c
    using that anchor kept_progress progress_trans by blast+
  show "advances s (snd (verify_challenge_response C P m tag s))"
    unfolding verify_challenge_response_def Let_def
    by (auto simp: step(1) split: option.split prod.split intro!: kept_progress(1))
  show "m \<noteq> src \<Longrightarrow> guarded src s (snd (verify_challenge_response C P m tag s))"
    unfolding verify_challenge_response_def Let_def
    by (auto simp: step(2) split: option.split prod.split intro!: kept_progress(2))
qed

lemma send_progress:
  "advances s (snd (tag_directed C dst frame trailer s))" "guarded src s (snd (tag_directed C dst frame trailer s))"
  "advances s (snd (sign_fanout C frame trailer s))" "guarded src s (snd (sign_fanout C frame trailer s))"
  "advances s (snd (augment_keepalive C buf len s))" "guarded src s (snd (augment_keepalive C buf len s))"
proof -
  have counted: "advances s t \<and> guarded src s t" if "next_send_counter s = Some (c, t)" for c t
    using that by (auto simp: next_send_counter_Some advances_def guarded_def)
  have same: "advances s s \<and> guarded src s s" by (simp add: kept_progress)
  show "advances s (snd (tag_directed C dst frame trailer s))" "guarded src s (snd (tag_directed C dst frame trailer s))"
    using counted same by (auto simp: tag_directed_def Let_def split: option.split)
  show "advances s (snd (sign_fanout C frame trailer s))" "guarded src s (snd (sign_fanout C frame trailer s))"
    using counted same by (auto simp: sign_fanout_def Let_def split: option.split)
  show "advances s (snd (augment_keepalive C buf len s))" "guarded src s (snd (augment_keepalive C buf len s))"
    using counted same by (auto simp: augment_keepalive_def Let_def split: option.split)
qed

lemma verify_progress:
  assumes "tables_ok P s"
  shows "advances s (snd (verify_directed C P m frame trailer s)) \<and> guarded src s (snd (verify_directed C P m frame trailer s))"
    "advances s (snd (verify_fanout C P m frame trailer s)) \<and> guarded src s (snd (verify_fanout C P m frame trailer s))"
    "advances s (snd (verify_keepalive C P m payload s)) \<and> guarded src s (snd (verify_keepalive C P m payload s))"
proof -
  have guard: "advances s (snd (guard_accept P m c s)) \<and> guarded src s (snd (guard_accept P m c s))" for c
    using guard_progress [OF assms] by (metis prod.collapse)
  have same: "advances s s \<and> guarded src s s" by (simp add: kept_progress)
  show "advances s (snd (verify_directed C P m frame trailer s)) \<and> guarded src s (snd (verify_directed C P m frame trailer s))"
    using guard same by (simp add: verify_directed_guard)
  show "advances s (snd (verify_fanout C P m frame trailer s)) \<and> guarded src s (snd (verify_fanout C P m frame trailer s))"
    using guard same by (simp add: verify_fanout_guard)
  show "advances s (snd (verify_keepalive C P m payload s)) \<and> guarded src s (snd (verify_keepalive C P m payload s))"
    using guard same by (cases rule: verify_keepalive_guard [where C = C and P = P and src = m and payload = payload and s = s]) simp_all
qed

lemma renew_progress: "advances s (snd (ingest_renew_reply C body s))" "guarded src s (snd (ingest_renew_reply C body s))"
  by (cases rule: ingest_renew_reply_cases [where C = C and body = body and s = s]; simp add: kept_progress advances_def)
     (cases rule: ingest_renew_reply_cases [where C = C and body = body and s = s]; simp add: kept_progress guarded_def)

lemma perform_progress:
  assumes "auth_ok C P s" "auth_perform C P call s = Some s'"
  shows "advances s s' \<and> (spares src call \<longrightarrow> guarded src s s')"
proof -
  note tok = auth_okD(1) [OF assms(1)]
  have keeping: "advances s s' \<and> guarded src s s'" if "kept s s'" using that by (simp add: kept_progress)
  show ?thesis
  proof (cases call)
    case (TagDirected dst frame trailer)
    with assms(2) send_progress(1,2) show ?thesis by auto
  next
    case (SignFanout frame trailer)
    with assms(2) send_progress(3,4) show ?thesis by auto
  next
    case (AugmentKeepalive buf len)
    with assms(2) send_progress(5,6) show ?thesis by auto
  next
    case (VerifyDirected m frame trailer)
    with assms(2) verify_progress(1) [OF tok] show ?thesis by auto
  next
    case (VerifyFanout m frame trailer)
    with assms(2) verify_progress(2) [OF tok] show ?thesis by auto
  next
    case (VerifyKeepalive m payload)
    with assms(2) verify_progress(3) [OF tok] show ?thesis by auto
  next
    case (VerifyNonceFresh m frame trailer)
    with assms(2) nonce_fresh_progress [OF tok] show ?thesis by auto
  next
    case (VerifyResponse m tag)
    with assms(2) response_progress show ?thesis by auto
  next
    case (IngestRevocation r)
    with assms(2) ingest_progress [OF assms(1)] show ?thesis by auto
  next
    case (VerifyOgm payload)
    with assms(2) verify_ogm_progress [OF assms(1)] show ?thesis by auto
  next
    case (IngestRenewReply body)
    with assms(2) renew_progress show ?thesis by auto
  qed (use keeping assms(2) in \<open>auto intro: kept_calls\<close>)
qed

lemma run_ok:
  assumes "crypto_ok C" "auth_ok C P s" "\<forall>c\<in>set calls. call_ok c" "auth_run C P calls s = Some s'"
  shows "auth_ok C P s' \<and> advances s s' \<and> (list_all (spares src) calls \<longrightarrow> guarded src s s')"
  using assms(2-4)
proof (induction calls arbitrary: s)
  case Nil
  then show ?case by (simp add: kept_progress)
next
  case (Cons call calls)
  then obtain t where t: "auth_perform C P call s = Some t" "auth_run C P calls t = Some s'" by (auto split: option.splits)
  with auth_perform_ok [OF assms(1) Cons.prems(1), of call] Cons.prems(2) have "auth_ok C P t" by auto
  with Cons.IH [of t] t Cons.prems(2) perform_progress [OF Cons.prems(1) t(1), of src] show ?case by (auto intro: progress_trans)
qed

section \<open>Frames accepted and sent\<close>

text \<open>The source, counter and verdict of a frame that is verified under the replay guard.\<close>

fun frame_verdict :: "crypto \<Rightarrow> auth_profile \<Rightarrow> auth_call \<Rightarrow> ogm_auth \<Rightarrow> (mac \<times> u64 \<times> bool) option" where
  "frame_verdict C P (VerifyDirected src frame trailer) s
     = Some (src, directed_counter trailer, fst (verify_directed C P src frame trailer s))"
| "frame_verdict C P (VerifyFanout src frame trailer) s
     = Some (src, directed_counter trailer, fst (verify_fanout C P src frame trailer s))"
| "frame_verdict C P (VerifyKeepalive src payload) s
     = Some (src, directed_counter (drop (length payload - KEEPALIVE_TRAILER_LEN) payload) AND NOT KEEPALIVE_COUNTER_TAG,
             fst (verify_keepalive C P src payload s))"
| "frame_verdict C P _ s = None"

lemma verdict_guard:
  assumes "frame_verdict C P call s = Some (src, n, b)"
  shows "b = False \<or> b = fst (guard_accept P src n s) \<and> auth_perform C P call s = Some (snd (guard_accept P src n s))"
proof (cases call)
  case (VerifyKeepalive m payload)
  with assms show ?thesis
    by (cases rule: verify_keepalive_guard [where C = C and P = P and src = m and payload = payload and s = s]) auto
qed (use assms in \<open>auto simp: verify_directed_guard verify_fanout_guard split: if_splits\<close>)

lemma verdict_accepted:
  assumes "tables_ok P s" "frame_verdict C P call s = Some (src, n, True)" "auth_perform C P call s = Some s'"
  shows "im_get (oa_recv_counters s') src = Some n"
  using verdict_guard [OF assms(2)] assms(3) recv_guard.accept_taken [OF assms(1), of src n s']
  by (cases "guard_accept P src n s") auto

lemma verdict_behind:
  assumes "tables_ok P s" "frame_verdict C P call s = Some (src, n, b)" "im_get (oa_recv_counters s) src = Some h" "n \<le> h"
  shows "\<not> b"
  using verdict_guard [OF assms(2)] recv_guard.refused_behind [OF assms(1,3,4)] by auto

text \<open>The counter in the trailer a sending call wrote.\<close>

fun emitted :: "crypto \<Rightarrow> auth_call \<Rightarrow> ogm_auth \<Rightarrow> u64 option" where
  "emitted C (TagDirected dst frame trailer) s
     = map_option (\<lambda>(n, tr). directed_counter tr) (fst (tag_directed C dst frame trailer s))"
| "emitted C (SignFanout frame trailer) s = map_option (\<lambda>(n, tr). directed_counter tr) (fst (sign_fanout C frame trailer s))"
| "emitted C (AugmentKeepalive buf len) s
     = map_option (\<lambda>(n, out). directed_counter (drop len out) AND NOT KEEPALIVE_COUNTER_TAG) (fst (augment_keepalive C buf len s))"
| "emitted C _ s = None"

lemma emitted_next:
  assumes "emitted C call s = Some n" "auth_perform C P call s = Some s'" "oa_send_counter s' < KEEPALIVE_COUNTER_TAG"
  shows "oa_send_counter s < n" "oa_send_counter s' = n"
proof -
  have trailer: "directed_counter (write_trailer c p t) = c" for c p t by (simp add: write_trailer_def directed_counter_def)
  have "oa_send_counter s < n \<and> oa_send_counter s' = n"
  proof (cases call)
    case (TagDirected dst frame tr)
    with assms show ?thesis
      by (auto simp: tag_directed_def next_send_counter_Some trailer Let_def split: if_splits option.splits)
  next
    case (SignFanout frame tr)
    with assms show ?thesis
      by (auto simp: sign_fanout_def next_send_counter_Some trailer Let_def split: if_splits option.splits)
  next
    case (AugmentKeepalive buf len)
    have out: "directed_counter (u64_to_be c @ rest) = c" for c rest by (simp add: directed_counter_def)
    from AugmentKeepalive assms show ?thesis
      by (auto simp: augment_keepalive_def next_send_counter_Some out not_less tagged_counter(2) Let_def split: if_splits option.splits)
  qed (use assms in auto)
  then show "oa_send_counter s < n" "oa_send_counter s' = n" by auto
qed

section \<open>Properties\<close>

text \<open>
  C18. The authenticator is sound. In every state its calls can reach from an enrolment, no call panics and
  the invariant holds: every cached neighbour was vouched for by the mesh root under the key derived from
  its certificate, every announcement signature remembered was checked, every revocation held is signed by
  the root and names another node, the node's own certificate is root-signed for the key it holds, and all
  tables have one row per address within their capacity.
\<close>

theorem authenticator_sound:
  assumes "crypto_ok C" "auth_reachable C P s"
  shows "auth_ok C P s \<and> (\<forall>call. call_ok call \<longrightarrow> (\<exists>s'. auth_perform C P call s = Some s' \<and> auth_reachable C P s'))"
  using auth_perform_ok [OF assms(1) auth_reachable_ok [OF assms]] auth_reachable_ok [OF assms] performed [OF assms(2)] by blast

theorem authenticator_sound_witness: "\<exists>s'. auth_perform toy_crypto default_auth_profile (BuildChallenge (Mac 2 0 0 0 0 7) 64) (demo_node 4) = Some s'
    \<and> auth_reachable toy_crypto default_auth_profile s'"
proof -
  have "auth_reachable toy_crypto default_auth_profile (demo_node 4)"
    unfolding demo_node_def demo_cert_def by (intro enrolled issued_member toy_crypto_ok) simp
  from authenticator_sound [OF toy_crypto_ok this, THEN conjunct2, rule_format, of "BuildChallenge (Mac 2 0 0 0 0 7) 64"]
  show ?thesis by simp
qed

text \<open>
  C19. An accepted announcement is authentic. When a node accepts an announcement, the address it names is
  derived from an identity key that the mesh root certified for this mesh in a certificate that the node's
  clock does not place outside its window and that no revocation it holds cancels; and that key signed the
  sequence number the announcement carries together with that certificate.
\<close>

theorem verified_ogm_authentic:
  assumes "auth_ok C P s" "fst (verify_ogm C P payload s) = Verified"
  shows "\<exists>cert pad sig. find_tvlv (drop OGM_HDR payload) TvOgmSig = Some sig
    \<and> ct_node_mac cert = mac_at payload ORIG_OFF \<and> derive_mac C (ct_ed_pubkey cert) = mac_at payload ORIG_OFF
    \<and> ct_mesh_id cert = ta_mesh_id (oa_anchor s)
    \<and> verify_signature C (ta_root_pubkey (oa_anchor s)) (signed_body cert) (ct_signature cert)
    \<and> \<not> proves_before (oa_wall s) (ct_not_before cert) \<and> \<not> proves_past (oa_wall s) (ct_not_after cert)
    \<and> \<not> is_revoked (verified_facts cert) s
    \<and> verify_signature C (ct_ed_pubkey cert)
        (SIG_DOMAIN @ mac_bytes (mac_at payload ORIG_OFF) @ take 4 (drop SEQNO_OFF payload) @ cert_write cert @ pad) sig"
proof -
  obtain s' where v: "verify_ogm C P payload s = (Verified, s')" using assms(2) by (metis prod.collapse)
  obtain cert pad m sig where c: "find_tvlv (drop OGM_HDR payload) TvOgmSig = Some sig"
      "verify_cert C (oa_anchor s) cert (oa_wall s) = Inr (verified_facts cert)"
      "ct_node_mac cert = mac_at payload ORIG_OFF" "\<not> is_revoked (verified_facts cert) s"
      "signed_message (mac_at payload ORIG_OFF) (take 4 (drop SEQNO_OFF payload)) (cert_write cert @ pad) = Some m"
      "verify_signature C (ct_ed_pubkey cert) m sig"
    by (rule verify_ogm_Verified [OF assms(1) v])
  have "m = SIG_DOMAIN @ mac_bytes (mac_at payload ORIG_OFF) @ take 4 (drop SEQNO_OFF payload) @ cert_write cert @ pad"
    using c(5) by (simp add: signed_message_def fits_scratch_def split: if_splits)
  with c verify_cert_facts [OF c(2)] verify_cert_Inr [THEN iffD1, OF c(2)] show ?thesis by metis
qed

text \<open>
  C20. The three counter-checked verifiers (directed frames, fan-out frames, keep-alives) accept no replay. Once
  a node accepted a frame of one of these kinds from a source, then after any calls that neither revoke the
  source nor let it prove a restart (both forget the counter it is held to), it accepts none of the three kinds from that source with the
  same or an earlier counter. Nonce-fresh frames, whose freshness is the challenge they answer and not
  the counter, are not among them.
\<close>

theorem replays_refused:
  assumes "crypto_ok C" "auth_ok C P s" "frame_verdict C P call s = Some (src, n, True)" "auth_perform C P call s = Some s1"
    and "\<forall>c\<in>set calls. call_ok c \<and> spares src c" "auth_run C P calls s1 = Some s2"
    and "frame_verdict C P again s2 = Some (src, n', b)" "n' \<le> n"
  shows "\<not> b"
proof -
  have "call_ok call" using assms(3) by (cases call) auto
  with auth_perform_ok [OF assms(1,2)] assms(4) have ok1: "auth_ok C P s1" by fastforce
  have high: "im_get (oa_recv_counters s1) src = Some n" by (rule verdict_accepted [OF auth_okD(1) [OF assms(2)] assms(3,4)])
  have run: "auth_ok C P s2" "guarded src s1 s2"
    using run_ok [OF assms(1) ok1 _ assms(6), of src] assms(5) by (auto simp: list_all_iff)
  with high obtain h where "im_get (oa_recv_counters s2) src = Some h" "n \<le> h" by (auto simp: guarded_def)
  with verdict_behind [OF auth_okD(1) [OF run(1)] assms(7)] assms(8) show ?thesis by (meson order_trans)
qed

text \<open>
  C21. A send counter is never reused. Of any two frames a node authenticates, of whatever kind and with any
  calls in between, the later carries the greater counter, as long as fewer than $2^{63}$ were sent.
\<close>

theorem counters_never_reused:
  assumes "crypto_ok C" "auth_ok C P s" "emitted C call s = Some n" "auth_perform C P call s = Some s1"
    and "\<forall>c\<in>set calls. call_ok c" "auth_run C P calls s1 = Some s2"
    and "emitted C later s2 = Some n'" "auth_perform C P later s2 = Some s3" "oa_send_counter s3 < KEEPALIVE_COUNTER_TAG"
  shows "n < n'"
proof -
  have "call_ok call" using assms(3) by (cases call) auto
  with auth_perform_ok [OF assms(1,2)] assms(4) have ok1: "auth_ok C P s1" by fastforce
  have run: "auth_ok C P s2" "oa_send_counter s1 \<le> oa_send_counter s2"
    using run_ok [OF assms(1) ok1 assms(5,6)] by (auto simp: advances_def)
  have "oa_send_counter s2 \<le> oa_send_counter s3" using perform_progress [OF run(1) assms(8)] by (auto simp: advances_def)
  with run(2) assms(9) have "oa_send_counter s1 < KEEPALIVE_COUNTER_TAG" by order
  from emitted_next(2) [OF assms(3,4) this] run(2) emitted_next(1) [OF assms(7,8,9)] show ?thesis by simp
qed

text \<open>
  A membership only moves forward. Whatever calls are made of a node, its key, its address and the root
  it trusts never change, and its certificate is replaced only by one for the same identity that ends later
  and does not begin earlier.
\<close>

theorem credential_advances:
  assumes "crypto_ok C" "auth_ok C P s" "\<forall>c\<in>set calls. call_ok c" "auth_run C P calls s = Some s'"
  shows "oa_keypair s' = oa_keypair s \<and> oa_anchor s' = oa_anchor s \<and> member C (oa_keypair s') (oa_cert s') (oa_anchor s')
    \<and> ct_node_mac (oa_cert s') = ct_node_mac (oa_cert s) \<and> ct_ed_pubkey (oa_cert s') = ct_ed_pubkey (oa_cert s)
    \<and> (oa_cert s' = oa_cert s \<or> ct_not_after (oa_cert s) < ct_not_after (oa_cert s'))
    \<and> ct_not_before (oa_cert s) \<le> ct_not_before (oa_cert s')"
proof -
  have "auth_ok C P s'" "advances s s'" using run_ok [OF assms] by auto
  then show ?thesis using auth_okD(2) [of C P s'] by (simp add: advances_def)
qed

theorem credential_advances_witness:
  "\<exists>s'. auth_run toy_crypto default_auth_profile [SetTime 5 (At 150), TakeRenewedCert] (demo_node 4) = Some s' \<and> oa_keypair s' = demo_key 4"
  using credential_advances [where s = "demo_node 4" and calls = "[SetTime 5 (At 150), TakeRenewedCert]" and P = default_auth_profile,
      OF toy_crypto_ok demo_node_ok]
  by (simp add: demo_node_parts)

theorem verified_ogm_authentic_witness:
  "\<exists>payload cert pad sig. fst (verify_ogm toy_crypto default_auth_profile payload (demo_node 8)) = Verified
     \<and> find_tvlv (drop OGM_HDR payload) TvOgmSig = Some sig \<and> ct_node_mac cert = mac_at payload ORIG_OFF
     \<and> verify_signature toy_crypto (ct_ed_pubkey cert)
         (SIG_DOMAIN @ mac_bytes (mac_at payload ORIG_OFF) @ take 4 (drop SEQNO_OFF payload) @ cert_write cert @ pad) sig"
proof -
  obtain payload where "fst (verify_ogm toy_crypto default_auth_profile payload (demo_node 8)) = Verified" by (rule demo_verified)
  with verified_ogm_authentic [OF demo_node_ok this] show ?thesis by blast
qed

theorem replays_refused_witness:
  "\<exists>trailer s1. verify_directed toy_crypto default_auth_profile (own_mac (demo_peer 4 8)) [66, 1] trailer (demo_peer 8 4) = (True, s1)
     \<and> \<not> fst (verify_directed toy_crypto default_auth_profile (own_mac (demo_peer 4 8)) [66, 1] trailer (set_time 5 Unknown s1))"
proof -
  let ?P = default_auth_profile and ?m = "own_mac (demo_peer 4 8)"
  obtain trailer s1 where v: "verify_directed toy_crypto ?P ?m [66, 1] trailer (demo_peer 8 4) = (True, s1)" by (rule demo_directed)
  let ?c = "VerifyDirected ?m [66, 1] trailer"
  have ok: "auth_ok toy_crypto ?P (demo_peer 8 4)" by (rule demo_peer_ok) (simp add: default_auth_profile_def MAX_NEIGHBOR_KEYS_def)
  have "\<not> fst (verify_directed toy_crypto ?P ?m [66, 1] trailer (set_time 5 Unknown s1))"
    by (rule replays_refused [OF toy_crypto_ok ok, of ?c ?m "directed_counter trailer" s1 "[SetTime 5 Unknown]" "set_time 5 Unknown s1" ?c "directed_counter trailer"])
      (use v in simp_all)
  with v show ?thesis by blast
qed

theorem counters_never_reused_witness:
  "\<exists>n n' s1. emitted toy_crypto (SignFanout [1] (replicate 72 0)) (demo_node 4) = Some n
     \<and> auth_perform toy_crypto default_auth_profile (SignFanout [1] (replicate 72 0)) (demo_node 4) = Some s1
     \<and> emitted toy_crypto (SignFanout [2] (replicate 72 0)) s1 = Some n' \<and> n < n'"
proof -
  let ?P = default_auth_profile
  have e: "emitted toy_crypto (SignFanout f (replicate 72 0)) s \<noteq> None" if "oa_send_counter s \<noteq> - 1" for f s
    using that by (simp add: sign_fanout_def FANOUT_TRAILER_LEN_def SIG_LEN_def next_send_counter_def Let_def)
  let ?s1 = "snd (sign_fanout toy_crypto [1] (replicate 72 0) (demo_node 4))"
  let ?s2 = "snd (sign_fanout toy_crypto [2] (replicate 72 0) ?s1)"
  have c: "oa_send_counter ?s1 = 1" "oa_send_counter ?s2 = 2"
    by (simp_all add: sign_fanout_def FANOUT_TRAILER_LEN_def SIG_LEN_def next_send_counter_def Let_def demo_node_parts)
  obtain n n' where n: "emitted toy_crypto (SignFanout [1] (replicate 72 0)) (demo_node 4) = Some n"
      "emitted toy_crypto (SignFanout [2] (replicate 72 0)) ?s1 = Some n'"
    using e [of "demo_node 4" "[1]"] e [of ?s1 "[2]"] c demo_node_parts(8) by auto
  have "n < n'"
    by (rule counters_never_reused [where P = ?P and calls = "[]" and ?s2.0 = ?s1 and ?s1.0 = ?s1 and ?s3.0 = ?s2, OF toy_crypto_ok demo_node_ok n(1) _ _ _ n(2)])
      (use c in \<open>simp_all add: KEEPALIVE_COUNTER_TAG_def\<close>)
  with n show ?thesis by auto
qed

end
