(* ===== verification/Router_Lifecycle.thy ===== *)
theory Router_Lifecycle
  imports Central_Router Auth_Lifecycle
begin

text \<open>
  The router over its life. Every call on it drives the routing engine and the authenticator only by the
  calls their own life cycles have (\<open>evolves\<close>), so that what holds of every reachable engine and of every
  reachable authenticator holds inside every reachable router.
\<close>

section \<open>How the parts evolve\<close>

definition engine_runs :: "profile \<Rightarrow> batman_engine \<Rightarrow> batman_engine \<Rightarrow> bool" where
  "engine_runs P e e' \<longleftrightarrow> (\<exists>cs. perform_all P cs e = Some e' \<and> (\<forall>b. SetRequireProof b \<notin> set cs))"

fun auth_evolves :: "crypto \<Rightarrow> auth_profile \<Rightarrow> ogm_auth option \<Rightarrow> ogm_auth option \<Rightarrow> bool" where
  "auth_evolves C P _ None = True"
| "auth_evolves C P None (Some _) = False"
| "auth_evolves C P (Some a) (Some a') = (\<exists>calls. list_all Auth_Lifecycle.call_ok calls \<and> auth_run C P calls a = Some a')"

definition rest_ok :: "router_profile \<Rightarrow> central_router \<Rightarrow> bool" where
  "rest_ok P r \<longleftrightarrow> (\<exists>l xs. it_repr (cp_ident P) (ce_ident_table r) xs l) \<and> lq_ok (cp_link_quality P) (ce_link_quality r)
     \<and> length (ce_link_features r) = max_interfaces (cp_engine P) \<and> length (ce_iface_names r) = max_interfaces (cp_engine P)
     \<and> (\<forall>n\<in>set (ce_iface_names r). length n \<le> MAX_INTERFACE_NAME_LEN) \<and> ce_iface_count r \<le> max_interfaces (cp_engine P)
     \<and> router_ok (ce_ping r)"

definition evolves :: "crypto \<Rightarrow> router_profile \<Rightarrow> central_router \<Rightarrow> central_router \<Rightarrow> bool" where
  "evolves C P r r' \<longleftrightarrow> engine_runs (cp_engine P) (ce_batman r) (ce_batman r')
     \<and> auth_evolves C (cp_auth P) (ce_auth r) (ce_auth r') \<and> (rest_ok P r \<longrightarrow> rest_ok P r')"

lemma perform_all_append: "perform_all P (cs @ ds) e = Option.bind (perform_all P cs e) (perform_all P ds)"
  by (induction cs arbitrary: e) (simp_all split: bind_split)

lemma auth_run_append: "auth_run C P (cs @ ds) s = Option.bind (auth_run C P cs s) (auth_run C P ds)"
  by (induction cs arbitrary: s) (simp_all split: option.split)

lemma engine_runs_refl [simp, intro]: "engine_runs P e e"
  unfolding engine_runs_def by (rule exI [of _ "[]"]) simp

lemma engine_runs_trans:
  assumes "engine_runs P a b" "engine_runs P b c"
  shows "engine_runs P a c"
proof -
  obtain cs ds where "perform_all P cs a = Some b" "perform_all P ds b = Some c"
      "\<forall>x. SetRequireProof x \<notin> set cs" "\<forall>x. SetRequireProof x \<notin> set ds"
    using assms by (auto simp: engine_runs_def)
  then show ?thesis unfolding engine_runs_def by (intro exI [of _ "cs @ ds"]) (simp add: perform_all_append)
qed

lemma engine_runs_call: "perform P c e = Some e' \<Longrightarrow> (\<And>b. c \<noteq> SetRequireProof b) \<Longrightarrow> engine_runs P e e'"
  unfolding engine_runs_def by (intro exI [of _ "[c]"]) auto

lemma auth_evolves_refl [simp, intro]: "auth_evolves C P x x"
proof (cases x)
  case (Some a)
  then show ?thesis by (auto intro: exI [of _ "[]"])
qed simp

lemma auth_evolves_trans: "auth_evolves C P x y \<Longrightarrow> auth_evolves C P y z \<Longrightarrow> auth_evolves C P x z"
proof (cases z)
  case (Some c)
  assume l: "auth_evolves C P x y" "auth_evolves C P y z"
  then obtain b where y: "y = Some b" using Some by (cases y) auto
  then obtain a where x: "x = Some a" using l by (cases x) auto
  obtain cs ds where "list_all Auth_Lifecycle.call_ok cs" "auth_run C P cs a = Some b" "list_all Auth_Lifecycle.call_ok ds" "auth_run C P ds b = Some c"
    using l by (auto simp: x y Some)
  then show ?thesis by (auto simp: x Some auth_run_append intro: exI [of _ "cs @ ds"])
qed simp

lemma auth_evolves_call:
  "auth_perform C P call a = Some a' \<Longrightarrow> Auth_Lifecycle.call_ok call \<Longrightarrow> auth_evolves C P (Some a) (Some a')"
  by (auto intro: exI [of _ "[call]"])

lemma evolves_refl [simp, intro]: "evolves C P r r"
  by (simp add: evolves_def)

lemma evolves_trans: "evolves C P a b \<Longrightarrow> evolves C P b c \<Longrightarrow> evolves C P a c"
  unfolding evolves_def using engine_runs_trans auth_evolves_trans by blast

lemma rest_ok_other [simp]:
  "rest_ok P (r\<lparr>ce_batman := e\<rparr>) = rest_ok P r" "rest_ok P (r\<lparr>ce_auth := a\<rparr>) = rest_ok P r"
  "rest_ok P (r\<lparr>ce_swept_key_generation := g\<rparr>) = rest_ok P r" "rest_ok P (r\<lparr>ce_require_auth := b\<rparr>) = rest_ok P r"
  "rest_ok P (r\<lparr>ce_self_revocation := x\<rparr>) = rest_ok P r" "rest_ok P (r\<lparr>ce_pending_self_revocation := x\<rparr>) = rest_ok P r"
  "rest_ok P (r\<lparr>ce_lazy_cert_distribution := b\<rparr>) = rest_ok P r" "rest_ok P (r\<lparr>ce_oversize_drops := n\<rparr>) = rest_ok P r"
  "rest_ok P (r\<lparr>ce_mcast_group_drops := n\<rparr>) = rest_ok P r" "rest_ok P (r\<lparr>ce_mcast_unroutable_local := n\<rparr>) = rest_ok P r"
  "rest_ok P (r\<lparr>ce_runtime_config_active := b\<rparr>) = rest_ok P r"
  by (simp_all add: rest_ok_def)

lemma evolves_batman: "engine_runs (cp_engine P) (ce_batman r) e \<Longrightarrow> evolves C P r (r\<lparr>ce_batman := e\<rparr>)"
  by (simp add: evolves_def)

lemma evolves_auth: "auth_evolves C (cp_auth P) (ce_auth r) a \<Longrightarrow> evolves C P r (r\<lparr>ce_auth := a\<rparr>)"
  by (simp add: evolves_def)

lemma evolves_rest: "ce_batman r' = ce_batman r \<Longrightarrow> ce_auth r' = ce_auth r \<Longrightarrow> (rest_ok P r \<Longrightarrow> rest_ok P r') \<Longrightarrow> evolves C P r r'"
  by (simp add: evolves_def)

text \<open>Authenticator calls as the router spells them.\<close>

lemma auth_evolves_calls:
  "auth_evolves C P (Some a) (Some (snd (verify_ogm C P payload a)))"
  "auth_evolves C P (Some a) (Some (snd (build_cert_req_frame C P orig fp hop tx a)))"
  "auth_evolves C P (Some a) (Some (snd (verify_keepalive C P src payload a)))"
  "auth_evolves C P (Some a) (Some (snd (verify_challenge_response C P src tag a)))"
  "auth_evolves C P (Some a) (Some (snd (take_self_revoked a)))"
  "auth_evolves C P (Some a) (Some (snd (take_trickle_reset_hint a)))"
  "auth_evolves C P (Some a) (Some (snd (snd (answer_cert_request C P hp body reply a))))"
  "auth_evolves C P (Some a) (Some (snd (snd (flush_pending_cert_reply hp orig reply a))))"
  "auth_evolves C P (Some a) (Some (snd (ingest_renew_reply C body a)))"
  "auth_evolves C P (Some a) (Some (handle_renew_req C P body a))"
  "auth_evolves C P (Some a) (Some (snd (ingest_cert_reply C P body a)))"
  "auth_evolves C P (Some a) (Some (snd (augment_keepalive C buf len a)))"
  "auth_evolves C P (Some a) (Some (set_time now wall a))"
  "auth_evolves C P (Some a) (Some (snd (take_renewed_cert a)))"
  "auth_evolves C P (Some a) (Some (snd (take_renewal_request a)))"
  "revocation_ok rec \<Longrightarrow> auth_evolves C P (Some a) (Some (snd (ingest_revocation C P rec a)))"
  by (rule auth_evolves_call [where call = "VerifyOgm payload"] auth_evolves_call [where call = "BuildCertReq orig fp hop tx"]
      auth_evolves_call [where call = "VerifyKeepalive src payload"] auth_evolves_call [where call = "VerifyResponse src tag"]
      auth_evolves_call [where call = TakeSelfRevoked] auth_evolves_call [where call = TakeTrickleResetHint]
      auth_evolves_call [where call = "AnswerCertRequest hp body reply"] auth_evolves_call [where call = "FlushPendingReply hp orig reply"]
      auth_evolves_call [where call = "IngestRenewReply body"] auth_evolves_call [where call = "HandleRenewReq body"]
      auth_evolves_call [where call = "IngestCertReply body"] auth_evolves_call [where call = "AugmentKeepalive buf len"]
      auth_evolves_call [where call = "SetTime now wall"] auth_evolves_call [where call = TakeRenewedCert]
      auth_evolves_call [where call = TakeRenewalRequest] auth_evolves_call [where call = "Auth_Lifecycle.IngestRevocation rec"]; simp)+

lemma engine_runs_calls:
  fixes push :: "frame_data list frame_sink"
  shows "engine_runs P e (purge_stale now e)" "engine_runs P e (note_proven P now m iface e)" "engine_runs P e (note_challenged P now m e)"
  "engine_runs P e (retain_proven P now usable e)" "engine_runs P e (revoke_originators P ms e)"
  "reset_ogm_timers now e = Some e' \<Longrightarrow> engine_runs P e e'"
  "engine_runs P e (engine_reset e)" "set_local_mcast_groups P now groups e = Some e' \<Longrightarrow> engine_runs P e e'"
  "engine_runs P e (snd (next_broadcast_seqno e))"
  "on_interface_emitted idx now e = Some e' \<Longrightarrow> engine_runs P e e'" "on_keepalive_emitted idx now e = Some e' \<Longrightarrow> engine_runs P e e'"
  "handle_rx P push now frame q reply [] e = Some (act, reply', s', e') \<Longrightarrow> engine_runs P e e'"
  "produce_periodic_broadcast now buf e = Some (out, buf', e') \<Longrightarrow> engine_runs P e e'"
  "configure_interface_ogm P idx i_min i_max now e = Some e' \<Longrightarrow> engine_runs P e e'"
  "configure_interface_keepalive P idx interval now e = Some e' \<Longrightarrow> engine_runs P e e'"
  by (rule engine_runs_call [where c = "PurgeStale now"] engine_runs_call [where c = "NoteProven now m iface"]
      engine_runs_call [where c = "NoteChallenged now m"] engine_runs_call [where c = "RetainProven now usable"]
      engine_runs_call [where c = "RevokeOriginators ms"] engine_runs_call [where c = "ResetOgmTimers now"]
      engine_runs_call [where c = ResetEngine] engine_runs_call [where c = "SetLocalGroups now groups"]
      engine_runs_call [where c = NextBroadcastSeqno] engine_runs_call [where c = "OgmEmitted idx now"]
      engine_runs_call [where c = "KeepaliveEmitted idx now"] engine_runs_call [where c = "Receive push now frame q reply"]
      engine_runs_call [where c = "ProducePeriodic now buf"] engine_runs_call [where c = "ConfigureOgm idx i_min i_max now"]
      engine_runs_call [where c = "ConfigureKeepalive idx interval now"]; simp)+

lemma engine_runs_purge: "purge_revoked P now a e = Some e' \<Longrightarrow> engine_runs (cp_engine P) e e'"
  by (auto simp: purge_revoked_def intro: engine_runs_trans [OF _ engine_runs_calls(1)] engine_runs_trans [OF engine_runs_calls(6) engine_runs_calls(5)])

lemma purge_revoked_fits:
  "purge_revoked P now a e = None \<Longrightarrow> \<not> resets_fit now e"
  "purge_revoked P now a e = Some e' \<Longrightarrow> resets_fit now e' = resets_fit now e"
proof -
  have "ogm_timers (revoke_originators Q ms x) = ogm_timers x" for Q ms x
    unfolding revoke_originators_def by (induction ms arbitrary: x) (simp_all add: revoke_originator_def Let_def)
  then show "purge_revoked P now a e = None \<Longrightarrow> \<not> resets_fit now e"
      "purge_revoked P now a e = Some e' \<Longrightarrow> resets_fit now e' = resets_fit now e"
    by (auto simp: purge_revoked_def reset_ogm_timers_eq resets_fit_def timers_restarted_def reset_fits_def frame_simps split: if_splits)
qed

section \<open>The steps of the router\<close>

lemma rest_ok_lq [simp]:
  "rest_ok P r \<Longrightarrow> 0 < cp_link_quality P \<Longrightarrow> rest_ok P (r\<lparr>ce_link_quality := lq_update (cp_link_quality P) m i q (ce_link_quality r)\<rparr>)"
  "rest_ok P r \<Longrightarrow> rest_ok P (r\<lparr>ce_link_quality := retain_live f (ce_link_quality r)\<rparr>)"
  using lq_step_ok [of "cp_link_quality P" "ce_link_quality r" "Sample m i q"] retain_live_ok
  by (auto simp: rest_ok_def)

lemma evolves_retain: "evolves C P r (r\<lparr>ce_link_quality := retain_live f (ce_link_quality r)\<rparr>)"
  by (rule evolves_rest) simp_all

lemma evolves_touch [simp]: "evolves C P r (touch_iface P idx r)" "evolves C P r (record_rx P idx r)" "evolves C P r (record_tx P idx r)"
proof -
  show t: "evolves C P r (touch_iface P idx r)" by (rule evolves_rest) (auto simp: touch_iface_def rest_ok_def)
  then show "evolves C P r (record_rx P idx r)" "evolves C P r (record_tx P idx r)" by (simp_all add: record_rx_def record_tx_def)
qed

lemma ident_cleared:
  assumes "ident_profile_ok P" "it_repr P t xs l"
  shows "\<exists>l xs. it_repr P (ident_clear P t) xs l"
  using ident_clear_new [OF assms(2)] ident_new_repr [OF assms(1)] by auto

lemma rest_ok_clear:
  assumes "ident_profile_ok (cp_ident P)" "rest_ok P r"
  shows "rest_ok P (r\<lparr>ce_ident_table := ident_clear (cp_ident P) (ce_ident_table r), ce_link_quality := lq_clear (ce_link_quality r)\<rparr>)"
  using assms ident_cleared [OF assms(1)] lq_new_ok by (fastforce simp: rest_ok_def lq_clear_def lq_new_def)

lemma evolves_apply_revocation:
  assumes "ident_profile_ok (cp_ident P)"
  shows "evolves C P r (snd (apply_self_revocation P r))"
proof (cases "ce_auth r")
  case (Some a)
  obtain got a' where g: "take_self_revoked a = (got, a')" by (cases "take_self_revoked a")
  show ?thesis
  proof (cases got)
    case None
    with Some g auth_evolves_calls(5) [of C "cp_auth P" a] show ?thesis
      by (simp add: apply_self_revocation_def evolves_auth)
  next
    case (Some rec)
    let ?r = "r\<lparr>ce_auth := None, ce_self_revocation := Some rec, ce_pending_self_revocation := Some rec, ce_batman := engine_reset (ce_batman r)\<rparr>"
    have "rest_ok P ?r \<Longrightarrow> rest_ok P (?r\<lparr>ce_ident_table := ident_clear (cp_ident P) (ce_ident_table ?r), ce_link_quality := lq_clear (ce_link_quality ?r)\<rparr>)"
      by (rule rest_ok_clear [OF assms])
    then show ?thesis
      using \<open>ce_auth r = Some a\<close> g Some engine_runs_calls(7)
      by (simp add: apply_self_revocation_def evolves_def)
  qed
qed (simp add: apply_self_revocation_def)

lemma evolves_ogm_gate: "evolves C P r (snd (ogm_gate C P pt frame tx r))"
proof (cases "ce_auth r")
  case (Some a)
  obtain v a' where v: "verify_ogm C (cp_auth P) (lf_payload frame) a = (v, a')" by (cases "verify_ogm C (cp_auth P) (lf_payload frame) a")
  with auth_evolves_calls(1) [of C "cp_auth P" a "lf_payload frame"] have e1: "auth_evolves C (cp_auth P) (Some a) (Some a')" by simp
  have "auth_evolves C (cp_auth P) (Some a) (Some (snd (build_cert_req_frame C (cp_auth P) orig fp hop tx a')))" for orig fp hop
    by (rule auth_evolves_trans [OF e1 auth_evolves_calls(2)])
  with e1 Some v show ?thesis
    by (cases v) (auto simp: ogm_gate_def evolves_auth split_beta)
qed (simp add: ogm_gate_def)

lemma evolves_keepalive_gate: "evolves C P r (snd (keepalive_gate C P pt frame r))"
  using auth_evolves_calls(3) by (auto simp: keepalive_gate_def split_beta evolves_auth split: option.split)

lemma evolves_proof_gate: "evolves C P r (snd (proof_gate C P now iface pt frame tx_len r))"
proof (cases "ce_auth r")
  case (Some a)
  have e1: "evolves C P r (r\<lparr>ce_auth := Some (snd (verify_challenge_response C (cp_auth P) (lf_src frame) (inner_body (lf_payload frame)) a))\<rparr>)"
    using Some auth_evolves_calls(4) by (intro evolves_auth) simp
  from evolves_trans [OF this evolves_batman, of "note_proven (cp_engine P) now (lf_src frame) iface (ce_batman r)"] e1 Some
  show ?thesis by (auto simp: proof_gate_def split_beta Let_def engine_runs_calls(2))
qed (simp add: proof_gate_def)

lemma evolves_hint_purge:
  assumes "hint_purge P now r = Some r'"
  shows "evolves C P r r'"
proof (cases "ce_auth r")
  case (Some a)
  have e1: "evolves C P r (r\<lparr>ce_auth := Some (snd (take_trickle_reset_hint a))\<rparr>)"
    using Some auth_evolves_calls(6) by (intro evolves_auth) simp
  have "evolves C P r (r\<lparr>ce_auth := Some (snd (take_trickle_reset_hint a)), ce_batman := e\<rparr>)"
    if "purge_revoked P now a' (ce_batman r) = Some e" for a' e
    using evolves_trans [OF e1 evolves_batman] engine_runs_purge [OF that] by simp
  with e1 Some assms show ?thesis by (auto simp: hint_purge_def split_beta Let_def split: if_splits)
qed (use assms in \<open>simp add: hint_purge_def\<close>)

lemma hint_purge_fits:
  "hint_purge P now r = None \<Longrightarrow> \<not> resets_fit now (ce_batman r)"
  "hint_purge P now r = Some r' \<Longrightarrow> resets_fit now (ce_batman r') = resets_fit now (ce_batman r)"
  using purge_revoked_fits by (auto simp: hint_purge_def Let_def split: option.splits prod.splits if_splits)

lemma evolves_deliver: "evolves C P r (snd (deliver_local C P now pt frame reply r))"
proof -
  have m: "evolves C P r (r\<lparr>ce_auth := map_option f (ce_auth r)\<rparr>)"
    if "\<And>a. auth_evolves C (cp_auth P) (Some a) (Some (f a))" for f
    using that by (cases "ce_auth r") (auto intro!: evolves_auth simp del: auth_evolves.simps)
  have ans: "evolves C P r (r\<lparr>ce_auth := Some a'\<rparr>)"
    if "ce_auth r = Some a" "answer_cert_request C (cp_auth P) hp body reply a = (x, y, a')" for a x y a' hp body
    using that auth_evolves_calls(7) [of C "cp_auth P" a hp body reply] by (intro evolves_auth) simp
  have png: "evolves C P r (r\<lparr>ce_ping := echo_reply_received now frame (ce_ping r)\<rparr>)"
    by (rule evolves_rest) (use ping_step_ok [of "ce_ping r" "Reply now frame"] in \<open>auto simp: rest_ok_def\<close>)
  show ?thesis
    unfolding deliver_local_def Let_def
    using m [OF auth_evolves_calls(9)] m [OF auth_evolves_calls(10)] m [OF auth_evolves_calls(11)] ans png
    by (auto split: option.split batman_packet_type.split prod.split simp del: auth_evolves.simps)
qed

lemma evolves_outcome: "evolves C P r (snd (route_outcome C P now iface pt frame act reply r))"
proof -
  have "evolves C P r (r\<lparr>ce_auth := Some a'\<rparr>)"
    if "ce_auth r = Some a" "flush_pending_cert_reply hp orig reply a = (x, y, a')" for a x y a' hp orig
    using that auth_evolves_calls(8) [of C "cp_auth P" a hp orig reply] by (intro evolves_auth) simp
  then show ?thesis
    using evolves_deliver by (auto simp: route_outcome_def split: routing_action.split option.split prod.split simp del: auth_evolves.simps)
qed

section \<open>What frames cannot touch in the engine\<close>

text \<open>No frame the engine handles changes a proof or the gate; a proof comes only from the router.\<close>

definition proofs_kept :: "batman_engine \<Rightarrow> batman_engine \<Rightarrow> bool" where
  "proofs_kept e e' \<longleftrightarrow> proven e' = proven e \<and> require_proof e' = require_proof e"

lemma proofs_kept_refl [simp]: "proofs_kept e e"
  by (simp add: proofs_kept_def)

lemma proofs_kept_trans: "proofs_kept a b \<Longrightarrow> proofs_kept b c \<Longrightarrow> proofs_kept a c"
  by (simp add: proofs_kept_def)

lemma proofs_kept_relay_into: "proofs_kept e (snd (relay_into hdr inner nh reply e))"
  by (simp add: proofs_kept_def relay_into_def Let_def note_relay_oversize_drop_def)

lemma proofs_kept_relay: "proofs_kept e (snd (snd (handle_credential_control dec enc dst ttl hop now frame reply e)))"
  by (simp add: handle_credential_control_def Let_def proofs_kept_relay_into split: option.split prod.split)

lemma proofs_kept_admit: "proofs_kept e (snd (admit_broadcast P now orig seqno e))"
  by (simp add: proofs_kept_def admit_broadcast_def Let_def split: option.splits prod.splits)

lemma proofs_kept_broadcast: "proofs_kept e (snd (snd (handle_broadcast P now frame reply e)))"
  using proofs_kept_admit [of e P now] proofs_kept_relay_into
  by (fastforce simp: handle_broadcast_def case_prod_beta split: option.split bool.split intro: proofs_kept_trans)

lemma proofs_kept_keepalive: "proofs_kept e (snd (handle_keepalive P now frame e))"
  by (simp add: proofs_kept_def handle_keepalive_def note_keepalive_def Let_def split: option.split)

lemma proofs_kept_counters [simp]:
  "proofs_kept e (e'\<lparr>mcast_emit_overflows := n\<rparr>) = proofs_kept e e'" "proofs_kept e (e'\<lparr>mcast_unroutable_dests := n\<rparr>) = proofs_kept e e'"
  "proofs_kept e (e'\<lparr>mcast_oversize_lists := n\<rparr>) = proofs_kept e e'" "proofs_kept e (note_relay_oversize_drop e') = proofs_kept e e'"
  by (simp_all add: proofs_kept_def note_relay_oversize_drop_def)

lemma proofs_kept_emit:
  "proofs_kept e0 e \<Longrightarrow> proofs_kept e0 (snd (snd (mcast_emit_loop push ttl inner routed todo seen scratch s e)))"
proof (induction push ttl inner routed todo seen scratch s e rule: mcast_emit_loop.induct)
  case (2 push ttl inner routed nh d todo seen scratch s e)
  show ?case
    using "2.IH"(1) "2.IH"(2) [OF _ refl refl] "2.IH"(3) [OF _ refl refl] "2.prems"
    by (auto simp: Let_def split: prod.split option.split)
qed simp

lemma proofs_kept_route: "proofs_kept e0 e \<Longrightarrow> proofs_kept e0 (snd (mcast_route_loop now ds routed e))"
  by (induction now ds routed e rule: mcast_route_loop.induct) (auto split: option.split)

lemma proofs_kept_mcast: "proofs_kept e (snd (snd (snd (handle_mcast push now frame s scratch e))))"
  by (simp add: handle_mcast_def Let_def case_prod_beta proofs_kept_emit proofs_kept_route split: option.split)

lemma proofs_kept_ogm:
  assumes "profile_ok P" "engine_ok P e" "handle_ogm P now frame q reply e = Some (act, reply', e')"
  shows "proofs_kept e e'"
proof -
  have "same_proofs e e'" by (rule handle_ogm_result [OF assms(1,2), of now frame q reply]) (use assms(3) in auto)
  then show ?thesis by (simp add: proofs_kept_def same_proofs_def)
qed

lemma proofs_kept_rx:
  assumes "profile_ok P" "engine_ok P e" "handle_rx P push now frame q reply s e = Some (act, reply', s', e')"
  shows "proofs_kept e e'"
proof -
  have un: "proofs_kept e x" if "handle_unicast now frame reply e = (a, r, x)" for a r x
    using proofs_kept_relay that unfolding handle_unicast_relay by (metis snd_conv)
  have ec: "proofs_kept e x" if "handle_echo now frame reply e = (a, r, x)" for a r x
    using proofs_kept_relay that unfolding handle_echo_relay by (metis snd_conv)
  have cr: "proofs_kept e x" if "handle_credential now frame reply e = (a, r, x)" for a r x
    using proofs_kept_relay that unfolding handle_credential_def by (metis snd_conv)
  have br: "proofs_kept e x" if "handle_broadcast P now frame reply e = (a, r, x)" for a r x
    using proofs_kept_broadcast [of e P now frame reply] that by simp
  have ka: "proofs_kept e x" if "handle_keepalive P now frame e = (a, x)" for a x
    using proofs_kept_keepalive [of e P now frame] that by simp
  have mc: "proofs_kept e x" if "handle_mcast push now frame s (fd_payload reply) e = (a, r, t, x)" for a r t x
    using proofs_kept_mcast [of e push now frame s "fd_payload reply"] that by simp
  show ?thesis
    using assms(3) un ec cr br ka mc proofs_kept_ogm [OF assms(1,2)]
    by (auto simp: handle_rx_def Let_def
        split: if_splits option.splits batman_packet_type.splits prod.splits bind_splits)
qed

lemma revoke_originators_require: "require_proof (revoke_originators P ms e) = require_proof e"
  unfolding revoke_originators_def by (induction ms arbitrary: e) (simp_all add: revoke_originator_def Let_def)

lemma perform_require:
  assumes "profile_ok P" "engine_ok P e" "perform P c e = Some e'" "\<And>b. c \<noteq> SetRequireProof b"
  shows "require_proof e' = require_proof e"
proof (cases c)
  case (Receive push now frame q reply)
  then obtain act reply' s' where "handle_rx P push now frame q reply [] e = Some (act, reply', s', e')" using assms(3) by auto
  from proofs_kept_rx [OF assms(1,2) this] show ?thesis by (simp add: proofs_kept_def)
next
  case (RevokeOriginators ms)
  then show ?thesis using assms(3) revoke_originators_require by auto
next
  case (PurgeStale now)
  then show ?thesis using assms(3) by (auto simp: frame_simps)
next
  case (ProducePeriodic now buf)
  then show ?thesis using assms(3) by (auto simp: produce_periodic_broadcast_eq Let_def ticked_def frame_simps
      topology_settled_def timers_restarted_def split: if_splits)
qed (use assms(3,4) in \<open>auto simp: timer_call_eqs ogm_configured_def keepalive_configured_def interface_served_def
      keepalive_served_def timers_restarted_def groups_set_def frame_simps
      next_broadcast_seqno_def note_proven_def note_challenged_def engine_reset_def Let_def split: if_splits option.splits\<close>)

lemma engine_runs_ok:
  assumes "profile_ok P" "engine_ok P e" "engine_runs P e e'"
  shows "engine_ok P e'" "self_ident e' = self_ident e" "require_proof e' = require_proof e"
proof -
  have r: "require_proof e' = require_proof e" if "perform_all P cs e = Some e'" "\<forall>b. SetRequireProof b \<notin> set cs" "engine_ok P e" for cs e
    using that
  proof (induction cs arbitrary: e)
    case (Cons c cs)
    then obtain e1 where e1: "perform P c e = Some e1" "perform_all P cs e1 = Some e'" by (auto split: bind_splits)
    have "engine_ok P e1" using perform_ok [OF assms(1) Cons.prems(3), of c] e1(1) by simp
    with Cons.IH [OF e1(2)] perform_require [OF assms(1) Cons.prems(3) e1(1)] Cons.prems(2) show ?case by auto
  qed simp
  show "engine_ok P e'" "self_ident e' = self_ident e" "require_proof e' = require_proof e"
    using assms(2,3) perform_all_seqno [OF assms(1,2)] r by (auto simp: engine_runs_def)
qed

lemma engine_runs_reachable: "reachable P ident e \<Longrightarrow> engine_runs P e e' \<Longrightarrow> reachable P ident e'"
proof -
  have "reachable P ident e'" if "reachable P ident e" "perform_all P cs e = Some e'" for cs e
    using that
    by (induction cs arbitrary: e) (auto split: bind_splits intro: reachable.call)
  then show "reachable P ident e \<Longrightarrow> engine_runs P e e' \<Longrightarrow> reachable P ident e'" by (auto simp: engine_runs_def)
qed

lemma auth_evolves_reachable:
  assumes "auth_reachable C P a" "auth_evolves C P (Some a) (Some a')"
  shows "auth_reachable C P a'"
proof -
  have "auth_reachable C P a'" if "auth_reachable C P a" "list_all Auth_Lifecycle.call_ok calls" "auth_run C P calls a = Some a'" for calls a
    using that by (induction calls arbitrary: a) (auto split: option.splits intro: performed)
  with assms show ?thesis by auto
qed

section \<open>Receiving\<close>

lemma gated_evolves:
  assumes "\<And>r. evolves C P r (snd (gate r))" "\<And>r out s' r'. k r = Some (out, s', r') \<Longrightarrow> evolves C P r r'"
    and "gated gate s k r = Some (out, s', r')"
  shows "evolves C P r r'"
proof (cases "gate r")
  case (Pair x r1)
  have "evolves C P r r1" using assms(1) [of r] by (simp add: Pair)
  moreover have "evolves C P r1 r'" using assms(2,3) by (cases x) (auto simp: gated_def Pair)
  ultimately show ?thesis by (rule evolves_trans)
qed

lemma gated_returns:
  assumes "\<And>r. Q r \<Longrightarrow> Q (snd (gate r))" "\<And>r. Q r \<Longrightarrow> k r \<noteq> None" "Q r"
  shows "gated gate s k r \<noteq> None"
proof (cases "gate r")
  case (Pair x r1)
  have "k r1 \<noteq> None" using assms(2) [of r1] assms(1) [OF assms(3)] by (simp add: Pair)
  then show ?thesis by (cases x) (simp_all add: gated_def Pair)
qed

lemma evolves_engine_ok:
  assumes "profile_ok (cp_engine P)" "engine_ok (cp_engine P) (ce_batman r)" "evolves C P r r'"
  shows "engine_ok (cp_engine P) (ce_batman r')"
  using engine_runs_ok(1) [OF assms(1,2)] assms(3) by (auto simp: evolves_def)

lemma evolves_self_gate: "ident_profile_ok (cp_ident P) \<Longrightarrow> evolves C P r (snd (self_revocation_gate P r))"
  using evolves_apply_revocation by (auto simp: self_revocation_gate_def split_beta)

lemma route_frame_evolves:
  fixes push :: "frame_data list frame_sink"
  assumes "route_frame C P push now iface pt frame q tx [] r = Some (out, s', r')"
  shows "evolves C P r r'"
proof -
  obtain r1 act reply s1 e1 where h: "hint_purge P now r = Some r1"
      "handle_rx (cp_engine P) push now frame q (scratchpad tx) [] (ce_batman r1) = Some (act, reply, s1, e1)"
    using assms by (auto simp: route_frame_def split: option.splits)
  then have "r' = snd (route_outcome C P now iface pt frame act reply (r1\<lparr>ce_batman := e1\<rparr>))"
    using assms by (auto simp: route_frame_def split: prod.splits)
  with evolves_trans [OF evolves_hint_purge [OF h(1)] evolves_trans [OF evolves_batman [OF engine_runs_calls(12) [OF h(2)]] evolves_outcome]]
  show ?thesis by simp
qed

lemma route_frame_returns:
  assumes "profile_ok (cp_engine P)" "engine_ok (cp_engine P) (ce_batman r)" "resets_fit now (ce_batman r)"
  shows "route_frame C P push now iface pt frame q tx s r \<noteq> None"
proof -
  obtain r1 where r1: "hint_purge P now r = Some r1" "resets_fit now (ce_batman r1)"
    using hint_purge_fits [of P now r] assms(3) by (cases "hint_purge P now r") auto
  have "engine_ok (cp_engine P) (ce_batman r1)" by (rule evolves_engine_ok [OF assms(1,2) evolves_hint_purge [OF r1(1)]])
  from handle_rx_returns [OF assms(1) this, where push = push and now = now and frame = frame and q = q and reply = "scratchpad tx" and s = s]
    r1 show ?thesis by (auto simp: route_frame_def split: prod.split option.splits)
qed

lemma gates_keep_timers:
  "ogm_timers (ce_batman (snd (ogm_gate C P pt frame tx r))) = ogm_timers (ce_batman r)"
  "ogm_timers (ce_batman (snd (keepalive_gate C P pt frame r))) = ogm_timers (ce_batman r)"
  "ogm_timers (ce_batman (snd (proof_gate C P now iface pt frame n r))) = ogm_timers (ce_batman r)"
  "ogm_timers (ce_batman (snd (self_revocation_gate P r))) = ogm_timers (ce_batman r)"
proof -
  show "ogm_timers (ce_batman (snd (ogm_gate C P pt frame tx r))) = ogm_timers (ce_batman r)"
    by (auto simp: ogm_gate_def Let_def split: option.split prod.split ogm_verdict.split)
  show "ogm_timers (ce_batman (snd (keepalive_gate C P pt frame r))) = ogm_timers (ce_batman r)"
    by (auto simp: keepalive_gate_def Let_def split: option.split prod.split)
  show "ogm_timers (ce_batman (snd (proof_gate C P now iface pt frame n r))) = ogm_timers (ce_batman r)"
    by (auto simp: proof_gate_def Let_def note_proven_def frame_simps split: option.split prod.split)
  show "ogm_timers (ce_batman (snd (self_revocation_gate P r))) = ogm_timers (ce_batman r)"
    by (auto simp: self_revocation_gate_def apply_self_revocation_def engine_reset_def split: option.split prod.split)
qed

lemma receive_evolves:
  fixes push :: "frame_data list frame_sink"
  assumes "ident_profile_ok (cp_ident P)" "receive_batman C P push now iface pt frame q tx [] r = Some (out, s', r')"
  shows "evolves C P r r'"
proof (cases "overheard pt (lf_dst frame) (self_ident (ce_batman r)) \<or> rx_gated pt (link_features_of iface r)")
  case True
  with assms(2) have "r' = r" by (auto simp: receive_batman_def split: if_splits)
  then show ?thesis by simp
next
  case False
  with assms(2) have "gated (ogm_gate C P pt frame tx) [] (gated (keepalive_gate C P pt frame) []
      (gated (proof_gate C P now iface pt frame (length tx)) [] (gated (self_revocation_gate P) []
        (route_frame C P push now iface pt frame q tx [])))) r = Some (out, s', r')"
    by (simp add: receive_batman_def)
  from gated_evolves [OF evolves_ogm_gate gated_evolves [OF evolves_keepalive_gate gated_evolves [OF evolves_proof_gate
        gated_evolves [OF evolves_self_gate [OF assms(1)] route_frame_evolves]]] this]
  show ?thesis .
qed

lemma receive_returns:
  assumes "profile_ok (cp_engine P)" "ident_profile_ok (cp_ident P)" "engine_ok (cp_engine P) (ce_batman r)"
    and "resets_fit now (ce_batman r)"
  shows "receive_batman C P push now iface pt frame q tx s r \<noteq> None"
proof -
  let ?Q = "\<lambda>r. engine_ok (cp_engine P) (ce_batman r) \<and> resets_fit now (ce_batman r)"
  have keep: "?Q (snd (gate x))" if "?Q x" "evolves C P x (snd (gate x))" "ogm_timers (ce_batman (snd (gate x))) = ogm_timers (ce_batman x)"
    for gate :: "central_router \<Rightarrow> rx_outcome option \<times> central_router" and x
    using that evolves_engine_ok [OF assms(1) _ that(2)] by (simp add: resets_fit_def)
  have "gated (ogm_gate C P pt frame tx) s (gated (keepalive_gate C P pt frame) s
      (gated (proof_gate C P now iface pt frame (length tx)) s (gated (self_revocation_gate P) s
        (route_frame C P push now iface pt frame q tx s)))) r \<noteq> None"
    by (intro gated_returns [where Q = ?Q] keep evolves_ogm_gate evolves_keepalive_gate evolves_proof_gate
        evolves_self_gate [OF assms(2)] gates_keep_timers route_frame_returns [OF assms(1)]) (use assms(3,4) in auto)
  then show ?thesis by (simp add: receive_batman_def)
qed

text \<open>The accounting that precedes the demultiplexer, and the sender's shun.\<close>

definition shunned_src :: "mac \<Rightarrow> central_router \<Rightarrow> bool" where
  "shunned_src m r \<longleftrightarrow> (case ce_auth r of Some a \<Rightarrow> is_shunned m a | None \<Rightarrow> False)"

definition accounted :: "router_profile \<Rightarrow> nat \<Rightarrow> link_frame \<Rightarrow> link_metrics \<Rightarrow> central_router \<Rightarrow> central_router" where
  "accounted P iface frame metrics r =
     record_rx P iface (if shunned_src (lf_src frame) r then r
       else r\<lparr>ce_link_quality := lq_update (cp_link_quality P) (lf_src frame) iface (normalize_quality metrics) (ce_link_quality r)\<rparr>)"

lemma handle_frame_eq:
  "handle_frame_with_metrics C P push now iface frame metrics tx s r =
     (if auth_locked r then Some (outcome_empty, s, r)
      else let r' = accounted P iface frame metrics r
           in if shunned_src (lf_src frame) r \<and> frame_packet_type frame \<notin> {Some Ogm, Some CertReq, Some CertReply} then Some (outcome_empty, s, r')
              else case add_record (cp_ident P) iface (lf_dst frame) (ce_ident_table r') of
                     None \<Rightarrow> None
                   | Some t \<Rightarrow>
                       if lf_protocol frame = ETH_P_BATMAN
                       then receive_batman C P push now iface (frame_packet_type frame) frame (quality_for (lf_src frame) iface (ce_link_quality r'))
                              (replicate (length tx) 0) s (r'\<lparr>ce_ident_table := t\<rparr>)
                       else Some (outcome_empty, s, r'\<lparr>ce_ident_table := t\<rparr>))"
  by (simp add: handle_frame_with_metrics_def accounted_def shunned_src_def Let_def cong: option.case_cong)

lemma accounted_evolves: "0 < cp_link_quality P \<Longrightarrow> evolves C P r (accounted P iface frame metrics r)"
  unfolding accounted_def by (rule evolves_trans [OF evolves_rest evolves_touch(2)]) simp_all

lemma accounted_frame [simp]:
  "ce_batman (accounted P iface frame metrics r) = ce_batman r" "ce_auth (accounted P iface frame metrics r) = ce_auth r"
  "ce_ident_table (accounted P iface frame metrics r) = ce_ident_table r" "ce_link_features (accounted P iface frame metrics r) = ce_link_features r"
  "auth_locked (accounted P iface frame metrics r) = auth_locked r"
  by (simp_all add: accounted_def record_rx_def touch_iface_def auth_locked_def self_revoked_def)

definition profiles_ok :: "router_profile \<Rightarrow> bool" where
  "profiles_ok P \<longleftrightarrow> profile_ok (cp_engine P) \<and> ident_profile_ok (cp_ident P) \<and> 0 < cp_link_quality P"

lemma recorded_evolves:
  assumes "ident_profile_ok (cp_ident P)" "add_record (cp_ident P) iface m (ce_ident_table r) = Some t"
  shows "evolves C P r (r\<lparr>ce_ident_table := t\<rparr>)"
proof (rule evolves_rest)
  assume "rest_ok P r"
  then obtain xs l where "it_repr (cp_ident P) (ce_ident_table r) xs l" by (auto simp: rest_ok_def)
  with add_record_refines [OF assms(1) this, of iface m] assms(2) \<open>rest_ok P r\<close> show "rest_ok P (r\<lparr>ce_ident_table := t\<rparr>)"
    by (auto simp: rest_ok_def)
qed simp_all

lemma frame_evolves:
  fixes push :: "frame_data list frame_sink"
  assumes "profiles_ok P" "handle_frame_with_metrics C P push now iface frame metrics tx [] r = Some (out, s', r')"
  shows "evolves C P r r'"
proof (cases "auth_locked r")
  case False
  let ?a = "accounted P iface frame metrics r"
  have acc: "evolves C P r ?a" using assms(1) by (intro accounted_evolves) (simp add: profiles_ok_def)
  show ?thesis
  proof (cases "shunned_src (lf_src frame) r \<and> frame_packet_type frame \<notin> {Some Ogm, Some CertReq, Some CertReply}")
    case True
    with False assms(2) acc show ?thesis by (simp add: handle_frame_eq Let_def)
  next
    case live: False
    with False assms(2) obtain t where t: "add_record (cp_ident P) iface (lf_dst frame) (ce_ident_table r) = Some t"
      by (auto simp: handle_frame_eq Let_def split: option.splits)
    have rec: "evolves C P r (?a\<lparr>ce_ident_table := t\<rparr>)"
      using evolves_trans [OF acc recorded_evolves [where m = "lf_dst frame" and iface = iface]] t assms(1) by (simp add: profiles_ok_def)
    show ?thesis
    proof (cases "lf_protocol frame = ETH_P_BATMAN")
      case True
      with False live t assms(2) have "receive_batman C P push now iface (frame_packet_type frame) frame
          (quality_for (lf_src frame) iface (ce_link_quality ?a)) (replicate (length tx) 0) [] (?a\<lparr>ce_ident_table := t\<rparr>) = Some (out, s', r')"
        by (auto simp: handle_frame_eq Let_def)
      with receive_evolves assms(1) rec show ?thesis by (auto simp: profiles_ok_def intro: evolves_trans)
    qed (use False live t assms(2) rec in \<open>auto simp: handle_frame_eq Let_def\<close>)
  qed
qed (use assms(2) in \<open>simp add: handle_frame_eq\<close>)

lemma frame_returns:
  assumes "profiles_ok P" "engine_ok (cp_engine P) (ce_batman r)" "rest_ok P r" "resets_fit now (ce_batman r)"
  shows "handle_frame_with_metrics C P push now iface frame metrics tx s r \<noteq> None"
proof -
  obtain xs l where "it_repr (cp_ident P) (ce_ident_table r) xs l" using assms(3) by (auto simp: rest_ok_def)
  with add_record_refines [of "cp_ident P" "ce_ident_table r" xs l iface "lf_dst frame"] assms(1)
  obtain t where t: "add_record (cp_ident P) iface (lf_dst frame) (ce_ident_table r) = Some t" by (auto simp: profiles_ok_def)
  have "receive_batman C P push now iface pt frame q bs s (x\<lparr>ce_ident_table := t\<rparr>) \<noteq> None" if "ce_batman x = ce_batman r" for x pt q bs
    using receive_returns [of P "x\<lparr>ce_ident_table := t\<rparr>"] assms(1,2,4) that by (simp add: profiles_ok_def)
  with t show ?thesis by (simp add: handle_frame_eq Let_def)
qed

section \<open>Calls\<close>

datatype router_call =
    RxFrame "frame_data list frame_sink" duration nat link_frame link_metrics bytes
  | PollOgm duration bytes
  | PollHeartbeat bytes
  | PollProof duration bytes
  | PollRenew duration bytes
  | PollProbe duration bytes
  | SendLocal duration mac bytes bytes
  | SendMcast "frame_data list frame_sink" duration "mac list" bytes bytes
  | InstallAuth ogm_auth
  | RequireAuth bool
  | RestoreRevocation revocation_record
  | OperatorRevokes revocation_record duration
  | AdvanceTime duration clocked
  | ThroughAuth auth_call
  | ConfigOgm nat duration duration duration
  | ConfigKeepalive nat "duration option" duration
  | RuntimeTrickle nat duration duration duration
  | RuntimeFeatures nat link_features duration
  | RuntimeRequireAuth bool
  | RuntimeLazy bool
  | SetFeatures nat link_features
  | SetName nat bytes
  | SetLazy bool
  | CollectRevocation
  | CollectRenewalRequest
  | CollectRenewedCert
  | EgressFor duration mac
  | LocalGroups duration "mac list"
  | OgmSent nat duration
  | KeepaliveSent nat duration
  | RecordTx nat
  | GroupDropped nat
  | StartProbe duration mac u16 duration duration u16
  | CancelProbe u32

text \<open>The router after a call; \<open>None\<close> is a panic. \<open>ThroughAuth\<close> is what the drivers do with \<^verbatim>\<open>auth_mut\<close>.\<close>

fun router_perform :: "crypto \<Rightarrow> router_profile \<Rightarrow> router_call \<Rightarrow> central_router \<Rightarrow> central_router option" where
  "router_perform C P (RxFrame push now iface frame metrics tx) r =
     map_option (\<lambda>(_, _, r). r) (handle_frame_with_metrics C P push now iface frame metrics tx [] r)"
| "router_perform C P (PollOgm now tx) r = map_option snd (router_poll C P now tx r)"
| "router_perform C P (PollHeartbeat tx) r = Some (snd (poll_keepalive C tx r))"
| "router_perform C P (PollProof now tx) r = map_option snd (poll_challenge C P now tx r)"
| "router_perform C P (PollRenew now tx) r = map_option snd (router_poll_renewal C now tx r)"
| "router_perform C P (PollProbe now tx) r = map_option snd (router_poll_ping now tx r)"
| "router_perform C P (SendLocal now dest payload tx) r = Some (snd (handle_local now dest payload tx r))"
| "router_perform C P (SendMcast push now dests payload tx) r = Some (snd (snd (handle_local_mcast push now dests payload tx [] r)))"
| "router_perform C P (InstallAuth a) r = Some (set_auth P a r)"
| "router_perform C P (RequireAuth b) r = Some (set_require_auth b r)"
| "router_perform C P (RestoreRevocation rec) r = Some (note_self_revoked rec r)"
| "router_perform C P (OperatorRevokes rec now) r = map_option snd (router_ingest_revocation C P rec now r)"
| "router_perform C P (AdvanceTime now wall) r = Some (set_auth_time P now wall r)"
| "router_perform C P (ThroughAuth call) r =
     (case ce_auth r of None \<Rightarrow> Some r | Some a \<Rightarrow> map_option (\<lambda>a. r\<lparr>ce_auth := Some a\<rparr>) (auth_perform C (cp_auth P) call a))"
| "router_perform C P (ConfigOgm idx i_min i_max now) r = router_configure_ogm P idx i_min i_max now r"
| "router_perform C P (ConfigKeepalive idx interval now) r = router_configure_keepalive P idx interval now r"
| "router_perform C P (RuntimeTrickle idx i_min i_max now) r = map_option snd (apply_runtime_trickle_config P idx i_min i_max now r)"
| "router_perform C P (RuntimeFeatures idx features now) r = map_option snd (apply_runtime_link_features P idx features now r)"
| "router_perform C P (RuntimeRequireAuth b) r = Some (apply_runtime_require_auth b r)"
| "router_perform C P (RuntimeLazy b) r = Some (apply_runtime_lazy_cert_distribution b r)"
| "router_perform C P (SetFeatures idx features) r = Some (set_link_features P idx features r)"
| "router_perform C P (SetName idx name) r = Some (set_interface_name P idx name r)"
| "router_perform C P (SetLazy b) r = Some (set_lazy_cert_distribution b r)"
| "router_perform C P CollectRevocation r = Some (snd (take_self_revocation r))"
| "router_perform C P CollectRenewalRequest r = Some (snd (router_take_renewal_request r))"
| "router_perform C P CollectRenewedCert r = Some (snd (router_take_renewed_cert r))"
| "router_perform C P (EgressFor now dest) r = map_option snd (egress_interface_for now dest r)"
| "router_perform C P (LocalGroups now groups) r = router_set_local_groups P now groups r"
| "router_perform C P (OgmSent idx now) r =
     map_option (\<lambda>e. r\<lparr>ce_batman := e\<rparr>) (on_interface_emitted idx now (ce_batman r))"
| "router_perform C P (KeepaliveSent idx now) r =
     map_option (\<lambda>e. r\<lparr>ce_batman := e\<rparr>) (on_keepalive_emitted idx now (ce_batman r))"
| "router_perform C P (RecordTx idx) r = Some (record_tx P idx r)"
| "router_perform C P (GroupDropped n) r = Some (record_mcast_group_drop n r)"
| "router_perform C P (StartProbe now target cnt interval timeout len) r =
     Some (r\<lparr>ce_ping := snd (start_ping now target cnt interval timeout len (ce_ping r))\<rparr>)"
| "router_perform C P (CancelProbe h) r = Some (r\<lparr>ce_ping := snd (cancel_ping h (ce_ping r))\<rparr>)"

text \<open>
  Where a call's clock reading is past what \<^verbatim>\<open>Duration\<close> can add: a timer's current interval, the interval
  being configured, or the longest ping interval.
\<close>

definition keepalive_overflows :: "duration \<Rightarrow> duration option \<Rightarrow> bool" where
  "keepalive_overflows now interval \<longleftrightarrow>
     (case interval of None \<Rightarrow> False | Some iv \<Rightarrow> DURATION_MAX < now + max iv MIN_KEEPALIVE_INTERVAL)"

fun router_overflows :: "router_call \<Rightarrow> central_router \<Rightarrow> bool" where
  "router_overflows (RxFrame push now iface frame metrics tx) r = overflows now (ce_batman r)"
| "router_overflows (PollOgm now tx) r = overflows now (ce_batman r)"
| "router_overflows (PollProbe now tx) r = clock_spent now"
| "router_overflows (OperatorRevokes rec now) r = overflows now (ce_batman r)"
| "router_overflows (ConfigOgm idx i_min i_max now) r \<longleftrightarrow> DURATION_MAX < now + max i_min 1"
| "router_overflows (ConfigKeepalive idx interval now) r = keepalive_overflows now interval"
| "router_overflows (RuntimeTrickle idx i_min i_max now) r \<longleftrightarrow> DURATION_MAX < now + max i_min 1"
| "router_overflows (RuntimeFeatures idx features now) r =
     keepalive_overflows now (map_option kc_interval (lx_tx_keepalive features))"
| "router_overflows (LocalGroups now groups) r = overflows now (ce_batman r)"
| "router_overflows (OgmSent idx now) r = overflows now (ce_batman r)"
| "router_overflows (KeepaliveSent idx now) r = overflows now (ce_batman r)"
| "router_overflows _ r = False"

text \<open>What is promised of the arguments: an installed authenticator is one that was enrolled and only driven
  through its calls; a record has the length of its type.\<close>

fun router_call_ok :: "crypto \<Rightarrow> router_profile \<Rightarrow> router_call \<Rightarrow> bool" where
  "router_call_ok C P (InstallAuth a) = auth_reachable C (cp_auth P) a"
| "router_call_ok C P (OperatorRevokes rec now) = revocation_ok rec"
| "router_call_ok C P (ThroughAuth call) = Auth_Lifecycle.call_ok call"
| "router_call_ok C P _ = True"

inductive router_reachable :: "crypto \<Rightarrow> router_profile \<Rightarrow> mac \<Rightarrow> central_router \<Rightarrow> bool" for C P ident where
  started: "router_reachable C P ident (router_with_capacities P ident)"
| called: "router_reachable C P ident r \<Longrightarrow> router_call_ok C P call \<Longrightarrow> router_perform C P call r = Some r' \<Longrightarrow> router_reachable C P ident r'"

section \<open>Every call evolves the router and returns\<close>

lemma augment_own_result:
  assumes "crypto_ok C" "len \<le> length tx" "\<And>a. ce_auth r = Some a \<Longrightarrow> auth_ok C (cp_auth P) a"
  shows "\<exists>x r'. augment_own C tx len r = Some (x, r') \<and> evolves C P r r'"
proof (cases "ce_auth r")
  case (Some a)
  from augment_no_panic [OF assms(1) assms(3) [OF Some] assms(2), of "ce_lazy_cert_distribution r"]
  obtain x a' where x: "augment_ogm_with_cert_record C (ce_lazy_cert_distribution r) tx len a = Some (x, a')" by auto
  have "auth_evolves C (cp_auth P) (Some a) (Some a')"
    by (rule auth_evolves_call [where call = "AugmentOgm (ce_lazy_cert_distribution r) tx len"]) (simp_all add: x assms(2))
  with x Some show ?thesis
    by (auto simp: augment_own_def augment_ogm_def augment_ogm_lazy_def intro!: evolves_auth simp del: auth_evolves.simps split: if_splits)
qed (simp add: augment_own_def)

lemma poll_result:
  assumes "crypto_ok C" "profiles_ok P" "engine_ok (cp_engine P) (ce_batman r)" "\<And>a. ce_auth r = Some a \<Longrightarrow> auth_ok C (cp_auth P) a"
  shows "case router_poll C P now tx r of
      None \<Rightarrow> (length tx < OGM_SIZE + length (own_tail (local_mcast (ce_batman r))) \<or> \<not> resets_fit now (ce_batman r)) \<and> \<not> auth_locked r
    | Some (f, r') \<Rightarrow> evolves C P r r'"
proof -
  define r1 where "r1 = snd (apply_self_revocation P r)"
  have e1: "evolves C P r r1" unfolding r1_def using assms(2) by (intro evolves_apply_revocation) (simp add: profiles_ok_def)
  have same: "local_mcast (ce_batman r1) = local_mcast (ce_batman r)" "auth_locked r \<longrightarrow> auth_locked r1"
      "resets_fit now (ce_batman r1) = resets_fit now (ce_batman r)"
    by (auto simp: r1_def resets_fit_def apply_self_revocation_def engine_reset_def auth_locked_def self_revoked_def split: option.split prod.split)
  have a1: "auth_ok C (cp_auth P) a" if got: "ce_auth r1 = Some a" for a
  proof -
    obtain b where b: "ce_auth r = Some b" using got by (cases "ce_auth r") (auto simp: r1_def apply_self_revocation_def)
    with got have "a = snd (take_self_revoked b)"
      by (auto simp: r1_def apply_self_revocation_def split: prod.splits option.splits)
    with assms(4) [OF b] show ?thesis by simp
  qed
  let ?out = "ogm_write (own_ogm (ce_batman r1)) @ own_tail (local_mcast (ce_batman r1))"
  show ?thesis
  proof (cases "auth_locked r1 \<or> length tx < length ?out \<or> \<not> tick_fits now (ce_batman r1)")
    case True
    then show ?thesis
      using e1 same by (auto simp: router_poll_def r1_def [symmetric] Let_def produce_periodic_broadcast_eq tick_fits_def header_sizes)
  next
    case False
    let ?tx = "?out @ drop (length ?out) tx" and ?e = "ticked now (ce_batman r1)"
    have prod: "produce_periodic_broadcast now tx (ce_batman r1) = Some (?out, ?tx, ?e)"
      using False by (simp add: produce_periodic_broadcast_eq Let_def)
    define r2 where "r2 = r1\<lparr>ce_batman := ?e, ce_link_quality := retain_live (is_originator ?e) (ce_link_quality r1)\<rparr>"
    have "evolves C P r1 (r1\<lparr>ce_batman := ?e\<rparr>)" by (rule evolves_batman [OF engine_runs_calls(13) [OF prod]])
    from evolves_trans [OF this evolves_retain [of C P "r1\<lparr>ce_batman := ?e\<rparr>" "is_originator ?e"]] have e2: "evolves C P r1 r2"
      by (simp add: r2_def)
    have poll: "router_poll C P now tx r = (case augment_own C ?tx (length ?out) r2 of
          None \<Rightarrow> None | Some (None, r) \<Rightarrow> Some (None, r)
        | Some (Some (n, tx), r) \<Rightarrow> Some (Some \<lparr>fd_dst = BROADCAST, fd_protocol = ETH_P_BATMAN, fd_payload = take n tx\<rparr>, r))"
      using False prod by (simp add: router_poll_def r1_def [symmetric] Let_def r2_def)
    have "\<exists>x r3. augment_own C ?tx (length ?out) r2 = Some (x, r3) \<and> evolves C P r2 r3"
      using a1 by (intro augment_own_result [OF assms(1)]) (simp_all add: r2_def)
    then obtain x r3 where "augment_own C ?tx (length ?out) r2 = Some (x, r3)" "evolves C P r2 r3" by blast
    with evolves_trans [OF e1 evolves_trans [OF e2]] show ?thesis by (cases x) (auto simp: poll)
  qed
qed

lemma poll_keepalive_evolves: "evolves C P r (snd (poll_keepalive C tx r))"
proof (cases "ce_auth r")
  case (Some a)
  have "evolves C P r (r\<lparr>ce_auth := Some a'\<rparr>)" if "augment_keepalive C buf len a = (x, a')" for buf len x a'
    using that Some auth_evolves_calls(12) [of C "cp_auth P" a buf len] by (intro evolves_auth) simp
  with Some show ?thesis by (auto simp: poll_keepalive_def Let_def split: prod.split option.split simp del: auth_evolves.simps)
qed (auto simp: poll_keepalive_def Let_def split: prod.split option.split)

lemma poll_challenge_result:
  assumes "crypto_ok C" "\<And>a. ce_auth r = Some a \<Longrightarrow> auth_ok C (cp_auth P) a"
  shows "\<exists>x r'. poll_challenge C P now tx r = Some (x, r') \<and> evolves C P r r'"
proof (cases "auth_locked r \<or> challenge_candidates (cp_engine P) (ce_batman r) now = []")
  case False
  then obtain m ms where m: "challenge_candidates (cp_engine P) (ce_batman r) now = m # ms" by (cases "challenge_candidates (cp_engine P) (ce_batman r) now") auto
  let ?r = "r\<lparr>ce_batman := note_challenged (cp_engine P) now m (ce_batman r)\<rparr>"
  have e1: "evolves C P r ?r" by (rule evolves_batman [OF engine_runs_calls(3)])
  show ?thesis
  proof (cases "ce_auth r")
    case None
    with False m e1 show ?thesis by (simp add: poll_challenge_def Let_def)
  next
    case (Some a)
    from challenge_frame_cases [OF assms(1) assms(2) [OF Some], of m "length tx"]
    obtain f a' where f: "build_challenge_frame C m (length tx) a = Some (f, a')" by auto
    have "auth_evolves C (cp_auth P) (Some a) (Some a')"
      by (rule auth_evolves_call [where call = "BuildChallenge m (length tx)"]) (simp_all add: f)
    with evolves_trans [OF e1 evolves_auth, of "Some a'"] Some False m f show ?thesis
      by (simp add: poll_challenge_def Let_def)
  qed
qed (auto simp: poll_challenge_def split: list.split)

lemma poll_renewal_result:
  assumes "crypto_ok C"
  shows "\<exists>x r'. router_poll_renewal C now tx r = Some (x, r') \<and> evolves C P r r'"
proof (cases "ce_auth r")
  case (Some a)
  obtain f a' where f: "poll_renewal C now (next_hop (ce_batman r) now) tx a = Some (f, a')"
    using poll_renewal_returns [OF assms, of now "next_hop (ce_batman r) now" tx a] by auto
  have "auth_evolves C (cp_auth P) (Some a) (Some a')"
    by (rule auth_evolves_call [where call = "PollRenewal now (next_hop (ce_batman r) now) tx"]) (simp_all add: f)
  with Some f show ?thesis by (auto simp: router_poll_renewal_def intro!: evolves_auth simp del: auth_evolves.simps)
qed (simp add: router_poll_renewal_def)

lemma poll_ping_result:
  assumes "rest_ok P r"
  shows "case router_poll_ping now tx r of None \<Rightarrow> clock_spent now | Some (x, r') \<Rightarrow> evolves C P r r'"
proof -
  have "router_ok (ce_ping r)" using assms by (simp add: rest_ok_def)
  from poll_step [OF this, where locked = "auth_locked r" and hop = "\<lambda>dest. resolve_next_hop now dest r"
      and reserved = "if ce_auth r \<noteq> None then DIRECTED_TRAILER_LEN else 0" and own = "self_ident (ce_batman r)"
      and now = now and buf = tx]
  show ?thesis using assms by (auto simp: router_poll_ping_def rest_ok_def intro!: evolves_rest split: option.splits)
qed

lemma evolves_counters [simp]:
  "evolves C P r (r'\<lparr>ce_oversize_drops := n\<rparr>) = evolves C P r r'" "evolves C P r (r'\<lparr>ce_mcast_group_drops := n\<rparr>) = evolves C P r r'"
  "evolves C P r (r'\<lparr>ce_mcast_unroutable_local := n\<rparr>) = evolves C P r r'" "evolves C P r (r'\<lparr>ce_runtime_config_active := b\<rparr>) = evolves C P r r'"
  "evolves C P r (r'\<lparr>ce_require_auth := b\<rparr>) = evolves C P r r'" "evolves C P r (r'\<lparr>ce_lazy_cert_distribution := b\<rparr>) = evolves C P r r'"
  "evolves C P r (r'\<lparr>ce_pending_self_revocation := x\<rparr>) = evolves C P r r'" "evolves C P r (r'\<lparr>ce_swept_key_generation := g\<rparr>) = evolves C P r r'"
  by (simp_all add: evolves_def)

lemma handle_local_evolves: "evolves C P r (snd (handle_local now dest payload tx r))"
proof -
  have "evolves C P r (r\<lparr>ce_batman := e\<rparr>)" if "next_broadcast_seqno (ce_batman r) = (n, e)" for n e
    using that engine_runs_calls(9) [of "cp_engine P" "ce_batman r"] by (intro evolves_batman) simp
  then show ?thesis by (auto simp: handle_local_def note_oversize_drop_def Let_def split: prod.split option.split)
qed

lemma local_emit_evolves:
  "evolves C P r0 r \<Longrightarrow> evolves C P r0 (snd (snd (local_emit_loop push payload routed todo seen tx s n r)))"
proof (induction push payload routed todo seen tx s n r rule: local_emit_loop.induct)
  case (2 push payload routed nh d todo seen tx s n r)
  show ?case
    using "2.IH"(1) "2.IH"(2) [OF _ refl refl] "2.IH"(3) [OF _ refl refl] "2.prems"
    by (auto simp: Let_def note_oversize_drop_def split: prod.split option.split bool.split)
qed simp

lemma handle_local_mcast_evolves: "evolves C P r (snd (snd (handle_local_mcast push now dests payload tx s r)))"
  by (auto simp: handle_local_mcast_def Let_def split: prod.split sum.split)
    (metis evolves_counters(3) evolves_refl local_emit_evolves snd_conv)+

lemma ingest_revocation_evolves:
  assumes "ident_profile_ok (cp_ident P)" "revocation_ok rec"
  shows "case router_ingest_revocation C P rec now r of
      None \<Rightarrow> \<not> resets_fit now (ce_batman r) | Some (newly, r') \<Rightarrow> evolves C P r r'"
proof (cases "ce_auth r")
  case (Some a)
  obtain newly a1 where i: "ingest_revocation C (cp_auth P) rec a = (newly, a1)" by (cases "ingest_revocation C (cp_auth P) rec a")
  let ?r1 = "r\<lparr>ce_auth := Some a1\<rparr>"
  have e1: "evolves C P r ?r1"
    using auth_evolves_calls(16) [OF assms(2), of C "cp_auth P" a] Some i by (intro evolves_auth) simp
  obtain fired r2 where f: "apply_self_revocation P ?r1 = (fired, r2)" by (cases "apply_self_revocation P ?r1")
  then have e2: "evolves C P r r2" using evolves_trans [OF e1 evolves_apply_revocation [OF assms(1), of C ?r1]] by simp
  have fit: "resets_fit now (ce_batman r2) = resets_fit now (ce_batman r)"
    using gates_keep_timers(4) [of P ?r1] f by (simp add: self_revocation_gate_def resets_fit_def)
  have e3: "evolves C P r (r2\<lparr>ce_auth := Some (snd (take_trickle_reset_hint b))\<rparr>)" if "ce_auth r2 = Some b" for b
    using evolves_trans [OF e2 evolves_auth, of "Some (snd (take_trickle_reset_hint b))"] auth_evolves_calls(6) [of C "cp_auth P" b] that by simp
  have e4: "evolves C P r (r2\<lparr>ce_auth := Some (snd (take_trickle_reset_hint b)), ce_batman := e,
      ce_link_quality := retain_live g (ce_link_quality r2)\<rparr>)"
    if "ce_auth r2 = Some b" "purge_revoked P now c (ce_batman r2) = Some e" for b c e g
    using evolves_trans [OF e3 [OF that(1)] evolves_trans [OF evolves_batman evolves_retain]] engine_runs_purge [OF that(2)] by fastforce
  show ?thesis
    using Some i f e2 e3 e4 fit purge_revoked_fits(1) [of P now _ "ce_batman r2"]
    by (auto simp: router_ingest_revocation_def Let_def split_beta split: bool.split option.split)
qed (simp add: router_ingest_revocation_def)

lemma set_auth_time_evolves: "evolves C P r (set_auth_time P now wall r)"
proof (cases "ce_auth r")
  case (Some a)
  have e1: "evolves C P r (r\<lparr>ce_auth := Some (set_time now wall a)\<rparr>)"
    using auth_evolves_calls(13) Some by (intro evolves_auth) simp
  from evolves_trans [OF this evolves_batman] engine_runs_calls(4) have
    "evolves C P r (r\<lparr>ce_auth := Some (set_time now wall a), ce_batman := retain_proven (cp_engine P) now f (ce_batman r)\<rparr>)" for f by simp
  with e1 Some show ?thesis by (simp add: set_auth_time_def Let_def)
qed (simp add: set_auth_time_def)

lemma clip_end_le: "clip_end name i \<le> i"
proof (induction name i rule: clip_end.induct)
  case (1 name i)
  then show ?case unfolding clip_end.simps [of name i] by (cases "0 < i \<and> \<not> is_char_boundary name i") (use le_trans diff_le_self in \<open>auto\<close>)
qed

lemma set_features_evolves [simp]: "evolves C P r (set_link_features P idx features r)"
proof -
  have "evolves C P r (r\<lparr>ce_link_features := (ce_link_features r)[idx := features]\<rparr>)" by (rule evolves_rest) (auto simp: rest_ok_def)
  from evolves_trans [OF this evolves_touch(1)] show ?thesis by (simp add: set_link_features_def)
qed

lemma set_name_evolves: "evolves C P r (set_interface_name P idx name r)"
proof -
  let ?n = "take (clip_end name (min (length name) MAX_INTERFACE_NAME_LEN)) name"
  have "length ?n \<le> MAX_INTERFACE_NAME_LEN" using clip_end_le [of name "min (length name) MAX_INTERFACE_NAME_LEN"] by simp
  then have "evolves C P r (r\<lparr>ce_iface_names := (ce_iface_names r)[idx := ?n]\<rparr>)"
    by (intro evolves_rest) (auto simp: rest_ok_def dest!: set_update_subset_insert [THEN subsetD])
  from evolves_trans [OF this evolves_touch(1)] show ?thesis by (simp add: set_interface_name_def Let_def)
qed

lemma configure_result:
  "case router_configure_ogm P idx i_min i_max now r of None \<Rightarrow> DURATION_MAX < now + max i_min 1 | Some r' \<Rightarrow> evolves C P r r'"
  "case router_configure_keepalive P idx interval now r of None \<Rightarrow> keepalive_overflows now interval | Some r' \<Rightarrow> evolves C P r r'"
proof -
  let ?e = "ce_batman r" and ?iv = "map_option (\<lambda>iv. if iv < MIN_KEEPALIVE_INTERVAL then MIN_KEEPALIVE_INTERVAL else iv) interval"
  show "case router_configure_ogm P idx i_min i_max now r of None \<Rightarrow> DURATION_MAX < now + max i_min 1 | Some r' \<Rightarrow> evolves C P r r'"
  proof (cases "configure_interface_ogm (cp_engine P) idx i_min i_max now ?e")
    case None
    then have "\<not> now + max i_min 1 \<le> DURATION_MAX"
      using fits_bounds(2) [of now i_min i_max "jitter_seed (self_ident ?e) idx 0"] by (auto simp: configure_interface_ogm_eq split: if_splits)
    with None show ?thesis by (simp add: router_configure_ogm_def)
  next
    case (Some e)
    from evolves_trans [OF evolves_batman [OF engine_runs_calls(14) [OF Some]] evolves_touch(1)] Some
    show ?thesis by (simp add: router_configure_ogm_def)
  qed
  show "case router_configure_keepalive P idx interval now r of None \<Rightarrow> keepalive_overflows now interval | Some r' \<Rightarrow> evolves C P r r'"
  proof (cases "configure_interface_keepalive (cp_engine P) idx ?iv now ?e")
    case None
    then obtain iv where "interval = Some iv" "\<not> now + max iv MIN_KEEPALIVE_INTERVAL \<le> DURATION_MAX"
      using fits_bounds(2) [of now "max (the interval) MIN_KEEPALIVE_INTERVAL" "max (the interval) MIN_KEEPALIVE_INTERVAL"
          "jitter_seed (self_ident ?e) idx 0x9e3779b9"]
      by (cases interval) (auto simp: configure_interface_keepalive_eq MIN_KEEPALIVE_INTERVAL_def max_def split: if_splits)
    with None show ?thesis by (simp add: router_configure_keepalive_def keepalive_overflows_def)
  next
    case (Some e)
    from evolves_batman [OF engine_runs_calls(15) [OF Some]] Some
    show ?thesis by (simp add: router_configure_keepalive_def)
  qed
qed

lemma egress_result:
  assumes "rest_ok P r"
  shows "\<exists>x r'. egress_interface_for now dest r = Some (x, r') \<and> evolves C P r r'"
proof -
  obtain xs l where "it_repr (cp_ident P) (ce_ident_table r) xs l" using assms by (auto simp: rest_ok_def)
  from get_egress_interface_refines [OF this, of dest] obtain t' xs' where
    t: "get_egress_interface dest (ce_ident_table r) = Some (map_of l dest, t')" "it_repr (cp_ident P) t' xs' (lru_touch dest l)" by blast
  then have "evolves C P r (r\<lparr>ce_ident_table := t'\<rparr>)" by (intro evolves_rest) (auto simp: rest_ok_def)
  with t(1) show ?thesis by (simp add: egress_interface_for_def Let_def split: option.split)
qed

section \<open>The invariant\<close>

definition router_inv :: "crypto \<Rightarrow> router_profile \<Rightarrow> mac \<Rightarrow> central_router \<Rightarrow> bool" where
  "router_inv C P ident r \<longleftrightarrow> reachable (cp_engine P) ident (ce_batman r)
     \<and> (\<forall>a. ce_auth r = Some a \<longrightarrow> auth_reachable C (cp_auth P) a \<and> require_proof (ce_batman r)) \<and> rest_ok P r"

lemma router_invD:
  assumes "router_inv C P ident r" "crypto_ok C" "profiles_ok P"
  shows "engine_ok (cp_engine P) (ce_batman r)" "self_ident (ce_batman r) = ident" "rest_ok P r"
    "ce_auth r = Some a \<Longrightarrow> auth_ok C (cp_auth P) a" "ce_auth r = Some a \<Longrightarrow> require_proof (ce_batman r)"
  using assms reachable_ok reachable_own auth_reachable_ok by (auto simp: router_inv_def profiles_ok_def)

lemma router_inv_start: "ident_profile_ok (cp_ident P) \<Longrightarrow> router_inv C P ident (router_with_capacities P ident)"
  using ident_new_repr [of "cp_ident P"]
  by (auto simp: router_inv_def router_with_capacities_def rest_ok_def lq_new_ok router_ok_new intro: reachable.new)

lemma evolves_inv:
  assumes "crypto_ok C" "profiles_ok P" "router_inv C P ident r" "evolves C P r r'"
  shows "router_inv C P ident r'"
proof -
  note d = router_invD [OF assms(3,1,2)]
  have runs: "engine_runs (cp_engine P) (ce_batman r) (ce_batman r')" using assms(4) by (simp add: evolves_def)
  have e: "require_proof (ce_batman r') = require_proof (ce_batman r)" "reachable (cp_engine P) ident (ce_batman r')"
    using engine_runs_ok(3) [OF _ d(1) runs] engine_runs_reachable [OF _ runs] assms(2,3) by (simp_all add: profiles_ok_def router_inv_def)
  have "auth_reachable C (cp_auth P) a' \<and> require_proof (ce_batman r')" if got: "ce_auth r' = Some a'" for a'
  proof -
    obtain a where "ce_auth r = Some a" "auth_evolves C (cp_auth P) (Some a) (Some a')"
      using assms(4) got by (cases "ce_auth r") (auto simp: evolves_def)
    with assms(3) e(1) auth_evolves_reachable show ?thesis by (auto simp: router_inv_def simp del: auth_evolves.simps)
  qed
  with e(2) assms(4) d(3) show ?thesis by (simp add: router_inv_def evolves_def)
qed

lemma set_auth_inv:
  assumes "profiles_ok P" "router_inv C P ident r" "auth_reachable C (cp_auth P) a"
  shows "router_inv C P ident (set_auth P a r)"
proof -
  let ?e = "engine_reset (set_require_proof True (ce_batman r))"
  have "reachable (cp_engine P) ident (ce_batman r)" using assms(2) by (simp add: router_inv_def)
  from reachable.call [OF this, of "SetRequireProof True"] have "reachable (cp_engine P) ident (set_require_proof True (ce_batman r))" by simp
  from reachable.call [OF this, of ResetEngine] have "reachable (cp_engine P) ident ?e" by simp
  moreover have "require_proof ?e" by (simp add: engine_reset_def set_require_proof_def)
  moreover define r1 where "r1 = (if \<not> self_revocation_cancels (oa_cert a) r then r\<lparr>ce_self_revocation := None\<rparr> else r)"
  have eq: "set_auth P a r = (r1\<lparr>ce_auth := Some a, ce_batman := ?e\<rparr>)\<lparr>ce_ident_table := ident_clear (cp_ident P) (ce_ident_table r1),
      ce_link_quality := lq_clear (ce_link_quality r1)\<rparr>"
    by (simp add: set_auth_def Let_def r1_def)
  have "rest_ok P (r1\<lparr>ce_auth := Some a, ce_batman := ?e\<rparr>)" using assms(2) by (simp add: router_inv_def r1_def)
  from rest_ok_clear [OF _ this] assms(1) have "rest_ok P (set_auth P a r)" by (simp add: eq profiles_ok_def)
  ultimately show ?thesis using assms(3) by (simp add: router_inv_def eq)
qed

text \<open>The calls that do not install a credential.\<close>

lemma perform_evolves:
  assumes "crypto_ok C" "profiles_ok P" "router_inv C P ident r" "router_call_ok C P call" "\<And>a. call \<noteq> InstallAuth a"
  shows "case router_perform C P call r of
      None \<Rightarrow> (\<exists>now tx. call = PollOgm now tx \<and> length tx < OGM_SIZE + length (own_tail (local_mcast (ce_batman r))))
        \<or> router_overflows call r
    | Some r' \<Rightarrow> evolves C P r r'"
proof -
  note d = router_invD [OF assms(3,1,2)]
  have P: "ident_profile_ok (cp_ident P)" "profile_ok (cp_engine P)" using assms(2) by (simp_all add: profiles_ok_def)
  note fit = resets_fit_overflows [OF d(1)]
  show ?thesis
  proof (cases call)
    case (RxFrame push now iface frame metrics tx)
    with frame_returns [OF assms(2) d(1,3), where C = C and push = push and now = now and iface = iface and frame = frame and metrics = metrics and tx = tx and s = "[]"]
      frame_evolves [OF assms(2), of C push now iface frame metrics tx r] fit [of now]
    show ?thesis by (cases "overflows now (ce_batman r)") (auto split: option.split)
  next
    case (PollOgm now tx)
    with poll_result [OF assms(1,2) d(1,4), where now = now and tx = tx] fit [of now] show ?thesis by (auto split: option.splits)
  next
    case (PollProof now tx)
    with poll_challenge_result [OF assms(1), of r P now tx] d(4) show ?thesis by auto
  next
    case (PollRenew now tx)
    with poll_renewal_result [OF assms(1), of now tx r P] show ?thesis by auto
  next
    case (PollProbe now tx)
    with poll_ping_result [OF d(3), where now = now and tx = tx and C = C] show ?thesis by (auto split: option.splits)
  next
    case (RestoreRevocation rec)
    then show ?thesis by (simp add: note_self_revoked_def evolves_def)
  next
    case (ThroughAuth c)
    show ?thesis
    proof (cases "ce_auth r")
      case (Some a)
      from auth_perform_ok [OF assms(1) d(4) [OF Some], of c] assms(4) ThroughAuth obtain a' where
        a': "auth_perform C (cp_auth P) c a = Some a'" by auto
      with assms(4) ThroughAuth Some evolves_auth [of C P r "Some a'"] auth_evolves_call [OF a'] show ?thesis by simp
    qed (simp add: ThroughAuth)
  next
    case (ConfigOgm idx i_min i_max now)
    with configure_result(1) [where P = P and idx = idx and i_min = i_min and i_max = i_max and now = now and r = r and C = C] show ?thesis by (auto split: option.splits)
  next
    case (ConfigKeepalive idx interval now)
    with configure_result(2) [where P = P and idx = idx and interval = interval and now = now and r = r and C = C] show ?thesis by (auto split: option.splits)
  next
    case (RuntimeTrickle idx i_min i_max now)
    with configure_result(1) [where P = P and idx = idx and i_min = i_min and i_max = i_max and now = now and r = r and C = C] show ?thesis by (auto simp: apply_runtime_trickle_config_def split: option.splits)
  next
    case (RuntimeFeatures idx features now)
    from configure_result(2) [where P = P and idx = idx and interval = "map_option kc_interval (lx_tx_keepalive features)" and now = now
        and r = "set_link_features P idx features r" and C = C] RuntimeFeatures
    show ?thesis by (auto simp: apply_runtime_link_features_def intro: evolves_trans [OF set_features_evolves] split: option.splits)
  next
    case (OperatorRevokes rec now)
    with ingest_revocation_evolves [OF P(1), where rec = rec and C = C and now = now and r = r] assms(4) fit [of now] show ?thesis by (auto split: option.splits)
  next
    case (LocalGroups now groups)
    with evolves_batman [OF engine_runs_calls(8), where r = r] set_local_mcast_groups_eq [of "cp_engine P" now groups "ce_batman r"] fit [of now]
    show ?thesis by (cases "set_local_mcast_groups (cp_engine P) now groups (ce_batman r)") (auto simp: router_set_local_groups_def split: if_splits)
  next
    case (OgmSent idx now)
    with evolves_batman [OF engine_runs_calls(10), where r = r] emitted_None_overflows(1) [of idx now "ce_batman r"]
    show ?thesis by (cases "on_interface_emitted idx now (ce_batman r)") simp_all
  next
    case (KeepaliveSent idx now)
    with evolves_batman [OF engine_runs_calls(11), where r = r] emitted_None_overflows(2) [of idx now "ce_batman r"]
    show ?thesis by (cases "on_keepalive_emitted idx now (ce_batman r)") simp_all
  next
    case (EgressFor now dest)
    with egress_result [OF d(3), of now dest C] show ?thesis by auto
  next
    case (StartProbe now target cnt interval timeout len)
    have "evolves C P r (r\<lparr>ce_ping := snd (start_ping now target cnt interval timeout len (ce_ping r))\<rparr>)"
      by (rule evolves_rest) (use start_step in \<open>auto simp: rest_ok_def\<close>)
    then show ?thesis by (simp add: StartProbe)
  next
    case (CancelProbe h)
    have "evolves C P r (r\<lparr>ce_ping := snd (cancel_ping h (ce_ping r))\<rparr>)"
      by (rule evolves_rest) (use cancel_ping_step in \<open>auto simp: rest_ok_def\<close>)
    then show ?thesis by (simp add: CancelProbe)
  next
    case CollectRenewalRequest
    have "evolves C P r (snd (router_take_renewal_request r))"
      using auth_evolves_calls(15) by (auto simp: router_take_renewal_request_def split_beta intro!: evolves_auth split: option.split simp del: auth_evolves.simps)
    then show ?thesis by (simp add: CollectRenewalRequest)
  next
    case CollectRenewedCert
    have "evolves C P r (snd (router_take_renewed_cert r))"
      using auth_evolves_calls(14) by (auto simp: router_take_renewed_cert_def split_beta intro!: evolves_auth split: option.split simp del: auth_evolves.simps)
    then show ?thesis by (simp add: CollectRenewedCert)
  qed (use assms(4,5) P in \<open>simp_all add: poll_keepalive_evolves handle_local_evolves handle_local_mcast_evolves set_auth_time_evolves
      set_name_evolves set_require_auth_def apply_runtime_require_auth_def apply_runtime_lazy_cert_distribution_def
      set_lazy_cert_distribution_def take_self_revocation_def record_mcast_group_drop_def
      evolves_batman engine_runs_calls\<close>)
qed

lemma router_reachable_inv:
  assumes "crypto_ok C" "profiles_ok P" "router_reachable C P ident r"
  shows "router_inv C P ident r"
  using assms(3)
proof (induction rule: router_reachable.induct)
  case started
  then show ?case using assms(2) by (intro router_inv_start) (simp add: profiles_ok_def)
next
  case (called r call r')
  show ?case
  proof (cases "\<exists>a. call = InstallAuth a")
    case True
    with called set_auth_inv [OF assms(2)] show ?thesis by auto
  next
    case False
    with called perform_evolves [OF assms(1,2) called.IH, of call] evolves_inv [OF assms(1,2) called.IH] show ?thesis by auto
  qed
qed

end
