(* ===== verification/Router_Safety.thy ===== *)
theory Router_Safety
  imports Router_Lifecycle
begin

text \<open>
  What the router guarantees by composing its parts: it is sound over its whole life, silent while locked,
  stays down once revoked until it is re-admitted, and lets no unverified frame reach the routing engine.
\<close>

section \<open>The life of a router\<close>

definition sample_router_profile :: router_profile where
  "sample_router_profile = \<lparr>cp_engine = default_profile 32 documented_swap, cp_ident = default_ident_profile documented_swap,
     cp_link_quality = LINK_QUALITY_CAPACITY, cp_auth = default_auth_profile\<rparr>"

lemma sample_profiles_ok: "profiles_ok sample_router_profile"
  by (simp add: profiles_ok_def sample_router_profile_def default_profile_ok default_ident_profile_ok documented_swap_law LINK_QUALITY_CAPACITY_def)

text \<open>
  C1. The router is sound over its life. Whatever calls the drivers, the management plane and the air make on
  a router, its engine is one the engine's own calls reach, its authenticator likewise, and with an
  authenticator attached the proof gate is on; its tables and names are within their bounds, it keeps its
  address, and a call panics only where the periodic poll's buffer is too small for the announcement, or
  where a clock reading is past what \<^verbatim>\<open>Duration\<close> can add to an interval: to the current interval of a
  timer (which is doubled, too), to the interval being configured, or to the longest ping interval.
\<close>

theorem router_sound:
  assumes "crypto_ok C" "profiles_ok P" "router_reachable C P ident r" "router_call_ok C P call"
  shows "engine_ok (cp_engine P) (ce_batman r) \<and> reachable (cp_engine P) ident (ce_batman r) \<and> self_ident (ce_batman r) = ident
    \<and> (\<forall>a. ce_auth r = Some a \<longrightarrow> auth_ok C (cp_auth P) a \<and> auth_reachable C (cp_auth P) a \<and> require_proof (ce_batman r))
    \<and> length (ce_link_quality r) \<le> cp_link_quality P \<and> ce_iface_count r \<le> max_interfaces (cp_engine P)
    \<and> (\<forall>name\<in>set (ce_iface_names r). length name \<le> MAX_INTERFACE_NAME_LEN)
    \<and> (router_perform C P call r = None \<longrightarrow>
        (\<exists>now tx. call = PollOgm now tx \<and> length tx < OGM_SIZE + length (own_tail (local_mcast (ce_batman r))))
        \<or> router_overflows call r)"
proof -
  have inv: "router_inv C P ident r" by (rule router_reachable_inv [OF assms(1-3)])
  note d = router_invD [OF inv assms(1,2)]
  have "(\<exists>now tx. call = PollOgm now tx \<and> length tx < OGM_SIZE + length (own_tail (local_mcast (ce_batman r))))
      \<or> router_overflows call r"
    if "router_perform C P call r = None"
  proof (cases "\<exists>a. call = InstallAuth a")
    case False
    with perform_evolves [OF assms(1,2) inv assms(4)] that show ?thesis by (auto split: option.splits)
  qed (use that in auto)
  with d inv show ?thesis by (simp add: router_inv_def rest_ok_def lq_ok_def)
qed

theorem router_sound_witness:
  "engine_ok (cp_engine sample_router_profile) (ce_batman (router_with_capacities sample_router_profile (Mac 2 0 0 0 0 7)))
   \<and> router_perform toy_crypto sample_router_profile (SendLocal 0 BROADCAST [1] []) (router_with_capacities sample_router_profile (Mac 2 0 0 0 0 7)) \<noteq> None"
  using router_sound [OF toy_crypto_ok sample_profiles_ok started, of "SendLocal 0 BROADCAST [1] []" "Mac 2 0 0 0 0 7"] by auto

section \<open>Silence\<close>

text \<open>
  A locked node is inert. While a node that requires authentication holds no certificate, or while it is
  revoked, a received frame changes nothing and yields nothing, no announcement, heartbeat, challenge or
  probe leaves it, and no local send is accepted.
\<close>

theorem locked_router_inert:
  assumes "auth_locked r"
  shows "handle_frame_with_metrics C P push now iface frame metrics tx s r = Some (outcome_empty, s, r)
    \<and> (\<exists>r'. router_poll C P now tx r = Some (None, r') \<and> auth_locked r') \<and> poll_keepalive C tx r = (None, r)
    \<and> poll_challenge C P now tx r = Some (None, r) \<and> router_next_challenge_after P now r = None
    \<and> (\<forall>f r'. router_poll_ping now tx r = Some (f, r') \<longrightarrow> f = None)
    \<and> handle_local now dest payload tx r = (Inl AuthLocked, r)
    \<and> handle_local_mcast push now dests payload tx s r = (Inl AuthLocked, s, r)"
proof -
  have "auth_locked (snd (apply_self_revocation P r))"
    using assms by (auto simp: apply_self_revocation_def auth_locked_def self_revoked_def split: option.split prod.split)
  moreover have "f = None" if "poll_ping True hop res own now tx pr = Some (f, buf, pr')" for hop res own pr f buf pr'
    using that by (auto simp: poll_ping_def poll_session_def Let_def split: option.splits bind_splits if_splits)
  ultimately show ?thesis
    using assms by (auto simp: handle_frame_eq router_poll_def poll_keepalive_def poll_challenge_def router_next_challenge_after_def
        router_poll_ping_def handle_local_def handle_local_mcast_def Let_def)
qed

theorem locked_router_inert_witness:
  "handle_local 0 BROADCAST [1] (replicate 64 0) (set_require_auth True (router_with_capacities sample_router_profile (Mac 2 0 0 0 0 7)))
   = (Inl AuthLocked, set_require_auth True (router_with_capacities sample_router_profile (Mac 2 0 0 0 0 7)))"
proof -
  have "auth_locked (set_require_auth True (router_with_capacities sample_router_profile (Mac 2 0 0 0 0 7)))"
    by (simp add: auth_locked_def set_require_auth_def router_with_capacities_def)
  from locked_router_inert [OF this, where C = toy_crypto and P = sample_router_profile and push = unit_sink and now = 0 and iface = 0
      and frame = sample_rx and metrics = link_metrics_default and s = "()" and dests = "[]" and dest = BROADCAST and payload = "[1]"
      and tx = "replicate 64 0"] show ?thesis by blast
qed

section \<open>Revocation of the node itself\<close>

fun router_run :: "crypto \<Rightarrow> router_profile \<Rightarrow> router_call list \<Rightarrow> central_router \<Rightarrow> central_router option" where
  "router_run C P [] r = Some r"
| "router_run C P (call # calls) r = Option.bind (router_perform C P call r) (router_run C P calls)"

lemma revoked_locked: "self_revoked r \<Longrightarrow> auth_locked r"
  by (simp add: auth_locked_def)

lemma apply_keeps_latch: "self_revoked r \<Longrightarrow> self_revoked (snd (apply_self_revocation P r))"
  by (auto simp: apply_self_revocation_def self_revoked_def split: option.split prod.split)

lemma revoked_poll: "self_revoked r \<Longrightarrow> router_poll C P now tx r = Some (None, snd (apply_self_revocation P r))"
  by (simp add: router_poll_def Let_def revoked_locked apply_keeps_latch)

lemma revoked_ingest:
  assumes "self_revoked r" "router_ingest_revocation C P rec now r = Some (newly, r')"
  shows "self_revoked r'"
proof (cases "ce_auth r")
  case (Some a)
  define r1 where "r1 = r\<lparr>ce_auth := Some (snd (ingest_revocation C (cp_auth P) rec a))\<rparr>"
  have "self_revoked (snd (apply_self_revocation P r1))" using assms(1) by (intro apply_keeps_latch) (simp add: r1_def self_revoked_def)
  with assms(2) Some show ?thesis
    by (auto simp: router_ingest_revocation_def r1_def Let_def self_revoked_def split_beta split: option.splits bool.splits if_splits)
qed (use assms in \<open>simp add: router_ingest_revocation_def\<close>)

lemma revoked_step:
  assumes "self_revoked r" "router_perform C P call r = Some r'" "\<And>a. call = InstallAuth a \<Longrightarrow> self_revocation_cancels (oa_cert a) r"
  shows "self_revoked r'"
proof (cases call)
  case (RxFrame push now iface frame metrics tx)
  with assms(1,2) show ?thesis by (simp add: handle_frame_eq revoked_locked)
next
  case (OperatorRevokes rec now)
  with assms(1,2) revoked_ingest show ?thesis by auto
next
  case (PollOgm now tx)
  with assms(1,2) show ?thesis by (auto simp: revoked_poll apply_keeps_latch)
next
  case (PollProof now tx)
  with assms(1,2) show ?thesis by (simp add: poll_challenge_def revoked_locked)
next
  case (SendMcast push now dests payload tx)
  with assms(1,2) show ?thesis by (simp add: handle_local_mcast_def revoked_locked)
qed (use assms in \<open>auto simp: revoked_locked poll_keepalive_def router_poll_renewal_def router_poll_ping_def
      handle_local_def set_auth_def Let_def set_require_auth_def note_self_revoked_def set_auth_time_def router_configure_ogm_def
      router_configure_keepalive_def apply_runtime_trickle_config_def apply_runtime_link_features_def apply_runtime_require_auth_def
      apply_runtime_lazy_cert_distribution_def set_link_features_def set_interface_name_def touch_iface_def set_lazy_cert_distribution_def
      take_self_revocation_def router_take_renewal_request_def router_take_renewed_cert_def take_renewal_request_def take_renewed_cert_def
      egress_interface_for_def router_set_local_groups_def record_tx_def record_mcast_group_drop_def self_revoked_def
      split: option.splits if_splits\<close>)

text \<open>
  C11. A revoked node stays down until it is re-admitted. Whatever happens to a node that is under a
  revocation, it is inert afterwards, unless among the calls an authority's certificate was installed that
  the revocation then in force does not cancel; lifting the fail-closed policy or restarting the engine does
  not bring it back.
\<close>

theorem revoked_until_readmitted:
  assumes "self_revoked r" "router_run C P calls r = Some r'"
  shows "auth_locked r' \<or> (\<exists>before a after r1. calls = before @ InstallAuth a # after \<and> router_run C P before r = Some r1
    \<and> self_revoked r1 \<and> \<not> self_revocation_cancels (oa_cert a) r1)"
  using assms
proof (induction calls arbitrary: r)
  case Nil
  then show ?case by (simp add: revoked_locked)
next
  case (Cons call calls)
  then obtain r1 where r1: "router_perform C P call r = Some r1" "router_run C P calls r1 = Some r'" by (auto split: bind_splits)
  show ?case
  proof (cases "\<exists>a. call = InstallAuth a \<and> \<not> self_revocation_cancels (oa_cert a) r")
    case True
    then obtain a where "call = InstallAuth a" "\<not> self_revocation_cancels (oa_cert a) r" by blast
    with Cons.prems(1) show ?thesis by (intro disjI2 exI [of _ "[]"] exI [of _ a] exI [of _ calls] exI [of _ r]) simp
  next
    case False
    with revoked_step [OF Cons.prems(1) r1(1)] have "self_revoked r1" by blast
    from Cons.IH [OF this r1(2)] show ?thesis
    proof
      assume "\<exists>before a after r2. calls = before @ InstallAuth a # after \<and> router_run C P before r1 = Some r2
        \<and> self_revoked r2 \<and> \<not> self_revocation_cancels (oa_cert a) r2"
      then obtain before a after r2 where "calls = before @ InstallAuth a # after" "router_run C P before r1 = Some r2"
        "self_revoked r2" "\<not> self_revocation_cancels (oa_cert a) r2" by blast
      with r1(1) show ?thesis
        by (intro disjI2 exI [of _ "call # before"] exI [of _ a] exI [of _ after] exI [of _ r2]) simp
    qed simp
  qed
qed

definition demo_revocation :: revocation_record where
  "demo_revocation = revoke toy_crypto demo_root (Mac 2 0 0 0 0 7) 150 300"

theorem revoked_until_readmitted_witness:
  "\<exists>r'. router_run toy_crypto sample_router_profile [RequireAuth False, InstallAuth ((demo_node 4)\<lparr>oa_cert := (demo_cert 4)\<lparr>ct_node_mac := Mac 2 0 0 0 0 7\<rparr>\<rparr>)]
      (note_self_revoked demo_revocation (router_with_capacities sample_router_profile (Mac 2 0 0 0 0 7))) = Some r' \<and> auth_locked r'"
proof -
  let ?r = "note_self_revoked demo_revocation (router_with_capacities sample_router_profile (Mac 2 0 0 0 0 7))"
  let ?a = "(demo_node 4)\<lparr>oa_cert := (demo_cert 4)\<lparr>ct_node_mac := Mac 2 0 0 0 0 7\<rparr>\<rparr>"
  let ?calls = "[RequireAuth False, InstallAuth ?a]"
  have rev: "self_revoked ?r" by (simp add: self_revoked_def note_self_revoked_def)
  obtain r' where r': "router_run toy_crypto sample_router_profile ?calls ?r = Some r'" by simp
  have cancel: "self_revocation_cancels (oa_cert ?a) (set_require_auth False ?r)"
    by (simp add: self_revocation_cancels_def set_require_auth_def note_self_revoked_def demo_revocation_def revoke_def Let_def
        cancels_cert_for_def names_cert_def demo_cert_def issue_cert_def issue_with_flags_def)
  have "\<not> (\<exists>before a after r1. ?calls = before @ InstallAuth a # after \<and> router_run toy_crypto sample_router_profile before ?r = Some r1
    \<and> self_revoked r1 \<and> \<not> self_revocation_cancels (oa_cert a) r1)"
    using cancel by (auto simp: Cons_eq_append_conv)
  with revoked_until_readmitted [OF rev r'] r' show ?thesis by blast
qed

section \<open>A sample router with an authenticator\<close>

definition demo_router :: "ogm_auth \<Rightarrow> central_router" where
  "demo_router a = set_auth sample_router_profile a (router_with_capacities sample_router_profile (own_mac a))"

lemma demo_router_parts [simp]:
  "ce_auth (demo_router a) = Some a" "self_ident (ce_batman (demo_router a)) = own_mac a" "\<not> auth_locked (demo_router a)"
  "proven (ce_batman (demo_router a)) = []" "require_proof (ce_batman (demo_router a))"
  "originator_table (ce_batman (demo_router a)) = []"
  by (simp_all add: demo_router_def set_auth_def Let_def router_with_capacities_def engine_reset_def set_require_proof_def
      auth_locked_def self_revoked_def engine_new_def)

lemma demo_router_ok:
  "engine_ok (cp_engine sample_router_profile) (ce_batman (demo_router a))" "rest_ok sample_router_profile (demo_router a)"
proof -
  let ?P = sample_router_profile and ?r = "router_with_capacities sample_router_profile (own_mac a)"
  have reach: "auth_reachable toy_crypto (cp_auth ?P) (demo_node 4)"
    unfolding demo_node_def demo_cert_def by (intro enrolled issued_member toy_crypto_ok) simp
  have "router_inv toy_crypto ?P (own_mac a) (set_auth ?P (demo_node 4) ?r)"
    using set_auth_inv [OF sample_profiles_ok router_inv_start reach, of "own_mac a"] sample_profiles_ok by (simp add: profiles_ok_def)
  note inv = router_invD [OF this toy_crypto_ok sample_profiles_ok]
  have "demo_router a = (set_auth ?P (demo_node 4) ?r)\<lparr>ce_auth := Some a\<rparr>"
    by (simp add: demo_router_def set_auth_def Let_def router_with_capacities_def)
  with inv(1,3) show "engine_ok (cp_engine ?P) (ce_batman (demo_router a))" "rest_ok ?P (demo_router a)"
    by (simp_all add: rest_ok_def)
qed

lemma demo_router_fits: "resets_fit now (ce_batman (demo_router a))"
  by (simp add: demo_router_def set_auth_def Let_def router_with_capacities_def resets_fit_def engine_reset_def set_require_proof_def
      engine_new_def)

lemma demo_router_returns:
  obtains out s' r' where "handle_frame_with_metrics C sample_router_profile push now iface frame metrics tx s (demo_router a) = Some (out, s', r')"
  using frame_returns [OF sample_profiles_ok demo_router_ok demo_router_fits] by (metis not_Some_eq prod_cases3)

section \<open>What an unverified frame can do\<close>

text \<open>A frame is dropped by a gate, or passes them with the authenticator's consent.\<close>

lemma receive_cases:
  assumes "receive_batman C P push now iface pt frame q tx s r = Some (out, s', r')"
  obtains (dropped) "out = outcome_empty" "s' = s" "r' = r" "overheard pt (lf_dst frame) (self_ident (ce_batman r)) \<or> rx_gated pt (link_features_of iface r)"
  | (ogm) r1 where "ogm_gate C P pt frame tx r = (Some out, r1)" "r' = r1" "s' = s"
  | (heartbeat) r1 r2 where "ogm_gate C P pt frame tx r = (None, r1)" "keepalive_gate C P pt frame r1 = (Some out, r2)" "r' = r2" "s' = s"
  | (proof_frame) r1 r2 r3 where "ogm_gate C P pt frame tx r = (None, r1)" "keepalive_gate C P pt frame r1 = (None, r2)"
      "proof_gate C P now iface pt frame (length tx) r2 = (Some out, r3)" "r' = r3" "s' = s"
  | (revoked) r1 r2 where "ogm_gate C P pt frame tx r = (None, r1)" "keepalive_gate C P pt frame r1 = (None, r2)"
      "proof_gate C P now iface pt frame (length tx) r2 = (None, r2)" "apply_self_revocation P r2 = (True, r')" "out = outcome_empty" "s' = s"
  | (routed) r1 r2 r3 where "ogm_gate C P pt frame tx r = (None, r1)" "keepalive_gate C P pt frame r1 = (None, r2)"
      "proof_gate C P now iface pt frame (length tx) r2 = (None, r2)" "apply_self_revocation P r2 = (False, r3)"
      "route_frame C P push now iface pt frame q tx s r3 = Some (out, s', r')"
proof -
  have proofs: "r3 = r2" if "proof_gate C P now iface pt frame (length tx) r2 = (None, r3)" for r2 r3
    using that by (auto simp: proof_gate_def Let_def split: if_splits option.splits prod.splits)
  consider (out) "overheard pt (lf_dst frame) (self_ident (ce_batman r)) \<or> rx_gated pt (link_features_of iface r)"
    | (on) "\<not> (overheard pt (lf_dst frame) (self_ident (ce_batman r)) \<or> rx_gated pt (link_features_of iface r))" by blast
  then show thesis
  proof cases
    case out
    with assms dropped show thesis by (auto simp: receive_batman_def split: if_splits)
  next
    case on
    then show thesis
      using assms ogm heartbeat proof_frame revoked routed
      by (auto simp: receive_batman_def gated_def self_revocation_gate_def dest: proofs split: prod.splits option.splits if_splits)
  qed
qed

lemma gates_keep_engine:
  "ce_batman (snd (ogm_gate C P pt frame tx r)) = ce_batman r" "ce_batman (snd (keepalive_gate C P pt frame r)) = ce_batman r"
  "ce_link_features (snd (ogm_gate C P pt frame tx r)) = ce_link_features r"
  by (auto simp: ogm_gate_def keepalive_gate_def split: option.split ogm_verdict.split prod.split)

lemma ogm_gate_passes:
  "ogm_gate C P pt frame tx r = (None, r1) \<Longrightarrow> pt = Some Ogm \<Longrightarrow> ce_auth r = Some a \<Longrightarrow> fst (verify_ogm C (cp_auth P) (lf_payload frame) a) = Verified"
  by (auto simp: ogm_gate_def split: prod.splits ogm_verdict.splits)

lemma keepalive_gate_passes:
  "keepalive_gate C P pt frame r = (None, r1) \<Longrightarrow> pt = Some Keepalive \<Longrightarrow> ce_auth r = Some a \<Longrightarrow>
     fst (verify_keepalive C (cp_auth P) (lf_src frame) (lf_payload frame) a)"
  by (auto simp: keepalive_gate_def split: prod.splits if_splits)

lemma other_gates [simp]:
  "pt \<noteq> Some Ogm \<Longrightarrow> ogm_gate C P pt frame tx r = (None, r)" "pt \<noteq> Some Keepalive \<Longrightarrow> keepalive_gate C P pt frame r = (None, r)"
  "pt \<noteq> Some NextHopChallenge \<Longrightarrow> pt \<noteq> Some NextHopResponse \<Longrightarrow> proof_gate C P now iface pt frame n r = (None, r)"
  by (simp_all add: ogm_gate_def keepalive_gate_def proof_gate_def split: option.split)

text \<open>The demultiplexer sees a frame only after the accounting, which touches neither the engine nor the authenticator.\<close>

lemma frame_cases:
  assumes "handle_frame_with_metrics C P push now iface frame metrics tx s r = Some (out, s', r')"
  obtains (locked) "auth_locked r" "out = outcome_empty" "s' = s" "r' = r"
  | (shunned) "shunned_src (lf_src frame) r" "frame_packet_type frame \<notin> {Some Ogm, Some CertReq, Some CertReply}"
      "out = outcome_empty" "s' = s" "r' = accounted P iface frame metrics r"
  | (foreign) t where "lf_protocol frame \<noteq> ETH_P_BATMAN" "out = outcome_empty" "s' = s" "r' = (accounted P iface frame metrics r)\<lparr>ce_ident_table := t\<rparr>"
  | (mesh) t q tx' where "\<not> auth_locked r" "lf_protocol frame = ETH_P_BATMAN" "length tx' = length tx"
      "receive_batman C P push now iface (frame_packet_type frame) frame q tx' s ((accounted P iface frame metrics r)\<lparr>ce_ident_table := t\<rparr>) = Some (out, s', r')"
proof (cases "auth_locked r")
  case True
  with assms have "out = outcome_empty" "s' = s" "r' = r" by (simp_all add: handle_frame_eq)
  with True show thesis by (rule locked)
next
  case False
  let ?a = "accounted P iface frame metrics r"
  show thesis
  proof (cases "shunned_src (lf_src frame) r \<and> frame_packet_type frame \<notin> {Some Ogm, Some CertReq, Some CertReply}")
    case True
    with False assms have "out = outcome_empty" "s' = s" "r' = ?a" by (simp_all add: handle_frame_eq Let_def)
    with True show thesis by (intro shunned) simp_all
  next
    case live: False
    with False assms obtain t where t: "add_record (cp_ident P) iface (lf_dst frame) (ce_ident_table r) = Some t"
      by (auto simp: handle_frame_eq Let_def split: option.splits)
    show thesis
    proof (cases "lf_protocol frame = ETH_P_BATMAN")
      case True
      with False live t assms have "receive_batman C P push now iface (frame_packet_type frame) frame
          (quality_for (lf_src frame) iface (ce_link_quality ?a)) (replicate (length tx) 0) s (?a\<lparr>ce_ident_table := t\<rparr>) = Some (out, s', r')"
        by (auto simp: handle_frame_eq Let_def)
      from mesh [OF False True _ this] show thesis by simp
    next
      case other: False
      with False live t assms have "out = outcome_empty" "s' = s" "r' = ?a\<lparr>ce_ident_table := t\<rparr>" by (auto simp: handle_frame_eq Let_def)
      with other show thesis by (rule foreign)
    qed
  qed
qed

lemma typed_is_mesh: "frame_packet_type frame = Some t \<Longrightarrow> lf_protocol frame = ETH_P_BATMAN"
  by (simp add: frame_packet_type_def split: if_splits)

text \<open>
  C2. No unverified announcement or heartbeat reaches the routing engine. With an authenticator attached, a
  received OGM that it does not verify, or a keep-alive it does not, leaves the engine exactly as it was,
  delivers nothing, stages nothing, and is answered at most by a certificate request to the neighbour that
  sent it.
\<close>

theorem unverified_frames_inert:
  assumes "ce_auth r = Some a" "handle_frame_with_metrics C P push now iface frame metrics tx s r = Some (out, s', r')"
    and "frame_packet_type frame = Some Ogm \<and> fst (verify_ogm C (cp_auth P) (lf_payload frame) a) \<noteq> Verified
      \<or> frame_packet_type frame = Some Keepalive \<and> \<not> fst (verify_keepalive C (cp_auth P) (lf_src frame) (lf_payload frame) a)"
  shows "ce_batman r' = ce_batman r \<and> ro_deliver_local out = None \<and> s' = s
    \<and> (\<forall>f. ro_forward out = Some f \<longrightarrow> fd_dst f = lf_src frame \<and> fd_payload f ! 0 = packet_type_as_u8 CertReq)"
  using assms(2)
proof (cases rule: frame_cases)
  case (mesh t q tx')
  let ?r = "(accounted P iface frame metrics r)\<lparr>ce_ident_table := t\<rparr>"
  have a: "ce_auth ?r = Some a" "ce_batman ?r = ce_batman r" using assms(1) by simp_all
  have req: "fd_dst f = hop \<and> fd_payload f ! 0 = packet_type_as_u8 CertReq"
    if "build_cert_req_frame C (cp_auth P) orig fp hop tx' b = (Some f, b')" for orig fp hop b b' f
    using that by (auto simp: build_cert_req_frame_def routed_write_def split: if_splits option.splits prod.splits)
  note kept = gates_keep_engine(1) [of C P "frame_packet_type frame" frame tx' ?r] gates_keep_engine(2) [of C P "frame_packet_type frame" frame]
  from mesh(4) show ?thesis
  proof (cases rule: receive_cases)
    case (ogm r1)
    with kept a req show ?thesis
      by (auto simp: ogm_gate_def outcome_empty_def split: if_splits prod.splits ogm_verdict.splits)
  next
    case (heartbeat r1 r2)
    moreover have "out = outcome_empty" using heartbeat(2) by (auto simp: keepalive_gate_def split: option.splits if_splits prod.splits)
    moreover have "ce_batman r2 = ce_batman r" using kept(1) kept(2) [of r1] heartbeat(1,2) a(2) by simp
    ultimately show ?thesis by (simp add: outcome_empty_def)
  qed (use assms(3) ogm_gate_passes [OF _ _ a(1)] keepalive_gate_passes [OF _ _ a(1)] a in \<open>auto simp: outcome_empty_def\<close>)
qed (use assms(3) typed_is_mesh in \<open>auto simp: outcome_empty_def\<close>)

definition forged_ogm :: link_frame where
  "forged_ogm = \<lparr>lf_dst = BROADCAST, lf_src = Mac 2 9 9 9 9 9, lf_protocol = ETH_P_BATMAN, lf_payload = [packet_type_as_u8 Ogm]\<rparr>"

lemma forged_ogm_type: "frame_packet_type forged_ogm = Some Ogm" "fst (verify_ogm C P (lf_payload forged_ogm) a) \<noteq> Verified"
  by (simp_all add: forged_ogm_def frame_packet_type_def packet_type_from_u8_def verify_ogm_def OGM_HDR_def OGM_SIZE_def)

theorem unverified_frames_inert_witness:
  "\<exists>out r'. handle_frame_with_metrics toy_crypto sample_router_profile unit_sink 0 0 forged_ogm link_metrics_default (replicate 64 0) ()
       (demo_router (demo_node 4)) = Some (out, (), r')
     \<and> ce_batman r' = ce_batman (demo_router (demo_node 4)) \<and> ro_deliver_local out = None"
proof -
  obtain out s' r' where run: "handle_frame_with_metrics toy_crypto sample_router_profile unit_sink 0 0 forged_ogm link_metrics_default
      (replicate 64 0) () (demo_router (demo_node 4)) = Some (out, s', r')" by (rule demo_router_returns)
  from unverified_frames_inert [OF demo_router_parts(1) run] forged_ogm_type run show ?thesis by auto
qed

text \<open>
  A shunned neighbour is silenced. A frame from a link source that a held revocation shuns, other than
  the certificate traffic by which it could be re-admitted, is dropped whole: nothing is forwarded or
  delivered, no measurement of the link is taken, and the engine, the authenticator and the egress table are
  left alone.
\<close>

theorem shunned_sender_silenced:
  assumes "ce_auth r = Some a" "is_shunned (lf_src frame) a" "frame_packet_type frame \<notin> {Some Ogm, Some CertReq, Some CertReply}"
    and "handle_frame_with_metrics C P push now iface frame metrics tx s r = Some (out, s', r')"
  shows "out = outcome_empty \<and> s' = s \<and> r' = r\<lparr>ce_iface_count := ce_iface_count r'\<rparr>"
proof -
  have "shunned_src (lf_src frame) r" using assms(1,2) by (simp add: shunned_src_def)
  with assms(3,4) show ?thesis
    by (auto simp: handle_frame_eq Let_def accounted_def record_rx_def touch_iface_def split: if_splits)
qed

definition shunning_node :: ogm_auth where
  "shunning_node = (demo_node 4)\<lparr>oa_revocations :=
     [\<lparr>kr_record = revoke toy_crypto demo_root (Mac 2 9 9 9 9 9) 150 300, kr_floods_left = REVOKE_FLOOD_BUDGET\<rparr>]\<rparr>"

definition shunned_challenge :: link_frame where
  "shunned_challenge = \<lparr>lf_dst = own_mac shunning_node, lf_src = Mac 2 9 9 9 9 9, lf_protocol = ETH_P_BATMAN,
     lf_payload = packet_type_as_u8 NextHopChallenge # replicate 17 0\<rparr>"

theorem shunned_sender_silenced_witness:
  "\<exists>r'. handle_frame_with_metrics toy_crypto sample_router_profile unit_sink 0 0 shunned_challenge link_metrics_default (replicate 64 0) ()
       (demo_router shunning_node) = Some (outcome_empty, (), r') \<and> ce_auth r' = Some shunning_node"
proof -
  have shun: "is_shunned (lf_src shunned_challenge) shunning_node"
    by (simp add: is_shunned_def shunning_node_def shunned_challenge_def demo_node_parts revoke_def Let_def)
  have pt: "frame_packet_type shunned_challenge \<notin> {Some Ogm, Some CertReq, Some CertReply}"
    by (simp add: shunned_challenge_def frame_packet_type_def packet_type_from_u8_def)
  obtain out s' r' where run: "handle_frame_with_metrics toy_crypto sample_router_profile unit_sink 0 0 shunned_challenge link_metrics_default
      (replicate 64 0) () (demo_router shunning_node) = Some (out, s', r')" by (rule demo_router_returns)
  from shunned_sender_silenced [OF demo_router_parts(1) shun pt run]
  have e: "out = outcome_empty" "s' = ()" "r' = (demo_router shunning_node)\<lparr>ce_iface_count := ce_iface_count r'\<rparr>" by simp_all
  have "ce_auth r' = Some shunning_node" by (subst e(3)) simp
  with run e(1,2) show ?thesis by blast
qed

section \<open>Where proofs come from\<close>

lemma revoke_originators_proven:
  assumes "profile_ok P" "engine_ok P e" "im_get (proven (revoke_originators P ms e)) m = Some x"
  shows "im_get (proven e) m = Some x"
  using assms(2,3)
proof (induction ms arbitrary: e)
  case (Cons k ms)
  have "engine_ok P (revoke_originator P k e)" using revoke_originators_ok [OF assms(1) Cons.prems(1), of "[k]"] by (simp add: revoke_originators_def)
  from Cons.IH [OF this] Cons.prems show ?case
    using revoke_originator_gone(3) [OF assms(1) Cons.prems(1), of k m] by (simp add: revoke_originators_def split: if_splits)
qed (simp add: revoke_originators_def)

lemma purge_stale_proven: "im_get (proven (purge_stale now e)) m = Some x \<Longrightarrow> engine_ok P e \<Longrightarrow> im_get (proven e) m = Some x"
  by (auto simp: purge_stale_def Let_def frame_simps im_get_retain engine_ok_def im_ok_def split: option.splits if_splits)

lemma hint_purge_proven:
  assumes "profile_ok (cp_engine P)" "engine_ok (cp_engine P) (ce_batman r)" "hint_purge P now r = Some r'"
    and "im_get (proven (ce_batman r')) m = Some x"
  shows "im_get (proven (ce_batman r)) m = Some x"
proof -
  let ?e = "timers_restarted now (ce_batman r)"
  have ok: "engine_ok (cp_engine P) ?e" using assms(2) by (rule timers_restarted_ok)
  have "im_get (proven ?e) m = Some x" if "purge_revoked P now a (ce_batman r) = Some e'" "im_get (proven e') m = Some x" for a e'
  proof -
    have "e' = purge_stale now (revoke_originators (cp_engine P) (macs_to_purge a) ?e)"
      using that(1) by (simp add: purge_revoked_def reset_ogm_timers_eq split: if_splits)
    with that(2) show ?thesis
      using revoke_originators_proven [OF assms(1) ok] purge_stale_proven revoke_originators_ok [OF assms(1) ok] by blast
  qed
  moreover have "proven ?e = proven (ce_batman r)" by (simp add: timers_restarted_def)
  ultimately show ?thesis
    using assms(3,4) by (auto simp: hint_purge_def Let_def split: option.splits prod.splits if_splits)
qed

lemma note_proven_other:
  assumes "profile_ok P" "engine_ok P e" "im_get (proven (note_proven P now n i e)) m = Some x"
  shows "m = n \<and> x = (from_duration now, i) \<or> im_get (proven e) m = Some x"
proof -
  have ok: "im_ok (max_originators P) (proven e)" using assms(2) by (simp add: engine_ok_def)
  have "im_get (insert_evicting (swap_order P) (max_originators P) (\<lambda>(t, _). elapsed_since (from_duration now) t) n (from_duration now, i) (proven e)) m = Some x"
    using assms(3) by (simp add: note_proven_def Let_def frame_simps)
  then show ?thesis
    using insert_evicting_get [OF assms(1) ok]
      insert_evicting_other [OF assms(1) ok, of m n "\<lambda>(t, _). elapsed_since (from_duration now) t" "(from_duration now, i)"]
    by (cases "m = n") auto
qed

lemma response_outstanding:
  "fst (verify_challenge_response C P m tag a) \<Longrightarrow> m \<in> oc_neighbor ` set (oa_in_progress a)"
  by (auto simp: verify_challenge_response_def Let_def dest!: position_Some split: if_splits option.splits)

lemma proof_gate_grants:
  assumes "profile_ok (cp_engine P)" "engine_ok (cp_engine P) (ce_batman r)"
    and gate: "proof_gate C P now iface pt frame len r = (Some out, r')"
    and fresh: "im_get (proven (ce_batman r')) m = Some x" "im_get (proven (ce_batman r)) m \<noteq> Some x"
  shows "pt = Some NextHopResponse \<and> lf_dst frame = self_ident (ce_batman r) \<and> lf_src frame = m
    \<and> x = (from_duration now, iface) \<and> (\<exists>a. ce_auth r = Some a \<and> m \<in> oc_neighbor ` set (oa_in_progress a)
      \<and> fst (verify_challenge_response C (cp_auth P) m (inner_body (lf_payload frame)) a))"
proof -
  have changed: "ce_batman r' \<noteq> ce_batman r" using fresh by auto
  then have pt: "pt = Some NextHopResponse" "lf_dst frame = self_ident (ce_batman r)" "ce_auth r \<noteq> None"
    using gate by (auto simp: proof_gate_def split: if_splits option.splits)
  then obtain a where a: "ce_auth r = Some a" by blast
  obtain good a' where v: "verify_challenge_response C (cp_auth P) (lf_src frame) (inner_body (lf_payload frame)) a = (good, a')" by fastforce
  have "r' = (if good then r\<lparr>ce_auth := Some a', ce_batman := note_proven (cp_engine P) now (lf_src frame) iface (ce_batman r)\<rparr> else r\<lparr>ce_auth := Some a'\<rparr>)"
    using gate pt a v by (simp add: proof_gate_def Let_def split: if_splits)
  with changed have good: "good" and e': "ce_batman r' = note_proven (cp_engine P) now (lf_src frame) iface (ce_batman r)"
    by (auto split: if_splits)
  have "m = lf_src frame \<and> x = (from_duration now, iface)"
    using note_proven_other [OF assms(1,2), of now "lf_src frame" iface m x] fresh by (simp add: e')
  moreover from v good have "fst (verify_challenge_response C (cp_auth P) (lf_src frame) (inner_body (lf_payload frame)) a)" by simp
  ultimately show ?thesis using pt a response_outstanding by blast
qed

lemma outcome_keeps_engine: "ce_batman (snd (route_outcome C P now iface pt frame act reply r)) = ce_batman r"
  by (auto simp: route_outcome_def deliver_local_def Let_def split: routing_action.split option.split batman_packet_type.split prod.split)

lemma route_frame_proven:
  assumes "profile_ok (cp_engine P)" "engine_ok (cp_engine P) (ce_batman r)"
    and "route_frame C P push now iface pt frame q tx s r = Some (out, s', r')" "im_get (proven (ce_batman r')) m = Some x"
  shows "im_get (proven (ce_batman r)) m = Some x"
proof -
  obtain r1 act reply s1 e1 where h: "hint_purge P now r = Some r1"
      "handle_rx (cp_engine P) push now frame q (scratchpad tx) s (ce_batman r1) = Some (act, reply, s1, e1)"
    using assms(3) by (auto simp: route_frame_def split: option.splits)
  then have "r' = snd (route_outcome C P now iface pt frame act reply (r1\<lparr>ce_batman := e1\<rparr>))"
    using assms(3) by (auto simp: route_frame_def split: prod.splits)
  then have "ce_batman r' = e1" by (simp add: outcome_keeps_engine)
  moreover have "proofs_kept (ce_batman r1) e1"
    by (rule proofs_kept_rx [OF assms(1) evolves_engine_ok [OF assms(1,2) evolves_hint_purge [OF h(1)]] h(2)])
  ultimately show ?thesis using assms(4) hint_purge_proven [OF assms(1,2) h(1)] by (simp add: proofs_kept_def)
qed

end
