(* ===== verification/Router_Exchange.thy ===== *)
theory Router_Exchange
  imports Router_Safety
begin

text \<open>
  Two routers talking to each other: the challenge that opens a route, and the sends it opens.
\<close>

section \<open>Sends follow proofs\<close>

definition sound_router :: "crypto \<Rightarrow> router_profile \<Rightarrow> mac \<Rightarrow> central_router \<Rightarrow> bool" where
  "sound_router C P ident r \<longleftrightarrow> engine_ok (cp_engine P) (ce_batman r) \<and> self_ident (ce_batman r) = ident \<and> rest_ok P r
     \<and> (\<forall>a. ce_auth r = Some a \<longrightarrow> auth_ok C (cp_auth P) a \<and> require_proof (ce_batman r))"

lemma sound_routerD:
  assumes "sound_router C P ident r"
  shows "engine_ok (cp_engine P) (ce_batman r)" "self_ident (ce_batman r) = ident" "rest_ok P r"
    "ce_auth r = Some a \<Longrightarrow> auth_ok C (cp_auth P) a" "ce_auth r = Some a \<Longrightarrow> require_proof (ce_batman r)"
  using assms by (simp_all add: sound_router_def)

text \<open>Every router the calls reach is sound.\<close>

lemma reachable_sound:
  assumes "crypto_ok C" "profiles_ok P" "router_reachable C P ident r"
  shows "sound_router C P ident r"
  using router_invD [OF router_reachable_inv [OF assms] assms(1,2)] by (simp add: sound_router_def)

lemma next_hop_proven: "next_hop e now d = Some h \<Longrightarrow> proof_current e now h"
  by (auto simp: next_hop_def Let_def dest!: max_by_key_in split: option.splits)

lemma next_hop_known: "next_hop e now d = Some h \<Longrightarrow> is_originator e d"
  by (auto simp: next_hop_def Let_def is_originator_def im_contains_def split: option.splits)

lemma current_proof_interface: "require_proof e \<Longrightarrow> proof_current e now h \<Longrightarrow> \<exists>t i. im_get (proven e) h = Some (t, i) \<and> proven_interface e now h = Some i"
  by (auto simp: proof_current_def proven_interface_def Let_def split: option.splits)

text \<open>
  C4. A node sends only over proven next hops. With an authenticator attached, an accepted send to a node
  the mesh knows is addressed to the chosen next hop, whose proof is current; without a proven hop it is refused,
  and nothing is sent. The egress query the drivers then make, for the frame's link destination, answers an
  interface on which a neighbour gave a current proof: the addressee itself when it is its own next hop or
  no route to it is held, and otherwise the next hop towards the addressee.
\<close>

theorem local_sends_proven:
  assumes "sound_router C P ident r" "ce_auth r = Some a" "is_originator (ce_batman r) dest" "dest \<noteq> BROADCAST"
  shows "(case handle_local now dest payload tx r of
      (Inl err, r') \<Rightarrow> err = AuthLocked \<and> auth_locked r \<or> err = RouteUnproven \<and> next_hop (ce_batman r) now dest = None
                 \<or> err = BufferTooSmall \<and> length tx < ROUTED_SIZE + length payload
    | (Inr f, r') \<Rightarrow> next_hop (ce_batman r) now dest = Some (fd_dst f)
        \<and> im_contains (proven (ce_batman r)) (fd_dst f) \<and> proof_current (ce_batman r) now (fd_dst f)
        \<and> (fd_dst f \<noteq> BROADCAST \<longrightarrow>
            (\<exists>h t i. h = (case next_hop (ce_batman r) now (fd_dst f) of Some h \<Rightarrow> h | None \<Rightarrow> fd_dst f)
              \<and> im_get (proven (ce_batman r)) h = Some (t, i) \<and> proof_current (ce_batman r) now h
              \<and> egress_interface_for now (fd_dst f) r' = Some (Some (Interface i), r'))))"
proof -
  have req: "require_proof (ce_batman r)" using assms(1,2) by (simp add: sound_router_def)
  show ?thesis
  proof (cases "next_hop (ce_batman r) now dest")
    case None
    with assms(3,4) show ?thesis by (simp add: handle_local_def resolve_next_hop_def)
  next
    case (Some h)
    define n where "n = (case next_hop (ce_batman r) now h of Some n \<Rightarrow> n | None \<Rightarrow> h)"
    have cur: "proof_current (ce_batman r) now h" "proof_current (ce_batman r) now n"
      using next_hop_proven [OF Some] next_hop_proven [of "ce_batman r" now h] by (auto simp: n_def split: option.splits)
    obtain t i t' j where "im_get (proven (ce_batman r)) h = Some (t', j)"
        "im_get (proven (ce_batman r)) n = Some (t, i)" "proven_interface (ce_batman r) now n = Some i"
      using current_proof_interface [OF req cur(1)] current_proof_interface [OF req cur(2)] by blast
    with Some assms(4) cur show ?thesis
      by (cases "next_hop (ce_batman r) now h")
         (simp_all add: handle_local_def resolve_next_hop_def Let_def egress_interface_for_def n_def im_contains_def)
  qed
qed

text \<open>A sample router that hears of a peer, with what it has proven of it.\<close>

definition offering_router :: "(mac, Millis.millis \<times> nat) imap \<Rightarrow> u8 \<Rightarrow> u8 \<Rightarrow> central_router" where
  "offering_router ps n m =
     (let r = demo_router (demo_peer n m); peer = own_mac (demo_peer m n)
      in r\<lparr>ce_batman := (ce_batman r)\<lparr>originator_table := [(peer, sample_record\<lparr>or_neighbor_ident := peer, or_paths := [sample_path peer 200]\<rparr>)],
             proven := ps\<rparr>\<rparr>)"

lemma offering_router_parts:
  "ce_auth (offering_router ps n m) = Some (demo_peer n m)" "\<not> auth_locked (offering_router ps n m)"
  "proven (ce_batman (offering_router ps n m)) = ps" "require_proof (ce_batman (offering_router ps n m))"
  by (simp_all add: offering_router_def Let_def auth_locked_def self_revoked_def)
     (use demo_router_parts(3) [of "demo_peer n m"] in \<open>simp add: auth_locked_def self_revoked_def\<close>)

lemma offering_router_sound:
  assumes "im_ok 32 ps"
  shows "sound_router toy_crypto sample_router_profile (own_mac (demo_peer n m)) (offering_router ps n m)"
proof -
  have "0 < ap_neighbor_keys (cp_auth sample_router_profile)"
    by (simp add: sample_router_profile_def default_auth_profile_def MAX_NEIGHBOR_KEYS_def)
  note auth = demo_peer_ok [OF this]
  have "engine_ok (cp_engine sample_router_profile) (ce_batman (offering_router ps n m))"
    using demo_router_ok(1) [of "demo_peer n m"] assms
    by (simp add: offering_router_def Let_def engine_ok_def sample_router_profile_def default_profile_def im_ok_def im_keys_def
        table_ok_def record_paths_ok_def sample_record_def MAX_PATHS_def)
  moreover have "rest_ok sample_router_profile (offering_router ps n m)"
    using demo_router_ok(2) [of "demo_peer n m"] by (simp add: offering_router_def Let_def rest_ok_def)
  ultimately show ?thesis
    using auth by (simp add: sound_router_def offering_router_parts) (simp add: offering_router_def Let_def)
qed

lemma offering_router_originator: "is_originator (ce_batman (offering_router ps n m)) (own_mac (demo_peer m n))"
  by (simp add: offering_router_def Let_def is_originator_def im_contains_def im_get_def)

definition demo_proof :: "(mac, Millis.millis \<times> nat) imap" where
  "demo_proof = [(own_mac (demo_peer 8 4), 0, 2)]"

theorem local_sends_proven_witness:
  "\<exists>f r'. handle_local 0 (own_mac (demo_peer 8 4)) [1] (replicate 64 0) (offering_router demo_proof 4 8) = (Inr f, r')
     \<and> fd_dst f = own_mac (demo_peer 8 4) \<and> egress_interface_for 0 (fd_dst f) r' = Some (Some (Interface 2), r')"
proof -
  let ?r = "offering_router demo_proof 4 8" and ?m = "own_mac (demo_peer 8 4)"
  have bc: "?m \<noteq> BROADCAST" by (simp add: demo_peer_def demo_node_parts BROADCAST_def)
  have ok: "im_ok 32 demo_proof" by (simp add: demo_proof_def im_ok_def im_keys_def)
  have hop: "next_hop (ce_batman ?r) 0 ?m = Some ?m"
    by (simp add: next_hop_def offering_router_def Let_def im_get_def sample_path_def path_stale_def is_stale_iff elapsed_since_unat
        from_duration_def proof_current_def demo_proof_def)
  have p: "im_get (proven (ce_batman ?r)) ?m = Some (0, 2)" by (simp add: offering_router_parts demo_proof_def im_get_def)
  obtain x r' where h: "handle_local 0 ?m [1] (replicate 64 0) ?r = (x, r')" by fastforce
  note sent = local_sends_proven [OF offering_router_sound [OF ok] offering_router_parts(1) offering_router_originator bc,
      where now = 0 and payload = "[1]" and tx = "replicate 64 0"]
  obtain f where f: "x = Inr f" using sent h hop by (cases x) (auto simp: offering_router_parts ROUTED_SIZE_def)
  then have "fd_dst f = ?m" using sent h hop by simp
  with f h sent hop p bc show ?thesis by auto
qed

text \<open>
  The interface need not be the addressee's own. Here a send is addressed to a neighbour whose proof was given on interface
  2, and the egress query sends the frame out on interface 3, towards the better route to that neighbour
  through another one.
\<close>

definition detour_router :: central_router where
  "detour_router =
     (let r = demo_router (demo_peer 4 8); n = Mac 0 0 0 0 0 5; m = Mac 0 0 0 0 0 6; d = Mac 0 0 0 0 0 9
      in r\<lparr>ce_batman := (ce_batman r)\<lparr>
             originator_table := [(d, sample_record\<lparr>or_neighbor_ident := d, or_paths := [sample_path n 200]\<rparr>),
               (n, sample_record\<lparr>or_neighbor_ident := n, or_paths := [sample_path n 100, sample_path m 220]\<rparr>)],
             proven := [(n, 0, 2), (m, 0, 3)]\<rparr>\<rparr>)"

lemma egress_leaves_the_proven_interface:
  "\<exists>f. handle_local 0 (Mac 0 0 0 0 0 9) [1] (replicate 64 0) detour_router = (Inr f, detour_router)
     \<and> fd_dst f = Mac 0 0 0 0 0 5 \<and> proven_interface (ce_batman detour_router) 0 (fd_dst f) = Some 2
     \<and> egress_interface_for 0 (fd_dst f) detour_router = Some (Some (Interface 3), detour_router)"
proof -
  let ?e = "ce_batman detour_router" and ?n = "Mac 0 0 0 0 0 5" and ?m = "Mac 0 0 0 0 0 6" and ?d = "Mac 0 0 0 0 0 9"
  have tab: "im_get (originator_table ?e) ?d = Some (sample_record\<lparr>or_neighbor_ident := ?d, or_paths := [sample_path ?n 200]\<rparr>)"
      "im_get (originator_table ?e) ?n = Some (sample_record\<lparr>or_neighbor_ident := ?n, or_paths := [sample_path ?n 100, sample_path ?m 220]\<rparr>)"
    by (simp_all add: detour_router_def Let_def im_get_def)
  have cur: "proof_current ?e 0 ?n" "proof_current ?e 0 ?m"
    by (simp_all add: proof_current_def detour_router_def Let_def im_get_def from_duration_def is_stale_iff elapsed_since_unat)
  have pi: "proven_interface ?e 0 ?n = Some 2" "proven_interface ?e 0 ?m = Some 3"
    by (simp_all add: proven_interface_def detour_router_def Let_def im_get_def from_duration_def is_stale_iff elapsed_since_unat)
  have fresh: "\<not> path_stale (from_duration 0) (sample_path x q) s" for x q s
    by (simp add: sample_path_def path_stale_def is_stale_iff elapsed_since_unat from_duration_def)
  have "keepalive ?e = []" by (simp add: detour_router_def Let_def demo_router_def set_auth_def router_with_capacities_def
      engine_reset_def set_require_proof_def engine_new_def)
  then have tq: "effective_tq ?e 0 (sample_path x q) = q" for x q
    by (simp add: effective_tq_def keepalive_missed_def sample_path_def)
  have hop: "next_hop ?e 0 ?d = Some ?n" "next_hop ?e 0 ?n = Some ?m"
    using cur fresh tq by (simp_all add: next_hop_def tab Let_def) (simp_all add: sample_path_def)
  have "\<not> auth_locked detour_router"
    using demo_router_parts(3) [of "demo_peer 4 8"] by (simp add: detour_router_def Let_def auth_locked_def self_revoked_def)
  then have "handle_local 0 ?d [1] (replicate 64 0) detour_router =
      (Inr \<lparr>fd_dst = ?n, fd_protocol = ETH_P_BATMAN, fd_payload = routed_write \<lparr>rp_packet_type = packet_type_as_u8 Unicast,
         rp_version = BATMAN_VERSION, rp_ttl = 50, rp_dest = ?d\<rparr> @ [1]\<rparr>, detour_router)"
    using hop(1) tab(1) by (simp add: handle_local_def resolve_next_hop_def Let_def BROADCAST_def ROUTED_SIZE_def im_contains_def)
  moreover have "egress_interface_for 0 ?n detour_router = Some (Some (Interface 3), detour_router)"
    using hop(2) pi(2) by (simp add: egress_interface_for_def BROADCAST_def)
  ultimately show ?thesis using pi(1) by simp
qed

text \<open>
  The read-only query a client makes of the router does not look at proofs: here a send leaves on the proven
  interface, and the query reports that there is none.
\<close>

lemma resolve_route_misses_proven_interface:
  "egress_interface_for 0 (own_mac (demo_peer 8 4)) (offering_router demo_proof 4 8) = Some (Some (Interface 2), offering_router demo_proof 4 8)"
  "resolve_route 0 (own_mac (demo_peer 8 4)) (offering_router demo_proof 4 8) = Some (own_mac (demo_peer 8 4), None)"
proof -
  let ?r = "offering_router demo_proof 4 8" and ?m = "own_mac (demo_peer 8 4)"
  have bc: "?m \<noteq> BROADCAST" by (simp add: demo_peer_def demo_node_parts BROADCAST_def)
  have hop: "next_hop (ce_batman ?r) 0 ?m = Some ?m"
    by (simp add: next_hop_def offering_router_def Let_def im_get_def sample_path_def path_stale_def is_stale_iff elapsed_since_unat
        from_duration_def proof_current_def demo_proof_def)
  have "proven_interface (ce_batman ?r) 0 ?m = Some 2"
    by (simp add: proven_interface_def offering_router_parts demo_proof_def im_get_def from_duration_def is_stale_iff elapsed_since_unat)
  then show "egress_interface_for 0 ?m ?r = Some (Some (Interface 2), ?r)" using hop bc by (simp add: egress_interface_for_def)
  have "best_interface_for ?m (ce_link_quality ?r) = None" "peek_egress_interface ?m (ce_ident_table ?r) = Some None"
    by (simp_all add: offering_router_def demo_router_def Let_def set_auth_def router_with_capacities_def lq_clear_def best_interface_for_def
        peek_egress_interface_def ident_clear_def ident_new_def lq_new_def im_get_def)
  then show "resolve_route 0 ?m ?r = Some (?m, None)" using hop bc by (simp add: resolve_route_def resolve_next_hop_def)
qed

section \<open>The challenge exchange\<close>

lemma proof_gate_ends: "pt \<in> {NextHopChallenge, NextHopResponse} \<Longrightarrow> fst (proof_gate C P now iface (Some pt) frame n r) \<noteq> None"
  by (auto simp: proof_gate_def Let_def split: option.split prod.split)

lemma proof_frame_received:
  assumes "profiles_ok P" "engine_ok (cp_engine P) (ce_batman r)" "rest_ok P r" "\<not> auth_locked r" "\<not> shunned_src (lf_src frame) r"
    and "lf_protocol frame = ETH_P_BATMAN" "lf_dst frame = self_ident (ce_batman r)"
    and "frame_packet_type frame = Some pt" "pt = NextHopChallenge \<or> pt = NextHopResponse"
  obtains r0 out r' where "ce_auth r0 = ce_auth r" "ce_batman r0 = ce_batman r"
    "proof_gate C P now iface (Some pt) frame (length tx) r0 = (Some out, r')"
    "handle_frame_with_metrics C P push now iface frame metrics tx s r = Some (out, s, r')"
proof -
  obtain xs l where "it_repr (cp_ident P) (ce_ident_table r) xs l" using assms(3) by (auto simp: rest_ok_def)
  with add_record_refines [of "cp_ident P" "ce_ident_table r" xs l iface "lf_dst frame"] assms(1)
  obtain t where t: "add_record (cp_ident P) iface (lf_dst frame) (ce_ident_table r) = Some t" by (auto simp: profiles_ok_def)
  let ?r = "(accounted P iface frame metrics r)\<lparr>ce_ident_table := t\<rparr>"
  have on: "\<not> overheard (Some pt) (lf_dst frame) (self_ident (ce_batman ?r))" "\<not> rx_gated (Some pt) f" for f
    using assms(7,9) by (auto simp: overheard_def rx_gated_def)
  have gates: "ogm_gate C P (Some pt) frame tx' ?r = (None, ?r)" "keepalive_gate C P (Some pt) frame ?r = (None, ?r)" for tx'
    using assms(9) by auto
  obtain g r1 where g: "proof_gate C P now iface (Some pt) frame (length tx) ?r = (Some g, r1)"
    using proof_gate_ends assms(9) by (metis insert_iff not_Some_eq prod.collapse)
  have "receive_batman C P push now iface (Some pt) frame q (replicate (length tx) 0) s ?r = Some (g, s, r1)" for q
    using on gates g by (simp add: receive_batman_def gated_def)
  then have "handle_frame_with_metrics C P push now iface frame metrics tx s r = Some (g, s, r1)"
    using assms(4-6,8) t by (simp add: handle_frame_eq Let_def)
  from that [OF _ _ g this] show thesis by simp
qed

lemma frame_typed:
  "minimal_write \<lparr>mp_packet_type = packet_type_as_u8 pt, mp_version = v\<rparr> @ body = fd_payload f \<Longrightarrow> fd_protocol f = ETH_P_BATMAN
    \<Longrightarrow> frame_packet_type (sent_by m f) = Some pt"
  by (cases pt) (auto simp: minimal_write_def frame_packet_type_def sent_by_def packet_type_from_u8_def dest!: sym [of _ "fd_payload f"])

lemma proof_body:
  "pt \<in> {NextHopChallenge, NextHopResponse} \<Longrightarrow> inner_body (minimal_write \<lparr>mp_packet_type = packet_type_as_u8 pt, mp_version = v\<rparr> @ body) = body"
  by (auto simp: inner_body_def inner_payload_def inner_offset_def minimal_write_def MINIMAL_SIZE_def packet_type_from_u8_def)

lemmas proof_bodies = proof_body [of NextHopChallenge, simplified] proof_body [of NextHopResponse, simplified]

lemma challenge_exchange:
  assumes "crypto_ok C" "knows C s r" "knows C r s" "auth_ok C P s" "auth_ok C Q r" "oa_challenge_counter s \<noteq> - 1"
  obtains nonce s1 tag where "issue_challenge C (own_mac r) s = Some (Some nonce, s1)" "length nonce = CHALLENGE_NONCE_LEN"
    "answer_challenge C (own_mac s) nonce r = Some tag" "length tag = TAG_LEN"
    "\<forall>claim. \<exists>t. verify_challenge_response C P (own_mac r) tag (s1\<lparr>oa_restart_candidate := claim\<rparr>) = (True, t)"
  by (rule challenge_answered [OF assms]) (erule that, assumption+, blast)

lemma polled_challenge:
  assumes "issue_challenge C m s = Some (Some nonce, s1)" "length nonce = CHALLENGE_NONCE_LEN"
    and "ce_auth b = Some s" "\<not> auth_locked b" "challenge_candidates (cp_engine P) (ce_batman b) now = m # cs" "18 \<le> length tx"
  shows "poll_challenge C P now tx b = Some (Some (m, \<lparr>fd_dst = m, fd_protocol = ETH_P_BATMAN,
      fd_payload = minimal_write \<lparr>mp_packet_type = packet_type_as_u8 NextHopChallenge, mp_version = BATMAN_VERSION\<rparr> @ nonce\<rparr>),
      b\<lparr>ce_batman := note_challenged (cp_engine P) now m (ce_batman b), ce_auth := Some s1\<rparr>)"
  using assms by (simp add: poll_challenge_def build_challenge_frame_def Let_def CHALLENGE_NONCE_LEN_def MINIMAL_SIZE_def TAG_LEN_def)

lemma issue_keeps_shun: "issue_challenge C m s = Some (x, s1) \<Longrightarrow> is_shunned n s1 = is_shunned n s"
  by (auto simp: issue_challenge_def record_challenge_def Let_def is_shunned_def split: if_splits option.splits)

lemma answered_frame:
  assumes "answer_challenge C m nonce r = Some tag" "length tag = TAG_LEN" "18 \<le> n"
  shows "answer_challenge_frame C m nonce n r = Some \<lparr>fd_dst = m, fd_protocol = ETH_P_BATMAN,
      fd_payload = minimal_write \<lparr>mp_packet_type = packet_type_as_u8 NextHopResponse, mp_version = BATMAN_VERSION\<rparr> @ tag\<rparr>"
  using assms by (simp add: answer_challenge_frame_def MINIMAL_SIZE_def TAG_LEN_def)

lemma proof_granted:
  assumes "profile_ok P" "engine_ok P e" "require_proof e"
  shows "proof_current (note_proven P now n i e) now n" "proven_interface (note_proven P now n i e) now n = Some i"
    "im_get (proven (note_proven P now n i e)) n = Some (from_duration now, i)"
proof -
  have "im_ok (max_originators P) (proven e)" using assms(2) by (simp add: engine_ok_def)
  then show *: "im_get (proven (note_proven P now n i e)) n = Some (from_duration now, i)"
    by (simp add: note_proven_def Let_def frame_simps insert_evicting_get [OF assms(1)])
  have "require_proof (note_proven P now n i e)" using assms(3) by (simp add: note_proven_def Let_def frame_simps)
  with * show "proof_current (note_proven P now n i e) now n" "proven_interface (note_proven P now n i e) now n = Some i"
    by (simp_all add: proof_current_def proven_interface_def)
qed

lemma challenge_round:
  fixes a b :: central_router
  assumes "crypto_ok C" "profiles_ok P" "profiles_ok Q" "sound_router C P (own_mac s) b" "sound_router C Q (own_mac r) a"
    and "ce_auth b = Some s" "ce_auth a = Some r" "knows C s r" "knows C r s" "\<not> is_shunned (own_mac r) s" "\<not> is_shunned (own_mac s) r"
    and "\<not> auth_locked b" "\<not> auth_locked a" "oa_challenge_counter s \<noteq> - 1"
    and "challenge_candidates (cp_engine P) (ce_batman b) t1 = own_mac r # cs" "18 \<le> length tx1" "18 \<le> length tx2"
  shows "\<exists>f b1 g a' b2. poll_challenge C P t1 tx1 b = Some (Some (own_mac r, f), b1)
    \<and> handle_frame_with_metrics C Q push t2 ia (sent_by (own_mac s) f) ma tx2 x a
       = Some (\<lparr>ro_forward = Some g, ro_deliver_local = None, ro_pin_egress_iface = Some ia\<rparr>, x, a')
    \<and> handle_frame_with_metrics C P push' t3 ib (sent_by (own_mac r) g) mb tx3 y b1 = Some (outcome_empty, y, b2)
    \<and> im_get (proven (ce_batman b2)) (own_mac r) = Some (from_duration t3, ib) \<and> proof_current (ce_batman b2) t3 (own_mac r)
    \<and> proven_interface (ce_batman b2) t3 (own_mac r) = Some ib"
proof -
  note B = sound_routerD [OF assms(4)] and A = sound_routerD [OF assms(5)]
  obtain nonce s1 tag where ch: "issue_challenge C (own_mac r) s = Some (Some nonce, s1)" "length nonce = CHALLENGE_NONCE_LEN"
      "answer_challenge C (own_mac s) nonce r = Some tag" "length tag = TAG_LEN"
      "\<forall>claim. \<exists>t. verify_challenge_response C (cp_auth P) (own_mac r) tag (s1\<lparr>oa_restart_candidate := claim\<rparr>) = (True, t)"
    by (rule challenge_exchange [OF assms(1,8,9) B(4) [OF assms(6)] A(4) [OF assms(7)] assms(14)])
  define f where "f = \<lparr>fd_dst = own_mac r, fd_protocol = ETH_P_BATMAN,
      fd_payload = minimal_write \<lparr>mp_packet_type = packet_type_as_u8 NextHopChallenge, mp_version = BATMAN_VERSION\<rparr> @ nonce\<rparr>"
  define g where "g = \<lparr>fd_dst = own_mac s, fd_protocol = ETH_P_BATMAN,
      fd_payload = minimal_write \<lparr>mp_packet_type = packet_type_as_u8 NextHopResponse, mp_version = BATMAN_VERSION\<rparr> @ tag\<rparr>"
  define b1 where "b1 = b\<lparr>ce_batman := note_challenged (cp_engine P) t1 (own_mac r) (ce_batman b), ce_auth := Some s1\<rparr>"
  have poll: "poll_challenge C P t1 tx1 b = Some (Some (own_mac r, f), b1)"
    using polled_challenge [OF ch(1,2) assms(6,12,15,16)] by (simp add: f_def b1_def)
  have types: "frame_packet_type (sent_by (own_mac s) f) = Some NextHopChallenge" "frame_packet_type (sent_by (own_mac r) g) = Some NextHopResponse"
    by (simp_all add: frame_typed f_def g_def)
  have ga: "\<exists>a'. handle_frame_with_metrics C Q push t2 ia (sent_by (own_mac s) f) ma tx2 x a
       = Some (\<lparr>ro_forward = Some g, ro_deliver_local = None, ro_pin_egress_iface = Some ia\<rparr>, x, a')"
  proof (rule proof_frame_received [OF assms(3) A(1,3) assms(13) _ _ _ types(1), where C = C])
    fix r0 out r' assume r0: "ce_auth r0 = ce_auth a" "ce_batman r0 = ce_batman a"
      "proof_gate C Q t2 ia (Some NextHopChallenge) (sent_by (own_mac s) f) (length tx2) r0 = (Some out, r')"
      "handle_frame_with_metrics C Q push t2 ia (sent_by (own_mac s) f) ma tx2 x a = Some (out, x, r')"
    then show ?thesis
      using answered_frame [OF ch(3,4) assms(17)] A(2) assms(7)
      by (auto simp: proof_gate_def sent_by_def f_def proof_bodies g_def)
  qed (use assms(7,11) A(2) in \<open>simp_all add: shunned_src_def sent_by_def f_def\<close>)
  have ok: "profile_ok (cp_engine P)" "engine_ok (cp_engine P) (ce_batman b1)"
    using assms(2) note_challenged_ok [OF _ B(1)] by (simp_all add: profiles_ok_def b1_def)
  have "\<exists>b2. handle_frame_with_metrics C P push' t3 ib (sent_by (own_mac r) g) mb tx3 y b1 = Some (outcome_empty, y, b2)
    \<and> ce_batman b2 = note_proven (cp_engine P) t3 (own_mac r) ib (ce_batman b1)"
  proof (rule proof_frame_received [OF assms(2) ok(2) _ _ _ _ _ types(2), where C = C])
    fix r0 out r' assume r0: "ce_auth r0 = ce_auth b1" "ce_batman r0 = ce_batman b1"
      "proof_gate C P t3 ib (Some NextHopResponse) (sent_by (own_mac r) g) (length tx3) r0 = (Some out, r')"
      "handle_frame_with_metrics C P push' t3 ib (sent_by (own_mac r) g) mb tx3 y b1 = Some (out, y, r')"
    obtain t where v: "verify_challenge_response C (cp_auth P) (own_mac r) tag s1 = (True, t)"
      using ch(5) [rule_format, of "oa_restart_candidate s1"] by auto
    have own: "self_ident (ce_batman b1) = own_mac s" using B(2) by (simp add: b1_def note_challenged_def Let_def)
    have "out = outcome_empty" "ce_batman r' = note_proven (cp_engine P) t3 (own_mac r) ib (ce_batman b1)"
      using r0(1,2,3) v own by (auto simp: proof_gate_def sent_by_def g_def proof_bodies b1_def Let_def)
    with r0(4) show ?thesis by blast
  qed (use assms(6,10,12) B(2,3) issue_keeps_shun [OF ch(1)] in
      \<open>simp_all add: shunned_src_def sent_by_def g_def b1_def rest_ok_def auth_locked_def self_revoked_def note_challenged_def Let_def\<close>)
  moreover have req: "require_proof (ce_batman b1)" using B(5) [OF assms(6)] by (simp add: b1_def note_challenged_def Let_def)
  ultimately show ?thesis using poll ga proof_granted [OF ok req, of t3 "own_mac r" ib] by metis
qed

text \<open>
  C5. A challenge opens the hop. When two unlocked routers hold each other's certificates and neither shuns
  the other, and the challenge schedule of one names the other, then the challenge that is polled is answered
  by the peer on the interface it came in on, and the answer leaves the challenger with a current proof of
  the peer bound to the interface the answer came in on.
\<close>

theorem challenge_opens_hop:
  fixes a b :: central_router
  assumes "crypto_ok C" "profiles_ok P" "profiles_ok Q" "sound_router C P (own_mac s) b" "sound_router C Q (own_mac r) a"
    and "ce_auth b = Some s" "ce_auth a = Some r" "knows C s r" "knows C r s" "\<not> is_shunned (own_mac r) s" "\<not> is_shunned (own_mac s) r"
    and "\<not> auth_locked b" "\<not> auth_locked a" "oa_challenge_counter s \<noteq> - 1"
    and "challenge_candidates (cp_engine P) (ce_batman b) t1 = own_mac r # cs" "18 \<le> length tx1" "18 \<le> length tx2"
  shows "\<exists>f b1 g a' b2. poll_challenge C P t1 tx1 b = Some (Some (own_mac r, f), b1)
    \<and> handle_frame_with_metrics C Q push t2 ia (sent_by (own_mac s) f) ma tx2 x a
       = Some (\<lparr>ro_forward = Some g, ro_deliver_local = None, ro_pin_egress_iface = Some ia\<rparr>, x, a')
    \<and> handle_frame_with_metrics C P push' t3 ib (sent_by (own_mac r) g) mb tx3 y b1 = Some (outcome_empty, y, b2)
    \<and> proof_current (ce_batman b2) t3 (own_mac r) \<and> proven_interface (ce_batman b2) t3 (own_mac r) = Some ib"
  using challenge_round [OF assms, of push t2 ia ma x push' t3 ib mb tx3 y] by blast

lemma demo_challenge:
  "challenge_candidates (cp_engine sample_router_profile) (ce_batman (offering_router [] 4 8)) 0 = [own_mac (demo_peer 8 4)]"
  "\<not> is_shunned m (demo_peer i j)" "oa_challenge_counter (demo_peer i j) \<noteq> - 1" "im_ok 32 []"
  by (simp_all add: challenge_candidates_def offered_neighbors_def offering_router_def Let_def challenge_due_def proof_needs_refresh_def im_get_def
      sample_path_def is_shunned_def demo_peer_def demo_node_parts im_ok_def im_keys_def)
     (simp_all add: demo_router_def set_auth_def Let_def router_with_capacities_def engine_reset_def set_require_proof_def engine_new_def
      demo_node_def with_capacities_def)

lemmas demo_round = toy_crypto_ok sample_profiles_ok sample_profiles_ok offering_router_sound [OF demo_challenge(4)] offering_router_sound [OF demo_challenge(4)]
  offering_router_parts(1) offering_router_parts(1) demo_peer_knows demo_peer_knows demo_challenge(2) demo_challenge(2)
  offering_router_parts(2) offering_router_parts(2) demo_challenge(3) demo_challenge(1)

theorem challenge_opens_hop_witness:
  "\<exists>f b1 g a' b2. poll_challenge toy_crypto sample_router_profile 0 (replicate 64 0) (offering_router [] 4 8) = Some (Some (own_mac (demo_peer 8 4), f), b1)
    \<and> handle_frame_with_metrics toy_crypto sample_router_profile unit_sink 0 2 (sent_by (own_mac (demo_peer 4 8)) f) link_metrics_default
        (replicate 64 0) () (offering_router [] 8 4)
       = Some (\<lparr>ro_forward = Some g, ro_deliver_local = None, ro_pin_egress_iface = Some 2\<rparr>, (), a')
    \<and> handle_frame_with_metrics toy_crypto sample_router_profile unit_sink 5 3 (sent_by (own_mac (demo_peer 8 4)) g) link_metrics_default
        [] () b1 = Some (outcome_empty, (), b2)
    \<and> proven_interface (ce_batman b2) 5 (own_mac (demo_peer 8 4)) = Some 3"
  using challenge_opens_hop [OF demo_round, of "replicate 64 0" "replicate 64 0" unit_sink 0 2 link_metrics_default "()" unit_sink 5 3 link_metrics_default "[]" "()"]
  by force

section \<open>Where proofs come from\<close>

text \<open>
  C3. Only an answered challenge proves a next hop. When a received frame leaves a neighbour with a proof it
  did not have, the frame is a challenge response addressed to this node, its link source is that neighbour,
  a challenge to it was outstanding, the authenticator accepted the answer, and the proof is bound to the
  interface the frame came in on.
\<close>

theorem proofs_only_from_answers:
  assumes "profiles_ok P" "engine_ok (cp_engine P) (ce_batman r)"
    and "handle_frame_with_metrics C P push now iface frame metrics tx s r = Some (out, s', r')"
    and "im_get (proven (ce_batman r')) m = Some x" "im_get (proven (ce_batman r)) m \<noteq> Some x"
  shows "frame_packet_type frame = Some NextHopResponse \<and> lf_dst frame = self_ident (ce_batman r) \<and> lf_src frame = m
    \<and> x = (from_duration now, iface) \<and> (\<exists>a. ce_auth r = Some a \<and> m \<in> oc_neighbor ` set (oa_in_progress a)
      \<and> fst (verify_challenge_response C (cp_auth P) m (inner_body (lf_payload frame)) a))"
proof -
  have P: "profile_ok (cp_engine P)" using assms(1) by (simp add: profiles_ok_def)
  have changed: "ce_batman r' \<noteq> ce_batman r" using assms(4,5) by auto
  from assms(3) show ?thesis
  proof (cases rule: frame_cases)
    case locked
    with changed show ?thesis by blast
  next
    case shunned
    with changed show ?thesis using accounted_frame(1) by metis
  next
    case (foreign t)
    have "ce_batman ((accounted P iface frame metrics r)\<lparr>ce_ident_table := t\<rparr>) = ce_batman r" by simp
    with changed show ?thesis unfolding foreign(4) by blast
  next
    case (mesh t q tx')
    let ?pt = "frame_packet_type frame" and ?r = "(accounted P iface frame metrics r)\<lparr>ce_ident_table := t\<rparr>"
    have gate: "ce_batman r1 = ce_batman r" if "ogm_gate C P ?pt frame tx' ?r = (y, r1)" for y r1
      using gates_keep_engine(1) [of C P ?pt frame tx' ?r] that by simp
    have beat: "ce_batman r2 = ce_batman r1" if "keepalive_gate C P ?pt frame r1 = (y, r2)" for y r1 r2
      using gates_keep_engine(2) [of C P ?pt frame r1] that by simp
    from mesh(4) show ?thesis
    proof (cases rule: receive_cases)
      case dropped
      have "ce_batman ?r = ce_batman r" by simp
      with changed show ?thesis unfolding dropped(3) by blast
    next
      case (ogm r1)
      with changed gate show ?thesis by blast
    next
      case (heartbeat r1 r2)
      with changed gate [OF heartbeat(1)] beat [OF heartbeat(2)] show ?thesis by simp
    next
      case (proof_frame r1 r2 r3)
      then have "?pt = Some NextHopChallenge \<or> ?pt = Some NextHopResponse" by (auto simp: proof_gate_def split: if_splits)
      then have "r1 = ?r" using proof_frame(1) by (cases "ce_auth r") (auto simp: ogm_gate_def)
      moreover from this proof_frame(2) \<open>_ \<or> _\<close> have "r2 = r1" by (cases "ce_auth r") (auto simp: keepalive_gate_def)
      ultimately have r2: "ce_batman r2 = ce_batman r" "ce_auth r2 = ce_auth r" by simp_all
      show ?thesis
        using proof_gate_grants [OF P _ proof_frame(3), of m x] assms(2,4,5) by (simp add: r2 proof_frame(4))
    next
      case (revoked r1 r2)
      then have "ce_batman r' = engine_reset (ce_batman r2)"
        by (auto simp: apply_self_revocation_def split: option.splits prod.splits)
      with assms(4) show ?thesis by (simp add: engine_reset_def im_get_def)
    next
      case (routed r1 r2 r3)
      have "ce_batman r3 = ce_batman r2" using routed(4) by (auto simp: apply_self_revocation_def split: option.splits prod.splits)
      then have "ce_batman r3 = ce_batman r" using gate [OF routed(1)] beat [OF routed(2)] by simp
      with route_frame_proven [OF P _ routed(5) assms(4)] assms(2,5) show ?thesis by simp
    qed
  qed
qed

theorem proofs_only_from_answers_witness:
  "\<exists>b1 g b2. handle_frame_with_metrics toy_crypto sample_router_profile unit_sink 5 3 (sent_by (own_mac (demo_peer 8 4)) g) link_metrics_default
        [] () b1 = Some (outcome_empty, (), b2)
    \<and> im_get (proven (ce_batman b1)) (own_mac (demo_peer 8 4)) = None \<and> frame_packet_type (sent_by (own_mac (demo_peer 8 4)) g) = Some NextHopResponse"
proof -
  obtain f b1 g b2 where run: "poll_challenge toy_crypto sample_router_profile 0 (replicate 64 0) (offering_router [] 4 8) = Some (Some (own_mac (demo_peer 8 4), f), b1)"
      "handle_frame_with_metrics toy_crypto sample_router_profile unit_sink 5 3 (sent_by (own_mac (demo_peer 8 4)) g) link_metrics_default
        [] () b1 = Some (outcome_empty, (), b2)"
      "im_get (proven (ce_batman b2)) (own_mac (demo_peer 8 4)) = Some (from_duration 5, 3)"
    using challenge_round [OF demo_round, of "replicate 64 0" "replicate 64 0" unit_sink 0 2 link_metrics_default "()" unit_sink 5 3 link_metrics_default "[]" "()"]
    by auto
  have e: "ce_batman b1 = note_challenged (cp_engine sample_router_profile) 0 (own_mac (demo_peer 8 4)) (ce_batman (offering_router [] 4 8))"
    using run(1) by (auto simp: poll_challenge_def demo_challenge(1) offering_router_parts Let_def)
  have none: "im_get (proven (ce_batman b1)) (own_mac (demo_peer 8 4)) = None"
    by (simp add: e note_challenged_def Let_def offering_router_parts im_get_def)
  have ok: "engine_ok (cp_engine sample_router_profile) (ce_batman b1)"
    using note_challenged_ok sound_routerD(1) [OF offering_router_sound [OF demo_challenge(4)]] sample_profiles_ok by (simp add: e profiles_ok_def)
  from proofs_only_from_answers [OF sample_profiles_ok ok run(2,3)] none run(2) show ?thesis by auto
qed

end
