(* ===== verification/Driver_Safety.thy ===== *)
theory Driver_Safety
  imports Driver_Core Router_Exchange
begin

text \<open>
  What the drivers' shared logic guarantees around the router: where frames leave, that nothing leaves or
  enters unauthenticated, that frames cross a link, and that no multicast destination is lost unseen.
\<close>

section \<open>Interface sets\<close>

lemma bit_single: "bit (2 ^ i :: u32) j \<longleftrightarrow> i = j \<and> j < 32"
  by (auto simp: bit_exp_iff)

lemma set_contains_bit: "set_contains s i \<longleftrightarrow> bit s i"
proof -
  have "s AND 2 ^ i = (if bit s i then 2 ^ i else 0)"
    by (rule bit_word_eqI) (auto simp only: bit_and_iff bit_single bit_0_eq split: if_splits)
  moreover have "(2 ^ i :: u32) \<noteq> 0" if "i < 32"
    using that bit_single [of i i] by (metis bit_0_eq bot_apply bot_bool_def)
  ultimately show ?thesis using bit_imp_le_length [of s i] by (auto simp: set_contains_def SET_CAPACITY_def)
qed

lemma set_insert_bit: "bit (set_insert i s) j \<longleftrightarrow> bit s j \<or> i = j \<and> j < 32"
  using bit_single [of i j] by (auto simp: set_insert_def SET_CAPACITY_def bit_or_iff)

lemma fold_insert_bit: "bit (fold set_insert is s) j \<longleftrightarrow> bit s j \<or> j \<in> set is \<and> j < 32"
  by (induction "is" arbitrary: s) (auto simp: set_insert_bit)

lemma trailing_zeros_least:
  assumes "w \<noteq> 0"
  shows "bit w (trailing_zeros w)" "\<And>j. j < trailing_zeros w \<Longrightarrow> \<not> bit w j"
proof -
  obtain i where i: "bit w i" using assms by (auto simp: bit_eq_iff)
  let ?P = "\<lambda>i. \<not> bit w i" and ?xs = "[0..<32]"
  have lt: "trailing_zeros w < length ?xs"
  proof (rule ccontr)
    assume "\<not> ?thesis"
    then have "takeWhile ?P ?xs = ?xs" by (metis trailing_zeros_def length_takeWhile_le linorder_not_less order_antisym takeWhile_eq_take take_all)
    then have "\<forall>x\<in>set ?xs. ?P x" by (metis set_takeWhileD)
    with i show False using bit_imp_le_length [OF i] by simp
  qed
  from nth_length_takeWhile [of ?P ?xs] lt show "bit w (trailing_zeros w)" by (simp add: trailing_zeros_def)
  show "\<not> bit w j" if "j < trailing_zeros w" for j
    using nth_mem [of j "takeWhile ?P ?xs"] takeWhile_nth [of j ?P ?xs] that lt
    by (auto simp: trailing_zeros_def dest: set_takeWhileD)
qed

lemma clear_lowest:
  fixes w :: u32
  assumes "w \<noteq> 0"
  shows "bit (w AND (w - 1)) j \<longleftrightarrow> bit w j \<and> j \<noteq> trailing_zeros w"
proof -
  define k where "k = trailing_zeros w"
  note k = trailing_zeros_least [OF assms, folded k_def]
  define v where "v = w AND NOT (2 ^ k)"
  have v: "bit v j \<longleftrightarrow> bit w j \<and> j \<noteq> k" for j
    using bit_imp_le_length [of w j] by (auto simp: v_def bit_and_iff bit_not_iff bit_single possible_bit_word)
  have k32: "k < 32" using bit_imp_le_length [OF k(1)] by simp
  have "v AND 2 ^ k = 0" by (rule bit_word_eqI) (auto simp: bit_and_iff v bit_single)
  then have "v + 2 ^ k = v OR 2 ^ k" by (rule disjunctive_add_eq_or)
  also have "\<dots> = w" by (rule bit_word_eqI) (use k(1) in \<open>auto simp: bit_or_iff v bit_single\<close>)
  finally have w: "w = v + 2 ^ k" ..
  have "v AND mask k = 0" by (rule bit_word_eqI) (use k(2) in \<open>auto simp: bit_and_iff bit_mask_iff v\<close>)
  then have "v + mask k = v OR mask k" by (rule disjunctive_add_eq_or)
  moreover have "w - 1 = v + mask k" by (simp add: w mask_eq_exp_minus_1)
  ultimately have "w AND (w - 1) = w AND (v OR mask k)" by simp
  then show ?thesis using k(2) by (auto simp: bit_and_iff bit_or_iff bit_mask_iff v simp flip: k_def)
qed

lemma set_iter_bits: "set_iter w = filter (bit w) [0..<32]"
proof (induction w rule: set_iter.induct)
  case (1 w)
  show ?case
  proof (cases "w = 0")
    case True
    then show ?thesis by (simp add: set_iter.simps)
  next
    case False
    let ?k = "trailing_zeros w"
    note k = trailing_zeros_least [OF False]
    have split: "[0..<32] = [0..<?k] @ ?k # [Suc ?k..<32]"
      using bit_imp_le_length [OF k(1)] upt_add_eq_append [of 0 ?k "32 - ?k"] upt_conv_Cons [of ?k 32] by simp
    have low: "filter (bit w) [0..<?k] = []" using k(2) by (auto simp: filter_empty_conv)
    have "filter (bit (w AND (w - 1))) [0..<32] = filter (\<lambda>j. bit w j \<and> j \<noteq> ?k) [0..<32]"
      by (rule filter_cong [OF refl]) (rule clear_lowest [OF False])
    also have "\<dots> = filter (bit w) [Suc ?k..<32]"
      unfolding split using k(2) by (auto simp: filter_empty_conv intro!: filter_cong)
    finally show ?thesis using "1" False k(1) low by (simp add: set_iter.simps [of w] split)
  qed
qed

section \<open>Where frames leave\<close>

lemma plan_targets_bit:
  "bit (plan_targets eg n pt r) i \<longleftrightarrow> i < 32 \<and> i < n \<and> link_may_tx i pt r \<and> (eg = Some AllInterfaces \<or> eg = Some (Interface i))"
  by (auto simp: plan_targets_def fold_insert_bit set_insert_bit split: option.split egress_interface.split)

lemma proved_parts:
  assumes "crypto_ok C" "prove_frame C proof dst f trailer a = (Some (k, tr), a')" "length trailer = proof_trailer_len proof"
  shows "k = proof_trailer_len proof" "length tr = k" "oa_send_counter a' = oa_send_counter a + 1" "oa_send_counter a < oa_send_counter a'"
proof -
  have "oa_send_counter b = oa_send_counter a + 1 \<and> oa_send_counter a < oa_send_counter b" if "next_send_counter a = Some (c, b)" for b c
    using that by (auto simp: next_send_counter_def less_next_word split: if_splits)
  then show "k = proof_trailer_len proof" "length tr = k" "oa_send_counter a' = oa_send_counter a + 1" "oa_send_counter a < oa_send_counter a'"
    using assms
    by (auto simp: prove_frame_def sign_fanout_def tag_directed_def write_trailer_def Let_def FANOUT_TRAILER_LEN_def DIRECTED_TRAILER_LEN_def
        SIG_LEN_def TAG_LEN_def split: required_proof.splits if_splits option.splits prod.splits)
qed

lemma tag_into_cases:
  assumes "crypto_ok C" "tag_directed_into C dst protocol body_len buf r = Some (Some n, buf', r')"
  obtains (plain) "n = body_len" "buf' = buf" "r' = r" "ce_auth r = None \<or> protocol \<noteq> ETH_P_BATMAN \<or> required_proof_of (take body_len buf) = ProofNone"
  | (proved) a tl tr a' where "ce_auth r = Some a" "protocol = ETH_P_BATMAN" "required_proof_of (take body_len buf) \<notin> {ProofNone, ProofDrop}"
      "tl = proof_trailer_len (required_proof_of (take body_len buf))" "body_len + tl \<le> length buf"
      "prove_frame C (required_proof_of (take body_len buf)) dst (take body_len buf) (take tl (drop body_len buf)) a = (Some (tl, tr), a')"
      "length tr = tl" "oa_send_counter a' = oa_send_counter a + 1" "oa_send_counter a < oa_send_counter a'"
      "n = body_len + tl" "buf' = take body_len buf @ tr @ drop n buf" "r' = r\<lparr>ce_auth := Some a'\<rparr>"
proof -
  let ?p = "if protocol = ETH_P_BATMAN then required_proof_of (take body_len buf) else ProofNone"
  consider "ce_auth r = None \<or> ?p = ProofNone" | a where "ce_auth r = Some a" "?p \<noteq> ProofNone" by (cases "ce_auth r") auto
  then show thesis
  proof cases
    case 1
    with assms(2) plain show thesis by (auto simp: tag_directed_into_def Let_def split: if_splits option.splits)
  next
    case (2 a)
    let ?q = "required_proof_of (take body_len buf)"
    let ?tl = "proof_trailer_len ?q"
    have p: "protocol = ETH_P_BATMAN" "?q \<noteq> ProofNone" "?q \<noteq> ProofDrop" "body_len + ?tl \<le> length buf"
      using 2 assms(2) by (auto simp: tag_directed_into_def Let_def split: if_splits)
    obtain res a' where pf: "prove_frame C ?q dst (take body_len buf) (take ?tl (drop body_len buf)) a = (res, a')" by fastforce
    obtain k tr where res: "res = Some (k, tr)" "n = body_len + ?tl" "buf' = take body_len buf @ tr @ drop n buf" "r' = r\<lparr>ce_auth := Some a'\<rparr>"
      using p 2 assms(2) pf by (auto simp: tag_directed_into_def Let_def split: if_splits option.splits)
    note parts = proved_parts [OF assms(1) pf [unfolded res(1)]]
    show thesis by (rule proved [OF 2(1) p(1) _ refl p(4)]) (use p pf res parts in auto)
  qed
qed

lemma egress_auth_indep:
  "egress_interface_for now dst (r\<lparr>ce_auth := x\<rparr>) = map_option (\<lambda>(e, r). (e, r\<lparr>ce_auth := x\<rparr>)) (egress_interface_for now dst r)"
  by (cases "get_egress_interface dst (ce_ident_table r)") (auto simp: egress_interface_for_def Let_def split: option.split)

lemma egress_keeps: "egress_interface_for now dst r = Some (e, r') \<Longrightarrow> r' = r\<lparr>ce_ident_table := ce_ident_table r'\<rparr>"
  by (auto simp: egress_interface_for_def Let_def split: if_splits option.splits)

lemma link_may_tx_frame [simp]:
  "link_may_tx i pt (r\<lparr>ce_auth := x\<rparr>) = link_may_tx i pt r" "link_may_tx i pt (r\<lparr>ce_ident_table := t\<rparr>) = link_may_tx i pt r"
  by (simp_all add: link_may_tx_def link_features_of_def cong: option.case_cong)

lemma plan_cases:
  assumes "plan_dispatch C now dst protocol eg body_len buf n r = Some (Some plan, r')"
  obtains len buf1 r1 where "tag_directed_into C dst protocol body_len buf r = Some (Some len, buf1, r1)" "len \<le> length buf1" "dp_payload plan = take len buf1"
    "\<And>i. bit (dp_targets plan) i \<longleftrightarrow> i < 32 \<and> i < n \<and> (case eg of EgressIface j \<Rightarrow> i = j
       | EgressAuto \<Rightarrow> link_may_tx i (if protocol = ETH_P_BATMAN \<and> body_len \<le> length buf1 then payload_type (take body_len buf1) else None) r1
           \<and> (\<exists>e. map_option fst (egress_interface_for now dst r1) = Some (Some e) \<and> (e = AllInterfaces \<or> e = Interface i)))"
proof -
  obtain len buf1 r1 where t: "tag_directed_into C dst protocol body_len buf r = Some (Some len, buf1, r1)"
    using assms by (auto simp: plan_dispatch_def split: option.splits)
  show thesis
  proof (cases eg)
    case (EgressIface j)
    with t assms show thesis
      by (intro that [OF t]) (auto simp: plan_dispatch_def Let_def set_insert_bit split: if_splits)
  next
    case EgressAuto
    then obtain e r2 where e: "egress_interface_for now dst r1 = Some (e, r2)"
      using t assms by (auto simp: plan_dispatch_def Let_def split: option.splits)
    have "r2 = r'" using EgressAuto e t assms by (auto simp: plan_dispatch_def Let_def split: if_splits)
    with e have may: "link_may_tx i pt r' = link_may_tx i pt r1" for i pt by (metis egress_keeps link_may_tx_frame(2))
    from EgressAuto e t assms show thesis
      by (intro that [OF t]) (auto simp: plan_dispatch_def Let_def plan_targets_bit may split: if_splits)
  qed
qed

lemma tag_into_same:
  assumes "crypto_ok C" "tag_directed_into C dst protocol body_len buf r = Some (Some len, buf1, r1)" "len \<le> length buf1"
  shows "body_len \<le> length buf1" "take body_len buf1 = take body_len buf" "link_may_tx i pt r1 = link_may_tx i pt r"
    "map_option fst (egress_interface_for now dst r1) = map_option fst (egress_interface_for now dst r)"
proof -
  have "\<exists>x. body_len \<le> length buf1 \<and> take body_len buf1 = take body_len buf \<and> r1 = r\<lparr>ce_auth := x\<rparr>"
    using assms(1,2)
  proof (cases rule: tag_into_cases)
    case plain
    with assms(3) show ?thesis by (intro exI [of _ "ce_auth r"]) simp
  next
    case (proved a tl tr a')
    then show ?thesis by (intro exI [of _ "Some a'"]) simp
  qed
  then obtain x where x: "body_len \<le> length buf1" "take body_len buf1 = take body_len buf" "r1 = r\<lparr>ce_auth := x\<rparr>" by blast
  show "body_len \<le> length buf1" "take body_len buf1 = take body_len buf" by (fact x)+
  show "link_may_tx i pt r1 = link_may_tx i pt r" by (simp add: x(3))
  show "map_option fst (egress_interface_for now dst r1) = map_option fst (egress_interface_for now dst r)"
    by (simp add: x(3) egress_auth_indep option.map_comp comp_def case_prod_beta)
qed

text \<open>
  C34. A planned frame leaves on exactly the right interfaces. The interfaces of a plan, in ascending order,
  are those the driver has that are the one asked for, or, where the router chooses, those the router's
  choice names and whose transmit gate admits the frame's type; at most as many as the set can hold.
\<close>

theorem dispatch_targets_exact:
  assumes "crypto_ok C" "plan_dispatch C now dst protocol eg body_len buf n r = Some (Some plan, r')"
  shows "set_iter (dp_targets plan) = filter (\<lambda>i. case eg of EgressIface j \<Rightarrow> i = j
       | EgressAuto \<Rightarrow> link_may_tx i (if protocol = ETH_P_BATMAN then payload_type (take body_len buf) else None) r
           \<and> (\<exists>e. map_option fst (egress_interface_for now dst r) = Some (Some e) \<and> (e = AllInterfaces \<or> e = Interface i)))
     [0..<min n 32]"
  using assms(2)
proof (cases rule: plan_cases)
  case (1 len buf1 r1)
  note b = 1(4) and same = tag_into_same [OF assms(1) 1(1,2)]
  have "filter (bit (dp_targets plan)) [0..<32] = filter (bit (dp_targets plan)) [0..<min n 32]"
  proof -
    have split: "[0..<32] = [0..<min n 32] @ [min n 32..<32]" using upt_add_eq_append [of 0 "min n 32" "32 - min n 32"] by simp
    have "\<not> bit (dp_targets plan) i" if "i \<in> set [min n 32..<32]" for i using that b [of i] by auto
    then have "filter (bit (dp_targets plan)) [min n 32..<32] = []" by (simp only: filter_empty_conv) blast
    then show ?thesis by (subst split) (simp only: filter_append append_Nil2)
  qed
  also have "\<dots> = filter (\<lambda>i. case eg of EgressIface j \<Rightarrow> i = j
       | EgressAuto \<Rightarrow> link_may_tx i (if protocol = ETH_P_BATMAN then payload_type (take body_len buf) else None) r
           \<and> (\<exists>e. map_option fst (egress_interface_for now dst r) = Some (Some e) \<and> (e = AllInterfaces \<or> e = Interface i)))
     [0..<min n 32]"
    by (rule filter_cong [OF refl], subst b) (simp add: same split: egress.split)
  finally show ?thesis by (simp only: set_iter_bits)
qed

text \<open>
  C7. Nothing leaves in the clear. With an authenticator attached, a mesh frame that is planned is one whose
  type needs no proof, sent as it is, or is its body followed by the proof its type demands, which spends the
  next send counter; the body is never altered.
\<close>

theorem nothing_in_the_clear:
  assumes "crypto_ok C" "ce_auth r = Some a" "plan_dispatch C now dst ETH_P_BATMAN eg body_len buf n r = Some (Some plan, r')"
  shows "body_len \<le> length buf \<and> (let body = take body_len buf; proof = required_proof_of body in
      proof = ProofNone \<and> dp_payload plan = body
    \<or> proof \<notin> {ProofNone, ProofDrop} \<and> (\<exists>trailer room a'. dp_payload plan = body @ trailer \<and> length trailer = proof_trailer_len proof
        \<and> prove_frame C proof dst body room a = (Some (proof_trailer_len proof, trailer), a')
        \<and> oa_send_counter a' = oa_send_counter a + 1 \<and> oa_send_counter a < oa_send_counter a'))"
  using assms(3)
proof (cases rule: plan_cases)
  case (1 len buf1 r1)
  note t = 1(1-3)
  from assms(1) t(1) show ?thesis
  proof (cases rule: tag_into_cases)
    case plain
    with t assms(2) show ?thesis by (simp add: Let_def)
  next
    case (proved a0 tl tr a')
    with assms(2) have "a0 = a" by simp
    with proved t(3) show ?thesis
      by (auto simp: Let_def intro!: exI [of _ tr] exI [of _ "take tl (drop body_len buf)"] exI [of _ a'])
  qed
qed

section \<open>What enters\<close>

lemma strip_cases:
  assumes "ce_auth r = Some a" "lf_protocol frame = ETH_P_BATMAN" "required_proof_of (lf_payload frame) \<noteq> ProofNone"
    and "strip_directed C P frame r = (res, r1)"
  obtains (dropped) "res = None" "r1 = r\<lparr>ce_auth := ce_auth r1\<rparr>"
  | (passed) body trailer a1 where "lf_payload frame = body @ trailer" "length trailer = proof_trailer_len (required_proof_of (lf_payload frame))"
      "verify_proof C (cp_auth P) (required_proof_of (lf_payload frame)) (lf_src frame) body trailer a = (True, a1)"
      "res = Some (frame\<lparr>lf_payload := body\<rparr>)" "r1 = r\<lparr>ce_auth := Some a1\<rparr>"
      "required_proof_of (lf_payload frame) = ProofFanout \<or> is_multicast (lf_dst frame) \<or> lf_dst frame = self_ident (ce_batman r)"
proof -
  let ?p = "required_proof_of (lf_payload frame)"
  let ?n = "length (lf_payload frame) - proof_trailer_len ?p"
  let ?b = "take ?n (lf_payload frame)" and ?t = "drop ?n (lf_payload frame)"
  obtain ok a1 where v: "verify_proof C (cp_auth P) ?p (lf_src frame) ?b ?t a = (ok, a1)" by fastforce
  show thesis
  proof (cases "?p = ProofDrop \<or> ?p \<in> {ProofTag, ProofNonceTag} \<and> \<not> is_multicast (lf_dst frame) \<and> lf_dst frame \<noteq> self_ident (ce_batman r)
      \<or> length (lf_payload frame) < proof_trailer_len ?p \<or> \<not> ok")
    case True
    with assms v dropped show thesis by (auto simp: strip_directed_def Let_def split: if_splits)
  next
    case False
    then have "res = Some (frame\<lparr>lf_payload := ?b\<rparr>)" "r1 = r\<lparr>ce_auth := Some a1\<rparr>"
      using assms v by (auto simp: strip_directed_def Let_def)
    moreover have "?p = ProofFanout \<or> is_multicast (lf_dst frame) \<or> lf_dst frame = self_ident (ce_batman r)"
      using False assms(3) by (cases ?p) auto
    ultimately show thesis using False v by (intro passed [of ?b ?t]) auto
  qed
qed

lemma verified_by_neighbor:
  assumes "verify_proof C P proof src body trailer a = (True, a1)"
  obtains n where "live_neighbor src a = Some n"
    "proof = ProofFanout \<and> verify_signature C (vc_ed_pubkey (nk_cert n)) (fanout_message C (u64_of_be (take 8 trailer)) body) (drop 8 trailer)
     \<or> proof \<noteq> ProofFanout \<and> verify_frame_tag C (nk_pairwise_key n) (u64_of_be (take 8 trailer)) (mac_bytes src) body (drop 8 trailer)"
proof -
  have tag: "\<exists>n. live_neighbor src a = Some n \<and> verify_frame_tag C (nk_pairwise_key n) (u64_of_be (take 8 trailer)) (mac_bytes src) body (drop 8 trailer)"
    if "verify_directed_tag C src body trailer a \<noteq> None"
    using that by (auto simp: verify_directed_tag_def Let_def split: if_splits option.splits)
  show thesis
  proof (cases "proof = ProofFanout")
    case True
    with assms that show thesis by (auto simp: verify_proof_def verify_fanout_def Let_def split: if_splits option.splits)
  next
    case False
    with assms have "verify_directed_tag C src body trailer a \<noteq> None"
      by (auto simp: verify_proof_def verify_directed_def verify_directed_nonce_fresh_def split: required_proof.splits if_splits option.splits)
    with tag False that show thesis by blast
  qed
qed

text \<open>
  C6. Only neighbours with a key get directed frames in. With an authenticator attached, a received mesh frame
  of a type that needs a proof is inert, the authenticator's own records apart, unless its payload is a body
  and a trailer in which a neighbour this node holds a live certificate of tagged that body under their
  shared key, or signed it; and a frame that is tagged under a unicast address must be addressed to this node.
\<close>

theorem unproven_directed_inert:
  assumes "ce_auth r = Some a" "lf_protocol frame = ETH_P_BATMAN" "required_proof_of (lf_payload frame) \<noteq> ProofNone"
    and "handle_mesh_frame C P S now idx frame metrics tx fans s r = Some (s', r')"
    and "\<nexists>body trailer n. lf_payload frame = body @ trailer \<and> live_neighbor (lf_src frame) a = Some n
      \<and> (required_proof_of (lf_payload frame) = ProofFanout
           \<and> verify_signature C (vc_ed_pubkey (nk_cert n)) (fanout_message C (u64_of_be (take 8 trailer)) body) (drop 8 trailer)
         \<or> verify_frame_tag C (nk_pairwise_key n) (u64_of_be (take 8 trailer)) (mac_bytes (lf_src frame)) body (drop 8 trailer)
           \<and> (is_multicast (lf_dst frame) \<or> lf_dst frame = self_ident (ce_batman r)))"
  shows "s' = s \<and> r' = r\<lparr>ce_auth := ce_auth r'\<rparr>"
proof -
  obtain res r1 where strip: "strip_directed C P frame r = (res, r1)" by fastforce
  from assms(1-3) strip show ?thesis
  proof (cases rule: strip_cases)
    case dropped
    with strip assms(4) show ?thesis by (simp add: handle_mesh_frame_def)
  next
    case (passed body trailer a1)
    from verified_by_neighbor [OF passed(3)] passed(1,6) assms(5) show ?thesis by metis
  qed
qed

section \<open>Across a link\<close>

lemma required_proof_append:
  assumes "body \<noteq> []" "required_proof_of body \<noteq> ProofDrop"
  shows "required_proof_of (body @ trailer) = required_proof_of body"
proof -
  have "payload_type (body @ trailer) = payload_type body" using assms(1) by (cases body) (simp_all add: payload_type_def)
  with assms show ?thesis by (auto simp: required_proof_of_def nth_append split: option.splits batman_packet_type.splits if_splits)
qed

lemma nonce_fresh_accepts:
  assumes "verify_directed C P src f tr a = (True, a1)"
  shows "\<exists>a2. verify_directed_nonce_fresh C P src f tr a = (True, a2)"
  using assms by (auto simp: verify_directed_def verify_directed_nonce_fresh_def split: option.splits prod.splits counter_verdict.splits)

text \<open>What the sender's proof gives at the receiver.\<close>

lemma proof_accepted:
  assumes "crypto_ok C" "knows C s t" "knows C t s" "auth_ok C P s" "auth_ok C Q t" "in_step Q s t" "oa_send_counter s \<noteq> - 1"
    and "proof \<notin> {ProofNone, ProofDrop}" "length room = proof_trailer_len proof"
  shows "\<exists>tr s' t'. prove_frame C proof (own_mac t) f room s = (Some (proof_trailer_len proof, tr), s')
    \<and> length tr = proof_trailer_len proof \<and> verify_proof C Q proof (own_mac s) f tr t = (True, t')
    \<and> (proof \<noteq> ProofNonceTag \<longrightarrow> \<not> fst (verify_proof C Q proof (own_mac s) f tr t'))"
proof (cases "proof = ProofFanout")
  case True
  from fanout_once [OF assms(1,3,4,5,6,7), of room f] assms(9) True
  obtain tr s' t' where x: "sign_fanout C f room s = (Some (FANOUT_TRAILER_LEN, tr), s')"
      "verify_fanout C Q (own_mac s) f (take FANOUT_TRAILER_LEN tr) t = (True, t')"
      "\<not> fst (verify_fanout C Q (own_mac s) f (take FANOUT_TRAILER_LEN tr) t')" by auto
  then have "prove_frame C proof (own_mac t) f room s = (Some (FANOUT_TRAILER_LEN, tr), s')" using True by (simp add: prove_frame_def)
  from x True proved_parts(2) [OF assms(1) this] assms(9) show ?thesis by (auto simp: prove_frame_def verify_proof_def)
next
  case False
  with assms(8) have p: "proof = ProofTag \<or> proof = ProofNonceTag" by (cases "proof") auto
  then have len: "proof_trailer_len proof = DIRECTED_TRAILER_LEN" by auto
  from directed_once [OF assms(1-7), of room f] assms(9) len
  obtain tr s' t' where x: "tag_directed C (own_mac t) f room s = (Some (DIRECTED_TRAILER_LEN, tr), s')"
      "verify_directed C Q (own_mac s) f (take DIRECTED_TRAILER_LEN tr) t = (True, t')"
      "\<not> fst (verify_directed C Q (own_mac s) f (take DIRECTED_TRAILER_LEN tr) t')" by auto
  then have pf: "prove_frame C proof (own_mac t) f room s = (Some (DIRECTED_TRAILER_LEN, tr), s')" using p by (auto simp: prove_frame_def)
  with proved_parts(2) [OF assms(1) pf] assms(9) have tr: "length tr = DIRECTED_TRAILER_LEN" by simp
  obtain t2 where n: "verify_directed_nonce_fresh C Q (own_mac s) f tr t = (True, t2)" using nonce_fresh_accepts x(2) tr by fastforce
  from p show ?thesis
  proof
    assume "proof = ProofTag"
    with x pf tr show ?thesis by (auto simp: verify_proof_def)
  next
    assume "proof = ProofNonceTag"
    with n pf tr show ?thesis by (auto simp: verify_proof_def)
  qed
qed

text \<open>
  C8. A frame crosses a link, once. Between two routers that hold each other's certificates and whose
  counters are in step, a mesh frame of any type a driver sends is planned, and what the other driver hands
  to its router is exactly the body that was sent; the same bytes arriving again are dropped, unless their
  type carries its own freshness or needs no proof.
\<close>

theorem frame_crosses_link:
  assumes "crypto_ok C" "sound_router C P (own_mac s) a" "sound_router C Q (own_mac t) b" "ce_auth a = Some s" "ce_auth b = Some t"
    and "knows C s t" "knows C t s" "in_step (cp_auth Q) s t" "oa_send_counter s \<noteq> - 1"
    and "body \<noteq> []" "required_proof_of body \<noteq> ProofDrop" "MAX_TRAILER_LEN \<le> length room"
  shows "\<exists>plan a' b'. plan_dispatch C now (own_mac t) ETH_P_BATMAN eg (length body) (body @ room) n a = Some (Some plan, a')
    \<and> (let f = \<lparr>lf_dst = own_mac t, lf_src = own_mac s, lf_protocol = ETH_P_BATMAN, lf_payload = dp_payload plan\<rparr>
       in strip_directed C Q f b = (Some (f\<lparr>lf_payload := body\<rparr>), b')
        \<and> (required_proof_of body \<notin> {ProofNone, ProofNonceTag} \<longrightarrow> fst (strip_directed C Q f b') = None))"
proof -
  let ?p = "required_proof_of body"
  let ?tl = "proof_trailer_len ?p"
  have room: "?tl \<le> length room" using assms(12) by (cases ?p) (simp_all add: MAX_TRAILER_LEN_def DIRECTED_TRAILER_LEN_def FANOUT_TRAILER_LEN_def TAG_LEN_def SIG_LEN_def)
  have egress: "\<exists>e a2. egress_interface_for now (own_mac t) (a\<lparr>ce_auth := x\<rparr>) = Some (e, a2)" for x
    using egress_result [OF sound_routerD(3) [OF assms(2)], of now "own_mac t" C] by (auto simp: egress_auth_indep)
  have planned: "\<exists>plan a'. plan_dispatch C now (own_mac t) ETH_P_BATMAN eg (length body) (body @ room) n a = Some (Some plan, a') \<and> dp_payload plan = take len buf"
    if "tag_directed_into C (own_mac t) ETH_P_BATMAN (length body) (body @ room) a = Some (Some len, buf, a\<lparr>ce_auth := x\<rparr>)" "len \<le> length buf" for len buf x
    using that egress [of x] by (cases eg) (auto simp: plan_dispatch_def Let_def)
  show ?thesis
  proof (cases "?p = ProofNone")
    case True
    have "tag_directed_into C (own_mac t) ETH_P_BATMAN (length body) (body @ room) a = Some (Some (length body), body @ room, a\<lparr>ce_auth := Some s\<rparr>)"
      using True assms(4) by (simp add: tag_directed_into_def Let_def)
    from planned [OF this] obtain plan a' where "plan_dispatch C now (own_mac t) ETH_P_BATMAN eg (length body) (body @ room) n a = Some (Some plan, a')"
      "dp_payload plan = body" by auto
    with True assms(5) show ?thesis by (auto simp: strip_directed_def Let_def)
  next
    case False
    have "length (take ?tl room) = ?tl" using room by simp
    from proof_accepted [OF assms(1,6,7) sound_routerD(4) [OF assms(2,4)] sound_routerD(4) [OF assms(3,5)] assms(8,9) _ this, of body] False assms(11)
    obtain tr s' t' where x: "prove_frame C ?p (own_mac t) body (take ?tl room) s = (Some (?tl, tr), s')" "length tr = ?tl"
        "verify_proof C (cp_auth Q) ?p (own_mac s) body tr t = (True, t')"
        "?p \<noteq> ProofNonceTag \<longrightarrow> \<not> fst (verify_proof C (cp_auth Q) ?p (own_mac s) body tr t')" by auto
    have "tag_directed_into C (own_mac t) ETH_P_BATMAN (length body) (body @ room) a
        = Some (Some (length body + ?tl), body @ tr @ drop ?tl room, a\<lparr>ce_auth := Some s'\<rparr>)"
      using x(1,2) False assms(4,11) room by (simp add: tag_directed_into_def Let_def)
    from planned [OF this] x(2) obtain plan a' where plan: "plan_dispatch C now (own_mac t) ETH_P_BATMAN eg (length body) (body @ room) n a = Some (Some plan, a')"
      "dp_payload plan = body @ tr" by auto
    let ?f = "\<lparr>lf_dst = own_mac t, lf_src = own_mac s, lf_protocol = ETH_P_BATMAN, lf_payload = body @ tr\<rparr>"
    have strip: "strip_directed C Q ?f c = (if fst (verify_proof C (cp_auth Q) ?p (own_mac s) body tr u) then Some (?f\<lparr>lf_payload := body\<rparr>) else None,
        c\<lparr>ce_auth := Some (snd (verify_proof C (cp_auth Q) ?p (own_mac s) body tr u))\<rparr>)"
      if "ce_auth c = Some u" "self_ident (ce_batman c) = own_mac t" for c u
      using that x(2) False assms(11) by (auto simp: strip_directed_def required_proof_append [OF assms(10,11)] Let_def split: prod.split)
    have "strip_directed C Q ?f b = (Some (?f\<lparr>lf_payload := body\<rparr>), b\<lparr>ce_auth := Some t'\<rparr>)"
      "?p \<noteq> ProofNonceTag \<Longrightarrow> fst (strip_directed C Q ?f (b\<lparr>ce_auth := Some t'\<rparr>)) = None"
      using strip [OF assms(5) sound_routerD(2) [OF assms(3)]] strip [of "b\<lparr>ce_auth := Some t'\<rparr>" t'] sound_routerD(2) [OF assms(3)] x(3,4) by simp_all
    with plan show ?thesis by (auto simp: Let_def)
  qed
qed

section \<open>Multicast groups\<close>

text \<open>A shell's stage: it takes a frame, or refuses it on what it holds already.\<close>

definition staging :: "(outgoing_frame list \<Rightarrow> outgoing_frame \<Rightarrow> bool) \<Rightarrow> outgoing_frame list mesh_sink" where
  "staging ok = \<lparr>ms_emit = (\<lambda>s f. if ok s f then (True, s @ [f]) else (False, s)), ms_deliver_local = (\<lambda>s b. s)\<rparr>"

definition carried :: "outgoing_frame \<Rightarrow> mac multiset" where
  "carried f = (case mcast_parse (og_payload f) of None \<Rightarrow> {#} | Some v \<Rightarrow> mset (mv_dests v))"

definition carries :: "u8 \<Rightarrow> bytes \<Rightarrow> outgoing_frame \<Rightarrow> bool" where
  "carries ttl inner f \<longleftrightarrow> (\<exists>v. mcast_parse (og_payload f) = Some v \<and> mv_inner v = inner \<and> mc_ttl (mv_header v) = ttl)"

abbreviation all_carried :: "outgoing_frame list \<Rightarrow> mac multiset" where
  "all_carried fs \<equiv> sum_list (map carried fs)"

abbreviation dests_of :: "(mac \<times> mac list) list \<Rightarrow> nat list \<Rightarrow> mac multiset" where
  "dests_of groups is \<equiv> sum_list (map (\<lambda>i. mset (snd (groups ! i))) is)"

lemma written_parses:
  assumes "write_mcast ttl form dests inner out = (out', Some n)"
  shows "mcast_parse (take n out') = Some \<lparr>mv_header = \<lparr>mc_packet_type = packet_type_as_u8 Mcast, mc_version = BATMAN_VERSION,
      mc_ttl = ttl, mc_n_dests = word_of_nat (length dests), mc_form = auth_form_as_u8 form\<rparr>, mv_form = form, mv_dests = dests, mv_inner = inner\<rparr>"
proof -
  have "unat (word_of_nat (length dests) :: u8) = length dests" using assms by (simp add: write_mcast_Some unat_of_nat)
  then show ?thesis using assms [unfolded write_mcast_Some] by (auto simp: mcast_parse_Some header_sizes)
qed

lemma written_carried:
  assumes "write_mcast ttl form dests inner out = (out', Some n)" "og_payload f = take n out'"
  shows "carried f = mset dests" "carries ttl inner f"
  using written_parses [OF assms(1)] by (simp_all add: carried_def carries_def assms(2))

lemma mset_concat_map: "mset (concat (map f xs)) = sum_list (map (\<lambda>x. mset (f x)) xs)"
  by (induction xs) auto

lemma collapse_loop_spec:
  assumes "collapse_loop (staging ok) groups iface_of ttl inner fans r is merged tx s = (merged', tx', s')"
    and "distinct merged" "set merged \<subseteq> {..<length iface_of}"
  shows "\<exists>new. s' = s @ new \<and> list_all (carries ttl inner) new \<and> distinct merged' \<and> set merged' \<subseteq> {..<length iface_of}
    \<and> all_carried new + dests_of groups merged = dests_of groups merged'"
  using assms
proof (induction "is" arbitrary: merged tx s)
  case Nil
  then show ?case by (intro exI [of _ "[]"]) auto
next
  case (Cons i "is")
  note on = Cons.IH [OF _ Cons.prems(2,3)]
  show ?case
  proof (cases "collapse_candidate groups iface_of fans r merged i")
    case None
    with Cons.prems(1) show ?thesis by (intro on) simp
  next
    case (Some c)
    obtain idx mx peers where c: "c = (idx, mx, peers)" by (cases c)
    define union where "union = concat (map (\<lambda>j. snd (groups ! j)) peers)"
    have peers: "peers = collapse_peers groups iface_of merged idx"
      using Some c by (auto simp: collapse_candidate_def Let_def split: if_splits option.splits)
    obtain tx1 res where w: "write_mcast ttl AuthSignature union inner tx = (tx1, res)" by fastforce
    let ?frame = "\<lparr>og_dst = BROADCAST, og_protocol = ETH_P_BATMAN, og_payload = take (the res) tx1, og_egress = EgressIface idx\<rparr>"
    show ?thesis
    proof (cases "length union \<le> MAX_MCAST_DESTS \<and> res \<noteq> None \<and> merged_frame_fits (the res) (ce_auth r \<noteq> None) mx \<and> ok s ?frame")
      case False
      with Cons.prems(1) Some c w have "\<exists>tx2. collapse_loop (staging ok) groups iface_of ttl inner fans r is merged tx2 s = (merged', tx', s')"
        by (auto simp: Let_def staging_def simp flip: union_def split: if_splits option.splits)
      then show ?thesis by (auto dest: on)
    next
      case True
      then obtain len where len: "res = Some len" by blast
      have step: "collapse_loop (staging ok) groups iface_of ttl inner fans r is (merged @ peers) tx1 (s @ [?frame]) = (merged', tx', s')"
        using Cons.prems(1) Some c w True len by (simp add: Let_def staging_def flip: union_def)
      have d: "distinct (merged @ peers)" "set (merged @ peers) \<subseteq> {..<length iface_of}"
        using Cons.prems(2,3) by (auto simp: peers collapse_peers_def)
      from Cons.IH [OF step d] obtain new where new: "s' = (s @ [?frame]) @ new" "list_all (carries ttl inner) new" "distinct merged'"
          "set merged' \<subseteq> {..<length iface_of}" "all_carried new + dests_of groups (merged @ peers) = dests_of groups merged'" by blast
      have "carried ?frame = dests_of groups peers" "carries ttl inner ?frame"
        using written_carried [of ttl AuthSignature union inner tx tx1 len ?frame] w len by (simp_all add: union_def mset_concat_map)
      with new show ?thesis by (intro exI [of _ "?frame # new"]) (simp add: ac_simps)
    qed
  qed
qed

lemma directed_loop_spec:
  assumes "directed_loop (staging ok) ttl inner merged gs tx s r = (s', r')"
    and "\<forall>(i, g)\<in>set gs. groups ! i = g \<and> length (snd g) \<le> MAX_MCAST_DESTS"
  shows "\<exists>new lost. s' = s @ new \<and> list_all (carries ttl inner) new
    \<and> all_carried new + lost = dests_of groups (filter (\<lambda>i. i \<notin> set merged) (map fst gs))
    \<and> unat (ce_mcast_group_drops r') = min (unat (ce_mcast_group_drops r) + size lost) (2 ^ 32 - 1)"
  using assms
proof (induction gs arbitrary: tx s r)
  case Nil
  then show ?case using unsigned_less [of "ce_mcast_group_drops r", where 'a = nat] by (auto intro!: exI [of _ "[]"] exI [of _ "{#}"])
next
  case (Cons g gs)
  obtain i nh ds where g: "g = (i, nh, ds)" by (cases g)
  have "\<forall>(i, g)\<in>set gs. groups ! i = g \<and> length (snd g) \<le> MAX_MCAST_DESTS" using Cons.prems(2) by simp
  note on = Cons.IH [OF _ this]
  have ds: "snd (groups ! i) = ds" "length ds \<le> MAX_MCAST_DESTS" using Cons.prems(2) by (auto simp: g)
  obtain tx1 res where w: "write_mcast ttl AuthTag ds inner tx = (tx1, res)" by fastforce
  let ?frame = "\<lparr>og_dst = nh, og_protocol = ETH_P_BATMAN, og_payload = take (the res) tx1, og_egress = EgressAuto\<rparr>"
  consider "i \<in> set merged" | "i \<notin> set merged" "res \<noteq> None" "ok s ?frame" | "i \<notin> set merged" "res = None \<or> \<not> ok s ?frame" by metis
  then show ?case
  proof cases
    case 1
    with Cons.prems(1) have "directed_loop (staging ok) ttl inner merged gs tx s r = (s', r')" by (simp add: g)
    from on [OF this] 1 show ?thesis by (simp add: g)
  next
    case 2
    then have "directed_loop (staging ok) ttl inner merged gs tx1 (s @ [?frame]) r = (s', r')"
      using Cons.prems(1) w by (auto simp: g staging_def)
    from on [OF this] obtain new lost where new: "s' = (s @ [?frame]) @ new" "list_all (carries ttl inner) new"
        "all_carried new + lost = dests_of groups (filter (\<lambda>i. i \<notin> set merged) (map fst gs))"
        "unat (ce_mcast_group_drops r') = min (unat (ce_mcast_group_drops r) + size lost) (2 ^ 32 - 1)" by auto
    have "carried ?frame = mset ds" "carries ttl inner ?frame"
      using written_carried [of ttl AuthTag ds inner tx tx1 "the res" ?frame] w 2(2) by auto
    with new 2(1) ds(1) show ?thesis by (intro exI [of _ "?frame # new"] exI [of _ lost]) (simp add: g ac_simps)
  next
    case 3
    then have "directed_loop (staging ok) ttl inner merged gs tx1 s (record_mcast_group_drop (length ds) r) = (s', r')"
      using Cons.prems(1) w by (auto simp: g staging_def split: option.splits)
    from on [OF this] obtain new lost where new: "s' = s @ new" "list_all (carries ttl inner) new"
        "all_carried new + lost = dests_of groups (filter (\<lambda>i. i \<notin> set merged) (map fst gs))"
        "unat (ce_mcast_group_drops r') = min (unat (ce_mcast_group_drops (record_mcast_group_drop (length ds) r)) + size lost) (2 ^ 32 - 1)" by auto
    have "unat (word_of_nat (length ds) :: u32) = length ds" using ds(2) by (simp add: unat_of_nat MAX_MCAST_DESTS_def)
    then have "unat (ce_mcast_group_drops (record_mcast_group_drop (length ds) r)) = min (unat (ce_mcast_group_drops r) + length ds) (2 ^ 32 - 1)"
      by (simp add: record_mcast_group_drop_def unat_saturating_add)
    with new 3(1) ds(1) show ?thesis by (intro exI [of _ new] exI [of _ "mset ds + lost"]) (simp add: g ac_simps)
  qed
qed

lemma resolve_ifaces_result:
  "resolve_ifaces now groups r = Some (xs, r') \<Longrightarrow> length xs = length groups \<and> ce_mcast_group_drops r' = ce_mcast_group_drops r"
proof (induction groups arbitrary: r xs r')
  case (Cons g groups)
  obtain nh ds where g: "g = (nh, ds)" by (cases g)
  obtain eg r1 ys where r1: "egress_interface_for now nh r = Some (eg, r1)" "resolve_ifaces now groups r1 = Some (ys, r')" "length xs = Suc (length ys)"
    using Cons.prems by (auto simp: g split: bind_splits)
  have "ce_mcast_group_drops r1 = ce_mcast_group_drops r" by (subst egress_keeps [OF r1(1)]) simp
  with Cons.IH [OF r1(2)] r1(3) show ?case by simp
qed simp

lemma dests_split:
  assumes "distinct xs" "set xs \<subseteq> {..<n}"
  shows "dests_of groups xs + dests_of groups (filter (\<lambda>i. i \<notin> set xs) [0..<n]) = dests_of groups [0..<n]"
proof -
  have "mset xs = mset (filter (\<lambda>i. i \<in> set xs) [0..<n])"
    using assms by (intro set_eq_iff_mset_eq_distinct [THEN iffD1]) auto
  then have "mset xs + mset (filter (\<lambda>i. i \<notin> set xs) [0..<n]) = mset [0..<n]" by (metis mset_filter multiset_partition)
  then have "mset (xs @ filter (\<lambda>i. i \<notin> set xs) [0..<n]) = mset [0..<n]" by simp
  then have "sum_mset (image_mset (\<lambda>i. mset (snd (groups ! i))) (mset (xs @ filter (\<lambda>i. i \<notin> set xs) [0..<n])))
      = sum_mset (image_mset (\<lambda>i. mset (snd (groups ! i))) (mset [0..<n]))" by (simp only:)
  then show ?thesis by (simp only: sum_mset_sum_list flip: mset_map) (simp add: sum_mset_sum_list)
qed

text \<open>
  C33. No destination is lost unseen, and none is served twice. When the groups of a multicast are flushed, every
  frame the stage takes carries the same inner frame with the same hop limit, the destinations on the frames
  taken are exactly those of the groups, each as often as it was asked for, less the ones that were dropped,
  and every dropped destination is counted, whatever was merged onto a shared medium and whatever the stage
  refused.
\<close>

theorem no_destination_lost:
  assumes "flush_mcast_groups (staging ok) now groups ttl inner fans tx s r = Some (s', r')"
    and "\<forall>g\<in>set groups. length (snd g) \<le> MAX_MCAST_DESTS"
  shows "\<exists>new lost. s' = s @ new \<and> list_all (carries ttl inner) new \<and> all_carried new + lost = mset (concat (map snd groups))
    \<and> unat (ce_mcast_group_drops r') = min (unat (ce_mcast_group_drops r) + size lost) (2 ^ 32 - 1)"
proof -
  obtain iface_of r1 where f1: "resolve_ifaces now groups r = Some (iface_of, r1)" using assms(1) by (auto simp: flush_mcast_groups_def)
  obtain merged tx1 s1 where f2: "collapse_loop (staging ok) groups iface_of ttl inner fans r1 [0..<length groups] [] tx s = (merged, tx1, s1)"
    using prod_cases3 by blast
  have f: "resolve_ifaces now groups r = Some (iface_of, r1)"
      "collapse_loop (staging ok) groups iface_of ttl inner fans r1 [0..<length groups] [] tx s = (merged, tx1, s1)"
      "directed_loop (staging ok) ttl inner merged (enumerate 0 groups) tx1 s1 r1 = (s', r')"
    using assms(1) f1 f2 by (simp_all add: flush_mcast_groups_def)
  note r1 = resolve_ifaces_result [OF f(1)]
  obtain new1 where n1: "s1 = s @ new1" "list_all (carries ttl inner) new1" "distinct merged" "set merged \<subseteq> {..<length groups}"
      "all_carried new1 = dests_of groups merged"
    using collapse_loop_spec [OF f(2)] r1 by auto
  have g: "\<forall>(i, g)\<in>set (enumerate 0 groups). groups ! i = g \<and> length (snd g) \<le> MAX_MCAST_DESTS"
    using assms(2) by (auto simp: in_set_enumerate_eq) (metis nth_mem snd_conv)
  obtain new2 lost where n2: "s' = s1 @ new2" "list_all (carries ttl inner) new2"
      "all_carried new2 + lost = dests_of groups (filter (\<lambda>i. i \<notin> set merged) [0..<length groups])"
      "unat (ce_mcast_group_drops r') = min (unat (ce_mcast_group_drops r1) + size lost) (2 ^ 32 - 1)"
    using directed_loop_spec [OF f(3) g] by (auto simp: enumerate_map_upt comp_def)
  have "map (\<lambda>i. mset (snd (groups ! i))) [0..<length groups] = map (\<lambda>g. mset (snd g)) groups" by (rule nth_equalityI) simp_all
  then have "dests_of groups [0..<length groups] = mset (concat (map snd groups))" by (simp add: mset_concat_map)
  with n1(5) n2(3) dests_split [OF n1(3,4), of groups] have "all_carried (new1 @ new2) + lost = mset (concat (map snd groups))"
    by (metis (no_types, lifting) add.assoc map_append sum_list_append)
  with n1 n2 r1 show ?thesis by (intro exI [of _ "new1 @ new2"] exI [of _ lost]) simp
qed

section \<open>Examples\<close>

lemma demo_peer_router_sound: "sound_router toy_crypto sample_router_profile (own_mac (demo_peer n m)) (demo_router (demo_peer n m))"
proof -
  have "0 < ap_neighbor_keys (cp_auth sample_router_profile)"
    by (simp add: sample_router_profile_def default_auth_profile_def MAX_NEIGHBOR_KEYS_def)
  from demo_peer_ok [OF this] demo_router_ok show ?thesis by (simp add: sound_router_def)
qed

lemma demo_peers_in_step: "in_step (cp_auth sample_router_profile) (demo_peer 4 8) (demo_peer 8 4)" "oa_send_counter (demo_peer 4 8) = 0"
  by (simp_all add: in_step_def demo_peer_def demo_node_parts sample_router_profile_def default_auth_profile_def MAX_NEIGHBOR_KEYS_def im_get_def)

lemma unicast_needs_tag: "required_proof_of (3 # xs) = ProofTag"
  by (simp add: required_proof_of_def payload_type_def packet_type_from_u8_def)

theorem dispatch_targets_exact_witness:
  "\<exists>plan r'. plan_dispatch toy_crypto 0 BROADCAST ETH_P_BATMAN EgressAuto 2 [2, 1] 3 (demo_router (demo_node 4)) = Some (Some plan, r')
     \<and> set_iter (dp_targets plan) = [0, 1, 2]"
proof -
  let ?r = "demo_router (demo_node 4)"
  have "required_proof_of [2, 1] = ProofNone" by (simp add: required_proof_of_def payload_type_def packet_type_from_u8_def)
  then have "tag_directed_into toy_crypto BROADCAST ETH_P_BATMAN 2 [2, 1] ?r = Some (Some 2, [2, 1], ?r)"
    by (simp add: tag_directed_into_def Let_def)
  then obtain plan where plan: "plan_dispatch toy_crypto 0 BROADCAST ETH_P_BATMAN EgressAuto 2 [2, 1] 3 ?r = Some (Some plan, ?r)"
    by (simp add: plan_dispatch_def Let_def egress_interface_for_def)
  have may: "link_may_tx i (payload_type [2, 1]) ?r" if "i < 3" for i
    using that by (auto simp: link_may_tx_def link_features_of_def demo_router_def set_auth_def Let_def router_with_capacities_def
        sample_router_profile_def default_profile_def link_features_default_def payload_type_def packet_type_from_u8_def nth_Cons' numeral_2_eq_2 less_Suc_eq numeral_3_eq_3)
  have "[0..<min 3 32] = [0, 1, 2 :: nat]" by (simp add: upt_rec)
  with dispatch_targets_exact [OF toy_crypto_ok plan] plan may [of 0] may [of 1] may [of 2] show ?thesis
    by (simp add: egress_interface_for_def)
qed

theorem frame_crosses_link_witness:
  "let a = demo_router (demo_peer 4 8); b = demo_router (demo_peer 8 4); body = [3, 1, 7] in
   \<exists>plan a' b'. plan_dispatch toy_crypto 0 (own_mac (demo_peer 8 4)) ETH_P_BATMAN (EgressIface 0) 3 (body @ replicate 72 0) 2 a = Some (Some plan, a')
    \<and> (let f = \<lparr>lf_dst = own_mac (demo_peer 8 4), lf_src = own_mac (demo_peer 4 8), lf_protocol = ETH_P_BATMAN, lf_payload = dp_payload plan\<rparr>
       in strip_directed toy_crypto sample_router_profile f b = (Some (f\<lparr>lf_payload := body\<rparr>), b')
        \<and> fst (strip_directed toy_crypto sample_router_profile f b') = None)"
proof -
  have "MAX_TRAILER_LEN \<le> length (replicate 72 (0 :: u8))"
    by (simp add: MAX_TRAILER_LEN_def DIRECTED_TRAILER_LEN_def FANOUT_TRAILER_LEN_def TAG_LEN_def SIG_LEN_def)
  with frame_crosses_link [OF toy_crypto_ok demo_peer_router_sound demo_peer_router_sound demo_router_parts(1) demo_router_parts(1) demo_peer_knows demo_peer_knows
      demo_peers_in_step(1), of "[3, 1, 7]" "replicate 72 0" 0 "EgressIface 0" 2] demo_peers_in_step(2)
  show ?thesis by (simp add: unicast_needs_tag Let_def numeral_3_eq_3)
qed

theorem nothing_in_the_clear_witness:
  "\<exists>plan r' trailer. plan_dispatch toy_crypto 0 (own_mac (demo_peer 8 4)) ETH_P_BATMAN (EgressIface 0) 3 ([3, 1, 7] @ replicate 24 0) 2 (demo_router (demo_peer 4 8))
       = Some (Some plan, r') \<and> dp_payload plan = [3, 1, 7] @ trailer \<and> length trailer = 24"
proof -
  let ?s = "demo_peer 4 8" and ?t = "demo_peer 8 4" and ?body = "[3, 1, 7] :: bytes" and ?room = "replicate 24 (0 :: u8)"
  have p: "required_proof_of ?body = ProofTag" "proof_trailer_len ProofTag = 24"
    by (simp_all add: unicast_needs_tag DIRECTED_TRAILER_LEN_def TAG_LEN_def)
  note ok = sound_routerD(4) [OF demo_peer_router_sound demo_router_parts(1)]
  from proof_accepted [OF toy_crypto_ok demo_peer_knows demo_peer_knows ok ok demo_peers_in_step(1), of ProofTag ?room ?body] p demo_peers_in_step(2)
  obtain tr s' where tr: "prove_frame toy_crypto ProofTag (own_mac ?t) ?body ?room ?s = (Some (24, tr), s')" "length tr = 24" by auto
  have "tag_directed_into toy_crypto (own_mac ?t) ETH_P_BATMAN 3 (?body @ ?room) (demo_router ?s)
      = Some (Some 27, ?body @ tr, (demo_router ?s)\<lparr>ce_auth := Some s'\<rparr>)"
    using tr p by (simp add: tag_directed_into_def Let_def)
  then obtain plan where plan: "plan_dispatch toy_crypto 0 (own_mac ?t) ETH_P_BATMAN (EgressIface 0) 3 (?body @ ?room) 2 (demo_router ?s)
      = Some (Some plan, (demo_router ?s)\<lparr>ce_auth := Some s'\<rparr>)"
    using tr(2) by (simp add: plan_dispatch_def Let_def)
  with nothing_in_the_clear [OF toy_crypto_ok demo_router_parts(1) plan] p show ?thesis by (auto simp: Let_def)
qed

theorem unproven_directed_inert_witness:
  "\<exists>r'. handle_mesh_frame toy_crypto sample_router_profile (staging (\<lambda>_ _. True)) 0 0
       \<lparr>lf_dst = own_mac (demo_node 4), lf_src = Mac 2 0 0 0 0 9, lf_protocol = ETH_P_BATMAN, lf_payload = 3 # replicate 40 0\<rparr>
       link_metrics_default (replicate 64 0) [] [] (demo_router (demo_node 4)) = Some ([], r')
     \<and> r' = (demo_router (demo_node 4))\<lparr>ce_auth := ce_auth r'\<rparr>"
proof -
  let ?f = "\<lparr>lf_dst = own_mac (demo_node 4), lf_src = Mac 2 0 0 0 0 9, lf_protocol = ETH_P_BATMAN, lf_payload = 3 # replicate 40 0\<rparr> :: link_frame"
  let ?r = "demo_router (demo_node 4)"
  have live: "live_neighbor (lf_src ?f) (demo_node 4) = None" by (simp add: live_neighbor_def demo_node_parts)
  have "fst (strip_directed toy_crypto sample_router_profile ?f ?r) = None"
    using live by (simp add: strip_directed_def unicast_needs_tag Let_def verify_proof_def verify_directed_def verify_directed_tag_def split: option.splits)
  then have run: "handle_mesh_frame toy_crypto sample_router_profile (staging (\<lambda>_ _. True)) 0 0 ?f link_metrics_default (replicate 64 0) [] [] ?r
      = Some ([], snd (strip_directed toy_crypto sample_router_profile ?f ?r))"
    by (cases "strip_directed toy_crypto sample_router_profile ?f ?r") (simp add: handle_mesh_frame_def)
  with unproven_directed_inert [OF demo_router_parts(1) _ _ run] live show ?thesis by (simp add: unicast_needs_tag)
qed

text \<open>Two destinations, and a stage that takes one frame: one is carried, one is counted.\<close>

theorem no_destination_lost_witness:
  "let r = demo_router (demo_node 4); a = Mac 2 0 0 0 0 9; b = Mac 2 0 0 0 0 10 in
   \<exists>s' r' lost. flush_mcast_groups (staging (\<lambda>s _. s = [])) 0 [(a, [a]), (b, [b])] 5 [7] [] (replicate 64 0) [] r = Some (s', r')
     \<and> all_carried s' + lost = {#a, b#} \<and> unat (ce_mcast_group_drops r') = size lost"
proof -
  let ?r = "demo_router (demo_node 4)" and ?a = "Mac 2 0 0 0 0 9" and ?b = "Mac 2 0 0 0 0 10"
  obtain e1 r1 where e1: "egress_interface_for 0 ?a ?r = Some (e1, r1)" "evolves toy_crypto sample_router_profile ?r r1"
    using egress_result [OF demo_router_ok(2)] by blast
  then have "rest_ok sample_router_profile r1" using demo_router_ok(2) by (simp add: evolves_def)
  from egress_result [OF this] obtain e2 r2 where e2: "egress_interface_for 0 ?b r1 = Some (e2, r2)" by blast
  have "flush_mcast_groups (staging (\<lambda>s _. s = [])) 0 [(?a, [?a]), (?b, [?b])] 5 [7] [] (replicate 64 0) [] ?r \<noteq> None"
    by (simp add: flush_mcast_groups_def e1 e2 del: collapse_loop.simps directed_loop.simps)
  then obtain s' r' where f: "flush_mcast_groups (staging (\<lambda>s _. s = [])) 0 [(?a, [?a]), (?b, [?b])] 5 [7] [] (replicate 64 0) [] ?r = Some (s', r')"
    by force
  have "ce_mcast_group_drops ?r = 0" by (simp add: demo_router_def set_auth_def Let_def router_with_capacities_def)
  with no_destination_lost [OF f] obtain lost where lost: "all_carried s' + lost = {#?a, ?b#}"
      "unat (ce_mcast_group_drops r') = min (size lost) (2 ^ 32 - 1)"
    by (auto simp: MAX_MCAST_DESTS_def)
  have "size lost \<le> 2" using arg_cong [OF lost(1), of size] by simp
  with lost have "\<exists>lost. all_carried s' + lost = {#?a, ?b#} \<and> unat (ce_mcast_group_drops r') = size lost" by auto
  with f show ?thesis by (auto simp: Let_def)
qed

end
