(* ===== verification/Driver_Polls.thy ===== *)
theory Driver_Polls
  imports Driver_Safety
begin

text \<open>
  The periodic work of a driver returns: each loop of \<^verbatim>\<open>poll_due_all\<close> ends, having served every interface or
  neighbour at most once, as long as the timers' intervals are not degenerate; a configured interval of zero
  makes it run for ever.
\<close>

section \<open>Soundness is kept\<close>

lemma auth_run_ok:
  "crypto_ok C \<Longrightarrow> auth_ok C P s \<Longrightarrow> list_all Auth_Lifecycle.call_ok calls \<Longrightarrow> auth_run C P calls s = Some s' \<Longrightarrow> auth_ok C P s'"
proof (induction calls arbitrary: s)
  case (Cons c calls)
  with auth_perform_ok [OF Cons.prems(1,2), of c] show ?case by auto
qed simp

lemma evolves_sound:
  assumes "crypto_ok C" "profiles_ok P" "sound_router C P ident r" "evolves C P r r'"
  shows "sound_router C P ident r'"
proof -
  note d = sound_routerD [OF assms(3)]
  have e: "engine_runs (cp_engine P) (ce_batman r) (ce_batman r')" "auth_evolves C (cp_auth P) (ce_auth r) (ce_auth r')" "rest_ok P r'"
    using assms(4) d(3) by (auto simp: evolves_def)
  have "profile_ok (cp_engine P)" using assms(2) by (simp add: profiles_ok_def)
  note run = engine_runs_ok [OF this d(1) e(1)]
  have "auth_ok C (cp_auth P) a' \<and> require_proof (ce_batman r')" if a': "ce_auth r' = Some a'" for a'
  proof -
    obtain a calls where a: "ce_auth r = Some a" "list_all Auth_Lifecycle.call_ok calls" "auth_run C (cp_auth P) calls a = Some a'"
      using e(2) a' by (cases "ce_auth r") auto
    with auth_run_ok [OF assms(1) d(4) [OF a(1)] a(2)] run(3) d(5) show ?thesis by auto
  qed
  then show ?thesis using run d(2) e(3) by (simp add: sound_router_def)
qed

section \<open>The periodic polls return\<close>

text \<open>A timer whose intervals are at least two nanoseconds is not due right after it fired.\<close>

definition timer_sane :: "trickle_timer \<Rightarrow> bool" where
  "timer_sane t \<longleftrightarrow> trickle_ok t \<and> 2 \<le> tt_i_min t \<and> tt_i_max t < 2 ^ 64"

lemma timer_sane_emit:
  assumes "timer_sane t"
  shows "timer_sane (timer_emitted t now)" "\<not> Trickle.due (timer_emitted t now) now"
proof -
  show "timer_sane (timer_emitted t now)" using assms by (auto simp: timer_sane_def)
  have "2 \<le> tt_interval t" "tt_interval t < 2 ^ 64" using assms by (auto simp: timer_sane_def trickle_ok_def)
  with on_emit_wait(1) [of t now] assms show "\<not> Trickle.due (timer_emitted t now) now"
    by (auto simp: timer_sane_def time_until_def Trickle.due_def)
qed

lemma timer_sane_reset:
  assumes "timer_sane t"
  shows "timer_sane (restarted t now)" "Trickle.due (restarted t now) now \<Longrightarrow> Trickle.due t now"
proof -
  show "timer_sane (restarted t now)" using assms by (auto simp: timer_sane_def)
  have "0 < tt_i_min t div 2" "tt_i_min t < 2 ^ 64" using assms by (auto simp: timer_sane_def trickle_ok_def)
  then show "Trickle.due (restarted t now) now \<Longrightarrow> Trickle.due t now"
    using jittered_bounds(1) [of "tt_i_min t" "t\<lparr>tt_interval := tt_i_min t\<rparr>"] assms
    by (auto simp: restarted_def Let_def case_prod_beta Trickle.due_def timer_sane_def trickle_ok_def split: if_splits)
qed

definition due_set :: "duration \<Rightarrow> trickle_timer list \<Rightarrow> nat set" where
  "due_set now ts = {i. i < length ts \<and> Trickle.due (ts ! i) now}"

lemma nth_update_if: "xs[i := x] ! j = (if i = j \<and> i < length xs then x else xs ! j)"
  by (cases "i < length xs") (simp_all add: nth_list_update list_update_beyond)

lemma due_set_reset: "list_all timer_sane ts \<Longrightarrow> due_set now (map (\<lambda>t. restarted t now) ts) \<subseteq> due_set now ts"
  using timer_sane_reset(2) by (auto simp: due_set_def list_all_length)

lemma due_set_emit: "list_all timer_sane ts \<Longrightarrow> due_set now (ts[i := timer_emitted (ts ! i) now]) = due_set now ts - {i}"
  using timer_sane_emit(2) by (auto simp: due_set_def list_all_length nth_update_if split: if_splits)

lemma finite_due_set [simp]: "finite (due_set now ts)"
  by (simp add: due_set_def)

lemma due_interface_set:
  "due_interface e now = None \<longleftrightarrow> due_set now (ogm_timers e) = {}" "due_interface e now = Some i \<Longrightarrow> i \<in> due_set now (ogm_timers e)"
proof -
  let ?due = "filter (\<lambda>(i, t). Trickle.due t now) (enumerate 0 (ogm_timers e))"
  have set: "fst ` set ?due = due_set now (ogm_timers e)" by (force simp: due_set_def in_set_enumerate_eq)
  then show "due_interface e now = None \<longleftrightarrow> due_set now (ogm_timers e) = {}"
    by (cases ?due) (auto simp: due_interface_def pick_due_first)
  show "due_interface e now = Some i \<Longrightarrow> i \<in> due_set now (ogm_timers e)"
    using set by (cases ?due) (auto simp: due_interface_def pick_due_first)
qed

lemma poll_timers:
  assumes "router_poll C P now tx r = Some (f, r')"
  shows "ogm_timers (ce_batman r') \<in> {ogm_timers (ce_batman r), map (\<lambda>t. restarted t now) (ogm_timers (ce_batman r))}"
    "local_mcast (ce_batman r') = local_mcast (ce_batman r)" "keepalive_timers (ce_batman r') = keepalive_timers (ce_batman r)"
proof -
  have rev: "ogm_timers (ce_batman (snd (apply_self_revocation P r))) = ogm_timers (ce_batman r)"
    "local_mcast (ce_batman (snd (apply_self_revocation P r))) = local_mcast (ce_batman r)"
    "keepalive_timers (ce_batman (snd (apply_self_revocation P r))) = keepalive_timers (ce_batman r)"
    by (simp_all add: apply_self_revocation_def engine_reset_def split: option.split prod.split)
  have tick: "ogm_timers (ticked now e) \<in> {ogm_timers e, map (\<lambda>t. restarted t now) (ogm_timers e)}" "local_mcast (ticked now e) = local_mcast e"
    "keepalive_timers (ticked now e) = keepalive_timers e" for e
    by (simp_all add: ticked_def topology_settled_def timers_restarted_def frame_simps)
  have own: "ce_batman x = ce_batman y" if "augment_own C buf n y = Some (o1, x)" for buf n y o1 x
    using that by (auto simp: augment_own_def split: option.splits if_splits)
  obtain e where e: "e = ce_batman (snd (apply_self_revocation P r))" "ce_batman r' = e \<or> ce_batman r' = ticked now e"
    using assms own by (fastforce simp: router_poll_def Let_def produce_periodic_broadcast_eq split: if_splits option.splits prod.splits)
  with rev tick [of e] show "ogm_timers (ce_batman r') \<in> {ogm_timers (ce_batman r), map (\<lambda>t. restarted t now) (ogm_timers (ce_batman r))}"
    "local_mcast (ce_batman r') = local_mcast (ce_batman r)" "keepalive_timers (ce_batman r') = keepalive_timers (ce_batman r)"
    by auto
qed

definition ogm_room :: "bytes \<Rightarrow> central_router \<Rightarrow> bool" where
  "ogm_room tx r \<longleftrightarrow> OGM_SIZE + length (own_tail (local_mcast (ce_batman r))) \<le> length tx"

text \<open>
  The clock has room for every timer's longest interval, and the interval for doubling: the timer calls do not overflow.
\<close>

definition clock_fits :: "duration \<Rightarrow> trickle_timer list \<Rightarrow> bool" where
  "clock_fits now ts \<longleftrightarrow> list_all (\<lambda>t. now + tt_i_max t \<le> DURATION_MAX \<and> 2 * tt_i_max t \<le> DURATION_MAX) ts"

lemma clock_fits_timers:
  "clock_fits now (map (\<lambda>t. restarted t now) ts) = clock_fits now ts"
  "clock_fits now ts \<Longrightarrow> clock_fits now (ts[i := timer_emitted (ts ! i) now])"
  by (auto simp: clock_fits_def list_all_length nth_update_if)

lemma fitting_timer:
  assumes "trickle_ok t" "now + tt_i_max t \<le> DURATION_MAX" "2 * tt_i_max t \<le> DURATION_MAX"
  shows "emit_fits t now" "reset_fits t now"
proof -
  have "tt_i_min t \<le> tt_i_max t" "tt_interval t \<le> tt_i_max t" using assms(1) by (simp_all add: trickle_ok_def)
  with assms(2,3) show "emit_fits t now" "reset_fits t now" by (auto intro!: fits_bounds(1) simp: reset_fits_def)
qed

lemma clock_fits_calls:
  assumes "engine_ok P e" "clock_fits now (ogm_timers e)"
  shows "resets_fit now e" "on_interface_emitted idx now e = Some (interface_served idx now e)"
  using assms fitting_timer [of _ now]
  by (auto simp: engine_ok_def clock_fits_def list_all_iff resets_fit_def on_interface_emitted_eq)

lemma sane_clock_fits:
  assumes "now + 2 ^ 64 \<le> DURATION_MAX" "timer_sane t"
  shows "now + tt_i_max t \<le> DURATION_MAX" "2 * tt_i_max t \<le> DURATION_MAX"
  using assms by (simp_all add: timer_sane_def DURATION_MAX_def)

text \<open>One turn of the loop: it returns, keeps what the loop relies on, and reschedules the interface it picked.\<close>

lemma poll_one_ogm_run:
  assumes "crypto_ok C" "profiles_ok P" "sound_router C P ident r" "ogm_room tx r" "clock_fits now (ogm_timers (ce_batman r))"
  obtains new r' ts where "poll_one_ogm C P (staging ok) now tx idx s r = Some (s @ new, r')" "sound_router C P ident r'" "ogm_room tx r'"
    "ts \<in> {ogm_timers (ce_batman r), map (\<lambda>t. restarted t now) (ogm_timers (ce_batman r))}"
    "ogm_timers (ce_batman r') = ts[idx := timer_emitted (ts ! idx) now]"
    "new = [] \<or> (\<exists>f. new = [f] \<and> og_egress f = EgressIface idx)" "keepalive_timers (ce_batman r') = keepalive_timers (ce_batman r)"
    "clock_fits now (ogm_timers (ce_batman r'))"
proof -
  note d = sound_routerD [OF assms(3)]
  have "\<exists>f r1. (if lx_tx_ogm (link_features_of idx r) then router_poll C P now tx r else Some (None, r)) = Some (f, r1) \<and> evolves C P r r1
    \<and> ogm_timers (ce_batman r1) \<in> {ogm_timers (ce_batman r), map (\<lambda>t. restarted t now) (ogm_timers (ce_batman r))}
    \<and> local_mcast (ce_batman r1) = local_mcast (ce_batman r) \<and> keepalive_timers (ce_batman r1) = keepalive_timers (ce_batman r)"
  proof (cases "lx_tx_ogm (link_features_of idx r)")
    case True
    from poll_result [OF assms(1,2) d(1,4), where now = now and tx = tx] assms(4) clock_fits_calls(1) [OF d(1) assms(5)]
    obtain f r1 where p: "router_poll C P now tx r = Some (f, r1)" "evolves C P r r1" by (fastforce simp: ogm_room_def split: option.splits)
    with True poll_timers [OF p(1)] show ?thesis by auto
  qed auto
  then obtain f r1 where r1: "(if lx_tx_ogm (link_features_of idx r) then router_poll C P now tx r else Some (None, r)) = Some (f, r1)" "evolves C P r r1"
      "ogm_timers (ce_batman r1) \<in> {ogm_timers (ce_batman r), map (\<lambda>t. restarted t now) (ogm_timers (ce_batman r))}"
      "local_mcast (ce_batman r1) = local_mcast (ce_batman r)" "keepalive_timers (ce_batman r1) = keepalive_timers (ce_batman r)" by blast
  have fit1: "clock_fits now (ogm_timers (ce_batman r1))" using r1(3) assms(5) by (auto simp: clock_fits_timers(1))
  have "engine_ok (cp_engine P) (ce_batman r1)" by (rule sound_routerD(1) [OF evolves_sound [OF assms(1-3) r1(2)]])
  note emit = clock_fits_calls(2) [OF this fit1, of idx]
  define r2 where "r2 = r1\<lparr>ce_batman := interface_served idx now (ce_batman r1)\<rparr>"
  have "evolves C P r r2" unfolding r2_def by (rule evolves_trans [OF r1(2) evolves_batman [OF engine_runs_calls(10) [OF emit]]])
  then have "sound_router C P ident r2" by (rule evolves_sound [OF assms(1-3)])
  moreover have "ogm_timers (ce_batman r2) = (ogm_timers (ce_batman r1))[idx := timer_emitted (ogm_timers (ce_batman r1) ! idx) now]"
    by (simp add: r2_def interface_served_def list_update_beyond)
  moreover have "ogm_room tx r2" "keepalive_timers (ce_batman r2) = keepalive_timers (ce_batman r)"
    using assms(4) r1(4,5) by (simp_all add: ogm_room_def r2_def interface_served_def)
  moreover have "\<exists>new. poll_one_ogm C P (staging ok) now tx idx s r = Some (s @ new, r2) \<and> (new = [] \<or> (\<exists>f. new = [f] \<and> og_egress f = EgressIface idx))"
    using r1(1) emit by (cases f) (auto simp: poll_one_ogm_def emit_planned_def staging_def outgoing_def r2_def)
  ultimately show thesis using that r1(3) clock_fits_timers(2) [OF fit1, of idx] by metis
qed

lemma served_timers:
  assumes "list_all timer_sane ts0" "ts \<in> {ts0, map (\<lambda>t. restarted t now) ts0}"
  shows "list_all timer_sane (ts[idx := timer_emitted (ts ! idx) now])" "due_set now (ts[idx := timer_emitted (ts ! idx) now]) \<subseteq> due_set now ts0 - {idx}"
proof -
  have sane: "list_all timer_sane ts" "due_set now ts \<subseteq> due_set now ts0"
    using assms due_set_reset [OF assms(1), of now] by (auto simp: list_all_length timer_sane_reset(1))
  then show "list_all timer_sane (ts[idx := timer_emitted (ts ! idx) now])"
    by (auto simp: list_all_length nth_update_if timer_sane_emit(1))
  show "due_set now (ts[idx := timer_emitted (ts ! idx) now]) \<subseteq> due_set now ts0 - {idx}"
    using sane(2) by (auto simp: due_set_emit [OF sane(1)])
qed

lemma poll_due_ogms_spec:
  assumes "crypto_ok C" "profiles_ok P" "sound_router C P ident r" "list_all timer_sane (ogm_timers (ce_batman r))" "ogm_room tx r"
    and "clock_fits now (ogm_timers (ce_batman r))"
  shows "\<exists>new r'. poll_due_ogms C P (staging ok) now tx s r = Some (s @ new, r') \<and> sound_router C P ident r'
    \<and> due_set now (ogm_timers (ce_batman r')) = {} \<and> keepalive_timers (ce_batman r') = keepalive_timers (ce_batman r)
    \<and> distinct (map og_egress new) \<and> og_egress ` set new \<subseteq> EgressIface ` due_set now (ogm_timers (ce_batman r))"
  using assms(3-6)
proof (induction "card (due_set now (ogm_timers (ce_batman r)))" arbitrary: r s rule: less_induct)
  case less
  show ?case
  proof (cases "due_interface (ce_batman r) now")
    case None
    then have "poll_due_ogms C P (staging ok) now tx s r = Some (s, r)" by (subst poll_due_ogms.simps) simp
    moreover have "due_set now (ogm_timers (ce_batman r)) = {}" using None by (simp only: due_interface_set(1))
    ultimately show ?thesis using less.prems by (intro exI [of _ "[]"] exI [of _ r]) simp
  next
    case (Some idx)
    from assms(1,2) less.prems(1,3,4) obtain new r1 ts where step: "poll_one_ogm C P (staging ok) now tx idx s r = Some (s @ new, r1)"
        "sound_router C P ident r1" "ogm_room tx r1" "ts \<in> {ogm_timers (ce_batman r), map (\<lambda>t. restarted t now) (ogm_timers (ce_batman r))}"
        "ogm_timers (ce_batman r1) = ts[idx := timer_emitted (ts ! idx) now]"
        "new = [] \<or> (\<exists>f. new = [f] \<and> og_egress f = EgressIface idx)" "keepalive_timers (ce_batman r1) = keepalive_timers (ce_batman r)"
        "clock_fits now (ogm_timers (ce_batman r1))"
      by (rule poll_one_ogm_run)
    note served = served_timers [OF less.prems(2) step(4), of idx, folded step(5)]
    have idx: "idx \<in> due_set now (ogm_timers (ce_batman r))" using due_interface_set(2) [OF Some] .
    have "card (due_set now (ogm_timers (ce_batman r1))) < card (due_set now (ogm_timers (ce_batman r)))"
      using served(2) idx by (intro psubset_card_mono) auto
    from less.hyps [OF this step(2) served(1) step(3) step(8), of "s @ new"] obtain new' r' where
      ih: "poll_due_ogms C P (staging ok) now tx (s @ new) r1 = Some ((s @ new) @ new', r')" "sound_router C P ident r'"
        "due_set now (ogm_timers (ce_batman r')) = {}" "keepalive_timers (ce_batman r') = keepalive_timers (ce_batman r1)"
        "distinct (map og_egress new')" "og_egress ` set new' \<subseteq> EgressIface ` due_set now (ogm_timers (ce_batman r1))" by blast
    have "poll_due_ogms C P (staging ok) now tx s r = Some (s @ new @ new', r')"
      by (subst poll_due_ogms.simps) (simp add: Some step(1) ih(1))
    moreover have "distinct (map og_egress (new @ new'))" "og_egress ` set (new @ new') \<subseteq> EgressIface ` due_set now (ogm_timers (ce_batman r))"
      using ih(5,6) step(6) served(2) idx by (auto simp: image_subset_iff) (metis DiffE egress.inject imageE insertI1 subsetD)+
    ultimately show ?thesis
      using ih(2-4) step(7) by (intro exI [of _ "new @ new'"] exI [of _ r']) simp
  qed
qed

section \<open>Heartbeats\<close>

definition ka_due_set :: "duration \<Rightarrow> trickle_timer option list \<Rightarrow> nat set" where
  "ka_due_set now ts = {i. i < length ts \<and> (\<exists>t. ts ! i = Some t \<and> Trickle.due t now)}"

lemma finite_ka_due_set [simp]: "finite (ka_due_set now ts)"
  by (simp add: ka_due_set_def)

lemma due_keepalive_set:
  "due_keepalive_interface e now = None \<longleftrightarrow> ka_due_set now (keepalive_timers e) = {}"
  "due_keepalive_interface e now = Some i \<Longrightarrow> i \<in> ka_due_set now (keepalive_timers e)"
proof -
  let ?due = "filter (\<lambda>(i, t). Trickle.due t now) (List.map_filter (\<lambda>(idx, t). map_option (Pair idx) t) (enumerate 0 (keepalive_timers e)))"
  have set: "fst ` set ?due = ka_due_set now (keepalive_timers e)"
  proof (intro set_eqI iffI)
    show "i \<in> ka_due_set now (keepalive_timers e)" if "i \<in> fst ` set ?due" for i
      using that by (auto simp: ka_due_set_def in_set_enumerate_eq List.map_filter_def)
    show "i \<in> fst ` set ?due" if i: "i \<in> ka_due_set now (keepalive_timers e)" for i
    proof -
      obtain t where t: "i < length (keepalive_timers e)" "keepalive_timers e ! i = Some t" "Trickle.due t now"
        using i by (auto simp: ka_due_set_def)
      then have "(i, t) \<in> set ?due" by (force simp: in_set_enumerate_eq List.map_filter_def image_iff)
      then show ?thesis by (rule image_eqI [rotated]) simp
    qed
  qed
  then show "due_keepalive_interface e now = None \<longleftrightarrow> ka_due_set now (keepalive_timers e) = {}"
    by (cases ?due) (auto simp: due_keepalive_interface_def pick_due_first)
  show "due_keepalive_interface e now = Some i \<Longrightarrow> i \<in> ka_due_set now (keepalive_timers e)"
    using set by (cases ?due) (auto simp: due_keepalive_interface_def pick_due_first)
qed

lemma poll_one_keepalive_run:
  assumes "list_all (pred_option timer_sane) (keepalive_timers (ce_batman r))" "idx \<in> ka_due_set now (keepalive_timers (ce_batman r))"
    and "now + 2 ^ 64 \<le> DURATION_MAX"
  obtains new r' where "poll_one_keepalive C (staging ok) now tx idx s r = Some (s @ new, r')" "ogm_timers (ce_batman r') = ogm_timers (ce_batman r)"
    "list_all (pred_option timer_sane) (keepalive_timers (ce_batman r'))"
    "ka_due_set now (keepalive_timers (ce_batman r')) = ka_due_set now (keepalive_timers (ce_batman r)) - {idx}"
    "new = [] \<or> (\<exists>f. new = [f] \<and> og_egress f = EgressIface idx)"
proof -
  let ?ts = "keepalive_timers (ce_batman r)"
  obtain f r1 where p: "poll_keepalive C tx r = (f, r1)" by fastforce
  then have same: "ce_batman r1 = ce_batman r"
    by (auto simp: poll_keepalive_def Let_def split: if_splits option.splits prod.splits)
  obtain t where t: "idx < length ?ts" "?ts ! idx = Some t" using assms(2) by (auto simp: ka_due_set_def)
  have sane: "timer_sane t" using assms(1) t by (metis list_all_length option.pred_inject(2))
  have "emit_fits t now" using sane by (intro fitting_timer sane_clock_fits [OF assms(3)]) (simp_all add: timer_sane_def)
  then have emit: "on_keepalive_emitted idx now (ce_batman r1) = Some (keepalive_served idx now (ce_batman r1))"
    using t by (simp add: on_keepalive_emitted_eq same)
  define r2 where "r2 = r1\<lparr>ce_batman := keepalive_served idx now (ce_batman r1)\<rparr>"
  have ts: "keepalive_timers (ce_batman r2) = ?ts[idx := Some (timer_emitted t now)]" "ogm_timers (ce_batman r2) = ogm_timers (ce_batman r)"
    using t by (simp_all add: r2_def same keepalive_served_def)
  have "list_all (pred_option timer_sane) (keepalive_timers (ce_batman r2))"
    using assms(1) timer_sane_emit(1) [OF sane] by (auto simp: ts list_all_length nth_update_if)
  moreover have "ka_due_set now (keepalive_timers (ce_batman r2)) = ka_due_set now ?ts - {idx}"
    using timer_sane_emit(2) [OF sane] by (auto simp: ts ka_due_set_def nth_update_if split: if_splits)
  moreover have "\<exists>new. poll_one_keepalive C (staging ok) now tx idx s r = Some (s @ new, r2) \<and> (new = [] \<or> (\<exists>f. new = [f] \<and> og_egress f = EgressIface idx))"
    using p emit by (cases f) (auto simp: poll_one_keepalive_def emit_planned_def staging_def outgoing_def r2_def)
  ultimately show thesis using that ts(2) by blast
qed

lemma poll_due_keepalives_spec:
  assumes "list_all (pred_option timer_sane) (keepalive_timers (ce_batman r))" and clock: "now + 2 ^ 64 \<le> DURATION_MAX"
  shows "\<exists>new r'. poll_due_keepalives C (staging ok) now tx s r = Some (s @ new, r') \<and> ka_due_set now (keepalive_timers (ce_batman r')) = {}
    \<and> ogm_timers (ce_batman r') = ogm_timers (ce_batman r)
    \<and> distinct (map og_egress new) \<and> og_egress ` set new \<subseteq> EgressIface ` ka_due_set now (keepalive_timers (ce_batman r))"
  using assms(1)
proof (induction "card (ka_due_set now (keepalive_timers (ce_batman r)))" arbitrary: r s rule: less_induct)
  case less
  show ?case
  proof (cases "due_keepalive_interface (ce_batman r) now")
    case None
    then have "poll_due_keepalives C (staging ok) now tx s r = Some (s, r)" by (subst poll_due_keepalives.simps) simp
    moreover have "ka_due_set now (keepalive_timers (ce_batman r)) = {}" using None by (simp only: due_keepalive_set(1))
    ultimately show ?thesis by (intro exI [of _ "[]"] exI [of _ r]) simp
  next
    case (Some idx)
    note idx = due_keepalive_set(2) [OF Some]
    from less.prems idx clock obtain new r1 where step: "poll_one_keepalive C (staging ok) now tx idx s r = Some (s @ new, r1)"
        "ogm_timers (ce_batman r1) = ogm_timers (ce_batman r)" "list_all (pred_option timer_sane) (keepalive_timers (ce_batman r1))"
        "ka_due_set now (keepalive_timers (ce_batman r1)) = ka_due_set now (keepalive_timers (ce_batman r)) - {idx}"
        "new = [] \<or> (\<exists>f. new = [f] \<and> og_egress f = EgressIface idx)" by (rule poll_one_keepalive_run)
    have "card (ka_due_set now (keepalive_timers (ce_batman r1))) < card (ka_due_set now (keepalive_timers (ce_batman r)))"
      using idx unfolding step(4) by (intro psubset_card_mono) auto
    from less.hyps [OF this step(3), of "s @ new"] obtain new' r' where
      ih: "poll_due_keepalives C (staging ok) now tx (s @ new) r1 = Some ((s @ new) @ new', r')" "ka_due_set now (keepalive_timers (ce_batman r')) = {}"
        "ogm_timers (ce_batman r') = ogm_timers (ce_batman r1)" "distinct (map og_egress new')"
        "og_egress ` set new' \<subseteq> EgressIface ` ka_due_set now (keepalive_timers (ce_batman r1))" by blast
    have "poll_due_keepalives C (staging ok) now tx s r = Some (s @ new @ new', r')"
      by (subst poll_due_keepalives.simps) (simp add: Some step(1) ih(1))
    moreover have "distinct (map og_egress (new @ new'))" "og_egress ` set (new @ new') \<subseteq> EgressIface ` ka_due_set now (keepalive_timers (ce_batman r))"
      using ih(4,5) step(4,5) idx by (auto simp: image_subset_iff)
    ultimately show ?thesis using ih(2,3) step(2) by (intro exI [of _ "new @ new'"] exI [of _ r']) simp
  qed
qed

text \<open>
  C10. Due interfaces are served once. On any sound router (every router the calls reach is one) whose timers' intervals are at
  least two nanoseconds and below $2^{64}$, at a clock reading with room for such an interval below \<^verbatim>\<open>Duration::MAX\<close>,
  polling for due announcements and then for due heartbeats returns: at most one announcement and one heartbeat leave, each on an interface whose timer was due, and no timer is due after.
\<close>

theorem due_interfaces_served_once:
  assumes "crypto_ok C" "profiles_ok P" "sound_router C P ident r" "ogm_room tx r"
    and "list_all timer_sane (ogm_timers (ce_batman r))" "list_all (pred_option timer_sane) (keepalive_timers (ce_batman r))"
    and "now + 2 ^ 64 \<le> DURATION_MAX"
  shows "\<exists>ogms r1 beats r2. poll_due_ogms C P (staging ok) now tx s r = Some (s @ ogms, r1)
    \<and> poll_due_keepalives C (staging ok) now tx (s @ ogms) r1 = Some (s @ ogms @ beats, r2)
    \<and> due_interface (ce_batman r2) now = None \<and> due_keepalive_interface (ce_batman r2) now = None
    \<and> distinct (map og_egress ogms) \<and> og_egress ` set ogms \<subseteq> EgressIface ` due_set now (ogm_timers (ce_batman r))
    \<and> distinct (map og_egress beats) \<and> og_egress ` set beats \<subseteq> EgressIface ` ka_due_set now (keepalive_timers (ce_batman r))"
proof -
  have "clock_fits now (ogm_timers (ce_batman r))"
    using assms(5) sane_clock_fits [OF assms(7)] by (auto simp: clock_fits_def list_all_iff)
  note spec = poll_due_ogms_spec [OF assms(1-3,5,4) this, of ok s]
  obtain ogms r1 where o: "poll_due_ogms C P (staging ok) now tx s r = Some (s @ ogms, r1)" "due_set now (ogm_timers (ce_batman r1)) = {}"
      "keepalive_timers (ce_batman r1) = keepalive_timers (ce_batman r)" "distinct (map og_egress ogms)"
      "og_egress ` set ogms \<subseteq> EgressIface ` due_set now (ogm_timers (ce_batman r))"
    using spec by blast
  from poll_due_keepalives_spec [of r1 now C ok tx "s @ ogms"] assms(6,7) o(3) obtain beats r2 where
    b: "poll_due_keepalives C (staging ok) now tx (s @ ogms) r1 = Some (s @ ogms @ beats, r2)" "ka_due_set now (keepalive_timers (ce_batman r2)) = {}"
      "ogm_timers (ce_batman r2) = ogm_timers (ce_batman r1)" "distinct (map og_egress beats)"
      "og_egress ` set beats \<subseteq> EgressIface ` ka_due_set now (keepalive_timers (ce_batman r))" by auto
  from o b show ?thesis by (auto simp: due_interface_set(1) due_keepalive_set(1))
qed

section \<open>A zero interval\<close>

text \<open>The loop's first \<open>k\<close> turns: \<open>None\<close> where it stops before.\<close>

primrec ogm_turns ::
    "crypto \<Rightarrow> router_profile \<Rightarrow> 's mesh_sink \<Rightarrow> duration \<Rightarrow> bytes \<Rightarrow> nat \<Rightarrow> 's \<Rightarrow> central_router \<Rightarrow> ('s \<times> central_router) option" where
  "ogm_turns C P S now tx 0 s r = Some (s, r)"
| "ogm_turns C P S now tx (Suc k) s r =
     (case due_interface (ce_batman r) now of
        None \<Rightarrow> None
      | Some idx \<Rightarrow> Option.bind (poll_one_ogm C P S now tx idx s r) (\<lambda>x. ogm_turns C P S now tx k (fst x) (snd x)))"

lemma poll_returns_turns:
  assumes "poll_due_ogms C P S now tx s r = Some y"
  shows "\<exists>k. ogm_turns C P S now tx k s r = None"
proof -
  let ?Q = "\<lambda>x (y :: 'a \<times> central_router). case x of ((((((C, P), S), now), tx), s), r) \<Rightarrow> \<exists>k. ogm_turns C P (S :: 'a mesh_sink) now tx k s r = None"
  have "?Q ((((((C, P), S), now), tx), s), r) y"
    using assms
  proof (rule poll_due_ogms.raw_induct [where Pa = ?Q, rotated])
    fix poll C P S now tx s r y
    assume ih: "\<And>C P S now tx s r y. poll C P S now tx s r = Some y \<Longrightarrow> ?Q ((((((C, P), S), now), tx), s), r) y"
      and run: "(case due_interface (ce_batman r) now of None \<Rightarrow> Some (s, r)
        | Some idx \<Rightarrow> Option.bind (poll_one_ogm C P S now tx idx s r) (\<lambda>x. poll C P S now tx (fst x) (snd x))) = Some y"
    show "?Q ((((((C, P), S), now), tx), s), r) y"
    proof (cases "due_interface (ce_batman r) now")
      case None
      then have "ogm_turns C P S now tx (Suc 0) s r = None" by simp
      then show ?thesis by blast
    next
      case (Some idx)
      obtain x where x: "poll_one_ogm C P S now tx idx s r = Some x" "poll C P S now tx (fst x) (snd x) = Some y"
        using run Some by (auto split: bind_splits)
      from ih [OF x(2)] obtain k where "ogm_turns C P S now tx k (fst x) (snd x) = None" by auto
      then have "ogm_turns C P S now tx (Suc k) s r = None" using Some x(1) by simp
      then show ?thesis by blast
    qed
  qed
  then show ?thesis by simp
qed

definition stuck :: "duration \<Rightarrow> trickle_timer \<Rightarrow> bool" where
  "stuck now t \<longleftrightarrow> tt_i_min t = 1 \<and> tt_i_max t = 1 \<and> tt_interval t = 1 \<and> tt_next_fire t \<le> now"

lemma jittered_one: "fst (jittered t (Suc 0)) = 0" "tt_i_min (snd (jittered t (Suc 0))) = tt_i_min t" "tt_i_max (snd (jittered t (Suc 0))) = tt_i_max t"
  "tt_interval (snd (jittered t (Suc 0))) = tt_interval t"
  using unsigned_less [of "fst (next_rand t)", where 'a = nat] by (simp_all add: jittered_def next_rand_def Let_def)

lemma stuck_steps: "stuck now (fresh_timer 0 0 now seed)" "stuck now t \<Longrightarrow> stuck now (timer_emitted t now)" "stuck now t \<Longrightarrow> stuck now (restarted t now)"
  by (auto simp: stuck_def fresh_timer_def timer_emitted_def restarted_def Let_def case_prod_beta jittered_one)

lemma stuck_turns:
  assumes "crypto_ok C" "profiles_ok P" "sound_router C P ident r" "ogm_room tx r" "i < length (ogm_timers (ce_batman r))" "stuck now (ogm_timers (ce_batman r) ! i)"
    and "clock_fits now (ogm_timers (ce_batman r))"
  shows "ogm_turns C P (staging ok) now tx k s r \<noteq> None"
  using assms(3-7)
proof (induction k arbitrary: r s)
  case (Suc k)
  have "i \<in> due_set now (ogm_timers (ce_batman r))" using Suc.prems(3,4) by (simp add: due_set_def stuck_def Trickle.due_def)
  then obtain idx where idx: "due_interface (ce_batman r) now = Some idx" using due_interface_set(1) by fastforce
  from assms(1,2) Suc.prems(1,2,5) obtain new r1 ts where step: "poll_one_ogm C P (staging ok) now tx idx s r = Some (s @ new, r1)"
      "sound_router C P ident r1" "ogm_room tx r1" "ts \<in> {ogm_timers (ce_batman r), map (\<lambda>t. restarted t now) (ogm_timers (ce_batman r))}"
      "ogm_timers (ce_batman r1) = ts[idx := timer_emitted (ts ! idx) now]" "clock_fits now (ogm_timers (ce_batman r1))"
    by (rule poll_one_ogm_run)
  have "stuck now (ts ! i)" "i < length ts" using step(4) Suc.prems(3,4) stuck_steps(3) by auto
  then have "i < length (ogm_timers (ce_batman r1))" "stuck now (ogm_timers (ce_batman r1) ! i)"
    using stuck_steps(2) by (auto simp: step(5) nth_update_if)
  from Suc.IH [OF step(2,3) this step(6)] show ?case by (simp add: idx step(1))
qed simp

text \<open>
  C9. A zero interval hangs the driver. Trickle bounds of zero, which the management plane accepts for any
  registered interface, make the poll for due announcements run for ever at the instant they are applied:
  every turn of the loop returns, but the interface stays due, so the loop never does. The clock reading has
  room for every timer's longest interval, so that no turn overflows.
\<close>

theorem zero_interval_never_returns:
  assumes "crypto_ok C" "profiles_ok P" "sound_router C P ident r" "idx < ce_iface_count r" "ogm_room tx r"
    and "clock_fits now (ogm_timers (ce_batman r))" "now < DURATION_MAX"
  shows "\<exists>r'. apply_runtime_trickle_config P idx 0 0 now r = Some (True, r')
    \<and> (\<forall>k. ogm_turns C P (staging ok) now tx k s r' \<noteq> None) \<and> poll_due_ogms C P (staging ok) now tx s r' = None"
proof -
  note d = sound_routerD [OF assms(3)]
  obtain r1 where r1: "router_configure_ogm P idx 0 0 now r = Some r1" "evolves C P r r1"
    using configure_result(1) [where P = P and idx = idx and i_min = 0 and i_max = 0 and now = now and r = r and C = C] assms(7)
    by (auto split: option.splits)
  have lim: "idx < max_interfaces (cp_engine P)" using assms(4) d(3) by (simp add: rest_ok_def)
  define r' where "r' = r1\<lparr>ce_runtime_config_active := True\<rparr>"
  have "evolves C P r1 r'" by (rule evolves_rest) (simp_all add: r'_def rest_ok_def)
  then have inv': "sound_router C P ident r'" by (rule evolves_sound [OF assms(1,2) evolves_sound [OF assms(1-3) r1(2)]])
  let ?t = "fresh_timer 0 0 now (jitter_seed (self_ident (ce_batman r)) idx 0)" and ?ts = "ogm_timers (ce_batman r)"
  have ts: "ce_batman r' = (ce_batman r)\<lparr>ogm_timers := (?ts @ replicate (Suc idx - length ?ts) ?t)[idx := ?t]\<rparr>"
    using r1(1) lim by (auto simp: router_configure_ogm_def configure_interface_ogm_eq ogm_configured_def Let_def r'_def touch_iface_def split: if_splits)
  have st: "idx < length (ogm_timers (ce_batman r'))" "stuck now (ogm_timers (ce_batman r') ! idx)" by (simp_all add: ts stuck_steps(1))
  have fit: "clock_fits now (ogm_timers (ce_batman r'))"
    using assms(6,7) by (auto simp: ts clock_fits_def list_all_iff DURATION_MAX_def dest!: set_update_subset_insert [THEN subsetD])
  have "ogm_room tx r'" using assms(5) by (simp add: ogm_room_def ts)
  note turns = stuck_turns [OF assms(1,2) inv' this st fit, of ok _ s]
  then have "poll_due_ogms C P (staging ok) now tx s r' = None" using poll_returns_turns by (metis not_Some_eq)
  with turns r1(1) assms(4) show ?thesis by (simp add: apply_runtime_trickle_config_def r'_def)
qed

section \<open>Challenges\<close>

definition waiting :: "duration \<Rightarrow> batman_engine \<Rightarrow> mac set" where
  "waiting now e = {m \<in> set (offered_neighbors e). challenge_due e now m}"

text \<open>The table of challenges has room for every neighbour that offers a path, and the retry floor is not zero.\<close>

definition challenge_room :: "profile \<Rightarrow> batman_engine \<Rightarrow> bool" where
  "challenge_room P e \<longleftrightarrow> card (set (offered_neighbors e) \<union> set (im_keys (challenged e))) \<le> max_originators P \<and> challenge_floor_ms e \<noteq> 0"

lemma finite_waiting [simp]: "finite (waiting now e)"
  by (simp add: waiting_def)

lemma note_challenged_frame:
  "offered_neighbors (note_challenged P now m e) = offered_neighbors e" "seed_interval_ms (note_challenged P now m e) = seed_interval_ms e"
  "challenge_floor_ms (note_challenged P now m e) = challenge_floor_ms e" "challenge_backoff_ms (note_challenged P now m e) n = challenge_backoff_ms e n"
  "proof_needs_refresh (note_challenged P now m e) t k = proof_needs_refresh e t k"
  by (simp_all add: note_challenged_def Let_def offered_neighbors_def seed_interval_ms_def challenge_floor_ms_def challenge_backoff_ms_def proof_needs_refresh_def)

lemma note_challenged_waiting:
  assumes "profile_ok P" "engine_ok P e" "challenge_room P e" "m \<in> set (offered_neighbors e)"
  shows "challenge_room P (note_challenged P now m e)" "waiting now (note_challenged P now m e) = waiting now e - {m}"
proof -
  let ?ks = "set (im_keys (challenged e))" and ?e = "note_challenged P now m e"
  have ok: "im_ok (max_originators P) (challenged e)" using assms(2) by (simp add: engine_ok_def)
  have "length (challenged e) < max_originators P \<or> im_contains (challenged e) m"
  proof (cases "m \<in> ?ks")
    case False
    have "length (challenged e) = card ?ks" using ok distinct_card [of "im_keys (challenged e)"] by (simp add: im_ok_def im_keys_def)
    also have "\<dots> < card (set (offered_neighbors e) \<union> ?ks)" using False assms(4) by (intro psubset_card_mono) (auto simp:)
    finally show ?thesis using assms(3) by (simp add: challenge_room_def)
  qed (simp add: im_contains_iff)
  note room = insert_evicting_room [OF assms(1) ok this]
  define n where "n = (case im_get (challenged e) m of None \<Rightarrow> 0 | Some (_, n) \<Rightarrow> saturating_add n 1)"
  have get: "im_get (challenged ?e) = (im_get (challenged e))(m \<mapsto> (from_duration now, n))"
    using room(2) by (simp add: note_challenged_def Let_def n_def)
  have "set (im_keys (challenged ?e)) = insert m ?ks"
    by (rule set_eqI) (simp add: get im_contains_def flip: im_contains_iff)
  with assms(3,4) show "challenge_room P ?e" by (simp add: challenge_room_def note_challenged_frame insert_absorb)
  have fl: "0 < unat (challenge_floor_ms e)" "challenge_floor_ms e \<noteq> 0" using assms(3) by (simp_all add: challenge_room_def unat_gt_0)
  have "unat (challenge_floor_ms e) \<le> unat (seed_interval_ms e)" by (simp add: challenge_floor_ms_def flip: word_le_nat_alt)
  with fl have "0 < challenge_backoff_ms e n" by (simp add: word_less_nat_alt unat_challenge_backoff_ms)
  then show "waiting now ?e = waiting now e - {m}" by (auto simp: waiting_def challenge_due_def note_challenged_frame get split: if_splits option.splits)
qed

lemma challenge_everywhere_staged:
  obtains new where "challenge_everywhere (staging ok) f n r s = s @ new" "\<forall>g\<in>set new. og_dst g = fd_dst f" "distinct (map og_egress new)"
proof -
  have "\<exists>new. fold (\<lambda>idx s. snd (ms_emit (staging ok) s (outgoing f (EgressIface idx)))) is s = s @ new
      \<and> (\<forall>g\<in>set new. og_dst g = fd_dst f \<and> og_egress g \<in> EgressIface ` set is) \<and> distinct (map og_egress new)" if "distinct is" for "is"
    using that
  proof (induction "is" arbitrary: s)
    case (Cons i "is")
    let ?f = "outgoing f (EgressIface i)"
    obtain s1 new0 where s1: "snd (ms_emit (staging ok) s ?f) = s @ new0" "new0 = [] \<or> new0 = [?f]" by (cases "ok s ?f") (auto simp: staging_def)
    from Cons.IH [of "s @ new0"] Cons.prems obtain new where new:
        "fold (\<lambda>idx s. snd (ms_emit (staging ok) s (outgoing f (EgressIface idx)))) is (s @ new0) = (s @ new0) @ new"
        "\<forall>g\<in>set new. og_dst g = fd_dst f \<and> og_egress g \<in> EgressIface ` set is" "distinct (map og_egress new)" by auto
    show ?case by (rule exI [of _ "new0 @ new"]) (use s1 new Cons.prems in \<open>force simp: outgoing_def\<close>)
  qed simp
  from this [of "filter (\<lambda>idx. link_may_tx idx (Some NextHopChallenge) r) [0..<n]"] that show thesis
    by (auto simp: challenge_everywhere_def)
qed

lemma poll_challenge_step:
  assumes "crypto_ok C" "profiles_ok P" "sound_router C P ident r" "challenge_room (cp_engine P) (ce_batman r)"
  obtains (stop) r' where "poll_challenge C P now tx r = Some (None, r')" "sound_router C P ident r'"
  | (one) m f r' where "poll_challenge C P now tx r = Some (Some (m, f), r')" "sound_router C P ident r'" "fd_dst f = m"
      "m \<in> waiting now (ce_batman r)" "challenge_room (cp_engine P) (ce_batman r')" "waiting now (ce_batman r') = waiting now (ce_batman r) - {m}"
proof -
  note d = sound_routerD [OF assms(3)]
  obtain x r' where p: "poll_challenge C P now tx r = Some (x, r')" "evolves C P r r'" using poll_challenge_result [OF assms(1) d(4)] by blast
  have inv: "sound_router C P ident r'" by (rule evolves_sound [OF assms(1-3) p(2)])
  show thesis
  proof (cases x)
    case None
    with p(1) inv stop show thesis by simp
  next
    case (Some y)
    obtain m f where y: "y = (m, f)" by (cases y)
    with Some p(1) have c: "\<exists>ms. challenge_candidates (cp_engine P) (ce_batman r) now = m # ms" "fd_dst f = m"
        "ce_batman r' = note_challenged (cp_engine P) now m (ce_batman r)"
      by (auto simp: poll_challenge_def build_challenge_frame_def Let_def split: if_splits list.splits option.splits)
    then have "m \<in> set (challenge_candidates (cp_engine P) (ce_batman r) now)" by auto
    then have m: "m \<in> set (offered_neighbors (ce_batman r))" "challenge_due (ce_batman r) now m"
      using candidates_loop_sound unfolding challenge_candidates_def by blast+
    have "profile_ok (cp_engine P)" using assms(2) by (simp add: profiles_ok_def)
    from note_challenged_waiting [OF this d(1) assms(4) m(1), of now] m show thesis
      by (intro one [of m f r']) (simp_all add: c p(1) Some y inv waiting_def)
  qed
qed

text \<open>
  Each neighbour is challenged once. On any sound router (every router the calls reach is one) with room in the table of
  challenges for every neighbour that offers a path and a retry floor above zero, polling for due challenges
  returns: every challenge that leaves goes to a neighbour that was waiting for one, at most once on each
  interface.
\<close>

theorem challenges_sent_once:
  assumes "crypto_ok C" "profiles_ok P" "sound_router C P ident r" "challenge_room (cp_engine P) (ce_batman r)"
  shows "\<exists>new r'. poll_due_challenges C P (staging ok) now tx ifaces s r = Some (s @ new, r')
    \<and> og_dst ` set new \<subseteq> waiting now (ce_batman r) \<and> distinct (map (\<lambda>f. (og_dst f, og_egress f)) new)"
  using assms(3,4)
proof (induction "card (waiting now (ce_batman r))" arbitrary: r s rule: less_induct)
  case less
  from assms(1,2) less.prems show ?case
  proof (cases rule: poll_challenge_step [where now = now and tx = tx])
    case (stop r')
    then have "poll_due_challenges C P (staging ok) now tx ifaces s r = Some (s, r')" by (subst poll_due_challenges.simps) simp
    then show ?thesis by (intro exI [of _ "[]"] exI [of _ r']) simp
  next
    case (one m f r1)
    obtain new where new: "challenge_everywhere (staging ok) f ifaces r1 s = s @ new" "\<forall>g\<in>set new. og_dst g = m" "distinct (map og_egress new)"
      using one(3) challenge_everywhere_staged [of ok f ifaces r1 s] by metis
    have "card (waiting now (ce_batman r1)) < card (waiting now (ce_batman r))" using one(4) unfolding one(6) by (intro psubset_card_mono) auto
    from less.hyps [OF this one(2,5), of "s @ new"] obtain new' r' where
      ih: "poll_due_challenges C P (staging ok) now tx ifaces (s @ new) r1 = Some ((s @ new) @ new', r')"
        "og_dst ` set new' \<subseteq> waiting now (ce_batman r1)" "distinct (map (\<lambda>f. (og_dst f, og_egress f)) new')" by blast
    have "poll_due_challenges C P (staging ok) now tx ifaces s r = Some (s @ new @ new', r')"
      by (subst poll_due_challenges.simps) (simp add: one(1) new(1) ih(1))
    moreover have "distinct (map (\<lambda>f. (og_dst f, og_egress f)) new)" using new(3) by (auto simp: distinct_map inj_on_def)
    then have "distinct (map (\<lambda>f. (og_dst f, og_egress f)) (new @ new'))"
      using ih(2,3) new(2) one(6) by fastforce
    moreover have "og_dst ` set (new @ new') \<subseteq> waiting now (ce_batman r)" using ih(2) new(2) one(4,6) by auto
    ultimately show ?thesis by (intro exI [of _ "new @ new'"] exI [of _ r']) simp
  qed
qed

section \<open>Examples\<close>

text \<open>A router with one interface, announcing every second.\<close>

definition armed_router :: central_router where
  "armed_router = (let r = router_with_capacities sample_router_profile (Mac 2 0 0 0 0 7)
     in r\<lparr>ce_batman := (ce_batman r)\<lparr>ogm_timers := [fresh_timer 1000000000 64000000000 0 (jitter_seed (Mac 2 0 0 0 0 7) 0 0)]\<rparr>, ce_iface_count := 1\<rparr>)"

lemma armed_router_reached: "router_reachable toy_crypto sample_router_profile (Mac 2 0 0 0 0 7) armed_router"
proof (rule called [OF started])
  show "router_call_ok toy_crypto sample_router_profile (ConfigOgm 0 1000000000 64000000000 0)" by simp
  show "router_perform toy_crypto sample_router_profile (ConfigOgm 0 1000000000 64000000000 0)
      (router_with_capacities sample_router_profile (Mac 2 0 0 0 0 7)) = Some armed_router"
    by (simp add: armed_router_def router_configure_ogm_def configure_interface_ogm_eq ogm_configured_def fits_bounds(2) DURATION_MAX_def Let_def
        router_with_capacities_def engine_new_def touch_iface_def sample_router_profile_def default_profile_def MAX_INTERFACES_def)
qed

lemmas armed_router_sound = reachable_sound [OF toy_crypto_ok sample_profiles_ok armed_router_reached]

lemma armed_router_parts:
  "list_all timer_sane (ogm_timers (ce_batman armed_router))" "keepalive_timers (ce_batman armed_router) = []" "ce_iface_count armed_router = 1"
  "ogm_room (replicate 64 0) armed_router" "length (ogm_timers (ce_batman armed_router)) = 1" "clock_fits 5 (ogm_timers (ce_batman armed_router))"
  by (simp_all add: armed_router_def Let_def timer_sane_def router_with_capacities_def engine_new_def ogm_room_def own_tail_def OGM_SIZE_def
      clock_fits_def DURATION_MAX_def)

theorem due_interfaces_served_once_witness:
  "\<exists>ogms r1 beats r2. poll_due_ogms toy_crypto sample_router_profile (staging (\<lambda>_ _. True)) 2000000000 (replicate 64 0) [] armed_router = Some (ogms, r1)
     \<and> poll_due_keepalives toy_crypto (staging (\<lambda>_ _. True)) 2000000000 (replicate 64 0) ogms r1 = Some (ogms @ beats, r2)
     \<and> due_interface (ce_batman r2) 2000000000 = None \<and> distinct (map og_egress ogms) \<and> og_egress ` set ogms \<subseteq> {EgressIface 0} \<and> beats = []"
proof -
  have "EgressIface ` due_set 2000000000 (ogm_timers (ce_batman armed_router)) \<subseteq> {EgressIface 0}" by (auto simp: due_set_def armed_router_parts)
  moreover have "ka_due_set 2000000000 (keepalive_timers (ce_batman armed_router)) = {}" by (simp add: ka_due_set_def armed_router_parts)
  ultimately show ?thesis
    using due_interfaces_served_once [OF toy_crypto_ok sample_profiles_ok armed_router_sound armed_router_parts(4,1), of 2000000000 "\<lambda>_ _. True" "[]"]
    by (simp add: armed_router_parts(2) DURATION_MAX_def) (meson order_trans)
qed

theorem zero_interval_never_returns_witness:
  "\<exists>r. apply_runtime_trickle_config sample_router_profile 0 0 0 5 armed_router = Some (True, r)
     \<and> poll_due_ogms toy_crypto sample_router_profile (staging (\<lambda>_ _. True)) 5 (replicate 64 0) [] r = None"
  using zero_interval_never_returns [OF toy_crypto_ok sample_profiles_ok armed_router_sound _ armed_router_parts(4,6), of 0 "\<lambda>_ _. True" "[]"]
  by (auto simp: armed_router_parts DURATION_MAX_def)

lemma offering_router_room: "challenge_room (cp_engine sample_router_profile) (ce_batman (offering_router [] 4 8))"
  "waiting 0 (ce_batman (offering_router [] 4 8)) \<subseteq> {own_mac (demo_peer 8 4)}"
proof -
  let ?e = "ce_batman (offering_router [] 4 8)"
  have offered: "offered_neighbors ?e = [own_mac (demo_peer 8 4)]"
    by (simp add: offered_neighbors_def offering_router_def Let_def sample_path_def)
  then show "waiting 0 ?e \<subseteq> {own_mac (demo_peer 8 4)}" by (auto simp: waiting_def)
  have parts: "challenged ?e = []" "ogm_timers ?e = []" "keepalive_timers ?e = []"
    by (simp_all add: offering_router_def Let_def demo_router_def set_auth_def router_with_capacities_def engine_reset_def set_require_proof_def engine_new_def)
  have "challenge_floor_ms ?e \<noteq> 0"
    by (simp add: challenge_floor_ms_def seed_interval_ms_def parts iter_min_def iter_max_def DEFAULT_OGM_INTERVAL_def as_millis_u32_def)
  then show "challenge_room (cp_engine sample_router_profile) ?e"
    by (simp add: challenge_room_def offered parts im_keys_def sample_router_profile_def default_profile_def)
qed

theorem challenges_sent_once_witness:
  "\<exists>new r'. poll_due_challenges toy_crypto sample_router_profile (staging (\<lambda>_ _. True)) 0 (replicate 64 0) 2 [] (offering_router [] 4 8) = Some (new, r')
     \<and> og_dst ` set new \<subseteq> {own_mac (demo_peer 8 4)} \<and> distinct (map (\<lambda>f. (og_dst f, og_egress f)) new)"
  using challenges_sent_once [OF toy_crypto_ok sample_profiles_ok offering_router_sound [OF demo_challenge(4)] offering_router_room(1),
      of "\<lambda>_ _. True" 0 "replicate 64 0" 2 "[]"] offering_router_room(2)
  by simp (meson order_trans)

end
