(* ===== verification/Spec2Isabelle.thy ===== *)
theory Spec2Isabelle
  imports Mesh Radio_Media Ble Cert_Exchange Driver_Polls
begin

text \<open>
  \<^bold>\<open>Wayfinder: a verification of the mesh router\<close>

  Wayfinder (\<^verbatim>\<open>src/\<close>) routes Ethernet frames over a mesh of radios and wires. A node is a central
  router (\<^verbatim>\<open>libs/wayfinder\<close>) around a B.A.T.M.A.N. engine (\<^verbatim>\<open>libs/batman\<close>), over link drivers that cut
  frames into fragments (\<^verbatim>\<open>libs/wayfinder-link-utils\<close>, \<^verbatim>\<open>lora-link\<close>, \<^verbatim>\<open>ieee802154\<close>, \<^verbatim>\<open>blue\<close>), with the
  shared data of \<^verbatim>\<open>libs/interfaces\<close>. Originators flood announcements (OGMs) under a Trickle timer;
  every node judges their sequence numbers, keeps up to four paths per originator, refuses next hops
  that did not prove themselves, and relays unicast, broadcast, multicast, echo and credential
  packets hop by hop. A node that holds a certificate of the mesh authority (\<^verbatim>\<open>libs/wayfinder-auth\<close>)
  signs its announcements, tags or signs the frames it sends, learns and floods revocations, fetches and
  renews certificates, and challenges its neighbours (\<^verbatim>\<open>libs/wayfinder/src/auth\<close>); the central router
  composes that authenticator with the engine.

  \<^bold>\<open>Conventions.\<close> Machine integers are words, so arithmetic wraps as in the release build; where the
  source would panic on overflow or out of range, the definition returns \<open>None\<close>. A function result
  of type \<open>'a option\<close> whose code cannot fail by itself uses \<open>None\<close> for a panic, and theorems that it
  is \<open>Some\<close> state that there is none. \<^verbatim>\<open>Result\<close> is a sum with the error on the left. \<^verbatim>\<open>Duration\<close> is a
  natural number of nanoseconds whose sums and products panic above \<open>DURATION_MAX\<close> (\<open>dur_add\<close>, \<open>dur_mul\<close>);
  the operations on timers and probe sessions are rewritten to total functions under exact conditions
  (\<open>emit_fits\<close>, \<open>reset_fits\<close>, \<open>new_fits\<close>), and the theorems about calls name the readings at which
  they panic (\<open>past_duration_max\<close>, \<open>router_overflows\<close>). \<^verbatim>\<open>Millis\<close> is the wrapping 32-bit clock. Mutable state is a record
  passed through; a buffer the caller lends is an argument and a result. Packed zerocopy headers are
  records with byte-exact writers and readers. Const-generic capacities are the fields of a profile
  record, so theorems hold for every profile that the source's compile-time assertions admit, with
  interpretations at the defaults. \<^verbatim>\<open>heapless::IndexMap::swap_remove\<close> reorders the map in a way its
  documentation leaves to the implementation: the reordering is a parameter with the law
  \<open>swap_remove_law\<close>. Tracing has no effect on state and is left out.

  \<^bold>\<open>Theories, in the order the code has them.\<close>
  \<^item> \<open>Prelude\<close>: widths, checked and saturating arithmetic, byte order, slices and buffer copies, with the
    collections of simplification rules the components share.
  \<^item> \<open>Heapless\<close>: bounded vectors and index maps; the locales \<open>index_map\<close> and \<open>heapless_map\<close> state the laws the tables
    rely on.
  \<^item> \<open>Millis\<close> (\<^verbatim>\<open>interfaces/time.rs\<close>), \<open>Frame\<close> (\<^verbatim>\<open>interfaces/frame.rs\<close>, \<^verbatim>\<open>engine.rs\<close>, \<^verbatim>\<open>wire.rs\<close>), \<open>Link\<close>
    (\<^verbatim>\<open>interfaces/link.rs\<close>): clock, addresses, link frames, routing actions, frame sinks, errors.
  \<^item> \<open>Seqno\<close> (\<^verbatim>\<open>batman/lib.rs\<close>): classification of sequence numbers across wrap-around and admission
    with the resynchronisation watch.
  \<^item> \<open>Trickle\<close> (\<^verbatim>\<open>batman/trickle.rs\<close>): the timer with its pseudo-random jitter.
  \<^item> \<open>Wire\<close>, \<open>Tvlv\<close>, \<open>Mcast_Wire\<close> (\<^verbatim>\<open>batman/wire.rs\<close>): headers (locale \<open>wire_header\<close>, interpreted on each
    codec), type-length-value records and the multicast packet.
  \<^item> \<open>Engine_State\<close>, \<open>Routing\<close>, \<open>Proof_Gate\<close>, \<open>Emission\<close>, \<open>Ogm_Handler\<close>, \<open>Data_Plane\<close>
    (\<^verbatim>\<open>batman/lib.rs\<close>, \<^verbatim>\<open>batman/engine.rs\<close>): the engine record and its tables; staleness, next-hop choice and
    the sweep; challenges, proofs and revocation; timers, memberships and periodic broadcasts; the OGM
    handler; every other packet handler and the dispatcher \<open>handle_rx\<close>.
  \<^item> \<open>Lifecycle\<close>: the step relation of all public calls and its reachable states.
  \<^item> \<open>Mesh\<close>: the central router's forward of a consumed frame (\<^verbatim>\<open>wayfinder/lib.rs\<close>) and networks of
    nodes relaying to each other.
  \<^item> \<open>Ident_Table\<close> (\<^verbatim>\<open>wayfinder/routing_table.rs\<close>): the egress cache as a doubly linked list in arrays,
    refining the abstract cache of locale \<open>lru_cache\<close>.
  \<^item> \<open>Link_Quality\<close> (\<^verbatim>\<open>wayfinder/link_quality.rs\<close>): the smoothed quality per neighbour and interface.
  \<^item> \<open>Ping\<close> (\<^verbatim>\<open>wayfinder/ping.rs\<close> and its entry points in \<^verbatim>\<open>wayfinder/lib.rs\<close>): probe sessions.
  \<^item> \<open>Fragment\<close> (\<^verbatim>\<open>wayfinder-link-utils\<close>), \<open>Radio_Media\<close> (\<^verbatim>\<open>lora-link\<close>, \<^verbatim>\<open>ieee802154\<close>; locale
    \<open>fragment_medium\<close> interpreted on both) and \<open>Ble\<close> (\<^verbatim>\<open>blue\<close>: \<^verbatim>\<open>ad.rs\<close>, \<^verbatim>\<open>mode.rs\<close>, \<^verbatim>\<open>frame.rs\<close>,
    \<^verbatim>\<open>generic_link.rs\<close>).
  \<^item> \<open>Auth_Time\<close> (\<^verbatim>\<open>wayfinder-auth/clock.rs\<close>, \<^verbatim>\<open>wayfinder-clock-trust\<close>), \<open>Cert\<close> (\<^verbatim>\<open>wayfinder-auth\<close>:
    \<^verbatim>\<open>key.rs\<close>, \<^verbatim>\<open>mac.rs\<close>, \<^verbatim>\<open>cert.rs\<close>, \<^verbatim>\<open>revoke.rs\<close>, \<^verbatim>\<open>pairwise.rs\<close>, \<^verbatim>\<open>authority.rs\<close>): what a node may
    claim about the time; identities, certificates and revocation records. The cryptographic primitives are the
    record \<open>crypto\<close> with the laws \<open>crypto_ok\<close>; \<open>toy_crypto\<close> shows that they can hold.
  \<^item> \<open>Auth_State\<close>, \<open>Pairwise\<close>, \<open>Revocation\<close>, \<open>Challenge\<close>, \<open>Ogm_Envelope\<close>, \<open>Cert_Fetch\<close>, \<open>Renewal\<close>
    (\<^verbatim>\<open>wayfinder/src/auth\<close>): the authenticator, file by file. \<open>Auth_Trust\<close>, \<open>Auth_Lifecycle\<close>: its
    invariant and its reachable states. \<open>Revocation_Flood\<close>, \<open>Ogm_Exchange\<close>, \<open>Frame_Exchange\<close>,
    \<open>Cert_Exchange\<close>: two authenticators talking to each other.
  \<^item> \<open>Central_Router\<close> (\<^verbatim>\<open>wayfinder/lib.rs\<close>, \<^verbatim>\<open>features.rs\<close>): the router itself, receive path, polls,
    local sends and credentials. \<open>Router_Lifecycle\<close>: its calls, reachable states and invariant.
    \<open>Router_Safety\<close>, \<open>Router_Exchange\<close>: what the composition guarantees, on one router and between two.
  \<^item> \<open>Driver_Core\<close> (\<^verbatim>\<open>wayfinder-driver-core\<close>): the planning logic every driver shares, over a sink
    \<open>mesh_sink\<close> that stands for a shell's staging. \<open>Driver_Safety\<close>: proofs around the router, targets,
    multicast merging. \<open>Driver_Polls\<close>: the periodic polls.
  \<^item> This theory: properties of the engine that span components.

  \<^bold>\<open>What is shown.\<close> Receiving any bytes never loops or breaks the engine's invariant, and panics only when
  the clock is at the end of what \<^verbatim>\<open>Duration\<close> holds; every engine reachable by public calls is well-formed.
  Sequence numbers are judged exactly. Forwarding picks the best fresh proven path; a sweep changes no decision
  while no proof or keep-alive stamp is a day old; revoked addresses are never used.
  A re-flooded OGM is not re-flooded again in any run of up to sixteen million calls in which its originator keeps its record and
  does not resynchronise; re-floods carry every record of the announcement byte for byte but the stamp of the
  previous hop, and never go back to where they came from;
  announcements establish routes and memberships at the receiver. Unicasts arrive unchanged along
  consistent next hops and are relayed at most TTL times even in a loop; multicasts partition their
  destinations; broadcasts are delivered once. Fragmented frames are reassembled exactly, under any
  order, repetition and interleaving of as many messages as the table holds, for each medium; over BLE this is
  shown for streams of any length between two links, with losses. The
  egress table is a least-recently-used cache. Probe sessions account for every probe and end.

  What the authenticator trusts was vouched for by the mesh root; accepted announcements are authentic, frames
  are accepted once and counters never reused; announcements verify at every node of the mesh, revocations
  flood, converge and take effect; certificate fetches, renewals and restarts of a peer complete. The
  router keeps the invariants of all its parts over every sequence of calls. It is inert while locked, stays
  down once revoked until re-admitted, hands no unverified announcement or heartbeat to the engine, credits
  a proof only for an answered challenge, links what it sends only to proven next hops (the interface it then
  leaves on is looked up for that next hop again, and \<open>egress_leaves_the_proven_interface\<close> shows that it need not be
  the one the proof came in on), and a challenge between two routers that know each other opens the hop.

  A driver sends no frame without the proof its type demands and lets none in that fails it; what it plans
  crosses a link to a neighbour once and unchanged, and leaves on exactly the right interfaces; merging
  multicast copies loses no destination uncounted. Its polls serve every due interface and neighbour once and
  return, unless an interval of zero was configured: then they never do.

  \<^bold>\<open>Loops and fuel.\<close> Loops over data are recursive functions with termination proofs. Two loops whose
  termination depends on the table (\<open>backfill\<close> and \<open>drop_members\<close>) are
  \<^verbatim>\<open>partial_function (option)\<close> and are shown to return; so are the polls of a driver, which are shown to
  return under the conditions above. A driver that waits for deadlines is a
  recursion over its turns, with a proved bound on the turns that suffice.

  \<^bold>\<open>Not modelled.\<close> The primitives of the cryptography (third-party code: a parameter); key generation
  from the entropy of the operating system; floating-point throughput and send-rate gauges; the
  asynchronous shells and register-level drivers (I/O); alarms; the management plane, generated protocol bindings, front ends, simulators and tests.
\<close>

section \<open>Shared facts\<close>

lemma own_tail_no_stamp:
  assumes "6 * length gs < 2 ^ 16"
  shows "prev_sender (own_tail gs) = None"
  using find_tvlv_parse [OF own_tail_parse [OF assms], of TvPrevSender] by (simp add: prev_sender_def)

lemma own_ogm_accepted:
  assumes "6 * length (local_mcast a) + TVLV_HDR_LEN < 2 ^ 16" "self_ident a \<noteq> self_ident b"
    and "lf_payload frame = ogm_write (own_ogm a) @ own_tail (local_mcast a)"
  shows "ogm_accepted b frame (own_ogm a) (own_tail (local_mcast a))"
proof -
  have "unat (ogm_tvlv_len (own_ogm a)) = length (own_tail (local_mcast a))"
    using assms(1) by (simp add: own_ogm_def unat_of_nat own_tail_def header_sizes)
  with assms own_tail_no_stamp [of "local_mcast a"] show ?thesis
    by (simp add: ogm_accepted_def ogm_codec.read_write) (simp add: own_ogm_def)
qed

lemma handle_rx_ogm:
  assumes "lf_protocol frame = ETH_P_BATMAN" "lf_payload frame = ogm_write h @ rest"
    and "ogm_packet_type h = packet_type_as_u8 Ogm" "ogm_version h = BATMAN_VERSION"
  shows "handle_rx P push now frame q reply s e =
    map_option (\<lambda>(act, reply, e). (act, reply, s, e)) (handle_ogm P now frame q reply e)"
  using assms packet_type_roundtrip [of Ogm]
  by (cases "handle_ogm P now frame q reply e") (auto simp: handle_rx_def Let_def ogm_write_def)

text \<open>What the router puts on the wire after a re-flood: the staged OGM, cut at its stated length.\<close>

lemma reflood_on_wire:
  assumes "profile_ok P" "engine_ok P b" "handle_rx P push now frame q (scratchpad buf) s b = Some (act, reply, s', b')"
    and "frame_packet_type frame = Some Ogm" "consumed_forward (Some Ogm) tx_data frame reply = Some f"
  obtains h tail where "fd_protocol f = ETH_P_BATMAN" "ogm_read (fd_payload f) = Some (h, tail)"
    "ogm_packet_type h = packet_type_as_u8 Ogm" "ogm_version h = BATMAN_VERSION"
    "prev_sender (take (unat (ogm_tvlv_len h)) tail) = Some (lf_src frame)"
proof -
  have scratch: "fd_protocol (scratchpad buf) = 0" by (simp add: scratchpad_def)
  have proto: "fd_protocol reply \<noteq> 0" using assms(5) by (auto simp: consumed_forward_def split: if_splits)
  have ty: "packet_type_from_u8 (lf_payload frame ! 0) = Some Ogm" "lf_payload frame \<noteq> []"
    using assms(4) by (auto simp: frame_packet_type_def split: if_splits list.splits)
  have hogm: "handle_ogm P now frame q (scratchpad buf) b = Some (act, reply, b')"
    and ver: "lf_payload frame ! 1 = BATMAN_VERSION"
    using assms(3) proto scratch ty(1)
    by (auto simp: handle_rx_def Let_def split: if_splits bind_splits prod.splits)
  obtain ogm rest where read: "ogm_read (lf_payload frame) = Some (ogm, rest)"
    using hogm proto scratch by (auto simp: handle_ogm_def split: option.splits)
  have hdr: "ogm_packet_type ogm = packet_type_as_u8 Ogm" "ogm_version ogm = BATMAN_VERSION"
    using ogm_codec.write_read [OF read] ver ty(1) by (simp_all add: ogm_write_def packet_type_from_u8_Some)
  have bat: "fd_protocol reply = ETH_P_BATMAN" "fd_protocol (scratchpad buf) \<noteq> ETH_P_BATMAN"
    using handle_ogm_protocol [OF assms(1,2) hogm] proto scratch by (auto simp: ETH_P_BATMAN_def)
  obtain n rest' where out: "ogm_read (fd_payload reply) = Some (ogm\<lparr>ogm_ttl := ogm_ttl ogm - 1,
        ogm_tq := attenuated_tq (ogm_tq ogm) q, ogm_tvlv_len := n\<rparr>, rest')" "unat n \<le> length rest'"
      "prev_sender (take (unat n) rest') = Some (lf_src frame)"
    using reflooded_fields [OF assms(1,2) read hogm bat(2,1)] by blast
  define h where "h = ogm\<lparr>ogm_ttl := ogm_ttl ogm - 1, ogm_tq := attenuated_tq (ogm_tq ogm) q, ogm_tvlv_len := n\<rparr>"
  have payload: "fd_payload reply = ogm_write h @ rest'"
    unfolding h_def by (rule ogm_codec.write_read [OF out(1)])
  have "reply_ogm_wire_len reply = Some (OGM_SIZE + unat n)"
    using out(1,2) hdr(1) by (simp add: reply_ogm_wire_len_def payload)
  then have "fd_payload f = ogm_write h @ take (unat n) rest'" "fd_protocol f = ETH_P_BATMAN"
    using assms(5) bat(1) by (auto simp: consumed_forward_def payload split: if_splits)
  then show thesis
    using out(3) hdr by (intro that [of h "take (unat n) rest'"]) (simp_all add: ogm_codec.read_write h_def)
qed

lemma echo_hop_pow: "unat (ec_hops ((echo_hop ^^ n) h)) = min (unat (ec_hops h) + n) 255"
proof (induction n)
  case 0
  then show ?case using unsigned_less [of "ec_hops h", where 'a = nat] by simp
next
  case (Suc n)
  then show ?case by (simp add: echo_hop_def unat_saturating_add)
qed

section \<open>Properties\<close>

text \<open>
  C12. No sequence of calls breaks the engine. Every engine the driver can reach from a new one is
  well-formed; a further call panics or diverges only where the periodic broadcast's buffer
  is too small for the frame, or where its clock reading is past what \<^verbatim>\<open>Duration\<close> can add to a timer's current
  interval (which is doubled, too) or to the interval being configured; and the node never holds a route to itself.
\<close>

theorem reachable_well_formed:
  assumes "reachable P ident e" "profile_ok P"
  shows "engine_ok P e \<and> self_ident e = ident \<and> next_hop e now ident = None
    \<and> (perform P c e = None \<longrightarrow>
        (\<exists>t buf. c = ProducePeriodic t buf \<and> length buf < OGM_SIZE + length (own_tail (local_mcast e)))
        \<or> past_duration_max c e)"
proof -
  have "engine_ok P e" by (rule reachable_ok [OF assms])
  moreover have "self_ident e = ident" "ident \<notin> set (im_keys (originator_table e))"
    using reachable_own [OF assms] by simp_all
  moreover from this have "im_get (originator_table e) ident = None"
    by (meson im_get_key option.exhaust)
  then have "next_hop e now ident = None"
    by (simp add: next_hop_def)
  ultimately show ?thesis
    using perform_ok [OF assms(2), of e c] by (auto split: option.splits)
qed

text \<open>
  The largest interval panics. A Trickle timer configured with the largest \<^verbatim>\<open>Duration\<close> as its interval
  is accepted, and the first emission doubles it past what \<^verbatim>\<open>Duration\<close> can hold.
\<close>

theorem maximal_interval_panics:
  "\<exists>e. perform sample_profile (ConfigureOgm 0 DURATION_MAX DURATION_MAX 0) (engine_new ident) = Some e
    \<and> perform sample_profile (OgmEmitted 0 0) e = None"
proof -
  have fits: "new_fits DURATION_MAX DURATION_MAX 0 seed" for seed by (rule fits_bounds) (simp add: DURATION_MAX_def)
  moreover have "tt_interval (fresh_timer DURATION_MAX DURATION_MAX 0 seed) = DURATION_MAX" for seed
    by (simp add: fresh_timer_def jittered_def next_rand_def Let_def DURATION_MAX_def split: prod.split)
  moreover have "\<not> DURATION_MAX * 2 \<le> DURATION_MAX" by (simp add: DURATION_MAX_def)
  ultimately show ?thesis
    by (simp add: timer_call_eqs ogm_configured_def emit_fits_def engine_new_def default_profile_def MAX_INTERFACES_def)
qed

text \<open>
  A node's announcements are always news. After any calls that include between one and 256
  periodic broadcasts, a neighbour whose high-water is the earlier sequence number classifies the
  later one as an advance, also where the 32-bit counter wraps.
\<close>

theorem announcements_in_window:
  assumes "profile_ok P" "engine_ok P e" "perform_all P cs e = Some e'"
    and "1 \<le> length (filter is_announcement cs)" "length (filter is_announcement cs) \<le> 256"
  shows "classify OGM_BANDS (sequence_number e) (sequence_number e') = Advance"
proof -
  let ?n = "length (filter is_announcement cs)"
  have "sequence_number e' - sequence_number e = word_of_nat ?n"
    using perform_all_seqno [OF assms(1-3)] by simp
  moreover have "unat (word_of_nat ?n :: u32) = ?n"
    using assms(5) by (simp add: unat_of_nat)
  ultimately show ?thesis
    using assms(4,5) ogm_space.classify_Advance_iff [of "sequence_number e" "sequence_number e'"]
    by (auto simp: OGM_BANDS_def)
qed

text \<open>
  C14. Discovery end to end. When a node's periodic broadcast reaches a neighbour that does not know
  it and whose proof gate admits it, at a clock reading its timers can add to, the neighbour consumes it, routes to the node directly from
  that moment, and lists it for each multicast group it announced, as far as its membership
  table has room.
\<close>

theorem announcement_discovers:
  assumes "profile_ok P" "engine_ok P b" "produce_periodic_broadcast t buf a = Some (bs, buf', a')"
    and "6 * length (local_mcast a) + TVLV_HDR_LEN < 2 ^ 16" "self_ident a \<noteq> self_ident b"
    and "frame = \<lparr>lf_dst = BROADCAST, lf_src = self_ident a, lf_protocol = ETH_P_BATMAN, lf_payload = bs\<rparr>"
    and "proof_current b now (self_ident a)" "\<not> im_contains (originator_table b) (self_ident a)" "\<not> overflows now b"
  shows "\<exists>reply' b'. handle_rx P push now frame q reply s b = Some (Consumed, reply', s, b') \<and> engine_ok P b'
    \<and> next_hop b' now (self_ident a) = Some (self_ident a)
    \<and> map fst (filter (\<lambda>x. snd x = self_ident a) (mcast_members b')) =
        take (max_mcast_members P - size (filter_mset (\<lambda>x. snd x \<noteq> self_ident a) (mset (mcast_members b)))) (local_mcast a)"
proof -
  have bs: "lf_payload frame = ogm_write (own_ogm a) @ own_tail (local_mcast a)"
    using assms(3,6) by (auto simp: produce_periodic_broadcast_eq Let_def split: if_splits)
  note acc = own_ogm_accepted [OF assms(4,5) bs]
  have orig: "ogm_orig (own_ogm a) = self_ident a" "lf_src frame = self_ident a"
    using assms(6) by (simp_all add: own_ogm_def)
  obtain reply' b' b1 where r: "handle_ogm P now frame q reply b = Some (Consumed, reply', b')" "engine_ok P b'"
      "next_hop b' now (self_ident a) = Some (self_ident a)"
      "update_mcast_membership P (self_ident a) frame b = Some b1" "mcast_members b' = mcast_members b1"
    using first_ogm_learned [OF assms(1,2) acc, of now q reply] assms(7,8) resets_fit_overflows [OF assms(2,9)] by (auto simp: orig)
  have "find_tvlv (own_tail (local_mcast a)) TvMcast =
      (if local_mcast a = [] then None else Some (macs_bytes (local_mcast a)))"
    using assms(4) by (intro own_tail_find) simp
  then have groups: "(case find_tvlv (drop OGM_SIZE (lf_payload frame)) TvMcast of None \<Rightarrow> [] | Some v \<Rightarrow> mac_chunks v)
      = local_mcast a"
    by (simp add: bs)
  have "handle_rx P push now frame q reply s b = Some (Consumed, reply', s, b')"
    using handle_rx_ogm [OF _ bs, of P push now q reply s b] r(1) assms(6) by (simp add: own_ogm_def)
  with r membership_table [OF assms(1,2), of "self_ident a" frame] groups show ?thesis by auto
qed

text \<open>
  C17. The two-node loop guard. What a router transmits after re-flooding an OGM is refused by the
  neighbour it heard that OGM from, because the stamp in it survives the trimming to the wire
  length: no route, membership or timer of that neighbour changes and it transmits nothing.
\<close>

theorem reflood_ignored_by_sender:
  assumes "profile_ok P" "engine_ok P b" "handle_rx P push now frame q (scratchpad buf) s b = Some (act, reply, s', b')"
    and "frame_packet_type frame = Some Ogm" "consumed_forward (Some Ogm) tx_data frame reply = Some f"
    and "self_ident a = lf_src frame"
  shows "\<exists>a'. handle_rx P push_a now_a (sent_by (self_ident b) f) q_a reply_a s_a a = Some (Consumed, reply_a, s_a, a')
    \<and> originator_table a' = originator_table a \<and> mcast_members a' = mcast_members a \<and> ogm_timers a' = ogm_timers a"
proof -
  obtain h n where f: "fd_protocol f = ETH_P_BATMAN" "ogm_read (fd_payload f) = Some (h, n)"
      "ogm_packet_type h = packet_type_as_u8 Ogm" "ogm_version h = BATMAN_VERSION"
      "prev_sender (take (unat (ogm_tvlv_len h)) n) = Some (lf_src frame)"
    by (rule reflood_on_wire [OF assms(1-5)])
  have "fd_payload f = ogm_write h @ n" by (rule ogm_codec.write_read [OF f(2)])
  then have "handle_rx P push_a now_a (sent_by (self_ident b) f) q_a reply_a s_a a =
      map_option (\<lambda>(act, reply, e). (act, reply, s_a, e)) (handle_ogm P now_a (sent_by (self_ident b) f) q_a reply_a a)"
    using f(1,3,4) by (intro handle_rx_ogm) (simp_all add: sent_by_def)
  moreover have "\<nexists>ogm tail. ogm_accepted a (sent_by (self_ident b) f) ogm tail"
    using f(2,5) assms(6) by (auto simp: ogm_accepted_def sent_by_def)
  ultimately show ?thesis
    using handle_ogm_refused [of a "sent_by (self_ident b) f" P now_a q_a reply_a] by auto
qed

text \<open>
  C16. Relays end. However the routing tables of the nodes it meets are set, loops included, a
  unicast or credential packet is relayed fewer times than its TTL; each relay transmits exactly
  the header with a smaller TTL and the untouched payload, with no byte of the relay's buffer
  behind it.
\<close>

theorem relays_bounded_by_ttl:
  assumes "handle = handle_unicast \<or> handle = handle_credential" "rp_packet_type h \<noteq> packet_type_as_u8 Ogm"
    and "lf_payload frame = routed_write h @ inner" "relay_chain handle nodes frame = Some frame'" "nodes \<noteq> []"
  shows "length nodes < unat (rp_ttl h)
    \<and> (\<exists>h'. lf_payload frame' = routed_write h' @ inner \<and> rp_dest h' = rp_dest h
        \<and> unat (rp_ttl h') = unat (rp_ttl h) - length nodes)"
  using assms unicast_relay.chain_ttl [OF assms(2,3), of nodes frame'] credential_relay.chain_ttl [OF assms(2,3), of nodes frame']
    unicast_relay.funpow_dest [of "length nodes" h]
  by (metis (no_types, lifting))

text \<open>
  C15. Delivery end to end. Along nodes whose next hops lead to the destination, a unicast whose TTL
  exceeds their number and which fits their buffers arrives: the last relay addresses it to the
  destination, which hands exactly the original payload up and transmits nothing.
\<close>

theorem unicast_delivered:
  assumes "rp_packet_type h = packet_type_as_u8 Unicast" "lf_payload frame = routed_write h @ inner"
    and "on_route (rp_dest h) (ROUTED_SIZE + length inner) nodes" "nodes \<noteq> []" "length nodes < unat (rp_ttl h)"
    and "self_ident d = rp_dest h"
  shows "\<exists>frame' h'. relay_chain handle_unicast nodes frame = Some frame' \<and> lf_dst frame' = rp_dest h
    \<and> routed_read (lf_payload frame') = Some (h', inner)
    \<and> handle_unicast now frame' reply d = (DeliverLocal, reply, d)"
proof -
  have ty: "rp_packet_type h \<noteq> packet_type_as_u8 Ogm" using assms(1) by simp
  obtain frame' where f: "relay_chain handle_unicast nodes frame = Some frame'" "lf_dst frame' = rp_dest h"
      "lf_payload frame' = routed_write ((decrement_ttl ^^ length nodes) h) @ inner"
    using unicast_relay.chain_delivers [OF ty assms(2) refl assms(3,5)] assms(4) by blast
  moreover have "handle_unicast now frame' reply d = (DeliverLocal, reply, d)"
    using assms(6) unicast_relay.funpow_dest by (intro unicast_relay.delivered_at [OF f(3)]) simp
  ultimately show ?thesis by (auto simp: routed_codec.read_write)
qed

text \<open>
  A probe measures its path. An echo probe that left its source with hop count zero and was
  relayed by \<open>n\<close> nodes arrives with hop count \<open>n\<close> and a TTL smaller by \<open>n\<close>; the 8-bit
  hop count cannot saturate, because the TTL runs out first.
\<close>

theorem probe_counts_hops:
  assumes "ec_packet_type h \<noteq> packet_type_as_u8 Ogm" "lf_payload frame = echo_write h @ pad" "ec_hops h = 0"
    and "relay_chain handle_echo nodes frame = Some frame'" "nodes \<noteq> []"
  shows "\<exists>h'. lf_payload frame' = echo_write h' @ pad \<and> unat (ec_hops h') = length nodes
    \<and> unat (ec_ttl h') = unat (ec_ttl h) - length nodes \<and> length nodes < unat (ec_ttl h)"
proof -
  have "unat (ec_ttl h) < 256" using unsigned_less [of "ec_ttl h", where 'a = nat] by simp
  with probe_relay.chain_ttl [OF assms(1,2,4)] assms(3,5) echo_hop_pow [of "length nodes" h] show ?thesis
    by (auto intro!: exI [of _ "(echo_hop ^^ length nodes) h"])
qed

section \<open>Witnesses\<close>

theorem reachable_well_formed_witness:
  "engine_ok sample_profile (engine_new (Mac 0 0 0 0 0 1))
     \<and> next_hop (engine_new (Mac 0 0 0 0 0 1)) 0 (Mac 0 0 0 0 0 1) = None"
  using reachable_well_formed [OF reachable.new sample_profile_ok, of "Mac 0 0 0 0 0 1" 0] by blast

theorem announcements_in_window_witness:
  "classify OGM_BANDS (sequence_number sample_node) (sequence_number (ticked 0 sample_node)) = Advance"
proof -
  have "perform_all sample_profile [ProducePeriodic 0 (replicate 64 0)] sample_node = Some (ticked 0 sample_node)"
    by (simp add: produce_periodic_broadcast_eq Let_def tick_fits_def) (simp add: own_tail_def engine_new_def header_sizes)
  from announcements_in_window [OF sample_profile_ok engine_new_ok this] show ?thesis by simp
qed

theorem announcement_discovers_witness:
  "\<exists>bs buf' a' reply' b'. produce_periodic_broadcast 0 (replicate 64 0) group_sample = Some (bs, buf', a')
     \<and> handle_rx sample_profile unit_sink 0 (sample_frame (Mac 0 0 0 0 0 1) bs) None (scratchpad []) ()
         (engine_new (Mac 0 0 0 0 0 7)) = Some (Consumed, reply', (), b')
     \<and> next_hop b' 0 (Mac 0 0 0 0 0 1) = Some (Mac 0 0 0 0 0 1)
     \<and> filter (\<lambda>x. snd x = Mac 0 0 0 0 0 1) (mcast_members b') \<noteq> []"
proof -
  let ?b = "engine_new (Mac 0 0 0 0 0 7)"
  have a: "self_ident group_sample = Mac 0 0 0 0 0 1" "local_mcast group_sample = [Mac 1 0 0x5e 0 0 7]"
    by (simp_all add: group_sample_def sample_defs)
  obtain bs buf' a' where p: "produce_periodic_broadcast 0 (replicate 64 0) group_sample = Some (bs, buf', a')"
    by (simp add: produce_periodic_broadcast_eq Let_def own_tail_def a header_sizes tick_fits_def resets_fit_def)
       (simp add: group_sample_def sample_defs)
  have b: "proof_current ?b 0 (self_ident group_sample)" "\<not> im_contains (originator_table ?b) (self_ident group_sample)"
    "self_ident group_sample \<noteq> self_ident ?b" "\<not> overflows 0 ?b"
    by (simp_all add: proof_current_def engine_new_def im_contains_def a overflows_def map_filter_def)
  have len: "6 * length (local_mcast group_sample) + TVLV_HDR_LEN < 2 ^ 16" by (simp add: a header_sizes)
  obtain reply' b' where r: "handle_rx sample_profile unit_sink 0 (sample_frame (Mac 0 0 0 0 0 1) bs) None (scratchpad []) () ?b =
        Some (Consumed, reply', (), b')" "next_hop b' 0 (Mac 0 0 0 0 0 1) = Some (Mac 0 0 0 0 0 1)"
      "map fst (filter (\<lambda>x. snd x = Mac 0 0 0 0 0 1) (mcast_members b')) = take 64 [Mac 1 0 0x5e 0 0 7]"
    using announcement_discovers [OF sample_profile_ok engine_new_ok p len b(3) refl b(1,2,4),
        where push = unit_sink and q = None and reply = "scratchpad []" and s = "()"]
    by (auto simp: a sample_frame_def engine_new_def default_profile_def MAX_MCAST_MEMBERS_def)
  have "filter (\<lambda>x. snd x = Mac 0 0 0 0 0 1) (mcast_members b') \<noteq> []"
    using r(3) by auto
  with p r(1,2) show ?thesis by blast
qed

theorem reflood_ignored_by_sender_witness:
  "\<exists>reply s' b' f a'. handle_rx sample_profile unit_sink 0 sample_rx None (scratchpad (replicate 64 0)) () sample_node
       = Some (Consumed, reply, s', b')
     \<and> consumed_forward (Some Ogm) True sample_rx reply = Some f
     \<and> handle_rx sample_profile unit_sink 0 (sent_by (Mac 0 0 0 0 0 1) f) None (scratchpad []) () (engine_new (Mac 0 0 0 0 0 2))
       = Some (Consumed, scratchpad [], (), a')"
proof -
  let ?a = "engine_new (Mac 0 0 0 0 0 2)"
  obtain reply b' where h: "handle_ogm sample_profile 0 sample_rx None (scratchpad (replicate 64 0)) sample_node =
      Some (Consumed, reply, b')" "fd_protocol reply = ETH_P_BATMAN"
    by (rule sample_rx_flooded)
  have rx: "handle_rx sample_profile unit_sink 0 sample_rx None (scratchpad (replicate 64 0)) () sample_node =
      Some (Consumed, reply, (), b')"
    using h(1) by (subst handle_rx_ogm [of _ sample_ogm "[]"]) (simp_all add: sample_frame_def sample_ogm_def)
  have ty: "frame_packet_type sample_rx = Some Ogm"
    using packet_type_roundtrip [of Ogm]
    by (simp add: frame_packet_type_def sample_frame_def ogm_write_def) (simp add: sample_ogm_def)
  obtain f where f: "consumed_forward (Some Ogm) True sample_rx reply = Some f"
    using h(2) by (simp add: consumed_forward_def ETH_P_BATMAN_def)
  have "self_ident ?a = lf_src sample_rx" by (simp add: engine_new_def sample_frame_def)
  moreover have "self_ident sample_node = Mac 0 0 0 0 0 1" by (simp add: engine_new_def)
  ultimately show ?thesis
    using rx f reflood_ignored_by_sender [OF sample_profile_ok engine_new_ok rx ty f, where a = ?a
        and push_a = unit_sink and now_a = 0 and q_a = None and reply_a = "scratchpad []" and s_a = "()"]
    by auto
qed

text \<open>A second relay, next to the destination of the sample packets.\<close>

definition sample_relay :: batman_engine where
  "sample_relay = sample_engine\<lparr>self_ident := Mac 0 0 0 0 0 2,
     originator_table := [(Mac 0 0 0 0 0 9, sample_record\<lparr>or_paths := [sample_path (Mac 0 0 0 0 0 9) 200]\<rparr>)]\<rparr>"

definition sample_nodes :: "node list" where
  "sample_nodes = [(2000000000, replicate 32 0, sample_engine), (2000000000, replicate 32 0, sample_relay)]"

lemma sample_relay_route: "next_hop sample_relay 2000000000 (Mac 0 0 0 0 0 9) = Some (Mac 0 0 0 0 0 9)"
  by (simp add: sample_relay_def sample_eval)

lemma sample_relay_ident: "self_ident sample_relay = Mac 0 0 0 0 0 2"
  by (simp add: sample_relay_def)

theorem unicast_delivered_witness:
  "\<exists>frame' h'. relay_chain handle_unicast sample_nodes (sample_frame (Mac 0 0 0 0 0 7) (routed_write sample_routed @ [42]))
       = Some frame' \<and> lf_dst frame' = Mac 0 0 0 0 0 9 \<and> routed_read (lf_payload frame') = Some (h', [42])"
proof -
  have "on_route (rp_dest sample_routed) (ROUTED_SIZE + length [42 :: u8]) sample_nodes"
    by (simp add: sample_nodes_def sample_route sample_relay_route sample_ident sample_relay_ident sample_routed_def header_sizes)
  moreover have "lf_payload (sample_frame (Mac 0 0 0 0 0 7) (routed_write sample_routed @ [42])) = routed_write sample_routed @ [42]"
    by (simp add: sample_frame_def)
  moreover have "rp_packet_type sample_routed = packet_type_as_u8 Unicast" "sample_nodes \<noteq> []"
    "length sample_nodes < unat (rp_ttl sample_routed)" "rp_dest sample_routed = Mac 0 0 0 0 0 9"
    "self_ident (engine_new (Mac 0 0 0 0 0 9)) = rp_dest sample_routed"
    by (simp_all add: sample_routed_def sample_nodes_def engine_new_def)
  ultimately show ?thesis
    using unicast_delivered [of sample_routed _ "[42]" sample_nodes "engine_new (Mac 0 0 0 0 0 9)"] by metis
qed

theorem relays_bounded_by_ttl_witness:
  "\<exists>frame' h'. relay_chain handle_unicast sample_nodes (sample_frame (Mac 0 0 0 0 0 7) (routed_write sample_routed @ [42]))
       = Some frame' \<and> lf_payload frame' = routed_write h' @ [42] \<and> unat (rp_ttl h') = 48"
proof -
  let ?f = "sample_frame (Mac 0 0 0 0 0 7) (routed_write sample_routed @ [42])"
  have p: "lf_payload ?f = routed_write sample_routed @ [42]" by (simp add: sample_frame_def)
  have ty: "rp_packet_type sample_routed \<noteq> packet_type_as_u8 Ogm" by (simp add: sample_routed_def)
  have "on_route (rp_dest sample_routed) (ROUTED_SIZE + length [42 :: u8]) sample_nodes"
    by (simp add: sample_nodes_def sample_route sample_relay_route sample_ident sample_relay_ident sample_routed_def header_sizes)
  moreover have "length sample_nodes < unat (rp_ttl sample_routed)"
    by (simp add: sample_nodes_def sample_routed_def)
  ultimately obtain frame' where f: "relay_chain handle_unicast sample_nodes ?f = Some frame'"
    using unicast_relay.chain_delivers [OF ty p refl] by blast
  have "sample_nodes \<noteq> []" "length sample_nodes = 2" "unat (rp_ttl sample_routed) = 50"
    by (simp_all add: sample_nodes_def sample_routed_def)
  with relays_bounded_by_ttl [OF _ ty p f] f show ?thesis by auto
qed

theorem probe_counts_hops_witness:
  "\<exists>frame' h'. relay_chain handle_echo sample_nodes
       (sample_frame (Mac 0 0 0 0 0 7) (echo_write (sample_echo\<lparr>ec_hops := 0\<rparr>) @ [42]))
       = Some frame' \<and> lf_payload frame' = echo_write h' @ [42] \<and> unat (ec_hops h') = 2"
proof -
  let ?h = "sample_echo\<lparr>ec_hops := 0\<rparr>"
  let ?f = "sample_frame (Mac 0 0 0 0 0 7) (echo_write ?h @ [42])"
  have p: "lf_payload ?f = echo_write ?h @ [42]" by (simp add: sample_frame_def)
  have ty: "ec_packet_type ?h \<noteq> packet_type_as_u8 Ogm" by (simp add: sample_echo_def)
  have "on_route (ec_dest ?h) (ECHO_SIZE + length [42 :: u8]) sample_nodes"
    by (simp add: sample_nodes_def sample_route sample_relay_route sample_ident sample_relay_ident sample_echo_def header_sizes)
  moreover have "length sample_nodes < unat (ec_ttl ?h)"
    by (simp add: sample_nodes_def sample_echo_def)
  ultimately obtain frame' where f: "relay_chain handle_echo sample_nodes ?f = Some frame'"
    using probe_relay.chain_delivers [OF ty p refl] by blast
  have "sample_nodes \<noteq> []" "length sample_nodes = 2" by (simp_all add: sample_nodes_def)
  with probe_counts_hops [OF ty p _ f] f show ?thesis by auto
qed

end
